(* ===== verification/Prelude.thy ===== *)
theory Prelude
  imports Main "HOL-Library.Word"
begin

text \<open>
  Shared vocabulary of the development: the widths of the C integers, the error codes of
  RT-Thread, the wrap-around comparison of tick counts that timers, LEDs and buttons use, and
  the generic facts on words and lists that several components need.

  \<^item> \<open>uint8_t\<close>, \<open>uint16_t\<close>, \<open>uint32_t\<close> are words of their width, so that
    every addition and subtraction wraps as it does in C. \<open>int\<close> values that the code only
    compares and stores (signal strengths) are \<^typ>\<open>int\<close>.
  \<^item> \<open>rt_err_t\<close> is the datatype \<open>rt_err\<close>; the constructor \<open>RT_ETIMEOUT\<close> stands for
    the returned value \<open>-RT_ETIMEOUT\<close>, and so on.
\<close>

unbundle bit_operations_syntax

type_synonym u8 = "8 word"
type_synonym u16 = "16 word"
type_synonym u32 = "32 word"

section \<open>Collections of simplification rules\<close>

named_theorems frame_simps "operations leave the fields of other components alone"
named_theorems step_defs "definitions of the handlers of the thread bodies"

section \<open>Error codes\<close>

datatype rt_err = RT_EOK | RT_ERROR | RT_ETIMEOUT | RT_EFULL | RT_ENOMEM | RT_EINVAL

section \<open>Tick arithmetic\<close>

definition RT_TICK_MAX :: u32 where
  "RT_TICK_MAX = 0xFFFFFFFF"

text \<open>The test \<open>(now - t) < RT_TICK_MAX / 2\<close> of timers, LEDs and buttons.\<close>

definition tick_due :: "u32 \<Rightarrow> u32 \<Rightarrow> bool" where
  "tick_due now t \<longleftrightarrow> now - t < RT_TICK_MAX div 2"

definition HALF :: nat where
  "HALF = 0x7FFFFFFF"

lemma tick_max_half: "RT_TICK_MAX div 2 = (0x7FFFFFFF :: u32)"
  by (simp add: RT_TICK_MAX_def)

lemma tick_due_nat: "tick_due now t \<longleftrightarrow> unat (now - t) < HALF"
  by (simp add: tick_due_def tick_max_half word_less_nat_alt HALF_def)

lemma tick_due_refl [simp]: "tick_due t t"
  by (simp add: tick_due_nat HALF_def)

lemma unat_less_32: "unat (x :: u32) < 2 ^ 32"
  by (rule order_less_le_trans [OF unsigned_less]) simp

lemma unat_diff_32:
  fixes x y :: u32
  shows "unat (x - y) = (if unat y \<le> unat x then unat x - unat y else 2 ^ 32 + unat x - unat y)"
  using unat_less_32 [of x] unat_less_32 [of y]
  by (auto simp add: unat_sub_if_size word_size)

text \<open>
  Seen from a common base \<open>b\<close> that is less than half the tick range away, the wrapping
  comparison is the order of the distances from the base.
\<close>

lemma tick_due_rel:
  assumes "unat (x - b) < HALF" and "unat (y - b) < HALF"
  shows "tick_due x y \<longleftrightarrow> unat (y - b) \<le> unat (x - b)"
proof -
  have eq: "x - y = (x - b) - (y - b)" by simp
  show ?thesis
    unfolding tick_due_nat
    using assms unat_less_32 [of "x - b"] unat_less_32 [of "y - b"]
    by (subst eq, subst unat_diff_32) (auto simp: HALF_def)
qed

lemma tick_not_due_future:
  assumes "0 < d" and "unat (d :: u32) < HALF"
  shows "\<not> tick_due now (now + d)"
proof -
  have "now - (now + d) = 0 - d" by simp
  moreover have "unat (0 - d) = 2 ^ 32 - unat d"
    using assms(1) by (subst unat_diff_32) (auto simp: word_less_nat_alt)
  ultimately show ?thesis
    using assms(2) unat_less_32 [of d] by (simp only: tick_due_nat) (simp add: HALF_def)
qed

section \<open>Counters\<close>

lemma unat_Suc_less:
  assumes "(i :: 'a::len word) < n"
  shows "unat (i + 1) = Suc (unat i)"
proof -
  have lt: "unat i < unat n" using assms by (simp add: word_less_nat_alt)
  have "i + 1 \<noteq> 0"
  proof
    assume "i + 1 = 0"
    then have "i = - 1" by (simp add: eq_neg_iff_add_eq_0)
    with assms show False using word_n1_ge [of n] by auto
  qed
  then show ?thesis by (simp add: unatSuc add.commute)
qed

section \<open>Bits of flag bytes\<close>

lemma flag_clear_bit: "((x :: 'a::len word) AND NOT m) AND m = 0"
  by (simp add: word_bw_assocs)

lemma flag_set_bit: "((x :: 'a::len word) OR m) AND m = m"
  by (rule bit_word_eqI) (auto simp: bit_simps)

lemma flag_clear_other:
  assumes "(m :: 'a::len word) AND k = 0"
  shows "(x AND NOT m) AND k = x AND k"
proof (rule bit_word_eqI)
  fix n assume "n < LENGTH('a)"
  have "\<not> (bit m n \<and> bit k n)"
    using arg_cong [OF assms, of "\<lambda>w. bit w n"] by (simp add: bit_simps)
  then show "bit ((x AND NOT m) AND k) n = bit (x AND k) n"
    using \<open>n < LENGTH('a)\<close> by (auto simp: bit_simps)
qed

lemma flag_set_other:
  assumes "(m :: 'a::len word) AND k = 0"
  shows "(x OR m) AND k = x AND k"
proof (rule bit_word_eqI)
  fix n assume "n < LENGTH('a)"
  have "\<not> (bit m n \<and> bit k n)"
    using arg_cong [OF assms, of "\<lambda>w. bit w n"] by (simp add: bit_simps)
  then show "bit ((x OR m) AND k) n = bit (x AND k) n"
    using \<open>n < LENGTH('a)\<close> by (auto simp: bit_simps)
qed

lemmas flag_bits = flag_clear_bit flag_set_bit flag_clear_other flag_set_other

section \<open>Lists\<close>

lemma distinct_remove1_set: "distinct xs \<Longrightarrow> set (remove1 x xs) = set xs - {x}"
  by (simp add: set_remove1_eq)

lemma remove1_Cons_self: "remove1 x (x # xs) = xs"
  by simp

lemma sorted_wrt_remove1: "sorted_wrt P xs \<Longrightarrow> sorted_wrt P (remove1 x xs)"
proof (induction xs)
  case (Cons a xs)
  then show ?case
    using set_remove1_subset [of x xs] by auto
qed simp

end
