(* ===== verification/Timer.thy ===== *)
theory Timer
  imports Prelude
begin

text \<open>
  The kernel's timers: \<open>rt-thread/src/timer.c\<close> and \<open>clock.c\<close>.

  State: \<open>timer_sys\<close> holds the tick counter \<open>rt_tick\<close>, the timer objects (a handle
  \<open>rt_timer_t\<close> is a \<^typ>\<open>nat\<close>), the hard and the soft timer list
  (\<open>RT_TIMER_SKIP_LIST_LEVEL\<close> is 1, so a skip list is one list), and the temporary list on
  which the check functions park the timer whose callback runs. \<open>halted\<close> records a failed
  \<open>RT_ASSERT\<close>, after which the code never returns.

  A timeout function is a parameter of the checks, \<open>cb t\<close> for the timer \<open>t\<close>: it may
  change any part of the state, the timers included.
\<close>

section \<open>State\<close>

record timer =
  flag :: u8
  init_tick :: u32
  timeout_tick :: u32

record timer_sys =
  tick :: u32
  timers :: "nat \<Rightarrow> timer"
  timer_list :: "nat list"
  soft_timer_list :: "nat list"
  hard_tmp :: "nat list"
  soft_tmp :: "nat list"
  soft_timer_idle :: bool
  timer_thread_suspended :: bool
  halted :: bool

definition RT_TIMER_FLAG_ACTIVATED :: u8 where "RT_TIMER_FLAG_ACTIVATED = 1"
definition RT_TIMER_FLAG_PERIODIC :: u8 where "RT_TIMER_FLAG_PERIODIC = 2"
definition RT_TIMER_FLAG_SOFT_TIMER :: u8 where "RT_TIMER_FLAG_SOFT_TIMER = 4"

lemmas timer_flag_defs =
  RT_TIMER_FLAG_ACTIVATED_def RT_TIMER_FLAG_PERIODIC_def RT_TIMER_FLAG_SOFT_TIMER_def

definition timer_active :: "timer \<Rightarrow> bool" where
  "timer_active t \<longleftrightarrow> flag t AND RT_TIMER_FLAG_ACTIVATED \<noteq> 0"

definition timer_periodic :: "timer \<Rightarrow> bool" where
  "timer_periodic t \<longleftrightarrow> flag t AND RT_TIMER_FLAG_PERIODIC \<noteq> 0"

definition timer_soft :: "timer \<Rightarrow> bool" where
  "timer_soft t \<longleftrightarrow> flag t AND RT_TIMER_FLAG_SOFT_TIMER \<noteq> 0"

definition upd_timer :: "nat \<Rightarrow> (timer \<Rightarrow> timer) \<Rightarrow> 'a timer_sys_scheme \<Rightarrow> 'a timer_sys_scheme" where
  "upd_timer t f s = s\<lparr>timers := (timers s)(t := f (timers s t))\<rparr>"

section \<open>Clock\<close>

definition rt_tick_get :: "'a timer_sys_scheme \<Rightarrow> u32" where
  "rt_tick_get s = tick s"

text \<open>
  \<open>rt_tick_from_millisecond\<close> with \<open>RT_TICK_PER_SECOND\<close> = 1000; the argument is a signed
  32-bit value, the divisions of the non-negative branch are C's.
\<close>

definition rt_tick_from_millisecond :: "int \<Rightarrow> u32" where
  "rt_tick_from_millisecond ms =
     (if ms < 0 then - 1
      else word_of_int (1000 * (ms div 1000)) + word_of_int ((1000 * (ms mod 1000) + 999) div 1000))"

section \<open>Operations\<close>

definition timer_init :: "nat \<Rightarrow> u32 \<Rightarrow> u8 \<Rightarrow> 'a timer_sys_scheme \<Rightarrow> 'a timer_sys_scheme" where
  "timer_init t time fl s =
     s\<lparr>timers := (timers s)(t := \<lparr>flag = fl AND NOT RT_TIMER_FLAG_ACTIVATED,
                                  init_tick = time, timeout_tick = 0\<rparr>)\<rparr>"

definition timer_remove :: "nat \<Rightarrow> 'a timer_sys_scheme \<Rightarrow> 'a timer_sys_scheme" where
  "timer_remove t s =
     s\<lparr>timer_list := remove1 t (timer_list s),
       soft_timer_list := remove1 t (soft_timer_list s),
       hard_tmp := remove1 t (hard_tmp s),
       soft_tmp := remove1 t (soft_tmp s)\<rparr>"

definition clear_active :: "timer \<Rightarrow> timer" where
  "clear_active t = t\<lparr>flag := flag t AND NOT RT_TIMER_FLAG_ACTIVATED\<rparr>"

definition timer_list_next_timeout :: "nat list \<Rightarrow> 'a timer_sys_scheme \<Rightarrow> u32" where
  "timer_list_next_timeout xs s =
     (case xs of [] \<Rightarrow> RT_TICK_MAX | t # _ \<Rightarrow> timeout_tick (timers s t))"

definition rt_timer_detach :: "nat \<Rightarrow> 'a timer_sys_scheme \<Rightarrow> 'a timer_sys_scheme" where
  "rt_timer_detach t s = upd_timer t clear_active (timer_remove t s)"

text \<open>
  The insertion loop of \<open>rt_timer_start\<close>: walk past every timer that expires no later than
  the new one, so that among equal expiries the earlier started is called first.
\<close>

fun timer_insert :: "(nat \<Rightarrow> u32) \<Rightarrow> nat \<Rightarrow> nat list \<Rightarrow> nat list" where
  "timer_insert tmo n [] = [n]"
| "timer_insert tmo n (p # ps) =
     (if tmo p - tmo n = 0 then p # timer_insert tmo n ps
      else if tmo p - tmo n < RT_TICK_MAX div 2 then n # p # ps
      else p # timer_insert tmo n ps)"

definition rt_timer_start :: "nat \<Rightarrow> 'a timer_sys_scheme \<Rightarrow> 'a timer_sys_scheme" where
  "rt_timer_start t s =
     (let s1 = upd_timer t clear_active (timer_remove t s)
      in if \<not> init_tick (timers s1 t) < RT_TICK_MAX div 2 then s1\<lparr>halted := True\<rparr>
         else
           let s2 = upd_timer t (\<lambda>x. x\<lparr>timeout_tick := tick s1 + init_tick x\<rparr>) s1;
               tmo = (\<lambda>i. timeout_tick (timers s2 i));
               s3 = (if timer_soft (timers s2 t)
                     then s2\<lparr>soft_timer_list := timer_insert tmo t (soft_timer_list s2)\<rparr>
                     else s2\<lparr>timer_list := timer_insert tmo t (timer_list s2)\<rparr>);
               s4 = upd_timer t (\<lambda>x. x\<lparr>flag := flag x OR RT_TIMER_FLAG_ACTIVATED\<rparr>) s3
           in if timer_soft (timers s4 t) \<and> soft_timer_idle s4 \<and> timer_thread_suspended s4
              then s4\<lparr>timer_thread_suspended := False\<rparr> else s4)"

definition rt_timer_stop :: "nat \<Rightarrow> 'a timer_sys_scheme \<Rightarrow> rt_err \<times> 'a timer_sys_scheme" where
  "rt_timer_stop t s =
     (if \<not> timer_active (timers s t) then (RT_ERROR, s)
      else (RT_EOK, upd_timer t clear_active (timer_remove t s)))"

datatype timer_cmd = CTRL_SET_TIME u32 | CTRL_GET_TIME | CTRL_SET_ONESHOT | CTRL_SET_PERIODIC
  | CTRL_GET_STATE

text \<open>The second component is what the command writes through its argument pointer.\<close>

fun rt_timer_control ::
  "nat \<Rightarrow> timer_cmd \<Rightarrow> 'a timer_sys_scheme \<Rightarrow> u32 option \<times> 'a timer_sys_scheme" where
  "rt_timer_control t CTRL_GET_TIME s = (Some (init_tick (timers s t)), s)"
| "rt_timer_control t (CTRL_SET_TIME v) s = (None, upd_timer t (\<lambda>x. x\<lparr>init_tick := v\<rparr>) s)"
| "rt_timer_control t CTRL_SET_ONESHOT s =
     (None, upd_timer t (\<lambda>x. x\<lparr>flag := flag x AND NOT RT_TIMER_FLAG_PERIODIC\<rparr>) s)"
| "rt_timer_control t CTRL_SET_PERIODIC s =
     (None, upd_timer t (\<lambda>x. x\<lparr>flag := flag x OR RT_TIMER_FLAG_PERIODIC\<rparr>) s)"
| "rt_timer_control t CTRL_GET_STATE s =
     (Some (if timer_active (timers s t) then 1 else 0), s)"

section \<open>Expiry\<close>

text \<open>One turn of the loop of \<open>rt_timer_check\<close>; \<^const>\<open>None\<close> is the loop's exit.\<close>

definition timer_check_turn ::
  "(nat \<Rightarrow> 'a timer_sys_scheme \<Rightarrow> 'a timer_sys_scheme) \<Rightarrow> u32 \<times> 'a timer_sys_scheme
     \<Rightarrow> (u32 \<times> 'a timer_sys_scheme) option" where
  "timer_check_turn cb = (\<lambda>(current_tick, s).
     case timer_list s of
       [] \<Rightarrow> None
     | t # _ \<Rightarrow>
         if \<not> current_tick - timeout_tick (timers s t) < RT_TICK_MAX div 2 then None
         else
           let s1 = timer_remove t s;
               s2 = (if \<not> timer_periodic (timers s1 t) then upd_timer t clear_active s1 else s1);
               s3 = cb t (s2\<lparr>hard_tmp := t # hard_tmp s2\<rparr>);
               now = tick s3
           in if hard_tmp s3 = [] then Some (now, s3)
              else
                let s4 = s3\<lparr>hard_tmp := remove1 t (hard_tmp s3)\<rparr>
                in if timer_periodic (timers s4 t) \<and> timer_active (timers s4 t)
                   then Some (now, rt_timer_start t (upd_timer t clear_active s4))
                   else Some (now, s4))"

fun rt_timer_check_loop ::
  "nat \<Rightarrow> (nat \<Rightarrow> 'a timer_sys_scheme \<Rightarrow> 'a timer_sys_scheme) \<Rightarrow> u32 \<times> 'a timer_sys_scheme
     \<Rightarrow> 'a timer_sys_scheme option" where
  "rt_timer_check_loop 0 cb c = None"
| "rt_timer_check_loop (Suc n) cb c =
     (case timer_check_turn cb c of None \<Rightarrow> Some (snd c) | Some c' \<Rightarrow> rt_timer_check_loop n cb c')"

definition rt_timer_check ::
  "nat \<Rightarrow> (nat \<Rightarrow> 'a timer_sys_scheme \<Rightarrow> 'a timer_sys_scheme) \<Rightarrow> 'a timer_sys_scheme
     \<Rightarrow> 'a timer_sys_scheme option" where
  "rt_timer_check fuel cb s = rt_timer_check_loop fuel cb (tick s, s\<lparr>hard_tmp := []\<rparr>)"

text \<open>The soft timers re-read the tick in every turn and are busy while a callback runs.\<close>

definition soft_timer_check_turn ::
  "(nat \<Rightarrow> 'a timer_sys_scheme \<Rightarrow> 'a timer_sys_scheme) \<Rightarrow> 'a timer_sys_scheme
     \<Rightarrow> 'a timer_sys_scheme option" where
  "soft_timer_check_turn cb s =
     (case soft_timer_list s of
       [] \<Rightarrow> None
     | t # _ \<Rightarrow>
         if \<not> tick s - timeout_tick (timers s t) < RT_TICK_MAX div 2 then None
         else
           let s1 = timer_remove t s;
               s2 = (if \<not> timer_periodic (timers s1 t) then upd_timer t clear_active s1 else s1);
               s3 = (cb t (s2\<lparr>soft_tmp := t # soft_tmp s2, soft_timer_idle := False\<rparr>))
                      \<lparr>soft_timer_idle := True\<rparr>
           in if soft_tmp s3 = [] then Some s3
              else
                let s4 = s3\<lparr>soft_tmp := remove1 t (soft_tmp s3)\<rparr>
                in if timer_periodic (timers s4 t) \<and> timer_active (timers s4 t)
                   then Some (rt_timer_start t (upd_timer t clear_active s4))
                   else Some s4)"

fun soft_timer_check_loop ::
  "nat \<Rightarrow> (nat \<Rightarrow> 'a timer_sys_scheme \<Rightarrow> 'a timer_sys_scheme) \<Rightarrow> 'a timer_sys_scheme
     \<Rightarrow> 'a timer_sys_scheme option" where
  "soft_timer_check_loop 0 cb s = None"
| "soft_timer_check_loop (Suc n) cb s =
     (case soft_timer_check_turn cb s of None \<Rightarrow> Some s | Some s' \<Rightarrow> soft_timer_check_loop n cb s')"

definition rt_soft_timer_check ::
  "nat \<Rightarrow> (nat \<Rightarrow> 'a timer_sys_scheme \<Rightarrow> 'a timer_sys_scheme) \<Rightarrow> 'a timer_sys_scheme
     \<Rightarrow> 'a timer_sys_scheme option" where
  "rt_soft_timer_check fuel cb s = soft_timer_check_loop fuel cb (s\<lparr>soft_tmp := []\<rparr>)"

section \<open>The insertion loop\<close>

text \<open>
  Expiry as a distance from a base tick \<open>b\<close>. All expiries of a list lie less than half
  the tick range after the base; this is what the code's comparison needs to be an order.
\<close>

definition rel_expiry :: "u32 \<Rightarrow> (nat \<Rightarrow> u32) \<Rightarrow> nat \<Rightarrow> nat" where
  "rel_expiry b tmo t = unat (tmo t - b)"

definition in_window :: "u32 \<Rightarrow> (nat \<Rightarrow> u32) \<Rightarrow> nat list \<Rightarrow> bool" where
  "in_window b tmo xs \<longleftrightarrow> (\<forall>t \<in> set xs. rel_expiry b tmo t < HALF)"

definition expiry_sorted :: "u32 \<Rightarrow> (nat \<Rightarrow> u32) \<Rightarrow> nat list \<Rightarrow> bool" where
  "expiry_sorted b tmo xs \<longleftrightarrow> in_window b tmo xs \<and> sorted (map (rel_expiry b tmo) xs)"

lemma set_timer_insert [simp]: "set (timer_insert tmo n xs) = insert n (set xs)"
  by (induction xs) auto

lemma length_timer_insert [simp]: "length (timer_insert tmo n xs) = Suc (length xs)"
  by (induction xs) auto

lemma distinct_timer_insert:
  "distinct xs \<Longrightarrow> n \<notin> set xs \<Longrightarrow> distinct (timer_insert tmo n xs)"
  by (induction xs) auto

lemma remove1_timer_insert: "n \<notin> set xs \<Longrightarrow> remove1 n (timer_insert tmo n xs) = xs"
  by (induction xs) auto

text \<open>
  Functional behaviour of the loop: the new timer goes behind every timer whose expiry is not
  later than its own, and in front of all the others.
\<close>

lemma timer_insert_step:
  assumes "rel_expiry b tmo n < HALF" and "rel_expiry b tmo p < HALF"
  shows "timer_insert tmo n (p # ps) =
    (if rel_expiry b tmo p \<le> rel_expiry b tmo n then p # timer_insert tmo n ps else n # p # ps)"
proof -
  have due: "tmo p - tmo n < RT_TICK_MAX div 2 \<longleftrightarrow> rel_expiry b tmo n \<le> rel_expiry b tmo p"
    using tick_due_rel [of "tmo p" b "tmo n"] assms by (simp add: tick_due_def rel_expiry_def)
  have eq: "tmo p - tmo n = 0 \<longleftrightarrow> rel_expiry b tmo p = rel_expiry b tmo n"
    by (auto simp: rel_expiry_def dest: word_unat_eq_iff [THEN iffD2])
  show ?thesis
    unfolding timer_insert.simps due eq by auto
qed

declare timer_insert.simps(2) [simp del]

lemma timer_insert_split:
  assumes "rel_expiry b tmo n < HALF" and "expiry_sorted b tmo xs"
  shows "timer_insert tmo n xs =
    takeWhile (\<lambda>p. rel_expiry b tmo p \<le> rel_expiry b tmo n) xs @ n #
    dropWhile (\<lambda>p. rel_expiry b tmo p \<le> rel_expiry b tmo n) xs"
  using assms
proof (induction xs)
  case (Cons p ps)
  then have "rel_expiry b tmo p < HALF" and "expiry_sorted b tmo ps"
    by (auto simp: expiry_sorted_def in_window_def)
  with Cons show ?case by (simp add: timer_insert_step [of b])
qed simp

lemma timer_insert_sorted:
  assumes "rel_expiry b tmo n < HALF" and "expiry_sorted b tmo xs"
  shows "expiry_sorted b tmo (timer_insert tmo n xs)"
  using assms
proof (induction xs)
  case (Cons p ps)
  then have "rel_expiry b tmo p < HALF" and "expiry_sorted b tmo ps"
    by (auto simp: expiry_sorted_def in_window_def)
  with Cons show ?case
    by (auto simp: timer_insert_step [of b] expiry_sorted_def in_window_def)
qed (simp add: expiry_sorted_def in_window_def)

lemma expiry_sorted_remove1: "expiry_sorted b tmo xs \<Longrightarrow> expiry_sorted b tmo (remove1 t xs)"
  unfolding expiry_sorted_def in_window_def sorted_map
  by (auto intro: sorted_wrt_remove1 dest: notin_set_remove1 set_remove1_subset [THEN subsetD])

lemma expiry_sorted_cong:
  "(\<And>t. t \<in> set xs \<Longrightarrow> f t = g t) \<Longrightarrow> expiry_sorted b f xs = expiry_sorted b g xs"
  by (auto simp: expiry_sorted_def in_window_def rel_expiry_def cong: map_cong)

section \<open>Invariant of the timer lists\<close>

definition expiry :: "'a timer_sys_scheme \<Rightarrow> nat \<Rightarrow> u32" where
  "expiry s t = timeout_tick (timers s t)"

text \<open>
  Seen from the base \<open>b\<close>: both lists are sorted by expiry and free of duplicates, a list
  holds only active timers of its kind, and every active timer is on a list (or parked by a
  check whose callback is running).
\<close>

definition timer_wf :: "u32 \<Rightarrow> 'a timer_sys_scheme \<Rightarrow> bool" where
  "timer_wf b s \<longleftrightarrow>
     distinct (timer_list s) \<and> distinct (soft_timer_list s) \<and>
     expiry_sorted b (expiry s) (timer_list s) \<and>
     expiry_sorted b (expiry s) (soft_timer_list s) \<and>
     (\<forall>t \<in> set (timer_list s). \<not> timer_soft (timers s t)) \<and>
     (\<forall>t \<in> set (soft_timer_list s). timer_soft (timers s t)) \<and>
     (\<forall>t. t \<in> set (timer_list s) \<union> set (soft_timer_list s) \<longrightarrow> timer_active (timers s t)) \<and>
     (\<forall>t. timer_active (timers s t) \<longrightarrow>
        t \<in> set (timer_list s) \<union> set (soft_timer_list s) \<union> set (hard_tmp s) \<union> set (soft_tmp s))"

lemma flag_masks [simp]:
  "(x AND NOT RT_TIMER_FLAG_ACTIVATED) AND RT_TIMER_FLAG_SOFT_TIMER = x AND RT_TIMER_FLAG_SOFT_TIMER"
  "(x AND NOT RT_TIMER_FLAG_ACTIVATED) AND RT_TIMER_FLAG_PERIODIC = x AND RT_TIMER_FLAG_PERIODIC"
  "(x OR RT_TIMER_FLAG_ACTIVATED) AND RT_TIMER_FLAG_SOFT_TIMER = x AND RT_TIMER_FLAG_SOFT_TIMER"
  "(x OR RT_TIMER_FLAG_ACTIVATED) AND RT_TIMER_FLAG_PERIODIC = x AND RT_TIMER_FLAG_PERIODIC"
  "(x AND NOT RT_TIMER_FLAG_ACTIVATED) AND RT_TIMER_FLAG_ACTIVATED = 0"
  "(x OR RT_TIMER_FLAG_ACTIVATED) AND RT_TIMER_FLAG_ACTIVATED = RT_TIMER_FLAG_ACTIVATED"
  "RT_TIMER_FLAG_ACTIVATED \<noteq> 0"
  by (rule flag_bits; simp add: timer_flag_defs)+ (simp add: timer_flag_defs)

lemma timer_flag_simps [simp]:
  "timer_soft (clear_active x) = timer_soft x"
  "timer_periodic (clear_active x) = timer_periodic x"
  "\<not> timer_active (clear_active x)"
  "timer_soft (x\<lparr>timeout_tick := v\<rparr>) = timer_soft x"
  "timer_soft (x\<lparr>init_tick := v\<rparr>) = timer_soft x"
  "timer_periodic (x\<lparr>timeout_tick := v\<rparr>) = timer_periodic x"
  "timer_active (x\<lparr>timeout_tick := v\<rparr>) = timer_active x"
  "timer_active (x\<lparr>init_tick := v\<rparr>) = timer_active x"
  "timer_soft (x\<lparr>flag := flag x OR RT_TIMER_FLAG_ACTIVATED\<rparr>) = timer_soft x"
  "timer_periodic (x\<lparr>flag := flag x OR RT_TIMER_FLAG_ACTIVATED\<rparr>) = timer_periodic x"
  "timer_active (x\<lparr>flag := flag x OR RT_TIMER_FLAG_ACTIVATED\<rparr>)"
  "init_tick (clear_active x) = init_tick x"
  "timeout_tick (clear_active x) = timeout_tick x"
  by (simp_all add: clear_active_def timer_soft_def timer_periodic_def timer_active_def)

abbreviation timer_off :: "nat \<Rightarrow> 'a timer_sys_scheme \<Rightarrow> 'a timer_sys_scheme" where
  "timer_off t s \<equiv> upd_timer t clear_active (timer_remove t s)"

lemma timers_upd_timer [simp]:
  "timers (upd_timer t f s) u = (if u = t then f (timers s t) else timers s u)"
  by (simp add: upd_timer_def)

lemma upd_timer_simps [simp]:
  "timer_list (upd_timer t f s) = timer_list s"
  "soft_timer_list (upd_timer t f s) = soft_timer_list s"
  "hard_tmp (upd_timer t f s) = hard_tmp s"
  "soft_tmp (upd_timer t f s) = soft_tmp s"
  "tick (upd_timer t f s) = tick s"
  "soft_timer_idle (upd_timer t f s) = soft_timer_idle s"
  "timer_thread_suspended (upd_timer t f s) = timer_thread_suspended s"
  "halted (upd_timer t f s) = halted s"
  "timer_sys.more (upd_timer t f s) = timer_sys.more s"
  by (simp_all add: upd_timer_def)

lemma timer_remove_simps [simp]:
  "timer_list (timer_remove t s) = remove1 t (timer_list s)"
  "soft_timer_list (timer_remove t s) = remove1 t (soft_timer_list s)"
  "hard_tmp (timer_remove t s) = remove1 t (hard_tmp s)"
  "soft_tmp (timer_remove t s) = remove1 t (soft_tmp s)"
  "timers (timer_remove t s) = timers s"
  "tick (timer_remove t s) = tick s"
  "soft_timer_idle (timer_remove t s) = soft_timer_idle s"
  "timer_thread_suspended (timer_remove t s) = timer_thread_suspended s"
  "halted (timer_remove t s) = halted s"
  "timer_sys.more (timer_remove t s) = timer_sys.more s"
  by (simp_all add: timer_remove_def)

lemma expiry_upd_timer [simp]:
  "expiry (timer_off t s) = expiry s"
  by (rule ext) (simp add: expiry_def)

lemma timer_wf_off:
  assumes "timer_wf b s"
  shows "timer_wf b (timer_off t s)"
    and "t \<notin> set (timer_list (timer_off t s)) \<union> set (soft_timer_list (timer_off t s))"
proof -
  have d: "distinct (timer_list s)" "distinct (soft_timer_list s)"
    using assms by (auto simp: timer_wf_def)
  then show "t \<notin> set (timer_list (timer_off t s)) \<union> set (soft_timer_list (timer_off t s))"
    by (simp add: distinct_remove1_set)
  show "timer_wf b (timer_off t s)"
    using assms unfolding timer_wf_def
    by (auto simp: expiry_sorted_remove1 distinct_remove1_set dest: notin_set_remove1)
qed

text \<open>The second half of \<open>rt_timer_start\<close>, on a timer that is on no list.\<close>

definition timer_arm :: "nat \<Rightarrow> 'a timer_sys_scheme \<Rightarrow> 'a timer_sys_scheme" where
  "timer_arm t s =
     (let s2 = upd_timer t (\<lambda>x. x\<lparr>timeout_tick := tick s + init_tick x\<rparr>) s;
          tmo = expiry s2;
          s3 = (if timer_soft (timers s2 t)
                then s2\<lparr>soft_timer_list := timer_insert tmo t (soft_timer_list s2)\<rparr>
                else s2\<lparr>timer_list := timer_insert tmo t (timer_list s2)\<rparr>);
          s4 = upd_timer t (\<lambda>x. x\<lparr>flag := flag x OR RT_TIMER_FLAG_ACTIVATED\<rparr>) s3
      in if timer_soft (timers s4 t) \<and> soft_timer_idle s4 \<and> timer_thread_suspended s4
         then s4\<lparr>timer_thread_suspended := False\<rparr> else s4)"

lemma rt_timer_start_arm:
  "rt_timer_start t s =
     (if init_tick (timers s t) < RT_TICK_MAX div 2 then timer_arm t (timer_off t s)
      else (timer_off t s)\<lparr>halted := True\<rparr>)"
  by (simp add: rt_timer_start_def timer_arm_def Let_def expiry_def [abs_def])

lemma timer_arm_simps [simp]:
  "tick (timer_arm t s) = tick s"
  "hard_tmp (timer_arm t s) = hard_tmp s"
  "soft_tmp (timer_arm t s) = soft_tmp s"
  "halted (timer_arm t s) = halted s"
  "timer_sys.more (timer_arm t s) = timer_sys.more s"
  "u \<noteq> t \<Longrightarrow> timers (timer_arm t s) u = timers s u"
  "timer_active (timers (timer_arm t s) t)"
  "timer_soft (timers (timer_arm t s) u) = timer_soft (timers s u)"
  "timer_periodic (timers (timer_arm t s) u) = timer_periodic (timers s u)"
  "init_tick (timers (timer_arm t s) u) = init_tick (timers s u)"
  by (auto simp: timer_arm_def Let_def)

lemma expiry_timer_arm:
  "expiry (timer_arm t s) = (expiry s)(t := tick s + init_tick (timers s t))"
  by (rule ext) (auto simp: timer_arm_def Let_def expiry_def)

lemma timer_arm_lists:
  "timer_list (timer_arm t s) =
     (if timer_soft (timers s t) then timer_list s
      else timer_insert (expiry (timer_arm t s)) t (timer_list s))"
  "soft_timer_list (timer_arm t s) =
     (if timer_soft (timers s t)
      then timer_insert (expiry (timer_arm t s)) t (soft_timer_list s) else soft_timer_list s)"
proof -
  have e: "expiry (timer_arm t s) =
      expiry (upd_timer t (\<lambda>x. x\<lparr>timeout_tick := tick s + init_tick x\<rparr>) s)"
    unfolding expiry_timer_arm by (rule ext) (simp add: expiry_def)
  show "timer_list (timer_arm t s) =
     (if timer_soft (timers s t) then timer_list s
      else timer_insert (expiry (timer_arm t s)) t (timer_list s))"
   "soft_timer_list (timer_arm t s) =
     (if timer_soft (timers s t)
      then timer_insert (expiry (timer_arm t s)) t (soft_timer_list s) else soft_timer_list s)"
    unfolding e by (simp_all add: timer_arm_def Let_def)
qed

lemma timer_wf_arm:
  assumes wf: "timer_wf b s" and out: "t \<notin> set (timer_list s) \<union> set (soft_timer_list s)"
    and win: "unat (tick s + init_tick (timers s t) - b) < HALF"
  shows "timer_wf b (timer_arm t s)"
proof -
  let ?e = "expiry (timer_arm t s)"
  have same: "expiry_sorted b ?e xs = expiry_sorted b (expiry s) xs" if "t \<notin> set xs" for xs
    using that by (intro expiry_sorted_cong) (auto simp: expiry_timer_arm)
  have sorted: "expiry_sorted b ?e (timer_list s)" "expiry_sorted b ?e (soft_timer_list s)"
    using wf out by (auto simp: timer_wf_def same)
  have new: "rel_expiry b ?e t < HALF"
    using win by (simp add: rel_expiry_def expiry_timer_arm)
  have act: "timer_active (timers (timer_arm t s) u) \<longleftrightarrow> u = t \<or> timer_active (timers s u)" for u
    by (cases "u = t") simp_all
  show ?thesis
    using wf out sorted
    unfolding timer_wf_def act
    by (auto simp: timer_arm_lists timer_insert_sorted [OF new] distinct_timer_insert)
qed

end
