(* ===== verification/Ipc.thy ===== *)
theory Ipc
  imports Timer
begin

text \<open>
  Semaphores, mutexes and events of the kernel: \<open>rt-thread/src/ipc.c\<close>, with the suspend,
  resume and timeout of a thread from \<open>thread.c\<close>.

  \<^item> A handle is a \<^typ>\<open>nat\<close>; \<open>kern\<close> extends the timer state with the thread control
    blocks and the objects. A suspend list holds the waiting threads in the order they would be
    resumed; the node \<open>tlist\<close> of a thread is on at most one list.
  \<^item> Each call is one atomic step, as it runs with interrupts disabled. A call that may wait
    returns \<^const>\<open>None\<close> when it has suspended the caller; the value it then returns when the
    caller runs again is that of \<open>take_resumed\<close> (\<open>thread->error\<close>).
  \<^item> Which ready thread runs next is left open here; \<open>Scheduler\<close> models the choice.
\<close>

section \<open>State\<close>

datatype ipc_flag = RT_IPC_FLAG_FIFO | RT_IPC_FLAG_PRIO

record thread =
  current_priority :: u8
  thread_error :: rt_err
  event_set :: u32
  event_info :: u8
  suspended :: bool
  thread_timer :: nat

record sem =
  sem_value :: u16
  sem_flag :: ipc_flag
  sem_suspend :: "nat list"

record mutex =
  mutex_value :: u16
  hold :: u8
  owner :: "nat option"
  original_priority :: u8
  mutex_flag :: ipc_flag
  mutex_suspend :: "nat list"

record event =
  eset :: u32
  event_flag :: ipc_flag
  event_suspend :: "nat list"

record kern = timer_sys +
  threads :: "nat \<Rightarrow> thread"
  sems :: "nat \<Rightarrow> sem"
  mutexes :: "nat \<Rightarrow> mutex"
  events :: "nat \<Rightarrow> event"

definition RT_SEM_VALUE_MAX :: u16 where "RT_SEM_VALUE_MAX = 0xFFFF"
definition RT_MUTEX_VALUE_MAX :: u16 where "RT_MUTEX_VALUE_MAX = 0xFFFF"
definition RT_MUTEX_HOLD_MAX :: u8 where "RT_MUTEX_HOLD_MAX = 0xFF"

definition RT_EVENT_FLAG_AND :: u8 where "RT_EVENT_FLAG_AND = 1"
definition RT_EVENT_FLAG_OR :: u8 where "RT_EVENT_FLAG_OR = 2"
definition RT_EVENT_FLAG_CLEAR :: u8 where "RT_EVENT_FLAG_CLEAR = 4"

definition upd_thread :: "nat \<Rightarrow> (thread \<Rightarrow> thread) \<Rightarrow> 'a kern_scheme \<Rightarrow> 'a kern_scheme" where
  "upd_thread p f s = s\<lparr>threads := (threads s)(p := f (threads s p))\<rparr>"

definition upd_sem :: "nat \<Rightarrow> (sem \<Rightarrow> sem) \<Rightarrow> 'a kern_scheme \<Rightarrow> 'a kern_scheme" where
  "upd_sem i f s = s\<lparr>sems := (sems s)(i := f (sems s i))\<rparr>"

definition upd_mutex :: "nat \<Rightarrow> (mutex \<Rightarrow> mutex) \<Rightarrow> 'a kern_scheme \<Rightarrow> 'a kern_scheme" where
  "upd_mutex i f s = s\<lparr>mutexes := (mutexes s)(i := f (mutexes s i))\<rparr>"

definition upd_event :: "nat \<Rightarrow> (event \<Rightarrow> event) \<Rightarrow> 'a kern_scheme \<Rightarrow> 'a kern_scheme" where
  "upd_event i f s = s\<lparr>events := (events s)(i := f (events s i))\<rparr>"

section \<open>Threads\<close>

text \<open>\<open>rt_list_remove(&thread->tlist)\<close>: the thread leaves whatever list it waits on.\<close>

definition tlist_remove :: "nat \<Rightarrow> 'a kern_scheme \<Rightarrow> 'a kern_scheme" where
  "tlist_remove p s =
     s\<lparr>sems := (\<lambda>i. (sems s i)\<lparr>sem_suspend := remove1 p (sem_suspend (sems s i))\<rparr>),
       mutexes := (\<lambda>i. (mutexes s i)\<lparr>mutex_suspend := remove1 p (mutex_suspend (mutexes s i))\<rparr>),
       events := (\<lambda>i. (events s i)\<lparr>event_suspend := remove1 p (event_suspend (events s i))\<rparr>)\<rparr>"

definition rt_thread_suspend :: "nat \<Rightarrow> 'a kern_scheme \<Rightarrow> rt_err \<times> 'a kern_scheme" where
  "rt_thread_suspend p s =
     (if suspended (threads s p) then (RT_ERROR, s)
      else let s1 = upd_thread p (\<lambda>t. t\<lparr>suspended := True\<rparr>) s
           in (RT_EOK, snd (rt_timer_stop (thread_timer (threads s1 p)) s1)))"

definition rt_thread_resume :: "nat \<Rightarrow> 'a kern_scheme \<Rightarrow> rt_err \<times> 'a kern_scheme" where
  "rt_thread_resume p s =
     (if \<not> suspended (threads s p) then (RT_ERROR, s)
      else let s1 = tlist_remove p s;
               s2 = snd (rt_timer_stop (thread_timer (threads s1 p)) s1)
           in (RT_EOK, upd_thread p (\<lambda>t. t\<lparr>suspended := False\<rparr>) s2))"

definition rt_thread_timeout :: "nat \<Rightarrow> 'a kern_scheme \<Rightarrow> 'a kern_scheme" where
  "rt_thread_timeout p s =
     (if \<not> suspended (threads s p) then s\<lparr>halted := True\<rparr>
      else let s1 = upd_thread p (\<lambda>t. t\<lparr>thread_error := RT_ETIMEOUT\<rparr>) s;
               s2 = tlist_remove p s1
           in upd_thread p (\<lambda>t. t\<lparr>suspended := False\<rparr>) s2)"

text \<open>Starting the thread timer for a wait of \<open>time\<close> ticks.\<close>

definition start_thread_timer :: "nat \<Rightarrow> int \<Rightarrow> 'a kern_scheme \<Rightarrow> 'a kern_scheme" where
  "start_thread_timer p time s =
     (let t = thread_timer (threads s p)
      in rt_timer_start t (snd (rt_timer_control t (CTRL_SET_TIME (word_of_int time)) s)))"

definition rt_thread_sleep :: "nat \<Rightarrow> u32 \<Rightarrow> 'a kern_scheme \<Rightarrow> 'a kern_scheme" where
  "rt_thread_sleep p tck s =
     (let s1 = snd (rt_thread_suspend p s); t = thread_timer (threads s1 p)
      in rt_timer_start t (snd (rt_timer_control t (CTRL_SET_TIME tck) s1)))"

definition rt_thread_mdelay :: "nat \<Rightarrow> int \<Rightarrow> 'a kern_scheme \<Rightarrow> 'a kern_scheme" where
  "rt_thread_mdelay p ms s = rt_thread_sleep p (rt_tick_from_millisecond ms) s"

text \<open>What \<open>rt_thread_sleep\<close> does when the thread runs again.\<close>

definition sleep_resumed :: "nat \<Rightarrow> 'a kern_scheme \<Rightarrow> 'a kern_scheme" where
  "sleep_resumed p s =
     (if thread_error (threads s p) = RT_ETIMEOUT
      then upd_thread p (\<lambda>t. t\<lparr>thread_error := RT_EOK\<rparr>) s else s)"

section \<open>Suspend lists\<close>

fun prio_insert :: "(nat \<Rightarrow> u8) \<Rightarrow> nat \<Rightarrow> nat list \<Rightarrow> nat list" where
  "prio_insert pr p [] = [p]"
| "prio_insert pr p (q # qs) = (if pr p < pr q then p # q # qs else q # prio_insert pr p qs)"

definition suspend_order :: "ipc_flag \<Rightarrow> (nat \<Rightarrow> u8) \<Rightarrow> nat \<Rightarrow> nat list \<Rightarrow> nat list" where
  "suspend_order fl pr p qs =
     (case fl of RT_IPC_FLAG_FIFO \<Rightarrow> qs @ [p] | RT_IPC_FLAG_PRIO \<Rightarrow> prio_insert pr p qs)"

abbreviation prio_of :: "'a kern_scheme \<Rightarrow> nat \<Rightarrow> u8" where
  "prio_of s p \<equiv> current_priority (threads s p)"

section \<open>Semaphores\<close>

definition sem_create :: "nat \<Rightarrow> u16 \<Rightarrow> ipc_flag \<Rightarrow> 'a kern_scheme \<Rightarrow> 'a kern_scheme" where
  "sem_create i v fl s = upd_sem i (\<lambda>_. \<lparr>sem_value = v, sem_flag = fl, sem_suspend = []\<rparr>) s"

definition rt_sem_take ::
  "nat \<Rightarrow> nat \<Rightarrow> int \<Rightarrow> 'a kern_scheme \<Rightarrow> rt_err option \<times> 'a kern_scheme" where
  "rt_sem_take self i time s =
     (if 0 < sem_value (sems s i)
      then (Some RT_EOK, upd_sem i (\<lambda>x. x\<lparr>sem_value := sem_value x - 1\<rparr>) s)
      else if time = 0 then (Some RT_ETIMEOUT, s)
      else
        let s1 = upd_thread self (\<lambda>t. t\<lparr>thread_error := RT_EOK\<rparr>) s;
            s2 = snd (rt_thread_suspend self s1);
            s3 = upd_sem i (\<lambda>x. x\<lparr>sem_suspend :=
                   suspend_order (sem_flag x) (prio_of s2) self (sem_suspend x)\<rparr>) s2
        in (None, if 0 < time then start_thread_timer self time s3 else s3))"

definition rt_sem_trytake :: "nat \<Rightarrow> nat \<Rightarrow> 'a kern_scheme \<Rightarrow> rt_err option \<times> 'a kern_scheme" where
  "rt_sem_trytake self i s = rt_sem_take self i 0 s"

definition take_resumed :: "nat \<Rightarrow> 'a kern_scheme \<Rightarrow> rt_err" where
  "take_resumed self s = thread_error (threads s self)"

definition rt_sem_release :: "nat \<Rightarrow> 'a kern_scheme \<Rightarrow> rt_err \<times> 'a kern_scheme" where
  "rt_sem_release i s =
     (case sem_suspend (sems s i) of
       p # _ \<Rightarrow> (RT_EOK, snd (rt_thread_resume p s))
     | [] \<Rightarrow>
         if sem_value (sems s i) < RT_SEM_VALUE_MAX
         then (RT_EOK, upd_sem i (\<lambda>x. x\<lparr>sem_value := sem_value x + 1\<rparr>) s)
         else (RT_EFULL, s))"

section \<open>Mutexes\<close>

definition mutex_create :: "nat \<Rightarrow> ipc_flag \<Rightarrow> 'a kern_scheme \<Rightarrow> 'a kern_scheme" where
  "mutex_create i fl s = upd_mutex i (\<lambda>_. \<lparr>mutex_value = 1, hold = 0, owner = None,
     original_priority = 0xFF, mutex_flag = RT_IPC_FLAG_PRIO, mutex_suspend = []\<rparr>) s"

definition rt_mutex_take ::
  "nat \<Rightarrow> nat \<Rightarrow> int \<Rightarrow> 'a kern_scheme \<Rightarrow> rt_err option \<times> 'a kern_scheme" where
  "rt_mutex_take self i time s0 =
     (let s = upd_thread self (\<lambda>t. t\<lparr>thread_error := RT_EOK\<rparr>) s0; m = mutexes s i
      in if owner m = Some self
         then if hold m < RT_MUTEX_HOLD_MAX
              then (Some RT_EOK, upd_mutex i (\<lambda>x. x\<lparr>hold := hold x + 1\<rparr>) s)
              else (Some RT_EFULL, s)
         else if 0 < mutex_value m
         then let s1 = upd_mutex i (\<lambda>x. x\<lparr>mutex_value := mutex_value x - 1, owner := Some self,
                         original_priority := prio_of s self\<rparr>) s
              in if hold m < RT_MUTEX_HOLD_MAX
                 then (Some RT_EOK, upd_mutex i (\<lambda>x. x\<lparr>hold := hold x + 1\<rparr>) s1)
                 else (Some RT_EFULL, s1)
         else if time = 0
         then (Some RT_ETIMEOUT, upd_thread self (\<lambda>t. t\<lparr>thread_error := RT_ETIMEOUT\<rparr>) s)
         else
           let s1 = (case owner m of
                       Some q \<Rightarrow> if prio_of s self < prio_of s q
                                 then upd_thread q (\<lambda>t. t\<lparr>current_priority := prio_of s self\<rparr>) s
                                 else s
                     | None \<Rightarrow> s);
               s2 = snd (rt_thread_suspend self s1);
               s3 = upd_mutex i (\<lambda>x. x\<lparr>mutex_suspend :=
                      suspend_order (mutex_flag x) (prio_of s2) self (mutex_suspend x)\<rparr>) s2
           in (None, if 0 < time then start_thread_timer self time s3 else s3))"

definition rt_mutex_trytake :: "nat \<Rightarrow> nat \<Rightarrow> 'a kern_scheme \<Rightarrow> rt_err option \<times> 'a kern_scheme" where
  "rt_mutex_trytake self i s = rt_mutex_take self i 0 s"

definition rt_mutex_release :: "nat \<Rightarrow> nat \<Rightarrow> 'a kern_scheme \<Rightarrow> rt_err \<times> 'a kern_scheme" where
  "rt_mutex_release self i s =
     (let m = mutexes s i
      in if owner m \<noteq> Some self
         then (RT_ERROR, upd_thread self (\<lambda>t. t\<lparr>thread_error := RT_ERROR\<rparr>) s)
         else
           let s1 = upd_mutex i (\<lambda>x. x\<lparr>hold := hold x - 1\<rparr>) s
           in if hold (mutexes s1 i) \<noteq> 0 then (RT_EOK, s1)
              else
                let s2 = (if original_priority m \<noteq> prio_of s1 self
                          then upd_thread self (\<lambda>t. t\<lparr>current_priority := original_priority m\<rparr>) s1
                          else s1)
                in case mutex_suspend m of
                     p # _ \<Rightarrow>
                       (RT_EOK, snd (rt_thread_resume p
                         (upd_mutex i (\<lambda>x. x\<lparr>owner := Some p, original_priority := prio_of s2 p,
                            hold := hold x + 1\<rparr>) s2)))
                   | [] \<Rightarrow>
                       if mutex_value m < RT_MUTEX_VALUE_MAX
                       then (RT_EOK, upd_mutex i (\<lambda>x. x\<lparr>mutex_value := mutex_value x + 1,
                               owner := None, original_priority := 0xFF\<rparr>) s2)
                       else (RT_EFULL, s2))"

section \<open>Events\<close>

definition event_init :: "nat \<Rightarrow> ipc_flag \<Rightarrow> 'a kern_scheme \<Rightarrow> 'a kern_scheme" where
  "event_init i fl s = upd_event i (\<lambda>_. \<lparr>eset = 0, event_flag = fl, event_suspend = []\<rparr>) s"

text \<open>The walk over the waiting threads; \<^const>\<open>RT_EINVAL\<close> leaves it early.\<close>

fun event_send_walk :: "nat \<Rightarrow> nat list \<Rightarrow> 'a kern_scheme \<Rightarrow> rt_err \<times> 'a kern_scheme" where
  "event_send_walk i [] s = (RT_EOK, s)"
| "event_send_walk i (p # ps) s =
     (let t = threads s p; es = eset (events s i);
          wake = (\<lambda>s1. let t1 = threads s1 p;
                            s2 = (if event_info t1 AND RT_EVENT_FLAG_CLEAR \<noteq> 0
                                  then upd_event i (\<lambda>e. e\<lparr>eset := eset e AND NOT (event_set t1)\<rparr>) s1
                                  else s1)
                        in event_send_walk i ps (snd (rt_thread_resume p s2)))
      in if event_info t AND RT_EVENT_FLAG_AND \<noteq> 0
         then if event_set t AND es = event_set t then wake s else event_send_walk i ps s
         else if event_info t AND RT_EVENT_FLAG_OR \<noteq> 0
         then if event_set t AND es \<noteq> 0
              then wake (upd_thread p (\<lambda>t. t\<lparr>event_set := event_set t AND es\<rparr>) s)
              else event_send_walk i ps s
         else (RT_EINVAL, s))"

definition rt_event_send :: "nat \<Rightarrow> u32 \<Rightarrow> 'a kern_scheme \<Rightarrow> rt_err \<times> 'a kern_scheme" where
  "rt_event_send i msk s =
     (if msk = 0 then (RT_ERROR, s)
      else let s1 = upd_event i (\<lambda>e. e\<lparr>eset := eset e OR msk\<rparr>) s
           in event_send_walk i (event_suspend (events s1 i)) s1)"

text \<open>
  The received set is the third component; \<^const>\<open>None\<close> as the result means that the caller
  waits, and \<open>event_recv_resumed\<close> is what it gets when it runs again.
\<close>

definition rt_event_recv ::
  "nat \<Rightarrow> nat \<Rightarrow> u32 \<Rightarrow> u8 \<Rightarrow> int \<Rightarrow> 'a kern_scheme
     \<Rightarrow> rt_err option \<times> u32 option \<times> 'a kern_scheme" where
  "rt_event_recv self i msk option timeout s0 =
     (if msk = 0 then (Some RT_ERROR, None, s0)
      else
        let s = upd_thread self (\<lambda>t. t\<lparr>thread_error := RT_EOK\<rparr>) s0;
            es = eset (events s i)
        in if option AND RT_EVENT_FLAG_AND = 0 \<and> option AND RT_EVENT_FLAG_OR = 0
           then (None, None, s\<lparr>halted := True\<rparr>)
           else if (if option AND RT_EVENT_FLAG_AND \<noteq> 0 then es AND msk = msk else es AND msk \<noteq> 0)
           then let s1 = upd_thread self (\<lambda>t. t\<lparr>event_set := es AND msk, event_info := option\<rparr>) s;
                    s2 = (if option AND RT_EVENT_FLAG_CLEAR \<noteq> 0
                          then upd_event i (\<lambda>e. e\<lparr>eset := eset e AND NOT msk\<rparr>) s1 else s1)
                in (Some (thread_error (threads s2 self)), Some (es AND msk), s2)
           else if timeout = 0
           then (Some RT_ETIMEOUT, None,
                 upd_thread self (\<lambda>t. t\<lparr>thread_error := RT_ETIMEOUT\<rparr>) s)
           else let s1 = upd_thread self (\<lambda>t. t\<lparr>event_set := msk, event_info := option\<rparr>) s;
                    s2 = snd (rt_thread_suspend self s1);
                    s3 = upd_event i (\<lambda>e. e\<lparr>event_suspend :=
                           suspend_order (event_flag e) (prio_of s2) self (event_suspend e)\<rparr>) s2
                in (None, None, if 0 < timeout then start_thread_timer self timeout s3 else s3))"

definition event_recv_resumed :: "nat \<Rightarrow> 'a kern_scheme \<Rightarrow> rt_err \<times> u32 option" where
  "event_recv_resumed self s =
     (if thread_error (threads s self) \<noteq> RT_EOK then (thread_error (threads s self), None)
      else (RT_EOK, Some (event_set (threads s self))))"

section \<open>Frame of the operations\<close>

lemma timer_ops_keep_kern [simp, frame_simps]:
  "threads (rt_timer_start t s) = threads s"
  "sems (rt_timer_start t s) = sems s"
  "mutexes (rt_timer_start t s) = mutexes s"
  "events (rt_timer_start t s) = events s"
  "kern.more (rt_timer_start t s) = kern.more s"
  "threads (snd (rt_timer_stop t s)) = threads s"
  "sems (snd (rt_timer_stop t s)) = sems s"
  "mutexes (snd (rt_timer_stop t s)) = mutexes s"
  "events (snd (rt_timer_stop t s)) = events s"
  "kern.more (snd (rt_timer_stop t s)) = kern.more s"
  "threads (snd (rt_timer_control t c s)) = threads s"
  "sems (snd (rt_timer_control t c s)) = sems s"
  "mutexes (snd (rt_timer_control t c s)) = mutexes s"
  "events (snd (rt_timer_control t c s)) = events s"
  "kern.more (snd (rt_timer_control t c s)) = kern.more s"
  by (simp_all add: rt_timer_start_def rt_timer_stop_def Let_def upd_timer_def timer_remove_def)
    (cases c; simp add: upd_timer_def)+

lemma timer_upds_keep_kern [simp, frame_simps]:
  "threads (upd_timer t f s) = threads s"
  "sems (upd_timer t f s) = sems s"
  "mutexes (upd_timer t f s) = mutexes s"
  "events (upd_timer t f s) = events s"
  "kern.more (upd_timer t f s) = kern.more s"
  "threads (timer_remove t s) = threads s"
  "sems (timer_remove t s) = sems s"
  "mutexes (timer_remove t s) = mutexes s"
  "events (timer_remove t s) = events s"
  "kern.more (timer_remove t s) = kern.more s"
  by (simp_all add: upd_timer_def timer_remove_def)

lemma upd_thread_simps [simp]:
  "threads (upd_thread p f s) q = (if q = p then f (threads s p) else threads s q)"
  "sems (upd_thread p f s) = sems s"
  "mutexes (upd_thread p f s) = mutexes s"
  "events (upd_thread p f s) = events s"
  "kern.more (upd_thread p f s) = kern.more s"
  by (simp_all add: upd_thread_def)

lemma upd_obj_simps [simp]:
  "sems (upd_sem i f s) j = (if j = i then f (sems s i) else sems s j)"
  "threads (upd_sem i f s) = threads s"
  "mutexes (upd_sem i f s) = mutexes s"
  "events (upd_sem i f s) = events s"
  "kern.more (upd_sem i f s) = kern.more s"
  "mutexes (upd_mutex i g s) j = (if j = i then g (mutexes s i) else mutexes s j)"
  "threads (upd_mutex i g s) = threads s"
  "sems (upd_mutex i g s) = sems s"
  "events (upd_mutex i g s) = events s"
  "kern.more (upd_mutex i g s) = kern.more s"
  "events (upd_event i h s) j = (if j = i then h (events s i) else events s j)"
  "threads (upd_event i h s) = threads s"
  "sems (upd_event i h s) = sems s"
  "mutexes (upd_event i h s) = mutexes s"
  "kern.more (upd_event i h s) = kern.more s"
  by (simp_all add: upd_sem_def upd_mutex_def upd_event_def)

lemma tlist_remove_simps [simp]:
  "sems (tlist_remove p s) i = (sems s i)\<lparr>sem_suspend := remove1 p (sem_suspend (sems s i))\<rparr>"
  "mutexes (tlist_remove p s) i =
     (mutexes s i)\<lparr>mutex_suspend := remove1 p (mutex_suspend (mutexes s i))\<rparr>"
  "events (tlist_remove p s) i =
     (events s i)\<lparr>event_suspend := remove1 p (event_suspend (events s i))\<rparr>"
  "threads (tlist_remove p s) = threads s"
  "kern.more (tlist_remove p s) = kern.more s"
  by (simp_all add: tlist_remove_def)

lemma set_prio_insert [simp]: "set (prio_insert pr p qs) = insert p (set qs)"
  by (induction qs) auto

lemma distinct_prio_insert: "p \<notin> set qs \<Longrightarrow> distinct qs \<Longrightarrow> distinct (prio_insert pr p qs)"
  by (induction qs) auto

lemma sorted_prio_insert:
  "sorted (map pr qs) \<Longrightarrow> sorted (map pr (prio_insert pr p qs))"
proof (induction qs)
  case (Cons q qs)
  then show ?case by auto
qed simp

lemma set_suspend_order [simp]: "set (suspend_order fl pr p qs) = insert p (set qs)"
  by (auto simp: suspend_order_def split: ipc_flag.splits)

lemma distinct_suspend_order:
  "p \<notin> set qs \<Longrightarrow> distinct qs \<Longrightarrow> distinct (suspend_order fl pr p qs)"
  by (auto simp: suspend_order_def distinct_prio_insert split: ipc_flag.splits)

lemma remove1_prio_insert: "p \<notin> set qs \<Longrightarrow> remove1 p (prio_insert pr p qs) = qs"
  by (induction qs) auto

lemma remove1_suspend_order: "p \<notin> set qs \<Longrightarrow> remove1 p (suspend_order fl pr p qs) = qs"
  by (auto simp: suspend_order_def remove1_prio_insert remove1_append split: ipc_flag.splits)

section \<open>Well-formed kernel objects\<close>

datatype obj = SemObj nat | MutexObj nat | EventObj nat

fun waiters :: "'a kern_scheme \<Rightarrow> obj \<Rightarrow> nat list" where
  "waiters s (SemObj i) = sem_suspend (sems s i)"
| "waiters s (MutexObj i) = mutex_suspend (mutexes s i)"
| "waiters s (EventObj i) = event_suspend (events s i)"

text \<open>
  A free mutex has its one token, no hold and nobody waiting; an owned one has none and is held
  at least once.
\<close>

definition mutex_ok :: "mutex \<Rightarrow> bool" where
  "mutex_ok m \<longleftrightarrow> (case owner m of
       None \<Rightarrow> mutex_value m = 1 \<and> hold m = 0 \<and> mutex_suspend m = []
     | Some q \<Rightarrow> mutex_value m = 0 \<and> hold m \<noteq> 0)"

text \<open>
  A suspend list has no duplicates, its threads are suspended, no thread waits on two objects,
  and nobody waits for a semaphore that has a token.
\<close>

definition waiters_ok :: "(obj \<Rightarrow> nat list) \<Rightarrow> (nat \<Rightarrow> bool) \<Rightarrow> bool" where
  "waiters_ok w susp \<longleftrightarrow> (\<forall>c. distinct (w c)) \<and> (\<forall>c. \<forall>p \<in> set (w c). susp p) \<and>
     (\<forall>c d p. p \<in> set (w c) \<longrightarrow> p \<in> set (w d) \<longrightarrow> c = d)"

definition sem_ok :: "sem \<Rightarrow> bool" where
  "sem_ok x \<longleftrightarrow> (0 < sem_value x \<longrightarrow> sem_suspend x = [])"

definition ipc_wf :: "'a kern_scheme \<Rightarrow> bool" where
  "ipc_wf s \<longleftrightarrow> waiters_ok (waiters s) (\<lambda>p. suspended (threads s p)) \<and>
     (\<forall>i. sem_ok (sems s i)) \<and> (\<forall>i. mutex_ok (mutexes s i))"

lemma ipc_wfD:
  assumes "ipc_wf s"
  shows "distinct (waiters s c)" and "p \<in> set (waiters s c) \<Longrightarrow> suspended (threads s p)"
    and "sem_ok (sems s i)" and "mutex_ok (mutexes s i)"
    and "c \<noteq> d \<Longrightarrow> p \<in> set (waiters s c) \<Longrightarrow> p \<notin> set (waiters s d)"
  using assms unfolding ipc_wf_def waiters_ok_def by blast+

lemma waiters_ok_wait:
  assumes "waiters_ok w susp" and "\<not> susp p"
    and "\<And>c. c \<noteq> cb \<Longrightarrow> w' c = w c" and "set (w' cb) = insert p (set (w cb))" and "distinct (w' cb)"
    and "susp' p" and "\<And>q. susp q \<Longrightarrow> susp' q"
  shows "waiters_ok w' susp'"
proof -
  have out: "p \<notin> set (w c)" for c
    using assms(1,2) by (auto simp: waiters_ok_def)
  have cases: "w' c = w c \<or> c = cb" for c using assms(3) by blast
  have mem: "q \<in> set (w' c) \<longleftrightarrow> q \<in> set (w c) \<or> (c = cb \<and> q = p)" for q c
    using cases [of c] assms(3,4) by (cases "c = cb") auto
  have "c = d" if "q \<in> set (w' c)" "q \<in> set (w' d)" for c d q
    using that assms(1) out unfolding mem waiters_ok_def by metis
  moreover have "distinct (w' c)" for c
    using cases [of c] assms(1,5) by (auto simp: waiters_ok_def)
  moreover have "susp' q" if "q \<in> set (w' c)" for c q
    using that cases [of c] assms(1,4,6,7) by (auto simp: waiters_ok_def)
  ultimately show ?thesis unfolding waiters_ok_def by blast
qed

lemma waiters_ok_wake:
  assumes "waiters_ok w susp" and "\<And>c. w' c = remove1 p (w c)"
    and "\<And>q. q \<noteq> p \<Longrightarrow> susp' q = susp q"
  shows "waiters_ok w' susp'"
proof -
  have d: "distinct (w c)" for c using assms(1) by (auto simp: waiters_ok_def)
  have "set (w' c) = set (w c) - {p}" for c
    by (simp add: assms(2) d distinct_remove1_set)
  then show ?thesis
    using assms d unfolding waiters_ok_def by (metis DiffD1 DiffD2 distinct_remove1 insertCI)
qed

lemma waiters_tlist_remove [simp]: "waiters (tlist_remove p s) c = remove1 p (waiters s c)"
  by (cases c) simp_all

lemma waiters_cong:
  "sems s' = sems s \<Longrightarrow> mutexes s' = mutexes s \<Longrightarrow> events s' = events s \<Longrightarrow> waiters s' = waiters s"
  by (rule ext, rename_tac c, case_tac c) simp_all

lemma start_thread_timer_simps [simp]:
  "threads (start_thread_timer p n s) = threads s"
  "sems (start_thread_timer p n s) = sems s"
  "mutexes (start_thread_timer p n s) = mutexes s"
  "events (start_thread_timer p n s) = events s"
  "kern.more (start_thread_timer p n s) = kern.more s"
  by (simp_all add: start_thread_timer_def Let_def)

lemma rt_thread_suspend_simps [simp]:
  "sems (snd (rt_thread_suspend p s)) = sems s"
  "mutexes (snd (rt_thread_suspend p s)) = mutexes s"
  "events (snd (rt_thread_suspend p s)) = events s"
  "kern.more (snd (rt_thread_suspend p s)) = kern.more s"
  "threads (snd (rt_thread_suspend p s)) q =
     (if q = p then (threads s p)\<lparr>suspended := True\<rparr> else threads s q)"
  by (simp_all add: rt_thread_suspend_def Let_def)

lemma rt_thread_resume_suspended [simp]:
  assumes "suspended (threads s p)"
  shows "waiters (snd (rt_thread_resume p s)) c = remove1 p (waiters s c)"
    and "sem_value (sems (snd (rt_thread_resume p s)) i) = sem_value (sems s i)"
    and "sem_suspend (sems (snd (rt_thread_resume p s)) i) = remove1 p (sem_suspend (sems s i))"
    and "mutexes (snd (rt_thread_resume p s)) i =
      (mutexes s i)\<lparr>mutex_suspend := remove1 p (mutex_suspend (mutexes s i))\<rparr>"
    and "eset (events (snd (rt_thread_resume p s)) i) = eset (events s i)"
    and "threads (snd (rt_thread_resume p s)) q =
      (if q = p then (threads s p)\<lparr>suspended := False\<rparr> else threads s q)"
    and "fst (rt_thread_resume p s) = RT_EOK"
proof -
  have w: "waiters (snd (rt_thread_resume p s)) = waiters (tlist_remove p s)"
    using assms by (intro waiters_cong) (simp_all add: rt_thread_resume_def Let_def)
  then show "waiters (snd (rt_thread_resume p s)) c = remove1 p (waiters s c)"
    by simp
qed (use assms in \<open>simp_all add: rt_thread_resume_def Let_def\<close>)

lemma kern_more_thread_ops [simp, frame_simps]:
  "kern.more (snd (rt_thread_resume p s)) = kern.more s"
  "kern.more (rt_thread_timeout p s) = kern.more s"
  "kern.more (rt_thread_sleep p n s) = kern.more s"
  "kern.more (sleep_resumed p s) = kern.more s"
  by (simp_all add: rt_thread_resume_def rt_thread_timeout_def rt_thread_sleep_def sleep_resumed_def
      Let_def)

section \<open>Every operation keeps the objects well formed\<close>

lemma ipc_wf_wait:
  assumes wf: "ipc_wf s" and run: "\<not> suspended (threads s p)"
    and "\<And>c. c \<noteq> cb \<Longrightarrow> waiters s' c = waiters s c"
    and "set (waiters s' cb) = insert p (set (waiters s cb))" and "distinct (waiters s' cb)"
    and "\<And>q. suspended (threads s' q) \<longleftrightarrow> q = p \<or> suspended (threads s q)"
    and "\<And>i. sem_ok (sems s' i)" and "\<And>i. mutex_ok (mutexes s' i)"
  shows "ipc_wf s'"
  using wf waiters_ok_wait [where w = "waiters s" and susp = "\<lambda>p. suspended (threads s p)"
      and p = p and cb = cb and w' = "waiters s'" and susp' = "\<lambda>p. suspended (threads s' p)"] assms
  by (auto simp: ipc_wf_def)

lemma distinct_suspend_running:
  "ipc_wf s \<Longrightarrow> \<not> suspended (threads s p) \<Longrightarrow> distinct (suspend_order fl pr p (waiters s c))"
  by (rule distinct_suspend_order) (auto dest: ipc_wfD)

lemma ipc_wf_sem_take:
  assumes wf: "ipc_wf s" and run: "\<not> suspended (threads s self)"
  shows "ipc_wf (snd (rt_sem_take self i time s))"
proof (cases "0 < sem_value (sems s i)")
  case True
  then have e: "sem_suspend (sems s i) = []"
    using ipc_wfD(3) [OF wf, of i] by (simp add: sem_ok_def)
  have w: "waiters (snd (rt_sem_take self i time s)) c = waiters s c" for c
    using True by (cases c) (simp_all add: rt_sem_take_def)
  show ?thesis
    using wf w True e by (auto simp: ipc_wf_def rt_sem_take_def sem_ok_def waiters_ok_def)
next
  case False
  show ?thesis
  proof (cases "time = 0")
    case True
    with False wf show ?thesis by (simp add: rt_sem_take_def)
  next
    case time: False
    let ?s' = "snd (rt_sem_take self i time s)"
    have oth: "waiters ?s' c = waiters s c" if "c \<noteq> SemObj i" for c
      using that False time by (cases c) (auto simp: rt_sem_take_def Let_def)
    have ob: "waiters ?s' (SemObj i) = suspend_order (sem_flag (sems s i))
        (\<lambda>q. if q = self then current_priority (threads s self) else prio_of s q) self
        (waiters s (SemObj i))"
      using False time by (simp add: rt_sem_take_def Let_def if_distrib cong: if_cong)
    have "sem_ok (sems ?s' j)" for j
      using False time ipc_wfD(3) [OF wf, of j] by (auto simp: rt_sem_take_def Let_def sem_ok_def)
    moreover have "mutex_ok (mutexes ?s' j)" for j
      using False time ipc_wfD(4) [OF wf, of j] by (auto simp: rt_sem_take_def Let_def)
    moreover have "suspended (threads ?s' q) \<longleftrightarrow> q = self \<or> suspended (threads s q)" for q
      using False time by (auto simp: rt_sem_take_def Let_def)
    ultimately show ?thesis
      using ipc_wf_wait [OF wf run oth, of "SemObj i"] distinct_suspend_running [OF wf run]
      by (simp add: ob del: waiters.simps)
  qed
qed

lemma ipc_wf_wake:
  assumes wf: "ipc_wf s" and "suspended (threads s p)"
    and "\<And>c. waiters s' c = remove1 p (waiters s c)"
    and "\<And>q. q \<noteq> p \<Longrightarrow> suspended (threads s' q) = suspended (threads s q)"
    and "\<And>i. sem_value (sems s' i) = sem_value (sems s i)"
    and "\<And>i. mutex_ok (mutexes s' i)"
  shows "ipc_wf s'"
proof -
  have "sem_ok (sems s' i)" for i
    using ipc_wfD(3) [OF wf, of i] assms(3) [of "SemObj i"] assms(5) [of i]
    by (auto simp: sem_ok_def)
  then show ?thesis
    using wf waiters_ok_wake [where w = "waiters s" and w' = "waiters s'" and p = p
        and susp = "\<lambda>p. suspended (threads s p)" and susp' = "\<lambda>p. suspended (threads s' p)"] assms
    by (auto simp: ipc_wf_def)
qed

lemma mutex_ok_remove: "mutex_ok m \<Longrightarrow> mutex_ok (m\<lparr>mutex_suspend := remove1 p (mutex_suspend m)\<rparr>)"
  by (auto simp: mutex_ok_def split: option.splits)

lemma ipc_wf_resume:
  assumes wf: "ipc_wf s"
  shows "ipc_wf (snd (rt_thread_resume p s))"
proof (cases "suspended (threads s p)")
  case True
  show ?thesis
    by (rule ipc_wf_wake [OF wf True])
      (use True ipc_wfD(4) [OF wf] in \<open>simp_all add: mutex_ok_remove\<close>)
qed (use wf in \<open>simp add: rt_thread_resume_def\<close>)

lemma ipc_wf_timeout:
  assumes wf: "ipc_wf s" and susp: "suspended (threads s p)"
  shows "ipc_wf (rt_thread_timeout p s)"
proof -
  have w: "waiters (rt_thread_timeout p s) = waiters (tlist_remove p s)"
    using susp by (intro waiters_cong) (auto simp: rt_thread_timeout_def Let_def tlist_remove_def)
  show ?thesis
    by (rule ipc_wf_wake [OF wf susp])
      (use susp ipc_wfD(4) [OF wf] in \<open>simp_all add: w, simp_all add: rt_thread_timeout_def Let_def
        mutex_ok_remove\<close>)
qed

lemma ipc_wf_sem_release:
  assumes wf: "ipc_wf s"
  shows "ipc_wf (snd (rt_sem_release i s))"
proof (cases "sem_suspend (sems s i)")
  case (Cons p ps)
  then show ?thesis using ipc_wf_resume [OF wf] by (simp add: rt_sem_release_def)
next
  case Nil
  have w: "waiters (snd (rt_sem_release i s)) c = waiters s c" for c
    using Nil by (cases c) (simp_all add: rt_sem_release_def)
  show ?thesis
    using wf w Nil by (auto simp: ipc_wf_def rt_sem_release_def sem_ok_def waiters_ok_def)
qed

lemma ipc_wf_same_objects:
  assumes "ipc_wf s" and "sems s' = sems s" and "events s' = events s"
    and "\<And>j. mutex_suspend (mutexes s' j) = mutex_suspend (mutexes s j)"
    and "\<And>j. mutex_ok (mutexes s' j)"
    and "\<And>q. suspended (threads s' q) = suspended (threads s q)"
  shows "ipc_wf s'"
proof -
  have "waiters s' c = waiters s c" for c
    using assms by (cases c) simp_all
  then show ?thesis using assms by (auto simp: ipc_wf_def waiters_ok_def)
qed

lemma hold_incr_nonzero: "(h :: u8) < RT_MUTEX_HOLD_MAX \<Longrightarrow> h + 1 \<noteq> 0"
proof
  assume "h < RT_MUTEX_HOLD_MAX" and "h + 1 = 0"
  then have "h = - 1" by (simp add: eq_neg_iff_add_eq_0)
  with \<open>h < RT_MUTEX_HOLD_MAX\<close> show False by (simp add: RT_MUTEX_HOLD_MAX_def)
qed

lemma ipc_wf_mutex_take:
  assumes wf: "ipc_wf s" and run: "\<not> suspended (threads s self)"
  shows "ipc_wf (snd (rt_mutex_take self i time s))"
proof -
  let ?s' = "snd (rt_mutex_take self i time s)"
  note ok = ipc_wfD(4) [OF wf]
  show ?thesis
  proof (cases "owner (mutexes s i) = Some self \<or> 0 < mutex_value (mutexes s i) \<or> time = 0")
    case True
    have "mutex_ok (mutexes ?s' j)" for j
      using True ok [of j]
      by (auto simp: rt_mutex_take_def Let_def mutex_ok_def RT_MUTEX_HOLD_MAX_def
          hold_incr_nonzero split: option.splits)
    with True show ?thesis
      by (intro ipc_wf_same_objects [OF wf]) (auto simp: rt_mutex_take_def Let_def)
  next
    case False
    then obtain q where q: "owner (mutexes s i) = Some q" "q \<noteq> self"
      using ok [of i] by (auto simp: mutex_ok_def split: option.splits)
    have oth: "waiters ?s' c = waiters s c" if "c \<noteq> MutexObj i" for c
      using that False q by (cases c) (auto simp: rt_mutex_take_def Let_def)
    have "\<exists>pr. waiters ?s' (MutexObj i) =
        suspend_order (mutex_flag (mutexes s i)) pr self (waiters s (MutexObj i))"
      using False q by (cases "0 < time") (auto simp: rt_mutex_take_def Let_def)
    then obtain pr where ob: "waiters ?s' (MutexObj i) =
        suspend_order (mutex_flag (mutexes s i)) pr self (waiters s (MutexObj i))" ..
    have "sem_ok (sems ?s' j)" for j
      using False q ipc_wfD(3) [OF wf, of j] by (auto simp: rt_mutex_take_def Let_def)
    moreover have "mutex_ok (mutexes ?s' j)" for j
      using False q ok [of j] by (auto simp: rt_mutex_take_def Let_def mutex_ok_def split: option.splits)
    moreover have "suspended (threads ?s' p) \<longleftrightarrow> p = self \<or> suspended (threads s p)" for p
      using False q by (auto simp: rt_mutex_take_def Let_def)
    ultimately show ?thesis
      using ipc_wf_wait [OF wf run oth, of "MutexObj i"] distinct_suspend_running [OF wf run]
      by (simp add: ob del: waiters.simps)
  qed
qed

text \<open>The state in which the last release of an owner leaves the mutex, before a waiter resumes.\<close>

lemma ipc_wf_mutex_release:
  assumes wf: "ipc_wf s" and run: "\<not> suspended (threads s self)"
  shows "ipc_wf (snd (rt_mutex_release self i s))"
proof -
  let ?s' = "snd (rt_mutex_release self i s)" and ?m = "mutexes s i"
  note ok = ipc_wfD(4) [OF wf]
  show ?thesis
  proof (cases "owner ?m \<noteq> Some self \<or> hold ?m - 1 \<noteq> 0 \<or> mutex_suspend ?m = []")
    case True
    have "mutex_ok (mutexes ?s' j)" for j
      using True ok [of j]
      by (auto simp: rt_mutex_release_def Let_def mutex_ok_def RT_MUTEX_VALUE_MAX_def
          split: option.splits list.splits)
    with True show ?thesis
      by (intro ipc_wf_same_objects [OF wf])
        (auto simp: rt_mutex_release_def Let_def split: list.splits)
  next
    case False
    then obtain p ps where p: "mutex_suspend ?m = p # ps" by (cases "mutex_suspend ?m") auto
    have susp: "suspended (threads s p)"
      using ipc_wfD(2) [OF wf, of p "MutexObj i"] p by simp
    with run have ne: "p \<noteq> self" by auto
    define s3 where "s3 = upd_mutex i (\<lambda>x. x\<lparr>owner := Some p, original_priority := prio_of s p,
        hold := hold x + 1\<rparr>)
      (if original_priority ?m \<noteq> prio_of s self
       then upd_thread self (\<lambda>t. t\<lparr>current_priority := original_priority ?m\<rparr>)
         (upd_mutex i (\<lambda>x. x\<lparr>hold := hold x - 1\<rparr>) s)
       else upd_mutex i (\<lambda>x. x\<lparr>hold := hold x - 1\<rparr>) s)"
    have e: "?s' = snd (rt_thread_resume p s3)"
      using False p ne by (auto simp: rt_mutex_release_def Let_def s3_def)
    have "mutex_ok (mutexes s3 j)" for j
      using False p ok [of j] by (auto simp: s3_def mutex_ok_def split: option.splits)
    then have "ipc_wf s3"
      by (intro ipc_wf_same_objects [OF wf]) (auto simp: s3_def)
    then show ?thesis unfolding e by (rule ipc_wf_resume)
  qed
qed

lemma ipc_wf_upd_thread:
  assumes "ipc_wf s" and "suspended (f (threads s p)) = suspended (threads s p)"
  shows "ipc_wf (upd_thread p f s)"
  by (rule ipc_wf_same_objects [OF assms(1)]) (use assms ipc_wfD(4) [OF assms(1)] in auto)

lemma ipc_wf_upd_event:
  assumes "ipc_wf s" and "event_suspend (f (events s i)) = event_suspend (events s i)"
  shows "ipc_wf (upd_event i f s)"
proof -
  have "waiters (upd_event i f s) c = waiters s c" for c
    using assms(2) by (cases c) simp_all
  with assms(1) show ?thesis by (auto simp: ipc_wf_def waiters_ok_def)
qed

lemma ipc_wf_event_send_walk:
  fixes s :: "'a kern_scheme"
  shows "ipc_wf s \<Longrightarrow> ipc_wf (snd (event_send_walk i ps s))"
proof (induction ps arbitrary: s)
  case (Cons p ps)
  have wake: "ipc_wf (snd (event_send_walk i ps (snd (rt_thread_resume p
      (if c then upd_event i (\<lambda>e. e\<lparr>eset := eset e AND v\<rparr>) u else u)))))"
    if "ipc_wf u" for c v and u :: "'a kern_scheme"
    using that by (auto intro!: Cons.IH ipc_wf_resume ipc_wf_upd_event)
  have s1: "ipc_wf (upd_thread p (\<lambda>t. t\<lparr>event_set := event_set t AND v\<rparr>) s)" for v
    by (rule ipc_wf_upd_thread [OF Cons.prems]) simp
  show ?case
    unfolding event_send_walk.simps Let_def
    using wake [OF Cons.prems] wake [OF s1] Cons.IH [OF Cons.prems] Cons.prems
    by (simp only: split: if_split) simp
qed simp

lemma ipc_wf_event_send: "ipc_wf s \<Longrightarrow> ipc_wf (snd (rt_event_send i msk s))"
  unfolding rt_event_send_def Let_def
  by (auto intro!: ipc_wf_event_send_walk ipc_wf_upd_event)

lemma ipc_wf_event_recv:
  assumes wf: "ipc_wf s" and run: "\<not> suspended (threads s self)"
  shows "ipc_wf (snd (snd (rt_event_recv self i msk opt timeout s)))"
proof (cases "fst (rt_event_recv self i msk opt timeout s) = None \<and>
    (opt AND RT_EVENT_FLAG_AND \<noteq> 0 \<or> opt AND RT_EVENT_FLAG_OR \<noteq> 0)")
  case False
  let ?s' = "snd (snd (rt_event_recv self i msk opt timeout s))"
  have e: "sems ?s' = sems s" "mutexes ?s' = mutexes s"
    "event_suspend (events ?s' j) = event_suspend (events s j)"
    "suspended (threads ?s' q) = suspended (threads s q)" for j q
    using False by (auto simp: rt_event_recv_def Let_def split: if_splits)
  have "waiters ?s' c = waiters s c" for c
    using e by (cases c) simp_all
  with wf e show ?thesis by (auto simp: ipc_wf_def waiters_ok_def)
next
  case True
  let ?s' = "snd (snd (rt_event_recv self i msk opt timeout s))"
  have oth: "waiters ?s' c = waiters s c" if "c \<noteq> EventObj i" for c
    using that True by (cases c) (auto simp: rt_event_recv_def Let_def split: if_splits)
  have "\<exists>pr. waiters ?s' (EventObj i) =
      suspend_order (event_flag (events s i)) pr self (waiters s (EventObj i))"
    using True by (cases "0 < timeout") (auto simp: rt_event_recv_def Let_def split: if_splits)
  then obtain pr where ob: "waiters ?s' (EventObj i) =
      suspend_order (event_flag (events s i)) pr self (waiters s (EventObj i))" ..
  have "sem_ok (sems ?s' j)" "mutex_ok (mutexes ?s' j)" for j
    using True ipc_wfD(3,4) [OF wf, of j] by (auto simp: rt_event_recv_def Let_def split: if_splits)
  moreover have "suspended (threads ?s' p) \<longleftrightarrow> p = self \<or> suspended (threads s p)" for p
    using True by (auto simp: rt_event_recv_def Let_def split: if_splits)
  ultimately show ?thesis
    using ipc_wf_wait [OF wf run oth, of "EventObj i"] distinct_suspend_running [OF wf run]
    by (simp add: ob del: waiters.simps)
qed

section \<open>The interface of a lock\<close>

text \<open>
  What the application relies on where it uses a mutex with \<open>rt_mutex_trytake\<close> and
  \<open>rt_mutex_release\<close>: an abstract lock with at most one owner and a depth.
\<close>

locale lock =
  fixes try_take :: "nat \<Rightarrow> 's \<Rightarrow> bool \<times> 's"
    and release :: "nat \<Rightarrow> 's \<Rightarrow> 's"
    and holder :: "'s \<Rightarrow> (nat \<times> nat) option"
    and inv :: "'s \<Rightarrow> bool"
    and max_depth :: nat
  assumes max_pos: "0 < max_depth"
    and take_free: "inv s \<Longrightarrow> holder s = None \<Longrightarrow>
      fst (try_take p s) \<and> holder (snd (try_take p s)) = Some (p, 1)"
    and take_own: "inv s \<Longrightarrow> holder s = Some (p, d) \<Longrightarrow> d < max_depth \<Longrightarrow>
      fst (try_take p s) \<and> holder (snd (try_take p s)) = Some (p, Suc d)"
    and take_busy: "inv s \<Longrightarrow> holder s = Some (q, d) \<Longrightarrow> q \<noteq> p \<Longrightarrow>
      \<not> fst (try_take p s) \<and> holder (snd (try_take p s)) = Some (q, d)"
    and release_last: "inv s \<Longrightarrow> holder s = Some (p, 1) \<Longrightarrow> holder (release p s) = None"
    and release_inner: "inv s \<Longrightarrow> holder s = Some (p, Suc (Suc d)) \<Longrightarrow>
      holder (release p s) = Some (p, Suc d)"
    and release_alien: "inv s \<Longrightarrow> (\<forall>d. holder s \<noteq> Some (p, d)) \<Longrightarrow>
      holder (release p s) = holder s"
    and inv_take: "inv s \<Longrightarrow> inv (snd (try_take p s))"
    and inv_release: "inv s \<Longrightarrow> inv (release p s)"
    and depth_pos: "inv s \<Longrightarrow> holder s = Some (p, d) \<Longrightarrow> 0 < d \<and> d \<le> max_depth"
begin

text \<open>
  Take, run, release: the shape of \<open>File_Output\<close>, which releases even when the take failed.
  The lock is left as it was, unless the caller already held it at the maximal depth.
\<close>

definition guarded :: "nat \<Rightarrow> ('s \<Rightarrow> 's) \<Rightarrow> 's \<Rightarrow> 's" where
  "guarded p f s = (let (ok, s1) = try_take p s in release p (if ok then f s1 else s1))"

lemma guarded_free:
  assumes "inv s" and "holder s = None"
    and "\<And>s. inv s \<Longrightarrow> inv (f s) \<and> holder (f s) = holder s"
  shows "holder (guarded p f s) = None" and "inv (guarded p f s)"
    and "guarded p f s = release p (f (snd (try_take p s)))"
proof -
  have t: "fst (try_take p s)" "holder (snd (try_take p s)) = Some (p, 1)"
    using take_free [OF assms(1,2), of p] by auto
  have i: "inv (f (snd (try_take p s)))" "holder (f (snd (try_take p s))) = Some (p, 1)"
    using assms(3) [OF inv_take [OF assms(1)]] t by auto
  show e: "guarded p f s = release p (f (snd (try_take p s)))"
    using t by (simp add: guarded_def case_prod_beta Let_def)
  show "holder (guarded p f s) = None" unfolding e using release_last [OF i] .
  show "inv (guarded p f s)" unfolding e using inv_release [OF i(1)] .
qed

lemma guarded_busy:
  assumes "inv s" and "holder s = Some (q, d)" and "q \<noteq> p"
  shows "holder (guarded p f s) = Some (q, d)" and "inv (guarded p f s)"
    and "guarded p f s = release p (snd (try_take p s))"
proof -
  have t: "\<not> fst (try_take p s)" "holder (snd (try_take p s)) = Some (q, d)"
    using take_busy [OF assms, of ] by auto
  show e: "guarded p f s = release p (snd (try_take p s))"
    using t by (simp add: guarded_def case_prod_beta Let_def)
  have i: "inv (snd (try_take p s))" using assms(1) by (rule inv_take)
  show "holder (guarded p f s) = Some (q, d)"
    unfolding e using release_alien [OF i, of p] t assms(3) by auto
  show "inv (guarded p f s)" unfolding e by (rule inv_release [OF i])
qed

end

section \<open>The mutex as a lock\<close>

definition mutex_holder :: "nat \<Rightarrow> 'a kern_scheme \<Rightarrow> (nat \<times> nat) option" where
  "mutex_holder i s = map_option (\<lambda>q. (q, unat (hold (mutexes s i)))) (owner (mutexes s i))"

definition mutex_try :: "nat \<Rightarrow> nat \<Rightarrow> 'a kern_scheme \<Rightarrow> bool \<times> 'a kern_scheme" where
  "mutex_try i p s = (let (r, s') = rt_mutex_trytake p i s in (r = Some RT_EOK, s'))"

definition mutex_unlock :: "nat \<Rightarrow> nat \<Rightarrow> 'a kern_scheme \<Rightarrow> 'a kern_scheme" where
  "mutex_unlock i p s = snd (rt_mutex_release p i s)"

text \<open>A mutex that is only ever try-taken has no waiting threads.\<close>

definition try_only :: "nat \<Rightarrow> 'a kern_scheme \<Rightarrow> bool" where
  "try_only i s \<longleftrightarrow> mutex_ok (mutexes s i) \<and> mutex_suspend (mutexes s i) = []"

lemma unat_hold_incr: "(h :: u8) < RT_MUTEX_HOLD_MAX \<Longrightarrow> unat (h + 1) = Suc (unat h)"
  using hold_incr_nonzero [of h] by (simp add: unatSuc add.commute)

lemma unat_hold_decr: "(h :: u8) \<noteq> 0 \<Longrightarrow> unat (h - 1) = unat h - 1"
  by (simp add: unat_minus_one)

lemma mutex_holder_Some:
  "mutex_holder i s = Some (p, d) \<longleftrightarrow>
     owner (mutexes s i) = Some p \<and> d = unat (hold (mutexes s i))"
  by (auto simp: mutex_holder_def)

lemma mutex_holder_None: "mutex_holder i s = None \<longleftrightarrow> owner (mutexes s i) = None"
  by (auto simp: mutex_holder_def)

lemma mutex_okD:
  assumes "mutex_ok m"
  shows "owner m = None \<Longrightarrow> mutex_value m = 1 \<and> hold m = 0"
    and "owner m = Some q \<Longrightarrow> mutex_value m = 0 \<and> hold m \<noteq> 0"
  using assms by (auto simp: mutex_ok_def)

lemma mutex_ok_try: "try_only i s \<Longrightarrow> try_only i (snd (mutex_try i p s))"
  unfolding try_only_def mutex_try_def rt_mutex_trytake_def
  by (auto simp: rt_mutex_take_def Let_def mutex_ok_def hold_incr_nonzero RT_MUTEX_HOLD_MAX_def
      split: option.splits)

lemma mutex_ok_unlock: "try_only i s \<Longrightarrow> try_only i (mutex_unlock i p s)"
  unfolding try_only_def mutex_unlock_def
  by (auto simp: rt_mutex_release_def Let_def mutex_ok_def RT_MUTEX_VALUE_MAX_def
      split: option.splits)

interpretation mtx: lock "mutex_try i" "mutex_unlock i" "mutex_holder i" "try_only i" 255 for i
proof
  show "(0::nat) < 255" by simp
next
  fix s :: "'a kern_scheme" and p
  assume i: "try_only i s" and n: "mutex_holder i s = None"
  then have "owner (mutexes s i) = None" "mutex_value (mutexes s i) = 1" "hold (mutexes s i) = 0"
    by (auto simp: mutex_holder_None try_only_def dest: mutex_okD(1))
  then show "fst (mutex_try i p s) \<and> mutex_holder i (snd (mutex_try i p s)) = Some (p, 1)"
    by (simp add: mutex_try_def rt_mutex_trytake_def rt_mutex_take_def mutex_holder_Some
        RT_MUTEX_HOLD_MAX_def)
next
  fix s :: "'a kern_scheme" and p d
  assume i: "try_only i s" and h: "mutex_holder i s = Some (p, d)" and "d < 255"
  then have lt: "hold (mutexes s i) < RT_MUTEX_HOLD_MAX" and o: "owner (mutexes s i) = Some p"
    by (auto simp: mutex_holder_Some RT_MUTEX_HOLD_MAX_def word_less_nat_alt)
  with h show "fst (mutex_try i p s) \<and> mutex_holder i (snd (mutex_try i p s)) = Some (p, Suc d)"
    by (simp add: mutex_try_def rt_mutex_trytake_def rt_mutex_take_def mutex_holder_Some
        unat_hold_incr)
next
  fix s :: "'a kern_scheme" and p q d
  assume i: "try_only i s" and h: "mutex_holder i s = Some (q, d)" and ne: "q \<noteq> p"
  then have "owner (mutexes s i) = Some q" "mutex_value (mutexes s i) = 0"
    by (auto simp: mutex_holder_Some try_only_def dest: mutex_okD(2))
  with h ne show "\<not> fst (mutex_try i p s) \<and> mutex_holder i (snd (mutex_try i p s)) = Some (q, d)"
    by (simp add: mutex_try_def rt_mutex_trytake_def rt_mutex_take_def mutex_holder_Some)
next
  fix s :: "'a kern_scheme" and p
  assume i: "try_only i s" and h: "mutex_holder i s = Some (p, 1)"
  then have "owner (mutexes s i) = Some p" "mutex_value (mutexes s i) = 0"
    "mutex_suspend (mutexes s i) = []"
    by (auto simp: mutex_holder_Some try_only_def dest: mutex_okD(2))
  moreover have "hold (mutexes s i) = 1"
    using h by (simp add: mutex_holder_Some word_unat_eq_iff)
  ultimately show "mutex_holder i (mutex_unlock i p s) = None"
    by (simp add: mutex_unlock_def rt_mutex_release_def mutex_holder_None RT_MUTEX_VALUE_MAX_def
        Let_def)
next
  fix s :: "'a kern_scheme" and p d
  assume i: "try_only i s" and h: "mutex_holder i s = Some (p, Suc (Suc d))"
  then have o: "owner (mutexes s i) = Some p" and d: "unat (hold (mutexes s i)) = Suc (Suc d)"
    by (auto simp: mutex_holder_Some)
  then have nz: "hold (mutexes s i) \<noteq> 0" by auto
  then have d': "unat (hold (mutexes s i) - 1) = Suc d" using d by (simp add: unat_hold_decr)
  then have "hold (mutexes s i) - 1 \<noteq> 0" by (metis nat.distinct(1) unat_0)
  with o d' show "mutex_holder i (mutex_unlock i p s) = Some (p, Suc d)"
    by (simp add: mutex_unlock_def rt_mutex_release_def mutex_holder_Some)
next
  fix s :: "'a kern_scheme" and p
  assume "\<forall>d. mutex_holder i s \<noteq> Some (p, d)"
  then have "owner (mutexes s i) \<noteq> Some p" by (auto simp: mutex_holder_Some)
  then show "mutex_holder i (mutex_unlock i p s) = mutex_holder i s"
    by (simp add: mutex_unlock_def rt_mutex_release_def mutex_holder_def)
next
  fix s :: "'a kern_scheme" and p
  assume "try_only i s"
  then show "try_only i (snd (mutex_try i p s))" and "try_only i (mutex_unlock i p s)"
    by (rule mutex_ok_try, rule mutex_ok_unlock)
next
  fix s :: "'a kern_scheme" and p d
  assume i: "try_only i s" and h: "mutex_holder i s = Some (p, d)"
  then have "hold (mutexes s i) \<noteq> 0" and d: "d = unat (hold (mutexes s i))"
    by (auto simp: mutex_holder_Some try_only_def dest: mutex_okD(2))
  then show "0 < d \<and> d \<le> 255"
    using unsigned_less [of "hold (mutexes s i)", where ?'a = nat] by (auto simp: unat_gt_0)
qed

section \<open>Interleavings\<close>

text \<open>
  The calls of all threads in any order: a running thread may take, release, send or receive;
  the timeout of a waiting thread may fire at any moment; interrupt handlers and timer callbacks
  release semaphores and send events.
\<close>

inductive ipc_step :: "'a kern_scheme \<Rightarrow> 'a kern_scheme \<Rightarrow> bool" where
  sem_take: "\<not> suspended (threads s p) \<Longrightarrow> ipc_step s (snd (rt_sem_take p i time s))"
| sem_release: "ipc_step s (snd (rt_sem_release i s))"
| mutex_take: "\<not> suspended (threads s p) \<Longrightarrow> ipc_step s (snd (rt_mutex_take p i time s))"
| mutex_release: "\<not> suspended (threads s p) \<Longrightarrow> ipc_step s (snd (rt_mutex_release p i s))"
| event_send: "ipc_step s (snd (rt_event_send i msk s))"
| event_recv: "\<not> suspended (threads s p) \<Longrightarrow>
    ipc_step s (snd (snd (rt_event_recv p i msk opt time s)))"
| timeout: "suspended (threads s p) \<Longrightarrow> ipc_step s (rt_thread_timeout p s)"

lemma ipc_step_wf: "ipc_step s s' \<Longrightarrow> ipc_wf s \<Longrightarrow> ipc_wf s'"
  by (induction rule: ipc_step.induct)
    (auto intro: ipc_wf_sem_take ipc_wf_sem_release ipc_wf_mutex_take ipc_wf_mutex_release
      ipc_wf_event_send ipc_wf_event_recv ipc_wf_timeout)

definition idle_kern :: "kern" where
  "idle_kern = \<lparr>tick = 0, timers = (\<lambda>_. \<lparr>flag = 0, init_tick = 0, timeout_tick = 0\<rparr>),
     timer_list = [], soft_timer_list = [], hard_tmp = [], soft_tmp = [], soft_timer_idle = True,
     timer_thread_suspended = True, halted = False,
     threads = (\<lambda>p. \<lparr>current_priority = 10, thread_error = RT_EOK, event_set = 0, event_info = 0,
       suspended = False, thread_timer = p\<rparr>),
     sems = (\<lambda>_. \<lparr>sem_value = 0, sem_flag = RT_IPC_FLAG_PRIO, sem_suspend = []\<rparr>),
     mutexes = (\<lambda>_. \<lparr>mutex_value = 1, hold = 0, owner = None, original_priority = 0xFF,
       mutex_flag = RT_IPC_FLAG_PRIO, mutex_suspend = []\<rparr>),
     events = (\<lambda>_. \<lparr>eset = 0, event_flag = RT_IPC_FLAG_PRIO, event_suspend = []\<rparr>)\<rparr>"

lemma waiters_idle: "waiters idle_kern c = []"
  by (cases c) (simp_all add: idle_kern_def)

lemma ipc_wf_idle: "ipc_wf idle_kern"
  unfolding ipc_wf_def waiters_ok_def waiters_idle
  by (simp add: idle_kern_def sem_ok_def mutex_ok_def)

section \<open>The order of the waiting threads\<close>

fun flag_of :: "'a kern_scheme \<Rightarrow> obj \<Rightarrow> ipc_flag" where
  "flag_of s (SemObj i) = sem_flag (sems s i)"
| "flag_of s (MutexObj i) = mutex_flag (mutexes s i)"
| "flag_of s (EventObj i) = event_flag (events s i)"

text \<open>The most urgent first, where the object asks for it; every suspended thread is on a list.\<close>

definition waiters_sorted :: "'a kern_scheme \<Rightarrow> bool" where
  "waiters_sorted s \<longleftrightarrow>
     (\<forall>c. flag_of s c = RT_IPC_FLAG_PRIO \<longrightarrow> sorted (map (prio_of s) (waiters s c)))"

definition all_listed :: "'a kern_scheme \<Rightarrow> bool" where
  "all_listed s \<longleftrightarrow> (\<forall>p. suspended (threads s p) \<longrightarrow> (\<exists>c. p \<in> set (waiters s c)))"

text \<open>A step that leaves the priorities of the waiting threads alone.\<close>

definition calm_step :: "'a kern_scheme \<Rightarrow> 'a kern_scheme \<Rightarrow> bool" where
  "calm_step s s' \<longleftrightarrow> ipc_step s s' \<and> (\<forall>p. suspended (threads s p) \<longrightarrow> prio_of s' p = prio_of s p)"

text \<open>What a step does to the lists: it takes threads off, or puts one on.\<close>

definition wakes :: "nat set \<Rightarrow> 'a kern_scheme \<Rightarrow> 'a kern_scheme \<Rightarrow> bool" where
  "wakes ps s s' \<longleftrightarrow> (\<forall>c. flag_of s' c = flag_of s c) \<and>
     (\<forall>c. waiters s' c = filter (\<lambda>q. q \<notin> ps) (waiters s c)) \<and>
     (\<forall>q. suspended (threads s' q) \<longleftrightarrow> suspended (threads s q) \<and> q \<notin> ps) \<and>
     (\<forall>q. suspended (threads s' q) \<longrightarrow> prio_of s' q = prio_of s q)"

definition waits :: "nat \<Rightarrow> obj \<Rightarrow> 'a kern_scheme \<Rightarrow> 'a kern_scheme \<Rightarrow> bool" where
  "waits p c s s' \<longleftrightarrow> (\<forall>d. flag_of s' d = flag_of s d) \<and>
     (\<forall>d. waiters s' d = (if d = c then suspend_order (flag_of s c) (prio_of s') p (waiters s c) else waiters s d)) \<and>
     (\<forall>q. suspended (threads s' q) \<longleftrightarrow> q = p \<or> suspended (threads s q))"

lemma wakesI:
  assumes "\<And>i. sem_flag (sems s' i) = sem_flag (sems s i)" "\<And>i. mutex_flag (mutexes s' i) = mutex_flag (mutexes s i)"
    and "\<And>i. event_flag (events s' i) = event_flag (events s i)"
    and "\<And>c. waiters s' c = filter (\<lambda>q. q \<notin> ps) (waiters s c)"
    and "\<And>q. suspended (threads s' q) \<longleftrightarrow> suspended (threads s q) \<and> q \<notin> ps"
    and "\<And>q. suspended (threads s' q) \<Longrightarrow> prio_of s' q = prio_of s q"
  shows "wakes ps s s'"
proof -
  have "flag_of s' c = flag_of s c" for c using assms(1-3) by (cases c) simp_all
  then show ?thesis using assms(4-6) by (simp add: wakes_def)
qed

text \<open>The same objects and lists, with other contents.\<close>

lemma wakes_nobody:
  assumes "\<And>i. sem_flag (sems s' i) = sem_flag (sems s i) \<and> sem_suspend (sems s' i) = sem_suspend (sems s i)"
    and "\<And>i. mutex_flag (mutexes s' i) = mutex_flag (mutexes s i) \<and> mutex_suspend (mutexes s' i) = mutex_suspend (mutexes s i)"
    and "\<And>i. event_flag (events s' i) = event_flag (events s i) \<and> event_suspend (events s' i) = event_suspend (events s i)"
    and "\<And>q. suspended (threads s' q) = suspended (threads s q)"
    and "\<And>q. suspended (threads s q) \<Longrightarrow> prio_of s' q = prio_of s q"
  shows "wakes {} s s'"
proof (rule wakesI)
  fix c show "waiters s' c = filter (\<lambda>q. q \<notin> {}) (waiters s c)" using assms(1-3) by (cases c) simp_all
qed (use assms in auto)

lemma wakes_trans: "wakes ps s t \<Longrightarrow> wakes qs t u \<Longrightarrow> wakes (ps \<union> qs) s u"
  by (auto simp: wakes_def)

lemma remove1_waiter: "ipc_wf s \<Longrightarrow> remove1 p (waiters s c) = filter (\<lambda>q. q \<notin> {p}) (waiters s c)"
  using ipc_wfD(1) [of s c] by (auto simp: distinct_remove1_removeAll removeAll_filter_not_eq intro: filter_cong)

lemma wakes_resume:
  assumes "ipc_wf s"
  shows "\<exists>ps. wakes ps s (snd (rt_thread_resume p s))"
proof (cases "suspended (threads s p)")
  case True
  have "wakes {p} s (snd (rt_thread_resume p s))"
    by (rule wakesI) (use True in \<open>auto simp: remove1_waiter [OF assms],
      auto simp: rt_thread_resume_def Let_def\<close>)
  then show ?thesis by blast
next
  case False
  then show ?thesis by (intro exI [of _ "{}"] wakes_nobody) (simp_all add: rt_thread_resume_def)
qed

lemma wakes_timeout:
  assumes "ipc_wf s" and "suspended (threads s p)"
  shows "wakes {p} s (rt_thread_timeout p s)"
proof -
  have w: "waiters (rt_thread_timeout p s) = waiters (tlist_remove p s)"
    using assms(2) by (intro waiters_cong) (auto simp: rt_thread_timeout_def Let_def tlist_remove_def)
  show ?thesis
    by (rule wakesI) (use assms(2) in \<open>simp_all add: w remove1_waiter [OF assms(1)],
      auto simp: rt_thread_timeout_def Let_def split: if_splits\<close>)
qed

lemma wakes_walk:
  fixes s :: "'a kern_scheme"
  shows "ipc_wf s \<Longrightarrow> \<exists>qs. wakes qs s (snd (event_send_walk i ps s))"
proof (induction ps arbitrary: s)
  case Nil
  then show ?case by (intro exI [of _ "{}"] wakes_nobody) simp_all
next
  case (Cons p ps)
  have wake: "\<exists>qs. wakes qs s (snd (event_send_walk i ps (snd (rt_thread_resume p
      (if c then upd_event i (\<lambda>e. e\<lparr>eset := eset e AND v\<rparr>) u else u)))))"
    if "ipc_wf u" "wakes {} s u" for c v and u :: "'a kern_scheme"
  proof -
    let ?u = "if c then upd_event i (\<lambda>e. e\<lparr>eset := eset e AND v\<rparr>) u else u"
    have u: "ipc_wf ?u" "wakes {} u ?u" using that(1) by (auto intro: ipc_wf_upd_event wakes_nobody)
    obtain q where q: "wakes q ?u (snd (rt_thread_resume p ?u))" using wakes_resume [OF u(1)] by blast
    obtain qs where "wakes qs (snd (rt_thread_resume p ?u)) (snd (event_send_walk i ps (snd (rt_thread_resume p ?u))))"
      using Cons.IH [OF ipc_wf_resume [OF u(1)]] by blast
    from wakes_trans [OF wakes_trans [OF wakes_trans [OF that(2) u(2)] q] this] show ?thesis by blast
  qed
  have s1: "ipc_wf (upd_thread p (\<lambda>t. t\<lparr>event_set := event_set t AND v\<rparr>) s)"
    "wakes {} s (upd_thread p (\<lambda>t. t\<lparr>event_set := event_set t AND v\<rparr>) s)" for v
  proof -
    show "ipc_wf (upd_thread p (\<lambda>t. t\<lparr>event_set := event_set t AND v\<rparr>) s)"
      by (rule ipc_wf_upd_thread [OF Cons.prems]) simp
    show "wakes {} s (upd_thread p (\<lambda>t. t\<lparr>event_set := event_set t AND v\<rparr>) s)"
      by (rule wakes_nobody) auto
  qed
  have s0: "wakes {} s s" by (rule wakes_nobody) simp_all
  show ?case
    unfolding event_send_walk.simps Let_def
    using wake [OF Cons.prems s0] wake [OF s1] Cons.IH [OF Cons.prems] s0
    by (simp only: split: if_split) (simp, blast)
qed

lemma wakes_event_send:
  assumes "ipc_wf s"
  shows "\<exists>qs. wakes qs s (snd (rt_event_send i msk s))"
proof (cases "msk = 0")
  case True
  then show ?thesis by (intro exI [of _ "{}"] wakes_nobody) (simp_all add: rt_event_send_def)
next
  case False
  let ?s = "upd_event i (\<lambda>e. e\<lparr>eset := eset e OR msk\<rparr>) s"
  have "ipc_wf ?s" "wakes {} s ?s" using assms by (auto intro: ipc_wf_upd_event wakes_nobody)
  then show ?thesis
    using False wakes_walk [of ?s i "event_suspend (events ?s i)"] wakes_trans [of "{}" s ?s]
    by (fastforce simp: rt_event_send_def Let_def)
qed

lemma wakes_sem_release:
  assumes "ipc_wf s"
  shows "\<exists>ps. wakes ps s (snd (rt_sem_release i s))"
proof (cases "sem_suspend (sems s i)")
  case Nil
  then show ?thesis by (intro exI [of _ "{}"] wakes_nobody) (auto simp: rt_sem_release_def)
qed (use wakes_resume [OF assms] in \<open>simp add: rt_sem_release_def\<close>)

lemma wakes_mutex_release:
  assumes wf: "ipc_wf s" and run: "\<not> suspended (threads s self)"
  shows "\<exists>ps. wakes ps s (snd (rt_mutex_release self i s))"
proof -
  let ?m = "mutexes s i"
  show ?thesis
  proof (cases "owner ?m \<noteq> Some self \<or> hold ?m - 1 \<noteq> 0 \<or> mutex_suspend ?m = []")
    case True
    then show ?thesis
      using run by (intro exI [of _ "{}"] wakes_nobody) (auto simp: rt_mutex_release_def Let_def split: list.splits)
  next
    case False
    then obtain p ps where p: "mutex_suspend ?m = p # ps" by (cases "mutex_suspend ?m") auto
    have "suspended (threads s p)" using ipc_wfD(2) [OF wf, of p "MutexObj i"] p by simp
    with run have ne: "p \<noteq> self" by auto
    define s3 where "s3 = upd_mutex i (\<lambda>x. x\<lparr>owner := Some p, original_priority := prio_of s p,
        hold := hold x + 1\<rparr>)
      (if original_priority ?m \<noteq> prio_of s self
       then upd_thread self (\<lambda>t. t\<lparr>current_priority := original_priority ?m\<rparr>)
         (upd_mutex i (\<lambda>x. x\<lparr>hold := hold x - 1\<rparr>) s)
       else upd_mutex i (\<lambda>x. x\<lparr>hold := hold x - 1\<rparr>) s)"
    have e: "snd (rt_mutex_release self i s) = snd (rt_thread_resume p s3)"
      using False p ne by (auto simp: rt_mutex_release_def Let_def s3_def)
    have w: "wakes {} s s3" using run by (intro wakes_nobody) (auto simp: s3_def)
    have "mutex_ok (mutexes s3 j)" for j
      using False p ipc_wfD(4) [OF wf, of j] by (auto simp: s3_def mutex_ok_def split: option.splits)
    then have "ipc_wf s3" by (intro ipc_wf_same_objects [OF wf]) (auto simp: s3_def)
    from wakes_resume [OF this, of p] show ?thesis unfolding e using wakes_trans [OF w] by blast
  qed
qed

lemma waitsI:
  assumes "\<And>i. sem_flag (sems s' i) = sem_flag (sems s i)" "\<And>i. mutex_flag (mutexes s' i) = mutex_flag (mutexes s i)"
    and "\<And>i. event_flag (events s' i) = event_flag (events s i)"
    and "waiters s' c = suspend_order (flag_of s c) (prio_of s') p (waiters s c)"
    and "\<And>d. d \<noteq> c \<Longrightarrow> waiters s' d = waiters s d"
    and "\<And>q. suspended (threads s' q) \<longleftrightarrow> q = p \<or> suspended (threads s q)"
  shows "waits p c s s'"
proof -
  have "flag_of s' d = flag_of s d" for d using assms(1-3) by (cases d) simp_all
  then show ?thesis using assms(4-6) by (simp add: waits_def)
qed

lemma step_sem_take: "wakes {} s (snd (rt_sem_take p i time s)) \<or> waits p (SemObj i) s (snd (rt_sem_take p i time s))"
proof (cases "0 < sem_value (sems s i) \<or> time = 0")
  case True
  then have "wakes {} s (snd (rt_sem_take p i time s))" by (intro wakes_nobody) (auto simp: rt_sem_take_def)
  then show ?thesis ..
next
  case False
  let ?s' = "snd (rt_sem_take p i time s)"
  have oth: "waiters ?s' d = waiters s d" if "d \<noteq> SemObj i" for d
    using that False by (cases d) (auto simp: rt_sem_take_def Let_def)
  have "waits p (SemObj i) s ?s'"
    by (rule waitsI [OF _ _ _ _ oth]) (use False in \<open>auto simp: rt_sem_take_def Let_def\<close>)
  then show ?thesis ..
qed

lemma step_mutex_take:
  assumes "ipc_wf s"
  shows "wakes {} s (snd (rt_mutex_take p i time s)) \<or> waits p (MutexObj i) s (snd (rt_mutex_take p i time s))"
proof (cases "owner (mutexes s i) = Some p \<or> 0 < mutex_value (mutexes s i) \<or> time = 0")
  case True
  then have "wakes {} s (snd (rt_mutex_take p i time s))"
    by (intro wakes_nobody) (auto simp: rt_mutex_take_def Let_def)
  then show ?thesis ..
next
  case False
  then obtain q where q: "owner (mutexes s i) = Some q" "q \<noteq> p"
    using ipc_wfD(4) [OF assms(1), of i] by (auto simp: mutex_ok_def split: option.splits)
  let ?s' = "snd (rt_mutex_take p i time s)"
  have oth: "waiters ?s' d = waiters s d" if "d \<noteq> MutexObj i" for d
    using that False q by (cases d) (auto simp: rt_mutex_take_def Let_def)
  have "waits p (MutexObj i) s ?s'"
    by (rule waitsI [OF _ _ _ _ oth]) (use False q in \<open>auto simp: rt_mutex_take_def Let_def\<close>)
  then show ?thesis ..
qed

lemma step_event_recv:
  "wakes {} s (snd (snd (rt_event_recv p i msk opt time s)))
    \<or> waits p (EventObj i) s (snd (snd (rt_event_recv p i msk opt time s)))"
proof (cases "fst (rt_event_recv p i msk opt time s) = None \<and>
    (opt AND RT_EVENT_FLAG_AND \<noteq> 0 \<or> opt AND RT_EVENT_FLAG_OR \<noteq> 0)")
  case False
  then have "wakes {} s (snd (snd (rt_event_recv p i msk opt time s)))"
    by (intro wakes_nobody) (auto simp: rt_event_recv_def Let_def split: if_splits)
  then show ?thesis ..
next
  case True
  let ?s' = "snd (snd (rt_event_recv p i msk opt time s))"
  have oth: "waiters ?s' d = waiters s d" if "d \<noteq> EventObj i" for d
    using that True by (cases d) (auto simp: rt_event_recv_def Let_def split: if_splits)
  have "waits p (EventObj i) s ?s'"
    by (rule waitsI [OF _ _ _ _ oth]) (use True in \<open>auto simp: rt_event_recv_def Let_def split: if_splits\<close>)
  then show ?thesis ..
qed

lemma step_lists:
  assumes "ipc_step s s'" and wf: "ipc_wf s"
  shows "all_listed s \<Longrightarrow> all_listed s'"
    and "\<forall>q. suspended (threads s q) \<longrightarrow> prio_of s' q = prio_of s q \<Longrightarrow> waiters_sorted s \<Longrightarrow> waiters_sorted s'"
proof -
  have mem: "suspended (threads s q)" if "q \<in> set (waiters s c)" for q c
    using ipc_wfD(2) [OF wf that] .
  have two: "(\<exists>ps. wakes ps s s') \<or> (\<exists>p c. waits p c s s')"
    using assms(1)
  proof cases
    case (sem_take p i time)
    then show ?thesis using step_sem_take [of s p i time] by blast
  next
    case (mutex_take p i time)
    then show ?thesis using step_mutex_take [OF wf, of p i time] by blast
  next
    case (event_recv p i msk opt time)
    then show ?thesis using step_event_recv [of s p i msk opt time] by blast
  qed (use wakes_sem_release [OF wf] wakes_mutex_release [OF wf] wakes_event_send [OF wf]
      wakes_timeout [OF wf] in blast)+
  show "all_listed s'" if "all_listed s"
    using two
  proof (elim disjE exE)
    fix ps assume "wakes ps s s'"
    then show ?thesis using that unfolding wakes_def all_listed_def by fastforce
  next
    fix p c assume "waits p c s s'"
    then show ?thesis using that unfolding waits_def all_listed_def
      by (metis insertCI set_suspend_order)
  qed
  assume calm: "\<forall>q. suspended (threads s q) \<longrightarrow> prio_of s' q = prio_of s q" and srt: "waiters_sorted s"
  have eq: "map (prio_of s') (waiters s c) = map (prio_of s) (waiters s c)" for c
    using calm mem by auto
  show "waiters_sorted s'"
    using two
  proof (elim disjE exE)
    fix ps assume w: "wakes ps s s'"
    have f: "flag_of s' c = flag_of s c" for c using w by (simp add: wakes_def)
    have "map (prio_of s') (waiters s' c) = map (prio_of s) (filter (\<lambda>q. q \<notin> ps) (waiters s c))" for c
      using calm mem by (auto simp: w [unfolded wakes_def])
    moreover have "sorted (map (prio_of s) (filter (\<lambda>q. q \<notin> ps) (waiters s c)))" if "flag_of s c = RT_IPC_FLAG_PRIO" for c
      using srt that by (intro sorted_filter) (simp add: waiters_sorted_def)
    ultimately show ?thesis unfolding waiters_sorted_def f by simp
  next
    fix p c assume w: "waits p c s s'"
    have "sorted (map (prio_of s') (waiters s' d))" if "flag_of s' d = RT_IPC_FLAG_PRIO" for d
    proof -
      have f: "flag_of s d = RT_IPC_FLAG_PRIO" using that w by (simp add: waits_def)
      have "sorted (map (prio_of s') (waiters s d))" unfolding eq using srt f by (simp add: waiters_sorted_def)
      then show ?thesis using w f by (auto simp: waits_def suspend_order_def sorted_prio_insert)
    qed
    then show ?thesis by (simp add: waiters_sorted_def)
  qed
qed

text \<open>C17: Under any interleaving of takes, releases, sends, receives and timeouts, by any number
  of threads, the kernel objects stay well formed: a suspend list has no duplicate and holds
  suspended threads only, no thread waits on two objects, nobody waits for a semaphore that has a
  token, a free mutex has its one token and nobody waiting, and an owned one is held at least
  once. If every suspended thread is on a list at first, each is on exactly one at all times. And the
  lists of objects with the flag \<open>PRIO\<close> stay sorted by priority, as long as no waiting thread inherits
  one.\<close>

theorem ipc_reachable_wf:
  assumes "ipc_step\<^sup>*\<^sup>* s s'" and "ipc_wf s"
  shows "ipc_wf s' \<and> (all_listed s \<longrightarrow> (\<forall>p. suspended (threads s' p) \<longrightarrow> (\<exists>!c. p \<in> set (waiters s' c))))
    \<and> (calm_step\<^sup>*\<^sup>* s s' \<and> waiters_sorted s \<longrightarrow>
        (\<forall>c. flag_of s' c = RT_IPC_FLAG_PRIO \<longrightarrow> sorted (map (prio_of s') (waiters s' c))))"
proof (intro conjI impI allI)
  have inv: "ipc_wf s' \<and> (all_listed s \<longrightarrow> all_listed s')"
    using assms by (induction rule: rtranclp_induct) (auto intro: ipc_step_wf step_lists(1))
  then show wf: "ipc_wf s'" by simp
  { fix p assume "all_listed s" "suspended (threads s' p)"
    then obtain c where c: "p \<in> set (waiters s' c)" using inv by (auto simp: all_listed_def)
    then show "\<exists>!c. p \<in> set (waiters s' c)" using ipc_wfD(5) [OF wf] by blast }
  { fix c assume "calm_step\<^sup>*\<^sup>* s s' \<and> waiters_sorted s" "flag_of s' c = RT_IPC_FLAG_PRIO"
    then have "calm_step\<^sup>*\<^sup>* s s'" "waiters_sorted s" by blast+
    then have "ipc_wf s' \<and> waiters_sorted s'"
      using assms(2) by (induction rule: rtranclp_induct) (auto simp: calm_step_def intro: ipc_step_wf step_lists(2))
    then show "sorted (map (prio_of s') (waiters s' c))"
      using \<open>flag_of s' c = RT_IPC_FLAG_PRIO\<close> by (simp add: waiters_sorted_def) }
qed

theorem ipc_reachable_wf_witness:
  "ipc_wf (snd (rt_sem_take 2 3 100 (snd (rt_sem_take 1 3 100 idle_kern))))
    \<and> (\<exists>!c. 2 \<in> set (waiters (snd (rt_sem_take 2 3 100 (snd (rt_sem_take 1 3 100 idle_kern)))) c))
    \<and> sorted (map (prio_of (snd (rt_sem_take 2 3 100 (snd (rt_sem_take 1 3 100 idle_kern)))))
        (waiters (snd (rt_sem_take 2 3 100 (snd (rt_sem_take 1 3 100 idle_kern)))) (SemObj 3)))"
proof -
  let ?s = "snd (rt_sem_take 1 3 100 idle_kern)" and ?t = "snd (rt_sem_take 2 3 100 (snd (rt_sem_take 1 3 100 idle_kern)))"
  have s: "\<not> suspended (threads idle_kern q)" "\<not> suspended (threads ?s 2)" for q
    by (simp_all add: rt_sem_take_def Let_def) (simp_all add: idle_kern_def)
  have st: "ipc_step idle_kern ?s" "ipc_step ?s ?t" using ipc_step.sem_take s by blast+
  have "prio_of ?s q = prio_of idle_kern q" "prio_of ?t q = prio_of ?s q" for q
    by (simp_all add: rt_sem_take_def Let_def)
  then have "calm_step idle_kern ?s" "calm_step ?s ?t" using st unfolding calm_step_def by blast+
  then have c: "calm_step\<^sup>*\<^sup>* idle_kern ?t" and r: "ipc_step\<^sup>*\<^sup>* idle_kern ?t"
    using st by (meson rtranclp.intros)+
  have i: "all_listed idle_kern" "waiters_sorted idle_kern"
    using s(1) by (simp_all add: all_listed_def waiters_sorted_def waiters_idle)
  have f: "flag_of ?t (SemObj 3) = RT_IPC_FLAG_PRIO" "suspended (threads ?t 2)"
    by (simp_all add: rt_sem_take_def Let_def idle_kern_def)
  from ipc_reachable_wf [OF r ipc_wf_idle] c i f show ?thesis by blast
qed

text \<open>
  A priority that a waiting thread inherits does not move it in its list: thread 2 owns a mutex and
  waits for a semaphore behind thread 1; when thread 3 waits for the mutex, thread 2 is more urgent
  than thread 1, and yet the next release resumes thread 1.
\<close>

definition inherit_kern :: kern where
  "inherit_kern = idle_kern\<lparr>threads := (\<lambda>p. (threads idle_kern p)\<lparr>current_priority := (if p = 1 then 5 else if p = 2 then 10 else 2)\<rparr>)\<rparr>"

lemma inheritance_keeps_place:
  defines "s \<equiv> snd (rt_mutex_take 3 4 100 (snd (rt_sem_take 2 3 100 (snd (rt_sem_take 1 3 100
     (snd (rt_mutex_take 2 4 100 inherit_kern)))))))"
  shows "prio_of s 2 < prio_of s 1" "waiters s (SemObj 3) = [1, 2]"
    and "\<not> suspended (threads (snd (rt_sem_release 3 s)) 1)" "suspended (threads (snd (rt_sem_release 3 s)) 2)"
proof -
  show "prio_of s 2 < prio_of s 1" "waiters s (SemObj 3) = [1, 2]"
    by (simp_all add: s_def rt_sem_take_def rt_mutex_take_def Let_def inherit_kern_def idle_kern_def
        suspend_order_def RT_MUTEX_HOLD_MAX_def)
  then have "sem_suspend (sems s 3) = [1, 2]" by simp
  moreover have "suspended (threads s 1)" "suspended (threads s 2)"
    by (simp_all add: s_def rt_sem_take_def rt_mutex_take_def Let_def inherit_kern_def idle_kern_def
        RT_MUTEX_HOLD_MAX_def)
  ultimately show "\<not> suspended (threads (snd (rt_sem_release 3 s)) 1)" "suspended (threads (snd (rt_sem_release 3 s)) 2)"
    by (simp_all add: rt_sem_release_def)
qed

text \<open>A thread that has to wait for a semaphore is suspended, and the next release hands the
  token to the longest waiting of the most urgent waiters: that thread runs again and its take
  returns \<open>RT_EOK\<close>, the count stays zero, and the other waiters keep their order. When the
  wait times out instead, the take returns \<open>-RT_ETIMEOUT\<close> and the thread is off the list.\<close>

theorem sem_wait_outcomes:
  assumes wf: "ipc_wf s" and run: "\<not> suspended (threads s self)"
    and empty: "sem_value (sems s i) = 0" and time: "time \<noteq> 0"
  defines "s1 \<equiv> snd (rt_sem_take self i time s)"
  shows "fst (rt_sem_take self i time s) = None \<and> suspended (threads s1 self) \<and>
    self \<in> set (sem_suspend (sems s1 i)) \<and>
    (let p = hd (sem_suspend (sems s1 i)); (r, s2) = rt_sem_release i s1
     in r = RT_EOK \<and> \<not> suspended (threads s2 p) \<and>
        sem_suspend (sems s2 i) = tl (sem_suspend (sems s1 i)) \<and> sem_value (sems s2 i) = 0 \<and>
        (p = self \<longrightarrow> take_resumed self s2 = RT_EOK)) \<and>
    (let s2 = rt_thread_timeout self s1
     in \<not> suspended (threads s2 self) \<and> sem_suspend (sems s2 i) = sem_suspend (sems s i) \<and>
        take_resumed self s2 = RT_ETIMEOUT)"
proof -
  have susp: "suspended (threads s1 self)" and err: "thread_error (threads s1 self) = RT_EOK"
    and val: "sem_value (sems s1 i) = 0" and none: "fst (rt_sem_take self i time s) = None"
    using empty time by (auto simp: s1_def rt_sem_take_def Let_def)
  have wf1: "ipc_wf s1" unfolding s1_def by (rule ipc_wf_sem_take [OF wf run])
  have out: "self \<notin> set (sem_suspend (sems s i))"
    using ipc_wfD(2) [OF wf, of self "SemObj i"] run by auto
  have "\<exists>fl pr. sem_suspend (sems s1 i) = suspend_order fl pr self (sem_suspend (sems s i))"
    unfolding s1_def using empty time by (cases "0 < time") (auto simp: rt_sem_take_def Let_def)
  then have mem: "self \<in> set (sem_suspend (sems s1 i))"
    and rem: "remove1 self (sem_suspend (sems s1 i)) = sem_suspend (sems s i)"
    using out by (auto simp: remove1_suspend_order)
  obtain p ps where p: "sem_suspend (sems s1 i) = p # ps"
    using mem by (cases "sem_suspend (sems s1 i)") auto
  have sp: "suspended (threads s1 p)"
    using ipc_wfD(2) [OF wf1, of p "SemObj i"] p by simp
  have "\<not> suspended (threads (rt_thread_timeout self s1) self) \<and>
      sem_suspend (sems (rt_thread_timeout self s1) i) = sem_suspend (sems s i) \<and>
      take_resumed self (rt_thread_timeout self s1) = RT_ETIMEOUT"
    using susp rem by (simp add: rt_thread_timeout_def Let_def take_resumed_def)
  with susp none mem p sp val err show ?thesis
    by (auto simp: rt_sem_release_def take_resumed_def case_prod_beta Let_def)
qed

theorem sem_wait_outcomes_witness:
  "fst (rt_sem_take 1 3 100 idle_kern) = None \<and>
   take_resumed 1 (snd (rt_sem_release 3 (snd (rt_sem_take 1 3 100 idle_kern)))) = RT_EOK"
proof -
  have h: "\<not> suspended (threads idle_kern 1)" "sem_value (sems idle_kern 3) = 0" "(100::int) \<noteq> 0"
    by (simp_all add: idle_kern_def)
  have l: "sem_suspend (sems (snd (rt_sem_take 1 3 100 idle_kern)) 3) = [1]"
    by (simp add: rt_sem_take_def idle_kern_def suspend_order_def Let_def)
  show ?thesis
    using sem_wait_outcomes [OF ipc_wf_idle h] l by (auto simp: case_prod_beta Let_def)
qed

end
