(* ===== verification/C_Lib.thy ===== *)
theory C_Lib
  imports Prelude "HOL-Library.Char_ord"
begin

text \<open>
  The part of the C standard library that the sources use on text: \<open>strtol\<close>/\<open>atoi\<close>/\<open>atol\<close>,
  \<open>strchr\<close>, the decimal conversions of \<open>sprintf\<close> and the decimal directives of \<open>sscanf\<close>.
  A C string is the list of its characters without the terminating NUL.
\<close>

section \<open>Reading decimals\<close>

definition code_of :: "char \<Rightarrow> nat" where
  "code_of c = of_char c"

definition is_digit :: "char \<Rightarrow> bool" where
  "is_digit c \<longleftrightarrow> 48 \<le> code_of c \<and> code_of c \<le> 57"

definition is_space :: "char \<Rightarrow> bool" where
  "is_space c \<longleftrightarrow> code_of c = 32 \<or> (9 \<le> code_of c \<and> code_of c \<le> 13)"

definition digit_val :: "char \<Rightarrow> nat" where
  "digit_val c = code_of c - 48"

fun digits_val :: "nat \<Rightarrow> string \<Rightarrow> nat" where
  "digits_val acc [] = acc"
| "digits_val acc (c # cs) = digits_val (10 * acc + digit_val c) cs"

text \<open>\<open>long\<close> and \<open>int\<close> are 32 bits wide; \<open>strtol\<close> saturates.\<close>

definition clamp32 :: "int \<Rightarrow> int" where
  "clamp32 n = max (- (2 ^ 31)) (min (2 ^ 31 - 1) n)"

text \<open>
  \<open>strtol(s, &end, 10)\<close>: leading white space, an optional sign, then digits; \<^const>\<open>None\<close> when
  there is no digit. The second component is the rest of the string.
\<close>

definition read_sign :: "string \<Rightarrow> bool \<times> string" where
  "read_sign s = (case s of
       [] \<Rightarrow> (False, [])
     | c # cs \<Rightarrow> if c = CHR ''-'' then (True, cs) else if c = CHR ''+'' then (False, cs) else (False, s))"

definition strtol10 :: "string \<Rightarrow> (int \<times> string) option" where
  "strtol10 s =
     (let (neg, s1) = read_sign (dropWhile is_space s);
          ds = takeWhile is_digit s1
      in if ds = [] then None
         else Some (clamp32 (if neg then - int (digits_val 0 ds) else int (digits_val 0 ds)),
                    dropWhile is_digit s1))"

definition atoi :: "string \<Rightarrow> int" where
  "atoi s = (case strtol10 s of None \<Rightarrow> 0 | Some (n, _) \<Rightarrow> n)"

definition strchr :: "char \<Rightarrow> string \<Rightarrow> string option" where
  "strchr c s = (case dropWhile (\<lambda>x. x \<noteq> c) s of [] \<Rightarrow> None | t \<Rightarrow> Some t)"

text \<open>
  \<open>sscanf\<close> with a format of literal characters and \<open>%d\<close>, \<open>%ld\<close>: the values converted before the
  first directive that does not match.
\<close>

datatype directive = Lit char | Dec

fun sscanf :: "directive list \<Rightarrow> string \<Rightarrow> int list" where
  "sscanf [] s = []"
| "sscanf (Lit c # ds) s = (case s of [] \<Rightarrow> [] | x # xs \<Rightarrow> if x = c then sscanf ds xs else [])"
| "sscanf (Dec # ds) s = (case strtol10 s of None \<Rightarrow> [] | Some (n, r) \<Rightarrow> n # sscanf ds r)"

section \<open>Printing decimals\<close>

definition digit_char :: "nat \<Rightarrow> char" where
  "digit_char d = char_of (48 + d)"

fun nat_digits :: "nat \<Rightarrow> string" where
  "nat_digits n = (if n < 10 then [digit_char n] else nat_digits (n div 10) @ [digit_char (n mod 10)])"

declare nat_digits.simps [simp del]

text \<open>\<open>%d\<close> and \<open>%ld\<close>.\<close>

definition fmt_d :: "int \<Rightarrow> string" where
  "fmt_d n = (if n < 0 then CHR ''-'' # nat_digits (nat (- n)) else nat_digits (nat n))"

text \<open>\<open>%0wd\<close> and \<open>%0wld\<close>: the sign counts toward the width, the zeros follow it.\<close>

definition fmt_0d :: "nat \<Rightarrow> int \<Rightarrow> string" where
  "fmt_0d w n =
     (let ds = nat_digits (nat \<bar>n\<bar>)
      in if n < 0 then CHR ''-'' # replicate (w - 1 - length ds) CHR ''0'' @ ds
         else replicate (w - length ds) CHR ''0'' @ ds)"

section \<open>Facts\<close>

lemma of_char_digit_char: "d < 10 \<Longrightarrow> code_of (digit_char d) = 48 + d"
  by (simp add: digit_char_def code_of_def)

lemma is_digit_digit_char [simp]: "d < 10 \<Longrightarrow> is_digit (digit_char d)"
  by (simp add: is_digit_def of_char_digit_char)

lemma digit_val_digit_char [simp]: "d < 10 \<Longrightarrow> digit_val (digit_char d) = d"
  by (simp add: digit_val_def of_char_digit_char)

lemma is_digit_zero [simp]: "is_digit CHR ''0''"
  by (simp add: is_digit_def code_of_def)

lemma digit_val_zero [simp]: "digit_val CHR ''0'' = 0"
  by (simp add: digit_val_def code_of_def)

lemma nat_digits_ne [simp]: "nat_digits n \<noteq> []"
  by (subst nat_digits.simps) simp

lemma nat_digits_digits: "\<forall>c \<in> set (nat_digits n). is_digit c"
proof (induction n rule: nat_digits.induct)
  case (1 n)
  then show ?case by (subst nat_digits.simps) auto
qed

lemma digits_val_append: "digits_val acc (xs @ [c]) = 10 * digits_val acc xs + digit_val c"
  by (induction xs arbitrary: acc) simp_all

lemma digits_val_nat_digits [simp]: "digits_val 0 (nat_digits n) = n"
proof (induction n rule: nat_digits.induct)
  case (1 n)
  then show ?case by (subst nat_digits.simps) (simp add: digits_val_append)
qed

lemma digits_val_zeros: "digits_val 0 (replicate k CHR ''0'' @ ds) = digits_val 0 ds"
  by (induction k) simp_all

lemma not_space_digit: "is_digit c \<Longrightarrow> \<not> is_space c"
  by (auto simp: is_digit_def is_space_def)

lemma digit_not_sign: "is_digit c \<Longrightarrow> c \<noteq> CHR ''-'' \<and> c \<noteq> CHR ''+'' \<and> c \<noteq> CHR '',''"
  by (auto simp: is_digit_def code_of_def)

text \<open>Reading what was printed, in front of anything that does not start with a digit.\<close>

lemma strtol10_digits:
  assumes "ds \<noteq> []" and "\<forall>c \<in> set ds. is_digit c" and "rest = [] \<or> \<not> is_digit (hd rest)"
    and "int (digits_val 0 ds) < 2 ^ 31"
  shows "strtol10 (ds @ rest) = Some (int (digits_val 0 ds), rest)"
proof -
  obtain d es where d: "ds = d # es" using assms(1) by (cases ds) auto
  have dd: "is_digit d" using assms(2) d by simp
  have sp: "dropWhile is_space (ds @ rest) = ds @ rest"
    using dd by (simp add: d not_space_digit)
  have sg: "read_sign (ds @ rest) = (False, ds @ rest)"
    using dd digit_not_sign [OF dd] by (simp add: read_sign_def d)
  have tw: "takeWhile is_digit (ds @ rest) = ds" and dw: "dropWhile is_digit (ds @ rest) = rest"
    using assms(2,3) by (cases rest; auto simp: takeWhile_append2 dropWhile_append2)+
  show ?thesis
    using assms(1,4) by (simp add: strtol10_def sp sg tw dw clamp32_def)
qed

lemma length_nat_digits: "n < 10 ^ Suc k \<Longrightarrow> length (nat_digits n) \<le> Suc k"
proof (induction k arbitrary: n)
  case 0
  then show ?case by (subst nat_digits.simps) simp
next
  case (Suc k)
  show ?case
  proof (cases "n < 10")
    case True
    then show ?thesis by (subst nat_digits.simps) simp
  next
    case False
    have "n div 10 < 10 ^ Suc k"
      using Suc.prems by (simp add: less_mult_imp_div_less mult.commute)
    from Suc.IH [OF this] False show ?thesis by (subst nat_digits.simps) simp
  qed
qed

lemma fmt_0d_nat:
  "0 \<le> n \<Longrightarrow> fmt_0d w n = replicate (w - length (nat_digits (nat n))) CHR ''0'' @ nat_digits (nat n)"
  by (simp add: fmt_0d_def Let_def)

lemma fmt_0d_digits:
  assumes "0 \<le> n"
  shows "fmt_0d w n \<noteq> []" and "\<forall>c \<in> set (fmt_0d w n). is_digit c"
    and "digits_val 0 (fmt_0d w n) = nat n"
  using assms nat_digits_digits by (auto simp: fmt_0d_nat digits_val_zeros)

lemma length_fmt_0d: "0 \<le> n \<Longrightarrow> n < 10 ^ Suc k \<Longrightarrow> length (fmt_0d (Suc k) n) = Suc k"
  using length_nat_digits [of "nat n" k]
  by (simp add: fmt_0d_nat nat_less_iff)

lemma strtol10_fmt_0d:
  assumes "0 \<le> n" and "n < 2 ^ 31" and "rest = [] \<or> \<not> is_digit (hd rest)"
  shows "strtol10 (fmt_0d w n @ rest) = Some (n, rest)"
  using strtol10_digits [OF fmt_0d_digits(1,2) [OF assms(1), of w] assms(3)] fmt_0d_digits(3) [OF assms(1), of w]
    assms by simp

lemma length_fmt_0d_ge: "0 < w \<Longrightarrow> w \<le> length (fmt_0d w n)"
  by (auto simp: fmt_0d_def Let_def)

lemma length_fmt_0d_le:
  assumes "\<bar>n\<bar> < 10 ^ Suc k"
  shows "length (fmt_0d w n) \<le> max w (if n < 0 then Suc (Suc k) else Suc k)"
proof -
  have "nat \<bar>n\<bar> < 10 ^ Suc k" using assms by (simp add: nat_less_iff)
  from length_nat_digits [OF this] show ?thesis by (auto simp: fmt_0d_def Let_def)
qed

end
