(* ===== verification/Agile_Led.thy ===== *)
theory Agile_Led
  imports Ipc C_Lib
begin

text \<open>
  The LED package: \<open>packages/agile_led-latest/src/agile_led.c\<close>.

  State: the pins of the board, the LED objects (a pointer is a \<^typ>\<open>nat\<close>; \<^const>\<open>None\<close> is
  no object), and the singly linked list of the active LEDs. Every operation runs under the
  package's recursive mutex \<open>_mtx\<close>, so it is one atomic step here. \<open>rt_malloc\<close> answers from
  the oracle \<open>heap_oracle\<close>. A failed \<open>RT_ASSERT\<close>, or a read outside an object, sets
  \<open>halted\<close>.
\<close>

section \<open>State\<close>

datatype led_type = AGILE_LED_TYPE_DYNAMIC | AGILE_LED_TYPE_STATIC

record led =
  led_kind :: led_type
  active :: bool
  pin :: u32
  active_logic :: u32
  light_arr :: "u32 list option"
  arr_num :: u32
  arr_index :: u32
  loop_init :: int
  loop_cnt :: int
  tick_timeout :: u32
  compelete :: "nat option"

record board = kern +
  pin_level :: "u32 \<Rightarrow> u32"
  pin_mode :: "u32 \<Rightarrow> u8"
  heap_oracle :: "nat \<Rightarrow> bool"
  heap_calls :: nat

record led_env = board +
  leds :: "nat \<Rightarrow> led option"
  led_list :: "nat list"
  led_is_init :: bool

definition rt_pin_write :: "u32 \<Rightarrow> u32 \<Rightarrow> 'a board_scheme \<Rightarrow> 'a board_scheme" where
  "rt_pin_write p v s = s\<lparr>pin_level := (pin_level s)(p := v)\<rparr>"

definition rt_pin_read :: "u32 \<Rightarrow> 'a board_scheme \<Rightarrow> u32" where
  "rt_pin_read p s = pin_level s p"

definition rt_pin_mode :: "u32 \<Rightarrow> u8 \<Rightarrow> 'a board_scheme \<Rightarrow> 'a board_scheme" where
  "rt_pin_mode p m s = s\<lparr>pin_mode := (pin_mode s)(p := m)\<rparr>"

abbreviation (input) PIN_LOW :: u32 where "PIN_LOW \<equiv> 0"
abbreviation (input) PIN_HIGH :: u32 where "PIN_HIGH \<equiv> 1"
abbreviation (input) PIN_MODE_OUTPUT :: u8 where "PIN_MODE_OUTPUT \<equiv> 0"

definition malloc_ok :: "'a board_scheme \<Rightarrow> bool \<times> 'a board_scheme" where
  "malloc_ok s = (heap_oracle s (heap_calls s), s\<lparr>heap_calls := Suc (heap_calls s)\<rparr>)"

text \<open>C's \<open>!x\<close>.\<close>

definition c_not :: "u32 \<Rightarrow> u32" where
  "c_not x = (if x = 0 then 1 else 0)"

definition put_led :: "nat \<Rightarrow> led \<Rightarrow> 'a led_env_scheme \<Rightarrow> 'a led_env_scheme" where
  "put_led l x s = s\<lparr>leds := (leds s)(l \<mapsto> x)\<rparr>"

definition assert_fail :: "'a led_env_scheme \<Rightarrow> 'a led_env_scheme" where
  "assert_fail s = s\<lparr>halted := True\<rparr>"

section \<open>The blink pattern\<close>

text \<open>The number of fields: the commas, and one more unless the string ends in a comma.\<close>

definition count_fields :: "string \<Rightarrow> u32" where
  "count_fields mode = word_of_nat (length (filter (\<lambda>c. c = CHR '','') mode)) +
     (if last mode \<noteq> CHR '','' then 1 else 0)"

text \<open>
  The loop that fills the array: \<open>atoi\<close> at the current field, then on to the character after
  the next comma. \<open>ptr\<close> is NULL only behind the last field.
\<close>

fun fill_light_arr :: "nat \<Rightarrow> string \<Rightarrow> u32 list" where
  "fill_light_arr 0 ptr = []"
| "fill_light_arr (Suc n) ptr = word_of_int (atoi ptr) #
     (case strchr CHR '','' ptr of None \<Rightarrow> replicate n 0 | Some q \<Rightarrow> fill_light_arr n (tl q))"

text \<open>
  The result is the updated object; on \<open>-RT_ENOMEM\<close> the count is already written. The empty
  string makes the code read in front of it, which is recorded as a fault.
\<close>

definition agile_led_get_light_arr ::
  "led \<Rightarrow> string \<Rightarrow> 'a led_env_scheme \<Rightarrow> rt_err \<times> led \<times> 'a led_env_scheme" where
  "agile_led_get_light_arr x mode s =
     (if led_kind x \<noteq> AGILE_LED_TYPE_DYNAMIC \<or> light_arr x \<noteq> None \<or> arr_num x \<noteq> 0 \<or> mode = []
      then (RT_ERROR, x, assert_fail s)
      else
        let x1 = x\<lparr>arr_num := count_fields mode\<rparr>
        in if arr_num x1 = 0 then (RT_ERROR, x1, s)
           else
             let (ok, s1) = malloc_ok s
             in if \<not> ok then (RT_ENOMEM, x1, s1)
                else (RT_EOK, x1\<lparr>light_arr := Some (fill_light_arr (unat (arr_num x1)) mode)\<rparr>, s1))"

section \<open>Operations\<close>

definition agile_led_env_init :: "'a led_env_scheme \<Rightarrow> 'a led_env_scheme" where
  "agile_led_env_init s = (if led_is_init s then s else s\<lparr>led_is_init := True\<rparr>)"

text \<open>\<open>l\<close> is the address \<open>rt_malloc\<close> returns for the new object.\<close>

definition agile_led_create ::
  "nat \<Rightarrow> u32 \<Rightarrow> u32 \<Rightarrow> string option \<Rightarrow> int \<Rightarrow> 'a led_env_scheme
     \<Rightarrow> nat option \<times> 'a led_env_scheme" where
  "agile_led_create l p logic mode loop s =
     (if \<not> led_is_init s then (None, s)
      else
        let (ok, s1) = malloc_ok s
        in if \<not> ok then (None, s1)
           else
             let x = \<lparr>led_kind = AGILE_LED_TYPE_DYNAMIC, active = False, pin = p,
                      active_logic = logic, light_arr = None, arr_num = 0, arr_index = 0,
                      loop_init = loop, loop_cnt = loop, tick_timeout = tick s1,
                      compelete = Some 0\<rparr>;
                 (r, x1, s2) = (case mode of None \<Rightarrow> (RT_EOK, x, s1)
                                | Some m \<Rightarrow> agile_led_get_light_arr x m s1)
             in if r \<noteq> RT_EOK then (None, s2)
                else (Some l, rt_pin_write p (c_not logic)
                       (rt_pin_mode p PIN_MODE_OUTPUT (put_led l x1 s2))))"

definition agile_led_init ::
  "nat \<Rightarrow> u32 \<Rightarrow> u32 \<Rightarrow> u32 list \<Rightarrow> int \<Rightarrow> int \<Rightarrow> 'a led_env_scheme
     \<Rightarrow> rt_err \<times> 'a led_env_scheme" where
  "agile_led_init l p logic arr sz loop s =
     (if \<not> led_is_init s then (RT_ERROR, s)
      else (RT_EOK, rt_pin_write p (c_not logic) (rt_pin_mode p PIN_MODE_OUTPUT
             (put_led l \<lparr>led_kind = AGILE_LED_TYPE_STATIC, active = False, pin = p,
                active_logic = logic, light_arr = Some arr, arr_num = word_of_int sz,
                arr_index = 0, loop_init = loop, loop_cnt = loop, tick_timeout = tick s,
                compelete = Some 0\<rparr> s))))"

definition agile_led_stop :: "nat \<Rightarrow> 'a led_env_scheme \<Rightarrow> rt_err \<times> 'a led_env_scheme" where
  "agile_led_stop l s =
     (case leds s l of
       None \<Rightarrow> (RT_ERROR, assert_fail s)
     | Some x \<Rightarrow>
         if \<not> active x then (RT_EOK, s)
         else (RT_EOK, put_led l (x\<lparr>active := False\<rparr>) (s\<lparr>led_list := remove1 l (led_list s)\<rparr>)))"

definition agile_led_delete :: "nat \<Rightarrow> 'a led_env_scheme \<Rightarrow> rt_err \<times> 'a led_env_scheme" where
  "agile_led_delete l s =
     (case leds s l of
       None \<Rightarrow> (RT_ERROR, assert_fail s)
     | Some x \<Rightarrow>
         if led_kind x \<noteq> AGILE_LED_TYPE_DYNAMIC then (RT_ERROR, assert_fail s)
         else (RT_EOK, s\<lparr>led_list := remove1 l (led_list s), leds := (leds s)(l := None)\<rparr>))"

definition agile_led_dynamic_change_light_mode ::
  "nat \<Rightarrow> string option \<Rightarrow> int \<Rightarrow> 'a led_env_scheme \<Rightarrow> rt_err \<times> 'a led_env_scheme" where
  "agile_led_dynamic_change_light_mode l mode loop s =
     (case leds s l of
       None \<Rightarrow> (RT_ERROR, assert_fail s)
     | Some x \<Rightarrow>
         if led_kind x \<noteq> AGILE_LED_TYPE_DYNAMIC then (RT_ERROR, assert_fail s)
         else
           let (r, x1, s1) =
             (case mode of
               None \<Rightarrow> (RT_EOK, x, s)
             | Some m \<Rightarrow> agile_led_get_light_arr (x\<lparr>light_arr := None, arr_num := 0\<rparr>) m s)
           in if r \<noteq> RT_EOK then (RT_ERROR, snd (agile_led_stop l (put_led l x1 s1)))
              else (RT_EOK, put_led l (x1\<lparr>loop_init := loop, arr_index := 0, loop_cnt := loop,
                      tick_timeout := tick s1\<rparr>) s1))"

definition agile_led_set_light_mode ::
  "nat \<Rightarrow> string option \<Rightarrow> int \<Rightarrow> 'a led_env_scheme \<Rightarrow> rt_err \<times> 'a led_env_scheme" where
  "agile_led_set_light_mode l mode loop s = agile_led_dynamic_change_light_mode l mode loop s"

definition agile_led_static_change_light_mode ::
  "nat \<Rightarrow> u32 list \<Rightarrow> int \<Rightarrow> int \<Rightarrow> 'a led_env_scheme \<Rightarrow> rt_err \<times> 'a led_env_scheme" where
  "agile_led_static_change_light_mode l arr sz loop s =
     (case leds s l of
       None \<Rightarrow> (RT_ERROR, assert_fail s)
     | Some x \<Rightarrow>
         if led_kind x \<noteq> AGILE_LED_TYPE_STATIC then (RT_ERROR, assert_fail s)
         else (RT_EOK, put_led l (x\<lparr>light_arr := Some arr, arr_num := word_of_int sz,
                 arr_index := 0, loop_init := loop, loop_cnt := loop, tick_timeout := tick s\<rparr>) s))"

definition agile_led_start :: "nat \<Rightarrow> 'a led_env_scheme \<Rightarrow> rt_err \<times> 'a led_env_scheme" where
  "agile_led_start l s =
     (case leds s l of
       None \<Rightarrow> (RT_ERROR, assert_fail s)
     | Some x \<Rightarrow>
         if active x then (RT_ERROR, s)
         else if light_arr x = None \<or> arr_num x = 0 then (RT_ERROR, s)
         else (RT_EOK, put_led l (x\<lparr>arr_index := 0, loop_cnt := loop_init x,
                 tick_timeout := tick s, active := True\<rparr>)
                 (s\<lparr>led_list := led_list s @ [l]\<rparr>)))"

definition agile_led_set_compelete_callback ::
  "nat \<Rightarrow> nat option \<Rightarrow> 'a led_env_scheme \<Rightarrow> rt_err \<times> 'a led_env_scheme" where
  "agile_led_set_compelete_callback l f s =
     (case leds s l of
       None \<Rightarrow> (RT_ERROR, assert_fail s)
     | Some x \<Rightarrow> (RT_EOK, put_led l (x\<lparr>compelete := f\<rparr>) s))"

definition agile_led_on :: "nat \<Rightarrow> 'a led_env_scheme \<Rightarrow> 'a led_env_scheme" where
  "agile_led_on l s = (case leds s l of None \<Rightarrow> assert_fail s
     | Some x \<Rightarrow> rt_pin_write (pin x) (active_logic x) s)"

definition agile_led_off :: "nat \<Rightarrow> 'a led_env_scheme \<Rightarrow> 'a led_env_scheme" where
  "agile_led_off l s = (case leds s l of None \<Rightarrow> assert_fail s
     | Some x \<Rightarrow> rt_pin_write (pin x) (c_not (active_logic x)) s)"

definition agile_led_toggle :: "nat \<Rightarrow> 'a led_env_scheme \<Rightarrow> 'a led_env_scheme" where
  "agile_led_toggle l s = (case leds s l of None \<Rightarrow> assert_fail s
     | Some x \<Rightarrow> rt_pin_write (pin x) (c_not (rt_pin_read (pin x) s)) s)"

section \<open>The periodic scan\<close>

text \<open>The loop \<open>__repeat\<close> over phases of length zero: the index of the next phase to show.\<close>

function skip_zero :: "u32 list \<Rightarrow> u32 \<Rightarrow> u32 \<Rightarrow> u32" where
  "skip_zero arr n i =
     (if i < n \<and> arr ! unat i = 0 then skip_zero arr n (i + 1) else i)"
  by pat_completeness auto
termination
proof (relation "measure (\<lambda>(arr, n, i). unat n - unat i)")
  fix arr :: "u32 list" and n i :: u32
  assume "i < n \<and> arr ! unat i = 0"
  then have "i < n" by simp
  then have "unat (i + 1) = Suc (unat i)" and "unat i < unat n"
    by (rule unat_Suc_less, simp add: word_less_nat_alt)
  then show "((arr, n, i + 1), arr, n, i) \<in> measure (\<lambda>(arr, n, i). unat n - unat i)"
    by simp
qed simp

declare skip_zero.simps [simp del]

text \<open>
  One LED of the scan whose \<open>loop_cnt\<close> is not zero. Reading the array through a null pointer
  is a fault.
\<close>

definition led_turn :: "nat \<Rightarrow> 'a led_env_scheme \<Rightarrow> 'a led_env_scheme" where
  "led_turn l s =
     (case leds s l of
       None \<Rightarrow> assert_fail s
     | Some x \<Rightarrow>
         if \<not> tick s - tick_timeout x < RT_TICK_MAX div 2 then s
         else if arr_index x < arr_num x \<and> light_arr x = None then assert_fail s
         else
           let i = skip_zero (the (light_arr x)) (arr_num x) (arr_index x)
           in if i < arr_num x
              then let s1 = (if i mod 2 \<noteq> 0 then agile_led_on l s else agile_led_off l s)
                   in put_led l (x\<lparr>tick_timeout := tick s1 +
                          rt_tick_from_millisecond (sint (the (light_arr x) ! unat i)),
                        arr_index := i + 1\<rparr>) s1
              else put_led l (x\<lparr>arr_index := 1,
                     loop_cnt := (if 0 < loop_cnt x then loop_cnt x - 1 else loop_cnt x)\<rparr>) s)"

text \<open>
  The walk over the list. A finished LED is taken off the list, its callback runs, and the walk
  starts again at the head. \<open>cb f l\<close> is the callback number \<open>f\<close>; number 0, the default,
  only logs.
\<close>

fun process_walk ::
  "(nat \<Rightarrow> nat \<Rightarrow> 'a led_env_scheme \<Rightarrow> 'a led_env_scheme) \<Rightarrow> nat \<Rightarrow> nat list
     \<Rightarrow> 'a led_env_scheme \<Rightarrow> 'a led_env_scheme option" where
  "process_walk cb 0 ls s = None"
| "process_walk cb (Suc n) [] s = Some s"
| "process_walk cb (Suc n) (l # ls) s =
     (case leds s l of
       None \<Rightarrow> Some (assert_fail s)
     | Some x \<Rightarrow>
         if loop_cnt x = 0
         then let s1 = snd (agile_led_stop l s);
                  s2 = (case compelete x of None \<Rightarrow> s1 | Some f \<Rightarrow> cb f l s1)
              in process_walk cb n (led_list s2) s2
         else process_walk cb n ls (led_turn l s))"

definition agile_led_process ::
  "(nat \<Rightarrow> nat \<Rightarrow> 'a led_env_scheme \<Rightarrow> 'a led_env_scheme) \<Rightarrow> nat
     \<Rightarrow> 'a led_env_scheme \<Rightarrow> 'a led_env_scheme option" where
  "agile_led_process cb fuel s = process_walk cb fuel (led_list s) s"

definition default_cb :: "nat \<Rightarrow> nat \<Rightarrow> 'a led_env_scheme \<Rightarrow> 'a led_env_scheme" where
  "default_cb f l s = s"

section \<open>Frame\<close>

lemma put_led_simps [simp]:
  "leds (put_led l x s) = (leds s)(l \<mapsto> x)"
  "led_list (put_led l x s) = led_list s"
  "led_is_init (put_led l x s) = led_is_init s"
  "pin_level (put_led l x s) = pin_level s"
  "pin_mode (put_led l x s) = pin_mode s"
  "tick (put_led l x s) = tick s"
  "led_env.more (put_led l x s) = led_env.more s"
  by (simp_all add: put_led_def)

lemma pin_ops_simps [simp]:
  "leds (rt_pin_write p v s) = leds s"
  "led_list (rt_pin_write p v s) = led_list s"
  "led_is_init (rt_pin_write p v s) = led_is_init s"
  "pin_level (rt_pin_write p v s) = (pin_level s)(p := v)"
  "tick (rt_pin_write p v s) = tick s"
  "led_env.more (rt_pin_write p v s) = led_env.more s"
  "leds (rt_pin_mode p m s) = leds s"
  "led_list (rt_pin_mode p m s) = led_list s"
  "led_is_init (rt_pin_mode p m s) = led_is_init s"
  "pin_level (rt_pin_mode p m s) = pin_level s"
  "tick (rt_pin_mode p m s) = tick s"
  "led_env.more (rt_pin_mode p m s) = led_env.more s"
  "leds (assert_fail s) = leds s"
  "led_list (assert_fail s) = led_list s"
  "pin_level (assert_fail s) = pin_level s"
  "led_env.more (assert_fail s) = led_env.more s"
  "tick (assert_fail s) = tick s"
  by (simp_all add: rt_pin_write_def rt_pin_mode_def assert_fail_def)

section \<open>Invariant\<close>

text \<open>
  The list holds the active LEDs, each once; an active LED has a pattern whose count is its
  length and is not zero.
\<close>

definition pattern_ok :: "led \<Rightarrow> bool" where
  "pattern_ok x \<longleftrightarrow> (\<exists>arr. light_arr x = Some arr \<and> length arr = unat (arr_num x)) \<and> arr_num x \<noteq> 0"

lemma pattern_ok_upd [simp]:
  "pattern_ok (x\<lparr>active := b\<rparr>) = pattern_ok x"
  "pattern_ok (x\<lparr>arr_index := i\<rparr>) = pattern_ok x"
  "pattern_ok (x\<lparr>loop_cnt := n\<rparr>) = pattern_ok x"
  "pattern_ok (x\<lparr>loop_init := n\<rparr>) = pattern_ok x"
  "pattern_ok (x\<lparr>tick_timeout := t\<rparr>) = pattern_ok x"
  "pattern_ok (x\<lparr>compelete := f\<rparr>) = pattern_ok x"
  by (simp_all add: pattern_ok_def)

definition led_ok :: "led \<Rightarrow> bool" where
  "led_ok x \<longleftrightarrow> (active x \<longrightarrow> pattern_ok x) \<and>
     (light_arr x \<noteq> None \<longrightarrow> arr_num x \<noteq> 0 \<longrightarrow> pattern_ok x)"

definition led_wf :: "'a led_env_scheme \<Rightarrow> bool" where
  "led_wf s \<longleftrightarrow> distinct (led_list s) \<and>
     (\<forall>l. l \<in> set (led_list s) \<longleftrightarrow> (\<exists>x. leds s l = Some x \<and> active x)) \<and>
     (\<forall>l x. leds s l = Some x \<longrightarrow> led_ok x)"

lemma led_wf_put_same:
  fixes s s' :: "'a led_env_scheme"
  assumes "led_wf s" and "leds s l = Some x" and "active y = active x" and "led_ok y"
    and "leds s' = (leds s)(l \<mapsto> y)" and "led_list s' = led_list s"
  shows "led_wf s'"
  using assms by (auto simp: led_wf_def)

lemma led_wf_cong:
  "leds s' = leds s \<Longrightarrow> led_list s' = led_list s \<Longrightarrow> led_wf s' = led_wf s"
  by (simp add: led_wf_def)

lemma led_wf_frame [simp]:
  "led_wf (assert_fail s) = led_wf s"
  "led_wf (rt_pin_write p v s) = led_wf s"
  "led_wf (rt_pin_mode p m s) = led_wf s"
  by (rule led_wf_cong; simp)+

lemma led_wf_put:
  fixes s s1 :: "'a led_env_scheme"
  assumes "led_wf s" and "leds s l = Some x" and "active y = active x" and "led_ok y"
    and "leds s1 = leds s" and "led_list s1 = led_list s"
  shows "led_wf (put_led l y s1)"
  by (rule led_wf_put_same [OF assms(1-4)]) (simp_all add: assms)

lemma led_wf_on_off:
  "led_wf s \<Longrightarrow> led_wf (agile_led_on l s)" "led_wf s \<Longrightarrow> led_wf (agile_led_off l s)"
  by (auto simp: agile_led_on_def agile_led_off_def led_wf_def split: option.splits)

lemma led_wf_stop: "led_wf s \<Longrightarrow> led_wf (snd (agile_led_stop l s))"
  by (auto simp: agile_led_stop_def led_wf_def led_ok_def distinct_remove1_set split: option.splits)

lemma led_wf_start: "led_wf s \<Longrightarrow> led_wf (snd (agile_led_start l s))"
  unfolding agile_led_start_def
  by (auto simp: led_wf_def led_ok_def pattern_ok_def split: option.splits)

lemma led_wf_delete: "led_wf s \<Longrightarrow> led_wf (snd (agile_led_delete l s))"
  by (auto simp: agile_led_delete_def led_wf_def distinct_remove1_set split: option.splits)

lemma length_fill_light_arr [simp]: "length (fill_light_arr n ptr) = n"
  by (induction n ptr rule: fill_light_arr.induct) (auto split: option.splits)

lemma get_light_arr_frame:
  "agile_led_get_light_arr x m s = (r, y, s') \<Longrightarrow>
     leds s' = leds s \<and> led_list s' = led_list s \<and> tick s' = tick s \<and>
     led_env.more s' = led_env.more s \<and> pin_level s' = pin_level s \<and> active y = active x \<and>
     pin y = pin x \<and> active_logic y = active_logic x \<and> led_kind y = led_kind x \<and>
     compelete y = compelete x \<and> (r = RT_EOK \<longrightarrow> pattern_ok y) \<and>
     (r \<noteq> RT_EOK \<longrightarrow> light_arr x = None \<longrightarrow> light_arr y = None)"
  by (auto simp: agile_led_get_light_arr_def Let_def malloc_ok_def pattern_ok_def assert_fail_def
      split: if_splits)

lemma led_wf_set_mode:
  assumes wf: "led_wf s"
  shows "led_wf (snd (agile_led_dynamic_change_light_mode l m loop s))"
proof (cases "leds s l")
  case None
  then show ?thesis
    using wf by (simp add: agile_led_dynamic_change_light_mode_def led_wf_def)
next
  case (Some x)
  have ok: "led_ok x" using wf Some by (auto simp: led_wf_def)
  show ?thesis
  proof (cases m)
    case None
    have "led_ok (x\<lparr>loop_init := loop, arr_index := 0, loop_cnt := loop, tick_timeout := tick s\<rparr>)"
      using ok by (simp add: led_ok_def)
    from led_wf_put [OF wf Some _ this] None Some wf show ?thesis
      by (simp add: agile_led_dynamic_change_light_mode_def)
  next
    case m: (Some mode)
    obtain r y s1 where g:
      "agile_led_get_light_arr (x\<lparr>light_arr := None, arr_num := 0\<rparr>) mode s = (r, y, s1)"
      by (metis prod_cases3)
    note f = get_light_arr_frame [OF g, simplified]
    show ?thesis
    proof (cases "led_kind x \<noteq> AGILE_LED_TYPE_DYNAMIC")
      case True
      with Some wf show ?thesis by (simp add: agile_led_dynamic_change_light_mode_def led_wf_def)
    next
      case dyn: False
      show ?thesis
      proof (cases "r = RT_EOK")
        case True
        then have "led_ok (y\<lparr>loop_init := loop, arr_index := 0, loop_cnt := loop,
            tick_timeout := tick s1\<rparr>)"
          using f by (simp add: led_ok_def)
        from led_wf_put [OF wf Some _ this] f True dyn m Some g show ?thesis
          by (simp add: agile_led_dynamic_change_light_mode_def)
      next
        case False
        have "led_ok (y\<lparr>active := False\<rparr>)" and "light_arr y = None"
          using False f by (auto simp: led_ok_def)
        then show ?thesis
          using False f dyn m Some g wf
          by (auto simp: agile_led_dynamic_change_light_mode_def agile_led_stop_def led_wf_def
              led_ok_def distinct_remove1_set)
      qed
    qed
  qed
qed

lemma led_wf_create:
  assumes "led_wf s" and "leds s l = None"
  shows "led_wf (snd (agile_led_create l p logic m loop s))"
proof (cases m)
  case None
  with assms show ?thesis
    by (auto simp: agile_led_create_def malloc_ok_def led_wf_def led_ok_def)
next
  case (Some mode)
  let ?s1 = "snd (malloc_ok s)"
  let ?x = "\<lparr>led_kind = AGILE_LED_TYPE_DYNAMIC, active = False, pin = p, active_logic = logic,
    light_arr = None, arr_num = 0, arr_index = 0, loop_init = loop, loop_cnt = loop,
    tick_timeout = tick ?s1, compelete = Some 0\<rparr>"
  obtain r y s2 where g: "agile_led_get_light_arr ?x mode ?s1 = (r, y, s2)"
    by (metis prod_cases3)
  note f = get_light_arr_frame [OF g, simplified]
  have e: "snd (agile_led_create l p logic m loop s) =
    (if \<not> led_is_init s then s else if \<not> fst (malloc_ok s) then ?s1
     else if r \<noteq> RT_EOK then s2
     else rt_pin_write p (c_not logic) (rt_pin_mode p PIN_MODE_OUTPUT (put_led l y s2)))"
    unfolding agile_led_create_def Some by (simp add: case_prod_beta Let_def g [simplified])
  have "leds ?s1 = leds s" "led_list ?s1 = led_list s" by (simp_all add: malloc_ok_def)
  with assms f show ?thesis
    unfolding e by (auto simp: led_wf_def led_ok_def)
qed

lemma leds_on_off [simp]:
  "leds (agile_led_on l s) = leds s" "leds (agile_led_off l s) = leds s"
  "led_list (agile_led_on l s) = led_list s" "led_list (agile_led_off l s) = led_list s"
  "tick (agile_led_on l s) = tick s" "tick (agile_led_off l s) = tick s"
  "led_env.more (agile_led_on l s) = led_env.more s"
  "led_env.more (agile_led_off l s) = led_env.more s"
  by (auto simp: agile_led_on_def agile_led_off_def split: option.splits)

lemma led_list_turn [simp]: "led_list (led_turn l s) = led_list s"
  by (auto simp: led_turn_def Let_def split: option.splits)

lemma led_wf_turn:
  assumes wf: "led_wf s"
  shows "led_wf (led_turn l s)"
proof (cases "leds s l")
  case None
  then show ?thesis using wf by (simp add: led_turn_def led_wf_def)
next
  case (Some x)
  have ok: "led_ok x" using wf Some by (auto simp: led_wf_def)
  have "led_ok (x\<lparr>tick_timeout := t, arr_index := i\<rparr>)" "led_ok (x\<lparr>arr_index := i, loop_cnt := c\<rparr>)"
    "led_ok (x\<lparr>arr_index := i\<rparr>)"
    for t i c using ok by (auto simp: led_ok_def)
  then show ?thesis
    using wf Some unfolding led_turn_def
    by (auto simp: Let_def intro!: led_wf_put [OF wf Some])
qed

text \<open>
  With the default callback a scan always ends: each restart has taken one LED off the list.
  Fuel for \<open>(n + 1)\<^sup>2\<close> steps is enough for a list of \<open>n\<close> LEDs.
\<close>

lemma process_walk_total:
  assumes "led_wf s" and "set ls \<subseteq> set (led_list s)" and "length ls \<le> length (led_list s)"
    and "length ls + Suc (length (led_list s)) * length (led_list s) < fuel"
  shows "\<exists>s'. process_walk default_cb fuel ls s = Some s' \<and> led_wf s' \<and>
    set (led_list s') \<subseteq> set (led_list s)"
  using assms
proof (induction fuel arbitrary: ls s)
  case (Suc n)
  show ?case
  proof (cases ls)
    case Nil
    with Suc.prems show ?thesis by simp
  next
    case (Cons l ls')
    then have mem: "l \<in> set (led_list s)" using Suc.prems(2) by auto
    then obtain x where x: "leds s l = Some x" "active x"
      using Suc.prems(1) by (auto simp: led_wf_def)
    show ?thesis
    proof (cases "loop_cnt x = 0")
      case True
      let ?s1 = "snd (agile_led_stop l s)"
      have ll: "led_list ?s1 = remove1 l (led_list s)" using x by (simp add: agile_led_stop_def)
      then have len: "Suc (length (led_list ?s1)) = length (led_list s)"
        using mem by (simp add: length_remove1) (metis Suc_pred length_pos_if_in_set)
      have "length (led_list ?s1) + Suc (length (led_list ?s1)) * length (led_list ?s1) < n"
        using Suc.prems(4) len [symmetric] by (simp add: Cons)
      then obtain s' where "process_walk default_cb n (led_list ?s1) ?s1 = Some s'" "led_wf s'"
          "set (led_list s') \<subseteq> set (led_list ?s1)"
        using Suc.IH [OF led_wf_stop [OF Suc.prems(1)] order_refl order_refl] by blast
      moreover have "(case compelete x of None \<Rightarrow> ?s1 | Some f \<Rightarrow> default_cb f l ?s1) = ?s1"
        by (simp add: default_cb_def split: option.split)
      ultimately show ?thesis
        using x True Cons ll set_remove1_subset [of l "led_list s"] by (auto simp: Let_def)
    next
      case False
      have "\<exists>s'. process_walk default_cb n ls' (led_turn l s) = Some s' \<and> led_wf s' \<and>
          set (led_list s') \<subseteq> set (led_list (led_turn l s))"
        using Suc.prems Cons by (intro Suc.IH led_wf_turn) auto
      with x False Cons show ?thesis by auto
    qed
  qed
qed simp

section \<open>Properties\<close>

text \<open>Everything the package and its users can do to the LEDs.\<close>

inductive led_step :: "'a led_env_scheme \<Rightarrow> 'a led_env_scheme \<Rightarrow> bool" where
  create: "leds s l = None \<Longrightarrow> led_step s (snd (agile_led_create l p logic m loop s))"
| delete: "led_step s (snd (agile_led_delete l s))"
| set_mode: "led_step s (snd (agile_led_set_light_mode l m loop s))"
| start: "led_step s (snd (agile_led_start l s))"
| stop: "led_step s (snd (agile_led_stop l s))"
| on: "led_step s (agile_led_on l s)"
| off: "led_step s (agile_led_off l s)"
| scan: "agile_led_process default_cb fuel s = Some s' \<Longrightarrow> led_step s s'"

lemma process_walk_wf:
  "process_walk default_cb fuel ls s = Some s' \<Longrightarrow> led_wf s \<Longrightarrow> led_wf s'"
proof (induction "default_cb :: nat \<Rightarrow> nat \<Rightarrow> 'a led_env_scheme \<Rightarrow> 'a led_env_scheme" fuel ls s
    rule: process_walk.induct)
  case (3 n l ls s)
  then show ?case
    by (auto simp: Let_def default_cb_def led_wf_turn led_wf_stop split: option.splits if_splits)
qed auto

lemma led_step_wf: "led_step s s' \<Longrightarrow> led_wf s \<Longrightarrow> led_wf s'"
  by (induction rule: led_step.induct)
    (auto intro: led_wf_create led_wf_delete led_wf_set_mode led_wf_start led_wf_stop led_wf_on_off
      process_walk_wf simp: agile_led_set_light_mode_def agile_led_process_def)

text \<open>Whatever the users do and however the scan interleaves with it, the list of the LED
  package holds exactly the active LEDs, each once, and every active LED has a pattern that is
  not empty and whose length is its element count, so the scan never reads past it.\<close>

theorem led_reachable_wf:
  assumes "led_step\<^sup>*\<^sup>* s s'" and "led_wf s"
  shows "led_wf s'"
  using assms by (induction rule: rtranclp_induct) (auto intro: led_step_wf)

definition bench :: "led_env" where
  "bench = kern.extend idle_kern \<lparr>pin_level = (\<lambda>_. 0), pin_mode = (\<lambda>_. 0),
     heap_oracle = (\<lambda>_. True), heap_calls = 0, leds = (\<lambda>_. None), led_list = [],
     led_is_init = True\<rparr>"

lemma bench_simps [simp]:
  "leds bench = (\<lambda>_. None)" "led_list bench = []" "led_is_init bench" "tick bench = 0"
  "heap_oracle bench = (\<lambda>_. True)" "pin_level bench = (\<lambda>_. 0)"
  by (simp_all add: bench_def kern.defs idle_kern_def)

lemma led_wf_bench: "led_wf bench"
  by (simp add: led_wf_def)

theorem led_reachable_wf_witness:
  "led_wf (snd (agile_led_start 7 (snd (agile_led_create 7 16 0 (Some ''300,150'') 1 bench))))"
proof (rule led_reachable_wf [OF _ led_wf_bench])
  have "led_step bench (snd (agile_led_create 7 16 0 (Some ''300,150'') 1 bench))"
    by (rule led_step.create) simp
  then show "led_step\<^sup>*\<^sup>* bench
      (snd (agile_led_start 7 (snd (agile_led_create 7 16 0 (Some ''300,150'') 1 bench))))"
    by (blast intro: led_step.start rtranclp.rtrancl_into_rtrancl)
qed

text \<open>The scan of the LED list terminates: with the default completion callback, from any
  well-formed state of \<open>n\<close> active LEDs, \<open>(n + 1)\<^sup>2\<close> turns of its loop are enough, although it
  starts again at the head whenever an LED has finished.\<close>

theorem led_scan_terminates:
  assumes "led_wf s" and "Suc (length (led_list s)) * Suc (length (led_list s)) \<le> fuel"
  shows "\<exists>s'. agile_led_process default_cb fuel s = Some s' \<and> led_wf s' \<and>
    set (led_list s') \<subseteq> set (led_list s)"
  unfolding agile_led_process_def using assms
  by (intro process_walk_total) simp_all

lemma create_list: "led_list (snd (agile_led_create l p logic m loop s)) = led_list s"
  by (auto simp: agile_led_create_def agile_led_get_light_arr_def malloc_ok_def Let_def
      split: option.splits)

lemma start_list:
  "led_list (snd (agile_led_start l s)) = led_list s \<or>
   led_list (snd (agile_led_start l s)) = led_list s @ [l]"
  by (auto simp: agile_led_start_def split: option.splits)

theorem led_scan_terminates_witness:
  "\<exists>s'. agile_led_process default_cb 4
      (snd (agile_led_start 7 (snd (agile_led_create 7 16 0 (Some ''300,150'') 1 bench)))) = Some s'"
proof -
  let ?c = "snd (agile_led_create 7 16 0 (Some ''300,150'') 1 bench)"
  let ?s = "snd (agile_led_start 7 ?c)"
  have wf: "led_wf ?s" by (intro led_wf_start led_wf_create led_wf_bench) simp
  have "length (led_list ?s) \<le> 1"
    using start_list [of 7 ?c] by (auto simp: create_list)
  then have "Suc (length (led_list ?s)) * Suc (length (led_list ?s)) \<le> 4"
    by (cases "length (led_list ?s)") auto
  from led_scan_terminates [OF wf this] show ?thesis by blast
qed

subsection \<open>Patterns\<close>

fun mode_string :: "nat list \<Rightarrow> string" where
  "mode_string [] = []"
| "mode_string [n] = nat_digits n"
| "mode_string (n # ns) = nat_digits n @ CHR '','' # mode_string ns"

lemma mode_string_Cons:
  "ns \<noteq> [] \<Longrightarrow> mode_string (n # ns) = nat_digits n @ CHR '','' # mode_string ns"
  by (cases ns) auto

lemma no_comma: "CHR '','' \<notin> set (nat_digits n)"
  using nat_digits_digits [of n] digit_not_sign by blast

lemma atoi_digits:
  assumes "n < 2 ^ 31" and "rest = [] \<or> \<not> is_digit (hd rest)"
  shows "atoi (nat_digits n @ rest) = int n"
  using strtol10_digits [OF nat_digits_ne nat_digits_digits assms(2), of n] assms(1)
  by (simp add: atoi_def)

lemma dropWhile_no_comma:
  "dropWhile (\<lambda>x. x \<noteq> CHR '','') (nat_digits n @ rest) = dropWhile (\<lambda>x. x \<noteq> CHR '','') rest"
  by (rule dropWhile_append2) (metis no_comma)

lemma fill_mode_string:
  assumes "\<forall>n \<in> set ns. n < 2 ^ 31" and "ns \<noteq> []"
  shows "fill_light_arr (length ns) (mode_string ns) = map word_of_nat ns"
  using assms
proof (induction ns)
  case (Cons n ns)
  show ?case
  proof (cases "ns = []")
    case True
    have "atoi (nat_digits n @ []) = int n"
      by (rule atoi_digits) (use Cons.prems in auto)
    with True show ?thesis by (simp split: option.splits)
  next
    case False
    have "atoi (mode_string (n # ns)) = int n"
      unfolding mode_string_Cons [OF False]
      by (rule atoi_digits) (use Cons.prems in \<open>auto simp: is_digit_def code_of_def\<close>)
    moreover have "strchr CHR '','' (mode_string (n # ns)) = Some (CHR '','' # mode_string ns)"
      by (simp add: strchr_def mode_string_Cons [OF False] dropWhile_no_comma)
    ultimately show ?thesis
      using Cons False by simp
  qed
qed simp

lemma count_mode_string:
  assumes "ns \<noteq> []"
  shows "count_fields (mode_string ns) = word_of_nat (length ns)"
proof -
  have nf: "filter (\<lambda>c. c = CHR '','') (nat_digits n) = []" for n
    using no_comma [of n] by (auto intro: filter_False)
  have "length (filter (\<lambda>c. c = CHR '','') (mode_string ns)) = length ns - 1"
    using assms
  proof (induction ns)
    case (Cons n ns)
    then show ?case by (cases "ns = []") (auto simp: mode_string_Cons nf)
  qed simp
  moreover have "last (mode_string ns) \<noteq> CHR '','' \<and> mode_string ns \<noteq> []"
    using assms
  proof (induction ns)
    case (Cons n ns)
    have "last (nat_digits n) \<noteq> CHR '',''"
      by (metis nat_digits_ne last_in_set no_comma)
    with Cons show ?case by (cases "ns = []") (auto simp: mode_string_Cons)
  qed simp
  moreover obtain m where "length ns = Suc m" using assms by (cases ns) auto
  ultimately show ?thesis
    by (simp add: count_fields_def)
qed

text \<open>The pattern parser inverts the printing of a pattern: the comma-separated decimals of
  any non-empty list of durations below \<open>2\<^sup>31\<close> ms are read back as exactly that array, with its
  length as the element count.\<close>

theorem led_pattern_roundtrip:
  assumes "ns \<noteq> []" and "\<forall>n \<in> set ns. n < 2 ^ 31" and "length ns < 2 ^ 32"
    and "led_kind x = AGILE_LED_TYPE_DYNAMIC" and "light_arr x = None" and "arr_num x = 0"
    and "heap_oracle s (heap_calls s)"
  shows "agile_led_get_light_arr x (mode_string ns) s =
    (RT_EOK, x\<lparr>arr_num := word_of_nat (length ns), light_arr := Some (map word_of_nat ns)\<rparr>,
     s\<lparr>heap_calls := Suc (heap_calls s)\<rparr>)"
proof -
  have u: "unat (word_of_nat (length ns) :: u32) = length ns"
    using assms(3) by (simp add: unat_of_nat take_bit_nat_eq_self)
  then have "(word_of_nat (length ns) :: u32) \<noteq> 0"
    using assms(1) by (metis length_0_conv unat_0)
  moreover have "mode_string ns \<noteq> []"
    using assms(1) by (cases ns; cases "tl ns"; auto)
  ultimately show ?thesis
    using assms(4-7) fill_mode_string [OF assms(2,1)]
    by (simp add: agile_led_get_light_arr_def count_mode_string [OF assms(1)] malloc_ok_def u)
qed

theorem led_pattern_roundtrip_witness:
  "fst (agile_led_get_light_arr \<lparr>led_kind = AGILE_LED_TYPE_DYNAMIC, active = False, pin = 16,
     active_logic = 0, light_arr = None, arr_num = 0, arr_index = 0, loop_init = 1, loop_cnt = 1,
     tick_timeout = 0, compelete = None\<rparr> (mode_string [300, 150]) bench) = RT_EOK \<and>
   mode_string [300, 150] = ''300,150''"
proof -
  have "mode_string [300, 150] = ''300,150''"
    by code_simp
  moreover have "\<forall>n \<in> set [300, 150 :: nat]. n < 2 ^ 31" by simp
  ultimately show ?thesis
    by (subst led_pattern_roundtrip) simp_all
qed


subsection \<open>A pattern played once\<close>

text \<open>The scans of a lone LED that find it due: the tick is advanced to its timeout first.\<close>

definition due_scan :: "nat \<Rightarrow> 'a led_env_scheme \<Rightarrow> 'a led_env_scheme option" where
  "due_scan l s = (case leds s l of
       None \<Rightarrow> None
     | Some x \<Rightarrow> agile_led_process default_cb 3 (s\<lparr>tick := tick_timeout x\<rparr>))"

fun due_scans :: "nat \<Rightarrow> nat \<Rightarrow> 'a led_env_scheme \<Rightarrow> 'a led_env_scheme option" where
  "due_scans 0 l s = Some s"
| "due_scans (Suc k) l s = (case due_scan l s of None \<Rightarrow> None | Some t \<Rightarrow> due_scans k l t)"

lemma due_scans_add:
  "due_scans (j + k) l s = (case due_scans j l s of None \<Rightarrow> None | Some t \<Rightarrow> due_scans k l t)"
proof (induction j arbitrary: s)
  case (Suc j)
  then show ?case by (cases "due_scan l s") simp_all
qed simp

lemma due_scans_Suc_end:
  "due_scans (Suc k) l s = (case due_scans k l s of None \<Rightarrow> None | Some t \<Rightarrow> due_scan l t)"
  using due_scans_add [of k 1 l s] by (auto split: option.splits)

definition shot :: "nat \<Rightarrow> u32 list \<Rightarrow> u32 \<Rightarrow> u32 \<Rightarrow> nat \<Rightarrow> 'a led_env_scheme \<Rightarrow> bool" where
  "shot l arr p a j s \<longleftrightarrow> led_list s = [l] \<and>
     (\<exists>x. leds s l = Some x \<and> active x \<and> light_arr x = Some arr \<and> unat (arr_num x) = length arr \<and>
       unat (arr_index x) = j \<and> loop_cnt x = 1 \<and> pin x = p \<and> active_logic x = a \<and>
       compelete x = Some 0) \<and>
     (0 < j \<longrightarrow> pin_level s p = (if even j then a else c_not a))"

lemma skip_zero_nonzero:
  "i < n \<Longrightarrow> arr ! unat i \<noteq> 0 \<Longrightarrow> skip_zero arr n i = i"
  by (subst skip_zero.simps) simp

lemma half_pos: "(0::u32) < RT_TICK_MAX div 2"
  by (simp add: tick_max_half)

lemma even_word_nat: "even (unat (w :: u32)) = even w" "(w :: u32) mod 2 = 1 \<longleftrightarrow> odd w"
  by (transfer, simp add: even_nat_iff) (simp add: odd_iff_mod_2_eq_one)

lemma due_scan_shot:
  assumes sh: "shot l arr p a j s" and j: "j < length arr" and nz: "\<forall>d \<in> set arr. d \<noteq> 0"
  shows "\<exists>t. due_scan l s = Some t \<and> shot l arr p a (Suc j) t"
proof -
  obtain x where x: "leds s l = Some x" "active x" "light_arr x = Some arr"
    "unat (arr_num x) = length arr" "unat (arr_index x) = j" "loop_cnt x = 1" "pin x = p"
    "active_logic x = a" "compelete x = Some 0" and ls: "led_list s = [l]"
    using sh by (auto simp: shot_def)
  have lt: "arr_index x < arr_num x" using x j by (simp add: word_less_nat_alt)
  have "arr ! unat (arr_index x) \<noteq> 0" using nz x(5) j by simp
  from skip_zero_nonzero [OF lt this] have sz: "skip_zero arr (arr_num x) (arr_index x) = arr_index x" .
  have suc: "unat (arr_index x + 1) = Suc j" using unat_Suc_less [OF lt] x(5) by simp
  let ?s = "s\<lparr>tick := tick_timeout x\<rparr>"
  have "due_scan l s = Some (led_turn l ?s)"
    using x ls by (simp add: due_scan_def agile_led_process_def numeral_3_eq_3)
  moreover have "shot l arr p a (Suc j) (led_turn l ?s)"
    using x lt sz suc ls half_pos
    by (auto simp: shot_def led_turn_def even_word_nat agile_led_on_def agile_led_off_def Let_def)
  ultimately show ?thesis by blast
qed

lemma due_scans_shot:
  assumes "shot l arr p a 0 s" and "j \<le> length arr" and "\<forall>d \<in> set arr. d \<noteq> 0"
  shows "\<exists>t. due_scans j l s = Some t \<and> shot l arr p a j t"
  using assms(2)
proof (induction j)
  case (Suc j)
  then obtain t where "due_scans j l s = Some t" "shot l arr p a j t" by auto
  with due_scan_shot [OF this(2) _ assms(3)] Suc.prems show ?case
    unfolding due_scans_Suc_end by simp
qed (use assms(1) in simp)

lemma due_scan_end:
  assumes sh: "shot l arr p a (length arr) s"
  shows "\<exists>t. due_scans 2 l s = Some t \<and> led_list t = [] \<and> pin_level t = pin_level s \<and>
    (\<exists>x. leds t l = Some x \<and> \<not> active x)"
proof -
  obtain x where x: "leds s l = Some x" "active x" "light_arr x = Some arr"
    "unat (arr_num x) = length arr" "unat (arr_index x) = length arr" "loop_cnt x = 1" "pin x = p"
    "active_logic x = a" "compelete x = Some 0" and ls: "led_list s = [l]"
    using sh by (auto simp: shot_def)
  have ge: "\<not> arr_index x < arr_num x" using x by (simp add: word_less_nat_alt)
  then have sz: "skip_zero arr (arr_num x) (arr_index x) = arr_index x"
    by (subst skip_zero.simps) simp
  let ?s = "put_led l (x\<lparr>arr_index := 1, loop_cnt := 0\<rparr>) (s\<lparr>tick := tick_timeout x\<rparr>)"
  have "due_scan l s = Some ?s"
    using x ls ge sz half_pos
    by (simp add: due_scan_def agile_led_process_def numeral_3_eq_3 led_turn_def Let_def)
  moreover have "\<exists>t. due_scan l ?s = Some t \<and> led_list t = [] \<and> pin_level t = pin_level s \<and>
      (\<exists>x. leds t l = Some x \<and> \<not> active x)"
    using x ls
    by (simp add: due_scan_def agile_led_process_def numeral_3_eq_3 agile_led_stop_def
        default_cb_def put_led_def Let_def)
  ultimately show ?thesis by (auto simp: numeral_2_eq_2)
qed

text \<open>A pattern played once: if the phases are all positive and the LED is the only active
  one, then the scans that find it due show every phase, \<open>length arr + 2\<close> of them take the LED
  off the list, and it is left lit exactly when the number of phases is even (the first phase
  is the switch-off delay, so a pattern like \<open>300,150\<close> ends with the LED on).\<close>

theorem led_one_shot:
  assumes "leds s l = Some x" and "led_list s = [l]" and "active x" and "light_arr x = Some arr"
    and "unat (arr_num x) = length arr" and "arr \<noteq> []" and "\<forall>d \<in> set arr. d \<noteq> 0"
    and "arr_index x = 0" and "loop_cnt x = 1" and "compelete x = Some 0"
  shows "\<exists>t. due_scans (length arr + 2) l s = Some t \<and> led_list t = [] \<and>
    (\<exists>y. leds t l = Some y \<and> \<not> active y) \<and>
    pin_level t (pin x) = (if even (length arr) then active_logic x else c_not (active_logic x))"
proof -
  have "shot l arr (pin x) (active_logic x) 0 s" using assms by (auto simp: shot_def)
  from due_scans_shot [OF this order_refl assms(7)] obtain t where
    t: "due_scans (length arr) l s = Some t" "shot l arr (pin x) (active_logic x) (length arr) t"
    by blast
  from due_scan_end [OF t(2)] obtain u where u: "due_scans 2 l t = Some u" "led_list u = []"
    "pin_level u = pin_level t" "\<exists>x. leds u l = Some x \<and> \<not> active x" by blast
  have "due_scans (length arr + 2) l s = due_scans 2 l t"
    using t(1) by (simp only: due_scans_add option.case)
  with u t(2) assms(6) show ?thesis by (auto simp: shot_def)
qed

definition lit_bench :: "led_env" where
  "lit_bench = bench\<lparr>leds := [7 \<mapsto> \<lparr>led_kind = AGILE_LED_TYPE_DYNAMIC, active = True, pin = 16,
     active_logic = 0, light_arr = Some [300, 150], arr_num = 2, arr_index = 0, loop_init = 1,
     loop_cnt = 1, tick_timeout = 0, compelete = Some 0\<rparr>], led_list := [7]\<rparr>"

theorem led_one_shot_witness:
  "\<exists>t. due_scans 4 7 lit_bench = Some t \<and> led_list t = [] \<and> pin_level t 16 = 0"
proof -
  let ?x = "the (leds lit_bench 7)"
  have x: "leds lit_bench 7 = Some ?x" "led_list lit_bench = [7]" "active ?x"
    "light_arr ?x = Some [300, 150]" "unat (arr_num ?x) = length [300, 150 :: u32]"
    "[300, 150 :: u32] \<noteq> []" "\<forall>d \<in> set [300, 150 :: u32]. d \<noteq> 0" "arr_index ?x = 0"
    "loop_cnt ?x = 1" "compelete ?x = Some 0" and p: "pin ?x = 16" "active_logic ?x = 0"
    by (simp_all add: lit_bench_def)
  have four: "length [300, 150 :: u32] + 2 = 4" and "even (length [300, 150 :: u32])" by simp_all
  with led_one_shot [OF x] show ?thesis unfolding four p by auto
qed

end
