(* ===== verification/Agile_Button.thy ===== *)
theory Agile_Button
  imports Agile_Led
begin

text \<open>
  The button package: \<open>packages/agile_button-latest/src/agile_button.c\<close>.

  State: the button objects and the singly linked list of the active ones, on top of the pins
  and the LEDs. Each operation runs under the recursive mutex \<open>_mtx\<close> of the package and is one
  step. The callbacks are the argument \<open>cb\<close>: \<open>cb f b\<close> is what callback number \<open>f\<close> does to the
  state when the package calls it for button \<open>b\<close>.
\<close>

section \<open>State\<close>

datatype agile_btn_event = BTN_PRESS_DOWN_EVENT | BTN_HOLD_EVENT | BTN_PRESS_UP_EVENT
  | BTN_CLICK_EVENT | BTN_EVENT_SUM

datatype agile_btn_state = BTN_STATE_NONE_PRESS | BTN_STATE_CHECK_PRESS | BTN_STATE_PRESS_DOWN
  | BTN_STATE_PRESS_HOLD | BTN_STATE_PRESS_UP

record btn =
  btn_active :: bool
  repeat_cnt :: u8
  elimination_time :: u8
  btn_event :: agile_btn_event
  btn_state :: agile_btn_state
  hold_time :: u32
  prev_hold_time :: u32
  hold_cycle_time :: u32
  btn_pin :: u32
  btn_active_logic :: u32
  btn_tick_timeout :: u32
  event_cb :: "agile_btn_event \<Rightarrow> nat option"

record btn_env = led_env +
  btns :: "nat \<Rightarrow> btn option"
  btn_list :: "nat list"
  btn_is_init :: bool

definition put_btn :: "nat \<Rightarrow> btn \<Rightarrow> 'a btn_env_scheme \<Rightarrow> 'a btn_env_scheme" where
  "put_btn b x s = s\<lparr>btns := (btns s)(b \<mapsto> x)\<rparr>"

definition btn_assert_fail :: "'a btn_env_scheme \<Rightarrow> 'a btn_env_scheme" where
  "btn_assert_fail s = s\<lparr>halted := True\<rparr>"

definition AGILE_BUTTON_ELIMINATION_TIME_DEFAULT :: u8 where
  "AGILE_BUTTON_ELIMINATION_TIME_DEFAULT = 15"

definition AGILE_BUTTON_TWO_INTERVAL_TIME_DEFAULT :: int where
  "AGILE_BUTTON_TWO_INTERVAL_TIME_DEFAULT = 500"

definition AGILE_BUTTON_HOLD_CYCLE_TIME_DEFAULT :: u32 where
  "AGILE_BUTTON_HOLD_CYCLE_TIME_DEFAULT = 1000"

section \<open>Operations\<close>

definition new_btn :: "u32 \<Rightarrow> u32 \<Rightarrow> u32 \<Rightarrow> btn" where
  "new_btn p logic now =
     \<lparr>btn_active = False, repeat_cnt = 0,
      elimination_time = AGILE_BUTTON_ELIMINATION_TIME_DEFAULT, btn_event = BTN_EVENT_SUM,
      btn_state = BTN_STATE_NONE_PRESS, hold_time = 0, prev_hold_time = 0,
      hold_cycle_time = AGILE_BUTTON_HOLD_CYCLE_TIME_DEFAULT, btn_pin = p,
      btn_active_logic = logic, btn_tick_timeout = now, event_cb = (\<lambda>_. None)\<rparr>"

text \<open>\<open>b\<close> is the address \<open>rt_malloc\<close> returns for the new object.\<close>

definition agile_btn_create ::
  "nat \<Rightarrow> u32 \<Rightarrow> u32 \<Rightarrow> u8 \<Rightarrow> 'a btn_env_scheme \<Rightarrow> nat option \<times> 'a btn_env_scheme" where
  "agile_btn_create b p logic mode s =
     (if \<not> btn_is_init s then (None, s)
      else
        let (ok, s1) = malloc_ok s
        in if \<not> ok then (None, s1)
           else (Some b, rt_pin_mode p mode (put_btn b (new_btn p logic (tick s1)) s1)))"

definition agile_btn_init ::
  "nat \<Rightarrow> u32 \<Rightarrow> u32 \<Rightarrow> u8 \<Rightarrow> 'a btn_env_scheme \<Rightarrow> rt_err \<times> 'a btn_env_scheme" where
  "agile_btn_init b p logic mode s =
     (if \<not> btn_is_init s then (RT_ERROR, s)
      else (RT_EOK, rt_pin_mode p mode (put_btn b (new_btn p logic (tick s)) s)))"

definition agile_btn_delete :: "nat \<Rightarrow> 'a btn_env_scheme \<Rightarrow> rt_err \<times> 'a btn_env_scheme" where
  "agile_btn_delete b s =
     (case btns s b of
       None \<Rightarrow> (RT_ERROR, btn_assert_fail s)
     | Some x \<Rightarrow> (RT_EOK, s\<lparr>btn_list := remove1 b (btn_list s), btns := (btns s)(b := None)\<rparr>))"

definition agile_btn_start :: "nat \<Rightarrow> 'a btn_env_scheme \<Rightarrow> rt_err \<times> 'a btn_env_scheme" where
  "agile_btn_start b s =
     (case btns s b of
       None \<Rightarrow> (RT_ERROR, btn_assert_fail s)
     | Some x \<Rightarrow>
         if btn_active x then (RT_ERROR, s)
         else (RT_EOK, put_btn b (x\<lparr>repeat_cnt := 0, btn_event := BTN_EVENT_SUM,
                 btn_state := BTN_STATE_NONE_PRESS, hold_time := 0, prev_hold_time := 0,
                 btn_tick_timeout := tick s, btn_active := True\<rparr>)
                 (s\<lparr>btn_list := btn_list s @ [b]\<rparr>)))"

definition agile_btn_stop :: "nat \<Rightarrow> 'a btn_env_scheme \<Rightarrow> rt_err \<times> 'a btn_env_scheme" where
  "agile_btn_stop b s =
     (case btns s b of
       None \<Rightarrow> (RT_ERROR, btn_assert_fail s)
     | Some x \<Rightarrow>
         if \<not> btn_active x then (RT_EOK, s)
         else (RT_EOK, put_btn b (x\<lparr>btn_active := False\<rparr>)
                 (s\<lparr>btn_list := remove1 b (btn_list s)\<rparr>)))"

definition agile_btn_set_elimination_time ::
  "nat \<Rightarrow> u8 \<Rightarrow> 'a btn_env_scheme \<Rightarrow> rt_err \<times> 'a btn_env_scheme" where
  "agile_btn_set_elimination_time b t s =
     (case btns s b of
       None \<Rightarrow> (RT_ERROR, btn_assert_fail s)
     | Some x \<Rightarrow> (RT_EOK, put_btn b (x\<lparr>elimination_time := t\<rparr>) s))"

definition agile_btn_set_hold_cycle_time ::
  "nat \<Rightarrow> u32 \<Rightarrow> 'a btn_env_scheme \<Rightarrow> rt_err \<times> 'a btn_env_scheme" where
  "agile_btn_set_hold_cycle_time b t s =
     (case btns s b of
       None \<Rightarrow> (RT_ERROR, btn_assert_fail s)
     | Some x \<Rightarrow> (RT_EOK, put_btn b (x\<lparr>hold_cycle_time := t\<rparr>) s))"

definition agile_btn_set_event_cb ::
  "nat \<Rightarrow> agile_btn_event \<Rightarrow> nat option \<Rightarrow> 'a btn_env_scheme \<Rightarrow> rt_err \<times> 'a btn_env_scheme" where
  "agile_btn_set_event_cb b e f s =
     (case btns s b of
       None \<Rightarrow> (RT_ERROR, btn_assert_fail s)
     | Some x \<Rightarrow>
         if e = BTN_EVENT_SUM then (RT_ERROR, s)
         else (RT_EOK, put_btn b (x\<lparr>event_cb := (event_cb x)(e := f)\<rparr>) s))"

definition agile_btn_env_init :: "'a btn_env_scheme \<Rightarrow> 'a btn_env_scheme" where
  "agile_btn_env_init s = (if btn_is_init s then s else s\<lparr>btn_is_init := True\<rparr>)"

text \<open>\<open>1000 / RT_TICK_PER_SECOND\<close> is 1.\<close>

definition agile_btn_cal_hold_time :: "u32 \<Rightarrow> btn \<Rightarrow> btn" where
  "agile_btn_cal_hold_time now x =
     (let h = (if now < btn_tick_timeout x then RT_TICK_MAX - btn_tick_timeout x + now
               else now - btn_tick_timeout x)
      in x\<lparr>hold_time := h * 1\<rparr>)"

section \<open>The periodic scan\<close>

type_synonym 's callbacks = "nat \<Rightarrow> nat \<Rightarrow> 's \<Rightarrow> 's"

text \<open>\<open>AGILE_BUTTON_EVENT_CB\<close> after \<open>btn->event = e\<close>.\<close>

definition fire ::
  "'a btn_env_scheme callbacks \<Rightarrow> nat \<Rightarrow> agile_btn_event \<Rightarrow> 'a btn_env_scheme \<Rightarrow> 'a btn_env_scheme" where
  "fire cb b e s =
     (case btns s b of
       None \<Rightarrow> btn_assert_fail s
     | Some x \<Rightarrow>
         let s1 = put_btn b (x\<lparr>btn_event := e\<rparr>) s
         in (case event_cb x e of None \<Rightarrow> s1 | Some f \<Rightarrow> cb f b s1))"

text \<open>An update of the object; a callback may have deleted it.\<close>

definition modify_btn :: "nat \<Rightarrow> (btn \<Rightarrow> btn) \<Rightarrow> 'a btn_env_scheme \<Rightarrow> 'a btn_env_scheme" where
  "modify_btn b g s = (case btns s b of None \<Rightarrow> btn_assert_fail s | Some x \<Rightarrow> put_btn b (g x) s)"

definition btn_turn ::
  "'a btn_env_scheme callbacks \<Rightarrow> nat \<Rightarrow> 'a btn_env_scheme \<Rightarrow> 'a btn_env_scheme" where
  "btn_turn cb b s =
     (case btns s b of
       None \<Rightarrow> btn_assert_fail s
     | Some x \<Rightarrow>
         let pressed = (rt_pin_read (btn_pin x) s = btn_active_logic x);
             due = (tick s - btn_tick_timeout x < RT_TICK_MAX div 2)
         in (case btn_state x of
           BTN_STATE_NONE_PRESS \<Rightarrow>
             if pressed
             then put_btn b (x\<lparr>btn_tick_timeout := tick s +
                      rt_tick_from_millisecond (uint (elimination_time x)),
                    btn_state := BTN_STATE_CHECK_PRESS\<rparr>) s
             else if repeat_cnt x \<noteq> 0 \<and> due then put_btn b (x\<lparr>repeat_cnt := 0\<rparr>) s
             else s
         | BTN_STATE_CHECK_PRESS \<Rightarrow>
             if pressed
             then (if due then put_btn b (x\<lparr>btn_state := BTN_STATE_PRESS_DOWN\<rparr>) s else s)
             else put_btn b (x\<lparr>btn_state := BTN_STATE_NONE_PRESS\<rparr>) s
         | BTN_STATE_PRESS_DOWN \<Rightarrow>
             let s1 = put_btn b (x\<lparr>hold_time := 0, prev_hold_time := 0,
                        repeat_cnt := repeat_cnt x + 1\<rparr>) s;
                 s2 = fire cb b BTN_PRESS_DOWN_EVENT s1
             in modify_btn b (\<lambda>y. y\<lparr>btn_tick_timeout := tick s2,
                  btn_state := BTN_STATE_PRESS_HOLD\<rparr>) s2
         | BTN_STATE_PRESS_HOLD \<Rightarrow>
             if pressed
             then let y = agile_btn_cal_hold_time (tick s) x;
                      s1 = put_btn b y s
                  in if hold_cycle_time y \<le> hold_time y - prev_hold_time y
                     then modify_btn b (\<lambda>z. z\<lparr>prev_hold_time := hold_time z\<rparr>)
                            (fire cb b BTN_HOLD_EVENT s1)
                     else s1
             else put_btn b (x\<lparr>btn_state := BTN_STATE_PRESS_UP\<rparr>) s
         | BTN_STATE_PRESS_UP \<Rightarrow>
             let s1 = fire cb b BTN_CLICK_EVENT (fire cb b BTN_PRESS_UP_EVENT s)
             in modify_btn b (\<lambda>y. y\<lparr>btn_tick_timeout := tick s1 +
                    rt_tick_from_millisecond AGILE_BUTTON_TWO_INTERVAL_TIME_DEFAULT,
                  btn_state := BTN_STATE_NONE_PRESS\<rparr>) s1))"

text \<open>The node behind \<open>b\<close>; a node that was taken off the list has no successor.\<close>

fun slist_next :: "nat \<Rightarrow> nat list \<Rightarrow> nat option" where
  "slist_next b [] = None"
| "slist_next b (x # xs) = (if x = b then (case xs of [] \<Rightarrow> None | y # _ \<Rightarrow> Some y) else slist_next b xs)"

fun btn_walk ::
  "'a btn_env_scheme callbacks \<Rightarrow> nat \<Rightarrow> nat option \<Rightarrow> 'a btn_env_scheme \<Rightarrow> 'a btn_env_scheme option" where
  "btn_walk cb n None s = Some s"
| "btn_walk cb 0 (Some b) s = None"
| "btn_walk cb (Suc n) (Some b) s =
     (let s1 = btn_turn cb b s in btn_walk cb n (slist_next b (btn_list s1)) s1)"

definition agile_btn_process ::
  "'a btn_env_scheme callbacks \<Rightarrow> nat \<Rightarrow> 'a btn_env_scheme \<Rightarrow> 'a btn_env_scheme option" where
  "agile_btn_process cb fuel s =
     btn_walk cb fuel (case btn_list s of [] \<Rightarrow> None | b # _ \<Rightarrow> Some b) s"

section \<open>Frame\<close>

lemma put_btn_simps [simp]:
  "btns (put_btn b x s) = (btns s)(b \<mapsto> x)"
  "btn_list (put_btn b x s) = btn_list s"
  "btn_is_init (put_btn b x s) = btn_is_init s"
  "tick (put_btn b x s) = tick s"
  "leds (put_btn b x s) = leds s"
  "led_list (put_btn b x s) = led_list s"
  "pin_level (put_btn b x s) = pin_level s"
  "btns (btn_assert_fail s) = btns s"
  "btn_list (btn_assert_fail s) = btn_list s"
  by (simp_all add: put_btn_def btn_assert_fail_def)

lemma cal_hold_time_simps [simp]:
  "btn_state (agile_btn_cal_hold_time now x) = btn_state x"
  "btn_pin (agile_btn_cal_hold_time now x) = btn_pin x"
  "btn_active_logic (agile_btn_cal_hold_time now x) = btn_active_logic x"
  "elimination_time (agile_btn_cal_hold_time now x) = elimination_time x"
  "btn_active (agile_btn_cal_hold_time now x) = btn_active x"
  "btn_tick_timeout (agile_btn_cal_hold_time now x) = btn_tick_timeout x"
  by (simp_all add: agile_btn_cal_hold_time_def Let_def)

section \<open>Invariant\<close>

definition btn_wf :: "'a btn_env_scheme \<Rightarrow> bool" where
  "btn_wf s \<longleftrightarrow> distinct (btn_list s) \<and>
     (\<forall>b. b \<in> set (btn_list s) \<longleftrightarrow> (\<exists>x. btns s b = Some x \<and> btn_active x))"

lemma btn_wf_start: "btn_wf s \<Longrightarrow> btn_wf (snd (agile_btn_start b s))"
  by (auto simp: agile_btn_start_def btn_wf_def split: option.splits)

lemma btn_wf_stop: "btn_wf s \<Longrightarrow> btn_wf (snd (agile_btn_stop b s))"
  by (auto simp: agile_btn_stop_def btn_wf_def distinct_remove1_set split: option.splits)

lemma btn_wf_delete: "btn_wf s \<Longrightarrow> btn_wf (snd (agile_btn_delete b s))"
  by (auto simp: agile_btn_delete_def btn_wf_def distinct_remove1_set split: option.splits)

section \<open>The state graph of a button\<close>

definition same_config :: "btn \<Rightarrow> btn \<Rightarrow> bool" where
  "same_config x y \<longleftrightarrow> btn_active y = btn_active x \<and> btn_pin y = btn_pin x \<and>
     btn_active_logic y = btn_active_logic x \<and> elimination_time y = elimination_time x"

definition elimination_ticks :: "btn \<Rightarrow> u32" where
  "elimination_ticks x = rt_tick_from_millisecond (uint (elimination_time x))"

definition state_graph :: "u32 \<Rightarrow> bool \<Rightarrow> btn \<Rightarrow> btn \<Rightarrow> bool" where
  "state_graph now pressed x y = (case btn_state x of
       BTN_STATE_NONE_PRESS \<Rightarrow>
         if pressed then btn_state y = BTN_STATE_CHECK_PRESS \<and>
           btn_tick_timeout y = now + rt_tick_from_millisecond (uint (elimination_time x))
         else btn_state y = BTN_STATE_NONE_PRESS
     | BTN_STATE_CHECK_PRESS \<Rightarrow>
         if pressed then btn_tick_timeout y = btn_tick_timeout x \<and>
           btn_state y = (if tick_due now (btn_tick_timeout x)
             then BTN_STATE_PRESS_DOWN else BTN_STATE_CHECK_PRESS)
         else btn_state y = BTN_STATE_NONE_PRESS
     | BTN_STATE_PRESS_DOWN \<Rightarrow> btn_state y = BTN_STATE_PRESS_HOLD
     | BTN_STATE_PRESS_HOLD \<Rightarrow>
         btn_state y = (if pressed then BTN_STATE_PRESS_HOLD else BTN_STATE_PRESS_UP)
     | BTN_STATE_PRESS_UP \<Rightarrow> btn_state y = BTN_STATE_NONE_PRESS)"

lemma same_config_trans: "same_config x y \<Longrightarrow> same_config y z \<Longrightarrow> same_config x z"
  by (simp add: same_config_def)

lemma same_config_refl [simp]: "same_config x x"
  by (simp add: same_config_def)

section \<open>Callbacks that leave the buttons alone\<close>

text \<open>
  The contract of a callback: it may change anything, the tick count included, except the
  button objects and their list.
\<close>

locale btn_callbacks =
  fixes cb :: "'a btn_env_scheme callbacks"
  assumes cb_btns: "btns (cb f b s) = btns s"
    and cb_list: "btn_list (cb f b s) = btn_list s"
begin

lemma fire_btns:
  "btns s b = Some x \<Longrightarrow> btns (fire cb b e s) = (btns s)(b \<mapsto> x\<lparr>btn_event := e\<rparr>)"
  by (auto simp: fire_def Let_def cb_btns split: option.splits)

lemma fire_list: "btn_list (fire cb b e s) = btn_list s"
  by (auto simp: fire_def Let_def cb_list split: option.splits)

text \<open>One turn: the state graph of the button and the fields that no turn changes.\<close>

lemma btn_turn_graph:
  assumes "btns s b = Some x"
  shows "\<exists>y. btns (btn_turn cb b s) = (btns s)(b \<mapsto> y) \<and> same_config x y \<and>
    state_graph (tick s) (rt_pin_read (btn_pin x) s = btn_active_logic x) x y"
  using assms
  by (cases "btn_state x")
    (auto simp: btn_turn_def Let_def modify_btn_def fire_btns tick_due_def same_config_def
        state_graph_def split: option.splits,
      (rule exI [of _ x], simp add: fun_upd_idem)+)

lemma btn_turn_list: "btn_list (btn_turn cb b s) = btn_list s"
  by (auto simp: btn_turn_def Let_def modify_btn_def fire_list
      split: option.splits agile_btn_state.splits)

lemma btn_wf_turn:
  assumes "btn_wf s" and "b \<in> set (btn_list s)"
  shows "btn_wf (btn_turn cb b s)"
proof -
  obtain x where "btns s b = Some x" using assms by (auto simp: btn_wf_def)
  with btn_turn_graph [OF this] obtain y where
    "btns s b = Some x" "btns (btn_turn cb b s) = (btns s)(b \<mapsto> y)" "btn_active y = btn_active x"
    by (auto simp: same_config_def)
  with assms show ?thesis by (auto simp: btn_wf_def btn_turn_list split: if_splits)
qed

text \<open>The scan visits every button of the list once, in order, and ends.\<close>

lemma slist_next_mid: "distinct (us @ b # vs) \<Longrightarrow>
    slist_next b (us @ b # vs) = (case vs of [] \<Rightarrow> None | c # _ \<Rightarrow> Some c)"
  by (induction us) auto

lemma btn_walk_fold:
  assumes "btn_list s = us @ vs" and "distinct (us @ vs)" and "length vs \<le> n"
  shows "btn_walk cb n (case vs of [] \<Rightarrow> None | b # _ \<Rightarrow> Some b) s = Some (fold (btn_turn cb) vs s)"
  using assms
proof (induction vs arbitrary: us n s)
  case (Cons b vs)
  then obtain m where n: "n = Suc m" by (cases n) auto
  let ?s = "btn_turn cb b s"
  have l: "btn_list ?s = (us @ [b]) @ vs" using Cons.prems(1) by (simp add: btn_turn_list)
  have nx: "slist_next b (btn_list ?s) = (case vs of [] \<Rightarrow> None | c # _ \<Rightarrow> Some c)"
    using slist_next_mid [of us b vs] Cons.prems(2) l by simp
  from Cons.IH [OF l] Cons.prems(2,3) n nx show ?case by (simp add: Let_def)
qed simp

lemma process_fold:
  assumes "btn_wf s" and "length (btn_list s) \<le> n"
  shows "agile_btn_process cb n s = Some (fold (btn_turn cb) (btn_list s) s)"
  using btn_walk_fold [of s "[]" "btn_list s" n] assms
  by (simp add: agile_btn_process_def btn_wf_def)

lemma fold_wf: "btn_wf s \<Longrightarrow> set bs \<subseteq> set (btn_list s) \<Longrightarrow> btn_wf (fold (btn_turn cb) bs s)"
  by (induction bs arbitrary: s) (simp_all add: btn_wf_turn btn_turn_list)

end

section \<open>Debouncing\<close>

text \<open>Scans of one button: each sample is the tick count and the level read from its pin.\<close>

definition sample ::
  "'a btn_env_scheme callbacks \<Rightarrow> nat \<Rightarrow> u32 \<Rightarrow> 'a btn_env_scheme \<Rightarrow> u32 \<times> u32 \<Rightarrow> 'a btn_env_scheme" where
  "sample cb b p s v = btn_turn cb b (s\<lparr>tick := fst v, pin_level := (pin_level s)(p := snd v)\<rparr>)"

text \<open>The samples that end the list and are a debounced press.\<close>

definition pressed_for :: "u32 \<Rightarrow> u32 \<Rightarrow> (u32 \<times> u32) list \<Rightarrow> bool" where
  "pressed_for a d vs \<longleftrightarrow> (\<exists>pre t0 mid t1. vs = pre @ (t0, a) # mid @ [(t1, a)] \<and>
     (\<forall>v \<in> set mid. snd v = a) \<and> tick_due t1 (t0 + d))"

definition held_since :: "u32 \<Rightarrow> u32 \<Rightarrow> u32 \<Rightarrow> (u32 \<times> u32) list \<Rightarrow> bool" where
  "held_since a d t vs \<longleftrightarrow> (\<exists>pre t0 mid. vs = pre @ (t0, a) # mid \<and>
     (\<forall>v \<in> set mid. snd v = a) \<and> t = t0 + d)"

lemma held_start: "held_since a d (t0 + d) (vs @ [(t0, a)])"
  unfolding held_since_def by (rule exI [of _ vs], rule exI [of _ t0], rule exI [of _ "[]"]) simp

lemma held_more:
  assumes "held_since a d t vs" and "snd v = a"
  shows "held_since a d t (vs @ [v])"
proof -
  obtain pre t0 mid where "vs = pre @ (t0, a) # mid" "\<forall>v \<in> set mid. snd v = a" "t = t0 + d"
    using assms(1) by (auto simp: held_since_def)
  with assms(2) show ?thesis
    unfolding held_since_def
    by (intro exI [of _ pre] exI [of _ t0] exI [of _ "mid @ [v]"]) auto
qed

lemma held_pressed:
  assumes "held_since a d t vs" and "tick_due t1 t"
  shows "pressed_for a d (vs @ [(t1, a)])"
  using assms unfolding held_since_def pressed_for_def by fastforce

context btn_callbacks
begin

lemma sample_graph:
  assumes "btns s b = Some x" and "btn_pin x = p"
  shows "\<exists>y. btns (sample cb b p s v) b = Some y \<and> same_config x y \<and>
    state_graph (fst v) (snd v = btn_active_logic x) x y"
proof -
  let ?t = "s\<lparr>tick := fst v, pin_level := (pin_level s)(p := snd v)\<rparr>"
  have "btns ?t b = Some x" using assms(1) by simp
  moreover have "rt_pin_read (btn_pin x) ?t = snd v" using assms(2) by (simp add: rt_pin_read_def)
  ultimately show ?thesis using btn_turn_graph [of ?t b x] by (auto simp: sample_def)
qed

lemma debounce_inv:
  assumes x: "btns s b = Some x" "btn_state x = BTN_STATE_NONE_PRESS" "btn_pin x = p"
  shows "\<exists>y. btns (foldl (sample cb b p) s vs) b = Some y \<and> same_config x y \<and>
    (btn_state y = BTN_STATE_CHECK_PRESS \<longrightarrow>
       held_since (btn_active_logic x) (elimination_ticks x) (btn_tick_timeout y) vs) \<and>
    (btn_state y = BTN_STATE_PRESS_DOWN \<longrightarrow>
       pressed_for (btn_active_logic x) (elimination_ticks x) vs)"
proof (induction vs rule: rev_induct)
  case Nil
  then show ?case using x by simp
next
  case (snoc v vs)
  let ?a = "btn_active_logic x" and ?d = "elimination_ticks x"
  let ?s = "foldl (sample cb b p) s vs"
  obtain z where z: "btns ?s b = Some z" "same_config x z"
    "btn_state z = BTN_STATE_CHECK_PRESS \<Longrightarrow> held_since ?a ?d (btn_tick_timeout z) vs"
    using snoc by blast
  then have "btn_pin z = p" "btn_active_logic z = ?a" and
    el: "rt_tick_from_millisecond (uint (elimination_time z)) = ?d"
    using x(3) by (simp_all add: same_config_def elimination_ticks_def)
  with sample_graph [OF z(1), of p v] obtain y where
    y: "btns (sample cb b p ?s v) b = Some y" "same_config z y" "state_graph (fst v) (snd v = ?a) z y"
    by auto
  have "held_since ?a ?d (fst v + ?d) (vs @ [v])" if "snd v = ?a"
    using held_start [of ?a ?d "fst v" vs] that by (cases v) simp
  moreover have "held_since ?a ?d (btn_tick_timeout z) (vs @ [v])"
    if "snd v = ?a" "btn_state z = BTN_STATE_CHECK_PRESS"
    using held_more [OF z(3) [OF that(2)]] that(1) by blast
  moreover have "pressed_for ?a ?d (vs @ [v])"
    if "snd v = ?a" "btn_state z = BTN_STATE_CHECK_PRESS" "tick_due (fst v) (btn_tick_timeout z)"
    using held_pressed [OF z(3) [OF that(2)] that(3)] that(1) by (cases v) simp
  ultimately have "(btn_state y = BTN_STATE_CHECK_PRESS \<longrightarrow>
       held_since ?a ?d (btn_tick_timeout y) (vs @ [v])) \<and>
    (btn_state y = BTN_STATE_PRESS_DOWN \<longrightarrow> pressed_for ?a ?d (vs @ [v]))"
    using y(3) el
    by (cases "btn_state z"; cases "snd v = ?a") (auto simp: state_graph_def split: if_splits)
  with y same_config_trans [OF z(2) y(2)] show ?case by auto
qed

lemma debounce:
  assumes "btns s b = Some x" and "btn_state x = BTN_STATE_NONE_PRESS"
    and "btns (foldl (sample cb b (btn_pin x)) s vs) b = Some y"
    and "btn_state y = BTN_STATE_PRESS_DOWN"
  shows "pressed_for (btn_active_logic x) (elimination_ticks x) vs"
  using debounce_inv [OF assms(1,2) refl, of vs] assms(3,4) by auto

end

section \<open>Hold time\<close>

text \<open>The measured hold time is the time since the press, as long as the tick counter has not
  wrapped since; after a wrap it is one millisecond short, because \<open>RT_TICK_MAX\<close> is used as if
  it were the number of tick values.\<close>

theorem btn_hold_time_exact:
  "hold_time (agile_btn_cal_hold_time now x) =
     (if now < btn_tick_timeout x then now - btn_tick_timeout x - 1 else now - btn_tick_timeout x)"
proof -
  have "RT_TICK_MAX - t + n = n - t - 1" for t n :: u32 by (simp add: RT_TICK_MAX_def)
  then show ?thesis by (simp add: agile_btn_cal_hold_time_def Let_def)
qed

end
