(* ===== verification/Led.thy ===== *)
theory Led
  imports Agile_Button
begin

text \<open>
  The indicator lights and the buzzer: \<open>applications/led.c\<close>.

  Each LED pointer of the file is a constructor of \<open>led_id\<close>; \<open>handle\<close> is the value of the
  pointer. Most functions of the file are straight sequences of calls into the LED package;
  such a body is the list of its calls, and \<open>run_leds\<close> performs them in order.
\<close>

section \<open>State\<close>

datatype led_id = LED1_G | LED1_R | LED2_G | LED2_R | LED3_G | LED3_R | LED4_G | LED4_R
  | LED5_G | LED5_R | LED6_G | LED6_R | LED7_G | LED7_R | LED8_G | LED8_R | BEEP

record led_app = btn_env +
  handle :: "led_id \<Rightarrow> nat option"
  beep_mode :: u8

text \<open>The pins of \<open>peripheral/pin_config.h\<close> and the levels \<open>led_Init\<close> passes.\<close>

fun led_pin :: "led_id \<Rightarrow> u32" where
  "led_pin LED1_G = 8" | "led_pin LED1_R = 41"
| "led_pin LED2_G = 40" | "led_pin LED2_R = 39"
| "led_pin LED3_G = 22" | "led_pin LED3_R = 21"
| "led_pin LED4_G = 20" | "led_pin LED4_R = 19"
| "led_pin LED5_G = 32" | "led_pin LED5_R = 33"
| "led_pin LED6_G = 34" | "led_pin LED6_R = 35"
| "led_pin LED7_G = 37" | "led_pin LED7_R = 16"
| "led_pin LED8_G = 17" | "led_pin LED8_R = 18"
| "led_pin BEEP = 26"

definition SW1 :: u32 where "SW1 = 12"
definition AC :: u32 where "AC = 25"
definition OUT1 :: u32 where "OUT1 = 24"
definition OUT2 :: u32 where "OUT2 = 23"

definition led_logic :: "led_id \<Rightarrow> u32" where
  "led_logic i = (if i = BEEP then PIN_HIGH else PIN_LOW)"

text \<open>A call of the package through an LED pointer; the null pointer is asserted against.\<close>

definition with_led ::
  "led_id \<Rightarrow> (nat \<Rightarrow> 'a led_app_scheme \<Rightarrow> 'a led_app_scheme) \<Rightarrow> 'a led_app_scheme \<Rightarrow> 'a led_app_scheme" where
  "with_led i f s = (case handle s i of None \<Rightarrow> assert_fail s | Some l \<Rightarrow> f l s)"

datatype led_cmd = Set_Mode led_id string int | Start led_id | Stop led_id | On led_id | Off led_id

fun run_led :: "led_cmd \<Rightarrow> 'a led_app_scheme \<Rightarrow> 'a led_app_scheme" where
  "run_led (Set_Mode i m n) s = with_led i (\<lambda>l s. snd (agile_led_set_light_mode l (Some m) n s)) s"
| "run_led (Start i) s = with_led i (\<lambda>l s. snd (agile_led_start l s)) s"
| "run_led (Stop i) s = with_led i (\<lambda>l s. snd (agile_led_stop l s)) s"
| "run_led (On i) s = with_led i agile_led_on s"
| "run_led (Off i) s = with_led i agile_led_off s"

definition run_leds :: "led_cmd list \<Rightarrow> 'a led_app_scheme \<Rightarrow> 'a led_app_scheme" where
  "run_leds cs s = fold run_led cs s"

section \<open>Signal strength of the two links\<close>

definition rf_433_lost :: "'a led_app_scheme \<Rightarrow> 'a led_app_scheme" where
  "rf_433_lost = run_leds
    [Set_Mode LED1_R ''300,150'' 1, Set_Mode LED2_R ''300,150'' 1,
     Set_Mode LED3_R ''300,150'' 1, Stop LED1_G, Stop LED2_G, Stop LED3_G, Off LED1_G,
     Off LED2_G, Off LED3_G, Start LED1_R, Start LED2_R, Start LED3_R]"

definition rf_433_ultralow :: "'a led_app_scheme \<Rightarrow> 'a led_app_scheme" where
  "rf_433_ultralow = run_leds
    [Set_Mode LED1_R ''300,150'' 1, Set_Mode LED1_G ''300,150'' 1, Stop LED2_R, Stop LED2_G,
     Stop LED3_R, Stop LED3_G, Off LED2_R, Off LED2_G, Off LED3_R, Off LED3_G, Start LED1_G,
     Start LED1_R]"

definition rf_433_low :: "'a led_app_scheme \<Rightarrow> 'a led_app_scheme" where
  "rf_433_low = run_leds
    [Set_Mode LED1_G ''300,150'' 1, Stop LED1_R, Stop LED2_R, Stop LED2_G, Stop LED3_R,
     Stop LED3_G, Off LED1_R, Off LED2_R, Off LED2_G, Off LED3_R, Off LED3_G, Start LED1_G]"

definition rf_433_mid :: "'a led_app_scheme \<Rightarrow> 'a led_app_scheme" where
  "rf_433_mid = run_leds
    [Set_Mode LED1_G ''300,150'' 1, Set_Mode LED2_G ''300,150'' 1, Stop LED1_R, Stop LED2_R,
     Stop LED3_R, Stop LED3_G, Off LED1_R, Off LED2_R, Off LED3_R, Off LED3_G, Start LED1_G,
     Start LED2_G]"

definition rf_433_high :: "'a led_app_scheme \<Rightarrow> 'a led_app_scheme" where
  "rf_433_high = run_leds
    [Set_Mode LED1_G ''300,150'' 1, Set_Mode LED2_G ''300,150'' 1,
     Set_Mode LED3_G ''300,150'' 1, Stop LED1_R, Stop LED2_R, Stop LED3_R, Off LED1_R,
     Off LED2_R, Off LED3_R, Start LED1_G, Start LED2_G, Start LED3_G]"

definition led_rf433_start :: "u8 \<Rightarrow> 'a led_app_scheme \<Rightarrow> 'a led_app_scheme" where
  "led_rf433_start mode s =
     (if mode = 1 then rf_433_lost s
      else if mode = 2 then rf_433_ultralow s
      else if mode = 3 then rf_433_low s
      else if mode = 4 then rf_433_mid s
      else if mode = 5 then rf_433_high s
      else s)"

definition led_rf433_stop :: "'a led_app_scheme \<Rightarrow> 'a led_app_scheme" where
  "led_rf433_stop = run_leds
    [Off LED1_R, Off LED1_G, Off LED2_R, Off LED2_G, Off LED3_R, Off LED3_G]"

definition rf_4068_lost :: "'a led_app_scheme \<Rightarrow> 'a led_app_scheme" where
  "rf_4068_lost = run_leds
    [Set_Mode LED4_R ''300,150'' 1, Set_Mode LED5_R ''300,150'' 1,
     Set_Mode LED6_R ''300,150'' 1, Stop LED4_G, Stop LED5_G, Stop LED6_G, Off LED4_G,
     Off LED5_G, Off LED6_G, Start LED4_R, Start LED5_R, Start LED6_R]"

definition rf_4068_ultralow :: "'a led_app_scheme \<Rightarrow> 'a led_app_scheme" where
  "rf_4068_ultralow = run_leds
    [Set_Mode LED4_R ''300,150'' 1, Set_Mode LED4_G ''300,150'' 1, Stop LED5_R, Stop LED5_G,
     Stop LED6_R, Stop LED6_G, Off LED5_R, Off LED5_G, Off LED6_R, Off LED6_G, Start LED4_G,
     Start LED4_R]"

definition rf_4068_low :: "'a led_app_scheme \<Rightarrow> 'a led_app_scheme" where
  "rf_4068_low = run_leds
    [Set_Mode LED4_G ''300,150'' 1, Stop LED4_R, Stop LED5_R, Stop LED5_G, Stop LED6_R,
     Stop LED6_G, Off LED4_R, Off LED5_R, Off LED5_G, Off LED6_R, Off LED6_G, Start LED4_G]"

definition rf_4068_mid :: "'a led_app_scheme \<Rightarrow> 'a led_app_scheme" where
  "rf_4068_mid = run_leds
    [Set_Mode LED4_G ''300,150'' 1, Set_Mode LED5_G ''300,150'' 1, Stop LED4_R, Stop LED5_R,
     Stop LED6_R, Stop LED6_G, Off LED4_R, Off LED5_R, Off LED6_R, Off LED6_G, Start LED4_G,
     Start LED5_G]"

definition rf_4068_high :: "'a led_app_scheme \<Rightarrow> 'a led_app_scheme" where
  "rf_4068_high = run_leds
    [Set_Mode LED4_G ''300,150'' 1, Set_Mode LED5_G ''300,150'' 1,
     Set_Mode LED6_G ''300,150'' 1, Stop LED4_R, Stop LED5_R, Stop LED6_R, Off LED4_R,
     Off LED5_R, Off LED6_R, Start LED4_G, Start LED5_G, Start LED6_G]"

definition led_rf4068_start :: "u8 \<Rightarrow> 'a led_app_scheme \<Rightarrow> 'a led_app_scheme" where
  "led_rf4068_start mode s =
     (if mode = 1 then rf_4068_lost s
      else if mode = 2 then rf_4068_ultralow s
      else if mode = 3 then rf_4068_low s
      else if mode = 4 then rf_4068_mid s
      else if mode = 5 then rf_4068_high s
      else s)"

definition led_rf4068_stop :: "'a led_app_scheme \<Rightarrow> 'a led_app_scheme" where
  "led_rf4068_stop = run_leds
    [Off LED4_R, Off LED4_G, Off LED5_R, Off LED5_G, Off LED6_R, Off LED6_G]"

section \<open>Transmitter and receiver\<close>

definition transmitter_lost :: "'a led_app_scheme \<Rightarrow> 'a led_app_scheme" where
  "transmitter_lost = run_leds
    [Set_Mode LED7_R ''300,100'' 1, Off LED7_G, Start LED7_R]"

definition transmitter_off :: "'a led_app_scheme \<Rightarrow> 'a led_app_scheme" where
  "transmitter_off = run_leds
    [Set_Mode LED7_R ''300,100'' 1, Set_Mode LED7_G ''300,100'' 1, Start LED7_G, Start LED7_R]"

definition transmitter_on :: "'a led_app_scheme \<Rightarrow> 'a led_app_scheme" where
  "transmitter_on = run_leds
    [Set_Mode LED7_G ''300,100'' 1, Off LED7_R, Start LED7_G]"

definition receiver_lost :: "'a led_app_scheme \<Rightarrow> 'a led_app_scheme" where
  "receiver_lost = run_leds
    [Set_Mode LED8_R ''300,100'' 1, Off LED8_G, Start LED8_R]"

definition receiver_close :: "'a led_app_scheme \<Rightarrow> 'a led_app_scheme" where
  "receiver_close = run_leds
    [Stop LED8_G, Stop LED8_R, Off LED8_G, Off LED8_R]"

definition receiver_blink :: "u8 \<Rightarrow> 'a led_app_scheme \<Rightarrow> 'a led_app_scheme" where
  "receiver_blink valve =
     (if valve \<noteq> 0
      then run_leds [Set_Mode LED8_G ''100,100,100,100'' 4, Off LED8_G, Start LED8_G]
      else run_leds [Set_Mode LED8_R ''100,100,100,100'' 4, Set_Mode LED8_G ''100,100,100,100'' 4,
             Off LED8_R, Off LED8_G, Start LED8_R, Start LED8_G])"

definition receiver_off :: "'a led_app_scheme \<Rightarrow> 'a led_app_scheme" where
  "receiver_off = run_leds
    [Set_Mode LED8_R ''300,100'' 1, Set_Mode LED8_G ''300,100'' 1, Start LED8_G, Start LED8_R]"

definition receiver_on :: "'a led_app_scheme \<Rightarrow> 'a led_app_scheme" where
  "receiver_on = run_leds
    [Set_Mode LED8_G ''300,100'' 1, Off LED8_R, Start LED8_G]"

section \<open>Buzzer\<close>

definition beep_pattern :: "u8 \<Rightarrow> led_cmd list" where
  "beep_pattern select =
     (if select = 1 then [Set_Mode BEEP ''0,200,10000'' (- 1)]
      else if select = 2 then [Set_Mode BEEP ''0,200,200,200,5000'' (- 1)]
      else if select = 3 then [Set_Mode BEEP ''0,200,200,200,200,200,5000'' (- 1)]
      else if select = 4
      then [Set_Mode BEEP ''0,200,200,200,200,200,200,200,200,200,200'' 1]
      else [])"

definition beep_start :: "u8 \<Rightarrow> 'a led_app_scheme \<Rightarrow> 'a led_app_scheme" where
  "beep_start select s =
     (if select \<noteq> beep_mode s
      then run_leds ([Stop BEEP, Off BEEP] @ beep_pattern select @ [Start BEEP])
             (s\<lparr>beep_mode := select\<rparr>)
      else s)"

definition beep_stop :: "'a led_app_scheme \<Rightarrow> 'a led_app_scheme" where
  "beep_stop s = run_leds [Stop BEEP, Off BEEP] (s\<lparr>beep_mode := 0\<rparr>)"

definition beep_calc :: "u8 \<Rightarrow> u8 \<Rightarrow> 'a led_app_scheme \<Rightarrow> 'a led_app_scheme" where
  "beep_calc level_4068 level_433 s =
     (if level_4068 = 2 \<or> level_433 = 2 then beep_start 1 s
      else if 2 < level_4068 \<and> 2 < level_433 then beep_stop s
      else s)"

section \<open>What a sequence of calls does to the lights\<close>

text \<open>The LEDs that play a pattern, and the LEDs whose pin is at the inactive level.\<close>

definition playing :: "'a led_app_scheme \<Rightarrow> led_id set" where
  "playing s = {i. \<exists>l x. handle s i = Some l \<and> leds s l = Some x \<and> active x}"

definition dark :: "'a led_app_scheme \<Rightarrow> led_id set" where
  "dark s = {i. pin_level s (led_pin i) = c_not (led_logic i)}"

text \<open>The abstract lights: a pair of those two sets.\<close>

fun abs_led :: "led_cmd \<Rightarrow> led_id set \<times> led_id set \<Rightarrow> led_id set \<times> led_id set" where
  "abs_led (Set_Mode i m n) (P, D) = (P, D)"
| "abs_led (Start i) (P, D) = (insert i P, D)"
| "abs_led (Stop i) (P, D) = (P - {i}, D)"
| "abs_led (On i) (P, D) = (P, D - {i})"
| "abs_led (Off i) (P, D) = (P, insert i D)"

fun cmd_ok :: "led_cmd \<Rightarrow> bool" where
  "cmd_ok (Set_Mode i m n) \<longleftrightarrow> m \<noteq> [] \<and> count_fields m \<noteq> 0"
| "cmd_ok _ \<longleftrightarrow> True"

text \<open>All LEDs exist, each with its own object, its pin and a pattern; the heap does not fail.\<close>

definition led_ready :: "led_id \<Rightarrow> led \<Rightarrow> bool" where
  "led_ready i x \<longleftrightarrow> led_kind x = AGILE_LED_TYPE_DYNAMIC \<and> pin x = led_pin i \<and>
     active_logic x = led_logic i \<and> light_arr x \<noteq> None \<and> arr_num x \<noteq> 0"

definition leds_ready :: "'a led_app_scheme \<Rightarrow> bool" where
  "leds_ready s \<longleftrightarrow> inj (handle s) \<and> (\<forall>n. heap_oracle s n) \<and>
     (\<forall>i. \<exists>l x. handle s i = Some l \<and> leds s l = Some x \<and> led_ready i x)"

lemma led_pin_inj: "led_pin i = led_pin j \<longleftrightarrow> i = j"
  by (cases i; cases j; simp)

lemma led_frames [simp]:
  "handle (put_led l x s) = handle s"
  "handle (rt_pin_write p v s) = handle s"
  "handle (assert_fail s) = handle s"
  "heap_oracle (put_led l x s) = heap_oracle s"
  "heap_oracle (rt_pin_write p v s) = heap_oracle s"
  "heap_oracle (assert_fail s) = heap_oracle s"
  "beep_mode (put_led l x s) = beep_mode s"
  "beep_mode (rt_pin_write p v s) = beep_mode s"
  "beep_mode (assert_fail s) = beep_mode s"
  by (simp_all add: put_led_def rt_pin_write_def assert_fail_def)

lemma run_led_beep_mode: "beep_mode (run_led c s) = beep_mode s"
  by (cases c) (auto simp: with_led_def agile_led_set_light_mode_def Let_def malloc_ok_def
      agile_led_dynamic_change_light_mode_def agile_led_get_light_arr_def agile_led_start_def
      agile_led_stop_def agile_led_on_def agile_led_off_def split: option.splits)

lemma run_leds_beep_mode: "beep_mode (run_leds cs s) = beep_mode s"
  unfolding run_leds_def by (induction cs arbitrary: s) (simp_all add: run_led_beep_mode)

text \<open>Replacing the object of one LED.\<close>

lemma lights_put:
  fixes s t :: "'a led_app_scheme"
  assumes rd: "leds_ready s" and h: "handle s i = Some l" and y: "led_ready i y"
    and t: "leds t = (leds s)(l \<mapsto> y)" "handle t = handle s" "heap_oracle t = heap_oracle s"
  shows "leds_ready t" and "playing t = (if active y then insert i (playing s) else playing s - {i})"
proof -
  have other: "leds t m = leds s m" if "handle s j = Some m" "j \<noteq> i" for j m
  proof -
    have "handle s j \<noteq> handle s i" using rd that(2) by (auto simp: leds_ready_def dest: injD)
    then show ?thesis using h that t(1) by auto
  qed
  show "leds_ready t"
    unfolding leds_ready_def t
  proof (intro conjI allI)
    fix j
    obtain m x where m: "handle s j = Some m" "leds s m = Some x" "led_ready j x"
      using rd unfolding leds_ready_def by blast
    show "\<exists>m x. handle s j = Some m \<and> ((leds s)(l \<mapsto> y)) m = Some x \<and> led_ready j x"
    proof (cases "j = i")
      case True
      then show ?thesis using h y by simp
    next
      case False
      with other [OF m(1)] m show ?thesis unfolding t(1) by simp
    qed
  qed (use rd in \<open>auto simp: leds_ready_def\<close>)
  have "j \<in> playing t \<longleftrightarrow> (if j = i then active y else j \<in> playing s)" for j
  proof (cases "j = i")
    case True
    then show ?thesis using h t(1,2) by (simp add: playing_def)
  next
    case False
    then show ?thesis unfolding playing_def t(2) mem_Collect_eq by (metis other)
  qed
  then show "playing t = (if active y then insert i (playing s) else playing s - {i})"
    by (intro set_eqI) simp
qed

lemma lights_pin:
  assumes "leds_ready s" and "handle s i = Some l"
  shows "leds_ready (rt_pin_write (led_pin i) v s)"
    and "playing (rt_pin_write (led_pin i) v s) = playing s"
    and "dark (rt_pin_write (led_pin i) v s) =
      (if v = c_not (led_logic i) then insert i (dark s) else dark s - {i})"
  using assms by (auto simp: leds_ready_def playing_def dark_def led_pin_inj)

lemma ready_get_light_arr:
  assumes "led_ready i x" and "m \<noteq> []" and "count_fields m \<noteq> 0" and "\<forall>n. heap_oracle s n"
  obtains y s1 where
    "agile_led_get_light_arr (x\<lparr>light_arr := None, arr_num := 0\<rparr>) m s = (RT_EOK, y, s1)"
    "led_ready i y" "active y = active x" "leds s1 = leds s" "handle s1 = handle s"
    "heap_oracle s1 = heap_oracle s" "pin_level s1 = pin_level s" "led_list s1 = led_list s"
  using assms
  by (auto simp: agile_led_get_light_arr_def malloc_ok_def led_ready_def)

lemma c_not_logic: "led_logic i \<noteq> c_not (led_logic i)"
  by (simp add: led_logic_def c_not_def)

lemma run_led_wf: "led_wf s \<Longrightarrow> led_wf (run_led c s)"
  by (cases c) (auto simp: with_led_def agile_led_set_light_mode_def led_wf_set_mode led_wf_start
      led_wf_stop led_wf_on_off split: option.splits)

text \<open>One call: the concrete package does to the lights what the abstract call does.\<close>

lemma run_led_abs:
  fixes s :: "'a led_app_scheme"
  assumes rd: "leds_ready s" and c: "cmd_ok c"
  shows "leds_ready (run_led c s) \<and>
    (playing (run_led c s), dark (run_led c s)) = abs_led c (playing s, dark s)"
proof -
  have obj: "\<exists>l x. handle s i = Some l \<and> leds s l = Some x \<and> led_ready i x" for i
    using rd by (auto simp: leds_ready_def)
  have heap: "\<forall>n. heap_oracle s n" using rd by (simp add: leds_ready_def)
  have pl: "i \<in> playing s \<longleftrightarrow> active x" if "handle s i = Some l" "leds s l = Some x" for i l x
    using that by (auto simp: playing_def)
  show ?thesis
  proof (cases c)
    case (Set_Mode i m n)
    obtain l x where lx: "handle s i = Some l" "leds s l = Some x" "led_ready i x" using obj by blast
    have m: "m \<noteq> []" "count_fields m \<noteq> 0" using c Set_Mode by auto
    obtain y s1 where
      y: "agile_led_get_light_arr (x\<lparr>light_arr := None, arr_num := 0\<rparr>) m s = (RT_EOK, y, s1)"
      "led_ready i y" "active y = active x" and s1: "leds s1 = leds s" "handle s1 = handle s"
      "heap_oracle s1 = heap_oracle s" "pin_level s1 = pin_level s"
      by (rule ready_get_light_arr [OF lx(3) m heap])
    let ?y = "y\<lparr>loop_init := n, arr_index := 0, loop_cnt := n, tick_timeout := tick s1\<rparr>"
    have r: "run_led c s = put_led l ?y s1"
      using lx y Set_Mode
      by (simp add: with_led_def agile_led_set_light_mode_def agile_led_dynamic_change_light_mode_def
          led_ready_def)
    have "led_ready i ?y" using y(2) by (simp add: led_ready_def)
    from lights_put [OF rd lx(1) this, of "put_led l ?y s1"] s1 y(3) pl [OF lx(1,2)]
    show ?thesis unfolding r by (auto simp: Set_Mode dark_def)
  next
    case (Start i)
    obtain l x where lx: "handle s i = Some l" "leds s l = Some x" "led_ready i x" using obj by blast
    let ?y = "x\<lparr>arr_index := 0, loop_cnt := loop_init x, tick_timeout := tick s, active := True\<rparr>"
    have "led_ready i ?y" using lx(3) by (simp add: led_ready_def)
    from lights_put [OF rd lx(1) this, of "put_led l ?y (s\<lparr>led_list := led_list s @ [l]\<rparr>)"]
    show ?thesis
      using lx rd pl [OF lx(1,2)]
      by (cases "active x") (auto simp: Start with_led_def agile_led_start_def led_ready_def dark_def)
  next
    case (Stop i)
    obtain l x where lx: "handle s i = Some l" "leds s l = Some x" "led_ready i x" using obj by blast
    let ?y = "x\<lparr>active := False\<rparr>"
    have "led_ready i ?y" using lx(3) by (simp add: led_ready_def)
    from lights_put [OF rd lx(1) this, of "put_led l ?y (s\<lparr>led_list := remove1 l (led_list s)\<rparr>)"]
    show ?thesis
      using lx rd pl [OF lx(1,2)]
      by (cases "active x") (auto simp: Stop with_led_def agile_led_stop_def dark_def)
  next
    case (On i)
    obtain l x where lx: "handle s i = Some l" "leds s l = Some x" "led_ready i x" using obj by blast
    then have "run_led c s = rt_pin_write (led_pin i) (led_logic i) s"
      by (simp add: On with_led_def agile_led_on_def led_ready_def)
    with lights_pin [OF rd lx(1)] c_not_logic [of i] show ?thesis by (simp add: On)
  next
    case (Off i)
    obtain l x where lx: "handle s i = Some l" "leds s l = Some x" "led_ready i x" using obj by blast
    then have "run_led c s = rt_pin_write (led_pin i) (c_not (led_logic i)) s"
      by (simp add: Off with_led_def agile_led_off_def led_ready_def)
    with lights_pin [OF rd lx(1)] show ?thesis by (simp add: Off)
  qed
qed

definition abs_leds :: "led_cmd list \<Rightarrow> led_id set \<times> led_id set \<Rightarrow> led_id set \<times> led_id set" where
  "abs_leds cs PD = fold abs_led cs PD"

lemma run_leds_abs:
  assumes "leds_ready s" and "\<forall>c \<in> set cs. cmd_ok c"
  shows "leds_ready (run_leds cs s) \<and>
    (playing (run_leds cs s), dark (run_leds cs s)) = abs_leds cs (playing s, dark s)"
  using assms
proof (induction cs arbitrary: s)
  case (Cons c cs)
  then have "leds_ready (run_led c s) \<and>
    (playing (run_led c s), dark (run_led c s)) = abs_led c (playing s, dark s)"
    using run_led_abs by auto
  with Cons show ?case by (simp add: run_leds_def abs_leds_def)
qed (simp add: run_leds_def abs_leds_def)

lemma run_leds_wf: "led_wf s \<Longrightarrow> led_wf (run_leds cs s)"
  unfolding run_leds_def by (induction cs arbitrary: s) (simp_all add: run_led_wf)

lemmas rf433_defs = led_rf433_start_def rf_433_lost_def rf_433_ultralow_def rf_433_low_def
  rf_433_mid_def rf_433_high_def

lemmas rf4068_defs = led_rf4068_start_def rf_4068_lost_def rf_4068_ultralow_def rf_4068_low_def
  rf_4068_mid_def rf_4068_high_def

section \<open>Properties\<close>

text \<open>The LEDs that show a link's state, from lost (1) to a strong signal (5).\<close>

definition rf433_group :: "led_id set" where
  "rf433_group = {LED1_G, LED1_R, LED2_G, LED2_R, LED3_G, LED3_R}"

definition rf433_shown :: "u8 \<Rightarrow> led_id set" where
  "rf433_shown mode =
     (if mode = 1 then {LED1_R, LED2_R, LED3_R}
      else if mode = 2 then {LED1_G, LED1_R}
      else if mode = 3 then {LED1_G}
      else if mode = 4 then {LED1_G, LED2_G}
      else {LED1_G, LED2_G, LED3_G})"

definition rf4068_group :: "led_id set" where
  "rf4068_group = {LED4_G, LED4_R, LED5_G, LED5_R, LED6_G, LED6_R}"

definition rf4068_shown :: "u8 \<Rightarrow> led_id set" where
  "rf4068_shown mode =
     (if mode = 1 then {LED4_R, LED5_R, LED6_R}
      else if mode = 2 then {LED4_G, LED4_R}
      else if mode = 3 then {LED4_G}
      else if mode = 4 then {LED4_G, LED5_G}
      else {LED4_G, LED5_G, LED6_G})"

text \<open>The lights right after a sequence of calls, from the abstract calls.\<close>

lemma run_leds_lights:
  assumes "leds_ready s" and "\<forall>c \<in> set cs. cmd_ok c"
  shows "playing (run_leds cs s) = fst (abs_leds cs (playing s, dark s))"
    and "dark (run_leds cs s) = snd (abs_leds cs (playing s, dark s))"
  using run_leds_abs [OF assms] by (metis fst_conv, metis snd_conv)

lemma count_literals [simp]:
  "count_fields ''300,150'' = 2" "count_fields ''300,100'' = 2"
  "count_fields ''100,100,100,100'' = 4" "count_fields ''0,200,10000'' = 3"
  "count_fields ''0,200,200,200,5000'' = 5" "count_fields ''0,200,200,200,200,200,5000'' = 7"
  "count_fields ''0,200,200,200,200,200,200,200,200,200,200'' = 11"
  by (simp_all add: count_fields_def)

text \<open>The display of the 433 MHz link is exact: for each of the five modes the LEDs left
  playing a pattern are the ones of that mode and every other LED of the group is stopped and
  dark, whatever was shown before; the LEDs outside the group are untouched, and the LED
  package's invariant is kept.\<close>

theorem led_rf433_display:
  assumes "leds_ready s" and "led_wf s" and "mode \<in> {1, 2, 3, 4, 5}"
  shows "playing (led_rf433_start mode s) = playing s - rf433_group \<union> rf433_shown mode \<and>
    rf433_group - rf433_shown mode \<subseteq> dark (led_rf433_start mode s) \<and>
    dark (led_rf433_start mode s) - rf433_group = dark s - rf433_group \<and>
    leds_ready (led_rf433_start mode s) \<and> led_wf (led_rf433_start mode s)"
proof -
  have "leds_ready (led_rf433_start mode s) \<and> led_wf (led_rf433_start mode s)"
    using assms(1,2) run_leds_abs [OF assms(1)] by (simp add: rf433_defs run_leds_wf)
  moreover have "playing (led_rf433_start mode s) = playing s - rf433_group \<union> rf433_shown mode \<and>
    rf433_group - rf433_shown mode \<subseteq> dark (led_rf433_start mode s) \<and>
    dark (led_rf433_start mode s) - rf433_group = dark s - rf433_group"
    using assms(3)
    by (auto simp: rf433_defs run_leds_lights [OF assms(1)] abs_leds_def rf433_group_def
        rf433_shown_def)
  ultimately show ?thesis by blast
qed

text \<open>The same for the 4068 link.\<close>

theorem led_rf4068_display:
  assumes "leds_ready s" and "led_wf s" and "mode \<in> {1, 2, 3, 4, 5}"
  shows "playing (led_rf4068_start mode s) = playing s - rf4068_group \<union> rf4068_shown mode \<and>
    rf4068_group - rf4068_shown mode \<subseteq> dark (led_rf4068_start mode s) \<and>
    dark (led_rf4068_start mode s) - rf4068_group = dark s - rf4068_group \<and>
    leds_ready (led_rf4068_start mode s) \<and> led_wf (led_rf4068_start mode s)"
proof -
  have "leds_ready (led_rf4068_start mode s) \<and> led_wf (led_rf4068_start mode s)"
    using assms(1,2) run_leds_abs [OF assms(1)] by (simp add: rf4068_defs run_leds_wf)
  moreover have "playing (led_rf4068_start mode s) = playing s - rf4068_group \<union> rf4068_shown mode \<and>
    rf4068_group - rf4068_shown mode \<subseteq> dark (led_rf4068_start mode s) \<and>
    dark (led_rf4068_start mode s) - rf4068_group = dark s - rf4068_group"
    using assms(3)
    by (auto simp: rf4068_defs run_leds_lights [OF assms(1)] abs_leds_def rf4068_group_def
        rf4068_shown_def)
  ultimately show ?thesis by blast
qed

definition lamp :: "u32 \<Rightarrow> u32 \<Rightarrow> led" where
  "lamp p a = \<lparr>led_kind = AGILE_LED_TYPE_DYNAMIC, active = False, pin = p, active_logic = a,
     light_arr = Some [300, 150], arr_num = 2, arr_index = 0, loop_init = 1, loop_cnt = 1,
     tick_timeout = 0, compelete = Some 0\<rparr>"

definition panel :: "led_app" where
  "panel = led_env.extend
     (bench\<lparr>leds := (\<lambda>n. Some (lamp (word_of_nat n) (if n = 26 then 1 else 0)))\<rparr>)
     \<lparr>btns = (\<lambda>_. None), btn_list = [], btn_is_init = True,
      handle = (\<lambda>i. Some (unat (led_pin i))), beep_mode = 0\<rparr>"

lemma panel_simps [simp]:
  "leds panel = (\<lambda>n. Some (lamp (word_of_nat n) (if n = 26 then 1 else 0)))" "led_list panel = []"
  "handle panel = (\<lambda>i. Some (unat (led_pin i)))" "heap_oracle panel = (\<lambda>_. True)"
  "beep_mode panel = 0" "tick panel = 0" "pin_level panel = (\<lambda>_. 0)"
  by (simp_all add: panel_def led_env.defs bench_def kern.defs idle_kern_def)

lemma playing_panel [simp]: "playing panel = {}"
  by (simp add: playing_def lamp_def)

lemma led_wf_panel: "led_wf panel"
  by (simp add: led_wf_def led_ok_def pattern_ok_def lamp_def)

lemma unat_numeral_26: "unat (26 :: u32) = 26"
  by simp

lemma leds_ready_panel: "leds_ready panel"
proof -
  have "led_pin i = 26 \<longleftrightarrow> i = BEEP" for i by (cases i) simp_all
  then have "unat (led_pin i) = 26 \<longleftrightarrow> i = BEEP" for i
    by (metis unat_numeral_26 word_unat_eq_iff)
  then have "led_ready i (lamp (word_of_nat (unat (led_pin i))) (if unat (led_pin i) = 26 then 1 else 0))"
    for i by (simp add: led_ready_def lamp_def led_logic_def)
  moreover have "inj (\<lambda>i. Some (unat (led_pin i)))"
    by (rule injI) (simp add: led_pin_inj flip: word_unat_eq_iff)
  ultimately show ?thesis by (simp add: leds_ready_def)
qed

theorem led_rf433_display_witness:
  "playing (led_rf433_start 3 (led_rf433_start 1 panel)) = {LED1_G}"
proof -
  have "leds_ready (led_rf433_start 1 panel)" "led_wf (led_rf433_start 1 panel)"
    "playing (led_rf433_start 1 panel) = {LED1_R, LED2_R, LED3_R}"
    using led_rf433_display [OF leds_ready_panel led_wf_panel, of 1] by (auto simp: rf433_shown_def)
  with led_rf433_display [of "led_rf433_start 1 panel" 3] show ?thesis
    by (auto simp: rf433_shown_def rf433_group_def)
qed

theorem led_rf4068_display_witness: "playing (led_rf4068_start 5 panel) = {LED4_G, LED5_G, LED6_G}"
  using led_rf4068_display [OF leds_ready_panel led_wf_panel, of 5] by (auto simp: rf4068_shown_def)

text \<open>The transmitter LED: after \<open>transmitter_lost\<close> the red LED plays and the green one is
  dark; but going from off to on while the off pattern still plays leaves both LEDs playing,
  because \<open>transmitter_on\<close> turns the red LED off without stopping its pattern, so a red light
  returns although the transmitter is on.\<close>

theorem transmitter_display:
  assumes "leds_ready s"
  shows "LED7_R \<in> playing (transmitter_lost s) \<and> LED7_G \<in> dark (transmitter_lost s) \<and>
    {LED7_G, LED7_R} \<subseteq> playing (transmitter_off s) \<and>
    {LED7_G, LED7_R} \<subseteq> playing (transmitter_on (transmitter_off s)) \<and>
    (LED7_R \<notin> playing s \<longrightarrow> LED7_R \<notin> playing (transmitter_on s) \<and> LED7_R \<in> dark (transmitter_on s))"
proof -
  have off: "leds_ready (transmitter_off s)"
    using run_leds_abs [OF assms] by (simp add: transmitter_off_def)
  have p: "{LED7_G, LED7_R} \<subseteq> playing (transmitter_off s)"
    by (simp add: transmitter_off_def run_leds_lights [OF assms] abs_leds_def)
  then have "{LED7_G, LED7_R} \<subseteq> playing (transmitter_on (transmitter_off s))"
    by (simp add: transmitter_on_def run_leds_lights [OF off] abs_leds_def)
  with p show ?thesis
    by (simp add: transmitter_lost_def transmitter_on_def run_leds_lights [OF assms] abs_leds_def)
qed

theorem transmitter_display_witness:
  "LED7_R \<in> playing (transmitter_on (transmitter_off panel))"
  using transmitter_display [OF leds_ready_panel] by simp

section \<open>The buzzer\<close>

lemma beep_start_ready:
  assumes "leds_ready s"
  shows "leds_ready (beep_start n s)"
proof -
  have "leds_ready (s\<lparr>beep_mode := n\<rparr>)" using assms by (simp add: leds_ready_def)
  from run_leds_abs [OF this, of "[Stop BEEP, Off BEEP] @ beep_pattern n @ [Start BEEP]"] assms
  show ?thesis by (auto simp: beep_start_def beep_pattern_def)
qed

definition beep_phases :: "u8 \<Rightarrow> u32 list" where
  "beep_phases n =
     (if n = 1 then [0, 200, 10000]
      else if n = 2 then [0, 200, 200, 200, 5000]
      else if n = 3 then [0, 200, 200, 200, 200, 200, 5000]
      else [0, 200, 200, 200, 200, 200, 200, 200, 200, 200, 200])"

lemma fill_literals:
  "fill_light_arr 3 ''0,200,10000'' = [0, 200, 10000]"
  "fill_light_arr 5 ''0,200,200,200,5000'' = [0, 200, 200, 200, 5000]"
  "fill_light_arr 7 ''0,200,200,200,200,200,5000'' = [0, 200, 200, 200, 200, 200, 5000]"
  "fill_light_arr 11 ''0,200,200,200,200,200,200,200,200,200,200'' =
     [0, 200, 200, 200, 200, 200, 200, 200, 200, 200, 200]"
  by code_simp+

text \<open>The four calls on the buzzer, on its object.\<close>

lemma beep_run:
  assumes rd: "leds_ready s" and m: "m \<noteq> []" "count_fields m \<noteq> 0"
  shows "\<exists>l x. handle s BEEP = Some l \<and>
    leds (run_leds [Stop BEEP, Off BEEP, Set_Mode BEEP m k, Start BEEP] s) l = Some x \<and>
    active x \<and> light_arr x = Some (fill_light_arr (unat (count_fields m)) m) \<and>
    loop_cnt x = k \<and> arr_index x = 0"
proof -
  obtain l x where lx: "handle s BEEP = Some l" "leds s l = Some x" "led_ready BEEP x"
    using rd unfolding leds_ready_def by blast
  have h: "heap_oracle s n" for n using rd by (simp add: leds_ready_def)
  show ?thesis
    using lx m h
    by (cases "active x")
      (simp_all add: run_leds_def with_led_def agile_led_stop_def agile_led_off_def
        agile_led_set_light_mode_def agile_led_dynamic_change_light_mode_def led_ready_def
        agile_led_get_light_arr_def malloc_ok_def agile_led_start_def)
qed

text \<open>Starting the buzzer with a new mode 1 to 4 silences it first, then plays exactly the
  phases of that mode from the start, repeated for ever for the modes 1 to 3 and once for
  mode 4; the other lights keep playing what they played.\<close>

theorem beep_start_plays:
  assumes "leds_ready s" and "n \<in> {1, 2, 3, 4}" and "n \<noteq> beep_mode s"
  shows "beep_mode (beep_start n s) = n \<and> BEEP \<in> dark (beep_start n s) \<and>
    playing (beep_start n s) = insert BEEP (playing s) \<and>
    (\<exists>l x. handle s BEEP = Some l \<and> leds (beep_start n s) l = Some x \<and> active x \<and>
       light_arr x = Some (beep_phases n) \<and> loop_cnt x = (if n = 4 then 1 else - 1) \<and>
       arr_index x = 0)"
proof -
  let ?s = "s\<lparr>beep_mode := n\<rparr>"
  have rd: "leds_ready ?s" and p: "playing ?s = playing s"
    using assms(1) by (simp_all add: leds_ready_def playing_def)
  have run: "beep_start n s = run_leds ([Stop BEEP, Off BEEP] @ beep_pattern n @ [Start BEEP]) ?s"
    using assms(3) by (simp add: beep_start_def)
  have "\<exists>l x. handle s BEEP = Some l \<and> leds (beep_start n s) l = Some x \<and> active x \<and>
       light_arr x = Some (beep_phases n) \<and> loop_cnt x = (if n = 4 then 1 else - 1) \<and>
       arr_index x = 0"
    using assms(2) beep_run [OF rd, of "''0,200,10000''" "- 1"]
      beep_run [OF rd, of "''0,200,200,200,5000''" "- 1"]
      beep_run [OF rd, of "''0,200,200,200,200,200,5000''" "- 1"]
      beep_run [OF rd, of "''0,200,200,200,200,200,200,200,200,200,200''" 1]
    unfolding run by (elim insertE emptyE) (simp_all add: beep_pattern_def beep_phases_def fill_literals)
  moreover have "BEEP \<in> dark (beep_start n s)" "playing (beep_start n s) = insert BEEP (playing s)"
    using assms(2) unfolding run
    by (auto simp: beep_pattern_def run_leds_lights [OF rd] p abs_leds_def)
  ultimately show ?thesis by (simp add: run run_leds_beep_mode)
qed

theorem beep_start_plays_witness:
  "playing (beep_start 3 panel) = {BEEP} \<and> beep_mode (beep_start 3 panel) = 3"
  using beep_start_plays [OF leds_ready_panel, of 3] by simp

end
