(* ===== verification/Seg.thy ===== *)
theory Seg
  imports Led
begin

text \<open>
  The two signal outputs: \<open>applications/seg.c\<close>.

  State: per link, how many weak receptions (\<open>rssi\<close>) and how many lost rounds (\<open>alive\<close>) have
  been counted in a row, and the level last written to each output. \<open>seg_scan\<close> is one turn of
  the thread's loop up to its delay.
\<close>

section \<open>State and operations\<close>

record seg_app = led_app +
  rf4068_rssi_count :: u8
  rf4068_alive_conut :: u8
  rf433_rssi_count :: u8
  rf433_alive_conut :: u8
  seg1_level :: u8
  seg2_level :: u8

definition rf4068_rssi_count_increase :: "'a seg_app_scheme \<Rightarrow> 'a seg_app_scheme" where
  "rf4068_rssi_count_increase s =
     (if rf4068_rssi_count s < 5 then s\<lparr>rf4068_rssi_count := rf4068_rssi_count s + 1\<rparr> else s)"

definition rf4068_rssi_count_resume :: "'a seg_app_scheme \<Rightarrow> 'a seg_app_scheme" where
  "rf4068_rssi_count_resume s = s\<lparr>rf4068_rssi_count := 0\<rparr>"

definition rf4068_alive_count_increase :: "'a seg_app_scheme \<Rightarrow> 'a seg_app_scheme" where
  "rf4068_alive_count_increase s =
     (let s1 = (if rf4068_alive_conut s < 2
                then s\<lparr>rf4068_alive_conut := rf4068_alive_conut s + 1\<rparr> else s)
      in s1\<lparr>rf4068_rssi_count := 0\<rparr>)"

definition rf4068_alive_count_resume :: "'a seg_app_scheme \<Rightarrow> 'a seg_app_scheme" where
  "rf4068_alive_count_resume s = s\<lparr>rf4068_alive_conut := 0\<rparr>"

definition rf433_rssi_count_increase :: "'a seg_app_scheme \<Rightarrow> 'a seg_app_scheme" where
  "rf433_rssi_count_increase s =
     (if rf433_rssi_count s < 5 then s\<lparr>rf433_rssi_count := rf433_rssi_count s + 1\<rparr> else s)"

definition rf433_rssi_count_resume :: "'a seg_app_scheme \<Rightarrow> 'a seg_app_scheme" where
  "rf433_rssi_count_resume s = s\<lparr>rf433_rssi_count := 0\<rparr>"

definition rf433_alive_count_increase :: "'a seg_app_scheme \<Rightarrow> 'a seg_app_scheme" where
  "rf433_alive_count_increase s =
     (let s1 = (if rf433_alive_conut s < 2
                then s\<lparr>rf433_alive_conut := rf433_alive_conut s + 1\<rparr> else s)
      in s1\<lparr>rf433_rssi_count := 0\<rparr>)"

definition rf433_alive_count_resume :: "'a seg_app_scheme \<Rightarrow> 'a seg_app_scheme" where
  "rf433_alive_count_resume s = s\<lparr>rf433_alive_conut := 0\<rparr>"

definition alive_count_increase :: "u8 \<Rightarrow> 'a seg_app_scheme \<Rightarrow> 'a seg_app_scheme" where
  "alive_count_increase select s =
     (if select \<noteq> 0 then rf433_alive_count_increase s else rf4068_alive_count_increase s)"

definition seg1_control :: "u8 \<Rightarrow> 'a seg_app_scheme \<Rightarrow> 'a seg_app_scheme" where
  "seg1_control level s =
     (if seg1_level s \<noteq> level then rt_pin_write OUT1 (ucast level) (s\<lparr>seg1_level := level\<rparr>) else s)"

definition seg2_control :: "u8 \<Rightarrow> 'a seg_app_scheme \<Rightarrow> 'a seg_app_scheme" where
  "seg2_control level s =
     (if seg2_level s \<noteq> level then rt_pin_write OUT2 (ucast level) (s\<lparr>seg2_level := level\<rparr>) else s)"

text \<open>\<open>seg_callback\<close>: what precedes the loop, and one turn of it.\<close>

definition seg_start :: "'a seg_app_scheme \<Rightarrow> 'a seg_app_scheme" where
  "seg_start s = rt_pin_write OUT2 0 (rt_pin_write OUT1 0
     (rt_pin_mode OUT2 PIN_MODE_OUTPUT (rt_pin_mode OUT1 PIN_MODE_OUTPUT s)))"

definition seg_scan :: "'a seg_app_scheme \<Rightarrow> 'a seg_app_scheme" where
  "seg_scan s =
     (let s1 = (if 4 < rf4068_rssi_count s \<or> 4 < rf433_rssi_count s
                then seg1_control 1 s else seg1_control 0 s)
      in if 1 < rf4068_alive_conut s1 \<or> 1 < rf433_alive_conut s1
         then seg2_control 1 s1 else seg2_control 0 s1)"

section \<open>Saturating counters\<close>

text \<open>A counter that stops at its cap and starts again at zero.\<close>

locale saturating_counter =
  fixes incr :: "'s \<Rightarrow> 's" and reset :: "'s \<Rightarrow> 's" and val :: "'s \<Rightarrow> nat" and cap :: nat
  assumes val_reset: "val (reset s) = 0"
    and val_incr: "val s \<le> cap \<Longrightarrow> val (incr s) = min (Suc (val s)) cap"
begin

lemma val_run: "val ((incr ^^ k) (reset s)) = min k cap"
  by (induction k) (simp_all add: val_reset val_incr)

lemma full_iff: "val ((incr ^^ k) (reset s)) = cap \<longleftrightarrow> cap \<le> k"
  by (auto simp: val_run)

end

lemma unat_count_incr:
  fixes c m :: u8
  assumes "unat c \<le> unat m"
  shows "unat (if c < m then c + 1 else c) = min (Suc (unat c)) (unat m)"
  using assms unat_Suc_less [of c m] by (auto simp: word_less_nat_alt)

lemma unat_5: "unat (5 :: u8) = 5" and unat_2: "unat (2 :: u8) = 2"
  by simp_all

interpretation rssi433: saturating_counter rf433_rssi_count_increase rf433_rssi_count_resume
    "\<lambda>s. unat (rf433_rssi_count s)" 5
proof
  fix s :: "'a seg_app_scheme"
  assume "unat (rf433_rssi_count s) \<le> 5"
  with unat_count_incr [of "rf433_rssi_count s" 5]
  show "unat (rf433_rssi_count (rf433_rssi_count_increase s)) = min (Suc (unat (rf433_rssi_count s))) 5"
    by (simp add: rf433_rssi_count_increase_def split: if_splits)
qed (simp add: rf433_rssi_count_resume_def)

interpretation rssi4068: saturating_counter rf4068_rssi_count_increase rf4068_rssi_count_resume
    "\<lambda>s. unat (rf4068_rssi_count s)" 5
proof
  fix s :: "'a seg_app_scheme"
  assume "unat (rf4068_rssi_count s) \<le> 5"
  with unat_count_incr [of "rf4068_rssi_count s" 5]
  show "unat (rf4068_rssi_count (rf4068_rssi_count_increase s)) =
      min (Suc (unat (rf4068_rssi_count s))) 5"
    by (simp add: rf4068_rssi_count_increase_def split: if_splits)
qed (simp add: rf4068_rssi_count_resume_def)

interpretation alive433: saturating_counter rf433_alive_count_increase rf433_alive_count_resume
    "\<lambda>s. unat (rf433_alive_conut s)" 2
proof
  fix s :: "'a seg_app_scheme"
  assume "unat (rf433_alive_conut s) \<le> 2"
  with unat_count_incr [of "rf433_alive_conut s" 2]
  show "unat (rf433_alive_conut (rf433_alive_count_increase s)) =
      min (Suc (unat (rf433_alive_conut s))) 2"
    by (simp add: rf433_alive_count_increase_def Let_def split: if_splits)
qed (simp add: rf433_alive_count_resume_def)

interpretation alive4068: saturating_counter rf4068_alive_count_increase rf4068_alive_count_resume
    "\<lambda>s. unat (rf4068_alive_conut s)" 2
proof
  fix s :: "'a seg_app_scheme"
  assume "unat (rf4068_alive_conut s) \<le> 2"
  with unat_count_incr [of "rf4068_alive_conut s" 2]
  show "unat (rf4068_alive_conut (rf4068_alive_count_increase s)) =
      min (Suc (unat (rf4068_alive_conut s))) 2"
    by (simp add: rf4068_alive_count_increase_def Let_def split: if_splits)
qed (simp add: rf4068_alive_count_resume_def)

section \<open>Invariant\<close>

definition seg_wf :: "'a seg_app_scheme \<Rightarrow> bool" where
  "seg_wf s \<longleftrightarrow> rf4068_rssi_count s \<le> 5 \<and> rf433_rssi_count s \<le> 5 \<and>
     rf4068_alive_conut s \<le> 2 \<and> rf433_alive_conut s \<le> 2 \<and>
     seg1_level s \<le> 1 \<and> seg2_level s \<le> 1 \<and>
     pin_level s OUT1 = ucast (seg1_level s) \<and> pin_level s OUT2 = ucast (seg2_level s)"

inductive seg_step :: "'a seg_app_scheme \<Rightarrow> 'a seg_app_scheme \<Rightarrow> bool" where
  rssi433_up: "seg_step s (rf433_rssi_count_increase s)"
| rssi433_reset: "seg_step s (rf433_rssi_count_resume s)"
| rssi4068_up: "seg_step s (rf4068_rssi_count_increase s)"
| rssi4068_reset: "seg_step s (rf4068_rssi_count_resume s)"
| alive_up: "seg_step s (alive_count_increase select s)"
| alive433_reset: "seg_step s (rf433_alive_count_resume s)"
| alive4068_reset: "seg_step s (rf4068_alive_count_resume s)"
| scan: "seg_step s (seg_scan s)"

inductive_cases seg_stepE: "seg_step s t"

lemma word_less_le_Suc: "(c :: u8) < m \<Longrightarrow> c + 1 \<le> m"
  using unat_Suc_less [of c m] by (simp add: word_le_nat_alt word_less_nat_alt)

lemma out_pins: "OUT1 \<noteq> OUT2"
  by (simp add: OUT1_def OUT2_def)

lemma seg_wf_step: "seg_step s t \<Longrightarrow> seg_wf s \<Longrightarrow> seg_wf t"
  by (induction rule: seg_step.induct)
    (auto simp: seg_wf_def rf433_rssi_count_increase_def rf433_rssi_count_resume_def
      rf4068_rssi_count_increase_def rf4068_rssi_count_resume_def alive_count_increase_def
      rf433_alive_count_increase_def rf4068_alive_count_increase_def rf433_alive_count_resume_def
      rf4068_alive_count_resume_def seg_scan_def seg1_control_def seg2_control_def Let_def
      rt_pin_write_def out_pins out_pins [symmetric] intro: word_less_le_Suc)

section \<open>Properties\<close>

text \<open>However counting and scanning interleave, the counters stay within 5 and 2, and each
  output pin carries the level the code believes it has written.\<close>

theorem seg_reachable_wf:
  assumes "seg_step\<^sup>*\<^sup>* s t" and "seg_wf s"
  shows "seg_wf t"
  using assms by (induction rule: rtranclp_induct) (auto intro: seg_wf_step)

definition seg_panel :: "seg_app" where
  "seg_panel = led_app.extend panel \<lparr>rf4068_rssi_count = 0, rf4068_alive_conut = 0,
     rf433_rssi_count = 0, rf433_alive_conut = 0, seg1_level = 0, seg2_level = 0\<rparr>"

lemma seg_panel_simps [simp]:
  "rf4068_rssi_count seg_panel = 0" "rf4068_alive_conut seg_panel = 0"
  "rf433_rssi_count seg_panel = 0" "rf433_alive_conut seg_panel = 0"
  "seg1_level seg_panel = 0" "seg2_level seg_panel = 0" "pin_level seg_panel = (\<lambda>_. 0)"
  by (simp_all add: seg_panel_def led_app.defs panel_def led_env.defs bench_def kern.defs
      idle_kern_def)

lemma seg_wf_panel: "seg_wf seg_panel"
  by (simp add: seg_wf_def)

theorem seg_reachable_wf_witness:
  "seg_wf (seg_scan (alive_count_increase 1 seg_panel))"
  by (rule seg_reachable_wf [OF _ seg_wf_panel])
    (blast intro: rtranclp.intros seg_step.alive_up seg_step.scan)

lemma seg_scan_out:
  assumes "seg_wf s"
  shows "pin_level (seg_scan s) OUT1 = (if 4 < rf4068_rssi_count s \<or> 4 < rf433_rssi_count s then 1 else 0)"
    and "pin_level (seg_scan s) OUT2 = (if 1 < rf4068_alive_conut s \<or> 1 < rf433_alive_conut s then 1 else 0)"
  using assms
  by (auto simp: seg_wf_def seg_scan_def seg1_control_def seg2_control_def Let_def rt_pin_write_def
      out_pins out_pins [symmetric])

lemma seg_wf_iterate:
  "(\<And>u. seg_step u (f u)) \<Longrightarrow> seg_wf s \<Longrightarrow> seg_wf ((f ^^ k) s)"
  by (induction k) (auto intro: seg_wf_step)

lemma other_counter:
  "rf4068_rssi_count ((rf433_rssi_count_increase ^^ k) s) = rf4068_rssi_count s"
  "rf433_rssi_count ((rf4068_rssi_count_increase ^^ k) s) = rf433_rssi_count s"
  "rf4068_alive_conut ((rf433_alive_count_increase ^^ k) s) = rf4068_alive_conut s"
  "rf433_alive_conut ((rf4068_alive_count_increase ^^ k) s) = rf433_alive_conut s"
  by (induction k) (simp_all add: rf433_rssi_count_increase_def rf4068_rssi_count_increase_def
      rf433_alive_count_increase_def rf4068_alive_count_increase_def Let_def)

lemma alive_select:
  "alive_count_increase 1 = rf433_alive_count_increase"
  "alive_count_increase 0 = rf4068_alive_count_increase"
  by (simp_all add: fun_eq_iff alive_count_increase_def)

lemma count_full:
  "unat (c :: u8) = min k 5 \<Longrightarrow> 4 < c \<longleftrightarrow> 5 \<le> k"
  "unat (c :: u8) = min k 2 \<Longrightarrow> 1 < c \<longleftrightarrow> 2 \<le> k"
  by (auto simp: word_less_nat_alt)

text \<open>The outputs raise an alarm exactly after enough bad rounds in a row: \<open>k\<close> weak
  receptions on the 433 link since the last good one raise output 1 at the next scan iff
  \<open>k \<ge> 5\<close>, and \<open>k\<close> lost rounds since the last answer raise output 2 iff \<open>k \<ge> 2\<close> (as long as
  the other link is silent); and the same for the 4068 link.\<close>

theorem seg_alarm_exact:
  assumes "seg_wf s"
  shows "(rf4068_rssi_count s \<le> 4 \<longrightarrow>
      pin_level (seg_scan ((rf433_rssi_count_increase ^^ k) (rf433_rssi_count_resume s))) OUT1 =
        (if 5 \<le> k then 1 else 0)) \<and>
    (rf433_rssi_count s \<le> 4 \<longrightarrow>
      pin_level (seg_scan ((rf4068_rssi_count_increase ^^ k) (rf4068_rssi_count_resume s))) OUT1 =
        (if 5 \<le> k then 1 else 0)) \<and>
    (rf4068_alive_conut s \<le> 1 \<longrightarrow>
      pin_level (seg_scan ((alive_count_increase 1 ^^ k) (rf433_alive_count_resume s))) OUT2 =
        (if 2 \<le> k then 1 else 0)) \<and>
    (rf433_alive_conut s \<le> 1 \<longrightarrow>
      pin_level (seg_scan ((alive_count_increase 0 ^^ k) (rf4068_alive_count_resume s))) OUT2 =
        (if 2 \<le> k then 1 else 0))"
proof -
  note w = seg_wf_iterate [OF _ seg_wf_step [OF _ assms]]
  have w: "seg_wf ((rf433_rssi_count_increase ^^ k) (rf433_rssi_count_resume s))"
    "seg_wf ((rf4068_rssi_count_increase ^^ k) (rf4068_rssi_count_resume s))"
    "seg_wf ((alive_count_increase 1 ^^ k) (rf433_alive_count_resume s))"
    "seg_wf ((alive_count_increase 0 ^^ k) (rf4068_alive_count_resume s))"
    by (rule w; rule seg_step.intros)+
  note out = w [THEN seg_scan_out(1)] w [THEN seg_scan_out(2)]
  note full = count_full(1) [OF rssi433.val_run [of k s]] count_full(1) [OF rssi4068.val_run [of k s]]
    count_full(2) [OF alive433.val_run [of k s]] count_full(2) [OF alive4068.val_run [of k s]]
  show ?thesis
    unfolding out unfolding alive_select other_counter full
    by (auto simp: rf433_rssi_count_resume_def rf4068_rssi_count_resume_def
        rf433_alive_count_resume_def rf4068_alive_count_resume_def)
qed

theorem seg_alarm_exact_witness:
  "pin_level (seg_scan ((rf433_rssi_count_increase ^^ 5) (rf433_rssi_count_resume seg_panel))) OUT1 = 1"
  using seg_alarm_exact [OF seg_wf_panel, of 5] by simp

end
