(* ===== verification/Radio_Drv.thy ===== *)
theory Radio_Drv
  imports Seg
begin

text \<open>
  The register access of the AX5043 radio chip over SPI: \<open>radio/Radio_Drv.c\<close> and the structures
  of \<open>Radio_Drv.h\<close>.

  The chip itself is not part of the sources. What it answers is the field \<open>chip\<close>:
  \<open>chip n a\<close> is the byte that the \<open>n\<close>-th byte read over the bus returns when it is read from
  register \<open>a\<close>; everything sent to it is recorded in \<open>wire\<close>. \<open>radio_fault\<close> records a
  write outside an array of the device structure. The bus transfers themselves always succeed
  (the sources never look at their results).
\<close>

section \<open>State\<close>

datatype trxstate = trxstate_off | trxstate_rx | trxstate_rxwor | trxstate_wait_xtal
  | trxstate_xtal_ready | trxstate_pll_ranging | trxstate_pll_ranging_done
  | trxstate_pll_settling | trxstate_pll_settled | trxstate_tx_xtalwait
  | trxstate_tx_longpreamble | trxstate_tx_shortpreamble | trxstate_tx_packet
  | trxstate_tx_waitdone

record ax5043_config =
  axradio_phy_vcocalib :: u8
  axradio_phy_preamble_len :: u8
  axradio_framing_synclen :: u8
  axradio_phy_preamble_flags :: u8
  axradio_phy_preamble_byte :: u8
  axradio_phy_preamble_appendbits :: u8
  axradio_phy_preamble_appendpattern :: u8
  axradio_phy_chanfreq :: u32
  axradio_phy_chanvcoiinit :: u8
  axradio_phy_chanpllrnginit :: u8
  axradio_phy_maxfreqoffset :: int
  axradio_phy_rssioffset :: u8
  axradio_phy_rssireference :: u8
  axradio_framing_syncflags :: u8
  axradio_framing_syncword :: "u8 list"

text \<open>A transfer on the bus: bytes sent, or bytes sent and then a number of bytes received.\<close>

datatype spi = Spi_send "u8 list" | Spi_recv "u8 list" nat

record ax5043 =
  config :: ax5043_config
  ubRssi :: int
  ubRFState :: trxstate
  TXBuff :: "u8 list"
  TxLen :: u8
  RXBuff :: "u8 list"
  RxLen :: u8
  axradio_phy_chanpllrng :: u8
  axradio_phy_chanvcoi :: u8
  axradio_power_now :: u8
  RegValue :: "(u16 \<times> u16) list"
  TXRegValue :: "(u16 \<times> u16) list"
  RXRegValue :: "(u16 \<times> u16) list"
  axradio_txbuffer_cnt :: u32
  chip :: "nat \<Rightarrow> u16 \<Rightarrow> u8"
  reads :: nat
  wire :: "spi list"
  radio_fault :: bool

section \<open>Register numbers\<close>

abbreviation (input) REG_AX5043_SCRATCH :: u8 where "REG_AX5043_SCRATCH \<equiv> 0x01"
abbreviation (input) REG_AX5043_PWRMODE :: u8 where "REG_AX5043_PWRMODE \<equiv> 0x02"
abbreviation (input) REG_AX5043_POWSTICKYSTAT :: u8 where "REG_AX5043_POWSTICKYSTAT \<equiv> 0x04"
abbreviation (input) REG_AX5043_IRQMASK1 :: u8 where "REG_AX5043_IRQMASK1 \<equiv> 0x06"
abbreviation (input) REG_AX5043_IRQMASK0 :: u8 where "REG_AX5043_IRQMASK0 \<equiv> 0x07"
abbreviation (input) REG_AX5043_RADIOEVENTMASK0 :: u8 where "REG_AX5043_RADIOEVENTMASK0 \<equiv> 0x09"
abbreviation (input) REG_AX5043_IRQREQUEST0 :: u8 where "REG_AX5043_IRQREQUEST0 \<equiv> 0x0D"
abbreviation (input) REG_AX5043_RADIOEVENTREQ0 :: u8 where "REG_AX5043_RADIOEVENTREQ0 \<equiv> 0x0F"
abbreviation (input) REG_AX5043_MODULATION :: u8 where "REG_AX5043_MODULATION \<equiv> 0x10"
abbreviation (input) REG_AX5043_FRAMING :: u8 where "REG_AX5043_FRAMING \<equiv> 0x12"
abbreviation (input) REG_AX5043_RADIOSTATE :: u8 where "REG_AX5043_RADIOSTATE \<equiv> 0x1C"
abbreviation (input) REG_AX5043_PINFUNCIRQ :: u8 where "REG_AX5043_PINFUNCIRQ \<equiv> 0x24"
abbreviation (input) REG_AX5043_FIFOSTAT :: u8 where "REG_AX5043_FIFOSTAT \<equiv> 0x28"
abbreviation (input) REG_AX5043_FIFODATA :: u8 where "REG_AX5043_FIFODATA \<equiv> 0x29"
abbreviation (input) REG_AX5043_FIFOFREE1 :: u8 where "REG_AX5043_FIFOFREE1 \<equiv> 0x2C"
abbreviation (input) REG_AX5043_FIFOFREE0 :: u8 where "REG_AX5043_FIFOFREE0 \<equiv> 0x2D"
abbreviation (input) REG_AX5043_FIFOTHRESH1 :: u8 where "REG_AX5043_FIFOTHRESH1 \<equiv> 0x2E"
abbreviation (input) REG_AX5043_FIFOTHRESH0 :: u8 where "REG_AX5043_FIFOTHRESH0 \<equiv> 0x2F"
abbreviation (input) REG_AX5043_PLLLOOP :: u8 where "REG_AX5043_PLLLOOP \<equiv> 0x30"
abbreviation (input) REG_AX5043_PLLCPI :: u8 where "REG_AX5043_PLLCPI \<equiv> 0x31"
abbreviation (input) REG_AX5043_PLLRANGINGA :: u8 where "REG_AX5043_PLLRANGINGA \<equiv> 0x33"
abbreviation (input) REG_AX5043_FREQA3 :: u8 where "REG_AX5043_FREQA3 \<equiv> 0x34"
abbreviation (input) REG_AX5043_FREQA2 :: u8 where "REG_AX5043_FREQA2 \<equiv> 0x35"
abbreviation (input) REG_AX5043_FREQA1 :: u8 where "REG_AX5043_FREQA1 \<equiv> 0x36"
abbreviation (input) REG_AX5043_FREQA0 :: u8 where "REG_AX5043_FREQA0 \<equiv> 0x37"
abbreviation (input) REG_AX5043_PLLRANGINGB :: u8 where "REG_AX5043_PLLRANGINGB \<equiv> 0x3B"
abbreviation (input) REG_AX5043_FSKDEV2 :: u16 where "REG_AX5043_FSKDEV2 \<equiv> 0x161"
abbreviation (input) REG_AX5043_FSKDEV1 :: u16 where "REG_AX5043_FSKDEV1 \<equiv> 0x162"
abbreviation (input) REG_AX5043_FSKDEV0 :: u16 where "REG_AX5043_FSKDEV0 \<equiv> 0x163"
abbreviation (input) REG_AX5043_PLLVCOI :: u16 where "REG_AX5043_PLLVCOI \<equiv> 0x180"
abbreviation (input) REG_AX5043_PKTADDRCFG :: u16 where "REG_AX5043_PKTADDRCFG \<equiv> 0x200"
abbreviation (input) REG_AX5043_PKTLENOFFSET :: u16 where "REG_AX5043_PKTLENOFFSET \<equiv> 0x202"
abbreviation (input) REG_AX5043_TMGRXAGC :: u16 where "REG_AX5043_TMGRXAGC \<equiv> 0x227"
abbreviation (input) REG_AX5043_TMGRXPREAMBLE1 :: u16 where "REG_AX5043_TMGRXPREAMBLE1 \<equiv> 0x229"
abbreviation (input) REG_AX5043_RSSIREFERENCE :: u16 where "REG_AX5043_RSSIREFERENCE \<equiv> 0x22C"
abbreviation (input) REG_AX5043_PKTMISCFLAGS :: u16 where "REG_AX5043_PKTMISCFLAGS \<equiv> 0x231"
abbreviation (input) REG_AX5043_PKTSTOREFLAGS :: u16 where "REG_AX5043_PKTSTOREFLAGS \<equiv> 0x232"
abbreviation (input) REG_AX5043_LPOSCCONFIG :: u16 where "REG_AX5043_LPOSCCONFIG \<equiv> 0x310"

abbreviation (input) AX5043_PWRSTATE_POWERDOWN :: u8 where "AX5043_PWRSTATE_POWERDOWN \<equiv> 0x0"
abbreviation (input) AX5043_PWRSTATE_XTAL_ON :: u8 where "AX5043_PWRSTATE_XTAL_ON \<equiv> 0x5"
abbreviation (input) AX5043_PWRSTATE_FIFO_ON :: u8 where "AX5043_PWRSTATE_FIFO_ON \<equiv> 0x7"
abbreviation (input) AX5043_PWRSTATE_FULL_RX :: u8 where "AX5043_PWRSTATE_FULL_RX \<equiv> 0x9"
abbreviation (input) AX5043_PWRSTATE_FULL_TX :: u8 where "AX5043_PWRSTATE_FULL_TX \<equiv> 0xd"

section \<open>Transfers\<close>

definition spi_send :: "u8 list \<Rightarrow> ax5043 \<Rightarrow> ax5043" where
  "spi_send bs d = d\<lparr>wire := wire d @ [Spi_send bs]\<rparr>"

text \<open>The answer to a header that addresses register \<open>a\<close>, \<open>n\<close> bytes long.\<close>

definition spi_recv :: "u8 list \<Rightarrow> u16 \<Rightarrow> nat \<Rightarrow> ax5043 \<Rightarrow> u8 list \<times> ax5043" where
  "spi_recv hdr a n d =
     (map (\<lambda>i. chip d (reads d + i) a) [0..<n],
      d\<lparr>reads := reads d + n, wire := wire d @ [Spi_recv hdr n]\<rparr>)"

definition Ax5043_Spi_Reset :: "ax5043 \<Rightarrow> ax5043" where
  "Ax5043_Spi_Reset d =
     spi_send [REG_AX5043_PWRMODE OR 0x80, 0x00] (spi_send [REG_AX5043_PWRMODE OR 0x80, 0x80] d)"

definition SpiWriteSingleAddressRegister :: "u8 \<Rightarrow> u8 \<Rightarrow> ax5043 \<Rightarrow> ax5043" where
  "SpiWriteSingleAddressRegister Addr Data d = spi_send [Addr OR 0x80, Data] d"

definition long_header :: "u16 \<Rightarrow> u8 list" where
  "long_header ubAddr = [ucast (drop_bit 8 (ubAddr AND 0xFF00)), ucast (ubAddr AND 0x00FF)]"

definition SpiWriteLongAddressRegister :: "u16 \<Rightarrow> u8 \<Rightarrow> ax5043 \<Rightarrow> ax5043" where
  "SpiWriteLongAddressRegister Addr Data d = spi_send (long_header (Addr OR 0xF000) @ [Data]) d"

definition SpiWriteData :: "u8 list \<Rightarrow> ax5043 \<Rightarrow> ax5043" where
  "SpiWriteData bs d = spi_send ((REG_AX5043_FIFODATA OR 0x80) # bs) d"

definition SpiReadSingleAddressRegister :: "u8 \<Rightarrow> ax5043 \<Rightarrow> u8 \<times> ax5043" where
  "SpiReadSingleAddressRegister Addr d =
     (let (bs, d1) = spi_recv [Addr AND 0x7F] (ucast (Addr AND 0x7F)) 1 d in (hd bs, d1))"

definition SpiReadLongAddressRegister :: "u16 \<Rightarrow> ax5043 \<Rightarrow> u8 \<times> ax5043" where
  "SpiReadLongAddressRegister Addr d =
     (let (bs, d1) = spi_recv (long_header (Addr OR 0x7000)) (Addr AND 0x0FFF) 1 d in (hd bs, d1))"

text \<open>Into a buffer of \<open>length buf\<close> bytes; more bytes than that are a write outside it.\<close>

definition SpiReadData :: "u8 list \<Rightarrow> u8 \<Rightarrow> ax5043 \<Rightarrow> u8 list \<times> ax5043" where
  "SpiReadData buf n d =
     (let (bs, d1) = spi_recv [REG_AX5043_FIFODATA AND 0x7F] 0x29 (unat n) d
      in (take (length buf) bs @ drop (length bs) buf,
          if length buf < length bs then d1\<lparr>radio_fault := True\<rparr> else d1))"

section \<open>Frame\<close>

lemma spi_send_simps [simp]:
  "config (spi_send bs d) = config d" "ubRFState (spi_send bs d) = ubRFState d"
  "TXBuff (spi_send bs d) = TXBuff d" "TxLen (spi_send bs d) = TxLen d"
  "RXBuff (spi_send bs d) = RXBuff d" "RxLen (spi_send bs d) = RxLen d"
  "axradio_txbuffer_cnt (spi_send bs d) = axradio_txbuffer_cnt d"
  "chip (spi_send bs d) = chip d" "reads (spi_send bs d) = reads d"
  "wire (spi_send bs d) = wire d @ [Spi_send bs]" "radio_fault (spi_send bs d) = radio_fault d"
  "axradio_phy_chanpllrng (spi_send bs d) = axradio_phy_chanpllrng d"
  "ubRssi (spi_send bs d) = ubRssi d" "RegValue (spi_send bs d) = RegValue d"
  by (simp_all add: spi_send_def)

section \<open>Properties\<close>

text \<open>
  How the chip reads a header on the wire: bit 7 of the first byte is set for a write; the
  three bits below it all set announce a 12-bit address, of which the first byte carries the
  high four bits.
\<close>

definition chip_decode :: "u8 list \<Rightarrow> (bool \<times> u16 \<times> u8 list) option" where
  "chip_decode bs = (case bs of
       [] \<Rightarrow> None
     | b # rest \<Rightarrow>
         if b AND 0x70 = 0x70
         then (case rest of [] \<Rightarrow> None
               | c # data \<Rightarrow> Some (b AND 0x80 \<noteq> 0, push_bit 8 (ucast (b AND 0x0F)) OR ucast c, data))
         else Some (b AND 0x80 \<noteq> 0, ucast (b AND 0x7F), rest))"

lemma bit_below:
  assumes "unat (a :: 'a::len word) < 2 ^ k" and "bit a n"
  shows "n < k"
proof -
  have "unat (take_bit k a) = unat a"
    using assms(1) by (simp add: unsigned_take_bit_eq take_bit_nat_eq_self)
  then have "take_bit k a = a" by (simp add: word_unat_eq_iff)
  with assms(2) show ?thesis by (metis bit_take_bit_iff)
qed

lemma bit_0x80:
  "bit (0x80 :: u8) n \<longleftrightarrow> n = 7" "bit (0x80 :: int) n \<longleftrightarrow> n = 7" "bit (0x80 :: nat) n \<longleftrightarrow> n = 7"
proof -
  have "bit (2 ^ 7 :: u8) n \<longleftrightarrow> n = 7" "bit (2 ^ 7 :: int) n \<longleftrightarrow> n = 7" "bit (2 ^ 7 :: nat) n \<longleftrightarrow> n = 7"
    unfolding bit_exp_iff by auto
  then show "bit (0x80 :: u8) n \<longleftrightarrow> n = 7" "bit (0x80 :: int) n \<longleftrightarrow> n = 7" "bit (0x80 :: nat) n \<longleftrightarrow> n = 7"
    by simp_all
qed

lemma short_header:
  fixes a :: u8
  assumes "a < 0x70"
  shows "(a OR 0x80) AND 0x70 \<noteq> 0x70" "a AND 0x7F = a" "a AND 0x70 \<noteq> 0x70" "a AND 0x80 = 0"
    "(a OR 0x80) AND 0x7F = a" "(a OR 0x80) AND 0x80 = 0x80"
proof -
  have lt: "unat a < 2 ^ 7" using assms by (simp add: word_less_nat_alt)
  have b: "bit a n \<Longrightarrow> n < 7" for n using bit_below [OF lt] .
  show n: "a AND 0x70 \<noteq> 0x70"
    using assms word_and_le2 [of a "0x70"] by (metis leD)
  have "(a OR 0x80) AND 0x70 = a AND 0x70"
    by (rule flag_set_other) simp
  with n show "(a OR 0x80) AND 0x70 \<noteq> 0x70" by simp
  have m: "(0x7F :: u8) = mask 7" by (simp add: mask_eq_exp_minus_1)
  show k: "a AND 0x7F = a"
    unfolding m by (rule bit_word_eqI) (auto simp: bit_simps dest: b)
  show "(a OR 0x80) AND 0x80 = 0x80" by (rule flag_set_bit)
  have "(a OR 0x80) AND 0x7F = a AND 0x7F" by (rule flag_set_other) simp
  with k show "(a OR 0x80) AND 0x7F = a" by simp
  show "a AND 0x80 = 0"
    by (rule bit_word_eqI) (auto simp: bit_simps bit_0x80 dest: b)
qed

lemma long_header_fields:
  fixes b :: u16 and k :: u16
  assumes "b < 0x1000"
  shows "push_bit 8 (ucast ((ucast (drop_bit 8 ((b OR push_bit 12 k) AND 0xFF00)) :: u8) AND 0x0F)) OR
      ucast (ucast ((b OR push_bit 12 k) AND 0x00FF) :: u8) = b"
    and "ucast (drop_bit 8 ((b OR push_bit 12 k) AND 0xFF00)) AND (0x70 :: u8) = ucast (push_bit 4 (take_bit 3 k))"
    and "ucast (drop_bit 8 ((b OR push_bit 12 k) AND 0xFF00)) AND (0x80 :: u8) = ucast (push_bit 4 k) AND 0x80"
proof -
  have lt: "unat b < 2 ^ 12" using assms by (simp add: word_less_nat_alt)
  have b: "bit b n \<Longrightarrow> n < 12" for n using bit_below [OF lt] .
  have m: "(0xFF00 :: u16) = push_bit 8 (mask 8)" "(0x00FF :: u16) = mask 8" "(0x0F :: u8) = mask 4"
    "(0x70 :: u8) = push_bit 4 (mask 3)"
    by (simp_all add: mask_eq_exp_minus_1)
  show "push_bit 8 (ucast ((ucast (drop_bit 8 ((b OR push_bit 12 k) AND 0xFF00)) :: u8) AND 0x0F)) OR
      ucast (ucast ((b OR push_bit 12 k) AND 0x00FF) :: u8) = b"
    unfolding m by (rule bit_word_eqI) (auto simp: bit_simps dest: b)
  show "ucast (drop_bit 8 ((b OR push_bit 12 k) AND 0xFF00)) AND (0x70 :: u8) = ucast (push_bit 4 (take_bit 3 k))"
    unfolding m by (rule bit_word_eqI) (auto simp: bit_simps dest: b)
  show "ucast (drop_bit 8 ((b OR push_bit 12 k) AND 0xFF00)) AND (0x80 :: u8) = ucast (push_bit 4 k) AND 0x80"
    unfolding m by (rule bit_word_eqI) (auto simp: bit_simps bit_0x80 dest: b)
qed

lemma spi_long_decodes:
  assumes "b < 0x1000"
  shows "chip_decode (long_header (b OR 0xF000) @ [v]) = Some (True, b, [v])"
    and "chip_decode (long_header (b OR 0x7000)) = Some (False, b, [])"
proof -
  have k: "(0xF000 :: u16) = push_bit 12 15" "(0x7000 :: u16) = push_bit 12 7" by simp_all
  show "chip_decode (long_header (b OR 0xF000) @ [v]) = Some (True, b, [v])"
    and "chip_decode (long_header (b OR 0x7000)) = Some (False, b, [])"
    using long_header_fields [OF assms, of 15] long_header_fields [OF assms, of 7]
    unfolding k by (simp_all add: chip_decode_def long_header_def)
qed

text \<open>What the register functions put on the wire is read back by the chip as the intended
  access: a write of \<open>v\<close> to a short address below \<open>0x70\<close>, to a long address below \<open>0x1000\<close>,
  or of a block to the FIFO, and a read of a short or long address.\<close>

theorem spi_access_decodes:
  assumes "a < 0x70" and "b < 0x1000"
  shows "chip_decode [a OR 0x80, v] = Some (True, ucast a, [v]) \<and>
    chip_decode (long_header (b OR 0xF000) @ [v]) = Some (True, b, [v]) \<and>
    chip_decode ((REG_AX5043_FIFODATA OR 0x80) # bs) = Some (True, 0x29, bs) \<and>
    chip_decode [a AND 0x7F] = Some (False, ucast a, []) \<and>
    chip_decode (long_header (b OR 0x7000)) = Some (False, b, [])"
  using short_header [OF assms(1)] spi_long_decodes [OF assms(2)]
  by (simp add: chip_decode_def)

theorem spi_access_decodes_witness:
  "chip_decode [REG_AX5043_PWRMODE OR 0x80, 0x09] = Some (True, 0x02, [0x09]) \<and>
   chip_decode (long_header (REG_AX5043_RSSIREFERENCE OR 0xF000) @ [0x3A]) = Some (True, 0x22C, [0x3A])"
  using spi_access_decodes [of 2 "0x22C" "0x09" "[]"] spi_access_decodes [of 2 "0x22C" "0x3A" "[]"]
  by simp

end
