(* ===== verification/Radio_Common.thy ===== *)
theory Radio_Common
  imports Radio_Drv
begin

text \<open>
  The AX5043 driver: \<open>radio/Radio_Common.c\<close>. Every function maps the device structure to the
  device structure; a loop that waits for the chip takes a number of turns and returns
  \<^const>\<open>None\<close> when they are used up. The functions that wait for the interrupt thread to
  change \<open>ubRFState\<close> are split at the wait.
\<close>

section \<open>Register set-up\<close>

definition axradio_get_pllvcoi :: "ax5043 \<Rightarrow> u8 \<times> ax5043" where
  "axradio_get_pllvcoi d =
     (let x = axradio_phy_chanvcoi d; y = axradio_phy_chanvcoiinit (config d);
          ini = axradio_phy_chanpllrnginit (config d)
      in if axradio_phy_vcocalib (config d) \<noteq> 0 \<and> x AND 0x80 \<noteq> 0 then (x, d)
         else if y AND 0x80 \<noteq> 0
         then (if ini AND 0xF0 = 0
               then (((y + ((axradio_phy_chanpllrng d AND 0x0F) - (ini AND 0x0F))) AND 0x3f) OR 0x80, d)
               else (y, d))
         else SpiReadLongAddressRegister REG_AX5043_PLLVCOI d)"

text \<open>The loops over the register tables; a table entry is passed as an \<open>uint8_t\<close>.\<close>

definition write_table :: "(u16 \<times> u16) list \<Rightarrow> ax5043 \<Rightarrow> ax5043" where
  "write_table tab d = fold (\<lambda>(a, v). SpiWriteLongAddressRegister a (ucast v)) tab d"

definition InitAx5043REG :: "ax5043 \<Rightarrow> ax5043" where
  "InitAx5043REG d =
     (let d1 = write_table (take 125 (RegValue d)) d;
          (v, d2) = SpiReadLongAddressRegister REG_AX5043_PKTLENOFFSET d1;
          d3 = SpiWriteLongAddressRegister REG_AX5043_PKTLENOFFSET v d2;
          d4 = SpiWriteSingleAddressRegister REG_AX5043_PINFUNCIRQ 0x03 d3
      in SpiWriteLongAddressRegister REG_AX5043_PKTSTOREFLAGS 0x15 d4)"

datatype axradio_err = AXRADIO_ERR_NOERROR | AXRADIO_ERR_RANGING

definition ax5043_init_registers_common :: "ax5043 \<Rightarrow> axradio_err \<times> ax5043" where
  "ax5043_init_registers_common d =
     (let rng = axradio_phy_chanpllrng d
      in if rng AND 0x20 \<noteq> 0 then (AXRADIO_ERR_RANGING, d)
         else
           let (pll, d1) = SpiReadSingleAddressRegister REG_AX5043_PLLLOOP d;
               d2 = (if pll AND 0x80 \<noteq> 0
                     then SpiWriteSingleAddressRegister REG_AX5043_PLLRANGINGB (rng AND 0x0F) d1
                     else SpiWriteSingleAddressRegister REG_AX5043_PLLRANGINGA (rng AND 0x0F) d1);
               (v, d3) = axradio_get_pllvcoi d2
           in (AXRADIO_ERR_NOERROR,
               if v AND 0x80 \<noteq> 0 then SpiWriteLongAddressRegister REG_AX5043_PLLVCOI v d3 else d3))"

definition Ax5043SetRegisters_TX :: "ax5043 \<Rightarrow> axradio_err \<times> ax5043" where
  "Ax5043SetRegisters_TX d = ax5043_init_registers_common (write_table (take 6 (TXRegValue d)) d)"

definition Ax5043SetRegisters_RX :: "ax5043 \<Rightarrow> axradio_err \<times> ax5043" where
  "Ax5043SetRegisters_RX d = ax5043_init_registers_common (write_table (take 6 (RXRegValue d)) d)"

fun scratch_loop :: "nat \<Rightarrow> ax5043 \<Rightarrow> ax5043 option" where
  "scratch_loop 0 d = None"
| "scratch_loop (Suc n) d =
     (let (v, d1) = SpiReadSingleAddressRegister REG_AX5043_SCRATCH d
      in if v \<noteq> 0x55 then scratch_loop n d1 else Some d1)"

definition irq_pin_pulse :: "ax5043 \<Rightarrow> ax5043" where
  "irq_pin_pulse d =
     SpiWriteSingleAddressRegister REG_AX5043_PINFUNCIRQ 0x03
       (SpiWriteSingleAddressRegister REG_AX5043_PINFUNCIRQ 0x00
         (SpiWriteSingleAddressRegister REG_AX5043_PINFUNCIRQ 0x01 d))"

definition Ax5043_Reset :: "nat \<Rightarrow> ax5043 \<Rightarrow> ax5043 option" where
  "Ax5043_Reset fuel d =
     map_option irq_pin_pulse (scratch_loop fuel
       (SpiWriteSingleAddressRegister REG_AX5043_SCRATCH 0x55
         (SpiWriteSingleAddressRegister REG_AX5043_PWRMODE 0x00 (Ax5043_Spi_Reset d))))"

text \<open>Up to the wait for \<open>ubRFState\<close> to leave \<^const>\<open>trxstate_wait_xtal\<close>.\<close>

definition RadioXtalON :: "ax5043 \<Rightarrow> ax5043" where
  "RadioXtalON d =
     (let (m, d1) = SpiReadSingleAddressRegister REG_AX5043_IRQMASK1
            (d\<lparr>ubRFState := trxstate_wait_xtal\<rparr>)
      in SpiWriteSingleAddressRegister REG_AX5043_PWRMODE AX5043_PWRSTATE_XTAL_ON
           (SpiWriteSingleAddressRegister REG_AX5043_IRQMASK1 (m OR 0x01) d1))"

section \<open>Receiving\<close>

definition Ax5043ReceiverON :: "ax5043 \<Rightarrow> ax5043" where
  "Ax5043ReceiverON d =
     (let d1 = SpiWriteLongAddressRegister REG_AX5043_RSSIREFERENCE
                 (axradio_phy_rssireference (config d)) d;
          d2 = SpiWriteLongAddressRegister REG_AX5043_TMGRXPREAMBLE1 0x00 d1;
          d3 = SpiWriteLongAddressRegister REG_AX5043_PKTSTOREFLAGS 0x50 d2;
          d4 = SpiWriteSingleAddressRegister REG_AX5043_FIFOSTAT 0x03 d3;
          d5 = SpiWriteSingleAddressRegister REG_AX5043_PWRMODE AX5043_PWRSTATE_FULL_RX d4;
          d6 = d5\<lparr>ubRFState := trxstate_rx\<rparr>;
          d7 = SpiWriteSingleAddressRegister REG_AX5043_IRQMASK0 0x01 d6
      in SpiWriteSingleAddressRegister REG_AX5043_IRQMASK1 0x00 d7)"

definition Ax5043Receiver_Continuous :: "ax5043 \<Rightarrow> ax5043" where
  "Ax5043Receiver_Continuous d =
     (let d1 = SpiWriteSingleAddressRegister REG_AX5043_RADIOEVENTMASK0 0x04 d;
          d2 = SpiWriteLongAddressRegister REG_AX5043_RSSIREFERENCE
                 (axradio_phy_rssireference (config d1)) d1;
          d3 = SpiWriteLongAddressRegister REG_AX5043_TMGRXAGC 0 d2;
          d4 = SpiWriteLongAddressRegister REG_AX5043_TMGRXPREAMBLE1 0 d3;
          d5 = SpiWriteLongAddressRegister REG_AX5043_PKTMISCFLAGS 0 d4;
          (f, d6) = SpiReadLongAddressRegister REG_AX5043_PKTSTOREFLAGS d5;
          d7 = SpiWriteLongAddressRegister REG_AX5043_PKTSTOREFLAGS (f AND NOT 0x40) d6;
          d8 = SpiWriteSingleAddressRegister REG_AX5043_IRQMASK0 0x01 d7;
          d9 = SpiWriteSingleAddressRegister REG_AX5043_FIFOSTAT 0x03 d8;
          d10 = SpiWriteSingleAddressRegister REG_AX5043_PWRMODE AX5043_PWRSTATE_FULL_RX d9;
          d11 = d10\<lparr>ubRFState := trxstate_rx\<rparr>
      in SpiWriteSingleAddressRegister REG_AX5043_IRQMASK1 0x00 d11)"

definition read_fifo :: "ax5043 \<Rightarrow> u8 \<times> ax5043" where
  "read_fifo d = SpiReadSingleAddressRegister REG_AX5043_FIFODATA d"

fun dropchunk :: "nat \<Rightarrow> ax5043 \<Rightarrow> ax5043" where
  "dropchunk 0 d = d"
| "dropchunk (Suc n) d = dropchunk n (snd (read_fifo d))"

text \<open>One chunk of the receive FIFO: command \<open>c\<close> with \<open>len\<close> bytes of payload.\<close>

definition rx_chunk :: "u8 \<Rightarrow> u8 \<Rightarrow> ax5043 \<Rightarrow> ax5043" where
  "rx_chunk c len d =
     (if c = 0x01 then
        (if len = 0 then d
         else
           let d1 = snd (read_fifo d);
               (buf, d2) = SpiReadData (RXBuff d1) (len - 1) d1;
               (m, d3) = SpiReadSingleAddressRegister REG_AX5043_IRQMASK0
                           (d2\<lparr>RXBuff := buf, RxLen := len - 1\<rparr>)
           in SpiWriteSingleAddressRegister REG_AX5043_IRQMASK0 (m AND NOT 0x01) d3)
      else if c = 0x13 then dropchunk (unat len) d
      else if c = 0x11 then
        (if len \<noteq> 1 then dropchunk (unat len) d
         else let (r, d1) = read_fifo d
              in d1\<lparr>ubRssi := sint r - sint (axradio_phy_rssioffset (config d1))\<rparr>)
      else if c = 0x10 then dropchunk (unat len) d
      else if c = 0x15 then
        (if len = 0 then d else dropchunk (unat (len - 1)) (snd (read_fifo d)))
      else dropchunk (unat len) d)"

text \<open>The loop while the FIFO is not empty.\<close>

fun receive_loop :: "nat \<Rightarrow> ax5043 \<Rightarrow> ax5043 option" where
  "receive_loop 0 d = None"
| "receive_loop (Suc n) d =
     (let (q, d1) = SpiReadSingleAddressRegister REG_AX5043_IRQREQUEST0 d
      in if q AND 0x01 = 0 then Some d1
         else
           let (h, d2) = read_fifo d1;
               len = drop_bit 5 (h AND 0xE0);
               (len', d3) = (if len = 0x07 then read_fifo d2 else (len, d2))
           in receive_loop n (rx_chunk (h AND 0x1F) len' d3))"

definition ReceiveData :: "nat \<Rightarrow> ax5043 \<Rightarrow> ax5043 option" where
  "ReceiveData fuel d =
     receive_loop fuel (snd (SpiReadSingleAddressRegister REG_AX5043_RADIOEVENTREQ0
       (d\<lparr>ubRssi := 0, RxLen := 0, RXBuff := replicate 64 0\<rparr>)))"

definition Ax5043_OFF :: "ax5043 \<Rightarrow> ax5043" where
  "Ax5043_OFF d =
     (let d1 = SpiWriteSingleAddressRegister REG_AX5043_IRQMASK0 0x00 d;
          d2 = SpiWriteSingleAddressRegister REG_AX5043_IRQMASK1 0x00 d1;
          d3 = SpiWriteSingleAddressRegister REG_AX5043_PWRMODE AX5043_PWRSTATE_XTAL_ON d2;
          d4 = SpiWriteLongAddressRegister REG_AX5043_LPOSCCONFIG 0x00 d3
      in SpiWriteSingleAddressRegister REG_AX5043_PWRMODE AX5043_PWRSTATE_POWERDOWN
           (d4\<lparr>ubRFState := trxstate_off\<rparr>))"

section \<open>Transmitting\<close>

definition write_fifo :: "u8 list \<Rightarrow> ax5043 \<Rightarrow> ax5043" where
  "write_fifo bs d = fold (SpiWriteSingleAddressRegister REG_AX5043_FIFODATA) bs d"

text \<open>
  A byte of the preamble with \<open>n\<close> valid bits and the stop bit behind or in front of them,
  after the bit order in \<open>PKTADDRCFG\<close>.
\<close>

definition stop_bit :: "u8 \<Rightarrow> u8 \<Rightarrow> ax5043 \<Rightarrow> u8 \<times> ax5043" where
  "stop_bit n byte d =
     (let (c, d1) = SpiReadLongAddressRegister REG_AX5043_PKTADDRCFG d
      in (if c AND 0x80 \<noteq> 0
          then (byte AND push_bit (8 - unat n) 0xFF) OR drop_bit (unat n) 0x80
          else (byte AND drop_bit (8 - unat n) 0xFF) OR push_bit (unat n) 0x01, d1))"

text \<open>
  How a turn of the loop ends: with the next turn, at the labels \<open>fifocommit\<close> and
  \<open>pktend\<close>, or by returning.
\<close>

datatype tx_exit = Next | Fifocommit | Pktend | Return

definition tx_appendbits :: "ax5043 \<Rightarrow> ax5043" where
  "tx_appendbits d =
     (let n = axradio_phy_preamble_appendbits (config d)
      in if n = 0 then d
         else
           let (byte, d1) = stop_bit n (axradio_phy_preamble_appendpattern (config d))
                              (write_fifo [0x41, 0x1C] d)
           in write_fifo [byte] d1)"

definition tx_sync :: "ax5043 \<Rightarrow> ax5043" where
  "tx_sync d =
     (let n = axradio_framing_synclen (config d);
          i = (if n AND 0x07 \<noteq> 0 then 0x04 else 0);
          len = drop_bit 3 (n + 7)
      in (write_fifo ([0x01 OR push_bit 5 (len + 1), axradio_framing_syncflags (config d) OR i] @
            take (unat len) (axradio_framing_syncword (config d))) d)
          \<lparr>ubRFState := trxstate_tx_packet\<rparr>)"

definition tx_short_tail :: "u8 \<Rightarrow> ax5043 \<Rightarrow> tx_exit \<times> ax5043" where
  "tx_short_tail free d =
     (if free < 4 then (Fifocommit, d)
      else
        let cnt = axradio_txbuffer_cnt d;
            n = (if cnt < 255 * 8 then ucast (drop_bit 3 cnt) else 255 :: u8)
        in if n \<noteq> 0
           then (Next, write_fifo [0x62, axradio_phy_preamble_flags (config d), n,
                          axradio_phy_preamble_byte (config d)]
                        (d\<lparr>axradio_txbuffer_cnt := cnt - push_bit 3 (ucast n)\<rparr>))
           else
             let (byte, d1) = stop_bit (ucast cnt) (axradio_phy_preamble_byte (config d))
                                (write_fifo [0x41, 0x1C] (d\<lparr>axradio_txbuffer_cnt := 0\<rparr>))
             in (Next, write_fifo [byte] d1))"

definition tx_shortpreamble :: "u8 \<Rightarrow> ax5043 \<Rightarrow> tx_exit \<times> ax5043" where
  "tx_shortpreamble free d =
     (if axradio_txbuffer_cnt d = 0
      then
        if free < 15 then (Fifocommit, d)
        else
          let (f, d2) = SpiReadSingleAddressRegister REG_AX5043_FRAMING (tx_appendbits d)
          in if f AND 0x0E = 0x06 \<and> axradio_framing_synclen (config d2) \<noteq> 0
             then (Next, tx_sync d2)
             else tx_short_tail free d2
      else tx_short_tail free d)"

definition tx_longpreamble :: "u8 \<Rightarrow> ax5043 \<Rightarrow> tx_exit \<times> ax5043" where
  "tx_longpreamble free d =
     (if axradio_txbuffer_cnt d = 0
      then tx_shortpreamble free (d\<lparr>ubRFState := trxstate_tx_shortpreamble,
             axradio_txbuffer_cnt := ucast (axradio_phy_preamble_len (config d))\<rparr>)
      else if free < 4 then (Fifocommit, d)
      else
        let n = (if axradio_txbuffer_cnt d < 7 then ucast (axradio_txbuffer_cnt d) else 7 :: u8)
        in (Next, write_fifo [0x62, 0x38, push_bit 5 n, 0x55]
              (d\<lparr>axradio_txbuffer_cnt := axradio_txbuffer_cnt d - ucast n\<rparr>)))"

definition tx_packet :: "ax5043 \<Rightarrow> tx_exit \<times> ax5043" where
  "tx_packet d =
     (if TxLen d < 11 then (Fifocommit, d)
      else (Pktend, SpiWriteData (take (unat (TxLen d)) (TXBuff d))
              (write_fifo [0xE1, 1 + TxLen d, 3] d)))"

definition tx_turn :: "ax5043 \<Rightarrow> tx_exit \<times> ax5043" where
  "tx_turn d =
     (let (f0, d1) = SpiReadSingleAddressRegister REG_AX5043_FIFOFREE0 d;
          (f1, d2) = SpiReadSingleAddressRegister REG_AX5043_FIFOFREE1 d1;
          free = (if f1 \<noteq> 0 then 0xff else f0)
      in (case ubRFState d2 of
           trxstate_tx_longpreamble \<Rightarrow> tx_longpreamble free d2
         | trxstate_tx_shortpreamble \<Rightarrow> tx_shortpreamble free d2
         | trxstate_tx_packet \<Rightarrow> tx_packet d2
         | _ \<Rightarrow> (Return, d2)))"

definition tx_pktend :: "ax5043 \<Rightarrow> ax5043" where
  "tx_pktend d =
     SpiWriteSingleAddressRegister REG_AX5043_IRQMASK0 0x40
       (SpiWriteSingleAddressRegister REG_AX5043_RADIOEVENTMASK0 0x01
         ((SpiWriteSingleAddressRegister REG_AX5043_FIFOSTAT 4 d)\<lparr>ubRFState := trxstate_tx_waitdone\<rparr>))"

text \<open>\<open>fifocommit\<close> falls through to \<open>pktend\<close>.\<close>

fun TransmitData :: "nat \<Rightarrow> ax5043 \<Rightarrow> ax5043 option" where
  "TransmitData 0 d = None"
| "TransmitData (Suc n) d =
     (case tx_turn d of
       (Next, d1) \<Rightarrow> TransmitData n d1
     | (Fifocommit, d1) \<Rightarrow> Some (tx_pktend (SpiWriteSingleAddressRegister REG_AX5043_FIFOSTAT 4 d1))
     | (Pktend, d1) \<Rightarrow> Some (tx_pktend d1)
     | (Return, d1) \<Rightarrow> Some d1)"

text \<open>\<open>memcpy\<close> into \<open>TXBuff + 1\<close>; more than fits is a write outside the buffer.\<close>

definition fill_txbuff :: "u8 \<Rightarrow> u8 list \<Rightarrow> ax5043 \<Rightarrow> ax5043" where
  "fill_txbuff len bs d =
     d\<lparr>TXBuff := take (length (TXBuff d)) ((len # bs) @ drop (Suc (length bs)) (TXBuff d)),
       radio_fault := radio_fault d \<or> length (TXBuff d) < Suc (length bs)\<rparr>"

definition transmit_packet_task :: "u8 list \<Rightarrow> u8 \<Rightarrow> ax5043 \<Rightarrow> ax5043" where
  "transmit_packet_task Buf Length d =
     (let d1 = SpiWriteSingleAddressRegister REG_AX5043_PWRMODE AX5043_PWRSTATE_XTAL_ON d;
          d2 = SpiWriteSingleAddressRegister REG_AX5043_PWRMODE AX5043_PWRSTATE_FIFO_ON d1;
          d3 = snd (Ax5043SetRegisters_TX d2);
          d4 = fill_txbuff (Length + 1) (take (unat Length) Buf) (d3\<lparr>TxLen := Length + 1\<rparr>);
          d5 = SpiWriteSingleAddressRegister REG_AX5043_FIFOTHRESH1 0x00 d4;
          d6 = SpiWriteSingleAddressRegister REG_AX5043_FIFOTHRESH0 0x80 d5;
          d7 = d6\<lparr>ubRFState := trxstate_tx_xtalwait\<rparr>;
          d8 = SpiWriteSingleAddressRegister REG_AX5043_IRQMASK0 0x00 d7;
          d9 = SpiWriteSingleAddressRegister REG_AX5043_IRQMASK1 0x01 d8
      in snd (SpiReadSingleAddressRegister REG_AX5043_POWSTICKYSTAT d9))"

definition Normal_send :: "u8 list \<Rightarrow> u8 \<Rightarrow> ax5043 \<Rightarrow> ax5043" where
  "Normal_send Buf Length d = transmit_packet_task Buf Length (d\<lparr>axradio_txbuffer_cnt := 0\<rparr>)"

section \<open>Output power\<close>

definition ChangeMaxPower :: "ax5043 \<Rightarrow> ax5043" where
  "ChangeMaxPower d =
     (if axradio_power_now d = 0
      then SpiWriteLongAddressRegister 0x16B 0x00 (SpiWriteLongAddressRegister 0x16A 0x0C
             (d\<lparr>axradio_power_now := 1\<rparr>))
      else d)"

definition BackNormalPower :: "ax5043 \<Rightarrow> ax5043" where
  "BackNormalPower d =
     (if axradio_power_now d \<noteq> 0
      then SpiWriteLongAddressRegister 0x16B 0x00 (SpiWriteLongAddressRegister 0x16A 0x07
             (d\<lparr>axradio_power_now := 0\<rparr>))
      else d)"

section \<open>Calibration of the oscillator\<close>

text \<open>One conversion of the ADC: start it and wait until it is no longer busy.\<close>

fun adc_wait :: "nat \<Rightarrow> ax5043 \<Rightarrow> ax5043 option" where
  "adc_wait 0 d = None"
| "adc_wait (Suc n) d =
     (let (v, d1) = SpiReadLongAddressRegister 0x300 d
      in if v AND 0x80 \<noteq> 0 then adc_wait n d1 else Some d1)"

definition adc_convert :: "nat \<Rightarrow> ax5043 \<Rightarrow> ax5043 option" where
  "adc_convert fuel d = adc_wait fuel (SpiWriteLongAddressRegister 0x300 0x84 d)"

fun adc_settle :: "nat \<Rightarrow> nat \<Rightarrow> ax5043 \<Rightarrow> ax5043 option" where
  "adc_settle fuel 0 d = Some d"
| "adc_settle fuel (Suc n) d =
     (case adc_convert fuel d of None \<Rightarrow> None | Some d1 \<Rightarrow> adc_settle fuel n d1)"

fun adc_sum :: "nat \<Rightarrow> nat \<Rightarrow> u16 \<Rightarrow> ax5043 \<Rightarrow> (u16 \<times> ax5043) option" where
  "adc_sum fuel 0 r d = Some (r, d)"
| "adc_sum fuel (Suc n) r d =
     (case adc_convert fuel d of
       None \<Rightarrow> None
     | Some d1 \<Rightarrow>
         let (h, d2) = SpiReadLongAddressRegister 0x308 d1;
             (l, d3) = SpiReadLongAddressRegister 0x309 d2
         in adc_sum fuel n (r + (push_bit 8 (ucast (h AND 0x03)) OR ucast l)) d3)"

definition axradio_tunevoltage :: "nat \<Rightarrow> ax5043 \<Rightarrow> (u16 \<times> ax5043) option" where
  "axradio_tunevoltage fuel d =
     (case adc_settle fuel 64 d of None \<Rightarrow> None | Some d1 \<Rightarrow> adc_sum fuel 32 0 d1)"

text \<open>Try the setting \<open>v\<close> if it is in range; keep it if its voltage is below the best so far.\<close>

definition try_vcoi :: "nat \<Rightarrow> u8 \<Rightarrow> u16 \<times> u8 \<times> ax5043 \<Rightarrow> (u16 \<times> u8 \<times> ax5043) option" where
  "try_vcoi fuel v = (\<lambda>(bestval, bestrng, d).
     if v AND 0xC0 \<noteq> 0 then Some (bestval, bestrng, d)
     else (case axradio_tunevoltage fuel (SpiWriteLongAddressRegister REG_AX5043_PLLVCOI (0x80 OR v) d) of
         None \<Rightarrow> None
       | Some (val, d1) \<Rightarrow> Some (if val < bestval then (val, v, d1) else (bestval, bestrng, d1))))"

fun adjust_loop :: "nat \<Rightarrow> u8 \<Rightarrow> nat list \<Rightarrow> u16 \<times> u8 \<times> ax5043 \<Rightarrow> (u16 \<times> u8 \<times> ax5043) option" where
  "adjust_loop fuel rng [] b = Some b"
| "adjust_loop fuel rng (k # ks) b =
     (case try_vcoi fuel (rng + word_of_nat k) b of
       None \<Rightarrow> None
     | Some b1 \<Rightarrow>
         (case (if k = 0 then Some b1 else try_vcoi fuel (rng - word_of_nat k) b1) of
           None \<Rightarrow> None
         | Some b2 \<Rightarrow> adjust_loop fuel rng ks b2))"

definition axradio_adjustvcoi :: "nat \<Rightarrow> u8 \<Rightarrow> ax5043 \<Rightarrow> (u8 \<times> ax5043) option" where
  "axradio_adjustvcoi fuel rng0 d =
     (let rng = rng0 AND 0x7F
      in case adjust_loop fuel rng [0..<16] (0xFFFF, rng, d) of
           None \<Rightarrow> None
         | Some (bestval, bestrng, d1) \<Rightarrow>
             Some (if bestval \<le> 0x0010 then rng OR 0x80 else bestrng OR 0x80, d1))"

text \<open>The sweep from 63 down to 0: result, smallest and largest voltage.\<close>

fun cal_loop :: "nat \<Rightarrow> nat list \<Rightarrow> u8 \<times> u16 \<times> u16 \<times> ax5043 \<Rightarrow> (u8 \<times> u16 \<times> u16 \<times> ax5043) option" where
  "cal_loop fuel [] c = Some c"
| "cal_loop fuel (i # is) (r, vmin, vmax, d) =
     (let d1 = snd (SpiReadSingleAddressRegister REG_AX5043_PLLRANGINGA
                 (SpiWriteLongAddressRegister REG_AX5043_PLLVCOI (0x80 OR word_of_nat i) d))
      in case axradio_tunevoltage fuel d1 of
           None \<Rightarrow> None
         | Some (cur, d2) \<Rightarrow>
             let d3 = snd (SpiReadSingleAddressRegister REG_AX5043_PLLRANGINGA d2);
                 vmax' = (if vmax < cur then cur else vmax)
             in if cur < vmin
                then
                  let (l, d4) = SpiReadSingleAddressRegister REG_AX5043_PLLRANGINGA d3
                  in cal_loop fuel is
                       (if 0xC0 AND NOT l = 0 then word_of_nat i OR 0x80 else r, cur, vmax', d4)
                else cal_loop fuel is (r, vmin, vmax', d3))"

definition axradio_calvcoi :: "nat \<Rightarrow> ax5043 \<Rightarrow> (u8 \<times> ax5043) option" where
  "axradio_calvcoi fuel d =
     (case cal_loop fuel (rev [0..<0x40]) (0, 0xffff, 0, d) of
       None \<Rightarrow> None
     | Some (r, vmin, vmax, d1) \<Rightarrow>
         Some (if r AND 0x80 = 0 \<or> 0xFF00 \<le> vmax \<or> vmin < 0x0100 \<or>
                  int (unat vmax) - int (unat vmin) < 0x4000
               then 0 else r, d1))"

section \<open>Start-up\<close>

definition write_freq :: "ax5043 \<Rightarrow> ax5043" where
  "write_freq d =
     (let f = axradio_phy_chanfreq (config d);
          d1 = SpiWriteSingleAddressRegister REG_AX5043_FREQA0 (ucast f) d;
          d2 = SpiWriteSingleAddressRegister REG_AX5043_FREQA1 (ucast (drop_bit 8 f)) d1;
          d3 = SpiWriteSingleAddressRegister REG_AX5043_FREQA2 (ucast (drop_bit 16 f)) d2
      in SpiWriteSingleAddressRegister REG_AX5043_FREQA3 (ucast (drop_bit 24 f)) d3)"

definition zero_fskdev :: "ax5043 \<Rightarrow> ax5043" where
  "zero_fskdev d =
     SpiWriteLongAddressRegister REG_AX5043_FSKDEV0 0x00
       (SpiWriteLongAddressRegister REG_AX5043_FSKDEV1 0x00
         (SpiWriteLongAddressRegister REG_AX5043_FSKDEV2 0x00
           (SpiWriteSingleAddressRegister REG_AX5043_MODULATION 0x08 d)))"

text \<open>\<open>rf_startup\<close> up to the wait for the crystal inside \<open>RadioXtalON\<close>.\<close>

definition rf_startup_xtal :: "nat \<Rightarrow> ax5043 \<Rightarrow> ax5043 option" where
  "rf_startup_xtal fuel d =
     (case Ax5043_Reset fuel (Ax5043_OFF d) of
       None \<Rightarrow> None
     | Some d1 \<Rightarrow>
         let d2 = snd (Ax5043SetRegisters_TX (InitAx5043REG d1));
             d3 = SpiWriteSingleAddressRegister REG_AX5043_PLLLOOP 0x09 d2;
             d4 = SpiWriteSingleAddressRegister REG_AX5043_PLLCPI 0x08 d3;
             d5 = SpiWriteSingleAddressRegister REG_AX5043_PWRMODE AX5043_PWRSTATE_XTAL_ON d4
         in Some (RadioXtalON (zero_fskdev d5)))"

text \<open>From there to the wait for the end of the ranging; there is one channel, so \<open>i\<close> is 0.\<close>

definition rf_startup_ranging :: "ax5043 \<Rightarrow> ax5043" where
  "rf_startup_ranging d =
     (let d1 = (write_freq d)\<lparr>ubRFState := trxstate_pll_ranging\<rparr>;
          d2 = SpiWriteSingleAddressRegister REG_AX5043_IRQMASK1 0x10 d1;
          ini = axradio_phy_chanpllrnginit (config d2);
          r = (if ini AND 0xF0 = 0 then ini OR 0x10 else 0x18)
      in SpiWriteSingleAddressRegister REG_AX5043_PLLRANGINGA r d2)"

text \<open>The VCO calibration; the inner loop runs twice on the only channel.\<close>

definition vcoi_once :: "nat \<Rightarrow> ax5043 \<Rightarrow> ax5043 option" where
  "vcoi_once fuel d =
     (let ini = axradio_phy_chanvcoiinit (config d);
          rini = axradio_phy_chanpllrnginit (config d);
          x = (if rini AND 0xF0 = 0
               then ini + ((axradio_phy_chanpllrng d AND 0x0F) - (rini AND 0x0F)) else ini)
      in case (if ini \<noteq> 0 then axradio_adjustvcoi fuel x d else axradio_calvcoi fuel d) of
           None \<Rightarrow> None
         | Some (v, d1) \<Rightarrow> Some (d1\<lparr>axradio_phy_chanvcoi := v\<rparr>))"

definition rf_vcocalib :: "nat \<Rightarrow> ax5043 \<Rightarrow> ax5043 option" where
  "rf_vcocalib fuel d =
     (let d1 = zero_fskdev (snd (Ax5043SetRegisters_TX d));
          (pll, d2) = SpiReadSingleAddressRegister REG_AX5043_PLLLOOP d1;
          d3 = SpiWriteSingleAddressRegister REG_AX5043_PLLLOOP (pll OR 0x04) d2;
          (x, d4) = SpiReadLongAddressRegister 0xF35 d3;
          x1 = x OR 0x80;
          d5 = SpiWriteLongAddressRegister 0xF35 (if 2 AND NOT x1 \<noteq> 0 then x1 + 1 else x1) d4;
          d6 = SpiWriteSingleAddressRegister REG_AX5043_PWRMODE 0xc d5;
          (vcoisave, d7) = SpiReadLongAddressRegister REG_AX5043_PLLVCOI d6;
          d8 = d7\<lparr>axradio_phy_chanvcoi := 0\<rparr>
      in if axradio_phy_chanpllrng d8 AND 0x20 \<noteq> 0
         then Some (SpiWriteLongAddressRegister REG_AX5043_PLLVCOI vcoisave d8)
         else
           (case vcoi_once fuel (write_freq (SpiWriteSingleAddressRegister REG_AX5043_PLLRANGINGA
                   (axradio_phy_chanpllrng d8 AND 0x0F) d8)) of
             None \<Rightarrow> None
           | Some d9 \<Rightarrow>
               map_option (SpiWriteLongAddressRegister REG_AX5043_PLLVCOI vcoisave)
                 (vcoi_once fuel d9)))"

text \<open>From the end of the ranging to the return.\<close>

definition rf_startup_finish :: "nat \<Rightarrow> ax5043 \<Rightarrow> (axradio_err \<times> ax5043) option" where
  "rf_startup_finish fuel d =
     (let d1 = SpiWriteSingleAddressRegister REG_AX5043_IRQMASK1 0x00 (d\<lparr>ubRFState := trxstate_off\<rparr>);
          (r, d2) = SpiReadSingleAddressRegister REG_AX5043_PLLRANGINGA d1;
          d3 = d2\<lparr>axradio_phy_chanpllrng := r\<rparr>
      in case (if axradio_phy_vcocalib (config d3) \<noteq> 0 then rf_vcocalib fuel d3 else Some d3) of
           None \<Rightarrow> None
         | Some d4 \<Rightarrow>
             let d5 = SpiWriteSingleAddressRegister REG_AX5043_PWRMODE AX5043_PWRSTATE_POWERDOWN d4;
                 d6 = snd (Ax5043SetRegisters_RX (InitAx5043REG d5));
                 d7 = SpiWriteSingleAddressRegister REG_AX5043_PLLRANGINGA
                        (axradio_phy_chanpllrng d6 AND 0x0F) d6;
                 d8 = (write_freq d7)\<lparr>ubRFState := trxstate_rx\<rparr>
             in Some (if axradio_phy_chanpllrng d8 AND 0x20 \<noteq> 0
                      then AXRADIO_ERR_RANGING else AXRADIO_ERR_NOERROR, d8))"

definition rf_restart :: "ax5043 \<Rightarrow> axradio_err \<times> ax5043" where
  "rf_restart d =
     (let d1 = Ax5043_Spi_Reset (Ax5043_OFF d);
          d2 = irq_pin_pulse (SpiWriteSingleAddressRegister REG_AX5043_PWRMODE 0x00 d1);
          d3 = SpiWriteSingleAddressRegister REG_AX5043_PLLRANGINGA
                 (axradio_phy_chanpllrng (InitAx5043REG d2) AND 0x0F) (InitAx5043REG d2)
      in (AXRADIO_ERR_NOERROR, (write_freq d3)\<lparr>ubRFState := trxstate_rx\<rparr>))"

section \<open>Facts\<close>

lemma read_single:
  "SpiReadSingleAddressRegister a d =
     (chip d (reads d) (ucast (a AND 0x7F)),
      d\<lparr>reads := Suc (reads d), wire := wire d @ [Spi_recv [a AND 0x7F] 1]\<rparr>)"
  by (simp add: SpiReadSingleAddressRegister_def spi_recv_def)

lemma read_long:
  "SpiReadLongAddressRegister a d =
     (chip d (reads d) (a AND 0x0FFF),
      d\<lparr>reads := Suc (reads d), wire := wire d @ [Spi_recv (long_header (a OR 0x7000)) 1]\<rparr>)"
  by (simp add: SpiReadLongAddressRegister_def spi_recv_def)

lemmas reg_io = read_single read_long SpiWriteSingleAddressRegister_def
  SpiWriteLongAddressRegister_def SpiWriteData_def

lemma write_fifo_eq:
  "write_fifo bs d = d\<lparr>wire := wire d @ map (\<lambda>b. Spi_send [0x29 OR 0x80, b]) bs\<rparr>"
  unfolding write_fifo_def
  by (induction bs arbitrary: d) (simp_all add: SpiWriteSingleAddressRegister_def spi_send_def)

text \<open>Everything written into the transmit FIFO, in order.\<close>

fun fifo_of :: "spi \<Rightarrow> u8 list" where
  "fifo_of (Spi_send (h # bs)) = (if h = 0x29 OR 0x80 then bs else [])"
| "fifo_of _ = []"

definition fifo_bytes :: "spi list \<Rightarrow> u8 list" where
  "fifo_bytes w = concat (map fifo_of w)"

lemma fifo_bytes_simps [simp]:
  "fifo_bytes [] = []" "fifo_bytes (u @ w) = fifo_bytes u @ fifo_bytes w"
  "fifo_bytes (x # w) = fifo_of x @ fifo_bytes w"
  by (simp_all add: fifo_bytes_def)

lemma fifo_bytes_write: "fifo_bytes (map (\<lambda>b. Spi_send [0x29 OR 0x80, b]) bs) = bs"
  by (induction bs) simp_all

text \<open>The value last written to a register.\<close>

fun write_of :: "u16 \<Rightarrow> spi \<Rightarrow> u8 option \<Rightarrow> u8 option" where
  "write_of a (Spi_send bs) v =
     (case chip_decode bs of Some (True, b, x # _) \<Rightarrow> if b = a then Some x else v | _ \<Rightarrow> v)"
| "write_of a (Spi_recv bs n) v = v"

definition last_write :: "u16 \<Rightarrow> spi list \<Rightarrow> u8 option" where
  "last_write a w = fold (write_of a) w None"

lemma last_write_append [simp]:
  "last_write a (w @ v) = fold (write_of a) v (last_write a w)"
  by (simp add: last_write_def)

section \<open>Properties\<close>

text \<open>The chip accepts a packet: it is set to the framing of the register table and its FIFO
  has room.\<close>

definition chip_ready :: "ax5043 \<Rightarrow> bool" where
  "chip_ready d \<longleftrightarrow> (\<forall>n. chip d n 0x12 AND 0x0E = 0x06 \<and> 15 \<le> chip d n 0x2D)"

text \<open>The configuration of both radios.\<close>

definition std_config :: "ax5043_config \<Rightarrow> bool" where
  "std_config c \<longleftrightarrow> axradio_phy_vcocalib c = 0 \<and> axradio_phy_preamble_len c = 32 \<and>
     axradio_phy_preamble_appendbits c = 0 \<and> axradio_framing_synclen c = 32 \<and>
     length (axradio_framing_syncword c) = 4"

definition packet_head :: "ax5043_config \<Rightarrow> u8 list" where
  "packet_head c = [0x62, axradio_phy_preamble_flags c, 4, axradio_phy_preamble_byte c,
     0xA1, axradio_framing_syncflags c] @ axradio_framing_syncword c"

lemma ff_ge: "15 \<le> (x :: u8) \<Longrightarrow> \<not> (if c then 0xff else x) < 15 \<and> \<not> (if c then 0xff else x) < 4"
  by (auto simp: word_le_nat_alt word_less_nat_alt)

lemma transmit_packet:
  assumes st: "ubRFState d = trxstate_tx_longpreamble" and cnt: "axradio_txbuffer_cnt d = 0"
    and len: "\<not> TxLen d < 11" and rdy: "chip_ready d" and cfg: "std_config (config d)"
  shows "\<exists>e. TransmitData 3 d = Some e \<and> ubRFState e = trxstate_tx_waitdone \<and>
    fifo_bytes (wire e) = fifo_bytes (wire d) @ packet_head (config d) @
      [0xE1, 1 + TxLen d, 3] @ take (unat (TxLen d)) (TXBuff d) \<and>
    chip e = chip d \<and> config e = config d \<and> radio_fault e = radio_fault d"
proof -
  have room: "\<not> (if c then 0xff else chip d n 0x2D) < 15" "\<not> (if c then 0xff else chip d n 0x2D) < 4"
    "\<not> chip d n 0x2D < 15" "\<not> chip d n 0x2D < 4"
    for c n using rdy ff_ge [of "chip d n 0x2D" c] ff_ge [of "chip d n 0x2D" False]
    by (simp_all add: chip_ready_def)
  have fr: "chip d n 0x12 AND 0x0E = 0x06" for n using rdy by (simp add: chip_ready_def)
  note cfg' = cfg [unfolded std_config_def]
  show ?thesis
    unfolding numeral_3_eq_3
    by (simp add: tx_turn_def st cnt read_single tx_longpreamble_def tx_shortpreamble_def
        tx_short_tail_def room fr cfg' write_fifo_eq Let_def tx_appendbits_def tx_sync_def
        tx_packet_def len tx_pktend_def SpiWriteSingleAddressRegister_def SpiWriteData_def
        fifo_bytes_write [simplified] packet_head_def)
qed

text \<open>C35: A FIFO without room abandons the packet: if the chip reports fewer than 4 free bytes
  when the transmission starts, nothing is written into the FIFO, yet the driver goes on to
  wait for the end of the transmission (the label \<open>fifocommit\<close> falls through to
  \<open>pktend\<close>).\<close>

theorem tx_full_fifo_abandons:
  assumes "ubRFState d = trxstate_tx_longpreamble" and "axradio_txbuffer_cnt d = 0"
    and "std_config (config d)" and "chip d (reads d) 0x2D < 4" and "chip d (Suc (reads d)) 0x2C = 0"
  shows "\<exists>e. TransmitData 1 d = Some e \<and> ubRFState e = trxstate_tx_waitdone \<and>
    fifo_bytes (wire e) = fifo_bytes (wire d) \<and> last_write 0x28 (wire e) = Some 4"
  using assms
  by (simp add: tx_turn_def read_single tx_longpreamble_def tx_shortpreamble_def
      tx_short_tail_def std_config_def tx_pktend_def SpiWriteSingleAddressRegister_def chip_decode_def)

text \<open>A chip whose framing register does not read back as set up keeps the driver in its
  transmit loop for ever: no number of turns is enough.\<close>

theorem tx_framing_hang:
  assumes "ubRFState d = trxstate_tx_shortpreamble" and "axradio_txbuffer_cnt d = 0"
    and "axradio_phy_preamble_appendbits (config d) = 0"
    and "\<forall>n. chip d n 0x12 AND 0x0E \<noteq> 0x06" and "\<forall>n. 15 \<le> chip d n 0x2D"
  shows "TransmitData n d = None"
  using assms
proof (induction n arbitrary: d)
  case (Suc n)
  have room: "\<not> (if c then 0xff else chip d n 0x2D) < 15" "\<not> (if c then 0xff else chip d n 0x2D) < 4"
    "\<not> chip d n 0x2D < 15" "\<not> chip d n 0x2D < 4"
    for c n using Suc.prems(5) ff_ge [of "chip d n 0x2D" c] ff_ge [of "chip d n 0x2D" False]
    by simp_all
  obtain e where "tx_turn d = (Next, e)" "ubRFState e = ubRFState d"
    "axradio_txbuffer_cnt e = axradio_txbuffer_cnt d" "config e = config d" "chip e = chip d"
    using Suc.prems room
    by (simp add: tx_turn_def read_single read_long tx_shortpreamble_def tx_appendbits_def Let_def
        tx_short_tail_def write_fifo_eq stop_bit_def split: prod.splits)
  with Suc show ?case by simp
qed simp

definition demo_config :: ax5043_config where
  "demo_config = \<lparr>axradio_phy_vcocalib = 0, axradio_phy_preamble_len = 32,
     axradio_framing_synclen = 32, axradio_phy_preamble_flags = 0x38,
     axradio_phy_preamble_byte = 0x55, axradio_phy_preamble_appendbits = 0,
     axradio_phy_preamble_appendpattern = 0, axradio_phy_chanfreq = 0x10b72373,
     axradio_phy_chanvcoiinit = 0x99, axradio_phy_chanpllrnginit = 0x0a,
     axradio_phy_maxfreqoffset = 1683, axradio_phy_rssioffset = 64,
     axradio_phy_rssireference = 0x3A, axradio_framing_syncflags = 0x38,
     axradio_framing_syncword = [0xcc, 0xaa, 0xcc, 0xaa]\<rparr>"

definition demo_radio :: "(nat \<Rightarrow> u16 \<Rightarrow> u8) \<Rightarrow> ax5043" where
  "demo_radio f = \<lparr>config = demo_config, ubRssi = 0, ubRFState = trxstate_tx_longpreamble,
     TXBuff = replicate 64 0, TxLen = 29, RXBuff = replicate 64 0, RxLen = 0,
     axradio_phy_chanpllrng = 0x0a, axradio_phy_chanvcoi = 0, axradio_power_now = 0,
     RegValue = replicate 126 (0, 0), TXRegValue = replicate 6 (0, 0),
     RXRegValue = replicate 6 (0, 0), axradio_txbuffer_cnt = 0, chip = f, reads = 0, wire = [],
     radio_fault = False\<rparr>"

theorem tx_full_fifo_abandons_witness:
  "\<exists>e. TransmitData 1 (demo_radio (\<lambda>n a. 0)) = Some e \<and> ubRFState e = trxstate_tx_waitdone \<and>
    fifo_bytes (wire e) = []"
  using tx_full_fifo_abandons [of "demo_radio (\<lambda>n a. 0)"]
  by (auto simp: demo_radio_def demo_config_def std_config_def)

theorem tx_framing_hang_witness:
  "TransmitData 1000 ((demo_radio (\<lambda>n a. if a = 0x12 then 0 else 255))
     \<lparr>ubRFState := trxstate_tx_shortpreamble\<rparr>) = None"
  by (rule tx_framing_hang) (simp_all add: demo_radio_def demo_config_def)

text \<open>The receive buffer is overrun by long packets: a data chunk with \<open>n > 0\<close> bytes of
  payload (one flag byte and \<open>n - 1\<close> bytes of data) is copied completely into the 64-byte
  buffer, so it is written past its end exactly when \<open>n - 1 > 64\<close>; otherwise the buffer
  starts with exactly those bytes and the rest of it is untouched.\<close>

theorem rx_data_chunk:
  assumes "0 < n" and "length (RXBuff d) = 64"
  shows "RxLen (rx_chunk 1 n d) = n - 1 \<and>
    radio_fault (rx_chunk 1 n d) = (radio_fault d \<or> 64 < unat (n - 1)) \<and>
    (unat (n - 1) \<le> 64 \<longrightarrow>
      take (unat (n - 1)) (RXBuff (rx_chunk 1 n d)) =
        map (\<lambda>i. chip d (Suc (reads d) + i) 0x29) [0..<unat (n - 1)] \<and>
      drop (unat (n - 1)) (RXBuff (rx_chunk 1 n d)) = drop (unat (n - 1)) (RXBuff d))"
  using assms
  by (auto simp: rx_chunk_def read_fifo_def read_single SpiReadData_def spi_recv_def Let_def
      SpiWriteSingleAddressRegister_def)

theorem rx_data_chunk_witness:
  "radio_fault (rx_chunk 1 200 (demo_radio (\<lambda>n a. 7))) \<and>
   \<not> radio_fault (rx_chunk 1 30 (demo_radio (\<lambda>n a. 7)))"
  using rx_data_chunk [of 200 "demo_radio (\<lambda>n a. 7)"] rx_data_chunk [of 30 "demo_radio (\<lambda>n a. 7)"]
  by (simp add: demo_radio_def)

text \<open>What leaves the radio receiving: after \<open>Ax5043ReceiverON\<close> and after
  \<open>Ax5043Receiver_Continuous\<close> the chip is in full receive mode, the FIFO interrupt is the only
  one enabled and the driver is in the receive state; \<open>rf_restart\<close> returns to that state too.\<close>

theorem receiver_on_off:
  "ubRFState (Ax5043ReceiverON d) = trxstate_rx \<and>
   last_write 0x02 (wire (Ax5043ReceiverON d)) = Some AX5043_PWRSTATE_FULL_RX \<and>
   last_write 0x07 (wire (Ax5043ReceiverON d)) = Some 0x01 \<and>
   last_write 0x06 (wire (Ax5043ReceiverON d)) = Some 0x00 \<and>
   ubRFState (Ax5043Receiver_Continuous d) = trxstate_rx \<and>
   last_write 0x02 (wire (Ax5043Receiver_Continuous d)) = Some AX5043_PWRSTATE_FULL_RX \<and>
   last_write 0x07 (wire (Ax5043Receiver_Continuous d)) = Some 0x01 \<and>
   last_write 0x06 (wire (Ax5043Receiver_Continuous d)) = Some 0x00 \<and>
   ubRFState (snd (rf_restart d)) = trxstate_rx"
  by (simp add: Ax5043ReceiverON_def Ax5043Receiver_Continuous_def Let_def reg_io rf_restart_def
      write_freq_def chip_decode_def long_header_def)

section \<open>The calibration ends\<close>

text \<open>The ADC is never busy when it is polled.\<close>

definition adc_ready :: "ax5043 \<Rightarrow> bool" where
  "adc_ready d \<longleftrightarrow> (\<forall>n. chip d n 0x300 AND 0x80 = 0)"

definition same_chip :: "ax5043 \<Rightarrow> ax5043 \<Rightarrow> bool" where
  "same_chip d e \<longleftrightarrow> chip e = chip d \<and> config e = config d"

lemma same_chip_refl [simp]: "same_chip d d"
  by (simp add: same_chip_def)

lemma same_chip_trans: "same_chip d e \<Longrightarrow> same_chip e f \<Longrightarrow> same_chip d f"
  by (simp add: same_chip_def)

lemma same_chip_ready: "same_chip d e \<Longrightarrow> adc_ready d \<Longrightarrow> adc_ready e"
  by (simp add: same_chip_def adc_ready_def)

lemma adc_convert_ready:
  assumes "adc_ready d" and "0 < fuel"
  shows "\<exists>e. adc_convert fuel d = Some e \<and> same_chip d e"
  using assms
  by (cases fuel)
    (simp_all add: adc_convert_def read_long SpiWriteLongAddressRegister_def adc_ready_def same_chip_def)

lemma adc_settle_ready:
  assumes "adc_ready d" and "0 < fuel"
  shows "\<exists>e. adc_settle fuel n d = Some e \<and> same_chip d e"
  using assms(1)
proof (induction n arbitrary: d)
  case (Suc n)
  obtain e where e: "adc_convert fuel d = Some e" "same_chip d e"
    using adc_convert_ready [OF Suc.prems assms(2)] by blast
  with Suc.IH [of e] same_chip_ready [OF e(2) Suc.prems] show ?case
    by (auto intro: same_chip_trans)
qed simp

lemma adc_sum_ready:
  assumes "adc_ready d" and "0 < fuel"
  shows "\<exists>v e. adc_sum fuel n r d = Some (v, e) \<and> same_chip d e"
  using assms(1)
proof (induction n arbitrary: d r)
  case (Suc n)
  obtain e where e: "adc_convert fuel d = Some e" "same_chip d e"
    using adc_convert_ready [OF Suc.prems assms(2)] by blast
  let ?f = "snd (SpiReadLongAddressRegister 0x309 (snd (SpiReadLongAddressRegister 0x308 e)))"
  have f: "same_chip d ?f" using e(2) by (simp add: read_long same_chip_def)
  from Suc.IH [OF same_chip_ready [OF f Suc.prems]] obtain v g where
    "adc_sum fuel n (r + (push_bit 8 (ucast (fst (SpiReadLongAddressRegister 0x308 e) AND 0x03)) OR
       ucast (fst (SpiReadLongAddressRegister 0x309 (snd (SpiReadLongAddressRegister 0x308 e))))))
     ?f = Some (v, g)" "same_chip ?f g" by blast
  then show ?case using e same_chip_trans [OF f] by (auto simp: Let_def case_prod_unfold)
qed simp

lemma tunevoltage_ready:
  assumes "adc_ready d" and "0 < fuel"
  shows "\<exists>v e. axradio_tunevoltage fuel d = Some (v, e) \<and> same_chip d e"
proof -
  obtain e where e: "adc_settle fuel 64 d = Some e" "same_chip d e"
    using adc_settle_ready [OF assms] by blast
  with adc_sum_ready [OF same_chip_ready [OF e(2) assms(1)] assms(2), of 32 0] show ?thesis
    by (auto simp: axradio_tunevoltage_def intro: same_chip_trans)
qed

lemma try_vcoi_ready:
  assumes "adc_ready d" and "0 < fuel"
  shows "\<exists>w q e. try_vcoi fuel v (b, r, d) = Some (w, q, e) \<and> same_chip d e \<and>
    (q = r \<or> q = v \<and> v AND 0xC0 = 0)"
proof -
  let ?d = "SpiWriteLongAddressRegister REG_AX5043_PLLVCOI (0x80 OR v) d"
  have s: "same_chip d ?d" by (simp add: SpiWriteLongAddressRegister_def same_chip_def)
  with tunevoltage_ready [OF same_chip_ready [OF s assms(1)] assms(2)] show ?thesis
    by (fastforce simp: try_vcoi_def intro: same_chip_trans)
qed

lemma adjust_loop_ready:
  assumes "adc_ready d" and "0 < fuel" and "r = rng \<or> r AND 0xC0 = 0"
  shows "\<exists>w q e. adjust_loop fuel rng ks (b, r, d) = Some (w, q, e) \<and> same_chip d e \<and>
    (q = rng \<or> q AND 0xC0 = 0)"
  using assms(1,3)
proof (induction ks arbitrary: b r d)
  case (Cons k ks)
  obtain w q e where 1: "try_vcoi fuel (rng + word_of_nat k) (b, r, d) = Some (w, q, e)"
    "same_chip d e" "q = rng \<or> q AND 0xC0 = 0"
    using try_vcoi_ready [OF Cons.prems(1) assms(2), of "rng + word_of_nat k" b r] Cons.prems(2)
    by blast
  have re: "adc_ready e" by (rule same_chip_ready [OF 1(2) Cons.prems(1)])
  obtain w' q' e' where 2: "(if k = 0 then Some (w, q, e)
      else try_vcoi fuel (rng - word_of_nat k) (w, q, e)) = Some (w', q', e')"
    "same_chip e e'" "q' = rng \<or> q' AND 0xC0 = 0"
    using try_vcoi_ready [OF re assms(2), of "rng - word_of_nat k" w q] 1(3)
    by (cases "k = 0") auto
  from Cons.IH [OF same_chip_ready [OF 2(2) re] 2(3), of w'] 1 2 show ?case
    by (auto simp: same_chip_def)
qed simp

text \<open>The VCO adjustment ends and stays in range: if the ADC is ready whenever it is polled,
  the search returns, with the valid bit (bit 7) set, and with a setting that is either the
  one it started from or one of the 64 settings of the chip.\<close>

theorem vcoi_adjust_result:
  assumes "\<forall>n. chip d n 0x300 AND 0x80 = 0" and "0 < fuel"
  shows "\<exists>v e. axradio_adjustvcoi fuel rng d = Some (v, e) \<and> v AND 0x80 = 0x80 \<and>
    (v = (rng AND 0x7F) OR 0x80 \<or> v AND 0x40 = 0)"
proof -
  have "adc_ready d" using assms(1) by (simp add: adc_ready_def)
  from adjust_loop_ready [OF this assms(2), of "rng AND 0x7F" "rng AND 0x7F" "[0..<16]" "0xFFFF"]
  obtain w q e where l: "adjust_loop fuel (rng AND 0x7F) [0..<16] (0xFFFF, rng AND 0x7F, d) =
      Some (w, q, e)" and q: "q = rng AND 0x7F \<or> q AND 0xC0 = 0" by blast
  have "(q OR 0x80) AND 0x40 = 0" if "q AND 0xC0 = 0"
  proof -
    have "(q OR 0x80) AND 0x40 = q AND 0x40" by (rule flag_set_other) simp
    also have "q AND 0x40 = (q AND 0xC0) AND 0x40" by (simp add: word_bw_assocs)
    finally show ?thesis using that by simp
  qed
  then show ?thesis
    using q by (auto simp: axradio_adjustvcoi_def l flag_set_bit)
qed

theorem vcoi_adjust_result_witness:
  "\<exists>v e. axradio_adjustvcoi 1 0x99 (demo_radio (\<lambda>n a. 0)) = Some (v, e) \<and> v AND 0x80 = 0x80"
  using vcoi_adjust_result [of "demo_radio (\<lambda>n a. 0)" 1 "0x99"] by (auto simp: demo_radio_def)

end
