(* ===== verification/Radio_Config.thy ===== *)
theory Radio_Config
  imports Radio_Common
begin

text \<open>
  The register tables of the two radios, \<open>radio/Config_433.h\<close> and \<open>radio/Config_4068.h\<close>, and
  the configurations that \<open>rf_433_config_init\<close> and \<open>rf_4068_config_init\<close> fill in. The
  register names are replaced by the addresses \<open>AX5043.h\<close> defines for them.
\<close>

definition set_registers_433 :: "(u16 \<times> u16) list" where
  "set_registers_433 =
    [(0x10, 0x08), (0x11, 0x00), (0x12, 0x26), (0x21, 0x02), (0x22, 0x82), (0x23, 0x02),
     (0x25, 0x01), (0x26, 0x07), (0x06E, 0x01), (0x100, 0x00), (0x101, 0xFC), (0x102, 0x44),
     (0x103, 0x00), (0x104, 0x9F), (0x105, 0x50), (0x106, 0x00), (0x107, 0x00), (0x108, 0x00),
     (0x109, 0x80), (0x10A, 0x02), (0x10B, 0x31), (0x10C, 0x03), (0x10D, 0x66), (0x10E, 0xFC),
     (0x10F, 0x9A), (0x115, 0x00), (0x117, 0xF4), (0x120, 0xE8), (0x121, 0x84), (0x124, 0x9A),
     (0x125, 0x94), (0x126, 0xC3), (0x127, 0x0F), (0x128, 0x1F), (0x129, 0x0B), (0x12A, 0x0B),
     (0x12B, 0x06), (0x12C, 0x00), (0x12D, 0x00), (0x12F, 0x00), (0x130, 0xE8), (0x131, 0x84),
     (0x132, 0x00), (0x133, 0x00), (0x134, 0x98), (0x135, 0x93), (0x136, 0xC3), (0x137, 0x0F),
     (0x138, 0x1F), (0x139, 0x0B), (0x13A, 0x0B), (0x13B, 0x06), (0x13C, 0x00), (0x13D, 0xEF),
     (0x13E, 0x16), (0x13F, 0x00), (0x150, 0xFF), (0x151, 0x84), (0x152, 0x00), (0x153, 0x00),
     (0x154, 0x97), (0x155, 0x92), (0x156, 0xC3), (0x157, 0x0F), (0x158, 0x1F), (0x159, 0x0D),
     (0x15A, 0x0D), (0x15B, 0x06), (0x15C, 0x00), (0x15D, 0xEF), (0x15E, 0x16), (0x15F, 0x00),
     (0x160, 0x00), (0x161, 0x00), (0x162, 0x02), (0x163, 0x04), (0x164, 0x05), (0x165, 0x00),
     (0x166, 0x01), (0x167, 0x83), (0x16A, 0x07), (0x16B, 0x00), (0x180, 0x99), (0x183, 0x04),
     (0x188, 0x0F), (0x189, 0x77), (0x200, 0x01), (0x201, 0x80), (0x202, 0x00), (0x203, 0xC8),
     (0x210, 0xAA), (0x211, 0xCC), (0x212, 0xAA), (0x213, 0xCC), (0x214, 0x1F), (0x216, 0x1F),
     (0x218, 0x55), (0x219, 0x55), (0x21C, 0x8A), (0x21E, 0x0A), (0x220, 0x3E), (0x221, 0x31),
     (0x223, 0x3E), (0x224, 0x31), (0x225, 0x00), (0x226, 0x7F), (0x228, 0x03), (0x22A, 0x35),
     (0x22D, 0xDD), (0x22F, 0x00), (0x230, 0x0D), (0x233, 0x20), (0x330, 0x00), (0x331, 0x00),
     (0x332, 0x00), (0xF0D, 0x03), (0xF10, 0x04), (0xF11, 0x00), (0xF1C, 0x07), (0xF21, 0x68),
     (0xF22, 0xFF), (0xF23, 0x84), (0xF26, 0x98), (0xF34, 0x28), (0xF35, 0x11), (0xF44, 0x25)]"

definition set_registers_tx_433 :: "(u16 \<times> u16) list" where
  "set_registers_tx_433 =
    [(0x30, 0x0B), (0x31, 0x10), (0x32, 0x24), (0x184, 0x00), (0xF00, 0x0F), (0xF18, 0x06)]"

definition set_registers_rx_433 :: "(u16 \<times> u16) list" where
  "set_registers_rx_433 =
    [(0x30, 0x0B), (0x31, 0x10), (0x32, 0x24), (0x184, 0x00), (0xF00, 0x0F), (0xF18, 0x02)]"

definition set_registers_4068 :: "(u16 \<times> u16) list" where
  "set_registers_4068 =
    [(0x10, 0x08), (0x11, 0x00), (0x12, 0x26), (0x21, 0x02), (0x22, 0x02), (0x23, 0x02),
     (0x25, 0x01), (0x26, 0x07), (0x06E, 0x01), (0x100, 0x01), (0x101, 0xF8), (0x102, 0x12),
     (0x103, 0x02), (0x104, 0x59), (0x105, 0xDA), (0x106, 0x00), (0x107, 0x00), (0x108, 0x00),
     (0x109, 0x80), (0x10A, 0x00), (0x10B, 0x34), (0x10C, 0x0F), (0x10D, 0x80), (0x10E, 0xF0),
     (0x10F, 0x80), (0x115, 0x00), (0x117, 0xF4), (0x120, 0xE8), (0x121, 0x84), (0x124, 0x9C),
     (0x125, 0x96), (0x126, 0xC3), (0x127, 0x0F), (0x128, 0x1F), (0x129, 0x0B), (0x12A, 0x0B),
     (0x12B, 0x06), (0x12C, 0x00), (0x12D, 0x00), (0x12F, 0x00), (0x130, 0xE8), (0x131, 0x84),
     (0x132, 0x00), (0x133, 0x00), (0x134, 0x9A), (0x135, 0x95), (0x136, 0xC3), (0x137, 0x0F),
     (0x138, 0x1F), (0x139, 0x0B), (0x13A, 0x0B), (0x13B, 0x06), (0x13C, 0x04), (0x13D, 0xF5),
     (0x13E, 0x16), (0x13F, 0x00), (0x150, 0xFF), (0x151, 0x84), (0x152, 0x00), (0x153, 0x00),
     (0x154, 0x99), (0x155, 0x94), (0x156, 0xC3), (0x157, 0x0F), (0x158, 0x1F), (0x159, 0x0D),
     (0x15A, 0x0D), (0x15B, 0x06), (0x15C, 0x04), (0x15D, 0xF5), (0x15E, 0x16), (0x15F, 0x00),
     (0x160, 0x00), (0x161, 0x00), (0x162, 0x0A), (0x163, 0xB6), (0x164, 0x05), (0x165, 0x00),
     (0x166, 0x01), (0x167, 0x83), (0x16A, 0x07), (0x16B, 0x00), (0x180, 0x85), (0x183, 0x04),
     (0x188, 0x0F), (0x189, 0x77), (0x200, 0x01), (0x201, 0x80), (0x202, 0x00), (0x203, 0xC8),
     (0x210, 0xAA), (0x211, 0xCC), (0x212, 0xAA), (0x213, 0xCC), (0x214, 0x1F), (0x216, 0x1F),
     (0x218, 0x55), (0x219, 0x55), (0x21C, 0x8A), (0x21E, 0x0A), (0x220, 0x3E), (0x221, 0x31),
     (0x223, 0x3E), (0x224, 0x31), (0x225, 0x00), (0x226, 0x7F), (0x228, 0x03), (0x22A, 0x35),
     (0x22D, 0xE0), (0x22F, 0x00), (0x230, 0x0D), (0x233, 0x20), (0x330, 0x00), (0x331, 0x00),
     (0x332, 0x00), (0xF0D, 0x03), (0xF10, 0x04), (0xF11, 0x00), (0xF1C, 0x07), (0xF21, 0x68),
     (0xF22, 0xFF), (0xF23, 0x84), (0xF26, 0x98), (0xF34, 0x28), (0xF35, 0x11), (0xF44, 0x25)]"

definition set_registers_tx_4068 :: "(u16 \<times> u16) list" where
  "set_registers_tx_4068 =
    [(0x30, 0x0A), (0x31, 0x10), (0x32, 0x35), (0x184, 0x00), (0xF00, 0x0F), (0xF18, 0x06)]"

definition set_registers_rx_4068 :: "(u16 \<times> u16) list" where
  "set_registers_rx_4068 =
    [(0x30, 0x0A), (0x31, 0x10), (0x32, 0x35), (0x184, 0x00), (0xF00, 0x0F), (0xF18, 0x06)]"

text \<open>The addresses \<open>rt_malloc\<close> returns are not part of the model; the structure is.\<close>

definition rf_433_config_init :: ax5043_config where
  "rf_433_config_init =
     \<lparr>axradio_phy_vcocalib = 0, axradio_phy_preamble_len = 32, axradio_framing_synclen = 32,
      axradio_phy_preamble_flags = 0x38, axradio_phy_preamble_byte = 0x55,
      axradio_phy_preamble_appendbits = 0, axradio_phy_preamble_appendpattern = 0x00,
      axradio_phy_chanfreq = 0x10b72373, axradio_phy_chanvcoiinit = 0x99,
      axradio_phy_chanpllrnginit = 0x0a, axradio_phy_maxfreqoffset = 1683,
      axradio_phy_rssioffset = 64, axradio_phy_rssireference = 0x3A,
      axradio_framing_syncflags = 0x38, axradio_framing_syncword = [0xcc, 0xaa, 0xcc, 0xaa]\<rparr>"

definition rf_4068_config_init :: ax5043_config where
  "rf_4068_config_init =
     \<lparr>axradio_phy_vcocalib = 0, axradio_phy_preamble_len = 32, axradio_framing_synclen = 32,
      axradio_phy_preamble_flags = 0x38, axradio_phy_preamble_byte = 0x55,
      axradio_phy_preamble_appendbits = 0, axradio_phy_preamble_appendpattern = 0x00,
      axradio_phy_chanfreq = 0x0190716d, axradio_phy_chanvcoiinit = 0x00,
      axradio_phy_chanpllrnginit = 0xFF, axradio_phy_maxfreqoffset = 157,
      axradio_phy_rssioffset = 64, axradio_phy_rssireference = 0x3A,
      axradio_framing_syncflags = 0x38, axradio_framing_syncword = [0xcc, 0xaa, 0xcc, 0xaa]\<rparr>"

section \<open>What the tables leave in the chip\<close>

text \<open>The last value a table gives a register.\<close>

definition table_value :: "u16 \<Rightarrow> (u16 \<times> u16) list \<Rightarrow> u8 option \<Rightarrow> u8 option" where
  "table_value a tab v = fold (\<lambda>(b, x) v. if b = a then Some (ucast x) else v) tab v"

definition addresses_ok :: "(u16 \<times> u16) list \<Rightarrow> bool" where
  "addresses_ok tab \<longleftrightarrow> list_all (\<lambda>(b, x). b < 0x1000) tab"

lemma decode_long: "b < 0x1000 \<Longrightarrow> chip_decode (long_header (b OR 0xF000) @ [v]) = Some (True, b, [v])"
  using spi_long_decodes by blast

lemma write_table_last:
  assumes "addresses_ok tab"
  shows "last_write a (wire (write_table tab d)) = table_value a tab (last_write a (wire d))"
  using assms
proof (induction tab arbitrary: d)
  case (Cons e tab)
  obtain b x where e: "e = (b, x)" by (cases e)
  with Cons.prems have "b < 0x1000" and "addresses_ok tab" by (auto simp: addresses_ok_def)
  with Cons.IH [of "SpiWriteLongAddressRegister b (ucast x) d"] e show ?case
    by (simp add: write_table_def table_value_def SpiWriteLongAddressRegister_def decode_long)
qed (simp add: write_table_def table_value_def)

lemma write_table_frame [simp]:
  "RegValue (write_table tab d) = RegValue d" "config (write_table tab d) = config d"
  "ubRFState (write_table tab d) = ubRFState d" "chip (write_table tab d) = chip d"
  "axradio_phy_chanpllrng (write_table tab d) = axradio_phy_chanpllrng d"
  "TXBuff (write_table tab d) = TXBuff d" "TxLen (write_table tab d) = TxLen d"
  "radio_fault (write_table tab d) = radio_fault d"
  "axradio_txbuffer_cnt (write_table tab d) = axradio_txbuffer_cnt d"
  by (induction tab arbitrary: d)
    (auto simp: write_table_def SpiWriteLongAddressRegister_def spi_send_def)

lemma InitAx5043REG_last:
  assumes "addresses_ok (take 125 (RegValue d))" and "a \<noteq> 0x202" and "a \<noteq> 0x24" and "a \<noteq> 0x232"
  shows "last_write a (wire (InitAx5043REG d)) =
    table_value a (take 125 (RegValue d)) (last_write a (wire d))"
proof -
  have "0x24 \<noteq> a" "0x202 \<noteq> a" "0x232 \<noteq> a" using assms by auto
  with assms show ?thesis
    by (simp add: InitAx5043REG_def Let_def reg_io write_table_last chip_decode_def long_header_def)
qed

lemma tables_ok [simp]:
  "addresses_ok (take 125 set_registers_433)" "addresses_ok (take 125 set_registers_4068)"
  by (simp_all add: addresses_ok_def set_registers_433_def set_registers_4068_def)

text \<open>The register tables in the chip: initialising either radio sets the framing that the
  transmit loop insists on and accepts packets of up to 200 bytes, which is more than the
  64-byte receive buffer holds; and the last entry of the table (register \<open>0xF44\<close>) is never
  written, because the loop stops one entry early.\<close>

theorem register_table_effect:
  assumes "RegValue d = set_registers_433 \<or> RegValue d = set_registers_4068"
  shows "last_write 0x12 (wire (InitAx5043REG d)) = Some 0x26 \<and>
    last_write 0x203 (wire (InitAx5043REG d)) = Some 200 \<and>
    last (RegValue d) = (0xF44, 0x25) \<and>
    last_write 0xF44 (wire (InitAx5043REG d)) = last_write 0xF44 (wire d)"
  using assms
  by (elim disjE)
    (simp_all add: InitAx5043REG_last table_value_def, simp_all add: set_registers_433_def
      set_registers_4068_def)

theorem register_table_effect_witness:
  "last_write 0xF44 (wire (InitAx5043REG ((demo_radio (\<lambda>n a. 0))\<lparr>RegValue := set_registers_433\<rparr>))) = None"
  using register_table_effect [of "(demo_radio (\<lambda>n a. 0))\<lparr>RegValue := set_registers_433\<rparr>"]
  by (simp add: demo_radio_def last_write_def)

text \<open>A restart of either radio leaves the chip powered down with every interrupt masked, its
  interrupt pin pulsed up and down, and the driver in the receive state: the interrupt handler
  that the pulse triggers has to turn the receiver on again.\<close>

theorem restart_powers_down:
  assumes "RegValue d = set_registers_433 \<or> RegValue d = set_registers_4068"
  shows "ubRFState (snd (rf_restart d)) = trxstate_rx \<and>
    last_write 0x02 (wire (snd (rf_restart d))) = Some 0 \<and>
    last_write 0x06 (wire (snd (rf_restart d))) = Some 0 \<and>
    last_write 0x07 (wire (snd (rf_restart d))) = Some 0"
proof -
  let ?d = "irq_pin_pulse (SpiWriteSingleAddressRegister REG_AX5043_PWRMODE 0x00
      (Ax5043_Spi_Reset (Ax5043_OFF d)))"
  have r: "RegValue ?d = RegValue d"
    by (simp add: irq_pin_pulse_def Ax5043_Spi_Reset_def Ax5043_OFF_def Let_def
        SpiWriteSingleAddressRegister_def SpiWriteLongAddressRegister_def)
  have ok: "addresses_ok (take 125 (RegValue ?d))" using assms unfolding r by auto
  have w: "last_write 0x02 (wire ?d) = Some 0" "last_write 0x06 (wire ?d) = Some 0"
    "last_write 0x07 (wire ?d) = Some 0"
    by (simp_all add: irq_pin_pulse_def Ax5043_Spi_Reset_def Ax5043_OFF_def Let_def
        SpiWriteSingleAddressRegister_def SpiWriteLongAddressRegister_def chip_decode_def
        long_header_def)
  have i: "last_write a (wire (InitAx5043REG ?d)) = Some 0" if "a \<in> {0x02, 0x06, 0x07}" for a
  proof -
    have "table_value a (take 125 (RegValue ?d)) v = v" for v
      using that assms unfolding r insert_iff empty_iff
      by (elim disjE) (simp_all add: table_value_def set_registers_433_def set_registers_4068_def)
    moreover have "a \<noteq> 0x202" "a \<noteq> 0x24" "a \<noteq> 0x232" "last_write a (wire ?d) = Some 0"
      using that w by auto
    ultimately show ?thesis by (simp add: InitAx5043REG_last [OF ok])
  qed
  show ?thesis
    using i [of 2] i [of 6] i [of 7]
    by (simp add: rf_restart_def Let_def write_freq_def SpiWriteSingleAddressRegister_def
        chip_decode_def)
qed

theorem restart_powers_down_witness:
  "last_write 0x02 (wire (snd (rf_restart ((demo_radio (\<lambda>n a. 0))\<lparr>RegValue := set_registers_4068\<rparr>)))) =
     Some 0"
  using restart_powers_down [of "(demo_radio (\<lambda>n a. 0))\<lparr>RegValue := set_registers_4068\<rparr>"] by simp

end
