(* ===== verification/Radio_Encoder.thy ===== *)
theory Radio_Encoder
  imports Radio_Config
begin

text \<open>
  The transmit queues and the frames: \<open>radio/Radio_Encoder.c\<close>.

  State: the two radios, one queue for each, and the two identifiers. The functions of the two
  queues are the same code twice; what they do to their queue is the group \<open>q_...\<close>, which
  returns \<^const>\<open>None\<close> when the code writes outside the arrays of the queue (undefined in C);
  \<open>mem_fault\<close> records that. The threads \<open>rf_433_Dequeue\<close> and \<open>rf_4068_Dequeue\<close> are split at
  their delays into \<open>pick\<close> and \<open>send\<close>.
\<close>

section \<open>State\<close>

record Radio_Queue =
  NowNum :: u8
  TargetNum :: u8
  Taget_Id :: "u32 list"
  Counter :: "u8 list"
  Command :: "u8 list"
  Data :: "u8 list"

record radio_app = seg_app +
  rf_433 :: ax5043
  rf_4068 :: ax5043

record queue_app = radio_app +
  Queue_433 :: Radio_Queue
  Queue_4068 :: Radio_Queue
  Self_ID :: u32
  Target_ID :: u32
  mem_fault :: bool

definition rf_433_send_timer :: nat where "rf_433_send_timer = 3"
definition rf_4068_send_timer :: nat where "rf_4068_send_timer = 4"

definition Default_Self_ID :: u32 where "Default_Self_ID = 50000000"
definition Default_Target_ID :: u32 where "Default_Target_ID = 60000000"

section \<open>The queue\<close>

type_synonym message = "u32 \<times> u8 \<times> u8"

definition q_slot :: "Radio_Queue \<Rightarrow> nat \<Rightarrow> message" where
  "q_slot q i = (Taget_Id q ! i, Command q ! i, Data q ! i)"

definition q_store :: "nat \<Rightarrow> message \<Rightarrow> Radio_Queue \<Rightarrow> Radio_Queue option" where
  "q_store i m q =
     (case m of (target_id, control, val) \<Rightarrow>
       if i < 100
       then Some (q\<lparr>Taget_Id := (Taget_Id q)[i := target_id], Command := (Command q)[i := control],
                    Data := (Data q)[i := val]\<rparr>)
       else None)"

definition q_enqueue :: "message \<Rightarrow> Radio_Queue \<Rightarrow> Radio_Queue option" where
  "q_enqueue m q =
     (if TargetNum q < 100
      then map_option (\<lambda>q. q\<lparr>TargetNum := TargetNum q + 1\<rparr>)
             (q_store (Suc (unat (TargetNum q))) m q)
      else Some q)"

text \<open>The loop of the urgent insertion: every entry behind \<open>NowNum\<close> moves up by one.\<close>

fun q_shift :: "nat \<Rightarrow> nat \<Rightarrow> Radio_Queue \<Rightarrow> Radio_Queue option" where
  "q_shift now 0 q = Some q"
| "q_shift now (Suc i) q =
     (if now < Suc i
      then (case q_store (Suc i) (q_slot q i) q of None \<Rightarrow> None | Some q1 \<Rightarrow> q_shift now i q1)
      else Some q)"

definition q_urgent :: "message \<Rightarrow> Radio_Queue \<Rightarrow> Radio_Queue option" where
  "q_urgent m q =
     (if TargetNum q < 100
      then (case q_shift (unat (NowNum q)) (Suc (unat (TargetNum q))) q of
          None \<Rightarrow> None
        | Some q1 \<Rightarrow>
            map_option (\<lambda>q. q\<lparr>TargetNum := TargetNum q + 1\<rparr>)
              (q_store (Suc (unat (NowNum q1))) m q1))
      else Some q)"

text \<open>The head of the dequeue loop; the first component says whether a message is sent.\<close>

definition q_pick :: "Radio_Queue \<Rightarrow> bool \<times> Radio_Queue" where
  "q_pick q =
     (if NowNum q = TargetNum q then (False, q\<lparr>NowNum := 0, TargetNum := 0\<rparr>)
      else if 0 < TargetNum q \<and> NowNum q < TargetNum q then (True, q\<lparr>NowNum := NowNum q + 1\<rparr>)
      else (False, q))"

section \<open>The frames\<close>

definition byte_of :: "char \<Rightarrow> u8" where
  "byte_of c = word_of_nat (code_of c)"

text \<open>\<open>c{%08ld,%08ld,%02d,%02d}c\<close>, with \<open>c\<close> = \<open>M\<close> in what this device sends.\<close>

definition frame :: "char \<Rightarrow> u32 \<Rightarrow> u32 \<Rightarrow> u8 \<Rightarrow> u8 \<Rightarrow> string" where
  "frame c target self control val =
     [c, CHR ''{''] @ fmt_0d 8 (sint target) @ CHR '','' # fmt_0d 8 (sint self) @ CHR '','' #
     fmt_0d 2 (uint control) @ CHR '','' # fmt_0d 2 (uint val) @ [CHR ''}'', c]"

text \<open>The buffer that is sent: the string, its NUL, and only the first 28 bytes.\<close>

definition frame_bytes :: "u32 \<Rightarrow> u32 \<Rightarrow> u8 \<Rightarrow> u8 \<Rightarrow> u8 list" where
  "frame_bytes target self control val =
     take 28 (map byte_of (frame CHR ''M'' target self control val) @ [0])"

section \<open>Operations\<close>

definition set_queue_433 :: "Radio_Queue option \<Rightarrow> 'a queue_app_scheme \<Rightarrow> 'a queue_app_scheme" where
  "set_queue_433 r s = (case r of None \<Rightarrow> s\<lparr>mem_fault := True\<rparr> | Some q \<Rightarrow> s\<lparr>Queue_433 := q\<rparr>)"

definition set_queue_4068 :: "Radio_Queue option \<Rightarrow> 'a queue_app_scheme \<Rightarrow> 'a queue_app_scheme" where
  "set_queue_4068 r s = (case r of None \<Rightarrow> s\<lparr>mem_fault := True\<rparr> | Some q \<Rightarrow> s\<lparr>Queue_4068 := q\<rparr>)"

definition rf_433_Enqueue :: "u32 \<Rightarrow> u8 \<Rightarrow> u8 \<Rightarrow> 'a queue_app_scheme \<Rightarrow> 'a queue_app_scheme" where
  "rf_433_Enqueue target_id control val s =
     set_queue_433 (q_enqueue (target_id, control, val) (Queue_433 s)) s"

definition rf_433_Urgent_Enqueue :: "u32 \<Rightarrow> u8 \<Rightarrow> u8 \<Rightarrow> 'a queue_app_scheme \<Rightarrow> 'a queue_app_scheme" where
  "rf_433_Urgent_Enqueue target_id control val s =
     set_queue_433 (q_urgent (target_id, control, val) (Queue_433 s)) s"

definition rf_4068_Enqueue :: "u32 \<Rightarrow> u8 \<Rightarrow> u8 \<Rightarrow> 'a queue_app_scheme \<Rightarrow> 'a queue_app_scheme" where
  "rf_4068_Enqueue target_id control val s =
     set_queue_4068 (q_enqueue (target_id, control, val) (Queue_4068 s)) s"

definition rf_4068_Urgent_Enqueue :: "u32 \<Rightarrow> u8 \<Rightarrow> u8 \<Rightarrow> 'a queue_app_scheme \<Rightarrow> 'a queue_app_scheme" where
  "rf_4068_Urgent_Enqueue target_id control val s =
     set_queue_4068 (q_urgent (target_id, control, val) (Queue_4068 s)) s"

text \<open>The code does not check \<open>rt_malloc\<close>; printing through a null pointer is a fault.\<close>

definition rf_433_send :: "u32 \<Rightarrow> u8 \<Rightarrow> u8 \<Rightarrow> 'a queue_app_scheme \<Rightarrow> 'a queue_app_scheme" where
  "rf_433_send target_id control val s =
     (let (ok, s1) = malloc_ok s
      in if \<not> ok then s1\<lparr>mem_fault := True\<rparr>
         else rt_timer_start rf_433_send_timer
                (s1\<lparr>rf_433 := Normal_send (frame_bytes target_id (Self_ID s1) control val) 28
                     (rf_433 s1)\<rparr>))"

definition rf_4068_send :: "u32 \<Rightarrow> u8 \<Rightarrow> u8 \<Rightarrow> 'a queue_app_scheme \<Rightarrow> 'a queue_app_scheme" where
  "rf_4068_send target_id control val s =
     (let (ok, s1) = malloc_ok s
      in if \<not> ok then s1\<lparr>mem_fault := True\<rparr>
         else rt_timer_start rf_4068_send_timer
                (s1\<lparr>rf_4068 := Normal_send (frame_bytes target_id (Self_ID s1) control val) 28
                     (rf_4068 s1)\<rparr>))"

text \<open>One turn of each dequeue thread: \<open>pick\<close>, a delay, \<open>send\<close>, further delays.\<close>

definition rf_433_Dequeue_pick :: "'a queue_app_scheme \<Rightarrow> bool \<times> 'a queue_app_scheme" where
  "rf_433_Dequeue_pick s =
     (let (go, q) = q_pick (Queue_433 s) in (go, s\<lparr>Queue_433 := q\<rparr>))"

definition rf_433_Dequeue_send :: "'a queue_app_scheme \<Rightarrow> 'a queue_app_scheme" where
  "rf_433_Dequeue_send s =
     (let i = unat (NowNum (Queue_433 s))
      in if 100 \<le> i then s\<lparr>mem_fault := True\<rparr>
         else (case q_slot (Queue_433 s) i of (t, c, v) \<Rightarrow> rf_433_send t c v s))"

definition rf_4068_Dequeue_pick :: "'a queue_app_scheme \<Rightarrow> bool \<times> 'a queue_app_scheme" where
  "rf_4068_Dequeue_pick s =
     (let (go, q) = q_pick (Queue_4068 s) in (go, s\<lparr>Queue_4068 := q\<rparr>))"

definition rf_4068_Dequeue_send :: "'a queue_app_scheme \<Rightarrow> 'a queue_app_scheme" where
  "rf_4068_Dequeue_send s =
     (let i = unat (NowNum (Queue_4068 s))
      in if 100 \<le> i then s\<lparr>mem_fault := True\<rparr>
         else (case q_slot (Queue_4068 s) i of (t, c, v) \<Rightarrow> rf_4068_send t c v s))"

definition RadioQueueInit :: "'a queue_app_scheme \<Rightarrow> 'a queue_app_scheme" where
  "RadioQueueInit s = s\<lparr>Self_ID := Default_Self_ID, Target_ID := Default_Target_ID\<rparr>"

section \<open>Queues of messages\<close>

datatype 'm qop = Push 'm | Urge 'm | Pop

text \<open>A run of a queue and what it hands out, and the same on a list.\<close>

fun queue_run ::
  "('m \<Rightarrow> 'q \<Rightarrow> 'q option) \<Rightarrow> ('m \<Rightarrow> 'q \<Rightarrow> 'q option) \<Rightarrow> ('q \<Rightarrow> bool \<times> 'q) \<Rightarrow> ('q \<Rightarrow> 'm option)
     \<Rightarrow> 'm qop list \<Rightarrow> 'q \<Rightarrow> ('m list \<times> 'q) option" where
  "queue_run push urge pop cur [] q = Some ([], q)"
| "queue_run push urge pop cur (Push m # ops) q =
     Option.bind (push m q) (queue_run push urge pop cur ops)"
| "queue_run push urge pop cur (Urge m # ops) q =
     Option.bind (urge m q) (queue_run push urge pop cur ops)"
| "queue_run push urge pop cur (Pop # ops) q =
     (let (go, q1) = pop q
      in map_option (\<lambda>(out, q2). (if go then the (cur q1) # out else out, q2))
           (queue_run push urge pop cur ops q1))"

fun list_run :: "'m qop list \<Rightarrow> 'm list \<Rightarrow> 'm list \<times> 'm list" where
  "list_run [] xs = ([], xs)"
| "list_run (Push m # ops) xs = list_run ops (xs @ [m])"
| "list_run (Urge m # ops) xs = list_run ops (m # xs)"
| "list_run (Pop # ops) xs =
     (case xs of [] \<Rightarrow> list_run ops [] | m # ms \<Rightarrow> (let (out, r) = list_run ops ms in (m # out, r)))"

text \<open>The slots of a queue of \<open>cap\<close> slots are filled one after the other, and are all free again
  when a pick finds the queue empty: \<open>n\<close> of them are used, \<open>k\<close> hold messages that still wait.\<close>

fun has_slots :: "nat \<Rightarrow> nat \<Rightarrow> nat \<Rightarrow> 'm qop list \<Rightarrow> bool" where
  "has_slots cap n k [] \<longleftrightarrow> True"
| "has_slots cap n k (Push m # ops) \<longleftrightarrow> n < cap \<and> has_slots cap (Suc n) (Suc k) ops"
| "has_slots cap n k (Urge m # ops) \<longleftrightarrow> n < cap \<and> has_slots cap (Suc n) (Suc k) ops"
| "has_slots cap n 0 (Pop # ops) \<longleftrightarrow> has_slots cap 0 0 ops"
| "has_slots cap n (Suc k) (Pop # ops) \<longleftrightarrow> has_slots cap n k ops"

text \<open>A queue of this kind: \<^const>\<open>None\<close> is a store behind its end.\<close>

locale message_queue =
  fixes wf :: "'q \<Rightarrow> bool" and used :: "'q \<Rightarrow> nat" and cap :: nat
    and abs :: "'q \<Rightarrow> 'm list" and cur :: "'q \<Rightarrow> 'm option"
    and push :: "'m \<Rightarrow> 'q \<Rightarrow> 'q option" and urge :: "'m \<Rightarrow> 'q \<Rightarrow> 'q option"
    and pop :: "'q \<Rightarrow> bool \<times> 'q"
  assumes push_ok: "wf q \<Longrightarrow> used q < cap \<Longrightarrow>
      \<exists>r. push m q = Some r \<and> wf r \<and> used r = Suc (used q) \<and> abs r = abs q @ [m] \<and> cur r = cur q"
    and urge_ok: "wf q \<Longrightarrow> used q < cap \<Longrightarrow>
      \<exists>r. urge m q = Some r \<and> wf r \<and> used r = Suc (used q) \<and> abs r = m # abs q \<and> cur r = cur q"
    and overrun: "wf q \<Longrightarrow> \<not> used q < cap \<Longrightarrow> push m q = None \<and> urge m q = None"
    and pop_empty: "wf q \<Longrightarrow> abs q = [] \<Longrightarrow> \<exists>r. pop q = (False, r) \<and> wf r \<and> used r = 0 \<and> abs r = []"
    and pop_next: "wf q \<Longrightarrow> abs q = m # ms \<Longrightarrow>
      \<exists>r. pop q = (True, r) \<and> wf r \<and> used r = used q \<and> abs r = ms \<and> cur r = Some m"
begin

lemma run_exact:
  assumes "wf q"
  shows "case queue_run push urge pop cur ops q of None \<Rightarrow> \<not> has_slots cap (used q) (length (abs q)) ops
    | Some (out, r) \<Rightarrow> has_slots cap (used q) (length (abs q)) ops \<and> wf r \<and> list_run ops (abs q) = (out, abs r)"
  using assms
proof (induction ops arbitrary: q)
  case (Cons op ops)
  show ?case
  proof (cases "op \<noteq> Pop \<and> \<not> used q < cap")
    case True
    then show ?thesis using overrun [OF Cons.prems] by (cases op) auto
  next
    case False
    show ?thesis
    proof (cases op)
      case (Push m)
      with push_ok [OF Cons.prems, of m] False obtain r where
        "push m q = Some r" "wf r" "used r = Suc (used q)" "abs r = abs q @ [m]" by auto
      with Cons.IH [of r] False Push show ?thesis by (auto split: option.splits)
    next
      case (Urge m)
      with urge_ok [OF Cons.prems, of m] False obtain r where
        "urge m q = Some r" "wf r" "used r = Suc (used q)" "abs r = m # abs q" by auto
      with Cons.IH [of r] False Urge show ?thesis by (auto split: option.splits)
    next
      case Pop
      show ?thesis
      proof (cases "abs q")
        case Nil
        with pop_empty [OF Cons.prems] obtain r where
          "pop q = (False, r)" "wf r" "used r = 0" "abs r = []" by auto
        with Cons.IH [of r] Pop Nil show ?thesis by (auto split: option.splits)
      next
        case (Cons m ms)
        with pop_next [OF Cons.prems] obtain r where
          "pop q = (True, r)" "wf r" "used r = used q" "abs r = ms" "cur r = Some m" by blast
        with Cons.IH [of r] Pop Cons show ?thesis by (auto split: option.splits)
      qed
    qed
  qed
qed simp

lemma run_refines:
  assumes "wf q" and "has_slots cap (used q) (length (abs q)) ops"
  shows "\<exists>out r. queue_run push urge pop cur ops q = Some (out, r) \<and> wf r \<and>
    list_run ops (abs q) = (out, abs r)"
  using run_exact [OF assms(1), of ops] assms(2) by (auto split: option.splits)

end

section \<open>The queue refines a list of messages\<close>

definition q_wf :: "Radio_Queue \<Rightarrow> bool" where
  "q_wf q \<longleftrightarrow> length (Taget_Id q) = 100 \<and> length (Command q) = 100 \<and> length (Data q) = 100 \<and>
     NowNum q \<le> TargetNum q \<and> TargetNum q \<le> 99"

text \<open>The messages that wait, and the one that was picked last.\<close>

definition pending :: "Radio_Queue \<Rightarrow> message list" where
  "pending q = map (q_slot q) [Suc (unat (NowNum q))..<Suc (unat (TargetNum q))]"

definition in_flight :: "Radio_Queue \<Rightarrow> message option" where
  "in_flight q = (if NowNum q = 0 then None else Some (q_slot q (unat (NowNum q))))"

definition arrays_ok :: "Radio_Queue \<Rightarrow> bool" where
  "arrays_ok q \<longleftrightarrow> length (Taget_Id q) = 100 \<and> length (Command q) = 100 \<and> length (Data q) = 100"

lemma q_store_ok:
  assumes "arrays_ok q" and "i < 100"
  shows "\<exists>r. q_store i m q = Some r \<and> arrays_ok r \<and> NowNum r = NowNum q \<and>
    TargetNum r = TargetNum q \<and> q_slot r = (q_slot q)(i := m)"
  using assms by (cases m) (auto simp: q_store_def arrays_ok_def q_slot_def fun_eq_iff)

lemma q_shift_ok:
  assumes "arrays_ok q" and "i < 100"
  shows "\<exists>r. q_shift now i q = Some r \<and> arrays_ok r \<and> NowNum r = NowNum q \<and>
    TargetNum r = TargetNum q \<and>
    (\<forall>j. q_slot r j = (if now < j \<and> j \<le> i then q_slot q (j - 1) else q_slot q j))"
  using assms
proof (induction i arbitrary: q)
  case (Suc i)
  show ?case
  proof (cases "now < Suc i")
    case True
    from q_store_ok [OF Suc.prems, of "q_slot q i"] obtain q1 where
      q1: "q_store (Suc i) (q_slot q i) q = Some q1" "arrays_ok q1" "NowNum q1 = NowNum q"
      "TargetNum q1 = TargetNum q" "q_slot q1 = (q_slot q)(Suc i := q_slot q i)" by blast
    from Suc.IH [OF q1(2)] Suc.prems(2) obtain r where
      r: "q_shift now i q1 = Some r" "arrays_ok r" "NowNum r = NowNum q1" "TargetNum r = TargetNum q1"
      "\<And>j. q_slot r j = (if now < j \<and> j \<le> i then q_slot q1 (j - 1) else q_slot q1 j)" by auto
    have "q_slot r j = (if now < j \<and> j \<le> Suc i then q_slot q (j - 1) else q_slot q j)" for j
      using True by (auto simp: r(5) q1(5) le_Suc_eq)
    with True q1 r show ?thesis by simp
  next
    case False
    then show ?thesis using Suc.prems by auto
  qed
qed auto

lemma unat_incr:
  assumes "unat (c :: u8) < 200"
  shows "unat (c + 1) = Suc (unat c)"
  using unat_Suc_less [of c 200] assms by (simp add: word_less_nat_alt)

lemma q_enqueue_ok:
  assumes wf: "q_wf q" and used: "unat (TargetNum q) < 99"
  shows "\<exists>r. q_enqueue m q = Some r \<and> q_wf r \<and> unat (TargetNum r) = Suc (unat (TargetNum q)) \<and>
    pending r = pending q @ [m] \<and> in_flight r = in_flight q"
proof -
  have ok: "arrays_ok q" using wf by (simp add: q_wf_def arrays_ok_def)
  have nt: "unat (NowNum q) \<le> unat (TargetNum q)" using wf by (simp add: q_wf_def word_le_nat_alt)
  from q_store_ok [OF ok, of "Suc (unat (TargetNum q))" m] used obtain r where
    r: "q_store (Suc (unat (TargetNum q))) m q = Some r" "arrays_ok r" "NowNum r = NowNum q"
    "TargetNum r = TargetNum q" "q_slot r = (q_slot q)(Suc (unat (TargetNum q)) := m)" by auto
  let ?r = "r\<lparr>TargetNum := TargetNum r + 1\<rparr>"
  have s: "q_slot ?r = q_slot r" by (simp add: q_slot_def fun_eq_iff)
  have t: "unat (TargetNum ?r) = Suc (unat (TargetNum q))"
    using used by (simp add: r unat_incr)
  have "q_enqueue m q = Some ?r"
    using used r(1) by (simp add: q_enqueue_def word_less_nat_alt)
  moreover have "q_wf ?r"
    using r(2,3) t nt used by (simp add: q_wf_def arrays_ok_def word_le_nat_alt)
  moreover have "pending ?r = pending q @ [m]"
    using nt t by (simp add: pending_def s r(3,5))
  moreover have "in_flight ?r = in_flight q"
    using nt by (simp add: in_flight_def s r(3,5))
  ultimately show ?thesis using t by blast
qed

lemma q_urgent_ok:
  assumes wf: "q_wf q" and used: "unat (TargetNum q) < 99"
  shows "\<exists>r. q_urgent m q = Some r \<and> q_wf r \<and> unat (TargetNum r) = Suc (unat (TargetNum q)) \<and>
    pending r = m # pending q \<and> in_flight r = in_flight q"
proof -
  let ?now = "unat (NowNum q)" and ?tg = "unat (TargetNum q)"
  have ok: "arrays_ok q" using wf by (simp add: q_wf_def arrays_ok_def)
  have nt: "?now \<le> ?tg" using wf by (simp add: q_wf_def word_le_nat_alt)
  from q_shift_ok [OF ok, of "Suc ?tg" ?now] used obtain q1 where
    q1: "q_shift ?now (Suc ?tg) q = Some q1" "arrays_ok q1" "NowNum q1 = NowNum q"
    "TargetNum q1 = TargetNum q"
    "\<And>j. q_slot q1 j = (if ?now < j \<and> j \<le> Suc ?tg then q_slot q (j - 1) else q_slot q j)" by auto
  from q_store_ok [OF q1(2), of "Suc ?now" m] nt used q1(3) obtain r where
    r: "q_store (Suc (unat (NowNum q1))) m q1 = Some r" "arrays_ok r" "NowNum r = NowNum q"
    "TargetNum r = TargetNum q" "q_slot r = (q_slot q1)(Suc ?now := m)" using q1(4) by auto
  let ?r = "r\<lparr>TargetNum := TargetNum r + 1\<rparr>"
  have s: "q_slot ?r = q_slot r" by (simp add: q_slot_def fun_eq_iff)
  have t: "unat (TargetNum ?r) = Suc ?tg"
    using used by (simp add: r unat_incr)
  have "q_urgent m q = Some ?r"
    using used q1(1) r(1) by (simp add: q_urgent_def word_less_nat_alt)
  moreover have "q_wf ?r"
    using r(2,3) t nt used by (simp add: q_wf_def arrays_ok_def word_le_nat_alt)
  moreover have "pending ?r = m # pending q"
  proof -
    have "[Suc ?now..<Suc (Suc ?tg)] = Suc ?now # map Suc [Suc ?now..<Suc ?tg]"
      using nt by (simp add: map_Suc_upt upt_conv_Cons del: upt_Suc)
    moreover have "unat (TargetNum r + 1) = Suc ?tg" using t by simp
    ultimately show ?thesis
      by (simp add: pending_def s r(3,5) q1(5) comp_def del: upt_Suc)
  qed
  moreover have "in_flight ?r = in_flight q"
    by (simp add: in_flight_def s r(3,5) q1(5))
  ultimately show ?thesis using t by blast
qed

lemma pending_Nil: "q_wf q \<Longrightarrow> pending q = [] \<longleftrightarrow> NowNum q = TargetNum q"
  by (auto simp: pending_def q_wf_def word_le_nat_alt word_unat_eq_iff)

lemma q_pick_empty:
  assumes "q_wf q" and "pending q = []"
  shows "\<exists>r. q_pick q = (False, r) \<and> q_wf r \<and> unat (TargetNum r) = 0 \<and> pending r = []"
proof -
  have "NowNum q = TargetNum q" using assms by (simp add: pending_Nil)
  with assms(1) show ?thesis by (simp add: q_pick_def q_wf_def pending_def)
qed

lemma q_pick_next:
  assumes wf: "q_wf q" and p: "pending q = m # ms"
  shows "\<exists>r. q_pick q = (True, r) \<and> q_wf r \<and> unat (TargetNum r) = unat (TargetNum q) \<and>
    pending r = ms \<and> in_flight r = Some m"
proof -
  have "NowNum q \<noteq> TargetNum q" using pending_Nil [OF wf] p by auto
  then have lt: "NowNum q < TargetNum q" and le: "unat (TargetNum q) \<le> 99"
    using wf by (auto simp: q_wf_def word_le_nat_alt word_less_nat_alt word_unat_eq_iff)
  then have n: "unat (NowNum q) < unat (TargetNum q)" by (simp add: word_less_nat_alt)
  let ?r = "q\<lparr>NowNum := NowNum q + 1\<rparr>"
  have u: "unat (NowNum q + 1) = Suc (unat (NowNum q))" using n le by (intro unat_incr) simp
  have s: "q_slot ?r = q_slot q" by (simp add: q_slot_def fun_eq_iff)
  have "[Suc (unat (NowNum q))..<Suc (unat (TargetNum q))] =
      Suc (unat (NowNum q)) # [Suc (Suc (unat (NowNum q)))..<Suc (unat (TargetNum q))]"
    using n by (simp add: upt_conv_Cons del: upt_Suc)
  with p have m: "m = q_slot q (Suc (unat (NowNum q)))"
    and ms: "ms = map (q_slot q) [Suc (Suc (unat (NowNum q)))..<Suc (unat (TargetNum q))]"
    by (simp_all add: pending_def del: upt_Suc)
  have "q_pick q = (True, ?r)"
    using lt n by (auto simp: q_pick_def word_less_nat_alt)
  moreover have "q_wf ?r" using wf n u by (simp add: q_wf_def word_le_nat_alt)
  moreover have "NowNum q + 1 \<noteq> 0" using u by (metis Zero_not_Suc unat_0)
  ultimately show ?thesis by (simp add: pending_def in_flight_def s u m ms del: upt_Suc)
qed

lemma q_overrun_at:
  assumes "NowNum q \<le> TargetNum q" and t: "TargetNum q = 99"
  shows "q_enqueue m q = None" and "q_urgent m q = None"
proof -
  have s: "q_store (Suc 99) x q = None" for x by (cases x) (simp add: q_store_def)
  show "q_enqueue m q = None" using s [of m] by (simp add: q_enqueue_def t)
  have "unat (NowNum q) \<le> 99" using assms by (simp add: word_le_nat_alt)
  then have "q_shift (unat (NowNum q)) (Suc 99) q = None" unfolding q_shift.simps s by simp
  moreover have "Suc (unat (TargetNum q)) = Suc 99" using t by simp
  ultimately have "q_shift (unat (NowNum q)) (Suc (unat (TargetNum q))) q = None" by (simp only:)
  then show "q_urgent m q = None" by (simp add: q_urgent_def t del: q_shift.simps)
qed

lemma q_overrun:
  assumes "q_wf q" and "\<not> unat (TargetNum q) < 99"
  shows "q_enqueue m q = None \<and> q_urgent m q = None"
proof -
  have "TargetNum q = 99" using assms by (auto simp: q_wf_def word_le_nat_alt word_unat_eq_iff)
  then show ?thesis using q_overrun_at assms(1) by (simp add: q_wf_def)
qed

interpretation rq: message_queue q_wf "\<lambda>q. unat (TargetNum q)" 99 pending in_flight
    q_enqueue q_urgent q_pick
  by unfold_locales (simp_all add: q_enqueue_ok q_urgent_ok q_overrun q_pick_empty q_pick_next)

section \<open>Properties\<close>

text \<open>C16: The transmit queue is a queue, as long as there are slots: from any well-formed state,
  every interleaving of enqueues, urgent enqueues and picks hands out exactly the messages a list
  would (enqueue at the back, urgent enqueue at the front, pick from the front) and leaves the
  list's contents pending, or it stores behind the end of the arrays. It does the latter exactly when
  some insertion comes after 99 slots were filled since a pick last found the queue empty,
  however few messages wait then.\<close>

theorem queue_refines_list:
  assumes "q_wf q"
  shows "case queue_run q_enqueue q_urgent q_pick in_flight ops q of
      None \<Rightarrow> \<not> has_slots 99 (unat (TargetNum q)) (length (pending q)) ops
    | Some (out, r) \<Rightarrow> has_slots 99 (unat (TargetNum q)) (length (pending q)) ops \<and> q_wf r \<and>
        list_run ops (pending q) = (out, pending r)"
  using assms by (rule rq.run_exact)

definition empty_queue :: Radio_Queue where
  "empty_queue = \<lparr>NowNum = 0, TargetNum = 0, Taget_Id = replicate 100 0,
     Counter = replicate 100 0, Command = replicate 100 0, Data = replicate 100 0\<rparr>"

lemma q_wf_empty: "q_wf empty_queue"
  by (simp add: empty_queue_def q_wf_def)

lemma has_slots_short:
  "n \<le> cap \<Longrightarrow> has_slots cap n (Suc 0) (concat (replicate j [Push m, Pop]) @ ops) \<longleftrightarrow>
     n + j \<le> cap \<and> has_slots cap (n + j) (Suc 0) ops"
  by (induction j arbitrary: n) auto

text \<open>A queue that holds one or two messages all the time is overrun by the hundredth.\<close>

lemma short_queue_overruns:
  "queue_run q_enqueue q_urgent q_pick in_flight
     (Push m # concat (replicate 98 [Push m, Pop]) @ [Push m]) empty_queue = None"
  using rq.run_exact [OF q_wf_empty, of "Push m # concat (replicate 98 [Push m, Pop]) @ [Push m]"]
  by (simp add: has_slots_short empty_queue_def pending_def split: option.splits)

theorem queue_refines_list_witness:
  "(\<exists>r. queue_run q_enqueue q_urgent q_pick in_flight
      [Push (1, 0, 0), Push (2, 0, 0), Pop, Urge (3, 0, 0), Pop, Pop] empty_queue =
    Some ([(1, 0, 0), (3, 0, 0), (2, 0, 0)], r))
   \<and> queue_run q_enqueue q_urgent q_pick in_flight
      (Push (1, 0, 0) # concat (replicate 98 [Push (1, 0, 0), Pop]) @ [Push (1, 0, 0)]) empty_queue = None"
proof
  show "\<exists>r. queue_run q_enqueue q_urgent q_pick in_flight
      [Push (1, 0, 0), Push (2, 0, 0), Pop, Urge (3, 0, 0), Pop, Pop] empty_queue =
    Some ([(1, 0, 0), (3, 0, 0), (2, 0, 0)], r)"
    using queue_refines_list [OF q_wf_empty,
        of "[Push (1, 0, 0), Push (2, 0, 0), Pop, Urge (3, 0, 0), Pop, Pop]"]
    by (auto simp: empty_queue_def pending_def split: option.splits)
  show "queue_run q_enqueue q_urgent q_pick in_flight
      (Push (1, 0, 0) # concat (replicate 98 [Push (1, 0, 0), Pop]) @ [Push (1, 0, 0)]) empty_queue = None"
    using queue_refines_list [OF q_wf_empty,
        of "Push (1, 0, 0) # concat (replicate 98 [Push (1, 0, 0), Pop]) @ [Push (1, 0, 0)]"]
    by (simp add: has_slots_short empty_queue_def pending_def split: option.splits)
qed

text \<open>The queue accepts one message too many: with 99 slots used (the next index is 100) both
  enqueue functions write behind the end of the 100-element arrays; only with 100 used do they
  refuse.\<close>

theorem queue_overrun:
  assumes "NowNum q \<le> TargetNum q"
  shows "(TargetNum q = 99 \<longrightarrow> q_enqueue m q = None \<and> q_urgent m q = None) \<and>
    (100 \<le> TargetNum q \<longrightarrow> q_enqueue m q = Some q \<and> q_urgent m q = Some q)"
proof (intro conjI impI)
  assume t: "TargetNum q = 99"
  show "q_enqueue m q = None" "q_urgent m q = None" by (rule q_overrun_at [OF assms t])+
next
  assume "100 \<le> TargetNum q"
  then have "\<not> TargetNum q < 100" by simp
  then show "q_enqueue m q = Some q" "q_urgent m q = Some q"
    by (simp_all add: q_enqueue_def q_urgent_def)
qed

theorem queue_overrun_witness:
  "q_enqueue (60000000, 0, 1) (empty_queue\<lparr>TargetNum := 99\<rparr>) = None"
  using queue_overrun [of "empty_queue\<lparr>TargetNum := 99\<rparr>"] by (simp add: empty_queue_def)

text \<open>Every frame fits its buffer and its length: for identifiers of up to eight digits and
  command and data of up to two, the text has 27 characters, so the 28 bytes that are sent are
  the text and its NUL; whatever the values, the text has at least 27 and at most 35
  characters and stays inside the 50-byte buffer.\<close>

theorem frame_fits:
  "27 \<le> length (frame c target self control val) \<and>
   length (frame c target self control val) \<le> 35 \<and>
   (0 \<le> sint target \<and> sint target < 10 ^ 8 \<and> 0 \<le> sint self \<and> sint self < 10 ^ 8 \<and>
    control < 100 \<and> val < 100 \<longrightarrow>
    length (frame CHR ''M'' target self control val) = 27 \<and>
    frame_bytes target self control val =
      map byte_of (frame CHR ''M'' target self control val) @ [0])"
proof -
  have i: "\<bar>sint (x :: u32)\<bar> < 10 ^ Suc 9" for x
    using sint_lt [of x] sint_ge [of x] by (auto simp: abs_less_iff)
  have b: "\<bar>uint (x :: u8)\<bar> < 10 ^ Suc 2" "\<not> uint x < 0" for x
    using uint_lt2p [of x] by simp_all
  have len: "8 \<le> length (fmt_0d 8 (sint x))" "length (fmt_0d 8 (sint x)) \<le> 11"
    "2 \<le> length (fmt_0d 2 (uint y))" "length (fmt_0d 2 (uint y)) \<le> 3" for x :: u32 and y :: u8
    using length_fmt_0d_ge [of 8] length_fmt_0d_ge [of 2] length_fmt_0d_le [OF i, of 8 x]
      length_fmt_0d_le [OF b(1), of 2 y] by (auto split: if_splits)
  have eq: "length (frame c target self control val) =
      8 + length (fmt_0d 8 (sint target)) + length (fmt_0d 8 (sint self)) +
      (length (fmt_0d 2 (uint control)) + length (fmt_0d 2 (uint val)) - 1)" for c
    using len(3) [of control] by (simp add: frame_def)
  have bounds: "27 \<le> length (frame c target self control val)"
    "length (frame c target self control val) \<le> 35"
    using len(1,2) [of target] len(1,2) [of self] len(3,4) [of control] len(3,4) [of val] by (simp_all add: eq)
  show ?thesis
  proof (intro conjI impI bounds)
    assume a: "0 \<le> sint target \<and> sint target < 10 ^ 8 \<and> 0 \<le> sint self \<and> sint self < 10 ^ 8 \<and>
      control < 100 \<and> val < 100"
    have "uint control < 10 ^ Suc 1" "uint val < 10 ^ Suc 1"
      using a by (simp_all add: word_less_def)
    then show l: "length (frame CHR ''M'' target self control val) = 27"
      using a length_fmt_0d [of "sint target" 7] length_fmt_0d [of "sint self" 7]
        length_fmt_0d [of "uint control" 1] length_fmt_0d [of "uint val" 1]
      by (simp add: eq numeral_eq_Suc)
    then show "frame_bytes target self control val =
        map byte_of (frame CHR ''M'' target self control val) @ [0]"
      by (simp add: frame_bytes_def)
  qed
qed

theorem frame_fits_witness:
  "length (frame CHR ''M'' 60000000 50000000 0 1) = 27"
  using frame_fits [of "CHR ''M''" 60000000 50000000 0 1] by simp

end
