(* ===== verification/Psi.thy ===== *)
theory Psi
  imports Radio_Encoder
begin

text \<open>
  The pressure switch and the valve display: \<open>applications/psi.c\<close>, the uploads of
  \<open>applications/heart.c\<close> that it calls, and \<open>led_Init\<close> of \<open>applications/led.c\<close>, which ends
  in \<open>psi_led_init\<close>. \<open>rf_info\<close> is the record of \<open>applications/heart.h\<close>, one per link.
\<close>

section \<open>State\<close>

record rf_info =
  freq :: u16
  retry :: u8
  alive :: u8
  received :: u8
  test :: u8
  testreceived :: u8
  rssi :: int
  rssi_level :: u8
  startup :: u8

record psi_app = queue_app +
  info_433 :: rf_info
  info_4068 :: rf_info
  PSI_Status :: u8
  Valve_Status :: u8
  Psi_Counter :: u8
  Psi_Lost :: u8

definition psi_sem :: nat where "psi_sem = 4"
definition psi_timer :: nat where "psi_timer = 5"

section \<open>Uploads\<close>

definition psi_upload :: "u8 \<Rightarrow> 'a psi_app_scheme \<Rightarrow> 'a psi_app_scheme" where
  "psi_upload val s =
     (if alive (info_4068 s) = 1 \<or> alive (info_433 s) = 1
      then rf_4068_Enqueue (Target_ID s) 2 val (rf_433_Enqueue (Target_ID s) 2 val s)
      else s)"

definition long_upload :: "'a psi_app_scheme \<Rightarrow> 'a psi_app_scheme" where
  "long_upload s =
     rf_4068_Enqueue (Target_ID s) 3 (PSI_Status s) (rf_433_Enqueue (Target_ID s) 3 (PSI_Status s) s)"

section \<open>The pressure switch\<close>

definition psi_open :: "'a psi_app_scheme \<Rightarrow> 'a psi_app_scheme" where
  "psi_open s =
     (if PSI_Status s = 0 \<and> Psi_Lost s = 0
      then psi_upload 1 (transmitter_on (s\<lparr>PSI_Status := 1\<rparr>)) else s)"

definition psi_close :: "'a psi_app_scheme \<Rightarrow> 'a psi_app_scheme" where
  "psi_close s =
     (if PSI_Status s = 1 \<and> Psi_Lost s = 0
      then psi_upload 0 (transmitter_off (s\<lparr>PSI_Status := 0\<rparr>)) else s)"

definition psi_led_init :: "'a psi_app_scheme \<Rightarrow> 'a psi_app_scheme" where
  "psi_led_init s = (if PSI_Status s \<noteq> 0 then transmitter_on s else transmitter_off s)"

definition valve_led_init :: "'a psi_app_scheme \<Rightarrow> 'a psi_app_scheme" where
  "valve_led_init s = (if Valve_Status s \<noteq> 0 then receiver_on s else receiver_off s)"

definition psi_led_resume :: "'a psi_app_scheme \<Rightarrow> 'a psi_app_scheme" where
  "psi_led_resume s =
     (if Psi_Lost s \<noteq> 0
      then let s1 = valve_led_init (psi_led_init (s\<lparr>Psi_Lost := 0\<rparr>))
           in if PSI_Status s1 \<noteq> 0 then psi_open s1 else psi_close s1
      else s)"

definition psi_led_lost :: "'a psi_app_scheme \<Rightarrow> 'a psi_app_scheme" where
  "psi_led_lost s =
     (if Psi_Lost s = 0 then receiver_lost (transmitter_lost (s\<lparr>Psi_Lost := 1\<rparr>)) else s)"

definition psi_timer_callback :: "'a psi_app_scheme \<Rightarrow> 'a psi_app_scheme" where
  "psi_timer_callback s = psi_close s"

text \<open>The interrupt of the pin; masking the interrupt is left to the pin driver.\<close>

definition psi_pin_callback :: "'a psi_app_scheme \<Rightarrow> 'a psi_app_scheme" where
  "psi_pin_callback s = snd (rt_sem_release psi_sem s)"

text \<open>
  One turn of \<open>psi_thread_callback\<close> up to its delay; \<open>ok\<close> says whether \<open>rt_sem_take\<close> got the
  semaphore within its 100 ticks.
\<close>

definition psi_thread_turn :: "bool \<Rightarrow> 'a psi_app_scheme \<Rightarrow> 'a psi_app_scheme" where
  "psi_thread_turn ok s =
     (if ok
      then let s1 = s\<lparr>Psi_Counter := Psi_Counter s + 1\<rparr>
           in if 4 < Psi_Counter s1
              then rt_timer_start psi_timer (psi_open (s1\<lparr>Psi_Counter := 0\<rparr>))
              else s1
      else s\<lparr>Psi_Counter := 0\<rparr>)"

text \<open>The interrupt of the pin \<open>AC\<close>, which wakes the thread, is not part of the state: attaching and
  enabling it here, disabling it in the interrupt and enabling it again at the end of each turn of
  the thread are left out.\<close>

definition psi_init :: "'a psi_app_scheme \<Rightarrow> 'a psi_app_scheme" where
  "psi_init s =
     timer_init psi_timer 5000 (RT_TIMER_FLAG_SOFT_TIMER)
       (sem_create psi_sem 0 RT_IPC_FLAG_PRIO (rt_pin_mode AC 2 s))"

section \<open>The valve\<close>

definition valve_open :: "'a psi_app_scheme \<Rightarrow> 'a psi_app_scheme" where
  "valve_open s =
     (let s1 = (if Valve_Status s \<noteq> 1 \<and> Psi_Lost s = 0 then receiver_on s else s)
      in s1\<lparr>Valve_Status := 1\<rparr>)"

definition valve_close :: "'a psi_app_scheme \<Rightarrow> 'a psi_app_scheme" where
  "valve_close s =
     (let s1 = (if Valve_Status s \<noteq> 0 \<and> Psi_Lost s = 0 then receiver_off s else s)
      in s1\<lparr>Valve_Status := 0\<rparr>)"

definition valve_control :: "u8 \<Rightarrow> 'a psi_app_scheme \<Rightarrow> 'a psi_app_scheme" where
  "valve_control mode s = (if mode \<noteq> 0 then valve_open s else valve_close s)"

section \<open>Creating the LEDs\<close>

text \<open>The calls of \<open>led_Init\<close>; \<open>addr\<close> gives the addresses the heap returns.\<close>

definition led_table :: "(led_id \<times> string) list" where
  "led_table =
     [(LED1_G, ''100,300,500''), (LED1_R, ''100,300,500''), (LED2_G, ''100,100,100''),
      (LED2_R, ''100,100,100''), (LED3_G, ''100,100,100''), (LED3_R, ''100,100,100''),
      (LED4_G, ''100,100,100''), (LED4_R, ''100,100,100''), (LED5_G, ''100,100,100''),
      (LED5_R, ''100,100,100''), (LED6_G, ''100,100,100''), (LED6_R, ''100,100,100''),
      (LED7_G, ''100,300,500''), (LED7_R, ''100,300,500''), (LED8_G, ''100,100,100''),
      (LED8_R, ''100,300,500''), (BEEP, ''100,300,500'')]"

definition led_create :: "(led_id \<Rightarrow> nat) \<Rightarrow> led_id \<times> string \<Rightarrow> 'a led_app_scheme \<Rightarrow> 'a led_app_scheme" where
  "led_create addr im s =
     (let (h, s1) = agile_led_create (addr (fst im)) (led_pin (fst im)) (led_logic (fst im))
                      (Some (snd im)) 1 s
      in s1\<lparr>handle := (handle s1)(fst im := h)\<rparr>)"

definition led_Init :: "(led_id \<Rightarrow> nat) \<Rightarrow> 'a psi_app_scheme \<Rightarrow> 'a psi_app_scheme" where
  "led_Init addr s = psi_led_init (fold (led_create addr) led_table s)"

section \<open>Frame\<close>

lemma run_led_more: "led_app.more (run_led c s) = led_app.more s"
  by (cases c) (auto simp: with_led_def agile_led_set_light_mode_def Let_def malloc_ok_def
      agile_led_dynamic_change_light_mode_def agile_led_get_light_arr_def agile_led_start_def
      agile_led_stop_def agile_led_on_def agile_led_off_def put_led_def rt_pin_write_def
      assert_fail_def split: option.splits)

lemma run_leds_more: "led_app.more (run_leds cs s) = led_app.more s"
  unfolding run_leds_def by (induction cs arbitrary: s) (simp_all add: run_led_more)

text \<open>The LED calls leave the application's other state alone.\<close>

lemma run_leds_psi [simp]:
  fixes s :: "'a psi_app_scheme"
  shows "PSI_Status (run_leds cs s) = PSI_Status s" "Valve_Status (run_leds cs s) = Valve_Status s"
    "Psi_Counter (run_leds cs s) = Psi_Counter s" "Psi_Lost (run_leds cs s) = Psi_Lost s"
    "info_433 (run_leds cs s) = info_433 s" "info_4068 (run_leds cs s) = info_4068 s"
    "Queue_433 (run_leds cs s) = Queue_433 s" "Queue_4068 (run_leds cs s) = Queue_4068 s"
    "Target_ID (run_leds cs s) = Target_ID s" "Self_ID (run_leds cs s) = Self_ID s"
    "mem_fault (run_leds cs s) = mem_fault s"
    "psi_app.more (run_leds cs s) = psi_app.more s"
  using run_leds_more [of cs s] by (cases s; cases "run_leds cs s"; simp)+

lemma timer_start_more: "timer_sys.more (rt_timer_start t s) = timer_sys.more s"
  by (simp add: rt_timer_start_def Let_def upd_timer_def timer_remove_def)

lemma timer_start_psi [simp]:
  fixes s :: "'a psi_app_scheme"
  shows "PSI_Status (rt_timer_start t s) = PSI_Status s"
    "Valve_Status (rt_timer_start t s) = Valve_Status s"
    "Psi_Counter (rt_timer_start t s) = Psi_Counter s" "Psi_Lost (rt_timer_start t s) = Psi_Lost s"
    "info_433 (rt_timer_start t s) = info_433 s" "info_4068 (rt_timer_start t s) = info_4068 s"
    "Queue_433 (rt_timer_start t s) = Queue_433 s" "Queue_4068 (rt_timer_start t s) = Queue_4068 s"
    "mem_fault (rt_timer_start t s) = mem_fault s"
    "psi_app.more (rt_timer_start t s) = psi_app.more s"
  using timer_start_more [of t s] by (cases s; cases "rt_timer_start t s"; simp)+

lemma enqueue_psi [simp]:
  "PSI_Status (rf_433_Enqueue a c v s) = PSI_Status s"
  "PSI_Status (rf_4068_Enqueue a c v s) = PSI_Status s"
  "Psi_Lost (rf_433_Enqueue a c v s) = Psi_Lost s"
  "Psi_Lost (rf_4068_Enqueue a c v s) = Psi_Lost s"
  "Psi_Counter (rf_433_Enqueue a c v s) = Psi_Counter s"
  "Psi_Counter (rf_4068_Enqueue a c v s) = Psi_Counter s"
  "Queue_4068 (rf_433_Enqueue a c v s) = Queue_4068 s"
  "Queue_433 (rf_4068_Enqueue a c v s) = Queue_433 s"
  "Target_ID (rf_433_Enqueue a c v s) = Target_ID s"
  by (auto simp: rf_433_Enqueue_def rf_4068_Enqueue_def set_queue_433_def set_queue_4068_def
      split: option.splits)

lemma psi_upload_psi [simp]:
  "PSI_Status (psi_upload v s) = PSI_Status s" "Psi_Lost (psi_upload v s) = Psi_Lost s"
  "Psi_Counter (psi_upload v s) = Psi_Counter s"
  by (simp_all add: psi_upload_def)

lemmas led_group_defs = transmitter_on_def transmitter_off_def transmitter_lost_def
  receiver_on_def receiver_off_def receiver_lost_def receiver_close_def

section \<open>Properties\<close>

text \<open>The thread's turns over a list of outcomes of \<open>rt_sem_take\<close>.\<close>

definition psi_turns :: "bool list \<Rightarrow> 'a psi_app_scheme \<Rightarrow> 'a psi_app_scheme" where
  "psi_turns oks s = fold psi_thread_turn oks s"

lemma psi_open_status:
  "PSI_Status (psi_open s) = (if PSI_Status s = 0 \<and> Psi_Lost s = 0 then 1 else PSI_Status s)"
  "Psi_Lost (psi_open s) = Psi_Lost s" "Psi_Counter (psi_open s) = Psi_Counter s"
  by (simp_all add: psi_open_def led_group_defs)

definition five_in_a_row :: "bool list \<Rightarrow> bool" where
  "five_in_a_row oks \<longleftrightarrow> (\<exists>pre post. oks = pre @ replicate 5 True @ post)"

lemma five_in_a_row_snoc: "five_in_a_row oks \<Longrightarrow> five_in_a_row (oks @ [ok])"
  unfolding five_in_a_row_def by (metis append.assoc)

lemma psi_turn_counter:
  "Psi_Counter (psi_thread_turn ok s) =
     (if ok then (if 4 < Psi_Counter s + 1 then 0 else Psi_Counter s + 1) else 0)"
  "Psi_Lost (psi_thread_turn ok s) = Psi_Lost s"
  "PSI_Status (psi_thread_turn ok s) =
     (if ok \<and> 4 < Psi_Counter s + 1 \<and> PSI_Status s = 0 \<and> Psi_Lost s = 0 then 1 else PSI_Status s)"
  by (simp_all add: psi_thread_turn_def Let_def psi_open_status)

lemma counter_step: "unat (c :: u8) \<le> 4 \<Longrightarrow>
    4 < c + 1 \<longleftrightarrow> unat c = 4" "unat (c :: u8) \<le> 4 \<Longrightarrow> unat (c + 1) = Suc (unat c)"
  using unat_incr [of c] by (auto simp: word_less_nat_alt)

lemma psi_turns_inv:
  assumes "PSI_Status s = 0" and "Psi_Counter s = 0" and "Psi_Lost s = 0"
  shows "unat (Psi_Counter (psi_turns oks s)) \<le> 4 \<and>
    (\<exists>pre. oks = pre @ replicate (unat (Psi_Counter (psi_turns oks s))) True) \<and>
    Psi_Lost (psi_turns oks s) = 0 \<and>
    (PSI_Status (psi_turns oks s) = 1 \<longrightarrow> five_in_a_row oks) \<and>
    PSI_Status (psi_turns oks s) \<in> {0, 1}"
proof (induction oks rule: rev_induct)
  case Nil
  then show ?case using assms by (simp add: psi_turns_def)
next
  case (snoc ok oks)
  let ?t = "psi_turns oks s"
  have step: "psi_turns (oks @ [ok]) s = psi_thread_turn ok ?t" by (simp add: psi_turns_def)
  obtain pre where c: "unat (Psi_Counter ?t) \<le> 4" and
    pre: "oks = pre @ replicate (unat (Psi_Counter ?t)) True" using snoc by blast
  have five: "five_in_a_row (oks @ [True])" if "unat (Psi_Counter ?t) = 4"
  proof -
    have "oks @ [True] = pre @ replicate 5 True @ []"
      using pre that by (simp add: replicate_append_same numeral_eq_Suc)
    then show ?thesis unfolding five_in_a_row_def by blast
  qed
  have "\<exists>p. oks @ [True] = p @ replicate (Suc (unat (Psi_Counter ?t))) True"
    using pre by (metis append.assoc replicate_Suc replicate_append_same)
  with snoc c five show ?case
    unfolding step psi_turn_counter
    by (cases ok) (auto simp: counter_step dest: five_in_a_row_snoc)
qed

text \<open>The pressure switch is debounced: starting from a closed switch with the counter at
  zero, the thread reports an open switch only after five pulses in a row without a missed one
  between them, and five pulses in a row are enough.\<close>

theorem psi_open_needs_five:
  assumes "PSI_Status s = 0" and "Psi_Counter s = 0" and "Psi_Lost s = 0"
  shows "(PSI_Status (psi_turns oks s) = 1 \<longrightarrow> five_in_a_row oks) \<and>
    PSI_Status (psi_turns (replicate 5 True) s) = 1"
proof -
  have "replicate 5 True = [True, True, True, True, True]" by (simp add: numeral_eq_Suc)
  then have "PSI_Status (psi_turns (replicate 5 True) s) = 1"
    using assms by (simp add: psi_turns_def psi_turn_counter)
  with psi_turns_inv [OF assms] show ?thesis by blast
qed

text \<open>Recovering from the loss of both links does not repeat the upload: although
  \<open>psi_led_resume\<close> calls \<open>psi_open\<close> or \<open>psi_close\<close>, their guards never hold there, so the
  queues, the recorded status and the valve are as before; only the lights and the lost flag
  change.\<close>

theorem psi_resume_no_upload:
  assumes "PSI_Status s \<in> {0, 1}"
  shows "Queue_433 (psi_led_resume s) = Queue_433 s \<and> Queue_4068 (psi_led_resume s) = Queue_4068 s \<and>
    PSI_Status (psi_led_resume s) = PSI_Status s \<and> Valve_Status (psi_led_resume s) = Valve_Status s \<and>
    Psi_Lost (psi_led_resume s) = 0"
  using assms
  by (auto simp: psi_led_resume_def Let_def psi_open_def psi_close_def psi_led_init_def
      valve_led_init_def led_group_defs)

text \<open>A change of the switch is announced on both links iff at least one of them is alive: with
  room in the queues, exactly one message with the peer's identifier, command 2 and the new
  status joins the back of each, and nothing otherwise.\<close>

theorem psi_upload_both:
  assumes "q_wf (Queue_433 s)" and "q_wf (Queue_4068 s)"
    and "unat (TargetNum (Queue_433 s)) < 99" and "unat (TargetNum (Queue_4068 s)) < 99"
    and "\<not> mem_fault s"
  shows "pending (Queue_433 (psi_upload v s)) = pending (Queue_433 s) @
      (if alive (info_4068 s) = 1 \<or> alive (info_433 s) = 1 then [(Target_ID s, 2, v)] else []) \<and>
    pending (Queue_4068 (psi_upload v s)) = pending (Queue_4068 s) @
      (if alive (info_4068 s) = 1 \<or> alive (info_433 s) = 1 then [(Target_ID s, 2, v)] else []) \<and>
    \<not> mem_fault (psi_upload v s)"
  using assms q_enqueue_ok [OF assms(1,3), of "(Target_ID s, 2, v)"]
    q_enqueue_ok [OF assms(2,4), of "(Target_ID s, 2, v)"]
  by (auto simp: psi_upload_def rf_433_Enqueue_def rf_4068_Enqueue_def set_queue_433_def
      set_queue_4068_def)

section \<open>Creating the LEDs\<close>

lemma table_fields [simp]:
  "count_fields ''100,300,500'' = 3" "count_fields ''100,100,100'' = 3"
  by (simp_all add: count_fields_def)

text \<open>The LEDs that have been created so far.\<close>

definition created :: "(led_id \<Rightarrow> nat) \<Rightarrow> led_id set \<Rightarrow> 'a led_app_scheme \<Rightarrow> bool" where
  "created addr A s \<longleftrightarrow> led_is_init s \<and> (\<forall>n. heap_oracle s n) \<and>
     (\<forall>i \<in> A. handle s i = Some (addr i) \<and> (\<exists>x. leds s (addr i) = Some x \<and> led_ready i x))"

lemma led_create_created:
  assumes "inj addr" and "created addr A s" and "m \<noteq> []" and "count_fields m \<noteq> 0"
  shows "created addr (insert i A) (led_create addr (i, m) s)"
proof -
  have ne: "addr j \<noteq> addr i" if "j \<noteq> i" for j using assms(1) that by (auto dest: injD)
  show ?thesis
    using assms(2-4) ne
    by (auto simp: created_def led_create_def agile_led_create_def Let_def malloc_ok_def
        agile_led_get_light_arr_def put_led_def rt_pin_mode_def rt_pin_write_def led_ready_def)
qed

lemma led_table_created:
  assumes "inj addr" and "created addr A s" and "\<forall>(i, m) \<in> set tab. m \<noteq> [] \<and> count_fields m \<noteq> 0"
  shows "created addr (A \<union> fst ` set tab) (fold (led_create addr) tab s)"
  using assms(2,3)
proof (induction tab arbitrary: A s)
  case (Cons im tab)
  obtain i m where im: "im = (i, m)" by (cases im)
  have "created addr (insert i A) (led_create addr (i, m) s)"
    using Cons.prems im by (intro led_create_created assms(1)) auto
  with Cons.IH [OF this] Cons.prems(2) im show ?case by simp
qed simp

text \<open>\<open>led_Init\<close> makes every light usable: if the package is initialised, the heap does not
  fail and returns distinct addresses, then afterwards each of the seventeen pointers refers to
  its own object with its pin, its active level and a pattern.\<close>

theorem led_Init_ready:
  fixes s :: "'a psi_app_scheme"
  assumes "led_is_init s" and "\<forall>n. heap_oracle s n" and "inj addr"
  shows "leds_ready (led_Init addr s)"
proof -
  let ?s = "fold (led_create addr) led_table s"
  have "created addr {} s" using assms by (simp add: created_def)
  from led_table_created [OF assms(3) this, of led_table]
  have c: "created addr (fst ` set led_table) ?s" by (simp add: led_table_def)
  have "i \<in> fst ` set led_table" for i by (cases i) (simp_all add: led_table_def)
  then have h: "handle ?s i = Some (addr i) \<and> (\<exists>x. leds ?s (addr i) = Some x \<and> led_ready i x)" for i
    using c unfolding created_def by blast
  have "inj (handle ?s)" using assms(3) h by (auto simp: inj_def)
  then have r: "leds_ready ?s" using h c by (auto simp: leds_ready_def created_def)
  from run_leds_abs [OF r] show ?thesis
    by (simp add: led_Init_def psi_led_init_def led_group_defs)
qed

section \<open>Witnesses\<close>

definition psi_desk :: "psi_app" where
  "psi_desk = seg_app.extend seg_panel \<lparr>rf_433 = demo_radio (\<lambda>n a. 0), rf_4068 = demo_radio (\<lambda>n a. 0),
     Queue_433 = empty_queue, Queue_4068 = empty_queue, Self_ID = 50000000, Target_ID = 60000000,
     mem_fault = False,
     info_433 = \<lparr>freq = 433, retry = 0, alive = 1, received = 0, test = 0, testreceived = 0, rssi = 0,
       rssi_level = 0, startup = 0\<rparr>,
     info_4068 = \<lparr>freq = 4068, retry = 0, alive = 0, received = 0, test = 0, testreceived = 0,
       rssi = 0, rssi_level = 0, startup = 0\<rparr>,
     PSI_Status = 0, Valve_Status = 2, Psi_Counter = 0, Psi_Lost = 0\<rparr>"

lemma psi_desk_simps [simp]:
  "PSI_Status psi_desk = 0" "Psi_Counter psi_desk = 0" "Psi_Lost psi_desk = 0"
  "Valve_Status psi_desk = 2" "Queue_433 psi_desk = empty_queue" "Queue_4068 psi_desk = empty_queue"
  "alive (info_433 psi_desk) = 1" "alive (info_4068 psi_desk) = 0" "Target_ID psi_desk = 60000000"
  "Self_ID psi_desk = 50000000" "\<not> mem_fault psi_desk" "led_is_init psi_desk"
  "heap_oracle psi_desk = (\<lambda>_. True)"
  by (simp_all add: psi_desk_def seg_app.defs seg_panel_def led_app.defs panel_def led_env.defs
      bench_def kern.defs idle_kern_def)

theorem psi_open_needs_five_witness:
  "PSI_Status (psi_turns (replicate 5 True) psi_desk) = 1"
  using psi_open_needs_five [of psi_desk] by simp

theorem psi_resume_no_upload_witness:
  "Queue_433 (psi_led_resume (psi_desk\<lparr>Psi_Lost := 1\<rparr>)) = empty_queue"
  using psi_resume_no_upload [of "psi_desk\<lparr>Psi_Lost := 1\<rparr>"] by simp

lemma pending_empty [simp]: "pending empty_queue = []" "TargetNum empty_queue = 0"
  by (simp_all add: pending_def empty_queue_def)

theorem psi_upload_both_witness:
  "pending (Queue_4068 (psi_upload 1 psi_desk)) = [(60000000, 2, 1)]"
  using psi_upload_both [of psi_desk 1] by (simp add: q_wf_empty)

theorem led_Init_ready_witness: "leds_ready (led_Init (\<lambda>i. unat (led_pin i)) psi_desk)"
  by (rule led_Init_ready) (simp_all add: inj_def led_pin_inj flip: word_unat_eq_iff)

end
