(* ===== verification/Storage.thy ===== *)
theory Storage
  imports Psi
begin

text \<open>
  The persistent state: \<open>applications/flashwork.c\<close> (two keys in the EasyFlash store) and the CSV
  files and \<open>flash_Init\<close> of \<open>filesystem/little.c\<close>.

  The key-value store and the file system are used through their interfaces only. They are
  the argument \<open>E\<close> of the functions: a record of operations on a storage state of any type.
\<close>

section \<open>State\<close>

text \<open>
  \<open>ef_get_env_blob\<close> (the bytes read, at most 64), \<open>ef_set_env\<close>, \<open>open\<close> with
  \<open>O_WRONLY | O_CREAT | O_APPEND\<close>, \<open>write\<close>, \<open>close\<close> and \<open>unlink\<close>.
\<close>

record 'e storage_ops =
  ef_get :: "'e \<Rightarrow> string \<Rightarrow> string"
  ef_set :: "'e \<Rightarrow> string \<Rightarrow> string \<Rightarrow> 'e"
  fs_open :: "'e \<Rightarrow> string \<Rightarrow> int \<times> 'e"
  fs_write :: "'e \<Rightarrow> int \<Rightarrow> string \<Rightarrow> 'e"
  fs_close :: "'e \<Rightarrow> int \<Rightarrow> 'e"
  fs_unlink :: "'e \<Rightarrow> string \<Rightarrow> 'e"

record 'e file_app = psi_app +
  storage :: 'e
  Global_Nums :: u32

definition TOP_LOG :: string where "TOP_LOG = ''/SPSI_TopLog.csv''"
definition DOWN_LOG :: string where "DOWN_LOG = ''/SPSI_DownLog.csv''"

section \<open>Keys\<close>

definition flash_get :: "'e storage_ops \<Rightarrow> string \<Rightarrow> ('e, 'a) file_app_scheme \<Rightarrow> u32" where
  "flash_get E key s =
     (let v = ef_get E (storage s) key; read_len = word_of_nat (length v) :: u8
      in if 0 < read_len then word_of_int (atoi v) else 0)"

definition Flash_Get_IDNums :: "'e storage_ops \<Rightarrow> ('e, 'a) file_app_scheme \<Rightarrow> u32" where
  "Flash_Get_IDNums E s = flash_get E ''id'' s"

definition Flash_Get_Boot :: "'e storage_ops \<Rightarrow> ('e, 'a) file_app_scheme \<Rightarrow> u32" where
  "Flash_Get_Boot E s = flash_get E ''boot_times'' s"

text \<open>\<open>%ld\<close> of the unsigned value; the buffer from \<open>rt_malloc\<close> is not checked.\<close>

definition flash_change ::
  "'e storage_ops \<Rightarrow> string \<Rightarrow> u32 \<Rightarrow> ('e, 'a) file_app_scheme \<Rightarrow> ('e, 'a) file_app_scheme" where
  "flash_change E key v s =
     (let (ok, s1) = malloc_ok s
      in if \<not> ok then s1\<lparr>mem_fault := True\<rparr>
         else s1\<lparr>storage := ef_set E (storage s1) key (fmt_d (sint v))\<rparr>)"

definition Flash_IDNums_Change ::
  "'e storage_ops \<Rightarrow> u32 \<Rightarrow> ('e, 'a) file_app_scheme \<Rightarrow> ('e, 'a) file_app_scheme" where
  "Flash_IDNums_Change E v s = flash_change E ''id'' v s"

definition Flash_Boot_Change ::
  "'e storage_ops \<Rightarrow> u32 \<Rightarrow> ('e, 'a) file_app_scheme \<Rightarrow> ('e, 'a) file_app_scheme" where
  "Flash_Boot_Change E v s = flash_change E ''boot_times'' v s"

section \<open>Files\<close>

definition append_file ::
  "'e storage_ops \<Rightarrow> string \<Rightarrow> string \<Rightarrow> ('e, 'a) file_app_scheme \<Rightarrow> ('e, 'a) file_app_scheme" where
  "append_file E path buf s =
     (let (fd, e) = fs_open E (storage s) path
      in if 0 \<le> fd then s\<lparr>storage := fs_close E (fs_write E e fd buf) fd\<rparr> else s\<lparr>storage := e\<rparr>)"

definition write_csv_top ::
  "'e storage_ops \<Rightarrow> string \<Rightarrow> ('e, 'a) file_app_scheme \<Rightarrow> ('e, 'a) file_app_scheme" where
  "write_csv_top E buf s = append_file E TOP_LOG buf s"

definition write_csv_down ::
  "'e storage_ops \<Rightarrow> string \<Rightarrow> ('e, 'a) file_app_scheme \<Rightarrow> ('e, 'a) file_app_scheme" where
  "write_csv_down E buf s = append_file E DOWN_LOG buf s"

definition csv_header :: string where
  "csv_header = ''No: Freq: Valve: PSI: Shake: Tx: Rssi: First: Button:\<newline>''"

definition csv_top_init :: "'e storage_ops \<Rightarrow> ('e, 'a) file_app_scheme \<Rightarrow> ('e, 'a) file_app_scheme" where
  "csv_top_init E s =
     (let (ok, s1) = malloc_ok s
      in if \<not> ok then s1\<lparr>mem_fault := True\<rparr>
         else write_csv_top E csv_header (s1\<lparr>storage := fs_unlink E (storage s1) TOP_LOG\<rparr>))"

definition csv_down_init :: "'e storage_ops \<Rightarrow> ('e, 'a) file_app_scheme \<Rightarrow> ('e, 'a) file_app_scheme" where
  "csv_down_init E s =
     (let (ok, s1) = malloc_ok s
      in if \<not> ok then s1\<lparr>mem_fault := True\<rparr>
         else write_csv_down E csv_header (s1\<lparr>storage := fs_unlink E (storage s1) DOWN_LOG\<rparr>))"

section \<open>Start-up\<close>

text \<open>
  The outcomes of the calls \<open>flash_Init\<close> makes: the probe of the chip, the number that
  \<open>fal_init\<close> returns, the success of \<open>easyflash_init\<close>, of creating the device, of the first
  and of the second mount. The result tells how far it came; the last two mean that a file
  system was mounted or that even after formatting none could be.
\<close>

datatype flash_status = Flash_failed | Mounted | Formatted_mounted | Not_mounted

definition flash_Init :: "bool \<Rightarrow> int \<Rightarrow> bool \<Rightarrow> bool \<Rightarrow> bool \<Rightarrow> bool \<Rightarrow> rt_err \<times> flash_status" where
  "flash_Init probe fal ef dev mount1 mount2 =
     (if \<not> probe then (RT_ERROR, Flash_failed)
      else if fal = 0 then (RT_ERROR, Flash_failed)
      else if \<not> ef then (RT_ERROR, Flash_failed)
      else if \<not> dev then (RT_ERROR, Flash_failed)
      else (RT_EOK, if mount1 then Mounted else if mount2 then Formatted_mounted else Not_mounted))"

section \<open>What the storage promises\<close>

text \<open>
  Documented behaviour of the two packages, over a reading of the storage state as a store
  \<open>env\<close> and a set of files \<open>file\<close>: a value of up to 64 bytes is stored and read back; opening
  for append succeeds and writing appends, creating the file if need be; unlinking removes it.
\<close>

definition storage_ok ::
  "'e storage_ops \<Rightarrow> ('e \<Rightarrow> string \<Rightarrow> string option) \<Rightarrow> ('e \<Rightarrow> string \<Rightarrow> string option) \<Rightarrow> bool" where
  "storage_ok E env file \<longleftrightarrow>
     (\<forall>e k v. length v \<le> 64 \<longrightarrow> env (ef_set E e k v) = (env e)(k \<mapsto> v) \<and> file (ef_set E e k v) = file e) \<and>
     (\<forall>e k. ef_get E e k = (case env e k of None \<Rightarrow> [] | Some v \<Rightarrow> v)) \<and>
     (\<forall>e p b. 0 \<le> fst (fs_open E e p) \<and>
        file (fs_close E (fs_write E (snd (fs_open E e p)) (fst (fs_open E e p)) b)
          (fst (fs_open E e p))) =
          (file e)(p \<mapsto> (case file e p of None \<Rightarrow> [] | Some t \<Rightarrow> t) @ b) \<and>
        env (fs_close E (fs_write E (snd (fs_open E e p)) (fst (fs_open E e p)) b)
          (fst (fs_open E e p))) = env e) \<and>
     (\<forall>e p. file (fs_unlink E e p) = (file e)(p := None) \<and> env (fs_unlink E e p) = env e)"

text \<open>An instance: the two maps, and the path that is open.\<close>

type_synonym ram_disk = "(string \<Rightarrow> string option) \<times> (string \<Rightarrow> string option) \<times> string"

definition ram_ops :: "ram_disk storage_ops" where
  "ram_ops = \<lparr>ef_get = (\<lambda>(env, file, p) k. case env k of None \<Rightarrow> [] | Some v \<Rightarrow> v),
     ef_set = (\<lambda>(env, file, p) k v. (env(k \<mapsto> v), file, p)),
     fs_open = (\<lambda>(env, file, p) q. (3, (env, file, q))),
     fs_write = (\<lambda>(env, file, p) fd b.
       (env, file(p \<mapsto> (case file p of None \<Rightarrow> [] | Some t \<Rightarrow> t) @ b), p)),
     fs_close = (\<lambda>e fd. e),
     fs_unlink = (\<lambda>(env, file, p) q. (env, file(q := None), p))\<rparr>"

definition ram_env :: "ram_disk \<Rightarrow> string \<Rightarrow> string option" where "ram_env e = fst e"
definition ram_file :: "ram_disk \<Rightarrow> string \<Rightarrow> string option" where "ram_file e = fst (snd e)"

lemma ram_storage_ok: "storage_ok ram_ops ram_env ram_file"
  by (simp add: storage_ok_def ram_ops_def ram_env_def ram_file_def split_beta)

section \<open>Facts\<close>

lemma append_file_ok:
  assumes "storage_ok E env file"
  shows "file (storage (append_file E p b s)) =
      (file (storage s))(p \<mapsto> (case file (storage s) p of None \<Rightarrow> [] | Some t \<Rightarrow> t) @ b)"
    and "env (storage (append_file E p b s)) = env (storage s)"
  using assms by (auto simp: storage_ok_def append_file_def split_beta Let_def)

lemma unlink_ok:
  assumes "storage_ok E env file"
  shows "file (fs_unlink E e p) = (file e)(p := None)" and "env (fs_unlink E e p) = env e"
  using assms by (auto simp: storage_ok_def)

lemma strtol10_fmt_d:
  assumes "- (2 ^ 31) \<le> n" and "n < 2 ^ 31"
  shows "atoi (fmt_d n) = n"
proof (cases "n < 0")
  case False
  have "strtol10 (nat_digits (nat n) @ []) = Some (int (digits_val 0 (nat_digits (nat n))), [])"
    by (rule strtol10_digits) (use assms nat_digits_digits False in auto)
  then show ?thesis using False by (simp add: fmt_d_def atoi_def)
next
  case True
  let ?ds = "nat_digits (nat (- n))"
  have tw: "takeWhile is_digit ?ds = ?ds" "dropWhile is_digit ?ds = []"
    using nat_digits_digits by (simp_all add: takeWhile_eq_all_conv dropWhile_eq_Nil_conv)
  have "\<not> is_space CHR ''-''" by (simp add: is_space_def code_of_def)
  then have "strtol10 (CHR ''-'' # ?ds) = Some (clamp32 (- int (digits_val 0 ?ds)), [])"
    by (simp add: strtol10_def read_sign_def tw)
  then show ?thesis
    using True assms by (simp add: fmt_d_def atoi_def clamp32_def)
qed

lemma length_fmt_d: "\<bar>n\<bar> < 10 ^ Suc k \<Longrightarrow> length (fmt_d n) \<le> Suc (Suc k)"
  using length_nat_digits [of "nat (- n)" k] length_nat_digits [of "nat n" k]
  by (auto simp: fmt_d_def nat_less_iff)

lemma sint32_bounds: "- (2 ^ 31) \<le> sint (v :: u32)" "sint v < 2 ^ 31" "\<bar>sint v\<bar> < 10 ^ Suc 9"
  using sint_lt [of v] sint_ge [of v] by (auto simp: abs_less_iff)

lemma fmt_d_u32: "0 < length (fmt_d (sint (v :: u32)))" "length (fmt_d (sint v)) \<le> 11"
  using length_fmt_d [OF sint32_bounds(3) [of v]] by (auto simp: fmt_d_def)

section \<open>Properties\<close>

lemma flash_keys:
  assumes "storage_ok E env file" and "\<forall>n. heap_oracle s n"
  shows "Flash_Get_IDNums E (Flash_IDNums_Change E v s) = v"
    and "Flash_Get_Boot E (Flash_IDNums_Change E v s) = Flash_Get_Boot E s"
    and "Flash_Get_Boot E (Flash_Boot_Change E v s) = v"
    and "Flash_Get_IDNums E (Flash_Boot_Change E v s) = Flash_Get_IDNums E s"
proof -
  have w: "word_of_nat (length (fmt_d (sint v))) > (0 :: u8)"
    using fmt_d_u32 [of v] by (simp add: word_less_nat_alt unat_of_nat)
  show "Flash_Get_IDNums E (Flash_IDNums_Change E v s) = v"
    and "Flash_Get_Boot E (Flash_IDNums_Change E v s) = Flash_Get_Boot E s"
    and "Flash_Get_Boot E (Flash_Boot_Change E v s) = v"
    and "Flash_Get_IDNums E (Flash_Boot_Change E v s) = Flash_Get_IDNums E s"
    using assms fmt_d_u32 [of v] w strtol10_fmt_d [OF sint32_bounds(1,2) [of v]]
    by (simp_all add: Flash_Get_IDNums_def Flash_IDNums_Change_def Flash_Get_Boot_def
        Flash_Boot_Change_def flash_get_def flash_change_def malloc_ok_def storage_ok_def)
qed

lemma flash_change_file:
  assumes "storage_ok E env file"
  shows "file (storage (flash_change E key v s)) = file (storage s)"
  using assms fmt_d_u32(2) [of v]
  by (simp add: flash_change_def malloc_ok_def Let_def storage_ok_def)

text \<open>C37: Numbers survive the store: whatever 32-bit value is written under one of the keys, also
  one above \<open>2\<^sup>31\<close> that is printed as a negative number, reading the key gives it back, and the
  other key is unaffected.\<close>

theorem flash_keys_roundtrip:
  assumes "storage_ok E env file" and "\<forall>n. heap_oracle s n"
  shows "Flash_Get_IDNums E (Flash_IDNums_Change E v s) = v \<and>
    Flash_Get_Boot E (Flash_IDNums_Change E v s) = Flash_Get_Boot E s \<and>
    Flash_Get_Boot E (Flash_Boot_Change E v s) = v \<and>
    Flash_Get_IDNums E (Flash_Boot_Change E v s) = Flash_Get_IDNums E s"
  using flash_keys [OF assms] by blast

definition disk_desk :: "ram_disk file_app" where
  "disk_desk = psi_app.extend psi_desk
     \<lparr>storage = (Map.empty, Map.empty, []), Global_Nums = 0\<rparr>"

lemma disk_desk_simps [simp]:
  "storage disk_desk = (Map.empty, Map.empty, [])" "Global_Nums disk_desk = 0"
  "heap_oracle disk_desk = (\<lambda>_. True)"
  by (simp_all add: disk_desk_def psi_app.defs psi_desk_def seg_app.defs seg_panel_def led_app.defs
      panel_def led_env.defs bench_def kern.defs idle_kern_def)

theorem flash_keys_roundtrip_witness:
  "Flash_Get_IDNums ram_ops (Flash_IDNums_Change ram_ops 0xFFFFFFFE disk_desk) = 0xFFFFFFFE"
  using flash_keys_roundtrip [OF ram_storage_ok, of disk_desk "0xFFFFFFFE"] by simp

lemma csv_init:
  assumes "storage_ok E env file" and "\<forall>n. heap_oracle s n"
  shows "file (storage (csv_top_init E s)) = (file (storage s))(TOP_LOG \<mapsto> csv_header) \<and>
    file (storage (csv_down_init E s)) = (file (storage s))(DOWN_LOG \<mapsto> csv_header) \<and>
    env (storage (csv_top_init E s)) = env (storage s) \<and>
    env (storage (csv_down_init E s)) = env (storage s)"
  using assms(2)
  by (simp add: csv_top_init_def csv_down_init_def write_csv_top_def write_csv_down_def
      malloc_ok_def append_file_ok [OF assms(1)] unlink_ok [OF assms(1)])

text \<open>Initialising a log leaves exactly the header line in it, whatever it held, and does not
  touch the other log or the store; the header fits the 64-byte buffer it is printed into.\<close>

theorem csv_init_header:
  assumes "storage_ok E env file" and "\<forall>n. heap_oracle s n"
  shows "file (storage (csv_top_init E s)) = (file (storage s))(TOP_LOG \<mapsto> csv_header) \<and>
    file (storage (csv_down_init E s)) = (file (storage s))(DOWN_LOG \<mapsto> csv_header) \<and>
    env (storage (csv_top_init E s)) = env (storage s) \<and>
    env (storage (csv_down_init E s)) = env (storage s) \<and> length csv_header < 64"
  using csv_init [OF assms] by (simp add: csv_header_def)

theorem csv_init_header_witness:
  "ram_file (storage (csv_top_init ram_ops disk_desk)) TOP_LOG = Some csv_header"
  using csv_init_header [OF ram_storage_ok, of disk_desk] by simp

text \<open>Start-up of the storage: it reports success only if the chip was found, the partitions
  were initialised, the store was initialised and the device was created; but it takes every
  negative answer of \<open>fal_init\<close>, that is every failure other than an empty partition table, for
  success, and it reports success also when no file system could be mounted.\<close>

theorem flash_Init_outcomes:
  "(fst (flash_Init probe fal ef dev m1 m2) = RT_EOK) = (probe \<and> fal \<noteq> 0 \<and> ef \<and> dev) \<and>
   fst (flash_Init True (- 1) True True m1 m2) = RT_EOK \<and>
   flash_Init True 1 True True False False = (RT_EOK, Not_mounted)"
  by (auto simp: flash_Init_def)

end
