(* ===== verification/File_Log.thy ===== *)
theory File_Log
  imports Storage
begin

text \<open>
  The event log: \<open>applications/file.c\<close>. Every record gets the next sequence number and goes to
  one of two files, by turns of 200000 records; the last number is kept in the store. A mutex
  that is only try-taken keeps readers and writers apart; \<open>self\<close> is the calling thread.
\<close>

definition spsi_read_mutex :: nat where "spsi_read_mutex = 2"

text \<open>\<open>sprintf(buf, "%d %d %d %d %d %d %d %d %d\n", ...)\<close>\<close>

definition log_line ::
  "u32 \<Rightarrow> u8 \<Rightarrow> u8 \<Rightarrow> u8 \<Rightarrow> u8 \<Rightarrow> u8 \<Rightarrow> int \<Rightarrow> u8 \<Rightarrow> u8 \<Rightarrow> string" where
  "log_line n select valve psi shake send_num rs first button =
     fmt_d (sint n) @ CHR '' '' # fmt_d (if 0 < select then 433 else 4068) @ CHR '' '' #
     fmt_d (uint valve) @ CHR '' '' # fmt_d (uint psi) @ CHR '' '' # fmt_d (uint shake) @ CHR '' '' #
     fmt_d (uint send_num) @ CHR '' '' # fmt_d rs @ CHR '' '' # fmt_d (uint first) @ CHR '' '' #
     fmt_d (uint button) @ [CHR 0x0A]"

text \<open>What \<open>File_Output\<close> does under the mutex.\<close>

definition write_record ::
  "'e storage_ops \<Rightarrow> (u32 \<Rightarrow> string) \<Rightarrow> ('e, 'a) file_app_scheme \<Rightarrow> ('e, 'a) file_app_scheme" where
  "write_record E line s =
     (let (ok, s1) = malloc_ok s;
          s2 = s1\<lparr>Global_Nums := Global_Nums s1 + 1\<rparr>;
          n = Global_Nums s2; buf = line n
      in if \<not> ok then s2\<lparr>mem_fault := True\<rparr>
         else
           let s3 = (if n mod 400000 < 200000
                     then write_csv_top E buf (if n mod 400000 = 0 then csv_top_init E s2 else s2)
                     else write_csv_down E buf (if n mod 400000 = 200000 then csv_down_init E s2 else s2))
           in Flash_IDNums_Change E (Global_Nums s3) s3)"

text \<open>The release at the end is executed also when the mutex was not obtained.\<close>

definition File_Output ::
  "'e storage_ops \<Rightarrow> nat \<Rightarrow> u8 \<Rightarrow> u8 \<Rightarrow> u8 \<Rightarrow> u8 \<Rightarrow> u8 \<Rightarrow> int \<Rightarrow> u8 \<Rightarrow> u8
     \<Rightarrow> ('e, 'a) file_app_scheme \<Rightarrow> ('e, 'a) file_app_scheme" where
  "File_Output E self select valve psi shake send_num rs first button s =
     (let (r, s1) = rt_mutex_trytake self spsi_read_mutex s;
          s2 = (if r = Some RT_EOK
                then write_record E (\<lambda>n. log_line n select valve psi shake send_num rs first button) s1
                else s1)
      in snd (rt_mutex_release self spsi_read_mutex s2))"

definition ID_Init :: "'e storage_ops \<Rightarrow> ('e, 'a) file_app_scheme \<Rightarrow> ('e, 'a) file_app_scheme" where
  "ID_Init E s =
     (let s1 = mutex_create spsi_read_mutex RT_IPC_FLAG_PRIO s
      in if Flash_Get_Boot E s1 = 0
         then csv_down_init E (csv_top_init E (Flash_IDNums_Change E 0
                ((Flash_Boot_Change E 1 s1)\<lparr>Global_Nums := 0\<rparr>)))
         else s1\<lparr>Global_Nums := Flash_Get_IDNums E s1\<rparr>)"

text \<open>
  \<open>spsiread1\<close> and \<open>spsiread2\<close> after their delay (before it they call \<open>long_upload\<close>); \<open>up\<close> is
  the Y-modem transfer of the file, with the console switched to the second UART and back.
\<close>

definition spsiread ::
  "(string \<Rightarrow> ('e, 'a) file_app_scheme \<Rightarrow> ('e, 'a) file_app_scheme) \<Rightarrow> string \<Rightarrow> nat
     \<Rightarrow> ('e, 'a) file_app_scheme \<Rightarrow> ('e, 'a) file_app_scheme" where
  "spsiread up path self s =
     (let (r, s1) = rt_mutex_trytake self spsi_read_mutex s;
          s2 = (if r = Some RT_EOK then up path s1 else s1)
      in snd (rt_mutex_release self spsi_read_mutex s2))"

definition spsiread1 ::
  "(string \<Rightarrow> ('e, 'a) file_app_scheme \<Rightarrow> ('e, 'a) file_app_scheme) \<Rightarrow> nat
     \<Rightarrow> ('e, 'a) file_app_scheme \<Rightarrow> ('e, 'a) file_app_scheme" where
  "spsiread1 up self s = spsiread up TOP_LOG self s"

definition spsiread2 ::
  "(string \<Rightarrow> ('e, 'a) file_app_scheme \<Rightarrow> ('e, 'a) file_app_scheme) \<Rightarrow> nat
     \<Rightarrow> ('e, 'a) file_app_scheme \<Rightarrow> ('e, 'a) file_app_scheme" where
  "spsiread2 up self s = spsiread up DOWN_LOG self s"

section \<open>Frame\<close>

lemma mutex_more:
  "kern.more (snd (rt_mutex_take p i n s)) = kern.more s"
  "kern.more (snd (rt_mutex_release p i s)) = kern.more s"
  by (auto simp: rt_mutex_take_def rt_mutex_release_def Let_def split: option.splits list.splits)

lemma mutex_file [simp]:
  fixes s :: "('e, 'a) file_app_scheme"
  shows "storage (snd (rt_mutex_take p i n s)) = storage s"
    "Global_Nums (snd (rt_mutex_take p i n s)) = Global_Nums s"
    "heap_oracle (snd (rt_mutex_take p i n s)) = heap_oracle s"
    "mem_fault (snd (rt_mutex_take p i n s)) = mem_fault s"
    "storage (snd (rt_mutex_release p i s)) = storage s"
    "Global_Nums (snd (rt_mutex_release p i s)) = Global_Nums s"
    "heap_oracle (snd (rt_mutex_release p i s)) = heap_oracle s"
    "mem_fault (snd (rt_mutex_release p i s)) = mem_fault s"
    "Queue_433 (snd (rt_mutex_release p i s)) = Queue_433 s"
    "Queue_4068 (snd (rt_mutex_release p i s)) = Queue_4068 s"
    "Queue_433 (snd (rt_mutex_take p i n s)) = Queue_433 s"
    "Queue_4068 (snd (rt_mutex_take p i n s)) = Queue_4068 s"
  using mutex_more(1) [of p i n s] mutex_more(2) [of p i s]
  by (cases s; cases "snd (rt_mutex_take p i n s)"; cases "snd (rt_mutex_release p i s)"; simp)+

lemma record_mutexes [simp]:
  "mutexes (append_file E p b s) = mutexes s"
  "mutexes (csv_top_init E s) = mutexes s" "mutexes (csv_down_init E s) = mutexes s"
  "mutexes (Flash_IDNums_Change E v s) = mutexes s"
  "Global_Nums (append_file E p b s) = Global_Nums s"
  "Global_Nums (csv_top_init E s) = Global_Nums s" "Global_Nums (csv_down_init E s) = Global_Nums s"
  "Global_Nums (Flash_IDNums_Change E v s) = Global_Nums s"
  "heap_oracle (append_file E p b s) = heap_oracle s"
  "heap_oracle (csv_top_init E s) = heap_oracle s" "heap_oracle (csv_down_init E s) = heap_oracle s"
  by (auto simp: append_file_def csv_top_init_def csv_down_init_def Flash_IDNums_Change_def
      flash_change_def write_csv_top_def write_csv_down_def malloc_ok_def Let_def split: prod.splits)

lemma flash_heap [simp]:
  "heap_oracle (Flash_IDNums_Change E v s) = heap_oracle s"
  "heap_oracle (Flash_Boot_Change E v s) = heap_oracle s"
  by (auto simp: Flash_IDNums_Change_def Flash_Boot_Change_def flash_change_def malloc_ok_def Let_def)

lemma write_record_mutexes [simp]: "mutexes (write_record E l s) = mutexes s"
  by (simp add: write_record_def Let_def malloc_ok_def write_csv_top_def write_csv_down_def)

lemma File_Output_guarded:
  "File_Output E self a b c d e f g h s =
     mtx.guarded spsi_read_mutex self
       (write_record E (\<lambda>n. log_line n a b c d e f g h)) s"
  by (simp add: File_Output_def mtx.guarded_def mutex_try_def mutex_unlock_def Let_def
      split: prod.splits)

lemma write_record_lock:
  "try_only i s \<Longrightarrow> try_only i (write_record E l s) \<and>
     mutex_holder i (write_record E l s) = mutex_holder i s"
  by (simp add: try_only_def mutex_holder_def)

section \<open>Properties\<close>

text \<open>The log that record \<open>n\<close> belongs to, and what the log holds after it.\<close>

definition log_of :: "u32 \<Rightarrow> string" where
  "log_of n = (if n mod 400000 < 200000 then TOP_LOG else DOWN_LOG)"

definition log_after :: "u32 \<Rightarrow> string option \<Rightarrow> string \<Rightarrow> string" where
  "log_after n old line =
     (if n mod 400000 = 0 \<or> n mod 400000 = 200000 then csv_header
      else case old of None \<Rightarrow> [] | Some t \<Rightarrow> t) @ line"

lemma write_record_ok:
  assumes st: "storage_ok E env file" and hp: "\<forall>n. heap_oracle s n" and ln: "n = Global_Nums s + 1"
  shows "Global_Nums (write_record E l s) = n \<and>
    file (storage (write_record E l s)) =
      (file (storage s))(log_of n \<mapsto> log_after n (file (storage s) (log_of n)) (l n)) \<and>
    env (storage (write_record E l s)) = (env (storage s))(''id'' \<mapsto> fmt_d (sint n))"
proof -
  let ?s = "s\<lparr>heap_calls := Suc (heap_calls s), Global_Nums := n\<rparr>"
  have st1: "file (storage (csv_top_init E t)) = (file (storage t))(TOP_LOG \<mapsto> csv_header)"
    "file (storage (csv_down_init E t)) = (file (storage t))(DOWN_LOG \<mapsto> csv_header)"
    "env (storage (csv_top_init E t)) = env (storage t)"
    "env (storage (csv_down_init E t)) = env (storage t)" if "\<forall>n. heap_oracle t n"
    for t :: "('a, 'b) file_app_scheme"
    using csv_init [OF st that] by blast+
  have set: "env (ef_set E e k (fmt_d (sint n))) = (env e)(k \<mapsto> fmt_d (sint n))"
    "file (ef_set E e k (fmt_d (sint n))) = file e" for e k
    using st fmt_d_u32(2) [of n] by (auto simp: storage_ok_def)
  have ne: "\<not> (200000 :: u32) < 200000" "(200000 :: u32) \<noteq> 0" by simp_all
  show ?thesis
    using hp
    by (simp add: write_record_def malloc_ok_def Let_def write_csv_top_def write_csv_down_def
        append_file_ok [OF st] st1 ln [symmetric] Flash_IDNums_Change_def flash_change_def set
        log_of_def log_after_def)
qed

lemma try_only_take:
  fixes s :: "('e, 'a) file_app_scheme"
  shows "storage (snd (mutex_try i p s)) = storage s"
    and "Global_Nums (snd (mutex_try i p s)) = Global_Nums s"
    and "heap_oracle (snd (mutex_try i p s)) = heap_oracle s"
    and "storage (mutex_unlock i p s) = storage s"
    and "Global_Nums (mutex_unlock i p s) = Global_Nums s"
  by (simp_all add: mutex_try_def mutex_unlock_def rt_mutex_trytake_def Let_def case_prod_unfold)

text \<open>A record is logged when nobody holds the mutex: the sequence number grows by one, the
  record is appended to the log of its turn (behind a fresh header when a turn of 200000
  begins), the other log is untouched, the store remembers the new number, and the mutex is
  free again.\<close>

theorem file_output_logs:
  fixes E :: "'e storage_ops" and s :: "('e, 'a) file_app_scheme" and self :: nat
    and sel valve psi shake num first button :: u8 and rs :: int
  assumes "storage_ok E env file" and "\<forall>n. heap_oracle s n" and "n = Global_Nums s + 1"
    and "try_only spsi_read_mutex s" and "mutex_holder spsi_read_mutex s = None"
  defines "t \<equiv> File_Output E self sel valve psi shake num rs first button s"
  shows "Global_Nums t = n \<and>
    file (storage t) = (file (storage s))(log_of n \<mapsto>
      log_after n (file (storage s) (log_of n)) (log_line n sel valve psi shake num rs first button)) \<and>
    env (storage t) = (env (storage s))(''id'' \<mapsto> fmt_d (sint n)) \<and>
    mutex_holder spsi_read_mutex t = None"
proof -
  let ?l = "\<lambda>n. log_line n sel valve psi shake num rs first button"
  let ?u = "snd (mutex_try spsi_read_mutex self s)"
  have t: "t = mutex_unlock spsi_read_mutex self (write_record E ?l ?u)"
    and free: "mutex_holder spsi_read_mutex t = None"
    using mtx.guarded_free [of spsi_read_mutex s "write_record E ?l" self, OF assms(4,5)]
      write_record_lock [of spsi_read_mutex _ E ?l]
    unfolding t_def File_Output_guarded by blast+
  have "\<forall>n. heap_oracle ?u n" "n = Global_Nums ?u + 1"
    using assms(2,3) by (simp_all add: try_only_take)
  from write_record_ok [OF assms(1) this, of ?l] free show ?thesis
    by (simp add: t try_only_take)
qed

text \<open>While another thread reads or writes the log, \<open>File_Output\<close> drops the record: no file,
  no stored number and no sequence number changes, and its stray release leaves the mutex with
  its owner.\<close>

theorem file_output_busy:
  fixes E :: "'e storage_ops" and s :: "('e, 'a) file_app_scheme" and self :: nat
    and sel valve psi shake num first button :: u8 and rs :: int
  assumes "try_only spsi_read_mutex s" and "mutex_holder spsi_read_mutex s = Some (q, d)"
    and "q \<noteq> self"
  defines "t \<equiv> File_Output E self sel valve psi shake num rs first button s"
  shows "Global_Nums t = Global_Nums s \<and> storage t = storage s \<and>
    mutex_holder spsi_read_mutex t = Some (q, d)"
proof -
  let ?l = "\<lambda>n. log_line n sel valve psi shake num rs first button"
  from mtx.guarded_busy [of spsi_read_mutex s q d self "write_record E ?l", OF assms(1-3)]
  show ?thesis unfolding t_def File_Output_guarded by (simp add: try_only_take)
qed

lemma holder_create [simp]:
  "mutex_holder i (mutex_create i fl s) = None" "try_only i (mutex_create i fl s)"
  by (simp_all add: mutex_create_def upd_mutex_def mutex_holder_def try_only_def mutex_ok_def)

lemma create_file [simp]:
  fixes s :: "('e, 'a) file_app_scheme"
  shows "storage (mutex_create i fl s) = storage s" "heap_oracle (mutex_create i fl s) = heap_oracle s"
    "Global_Nums (mutex_create i fl s) = Global_Nums s"
  by (simp_all add: mutex_create_def upd_mutex_def)

definition log_desk :: "ram_disk file_app" where
  "log_desk = mutex_create spsi_read_mutex RT_IPC_FLAG_PRIO disk_desk"

theorem file_output_logs_witness:
  "Global_Nums (File_Output ram_ops 7 1 0 1 1 0 (- 60) 1 0 log_desk) = 1"
  using file_output_logs [OF ram_storage_ok, of log_desk 1 7 1 0 1 1 0 "- 60" 1 0]
  by (simp add: log_desk_def)

theorem file_output_busy_witness:
  "storage (File_Output ram_ops 7 1 0 1 1 0 (- 60) 1 0
     (snd (mutex_try spsi_read_mutex 9 log_desk))) = storage log_desk"
proof -
  let ?s = "snd (mutex_try spsi_read_mutex 9 log_desk)"
  have i: "try_only spsi_read_mutex log_desk" "mutex_holder spsi_read_mutex log_desk = None"
    by (simp_all add: log_desk_def)
  have "try_only spsi_read_mutex ?s" "mutex_holder spsi_read_mutex ?s = Some (9, 1)"
    using mtx.inv_take [OF i(1), of 9] mtx.take_free [OF i, of 9] by simp_all
  from file_output_busy [OF this, of 7 ram_ops] show ?thesis by (simp add: try_only_take)
qed

text \<open>The log continues after a restart: if the boot flag is set, \<open>ID_Init\<close> resumes with the
  number of the last record logged before, and writes nothing; if it is not set, numbering
  starts at zero with the flag set, the number zero stored and both logs holding the header.\<close>

theorem ID_Init_resumes:
  fixes s u :: "('e, 'a) file_app_scheme"
  assumes "storage_ok E env file" and "\<forall>n. heap_oracle u n" and "\<forall>n. heap_oracle s n"
    and "storage u = storage (Flash_IDNums_Change E n s)"
  shows "(Flash_Get_Boot E s \<noteq> 0 \<longrightarrow>
      Global_Nums (ID_Init E u) = n \<and> storage (ID_Init E u) = storage u) \<and>
    (Flash_Get_Boot E s = 0 \<longrightarrow> Global_Nums (ID_Init E u) = 0 \<and>
      Flash_Get_Boot E (ID_Init E u) = 1 \<and> Flash_Get_IDNums E (ID_Init E u) = 0 \<and>
      file (storage (ID_Init E u)) =
        (file (storage u))(TOP_LOG \<mapsto> csv_header, DOWN_LOG \<mapsto> csv_header))"
proof -
  let ?u = "mutex_create spsi_read_mutex RT_IPC_FLAG_PRIO u"
  have get: "Flash_Get_Boot E v = Flash_Get_Boot E w" "Flash_Get_IDNums E v = Flash_Get_IDNums E w"
    if "storage v = storage w" for v w :: "('e, 'a) file_app_scheme"
    using that by (simp_all add: Flash_Get_Boot_def Flash_Get_IDNums_def flash_get_def)
  note rt = flash_keys [OF assms(1)]
  have b: "Flash_Get_Boot E ?u = Flash_Get_Boot E s"
    using get(1) [of ?u "Flash_IDNums_Change E n s"] rt(2) [OF assms(3)] assms(4) by simp
  have i: "Flash_Get_IDNums E ?u = n"
    using get(2) [of ?u "Flash_IDNums_Change E n s"] rt(1) [OF assms(3)] assms(4) by simp
  let ?w = "Flash_IDNums_Change E 0 ((Flash_Boot_Change E 1 ?u)\<lparr>Global_Nums := 0\<rparr>)"
  have hb: "\<forall>n. heap_oracle ((Flash_Boot_Change E 1 ?u)\<lparr>Global_Nums := 0\<rparr>) n"
    "\<forall>n. heap_oracle ?w n" "\<forall>n. heap_oracle (csv_top_init E ?w) n" "\<forall>n. heap_oracle ?u n"
    using assms(2) by simp_all
  have w: "file (storage ?w) = file (storage u)" "Flash_Get_Boot E ?w = 1" "Flash_Get_IDNums E ?w = 0"
    using rt(1,2) [OF hb(1), of 0] rt(3) [OF hb(4), of 1]
      get(1) [of "(Flash_Boot_Change E 1 ?u)\<lparr>Global_Nums := 0\<rparr>" "Flash_Boot_Change E 1 ?u"]
    by (simp_all add: Flash_IDNums_Change_def Flash_Boot_Change_def flash_change_file [OF assms(1)])
  have c: "file (storage (csv_down_init E (csv_top_init E ?w))) =
        (file (storage u))(TOP_LOG \<mapsto> csv_header, DOWN_LOG \<mapsto> csv_header)"
    "env (storage (csv_down_init E (csv_top_init E ?w))) = env (storage ?w)"
    using csv_init [OF assms(1) hb(2)] csv_init [OF assms(1) hb(3)] w(1) by auto
  have ge: "Flash_Get_Boot E v = Flash_Get_Boot E w" "Flash_Get_IDNums E v = Flash_Get_IDNums E w"
    if "env (storage v) = env (storage w)" for v w :: "('e, 'a) file_app_scheme"
    using that assms(1)
    by (simp_all add: Flash_Get_Boot_def Flash_Get_IDNums_def flash_get_def storage_ok_def)
  show ?thesis
    using b i c ge [OF c(2)] w(2,3) by (simp add: ID_Init_def Let_def)
qed

theorem ID_Init_resumes_witness:
  "Global_Nums (ID_Init ram_ops (Flash_IDNums_Change ram_ops 41 (ID_Init ram_ops disk_desk))) = 41"
proof -
  let ?s = "ID_Init ram_ops disk_desk"
  have "\<forall>n. heap_oracle ?s n"
    by (simp add: ID_Init_def Let_def)
  moreover have "Flash_Get_Boot ram_ops disk_desk = 0"
    by (simp add: Flash_Get_Boot_def flash_get_def ram_ops_def)
  then have "Flash_Get_Boot ram_ops ?s = 1"
    using flash_keys(2) [OF ram_storage_ok, of disk_desk 0]
      ID_Init_resumes [OF ram_storage_ok, of "Flash_IDNums_Change ram_ops 0 disk_desk" disk_desk 0]
    by (simp add: ID_Init_def Let_def ram_ops_def Flash_Get_Boot_def flash_get_def
        Flash_IDNums_Change_def Flash_Boot_Change_def flash_change_def malloc_ok_def csv_top_init_def
        csv_down_init_def write_csv_top_def write_csv_down_def append_file_def)
  ultimately show ?thesis
    using ID_Init_resumes [OF ram_storage_ok, of "Flash_IDNums_Change ram_ops 41 ?s" ?s 41] by simp
qed

text \<open>A record fits its buffer: whatever the values, the printed line has at most 53
  characters, less than the 64 bytes allocated for it.\<close>

theorem log_line_fits:
  assumes "\<bar>rs\<bar> < 10 ^ 10"
  shows "length (log_line n sel valve psi shake num rs first button) \<le> 53"
proof -
  have u: "length (fmt_d (uint (x :: u8))) \<le> 3" for x
    using length_nat_digits [of "unat x" 2] unsigned_less [of x, where 'a = nat] by (simp add: fmt_d_def)
  have f: "length (fmt_d 433) \<le> 4" "length (fmt_d 4068) \<le> 4"
    using length_nat_digits [of 433 2] length_nat_digits [of 4068 3] by (simp_all add: fmt_d_def)
  have r: "length (fmt_d rs) \<le> 11" using length_fmt_d [of rs 9] assms by simp
  show ?thesis
    using fmt_d_u32(2) [of n] u [of valve] u [of psi] u [of shake] u [of num] u [of first]
      u [of button] r f
    by (simp add: log_line_def)
qed

theorem log_line_fits_witness: "length (log_line 0xFFFFFFFF 1 255 1 1 3 (- 128) 1 1) \<le> 53"
  by (rule log_line_fits) simp

end
