(* ===== verification/Radio_Decoder.thy ===== *)
theory Radio_Decoder
  imports File_Log
begin

text \<open>
  Received packets: \<open>radio/Radio_Decoder.c\<close>, the event bits of \<open>applications/warn.h\<close> and
  \<open>rf_write\<close> of \<open>applications/heart.c\<close>.

  A packet is the receive buffer of the driver and its length; \<open>rs\<close> is the signal strength.
  \<open>junk\<close> is what the uninitialised local \<open>Rx_message\<close> holds; \<open>self\<close> is the calling thread.
\<close>

section \<open>Events\<close>

definition rf_event :: nat where "rf_event = 1"

definition RF433_Offline :: u32 where "RF433_Offline = 1"
definition RF433_Online :: u32 where "RF433_Online = 2"
definition RF4068_Offline :: u32 where "RF4068_Offline = 4"
definition RF4068_Online :: u32 where "RF4068_Online = 8"

lemmas rf_bits = RF433_Offline_def RF433_Online_def RF4068_Offline_def RF4068_Online_def

section \<open>Signal level\<close>

definition rf4068_rssi_level_select :: "int \<Rightarrow> 'a seg_app_scheme \<Rightarrow> u8 \<times> 'a seg_app_scheme" where
  "rf4068_rssi_level_select rs s =
     (if - 68 < rs then (5, rf4068_alive_count_resume (rf4068_rssi_count_resume s))
      else if - 81 < rs then (4, rf4068_alive_count_resume (rf4068_rssi_count_resume s))
      else if - 90 < rs then (3, rf4068_alive_count_resume (rf4068_rssi_count_resume s))
      else (2, rf4068_alive_count_resume (rf4068_rssi_count_increase s)))"

definition rf433_rssi_level_select :: "int \<Rightarrow> 'a seg_app_scheme \<Rightarrow> u8 \<times> 'a seg_app_scheme" where
  "rf433_rssi_level_select rs s =
     (if - 68 < rs then (5, rf433_alive_count_resume (rf433_rssi_count_resume s))
      else if - 81 < rs then (4, rf433_alive_count_resume (rf433_rssi_count_resume s))
      else if - 90 < rs then (3, rf433_alive_count_resume (rf433_rssi_count_resume s))
      else (2, rf433_alive_count_resume (rf433_rssi_count_increase s)))"

section \<open>Parsing\<close>

text \<open>The members of \<open>Message\<close> that are read: two \<open>long\<close> and two \<open>int\<close>.\<close>

record rx_message =
  Rx_Target_ID :: int
  Rx_From_ID :: int
  Rx_Command :: int
  Rx_Data :: int

definition message_format :: "directive list" where
  "message_format =
     [Lit CHR ''S'', Lit CHR ''{'', Dec, Lit CHR '','', Dec, Lit CHR '','', Dec, Lit CHR '','', Dec,
      Lit CHR ''}'', Lit CHR ''S'']"

text \<open>The members in front of the first mismatch are assigned, the others keep what they held.\<close>

definition scan_message :: "string \<Rightarrow> rx_message \<Rightarrow> rx_message" where
  "scan_message str m =
     (let vs = sscanf message_format str;
          m1 = (if 0 < length vs then m\<lparr>Rx_Target_ID := vs ! 0\<rparr> else m);
          m2 = (if 1 < length vs then m1\<lparr>Rx_From_ID := vs ! 1\<rparr> else m1);
          m3 = (if 2 < length vs then m2\<lparr>Rx_Command := vs ! 2\<rparr> else m2)
      in if 3 < length vs then m3\<lparr>Rx_Data := vs ! 3\<rparr> else m3)"

text \<open>The C string that starts at an index of the buffer.\<close>

definition text_at :: "nat \<Rightarrow> u8 list \<Rightarrow> string" where
  "text_at i buf = map (\<lambda>b. char_of (unat b)) (takeWhile (\<lambda>b. b \<noteq> 0) (drop i buf))"

section \<open>Solving a message\<close>

definition rf_write ::
  "'e storage_ops \<Rightarrow> nat \<Rightarrow> u8 \<Rightarrow> int \<Rightarrow> ('e, 'a) file_app_scheme \<Rightarrow> ('e, 'a) file_app_scheme" where
  "rf_write E self rf_select rs s =
     (if rf_select \<noteq> 0
      then File_Output E self 1 (Valve_Status s) (PSI_Status s) 1 (retry (info_433 s)) rs 1 0 s
      else File_Output E self 0 (Valve_Status s) (PSI_Status s) 1 (retry (info_4068 s)) rs 1 0 s)"

text \<open>
  \<open>rx_buffer[rx_len - 1]\<close> outside the buffer is undefined in C; \<open>mem_fault\<close> records it. The
  comparisons of the identifiers are unsigned, the data is truncated to a byte.
\<close>

definition Solve_433 ::
  "'e storage_ops \<Rightarrow> nat \<Rightarrow> rx_message \<Rightarrow> int \<Rightarrow> u8 list \<Rightarrow> u8
     \<Rightarrow> ('e, 'a) file_app_scheme \<Rightarrow> ('e, 'a) file_app_scheme" where
  "Solve_433 E self junk rs rx_buffer rx_len s =
     (if rx_len = 0 \<or> length rx_buffer < unat rx_len then s\<lparr>mem_fault := True\<rparr>
      else if rx_buffer ! (unat rx_len - 1) \<noteq> byte_of CHR ''S'' then s
      else
        let m = scan_message (text_at 1 rx_buffer) junk;
            d = word_of_int (Rx_Data m) :: u8
        in if word_of_int (Rx_Target_ID m) = Self_ID s \<and> word_of_int (Rx_From_ID m) = Target_ID s
           then
             let s1 = snd (rt_event_send rf_event RF433_Online s);
                 s2 = s1\<lparr>info_433 := (info_433 s1)\<lparr>received := 1, rssi := rs\<rparr>\<rparr>;
                 (lv, s3) = rf433_rssi_level_select rs s2;
                 s4 = s3\<lparr>info_433 := (info_433 s3)\<lparr>rssi_level := lv\<rparr>\<rparr>;
                 s5 = (if Rx_Command m = 0 then valve_control d s4
                       else if Rx_Command m = 1
                       then valve_control d (receiver_blink d
                              (s4\<lparr>info_433 := (info_433 s4)\<lparr>testreceived := 1\<rparr>\<rparr>))
                       else if Rx_Command m = 2 then rf_write E self 1 rs (valve_control d s4)
                       else s4)
             in led_rf433_start (rssi_level (info_433 s5)) s5
           else s)"

definition Solve_4068 ::
  "'e storage_ops \<Rightarrow> nat \<Rightarrow> rx_message \<Rightarrow> int \<Rightarrow> u8 list \<Rightarrow> u8
     \<Rightarrow> ('e, 'a) file_app_scheme \<Rightarrow> ('e, 'a) file_app_scheme" where
  "Solve_4068 E self junk rs rx_buffer rx_len s =
     (if rx_len = 0 \<or> length rx_buffer < unat rx_len then s\<lparr>mem_fault := True\<rparr>
      else if rx_buffer ! (unat rx_len - 1) \<noteq> byte_of CHR ''S'' then s
      else
        let m = scan_message (text_at 1 rx_buffer) junk;
            d = word_of_int (Rx_Data m) :: u8
        in if word_of_int (Rx_Target_ID m) = Self_ID s \<and> word_of_int (Rx_From_ID m) = Target_ID s
           then
             let s1 = snd (rt_event_send rf_event RF4068_Online s);
                 s2 = s1\<lparr>info_4068 := (info_4068 s1)\<lparr>received := 1, rssi := rs\<rparr>\<rparr>;
                 (lv, s3) = rf4068_rssi_level_select rs s2;
                 s4 = s3\<lparr>info_4068 := (info_4068 s3)\<lparr>rssi_level := lv\<rparr>\<rparr>;
                 s5 = (if Rx_Command m = 0 then valve_control d s4
                       else if Rx_Command m = 1
                       then valve_control d (receiver_blink d
                              (s4\<lparr>info_4068 := (info_4068 s4)\<lparr>testreceived := 1\<rparr>\<rparr>))
                       else if Rx_Command m = 2 then rf_write E self 0 rs (valve_control d s4)
                       else s4)
             in led_rf4068_start (rssi_level (info_4068 s5)) s5
           else s)"

definition rf433_rx_callback ::
  "'e storage_ops \<Rightarrow> nat \<Rightarrow> rx_message \<Rightarrow> int \<Rightarrow> u8 list \<Rightarrow> u8
     \<Rightarrow> ('e, 'a) file_app_scheme \<Rightarrow> ('e, 'a) file_app_scheme" where
  "rf433_rx_callback E self junk rs rx_buffer rx_len s =
     (if rx_buffer ! 1 = byte_of CHR ''S'' then Solve_433 E self junk rs rx_buffer (rx_len - 1) s else s)"

definition rf4068_rx_callback ::
  "'e storage_ops \<Rightarrow> nat \<Rightarrow> rx_message \<Rightarrow> int \<Rightarrow> u8 list \<Rightarrow> u8
     \<Rightarrow> ('e, 'a) file_app_scheme \<Rightarrow> ('e, 'a) file_app_scheme" where
  "rf4068_rx_callback E self junk rs rx_buffer rx_len s =
     (if rx_buffer ! 1 = byte_of CHR ''S'' then Solve_4068 E self junk rs rx_buffer (rx_len - 1) s else s)"

section \<open>Frame\<close>

lemma event_send_walk_more: "kern.more (snd (event_send_walk i ps s)) = kern.more s"
proof (induction ps arbitrary: s)
  case (Cons p ps)
  then show ?case
    by (simp add: Let_def upd_event_def upd_thread_def rt_thread_resume_def)
qed simp

lemma event_send_more: "kern.more (snd (rt_event_send i b s)) = kern.more s"
  by (simp add: rt_event_send_def Let_def event_send_walk_more upd_event_def)

lemma event_send_app [simp]:
  fixes s :: "('e, 'a) file_app_scheme"
  shows "info_433 (snd (rt_event_send i b s)) = info_433 s"
    "info_4068 (snd (rt_event_send i b s)) = info_4068 s"
    "PSI_Status (snd (rt_event_send i b s)) = PSI_Status s"
    "Valve_Status (snd (rt_event_send i b s)) = Valve_Status s"
    "Psi_Lost (snd (rt_event_send i b s)) = Psi_Lost s"
    "Self_ID (snd (rt_event_send i b s)) = Self_ID s"
    "Target_ID (snd (rt_event_send i b s)) = Target_ID s"
    "rf433_rssi_count (snd (rt_event_send i b s)) = rf433_rssi_count s"
    "rf433_alive_conut (snd (rt_event_send i b s)) = rf433_alive_conut s"
    "rf4068_rssi_count (snd (rt_event_send i b s)) = rf4068_rssi_count s"
    "rf4068_alive_conut (snd (rt_event_send i b s)) = rf4068_alive_conut s"
    "Queue_433 (snd (rt_event_send i b s)) = Queue_433 s"
    "Queue_4068 (snd (rt_event_send i b s)) = Queue_4068 s"
    "storage (snd (rt_event_send i b s)) = storage s"
    "Global_Nums (snd (rt_event_send i b s)) = Global_Nums s"
    "file_app.more (snd (rt_event_send i b s)) = file_app.more s"
  using event_send_more [of i b s] by (cases s; cases "snd (rt_event_send i b s)"; simp)+

lemma run_led_kern:
  "events (run_led c s) = events s" "sems (run_led c s) = sems s"
  "mutexes (run_led c s) = mutexes s" "threads (run_led c s) = threads s"
  "timers (run_led c s) = timers s" "tick (run_led c s) = tick s"
  by (cases c; auto simp: with_led_def agile_led_set_light_mode_def Let_def malloc_ok_def
      agile_led_dynamic_change_light_mode_def agile_led_get_light_arr_def agile_led_start_def
      agile_led_stop_def agile_led_on_def agile_led_off_def put_led_def rt_pin_write_def
      assert_fail_def split: option.splits)+

lemma run_leds_kern [simp]:
  "events (run_leds cs s) = events s" "sems (run_leds cs s) = sems s"
  "mutexes (run_leds cs s) = mutexes s" "threads (run_leds cs s) = threads s"
  "timers (run_leds cs s) = timers s" "tick (run_leds cs s) = tick s"
  unfolding run_leds_def by (induction cs arbitrary: s) (simp_all add: run_led_kern)

lemma run_leds_file [simp]:
  fixes s :: "('e, 'a) file_app_scheme"
  shows "rf433_rssi_count (run_leds cs s) = rf433_rssi_count s"
    "rf433_alive_conut (run_leds cs s) = rf433_alive_conut s"
    "rf4068_rssi_count (run_leds cs s) = rf4068_rssi_count s"
    "rf4068_alive_conut (run_leds cs s) = rf4068_alive_conut s"
    "storage (run_leds cs s) = storage s" "Global_Nums (run_leds cs s) = Global_Nums s"
    "file_app.more (run_leds cs s) = file_app.more s"
  using run_leds_more [of cs s] by (cases s; cases "run_leds cs s"; simp)+

text \<open>Logging touches the store, the heap, the mutex and nothing of what the links keep.\<close>

lemma append_file_app [simp]:
  "info_433 (append_file E p b s) = info_433 s" "info_4068 (append_file E p b s) = info_4068 s"
  "PSI_Status (append_file E p b s) = PSI_Status s" "Valve_Status (append_file E p b s) = Valve_Status s"
  "Psi_Lost (append_file E p b s) = Psi_Lost s"
  "rf433_rssi_count (append_file E p b s) = rf433_rssi_count s"
  "rf433_alive_conut (append_file E p b s) = rf433_alive_conut s"
  "rf4068_rssi_count (append_file E p b s) = rf4068_rssi_count s"
  "rf4068_alive_conut (append_file E p b s) = rf4068_alive_conut s"
  "Queue_433 (append_file E p b s) = Queue_433 s" "Queue_4068 (append_file E p b s) = Queue_4068 s"
  "events (append_file E p b s) = events s" "sems (append_file E p b s) = sems s"
  "Target_ID (append_file E p b s) = Target_ID s" "Self_ID (append_file E p b s) = Self_ID s"
  "file_app.more (append_file E p b s) = file_app.more s"
  by (simp_all add: append_file_def split: prod.splits)

lemma write_record_app [simp]:
  "info_433 (write_record E l s) = info_433 s" "info_4068 (write_record E l s) = info_4068 s"
  "PSI_Status (write_record E l s) = PSI_Status s" "Valve_Status (write_record E l s) = Valve_Status s"
  "Psi_Lost (write_record E l s) = Psi_Lost s"
  "rf433_rssi_count (write_record E l s) = rf433_rssi_count s"
  "rf433_alive_conut (write_record E l s) = rf433_alive_conut s"
  "rf4068_rssi_count (write_record E l s) = rf4068_rssi_count s"
  "rf4068_alive_conut (write_record E l s) = rf4068_alive_conut s"
  "Queue_433 (write_record E l s) = Queue_433 s" "Queue_4068 (write_record E l s) = Queue_4068 s"
  "events (write_record E l s) = events s" "sems (write_record E l s) = sems s"
  "Target_ID (write_record E l s) = Target_ID s" "Self_ID (write_record E l s) = Self_ID s"
  "file_app.more (write_record E l s) = file_app.more s"
  by (simp_all add: write_record_def Let_def malloc_ok_def write_csv_top_def write_csv_down_def
      csv_top_init_def csv_down_init_def Flash_IDNums_Change_def flash_change_def)

lemma mutex_events:
  "events (snd (rt_mutex_take p i n s)) = events s" "sems (snd (rt_mutex_take p i n s)) = sems s"
  "eset (events (snd (rt_mutex_release p i s)) j) = eset (events s j)"
  "sem_value (sems (snd (rt_mutex_release p i s)) j) = sem_value (sems s j)"
  by (auto simp: rt_mutex_take_def rt_mutex_release_def rt_thread_resume_def tlist_remove_def
      Let_def split: option.splits list.splits)

lemma mutex_app [simp]:
  fixes s :: "('e, 'a) file_app_scheme"
  shows "info_433 (snd (rt_mutex_take p i n s)) = info_433 s"
    "info_4068 (snd (rt_mutex_take p i n s)) = info_4068 s"
    "PSI_Status (snd (rt_mutex_take p i n s)) = PSI_Status s"
    "Valve_Status (snd (rt_mutex_take p i n s)) = Valve_Status s"
    "Psi_Lost (snd (rt_mutex_take p i n s)) = Psi_Lost s"
    "rf433_rssi_count (snd (rt_mutex_take p i n s)) = rf433_rssi_count s"
    "rf433_alive_conut (snd (rt_mutex_take p i n s)) = rf433_alive_conut s"
    "rf4068_rssi_count (snd (rt_mutex_take p i n s)) = rf4068_rssi_count s"
    "rf4068_alive_conut (snd (rt_mutex_take p i n s)) = rf4068_alive_conut s"
    "Target_ID (snd (rt_mutex_take p i n s)) = Target_ID s"
    "Self_ID (snd (rt_mutex_take p i n s)) = Self_ID s"
    "file_app.more (snd (rt_mutex_take p i n s)) = file_app.more s"
  using mutex_more(1) [of p i n s] by (cases s; cases "snd (rt_mutex_take p i n s)"; simp)+

lemma mutex_release_app [simp]:
  fixes s :: "('e, 'a) file_app_scheme"
  shows "info_433 (snd (rt_mutex_release p i s)) = info_433 s"
    "info_4068 (snd (rt_mutex_release p i s)) = info_4068 s"
    "PSI_Status (snd (rt_mutex_release p i s)) = PSI_Status s"
    "Valve_Status (snd (rt_mutex_release p i s)) = Valve_Status s"
    "Psi_Lost (snd (rt_mutex_release p i s)) = Psi_Lost s"
    "rf433_rssi_count (snd (rt_mutex_release p i s)) = rf433_rssi_count s"
    "rf433_alive_conut (snd (rt_mutex_release p i s)) = rf433_alive_conut s"
    "rf4068_rssi_count (snd (rt_mutex_release p i s)) = rf4068_rssi_count s"
    "rf4068_alive_conut (snd (rt_mutex_release p i s)) = rf4068_alive_conut s"
    "Target_ID (snd (rt_mutex_release p i s)) = Target_ID s"
    "Self_ID (snd (rt_mutex_release p i s)) = Self_ID s"
    "file_app.more (snd (rt_mutex_release p i s)) = file_app.more s"
  using mutex_more(2) [of p i s] by (cases s; cases "snd (rt_mutex_release p i s)"; simp)+

lemma File_Output_app [simp]:
  "info_433 (File_Output E p a b c d e f g h s) = info_433 s"
  "info_4068 (File_Output E p a b c d e f g h s) = info_4068 s"
  "PSI_Status (File_Output E p a b c d e f g h s) = PSI_Status s"
  "Valve_Status (File_Output E p a b c d e f g h s) = Valve_Status s"
  "Psi_Lost (File_Output E p a b c d e f g h s) = Psi_Lost s"
  "rf433_rssi_count (File_Output E p a b c d e f g h s) = rf433_rssi_count s"
  "rf433_alive_conut (File_Output E p a b c d e f g h s) = rf433_alive_conut s"
  "rf4068_rssi_count (File_Output E p a b c d e f g h s) = rf4068_rssi_count s"
  "rf4068_alive_conut (File_Output E p a b c d e f g h s) = rf4068_alive_conut s"
  "Queue_433 (File_Output E p a b c d e f g h s) = Queue_433 s"
  "Queue_4068 (File_Output E p a b c d e f g h s) = Queue_4068 s"
  "eset (events (File_Output E p a b c d e f g h s) j) = eset (events s j)"
  "sem_value (sems (File_Output E p a b c d e f g h s) j) = sem_value (sems s j)"
  "Target_ID (File_Output E p a b c d e f g h s) = Target_ID s"
  "Self_ID (File_Output E p a b c d e f g h s) = Self_ID s"
  "file_app.more (File_Output E p a b c d e f g h s) = file_app.more s"
  by (simp_all add: File_Output_def rt_mutex_trytake_def Let_def case_prod_unfold mutex_events)

lemma valve_control_app [simp]:
  fixes s :: "('e, 'a) file_app_scheme"
  shows "info_433 (valve_control d s) = info_433 s" "info_4068 (valve_control d s) = info_4068 s"
    "PSI_Status (valve_control d s) = PSI_Status s"
    "Valve_Status (valve_control d s) = (if d \<noteq> 0 then 1 else 0)"
    "Psi_Lost (valve_control d s) = Psi_Lost s" "events (valve_control d s) = events s"
    "rf433_rssi_count (valve_control d s) = rf433_rssi_count s"
    "rf433_alive_conut (valve_control d s) = rf433_alive_conut s"
    "rf4068_rssi_count (valve_control d s) = rf4068_rssi_count s"
    "rf4068_alive_conut (valve_control d s) = rf4068_alive_conut s"
    "Self_ID (valve_control d s) = Self_ID s" "Target_ID (valve_control d s) = Target_ID s"
    "file_app.more (valve_control d s) = file_app.more s"
  by (simp_all add: valve_control_def valve_open_def valve_close_def Let_def led_group_defs)

lemma led_start_app [simp]:
  fixes s :: "('e, 'a) file_app_scheme"
  shows "info_433 (led_rf433_start m s) = info_433 s" "info_4068 (led_rf433_start m s) = info_4068 s"
    "PSI_Status (led_rf433_start m s) = PSI_Status s"
    "Valve_Status (led_rf433_start m s) = Valve_Status s"
    "Psi_Lost (led_rf433_start m s) = Psi_Lost s" "events (led_rf433_start m s) = events s"
    "rf433_rssi_count (led_rf433_start m s) = rf433_rssi_count s"
    "rf433_alive_conut (led_rf433_start m s) = rf433_alive_conut s"
    "rf4068_rssi_count (led_rf433_start m s) = rf4068_rssi_count s"
    "rf4068_alive_conut (led_rf433_start m s) = rf4068_alive_conut s"
    "Self_ID (led_rf433_start m s) = Self_ID s" "Target_ID (led_rf433_start m s) = Target_ID s"
    "file_app.more (led_rf433_start m s) = file_app.more s"
    "info_433 (led_rf4068_start m s) = info_433 s" "info_4068 (led_rf4068_start m s) = info_4068 s"
    "PSI_Status (led_rf4068_start m s) = PSI_Status s"
    "Valve_Status (led_rf4068_start m s) = Valve_Status s"
    "Psi_Lost (led_rf4068_start m s) = Psi_Lost s" "events (led_rf4068_start m s) = events s"
    "rf433_rssi_count (led_rf4068_start m s) = rf433_rssi_count s"
    "rf433_alive_conut (led_rf4068_start m s) = rf433_alive_conut s"
    "rf4068_rssi_count (led_rf4068_start m s) = rf4068_rssi_count s"
    "rf4068_alive_conut (led_rf4068_start m s) = rf4068_alive_conut s"
    "Self_ID (led_rf4068_start m s) = Self_ID s" "Target_ID (led_rf4068_start m s) = Target_ID s"
    "file_app.more (led_rf4068_start m s) = file_app.more s"
  by (simp_all add: rf433_defs rf4068_defs)

lemma receiver_blink_app [simp]:
  fixes s :: "('e, 'a) file_app_scheme"
  shows "info_433 (receiver_blink d s) = info_433 s" "info_4068 (receiver_blink d s) = info_4068 s"
    "PSI_Status (receiver_blink d s) = PSI_Status s"
    "Valve_Status (receiver_blink d s) = Valve_Status s"
    "Psi_Lost (receiver_blink d s) = Psi_Lost s" "events (receiver_blink d s) = events s"
    "rf433_rssi_count (receiver_blink d s) = rf433_rssi_count s"
    "rf433_alive_conut (receiver_blink d s) = rf433_alive_conut s"
    "rf4068_rssi_count (receiver_blink d s) = rf4068_rssi_count s"
    "rf4068_alive_conut (receiver_blink d s) = rf4068_alive_conut s"
    "Self_ID (receiver_blink d s) = Self_ID s" "Target_ID (receiver_blink d s) = Target_ID s"
    "file_app.more (receiver_blink d s) = file_app.more s"
  by (simp_all add: receiver_blink_def)

section \<open>Reading what the other side prints\<close>

lemma char_of_byte_of [simp]: "char_of (unat (byte_of c)) = c"
  using of_char_mod_256 [of c, where 'a = nat]
  by (simp add: byte_of_def code_of_def unat_of_nat take_bit_eq_mod)

lemma byte_of_nonzero: "0 < code_of c \<Longrightarrow> byte_of c \<noteq> 0"
proof
  assume "byte_of c = 0" and "0 < code_of c"
  then have "c = char_of (0 :: nat)" using char_of_byte_of [of c] by simp
  with \<open>0 < code_of c\<close> show False by (simp add: code_of_def)
qed

lemma text_at_print:
  assumes "\<forall>c \<in> set str. code_of c \<noteq> 0"
  shows "text_at 1 (b # map byte_of str @ 0 # rest) = str"
proof -
  have "takeWhile (\<lambda>b. b \<noteq> 0) (map byte_of str @ 0 # rest) = map byte_of str"
    using assms by (subst takeWhile_append2) (auto dest: byte_of_nonzero)
  then show ?thesis by (simp add: text_at_def map_idI)
qed

lemma scan_frame:
  assumes "0 \<le> sint target" and "0 \<le> sint self"
  shows "sscanf message_format (frame CHR ''S'' target self control val) =
    [sint target, sint self, uint control, uint val]"
proof -
  have l: "sint (x :: u32) < 2 ^ 31" "uint (y :: u8) < 2 ^ 31" for x y
    using sint_lt [of x] uint_lt2p [of y] by simp_all
  have nd: "\<not> is_digit CHR '',''" "\<not> is_digit CHR ''}''" by (simp_all add: is_digit_def code_of_def)
  show ?thesis
    using assms l nd
    by (simp add: message_format_def frame_def strtol10_fmt_0d)
qed

lemma frame_codes:
  assumes "0 \<le> sint target" and "0 \<le> sint self"
  shows "\<forall>c \<in> set (frame CHR ''S'' target self control val). code_of c \<noteq> 0"
proof -
  have d: "is_digit c \<Longrightarrow> code_of c \<noteq> 0" for c by (simp add: is_digit_def)
  have "code_of c \<noteq> 0" if "c \<in> set (fmt_0d w n)" "0 \<le> n" for c w n
    using fmt_0d_digits(2) [OF that(2), of w] that(1) d by blast
  with assms show ?thesis by (auto simp: frame_def code_of_def)
qed

section \<open>Properties\<close>

text \<open>The level that a signal strength stands for.\<close>

definition level_of :: "int \<Rightarrow> u8" where
  "level_of rs = (if - 68 < rs then 5 else if - 81 < rs then 4 else if - 90 < rs then 3 else 2)"

lemma level_select_level [simp]:
  "fst (rf433_rssi_level_select rs s) = level_of rs"
  "fst (rf4068_rssi_level_select rs s) = level_of rs"
  by (simp_all add: rf433_rssi_level_select_def rf4068_rssi_level_select_def level_of_def)

lemma level_select_counters:
  "rf433_alive_conut (snd (rf433_rssi_level_select rs s)) = 0"
  "rf433_rssi_count (snd (rf433_rssi_level_select rs s)) =
     (if level_of rs = 2
      then if rf433_rssi_count s < 5 then rf433_rssi_count s + 1 else rf433_rssi_count s else 0)"
  "rf4068_alive_conut (snd (rf4068_rssi_level_select rs s)) = 0"
  "rf4068_rssi_count (snd (rf4068_rssi_level_select rs s)) =
     (if level_of rs = 2
      then if rf4068_rssi_count s < 5 then rf4068_rssi_count s + 1 else rf4068_rssi_count s else 0)"
  by (simp_all add: rf433_rssi_level_select_def rf4068_rssi_level_select_def level_of_def
      rf433_alive_count_resume_def rf433_rssi_count_resume_def rf433_rssi_count_increase_def
      rf4068_alive_count_resume_def rf4068_rssi_count_resume_def rf4068_rssi_count_increase_def)

lemma level_select_app [simp]:
  fixes s :: "('e, 'a) file_app_scheme"
  shows "info_433 (snd (rf433_rssi_level_select rs s)) = info_433 s"
    "info_4068 (snd (rf433_rssi_level_select rs s)) = info_4068 s"
    "Valve_Status (snd (rf433_rssi_level_select rs s)) = Valve_Status s"
    "PSI_Status (snd (rf433_rssi_level_select rs s)) = PSI_Status s"
    "events (snd (rf433_rssi_level_select rs s)) = events s"
    "rf4068_rssi_count (snd (rf433_rssi_level_select rs s)) = rf4068_rssi_count s"
    "rf4068_alive_conut (snd (rf433_rssi_level_select rs s)) = rf4068_alive_conut s"
    "info_433 (snd (rf4068_rssi_level_select rs s)) = info_433 s"
    "info_4068 (snd (rf4068_rssi_level_select rs s)) = info_4068 s"
    "Valve_Status (snd (rf4068_rssi_level_select rs s)) = Valve_Status s"
    "PSI_Status (snd (rf4068_rssi_level_select rs s)) = PSI_Status s"
    "events (snd (rf4068_rssi_level_select rs s)) = events s"
    "rf433_rssi_count (snd (rf4068_rssi_level_select rs s)) = rf433_rssi_count s"
    "rf433_alive_conut (snd (rf4068_rssi_level_select rs s)) = rf433_alive_conut s"
    "Self_ID (snd (rf433_rssi_level_select rs s)) = Self_ID s"
    "Target_ID (snd (rf433_rssi_level_select rs s)) = Target_ID s"
    "file_app.more (snd (rf433_rssi_level_select rs s)) = file_app.more s"
    "Self_ID (snd (rf4068_rssi_level_select rs s)) = Self_ID s"
    "Target_ID (snd (rf4068_rssi_level_select rs s)) = Target_ID s"
    "file_app.more (snd (rf4068_rssi_level_select rs s)) = file_app.more s"
  by (simp_all add: rf433_rssi_level_select_def rf4068_rssi_level_select_def
      rf433_alive_count_resume_def rf433_rssi_count_resume_def rf433_rssi_count_increase_def
      rf4068_alive_count_resume_def rf4068_rssi_count_resume_def rf4068_rssi_count_increase_def)

text \<open>A packet with a frame in it, as the driver leaves it in the receive buffer.\<close>

definition packet :: "u32 \<Rightarrow> u32 \<Rightarrow> u8 \<Rightarrow> u8 \<Rightarrow> u8 list" where
  "packet target self control val =
     29 # map byte_of (frame CHR ''S'' target self control val) @ replicate 36 0"

lemma packet_parsed:
  assumes "0 \<le> sint target" and "sint target < 10 ^ 8" and "0 \<le> sint self" and "sint self < 10 ^ 8"
    and "control < 100" and "val < 100"
  shows "length (packet target self control val) = 64"
    and "packet target self control val ! 1 = byte_of CHR ''S''"
    and "packet target self control val ! 27 = byte_of CHR ''S''"
    and "scan_message (text_at 1 (packet target self control val)) junk =
      junk\<lparr>Rx_Target_ID := sint target, Rx_From_ID := sint self, Rx_Command := uint control,
        Rx_Data := uint val\<rparr>"
proof -
  let ?f = "frame CHR ''S'' target self control val"
  have two: "length (fmt_0d 2 (uint control)) = 2" "length (fmt_0d 2 (uint val)) = 2"
    using assms(5,6) length_fmt_0d [of "uint control" 1] length_fmt_0d [of "uint val" 1]
    by (simp_all add: word_less_def flip: numeral_2_eq_2)
  have len: "length ?f = 27"
    using assms length_fmt_0d [of "sint target" 7] length_fmt_0d [of "sint self" 7] two
    by (simp add: frame_def)
  show "length (packet target self control val) = 64" by (simp add: packet_def len)
  show "packet target self control val ! 1 = byte_of CHR ''S''"
    by (simp add: packet_def frame_def)
  have "?f ! 26 = last ?f" using len last_conv_nth [of ?f] by (cases "?f = []") auto
  also have "\<dots> = CHR ''S''" by (simp add: frame_def)
  finally show "packet target self control val ! 27 = byte_of CHR ''S''"
    by (simp add: packet_def nth_append len)
  have "text_at 1 (packet target self control val) = ?f"
    unfolding packet_def by (simp only: numeral_eq_Suc replicate_Suc text_at_print [OF frame_codes [OF assms(1,3)]])
  then show "scan_message (text_at 1 (packet target self control val)) junk =
      junk\<lparr>Rx_Target_ID := sint target, Rx_From_ID := sint self, Rx_Command := uint control,
        Rx_Data := uint val\<rparr>"
    using assms by (simp add: scan_message_def scan_frame Let_def)
qed

text \<open>What solving an accepted message does, in all its fields that matter to the links.\<close>

lemma Solve_433_accept:
  fixes E :: "'e storage_ops" and s :: "('e, 'a) file_app_scheme" and self :: nat and rs :: int
  assumes "rx_len \<noteq> 0" and "unat rx_len \<le> length buf" and "buf ! (unat rx_len - 1) = byte_of CHR ''S''"
    and "scan_message (text_at 1 buf) junk = m" and "word_of_int (Rx_Target_ID m) = Self_ID s"
    and "word_of_int (Rx_From_ID m) = Target_ID s"
  defines "t \<equiv> Solve_433 E self junk rs buf rx_len s"
  shows "info_433 t = (info_433 s)\<lparr>received := 1, rssi := rs, rssi_level := level_of rs,
      testreceived := (if Rx_Command m = 1 then 1 else testreceived (info_433 s))\<rparr>"
    "info_4068 t = info_4068 s" "PSI_Status t = PSI_Status s"
    "Valve_Status t = (if Rx_Command m \<in> {0, 1, 2}
       then if (word_of_int (Rx_Data m) :: u8) \<noteq> 0 then 1 else 0 else Valve_Status s)"
    "rf433_alive_conut t = 0"
    "rf433_rssi_count t = (if level_of rs = 2
       then if rf433_rssi_count s < 5 then rf433_rssi_count s + 1 else rf433_rssi_count s else 0)"
    "Self_ID t = Self_ID s" "Target_ID t = Target_ID s" "file_app.more t = file_app.more s"
proof -
  let ?s1 = "snd (rt_event_send rf_event RF433_Online s)"
  let ?s2 = "?s1\<lparr>info_433 := (info_433 ?s1)\<lparr>received := 1, rssi := rs\<rparr>\<rparr>"
  let ?s3 = "snd (rf433_rssi_level_select rs ?s2)"
  define s4 where "s4 = ?s3\<lparr>info_433 := (info_433 ?s3)\<lparr>rssi_level := level_of rs\<rparr>\<rparr>"
  define s5 where "s5 = (let d = word_of_int (Rx_Data m) :: u8 in
      if Rx_Command m = 0 then valve_control d s4
      else if Rx_Command m = 1
      then valve_control d (receiver_blink d (s4\<lparr>info_433 := (info_433 s4)\<lparr>testreceived := 1\<rparr>\<rparr>))
      else if Rx_Command m = 2 then rf_write E self 1 rs (valve_control d s4) else s4)"
  have t: "t = led_rf433_start (rssi_level (info_433 s5)) s5"
    using assms(1-6) by (simp add: t_def Solve_433_def Let_def case_prod_unfold s5_def s4_def)
  have s4: "info_433 s4 = (info_433 s)\<lparr>received := 1, rssi := rs, rssi_level := level_of rs\<rparr>"
    "info_4068 s4 = info_4068 s" "PSI_Status s4 = PSI_Status s" "Valve_Status s4 = Valve_Status s"
    "rf433_alive_conut s4 = 0" "Self_ID s4 = Self_ID s" "Target_ID s4 = Target_ID s"
    "file_app.more s4 = file_app.more s"
    "rf433_rssi_count s4 = (if level_of rs = 2
       then if rf433_rssi_count s < 5 then rf433_rssi_count s + 1 else rf433_rssi_count s else 0)"
    by (simp_all add: s4_def level_select_counters)
  have s5: "info_433 s5 = (info_433 s4)\<lparr>testreceived :=
        (if Rx_Command m = 1 then 1 else testreceived (info_433 s))\<rparr>"
    "info_4068 s5 = info_4068 s4" "PSI_Status s5 = PSI_Status s4"
    "Valve_Status s5 = (if Rx_Command m \<in> {0, 1, 2}
       then if (word_of_int (Rx_Data m) :: u8) \<noteq> 0 then 1 else 0 else Valve_Status s4)"
    "rf433_alive_conut s5 = rf433_alive_conut s4" "rf433_rssi_count s5 = rf433_rssi_count s4"
    "Self_ID s5 = Self_ID s4" "Target_ID s5 = Target_ID s4" "file_app.more s5 = file_app.more s4"
    by (simp_all add: s5_def rf_write_def Let_def s4(1))
  show "info_433 t = (info_433 s)\<lparr>received := 1, rssi := rs, rssi_level := level_of rs,
      testreceived := (if Rx_Command m = 1 then 1 else testreceived (info_433 s))\<rparr>"
    "info_4068 t = info_4068 s" "PSI_Status t = PSI_Status s"
    "Valve_Status t = (if Rx_Command m \<in> {0, 1, 2}
       then if (word_of_int (Rx_Data m) :: u8) \<noteq> 0 then 1 else 0 else Valve_Status s)"
    "rf433_alive_conut t = 0"
    "rf433_rssi_count t = (if level_of rs = 2
       then if rf433_rssi_count s < 5 then rf433_rssi_count s + 1 else rf433_rssi_count s else 0)"
    "Self_ID t = Self_ID s" "Target_ID t = Target_ID s" "file_app.more t = file_app.more s"
    by (simp_all add: t s5 s4)
qed

lemma Solve_4068_accept:
  fixes E :: "'e storage_ops" and s :: "('e, 'a) file_app_scheme" and self :: nat and rs :: int
  assumes "rx_len \<noteq> 0" and "unat rx_len \<le> length buf" and "buf ! (unat rx_len - 1) = byte_of CHR ''S''"
    and "scan_message (text_at 1 buf) junk = m" and "word_of_int (Rx_Target_ID m) = Self_ID s"
    and "word_of_int (Rx_From_ID m) = Target_ID s"
  defines "t \<equiv> Solve_4068 E self junk rs buf rx_len s"
  shows "info_4068 t = (info_4068 s)\<lparr>received := 1, rssi := rs, rssi_level := level_of rs,
      testreceived := (if Rx_Command m = 1 then 1 else testreceived (info_4068 s))\<rparr>"
    "info_433 t = info_433 s" "PSI_Status t = PSI_Status s"
    "Valve_Status t = (if Rx_Command m \<in> {0, 1, 2}
       then if (word_of_int (Rx_Data m) :: u8) \<noteq> 0 then 1 else 0 else Valve_Status s)"
    "rf4068_alive_conut t = 0"
    "rf4068_rssi_count t = (if level_of rs = 2
       then if rf4068_rssi_count s < 5 then rf4068_rssi_count s + 1 else rf4068_rssi_count s else 0)"
    "Self_ID t = Self_ID s" "Target_ID t = Target_ID s" "file_app.more t = file_app.more s"
proof -
  let ?s1 = "snd (rt_event_send rf_event RF4068_Online s)"
  let ?s2 = "?s1\<lparr>info_4068 := (info_4068 ?s1)\<lparr>received := 1, rssi := rs\<rparr>\<rparr>"
  let ?s3 = "snd (rf4068_rssi_level_select rs ?s2)"
  define s4 where "s4 = ?s3\<lparr>info_4068 := (info_4068 ?s3)\<lparr>rssi_level := level_of rs\<rparr>\<rparr>"
  define s5 where "s5 = (let d = word_of_int (Rx_Data m) :: u8 in
      if Rx_Command m = 0 then valve_control d s4
      else if Rx_Command m = 1
      then valve_control d (receiver_blink d (s4\<lparr>info_4068 := (info_4068 s4)\<lparr>testreceived := 1\<rparr>\<rparr>))
      else if Rx_Command m = 2 then rf_write E self 0 rs (valve_control d s4) else s4)"
  have t: "t = led_rf4068_start (rssi_level (info_4068 s5)) s5"
    using assms(1-6) by (simp add: t_def Solve_4068_def Let_def case_prod_unfold s5_def s4_def)
  have s4: "info_4068 s4 = (info_4068 s)\<lparr>received := 1, rssi := rs, rssi_level := level_of rs\<rparr>"
    "info_433 s4 = info_433 s" "PSI_Status s4 = PSI_Status s" "Valve_Status s4 = Valve_Status s"
    "rf4068_alive_conut s4 = 0" "Self_ID s4 = Self_ID s" "Target_ID s4 = Target_ID s"
    "file_app.more s4 = file_app.more s"
    "rf4068_rssi_count s4 = (if level_of rs = 2
       then if rf4068_rssi_count s < 5 then rf4068_rssi_count s + 1 else rf4068_rssi_count s else 0)"
    by (simp_all add: s4_def level_select_counters)
  have s5: "info_4068 s5 = (info_4068 s4)\<lparr>testreceived :=
        (if Rx_Command m = 1 then 1 else testreceived (info_4068 s))\<rparr>"
    "info_433 s5 = info_433 s4" "PSI_Status s5 = PSI_Status s4"
    "Valve_Status s5 = (if Rx_Command m \<in> {0, 1, 2}
       then if (word_of_int (Rx_Data m) :: u8) \<noteq> 0 then 1 else 0 else Valve_Status s4)"
    "rf4068_alive_conut s5 = rf4068_alive_conut s4" "rf4068_rssi_count s5 = rf4068_rssi_count s4"
    "Self_ID s5 = Self_ID s4" "Target_ID s5 = Target_ID s4" "file_app.more s5 = file_app.more s4"
    by (simp_all add: s5_def rf_write_def Let_def s4(1))
  show "info_4068 t = (info_4068 s)\<lparr>received := 1, rssi := rs, rssi_level := level_of rs,
      testreceived := (if Rx_Command m = 1 then 1 else testreceived (info_4068 s))\<rparr>"
    "info_433 t = info_433 s" "PSI_Status t = PSI_Status s"
    "Valve_Status t = (if Rx_Command m \<in> {0, 1, 2}
       then if (word_of_int (Rx_Data m) :: u8) \<noteq> 0 then 1 else 0 else Valve_Status s)"
    "rf4068_alive_conut t = 0"
    "rf4068_rssi_count t = (if level_of rs = 2
       then if rf4068_rssi_count s < 5 then rf4068_rssi_count s + 1 else rf4068_rssi_count s else 0)"
    "Self_ID t = Self_ID s" "Target_ID t = Target_ID s" "file_app.more t = file_app.more s"
    by (simp_all add: t s5 s4)
qed

lemma uint_command:
  fixes c :: u8
  shows "uint c = 0 \<longleftrightarrow> c = 0" "uint c = 1 \<longleftrightarrow> c = 1" "uint c = 2 \<longleftrightarrow> c = 2"
    "c \<le> 2 \<longleftrightarrow> c = 0 \<or> c = 1 \<or> c = 2"
proof -
  have "i \<le> 2 \<longleftrightarrow> i = 0 \<or> i = 1 \<or> i = 2" if "0 \<le> i" for i :: int using that by presburger
  from this [of "uint c"] show "c \<le> 2 \<longleftrightarrow> c = 0 \<or> c = 1 \<or> c = 2"
    by (simp add: word_le_def word_uint_eq_iff)
qed (simp_all add: word_uint_eq_iff)

lemma parsed_fields [simp]:
  fixes m :: rx_message
  shows "Rx_Target_ID (m\<lparr>Rx_Target_ID := a, Rx_From_ID := b, Rx_Command := c, Rx_Data := d\<rparr>) = a"
    "Rx_From_ID (m\<lparr>Rx_Target_ID := a, Rx_From_ID := b, Rx_Command := c, Rx_Data := d\<rparr>) = b"
    "Rx_Command (m\<lparr>Rx_Target_ID := a, Rx_From_ID := b, Rx_Command := c, Rx_Data := d\<rparr>) = c"
    "Rx_Data (m\<lparr>Rx_Target_ID := a, Rx_From_ID := b, Rx_Command := c, Rx_Data := d\<rparr>) = d"
  by simp_all

lemma rx_433_solve:
  assumes "0 \<le> sint target" and "sint target < 10 ^ 8" and "0 \<le> sint self" and "sint self < 10 ^ 8"
    and "control < 100" and "val < 100"
  shows "rf433_rx_callback E p junk rs (packet target self control val) 29 s =
      Solve_433 E p junk rs (packet target self control val) 28 s"
    and "rf4068_rx_callback E p junk rs (packet target self control val) 29 s =
      Solve_4068 E p junk rs (packet target self control val) 28 s"
  using packet_parsed(2) [OF assms] by (simp_all add: rf433_rx_callback_def rf4068_rx_callback_def)

text \<open>C27: A heartbeat, test or valve message of the peer is acted upon: what the peer prints with
  this device's and its own identifier is parsed back, whatever the uninitialised local
  variable held. The link is marked as having received (a test also as tested), with the signal
  strength and its level; the valve takes the requested position if the command is at most 2;
  the other link is untouched.\<close>

theorem rx_433_accepted:
  fixes E :: "'e storage_ops" and s :: "('e, 'a) file_app_scheme" and self :: nat
    and junk :: rx_message and rs :: int
  assumes "0 \<le> sint (Self_ID s)" and "sint (Self_ID s) < 10 ^ 8" and "0 \<le> sint (Target_ID s)"
    and "sint (Target_ID s) < 10 ^ 8" and "control < 100" and "val < 100"
  defines "t \<equiv> rf433_rx_callback E self junk rs (packet (Self_ID s) (Target_ID s) control val) 29 s"
  shows "info_433 t = (info_433 s)\<lparr>received := 1, rssi := rs, rssi_level := level_of rs,
      testreceived := (if control = 1 then 1 else testreceived (info_433 s))\<rparr> \<and>
    Valve_Status t = (if control \<le> 2 then if val \<noteq> 0 then 1 else 0 else Valve_Status s) \<and>
    info_4068 t = info_4068 s \<and> PSI_Status t = PSI_Status s"
proof -
  note c = uint_command [of control] word_of_int_uint [of val]
  note p = packet_parsed [OF assms(1-6)]
  let ?p = "packet (Self_ID s) (Target_ID s) control val"
  have t: "t = Solve_433 E self junk rs ?p 28 s"
    unfolding t_def by (rule rx_433_solve(1) [OF assms(1-6)])
  have "28 \<noteq> (0 :: u8)" "unat (28 :: u8) \<le> length ?p" "?p ! (unat (28 :: u8) - 1) = byte_of CHR ''S''"
    using p(1,3) by simp_all
  from Solve_433_accept [OF this p(4) [of junk], of s E self rs] show ?thesis
    unfolding t by (simp add: c)
qed

lemma Solve_reject:
  assumes "rx_len \<noteq> 0" and "unat rx_len \<le> length buf" and "scan_message (text_at 1 buf) junk = m"
    and "word_of_int (Rx_Target_ID m) \<noteq> Self_ID s \<or> word_of_int (Rx_From_ID m) \<noteq> Target_ID s"
  shows "Solve_433 E self junk rs buf rx_len s = s" and "Solve_4068 E self junk rs buf rx_len s = s"
  using assms by (auto simp: Solve_433_def Solve_4068_def Let_def)

text \<open>Messages between other devices have no effect: a well-formed frame whose identifiers are
  not this device's and its peer's leaves the whole state as it is, on both links.\<close>

theorem rx_foreign_ignored:
  assumes "0 \<le> sint target" and "sint target < 10 ^ 8" and "0 \<le> sint self" and "sint self < 10 ^ 8"
    and "control < 100" and "val < 100" and "target \<noteq> Self_ID s \<or> self \<noteq> Target_ID s"
  shows "rf433_rx_callback E p junk rs (packet target self control val) 29 s = s \<and>
    rf4068_rx_callback E p junk rs (packet target self control val) 29 s = s"
proof -
  let ?p = "packet target self control val"
  have p: "28 \<noteq> (0 :: u8)" "unat (28 :: u8) \<le> length ?p"
    using packet_parsed(1) [OF assms(1-6)] by simp_all
  show ?thesis
    unfolding rx_433_solve [OF assms(1-6)]
    using assms(7) by (simp add: Solve_reject [OF p packet_parsed(4) [OF assms(1-6)]])
qed

text \<open>A packet of two letters, without any of the fields.\<close>

definition stub_packet :: "u8 list" where
  "stub_packet = [3, byte_of CHR ''S'', byte_of CHR ''S''] @ replicate 61 0"

text \<open>A truncated packet is judged by stale memory: the result of \<open>sscanf\<close> is not checked, so for
  a packet without any field the identifiers, the command and the data are whatever the
  uninitialised local variable holds; if that is an earlier message of the peer, the link counts
  as alive and the valve obeys.\<close>

theorem rx_truncated_stale:
  fixes E :: "'e storage_ops" and s :: "('e, 'a) file_app_scheme" and self :: nat
    and junk :: rx_message and rs :: int
  assumes "word_of_int (Rx_Target_ID junk) = Self_ID s" and "word_of_int (Rx_From_ID junk) = Target_ID s"
  defines "t \<equiv> rf433_rx_callback E self junk rs stub_packet 4 s"
  shows "received (info_433 t) = 1 \<and>
    Valve_Status t = (if Rx_Command junk \<in> {0, 1, 2}
       then if (word_of_int (Rx_Data junk) :: u8) \<noteq> 0 then 1 else 0 else Valve_Status s)"
proof -
  have t: "t = Solve_433 E self junk rs stub_packet 3 s"
    by (simp add: t_def rf433_rx_callback_def stub_packet_def)
  have b: "byte_of CHR ''S'' \<noteq> 0" by (rule byte_of_nonzero) (simp add: code_of_def)
  have m: "scan_message (text_at 1 stub_packet) junk = junk"
    by (simp add: stub_packet_def text_at_def b scan_message_def message_format_def numeral_eq_Suc)
  have p: "3 \<noteq> (0 :: u8)" "unat (3 :: u8) \<le> length stub_packet"
    "stub_packet ! (unat (3 :: u8) - 1) = byte_of CHR ''S''"
    by (simp_all add: stub_packet_def)
  show ?thesis
    unfolding t using Solve_433_accept(1,4) [OF p m assms(1,2), of E self rs] by simp
qed

text \<open>Heartbeats received one after the other, and the number of weak ones since the last that was
  not weak.\<close>

definition heartbeats ::
  "'e storage_ops \<Rightarrow> nat \<Rightarrow> rx_message \<Rightarrow> u8 \<Rightarrow> int list \<Rightarrow> ('e, 'a) file_app_scheme
     \<Rightarrow> ('e, 'a) file_app_scheme" where
  "heartbeats E self junk val rss s =
     fold (\<lambda>rs t. rf433_rx_callback E self junk rs (packet (Self_ID s) (Target_ID s) 0 val) 29 t) rss s"

definition weak_run :: "int list \<Rightarrow> nat" where
  "weak_run rss = length (takeWhile (\<lambda>rs. rs \<le> - 90) (rev rss))"

text \<open>The weak-signal counter counts the packets themselves: after any sequence of heartbeats
  from the peer the counter of the link is the number of packets at or below -90 dBm since the
  last stronger one, up to 5 (the value at which the output raises its alarm), and the counter
  of lost rounds is zero as soon as one has been received.\<close>

theorem rx_weak_count:
  fixes E :: "'e storage_ops" and s :: "('e, 'a) file_app_scheme" and self :: nat
    and junk :: rx_message and rss :: "int list" and val :: u8
  assumes "0 \<le> sint (Self_ID s)" and "sint (Self_ID s) < 10 ^ 8" and "0 \<le> sint (Target_ID s)"
    and "sint (Target_ID s) < 10 ^ 8" and "val < 100" and "rf433_rssi_count s = 0"
  defines "t \<equiv> heartbeats E self junk val rss s"
  shows "unat (rf433_rssi_count t) = min (weak_run rss) 5 \<and>
    (rss \<noteq> [] \<longrightarrow> rf433_alive_conut t = 0)"
proof -
  have c: "(0 :: u8) < 100" by simp
  let ?p = "packet (Self_ID s) (Target_ID s) 0 val"
  note parse = packet_parsed [OF assms(1-4) c assms(5)]
  have p: "28 \<noteq> (0 :: u8)" "unat (28 :: u8) \<le> length ?p" "?p ! (unat (28 :: u8) - 1) = byte_of CHR ''S''"
    using parse(1,3) by simp_all
  have weak: "level_of rs = 2 \<longleftrightarrow> rs \<le> - 90" for rs by (simp add: level_of_def)
  have "unat (rf433_rssi_count t) = min (weak_run rss) 5 \<and> (rss \<noteq> [] \<longrightarrow> rf433_alive_conut t = 0) \<and>
      Self_ID t = Self_ID s \<and> Target_ID t = Target_ID s"
    unfolding t_def
  proof (induction rss rule: rev_induct)
    case Nil
    then show ?case using assms(6) by (simp add: heartbeats_def weak_run_def)
  next
    case (snoc rs rss)
    let ?t = "heartbeats E self junk val rss s"
    have ids: "Self_ID ?t = Self_ID s" "Target_ID ?t = Target_ID s"
      and cnt: "unat (rf433_rssi_count ?t) = min (weak_run rss) 5" using snoc by blast+
    have step: "heartbeats E self junk val (rss @ [rs]) s = Solve_433 E self junk rs ?p 28 ?t"
      using rx_433_solve(1) [OF assms(1-4) c assms(5)] by (simp add: heartbeats_def)
    note acc = Solve_433_accept [OF p parse(4) [of junk], of ?t E self rs]
    have "unat (if rf433_rssi_count ?t < 5 then rf433_rssi_count ?t + 1 else rf433_rssi_count ?t) =
        min (Suc (weak_run rss)) 5"
      using unat_count_incr [of "rf433_rssi_count ?t" 5] cnt by simp
    then show ?case
      unfolding step using acc(5-8) ids by (simp add: weak weak_run_def)
  qed
  then show ?thesis by blast
qed

section \<open>Witnesses\<close>

lemma log_desk_ids [simp]:
  "Self_ID log_desk = 50000000" "Target_ID log_desk = 60000000" "rf433_rssi_count log_desk = 0"
  "Valve_Status log_desk = 2"
  by (simp_all add: log_desk_def disk_desk_def mutex_create_def upd_mutex_def psi_app.defs psi_desk_def
      seg_app.defs seg_panel_def led_app.defs panel_def)

definition zero_message :: rx_message where
  "zero_message = \<lparr>Rx_Target_ID = 50000000, Rx_From_ID = 60000000, Rx_Command = 0, Rx_Data = 1\<rparr>"

theorem rx_433_accepted_witness:
  "Valve_Status (rf433_rx_callback ram_ops 8 zero_message (- 70) (packet 50000000 60000000 1 1) 29 log_desk) = 1"
  using rx_433_accepted [of log_desk 1 1 ram_ops 8 zero_message "- 70"] by simp

theorem rx_foreign_ignored_witness:
  "rf433_rx_callback ram_ops 8 zero_message (- 70) (packet 50000000 60000001 1 1) 29 log_desk = log_desk"
  using rx_foreign_ignored [of 50000000 60000001 1 1 log_desk ram_ops 8 zero_message "- 70"] by simp

theorem rx_truncated_stale_witness:
  "Valve_Status (rf433_rx_callback ram_ops 8 zero_message (- 70) stub_packet 4 log_desk) = 1"
  using rx_truncated_stale [of zero_message log_desk ram_ops 8 "- 70"] by (simp add: zero_message_def)

theorem rx_weak_count_witness:
  "unat (rf433_rssi_count (heartbeats ram_ops 8 zero_message 1 [- 95, - 60, - 95, - 91] log_desk)) = 2"
  using rx_weak_count [of log_desk 1 ram_ops 8 zero_message "[- 95, - 60, - 95, - 91]"]
  by (simp add: weak_run_def)

end
