(* ===== verification/Warn.thy ===== *)
theory Warn
  imports Radio_Decoder
begin

text \<open>
  The warnings: \<open>applications/warn.c\<close>. The thread polls the event object of the links every
  100 ms and sets the lights of the lost link, the lost flag and the buzzer; one turn of its
  loop up to the delay is \<open>warn_scan\<close>.
\<close>

section \<open>Operations\<close>

definition warn_dispatch :: "u32 \<Rightarrow> 'a psi_app_scheme \<Rightarrow> 'a psi_app_scheme" where
  "warn_dispatch e s =
     (if e AND RF433_Offline \<noteq> 0 then
        let s1 = led_rf433_start 1 s
        in if alive (info_4068 s1) \<noteq> 0 then beep_start 2 (psi_led_resume s1)
           else beep_start 3 (psi_led_lost s1)
      else if e AND RF4068_Offline \<noteq> 0 then
        let s1 = led_rf4068_start 1 s
        in if alive (info_433 s1) \<noteq> 0 then beep_start 2 (psi_led_resume s1)
           else beep_start 3 (psi_led_lost s1)
      else if e AND RF433_Online \<noteq> 0 then
        let s1 = psi_led_resume s
        in if alive (info_4068 s1) \<noteq> 0
           then beep_calc (rssi_level (info_4068 s1)) (rssi_level (info_433 s1)) s1
           else if startup (info_4068 s1) = 1 then beep_start 2 s1 else s1
      else if e AND RF4068_Online \<noteq> 0 then
        let s1 = psi_led_resume s
        in if alive (info_433 s1) \<noteq> 0
           then beep_calc (rssi_level (info_4068 s1)) (rssi_level (info_433 s1)) s1
           else if startup (info_433 s1) = 1 then beep_start 2 s1 else s1
      else s)"

definition warn_scan :: "nat \<Rightarrow> 'a psi_app_scheme \<Rightarrow> 'a psi_app_scheme" where
  "warn_scan self s =
     (let (r, e, s1) = rt_event_recv self rf_event
                         (RF433_Offline OR RF4068_Offline OR RF433_Online OR RF4068_Online)
                         (RT_EVENT_FLAG_OR OR RT_EVENT_FLAG_CLEAR) 0 s
      in case (r, e) of (Some RT_EOK, Some bits) \<Rightarrow> warn_dispatch bits s1 | _ \<Rightarrow> s1)"

definition warn_init :: "'a psi_app_scheme \<Rightarrow> 'a psi_app_scheme" where
  "warn_init s = event_init rf_event RT_IPC_FLAG_PRIO s"

section \<open>Polling the events\<close>

definition rf_mask :: u32 where "rf_mask = 15"

lemma rf_mask_eq:
  "RF433_Offline OR RF4068_Offline OR RF433_Online OR RF4068_Online = rf_mask"
  by (simp add: rf_bits rf_mask_def)

lemma recv_or_clear:
  fixes s :: "'a kern_scheme"
  assumes "m \<noteq> 0"
  shows "rt_event_recv self i m (RT_EVENT_FLAG_OR OR RT_EVENT_FLAG_CLEAR) 0 s =
    (if eset (events s i) AND m \<noteq> 0
     then (Some RT_EOK, Some (eset (events s i) AND m),
           s\<lparr>threads := (threads s)(self := (threads s self)\<lparr>thread_error := RT_EOK,
               event_set := eset (events s i) AND m, event_info := 6\<rparr>),
             events := (events s)(i := (events s i)\<lparr>eset := eset (events s i) AND NOT m\<rparr>)\<rparr>)
     else (Some RT_ETIMEOUT, None,
           s\<lparr>threads := (threads s)(self := (threads s self)\<lparr>thread_error := RT_ETIMEOUT\<rparr>)\<rparr>))"
  using assms
  by (simp add: rt_event_recv_def RT_EVENT_FLAG_AND_def RT_EVENT_FLAG_OR_def RT_EVENT_FLAG_CLEAR_def
      upd_thread_def upd_event_def Let_def)

lemma warn_scan_eq:
  fixes s :: "'a psi_app_scheme"
  assumes "eset (events s rf_event) AND rf_mask \<noteq> 0"
  shows "\<exists>th ev. warn_scan self s =
      warn_dispatch (eset (events s rf_event) AND rf_mask) (s\<lparr>threads := th, events := ev\<rparr>) \<and>
    eset (ev rf_event) = eset (events s rf_event) AND NOT rf_mask"
  using recv_or_clear [of rf_mask self rf_event s] assms
  unfolding warn_scan_def rf_mask_eq
  by (intro exI conjI) (simp add: rf_mask_def, simp add: rf_mask_def)

section \<open>Which lights a call can reach\<close>

fun cmd_led :: "led_cmd \<Rightarrow> led_id" where
  "cmd_led (Set_Mode i m n) = i"
| "cmd_led (Start i) = i"
| "cmd_led (Stop i) = i"
| "cmd_led (On i) = i"
| "cmd_led (Off i) = i"

definition lights_kept :: "led_id set \<Rightarrow> 'a led_app_scheme \<Rightarrow> 'a led_app_scheme \<Rightarrow> bool" where
  "lights_kept A s t \<longleftrightarrow> (leds_ready s \<longrightarrow>
     leds_ready t \<and> playing t \<inter> A = playing s \<inter> A \<and> dark t \<inter> A = dark s \<inter> A)"

lemma abs_led_other:
  "cmd_led c \<notin> A \<Longrightarrow> fst (abs_led c PD) \<inter> A = fst PD \<inter> A \<and> snd (abs_led c PD) \<inter> A = snd PD \<inter> A"
  by (cases PD; cases c) auto

lemma abs_leds_other:
  "\<forall>c \<in> set cs. cmd_led c \<notin> A \<Longrightarrow>
     fst (abs_leds cs PD) \<inter> A = fst PD \<inter> A \<and> snd (abs_leds cs PD) \<inter> A = snd PD \<inter> A"
  unfolding abs_leds_def by (induction cs arbitrary: PD) (simp_all add: abs_led_other)

lemma lights_kept_run:
  assumes "\<forall>c \<in> set cs. cmd_ok c \<and> cmd_led c \<notin> A"
  shows "lights_kept A s (run_leds cs s)"
  using assms abs_leds_other [of cs A] run_leds_abs [of s cs] run_leds_lights [of s cs]
  by (simp add: lights_kept_def)

lemma lights_kept_trans: "lights_kept A s t \<Longrightarrow> lights_kept A t u \<Longrightarrow> lights_kept A s u"
  by (simp add: lights_kept_def)

text \<open>A step that leaves the objects, the pins and the heap alone.\<close>

lemma lights_kept_eq:
  assumes "leds t = leds s" and "handle t = handle s" and "heap_oracle t = heap_oracle s"
    and "pin_level t = pin_level s"
  shows "lights_kept A s t"
  using assms by (simp add: lights_kept_def leds_ready_def playing_def dark_def)

lemma lights_kept_refl: "lights_kept A s s"
  by (simp add: lights_kept_def)

definition signal_lights :: "led_id set" where
  "signal_lights = rf433_group \<union> rf4068_group"

lemma signal_lights_eq:
  "signal_lights = {LED1_G, LED1_R, LED2_G, LED2_R, LED3_G, LED3_R, LED4_G, LED4_R, LED5_G, LED5_R,
     LED6_G, LED6_R}"
  by (auto simp: signal_lights_def rf433_group_def rf4068_group_def)

lemma lights_kept_groups:
  "lights_kept signal_lights s (transmitter_on s)" "lights_kept signal_lights s (transmitter_off s)"
  "lights_kept signal_lights s (transmitter_lost s)" "lights_kept signal_lights s (receiver_on s)"
  "lights_kept signal_lights s (receiver_off s)" "lights_kept signal_lights s (receiver_lost s)"
  "lights_kept rf4068_group s (led_rf433_start m s)" "lights_kept rf433_group s (led_rf4068_start m s)"
  unfolding led_group_defs rf433_defs rf4068_defs
  by (auto intro!: lights_kept_run lights_kept_refl simp: signal_lights_eq rf433_group_def rf4068_group_def)

lemma lights_kept_psi:
  fixes s :: "'a psi_app_scheme"
  shows "lights_kept A s (s\<lparr>Psi_Lost := a\<rparr>)" "lights_kept A s (s\<lparr>PSI_Status := a\<rparr>)"
    "lights_kept A s (psi_upload v s)"
  by (auto intro!: lights_kept_eq simp: psi_upload_def rf_433_Enqueue_def rf_4068_Enqueue_def
      set_queue_433_def set_queue_4068_def split: option.splits)

lemma lights_kept_resume:
  "lights_kept signal_lights s (psi_led_resume s)" "lights_kept signal_lights s (psi_led_lost s)"
proof -
  have o: "lights_kept signal_lights s (psi_open s)" for s :: "'b psi_app_scheme"
    by (simp add: psi_open_def lights_kept_refl lights_kept_trans [OF lights_kept_psi(2)
          lights_kept_trans [OF lights_kept_groups(1) lights_kept_psi(3)]])
  have c: "lights_kept signal_lights s (psi_close s)" for s :: "'b psi_app_scheme"
    by (simp add: psi_close_def lights_kept_refl lights_kept_trans [OF lights_kept_psi(2)
          lights_kept_trans [OF lights_kept_groups(2) lights_kept_psi(3)]])
  have p: "lights_kept signal_lights s (psi_led_init s)" "lights_kept signal_lights s (valve_led_init s)"
    for s :: "'b psi_app_scheme"
    by (simp_all add: psi_led_init_def valve_led_init_def lights_kept_groups)
  show "lights_kept signal_lights s (psi_led_resume s)"
    by (simp add: psi_led_resume_def Let_def lights_kept_refl
        lights_kept_trans [OF lights_kept_psi(1) lights_kept_trans [OF p(1) lights_kept_trans [OF p(2) o]]]
        lights_kept_trans [OF lights_kept_psi(1) lights_kept_trans [OF p(1) lights_kept_trans [OF p(2) c]]])
  show "lights_kept signal_lights s (psi_led_lost s)"
    by (simp add: psi_led_lost_def lights_kept_refl lights_kept_trans [OF lights_kept_psi(1)
          lights_kept_trans [OF lights_kept_groups(3) lights_kept_groups(6)]])
qed

lemma lights_kept_beep: "lights_kept signal_lights s (beep_start n s)"
proof -
  have "lights_kept signal_lights s (s\<lparr>beep_mode := n\<rparr>)" by (rule lights_kept_eq) simp_all
  moreover have "\<forall>c \<in> set ([Stop BEEP, Off BEEP] @ beep_pattern n @ [Start BEEP]).
      cmd_ok c \<and> cmd_led c \<notin> signal_lights"
    by (simp add: beep_pattern_def signal_lights_eq)
  ultimately show ?thesis
    unfolding beep_start_def
    by (simp only: lights_kept_refl lights_kept_trans [OF _ lights_kept_run] if_split) simp
qed

lemma lights_kept_subset: "lights_kept A s t \<Longrightarrow> B \<subseteq> A \<Longrightarrow> lights_kept B s t"
  unfolding lights_kept_def by blast

section \<open>Frame\<close>

lemma beep_app [simp]:
  fixes s :: "'a psi_app_scheme"
  shows "events (beep_start n s) = events s" "Psi_Lost (beep_start n s) = Psi_Lost s"
    "beep_mode (beep_start n s) = n" "events (beep_stop s) = events s"
    "Psi_Lost (beep_stop s) = Psi_Lost s" "beep_mode (beep_stop s) = 0"
    "info_433 (beep_start n s) = info_433 s" "info_4068 (beep_start n s) = info_4068 s"
  by (simp_all add: beep_start_def beep_stop_def run_leds_beep_mode)

lemma psi_warn_app [simp]:
  fixes s :: "'a psi_app_scheme"
  shows "events (psi_led_resume s) = events s" "info_433 (psi_led_resume s) = info_433 s"
    "info_4068 (psi_led_resume s) = info_4068 s" "beep_mode (psi_led_resume s) = beep_mode s"
    "Psi_Lost (psi_led_resume s) = 0" "events (psi_led_lost s) = events s"
    "beep_mode (psi_led_lost s) = beep_mode s"
    "Psi_Lost (psi_led_lost s) = (if Psi_Lost s = 0 then 1 else Psi_Lost s)"
  by (auto simp: psi_led_resume_def psi_led_lost_def Let_def psi_open_def psi_close_def psi_upload_def
      rf_433_Enqueue_def rf_4068_Enqueue_def set_queue_433_def set_queue_4068_def psi_led_init_def
      valve_led_init_def led_group_defs run_leds_beep_mode split: option.splits)

lemma link_lights_app [simp]:
  fixes s :: "'a psi_app_scheme"
  shows "events (led_rf433_start m s) = events s" "Psi_Lost (led_rf433_start m s) = Psi_Lost s"
    "info_433 (led_rf433_start m s) = info_433 s" "info_4068 (led_rf433_start m s) = info_4068 s"
    "events (led_rf4068_start m s) = events s" "Psi_Lost (led_rf4068_start m s) = Psi_Lost s"
    "info_433 (led_rf4068_start m s) = info_433 s" "info_4068 (led_rf4068_start m s) = info_4068 s"
    "beep_mode (led_rf433_start m s) = beep_mode s" "beep_mode (led_rf4068_start m s) = beep_mode s"
  by (simp_all add: rf433_defs rf4068_defs run_leds_beep_mode)

lemma beep_calc_app:
  fixes s :: "'a psi_app_scheme"
  shows "events (beep_calc a b s) = events s" "Psi_Lost (beep_calc a b s) = Psi_Lost s"
    "beep_mode (beep_calc a b s) =
       (if a = 2 \<or> b = 2 then 1 else if 2 < a \<and> 2 < b then 0 else beep_mode s)"
  by (simp_all add: beep_calc_def)

lemma dispatch_events: "events (warn_dispatch e s) = events s"
  by (simp add: warn_dispatch_def Let_def beep_calc_app)

section \<open>Properties\<close>

text \<open>The buzzer for two links of which \<open>other\<close> is the one an event is not about.\<close>

definition online_beep :: "rf_info \<Rightarrow> u8 \<Rightarrow> u8 \<Rightarrow> u8 \<Rightarrow> u8" where
  "online_beep other l4068 l433 old =
     (if alive other \<noteq> 0
      then if l4068 = 2 \<or> l433 = 2 then 1 else if 2 < l4068 \<and> 2 < l433 then 0 else old
      else if startup other = 1 then 2 else old)"

text \<open>A scan consumes the pending events and decides by the first one in the order 433 offline,
  4068 offline, 433 online, 4068 online. A lost link sounds mode 2 if the other link is alive and
  otherwise mode 3 with the switch marked as lost; a link that is back ends the lost state, and
  sounds mode 1 if a signal is very weak, mode 2 while the other link is known to be lost, and
  falls silent when both are good.\<close>

theorem warn_decides:
  fixes s :: "'a psi_app_scheme" and self :: nat
  assumes "eset (events s rf_event) AND rf_mask \<noteq> 0" and "Psi_Lost s \<in> {0, 1}"
  defines "t \<equiv> warn_scan self s" and "es \<equiv> eset (events s rf_event) AND rf_mask"
    and "l4068 \<equiv> rssi_level (info_4068 s)" and "l433 \<equiv> rssi_level (info_433 s)"
  shows "eset (events t rf_event) = eset (events s rf_event) AND NOT rf_mask \<and>
    (beep_mode t, Psi_Lost t) =
      (if es AND RF433_Offline \<noteq> 0 then if alive (info_4068 s) \<noteq> 0 then (2, 0) else (3, 1)
       else if es AND RF4068_Offline \<noteq> 0 then if alive (info_433 s) \<noteq> 0 then (2, 0) else (3, 1)
       else if es AND RF433_Online \<noteq> 0
       then (online_beep (info_4068 s) l4068 l433 (beep_mode s), 0)
       else (online_beep (info_433 s) l4068 l433 (beep_mode s), 0))"
proof -
  obtain th ev where t: "t = warn_dispatch es (s\<lparr>threads := th, events := ev\<rparr>)"
    and ev: "eset (ev rf_event) = eset (events s rf_event) AND NOT rf_mask"
    using warn_scan_eq [OF assms(1), of self] unfolding t_def es_def by blast
  have "es AND RF4068_Online \<noteq> 0"
    if "es AND RF433_Offline = 0" "es AND RF4068_Offline = 0" "es AND RF433_Online = 0"
  proof
    assume "es AND RF4068_Online = 0"
    then have "es AND (RF433_Offline OR RF4068_Offline OR RF433_Online OR RF4068_Online) = 0"
      using that by (simp add: word_ao_dist2)
    then show False using assms(1) unfolding rf_mask_eq es_def by (simp add: word_bw_assocs)
  qed
  then show ?thesis
    unfolding t using ev assms(2)
    by (auto simp: dispatch_events warn_dispatch_def Let_def online_beep_def beep_calc_app l4068_def
        l433_def)
qed

text \<open>Events that become pending between two scans are lost: if both links have gone offline,
  the scan clears all four bits but shows only the first loss, so the lights of the 4068 link
  stay what they were and the next scan finds nothing to do.\<close>

theorem warn_offline_lost:
  fixes s :: "'a psi_app_scheme" and self :: nat
  assumes "leds_ready s" and "eset (events s rf_event) AND RF433_Offline \<noteq> 0"
    and "eset (events s rf_event) AND RF4068_Offline \<noteq> 0"
  defines "t \<equiv> warn_scan self s"
  shows "playing t \<inter> rf4068_group = playing s \<inter> rf4068_group \<and>
    dark t \<inter> rf4068_group = dark s \<inter> rf4068_group \<and>
    eset (events t rf_event) AND rf_mask = 0 \<and>
    playing (warn_scan self t) = playing t \<and> dark (warn_scan self t) = dark t"
proof -
  let ?es = "eset (events s rf_event) AND rf_mask"
  have b: "?es AND RF433_Offline = eset (events s rf_event) AND RF433_Offline"
    by (simp add: rf_mask_def RF433_Offline_def word_bw_assocs)
  then have nz: "?es \<noteq> 0" using assms(2) by auto
  obtain th ev where t: "t = warn_dispatch ?es (s\<lparr>threads := th, events := ev\<rparr>)"
    and ev: "eset (ev rf_event) = eset (events s rf_event) AND NOT rf_mask"
    using warn_scan_eq [OF nz, of self] unfolding t_def by blast
  let ?s = "s\<lparr>threads := th, events := ev\<rparr>"
  note sub = lights_kept_subset [OF _ Un_upper2 [of rf4068_group rf433_group, folded signal_lights_def]]
  have k: "lights_kept rf4068_group ?s t"
    unfolding t warn_dispatch_def Let_def using assms(2) b
    by (simp add: lights_kept_trans [OF lights_kept_trans [OF lights_kept_groups(7)
          sub [OF lights_kept_resume(1)]] sub [OF lights_kept_beep]]
        lights_kept_trans [OF lights_kept_trans [OF lights_kept_groups(7)
          sub [OF lights_kept_resume(2)]] sub [OF lights_kept_beep]])
  have rd: "leds_ready ?s" and eq: "playing ?s = playing s" "dark ?s = dark s"
    using assms(1) by (simp_all add: leds_ready_def playing_def dark_def)
  have e: "eset (events t rf_event) AND rf_mask = 0"
    unfolding t dispatch_events using ev by (simp add: flag_clear_bit)
  have "playing (warn_scan self t) = playing t \<and> dark (warn_scan self t) = dark t"
    using recv_or_clear [of rf_mask self rf_event t] e
    by (simp add: warn_scan_def rf_mask_eq rf_mask_def playing_def dark_def)
  with k rd eq e show ?thesis by (simp add: lights_kept_def)
qed

section \<open>Witnesses\<close>

definition warn_desk :: "u32 \<Rightarrow> psi_app" where
  "warn_desk es = psi_desk\<lparr>events := (\<lambda>_. \<lparr>eset = es, event_flag = RT_IPC_FLAG_PRIO,
     event_suspend = []\<rparr>), info_4068 := (info_4068 psi_desk)\<lparr>startup := 1\<rparr>\<rparr>"

lemma warn_desk_simps [simp]:
  "eset (events (warn_desk es) i) = es" "Psi_Lost (warn_desk es) = 0"
  "alive (info_4068 (warn_desk es)) = 0" "startup (info_4068 (warn_desk es)) = 1"
  by (simp_all add: warn_desk_def)

lemma panel_psi:
  "leds (warn_desk es) = leds panel" "handle (warn_desk es) = handle panel"
  "heap_oracle (warn_desk es) = heap_oracle panel"
  by (simp_all add: warn_desk_def psi_desk_def seg_app.defs seg_panel_def led_app.defs panel_def
      led_env.defs bench_def kern.defs idle_kern_def)

lemma leds_ready_warn_desk: "leds_ready (warn_desk es)"
  using leds_ready_panel by (simp add: leds_ready_def panel_psi)

theorem warn_decides_witness:
  "beep_mode (warn_scan 9 (warn_desk 1)) = 3 \<and> beep_mode (warn_scan 9 (warn_desk 2)) = 2"
  using warn_decides [of "warn_desk 1" 9] warn_decides [of "warn_desk 2" 9]
  by (simp add: rf_mask_def rf_bits online_beep_def)

theorem warn_offline_lost_witness:
  "LED4_R \<notin> playing (warn_scan 9 (warn_desk 5))"
proof -
  have "playing (warn_desk 5) = {}" using playing_panel by (simp add: playing_def panel_psi)
  moreover have "playing (warn_scan 9 (warn_desk 5)) \<inter> rf4068_group = playing (warn_desk 5) \<inter> rf4068_group"
    using warn_offline_lost [OF leds_ready_warn_desk, of 5 9] by (simp add: rf_bits)
  ultimately show ?thesis by (auto simp: rf4068_group_def)
qed

end
