(* ===== verification/Heart.thy ===== *)
theory Heart
  imports Warn
begin

text \<open>
  The supervision of the two links: \<open>applications/heart.c\<close>.

  State: \<open>rf_now\<close> (the link in use, 1 for 433), \<open>heart_mode\<close> (0 send, 1 check, 2 and 3 waiting a
  random time), the link the local pointer \<open>info_temp\<close> of the heart thread refers to
  (\<^const>\<open>None\<close> for the uninitialised block it is allocated with), and the per-link records. The
  pointer of the button's thread is an argument of its segments.
  The threads are split at their delays and at \<open>rt_sem_take\<close>; \<open>ok\<close> says whether the semaphore was
  obtained in its 100 ticks, \<open>self\<close> is the thread. \<open>rnd\<close> is the first value of \<open>rand\<close> for a seed.
\<close>

section \<open>State\<close>

datatype link = Link_433 | Link_4068

record 'e heart_app = "'e file_app" +
  rf_now :: u8
  heart_mode :: u8
  rand_time :: u32
  heart_info :: "link option"

definition connect_sem :: nat where "connect_sem = 1"
definition heart_sem :: nat where "heart_sem = 2"
definition button_sem :: nat where "button_sem = 3"
definition rf_lock :: nat where "rf_lock = 1"
definition connect_timer :: nat where "connect_timer = 1"
definition heart_timer :: nat where "heart_timer = 2"

fun info_of :: "link \<Rightarrow> 'a psi_app_scheme \<Rightarrow> rf_info" where
  "info_of Link_433 s = info_433 s"
| "info_of Link_4068 s = info_4068 s"

fun upd_info :: "link \<Rightarrow> (rf_info \<Rightarrow> rf_info) \<Rightarrow> 'a psi_app_scheme \<Rightarrow> 'a psi_app_scheme" where
  "upd_info Link_433 f s = s\<lparr>info_433 := f (info_433 s)\<rparr>"
| "upd_info Link_4068 f s = s\<lparr>info_4068 := f (info_4068 s)\<rparr>"

definition link_select :: "u8 \<Rightarrow> link" where
  "link_select n = (if n \<noteq> 0 then Link_433 else Link_4068)"

definition flip :: "u8 \<Rightarrow> u8" where
  "flip n = (if n = 0 then 1 else 0)"

section \<open>Requests\<close>

definition heart_request :: "u8 \<Rightarrow> ('e, 'a) heart_app_scheme \<Rightarrow> ('e, 'a) heart_app_scheme" where
  "heart_request rf_select s =
     (let s1 = s\<lparr>rf_now := rf_select\<rparr>
      in if rf_select = 0
         then rf_4068_Urgent_Enqueue (Target_ID s1) 0 (PSI_Status s1)
                (upd_info Link_4068 (received_update (\<lambda>_. 0)) s1)
         else if rf_select = 1
         then rf_433_Urgent_Enqueue (Target_ID s1) 0 (PSI_Status s1)
                (upd_info Link_433 (received_update (\<lambda>_. 0)) s1)
         else s1)"

definition button_request :: "u8 \<Rightarrow> ('e, 'a) heart_app_scheme \<Rightarrow> ('e, 'a) heart_app_scheme" where
  "button_request rf_select s =
     (let s1 = s\<lparr>rf_now := rf_select\<rparr>
      in if rf_select = 0
         then rf_4068_Enqueue (Target_ID s1) 1 (PSI_Status s1)
                (upd_info Link_4068 (testreceived_update (\<lambda>_. 0)) s1)
         else if rf_select = 1
         then rf_433_Enqueue (Target_ID s1) 1 (PSI_Status s1)
                (upd_info Link_433 (testreceived_update (\<lambda>_. 0)) s1)
         else s1)"

section \<open>Timers\<close>

definition connect_timer_callback :: "'a kern_scheme \<Rightarrow> 'a kern_scheme" where
  "connect_timer_callback s = snd (rt_sem_release connect_sem s)"

definition heart_timer_callback :: "'a kern_scheme \<Rightarrow> 'a kern_scheme" where
  "heart_timer_callback s = snd (rt_sem_release heart_sem s)"

definition heart_time_start :: "u32 \<Rightarrow> 'a timer_sys_scheme \<Rightarrow> 'a timer_sys_scheme" where
  "heart_time_start time s =
     rt_timer_start heart_timer (snd (rt_timer_control heart_timer (CTRL_SET_TIME time) s))"

definition heart_time_increase :: "u32 \<Rightarrow> 'a timer_sys_scheme \<Rightarrow> 'a timer_sys_scheme" where
  "heart_time_increase time s =
     (let (g, s1) = rt_timer_control heart_timer CTRL_GET_TIME s;
          temp = (case g of Some v \<Rightarrow> v | None \<Rightarrow> 0) + time
      in rt_timer_start heart_timer (snd (rt_timer_control heart_timer (CTRL_SET_TIME temp) s1)))"

definition get_srand_time :: "(u32 \<Rightarrow> u32) \<Rightarrow> u32 \<Rightarrow> u32 \<Rightarrow> 'a timer_sys_scheme \<Rightarrow> u32" where
  "get_srand_time rnd mn mx s =
     (let val = rnd (rt_tick_get s) mod (mx * 10) + mn * 10
      in (if val = 0 then 1 else val) * 100)"

section \<open>The state of a link\<close>

definition radio_refresh :: "link \<Rightarrow> ('e, 'a) heart_app_scheme \<Rightarrow> ('e, 'a) heart_app_scheme" where
  "radio_refresh temp s =
     (let s1 = upd_info temp (\<lambda>i. i\<lparr>retry := 0, alive := 1, startup := 1\<rparr>) s
      in s1\<lparr>rf_now := flip (rf_now s1)\<rparr>)"

definition rf_offline :: "link \<Rightarrow> 'a psi_app_scheme \<Rightarrow> 'a psi_app_scheme" where
  "rf_offline temp s =
     (let send_offline = (\<lambda>s. if freq (info_of temp s) = 433
                              then snd (rt_event_send rf_event RF433_Offline s)
                              else snd (rt_event_send rf_event RF4068_Offline s))
      in if alive (info_of temp s) \<noteq> 0
         then send_offline (upd_info temp (\<lambda>i. i\<lparr>alive := 0\<rparr>) s)
         else if startup (info_of temp s) = 0
         then send_offline (upd_info temp (\<lambda>i. i\<lparr>startup := 1\<rparr>) s)
         else s)"

section \<open>The heart thread\<close>

text \<open>The connection attempt of the start-up phase, up to its delay and behind it.\<close>

definition heart_connect_begin :: "('e, 'a) heart_app_scheme \<Rightarrow> ('e, 'a) heart_app_scheme" where
  "heart_connect_begin s = heart_request 1 s"

definition heart_connect_end ::
  "'e storage_ops \<Rightarrow> nat \<Rightarrow> ('e, 'a) heart_app_scheme \<Rightarrow> ('e, 'a) heart_app_scheme" where
  "heart_connect_end E self s =
     (let i = info_433 s
      in if received i \<noteq> 0
         then
           let s1 = File_Output E self 1 (Valve_Status s) (PSI_Status s) (received i) (retry i)
                      (rssi i) 0 0 s;
               s2 = snd (rt_timer_stop connect_timer s1)
           in (heart_time_start 10000 (radio_refresh Link_433 s2))\<lparr>heart_mode := 0\<rparr>
         else s)"

text \<open>The answer to try number \<open>n\<close> was received in time.\<close>

definition heart_success ::
  "'e storage_ops \<Rightarrow> nat \<Rightarrow> link \<Rightarrow> u8 \<Rightarrow> ('e, 'a) heart_app_scheme \<Rightarrow> ('e, 'a) heart_app_scheme" where
  "heart_success E self l n s =
     (let s1 = s\<lparr>heart_mode := 0\<rparr>
      in heart_time_start 27700 (radio_refresh l
           (File_Output E self (rf_now s1) (Valve_Status s1) (PSI_Status s1) 1 n (rssi (info_of l s1))
              1 0 s1)))"

text \<open>The modes; without the semaphore nothing happens.\<close>

definition heart_send ::
  "nat \<Rightarrow> ('e, 'a) heart_app_scheme \<Rightarrow> ('e, 'a) heart_app_scheme" where
  "heart_send self s =
     (let s1 = s\<lparr>heart_info := Some (link_select (rf_now s))\<rparr>;
          s2 = heart_time_start 2000 (heart_request (rf_now s1) s1)
      in snd (rt_mutex_trytake self rf_lock (s2\<lparr>heart_mode := 1\<rparr>)))"

definition heart_check ::
  "'e storage_ops \<Rightarrow> nat \<Rightarrow> link \<Rightarrow> ('e, 'a) heart_app_scheme \<Rightarrow> ('e, 'a) heart_app_scheme" where
  "heart_check E self l s =
     (let i = info_of l s; incr = (\<lambda>i. i\<lparr>retry := retry i + 1\<rparr>)
      in if retry i = 0 then
           (if received i \<noteq> 0 then heart_success E self l 0 s
            else snd (rt_sem_release heart_sem (upd_info l incr (s\<lparr>heart_mode := 2\<rparr>))))
         else if retry i = 1 then
           (if received i \<noteq> 0 then heart_success E self l 1 s
            else snd (rt_sem_release heart_sem (upd_info l incr (s\<lparr>heart_mode := 2\<rparr>))))
         else if retry i = 2 then
           (if received i \<noteq> 0 then heart_success E self l 2 s
            else heart_time_start 1000 (upd_info l incr (s\<lparr>heart_mode := 3\<rparr>)))
         else if retry i = 3 then
           (let s1 = File_Output E self (rf_now s) (Valve_Status s) (PSI_Status s) (received i) 3
                       (if 0 < received i then rssi i else 0) 1 0 s
            in (if received (info_of l s1) \<noteq> 0
                then heart_time_start 27700 (radio_refresh l s1)
                else
                  let s2 = alive_count_increase (rf_now s1) s1;
                      s3 = rf_offline l (s2\<lparr>rf_now := flip (rf_now s2)\<rparr>)
                  in snd (rt_sem_release heart_sem (upd_info l (\<lambda>i. i\<lparr>retry := 0\<rparr>) s3)))
               \<lparr>heart_mode := 0\<rparr>)
         else s)"

definition heart_wait ::
  "(u32 \<Rightarrow> u32) \<Rightarrow> u32 \<Rightarrow> ('e, 'a) heart_app_scheme \<Rightarrow> ('e, 'a) heart_app_scheme" where
  "heart_wait rnd mx s =
     (let s1 = s\<lparr>heart_mode := 0, rand_time := get_srand_time rnd 0 mx s\<rparr>
      in heart_time_start (rand_time s1) s1)"

definition heart_turn ::
  "'e storage_ops \<Rightarrow> (u32 \<Rightarrow> u32) \<Rightarrow> nat \<Rightarrow> bool \<Rightarrow> ('e, 'a) heart_app_scheme
     \<Rightarrow> ('e, 'a) heart_app_scheme" where
  "heart_turn E rnd self ok s =
     (if \<not> ok then s
      else if heart_mode s = 0 then heart_send self s
      else if heart_mode s = 1 then
        (case heart_info s of
           None \<Rightarrow> s\<lparr>mem_fault := True\<rparr>
         | Some l \<Rightarrow> snd (rt_mutex_release self rf_lock (heart_check E self l s)))
      else if heart_mode s = 2 then heart_wait rnd 7 s
      else if heart_mode s = 3 then heart_wait rnd 8 s
      else s)"

section \<open>The test button's thread\<close>

definition heart_single :: "'a kern_scheme \<Rightarrow> 'a kern_scheme" where
  "heart_single s = snd (rt_sem_release button_sem s)"

text \<open>The head of the loop chooses the link before it waits for the button.\<close>

definition button_select :: "('e, 'a) heart_app_scheme \<Rightarrow> link" where
  "button_select s = link_select (rf_now s)"

text \<open>The request, up to the delay of 2 s; the first component is the case of the \<open>switch\<close> that is
  entered, if any.\<close>

definition button_begin ::
  "link \<Rightarrow> ('e, 'a) heart_app_scheme \<Rightarrow> u8 option \<times> ('e, 'a) heart_app_scheme" where
  "button_begin l s =
     (let s1 = receiver_close (button_request (rf_now s) s); n = retry (info_of l s1)
      in (if n = 0 \<or> n = 1 \<or> n = 2 \<or> n = 3 then Some n else None, s1))"

definition flip_if_free :: "nat \<Rightarrow> ('e, 'a) heart_app_scheme \<Rightarrow> ('e, 'a) heart_app_scheme" where
  "flip_if_free self s =
     (let (r, s1) = rt_mutex_trytake self rf_lock s
      in if r = Some RT_EOK
         then snd (rt_mutex_release self rf_lock (s1\<lparr>rf_now := flip (rf_now s1)\<rparr>)) else s1)"

definition button_success :: "nat \<Rightarrow> link \<Rightarrow> ('e, 'a) heart_app_scheme \<Rightarrow> ('e, 'a) heart_app_scheme" where
  "button_success self l s =
     flip_if_free self (upd_info l (\<lambda>i. i\<lparr>retry := 0, alive := 1, startup := 1\<rparr>) s)"

text \<open>The rest of the case \<open>n\<close> behind the delay.\<close>

definition button_end ::
  "'e storage_ops \<Rightarrow> nat \<Rightarrow> link \<Rightarrow> u8 \<Rightarrow> ('e, 'a) heart_app_scheme \<Rightarrow> ('e, 'a) heart_app_scheme" where
  "button_end E self l n s =
     (let i = info_of l s
      in if n \<noteq> 3 then
           if testreceived i \<noteq> 0
           then button_success self l (File_Output E self (rf_now s) (Valve_Status s) (PSI_Status s)
                  1 n (rssi i) 1 1 s)
           else upd_info l (\<lambda>i. i\<lparr>retry := retry i + 1\<rparr>) s
         else
           let s1 = File_Output E self (rf_now s) (Valve_Status s) (PSI_Status s) (testreceived i) 3
                      (if 0 < testreceived i then rssi i else 0) 1 1 s
           in if testreceived (info_of l s1) \<noteq> 0 then button_success self l s1
              else upd_info l (\<lambda>i. i\<lparr>retry := 0\<rparr>)
                     (rf_offline l (flip_if_free self (alive_count_increase (rf_now s1) s1))))"

section \<open>Start-up\<close>

definition heart_init :: "('e, 'a) heart_app_scheme \<Rightarrow> ('e, 'a) heart_app_scheme" where
  "heart_init s =
     (let s1 = upd_info Link_4068 (freq_update (\<lambda>_. 4068)) (upd_info Link_433 (freq_update (\<lambda>_. 433)) s);
          s2 = sem_create connect_sem 0 RT_IPC_FLAG_PRIO (mutex_create rf_lock RT_IPC_FLAG_PRIO s1);
          s3 = timer_init connect_timer 5000 (RT_TIMER_FLAG_SOFT_TIMER OR RT_TIMER_FLAG_PERIODIC) s2;
          s4 = sem_create heart_sem 0 RT_IPC_FLAG_PRIO s3;
          s5 = timer_init heart_timer 1000 RT_TIMER_FLAG_SOFT_TIMER s4;
          s6 = sem_create button_sem 0 RT_IPC_FLAG_PRIO s5
      in rt_timer_start connect_timer s6)"

section \<open>Frame\<close>

lemma heart_more_eq:
  fixes s t :: "('e, 'a) heart_app_scheme"
  assumes "file_app.more t = file_app.more s"
  shows "rf_now t = rf_now s" "heart_mode t = heart_mode s" "heart_info t = heart_info s"
    "rand_time t = rand_time s"
  using assms by (cases s; cases t; simp)+

lemma timer_start_heart [simp]:
  fixes s :: "('e, 'a) heart_app_scheme"
  shows "file_app.more (rt_timer_start t s) = file_app.more s"
    "rf433_alive_conut (rt_timer_start t s) = rf433_alive_conut s"
    "rf4068_alive_conut (rt_timer_start t s) = rf4068_alive_conut s"
  using timer_start_more [of t s] by (cases s; cases "rt_timer_start t s"; simp)+

lemma sem_release_more: "kern.more (snd (rt_sem_release i s)) = kern.more s"
  by (simp add: rt_sem_release_def upd_sem_def rt_thread_resume_def tlist_remove_def upd_thread_def
      Let_def split: list.splits)

lemma sem_release_heart [simp]:
  fixes s :: "('e, 'a) heart_app_scheme"
  shows "info_433 (snd (rt_sem_release i s)) = info_433 s"
    "info_4068 (snd (rt_sem_release i s)) = info_4068 s"
    "rf433_alive_conut (snd (rt_sem_release i s)) = rf433_alive_conut s"
    "rf4068_alive_conut (snd (rt_sem_release i s)) = rf4068_alive_conut s"
    "file_app.more (snd (rt_sem_release i s)) = file_app.more s"
  using sem_release_more [of i s] by (cases s; cases "snd (rt_sem_release i s)"; simp)+

lemma sem_release_eset [simp]: "eset (events (snd (rt_sem_release i s)) j) = eset (events s j)"
  by (simp add: rt_sem_release_def upd_sem_def rt_thread_resume_def tlist_remove_def upd_thread_def
      Let_def split: list.splits)

lemma mutex_alive [simp]:
  fixes s :: "('e, 'a) heart_app_scheme"
  shows "eset (events (snd (rt_mutex_take p i n s)) j) = eset (events s j)"
    "eset (events (snd (rt_mutex_release p i s)) j) = eset (events s j)"
  by (simp_all add: mutex_events)

lemmas heart_more = heart_more_eq [OF timer_start_heart(1)] heart_more_eq [OF sem_release_heart(5)]
  heart_more_eq [OF File_Output_app(16)] heart_more_eq [OF mutex_app(12)]
  heart_more_eq [OF mutex_release_app(12)] heart_more_eq [OF event_send_app(16)]
  heart_more_eq [OF run_leds_file(7)]

declare heart_more [simp]

lemma heart_time_start_app [simp]:
  fixes s :: "('e, 'a) heart_app_scheme"
  shows "info_433 (heart_time_start n s) = info_433 s" "info_4068 (heart_time_start n s) = info_4068 s"
    "rf_now (heart_time_start n s) = rf_now s" "heart_mode (heart_time_start n s) = heart_mode s"
    "heart_info (heart_time_start n s) = heart_info s" "events (heart_time_start n s) = events s"
    "rf433_alive_conut (heart_time_start n s) = rf433_alive_conut s"
    "rf4068_alive_conut (heart_time_start n s) = rf4068_alive_conut s"
    "sems (heart_time_start n s) = sems s" "mutexes (heart_time_start n s) = mutexes s"
  by (simp_all add: heart_time_start_def upd_timer_def)

lemma queue_heart [simp]:
  fixes s :: "('e, 'a) heart_app_scheme"
  shows "info_433 (rf_433_Urgent_Enqueue a c v s) = info_433 s"
    "info_4068 (rf_433_Urgent_Enqueue a c v s) = info_4068 s"
    "info_433 (rf_4068_Urgent_Enqueue a c v s) = info_433 s"
    "info_4068 (rf_4068_Urgent_Enqueue a c v s) = info_4068 s"
    "info_433 (rf_433_Enqueue a c v s) = info_433 s" "info_4068 (rf_433_Enqueue a c v s) = info_4068 s"
    "info_433 (rf_4068_Enqueue a c v s) = info_433 s" "info_4068 (rf_4068_Enqueue a c v s) = info_4068 s"
  by (auto simp: rf_433_Enqueue_def rf_4068_Enqueue_def rf_433_Urgent_Enqueue_def
      rf_4068_Urgent_Enqueue_def set_queue_433_def set_queue_4068_def split: option.splits)

text \<open>What stays when only a queue is written.\<close>

definition same_heart :: "('e, 'a) heart_app_scheme \<Rightarrow> ('e, 'a) heart_app_scheme \<Rightarrow> bool" where
  "same_heart s t \<longleftrightarrow> rf_now t = rf_now s \<and> heart_mode t = heart_mode s \<and> heart_info t = heart_info s \<and>
     events t = events s \<and> sems t = sems s \<and> mutexes t = mutexes s \<and> timers t = timers s \<and>
     rf433_alive_conut t = rf433_alive_conut s \<and> rf4068_alive_conut t = rf4068_alive_conut s"

lemma same_heart_queue:
  "same_heart s (rf_433_Urgent_Enqueue a c v s)" "same_heart s (rf_4068_Urgent_Enqueue a c v s)"
  "same_heart s (rf_433_Enqueue a c v s)" "same_heart s (rf_4068_Enqueue a c v s)"
  by (auto simp: same_heart_def rf_433_Enqueue_def rf_4068_Enqueue_def rf_433_Urgent_Enqueue_def
      rf_4068_Urgent_Enqueue_def set_queue_433_def set_queue_4068_def split: option.splits)

lemmas queue_heart_more [simp] = same_heart_queue [unfolded same_heart_def, THEN conjunct1]
  same_heart_queue [unfolded same_heart_def, THEN conjunct2, THEN conjunct1]
  same_heart_queue [unfolded same_heart_def, THEN conjunct2, THEN conjunct2, THEN conjunct1]

lemma info_of_upd:
  "info_of l (upd_info k f s) = (if l = k then f (info_of k s) else info_of l s)"
  by (cases l; cases k) simp_all

lemma info_of_cong:
  "info_433 t = info_433 s \<Longrightarrow> info_4068 t = info_4068 s \<Longrightarrow> info_of l t = info_of l s"
  by (cases l) simp_all

lemma upd_info_heart [simp]:
  fixes s :: "('e, 'a) heart_app_scheme"
  shows "rf_now (upd_info l f s) = rf_now s" "heart_mode (upd_info l f s) = heart_mode s"
    "heart_info (upd_info l f s) = heart_info s" "events (upd_info l f s) = events s"
    "sems (upd_info l f s) = sems s" "mutexes (upd_info l f s) = mutexes s"
    "timers (upd_info l f s) = timers s"
    "rf433_alive_conut (upd_info l f s) = rf433_alive_conut s"
    "rf4068_alive_conut (upd_info l f s) = rf4068_alive_conut s"
    "file_app.more (upd_info l f s) = file_app.more s"
    "Valve_Status (upd_info l f s) = Valve_Status s" "PSI_Status (upd_info l f s) = PSI_Status s"
  by (cases l; simp)+

lemma link_select_flip [simp]: "n \<in> {0, 1} \<Longrightarrow> link_select (flip n) \<noteq> link_select n"
  "flip n \<in> {0, 1}"
  by (auto simp: link_select_def flip_def)

lemma same_heart_trans: "same_heart s t \<Longrightarrow> same_heart t u \<Longrightarrow> same_heart s u"
  by (simp add: same_heart_def)

lemma same_heart_upd: "same_heart s (upd_info l f s)"
  by (simp add: same_heart_def)

lemma same_heart_if: "same_heart s a \<Longrightarrow> same_heart s b \<Longrightarrow> same_heart s (if c then a else b)"
  by simp

lemma same_heart_refl: "same_heart s s"
  by (simp add: same_heart_def)

lemma same_heart_request:
  "same_heart (s\<lparr>rf_now := n\<rparr>) (heart_request n s)" "same_heart (s\<lparr>rf_now := n\<rparr>) (button_request n s)"
  unfolding heart_request_def button_request_def Let_def
  by (intro same_heart_if same_heart_refl same_heart_trans [OF same_heart_upd same_heart_queue(1)]
      same_heart_trans [OF same_heart_upd same_heart_queue(2)]
      same_heart_trans [OF same_heart_upd same_heart_queue(3)]
      same_heart_trans [OF same_heart_upd same_heart_queue(4)])+

lemma heart_request_info:
  fixes s :: "('e, 'a) heart_app_scheme"
  assumes "n = 0 \<or> n = 1"
  shows "info_of l (heart_request n s) =
      (if l = link_select n then (info_of l s)\<lparr>received := 0\<rparr> else info_of l s)"
    "info_of l (button_request n s) =
      (if l = link_select n then (info_of l s)\<lparr>testreceived := 0\<rparr> else info_of l s)"
  using assms by (cases l; elim disjE; simp add: heart_request_def button_request_def link_select_def Let_def)+

lemmas heart_request_app = same_heart_request [unfolded same_heart_def]

lemma mutex_heart [simp]:
  fixes s :: "('e, 'a) heart_app_scheme"
  shows "info_of l (snd (rt_mutex_take p i n s)) = info_of l s"
    "info_of l (snd (rt_mutex_release p i s)) = info_of l s"
    "info_of l (snd (rt_sem_release i s)) = info_of l s"
    "info_of l (heart_time_start n' s) = info_of l s"
    "info_of l (s\<lparr>heart_mode := m\<rparr>) = info_of l s" "info_of l (s\<lparr>rf_now := r\<rparr>) = info_of l s"
    "info_of l (s\<lparr>heart_info := h\<rparr>) = info_of l s" "info_of l (s\<lparr>rand_time := x\<rparr>) = info_of l s"
    "info_of l (File_Output E p a b c d e f g h' s) = info_of l s"
    "info_of l (snd (rt_event_send j ev s)) = info_of l s"
  by (cases l; simp)+

lemma alive_count_app [simp]:
  fixes s :: "('e, 'a) heart_app_scheme"
  shows "info_of l (alive_count_increase n s) = info_of l s"
    "rf_now (alive_count_increase n s) = rf_now s" "heart_mode (alive_count_increase n s) = heart_mode s"
    "heart_info (alive_count_increase n s) = heart_info s" "events (alive_count_increase n s) = events s"
  by (cases l; simp add: alive_count_increase_def rf433_alive_count_increase_def
      rf4068_alive_count_increase_def Let_def)+

lemma heart_send_app:
  fixes s :: "('e, 'a) heart_app_scheme"
  assumes "rf_now s = 0 \<or> rf_now s = 1"
  shows "heart_mode (heart_send self s) = 1" "rf_now (heart_send self s) = rf_now s"
    "heart_info (heart_send self s) = Some (link_select (rf_now s))"
    "info_of l (heart_send self s) =
       (if l = link_select (rf_now s) then (info_of l s)\<lparr>received := 0\<rparr> else info_of l s)"
    "eset (events (heart_send self s) i) = eset (events s i)"
  by (simp_all add: heart_send_def Let_def rt_mutex_trytake_def heart_request_app
      heart_request_info(1) [OF assms])

lemma radio_refresh_app [simp]:
  fixes s :: "('e, 'a) heart_app_scheme"
  shows "heart_mode (radio_refresh k s) = heart_mode s" "rf_now (radio_refresh k s) = flip (rf_now s)"
    "heart_info (radio_refresh k s) = heart_info s" "events (radio_refresh k s) = events s"
    "info_of l (radio_refresh k s) =
       (if l = k then (info_of k s)\<lparr>retry := 0, alive := 1, startup := 1\<rparr> else info_of l s)"
  by (simp_all add: radio_refresh_def Let_def info_of_upd)

lemma rf_offline_app:
  fixes s :: "('e, 'a) heart_app_scheme"
  shows "heart_mode (rf_offline k s) = heart_mode s" "rf_now (rf_offline k s) = rf_now s"
    "heart_info (rf_offline k s) = heart_info s"
    "info_of l (rf_offline k s) =
       (if l = k then (info_of k s)\<lparr>alive := 0,
            startup := (if alive (info_of k s) = 0 \<and> startup (info_of k s) = 0 then 1
                        else startup (info_of k s))\<rparr>
        else info_of l s)"
  by (auto simp: rf_offline_def Let_def info_of_upd)

lemma heart_success_app:
  fixes s :: "('e, 'a) heart_app_scheme"
  shows "heart_mode (heart_success E self k n s) = 0"
    "rf_now (heart_success E self k n s) = flip (rf_now s)"
    "heart_info (heart_success E self k n s) = heart_info s"
    "info_of l (heart_success E self k n s) =
       (if l = k then (info_of k s)\<lparr>retry := 0, alive := 1, startup := 1\<rparr> else info_of l s)"
  by (simp_all add: heart_success_def Let_def)

text \<open>The check, by the number of tries made and by whether an answer has come.\<close>

lemma heart_check_answered:
  fixes s :: "('e, 'a) heart_app_scheme"
  assumes "received (info_of k s) \<noteq> 0" and "retry (info_of k s) \<in> {0, 1, 2, 3}"
  shows "heart_mode (heart_check E self k s) = 0" "rf_now (heart_check E self k s) = flip (rf_now s)"
    "heart_info (heart_check E self k s) = heart_info s"
    "info_of l (heart_check E self k s) =
       (if l = k then (info_of k s)\<lparr>retry := 0, alive := 1, startup := 1\<rparr> else info_of l s)"
  using assms
  by (auto simp: heart_check_def Let_def heart_success_app)

lemma heart_check_silent:
  fixes s :: "('e, 'a) heart_app_scheme"
  assumes "received (info_of k s) = 0" and "retry (info_of k s) \<in> {0, 1, 2}"
  shows "heart_mode (heart_check E self k s) = (if retry (info_of k s) = 2 then 3 else 2)"
    "rf_now (heart_check E self k s) = rf_now s"
    "heart_info (heart_check E self k s) = heart_info s"
    "info_of l (heart_check E self k s) =
       (if l = k then (info_of k s)\<lparr>retry := retry (info_of k s) + 1\<rparr> else info_of l s)"
    "eset (events (heart_check E self k s) i) = eset (events s i)"
  using assms
  by (auto simp: heart_check_def Let_def info_of_upd)

lemma heart_check_final:
  fixes s :: "('e, 'a) heart_app_scheme"
  assumes "received (info_of k s) = 0" and "retry (info_of k s) = 3"
  shows "heart_mode (heart_check E self k s) = 0" "rf_now (heart_check E self k s) = flip (rf_now s)"
    "heart_info (heart_check E self k s) = heart_info s"
    "retry (info_of k (heart_check E self k s)) = 0" "alive (info_of k (heart_check E self k s)) = 0"
    "l \<noteq> k \<Longrightarrow> info_of l (heart_check E self k s) = info_of l s"
  using assms
  by (simp_all add: heart_check_def Let_def info_of_upd rf_offline_app)

section \<open>The thread never stops by itself\<close>

text \<open>Nobody waits for the thread's semaphore, for the lock of the link in use or for an event.\<close>

definition no_waiter :: "'a kern_scheme \<Rightarrow> bool" where
  "no_waiter s \<longleftrightarrow> sem_suspend (sems s heart_sem) = [] \<and> mutex_suspend (mutexes s rf_lock) = [] \<and>
     event_suspend (events s rf_event) = []"

lemma no_waiter_resume: "no_waiter s \<Longrightarrow> no_waiter (snd (rt_thread_resume p s))"
  by (simp add: no_waiter_def rt_thread_resume_def tlist_remove_def upd_thread_def Let_def)

lemma no_waiter_mutex:
  "no_waiter s \<Longrightarrow> no_waiter (snd (rt_mutex_trytake p i s))"
  "no_waiter s \<Longrightarrow> no_waiter (snd (rt_mutex_release p i s))"
  by (auto simp: no_waiter_def rt_mutex_trytake_def rt_mutex_take_def rt_mutex_release_def Let_def
      upd_mutex_def upd_thread_def rt_thread_resume_def tlist_remove_def
      split: option.splits list.splits)

lemma no_waiter_upd:
  "no_waiter t \<Longrightarrow> no_waiter (upd_event i (\<lambda>e. e\<lparr>eset := v e\<rparr>) t)" "no_waiter t \<Longrightarrow> no_waiter (upd_thread q g t)"
  by (simp_all add: no_waiter_def upd_event_def upd_thread_def)

lemma no_waiter_walk: "no_waiter s \<Longrightarrow> no_waiter (snd (event_send_walk i ps s))"
  by (induction ps arbitrary: s) (simp_all add: Let_def no_waiter_upd no_waiter_resume)

lemma no_waiter_event: "no_waiter s \<Longrightarrow> no_waiter (snd (rt_event_send i m s))"
  by (auto simp: rt_event_send_def Let_def intro!: no_waiter_walk no_waiter_upd)

lemma append_events: "events (append_file E p b s) = events s"
  by simp

lemma no_waiter_record: "no_waiter s \<Longrightarrow> no_waiter (write_record E l s)"
  by (simp add: no_waiter_def)

lemma no_waiter_File_Output: "no_waiter s \<Longrightarrow> no_waiter (File_Output E p a b c d e f g h s)"
  unfolding File_Output_def Let_def case_prod_unfold
  by (auto intro!: no_waiter_mutex no_waiter_record)

lemma no_waiter_upd_info: "no_waiter s \<Longrightarrow> no_waiter (upd_info l f s)"
  by (cases l) (simp_all add: no_waiter_def)

lemma no_waiter_offline: "no_waiter s \<Longrightarrow> no_waiter (rf_offline l s)"
  by (auto simp: rf_offline_def Let_def intro!: no_waiter_event no_waiter_upd_info)

lemma no_waiter_time: "no_waiter s \<Longrightarrow> no_waiter (heart_time_start n s)"
  by (simp add: no_waiter_def heart_time_start_def upd_timer_def)

lemma no_waiter_alive: "no_waiter s \<Longrightarrow> no_waiter (alive_count_increase n s)"
  by (simp add: no_waiter_def alive_count_increase_def rf433_alive_count_increase_def
      rf4068_alive_count_increase_def Let_def)

lemma no_waiter_heart:
  "no_waiter s \<Longrightarrow> no_waiter (s\<lparr>heart_mode := m\<rparr>)" "no_waiter s \<Longrightarrow> no_waiter (s\<lparr>rf_now := r\<rparr>)"
  by (simp_all add: no_waiter_def)

lemma no_waiter_release: "no_waiter s \<Longrightarrow> no_waiter (snd (rt_sem_release i s))"
  by (auto simp: rt_sem_release_def no_waiter_def upd_sem_def rt_thread_resume_def tlist_remove_def
      upd_thread_def Let_def split: list.splits)

lemmas no_waiter_intros = no_waiter_File_Output no_waiter_upd_info no_waiter_offline no_waiter_time
  no_waiter_alive no_waiter_heart

text \<open>Something will wake the thread again.\<close>

definition heart_armed :: "'a kern_scheme \<Rightarrow> bool" where
  "heart_armed s \<longleftrightarrow> timer_active (timers s heart_timer) \<or> 0 < sem_value (sems s heart_sem)"

lemma armed_start: "n < 0x7FFFFFFF \<Longrightarrow> heart_armed (heart_time_start n s)"
  by (simp add: heart_armed_def heart_time_start_def rt_timer_start_arm RT_TICK_MAX_def)

lemma armed_release: "no_waiter s \<Longrightarrow> heart_armed (snd (rt_sem_release heart_sem s))"
  using unat_Suc_less [of "sem_value (sems s heart_sem)" RT_SEM_VALUE_MAX]
  by (auto simp: heart_armed_def rt_sem_release_def no_waiter_def upd_sem_def RT_SEM_VALUE_MAX_def
      word_less_nat_alt)

lemma armed_mutex:
  "heart_armed s \<Longrightarrow> heart_armed (snd (rt_mutex_trytake p rf_lock s))"
  "heart_armed s \<Longrightarrow> no_waiter s \<Longrightarrow> heart_armed (snd (rt_mutex_release p rf_lock s))"
  by (auto simp: heart_armed_def rt_mutex_trytake_def rt_mutex_take_def rt_mutex_release_def Let_def
      no_waiter_def upd_mutex_def upd_thread_def split: option.splits list.splits)

lemma armed_heart [simp]:
  "heart_armed (s\<lparr>heart_mode := m\<rparr>) = heart_armed s"
  by (simp add: heart_armed_def)

lemma armed_check:
  assumes "no_waiter s" and "retry (info_of k s) \<in> {0, 1, 2, 3}"
  shows "heart_armed (heart_check E self k s)" and "no_waiter (heart_check E self k s)"
  using assms
  by (auto simp: heart_check_def Let_def heart_success_def radio_refresh_def
      intro!: armed_start armed_release no_waiter_intros no_waiter_release)

lemma event_send_eset:
  "no_waiter s \<Longrightarrow> b \<noteq> 0 \<Longrightarrow>
     eset (events (snd (rt_event_send rf_event b s)) rf_event) = eset (events s rf_event) OR b"
  by (simp add: no_waiter_def rt_event_send_def Let_def upd_event_def)

section \<open>Properties\<close>

text \<open>What the heart thread keeps true of its variables.\<close>

definition heart_ok :: "('e, 'a) heart_app_scheme \<Rightarrow> bool" where
  "heart_ok s \<longleftrightarrow> (rf_now s = 0 \<or> rf_now s = 1) \<and> heart_mode s \<in> {0, 1, 2, 3} \<and>
     (heart_mode s = 1 \<longrightarrow> heart_info s \<noteq> None) \<and> (\<forall>l. retry (info_of l s) \<in> {0, 1, 2, 3})"

text \<open>The same with another set of counts allowed for each link.\<close>

definition heart_ok_in :: "(link \<Rightarrow> u8 set) \<Rightarrow> ('e, 'a) heart_app_scheme \<Rightarrow> bool" where
  "heart_ok_in R s \<longleftrightarrow> (rf_now s = 0 \<or> rf_now s = 1) \<and> heart_mode s \<in> {0, 1, 2, 3} \<and>
     (heart_mode s = 1 \<longrightarrow> heart_info s \<noteq> None) \<and> (\<forall>l. retry (info_of l s) \<in> R l)"

lemma heart_ok_in_3: "heart_ok s = heart_ok_in (\<lambda>_. {0, 1, 2, 3}) s"
  by (simp add: heart_ok_def heart_ok_in_def)

lemma flip_bit: "flip n = 0 \<or> flip n = 1"
  by (simp add: flip_def)

lemma check_nothing:
  "retry (info_of l s) \<notin> {0, 1, 2, 3} \<Longrightarrow> heart_check E self l s = s"
  by (simp add: heart_check_def Let_def)

lemma heart_check_ok:
  assumes "heart_ok_in R s" and R: "\<And>l. {0, 1, 2, 3} \<subseteq> R l"
  shows "heart_ok_in R (heart_check E self k s)"
proof -
  have o: "retry (info_of l s) \<in> R l" for l using assms(1) by (simp add: heart_ok_in_def)
  have n: "0 \<in> R l" "1 \<in> R l" "2 \<in> R l" "3 \<in> R l" for l using R [of l] by auto
  consider (answer) "received (info_of k s) \<noteq> 0" "retry (info_of k s) \<in> {0, 1, 2, 3}"
    | (silent) "received (info_of k s) = 0" "retry (info_of k s) \<in> {0, 1, 2}"
    | (final) "received (info_of k s) = 0" "retry (info_of k s) = 3"
    | (nothing) "retry (info_of k s) \<notin> {0, 1, 2, 3}"
    by auto
  then show ?thesis
  proof cases
    case answer
    then show ?thesis
      using heart_check_answered [OF answer, where E = E and self = self] o n flip_bit [of "rf_now s"]
      by (simp add: heart_ok_in_def)
  next
    case silent
    then show ?thesis
      using heart_check_silent [OF silent, where E = E and self = self] o n assms(1)
      by (auto simp: heart_ok_in_def)
  next
    case final
    note f = heart_check_final [OF final, where E = E and self = self]
    have "retry (info_of l (heart_check E self k s)) \<in> R l" for l
      using f(4) f(6) [where l = l] o n by (cases "l = k") auto
    then show ?thesis using f(1,2) flip_bit [of "rf_now s"] by (simp add: heart_ok_in_def)
  next
    case nothing
    then show ?thesis using assms(1) by (simp add: check_nothing)
  qed
qed

lemma heart_turn_ok:
  assumes "heart_ok_in R s" and "\<And>l. {0, 1, 2, 3} \<subseteq> R l"
  shows "heart_ok_in R (heart_turn E rnd self ok s)"
proof -
  note ok = assms(1) [unfolded heart_ok_in_def]
  have rel: "heart_ok_in R (snd (rt_mutex_release self rf_lock t))" if "heart_ok_in R t" for t
    using that by (simp add: heart_ok_in_def)
  have "heart_ok_in R (heart_send self s)"
    using ok by (simp add: heart_ok_in_def heart_send_app)
  moreover have "heart_ok_in R (heart_wait rnd n s)" for n
    using ok by (simp add: heart_ok_in_def heart_wait_def Let_def)
  moreover have "heart_ok_in R (heart_check E self l s)" for l
    by (rule heart_check_ok [OF assms])
  ultimately show ?thesis
    using ok rel by (auto simp: heart_turn_def assms split: option.splits)
qed

lemma hundredfold:
  fixes w n :: u32
  assumes "w < n" and "n \<le> 1000"
  shows "100 \<le> (if w = 0 then 1 else w) * 100"
    and "1 < n \<Longrightarrow> (if w = 0 then 1 else w) * 100 \<le> (n - 1) * 100"
proof -
  let ?v = "if w = 0 then 1 else w"
  have n: "unat n \<le> 1000" "unat w < unat n" using assms by (simp_all add: word_le_nat_alt word_less_nat_alt)
  have v: "1 \<le> unat ?v" "unat ?v \<le> 1000" using n by (auto simp: unat_eq_0 Suc_le_eq unat_gt_0)
  have m: "unat (x * 100) = unat x * 100" if "unat x \<le> 1000" for x :: u32
    using that unat_mult_lem [of x 100] by simp
  show "100 \<le> ?v * 100" using v by (simp add: word_le_nat_alt m)
  assume "1 < n"
  then have n1: "unat (n - 1) = unat n - 1" "1 < unat n"
    by (simp_all add: word_less_nat_alt unat_sub_if_size word_size)
  have "unat ?v \<le> unat (n - 1)" using n n1 by auto
  moreover have "unat (n - 1) \<le> 1000" using n n1 by simp
  ultimately show "?v * 100 \<le> (n - 1) * 100"
    unfolding word_le_nat_alt m [OF v(2)] m [OF \<open>unat (n - 1) \<le> 1000\<close>] by simp
qed

lemma srand_range:
  assumes "0 < unat (mx * 10)" and "mx * 10 \<le> 1000" and "1 < mx * 10"
  shows "100 \<le> get_srand_time rnd 0 mx s" and "get_srand_time rnd 0 mx s \<le> (mx * 10 - 1) * 100"
proof -
  have "rnd (rt_tick_get s) mod (mx * 10) < mx * 10"
    using assms(1) by (simp add: word_less_nat_alt unat_mod)
  from hundredfold(1) [OF this assms(2)] hundredfold(2) [OF this assms(2,3)]
  show "100 \<le> get_srand_time rnd 0 mx s" "get_srand_time rnd 0 mx s \<le> (mx * 10 - 1) * 100"
    by (simp_all add: get_srand_time_def Let_def)
qed

text \<open>The random wait before a repetition is between 0.1 s and 6.9 s after the first two
  failures and between 0.1 s and 7.9 s after the third, whatever \<open>rand\<close> returns.\<close>

theorem heart_rand_bounds:
  "100 \<le> get_srand_time rnd 0 7 s \<and> get_srand_time rnd 0 7 s \<le> 6900 \<and>
   100 \<le> get_srand_time rnd 0 8 s \<and> get_srand_time rnd 0 8 s \<le> 7900"
  using srand_range [of 7 rnd s] srand_range [of 8 rnd s] by simp

text \<open>C33: The heart thread cannot stall by itself: as long as its variables are as it keeps them and
  nobody else waits for its semaphore or its lock, every turn ends with the heart timer running
  or its semaphore available, so another turn will come; and the turn keeps the variables so.\<close>

theorem heart_turn_progress:
  assumes "heart_ok s" and "no_waiter s"
  shows "heart_armed (heart_turn E rnd self True s) \<and> heart_ok (heart_turn E rnd self True s)"
proof -
  note ok = assms(1) [unfolded heart_ok_def]
  have "heart_armed (heart_send self s)"
    by (simp add: heart_send_def Let_def armed_mutex(1) armed_start)
  moreover have "heart_armed (heart_wait rnd 7 s)" "heart_armed (heart_wait rnd 8 s)"
    using srand_range(2) [of 7 rnd s] srand_range(2) [of 8 rnd s]
    by (auto simp: heart_wait_def Let_def intro!: armed_start intro: le_less_trans)
  moreover have "heart_armed (snd (rt_mutex_release self rf_lock (heart_check E self l s)))" for l
    using armed_check [OF assms(2), of l E self] ok by (blast intro: armed_mutex(2))
  ultimately have "heart_armed (heart_turn E rnd self True s)"
    using ok by (auto simp: heart_turn_def split: option.splits)
  moreover have "heart_ok (heart_turn E rnd self True s)"
    unfolding heart_ok_in_3 by (rule heart_turn_ok) (use assms(1) in \<open>simp_all add: heart_ok_in_3\<close>)
  ultimately show ?thesis by blast
qed

section \<open>Rounds\<close>

text \<open>The thread's turns without anything else happening to the link but the passing of time.\<close>

definition heart_turns ::
  "'e storage_ops \<Rightarrow> (u32 \<Rightarrow> u32) \<Rightarrow> nat \<Rightarrow> nat \<Rightarrow> ('e, 'a) heart_app_scheme
     \<Rightarrow> ('e, 'a) heart_app_scheme" where
  "heart_turns E rnd self n s = (heart_turn E rnd self True ^^ n) s"

text \<open>About to send for the link \<open>l\<close>, after \<open>k\<close> failures.\<close>

definition sending :: "link \<Rightarrow> u8 \<Rightarrow> u8 \<Rightarrow> rf_info \<Rightarrow> u32 \<Rightarrow> ('e, 'a) heart_app_scheme \<Rightarrow> bool" where
  "sending l r k i e s \<longleftrightarrow> heart_mode s = 0 \<and> rf_now s = r \<and> (r = 0 \<or> r = 1) \<and> l = link_select r \<and>
     no_waiter s \<and> eset (events s rf_event) = e \<and> retry (info_of l s) = k \<and>
     alive (info_of l s) = alive i \<and> freq (info_of l s) = freq i \<and> startup (info_of l s) = startup i"

text \<open>Waiting for the answer.\<close>

definition waiting :: "link \<Rightarrow> u8 \<Rightarrow> u8 \<Rightarrow> rf_info \<Rightarrow> u32 \<Rightarrow> ('e, 'a) heart_app_scheme \<Rightarrow> bool" where
  "waiting l r k i e s \<longleftrightarrow> heart_mode s = 1 \<and> rf_now s = r \<and> (r = 0 \<or> r = 1) \<and> heart_info s = Some l \<and>
     l = link_select r \<and> received (info_of l s) = 0 \<and>
     no_waiter s \<and> eset (events s rf_event) = e \<and> retry (info_of l s) = k \<and>
     alive (info_of l s) = alive i \<and> freq (info_of l s) = freq i \<and> startup (info_of l s) = startup i"

lemma no_waiter_send: "no_waiter s \<Longrightarrow> no_waiter (heart_send self s)"
  unfolding heart_send_def Let_def
  by (rule no_waiter_mutex(1), rule no_waiter_heart(1), rule no_waiter_time)
    (simp add: no_waiter_def heart_request_app)

lemma no_waiter_wait: "no_waiter s \<Longrightarrow> no_waiter (heart_wait rnd m s)"
  unfolding heart_wait_def Let_def by (rule no_waiter_time) (simp add: no_waiter_def)

lemma sending_waiting:
  "sending l r k i e s \<Longrightarrow> waiting l r k i e (heart_turn E rnd self True s)"
  by (auto simp: sending_def waiting_def heart_turn_def heart_send_app no_waiter_send)

lemma no_waiter_check:
  "no_waiter s \<Longrightarrow> retry (info_of k s) \<in> {0, 1, 2, 3} \<Longrightarrow>
     no_waiter (snd (rt_mutex_release self rf_lock (heart_check E self k s)))"
  by (intro no_waiter_mutex(2) armed_check(2))

lemma wait_sending:
  "rf_now s = r \<Longrightarrow> r = 0 \<or> r = 1 \<Longrightarrow> l = link_select r \<Longrightarrow> no_waiter s \<Longrightarrow>
   eset (events s rf_event) = e \<Longrightarrow> retry (info_of l s) = k \<Longrightarrow> alive (info_of l s) = alive i \<Longrightarrow>
   freq (info_of l s) = freq i \<Longrightarrow> startup (info_of l s) = startup i \<Longrightarrow>
   sending l r k i e (heart_wait rnd m s)"
  by (simp add: sending_def no_waiter_wait) (simp add: heart_wait_def Let_def)

lemma waiting_failed:
  assumes "waiting l r k i e s" and "k \<in> {0, 1, 2}"
  shows "sending l r (k + 1) i e (heart_turns E rnd self 2 s)"
proof -
  let ?c = "snd (rt_mutex_release self rf_lock (heart_check E self l s))"
  note w = assms(1) [unfolded waiting_def]
  have r: "received (info_of l s) = 0" "retry (info_of l s) \<in> {0, 1, 2}" using w assms(2) by auto
  have t1: "heart_turn E rnd self True s = ?c" using w by (simp add: heart_turn_def)
  note c = heart_check_silent [OF r, where E = E and self = self]
  have m: "heart_mode ?c = 2 \<or> heart_mode ?c = 3" using c(1) by simp
  have n: "no_waiter ?c" using w assms(2) by (intro no_waiter_check) auto
  have l: "l = link_select r" and b: "r = 0 \<or> r = 1" and f: "rf_now s = r" "retry (info_of l s) = k"
      "eset (events s rf_event) = e" "alive (info_of l s) = alive i" "freq (info_of l s) = freq i"
      "startup (info_of l s) = startup i" using w by blast+
  have "sending l r (k + 1) i e (heart_wait rnd n ?c)" for n
    by (intro wait_sending n l b) (simp_all add: c f)
  with m have "sending l r (k + 1) i e (heart_turn E rnd self True ?c)"
    by (auto simp: heart_turn_def)
  then show ?thesis by (simp add: heart_turns_def numeral_2_eq_2 t1)
qed

lemma heart_turns_add:
  "heart_turns E rnd self (m + n) s = heart_turns E rnd self n (heart_turns E rnd self m s)"
  unfolding heart_turns_def by (simp only: add.commute [of m] funpow_add comp_def)

lemma heart_turns_1: "heart_turns E rnd self 1 s = heart_turn E rnd self True s"
  by (simp add: heart_turns_def)

lemma round_failed:
  assumes "sending l r k i e s" and "k \<in> {0, 1, 2}"
  shows "sending l r (k + 1) i e (heart_turns E rnd self 3 s)"
proof -
  have "heart_turns E rnd self 3 s = heart_turns E rnd self 2 (heart_turn E rnd self True s)"
    using heart_turns_add [of E rnd self 1 2 s] unfolding heart_turns_1 by (simp add: numeral_3_eq_3)
  with waiting_failed [OF sending_waiting [OF assms(1)] assms(2)] show ?thesis by simp
qed

lemma three_rounds_failed:
  assumes "sending l r 0 i e s"
  shows "waiting l r 3 i e (heart_turns E rnd self 10 s)"
proof -
  let ?t = "\<lambda>n. heart_turns E rnd self n s"
  have "sending l r 1 i e (?t 3)" using round_failed [OF assms] by simp
  then have "sending l r 2 i e (?t 6)"
    using round_failed [of l r 1 i e "?t 3"] heart_turns_add [of E rnd self 3 3 s] by simp
  then have "sending l r 3 i e (?t 9)"
    using round_failed [of l r 2 i e "?t 6"] heart_turns_add [of E rnd self 6 3 s] by simp
  then show ?thesis
    using sending_waiting [of l r 3 i e "?t 9"] heart_turns_add [of E rnd self 9 1 s]
    by (simp add: heart_turns_1 [simplified])
qed

lemma final_offline:
  assumes "received (info_of k s) = 0" and "retry (info_of k s) = 3" and "no_waiter s"
  shows "eset (events (heart_check E self k s) rf_event) = eset (events s rf_event) OR
    (if alive (info_of k s) \<noteq> 0 \<or> startup (info_of k s) = 0
     then if freq (info_of k s) = 433 then RF433_Offline else RF4068_Offline else 0)"
  using assms
  by (simp add: heart_check_def Let_def rf_offline_def info_of_upd rf_bits
      event_send_eset no_waiter_File_Output no_waiter_alive no_waiter_heart no_waiter_upd_info)

text \<open>A silent link is given up after exactly four requests: if no answer comes, the eleven
  turns of the four tries end with the link marked as dead, the other link in use, the try
  counter at zero, the thread ready to send, and the loss announced to the warning thread (once:
  if the link was already known to be dead, nothing is announced).\<close>

theorem heart_gives_up:
  fixes E :: "'e storage_ops" and s :: "('e, 'a) heart_app_scheme" and self :: nat
    and rnd :: "u32 \<Rightarrow> u32"
  assumes "heart_mode s = 0" and "rf_now s = 0 \<or> rf_now s = 1" and "l = link_select (rf_now s)"
    and "retry (info_of l s) = 0" and "no_waiter s"
  defines "t \<equiv> heart_turns E rnd self 11 s"
  shows "alive (info_of l t) = 0 \<and> retry (info_of l t) = 0 \<and> rf_now t = flip (rf_now s) \<and>
    heart_mode t = 0 \<and> eset (events t rf_event) = eset (events s rf_event) OR
      (if alive (info_of l s) \<noteq> 0 \<or> startup (info_of l s) = 0
       then if freq (info_of l s) = 433 then RF433_Offline else RF4068_Offline else 0)"
proof -
  let ?w = "heart_turns E rnd self 10 s"
  have "sending l (rf_now s) 0 (info_of l s) (eset (events s rf_event)) s"
    using assms by (simp add: sending_def)
  from three_rounds_failed [OF this]
  have w: "waiting l (rf_now s) 3 (info_of l s) (eset (events s rf_event)) ?w" .
  then have t: "t = snd (rt_mutex_release self rf_lock (heart_check E self l ?w))"
    unfolding t_def using heart_turns_add [of E rnd self 10 1 s]
    by (auto simp: heart_turns_1 [simplified] heart_turn_def waiting_def)
  have r: "received (info_of l ?w) = 0" "retry (info_of l ?w) = 3" "no_waiter ?w"
    and f: "rf_now ?w = rf_now s" "eset (events ?w rf_event) = eset (events s rf_event)"
      "alive (info_of l ?w) = alive (info_of l s)" "freq (info_of l ?w) = freq (info_of l s)"
      "startup (info_of l ?w) = startup (info_of l s)"
    using w unfolding waiting_def by blast+
  show ?thesis
    unfolding t using heart_check_final [OF r(1,2), where E = E and self = self]
      final_offline [OF r, of E self] by (simp add: f)
qed

section \<open>The race with the test button\<close>

definition stalled :: "link \<Rightarrow> ('e, 'a) heart_app_scheme \<Rightarrow> bool" where
  "stalled l s \<longleftrightarrow> heart_mode s = 1 \<and> heart_info s = Some l \<and> retry (info_of l s) \<notin> {0, 1, 2, 3}"

text \<open>What the other threads see of a stalled supervision: the links, the events and the queues.\<close>

definition same_view :: "('e, 'a) heart_app_scheme \<Rightarrow> ('e, 'a) heart_app_scheme \<Rightarrow> bool" where
  "same_view s t \<longleftrightarrow> (\<forall>k. info_of k t = info_of k s) \<and> (\<forall>j. eset (events t j) = eset (events s j)) \<and>
     rf_now t = rf_now s \<and> rf433_alive_conut t = rf433_alive_conut s \<and>
     rf4068_alive_conut t = rf4068_alive_conut s \<and> Queue_433 t = Queue_433 s \<and> Queue_4068 t = Queue_4068 s"

lemma stalled_turn:
  assumes "stalled l s"
  shows "stalled l (heart_turn E rnd self ok s)" and "same_view s (heart_turn E rnd self ok s)"
proof -
  have "info_of k (snd (rt_mutex_release self rf_lock s)) = info_of k s" for k by (cases k) simp_all
  then show "stalled l (heart_turn E rnd self ok s)" "same_view s (heart_turn E rnd self ok s)"
    using assms by (simp_all add: stalled_def heart_turn_def check_nothing same_view_def)
qed

lemma stalled_turns:
  assumes "stalled l s"
  shows "stalled l (heart_turns E rnd self n s) \<and> same_view s (heart_turns E rnd self n s)"
proof (induction n)
  case (Suc n)
  then have st: "stalled l (heart_turns E rnd self n s)" by blast
  from stalled_turn [OF st, of E rnd self True] Suc show ?case by (simp add: heart_turns_def same_view_def)
qed (simp add: heart_turns_def assms same_view_def)

lemma heart_turn_modes:
  "heart_mode s = 0 \<Longrightarrow> heart_turn E rnd self True s = heart_send self s"
  "heart_mode s = 3 \<Longrightarrow> heart_turn E rnd self True s = heart_wait rnd 8 s"
  "heart_mode (heart_wait rnd m s) = 0"
  by (simp_all add: heart_turn_def) (simp add: heart_wait_def Let_def)

lemma button_begin_app:
  fixes s :: "('e, 'a) heart_app_scheme" and l :: link
  assumes "rf_now s = 0 \<or> rf_now s = 1"
  defines "t \<equiv> snd (button_begin l s)"
  shows "heart_mode t = heart_mode s" "rf_now t = rf_now s" "heart_info t = heart_info s"
    "no_waiter s \<Longrightarrow> no_waiter t"
    "info_of k t = (if k = link_select (rf_now s) then (info_of k s)\<lparr>testreceived := 0\<rparr> else info_of k s)"
    "events t = events s"
proof -
  let ?q = "button_request (rf_now s) s"
  have t: "t = receiver_close ?q" by (simp add: t_def button_begin_def Let_def)
  note q = heart_request_app(2) [where s = s and n = "rf_now s"]
  show "heart_mode t = heart_mode s" "rf_now t = rf_now s" "heart_info t = heart_info s"
    "no_waiter s \<Longrightarrow> no_waiter t" "events t = events s"
    using q by (simp_all add: t receiver_close_def no_waiter_def)
  have "info_of k t = info_of k ?q" by (cases k) (simp_all add: t receiver_close_def)
  then show "info_of k t =
      (if k = link_select (rf_now s) then (info_of k s)\<lparr>testreceived := 0\<rparr> else info_of k s)"
    by (simp add: heart_request_info(2) [OF assms(1)])
qed

text \<open>C26: The test button can stop the supervision for good. A test that is started while the third
  heartbeat of a silent link waits for its answer counts the same failure again: when the heart
  thread has checked (retry 3) and the test's delay is over without an answer (retry 4), the
  heart thread sends once more and then finds no case for four failures; from there on, however
  often it runs, it stays in check mode and puts nothing into the transmit queues.\<close>

theorem button_race_stalls:
  fixes E :: "'e storage_ops" and s :: "('e, 'a) heart_app_scheme" and h b :: nat
    and rnd :: "u32 \<Rightarrow> u32" and l :: link
  assumes "waiting l r 2 i e s"
  defines "s1 \<equiv> snd (button_begin (button_select s) s)"
  defines "s2 \<equiv> button_end E b l 2 (heart_turn E rnd h True s1)"
  defines "s3 \<equiv> heart_turns E rnd h 2 s2"
  shows "button_select s = l \<and> fst (button_begin l s) = Some 2 \<and> retry (info_of l s2) = 4 \<and>
    alive (info_of l s3) = alive (info_of l s) \<and> startup (info_of l s3) = startup (info_of l s) \<and>
    (\<forall>n. let t = heart_turns E rnd h n s3 in heart_mode t = 1 \<and> retry (info_of l t) = 4 \<and>
      Queue_433 t = Queue_433 s3 \<and> Queue_4068 t = Queue_4068 s3 \<and> rf_now t = rf_now s \<and>
      (\<forall>k. info_of k t = info_of k s3) \<and> (\<forall>j. eset (events t j) = eset (events s j)) \<and>
      rf433_alive_conut t = rf433_alive_conut s3 \<and> rf4068_alive_conut t = rf4068_alive_conut s3)"
proof -
  have l: "l = link_select r" and b: "r = 0 \<or> r = 1" and m: "heart_mode s = 1" and
    f: "rf_now s = r" "retry (info_of l s) = 2" "received (info_of l s) = 0" "heart_info s = Some l"
    and n: "no_waiter s"
    using assms(1) unfolding waiting_def by blast+
  have sel: "button_select s = l" by (simp add: button_select_def l f(1))
  have b': "rf_now s = 0 \<or> rf_now s = 1" using b f(1) by simp
  note app = button_begin_app [OF b', of l]
  have i1: "info_of l s1 = (info_of l s)\<lparr>testreceived := 0\<rparr>"
    unfolding s1_def sel app(5) by (simp add: f(1) l)
  have s1: "heart_mode s1 = 1" "rf_now s1 = r" "heart_info s1 = Some l"
    using app(1-3) f m by (simp_all add: s1_def sel)
  let ?c = "heart_check E h l s1"
  have "received (info_of l s1) = 0" "retry (info_of l s1) \<in> {0, 1, 2}" using f by (simp_all add: i1)
  note c = heart_check_silent [OF this, where E = E and self = h]
  have t1: "heart_turn E rnd h True s1 = snd (rt_mutex_release h rf_lock ?c)"
    using s1 by (simp add: heart_turn_def)
  have s2: "s2 = upd_info l (\<lambda>i. i\<lparr>retry := retry i + 1\<rparr>) (snd (rt_mutex_release h rf_lock ?c))"
    by (simp add: s2_def t1 button_end_def Let_def c(4) i1)
  have f2: "heart_mode s2 = 3" "rf_now s2 = r" "retry (info_of l s2) = 4"
    using f s1 by (simp_all add: s2 c i1 info_of_upd)
  have t2: "s3 = heart_send h (heart_wait rnd 8 s2)"
    by (simp add: s3_def heart_turns_def numeral_2_eq_2 heart_turn_modes f2(1))
  have w: "rf_now (heart_wait rnd 8 s2) = r" "info_of l (heart_wait rnd 8 s2) = info_of l s2"
    by (simp_all add: heart_wait_def Let_def f2)
  have "rf_now (heart_wait rnd 8 s2) = 0 \<or> rf_now (heart_wait rnd 8 s2) = 1" using b w by simp
  note send = heart_send_app [OF this, where self = h]
  have i3: "info_of l s3 = (info_of l s2)\<lparr>received := 0\<rparr>" "rf_now s3 = r"
    using send(2,4) w by (simp_all add: t2 l)
  have st: "stalled l s3"
    using send(1,3,4) f2 w by (simp add: stalled_def t2 l)
  have a2: "alive (info_of l s2) = alive (info_of l s)" "startup (info_of l s2) = startup (info_of l s)"
    by (simp_all add: s2 c(4) i1 info_of_upd)
  have "eset (events s2 j) = eset (events s j)" for j
    using button_begin_app(6) [OF b', where l = l] by (simp add: s2 c(5)) (simp add: s1_def sel)
  moreover have "eset (events s3 j) = eset (events s2 j)" for j
    by (simp add: t2 send(5)) (simp add: heart_wait_def Let_def)
  ultimately have e3: "eset (events s3 j) = eset (events s j)" for j by simp
  have b2: "fst (button_begin l s) = Some 2"
  proof -
    have "retry (info_of l s1) = 2" by (simp add: i1 f)
    then show ?thesis by (simp add: button_begin_def Let_def s1_def sel)
  qed
  have "stalled l (heart_turns E rnd h n s3)" "same_view s3 (heart_turns E rnd h n s3)" for n
    using stalled_turns [OF st] by blast+
  then show ?thesis
    using sel b2 f2(3) i3 a2 e3 f(1) by (simp add: stalled_def same_view_def)
qed

section \<open>The other threads\<close>

lemma rx_433_keeps:
  "file_app.more (rf433_rx_callback E p junk rs buf n s) = file_app.more s \<and>
   retry (info_433 (rf433_rx_callback E p junk rs buf n s)) = retry (info_433 s) \<and>
   retry (info_4068 (rf433_rx_callback E p junk rs buf n s)) = retry (info_4068 s)"
proof -
  let ?m = "scan_message (text_at 1 buf) junk"
  have "file_app.more (Solve_433 E p junk rs buf k s) = file_app.more s \<and>
     retry (info_433 (Solve_433 E p junk rs buf k s)) = retry (info_433 s) \<and>
     retry (info_4068 (Solve_433 E p junk rs buf k s)) = retry (info_4068 s)" for k
  proof (cases "k \<noteq> 0 \<and> unat k \<le> length buf \<and> buf ! (unat k - 1) = byte_of CHR ''S'' \<and>
      word_of_int (Rx_Target_ID ?m) = Self_ID s \<and> word_of_int (Rx_From_ID ?m) = Target_ID s")
    case True
    then show ?thesis
      using Solve_433_accept [of k buf junk ?m s E p rs] by (simp del: One_nat_def)
  next
    case False
    then have "Solve_433 E p junk rs buf k s = s \<or> Solve_433 E p junk rs buf k s = s\<lparr>mem_fault := True\<rparr>"
      by (auto simp: Solve_433_def Let_def)
    then show ?thesis by auto
  qed
  then show ?thesis by (simp add: rf433_rx_callback_def)
qed

lemma rx_4068_keeps:
  "file_app.more (rf4068_rx_callback E p junk rs buf n s) = file_app.more s \<and>
   retry (info_433 (rf4068_rx_callback E p junk rs buf n s)) = retry (info_433 s) \<and>
   retry (info_4068 (rf4068_rx_callback E p junk rs buf n s)) = retry (info_4068 s)"
proof -
  let ?m = "scan_message (text_at 1 buf) junk"
  have "file_app.more (Solve_4068 E p junk rs buf k s) = file_app.more s \<and>
     retry (info_433 (Solve_4068 E p junk rs buf k s)) = retry (info_433 s) \<and>
     retry (info_4068 (Solve_4068 E p junk rs buf k s)) = retry (info_4068 s)" for k
  proof (cases "k \<noteq> 0 \<and> unat k \<le> length buf \<and> buf ! (unat k - 1) = byte_of CHR ''S'' \<and>
      word_of_int (Rx_Target_ID ?m) = Self_ID s \<and> word_of_int (Rx_From_ID ?m) = Target_ID s")
    case True
    then show ?thesis
      using Solve_4068_accept [of k buf junk ?m s E p rs] by (simp del: One_nat_def)
  next
    case False
    then have "Solve_4068 E p junk rs buf k s = s \<or> Solve_4068 E p junk rs buf k s = s\<lparr>mem_fault := True\<rparr>"
      by (auto simp: Solve_4068_def Let_def)
    then show ?thesis by auto
  qed
  then show ?thesis by (simp add: rf4068_rx_callback_def)
qed

text \<open>What the warning thread does leaves the links and the supervision alone.\<close>

lemma enqueue_more:
  "psi_app.more (rf_433_Enqueue a c v s) = psi_app.more s"
  "psi_app.more (rf_4068_Enqueue a c v s) = psi_app.more s"
  by (auto simp: rf_433_Enqueue_def rf_4068_Enqueue_def set_queue_433_def set_queue_4068_def
      split: option.splits)

lemma warn_more:
  fixes s :: "'a psi_app_scheme"
  shows "psi_app.more (warn_scan p s) = psi_app.more s \<and> info_433 (warn_scan p s) = info_433 s \<and>
    info_4068 (warn_scan p s) = info_4068 s"
proof -
  have b: "psi_app.more (beep_start n t) = psi_app.more t" "psi_app.more (beep_stop t) = psi_app.more t"
    "info_433 (beep_stop t) = info_433 t" "info_4068 (beep_stop t) = info_4068 t"
    for n and t :: "'a psi_app_scheme" by (simp_all add: beep_start_def beep_stop_def)
  have p: "psi_app.more (psi_led_resume t) = psi_app.more t" "psi_app.more (psi_led_lost t) = psi_app.more t"
    "info_433 (psi_led_lost t) = info_433 t" "info_4068 (psi_led_lost t) = info_4068 t"
    for t :: "'a psi_app_scheme"
    by (auto simp: psi_led_resume_def psi_led_lost_def Let_def psi_open_def psi_close_def psi_upload_def
        enqueue_more psi_led_init_def valve_led_init_def led_group_defs)
  have l: "psi_app.more (led_rf433_start m t) = psi_app.more t"
    "psi_app.more (led_rf4068_start m t) = psi_app.more t" for m and t :: "'a psi_app_scheme"
    by (simp_all add: rf433_defs rf4068_defs)
  have d: "psi_app.more (warn_dispatch e t) = psi_app.more t \<and> info_433 (warn_dispatch e t) = info_433 t \<and>
    info_4068 (warn_dispatch e t) = info_4068 t" for e and t :: "'a psi_app_scheme"
    by (simp add: warn_dispatch_def Let_def beep_calc_def b p l)
  show ?thesis
    using recv_or_clear [of rf_mask p rf_event s] d
    by (simp add: warn_scan_def rf_mask_eq rf_mask_def)
qed

text \<open>
  Everything that runs beside the supervision, the test button's thread excepted: the heart
  thread's segments with any outcome of its waits, received packets, scans of the warning
  thread, the transmit queues, and whatever the kernel does to timers, threads and objects.
\<close>

inductive heart_step ::
  "'e storage_ops \<Rightarrow> (u32 \<Rightarrow> u32) \<Rightarrow> ('e, 'a) heart_app_scheme \<Rightarrow> ('e, 'a) heart_app_scheme \<Rightarrow> bool"
  for E rnd where
  turn: "heart_step E rnd s (heart_turn E rnd self ok s)"
| connect_begin: "heart_step E rnd s (heart_connect_begin s)"
| connect_end: "heart_step E rnd s (heart_connect_end E self s)"
| received_433: "heart_step E rnd s (rf433_rx_callback E p junk rs buf n s)"
| received_4068: "heart_step E rnd s (rf4068_rx_callback E p junk rs buf n s)"
| warn: "heart_step E rnd s (warn_scan p s)"
| queues: "heart_step E rnd s (s\<lparr>Queue_433 := q, Queue_4068 := q'\<rparr>)"
| kernel: "kern.more t = kern.more s \<Longrightarrow> heart_step E rnd s t"

lemma heart_ok_more:
  fixes s t :: "('e, 'a) heart_app_scheme"
  assumes "heart_ok_in R s" and "file_app.more t = file_app.more s"
    and "retry (info_433 t) = retry (info_433 s)" and "retry (info_4068 t) = retry (info_4068 s)"
  shows "heart_ok_in R t"
proof -
  have "retry (info_of l t) = retry (info_of l s)" for l using assms(3,4) by (cases l) simp_all
  then show ?thesis using assms(1) heart_more_eq [OF assms(2)] by (simp add: heart_ok_in_def)
qed

lemma timer_stop_more: "kern.more (snd (rt_timer_stop i s)) = kern.more s"
  by simp

lemma heart_kern_eq:
  fixes s t :: "('e, 'a) heart_app_scheme"
  assumes "kern.more t = kern.more s"
  shows "file_app.more t = file_app.more s" "info_433 t = info_433 s" "info_4068 t = info_4068 s"
  using assms by (cases s; cases t; simp)+

lemma heart_step_ok:
  "heart_step E rnd s t \<Longrightarrow> (\<And>l. {0, 1, 2, 3} \<subseteq> R l) \<Longrightarrow> heart_ok_in R s \<Longrightarrow> heart_ok_in R t"
proof (induction rule: heart_step.induct)
  case (connect_begin s)
  note q = heart_request_app(1) [where s = s and n = 1]
  have r: "retry (info_of l (heart_request 1 s)) = retry (info_of l s)" for l
    by (simp add: heart_request_info(1) [of 1])
  show ?case
    using connect_begin q by (simp add: heart_connect_begin_def heart_ok_in_def r)
next
  case (connect_end s self)
  have st: "heart_ok_in R (snd (rt_timer_stop connect_timer u))" if "heart_ok_in R u" for u :: "('a, 'b) heart_app_scheme"
    by (rule heart_ok_more [OF that]) (simp_all add: heart_kern_eq [OF timer_stop_more])
  have re: "heart_ok_in R ((heart_time_start n (radio_refresh l u))\<lparr>heart_mode := 0\<rparr>)" if "heart_ok_in R u"
    for l n and u :: "('a, 'b) heart_app_scheme"
    using that flip_bit [of "rf_now u"] connect_end(1) by (auto simp: heart_ok_in_def)
  have fo: "heart_ok_in R (File_Output E self a b c d e f g h s)" for a b c d e f g h
    using connect_end by (simp add: heart_ok_in_def)
  show ?case
    using connect_end re [OF st [OF fo]] by (simp add: heart_connect_end_def Let_def)
next
  case (received_433 s p junk rs buf n)
  then show ?case using rx_433_keeps [of E p junk rs buf n s] by (blast intro: heart_ok_more)
next
  case (received_4068 s p junk rs buf n)
  then show ?case using rx_4068_keeps [of E p junk rs buf n s] by (blast intro: heart_ok_more)
next
  case (warn s p)
  have w: "psi_app.more (warn_scan p s) = psi_app.more s" "info_433 (warn_scan p s) = info_433 s"
    "info_4068 (warn_scan p s) = info_4068 s" using warn_more [of p s] by blast+
  have "file_app.more (warn_scan p s) = file_app.more s"
    using w(1) by (cases s; cases "warn_scan p s"; simp)
  with warn w show ?case by (auto intro: heart_ok_more)
next
  case (kernel t s)
  then show ?case using heart_kern_eq [OF kernel(1)] by (auto intro: heart_ok_more)
next
  case (queues s q q')
  show ?case by (rule heart_ok_more [OF queues(2)]) simp_all
qed (simp add: heart_turn_ok)

lemma heart_steps_ok:
  assumes "(heart_step E rnd)\<^sup>*\<^sup>* s t" and "heart_ok s"
  shows "heart_ok t"
  using assms by (induction rule: rtranclp_induct) (auto intro: heart_step_ok simp: heart_ok_in_3)

text \<open>
  With the test button: its thread waits for a press with the link it chose last, looking at the link
  in use again after every timeout, or waits for the answer to a test that it started with \<open>n\<close>
  failures counted.
\<close>

datatype button_place = Press_Wait link | Answer_Wait link u8

inductive supervision_step ::
  "'e storage_ops \<Rightarrow> (u32 \<Rightarrow> u32) \<Rightarrow> nat \<Rightarrow> button_place \<times> ('e, 'a) heart_app_scheme
     \<Rightarrow> button_place \<times> ('e, 'a) heart_app_scheme \<Rightarrow> bool"
  for E rnd self where
  other: "heart_step E rnd s t \<Longrightarrow> supervision_step E rnd self (b, s) (b, t)"
| choose: "supervision_step E rnd self (Press_Wait l, s) (Press_Wait (button_select s), s)"
| press: "button_begin l s = (None, t) \<Longrightarrow>
    supervision_step E rnd self (Press_Wait l, s) (Press_Wait (button_select t), t)"
| press_test: "button_begin l s = (Some n, t) \<Longrightarrow>
    supervision_step E rnd self (Press_Wait l, s) (Answer_Wait l n, t)"
| answer: "supervision_step E rnd self (Answer_Wait l n, s)
    (Press_Wait (button_select (button_end E self l n s)), button_end E self l n s)"

text \<open>A test that is under way has found at most three failures, and may add one.\<close>

fun retry_bound :: "button_place \<Rightarrow> link \<Rightarrow> u8 set" where
  "retry_bound (Press_Wait l) k = {0, 1, 2, 3, 4}"
| "retry_bound (Answer_Wait l n) k = (if k = l then {0, 1, 2, 3} else {0, 1, 2, 3, 4})"

lemma retry_bound_3: "{0, 1, 2, 3} \<subseteq> retry_bound b l"
  by (cases b) auto

lemma flip_if_free_app:
  fixes s :: "('e, 'a) heart_app_scheme"
  shows "heart_mode (flip_if_free p s) = heart_mode s" "heart_info (flip_if_free p s) = heart_info s"
    "info_of l (flip_if_free p s) = info_of l s"
    "rf_now (flip_if_free p s) = rf_now s \<or> rf_now (flip_if_free p s) = flip (rf_now s)"
proof -
  let ?s1 = "snd (rt_mutex_trytake p rf_lock s)"
  have s1: "heart_mode ?s1 = heart_mode s" "heart_info ?s1 = heart_info s" "info_of l ?s1 = info_of l s"
    "rf_now ?s1 = rf_now s" for l by (cases l; simp add: rt_mutex_trytake_def)+
  let ?s2 = "snd (rt_mutex_release p rf_lock (?s1\<lparr>rf_now := flip (rf_now ?s1)\<rparr>))"
  have s2: "heart_mode ?s2 = heart_mode s" "heart_info ?s2 = heart_info s" "info_of l ?s2 = info_of l s"
    "rf_now ?s2 = flip (rf_now s)" for l using s1(1,2,4) s1(3) [of l] by (cases l; simp)+
  have "flip_if_free p s = ?s2 \<or> flip_if_free p s = ?s1" by (simp add: flip_if_free_def case_prod_beta Let_def)
  then consider "flip_if_free p s = ?s2" | "flip_if_free p s = ?s1" by blast
  then have "heart_mode (flip_if_free p s) = heart_mode s \<and> heart_info (flip_if_free p s) = heart_info s
    \<and> info_of l (flip_if_free p s) = info_of l s
    \<and> (rf_now (flip_if_free p s) = rf_now s \<or> rf_now (flip_if_free p s) = flip (rf_now s))"
  proof cases
    case 1
    show ?thesis unfolding 1 s2 by blast
  next
    case 2
    show ?thesis unfolding 2 s1 by blast
  qed
  then show "heart_mode (flip_if_free p s) = heart_mode s" "heart_info (flip_if_free p s) = heart_info s"
    "info_of l (flip_if_free p s) = info_of l s"
    "rf_now (flip_if_free p s) = rf_now s \<or> rf_now (flip_if_free p s) = flip (rf_now s)" by blast+
qed

lemma button_success_app:
  fixes s :: "('e, 'a) heart_app_scheme"
  shows "heart_mode (button_success p l s) = heart_mode s" "heart_info (button_success p l s) = heart_info s"
    "rf_now (button_success p l s) = rf_now s \<or> rf_now (button_success p l s) = flip (rf_now s)"
    "info_of k (button_success p l s) =
       (if k = l then (info_of l s)\<lparr>retry := 0, alive := 1, startup := 1\<rparr> else info_of k s)"
  using flip_if_free_app(4) [of p "upd_info l (\<lambda>i. i\<lparr>retry := 0, alive := 1, startup := 1\<rparr>) s"]
  by (simp_all add: button_success_def flip_if_free_app(1-3) info_of_upd)

lemma button_end_app:
  fixes s :: "('e, 'a) heart_app_scheme" and E :: "'e storage_ops"
  defines "t \<equiv> \<lambda>p l n. button_end E p l n s"
  shows "heart_mode (t p l n) = heart_mode s" "heart_info (t p l n) = heart_info s"
    "rf_now (t p l n) = rf_now s \<or> rf_now (t p l n) = flip (rf_now s)"
    "k \<noteq> l \<Longrightarrow> info_of k (t p l n) = info_of k s"
    "retry (info_of l (t p l n)) = 0 \<or> retry (info_of l (t p l n)) = retry (info_of l s) + 1"
proof -
  let ?F = "\<lambda>a b c. File_Output E p (rf_now s) (Valve_Status s) (PSI_Status s) a b c 1 1 s"
  have f: "heart_mode (?F a b c) = heart_mode s" "heart_info (?F a b c) = heart_info s"
    "rf_now (?F a b c) = rf_now s" "info_of k (?F a b c) = info_of k s" for a b c k
    by (cases k; simp)+
  let ?G = "\<lambda>u. upd_info l (\<lambda>i. i\<lparr>retry := 0\<rparr>) (rf_offline l (flip_if_free p (alive_count_increase (rf_now u) u)))"
  have g: "heart_mode (?G u) = heart_mode u" "heart_info (?G u) = heart_info u"
    "rf_now (?G u) = rf_now u \<or> rf_now (?G u) = flip (rf_now u)" "k \<noteq> l \<Longrightarrow> info_of k (?G u) = info_of k u"
    "retry (info_of l (?G u)) = 0" for u :: "('e, 'a) heart_app_scheme"
    using flip_if_free_app(4) [of p "alive_count_increase (rf_now u) u"]
    by (simp_all add: rf_offline_app flip_if_free_app(1-3) alive_count_app info_of_upd)
  have "t p l n = button_success p l (File_Output E p (rf_now s) (Valve_Status s) (PSI_Status s) 1 n (rssi (info_of l s)) 1 1 s)
    \<or> t p l n = upd_info l (\<lambda>i. i\<lparr>retry := retry i + 1\<rparr>) s
    \<or> (\<exists>a c. t p l n = button_success p l (?F a 3 c) \<or> t p l n = ?G (?F a 3 c))"
  proof (cases "n = 3")
    case False
    then show ?thesis by (simp add: t_def button_end_def Let_def)
  next
    case True
    have "\<exists>a c. t p l n = (if testreceived (info_of l (?F a 3 c)) \<noteq> 0 then button_success p l (?F a 3 c) else ?G (?F a 3 c))"
      unfolding t_def button_end_def Let_def True by (simp only: simp_thms if_False) blast
    then show ?thesis by metis
  qed
  then obtain a b c where c: "t p l n = button_success p l (?F a b c)
    \<or> t p l n = upd_info l (\<lambda>i. i\<lparr>retry := retry i + 1\<rparr>) s \<or> t p l n = ?G (?F a b c)" by blast
  let ?B = "button_success p l (?F a b c)" and ?U = "upd_info l (\<lambda>i. i\<lparr>retry := retry i + 1\<rparr>) s"
  have B1: "heart_mode ?B = heart_mode s" unfolding button_success_app(1) f ..
  have B2: "heart_info ?B = heart_info s" unfolding button_success_app(2) f ..
  have B3: "rf_now ?B = rf_now s \<or> rf_now ?B = flip (rf_now s)"
    using button_success_app(3) [of p l "?F a b c"] unfolding f .
  have B4: "info_of k ?B = info_of k s" if "k \<noteq> l" unfolding button_success_app(4) f if_not_P [OF that] ..
  have B5: "retry (info_of l ?B) = 0" unfolding button_success_app(4) f by simp
  have U1: "heart_mode ?U = heart_mode s" by (rule upd_info_heart(2))
  have U2: "heart_info ?U = heart_info s" by (rule upd_info_heart(3))
  have U3: "rf_now ?U = rf_now s" by (rule upd_info_heart(1))
  have U4: "info_of k ?U = info_of k s" if "k \<noteq> l" unfolding info_of_upd if_not_P [OF that] ..
  have U5: "retry (info_of l ?U) = retry (info_of l s) + 1" unfolding info_of_upd by simp
  consider (B) "t p l n = ?B" | (U) "t p l n = ?U" | (G) "t p l n = ?G (?F a b c)" using c by blast
  then have "heart_mode (t p l n) = heart_mode s \<and> heart_info (t p l n) = heart_info s
    \<and> (rf_now (t p l n) = rf_now s \<or> rf_now (t p l n) = flip (rf_now s))
    \<and> (k \<noteq> l \<longrightarrow> info_of k (t p l n) = info_of k s)
    \<and> (retry (info_of l (t p l n)) = 0 \<or> retry (info_of l (t p l n)) = retry (info_of l s) + 1)"
  proof cases
    case B
    show ?thesis unfolding B using B1 B2 B3 B4 B5 by blast
  next
    case U
    show ?thesis unfolding U using U1 U2 U3 U4 U5 by blast
  next
    case G
    obtain u where u: "u = ?F a b c" by blast
    have "t p l n = ?G u" unfolding G u ..
    moreover have "heart_mode u = heart_mode s" "heart_info u = heart_info s" "rf_now u = rf_now s"
      "info_of k u = info_of k s" unfolding u by (rule f)+
    ultimately show ?thesis using g [of u] by (simp only:) blast
  qed
  then show "heart_mode (t p l n) = heart_mode s" "heart_info (t p l n) = heart_info s"
    "rf_now (t p l n) = rf_now s \<or> rf_now (t p l n) = flip (rf_now s)"
    "k \<noteq> l \<Longrightarrow> info_of k (t p l n) = info_of k s"
    "retry (info_of l (t p l n)) = 0 \<or> retry (info_of l (t p l n)) = retry (info_of l s) + 1"
    by blast+
qed

lemma supervision_step_ok:
  assumes "supervision_step E rnd self x y" and "heart_ok_in (retry_bound (fst x)) (snd x)"
  shows "heart_ok_in (retry_bound (fst y)) (snd y)"
  using assms
proof (induction rule: supervision_step.induct)
  case (other s t b)
  then show ?case using heart_step_ok [OF other(1), of "retry_bound b"] retry_bound_3 by simp
next
  case (answer l n s)
  then have b: "retry (info_of k s) \<in> retry_bound (Answer_Wait l n) k" for k
    unfolding heart_ok_in_def fst_conv snd_conv by blast
  have s: "retry (info_of l s) \<in> {0, 1, 2, 3}" using b [of l] by simp
  have s4: "retry (info_of k s) \<in> {0, 1, 2, 3, 4}" for k
    using b [of k] retry_bound_3 [of "Answer_Wait l n" k] by (cases "k = l") auto
  have "retry (info_of k (button_end E self l n s)) \<in> {0, 1, 2, 3, 4}" for k
  proof (cases "k = l")
    case True
    have "retry (info_of l s) + 1 \<in> {0, 1, 2, 3, 4}" using s by auto
    then show ?thesis
      using True button_end_app(5) [where s = s and E = E and p = self and l = l and n = n] by auto
  next
    case False
    then show ?thesis
      using button_end_app(4) [where s = s and E = E and p = self and l = l and n = n and k = k] s4 [of k] by simp
  qed
  then show ?case
    using answer button_end_app(1-3) [where s = s and E = E and p = self and l = l and n = n]
      flip_bit [of "rf_now s"] by (auto simp: heart_ok_in_def)
next
  case (press_test l s n t)
  then have r: "rf_now s = 0 \<or> rf_now s = 1" by (simp add: heart_ok_in_def)
  have t: "t = snd (button_begin l s)" "n = retry (info_of l t)" "n \<in> {0, 1, 2, 3}"
    using press_test(1) by (auto simp: button_begin_def Let_def split: if_splits)
  have "retry (info_of k t) = retry (info_of k s)" for k
    using button_begin_app(5) [OF r, where l = l and k = k] t(1) by simp
  then show ?case
    using press_test(2) t button_begin_app(1-3) [OF r, where l = l] by (auto simp: heart_ok_in_def)
next
  case (press l s t)
  then have r: "rf_now s = 0 \<or> rf_now s = 1" by (simp add: heart_ok_in_def)
  have t: "t = snd (button_begin l s)" using press(1) by simp
  have "retry (info_of k t) = retry (info_of k s)" for k
    using button_begin_app(5) [OF r, where l = l and k = k] t by simp
  then show ?case
    using press(2) t button_begin_app(1-3) [OF r, where l = l] by (auto simp: heart_ok_in_def)
qed (simp add: heart_ok_in_def)

lemma supervision_steps_ok:
  assumes "(supervision_step E rnd self)\<^sup>*\<^sup>* x y" and "heart_ok_in (retry_bound (fst x)) (snd x)"
  shows "heart_ok_in (retry_bound (fst y)) (snd y)"
  using assms by (induction rule: rtranclp_induct) (auto intro: supervision_step_ok)

text \<open>C15: The supervision stays in its four modes: whatever packets arrive, whatever the warning
  thread, the test button's thread and the kernel do and however the semaphores come, the link in use
  is one of the two, the check always has a link to check, and no link ever counts more than four
  failures, nor more than three while a test of it waits for its answer. Without the test button it
  is never more than three.\<close>

theorem heart_reachable_ok:
  assumes "(supervision_step E rnd self)\<^sup>*\<^sup>* (Press_Wait l0, s) (b, t)" and "heart_ok s"
  shows "(rf_now t = 0 \<or> rf_now t = 1) \<and> heart_mode t \<in> {0, 1, 2, 3} \<and> (heart_mode t = 1 \<longrightarrow> heart_info t \<noteq> None)
    \<and> (\<forall>l. retry (info_of l t) \<le> 4) \<and> (\<forall>l n. b = Answer_Wait l n \<longrightarrow> retry (info_of l t) \<le> 3)
    \<and> (\<forall>u. (heart_step E rnd)\<^sup>*\<^sup>* s u \<longrightarrow> heart_ok u)"
proof -
  have "heart_ok_in (retry_bound (Press_Wait l0)) s"
    using assms(2) by (simp add: heart_ok_def heart_ok_in_def) blast
  then have "heart_ok_in (retry_bound b) t"
    using supervision_steps_ok [OF assms(1)] by simp
  then have t: "(rf_now t = 0 \<or> rf_now t = 1) \<and> heart_mode t \<in> {0, 1, 2, 3} \<and> (heart_mode t = 1 \<longrightarrow> heart_info t \<noteq> None)"
    and r: "retry (info_of l t) \<in> retry_bound b l" for l
    by (simp_all add: heart_ok_in_def)
  have "retry (info_of l t) \<le> 4" for l using r [of l] by (cases b) (auto split: if_splits)
  moreover have "retry (info_of l t) \<le> 3" if "b = Answer_Wait l n" for l n
    using r [of l] that by auto
  ultimately show ?thesis using t heart_steps_ok assms(2) by blast
qed

lemma time_start_timer:
  "n < 0x7FFFFFFF \<Longrightarrow> timer_active (timers (heart_time_start n s) heart_timer) \<and>
     init_tick (timers (heart_time_start n s) heart_timer) = n"
  by (simp add: heart_time_start_def rt_timer_start_arm RT_TICK_MAX_def)

lemma release_timers:
  "no_waiter s \<Longrightarrow> timers (snd (rt_mutex_release p rf_lock s)) = timers s"
  by (auto simp: rt_mutex_release_def Let_def no_waiter_def upd_mutex_def upd_thread_def
      split: option.splits list.splits)

text \<open>An answered heartbeat restores the link and alternates: if an answer has come by the time
  of the check, after any number of tries up to the fourth, the link is alive with no failures
  counted, the other link is in use next, and the next heartbeat is 27.7 s away.\<close>

theorem heart_answered:
  fixes E :: "'e storage_ops" and s :: "('e, 'a) heart_app_scheme" and self :: nat
    and rnd :: "u32 \<Rightarrow> u32"
  assumes "heart_mode s = 1" and "heart_info s = Some l" and "received (info_of l s) \<noteq> 0"
    and "retry (info_of l s) \<in> {0, 1, 2, 3}" and "no_waiter s"
  defines "t \<equiv> heart_turn E rnd self True s"
  shows "heart_mode t = 0 \<and> rf_now t = flip (rf_now s) \<and>
    info_of l t = (info_of l s)\<lparr>retry := 0, alive := 1, startup := 1\<rparr> \<and>
    timer_active (timers t heart_timer) \<and> init_tick (timers t heart_timer) = 27700"
proof -
  let ?c = "heart_check E self l s"
  have t: "t = snd (rt_mutex_release self rf_lock ?c)"
    using assms(1,2) by (simp add: t_def heart_turn_def)
  have "timer_active (timers ?c heart_timer) \<and> init_tick (timers ?c heart_timer) = 27700"
    using assms(3,4) time_start_timer [of 27700]
    by (auto simp: heart_check_def Let_def heart_success_def)
  then show ?thesis
    unfolding t using heart_check_answered [OF assms(3,4), where E = E and self = self]
      release_timers [OF armed_check(2) [OF assms(5,4)]] by simp
qed

section \<open>Witnesses\<close>

definition heart_desk :: "ram_disk heart_app" where
  "heart_desk = file_app.extend log_desk
     \<lparr>rf_now = 1, heart_mode = 0, rand_time = 0, heart_info = None\<rparr>"

lemma heart_desk_links [simp]:
  "info_433 heart_desk = info_433 psi_desk" "info_4068 heart_desk = info_4068 psi_desk"
  by (simp_all add: heart_desk_def file_app.defs log_desk_def mutex_create_def upd_mutex_def
      disk_desk_def psi_app.defs)

lemma heart_desk_simps [simp]:
  "rf_now heart_desk = 1" "heart_mode heart_desk = 0" "heart_info heart_desk = None"
  by (simp_all add: heart_desk_def file_app.defs)

lemma psi_desk_links [simp]:
  "retry (info_433 psi_desk) = 0" "retry (info_4068 psi_desk) = 0" "freq (info_433 psi_desk) = 433"
  by (simp_all add: psi_desk_def seg_app.defs seg_panel_def led_app.defs panel_def)

lemma heart_desk_kern:
  "sems heart_desk = sems idle_kern" "events heart_desk = events idle_kern"
  "mutexes heart_desk = mutexes log_desk"
  by (simp_all add: heart_desk_def file_app.defs log_desk_def mutex_create_def upd_mutex_def
      disk_desk_def psi_app.defs psi_desk_def seg_app.defs seg_panel_def led_app.defs panel_def
      led_env.defs bench_def kern.defs)

lemma mutexes_log_desk:
  "mutex_suspend (mutexes log_desk i) = []"
  by (simp add: log_desk_def mutex_create_def upd_mutex_def disk_desk_def psi_app.defs psi_desk_def
      seg_app.defs seg_panel_def led_app.defs panel_def led_env.defs bench_def kern.defs idle_kern_def)

lemma no_waiter_heart_desk: "no_waiter heart_desk"
  by (simp add: no_waiter_def heart_desk_kern mutexes_log_desk) (simp add: idle_kern_def)

lemma heart_ok_desk: "heart_ok heart_desk"
proof -
  have "retry (info_of l heart_desk) = 0" for l by (cases l) simp_all
  then show ?thesis by (simp add: heart_ok_def)
qed

definition first_rnd :: "u32 \<Rightarrow> u32" where
  "first_rnd seed = 1103515245 * seed + 12345"

theorem heart_turn_progress_witness:
  "heart_armed (heart_turn ram_ops first_rnd 7 True heart_desk)"
  using heart_turn_progress [OF heart_ok_desk no_waiter_heart_desk] by blast

theorem heart_gives_up_witness:
  "alive (info_433 (heart_turns ram_ops first_rnd 7 11 heart_desk)) = 0"
  using heart_gives_up [of heart_desk Link_433 ram_ops first_rnd 7] no_waiter_heart_desk
  by (simp add: link_select_def)

theorem heart_reachable_ok_witness:
  "retry (info_of Link_433 (snd (button_begin Link_433 (heart_turn ram_ops first_rnd 7 True (heart_connect_begin heart_desk))))) \<le> 3"
proof -
  let ?s = "heart_turn ram_ops first_rnd 7 True (heart_connect_begin heart_desk)"
  let ?t = "snd (button_begin Link_433 ?s)"
  have a: "(supervision_step ram_ops first_rnd 8)\<^sup>*\<^sup>* (Press_Wait Link_433, heart_desk) (Press_Wait Link_433, ?s)"
    by (blast intro: rtranclp.intros supervision_step.other heart_step.turn heart_step.connect_begin)
  show ?thesis
  proof (cases "fst (button_begin Link_433 ?s)")
    case (Some n)
    then have "button_begin Link_433 ?s = (Some n, ?t)" by (metis prod.collapse)
    from rtranclp.rtrancl_into_rtrancl [OF a supervision_step.press_test [OF this]]
    show ?thesis using heart_reachable_ok [OF _ heart_ok_desk] by blast
  next
    case None
    have "heart_ok ?s" using heart_steps_ok [OF _ heart_ok_desk, of ram_ops first_rnd ?s]
      by (blast intro: rtranclp.intros heart_step.turn heart_step.connect_begin)
    then have "rf_now ?s = 0 \<or> rf_now ?s = 1" and r: "retry (info_of Link_433 ?s) \<in> {0, 1, 2, 3}"
      unfolding heart_ok_def by blast+
    from button_begin_app(5) [OF this(1), where l = Link_433 and k = Link_433]
    have "retry (info_of Link_433 ?t) = retry (info_of Link_433 ?s)" by simp
    then show ?thesis using r by auto
  qed
qed

definition wait_desk :: "u8 \<Rightarrow> u8 \<Rightarrow> ram_disk heart_app" where
  "wait_desk n k = heart_desk\<lparr>heart_mode := 1, heart_info := Some Link_433,
     info_433 := (info_433 heart_desk)\<lparr>received := n, retry := k\<rparr>\<rparr>"

lemma no_waiter_wait_desk: "no_waiter (wait_desk n k)"
  using no_waiter_heart_desk by (simp add: no_waiter_def wait_desk_def)

theorem heart_answered_witness:
  "retry (info_433 (heart_turn ram_ops first_rnd 7 True (wait_desk 1 2))) = 0"
  using heart_answered [of "wait_desk 1 2" Link_433 ram_ops first_rnd 7] no_waiter_wait_desk
  by (simp add: wait_desk_def)

theorem button_race_stalls_witness:
  "retry (info_433 (button_end ram_ops 8 Link_433 2 (heart_turn ram_ops first_rnd 7 True
     (snd (button_begin Link_433 (wait_desk 0 2)))))) = 4"
proof -
  have w: "waiting Link_433 1 2 (info_433 (wait_desk 0 2)) (eset (events (wait_desk 0 2) rf_event))
      (wait_desk 0 2)"
    using no_waiter_wait_desk [of 0 2] by (simp add: waiting_def wait_desk_def link_select_def)
  have s: "button_select (wait_desk 0 2) = Link_433"
    by (simp add: button_select_def wait_desk_def link_select_def)
  show ?thesis using button_race_stalls [OF w, of ram_ops 8 first_rnd 7] by (simp add: s)
qed

end
