(* ===== verification/Button.thy ===== *)
theory Button
  imports Heart
begin

text \<open>
  The test button: \<open>applications/button.c\<close>.

  The static pointer \<open>test_btn\<close> is the only state of the file. The two callbacks are handed to
  the button package under the numbers \<open>test_single\<close> and \<open>test_hold\<close>;
  \<open>test_callbacks\<close> is the dispatcher the package calls them through. \<open>self\<close> is the thread that
  scans the buttons, which is put to sleep by the hold callback and never comes back from it.
\<close>

section \<open>State and operations\<close>

abbreviation (input) PIN_MODE_INPUT_PULLUP :: u8 where "PIN_MODE_INPUT_PULLUP \<equiv> 2"

record 'e button_app = "'e heart_app" +
  test_btn :: "nat option"

definition test_single :: nat where "test_single = 1"
definition test_hold :: nat where "test_hold = 2"

text \<open>\<open>reboot\<close> writes the reset request of the processor and does not return.\<close>

definition reboot :: "'a timer_sys_scheme \<Rightarrow> 'a timer_sys_scheme" where
  "reboot s = s\<lparr>halted := True\<rparr>"

definition test_single_callback :: "'a kern_scheme \<Rightarrow> 'a kern_scheme" where
  "test_single_callback s = heart_single s"

definition test_hold_callback ::
  "'e storage_ops \<Rightarrow> nat \<Rightarrow> ('e, 'a) file_app_scheme \<Rightarrow> ('e, 'a) file_app_scheme" where
  "test_hold_callback E self s =
     reboot (rt_thread_mdelay self 3000 (beep_start 4 (Flash_Boot_Change E 0 s)))"

definition test_callbacks ::
  "'e storage_ops \<Rightarrow> nat \<Rightarrow> nat \<Rightarrow> nat \<Rightarrow> ('e, 'a) file_app_scheme \<Rightarrow> ('e, 'a) file_app_scheme" where
  "test_callbacks E self f b s =
     (if f = test_single then test_single_callback s
      else if f = test_hold then test_hold_callback E self s else s)"

text \<open>A call of the button package through \<open>test_btn\<close>; the null pointer is asserted against.\<close>

definition with_test_btn ::
  "(nat \<Rightarrow> ('e, 'a) button_app_scheme \<Rightarrow> rt_err \<times> ('e, 'a) button_app_scheme)
     \<Rightarrow> ('e, 'a) button_app_scheme \<Rightarrow> ('e, 'a) button_app_scheme" where
  "with_test_btn f s = (case test_btn s of None \<Rightarrow> btn_assert_fail s | Some b \<Rightarrow> snd (f b s))"

text \<open>\<open>addr\<close> is the address \<open>rt_malloc\<close> returns for the object.\<close>

definition button_init :: "nat \<Rightarrow> ('e, 'a) button_app_scheme \<Rightarrow> ('e, 'a) button_app_scheme" where
  "button_init addr s =
     (let (r, s1) = agile_btn_create addr SW1 PIN_LOW PIN_MODE_INPUT_PULLUP s;
          s2 = s1\<lparr>test_btn := r\<rparr>;
          s3 = with_test_btn (\<lambda>b. agile_btn_set_elimination_time b 50) s2;
          s4 = with_test_btn (\<lambda>b. agile_btn_set_hold_cycle_time b 3000) s3;
          s5 = with_test_btn (\<lambda>b. agile_btn_set_event_cb b BTN_CLICK_EVENT (Some test_single)) s4;
          s6 = with_test_btn (\<lambda>b. agile_btn_set_event_cb b BTN_HOLD_EVENT (Some test_hold)) s5
      in with_test_btn agile_btn_start s6)"

section \<open>The callbacks leave the buttons alone\<close>

lemma kern_more_buttons:
  fixes s t :: "'a btn_env_scheme"
  assumes "kern.more t = kern.more s"
  shows "btns t = btns s" "btn_list t = btn_list s"
  using assms by (cases s; cases t; simp)+

lemma led_env_more_buttons:
  fixes s t :: "'a btn_env_scheme"
  assumes "led_env.more t = led_env.more s"
  shows "btns t = btns s" "btn_list t = btn_list s"
  using assms by (cases s; cases t; simp)+

lemma led_ops_more:
  fixes s :: "'a led_env_scheme"
  shows "led_env.more (snd (agile_led_start l s)) = led_env.more s"
    "led_env.more (snd (agile_led_stop l s)) = led_env.more s"
    "led_env.more (snd (agile_led_set_light_mode l m n s)) = led_env.more s"
  by (auto simp: agile_led_start_def agile_led_stop_def agile_led_set_light_mode_def
      agile_led_dynamic_change_light_mode_def agile_led_get_light_arr_def malloc_ok_def Let_def
      assert_fail_def split: option.splits if_splits)

lemma run_led_buttons:
  fixes s :: "'a led_app_scheme"
  shows "btns (run_led c s) = btns s \<and> btn_list (run_led c s) = btn_list s"
proof -
  have "led_env.more (run_led c s) = led_env.more s"
    by (cases c) (auto simp: with_led_def led_ops_more split: option.splits)
  then show ?thesis using led_env_more_buttons by blast
qed

lemma run_leds_buttons [simp]:
  fixes s :: "'a led_app_scheme"
  shows "btns (run_leds cs s) = btns s" "btn_list (run_leds cs s) = btn_list s"
  by (induction cs arbitrary: s) (simp_all add: run_leds_def run_led_buttons)

lemma beep_start_buttons [simp]:
  fixes s :: "'a led_app_scheme"
  shows "btns (beep_start n s) = btns s" "btn_list (beep_start n s) = btn_list s"
  by (simp_all add: beep_start_def)

lemma mdelay_buttons [simp]:
  fixes s :: "'a btn_env_scheme"
  shows "btns (rt_thread_mdelay p n s) = btns s" "btn_list (rt_thread_mdelay p n s) = btn_list s"
  by (rule kern_more_buttons, simp add: rt_thread_mdelay_def)+

lemma release_buttons [simp]:
  fixes s :: "'a btn_env_scheme"
  shows "btns (heart_single s) = btns s" "btn_list (heart_single s) = btn_list s"
  by (rule kern_more_buttons, simp add: heart_single_def sem_release_more)+

lemma flash_boot_buttons [simp]:
  fixes s :: "('e, 'a) file_app_scheme"
  shows "btns (Flash_Boot_Change E v s) = btns s" "btn_list (Flash_Boot_Change E v s) = btn_list s"
  by (simp_all add: Flash_Boot_Change_def flash_change_def malloc_ok_def Let_def)

interpretation test: btn_callbacks "test_callbacks E self" for E self
  by unfold_locales
    (simp_all add: test_callbacks_def test_single_callback_def test_hold_callback_def reboot_def)

section \<open>Scans before a press\<close>

text \<open>Nothing but the buttons, the tick count and the level of the pins differs.\<close>

definition quiet :: "'a btn_env_scheme \<Rightarrow> 'a btn_env_scheme \<Rightarrow> bool" where
  "quiet s t \<longleftrightarrow> (\<exists>bs n ps. t = s\<lparr>btns := bs, tick := n, pin_level := ps\<rparr>)"

lemma quiet_refl [simp]: "quiet s s"
  unfolding quiet_def by (rule exI [of _ "btns s"], rule exI [of _ "tick s"], rule exI [of _ "pin_level s"]) simp

lemma quiet_trans: "quiet s t \<Longrightarrow> quiet t u \<Longrightarrow> quiet s u"
  unfolding quiet_def by (elim exE) (simp, blast)

lemma quiet_sampled: "quiet s (s\<lparr>tick := n, pin_level := ps\<rparr>)"
  unfolding quiet_def by (rule exI [of _ "btns s"], rule exI [of _ n], rule exI [of _ ps]) simp

lemma quiet_put_btn: "quiet s (put_btn b x s)"
  unfolding quiet_def put_btn_def
  by (rule exI [of _ "(btns s)(b \<mapsto> x)"], rule exI [of _ "tick s"], rule exI [of _ "pin_level s"]) simp

definition unpressed :: "btn \<Rightarrow> bool" where
  "unpressed x \<longleftrightarrow> btn_state x = BTN_STATE_NONE_PRESS \<or> btn_state x = BTN_STATE_CHECK_PRESS"

lemma turn_quiet:
  assumes "btns s b = Some x" and "unpressed x"
  shows "quiet s (btn_turn cb b s)"
  using assms by (auto simp: btn_turn_def Let_def unpressed_def quiet_put_btn)

lemma sample_quiet:
  assumes "btns s b = Some x" and "unpressed x"
  shows "quiet s (sample cb b p s v)"
  unfolding sample_def
  by (rule quiet_trans [OF quiet_sampled], rule turn_quiet) (use assms in simp_all)

lemma state_graph_unpressed:
  "state_graph now pr x y \<Longrightarrow> unpressed x \<Longrightarrow> unpressed y \<or> btn_state y = BTN_STATE_PRESS_DOWN"
  by (auto simp: state_graph_def unpressed_def split: if_splits)

context btn_callbacks
begin

text \<open>As long as no debounced press has happened, no callback runs at all.\<close>

lemma quiet_scans:
  assumes x: "btns s b = Some x" "btn_state x = BTN_STATE_NONE_PRESS"
    and np: "\<forall>n \<le> length vs. \<not> pressed_for (btn_active_logic x) (elimination_ticks x) (take n vs)"
  shows "quiet s (foldl (sample cb b (btn_pin x)) s vs) \<and>
    (\<exists>y. btns (foldl (sample cb b (btn_pin x)) s vs) b = Some y \<and> unpressed y)"
  using np
proof (induction vs rule: rev_induct)
  case Nil
  then show ?case using x by (simp add: unpressed_def)
next
  case (snoc v vs)
  let ?s = "foldl (sample cb b (btn_pin x)) s vs"
  have "\<forall>n \<le> length vs. \<not> pressed_for (btn_active_logic x) (elimination_ticks x) (take n vs)"
  proof (intro allI impI)
    fix n assume "n \<le> length vs"
    then show "\<not> pressed_for (btn_active_logic x) (elimination_ticks x) (take n vs)"
      using snoc.prems [rule_format, of n] by simp
  qed
  with snoc.IH obtain z where z: "btns ?s b = Some z" "unpressed z" and q: "quiet s ?s" by blast
  have "same_config x z" using debounce_inv [OF x refl, of vs] z(1) by auto
  then have "btn_pin z = btn_pin x" by (simp add: same_config_def)
  from sample_graph [OF z(1) this, of v] obtain y where
    y: "btns (sample cb b (btn_pin x) ?s v) b = Some y"
    "unpressed y \<or> btn_state y = BTN_STATE_PRESS_DOWN"
    using state_graph_unpressed z(2) by blast
  have "btn_state y \<noteq> BTN_STATE_PRESS_DOWN"
    using debounce [OF x, of "vs @ [v]" y] y(1) snoc.prems [rule_format, of "length (vs @ [v])"] by auto
  with y quiet_trans [OF q sample_quiet [OF z]] show ?case by auto
qed

end

section \<open>Properties\<close>

definition test_button :: "u32 \<Rightarrow> btn" where
  "test_button now =
     \<lparr>btn_active = True, repeat_cnt = 0, elimination_time = 50, btn_event = BTN_EVENT_SUM,
      btn_state = BTN_STATE_NONE_PRESS, hold_time = 0, prev_hold_time = 0, hold_cycle_time = 3000,
      btn_pin = SW1, btn_active_logic = PIN_LOW, btn_tick_timeout = now,
      event_cb = (\<lambda>_. None)(BTN_CLICK_EVENT \<mapsto> test_single, BTN_HOLD_EVENT \<mapsto> test_hold)\<rparr>"

text \<open>Start-up of the test button: if the package is initialised and there is memory, the object
  is the active button of pin 12, low when pressed, with 50 ms of debouncing, 3 s to a hold and
  the two callbacks, and it is scanned behind the buttons already there; otherwise the null
  pointer runs into the assertion of the package.\<close>

theorem button_init_ready:
  "if btn_is_init s \<and> fst (malloc_ok s)
   then test_btn (button_init b s) = Some b \<and>
     btns (button_init b s) = (btns s)(b \<mapsto> test_button (tick s)) \<and>
     btn_list (button_init b s) = btn_list s @ [b] \<and>
     pin_mode (button_init b s) = (pin_mode s)(SW1 := PIN_MODE_INPUT_PULLUP)
   else test_btn (button_init b s) = None \<and> halted (button_init b s)"
  by (simp add: button_init_def agile_btn_create_def with_test_btn_def Let_def malloc_ok_def
      agile_btn_set_elimination_time_def agile_btn_set_hold_cycle_time_def
      agile_btn_set_event_cb_def agile_btn_start_def put_btn_def rt_pin_mode_def new_btn_def
      test_button_def btn_assert_fail_def)

text \<open>No callback without a press: as long as the samples of the pin contain no debounced press
  (low at some scan and at every scan from there to one at least 50 ms later), scanning the test
  button changes nothing but the button records (and the clock and the pin, which are the
  samples): no heartbeat is requested, no reboot happens, the lights and the store stay as they
  are.\<close>

theorem test_button_quiet:
  assumes "btns s b = Some (test_button now)"
    and "\<forall>n \<le> length vs. \<not> pressed_for PIN_LOW 50 (take n vs)"
  shows "quiet s (foldl (sample (test_callbacks E self) b SW1) s vs)"
proof -
  have "elimination_ticks (test_button now) = 50"
    by (simp add: elimination_ticks_def test_button_def rt_tick_from_millisecond_def)
  then show ?thesis
    using test.quiet_scans [OF assms(1), of vs E self] assms(2) by (simp add: test_button_def)
qed

text \<open>The button behind the scan that finds the press.\<close>

definition held_button :: "u32 \<Rightarrow> u32 \<Rightarrow> btn" where
  "held_button now t2 = (test_button now)\<lparr>repeat_cnt := 1, btn_event := BTN_PRESS_DOWN_EVENT,
     btn_tick_timeout := t2, btn_state := BTN_STATE_PRESS_HOLD\<rparr>"

lemma press_down:
  assumes "btns s b = Some (test_button now)" and "tick_due t1 (t0 + 50)"
    and d: "d = foldl (sample cb b SW1) s [(t0, PIN_LOW), (t1, PIN_LOW), (t2, l)]"
  shows "btns d b = Some (held_button now t2) \<and> quiet s d"
proof -
  let ?put = "\<lambda>y n l. s\<lparr>btns := (btns s)(b \<mapsto> y), tick := n, pin_level := (pin_level s)(SW1 := l)\<rparr>"
  let ?x = "test_button now"
  have 1: "sample cb b SW1 s (t0, PIN_LOW) =
      ?put (?x\<lparr>btn_tick_timeout := t0 + 50, btn_state := BTN_STATE_CHECK_PRESS\<rparr>) t0 PIN_LOW"
    using assms(1) by (simp add: sample_def btn_turn_def test_button_def rt_pin_read_def put_btn_def
        rt_tick_from_millisecond_def)
  have 2: "sample cb b SW1 (sample cb b SW1 s (t0, PIN_LOW)) (t1, PIN_LOW) =
      ?put (?x\<lparr>btn_tick_timeout := t0 + 50, btn_state := BTN_STATE_PRESS_DOWN\<rparr>) t1 PIN_LOW"
    using assms(2) unfolding 1 by (simp add: sample_def btn_turn_def test_button_def rt_pin_read_def
        put_btn_def tick_due_def)
  have 3: "d = ?put (held_button now t2) t2 l"
    unfolding d foldl.simps 2 by (simp add: sample_def btn_turn_def held_button_def test_button_def
        put_btn_def fire_def modify_btn_def Let_def)
  show ?thesis
    unfolding 3 quiet_def by (simp, intro exI) (rule refl)
qed

text \<open>A click: low at two scans that are due 50 ms apart, a scan that finds the press, then one
  that finds the pin released and another one release the semaphore of the test thread once and
  leave the button ready for the next press.\<close>

theorem test_button_click:
  fixes s t :: "('e, 'a) file_app_scheme"
  assumes "btns s b = Some (test_button now)" and "tick_due t1 (t0 + 50)"
    and "sem_suspend (sems s button_sem) = []" and "sem_value (sems s button_sem) < RT_SEM_VALUE_MAX"
    and "t = foldl (sample (test_callbacks E self) b SW1) s
      [(t0, PIN_LOW), (t1, PIN_LOW), (t2, l), (t3, PIN_HIGH), (t4, l')]"
  shows "sem_value (sems t button_sem) = sem_value (sems s button_sem) + 1 \<and>
    map_option btn_state (btns t b) = Some BTN_STATE_NONE_PRESS \<and> storage t = storage s \<and>
    halted t = halted s"
proof -
  let ?scan = "sample (test_callbacks E self) b SW1"
  let ?d = "foldl ?scan s [(t0, PIN_LOW), (t1, PIN_LOW), (t2, l)]"
  obtain bs n ps where d: "?d = s\<lparr>btns := bs, tick := n, pin_level := ps\<rparr>" and
    b: "bs b = Some (held_button now t2)"
    using press_down [OF assms(1,2) refl, of "test_callbacks E self" t2 l]
    by (auto simp: quiet_def)
  have t: "t = ?scan (?scan ?d (t3, PIN_HIGH)) (t4, l')" using assms(5) by simp
  have up: "?scan ?d (t3, PIN_HIGH) = s\<lparr>btns := bs(b \<mapsto> (held_button now t2)\<lparr>btn_state := BTN_STATE_PRESS_UP\<rparr>),
      tick := t3, pin_level := ps(SW1 := PIN_HIGH)\<rparr>"
    unfolding d using b by (simp add: sample_def btn_turn_def held_button_def test_button_def
        rt_pin_read_def put_btn_def)
  show ?thesis
    unfolding t up using assms(3,4)
    by (simp add: sample_def btn_turn_def held_button_def test_button_def rt_pin_read_def fire_def
        put_btn_def modify_btn_def Let_def test_callbacks_def test_single_callback_def
        heart_single_def rt_sem_release_def upd_sem_def)
qed

lemma more_storage:
  fixes s t :: "('e, 'a) file_app_scheme"
  assumes "kern.more t = kern.more s"
  shows "storage t = storage s" "beep_mode t = beep_mode s"
  using assms by (cases s; cases t; simp)+

lemma run_led_storage:
  fixes s :: "('e, 'a) file_app_scheme"
  shows "storage (run_led c s) = storage s \<and> beep_mode (run_led c s) = beep_mode s"
proof -
  have "led_env.more (run_led c s) = led_env.more s"
    by (cases c) (auto simp: with_led_def led_ops_more split: option.splits)
  then show ?thesis by (cases s; cases "run_led c s"; simp)
qed

lemma run_leds_storage:
  fixes s :: "('e, 'a) file_app_scheme"
  shows "storage (run_leds cs s) = storage s \<and> beep_mode (run_leds cs s) = beep_mode s"
  by (induction cs arbitrary: s) (simp_all add: run_leds_def run_led_storage)

lemma test_hold_effect:
  fixes s t :: "('e, 'a) file_app_scheme"
  assumes "heap_oracle s (heap_calls s)" and t_def: "t = test_hold_callback E self s"
  shows "halted t" "beep_mode t = 4" "storage t = ef_set E (storage s) ''boot_times'' ''0''"
    "btns t = btns s"
proof -
  let ?f = "Flash_Boot_Change E 0 s"
  have f: "storage ?f = ef_set E (storage s) ''boot_times'' ''0''"
    using assms(1) by (simp add: Flash_Boot_Change_def flash_change_def malloc_ok_def fmt_d_def nat_digits.simps digit_char_def char_of_def bit_0)
  have d: "storage (rt_thread_mdelay self n u) = storage u"
    "beep_mode (rt_thread_mdelay self n u) = beep_mode u" for n and u :: "('e, 'a) file_app_scheme"
    by (rule more_storage, simp add: rt_thread_mdelay_def)+
  show "halted t" "beep_mode t = 4" "storage t = ef_set E (storage s) ''boot_times'' ''0''"
    "btns t = btns s"
    by (simp_all add: t_def test_hold_callback_def reboot_def d beep_start_def run_leds_storage f)
qed

text \<open>A hold: if the pin is still low at a scan at least 3 s after the one that found the press,
  the boot key is set to 0, the long beep starts and the processor is reset.\<close>

theorem test_button_hold:
  fixes s t :: "('e, 'a) file_app_scheme"
  assumes "btns s b = Some (test_button now)" and "tick_due t1 (t0 + 50)"
    and "t2 \<le> t3" and "3000 \<le> t3 - t2" and "heap_oracle s (heap_calls s)"
    and "t = foldl (sample (test_callbacks E self) b SW1) s
      [(t0, PIN_LOW), (t1, PIN_LOW), (t2, l), (t3, PIN_LOW)]"
  shows "halted t \<and> beep_mode t = 4 \<and> storage t = ef_set E (storage s) ''boot_times'' ''0''"
proof -
  let ?scan = "sample (test_callbacks E self) b SW1"
  let ?d = "foldl ?scan s [(t0, PIN_LOW), (t1, PIN_LOW), (t2, l)]"
  obtain bs n ps where d: "?d = s\<lparr>btns := bs, tick := n, pin_level := ps\<rparr>" and
    b: "bs b = Some (held_button now t2)"
    using press_down [OF assms(1,2) refl, of "test_callbacks E self" t2 l]
    by (auto simp: quiet_def)
  have t: "t = ?scan ?d (t3, PIN_LOW)" using assms(6) by simp
  define x where "x = (held_button now t2)\<lparr>hold_time := t3 - t2, btn_event := BTN_HOLD_EVENT\<rparr>"
  define u where "u = s\<lparr>tick := t3, pin_level := ps(SW1 := PIN_LOW), btns := bs(b \<mapsto> x)\<rparr>"
  have u: "t = modify_btn b (\<lambda>z. z\<lparr>prev_hold_time := hold_time z\<rparr>) (test_hold_callback E self u)"
    unfolding t d u_def x_def using b assms(3,4)
    by (simp add: sample_def btn_turn_def held_button_def test_button_def rt_pin_read_def fire_def
        put_btn_def Let_def test_callbacks_def test_single_def test_hold_def
        agile_btn_cal_hold_time_def leD [OF assms(3)])
  have "heap_oracle u (heap_calls u)" "btns u b = Some x" "storage u = storage s"
    using assms(5) by (simp_all add: u_def)
  with test_hold_effect [where s = u and E = E and self = self, OF _ refl] show ?thesis
    by (simp add: u modify_btn_def put_btn_def)
qed

section \<open>Witnesses\<close>

definition button_desk :: "ram_disk file_app" where
  "button_desk = log_desk\<lparr>btns := [1 \<mapsto> test_button 0]\<rparr>"

lemma button_desk_simps [simp]:
  "btns button_desk = [1 \<mapsto> test_button 0]" "sems button_desk = sems idle_kern"
  "storage button_desk = storage log_desk" "heap_oracle button_desk = (\<lambda>_. True)"
  "beep_mode button_desk = 0" "halted button_desk = False"
  by (simp_all add: button_desk_def log_desk_def mutex_create_def upd_mutex_def disk_desk_def
      psi_app.defs psi_desk_def seg_app.defs seg_panel_def led_app.defs panel_def led_env.defs
      bench_def kern.defs idle_kern_def)

theorem button_init_ready_witness:
  "test_btn (button_init 7 (heart_app.extend heart_desk \<lparr>test_btn = None\<rparr>)) = Some 7"
  using button_init_ready [of "heart_app.extend heart_desk \<lparr>test_btn = None\<rparr>" 7]
  by (simp add: heart_app.defs heart_desk_def file_app.defs log_desk_def mutex_create_def upd_mutex_def
      disk_desk_def psi_app.defs psi_desk_def seg_app.defs seg_panel_def led_app.defs panel_def
      led_env.defs bench_def kern.defs idle_kern_def malloc_ok_def)

theorem test_button_quiet_witness:
  "quiet button_desk (foldl (sample (test_callbacks ram_ops 9) 1 SW1) button_desk
     [(0, PIN_LOW), (10, PIN_HIGH)])"
proof (rule test_button_quiet)
  show "\<forall>n \<le> length [(0, PIN_LOW), (10, PIN_HIGH)].
      \<not> pressed_for PIN_LOW 50 (take n [(0, PIN_LOW), (10, PIN_HIGH)])"
    by (auto simp: pressed_for_def take_Cons append_eq_Cons_conv Cons_eq_append_conv split: nat.splits)
qed simp

theorem test_button_click_witness:
  "sem_value (sems (foldl (sample (test_callbacks ram_ops 9) 1 SW1) button_desk
     [(0, PIN_LOW), (60, PIN_LOW), (65, PIN_LOW), (70, PIN_HIGH), (75, PIN_HIGH)]) button_sem) = 1"
  using test_button_click [where E = ram_ops and self = 9 and s = button_desk and b = 1 and now = 0 and
      ?t0.0 = 0 and ?t1.0 = 60 and ?t2.0 = 65 and ?t3.0 = 70 and ?t4.0 = 75 and l = PIN_LOW and
      l' = PIN_HIGH, OF _ _ _ _ refl]
  by (simp add: idle_kern_def tick_due_nat HALF_def RT_SEM_VALUE_MAX_def button_sem_def
      del: foldl.simps)

theorem test_button_hold_witness:
  "halted (foldl (sample (test_callbacks ram_ops 9) 1 SW1) button_desk
     [(0, PIN_LOW), (60, PIN_LOW), (65, PIN_LOW), (3065, PIN_LOW)])"
  using test_button_hold [where E = ram_ops and self = 9 and s = button_desk and b = 1 and now = 0 and
      ?t0.0 = 0 and ?t1.0 = 60 and ?t2.0 = 65 and ?t3.0 = 3065 and l = PIN_LOW, OF _ _ _ _ _ refl]
  by (simp add: tick_due_nat HALF_def del: foldl.simps)

end
