(* ===== verification/Radio_Task.thy ===== *)
theory Radio_Task
  imports Button
begin

text \<open>
  The interrupt threads, send timers and start-up of the two radios: \<open>radio/Radio_433.c\<close> and
  \<open>radio/Radio_4068.c\<close>, which are the same code on the two devices.

  What one turn of an interrupt thread does to its device is \<open>irq_device\<close>; the turn of the
  thread adds the stop of the send timer and the call of the receive callback. The start-up is
  split at the two places where it sleeps until the interrupt thread has changed
  \<open>ubRFState\<close>. State: the semaphores \<open>IRQ1_Sem\<close> and \<open>IRQ2_Sem\<close> and the handlers attached to
  pins. \<open>fuel\<close> bounds the loops that wait for the chip.
\<close>

section \<open>State\<close>

record 'e task_app = "'e button_app" +
  pin_isr :: "u32 \<Rightarrow> (u8 \<times> nat) option"
  pin_isr_enabled :: "u32 \<Rightarrow> bool"

definition IRQ1_Sem :: nat where "IRQ1_Sem = 4"
definition IRQ2_Sem :: nat where "IRQ2_Sem = 5"
definition IRQ1 :: u32 where "IRQ1 = 36"
definition IRQ2 :: u32 where "IRQ2 = 38"

abbreviation (input) PIN_IRQ_MODE_RISING :: u8 where "PIN_IRQ_MODE_RISING \<equiv> 0"
abbreviation (input) RT_WAITING_FOREVER :: int where "RT_WAITING_FOREVER \<equiv> - 1"

definition rt_pin_attach_irq ::
  "u32 \<Rightarrow> u8 \<Rightarrow> nat \<Rightarrow> ('e, 'a) task_app_scheme \<Rightarrow> ('e, 'a) task_app_scheme" where
  "rt_pin_attach_irq p mode isr s = s\<lparr>pin_isr := (pin_isr s)(p \<mapsto> (mode, isr))\<rparr>"

definition rt_pin_irq_enable ::
  "u32 \<Rightarrow> bool \<Rightarrow> ('e, 'a) task_app_scheme \<Rightarrow> ('e, 'a) task_app_scheme" where
  "rt_pin_irq_enable p on s = s\<lparr>pin_isr_enabled := (pin_isr_enabled s)(p := on)\<rparr>"

section \<open>Interrupts\<close>

definition IRQ1_ISR :: "'a kern_scheme \<Rightarrow> 'a kern_scheme" where
  "IRQ1_ISR s = snd (rt_sem_release IRQ1_Sem s)"

definition IRQ2_ISR :: "'a kern_scheme \<Rightarrow> 'a kern_scheme" where
  "IRQ2_ISR s = snd (rt_sem_release IRQ2_Sem s)"

text \<open>The handlers are attached under the numbers 1 and 2.\<close>

definition IRQ1_Bounding :: "('e, 'a) task_app_scheme \<Rightarrow> ('e, 'a) task_app_scheme" where
  "IRQ1_Bounding s =
     rt_pin_irq_enable IRQ1 True (rt_pin_attach_irq IRQ1 PIN_IRQ_MODE_RISING 1
       (rt_pin_mode IRQ1 PIN_MODE_INPUT_PULLUP s))"

definition IRQ2_Bounding :: "('e, 'a) task_app_scheme \<Rightarrow> ('e, 'a) task_app_scheme" where
  "IRQ2_Bounding s =
     rt_pin_irq_enable IRQ2 True (rt_pin_attach_irq IRQ2 PIN_IRQ_MODE_RISING 2
       (rt_pin_mode IRQ2 PIN_MODE_INPUT_PULLUP s))"

definition rf_433_sem_init :: "'a kern_scheme \<Rightarrow> 'a kern_scheme" where
  "rf_433_sem_init s = sem_create IRQ1_Sem 0 RT_IPC_FLAG_FIFO s"

definition rf_4068_sem_init :: "'a kern_scheme \<Rightarrow> 'a kern_scheme" where
  "rf_4068_sem_init s = sem_create IRQ2_Sem 0 RT_IPC_FLAG_FIFO s"

section \<open>A turn of the interrupt thread\<close>

text \<open>The start of a transmission when the crystal runs, with the extra bytes for 4-FSK.\<close>

definition irq_tx_start :: "ax5043 \<Rightarrow> ax5043" where
  "irq_tx_start d =
     (let d1 = snd (SpiReadSingleAddressRegister REG_AX5043_RADIOEVENTREQ0 d);
          d2 = SpiWriteSingleAddressRegister REG_AX5043_FIFOSTAT 0x03 d1;
          d3 = SpiWriteSingleAddressRegister REG_AX5043_IRQMASK1 0x00 d2;
          d4 = SpiWriteSingleAddressRegister REG_AX5043_IRQMASK0 0x08 d3;
          (m, d5) = SpiReadSingleAddressRegister REG_AX5043_MODULATION
                      (d4\<lparr>ubRFState := trxstate_tx_longpreamble\<rparr>)
      in if m AND 0x0F = 9 then write_fifo [0x01 OR push_bit 5 7, 2, 0x01, 0x11] d5 else d5)"

definition irq_waitdone :: "ax5043 \<Rightarrow> ax5043" where
  "irq_waitdone d =
     (let d1 = snd (SpiReadSingleAddressRegister REG_AX5043_RADIOEVENTREQ0 d);
          (r, d2) = SpiReadSingleAddressRegister REG_AX5043_RADIOSTATE d1
      in if r \<noteq> 0 then d2
         else snd (rf_restart (SpiWriteSingleAddressRegister REG_AX5043_RADIOEVENTMASK0 0x00 d2)))"

definition irq_device :: "nat \<Rightarrow> ax5043 \<Rightarrow> ax5043 option" where
  "irq_device fuel d =
     (case ubRFState d of
       trxstate_rx \<Rightarrow>
         map_option (\<lambda>d1. Ax5043Receiver_Continuous (snd (Ax5043SetRegisters_RX d1)))
           (ReceiveData fuel d)
     | trxstate_wait_xtal \<Rightarrow>
         Some ((SpiWriteSingleAddressRegister REG_AX5043_IRQMASK1 0x00 d)
           \<lparr>ubRFState := trxstate_xtal_ready\<rparr>)
     | trxstate_pll_ranging \<Rightarrow>
         Some ((SpiWriteSingleAddressRegister REG_AX5043_IRQMASK1 0x00 d)
           \<lparr>ubRFState := trxstate_pll_ranging_done\<rparr>)
     | trxstate_pll_settling \<Rightarrow>
         Some ((SpiWriteSingleAddressRegister REG_AX5043_RADIOEVENTMASK0 0x00 d)
           \<lparr>ubRFState := trxstate_pll_settled\<rparr>)
     | trxstate_tx_xtalwait \<Rightarrow>
         map_option (SpiWriteSingleAddressRegister REG_AX5043_PWRMODE AX5043_PWRSTATE_FULL_TX)
           (TransmitData fuel (irq_tx_start d))
     | trxstate_tx_longpreamble \<Rightarrow> TransmitData fuel d
     | trxstate_tx_shortpreamble \<Rightarrow> TransmitData fuel d
     | trxstate_tx_packet \<Rightarrow> TransmitData fuel d
     | trxstate_tx_waitdone \<Rightarrow> Some (irq_waitdone d)
     | _ \<Rightarrow>
         Some (SpiWriteSingleAddressRegister REG_AX5043_IRQMASK0 0x00
           (SpiWriteSingleAddressRegister REG_AX5043_IRQMASK1 0x00 d)))"

text \<open>\<open>junk\<close> is what the local variable of the receive callback holds.\<close>

definition rf_433_task_turn ::
  "'e storage_ops \<Rightarrow> nat \<Rightarrow> nat \<Rightarrow> rx_message \<Rightarrow> ('e, 'a) file_app_scheme \<Rightarrow> ('e, 'a) file_app_scheme option" where
  "rf_433_task_turn E self fuel junk s =
     (let st = ubRFState (rf_433 s);
          s1 = (if st = trxstate_tx_waitdone then snd (rt_timer_stop rf_433_send_timer s) else s)
      in map_option
           (\<lambda>d. let s2 = s1\<lparr>rf_433 := d\<rparr>
                in if st = trxstate_rx \<and> RxLen d \<noteq> 0
                   then rf433_rx_callback E self junk (ubRssi d) (RXBuff d) (RxLen d) s2 else s2)
           (irq_device fuel (rf_433 s1)))"

definition rf_4068_task_turn ::
  "'e storage_ops \<Rightarrow> nat \<Rightarrow> nat \<Rightarrow> rx_message \<Rightarrow> ('e, 'a) file_app_scheme \<Rightarrow> ('e, 'a) file_app_scheme option" where
  "rf_4068_task_turn E self fuel junk s =
     (let st = ubRFState (rf_4068 s);
          s1 = (if st = trxstate_tx_waitdone then snd (rt_timer_stop rf_4068_send_timer s) else s)
      in map_option
           (\<lambda>d. let s2 = s1\<lparr>rf_4068 := d\<rparr>
                in if st = trxstate_rx \<and> RxLen d \<noteq> 0
                   then rf4068_rx_callback E self junk (ubRssi d) (RXBuff d) (RxLen d) s2 else s2)
           (irq_device fuel (rf_4068 s1)))"

text \<open>The head of the loop; \<^const>\<open>None\<close> is the thread waiting for the next interrupt.\<close>

definition rf_433_task_wait :: "nat \<Rightarrow> 'a kern_scheme \<Rightarrow> rt_err option \<times> 'a kern_scheme" where
  "rf_433_task_wait self s = rt_sem_take self IRQ1_Sem RT_WAITING_FOREVER s"

definition rf_4068_task_wait :: "nat \<Rightarrow> 'a kern_scheme \<Rightarrow> rt_err option \<times> 'a kern_scheme" where
  "rf_4068_task_wait self s = rt_sem_take self IRQ2_Sem RT_WAITING_FOREVER s"

section \<open>Send timers\<close>

definition send_timeout :: "ax5043 \<Rightarrow> ax5043" where
  "send_timeout d =
     (if ubRFState d \<noteq> trxstate_rx
      then snd (rf_restart (SpiWriteSingleAddressRegister REG_AX5043_RADIOEVENTMASK0 0x00 d)) else d)"

definition rf_433_send_timer_callback :: "'a radio_app_scheme \<Rightarrow> 'a radio_app_scheme" where
  "rf_433_send_timer_callback s = s\<lparr>rf_433 := send_timeout (rf_433 s)\<rparr>"

definition rf_4068_send_timer_callback :: "'a radio_app_scheme \<Rightarrow> 'a radio_app_scheme" where
  "rf_4068_send_timer_callback s = s\<lparr>rf_4068 := send_timeout (rf_4068 s)\<rparr>"

section \<open>Start-up\<close>

text \<open>The address of the configuration is not checked against NULL.\<close>

definition rf_433_init_begin ::
  "nat \<Rightarrow> ('e, 'a) task_app_scheme \<Rightarrow> ('e, 'a) task_app_scheme option" where
  "rf_433_init_begin fuel s =
     (let (ok, s1) = malloc_ok s;
          s2 = s1\<lparr>mem_fault := mem_fault s1 \<or> \<not> ok,
                  rf_433 := (rf_433 s1)\<lparr>config := rf_433_config_init, RegValue := set_registers_433,
                    TXRegValue := set_registers_tx_433, RXRegValue := set_registers_rx_433\<rparr>\<rparr>;
          s3 = IRQ1_Bounding s2
      in map_option (\<lambda>d. s3\<lparr>rf_433 := d\<rparr>) (rf_startup_xtal fuel (rf_433 s3)))"

definition rf_4068_Init_begin ::
  "nat \<Rightarrow> ('e, 'a) task_app_scheme \<Rightarrow> ('e, 'a) task_app_scheme option" where
  "rf_4068_Init_begin fuel s =
     (let (ok, s1) = malloc_ok s;
          s2 = s1\<lparr>mem_fault := mem_fault s1 \<or> \<not> ok,
                  rf_4068 := (rf_4068 s1)\<lparr>config := rf_4068_config_init, RegValue := set_registers_4068,
                    TXRegValue := set_registers_tx_4068, RXRegValue := set_registers_rx_4068\<rparr>\<rparr>;
          s3 = IRQ2_Bounding s2
      in map_option (\<lambda>d. s3\<lparr>rf_4068 := d\<rparr>) (rf_startup_xtal fuel (rf_4068 s3)))"

text \<open>Behind \<open>rf_startup\<close>; printing the VCO setting reads it from the chip.\<close>

definition vcoi_rng_get :: "ax5043 \<Rightarrow> ax5043" where
  "vcoi_rng_get d = snd (axradio_get_pllvcoi d)"

definition init_receiver :: "ax5043 \<Rightarrow> ax5043" where
  "init_receiver d = Ax5043ReceiverON (snd (Ax5043SetRegisters_RX (vcoi_rng_get d)))"

definition init_finish :: "nat \<Rightarrow> ax5043 \<Rightarrow> ax5043 option" where
  "init_finish fuel d = map_option (\<lambda>r. init_receiver (snd r)) (rf_startup_finish fuel d)"

text \<open>The waits: while the driver is in the state given, the starting thread sleeps.\<close>

definition rf_433_init_ranging :: "'a radio_app_scheme \<Rightarrow> 'a radio_app_scheme" where
  "rf_433_init_ranging s =
     (if ubRFState (rf_433 s) = trxstate_wait_xtal then s
      else s\<lparr>rf_433 := rf_startup_ranging (rf_433 s)\<rparr>)"

definition rf_433_init_end :: "nat \<Rightarrow> 'a radio_app_scheme \<Rightarrow> 'a radio_app_scheme option" where
  "rf_433_init_end fuel s =
     (if ubRFState (rf_433 s) = trxstate_pll_ranging then Some s
      else map_option (\<lambda>d. s\<lparr>rf_433 := d\<rparr>) (init_finish fuel (rf_433 s)))"

definition rf_4068_Init_ranging :: "'a radio_app_scheme \<Rightarrow> 'a radio_app_scheme" where
  "rf_4068_Init_ranging s =
     (if ubRFState (rf_4068 s) = trxstate_wait_xtal then s
      else s\<lparr>rf_4068 := rf_startup_ranging (rf_4068 s)\<rparr>)"

definition rf_4068_Init_end :: "nat \<Rightarrow> 'a radio_app_scheme \<Rightarrow> 'a radio_app_scheme option" where
  "rf_4068_Init_end fuel s =
     (if ubRFState (rf_4068 s) = trxstate_pll_ranging then Some s
      else map_option (\<lambda>d. s\<lparr>rf_4068 := d\<rparr>) (init_finish fuel (rf_4068 s)))"

text \<open>The start functions up to the first wait; creating the threads is not modelled.\<close>

definition send_timer_create :: "nat \<Rightarrow> 'a timer_sys_scheme \<Rightarrow> 'a timer_sys_scheme" where
  "send_timer_create t s = timer_init t 1000 RT_TIMER_FLAG_SOFT_TIMER s"

definition rf_433_start :: "nat \<Rightarrow> ('e, 'a) task_app_scheme \<Rightarrow> ('e, 'a) task_app_scheme option" where
  "rf_433_start fuel s = rf_433_init_begin fuel (send_timer_create rf_433_send_timer (rf_433_sem_init s))"

definition rf_4068_start :: "nat \<Rightarrow> ('e, 'a) task_app_scheme \<Rightarrow> ('e, 'a) task_app_scheme option" where
  "rf_4068_start fuel s = rf_4068_Init_begin fuel (send_timer_create rf_4068_send_timer (rf_4068_sem_init s))"

section \<open>What register accesses leave alone\<close>

lemma snd_let:
  "snd (Let e b) = Let e (\<lambda>x. snd (b x))"
  "snd (case p of (v, x) \<Rightarrow> c v x) = (case p of (v, x) \<Rightarrow> snd (c v x))"
  "snd (if q then x else y) = (if q then snd x else snd y)"
  by (simp_all add: Let_def case_prod_unfold)

text \<open>
  A relation between a device before and after that no access to a register other than the FIFO
  disturbs. It then holds across every sequence of the driver made of such accesses.
\<close>

locale register_frame =
  fixes R :: "ax5043 \<Rightarrow> ax5043 \<Rightarrow> bool"
  assumes R_refl [simp]: "R d d"
    and R_sub: "R e f \<Longrightarrow> R d f = R d e"
    and R_state [simp]: "R d (e\<lparr>ubRFState := st\<rparr>) = R d e"
    and R_write [simp]: "a OR 0x80 \<noteq> 0xA9 \<Longrightarrow> R d (SpiWriteSingleAddressRegister a v e) = R d e"
    and R_write_long [simp]: "R d (SpiWriteLongAddressRegister b v e) = R d e"
    and R_read [simp]: "R d (snd (SpiReadSingleAddressRegister a e)) = R d e"
    and R_read_long [simp]: "R d (snd (SpiReadLongAddressRegister b e)) = R d e"
    and R_reset [simp]: "R d (Ax5043_Spi_Reset e) = R d e"
begin

text \<open>Sequences of accesses, without unfolding their intermediate states.\<close>

lemma let_dev: "R d e \<Longrightarrow> (\<And>x. R d x \<Longrightarrow> R d (b x)) \<Longrightarrow> R d (Let e b)"
  by (simp add: Let_def)

lemma let_word:
  fixes v :: "'l::len word"
  shows "(\<And>x. R d (b x)) \<Longrightarrow> R d (Let v b)"
  by (simp add: Let_def)

lemma let_pair: "R d (snd e) \<Longrightarrow> (\<And>v x. R d x \<Longrightarrow> R d (b v x)) \<Longrightarrow> R d (let (v, x) = e in b v x)"
  by (simp add: Let_def case_prod_unfold)

lemma case_pair: "R d (snd e) \<Longrightarrow> (\<And>v x. R d x \<Longrightarrow> R d (b v x)) \<Longrightarrow> R d (case e of (v, x) \<Rightarrow> b v x)"
  by (simp add: case_prod_unfold)

lemmas seq_intro = let_pair let_dev let_word case_pair

lemma R_table [simp]: "R d (write_table tab e) = R d e"
  by (induction tab arbitrary: e) (simp_all add: write_table_def split_beta)

lemma R_pllvcoi [simp]: "R d (snd (axradio_get_pllvcoi e)) = R d e"
  by (rule R_sub) (auto simp: axradio_get_pllvcoi_def snd_let intro!: seq_intro)

lemma R_common [simp]: "R d (snd (ax5043_init_registers_common e)) = R d e"
  by (rule R_sub) (auto simp: ax5043_init_registers_common_def snd_let intro!: seq_intro)

lemma R_tables [simp]:
  "R d (snd (Ax5043SetRegisters_TX e)) = R d e" "R d (snd (Ax5043SetRegisters_RX e)) = R d e"
  by (simp_all add: Ax5043SetRegisters_TX_def Ax5043SetRegisters_RX_def)

lemma R_init [simp]: "R d (InitAx5043REG e) = R d e"
  by (rule R_sub) (auto simp: InitAx5043REG_def intro!: seq_intro)

lemma R_off [simp]:
  "R d (irq_pin_pulse e) = R d e" "R d (Ax5043_OFF e) = R d e" "R d (write_freq e) = R d e"
  by (simp_all add: irq_pin_pulse_def Ax5043_OFF_def write_freq_def Let_def)

lemma R_restart [simp]: "R d (snd (rf_restart e)) = R d e"
  by (rule R_sub) (auto simp: rf_restart_def snd_let intro!: seq_intro)

lemma R_continuous [simp]: "R d (Ax5043Receiver_Continuous e) = R d e"
  by (rule R_sub) (auto simp: Ax5043Receiver_Continuous_def intro!: seq_intro)

lemma R_waitdone [simp]: "R d (irq_waitdone e) = R d e"
  by (rule R_sub) (auto simp: irq_waitdone_def intro!: seq_intro)

end

text \<open>What a device is: its configuration, tables and chip, and the size of its buffer.\<close>

definition same_dev :: "ax5043 \<Rightarrow> ax5043 \<Rightarrow> bool" where
  "same_dev d e \<longleftrightarrow> config e = config d \<and> RegValue e = RegValue d \<and> TXRegValue e = TXRegValue d \<and>
     RXRegValue e = RXRegValue d \<and> chip e = chip d \<and> length (TXBuff e) = length (TXBuff d)"

text \<open>The packet being sent and what was written into the FIFO.\<close>

definition same_tx :: "ax5043 \<Rightarrow> ax5043 \<Rightarrow> bool" where
  "same_tx d e \<longleftrightarrow> TXBuff e = TXBuff d \<and> TxLen e = TxLen d \<and>
     axradio_txbuffer_cnt e = axradio_txbuffer_cnt d \<and> fifo_bytes (wire e) = fifo_bytes (wire d)"

text \<open>The packet received and its signal strength.\<close>

definition same_rx :: "ax5043 \<Rightarrow> ax5043 \<Rightarrow> bool" where
  "same_rx d e \<longleftrightarrow> RXBuff e = RXBuff d \<and> RxLen e = RxLen d \<and> ubRssi e = ubRssi d \<and>
     radio_fault e = radio_fault d"

lemma long_not_fifo: "fifo_of (Spi_send (long_header (a OR 0xF000) @ bs)) = []"
proof -
  have "bit (ucast (drop_bit 8 ((a OR 0xF000) AND 0xFF00)) :: u8) 6"
    by (simp add: bit_simps)
  moreover have "\<not> bit (0xA9 :: u8) 6" by simp
  ultimately have "ucast (drop_bit 8 ((a OR 0xF000) AND 0xFF00)) \<noteq> (0xA9 :: u8)" by metis
  then show ?thesis by (simp add: long_header_def)
qed

interpretation dev: register_frame same_dev
  by unfold_locales (simp_all add: same_dev_def reg_io spi_send_def Ax5043_Spi_Reset_def)

interpretation tx: register_frame same_tx
  by unfold_locales
    (use long_not_fifo in \<open>simp_all add: same_tx_def reg_io spi_send_def Ax5043_Spi_Reset_def\<close>)

interpretation rx: register_frame same_rx
  by unfold_locales (simp_all add: same_rx_def reg_io spi_send_def Ax5043_Spi_Reset_def)

lemma same_dev_trans: "same_dev d e \<Longrightarrow> same_dev e f \<Longrightarrow> same_dev d f"
  by (simp add: same_dev_def)

lemma same_dev_upd [simp]:
  "same_dev d (e\<lparr>wire := w\<rparr>) = same_dev d e" "same_dev d (e\<lparr>reads := r\<rparr>) = same_dev d e"
  "same_dev d (e\<lparr>ubRssi := rs\<rparr>) = same_dev d e"
  "same_dev d (e\<lparr>RxLen := n\<rparr>) = same_dev d e" "same_dev d (e\<lparr>RXBuff := b\<rparr>) = same_dev d e"
  "same_dev d (e\<lparr>TxLen := n\<rparr>) = same_dev d e" "same_dev d (e\<lparr>radio_fault := f\<rparr>) = same_dev d e"
  "same_dev d (e\<lparr>axradio_txbuffer_cnt := k\<rparr>) = same_dev d e"
  "same_dev d (e\<lparr>axradio_power_now := n\<rparr>) = same_dev d e"
  by (simp_all add: same_dev_def)

lemma same_dev_io [simp]:
  "same_dev d (SpiWriteSingleAddressRegister a v e) = same_dev d e"
  "same_dev d (SpiWriteData bs e) = same_dev d e"
  "same_dev d (write_fifo bs e) = same_dev d e"
  "same_dev d (snd (read_fifo e)) = same_dev d e"
  "same_dev d (snd (SpiReadData bs n e)) = same_dev d e"
  by (simp_all add: reg_io spi_send_def write_fifo_eq read_fifo_def SpiReadData_def spi_recv_def Let_def)

lemma io_state [simp]:
  "ubRFState (SpiWriteSingleAddressRegister a v e) = ubRFState e"
  "ubRFState (SpiWriteLongAddressRegister b v e) = ubRFState e"
  "ubRFState (SpiWriteData bs e) = ubRFState e"
  "ubRFState (write_fifo bs e) = ubRFState e"
  "ubRFState (snd (SpiReadSingleAddressRegister a e)) = ubRFState e"
  "ubRFState (snd (SpiReadLongAddressRegister b e)) = ubRFState e"
  by (simp_all add: reg_io spi_send_def write_fifo_eq)

lemma same_dev_dropchunk [simp]: "same_dev d (dropchunk n e) = same_dev d e"
  by (induction n arbitrary: e) simp_all

lemma same_dev_chunk [simp]: "same_dev d (rx_chunk c n e) = same_dev d e"
  by (rule dev.R_sub) (auto simp: rx_chunk_def intro!: dev.seq_intro)

lemma receive_loop_dev: "receive_loop n e = Some f \<Longrightarrow> same_dev d e \<Longrightarrow> same_dev d f"
proof (induction n arbitrary: e)
  case (Suc n)
  obtain q d1 where q: "SpiReadSingleAddressRegister REG_AX5043_IRQREQUEST0 e = (q, d1)" by fastforce
  have 1: "same_dev d d1" using dev.R_read [of d REG_AX5043_IRQREQUEST0 e] q Suc.prems(2) by simp
  obtain h d2 where h: "read_fifo d1 = (h, d2)" by fastforce
  have 2: "same_dev d d2" using same_dev_io(4) [of d d1] h 1 by simp
  define pr where "pr = (if drop_bit 5 (h AND 0xE0) = 0x07 then read_fifo d2
      else (drop_bit 5 (h AND 0xE0), d2))"
  have "receive_loop (Suc n) e = (if q AND 0x01 = 0 then Some d1
      else receive_loop n (rx_chunk (h AND 0x1F) (fst pr) (snd pr)))"
    by (simp only: receive_loop.simps q h Let_def prod.case case_prod_unfold pr_def fst_conv snd_conv)
  moreover have "same_dev d (snd pr)" using 2 by (simp add: pr_def)
  ultimately show ?case
    using Suc.prems(1) 1 Suc.IH [of "rx_chunk (h AND 0x1F) (fst pr) (snd pr)"]
    by (simp split: if_splits)
qed simp

lemma ReceiveData_dev: "ReceiveData n e = Some f \<Longrightarrow> same_dev e f"
  unfolding ReceiveData_def by (drule receive_loop_dev [where d = e]) simp_all

lemma same_dev_stop_bit [simp]: "same_dev d (snd (stop_bit n b e)) = same_dev d e"
  by (rule dev.R_sub) (auto simp: stop_bit_def snd_let intro!: dev.seq_intro)

lemma same_dev_appendbits [simp]: "same_dev d (tx_appendbits e) = same_dev d e"
  by (rule dev.R_sub) (auto simp: tx_appendbits_def intro!: dev.seq_intro)

lemma same_dev_sync [simp]: "same_dev d (tx_sync e) = same_dev d e"
  by (rule dev.R_sub) (auto simp: tx_sync_def intro!: dev.seq_intro)

lemma same_dev_short [simp]:
  "same_dev d (snd (tx_short_tail fr e)) = same_dev d e"
  "same_dev d (snd (tx_shortpreamble fr e)) = same_dev d e"
  "same_dev d (snd (tx_longpreamble fr e)) = same_dev d e"
  "same_dev d (snd (tx_packet e)) = same_dev d e"
proof -
  show t: "same_dev d (snd (tx_short_tail fr e)) = same_dev d e" for d e
    by (rule dev.R_sub) (auto simp: tx_short_tail_def snd_let intro!: dev.seq_intro)
  show s: "same_dev d (snd (tx_shortpreamble fr e)) = same_dev d e" for d e
    by (rule dev.R_sub) (auto simp: tx_shortpreamble_def snd_let t intro!: dev.seq_intro)
  show "same_dev d (snd (tx_longpreamble fr e)) = same_dev d e" for d e
    by (rule dev.R_sub) (auto simp: tx_longpreamble_def snd_let s intro!: dev.seq_intro)
  show "same_dev d (snd (tx_packet e)) = same_dev d e"
    by (simp add: tx_packet_def)
qed

lemma tx_turn_dev: "same_dev e (snd (tx_turn e))"
  by (auto simp: tx_turn_def snd_let intro!: dev.seq_intro split: trxstate.split)

lemma TransmitData_dev: "TransmitData n e = Some f \<Longrightarrow> same_dev e f"
proof (induction n arbitrary: e)
  case (Suc n)
  obtain x g where x: "tx_turn e = (x, g)" by (cases "tx_turn e")
  with tx_turn_dev [of e] have g: "same_dev e g" by simp
  then show ?case
    using Suc x by (cases x) (auto simp: tx_pktend_def intro: same_dev_trans [OF g])
qed simp

lemma same_dev_fill [simp]: "same_dev d (fill_txbuff n bs e) = same_dev d e"
  by (auto simp: same_dev_def fill_txbuff_def)

lemma same_dev_send [simp]: "same_dev d (Normal_send buf n e) = same_dev d e"
  by (rule dev.R_sub) (auto simp: Normal_send_def transmit_packet_task_def intro!: dev.seq_intro)

lemma same_dev_power [simp]:
  "same_dev d (ChangeMaxPower e) = same_dev d e" "same_dev d (BackNormalPower e) = same_dev d e"
  by (simp_all add: ChangeMaxPower_def BackNormalPower_def)

lemma same_dev_timeout [simp]: "same_dev d (send_timeout e) = same_dev d e"
  by (simp add: send_timeout_def)

lemma same_dev_tx_start [simp]: "same_dev d (irq_tx_start e) = same_dev d e"
  by (rule dev.R_sub) (auto simp: irq_tx_start_def intro!: dev.seq_intro)

lemma irq_device_dev:
  assumes "irq_device fuel d = Some e"
  shows "same_dev d e"
  using assms ReceiveData_dev [of fuel d] TransmitData_dev [of fuel d]
    TransmitData_dev [of fuel "irq_tx_start d"]
  by (auto simp: irq_device_def split: trxstate.splits) (meson dev.R_sub same_dev_tx_start dev.R_refl)

section \<open>The states of the driver\<close>

definition sending :: "trxstate \<Rightarrow> bool" where
  "sending st \<longleftrightarrow> st = trxstate_tx_longpreamble \<or> st = trxstate_tx_shortpreamble \<or> st = trxstate_tx_packet"

lemma stop_bit_state [simp]: "ubRFState (snd (stop_bit n b d)) = ubRFState d"
  by (simp add: stop_bit_def snd_let case_prod_unfold Let_def)

lemma appendbits_state [simp]: "ubRFState (tx_appendbits d) = ubRFState d"
  by (simp add: tx_appendbits_def Let_def case_prod_unfold)

lemma sync_state [simp]: "ubRFState (tx_sync d) = trxstate_tx_packet"
  by (simp add: tx_sync_def Let_def)

lemma short_tail_state:
  "tx_short_tail fr d = (x, e) \<Longrightarrow> x \<noteq> Return \<and> ubRFState e = ubRFState d"
  by (auto simp: tx_short_tail_def Let_def case_prod_unfold split: if_splits)

lemma shortpreamble_state:
  "tx_shortpreamble fr d = (x, e) \<Longrightarrow>
     x \<noteq> Return \<and> (ubRFState e = ubRFState d \<or> ubRFState e = trxstate_tx_packet)"
  by (auto simp: tx_shortpreamble_def Let_def case_prod_unfold split: if_splits dest!: short_tail_state)

lemma longpreamble_state:
  "tx_longpreamble fr d = (x, e) \<Longrightarrow> sending (ubRFState d) \<Longrightarrow> x \<noteq> Return \<and> sending (ubRFState e)"
  by (auto simp: tx_longpreamble_def Let_def sending_def split: if_splits dest!: shortpreamble_state)

lemma tx_turn_sending:
  assumes "sending (ubRFState d)" and "tx_turn d = (x, e)"
  shows "x \<noteq> Return \<and> (x = Next \<longrightarrow> sending (ubRFState e))"
proof -
  obtain fr f where f: "ubRFState f = ubRFState d" and
    t: "tx_turn d = (case ubRFState f of
           trxstate_tx_longpreamble \<Rightarrow> tx_longpreamble fr f
         | trxstate_tx_shortpreamble \<Rightarrow> tx_shortpreamble fr f
         | trxstate_tx_packet \<Rightarrow> tx_packet f
         | _ \<Rightarrow> (Return, f))"
    by (simp only: tx_turn_def Let_def case_prod_unfold) (metis io_state(5))
  show ?thesis
    using assms f longpreamble_state [of fr f x e] shortpreamble_state [of fr f x e]
    by (auto simp: t sending_def tx_packet_def split: if_splits)
qed

lemma TransmitData_waitdone:
  "sending (ubRFState d) \<Longrightarrow> TransmitData n d = Some e \<Longrightarrow> ubRFState e = trxstate_tx_waitdone"
proof (induction n arbitrary: d)
  case (Suc n)
  obtain x g where x: "tx_turn d = (x, g)" by (cases "tx_turn d")
  with tx_turn_sending [OF Suc.prems(1) x] Suc show ?case
    by (cases x) (auto simp: tx_pktend_def)
qed simp

text \<open>
  What happens to a radio in operation: a turn of its interrupt thread, a packet to send, the
  expiry of the send timer, a change of the output power, and any change of what the chip
  answers.
\<close>

inductive radio_step :: "ax5043 \<Rightarrow> ax5043 \<Rightarrow> bool" where
  irq: "irq_device fuel d = Some e \<Longrightarrow> radio_step d e"
| send: "radio_step d (Normal_send buf n d)"
| timeout: "radio_step d (send_timeout d)"
| max_power: "radio_step d (ChangeMaxPower d)"
| normal_power: "radio_step d (BackNormalPower d)"
| answers: "radio_step d (d\<lparr>chip := f\<rparr>)"

inductive_cases radio_stepE: "radio_step d e"

definition resting :: "trxstate \<Rightarrow> bool" where
  "resting st \<longleftrightarrow> st = trxstate_rx \<or> st = trxstate_tx_xtalwait \<or> st = trxstate_tx_waitdone"

definition same_tables :: "ax5043 \<Rightarrow> ax5043 \<Rightarrow> bool" where
  "same_tables d e \<longleftrightarrow> config e = config d \<and> RegValue e = RegValue d \<and>
     TXRegValue e = TXRegValue d \<and> RXRegValue e = RXRegValue d \<and> length (TXBuff e) = length (TXBuff d)"

lemma tables_of_dev: "same_dev d e \<Longrightarrow> same_tables d e"
  by (simp add: same_dev_def same_tables_def)

lemma restart_state [simp]: "ubRFState (snd (rf_restart d)) = trxstate_rx"
  by (simp add: rf_restart_def Let_def)

lemma continuous_state [simp]: "ubRFState (Ax5043Receiver_Continuous d) = trxstate_rx"
  by (simp add: Ax5043Receiver_Continuous_def Let_def case_prod_unfold)

lemma waitdone_resting: "ubRFState d = trxstate_tx_waitdone \<Longrightarrow> resting (ubRFState (irq_waitdone d))"
  by (simp add: irq_waitdone_def Let_def case_prod_unfold resting_def)

lemma tx_start_sending: "sending (ubRFState (irq_tx_start d))"
  by (simp add: irq_tx_start_def Let_def case_prod_unfold sending_def)

lemma irq_resting:
  assumes "irq_device fuel d = Some e" and "resting (ubRFState d)"
  shows "resting (ubRFState e)"
  using assms TransmitData_waitdone [OF tx_start_sending] waitdone_resting [of d]
  by (auto simp: irq_device_def resting_def)

lemma send_state [simp]: "ubRFState (Normal_send buf n d) = trxstate_tx_xtalwait"
  by (simp add: Normal_send_def transmit_packet_task_def Let_def)

lemma power_state [simp]:
  "ubRFState (ChangeMaxPower d) = ubRFState d" "ubRFState (BackNormalPower d) = ubRFState d"
  by (simp_all add: ChangeMaxPower_def BackNormalPower_def)

lemma timeout_state [simp]: "ubRFState (send_timeout d) = trxstate_rx"
  by (simp add: send_timeout_def)

lemma radio_step_ok:
  assumes "radio_step d e" and "resting (ubRFState d)"
  shows "resting (ubRFState e)" and "same_tables d e"
proof -
  show "resting (ubRFState e)"
    using assms irq_resting by (auto elim!: radio_stepE simp: resting_def)
  show "same_tables d e"
    using assms(1) by (auto elim!: radio_stepE intro: tables_of_dev irq_device_dev)
      (simp add: same_tables_def)
qed

lemma radio_steps_ok:
  assumes "radio_step\<^sup>*\<^sup>* d e" and "resting (ubRFState d)"
  shows "resting (ubRFState e) \<and> same_tables d e"
  using assms
proof (induction rule: rtranclp_induct)
  case (step e f)
  with radio_step_ok [OF step.hyps(2)] show ?case by (simp add: same_tables_def)
qed (simp add: same_tables_def)

text \<open>C24: The radio is never stuck in a transmission: whatever interrupts, sends, timeouts and chip
  answers follow each other, between them the driver receives, waits for the crystal or waits for
  the end of the packet, and its tables and configuration are intact; so whenever the send timer
  expires in a transmission, it returns to the receive state with the chip powered down and all
  interrupts masked.\<close>

theorem radio_never_stuck:
  assumes "radio_step\<^sup>*\<^sup>* d e" and "ubRFState d = trxstate_rx"
    and "RegValue d = set_registers_433 \<or> RegValue d = set_registers_4068"
  shows "ubRFState e \<in> {trxstate_rx, trxstate_tx_xtalwait, trxstate_tx_waitdone} \<and>
    config e = config d \<and> RegValue e = RegValue d \<and> length (TXBuff e) = length (TXBuff d) \<and>
    ubRFState (send_timeout e) = trxstate_rx \<and>
    (ubRFState e \<noteq> trxstate_rx \<longrightarrow>
      last_write 0x02 (wire (send_timeout e)) = Some 0 \<and>
      last_write 0x06 (wire (send_timeout e)) = Some 0 \<and>
      last_write 0x07 (wire (send_timeout e)) = Some 0)"
proof -
  have e: "resting (ubRFState e)" "same_tables d e"
    using radio_steps_ok [OF assms(1)] assms(2) by (simp_all add: resting_def)
  let ?f = "SpiWriteSingleAddressRegister REG_AX5043_RADIOEVENTMASK0 0x00 e"
  have "RegValue ?f = RegValue d"
    using e(2) by (simp add: same_tables_def SpiWriteSingleAddressRegister_def)
  with assms(3) have "RegValue ?f = set_registers_433 \<or> RegValue ?f = set_registers_4068" by simp
  from restart_powers_down [OF this] e show ?thesis
    by (auto simp: resting_def same_tables_def send_timeout_def)
qed

section \<open>A transmission\<close>

lemma send_fills:
  assumes "length (TXBuff d) = 64" and "length buf = 28"
  shows "TxLen (Normal_send buf 28 d) = 29 \<and> take 29 (TXBuff (Normal_send buf 28 d)) = 29 # buf \<and>
    axradio_txbuffer_cnt (Normal_send buf 28 d) = 0 \<and>
    fifo_bytes (wire (Normal_send buf 28 d)) = fifo_bytes (wire d)"
proof -
  let ?d = "d\<lparr>axradio_txbuffer_cnt := 0\<rparr>"
  define e where "e = snd (Ax5043SetRegisters_TX (SpiWriteSingleAddressRegister REG_AX5043_PWRMODE
      AX5043_PWRSTATE_FIFO_ON (SpiWriteSingleAddressRegister REG_AX5043_PWRMODE
        AX5043_PWRSTATE_XTAL_ON ?d)))"
  have e: "same_tx ?d e" by (simp add: e_def)
  have "Normal_send buf 28 d = snd (SpiReadSingleAddressRegister REG_AX5043_POWSTICKYSTAT
      (SpiWriteSingleAddressRegister REG_AX5043_IRQMASK1 0x01
        (SpiWriteSingleAddressRegister REG_AX5043_IRQMASK0 0x00
          ((SpiWriteSingleAddressRegister REG_AX5043_FIFOTHRESH0 0x80
            (SpiWriteSingleAddressRegister REG_AX5043_FIFOTHRESH1 0x00
              (fill_txbuff 29 (take 28 buf) (e\<lparr>TxLen := 29\<rparr>))))\<lparr>ubRFState := trxstate_tx_xtalwait\<rparr>))))"
    by (simp add: Normal_send_def transmit_packet_task_def Let_def e_def)
  with e assms show ?thesis
    by (simp add: same_tx_def fill_txbuff_def reg_io)
qed

lemma TransmitData_more:
  "TransmitData n d = Some e \<Longrightarrow> n \<le> m \<Longrightarrow> TransmitData m d = Some e"
proof (induction n arbitrary: d m)
  case (Suc n)
  then obtain k where m: "m = Suc k" "n \<le> k" by (cases m) auto
  obtain x g where x: "tx_turn d = (x, g)" by (cases "tx_turn d")
  show ?case
    using Suc.prems(1) Suc.IH [of g k] m x by (cases x) simp_all
qed simp

lemma same_dev_chip:
  assumes "same_dev d e"
  shows "chip e = chip d" "config e = config d" "chip_ready e = chip_ready d"
  using assms by (simp_all add: same_dev_def chip_ready_def)

lemma tx_start_quiet:
  assumes "\<forall>n. chip d n 0x10 AND 0x0F \<noteq> 9"
  shows "same_tx d (irq_tx_start d)" and "ubRFState (irq_tx_start d) = trxstate_tx_longpreamble"
  using assms by (simp_all add: irq_tx_start_def Let_def read_single SpiWriteSingleAddressRegister_def
      spi_send_def same_tx_def)

text \<open>The device sends a packet of 28 bytes: the header, the length byte and the packet go into the
  FIFO at the first interrupt, the second one ends the transmission.\<close>

lemma device_transmits:
  assumes "length (TXBuff d) = 64" and "length buf = 28" and "chip_ready d" and "std_config (config d)"
    and "\<forall>n. chip d n 0x10 AND 0x0F \<noteq> 9" and "3 \<le> fuel"
  shows "\<exists>e. irq_device fuel (Normal_send buf 28 d) = Some e \<and> ubRFState e = trxstate_tx_waitdone \<and>
    fifo_bytes (wire e) = fifo_bytes (wire d) @ packet_head (config d) @ [0xE1, 30, 3] @ 29 # buf \<and>
    last_write 0x02 (wire e) = Some AX5043_PWRSTATE_FULL_TX \<and> same_dev d e"
proof -
  let ?n = "Normal_send buf 28 d"
  have n: "same_dev d ?n" by simp
  have q: "same_tx ?n (irq_tx_start ?n)" "ubRFState (irq_tx_start ?n) = trxstate_tx_longpreamble"
    by (rule tx_start_quiet, simp add: same_dev_chip [OF n] assms(5))+
  define t where "t = irq_tx_start ?n"
  have dt: "same_dev d t" by (simp add: t_def)
  have t: "ubRFState t = trxstate_tx_longpreamble" "axradio_txbuffer_cnt t = 0" "TxLen t = 29"
    "take 29 (TXBuff t) = 29 # buf" "fifo_bytes (wire t) = fifo_bytes (wire d)"
    using q send_fills [OF assms(1,2)] by (simp_all add: t_def same_tx_def)
  have "\<exists>e. TransmitData 3 t = Some e \<and> ubRFState e = trxstate_tx_waitdone \<and>
      fifo_bytes (wire e) = fifo_bytes (wire t) @ packet_head (config t) @
        [0xE1, 1 + TxLen t, 3] @ take (unat (TxLen t)) (TXBuff t) \<and>
      chip e = chip t \<and> config e = config t \<and> radio_fault e = radio_fault t"
    by (rule transmit_packet [OF t(1,2)]) (simp_all add: t(3) same_dev_chip [OF dt] assms(3,4))
  then obtain e where e: "TransmitData 3 t = Some e" "ubRFState e = trxstate_tx_waitdone"
    "fifo_bytes (wire e) = fifo_bytes (wire d) @ packet_head (config d) @ [0xE1, 30, 3] @ 29 # buf"
    by (auto simp: t same_dev_chip [OF dt])
  have "TransmitData fuel t = Some e" by (rule TransmitData_more [OF e(1) assms(6)])
  then have "irq_device fuel ?n =
      Some (SpiWriteSingleAddressRegister REG_AX5043_PWRMODE AX5043_PWRSTATE_FULL_TX e)"
    by (simp add: irq_device_def t_def)
  moreover have "same_dev d e"
    by (rule same_dev_trans [OF dt TransmitData_dev [OF e(1)]])
  ultimately show ?thesis
    using e(2,3)
    by (simp add: SpiWriteSingleAddressRegister_def chip_decode_def spi_send_def)
qed

lemma device_finishes:
  assumes "ubRFState d = trxstate_tx_waitdone" and "\<forall>n. chip d n 0x1C = 0"
  shows "\<exists>e. irq_device fuel d = Some e \<and> ubRFState e = trxstate_rx \<and>
    fifo_bytes (wire e) = fifo_bytes (wire d) \<and> same_dev d e"
proof -
  have "irq_waitdone d = snd (rf_restart (SpiWriteSingleAddressRegister REG_AX5043_RADIOEVENTMASK0 0x00
      (snd (SpiReadSingleAddressRegister REG_AX5043_RADIOSTATE
        (snd (SpiReadSingleAddressRegister REG_AX5043_RADIOEVENTREQ0 d))))))"
    using assms(2) by (simp add: irq_waitdone_def read_single Let_def)
  moreover from this have "same_tx d (irq_waitdone d)" by simp
  ultimately show ?thesis
    using assms(1) by (simp add: irq_device_def same_tx_def)
qed

lemma continuous_on:
  "last_write 0x02 (wire (Ax5043Receiver_Continuous d)) = Some AX5043_PWRSTATE_FULL_RX"
  "last_write 0x07 (wire (Ax5043Receiver_Continuous d)) = Some 0x01"
  by (simp_all add: Ax5043Receiver_Continuous_def Let_def reg_io chip_decode_def long_header_def)

lemma listening_rx:
  "RxLen (Ax5043Receiver_Continuous (snd (Ax5043SetRegisters_RX d))) = RxLen d"
  "RXBuff (Ax5043Receiver_Continuous (snd (Ax5043SetRegisters_RX d))) = RXBuff d"
  "ubRssi (Ax5043Receiver_Continuous (snd (Ax5043SetRegisters_RX d))) = ubRssi d"
proof -
  have "same_rx d (Ax5043Receiver_Continuous (snd (Ax5043SetRegisters_RX d)))" by simp
  then show "RxLen (Ax5043Receiver_Continuous (snd (Ax5043SetRegisters_RX d))) = RxLen d"
    "RXBuff (Ax5043Receiver_Continuous (snd (Ax5043SetRegisters_RX d))) = RXBuff d"
    "ubRssi (Ax5043Receiver_Continuous (snd (Ax5043SetRegisters_RX d))) = ubRssi d"
    by (simp_all add: same_rx_def)
qed

text \<open>With an empty FIFO a turn in the receive state only turns the receiver on.\<close>

lemma device_listens:
  assumes "ubRFState d = trxstate_rx" and "\<forall>n. chip d n 0x0D AND 0x01 = 0" and "0 < fuel"
  shows "\<exists>e. irq_device fuel d = Some e \<and> ubRFState e = trxstate_rx \<and> RxLen e = 0 \<and>
    last_write 0x02 (wire e) = Some AX5043_PWRSTATE_FULL_RX \<and> last_write 0x07 (wire e) = Some 0x01"
proof -
  obtain n where n: "fuel = Suc n" using assms(3) by (cases fuel) auto
  define e where "e = snd (SpiReadSingleAddressRegister REG_AX5043_IRQREQUEST0
      (snd (SpiReadSingleAddressRegister REG_AX5043_RADIOEVENTREQ0
        (d\<lparr>ubRssi := 0, RxLen := 0, RXBuff := replicate 64 0\<rparr>))))"
  have "ReceiveData fuel d = Some e"
    using assms(2) by (simp add: ReceiveData_def n read_single e_def)
  moreover have "RxLen e = 0" by (simp add: e_def read_single)
  ultimately show ?thesis using assms(1) by (simp add: irq_device_def continuous_on listening_rx)
qed

lemma kern_more_radio:
  fixes s t :: "'a radio_app_scheme"
  assumes "kern.more t = kern.more s"
  shows "rf_433 t = rf_433 s" "rf_4068 t = rf_4068 s"
  using assms by (cases s; cases t; simp)+

lemma timer_radio [simp]:
  fixes s :: "'a radio_app_scheme"
  shows "rf_433 (rt_timer_start i s) = rf_433 s" "rf_4068 (rt_timer_start i s) = rf_4068 s"
    "rf_433 (snd (rt_timer_stop i s)) = rf_433 s" "rf_4068 (snd (rt_timer_stop i s)) = rf_4068 s"
  by (rule kern_more_radio, simp)+

lemma timer_stopped: "\<not> timer_active (timers (snd (rt_timer_stop i s)) i)"
  by (auto simp: rt_timer_stop_def)

lemma length_frame_bytes: "length (frame_bytes target self control val) = 28"
  using length_fmt_0d_ge [of 8 "sint target"] length_fmt_0d_ge [of 8 "sint self"]
    length_fmt_0d_ge [of 2 "uint control"] length_fmt_0d_ge [of 2 "uint val"]
  by (simp add: frame_bytes_def frame_def)

text \<open>The chip as the transmission needs it: ready for a packet, no 4-FSK, idle when asked whether
  the packet is out, and with an empty receive FIFO.\<close>

definition chip_serves :: "ax5043 \<Rightarrow> bool" where
  "chip_serves d \<longleftrightarrow> chip_ready d \<and> (\<forall>n. chip d n 0x10 AND 0x0F \<noteq> 9 \<and> chip d n 0x1C = 0 \<and>
     chip d n 0x0D AND 0x01 = 0)"

text \<open>C1: From the queue to the antenna and back to listening: a message taken from the queue of the
  433 link is sent in three interrupts. The first (crystal ready) puts the preamble, the
  synchronisation word, the packet header, the length and the 28 bytes of the frame into the FIFO,
  in this order and nothing else, and switches the chip to transmit; the second (packet out) stops
  the send timer and restarts the radio; the third, which the restart triggers on the interrupt
  pin, turns the receiver on again.\<close>

theorem radio_send_complete:
  fixes s :: "('e, 'a) file_app_scheme" and E :: "'e storage_ops"
  assumes "heap_oracle s (heap_calls s)" and "unat (NowNum (Queue_433 s)) < 100"
    and "q_slot (Queue_433 s) (unat (NowNum (Queue_433 s))) = (target, control, val)"
    and "chip_serves (rf_433 s)" and "std_config (config (rf_433 s))"
    and "length (TXBuff (rf_433 s)) = 64" and "3 \<le> fuel"
  shows "\<exists>s1 s2 s3. rf_433_task_turn E self fuel junk (rf_433_Dequeue_send s) = Some s1 \<and>
    fifo_bytes (wire (rf_433 s1)) = fifo_bytes (wire (rf_433 s)) @ packet_head (config (rf_433 s)) @
      [0xE1, 30, 3] @ 29 # frame_bytes target (Self_ID s) control val \<and>
    last_write 0x02 (wire (rf_433 s1)) = Some AX5043_PWRSTATE_FULL_TX \<and>
    rf_433_task_turn E self fuel junk s1 = Some s2 \<and>
    fifo_bytes (wire (rf_433 s2)) = fifo_bytes (wire (rf_433 s1)) \<and>
    \<not> timer_active (timers s2 rf_433_send_timer) \<and>
    rf_433_task_turn E self fuel junk s2 = Some s3 \<and> ubRFState (rf_433 s3) = trxstate_rx \<and>
    last_write 0x02 (wire (rf_433 s3)) = Some AX5043_PWRSTATE_FULL_RX"
proof -
  let ?d = "rf_433 s" and ?buf = "frame_bytes target (Self_ID s) control val"
  let ?s0 = "rf_433_Dequeue_send s"
  have sv: "chip_ready ?d" "\<forall>n. chip ?d n 0x10 AND 0x0F \<noteq> 9" "\<forall>n. chip ?d n 0x1C = 0"
    "\<forall>n. chip ?d n 0x0D AND 0x01 = 0" and f: "0 < fuel"
    using assms(4,7) by (simp_all add: chip_serves_def)
  have d0: "rf_433 ?s0 = Normal_send ?buf 28 ?d"
    using assms(1-3) by (simp add: rf_433_Dequeue_send_def rf_433_send_def malloc_ok_def)
  obtain d1 where 1: "irq_device fuel (Normal_send ?buf 28 ?d) = Some d1"
    "ubRFState d1 = trxstate_tx_waitdone"
    "fifo_bytes (wire d1) = fifo_bytes (wire ?d) @ packet_head (config ?d) @ [0xE1, 30, 3] @ 29 # ?buf"
    "last_write 0x02 (wire d1) = Some AX5043_PWRSTATE_FULL_TX" "same_dev ?d d1"
    using device_transmits [OF assms(6) length_frame_bytes sv(1) assms(5) sv(2) assms(7),
        of target "Self_ID s" control val] by blast
  let ?s1 = "?s0\<lparr>rf_433 := d1\<rparr>"
  have t1: "rf_433_task_turn E self fuel junk ?s0 = Some ?s1"
    by (simp add: rf_433_task_turn_def d0 1)
  obtain d2 where 2: "irq_device fuel d1 = Some d2" "ubRFState d2 = trxstate_rx"
    "fifo_bytes (wire d2) = fifo_bytes (wire d1)" "same_dev d1 d2"
    using device_finishes [OF 1(2)] sv(3) same_dev_chip [OF 1(5)] by auto
  let ?s2 = "(snd (rt_timer_stop rf_433_send_timer ?s1))\<lparr>rf_433 := d2\<rparr>"
  have t2: "rf_433_task_turn E self fuel junk ?s1 = Some ?s2"
    by (simp add: rf_433_task_turn_def 1(2) 2(1))
  obtain d3 where 3: "irq_device fuel d2 = Some d3" "ubRFState d3 = trxstate_rx" "RxLen d3 = 0"
    "last_write 0x02 (wire d3) = Some AX5043_PWRSTATE_FULL_RX"
    using device_listens [OF 2(2) _ f] sv(4) same_dev_chip [OF same_dev_trans [OF 1(5) 2(4)]] by auto
  have t3: "rf_433_task_turn E self fuel junk ?s2 = Some (?s2\<lparr>rf_433 := d3\<rparr>)"
    by (simp add: rf_433_task_turn_def 2(2) 3(1,3))
  show ?thesis
    using t1 t2 t3 1(3,4) 2(3) 3(2,4) timer_stopped [of rf_433_send_timer ?s1]
    by (intro exI [of _ ?s1] exI [of _ ?s2] exI [of _ "?s2\<lparr>rf_433 := d3\<rparr>"]) simp
qed

section \<open>A reception\<close>

lemma plus_small:
  "(k :: nat) + 2 = Suc (Suc k)" "k + 3 = Suc (Suc (Suc k))" "k + 4 = Suc (Suc (Suc (Suc k)))"
  "k + 5 = Suc (Suc (Suc (Suc (Suc k))))" "k + 6 = Suc (Suc (Suc (Suc (Suc (Suc k)))))"
  "k + 7 = Suc (Suc (Suc (Suc (Suc (Suc (Suc k))))))"
  "k + 8 = Suc (Suc (Suc (Suc (Suc (Suc (Suc (Suc k)))))))"
  by simp_all

lemma receive_end:
  assumes "chip d (reads d) 0x0D AND 0x01 = 0"
  shows "\<exists>e. receive_loop (Suc n) d = Some e \<and> same_rx d e \<and> same_dev d e"
  using assms by (simp add: read_single same_rx_def)

lemma receive_data:
  assumes "chip d (reads d) 0x0D AND 0x01 \<noteq> 0" and "chip d (Suc (reads d)) 0x29 = 0xE1"
    and "chip d (reads d + 2) 0x29 = n + 1" and "n + 1 \<noteq> 0" and "unat n \<le> length (RXBuff d)"
  shows "\<exists>e. receive_loop (Suc m) d = receive_loop m e \<and> same_dev d e \<and>
    reads e = reads d + 5 + unat n \<and> RxLen e = n \<and> ubRssi e = ubRssi d \<and>
    RXBuff e = map (\<lambda>i. chip d (reads d + 4 + i) 0x29) [0..<unat n] @ drop (unat n) (RXBuff d)"
proof -
  have q: "chip d (reads d) 13 AND 1 \<noteq> 0" "chip d (Suc (Suc (reads d))) 41 = n + 1"
    using assms(1,3) by (simp_all add: numeral_2_eq_2)
  let ?e = "d\<lparr>RXBuff := map (\<lambda>i. chip d (reads d + 4 + i) 0x29) [0..<unat n] @ drop (unat n) (RXBuff d),
      RxLen := n, reads := reads d + 5 + unat n,
      wire := wire d @ [Spi_recv [13] 1, Spi_recv [41] 1, Spi_recv [41] 1, Spi_recv [41] 1,
        Spi_recv [41] (unat n), Spi_recv [7] 1,
        Spi_send [135, chip d (reads d + 4 + unat n) 7 AND NOT 1]]\<rparr>"
  have "receive_loop (Suc m) d = receive_loop m ?e"
    using assms(2,4,5) q
    by (simp add: read_single read_fifo_def rx_chunk_def SpiReadData_def spi_recv_def Let_def
        SpiWriteSingleAddressRegister_def spi_send_def plus_small)
  then show ?thesis by (intro exI [of _ ?e]) simp
qed

lemma receive_rssi:
  assumes "chip d (reads d) 0x0D AND 0x01 \<noteq> 0" and "chip d (Suc (reads d)) 0x29 = 0x31"
  shows "\<exists>e. receive_loop (Suc m) d = receive_loop m e \<and> same_dev d e \<and> reads e = reads d + 3 \<and>
    RxLen e = RxLen d \<and> RXBuff e = RXBuff d \<and>
    ubRssi e = sint (chip d (reads d + 2) 0x29) - sint (axradio_phy_rssioffset (config d))"
proof -
  let ?e = "d\<lparr>reads := reads d + 3,
      wire := wire d @ [Spi_recv [13] 1, Spi_recv [41] 1, Spi_recv [41] 1],
      ubRssi := sint (chip d (reads d + 2) 0x29) - sint (axradio_phy_rssioffset (config d))\<rparr>"
  have "receive_loop (Suc m) d = receive_loop m ?e"
    using assms by (simp add: read_single read_fifo_def rx_chunk_def Let_def plus_small)
  then show ?thesis by (intro exI [of _ ?e]) simp
qed

text \<open>What the chip answers to the reads of a turn that finds the packet \<open>p\<close> with the signal
  strength \<open>r\<close> behind it in the FIFO.\<close>

definition fifo_delivers :: "u8 list \<Rightarrow> u8 \<Rightarrow> ax5043 \<Rightarrow> bool" where
  "fifo_delivers p r d \<longleftrightarrow>
     (let k = reads d; n = length p
      in chip d (k + 1) 0x0D AND 0x01 \<noteq> 0 \<and> chip d (k + 2) 0x29 = 0xE1 \<and>
         chip d (k + 3) 0x29 = word_of_nat n + 1 \<and> (\<forall>i < n. chip d (k + 5 + i) 0x29 = p ! i) \<and>
         chip d (k + n + 6) 0x0D AND 0x01 \<noteq> 0 \<and> chip d (k + n + 7) 0x29 = 0x31 \<and>
         chip d (k + n + 8) 0x29 = r \<and> chip d (k + n + 9) 0x0D AND 0x01 = 0)"

lemma device_receives:
  assumes "fifo_delivers p r d" and "ubRFState d = trxstate_rx" and "length p \<le> 64" and "3 \<le> fuel"
  shows "\<exists>e. irq_device fuel d = Some e \<and> RXBuff e = p @ replicate (64 - length p) 0 \<and>
    RxLen e = word_of_nat (length p) \<and> ubRssi e = sint r - sint (axradio_phy_rssioffset (config d)) \<and>
    ubRFState e = trxstate_rx \<and> last_write 0x02 (wire e) = Some AX5043_PWRSTATE_FULL_RX"
proof -
  let ?n = "word_of_nat (length p) :: u8"
  obtain m where m: "fuel = Suc (Suc (Suc m))" using assms(4) by (metis Suc_le_D numeral_3_eq_3 Suc_le_mono)
  have n: "unat ?n = length p" using assms(3) by (simp add: unat_of_nat take_bit_nat_eq_self)
  have n1: "?n + 1 \<noteq> 0"
  proof
    assume "?n + 1 = 0"
    then have "?n = - 1" by (simp add: eq_neg_iff_add_eq_0)
    also have "(- 1 :: u8) = 255" by simp
    finally have "unat ?n = 255" by simp
    then show False using n assms(3) by simp
  qed
  define d0 where "d0 = snd (SpiReadSingleAddressRegister REG_AX5043_RADIOEVENTREQ0
      (d\<lparr>ubRssi := 0, RxLen := 0, RXBuff := replicate 64 0\<rparr>))"
  have d0: "reads d0 = Suc (reads d)" "chip d0 = chip d" "config d0 = config d" "RXBuff d0 = replicate 64 0"
    by (simp_all add: d0_def read_single)
  have fd: "chip d (Suc (reads d)) 0x0D AND 0x01 \<noteq> 0" "chip d (Suc (Suc (reads d))) 0x29 = 0xE1"
    "chip d (Suc (reads d) + 2) 0x29 = ?n + 1"
    "\<forall>i < length p. chip d (reads d + 5 + i) 0x29 = p ! i"
    "chip d (reads d + length p + 6) 0x0D AND 0x01 \<noteq> 0"
    "chip d (Suc (reads d + length p + 6)) 0x29 = 0x31"
    "chip d (reads d + length p + 6 + 2) 0x29 = r" "chip d (reads d + length p + 9) 0x0D AND 0x01 = 0"
    using assms(1) by (simp_all add: fifo_delivers_def Let_def plus_small)
  have "\<exists>e. receive_loop fuel d0 = receive_loop (Suc (Suc m)) e \<and> same_dev d0 e \<and>
    reads e = reads d0 + 5 + unat ?n \<and> RxLen e = ?n \<and> ubRssi e = ubRssi d0 \<and>
    RXBuff e = map (\<lambda>i. chip d0 (reads d0 + 4 + i) 0x29) [0..<unat ?n] @ drop (unat ?n) (RXBuff d0)"
    unfolding m by (rule receive_data) (simp_all only: d0 fd n n1 length_replicate assms(3) not_False_eq_True)
  then obtain d1 where 1: "receive_loop fuel d0 = receive_loop (Suc (Suc m)) d1" "same_dev d0 d1"
    "reads d1 = reads d + length p + 6" "RxLen d1 = ?n"
    "RXBuff d1 = map (\<lambda>i. chip d (reads d + 5 + i) 0x29) [0..<length p] @ replicate (64 - length p) 0"
    by (auto simp: n d0 ac_simps simp del: receive_loop.simps)
  note c1 = same_dev_chip(1,2) [OF 1(2), unfolded d0]
  have "\<exists>e. receive_loop (Suc (Suc m)) d1 = receive_loop (Suc m) e \<and> same_dev d1 e \<and>
    reads e = reads d1 + 3 \<and> RxLen e = RxLen d1 \<and> RXBuff e = RXBuff d1 \<and>
    ubRssi e = sint (chip d1 (reads d1 + 2) 0x29) - sint (axradio_phy_rssioffset (config d1))"
    by (rule receive_rssi) (simp_all only: c1 1(3) fd not_False_eq_True)
  then obtain d2 where 2: "receive_loop (Suc (Suc m)) d1 = receive_loop (Suc m) d2" "same_dev d1 d2"
    "reads d2 = reads d + length p + 9" "RxLen d2 = ?n" "RXBuff d2 = RXBuff d1"
    "ubRssi d2 = sint r - sint (axradio_phy_rssioffset (config d))"
    unfolding c1 1(3,4) fd(7) by (auto simp del: receive_loop.simps)
  have "\<exists>e. receive_loop (Suc m) d2 = Some e \<and> same_rx d2 e \<and> same_dev d2 e"
    by (rule receive_end) (simp only: same_dev_chip(1) [OF 2(2)] c1 2(3) fd)
  then obtain d3 where 3: "receive_loop (Suc m) d2 = Some d3" "same_rx d2 d3" by blast
  have "map (\<lambda>i. chip d (reads d + 5 + i) 0x29) [0..<length p] = p"
    using fd(4) by (intro nth_equalityI) auto
  moreover have "ReceiveData fuel d = Some d3"
    using 1(1) 2(1) 3(1) by (simp add: ReceiveData_def d0_def)
  ultimately show ?thesis
    using assms(2) 3(2) by (simp add: irq_device_def continuous_on listening_rx same_rx_def 1 2)
qed

text \<open>The first 29 bytes of a packet are what is on the air; the rest of the buffer is zero.\<close>

lemma packet_on_air:
  assumes "0 \<le> sint target" and "sint target < 10 ^ 8" and "0 \<le> sint self" and "sint self < 10 ^ 8"
    and "control < 100" and "val < 100"
  defines "p \<equiv> take 29 (packet target self control val)"
  shows "length p = 29" and "p @ replicate 35 0 = packet target self control val"
proof -
  let ?f = "map byte_of (frame CHR ''S'' target self control val)"
  have len: "length ?f = 27"
    using packet_parsed(1) [OF assms(1-6)] by (simp add: packet_def)
  then have p: "p = 29 # ?f @ [0]"
    by (simp add: p_def packet_def take_Cons' flip: replicate_Suc) (simp add: numeral_eq_Suc)
  show "length p = 29" using len by (simp add: p)
  show "p @ replicate 35 0 = packet target self control val"
    by (simp add: p packet_def flip: replicate_Suc)
qed

text \<open>C2: From the antenna to the application: when the chip of the 433 link reports the peer's
  frame with a signal strength behind it, one interrupt in the receive state copies the packet,
  parses it and acts on it: the link has received, with that signal strength (less the offset of
  64) and its level, the valve takes the requested position if the command is at most 2, the
  other link is untouched, and the receiver is on again.\<close>

theorem radio_receive_complete:
  fixes s :: "('e, 'a) file_app_scheme" and E :: "'e storage_ops"
  assumes "0 \<le> sint (Self_ID s)" and "sint (Self_ID s) < 10 ^ 8" and "0 \<le> sint (Target_ID s)"
    and "sint (Target_ID s) < 10 ^ 8" and "control < 100" and "val < 100"
    and "fifo_delivers (take 29 (packet (Self_ID s) (Target_ID s) control val)) r (rf_433 s)"
    and "ubRFState (rf_433 s) = trxstate_rx" and "axradio_phy_rssioffset (config (rf_433 s)) = 64"
    and "3 \<le> fuel"
  shows "\<exists>t. rf_433_task_turn E self fuel junk s = Some t \<and>
    info_433 t = (info_433 s)\<lparr>received := 1, rssi := sint r - 64, rssi_level := level_of (sint r - 64),
      testreceived := (if control = 1 then 1 else testreceived (info_433 s))\<rparr> \<and>
    Valve_Status t = (if control \<le> 2 then if val \<noteq> 0 then 1 else 0 else Valve_Status s) \<and>
    info_4068 t = info_4068 s"
proof -
  let ?p = "packet (Self_ID s) (Target_ID s) control val"
  note air = packet_on_air [OF assms(1-6)]
  obtain d where d: "irq_device fuel (rf_433 s) = Some d" "RXBuff d = ?p" "RxLen d = 29"
    "ubRssi d = sint r - 64"
    using device_receives [OF assms(7,8) _ assms(10)] air assms(9) by auto
  let ?s = "s\<lparr>rf_433 := d\<rparr>"
  have t: "rf_433_task_turn E self fuel junk s =
      Some (rf433_rx_callback E self junk (sint r - 64) ?p 29 ?s)"
    using assms(8) by (simp add: rf_433_task_turn_def d)
  have solve: "rf433_rx_callback E self junk (sint r - 64) ?p 29 ?s =
      Solve_433 E self junk (sint r - 64) ?p 28 ?s"
    by (rule rx_433_solve(1) [OF assms(1-6)])
  note c = uint_command [of control] word_of_int_uint [of val]
  note p = packet_parsed [OF assms(1-6)]
  have "28 \<noteq> (0 :: u8)" "unat (28 :: u8) \<le> length ?p" "?p ! (unat (28 :: u8) - 1) = byte_of CHR ''S''"
    using p(1,3) by simp_all
  from Solve_433_accept [OF this p(4) [of junk], of ?s E self "sint r - 64"] show ?thesis
    unfolding t solve by (simp add: c)
qed

section \<open>Start-up\<close>

text \<open>The chip answers: its scratch register reads back what is written into it.\<close>

definition chip_alive :: "ax5043 \<Rightarrow> bool" where
  "chip_alive d \<longleftrightarrow> (\<forall>n. chip d n 0x01 = 0x55)"

lemma reset_alive:
  assumes "chip_alive d" and "0 < fuel"
  shows "\<exists>e. Ax5043_Reset fuel d = Some e \<and> same_dev d e"
proof -
  obtain n where n: "fuel = Suc n" using assms(2) by (cases fuel) auto
  define x where "x = SpiWriteSingleAddressRegister REG_AX5043_SCRATCH 0x55
      (SpiWriteSingleAddressRegister REG_AX5043_PWRMODE 0x00 (Ax5043_Spi_Reset d))"
  have x: "same_dev d x" by (simp add: x_def)
  then have "\<forall>n. chip x n 0x01 = 0x55"
    using assms(1) same_dev_chip(1) [OF x] by (simp add: chip_alive_def)
  then have "scratch_loop fuel x = Some (snd (SpiReadSingleAddressRegister REG_AX5043_SCRATCH x))"
    by (simp add: n read_single)
  then have "Ax5043_Reset fuel d =
      Some (irq_pin_pulse (snd (SpiReadSingleAddressRegister REG_AX5043_SCRATCH x)))"
    by (simp add: Ax5043_Reset_def flip: x_def)
  then show ?thesis using x by simp
qed

lemma scratch_dead: "\<forall>n. chip d n 0x01 \<noteq> 0x55 \<Longrightarrow> scratch_loop fuel d = None"
  by (induction fuel arbitrary: d) (simp_all add: read_single)

lemma RadioXtalON_dev [simp]: "same_dev d (RadioXtalON e) = same_dev d e"
  by (rule dev.R_sub) (auto simp: RadioXtalON_def intro!: dev.seq_intro)

lemma RadioXtalON_state [simp]: "ubRFState (RadioXtalON e) = trxstate_wait_xtal"
  by (simp add: RadioXtalON_def Let_def case_prod_unfold)

lemma zero_fskdev_dev [simp]: "same_dev d (zero_fskdev e) = same_dev d e"
  by (simp add: zero_fskdev_def)

lemma startup_xtal:
  assumes "chip_alive d" and "0 < fuel"
  shows "\<exists>e. rf_startup_xtal fuel d = Some e \<and> ubRFState e = trxstate_wait_xtal \<and> same_dev d e"
proof -
  have o: "same_dev d (Ax5043_OFF d)" by simp
  then have "chip_alive (Ax5043_OFF d)" using assms(1) same_dev_chip(1) [OF o] by (simp add: chip_alive_def)
  from reset_alive [OF this assms(2)] obtain e where
    "Ax5043_Reset fuel (Ax5043_OFF d) = Some e" "same_dev (Ax5043_OFF d) e" by blast
  with same_dev_trans [OF o] show ?thesis
    by (simp add: rf_startup_xtal_def Let_def)
qed

lemma startup_dead:
  assumes "\<forall>n. chip d n 0x01 \<noteq> 0x55"
  shows "rf_startup_xtal fuel d = None"
proof -
  have "same_dev d (Ax5043_Spi_Reset (Ax5043_OFF d))" by simp
  from same_dev_chip(1) [OF this] show ?thesis
    using assms by (simp add: rf_startup_xtal_def Ax5043_Reset_def SpiWriteSingleAddressRegister_def
        scratch_dead)
qed

lemma startup_ranging [simp]:
  "same_dev d (rf_startup_ranging e) = same_dev d e"
  "ubRFState (rf_startup_ranging e) = trxstate_pll_ranging"
  by (simp_all add: rf_startup_ranging_def Let_def)

lemma receiver_on:
  "ubRFState (Ax5043ReceiverON d) = trxstate_rx"
  "last_write 0x02 (wire (Ax5043ReceiverON d)) = Some AX5043_PWRSTATE_FULL_RX"
  "last_write 0x07 (wire (Ax5043ReceiverON d)) = Some 0x01"
  "same_dev e (Ax5043ReceiverON d) = same_dev e d"
  by (simp_all add: Ax5043ReceiverON_def Let_def reg_io chip_decode_def long_header_def)
    (simp add: spi_send_def)

lemma startup_finish:
  assumes "axradio_phy_vcocalib (config d) = 0"
  shows "\<exists>e. init_finish fuel d = Some e \<and> ubRFState e = trxstate_rx \<and>
    last_write 0x02 (wire e) = Some AX5043_PWRSTATE_FULL_RX \<and> last_write 0x07 (wire e) = Some 0x01 \<and>
    same_dev d e"
proof -
  define d1 where "d1 = SpiWriteSingleAddressRegister REG_AX5043_IRQMASK1 0x00 (d\<lparr>ubRFState := trxstate_off\<rparr>)"
  have 1: "same_dev d d1" by (simp add: d1_def)
  obtain r d2 where 2: "SpiReadSingleAddressRegister REG_AX5043_PLLRANGINGA d1 = (r, d2)" by fastforce
  have "same_dev d d2" using 1 dev.R_read [of d REG_AX5043_PLLRANGINGA d1] 2 by simp
  then have c: "axradio_phy_vcocalib (config d2) = 0" "same_dev d (d2\<lparr>axradio_phy_chanpllrng := r\<rparr>)"
    using assms by (simp_all add: same_dev_def)
  have f: "\<exists>x g. rf_startup_finish fuel d = Some (x, g) \<and> same_dev d g"
    using c(1) unfolding rf_startup_finish_def Let_def d1_def [symmetric] 2
    using c(2) by simp
  then obtain x g where g: "rf_startup_finish fuel d = Some (x, g)" "same_dev d g" by blast
  then show ?thesis
    by (simp add: init_finish_def init_receiver_def vcoi_rng_get_def receiver_on)
qed

lemma start_433:
  fixes s :: "('e, 'a) task_app_scheme"
  assumes "chip_alive (rf_433 s)" and "0 < fuel"
  shows "\<exists>t. rf_433_start fuel s = Some t \<and> ubRFState (rf_433 t) = trxstate_wait_xtal \<and>
    config (rf_433 t) = rf_433_config_init \<and> RegValue (rf_433 t) = set_registers_433 \<and>
    chip (rf_433 t) = chip (rf_433 s) \<and> pin_isr t IRQ1 = Some (PIN_IRQ_MODE_RISING, 1) \<and>
    pin_isr_enabled t IRQ1"
proof -
  let ?d = "(rf_433 s)\<lparr>config := rf_433_config_init, RegValue := set_registers_433,
      TXRegValue := set_registers_tx_433, RXRegValue := set_registers_rx_433\<rparr>"
  have "chip_alive ?d" using assms(1) by (simp add: chip_alive_def)
  from startup_xtal [OF this assms(2)] obtain e where e: "rf_startup_xtal fuel ?d = Some e"
    "ubRFState e = trxstate_wait_xtal" "same_dev ?d e" by blast
  have "rf_433 (send_timer_create rf_433_send_timer (rf_433_sem_init s)) = rf_433 s"
    by (simp add: send_timer_create_def timer_init_def rf_433_sem_init_def sem_create_def upd_sem_def)
  then show ?thesis
    using e by (simp add: rf_433_start_def rf_433_init_begin_def Let_def case_prod_unfold malloc_ok_def
        IRQ1_Bounding_def rt_pin_irq_enable_def rt_pin_attach_irq_def rt_pin_mode_def same_dev_def)
qed

text \<open>C36: The radio comes up: with a chip that answers, \<open>rf_433_start\<close> returns to its first wait,
  with the interrupt handler attached; it sleeps until the crystal interrupt, sets the frequency
  and sleeps until the ranging interrupt, and then finishes with the receiver on. A chip whose
  scratch register never reads back keeps the start-up, and with it \<open>main\<close>, in its first loop
  for ever.\<close>

theorem radio_startup_complete:
  fixes s :: "('e, 'a) task_app_scheme" and E :: "'e storage_ops"
  shows "(chip_alive (rf_433 s) \<and> 0 < fuel \<longrightarrow>
     (\<exists>s1 s2 s3 s4. rf_433_start fuel s = Some s1 \<and> pin_isr s1 IRQ1 = Some (PIN_IRQ_MODE_RISING, 1) \<and>
        pin_isr_enabled s1 IRQ1 \<and> rf_433_init_ranging s1 = s1 \<and>
        rf_433_task_turn E self fuel junk s1 = Some s2 \<and>
        rf_433_init_end fuel (rf_433_init_ranging s2) = Some (rf_433_init_ranging s2) \<and>
        rf_433_task_turn E self fuel junk (rf_433_init_ranging s2) = Some s3 \<and>
        rf_433_init_end fuel s3 = Some s4 \<and> ubRFState (rf_433 s4) = trxstate_rx \<and>
        config (rf_433 s4) = rf_433_config_init \<and>
        last_write 0x02 (wire (rf_433 s4)) = Some AX5043_PWRSTATE_FULL_RX \<and>
        last_write 0x07 (wire (rf_433 s4)) = Some 0x01)) \<and>
    ((\<forall>n. chip (rf_433 s) n 0x01 \<noteq> 0x55) \<longrightarrow> rf_433_start fuel s = None)"
proof (intro conjI impI)
  assume a: "chip_alive (rf_433 s) \<and> 0 < fuel"
  obtain s1 where 1: "rf_433_start fuel s = Some s1" "ubRFState (rf_433 s1) = trxstate_wait_xtal"
    "config (rf_433 s1) = rf_433_config_init" "pin_isr s1 IRQ1 = Some (PIN_IRQ_MODE_RISING, 1)"
    "pin_isr_enabled s1 IRQ1"
    using start_433 [of s fuel] a by blast
  define d2 where "d2 = (SpiWriteSingleAddressRegister REG_AX5043_IRQMASK1 0x00 (rf_433 s1))
      \<lparr>ubRFState := trxstate_xtal_ready\<rparr>"
  let ?d3 = "rf_startup_ranging d2"
  define d4 where "d4 = (SpiWriteSingleAddressRegister REG_AX5043_IRQMASK1 0x00 ?d3)
      \<lparr>ubRFState := trxstate_pll_ranging_done\<rparr>"
  have "same_dev (rf_433 s1) d4" by (simp add: d4_def d2_def)
  then have c: "config d4 = rf_433_config_init" using 1(3) by (simp add: same_dev_def)
  obtain d5 where 5: "init_finish fuel d4 = Some d5" "ubRFState d5 = trxstate_rx"
    "last_write 0x02 (wire d5) = Some AX5043_PWRSTATE_FULL_RX" "last_write 0x07 (wire d5) = Some 0x01"
    "same_dev d4 d5"
    using startup_finish [of d4 fuel] c by (auto simp: rf_433_config_init_def)
  have 2: "rf_433_task_turn E self fuel junk s1 = Some (s1\<lparr>rf_433 := d2\<rparr>)"
    using 1(2) by (simp add: rf_433_task_turn_def irq_device_def d2_def)
  have 3: "rf_433_init_ranging (s1\<lparr>rf_433 := d2\<rparr>) = s1\<lparr>rf_433 := ?d3\<rparr>"
    by (simp add: rf_433_init_ranging_def d2_def)
  have 4: "rf_433_task_turn E self fuel junk (s1\<lparr>rf_433 := ?d3\<rparr>) = Some (s1\<lparr>rf_433 := d4\<rparr>)"
    by (simp add: rf_433_task_turn_def irq_device_def d4_def)
  have 6: "rf_433_init_end fuel (s1\<lparr>rf_433 := d4\<rparr>) = Some (s1\<lparr>rf_433 := d5\<rparr>)"
    using 5(1) by (simp add: rf_433_init_end_def d4_def)
  show "\<exists>s1 s2 s3 s4. rf_433_start fuel s = Some s1 \<and> pin_isr s1 IRQ1 = Some (PIN_IRQ_MODE_RISING, 1) \<and>
        pin_isr_enabled s1 IRQ1 \<and> rf_433_init_ranging s1 = s1 \<and>
        rf_433_task_turn E self fuel junk s1 = Some s2 \<and>
        rf_433_init_end fuel (rf_433_init_ranging s2) = Some (rf_433_init_ranging s2) \<and>
        rf_433_task_turn E self fuel junk (rf_433_init_ranging s2) = Some s3 \<and>
        rf_433_init_end fuel s3 = Some s4 \<and> ubRFState (rf_433 s4) = trxstate_rx \<and>
        config (rf_433 s4) = rf_433_config_init \<and>
        last_write 0x02 (wire (rf_433 s4)) = Some AX5043_PWRSTATE_FULL_RX \<and>
        last_write 0x07 (wire (rf_433 s4)) = Some 0x01"
    using 1 2 3 4 5 6 c same_dev_chip(2) [OF 5(5)]
    by (intro exI [of _ s1] exI [of _ "s1\<lparr>rf_433 := d2\<rparr>"] exI [of _ "s1\<lparr>rf_433 := d4\<rparr>"]
        exI [of _ "s1\<lparr>rf_433 := d5\<rparr>"])
      (simp add: rf_433_init_ranging_def [of s1] rf_433_init_end_def [of _ "s1\<lparr>rf_433 := ?d3\<rparr>"])
next
  assume a: "\<forall>n. chip (rf_433 s) n 0x01 \<noteq> 0x55"
  have "rf_433 (send_timer_create rf_433_send_timer (rf_433_sem_init s)) = rf_433 s"
    by (simp add: send_timer_create_def timer_init_def rf_433_sem_init_def sem_create_def upd_sem_def)
  then show "rf_433_start fuel s = None"
    using a by (simp add: rf_433_start_def rf_433_init_begin_def Let_def case_prod_unfold malloc_ok_def
        IRQ1_Bounding_def rt_pin_irq_enable_def rt_pin_attach_irq_def rt_pin_mode_def startup_dead)
qed

section \<open>Witnesses\<close>

text \<open>A chip that is always ready, and the desk with it.\<close>

definition ready_chip :: "nat \<Rightarrow> u16 \<Rightarrow> u8" where
  "ready_chip n a = (if a = 0x01 then 0x55 else if a = 0x12 then 0x26 else if a = 0x2D then 0xFF else 0)"

definition radio_desk :: "(nat \<Rightarrow> u16 \<Rightarrow> u8) \<Rightarrow> ram_disk file_app" where
  "radio_desk f = log_desk\<lparr>rf_433 := (demo_radio f)\<lparr>ubRFState := trxstate_rx\<rparr>,
     Queue_433 := (Queue_433 log_desk)\<lparr>NowNum := 1, TargetNum := 1\<rparr>\<rparr>"

lemma radio_desk_simps [simp]:
  "heap_oracle (radio_desk f) n" "Self_ID (radio_desk f) = 50000000" "Target_ID (radio_desk f) = 60000000"
  "NowNum (Queue_433 (radio_desk f)) = 1"
  "rf_433 (radio_desk f) = (demo_radio f)\<lparr>ubRFState := trxstate_rx\<rparr>" "Valve_Status (radio_desk f) = 2"
  by (simp_all add: radio_desk_def log_desk_def mutex_create_def upd_mutex_def disk_desk_def
      psi_app.defs psi_desk_def seg_app.defs seg_panel_def led_app.defs panel_def led_env.defs
      bench_def kern.defs idle_kern_def)

lemma demo_radio_simps [simp]:
  "chip (demo_radio f) = f" "config (demo_radio f) = demo_config" "length (TXBuff (demo_radio f)) = 64"
  "reads (demo_radio f) = 0"
  by (simp_all add: demo_radio_def)

theorem radio_never_stuck_witness:
  "last_write 0x02 (wire (send_timeout (Normal_send [1, 2, 3] 3 ((demo_radio ready_chip)
     \<lparr>ubRFState := trxstate_rx, RegValue := set_registers_433\<rparr>)))) = Some 0"
proof -
  let ?d = "(demo_radio ready_chip)\<lparr>ubRFState := trxstate_rx, RegValue := set_registers_433\<rparr>"
  have "radio_step\<^sup>*\<^sup>* ?d (Normal_send [1, 2, 3] 3 ?d)"
    by (rule r_into_rtranclp, rule radio_step.send)
  from radio_never_stuck [OF this] show ?thesis by simp
qed

theorem radio_send_complete_witness:
  "\<exists>s1. rf_433_task_turn ram_ops 7 3 zero_message (rf_433_Dequeue_send (radio_desk ready_chip)) = Some s1 \<and>
     last_write 0x02 (wire (rf_433 s1)) = Some AX5043_PWRSTATE_FULL_TX"
proof -
  obtain t c v where m: "q_slot (Queue_433 (radio_desk ready_chip))
      (unat (NowNum (Queue_433 (radio_desk ready_chip)))) = (t, c, v)" by (rule prod_cases3)
  have c: "chip_serves (rf_433 (radio_desk ready_chip))" "std_config (config (rf_433 (radio_desk ready_chip)))"
    by (simp_all add: chip_serves_def chip_ready_def ready_chip_def std_config_def demo_config_def)
  show ?thesis
    using radio_send_complete [OF _ _ m c, of 3 ram_ops 7 zero_message] by auto
qed

definition packet_chip :: "u8 list \<Rightarrow> nat \<Rightarrow> u16 \<Rightarrow> u8" where
  "packet_chip p n a =
     (if a = 0x0D then if n = 1 \<or> n = 35 then 1 else 0
      else if a = 0x29
      then if n = 2 then 0xE1 else if n = 3 then 30 else if n = 36 then 0x31 else if n = 37 then 200
           else if 5 \<le> n \<and> n < 34 then p ! (n - 5) else 0
      else 0)"

theorem radio_receive_complete_witness:
  "\<exists>t. rf_433_task_turn ram_ops 7 3 zero_message
      (radio_desk (packet_chip (packet 50000000 60000000 0 1))) = Some t \<and> Valve_Status t = 1"
proof -
  let ?p = "packet 50000000 60000000 0 1" and ?s = "radio_desk (packet_chip (packet 50000000 60000000 0 1))"
  have l: "length (take 29 ?p) = 29"
    by (rule packet_on_air(1)) simp_all
  have d: "fifo_delivers (take 29 (packet (Self_ID ?s) (Target_ID ?s) 0 1)) 200 (rf_433 ?s)"
    using l by (simp add: fifo_delivers_def Let_def packet_chip_def)
  show ?thesis
    using radio_receive_complete [OF _ _ _ _ _ _ d, of 3 ram_ops 7 zero_message]
    by (auto simp: demo_config_def)
qed

definition task_desk :: "(nat \<Rightarrow> u16 \<Rightarrow> u8) \<Rightarrow> ram_disk task_app" where
  "task_desk f = button_app.extend
     (heart_app.extend (file_app.extend (radio_desk f)
       \<lparr>rf_now = 1, heart_mode = 0, rand_time = 0, heart_info = None\<rparr>) \<lparr>test_btn = None\<rparr>)
     \<lparr>pin_isr = Map.empty, pin_isr_enabled = (\<lambda>_. False)\<rparr>"

lemma task_desk_radio [simp]: "rf_433 (task_desk f) = (demo_radio f)\<lparr>ubRFState := trxstate_rx\<rparr>"
  by (simp add: task_desk_def button_app.defs heart_app.defs file_app.defs)

theorem radio_startup_complete_witness:
  "(\<exists>s1. rf_433_start 1 (task_desk ready_chip) = Some s1 \<and> pin_isr_enabled s1 IRQ1) \<and>
   rf_433_start 1000 (task_desk (\<lambda>n a. 0)) = None"
  using radio_startup_complete [of "task_desk ready_chip" 1 ram_ops 7 zero_message]
    radio_startup_complete [of "task_desk (\<lambda>n a. 0)" 1000 ram_ops 7 zero_message]
  by (auto simp: chip_alive_def ready_chip_def)

end
