(* ===== verification/Start_Up.thy ===== *)
theory Start_Up
  imports Radio_Task
begin

text \<open>
  The start of the program: \<open>applications/main.c\<close>. \<open>main\<close> calls the initialisations in order;
  those of the radios sleep until the interrupt threads have taken the two steps of their chips,
  so \<open>main\<close> is a machine with a program counter whose turns are interleaved with the interrupts.
  The packages are initialised before \<open>main\<close> by their \<open>INIT_APP_EXPORT\<close> functions.
  \<open>flash_Init\<close> does not change anything of the state modelled here, and \<open>seg_init\<close> only
  creates a thread.
\<close>

section \<open>The main thread\<close>

datatype main_pc = Main_start | Main_433_xtal | Main_433_ranging | Main_4068_xtal
  | Main_4068_ranging | Main_loop

text \<open>What follows the radios; \<open>addr\<close> and \<open>b\<close> are the addresses \<open>rt_malloc\<close> returns.\<close>

definition main_rest ::
  "(led_id \<Rightarrow> nat) \<Rightarrow> nat \<Rightarrow> ('e, 'a) task_app_scheme \<Rightarrow> ('e, 'a) task_app_scheme" where
  "main_rest addr b s =
     RadioQueueInit (psi_init (button_init b (heart_init (warn_init (led_Init addr s)))))"

definition main_turn ::
  "'e storage_ops \<Rightarrow> nat \<Rightarrow> (led_id \<Rightarrow> nat) \<Rightarrow> nat \<Rightarrow> main_pc \<times> ('e, 'a) task_app_scheme
     \<Rightarrow> (main_pc \<times> ('e, 'a) task_app_scheme) option" where
  "main_turn E fuel addr b = (\<lambda>(pc, s). case pc of
       Main_start \<Rightarrow> map_option (Pair Main_433_xtal) (rf_433_start fuel (ID_Init E s))
     | Main_433_xtal \<Rightarrow>
         Some (if ubRFState (rf_433 s) = trxstate_wait_xtal then Main_433_xtal else Main_433_ranging,
               rf_433_init_ranging s)
     | Main_433_ranging \<Rightarrow>
         if ubRFState (rf_433 s) = trxstate_pll_ranging then Some (Main_433_ranging, s)
         else (case rf_433_init_end fuel s of
             None \<Rightarrow> None
           | Some s1 \<Rightarrow> map_option (Pair Main_4068_xtal) (rf_4068_start fuel s1))
     | Main_4068_xtal \<Rightarrow>
         Some (if ubRFState (rf_4068 s) = trxstate_wait_xtal then Main_4068_xtal else Main_4068_ranging,
               rf_4068_Init_ranging s)
     | Main_4068_ranging \<Rightarrow>
         if ubRFState (rf_4068 s) = trxstate_pll_ranging then Some (Main_4068_ranging, s)
         else map_option (\<lambda>s1. (Main_loop, main_rest addr b s1)) (rf_4068_Init_end fuel s)
     | Main_loop \<Rightarrow> Some (Main_loop, s))"

datatype main_event = Turn | Irq_433 | Irq_4068

fun main_run ::
  "'e storage_ops \<Rightarrow> nat \<Rightarrow> (led_id \<Rightarrow> nat) \<Rightarrow> nat \<Rightarrow> nat \<Rightarrow> rx_message \<Rightarrow> main_event list
     \<Rightarrow> main_pc \<times> ('e, 'a) task_app_scheme \<Rightarrow> (main_pc \<times> ('e, 'a) task_app_scheme) option" where
  "main_run E fuel addr b self junk [] c = Some c"
| "main_run E fuel addr b self junk (Turn # es) c =
     Option.bind (main_turn E fuel addr b c) (main_run E fuel addr b self junk es)"
| "main_run E fuel addr b self junk (Irq_433 # es) (pc, s) =
     Option.bind (rf_433_task_turn E self fuel junk s)
       (\<lambda>t. main_run E fuel addr b self junk es (pc, t))"
| "main_run E fuel addr b self junk (Irq_4068 # es) (pc, s) =
     Option.bind (rf_4068_task_turn E self fuel junk s)
       (\<lambda>t. main_run E fuel addr b self junk es (pc, t))"

section \<open>The initialisations behind the radios\<close>

lemma leds_ready_cong:
  fixes s t :: "'a led_app_scheme"
  assumes "handle t = handle s" and "heap_oracle t = heap_oracle s" and "leds t = leds s"
  shows "leds_ready t = leds_ready s"
  using assms by (simp add: leds_ready_def)

lemma button_init_eq:
  assumes "btn_is_init s" and "\<forall>n. heap_oracle s n"
  shows "button_init b s = s\<lparr>heap_calls := Suc (heap_calls s), btns := (btns s)(b \<mapsto> test_button (tick s)),
    btn_list := btn_list s @ [b], pin_mode := (pin_mode s)(SW1 := PIN_MODE_INPUT_PULLUP),
    test_btn := Some b\<rparr>"
  using assms
  by (simp add: button_init_def agile_btn_create_def with_test_btn_def Let_def malloc_ok_def
      agile_btn_set_elimination_time_def agile_btn_set_hold_cycle_time_def
      agile_btn_set_event_cb_def agile_btn_start_def put_btn_def rt_pin_mode_def new_btn_def
      test_button_def)

lemma kern_more_app:
  fixes s t :: "('e, 'a) task_app_scheme"
  assumes "kern.more t = kern.more s"
  shows "handle t = handle s" "heap_oracle t = heap_oracle s" "leds t = leds s"
    "btn_is_init t = btn_is_init s" "rf_now t = rf_now s" "heart_mode t = heart_mode s"
    "heart_info t = heart_info s" "info_433 t = info_433 s" "info_4068 t = info_4068 s"
    "rf_433 t = rf_433 s" "rf_4068 t = rf_4068 s" "test_btn t = test_btn s"
    "pin_isr t = pin_isr s" "pin_isr_enabled t = pin_isr_enabled s" "btns t = btns s"
    "btn_list t = btn_list s" "led_is_init t = led_is_init s" "mem_fault t = mem_fault s"
  using assms by (cases s; cases t; simp)+

lemma heart_init_eq:
  fixes s :: "('e, 'a) task_app_scheme"
  shows "kern.more (heart_init s) =
    kern.more (s\<lparr>info_433 := (info_433 s)\<lparr>freq := 433\<rparr>, info_4068 := (info_4068 s)\<lparr>freq := 4068\<rparr>\<rparr>)"
  by (simp add: heart_init_def Let_def sem_create_def mutex_create_def timer_init_def)

section \<open>The radios\<close>

lemma boot_device:
  assumes "ubRFState d1 = trxstate_wait_xtal" and "axradio_phy_vcocalib (config d1) = 0"
  obtains d2 d4 d5 where "irq_device fuel d1 = Some d2" "ubRFState d2 = trxstate_xtal_ready"
    "irq_device fuel (rf_startup_ranging d2) = Some d4" "ubRFState d4 = trxstate_pll_ranging_done"
    "init_finish fuel d4 = Some d5" "ubRFState d5 = trxstate_rx"
    "last_write 0x02 (wire d5) = Some AX5043_PWRSTATE_FULL_RX" "last_write 0x07 (wire d5) = Some 0x01"
    "same_dev d1 d5"
proof -
  define d2 where "d2 = (SpiWriteSingleAddressRegister REG_AX5043_IRQMASK1 0x00 d1)
      \<lparr>ubRFState := trxstate_xtal_ready\<rparr>"
  define d4 where "d4 = (SpiWriteSingleAddressRegister REG_AX5043_IRQMASK1 0x00 (rf_startup_ranging d2))
      \<lparr>ubRFState := trxstate_pll_ranging_done\<rparr>"
  have 4: "same_dev d1 d4" by (simp add: d4_def d2_def)
  then have "axradio_phy_vcocalib (config d4) = 0" using assms(2) by (simp add: same_dev_def)
  from startup_finish [OF this, of fuel] obtain d5 where
    5: "init_finish fuel d4 = Some d5" "ubRFState d5 = trxstate_rx"
    "last_write 0x02 (wire d5) = Some AX5043_PWRSTATE_FULL_RX" "last_write 0x07 (wire d5) = Some 0x01"
    "same_dev d4 d5" by blast
  show thesis
    by (rule that [of d2 d4 d5]) (use assms(1) 5 same_dev_trans [OF 4 5(5)] in
      \<open>simp_all add: irq_device_def d2_def d4_def\<close>)
qed

text \<open>What the later initialisations need of the state, and what the earlier ones leave alone.\<close>

definition boots :: "('e, 'a) task_app_scheme \<Rightarrow> ('e, 'a) task_app_scheme \<Rightarrow> bool" where
  "boots s t \<longleftrightarrow> led_is_init t = led_is_init s \<and> btn_is_init t = btn_is_init s \<and>
     heap_oracle t = heap_oracle s \<and> rf_now t = rf_now s \<and> heart_mode t = heart_mode s \<and>
     heart_info t = heart_info s \<and> info_433 t = info_433 s \<and> info_4068 t = info_4068 s"

lemma boots_trans: "boots s t \<Longrightarrow> boots t u \<Longrightarrow> boots s u"
  by (simp add: boots_def)

lemma flash_change_boots:
  fixes s :: "('e, 'a) task_app_scheme"
  shows "boots s (flash_change E k v s) \<and> rf_433 (flash_change E k v s) = rf_433 s \<and>
    rf_4068 (flash_change E k v s) = rf_4068 s"
  by (simp add: flash_change_def malloc_ok_def boots_def)

lemma csv_init_boots:
  fixes s :: "('e, 'a) task_app_scheme"
  shows "boots s (csv_top_init E s) \<and> rf_433 (csv_top_init E s) = rf_433 s \<and>
    rf_4068 (csv_top_init E s) = rf_4068 s"
    and "boots s (csv_down_init E s) \<and> rf_433 (csv_down_init E s) = rf_433 s \<and>
    rf_4068 (csv_down_init E s) = rf_4068 s"
  by (simp_all add: csv_top_init_def csv_down_init_def write_csv_top_def write_csv_down_def
      append_file_def malloc_ok_def boots_def case_prod_unfold Let_def)

lemma ID_Init_boots:
  fixes s :: "('e, 'a) task_app_scheme"
  shows "boots s (ID_Init E s) \<and> rf_433 (ID_Init E s) = rf_433 s \<and> rf_4068 (ID_Init E s) = rf_4068 s"
proof -
  let ?m = "mutex_create spsi_read_mutex RT_IPC_FLAG_PRIO s"
  have m: "boots s ?m \<and> rf_433 ?m = rf_433 s \<and> rf_4068 ?m = rf_4068 s"
    by (simp add: mutex_create_def upd_mutex_def boots_def)
  show ?thesis
  proof (cases "Flash_Get_Boot E ?m = 0")
    case True
    let ?a = "(Flash_Boot_Change E 1 ?m)\<lparr>Global_Nums := 0\<rparr>"
    let ?b = "Flash_IDNums_Change E 0 ?a"
    have "boots ?m ?a \<and> rf_433 ?a = rf_433 ?m \<and> rf_4068 ?a = rf_4068 ?m"
      using flash_change_boots [of ?m E "''boot_times''" 1] by (simp add: Flash_Boot_Change_def boots_def)
    moreover have "boots ?a ?b \<and> rf_433 ?b = rf_433 ?a \<and> rf_4068 ?b = rf_4068 ?a"
      unfolding Flash_IDNums_Change_def by (rule flash_change_boots)
    moreover note csv_init_boots(1) [of ?b E] csv_init_boots(2) [of "csv_top_init E ?b" E]
    moreover have "ID_Init E s = csv_down_init E (csv_top_init E ?b)"
      using True by (simp add: ID_Init_def Let_def)
    ultimately show ?thesis using m by (simp add: boots_def)
  next
    case False
    then show ?thesis using m by (simp add: ID_Init_def Let_def boots_def)
  qed
qed

lemma start_433_boots:
  fixes s :: "('e, 'a) task_app_scheme"
  assumes "rf_433_start fuel s = Some t"
  shows "boots s t \<and> rf_4068 t = rf_4068 s"
  using assms
  by (auto simp: rf_433_start_def rf_433_init_begin_def Let_def case_prod_unfold malloc_ok_def
      IRQ1_Bounding_def rt_pin_irq_enable_def rt_pin_attach_irq_def rt_pin_mode_def boots_def
      send_timer_create_def timer_init_def rf_433_sem_init_def sem_create_def upd_sem_def)

lemma start_4068_boots:
  fixes s :: "('e, 'a) task_app_scheme"
  assumes "rf_4068_start fuel s = Some t"
  shows "boots s t \<and> rf_433 t = rf_433 s \<and> pin_isr_enabled t IRQ1 = pin_isr_enabled s IRQ1"
  using assms
  by (auto simp: rf_4068_start_def rf_4068_Init_begin_def Let_def case_prod_unfold malloc_ok_def
      IRQ2_Bounding_def rt_pin_irq_enable_def rt_pin_attach_irq_def rt_pin_mode_def boots_def
      send_timer_create_def timer_init_def rf_4068_sem_init_def sem_create_def upd_sem_def
      IRQ1_def IRQ2_def)

lemma start_4068:
  fixes s :: "('e, 'a) task_app_scheme"
  assumes "chip_alive (rf_4068 s)" and "0 < fuel"
  shows "\<exists>t. rf_4068_start fuel s = Some t \<and> ubRFState (rf_4068 t) = trxstate_wait_xtal \<and>
    config (rf_4068 t) = rf_4068_config_init \<and> RegValue (rf_4068 t) = set_registers_4068 \<and>
    pin_isr_enabled t IRQ2"
proof -
  let ?d = "(rf_4068 s)\<lparr>config := rf_4068_config_init, RegValue := set_registers_4068,
      TXRegValue := set_registers_tx_4068, RXRegValue := set_registers_rx_4068\<rparr>"
  have "chip_alive ?d" using assms(1) by (simp add: chip_alive_def)
  from startup_xtal [OF this assms(2)] obtain e where e: "rf_startup_xtal fuel ?d = Some e"
    "ubRFState e = trxstate_wait_xtal" "same_dev ?d e" by blast
  have "rf_4068 (send_timer_create rf_4068_send_timer (rf_4068_sem_init s)) = rf_4068 s"
    by (simp add: send_timer_create_def timer_init_def rf_4068_sem_init_def sem_create_def upd_sem_def)
  then show ?thesis
    using e by (simp add: rf_4068_start_def rf_4068_Init_begin_def Let_def case_prod_unfold malloc_ok_def
        IRQ2_Bounding_def rt_pin_irq_enable_def rt_pin_attach_irq_def rt_pin_mode_def same_dev_def)
qed

section \<open>Behind the radios\<close>

lemma led_create_frame:
  "btn_is_init (led_create addr im s) = btn_is_init s" "led_app.more (led_create addr im s) = led_app.more s"
  by (simp_all add: led_create_def agile_led_create_def agile_led_get_light_arr_def malloc_ok_def
      put_led_def rt_pin_mode_def rt_pin_write_def assert_fail_def Let_def case_prod_unfold)

lemma led_creates_frame:
  "btn_is_init (fold (led_create addr) tab s) = btn_is_init s \<and>
    led_app.more (fold (led_create addr) tab s) = led_app.more s"
  by (induction tab arbitrary: s) (simp_all add: led_create_frame)

lemma run_leds_init:
  fixes s :: "'a led_app_scheme"
  shows "btn_is_init (run_leds cs s) = btn_is_init s"
proof -
  have "btn_is_init (run_led c u) = btn_is_init u" for c and u :: "'a led_app_scheme"
  proof -
    have "led_env.more (run_led c u) = led_env.more u"
      by (cases c) (auto simp: with_led_def led_ops_more split: option.splits)
    then show ?thesis by (cases u; cases "run_led c u"; simp)
  qed
  then show ?thesis by (induction cs arbitrary: s) (simp_all add: run_leds_def)
qed

lemma psi_led_init_run: "\<exists>cs. psi_led_init s = run_leds cs s"
  by (auto simp: psi_led_init_def led_group_defs)

lemma led_Init_frame:
  fixes s :: "'a psi_app_scheme"
  shows "btn_is_init (led_Init addr s) = btn_is_init s" and "led_app.more (led_Init addr s) = led_app.more s"
proof -
  let ?s = "fold (led_create addr) led_table s"
  obtain cs where "led_Init addr s = run_leds cs ?s"
    using psi_led_init_run [of ?s] by (auto simp: led_Init_def)
  then show "btn_is_init (led_Init addr s) = btn_is_init s" and "led_app.more (led_Init addr s) = led_app.more s"
    using led_creates_frame [of addr led_table s] by (simp_all add: run_leds_init run_leds_more)
qed

lemma led_more_app:
  fixes s t :: "('e, 'a) task_app_scheme"
  assumes "led_app.more t = led_app.more s"
  shows "rf_now t = rf_now s" "heart_mode t = heart_mode s" "heart_info t = heart_info s"
    "info_433 t = info_433 s" "info_4068 t = info_4068 s" "rf_433 t = rf_433 s" "rf_4068 t = rf_4068 s"
  using assms by (cases s; cases t; simp)+

lemma all_links: "(\<forall>l. P l) \<longleftrightarrow> P Link_433 \<and> P Link_4068"
  by (metis link.exhaust)

lemma main_rest_ok:
  fixes s t :: "('e, 'a) task_app_scheme"
  assumes "led_is_init s" and "btn_is_init s" and "\<forall>n. heap_oracle s n" and "inj addr"
    and "rf_now s = 0" and "heart_mode s = 0" and "retry (info_433 s) = 0" and "retry (info_4068 s) = 0"
    and t: "t = main_rest addr b s"
  shows "leds_ready t \<and> heart_ok t \<and> test_btn t = Some b \<and> b \<in> set (btn_list t) \<and>
    (\<exists>n. btns t b = Some (test_button n)) \<and> Self_ID t = Default_Self_ID \<and> Target_ID t = Default_Target_ID \<and>
    rf_433 t = rf_433 s \<and> rf_4068 t = rf_4068 s \<and> timer_active (timers t connect_timer)"
proof -
  let ?l = "led_Init addr s"
  have l: "leds_ready ?l" by (rule led_Init_ready [OF assms(1,3,4)])
  note lm = led_more_app [OF led_Init_frame(2) [of addr s]]
  let ?w = "warn_init ?l"
  have w: "kern.more ?w = kern.more ?l" by (simp add: warn_init_def event_init_def)
  let ?h = "heart_init ?w"
  note hw = kern_more_app [OF w] and hh = kern_more_app [OF heart_init_eq [of ?w]]
  have h: "heap_oracle ?h = heap_oracle ?l" "btn_is_init ?h" "handle ?h = handle ?l" "leds ?h = leds ?l"
    "rf_now ?h = 0" "heart_mode ?h = 0" "retry (info_433 ?h) = 0" "retry (info_4068 ?h) = 0"
    "rf_433 ?h = rf_433 s" "rf_4068 ?h = rf_4068 s"
    using assms(2,5-8) led_Init_frame(1) [of addr s] by (simp_all add: hw hh lm)
  have "\<forall>n. heap_oracle ?h n" using h(1) l by (simp add: leds_ready_def)
  note b = button_init_eq [OF h(2) this, of b]
  have c: "timer_active (timers ?h connect_timer)"
    by (simp add: heart_init_def Let_def rt_timer_start_arm RT_TICK_MAX_def timer_init_def
        connect_timer_def heart_timer_def sem_create_def upd_sem_def)
  show ?thesis
    using l h c leds_ready_cong [of t ?l]
    unfolding t main_rest_def b
    by (simp add: RadioQueueInit_def psi_init_def timer_init_def sem_create_def upd_sem_def
        rt_pin_mode_def heart_ok_def leds_ready_def psi_timer_def connect_timer_def all_links) blast
qed

section \<open>The whole start-up\<close>

definition boot_schedule :: "main_event list" where
  "boot_schedule = [Turn, Irq_433, Turn, Irq_433, Turn, Irq_4068, Turn, Irq_4068, Turn]"

text \<open>C18: The program starts: from the zero-initialised state, with the two packages initialised,
  memory, and two chips that answer, \<open>main\<close> reaches its final loop with nothing but the four
  interrupts of the chips, two for each. Then both receivers are on, every light and the buzzer
  are usable, the link supervision is in a legal state with its start-up timer running, the test
  button is being scanned, and the identifiers are set.\<close>

theorem main_reaches_loop:
  fixes s :: "('e, 'a) task_app_scheme" and E :: "'e storage_ops"
  assumes "led_is_init s" and "btn_is_init s" and "\<forall>n. heap_oracle s n" and "inj addr"
    and "rf_now s = 0" and "heart_mode s = 0" and "retry (info_433 s) = 0" and "retry (info_4068 s) = 0"
    and "chip_alive (rf_433 s)" and "chip_alive (rf_4068 s)" and "0 < fuel"
  shows "\<exists>t. main_run E fuel addr b self junk boot_schedule (Main_start, s) = Some (Main_loop, t) \<and>
    ubRFState (rf_433 t) = trxstate_rx \<and> ubRFState (rf_4068 t) = trxstate_rx \<and>
    last_write 0x02 (wire (rf_433 t)) = Some AX5043_PWRSTATE_FULL_RX \<and>
    last_write 0x02 (wire (rf_4068 t)) = Some AX5043_PWRSTATE_FULL_RX \<and>
    leds_ready t \<and> heart_ok t \<and> timer_active (timers t connect_timer) \<and>
    test_btn t = Some b \<and> b \<in> set (btn_list t) \<and> (\<exists>n. btns t b = Some (test_button n)) \<and>
    Self_ID t = Default_Self_ID \<and> Target_ID t = Default_Target_ID"
proof -
  let ?s0 = "ID_Init E s"
  note i0 = ID_Init_boots [of s E]
  have "chip_alive (rf_433 ?s0)" using assms(9) i0 by simp
  from start_433 [OF this assms(11)] obtain s1 where
    1: "rf_433_start fuel ?s0 = Some s1" "ubRFState (rf_433 s1) = trxstate_wait_xtal"
    "config (rf_433 s1) = rf_433_config_init" by blast
  note i1 = start_433_boots [OF 1(1)]
  have "axradio_phy_vcocalib (config (rf_433 s1)) = 0" by (simp add: 1(3) rf_433_config_init_def)
  from boot_device [OF 1(2) this, of fuel] obtain d2 d4 d5 where
    d: "irq_device fuel (rf_433 s1) = Some d2" "ubRFState d2 = trxstate_xtal_ready"
    "irq_device fuel (rf_startup_ranging d2) = Some d4" "ubRFState d4 = trxstate_pll_ranging_done"
    "init_finish fuel d4 = Some d5" "ubRFState d5 = trxstate_rx"
    "last_write 0x02 (wire d5) = Some AX5043_PWRSTATE_FULL_RX" by metis
  let ?s5 = "s1\<lparr>rf_433 := d5\<rparr>"
  have "chip_alive (rf_4068 ?s5)" using assms(10) i0 i1 by simp
  from start_4068 [OF this assms(11)] obtain s6 where
    6: "rf_4068_start fuel ?s5 = Some s6" "ubRFState (rf_4068 s6) = trxstate_wait_xtal"
    "config (rf_4068 s6) = rf_4068_config_init" by blast
  note i6 = start_4068_boots [OF 6(1)]
  have "axradio_phy_vcocalib (config (rf_4068 s6)) = 0" by (simp add: 6(3) rf_4068_config_init_def)
  from boot_device [OF 6(2) this, of fuel] obtain e2 e4 e5 where
    e: "irq_device fuel (rf_4068 s6) = Some e2" "ubRFState e2 = trxstate_xtal_ready"
    "irq_device fuel (rf_startup_ranging e2) = Some e4" "ubRFState e4 = trxstate_pll_ranging_done"
    "init_finish fuel e4 = Some e5" "ubRFState e5 = trxstate_rx"
    "last_write 0x02 (wire e5) = Some AX5043_PWRSTATE_FULL_RX" by metis
  let ?s9 = "s6\<lparr>rf_4068 := e5\<rparr>" and ?t = "main_rest addr b (s6\<lparr>rf_4068 := e5\<rparr>)"
  have run: "main_run E fuel addr b self junk boot_schedule (Main_start, s) = Some (Main_loop, ?t)"
    using 1 d 6 e
    by (simp add: boot_schedule_def main_turn_def rf_433_task_turn_def rf_4068_task_turn_def
        rf_433_init_ranging_def rf_433_init_end_def rf_4068_Init_ranging_def rf_4068_Init_end_def)
  have "boots s s6" "rf_433 ?s9 = d5" "rf_4068 ?s9 = e5"
    using i0 i1 i6 by (simp_all add: boots_def)
  with main_rest_ok [where s = ?s9 and t = ?t and addr = addr and b = b, OF _ _ _ assms(4) _ _ _ _ refl]
    run d(6,7) e(6,7) assms(1-3,5-8)
  show ?thesis by (intro exI [of _ ?t]) (simp add: boots_def)
qed

definition boot_desk :: "ram_disk task_app" where
  "boot_desk = (task_desk ready_chip)\<lparr>rf_now := 0, rf_4068 := demo_radio ready_chip\<rparr>"

theorem main_reaches_loop_witness:
  "\<exists>t. main_run ram_ops 1 (\<lambda>i. unat (led_pin i)) 99 7 zero_message boot_schedule (Main_start, boot_desk) =
     Some (Main_loop, t) \<and> leds_ready t"
proof -
  have s: "led_is_init boot_desk" "btn_is_init boot_desk" "\<forall>n. heap_oracle boot_desk n"
    "rf_now boot_desk = 0" "heart_mode boot_desk = 0" "retry (info_433 boot_desk) = 0"
    "retry (info_4068 boot_desk) = 0"
    by (simp_all add: boot_desk_def task_desk_def button_app.defs heart_app.defs file_app.defs
        radio_desk_def log_desk_def mutex_create_def upd_mutex_def disk_desk_def psi_app.defs
        psi_desk_def seg_app.defs seg_panel_def led_app.defs panel_def led_env.defs bench_def
        kern.defs idle_kern_def)
  have a: "chip_alive (rf_433 boot_desk)" "chip_alive (rf_4068 boot_desk)"
    by (simp_all add: boot_desk_def chip_alive_def ready_chip_def)
  have "inj (\<lambda>i. unat (led_pin i))" by (simp add: inj_def led_pin_inj flip: word_unat_eq_iff)
  from main_reaches_loop [OF s(1-3) this s(4-7) a, of 1 ram_ops 99 7 zero_message] show ?thesis
    by auto
qed

end
