(* ===== verification/Timer_Check.thy ===== *)
theory Timer_Check
  imports Ipc
begin

text \<open>
  The periodic check of the hard timers (\<open>rt_timer_check\<close> of \<open>rt-thread/src/timer.c\<close>, called on
  every tick) and what it does to sleeping threads, whose timers call \<open>rt_thread_timeout\<close>. The
  check is compared with a reference: one pass that fires the due timers in order of expiry.
\<close>

section \<open>Callbacks that leave the timers alone\<close>

text \<open>The reference: fire one timer, a one-shot timer on the hard list.\<close>

definition fire_timer ::
  "(nat \<Rightarrow> 'a timer_sys_scheme \<Rightarrow> 'a timer_sys_scheme) \<Rightarrow> nat \<Rightarrow> 'a timer_sys_scheme \<Rightarrow> 'a timer_sys_scheme" where
  "fire_timer cb t s =
     (let s3 = cb t ((upd_timer t clear_active (timer_remove t s))\<lparr>hard_tmp := [t]\<rparr>)
      in s3\<lparr>hard_tmp := []\<rparr>)"

definition timer_due :: "'a timer_sys_scheme \<Rightarrow> nat \<Rightarrow> bool" where
  "timer_due s t \<longleftrightarrow> tick_due (tick s) (timeout_tick (timers s t))"

text \<open>A callback may do anything, except to the timers; it may run into an assertion.\<close>

locale timer_callbacks =
  fixes cb :: "nat \<Rightarrow> 'a timer_sys_scheme \<Rightarrow> 'a timer_sys_scheme"
  assumes cb_tick [simp]: "tick (cb t s) = tick s"
    and cb_timers [simp]: "timers (cb t s) = timers s"
    and cb_hard [simp]: "timer_list (cb t s) = timer_list s"
    and cb_soft [simp]: "soft_timer_list (cb t s) = soft_timer_list s"
    and cb_hard_tmp [simp]: "hard_tmp (cb t s) = hard_tmp s"
    and cb_soft_tmp [simp]: "soft_tmp (cb t s) = soft_tmp s"
begin

lemma fire_simps [simp]:
  "tick (fire_timer cb t s) = tick s" "hard_tmp (fire_timer cb t s) = []"
  "timer_list (fire_timer cb t s) = remove1 t (timer_list s)"
  "timers (fire_timer cb t s) = (timers s)(t := clear_active (timers s t))"
  "soft_timer_list (fire_timer cb t s) = remove1 t (soft_timer_list s)"
  by (simp_all add: fire_timer_def Let_def upd_timer_def timer_remove_def)

lemma check_turn_fires:
  assumes "timer_list s = t # ts" and "timer_due s t" and "hard_tmp s = []"
    and "\<not> timer_periodic (timers s t)"
  shows "timer_check_turn cb (tick s, s) = Some (tick s, fire_timer cb t s)"
  using assms
  by (simp add: timer_check_turn_def Let_def timer_due_def tick_due_def fire_timer_def)

lemma check_turn_stops:
  "timer_list s = t # ts \<Longrightarrow> \<not> timer_due s t \<Longrightarrow> timer_check_turn cb (tick s, s) = None"
  by (simp add: timer_check_turn_def timer_due_def tick_due_def)

lemma check_loop_fold:
  assumes "timer_list s = ds @ rs" and "\<forall>t \<in> set ds. timer_due s t" and "distinct (ds @ rs)"
    and "rs = [] \<or> \<not> timer_due s (hd rs)" and "\<forall>t \<in> set ds. \<not> timer_periodic (timers s t)"
    and "hard_tmp s = []" and "length ds < n"
  shows "rt_timer_check_loop n cb (tick s, s) = Some (fold (fire_timer cb) ds s)"
  using assms
proof (induction ds arbitrary: s n)
  case Nil
  then obtain m where n: "n = Suc m" by (cases n) auto
  show ?case
  proof (cases rs)
    case Nil
    then show ?thesis using Nil.prems(1) n by (simp add: timer_check_turn_def)
  next
    case (Cons r rs')
    then show ?thesis using Nil.prems(1,4) n check_turn_stops [of s r rs'] by simp
  qed
next
  case (Cons t ds)
  then obtain m where n: "n = Suc m" "length ds < m" by (cases n) auto
  let ?s = "fire_timer cb t s"
  have keep: "timer_due ?s u = timer_due s u" "timer_periodic (timers ?s u) = timer_periodic (timers s u)"
    if "u \<noteq> t" for u using that by (simp_all add: timer_due_def)
  have turn: "timer_check_turn cb (tick s, s) = Some (tick s, ?s)"
    using Cons.prems check_turn_fires [of s t "ds @ rs"] by simp
  have "rt_timer_check_loop m cb (tick ?s, ?s) = Some (fold (fire_timer cb) ds ?s)"
  proof (rule Cons.IH)
    show "timer_list ?s = ds @ rs" using Cons.prems(1) by simp
    have ne: "u \<noteq> t" if "u \<in> set ds" for u using Cons.prems(3) that by auto
    show "\<forall>u \<in> set ds. timer_due ?s u" "\<forall>u \<in> set ds. \<not> timer_periodic (timers ?s u)"
      using Cons.prems(2,5) keep ne by simp_all
    show "rs = [] \<or> \<not> timer_due ?s (hd rs)"
      using Cons.prems(3,4) keep(1) [of "hd rs"] by (cases rs) auto
  qed (use Cons.prems n in simp_all)
  then show ?case using turn n by simp
qed

end

text \<open>In a sorted list the due timers are at the front.\<close>

lemma sorted_due_split:
  assumes "expiry_sorted b (expiry s) xs" and "unat (tick s - b) < HALF"
  shows "takeWhile (timer_due s) xs = filter (timer_due s) xs"
    and "dropWhile (timer_due s) xs = filter (\<lambda>t. \<not> timer_due s t) xs"
proof -
  have due: "timer_due s t \<longleftrightarrow> rel_expiry b (expiry s) t \<le> unat (tick s - b)"
    if "rel_expiry b (expiry s) t < HALF" for t
    using tick_due_rel [OF assms(2), of "timeout_tick (timers s t)"] that
    by (simp add: timer_due_def rel_expiry_def expiry_def)
  have "takeWhile (timer_due s) xs = filter (timer_due s) xs \<and>
      dropWhile (timer_due s) xs = filter (\<lambda>t. \<not> timer_due s t) xs"
    using assms(1)
  proof (induction xs)
    case (Cons x xs)
    have s: "expiry_sorted b (expiry s) xs" using Cons.prems by (simp add: expiry_sorted_def in_window_def)
    have x: "rel_expiry b (expiry s) x < HALF"
      and le: "\<forall>y \<in> set xs. rel_expiry b (expiry s) y < HALF \<and>
        rel_expiry b (expiry s) x \<le> rel_expiry b (expiry s) y"
      using Cons.prems by (auto simp: expiry_sorted_def in_window_def)
    have "\<forall>y \<in> set xs. \<not> timer_due s y" if "\<not> timer_due s x"
      using that le due due [OF x] by auto
    then show ?case using Cons.IH [OF s] by (auto simp: filter_empty_conv filter_id_conv)
  qed simp
  then show "takeWhile (timer_due s) xs = filter (timer_due s) xs"
    and "dropWhile (timer_due s) xs = filter (\<lambda>t. \<not> timer_due s t) xs" by blast+
qed

context timer_callbacks
begin

lemma check_is_fold:
  assumes "timer_wf b s" and "unat (tick s - b) < HALF"
    and "\<forall>t \<in> set (timer_list s). \<not> timer_periodic (timers s t)" and "length (timer_list s) < n"
  shows "rt_timer_check n cb s =
    Some (fold (fire_timer cb) (filter (timer_due s) (timer_list s)) (s\<lparr>hard_tmp := []\<rparr>))"
proof -
  let ?s = "s\<lparr>hard_tmp := []\<rparr>"
  have so: "expiry_sorted b (expiry s) (timer_list s)" and d: "distinct (timer_list s)"
    using assms(1) by (simp_all add: timer_wf_def)
  note sp = sorted_due_split [OF so assms(2)]
  have same: "timer_due ?s = timer_due s" by (rule ext) (simp add: timer_due_def)
  let ?ds = "filter (timer_due s) (timer_list s)" and ?rs = "filter (\<lambda>t. \<not> timer_due s t) (timer_list s)"
  have l: "timer_list s = ?ds @ ?rs" using sp takeWhile_dropWhile_id by metis
  have "rt_timer_check_loop n cb (tick ?s, ?s) = Some (fold (fire_timer cb) ?ds ?s)"
  proof (rule check_loop_fold)
    show "timer_list ?s = ?ds @ ?rs" using l by simp
    show "distinct (?ds @ ?rs)" using d l by metis
    show "?rs = [] \<or> \<not> timer_due ?s (hd ?rs)"
      using hd_in_set [of ?rs] by (cases "?rs = []") (auto simp: same)
    show "length ?ds < n" using assms(4) le_less_trans length_filter_le by blast
  qed (use assms(3) in \<open>auto simp: same\<close>)
  then show ?thesis by (simp add: rt_timer_check_def)
qed

end

section \<open>Sleeping threads\<close>

text \<open>The timers of the threads: \<open>who t\<close> is the thread the timer \<open>t\<close> belongs to.\<close>

definition wake_up :: "(nat \<Rightarrow> nat) \<Rightarrow> nat \<Rightarrow> 'a kern_scheme \<Rightarrow> 'a kern_scheme" where
  "wake_up who t s = rt_thread_timeout (who t) s"

interpretation sleepers: timer_callbacks "wake_up who" for who
  by unfold_locales
    (simp_all add: wake_up_def rt_thread_timeout_def Let_def upd_thread_def tlist_remove_def)

lemma fire_wake_up:
  "threads (fire_timer (wake_up who) t s) =
     (if suspended (threads s (who t))
      then (threads s)(who t := (threads s (who t))\<lparr>thread_error := RT_ETIMEOUT, suspended := False\<rparr>)
      else threads s)"
  "halted (fire_timer (wake_up who) t s) = (halted s \<or> \<not> suspended (threads s (who t)))"
  by (simp_all add: fire_timer_def wake_up_def rt_thread_timeout_def Let_def upd_thread_def
      tlist_remove_def upd_timer_def timer_remove_def)

lemma fold_wake_up:
  assumes "inj_on who (set ds)" and "distinct ds" and "\<forall>t \<in> set ds. suspended (threads s (who t))"
    and "distinct (timer_list s)"
  shows "threads (fold (fire_timer (wake_up who)) ds s) =
      (\<lambda>p. if p \<in> who ` set ds then (threads s p)\<lparr>thread_error := RT_ETIMEOUT, suspended := False\<rparr>
           else threads s p) \<and>
    halted (fold (fire_timer (wake_up who)) ds s) = halted s \<and>
    timer_list (fold (fire_timer (wake_up who)) ds s) = filter (\<lambda>t. t \<notin> set ds) (timer_list s)"
  using assms
proof (induction ds arbitrary: s)
  case (Cons t ds)
  let ?s = "fire_timer (wake_up who) t s"
  have t: "suspended (threads s (who t))" using Cons.prems(3) by simp
  have ne: "who u \<noteq> who t" if "u \<in> set ds" for u
    using Cons.prems(1,2) that by (auto simp: inj_on_def)
  have l: "remove1 t (timer_list s) = filter (\<lambda>u. u \<noteq> t) (timer_list s)"
    using Cons.prems(4) by (simp add: distinct_remove1_removeAll removeAll_filter_not_eq)
      (simp add: eq_commute)
  have IH: "threads (fold (fire_timer (wake_up who)) ds ?s) =
      (\<lambda>p. if p \<in> who ` set ds then (threads ?s p)\<lparr>thread_error := RT_ETIMEOUT, suspended := False\<rparr>
           else threads ?s p) \<and>
    halted (fold (fire_timer (wake_up who)) ds ?s) = halted ?s \<and>
    timer_list (fold (fire_timer (wake_up who)) ds ?s) = filter (\<lambda>t. t \<notin> set ds) (timer_list ?s)"
  proof (rule Cons.IH)
    show "inj_on who (set ds)" "distinct ds" using Cons.prems(1,2) by (auto simp: inj_on_def)
    show "\<forall>u \<in> set ds. suspended (threads ?s (who u))"
      using Cons.prems(3) ne by (simp add: fire_wake_up)
    show "distinct (timer_list ?s)" using Cons.prems(4) by (simp add: l)
  qed
  have "filter (\<lambda>u. u \<notin> set ds) (filter (\<lambda>u. u \<noteq> t) (timer_list s)) =
      filter (\<lambda>u. u \<notin> set (t # ds)) (timer_list s)"
    by (simp add: conj_commute)
  with IH t show ?case
    by (auto simp: fire_wake_up l fun_eq_iff)
qed (simp_all add: fun_eq_iff)

text \<open>C28: Sleepers wake when they are due, all of them and nobody else: on a well-formed list of
  thread timers, one check of the timers ends, after at most one turn per timer, with exactly the
  threads running whose timers have expired, each told that it timed out, and exactly their timers
  taken off the list; no assertion fails.\<close>

theorem sleepers_wake_when_due:
  assumes "timer_wf b s" and "unat (tick s - b) < HALF" and "length (timer_list s) < n"
    and "\<forall>t \<in> set (timer_list s). \<not> timer_periodic (timers s t) \<and> suspended (threads s (who t))"
    and "inj_on who (set (timer_list s))"
  shows "\<exists>t. rt_timer_check n (wake_up who) s = Some t \<and>
    (\<forall>p. suspended (threads t p) \<longleftrightarrow>
       suspended (threads s p) \<and> (\<forall>i \<in> set (timer_list s). timer_due s i \<longrightarrow> who i \<noteq> p)) \<and>
    (\<forall>i \<in> set (timer_list s). timer_due s i \<longrightarrow> thread_error (threads t (who i)) = RT_ETIMEOUT) \<and>
    timer_list t = filter (\<lambda>i. \<not> timer_due s i) (timer_list s) \<and> halted t = halted s"
proof -
  let ?s = "s\<lparr>hard_tmp := []\<rparr>" and ?ds = "filter (timer_due s) (timer_list s)"
  have c: "rt_timer_check n (wake_up who) s = Some (fold (fire_timer (wake_up who)) ?ds ?s)"
    by (rule sleepers.check_is_fold [OF assms(1,2) _ assms(3)]) (use assms(4) in blast)
  have "inj_on who (set ?ds)" using assms(5) by (rule inj_on_subset) auto
  moreover have "distinct ?ds" using assms(1) by (simp add: timer_wf_def)
  moreover have "\<forall>t \<in> set ?ds. suspended (threads ?s (who t))" using assms(4) by simp
  moreover have "distinct (timer_list ?s)" using assms(1) by (simp add: timer_wf_def)
  ultimately have f: "threads (fold (fire_timer (wake_up who)) ?ds ?s) =
      (\<lambda>p. if p \<in> who ` set ?ds then (threads ?s p)\<lparr>thread_error := RT_ETIMEOUT, suspended := False\<rparr>
           else threads ?s p) \<and>
    halted (fold (fire_timer (wake_up who)) ?ds ?s) = halted ?s \<and>
    timer_list (fold (fire_timer (wake_up who)) ?ds ?s) = filter (\<lambda>t. t \<notin> set ?ds) (timer_list ?s)"
    by (rule fold_wake_up)
  show ?thesis
    unfolding c using f by (auto intro: filter_cong)
qed

section \<open>Starting and stopping\<close>

lemma sorted_filter:
  assumes "expiry_sorted b f xs"
  shows "takeWhile (\<lambda>i. rel_expiry b f i \<le> k) xs = filter (\<lambda>i. rel_expiry b f i \<le> k) xs \<and>
    dropWhile (\<lambda>i. rel_expiry b f i \<le> k) xs = filter (\<lambda>i. k < rel_expiry b f i) xs"
  using assms
proof (induction xs)
  case (Cons x xs)
  have s: "expiry_sorted b f xs" using Cons.prems by (simp add: expiry_sorted_def in_window_def)
  have "\<forall>y \<in> set xs. rel_expiry b f x \<le> rel_expiry b f y"
    using Cons.prems by (simp add: expiry_sorted_def)
  then have "filter (\<lambda>i. rel_expiry b f i \<le> k) xs = []" "filter (\<lambda>i. k < rel_expiry b f i) xs = xs"
    if "k < rel_expiry b f x"
    using that by (auto simp: filter_empty_conv filter_id_conv intro: less_le_trans dest: leD [OF order_trans])
  then show ?case using Cons.IH [OF s] by (auto simp: not_le)
qed simp

text \<open>C29: The timer lists stay in order: starting a timer, in whatever state it is, stopping and
  detaching it keep both lists sorted by expiry (seen from a base less than half the tick range
  behind), free of duplicates and equal to the active timers; the started timer expires its
  period after the current tick and stands behind every timer of its kind that expires no later
  and in front of every one that expires later, across a wrap of the tick counter too.\<close>

theorem timer_start_ordered:
  assumes "timer_wf b s" and "init_tick (timers s t) < RT_TICK_MAX div 2"
    and "unat (tick s + init_tick (timers s t) - b) < HALF"
  shows "timer_wf b (rt_timer_start t s) \<and> timer_wf b (snd (rt_timer_stop t s)) \<and>
    timer_wf b (rt_timer_detach t s) \<and>
    timer_active (timers (rt_timer_start t s) t) \<and> \<not> timer_active (timers (snd (rt_timer_stop t s)) t) \<and>
    expiry (rt_timer_start t s) t = tick s + init_tick (timers s t) \<and>
    (\<not> timer_soft (timers s t) \<longrightarrow>
      (let e = unat (tick s + init_tick (timers s t) - b); xs = remove1 t (timer_list s)
       in timer_list (rt_timer_start t s) =
         filter (\<lambda>i. unat (expiry s i - b) \<le> e) xs @ t # filter (\<lambda>i. e < unat (expiry s i - b)) xs))"
proof -
  let ?o = "timer_off t s" and ?xs = "remove1 t (timer_list s)"
    and ?k = "unat (tick s + init_tick (timers s t) - b)"
  let ?e = "expiry (timer_arm t ?o)"
  note o = timer_wf_off [OF assms(1), of t]
  have st: "rt_timer_start t s = timer_arm t ?o" using assms(2) by (simp add: rt_timer_start_arm)
  have "timer_wf b (timer_arm t ?o)"
    by (rule timer_wf_arm [OF o]) (use assms(3) in simp)
  moreover have "snd (rt_timer_stop t s) = (if timer_active (timers s t) then ?o else s)"
    by (simp add: rt_timer_stop_def)
  moreover have "rt_timer_detach t s = ?o" by (simp add: rt_timer_detach_def)
  moreover have "expiry (timer_arm t ?o) t = tick s + init_tick (timers s t)"
    by (simp add: expiry_timer_arm)
  moreover have "timer_list (timer_arm t ?o) =
      filter (\<lambda>i. unat (expiry s i - b) \<le> ?k) ?xs @ t # filter (\<lambda>i. ?k < unat (expiry s i - b)) ?xs"
    if "\<not> timer_soft (timers s t)"
  proof -
    have out: "t \<notin> set ?xs" and so: "expiry_sorted b (expiry s) ?xs"
      using assms(1) expiry_sorted_remove1 by (auto simp: timer_wf_def)
    have same: "rel_expiry b ?e i = unat (expiry s i - b)" if "i \<in> set ?xs" for i
      using that out by (auto simp: expiry_timer_arm rel_expiry_def)
    have "expiry_sorted b ?e ?xs"
      using so out by (subst expiry_sorted_cong [of ?xs ?e "expiry s"]) (auto simp: expiry_timer_arm)
    moreover have k: "rel_expiry b ?e t = ?k" by (simp add: expiry_timer_arm rel_expiry_def)
    ultimately have "timer_insert ?e t ?xs = takeWhile (\<lambda>i. rel_expiry b ?e i \<le> ?k) ?xs @ t #
        dropWhile (\<lambda>i. rel_expiry b ?e i \<le> ?k) ?xs"
      using timer_insert_split [of b ?e t ?xs] assms(3) by simp
    moreover note sorted_filter [OF so, of ?k]
    moreover have "takeWhile (\<lambda>i. rel_expiry b ?e i \<le> ?k) ?xs = takeWhile (\<lambda>i. rel_expiry b (expiry s) i \<le> ?k) ?xs"
      "dropWhile (\<lambda>i. rel_expiry b ?e i \<le> ?k) ?xs = dropWhile (\<lambda>i. rel_expiry b (expiry s) i \<le> ?k) ?xs"
      using same by (auto simp: rel_expiry_def cong: takeWhile_cong dropWhile_cong)
    ultimately show ?thesis using that by (simp add: timer_arm_lists rel_expiry_def)
  qed
  ultimately show ?thesis
    using o(1) assms(1) unfolding st by (simp add: Let_def)
qed

text \<open>A periodic timer of period 0 hangs the kernel: it is due again as soon as it has been
  restarted, so the check never ends, whatever its callback does short of touching the timers.\<close>

theorem zero_period_hangs:
  assumes "timer_list s = [t]" and "timer_periodic (timers s t)" and "timer_active (timers s t)"
    and "\<not> timer_soft (timers s t)" and "init_tick (timers s t) = 0" and "timer_due s t"
  shows "rt_timer_check n (wake_up who) s = None"
proof -
  have "rt_timer_check_loop n (wake_up who) (tick s, s) = None"
    if "hard_tmp s = []" "timer_list s = [t]" "timer_periodic (timers s t)" "timer_active (timers s t)"
      "\<not> timer_soft (timers s t)" "init_tick (timers s t) = 0" "timer_due s t" for s :: "'a kern_scheme"
    using that
  proof (induction n arbitrary: s)
    case (Suc n)
    define u where "u = (wake_up who t ((timer_remove t s)\<lparr>hard_tmp := [t]\<rparr>))\<lparr>hard_tmp := []\<rparr>"
    let ?s = "rt_timer_start t (upd_timer t clear_active u)"
    have u: "tick u = tick s" "timers u = timers s" "timer_list u = []" "hard_tmp u = []"
      using Suc.prems(2) by (simp_all add: u_def timer_remove_def)
    have turn: "timer_check_turn (wake_up who) (tick s, s) = Some (tick s, ?s)"
      using Suc.prems by (simp add: timer_check_turn_def Let_def timer_due_def tick_due_def u_def
          timer_remove_def)
    have st: "?s = timer_arm t (timer_off t (upd_timer t clear_active u))"
      using Suc.prems(6) by (simp add: rt_timer_start_arm u RT_TICK_MAX_def)
    have "expiry ?s t = tick s" using Suc.prems(6) by (simp add: st expiry_timer_arm u)
    then have "rt_timer_check_loop n (wake_up who) (tick ?s, ?s) = None"
      using Suc.prems by (intro Suc.IH) (simp_all add: st timer_arm_lists u timer_due_def expiry_def)
    then show ?case using turn by (simp add: st u)
  qed simp
  from this [of "s\<lparr>hard_tmp := []\<rparr>"] show ?thesis
    using assms by (simp add: rt_timer_check_def timer_due_def)
qed

section \<open>Witnesses\<close>

text \<open>Two sleepers, due at ticks 10 and 20, seen at tick 12.\<close>

definition nap_kern :: kern where
  "nap_kern = idle_kern\<lparr>tick := 12, timer_list := [1, 2],
     timers := (timers idle_kern)(1 := \<lparr>flag = 1, init_tick = 10, timeout_tick = 10\<rparr>,
       2 := \<lparr>flag = 1, init_tick = 20, timeout_tick = 20\<rparr>),
     threads := (\<lambda>p. (threads idle_kern p)\<lparr>suspended := True\<rparr>)\<rparr>"

lemma nap_kern_simps [simp]:
  "tick nap_kern = 12" "timer_list nap_kern = [1, 2]" "soft_timer_list nap_kern = []"
  "hard_tmp nap_kern = []" "soft_tmp nap_kern = []" "suspended (threads nap_kern p)"
  "timers nap_kern = (\<lambda>_. \<lparr>flag = 0, init_tick = 0, timeout_tick = 0\<rparr>)
     (1 := \<lparr>flag = 1, init_tick = 10, timeout_tick = 10\<rparr>, 2 := \<lparr>flag = 1, init_tick = 20, timeout_tick = 20\<rparr>)"
  by (simp_all add: nap_kern_def idle_kern_def)

lemma nap_kern_wf: "timer_wf 0 nap_kern"
  by (auto simp: timer_wf_def expiry_sorted_def in_window_def rel_expiry_def expiry_def HALF_def
      timer_soft_def timer_active_def timer_flag_defs split: if_splits)

theorem sleepers_wake_when_due_witness:
  "\<exists>t. rt_timer_check 3 (wake_up (\<lambda>i. i)) nap_kern = Some t \<and> \<not> suspended (threads t 1) \<and>
     suspended (threads t 2) \<and> timer_list t = [2]"
  using sleepers_wake_when_due [OF nap_kern_wf, of 3 "\<lambda>i. i"]
  by (auto simp: timer_due_def tick_due_nat HALF_def timer_periodic_def timer_flag_defs)

theorem timer_start_ordered_witness:
  "timer_list (rt_timer_start 1 nap_kern) = [2, 1]"
  using timer_start_ordered [OF nap_kern_wf, of 1]
  by (simp add: RT_TICK_MAX_def HALF_def timer_soft_def timer_flag_defs expiry_def Let_def)

theorem zero_period_hangs_witness:
  "rt_timer_check 1000 (wake_up (\<lambda>i. i)) (idle_kern\<lparr>timer_list := [1],
     timers := (\<lambda>_. \<lparr>flag = 3, init_tick = 0, timeout_tick = 0\<rparr>)\<rparr>) = None"
  by (rule zero_period_hangs [of _ 1])
    (simp_all add: timer_due_def timer_periodic_def timer_active_def timer_soft_def timer_flag_defs
      idle_kern_def)

end
