(* ===== verification/Small_Mem.thy ===== *)
theory Small_Mem
  imports Ipc
begin

text \<open>
  The system heap of the kernel, \<open>rt-thread/src/mem.c\<close> (\<open>RT_USING_SMALL_MEM\<close>, with
  \<open>RT_USING_MEMTRACE\<close>, 32 bit).

  \<^item> Memory is a function from addresses to bytes, and a \<open>struct heap_mem\<close> is the sixteen bytes
    at its address, little endian, as the processor has them. Offsets and sizes are natural numbers
    below \<open>2\<^sup>3\<^sup>2\<close>, with the wrap-around of \<open>rt_size_t\<close> written out (\<open>add32\<close>, \<open>sub32\<close>).
  \<^item> What runs between the take and the release of \<open>heap_sem\<close> is the \<open>_locked\<close> part of an
    operation; it is also what a caller that had to wait for the semaphore does when it runs again.
    A result \<^const>\<open>None\<close> inside the pair means that the caller waits.
  \<^item> The loops over the blocks take a number of turns and are \<^const>\<open>None\<close> when it is used up.
\<close>

section \<open>Memory\<close>

type_synonym mem = "nat \<Rightarrow> u8"

definition add32 :: "nat \<Rightarrow> nat \<Rightarrow> nat" where
  "add32 a b = (a + b) mod 2 ^ 32"

definition sub32 :: "nat \<Rightarrow> nat \<Rightarrow> nat" where
  "sub32 a b = (a + 2 ^ 32 - b) mod 2 ^ 32"

definition ld16 :: "mem \<Rightarrow> nat \<Rightarrow> nat" where
  "ld16 m a = unat (m a) + 256 * unat (m (a + 1))"

definition ld32 :: "mem \<Rightarrow> nat \<Rightarrow> nat" where
  "ld32 m a = ld16 m a + 65536 * ld16 m (a + 2)"

definition st16 :: "nat \<Rightarrow> nat \<Rightarrow> mem \<Rightarrow> mem" where
  "st16 a v m = m(a := word_of_nat v, a + 1 := word_of_nat (v div 256))"

definition st32 :: "nat \<Rightarrow> nat \<Rightarrow> mem \<Rightarrow> mem" where
  "st32 a v m = st16 (a + 2) (v div 65536) (st16 a v m)"

text \<open>\<open>struct heap_mem\<close>: the fields of the header at address \<open>a\<close>.\<close>

definition h_magic :: "mem \<Rightarrow> nat \<Rightarrow> nat" where "h_magic m a = ld16 m a"
definition h_used :: "mem \<Rightarrow> nat \<Rightarrow> nat" where "h_used m a = ld16 m (a + 2)"
definition h_next :: "mem \<Rightarrow> nat \<Rightarrow> nat" where "h_next m a = ld32 m (a + 4)"
definition h_prev :: "mem \<Rightarrow> nat \<Rightarrow> nat" where "h_prev m a = ld32 m (a + 8)"

definition set_magic :: "nat \<Rightarrow> nat \<Rightarrow> mem \<Rightarrow> mem" where "set_magic a v = st16 a v"
definition set_used :: "nat \<Rightarrow> nat \<Rightarrow> mem \<Rightarrow> mem" where "set_used a v = st16 (a + 2) v"
definition set_next :: "nat \<Rightarrow> nat \<Rightarrow> mem \<Rightarrow> mem" where "set_next a v = st32 (a + 4) v"
definition set_prev :: "nat \<Rightarrow> nat \<Rightarrow> mem \<Rightarrow> mem" where "set_prev a v = st32 (a + 8) v"

definition rt_mem_setname :: "nat \<Rightarrow> string \<Rightarrow> mem \<Rightarrow> mem" where
  "rt_mem_setname a name m =
     fold (\<lambda>i m. m(a + 12 + i := if i < length name then of_char (name ! i) else 32)) [0..<4] m"

definition HEAP_MAGIC :: nat where "HEAP_MAGIC = 0x1ea0"
definition SIZEOF_STRUCT_MEM :: nat where "SIZEOF_STRUCT_MEM = 16"
definition MIN_SIZE :: nat where "MIN_SIZE = 12"
definition MIN_SIZE_ALIGNED :: nat where "MIN_SIZE_ALIGNED = 12"

definition RT_ALIGN :: "nat \<Rightarrow> nat" where
  "RT_ALIGN sz = add32 sz 3 div 4 * 4"

definition RT_ALIGN_DOWN :: "nat \<Rightarrow> nat" where
  "RT_ALIGN_DOWN sz = sz div 4 * 4"

record heap = kern +
  ram :: mem
  heap_ptr :: nat
  heap_end :: nat
  lfree :: nat
  mem_size_aligned :: nat
  used_mem :: nat
  max_mem :: nat

text \<open>The handle of \<open>heap_sem\<close>, and \<open>RT_WAITING_FOREVER\<close>.\<close>

definition HEAP_SEM :: nat where "HEAP_SEM = 0"

definition WAIT_FOREVER :: int where "WAIT_FOREVER = - 1"

section \<open>Operations\<close>

text \<open>The two halves of \<open>plug_holes\<close>: joining \<open>mem\<close> with the block after it, and before it.\<close>

definition plug_forward :: "nat \<Rightarrow> 'a heap_scheme \<Rightarrow> 'a heap_scheme" where
  "plug_forward mem s =
     (let nmem = heap_ptr s + h_next (ram s) mem
      in if mem \<noteq> nmem \<and> h_used (ram s) nmem = 0 \<and> nmem \<noteq> heap_end s
         then s\<lparr>lfree := (if lfree s = nmem then mem else lfree s),
                ram := set_prev (heap_ptr s + h_next (ram s) nmem) (mem - heap_ptr s)
                         (set_next mem (h_next (ram s) nmem) (ram s))\<rparr>
         else s)"

definition plug_backward :: "nat \<Rightarrow> 'a heap_scheme \<Rightarrow> 'a heap_scheme" where
  "plug_backward mem s =
     (let pmem = heap_ptr s + h_prev (ram s) mem
      in if pmem \<noteq> mem \<and> h_used (ram s) pmem = 0
         then s\<lparr>lfree := (if lfree s = mem then pmem else lfree s),
                ram := set_prev (heap_ptr s + h_next (ram s) mem) (pmem - heap_ptr s)
                         (set_next pmem (h_next (ram s) mem) (ram s))\<rparr>
         else s)"

definition plug_holes :: "nat \<Rightarrow> 'a heap_scheme \<Rightarrow> 'a heap_scheme" where
  "plug_holes mem s =
     (if \<not> (heap_ptr s \<le> mem \<and> mem < heap_end s \<and> h_used (ram s) mem = 0) then s\<lparr>halted := True\<rparr>
      else plug_backward mem (plug_forward mem s))"

definition rt_system_heap_init :: "nat \<Rightarrow> nat \<Rightarrow> 'a heap_scheme \<Rightarrow> 'a heap_scheme" where
  "rt_system_heap_init begin_addr end_addr s =
     (let begin_align = RT_ALIGN begin_addr; end_align = RT_ALIGN_DOWN end_addr
      in if 2 * SIZEOF_STRUCT_MEM < end_align \<and> begin_align \<le> end_align - 2 * SIZEOF_STRUCT_MEM
         then
           let sz = end_align - begin_align - 2 * SIZEOF_STRUCT_MEM;
               mem = begin_align;
               m1 = rt_mem_setname mem ''INIT'' (set_used mem 0 (set_prev mem 0
                      (set_next mem (sz + SIZEOF_STRUCT_MEM) (set_magic mem HEAP_MAGIC (ram s)))));
               fin = begin_align + h_next m1 mem;
               m2 = rt_mem_setname fin ''INIT'' (set_prev fin (sz + SIZEOF_STRUCT_MEM)
                      (set_next fin (sz + SIZEOF_STRUCT_MEM)
                        (set_used fin 1 (set_magic fin HEAP_MAGIC m1))))
           in (sem_create HEAP_SEM 1 RT_IPC_FLAG_PRIO s)
                \<lparr>ram := m2, heap_ptr := begin_align, heap_end := fin, lfree := begin_align,
                 mem_size_aligned := sz\<rparr>
         else s)"

text \<open>The loop of \<open>rt_malloc\<close>: the offset of the first block that fits, if there is one.\<close>

fun malloc_search :: "nat \<Rightarrow> nat \<Rightarrow> nat \<Rightarrow> 'a heap_scheme \<Rightarrow> nat option option" where
  "malloc_search 0 sz ptr s = None"
| "malloc_search (Suc n) sz ptr s =
     (if ptr < sub32 (mem_size_aligned s) sz
      then let mem = heap_ptr s + ptr
           in if h_used (ram s) mem = 0
                 \<and> sz \<le> sub32 (h_next (ram s) mem) (add32 ptr SIZEOF_STRUCT_MEM)
              then Some (Some ptr)
              else malloc_search n sz (h_next (ram s) mem) s
      else Some None)"

definition count_used :: "nat \<Rightarrow> 'a heap_scheme \<Rightarrow> 'a heap_scheme" where
  "count_used n s =
     (let u = add32 (used_mem s) n
      in s\<lparr>used_mem := u, max_mem := (if max_mem s < u then u else max_mem s)\<rparr>)"

text \<open>Splitting the block \<open>ptr\<close> (\<open>mem2\<close> is the rest), or taking all of it.\<close>

definition split_block :: "nat \<Rightarrow> nat \<Rightarrow> 'a heap_scheme \<Rightarrow> mem" where
  "split_block ptr ptr2 s =
     (let mem = heap_ptr s + ptr; mem2 = heap_ptr s + ptr2;
          m1 = rt_mem_setname mem2 ''    '' (set_prev mem2 ptr
                 (set_next mem2 (h_next (ram s) mem) (set_used mem2 0
                   (set_magic mem2 HEAP_MAGIC (ram s)))));
          m2 = set_next mem ptr2 m1
      in if h_next m2 mem2 \<noteq> add32 (mem_size_aligned s) SIZEOF_STRUCT_MEM
         then set_prev (heap_ptr s + h_next m2 mem2) ptr2 m2 else m2)"

definition malloc_take :: "nat \<Rightarrow> nat \<Rightarrow> 'a heap_scheme \<Rightarrow> 'a heap_scheme" where
  "malloc_take sz ptr s =
     (let mem = heap_ptr s + ptr
      in if add32 (add32 sz SIZEOF_STRUCT_MEM) MIN_SIZE_ALIGNED
              \<le> sub32 (h_next (ram s) mem) (add32 ptr SIZEOF_STRUCT_MEM)
         then
           let ptr2 = add32 (add32 ptr SIZEOF_STRUCT_MEM) sz;
               s1 = s\<lparr>ram := set_used mem 1 (split_block ptr ptr2 s)\<rparr>
           in count_used (add32 sz SIZEOF_STRUCT_MEM) s1
         else
           let s1 = s\<lparr>ram := set_used mem 1 (ram s)\<rparr>
           in count_used (sub32 (h_next (ram s1) mem) (mem - heap_ptr s)) s1)"

text \<open>\<open>while (lfree->used && lfree != heap_end)\<close>\<close>

fun lfree_next :: "nat \<Rightarrow> nat \<Rightarrow> 'a heap_scheme \<Rightarrow> nat option" where
  "lfree_next 0 a s = None"
| "lfree_next (Suc n) a s =
     (if h_used (ram s) a \<noteq> 0 \<and> a \<noteq> heap_end s
      then lfree_next n (heap_ptr s + h_next (ram s) a) s else Some a)"

text \<open>
  From the search to the release of \<open>heap_sem\<close> and the assertions after it. \<open>name\<close> is the
  name of the running thread, \<open>''NONE''\<close> when there is none; the result 0 is \<open>RT_NULL\<close>.
\<close>

definition malloc_locked ::
  "nat \<Rightarrow> string \<Rightarrow> nat \<Rightarrow> 'a heap_scheme \<Rightarrow> (nat \<times> 'a heap_scheme) option" where
  "malloc_locked fuel name sz s =
     (case malloc_search fuel sz (lfree s - heap_ptr s) s of
       None \<Rightarrow> None
     | Some None \<Rightarrow> Some (0, snd (rt_sem_release HEAP_SEM s))
     | Some (Some ptr) \<Rightarrow>
         let mem = heap_ptr s + ptr;
             s1 = malloc_take sz ptr s;
             s2 = s1\<lparr>ram := rt_mem_setname mem name (set_magic mem HEAP_MAGIC (ram s1))\<rparr>
         in case (if mem = lfree s2 then lfree_next fuel (lfree s2) s2 else Some (lfree s2)) of
              None \<Rightarrow> None
            | Some l \<Rightarrow>
                let s3 = snd (rt_sem_release HEAP_SEM (s2\<lparr>lfree := l\<rparr>))
                in if mem + SIZEOF_STRUCT_MEM + sz \<le> heap_end s
                      \<and> (mem + SIZEOF_STRUCT_MEM) mod 4 = 0 \<and> mem mod 4 = 0
                   then Some (mem + SIZEOF_STRUCT_MEM, s3)
                   else Some (0, s3\<lparr>halted := True\<rparr>))"

definition rt_malloc ::
  "nat \<Rightarrow> nat \<Rightarrow> string \<Rightarrow> nat \<Rightarrow> 'a heap_scheme \<Rightarrow> (nat option \<times> 'a heap_scheme) option" where
  "rt_malloc fuel self name sz s =
     (if sz = 0 then Some (Some 0, s)
      else let aligned = RT_ALIGN sz
           in if mem_size_aligned s < aligned then Some (Some 0, s)
              else
                let need = (if aligned < MIN_SIZE_ALIGNED then MIN_SIZE_ALIGNED else aligned)
                in case rt_sem_take self HEAP_SEM WAIT_FOREVER s of
                     (None, s1) \<Rightarrow> Some (None, s1)
                   | (Some _, s1) \<Rightarrow>
                       (case malloc_locked fuel name need s1 of
                          None \<Rightarrow> None | Some (p, s2) \<Rightarrow> Some (Some p, s2)))"

definition free_locked :: "nat \<Rightarrow> 'a heap_scheme \<Rightarrow> 'a heap_scheme" where
  "free_locked mem s =
     (if h_used (ram s) mem = 0 \<or> h_magic (ram s) mem \<noteq> HEAP_MAGIC then s\<lparr>halted := True\<rparr>
      else
        let s1 = s\<lparr>ram := rt_mem_setname mem ''    '' (set_magic mem HEAP_MAGIC
                            (set_used mem 0 (ram s)))\<rparr>;
            s2 = (if mem < lfree s1 then s1\<lparr>lfree := mem\<rparr> else s1);
            s3 = s2\<lparr>used_mem := sub32 (used_mem s2) (sub32 (h_next (ram s2) mem) (mem - heap_ptr s))\<rparr>
        in snd (rt_sem_release HEAP_SEM (plug_holes mem s3)))"

definition rt_free :: "nat \<Rightarrow> nat \<Rightarrow> 'a heap_scheme \<Rightarrow> unit option \<times> 'a heap_scheme" where
  "rt_free self rmem s =
     (if rmem = 0 then (Some (), s)
      else if rmem mod 4 \<noteq> 0 \<or> \<not> (heap_ptr s \<le> rmem \<and> rmem < heap_end s)
      then (Some (), s\<lparr>halted := True\<rparr>)
      else case rt_sem_take self HEAP_SEM WAIT_FOREVER s of
             (None, s1) \<Rightarrow> (None, s1)
           | (Some _, s1) \<Rightarrow> (Some (), free_locked (sub32 rmem SIZEOF_STRUCT_MEM) s1))"

text \<open>\<open>rt_memcpy\<close> and \<open>rt_memset\<close> between blocks that do not overlap.\<close>

definition rt_memcpy :: "nat \<Rightarrow> nat \<Rightarrow> nat \<Rightarrow> mem \<Rightarrow> mem" where
  "rt_memcpy dst src n m = (\<lambda>a. if dst \<le> a \<and> a < dst + n then m (src + (a - dst)) else m a)"

definition rt_memset :: "nat \<Rightarrow> u8 \<Rightarrow> nat \<Rightarrow> mem \<Rightarrow> mem" where
  "rt_memset dst c n m = (\<lambda>a. if dst \<le> a \<and> a < dst + n then c else m a)"

text \<open>
  \<open>rt_realloc\<close> under the semaphore: \<open>Inl\<close> the result, or \<open>Inr\<close> the old size when the data has
  to move to a new block.
\<close>

definition realloc_locked :: "nat \<Rightarrow> nat \<Rightarrow> 'a heap_scheme \<Rightarrow> (nat + nat) \<times> 'a heap_scheme" where
  "realloc_locked rmem newsize s =
     (if rmem < heap_ptr s \<or> heap_end s \<le> rmem then (Inl rmem, snd (rt_sem_release HEAP_SEM s))
      else
        let mem = sub32 rmem SIZEOF_STRUCT_MEM;
            ptr = sub32 mem (heap_ptr s);
            sz = sub32 (sub32 (h_next (ram s) mem) ptr) SIZEOF_STRUCT_MEM
        in if sz = newsize then (Inl rmem, snd (rt_sem_release HEAP_SEM s))
           else if add32 (add32 newsize SIZEOF_STRUCT_MEM) MIN_SIZE < sz
           then
             let s1 = s\<lparr>used_mem := sub32 (used_mem s) (sub32 sz newsize)\<rparr>;
                 ptr2 = add32 (add32 ptr SIZEOF_STRUCT_MEM) newsize;
                 mem2 = heap_ptr s + ptr2;
                 s2 = s1\<lparr>ram := split_block ptr ptr2 s1\<rparr>;
                 s3 = (if mem2 < lfree s2 then s2\<lparr>lfree := mem2\<rparr> else s2)
             in (Inl rmem, snd (rt_sem_release HEAP_SEM (plug_holes mem2 s3)))
           else (Inr sz, snd (rt_sem_release HEAP_SEM s)))"

text \<open>What follows the allocation of the new block, and the whole call.\<close>

definition realloc_move ::
  "nat \<Rightarrow> nat \<Rightarrow> nat \<Rightarrow> nat \<Rightarrow> nat \<Rightarrow> 'a heap_scheme \<Rightarrow> nat option \<times> 'a heap_scheme" where
  "realloc_move self rmem sz newsize nmem s =
     (if nmem = 0 then (Some 0, s)
      else let s1 = s\<lparr>ram := rt_memcpy nmem rmem (if sz < newsize then sz else newsize) (ram s)\<rparr>
           in case rt_free self rmem s1 of
                (None, s2) \<Rightarrow> (None, s2)
              | (Some _, s2) \<Rightarrow> (Some nmem, s2))"

definition rt_realloc ::
  "nat \<Rightarrow> nat \<Rightarrow> string \<Rightarrow> nat \<Rightarrow> nat \<Rightarrow> 'a heap_scheme
     \<Rightarrow> (nat option \<times> 'a heap_scheme) option" where
  "rt_realloc fuel self name rmem newsize0 s =
     (let newsize = RT_ALIGN newsize0
      in if mem_size_aligned s < newsize then Some (Some 0, s)
         else if newsize = 0
         then (case rt_free self rmem s of
                 (None, s1) \<Rightarrow> Some (None, s1) | (Some _, s1) \<Rightarrow> Some (Some 0, s1))
         else if rmem = 0 then rt_malloc fuel self name newsize s
         else case rt_sem_take self HEAP_SEM WAIT_FOREVER s of
                (None, s1) \<Rightarrow> Some (None, s1)
              | (Some _, s1) \<Rightarrow>
                  (case realloc_locked rmem newsize s1 of
                     (Inl p, s2) \<Rightarrow> Some (Some p, s2)
                   | (Inr sz, s2) \<Rightarrow>
                       (case rt_malloc fuel self name newsize s2 of
                          None \<Rightarrow> None
                        | Some (None, s3) \<Rightarrow> Some (None, s3)
                        | Some (Some nmem, s3) \<Rightarrow>
                            Some (realloc_move self rmem sz newsize nmem s3))))"

definition rt_calloc ::
  "nat \<Rightarrow> nat \<Rightarrow> string \<Rightarrow> nat \<Rightarrow> nat \<Rightarrow> 'a heap_scheme
     \<Rightarrow> (nat option \<times> 'a heap_scheme) option" where
  "rt_calloc fuel self name count sz s =
     (let n = count * sz mod 2 ^ 32
      in case rt_malloc fuel self name n s of
           None \<Rightarrow> None
         | Some (None, s1) \<Rightarrow> Some (None, s1)
         | Some (Some p, s1) \<Rightarrow>
             if p = 0 then Some (Some 0, s1)
             else Some (Some p, s1\<lparr>ram := rt_memset p 0 n (ram s1)\<rparr>))"

definition rt_memory_info :: "'a heap_scheme \<Rightarrow> nat \<times> nat \<times> nat" where
  "rt_memory_info s = (mem_size_aligned s, used_mem s, max_mem s)"

text \<open>\<open>memcheck\<close>: whether the walk over all blocks finds nothing to complain about.\<close>

fun memcheck :: "nat \<Rightarrow> nat \<Rightarrow> 'a heap_scheme \<Rightarrow> bool option" where
  "memcheck 0 mem s = None"
| "memcheck (Suc n) mem s =
     (if mem = heap_end s then Some True
      else let position = int mem - int (heap_ptr s)
           in if position < 0 \<or> int (mem_size_aligned s) < position
                 \<or> h_magic (ram s) mem \<noteq> HEAP_MAGIC
                 \<or> (h_used (ram s) mem \<noteq> 0 \<and> h_used (ram s) mem \<noteq> 1)
              then Some False
              else memcheck n (heap_ptr s + h_next (ram s) mem) s)"

section \<open>Reading and writing headers\<close>

lemma add32_small: "a + b < 2 ^ 32 \<Longrightarrow> add32 a b = a + b"
  by (simp add: add32_def)

lemma sub32_small: "b \<le> a \<Longrightarrow> a < 2 ^ 32 \<Longrightarrow> sub32 a b = a - b"
  by (metis Nat.add_diff_assoc2 add.commute less_imp_diff_less mod_add_self2 mod_less sub32_def)

lemma ld16_st16 [simp]: "ld16 (st16 a v m) a = v mod 65536"
  using mod_mult2_eq [of v 256 256] by (simp add: ld16_def st16_def unat_of_nat)

lemma st16_out: "b < a \<or> a + 2 \<le> b \<Longrightarrow> st16 a v m b = m b"
  by (auto simp: st16_def)

lemma st32_out: "b < a \<or> a + 4 \<le> b \<Longrightarrow> st32 a v m b = m b"
  by (auto simp: st32_def st16_out)

lemma ld16_cong: "m' a = m a \<Longrightarrow> m' (a + 1) = m (a + 1) \<Longrightarrow> ld16 m' a = ld16 m a"
  by (simp add: ld16_def)

lemma ld16_st16_other: "b + 2 \<le> a \<or> a + 2 \<le> b \<Longrightarrow> ld16 (st16 a v m) b = ld16 m b"
  by (rule ld16_cong; rule st16_out; linarith)

lemma ld32_st32 [simp]: "v < 2 ^ 32 \<Longrightarrow> ld32 (st32 a v m) a = v"
  by (simp add: ld32_def st32_def ld16_st16_other)

lemma ld16_st32_other: "b + 2 \<le> a \<or> a + 4 \<le> b \<Longrightarrow> ld16 (st32 a v m) b = ld16 m b"
  by (rule ld16_cong; rule st32_out; linarith)

lemma ld32_st16_other: "b + 4 \<le> a \<or> a + 2 \<le> b \<Longrightarrow> ld32 (st16 a v m) b = ld32 m b"
  by (auto simp: ld32_def ld16_st16_other)

lemma ld32_st32_other: "b + 4 \<le> a \<or> a + 4 \<le> b \<Longrightarrow> ld32 (st32 a v m) b = ld32 m b"
  by (auto simp: ld32_def ld16_st32_other)

lemma setname_out: "b < a + 12 \<or> a + 16 \<le> b \<Longrightarrow> rt_mem_setname a name m b = m b"
  by (auto simp: rt_mem_setname_def upt_rec)

lemma ld16_setname: "b + 2 \<le> a + 12 \<or> a + 16 \<le> b \<Longrightarrow> ld16 (rt_mem_setname a name m) b = ld16 m b"
  by (rule ld16_cong; rule setname_out; linarith)

lemma ld32_setname: "b + 4 \<le> a + 12 \<or> a + 16 \<le> b \<Longrightarrow> ld32 (rt_mem_setname a name m) b = ld32 m b"
  by (auto simp: ld32_def ld16_setname)

lemmas field_defs = h_magic_def h_used_def h_next_def h_prev_def
  set_magic_def set_used_def set_next_def set_prev_def
lemmas other_field = ld16_st16_other ld16_st32_other ld32_st16_other ld32_st32_other
  ld16_setname ld32_setname

lemma header_same [simp]:
  "h_magic (set_magic a v m) a = v mod 65536" "h_used (set_magic a v m) a = h_used m a"
  "h_next (set_magic a v m) a = h_next m a" "h_prev (set_magic a v m) a = h_prev m a"
  "h_magic (set_used a v m) a = h_magic m a" "h_used (set_used a v m) a = v mod 65536"
  "h_next (set_used a v m) a = h_next m a" "h_prev (set_used a v m) a = h_prev m a"
  "h_magic (set_next a v m) a = h_magic m a" "h_used (set_next a v m) a = h_used m a"
  "v < 2 ^ 32 \<Longrightarrow> h_next (set_next a v m) a = v" "h_prev (set_next a v m) a = h_prev m a"
  "h_magic (set_prev a v m) a = h_magic m a" "h_used (set_prev a v m) a = h_used m a"
  "h_next (set_prev a v m) a = h_next m a" "v < 2 ^ 32 \<Longrightarrow> h_prev (set_prev a v m) a = v"
  "h_magic (rt_mem_setname a nm m) a = h_magic m a"
  "h_used (rt_mem_setname a nm m) a = h_used m a"
  "h_next (rt_mem_setname a nm m) a = h_next m a"
  "h_prev (rt_mem_setname a nm m) a = h_prev m a"
  by (simp_all add: field_defs other_field)

text \<open>Writing a header leaves the bytes outside its sixteen, and so every other header, alone.\<close>

lemma header_out:
  assumes "b < a \<or> a + 16 \<le> b"
  shows "set_magic a v m b = m b" "set_used a v m b = m b" "set_next a v m b = m b"
    "set_prev a v m b = m b" "rt_mem_setname a nm m b = m b"
  using assms by (auto simp: field_defs st16_out st32_out setname_out)

lemma header_cong:
  assumes "\<And>b. a \<le> b \<Longrightarrow> b < a + 12 \<Longrightarrow> m' b = m b"
  shows "h_magic m' a = h_magic m a" "h_used m' a = h_used m a"
    "h_next m' a = h_next m a" "h_prev m' a = h_prev m a"
  using assms by (simp_all add: field_defs ld32_def ld16_def)

lemma header_other:
  assumes "x + 16 \<le> a \<or> a + 16 \<le> x"
  shows "h_magic (set_magic a v m) x = h_magic m x" "h_used (set_magic a v m) x = h_used m x"
    "h_next (set_magic a v m) x = h_next m x" "h_prev (set_magic a v m) x = h_prev m x"
    "h_magic (set_used a v m) x = h_magic m x" "h_used (set_used a v m) x = h_used m x"
    "h_next (set_used a v m) x = h_next m x" "h_prev (set_used a v m) x = h_prev m x"
    "h_magic (set_next a v m) x = h_magic m x" "h_used (set_next a v m) x = h_used m x"
    "h_next (set_next a v m) x = h_next m x" "h_prev (set_next a v m) x = h_prev m x"
    "h_magic (set_prev a v m) x = h_magic m x" "h_used (set_prev a v m) x = h_used m x"
    "h_next (set_prev a v m) x = h_next m x" "h_prev (set_prev a v m) x = h_prev m x"
    "h_magic (rt_mem_setname a nm m) x = h_magic m x"
    "h_used (rt_mem_setname a nm m) x = h_used m x"
    "h_next (rt_mem_setname a nm m) x = h_next m x"
    "h_prev (rt_mem_setname a nm m) x = h_prev m x"
  using assms by (auto intro!: header_cong header_out)

section \<open>The blocks of the heap\<close>

text \<open>
  A block is its length, header included, and whether it is in use. \<open>blocks m b pv p bs e\<close> says
  that from offset \<open>p\<close> of the heap at \<open>b\<close> to offset \<open>e\<close> the memory holds exactly the blocks
  \<open>bs\<close>, correctly linked, where \<open>pv\<close> is the offset of the block before \<open>p\<close>.
\<close>

type_synonym block = "nat \<times> bool"

primrec blocks :: "mem \<Rightarrow> nat \<Rightarrow> nat \<Rightarrow> nat \<Rightarrow> block list \<Rightarrow> nat \<Rightarrow> bool" where
  "blocks m b pv p [] e \<longleftrightarrow> p = e"
| "blocks m b pv p (x # bs) e \<longleftrightarrow>
     h_magic m (b + p) = HEAP_MAGIC \<and> h_used m (b + p) = of_bool (snd x)
     \<and> h_next m (b + p) = p + fst x \<and> h_prev m (b + p) = pv
     \<and> 16 \<le> fst x \<and> 4 dvd fst x \<and> blocks m b p (p + fst x) bs e"

definition total :: "block list \<Rightarrow> nat" where
  "total bs = sum_list (map fst bs)"

definition in_use :: "block list \<Rightarrow> nat" where
  "in_use bs = sum_list (map fst (filter snd bs))"

text \<open>The offset of the last of the blocks, where the first is at \<open>p\<close>.\<close>

primrec last_at :: "nat \<Rightarrow> nat \<Rightarrow> block list \<Rightarrow> nat" where
  "last_at pv p [] = pv"
| "last_at pv p (x # bs) = last_at p (p + fst x) bs"

text \<open>The blocks with their offsets.\<close>

primrec layout :: "nat \<Rightarrow> block list \<Rightarrow> (nat \<times> block) set" where
  "layout p [] = {}"
| "layout p (x # bs) = insert (p, x) (layout (p + fst x) bs)"

lemma total_simps [simp]:
  "total [] = 0" "total (x # bs) = fst x + total bs" "total (xs @ ys) = total xs + total ys"
  by (simp_all add: total_def)

lemma in_use_simps [simp]:
  "in_use [] = 0" "in_use (x # bs) = (if snd x then fst x else 0) + in_use bs"
  "in_use (xs @ ys) = in_use xs + in_use ys"
  by (simp_all add: in_use_def)

lemma in_use_le: "in_use bs \<le> total bs"
  by (induction bs) auto

lemma blocks_end: "blocks m b pv p bs e \<Longrightarrow> e = p + total bs"
  by (induction bs arbitrary: pv p) (auto simp: add.assoc [symmetric])

lemma blocks_room: "blocks m b pv p bs e \<Longrightarrow> p \<noteq> e \<Longrightarrow> p + 16 \<le> e"
  by (cases bs) (auto dest: blocks_end)

lemma blocks_append:
  "blocks m b pv p (xs @ ys) e \<longleftrightarrow>
     blocks m b pv p xs (p + total xs) \<and> blocks m b (last_at pv p xs) (p + total xs) ys e"
  by (induction xs arbitrary: pv p) (auto simp: add.assoc)

lemma last_at_append [simp]: "last_at pv p (xs @ ys) = last_at (last_at pv p xs) (p + total xs) ys"
  by (induction xs arbitrary: pv p) (auto simp: add.assoc)

lemma layout_append [simp]: "layout p (xs @ ys) = layout p xs \<union> layout (p + total xs) ys"
  by (induction xs arbitrary: p) (auto simp: add.assoc)

text \<open>Only the first twelve bytes of each header matter.\<close>

lemma blocks_cong:
  assumes "\<And>o' x a. (o', x) \<in> layout p bs \<Longrightarrow> b + o' \<le> a \<Longrightarrow> a < b + o' + 12 \<Longrightarrow> m' a = m a"
    and "blocks m b pv p bs e"
  shows "blocks m' b pv p bs e"
  using assms
proof (induction bs arbitrary: pv p)
  case (Cons x bs)
  have h: "h_magic m' (b + p) = h_magic m (b + p)" "h_used m' (b + p) = h_used m (b + p)"
    "h_next m' (b + p) = h_next m (b + p)" "h_prev m' (b + p) = h_prev m (b + p)"
    by (rule header_cong; rule Cons.prems(1) [of p x]; simp)+
  have "blocks m' b p (p + fst x) bs e"
    by (rule Cons.IH) (use Cons.prems in auto)
  then show ?case using Cons.prems(2) by (simp add: h)
qed simp

lemma layout_bounds: "(o', x) \<in> layout p bs \<Longrightarrow> p \<le> o' \<and> o' + fst x \<le> p + total bs"
  by (induction bs arbitrary: p) force+

lemma blocks_sizes: "blocks m b pv p bs e \<Longrightarrow> x \<in> set bs \<Longrightarrow> 16 \<le> fst x \<and> 4 dvd fst x"
  by (induction bs arbitrary: pv p) auto

lemma layout_set: "(o', x) \<in> layout p bs \<Longrightarrow> x \<in> set bs"
  by (induction bs arbitrary: p) auto

lemma blocks_total_dvd: "blocks m b pv p bs e \<Longrightarrow> 4 dvd total bs"
  by (induction bs arbitrary: pv p) auto

lemma layout_dvd: "blocks m b pv p bs e \<Longrightarrow> (o', x) \<in> layout p bs \<Longrightarrow> 4 dvd p \<Longrightarrow> 4 dvd o'"
  by (induction bs arbitrary: pv p) auto

text \<open>A write that stays out of the range of the blocks.\<close>

lemma blocks_frame:
  assumes "blocks m b pv p bs e" and "\<And>a. b + p \<le> a \<Longrightarrow> a < b + e \<Longrightarrow> m' a = m a"
  shows "blocks m' b pv p bs e"
proof (rule blocks_cong [OF _ assms(1)])
  fix o' x a assume h: "(o', x) \<in> layout p bs" "b + o' \<le> a" "a < b + o' + 12"
  have "16 \<le> fst x" using assms(1) layout_set [OF h(1)] by (rule blocks_sizes [THEN conjunct1])
  then show "m' a = m a"
    using layout_bounds [OF h(1)] h(2,3) blocks_end [OF assms(1)] by (intro assms(2)) linarith+
qed

text \<open>Relinking the first block to another predecessor.\<close>

lemma blocks_set_prev:
  assumes "blocks m b pv p (x # bs) e" and "q < 2 ^ 32"
  shows "blocks (set_prev (b + p) q m) b q p (x # bs) e"
proof -
  have "blocks (set_prev (b + p) q m) b p (p + fst x) bs e"
    by (rule blocks_frame [of m]) (use assms(1) in \<open>auto intro!: header_out\<close>)
  then show ?thesis using assms by simp
qed

text \<open>The zipper: one block in its context, found from its offset.\<close>

lemma layout_split:
  assumes "(o', x) \<in> layout p bs"
  obtains xs ys where "bs = xs @ x # ys" and "o' = p + total xs"
  using assms
proof (induction bs arbitrary: p thesis)
  case (Cons y bs)
  show ?case
  proof (cases "(o', x) = (p, y)")
    case True
    then show ?thesis using Cons.prems(1) [of "[]" bs] by simp
  next
    case False
    then have "(o', x) \<in> layout (p + fst y) bs" using Cons.prems(2) by auto
    then obtain xs ys where "bs = xs @ x # ys" "o' = p + fst y + total xs"
      using Cons.IH by blast
    then show ?thesis using Cons.prems(1) [of "y # xs" ys] by simp
  qed
qed simp

section \<open>Well-formed heaps\<close>

abbreviation coalesced :: "block list \<Rightarrow> bool" where
  "coalesced \<equiv> successively (\<lambda>x y. snd x \<or> snd y)"

definition first_free :: "block list \<Rightarrow> nat" where
  "first_free bs = total (takeWhile snd bs)"

text \<open>
  The blocks tile the heap up to the end stub, which counts as used; no two free blocks are
  neighbours; \<open>lfree\<close> is the lowest free block; the statistics are exact.
\<close>

definition heap_wf :: "block list \<Rightarrow> 'a heap_scheme \<Rightarrow> bool" where
  "heap_wf bs s \<longleftrightarrow>
     blocks (ram s) (heap_ptr s) 0 0 bs (mem_size_aligned s + 16) \<and> coalesced bs
     \<and> heap_end s = heap_ptr s + (mem_size_aligned s + 16) \<and> h_used (ram s) (heap_end s) = 1
     \<and> lfree s = heap_ptr s + first_free bs \<and> used_mem s = in_use bs \<and> used_mem s \<le> max_mem s
     \<and> max_mem s \<le> mem_size_aligned s + 16
     \<and> 4 dvd heap_ptr s \<and> 12 \<le> mem_size_aligned s \<and> heap_end s + 16 \<le> 2 ^ 32"

text \<open>The addresses of headers, the end stub included, and those of the data in use.\<close>

definition in_header :: "nat \<Rightarrow> block list \<Rightarrow> nat \<Rightarrow> bool" where
  "in_header b bs a \<longleftrightarrow>
     (\<exists>(o', x) \<in> layout 0 bs. b + o' \<le> a \<and> a < b + o' + 16)
     \<or> (b + total bs \<le> a \<and> a < b + total bs + 16)"

definition live_data :: "nat \<Rightarrow> block list \<Rightarrow> nat \<Rightarrow> bool" where
  "live_data b bs a \<longleftrightarrow> (\<exists>o' n. (o', n, True) \<in> layout 0 bs \<and> b + o' + 16 \<le> a \<and> a < b + o' + n)"

lemma layout_apart:
  assumes "(o1, x1) \<in> layout p bs" and "(o2, x2) \<in> layout p bs"
  shows "(o1, x1) = (o2, x2) \<or> o1 + fst x1 \<le> o2 \<or> o2 + fst x2 \<le> o1"
  using assms
proof (induction bs arbitrary: p)
  case (Cons y bs)
  have le: "p + fst y \<le> o'" if "(o', x) \<in> layout (p + fst y) bs" for o' x
    using layout_bounds [OF that] by simp
  show ?case using Cons le [of o1 x1] le [of o2 x2] by auto
qed simp

lemma live_not_header:
  assumes "\<forall>x \<in> set bs. 16 \<le> fst x" and "live_data b bs a"
  shows "\<not> in_header b bs a"
proof -
  obtain o1 n where l: "(o1, n, True) \<in> layout 0 bs" "b + o1 + 16 \<le> a" "a < b + o1 + n"
    using assms(2) by (auto simp: live_data_def)
  have "o1 + n \<le> total bs" using layout_bounds [OF l(1)] by simp
  moreover have "\<not> (b + o' \<le> a \<and> a < b + o' + 16)" if "(o', x) \<in> layout 0 bs" for o' x
  proof -
    have "16 \<le> fst x" using assms(1) layout_set [OF that] by simp
    then show ?thesis using layout_apart [OF l(1) that] l by auto
  qed
  ultimately show ?thesis using l by (auto simp: in_header_def)
qed

lemma first_free_append:
  "first_free (xs @ ys) = (if list_all snd xs then total xs + first_free ys else first_free xs)"
  by (induction xs) (auto simp: first_free_def)

lemma first_free_simps [simp]:
  "first_free [] = 0" "first_free (x # bs) = (if snd x then fst x + first_free bs else 0)"
  by (simp_all add: first_free_def)

lemma first_free_le: "first_free bs \<le> total bs"
  by (induction bs) auto

text \<open>The abstract effect of releasing: neighbouring free blocks become one.\<close>

fun join :: "block list \<Rightarrow> block list" where
  "join (x # y # zs) =
     (if snd x \<or> snd y then x # join (y # zs) else join ((fst x + fst y, False) # zs))"
| "join bs = bs"

lemma total_join [simp]: "total (join bs) = total bs"
  by (induction bs rule: join.induct) auto

lemma in_use_join [simp]: "in_use (join bs) = in_use bs"
  by (induction bs rule: join.induct) auto

lemma first_free_join [simp]: "first_free (join bs) = first_free bs"
  by (induction bs rule: join.induct) auto

lemma hd_join: "join (x # bs) \<noteq> [] \<and> snd (hd (join (x # bs))) = snd x"
  by (induction "x # bs" arbitrary: x bs rule: join.induct) auto

lemma coalesced_join: "coalesced (join bs)"
proof (induction bs rule: join.induct)
  case (1 x y zs)
  then show ?case using hd_join [of y zs] by (auto simp: successively_Cons)
qed auto

lemma join_id: "coalesced bs \<Longrightarrow> join bs = bs"
  by (induction bs rule: join.induct) auto

lemma join_append_used:
  "coalesced (xs @ [x]) \<Longrightarrow> snd x \<Longrightarrow> join (xs @ x # ys) = xs @ join (x # ys)"
  by (induction xs rule: join.induct) auto

lemma join_used_Cons: "snd x \<Longrightarrow> join (x # ys) = x # join ys"
  by (cases ys) auto

lemma live_join: "(o', n, True) \<in> layout p (join bs) \<longleftrightarrow> (o', n, True) \<in> layout p bs"
  by (induction bs arbitrary: p rule: join.induct) (auto simp: add.assoc)

section \<open>Effect of the operations on the blocks\<close>

lemma blocks_flag:
  assumes "blocks m b 0 0 (xs @ (n, u) # ys) e" and "a = b + total xs"
  shows "blocks (set_used a (of_bool v) m) b 0 0 (xs @ (n, v) # ys) e"
    and "blocks (set_magic a HEAP_MAGIC m) b 0 0 (xs @ (n, u) # ys) e"
    and "blocks (rt_mem_setname a nm m) b 0 0 (xs @ (n, u) # ys) e"
proof -
  have x: "blocks m b 0 0 xs (total xs)"
    and y: "blocks m b (total xs) (total xs + n) ys e" and n: "16 \<le> n"
    and h: "h_magic m a = HEAP_MAGIC" "h_used m a = of_bool u" "h_next m a = total xs + n"
      "h_prev m a = last_at 0 0 xs" "4 dvd n"
    using assms by (simp_all add: blocks_append)
  have fr: "blocks m' b 0 0 xs (total xs)" "blocks m' b (total xs) (total xs + n) ys e"
    if "\<And>c. c < a \<or> a + 16 \<le> c \<Longrightarrow> m' c = m c" for m'
    using that n assms(2) by (auto intro: blocks_frame [OF x] blocks_frame [OF y])
  note fr1 = fr [of "set_used a (of_bool v) m"] and fr2 = fr [of "set_magic a HEAP_MAGIC m"]
    and fr3 = fr [of "rt_mem_setname a nm m"]
  show "blocks (set_used a (of_bool v) m) b 0 0 (xs @ (n, v) # ys) e"
    using fr1 h n assms(2) by (simp add: blocks_append header_out)
  show "blocks (set_magic a HEAP_MAGIC m) b 0 0 (xs @ (n, u) # ys) e"
    using fr2 h n assms(2) by (simp add: blocks_append header_out HEAP_MAGIC_def)
  show "blocks (rt_mem_setname a nm m) b 0 0 (xs @ (n, u) # ys) e"
    using fr3 h n assms(2) by (simp add: blocks_append header_out)
qed

lemma blocks_merge:
  assumes bl: "blocks m b 0 0 (xs @ (n, u) # (k, w) # ys) e" and e: "e < 2 ^ 32"
    and a: "a = b + total xs" and nx: "nx = total xs + n + k"
  shows "blocks (set_prev (b + nx) (total xs) (set_next a nx m)) b 0 0 (xs @ (n + k, u) # ys) e"
proof -
  let ?m1 = "set_next a nx m" and ?o = "total xs"
  let ?m2 = "set_prev (b + nx) ?o ?m1"
  have x: "blocks m b 0 0 xs ?o" and y: "blocks m b (?o + n) nx ys e"
    and h: "h_magic m a = HEAP_MAGIC" "h_used m a = of_bool u" "h_prev m a = last_at 0 0 xs"
    and n: "16 \<le> n" "16 \<le> k" "4 dvd n" "4 dvd k"
    using bl a nx by (simp_all add: blocks_append add.assoc)
  have le: "nx \<le> e" using blocks_end [OF y] by simp
  have "blocks ?m2 b 0 0 xs ?o"
    by (rule blocks_frame [OF x]) (simp add: header_out a nx)
  moreover have "blocks ?m2 b ?o nx ys e"
  proof (cases ys)
    case (Cons z zs)
    have "blocks ?m1 b (?o + n) nx ys e"
      by (rule blocks_frame [OF y]) (use n in \<open>simp add: header_out a nx\<close>)
    then show ?thesis unfolding Cons by (rule blocks_set_prev) (use le e nx in simp)
  qed (use y in simp)
  moreover have "h_magic ?m2 a = HEAP_MAGIC" "h_used ?m2 a = of_bool u" "h_next ?m2 a = nx"
    "h_prev ?m2 a = last_at 0 0 xs"
    using h n le e by (simp_all add: header_other a nx)
  ultimately show ?thesis using n a nx by (simp add: blocks_append add.assoc)
qed

lemma in_header_at: "b + total xs \<le> a \<Longrightarrow> a < b + total xs + 16 \<Longrightarrow> in_header b (xs @ ys) a"
  by (cases ys) (auto simp: in_header_def)

lemma not_in_header:
  assumes "\<not> in_header b bs a" and "bs = xs @ ys"
  shows "a < b + total xs \<or> b + total xs + 16 \<le> a"
  using assms in_header_at [of b xs a ys] by (meson not_le)

lemma blocks_split:
  assumes bl: "blocks (ram s) b 0 0 (xs @ (n, u) # ys) e" and e: "b + e < 2 ^ 32"
    and b: "b = heap_ptr s" "e = mem_size_aligned s + 16" and o: "ptr = total xs"
    and n: "4 dvd sz" "sz + 32 \<le> n" and p2: "ptr2 = ptr + 16 + sz"
  shows "blocks (split_block ptr ptr2 s) b 0 0 (xs @ (16 + sz, u) # (n - 16 - sz, False) # ys) e"
      (is "?A")
    and "\<not> in_header b (xs @ (16 + sz, u) # (n - 16 - sz, False) # ys) a \<Longrightarrow>
         split_block ptr ptr2 s a = ram s a" (is "?N \<Longrightarrow> ?B")
    and "h_used (split_block ptr ptr2 s) (b + e) = h_used (ram s) (b + e)" (is "?C")
proof -
  let ?mem = "b + ptr" and ?mem2 = "b + ptr2" and ?nx = "ptr + n"
  have x: "blocks (ram s) b 0 0 xs ptr" and y: "blocks (ram s) b ptr ?nx ys e"
    and h: "h_magic (ram s) ?mem = HEAP_MAGIC" "h_used (ram s) ?mem = of_bool u"
      "h_next (ram s) ?mem = ?nx" "h_prev (ram s) ?mem = last_at 0 0 xs"
    and dn: "4 dvd n" using bl o by (simp_all add: blocks_append)
  have le: "?nx \<le> e" using blocks_end [OF y] by simp
  define m1 where "m1 = rt_mem_setname ?mem2 ''    '' (set_prev ?mem2 ptr
       (set_next ?mem2 (h_next (ram s) ?mem) (set_used ?mem2 0 (set_magic ?mem2 HEAP_MAGIC (ram s)))))"
  define m2 where "m2 = set_next ?mem ptr2 m1"
  have m1: "m1 a = ram s a" if "a < ?mem2 \<or> ?mem2 + 16 \<le> a" for a
    using that by (simp add: m1_def header_out)
  have m2: "m2 a = ram s a" if "a < ?mem \<or> ?mem + 16 \<le> a" "a < ?mem2 \<or> ?mem2 + 16 \<le> a" for a
    using that by (simp add: m2_def header_out m1)
  have nxt: "h_next m2 ?mem2 = ?nx"
    using n p2 h le e by (simp add: m2_def m1_def header_other)
  have ys: "e \<noteq> ?nx" if "ys \<noteq> []" using that y by (cases ys) (auto dest: blocks_end)
  have ys0: "ys = []" if "?nx \<noteq> e \<Longrightarrow> False" using that ys by blast
  define m3 where "m3 = (if ys = [] then m2 else set_prev (b + ?nx) ptr2 m2)"
  have "?nx = e" if "ys = []" using y that by simp
  then have m3: "split_block ptr ptr2 s = m3"
    unfolding split_block_def Let_def m3_def b(1) [symmetric] m1_def [symmetric] m2_def [symmetric]
    using nxt ys b e by (auto simp: add32_def SIZEOF_STRUCT_MEM_def)
  have hm3: "h_magic m3 ?mem = HEAP_MAGIC" "h_used m3 ?mem = of_bool u" "h_next m3 ?mem = ptr2"
    "h_prev m3 ?mem = last_at 0 0 xs" "h_magic m3 ?mem2 = HEAP_MAGIC" "h_used m3 ?mem2 = 0"
    "h_next m3 ?mem2 = ?nx" "h_prev m3 ?mem2 = ptr"
    using n p2 h le e by (simp_all add: m3_def m2_def m1_def header_other HEAP_MAGIC_def)
  have bx: "blocks m3 b 0 0 xs ptr"
    by (rule blocks_frame [OF x]) (use p2 n in \<open>simp add: m3_def header_out m2\<close>)
  have by2: "blocks m2 b ptr ?nx ys e"
    by (rule blocks_frame [OF y]) (use p2 n in \<open>simp add: m2\<close>)
  have by3: "blocks m3 b ptr2 ?nx ys e"
  proof (cases ys)
    case (Cons z zs)
    show ?thesis using by2 unfolding m3_def Cons
      by (simp only: if_False list.distinct) (rule blocks_set_prev; use le e p2 n in simp)
  qed (use y in simp)
  have d: "4 dvd n - 16 - sz" using n dn by (simp add: dvd_diff_nat)
  show ?A unfolding m3
    using bx by3 hm3 d n p2 o by (simp add: blocks_append add.assoc)
  show ?B if ?N
  proof -
    let ?bs = "xs @ (16 + sz, u) # (n - 16 - sz, False) # ys"
    have "a < ?mem \<or> ?mem + 16 \<le> a" using not_in_header [OF that, of xs] o by simp
    moreover have "a < ?mem2 \<or> ?mem2 + 16 \<le> a"
      using not_in_header [OF that, of "xs @ [(16 + sz, u)]"] unfolding o p2 by (simp add: algebra_simps)
    moreover have "a < b + ?nx \<or> b + ?nx + 16 \<le> a"
      using not_in_header [OF that, of "xs @ [(16 + sz, u), (n - 16 - sz, False)]" ys] o n by simp
    ultimately show ?thesis unfolding m3 by (simp add: m3_def header_out m2)
  qed
  show ?C unfolding m3 using le p2 n ys blocks_room [OF y]
    by (auto simp: m3_def m2_def m1_def header_other)
qed

text \<open>
  \<open>plug_holes\<close> on a free block \<open>(n, False)\<close> of a heap that is coalesced but for its neighbours
  joins it with those; what is not a header stays as it is.
\<close>

lemma plug_forward_blocks:
  assumes bl: "blocks (ram s) b 0 0 (xs @ (n, False) # ys) e" and e: "b + e < 2 ^ 32"
    and b: "b = heap_ptr s" "heap_end s = b + e" "h_used (ram s) (b + e) = 1"
    and lf: "lfree s = b + first_free (xs @ (n, False) # ys)"
    and co: "coalesced ys" and mem: "mem = b + total xs"
  obtains m' n' ys' where "plug_forward mem s = s\<lparr>ram := m'\<rparr>"
    and "blocks m' b 0 0 (xs @ (n', False) # ys') e" and "h_used m' (b + e) = 1"
    and "join ((n, False) # ys) = (n', False) # ys'"
    and "coalesced ys'" "ys' = [] \<or> snd (hd ys')"
    and "\<And>a. \<not> in_header b (xs @ (n, False) # ys) a \<Longrightarrow> m' a = ram s a"
proof -
  have n: "16 \<le> n" and h: "h_next (ram s) mem = total xs + n"
    and y: "blocks (ram s) b (total xs) (total xs + n) ys e"
    using bl mem by (simp_all add: blocks_append)
  show ?thesis
  proof (cases "ys \<noteq> [] \<and> \<not> snd (hd ys)")
    case False
    have "plug_forward mem s = s"
      using False h y n mem b by (cases ys) (auto simp: plug_forward_def Let_def add.assoc)
    moreover have "join ((n, False) # ys) = (n, False) # ys"
      using False join_id [OF co] by (cases ys) auto
    ultimately show ?thesis using that [of "ram s" n ys] bl b co False by simp
  next
    case True
    then obtain k ys' where ys: "ys = (k, False) # ys'" by (cases ys) auto
    let ?o = "total xs" and ?nx = "total xs + n + k"
    let ?m = "set_prev (b + ?nx) ?o (set_next mem ?nx (ram s))"
    have k: "16 \<le> k" "h_used (ram s) (b + (?o + n)) = 0" "h_next (ram s) (b + (?o + n)) = ?nx"
      "?nx \<le> e" using y unfolding ys by (auto dest: blocks_end)
    have ff: "first_free (xs @ (n, False) # ys) \<le> ?o"
      using first_free_le [of xs] by (simp add: first_free_append)
    have eq: "plug_forward mem s = s\<lparr>ram := ?m\<rparr>"
      using h k b mem n ff lf by (simp add: plug_forward_def Let_def add.assoc)
    have bl': "blocks ?m b 0 0 (xs @ (n + k, False) # ys') e"
      by (rule blocks_merge) (use bl ys e mem in \<open>simp_all add: add.assoc\<close>)
    have jn: "join ((n, False) # ys) = (n + k, False) # ys'"
      using co ys by (cases ys') (auto simp: join_id)
    have end_used: "h_used ?m (b + e) = 1"
    proof (cases "?nx = e")
      case True
      then show ?thesis using b k n mem by (simp add: header_other)
    next
      case False
      then have "?nx + 16 \<le> e"
        using y ys blocks_room [of "ram s" b "?o + n" ?nx ys' e] by (auto simp: add.assoc)
      then show ?thesis using b k n mem by (simp add: header_other)
    qed
    have out: "?m a = ram s a" if a: "\<not> in_header b (xs @ (n, False) # ys) a" for a
      using not_in_header [OF a, of xs] not_in_header [OF a, of "xs @ [(n, False), (k, False)]" ys']
      by (simp add: ys header_out mem add.assoc)
    show ?thesis
      by (rule that [OF eq bl' end_used jn _ _ out]) (use co ys in \<open>cases ys'; simp\<close>)+
  qed
qed

lemma plug_backward_blocks:
  assumes bl: "blocks (ram s) b 0 0 (xs @ (n, False) # ys) e" and e: "b + e < 2 ^ 32"
    and b: "b = heap_ptr s" "h_used (ram s) (b + e) = 1"
    and lf: "lfree s = b + first_free (xs @ (n, False) # ys)"
    and co: "coalesced xs" "coalesced ys" "ys = [] \<or> snd (hd ys)" and mem: "mem = b + total xs"
  obtains m' where "plug_backward mem s = s\<lparr>ram := m'\<rparr>"
    and "blocks m' b 0 0 (join (xs @ (n, False) # ys)) e" and "h_used m' (b + e) = 1"
    and "\<And>a. \<not> in_header b (xs @ (n, False) # ys) a \<Longrightarrow> m' a = ram s a"
proof -
  let ?o = "total xs" and ?nx = "total xs + n"
  have n: "16 \<le> n" and h: "h_next (ram s) mem = ?nx" "h_prev (ram s) mem = last_at 0 0 xs"
    and y: "blocks (ram s) b ?o ?nx ys e"
    using bl mem by (simp_all add: blocks_append)
  have jy: "join ((i, False) # ys) = (i, False) # ys" for i
    using co(2,3) by (cases ys) (auto simp: join_id)
  have le: "?nx \<le> e" using blocks_end [OF y] by simp
  show ?thesis
  proof (cases xs rule: rev_cases)
    case Nil
    then have "plug_backward mem s = s"
      using h b mem by (simp add: plug_backward_def Let_def)
    then show ?thesis using that [of "ram s"] bl b Nil jy by simp
  next
    case (snoc xs' x)
    obtain k u where x: "x = (k, u)" by (cases x)
    let ?p = "total xs'" and ?pm = "b + total xs'"
    have k: "16 \<le> k" "h_used (ram s) ?pm = of_bool u" and pv: "h_prev (ram s) mem = ?p"
      using bl h snoc x by (simp_all add: blocks_append)
    show ?thesis
    proof (cases u)
      case True
      have "plug_backward mem s = s"
        using k pv True b by (simp add: plug_backward_def Let_def)
      moreover have "join (xs @ (n, False) # ys) = xs @ (n, False) # ys"
        using join_append_used [of xs' x "(n, False) # ys"] co(1) True snoc x jy
        by (simp add: join_used_Cons)
      ultimately show ?thesis using that [of "ram s"] bl b by simp
    next
      case False
      let ?m = "set_prev (b + ?nx) ?p (set_next ?pm ?nx (ram s))"
      have "lfree s \<noteq> mem"
        using lf first_free_le [of xs'] k mem snoc x False by (simp add: first_free_append)
      then have eq: "plug_backward mem s = s\<lparr>ram := ?m\<rparr>"
        using k pv h b False mem snoc x by (simp add: plug_backward_def Let_def)
      have bl': "blocks ?m b 0 0 (xs' @ (k + n, False) # ys) e"
        by (rule blocks_merge) (use bl snoc x False e in \<open>simp_all add: add.assoc\<close>)
      have jn: "join (xs @ (n, False) # ys) = xs' @ (k + n, False) # ys" (is "?J")
      proof -
        have "join (xs' @ (k, False) # (n, False) # ys) = xs' @ join ((k, False) # (n, False) # ys)"
        proof (cases xs' rule: rev_cases)
          case (snoc zs z)
          have "coalesced (zs @ [z])" "snd z"
            using co(1) \<open>xs = xs' @ [x]\<close> snoc x False by (auto simp: successively_append_iff)
          then show ?thesis using snoc join_append_used [of zs z] by (simp add: join_used_Cons)
        qed simp
        then show ?J using \<open>xs = xs' @ [x]\<close> x False jy by simp
      qed
      have end_used: "h_used ?m (b + e) = 1"
      proof (cases "?nx = e")
        case True
        then show ?thesis using b k n snoc x by (simp add: header_other)
      next
        case False
        then have "?nx + 16 \<le> e" using blocks_room [OF y] by auto
        then show ?thesis using b k n snoc x by (simp add: header_other)
      qed
      have out: "?m a = ram s a" if a: "\<not> in_header b (xs @ (n, False) # ys) a" for a
        using not_in_header [OF a, of xs'] not_in_header [OF a, of "xs @ [(n, False)]" ys]
        by (simp add: snoc header_out add.assoc)
      show ?thesis by (rule that [OF eq _ end_used out]) (use bl' jn in simp_all)
    qed
  qed
qed

end
