(* ===== verification/Heap_Check.thy ===== *)
theory Heap_Check
  imports Small_Mem
begin

text \<open>
  What the heap of \<open>Small_Mem\<close> guarantees. Allocation and release are refinements of first fit
  and joining on the list of blocks; every sequence of calls keeps the heap well formed, and no
  call touches the data of a block in use.
\<close>

section \<open>The semaphore of the heap\<close>

definition heap_idle :: "'a heap_scheme \<Rightarrow> bool" where
  "heap_idle s \<longleftrightarrow> sem_value (sems s HEAP_SEM) = 1 \<and> sem_suspend (sems s HEAP_SEM) = []"

text \<open>Inside the critical section of an idle heap: nobody else has it, nobody waits.\<close>

definition heap_taken :: "'a heap_scheme \<Rightarrow> 'a heap_scheme" where
  "heap_taken s = upd_sem HEAP_SEM (\<lambda>x. x\<lparr>sem_value := 0\<rparr>) s"

lemma heap_take_idle:
  "heap_idle s \<Longrightarrow> rt_sem_take self HEAP_SEM t s = (Some RT_EOK, heap_taken s)"
  by (simp add: heap_idle_def rt_sem_take_def heap_taken_def upd_sem_def)

lemma heap_release_taken:
  assumes "heap_idle s"
  shows "snd (rt_sem_release HEAP_SEM (heap_taken s)) = s"
proof -
  have "(sems s)(HEAP_SEM := (sems s HEAP_SEM)\<lparr>sem_value := 1\<rparr>) = sems s"
    using assms by (simp add: heap_idle_def fun_upd_idem_iff)
  then show ?thesis
    using assms by (simp add: heap_idle_def heap_taken_def rt_sem_release_def upd_sem_def
        RT_SEM_VALUE_MAX_def)
qed

lemma heap_taken_sel [simp]:
  "ram (heap_taken s) = ram s" "heap_ptr (heap_taken s) = heap_ptr s"
  "heap_end (heap_taken s) = heap_end s" "lfree (heap_taken s) = lfree s"
  "mem_size_aligned (heap_taken s) = mem_size_aligned s" "used_mem (heap_taken s) = used_mem s"
  "max_mem (heap_taken s) = max_mem s" "halted (heap_taken s) = halted s"
  by (simp_all add: heap_taken_def upd_sem_def)

lemma heap_taken_upd [simp]:
  "(heap_taken s)\<lparr>ram := m\<rparr> = heap_taken (s\<lparr>ram := m\<rparr>)"
  "(heap_taken s)\<lparr>lfree := l\<rparr> = heap_taken (s\<lparr>lfree := l\<rparr>)"
  "(heap_taken s)\<lparr>used_mem := u\<rparr> = heap_taken (s\<lparr>used_mem := u\<rparr>)"
  "(heap_taken s)\<lparr>max_mem := u\<rparr> = heap_taken (s\<lparr>max_mem := u\<rparr>)"
  "(heap_taken s)\<lparr>halted := h\<rparr> = heap_taken (s\<lparr>halted := h\<rparr>)"
  by (simp_all add: heap_taken_def upd_sem_def)

lemma heap_idle_upd [simp]:
  "heap_idle (s\<lparr>ram := m\<rparr>) = heap_idle s" "heap_idle (s\<lparr>lfree := l\<rparr>) = heap_idle s"
  "heap_idle (s\<lparr>used_mem := u\<rparr>) = heap_idle s" "heap_idle (s\<lparr>max_mem := u\<rparr>) = heap_idle s"
  by (simp_all add: heap_idle_def)

lemma malloc_search_taken [simp]:
  "malloc_search fuel need p (heap_taken s) = malloc_search fuel need p s"
  by (induction fuel arbitrary: p) (auto simp: Let_def)

lemma lfree_next_taken [simp]: "lfree_next fuel a (heap_taken s) = lfree_next fuel a s"
  by (induction fuel arbitrary: a) auto

lemma split_block_taken [simp]: "split_block p q (heap_taken s) = split_block p q s"
  by (simp add: split_block_def Let_def)

lemma split_block_count [simp]: "split_block p q (s\<lparr>used_mem := u\<rparr>) = split_block p q s"
  by (simp add: split_block_def Let_def)

lemma plug_holes_taken [simp]: "plug_holes mem (heap_taken s) = heap_taken (plug_holes mem s)"
  by (simp add: plug_holes_def plug_forward_def plug_backward_def Let_def)

lemma malloc_take_taken [simp]: "malloc_take need p (heap_taken s) = heap_taken (malloc_take need p s)"
  by (simp add: malloc_take_def count_used_def split_block_def Let_def)

text \<open>Nothing but the fields of the heap has changed.\<close>

definition heap_only :: "'a heap_scheme \<Rightarrow> 'a heap_scheme \<Rightarrow> bool" where
  "heap_only s s' \<longleftrightarrow> s' = s\<lparr>ram := ram s', lfree := lfree s', used_mem := used_mem s',
     max_mem := max_mem s'\<rparr>"

section \<open>First fit\<close>

text \<open>
  The specification of allocation. \<open>lim\<close> is the offset at which the search gives up; a block is
  split when the rest can hold a header and \<open>MIN_SIZE_ALIGNED\<close> bytes.
\<close>

definition carve :: "nat \<Rightarrow> nat \<Rightarrow> block list" where
  "carve need n = (if need + 44 \<le> n then [(16 + need, True), (n - 16 - need, False)] else [(n, True)])"

fun first_fit :: "nat \<Rightarrow> nat \<Rightarrow> nat \<Rightarrow> block list \<Rightarrow> (nat \<times> block list) option" where
  "first_fit lim need p [] = None"
| "first_fit lim need p (x # bs) =
     (if lim \<le> p then None
      else if \<not> snd x \<and> need + 16 \<le> fst x then Some (p, carve need (fst x) @ bs)
      else map_option (\<lambda>(q, ys). (q, x # ys)) (first_fit lim need (p + fst x) bs))"

lemma first_fit_Some:
  assumes "first_fit lim need p bs = Some (q, bs')"
  obtains xs n ys where "bs = xs @ (n, False) # ys" and "bs' = xs @ carve need n @ ys"
    and "q = p + total xs" and "need + 16 \<le> n" and "q < lim"
    and "\<And>k. (k, False) \<in> set xs \<Longrightarrow> k < need + 16"
  using assms
proof (induction bs arbitrary: p bs' thesis)
  case (Cons x bs)
  show ?case
  proof (cases "\<not> snd x \<and> need + 16 \<le> fst x")
    case True
    then show ?thesis
      using Cons.prems(1) [of "[]" "fst x" bs] Cons.prems(2)
      by (cases x) (auto split: if_splits)
  next
    case False
    then obtain ys where "first_fit lim need (p + fst x) bs = Some (q, ys)" "bs' = x # ys"
      using Cons.prems(2) by (auto split: if_splits)
    then obtain xs n zs where "bs = xs @ (n, False) # zs" "ys = xs @ carve need n @ zs"
      "q = p + fst x + total xs" "need + 16 \<le> n" "q < lim"
      "\<And>k. (k, False) \<in> set xs \<Longrightarrow> k < need + 16"
      using Cons.IH by metis
    then show ?thesis
      using Cons.prems(1) [of "x # xs" n zs] False \<open>bs' = x # ys\<close> by (cases x) force
  qed
qed simp

lemma first_fit_None:
  assumes "first_fit lim need p bs = None" and "(q, n, False) \<in> layout p bs"
  shows "n < need + 16 \<or> lim \<le> q"
  using assms
proof (induction bs arbitrary: p)
  case (Cons x bs)
  show ?case
  proof (cases "lim \<le> p")
    case True
    then show ?thesis using layout_bounds [OF Cons.prems(2)] by auto
  next
    case False
    then show ?thesis using Cons by (auto split: if_splits)
  qed
qed simp

lemma first_fit_skip:
  "list_all snd us \<Longrightarrow> map_option fst (first_fit lim need p (us @ bs)) =
     map_option fst (first_fit lim need (p + total us) bs)"
proof (induction us arbitrary: p)
  case (Cons u us)
  then have IH: "map_option fst (first_fit lim need (p + fst u) (us @ bs)) =
     map_option fst (first_fit lim need (p + fst u + total us) bs)" by simp
  have "first_fit lim need q bs = None" if "lim \<le> q" for q
    using that by (cases bs) auto
  then show ?case using IH Cons.prems
    by (auto simp: option.map_comp comp_def case_prod_beta add.assoc)
qed simp

section \<open>The loops\<close>

lemma malloc_search_first_fit:
  assumes "blocks (ram s) (heap_ptr s) pv p bs (mem_size_aligned s + 16)" and "length bs < fuel"
    and "need \<le> mem_size_aligned s" and "mem_size_aligned s + 32 \<le> 2 ^ 32"
  shows "malloc_search fuel need p s =
    Some (map_option fst (first_fit (mem_size_aligned s - need) need p bs))"
proof -
  have lim: "sub32 (mem_size_aligned s) need = mem_size_aligned s - need"
    using assms(3,4) by (simp add: sub32_small)
  show ?thesis using assms(1,2)
proof (induction bs arbitrary: fuel pv p)
  case Nil
  then show ?case using assms(3) by (cases fuel) (auto simp: lim)
next
  case (Cons x bs)
  obtain f where f: "fuel = Suc f" "length bs < f" using Cons.prems(2) by (cases fuel) auto
  have nx: "h_next (ram s) (heap_ptr s + p) = p + fst x" and x16: "16 \<le> fst x"
    and u: "h_used (ram s) (heap_ptr s + p) = of_bool (snd x)"
    and tl: "blocks (ram s) (heap_ptr s) p (p + fst x) bs (mem_size_aligned s + 16)"
    using Cons.prems(1) by simp_all
  have le: "p + fst x \<le> mem_size_aligned s + 16" using blocks_end [OF tl] by simp
  have room: "sub32 (p + fst x) (add32 p SIZEOF_STRUCT_MEM) = fst x - 16"
    using le x16 assms(4) by (simp add: sub32_small add32_small SIZEOF_STRUCT_MEM_def)
  have IH: "malloc_search f need (p + fst x) s =
      Some (map_option fst (first_fit (mem_size_aligned s - need) need (p + fst x) bs))"
    by (rule Cons.IH [OF tl f(2)])
  show ?case
    using u nx x16 unfolding f(1)
    by (auto simp: lim room IH option.map_comp comp_def case_prod_beta)
qed
qed

lemma lfree_next_first_free:
  assumes "blocks (ram s) (heap_ptr s) pv p bs e" and "heap_end s = heap_ptr s + e"
    and "length bs < fuel"
  shows "lfree_next fuel (heap_ptr s + p) s = Some (heap_ptr s + p + first_free bs)"
  using assms(1,3)
proof (induction bs arbitrary: fuel pv p)
  case Nil
  then show ?case using assms(2) by (cases fuel) simp_all
next
  case (Cons x bs)
  obtain f where f: "fuel = Suc f" "length bs < f" using Cons.prems(2) by (cases fuel) auto
  have tl: "blocks (ram s) (heap_ptr s) p (p + fst x) bs e" and h: "16 \<le> fst x"
    "h_next (ram s) (heap_ptr s + p) = p + fst x"
    "h_used (ram s) (heap_ptr s + p) = of_bool (snd x)" using Cons.prems(1) by simp_all
  have "p \<noteq> e" using blocks_end [OF tl] h by simp
  then show ?case using Cons.IH [OF tl f(2)] h assms(2) unfolding f(1)
    by (auto simp: add.assoc)
qed

lemma memcheck_blocks:
  assumes "blocks (ram s) (heap_ptr s) pv p bs (mem_size_aligned s + 16)"
    and "heap_end s = heap_ptr s + (mem_size_aligned s + 16)" and "length bs < fuel"
  shows "memcheck fuel (heap_ptr s + p) s = Some True"
  using assms(1,3)
proof (induction bs arbitrary: fuel pv p)
  case Nil
  then show ?case using assms(2) by (cases fuel) simp_all
next
  case (Cons x bs)
  obtain f where f: "fuel = Suc f" "length bs < f" using Cons.prems(2) by (cases fuel) auto
  have tl: "blocks (ram s) (heap_ptr s) p (p + fst x) bs (mem_size_aligned s + 16)"
    and h: "16 \<le> fst x" "h_next (ram s) (heap_ptr s + p) = p + fst x"
    "h_used (ram s) (heap_ptr s + p) = of_bool (snd x)"
    "h_magic (ram s) (heap_ptr s + p) = HEAP_MAGIC" using Cons.prems(1) by simp_all
  have "p + 16 \<le> mem_size_aligned s + 16" using blocks_end [OF tl] h by simp
  then show ?case using Cons.IH [OF tl f(2)] h assms(2) unfolding f(1)
    by (auto simp: Let_def add.assoc)
qed

section \<open>Allocation\<close>

text \<open>What the caller asks for: rounded up to words, and at least \<open>MIN_SIZE_ALIGNED\<close>.\<close>

definition need_of :: "nat \<Rightarrow> nat" where
  "need_of n = max 12 ((n + 3) div 4 * 4)"

lemma need_of_dvd: "4 dvd need_of n"
  by (simp add: need_of_def max_def)

lemma need_of_ge: "n \<le> need_of n"
  unfolding need_of_def by linarith

lemma layout_last: "blocks m b pv p (xs @ (n, u) # ys) e \<Longrightarrow> total xs + n + total ys + p = e"
  by (drule blocks_end) simp

lemma in_use_room: "in_use xs + (n + in_use ys) \<le> total (xs @ (n, u) # ys)"
  using in_use_le [of xs] in_use_le [of ys] by simp

lemma count_used_max:
  "count_used n s = s\<lparr>used_mem := add32 (used_mem s) n,
     max_mem := max (max_mem s) (add32 (used_mem s) n)\<rparr>"
  by (simp add: count_used_def Let_def max_def)

text \<open>Taking a free block: the critical section between search and release.\<close>

lemma malloc_take_blocks:
  assumes wf: "heap_wf (xs @ (n, False) # ys) s" and need: "4 dvd need" "12 \<le> need" "need + 16 \<le> n"
    and o: "ptr = total xs" and b: "b = heap_ptr s" and e: "e = mem_size_aligned s + 16"
  obtains m' where "malloc_take need ptr s =
      s\<lparr>ram := m', used_mem := in_use (xs @ carve need n @ ys),
        max_mem := max (max_mem s) (in_use (xs @ carve need n @ ys))\<rparr>"
    and "blocks m' b 0 0 (xs @ carve need n @ ys) e" and "h_used m' (b + e) = 1"
    and "\<And>a. \<not> in_header b (xs @ carve need n @ ys) a \<Longrightarrow> m' a = ram s a"
proof -
  let ?bs = "xs @ (n, False) # ys" and ?mem = "b + ptr"
  have bl: "blocks (ram s) b 0 0 ?bs e" and lt: "b + e < 2 ^ 32" and us: "used_mem s = in_use ?bs"
    and hu: "h_used (ram s) (b + e) = 1" and lt16: "b + e + 16 \<le> 2 ^ 32"
    using wf b e by (auto simp: heap_wf_def)
  have h: "h_next (ram s) ?mem = ptr + n" and y: "blocks (ram s) b ptr (ptr + n) ys e"
    using bl o by (simp_all add: blocks_append)
  have le: "ptr + n \<le> e" using blocks_end [OF y] by simp
  have iu: "in_use xs + (n + in_use ys) \<le> e"
    using in_use_room [of xs n ys False] blocks_end [OF bl] by simp
  have room: "sub32 (ptr + n) (add32 ptr SIZEOF_STRUCT_MEM) = n - 16"
    using le lt need by (simp add: sub32_small add32_small SIZEOF_STRUCT_MEM_def)
  have hdr: "add32 need SIZEOF_STRUCT_MEM = need + 16"
    using le lt16 need by (simp add: add32_small SIZEOF_STRUCT_MEM_def)
  have want: "add32 (need + 16) MIN_SIZE_ALIGNED = need + 28"
    using le lt16 need by (simp add: add32_small MIN_SIZE_ALIGNED_def)
  show ?thesis
  proof (cases "need + 44 \<le> n")
    case True
    let ?p2 = "ptr + 16 + need"
    let ?m1 = "split_block ptr ?p2 s" and ?new = "(16 + need, True) # (n - 16 - need, False) # ys"
    have sp: "blocks ?m1 b 0 0 (xs @ (16 + need, False) # (n - 16 - need, False) # ys) e"
      "h_used ?m1 (b + e) = h_used (ram s) (b + e)"
      by (rule blocks_split [OF bl lt b e o need(1)]; use True in simp)+
    have out: "?m1 a = ram s a"
      if "\<not> in_header b (xs @ (16 + need, False) # (n - 16 - need, False) # ys) a" for a
      by (rule blocks_split(2) [OF bl lt b e o need(1) _ refl that]) (use True in simp)
    have eq: "malloc_take need ptr s =
      s\<lparr>ram := set_used ?mem 1 ?m1, used_mem := in_use (xs @ carve need n @ ys),
        max_mem := max (max_mem s) (in_use (xs @ carve need n @ ys))\<rparr>"
    proof -
      have "add32 (add32 ptr SIZEOF_STRUCT_MEM) need = ?p2"
        using le lt need by (simp add: add32_small SIZEOF_STRUCT_MEM_def)
      moreover have "add32 (used_mem s) (need + 16) = in_use (xs @ carve need n @ ys)"
        using True us iu le lt by (simp add: add32_small carve_def)
      ultimately show ?thesis
        using True
        by (simp add: malloc_take_def count_used_max Let_def b(1) [symmetric] h room hdr want)
    qed
    have bl': "blocks (set_used ?mem 1 ?m1) b 0 0 (xs @ carve need n @ ys) e"
      using blocks_flag(1) [OF sp(1), of ?mem True] True o by (simp add: carve_def)
    have u': "h_used (set_used ?mem 1 ?m1) (b + e) = 1"
      using sp(2) hu le need by (simp add: header_other)
    have ih: "in_header b (xs @ carve need n @ ys) a \<longleftrightarrow>
      in_header b (xs @ (16 + need, False) # (n - 16 - need, False) # ys) a" for a
      using True by (simp add: in_header_def carve_def)
    show ?thesis
    proof (rule that [OF eq bl' u'])
      fix a assume a: "\<not> in_header b (xs @ carve need n @ ys) a"
      then show "set_used ?mem 1 ?m1 a = ram s a"
        using out [of a] ih [of a] not_in_header [OF a refl] o by (simp add: header_out)
    qed
  next
    case False
    have eq: "malloc_take need ptr s =
      s\<lparr>ram := set_used ?mem 1 (ram s), used_mem := in_use (xs @ carve need n @ ys),
        max_mem := max (max_mem s) (in_use (xs @ carve need n @ ys))\<rparr>"
    proof -
      have "sub32 (ptr + n) ptr = n" using le lt by (simp add: sub32_small)
      moreover have "add32 (used_mem s) n = in_use (xs @ carve need n @ ys)"
        using False us iu le lt by (simp add: add32_small carve_def)
      ultimately show ?thesis
        using False need(3)
        by (simp add: malloc_take_def count_used_max Let_def b(1) [symmetric] h room hdr want)
    qed
    show ?thesis
    proof (rule that [OF eq])
      show "blocks (set_used ?mem 1 (ram s)) b 0 0 (xs @ carve need n @ ys) e"
        using blocks_flag(1) [OF bl, of ?mem True] False o by (simp add: carve_def)
      show "h_used (set_used ?mem 1 (ram s)) (b + e) = 1"
        using hu le need by (simp add: header_other)
      fix a assume a: "\<not> in_header b (xs @ carve need n @ ys) a"
      then show "set_used ?mem 1 (ram s) a = ram s a"
        using not_in_header [OF a refl] o by (simp add: header_out)
    qed
  qed
qed

lemma coalesced_take:
  "coalesced (xs @ (n, False) # ys) \<Longrightarrow> coalesced (xs @ carve need n @ ys)"
  by (cases ys) (auto simp: successively_append_iff successively_Cons carve_def)

lemma first_free_less:
  "\<not> list_all snd xs \<Longrightarrow> \<forall>x \<in> set xs. 16 \<le> fst x \<Longrightarrow> first_free xs < total xs"
  by (induction xs) auto

lemma first_free_take:
  "first_free (xs @ (n, False) # ys) = (if list_all snd xs then total xs else first_free xs)"
  by (simp add: first_free_append)

lemma total_carve: "need + 16 \<le> n \<Longrightarrow> total (carve need n) = n"
  by (simp add: carve_def)

lemma malloc_search_wf:
  assumes "heap_wf bs s" and "length bs < fuel" and "need \<le> mem_size_aligned s"
  shows "malloc_search fuel need (lfree s - heap_ptr s) s =
    Some (map_option fst (first_fit (mem_size_aligned s - need) need 0 bs))"
proof -
  let ?us = "takeWhile snd bs" and ?fs = "dropWhile snd bs" and ?lim = "mem_size_aligned s - need"
  have us: "list_all snd ?us" by (induction bs) auto
  have bl: "blocks (ram s) (heap_ptr s) 0 0 (?us @ ?fs) (mem_size_aligned s + 16)"
    and lf: "lfree s = heap_ptr s + first_free bs"
    and big: "heap_ptr s + (mem_size_aligned s + 16) + 16 \<le> 2 ^ 32"
    using assms(1) by (auto simp: heap_wf_def)
  then have "blocks (ram s) (heap_ptr s) (last_at 0 0 ?us) (first_free bs) ?fs
      (mem_size_aligned s + 16)"
    unfolding blocks_append by (simp add: first_free_def)
  moreover have "length ?fs < fuel"
    using assms(2) length_dropWhile_le [of snd bs] by linarith
  ultimately have "malloc_search fuel need (first_free bs) s =
      Some (map_option fst (first_fit ?lim need (first_free bs) ?fs))"
    by (rule malloc_search_first_fit) (use assms(3) big in simp_all)
  then show ?thesis
    using first_fit_skip [OF us, of ?lim need 0 ?fs] lf by (simp add: first_free_def)
qed

lemma malloc_locked_fit:
  assumes wf: "heap_wf bs s" and idle: "heap_idle s" and fuel: "length bs + 1 < fuel"
    and need: "4 dvd need" "12 \<le> need" "need \<le> mem_size_aligned s"
    and ff: "first_fit (mem_size_aligned s - need) need 0 bs = Some (q, bs')"
  shows "\<exists>s'. malloc_locked fuel name need (heap_taken s) = Some (heap_ptr s + q + 16, s')
    \<and> heap_wf bs' s' \<and> heap_only s s' \<and> heap_idle s'
    \<and> (\<forall>a. \<not> in_header (heap_ptr s) bs' a \<longrightarrow> ram s' a = ram s a)"
proof -
  let ?b = "heap_ptr s" and ?e = "mem_size_aligned s + 16" and ?mem = "heap_ptr s + q"
  obtain xs n ys where bs: "bs = xs @ (n, False) # ys" and bs': "bs' = xs @ carve need n @ ys"
    and q: "q = total xs" and n: "need + 16 \<le> n"
    using first_fit_Some [OF ff] by (metis add_0)
  have wf': "heap_wf (xs @ (n, False) # ys) s" using wf bs by simp
  have bl: "blocks (ram s) ?b 0 0 bs ?e" and co: "coalesced bs" and en: "heap_end s = ?b + ?e"
    and lf: "lfree s = ?b + first_free bs" and mx: "max_mem s \<le> ?e"
    and al: "4 dvd ?b" and big: "?b + ?e + 16 \<le> 2 ^ 32" and sz: "12 \<le> mem_size_aligned s"
    using wf by (auto simp: heap_wf_def)
  obtain m1 where tk: "malloc_take need q s = s\<lparr>ram := m1, used_mem := in_use bs',
      max_mem := max (max_mem s) (in_use bs')\<rparr>"
    and b1: "blocks m1 ?b 0 0 bs' ?e" and u1: "h_used m1 (?b + ?e) = 1"
    and o1: "\<And>a. \<not> in_header ?b bs' a \<Longrightarrow> m1 a = ram s a"
    by (rule malloc_take_blocks [OF wf' need(1,2) n q refl refl, folded bs']) (rule that; assumption)
  obtain k zs where cut: "carve need n = (k, True) # zs" and k: "need + 16 \<le> k"
    using n by (cases "need + 44 \<le> n") (auto simp: carve_def)
  have bs2: "bs' = xs @ (k, True) # (zs @ ys)" using bs' cut by simp
  define m2 where "m2 = rt_mem_setname ?mem name (set_magic ?mem HEAP_MAGIC m1)"
  have b2: "blocks m2 ?b 0 0 bs' ?e"
    unfolding m2_def bs2 q
    by (rule blocks_flag(3) [OF blocks_flag(2) [OF b1 [unfolded bs2] refl] refl])
  have le: "q + k \<le> ?e" using blocks_end [OF b2] bs2 q by simp
  have u2: "h_used m2 (?b + ?e) = 1" using u1 le k by (simp add: m2_def header_other)
  have o2: "m2 a = ram s a" if a: "\<not> in_header ?b bs' a" for a
    using not_in_header [OF a bs2] o1 [OF a] q by (simp add: m2_def header_out)
  have walk: "lfree_next fuel ?mem t = Some (?mem + first_free ((k, True) # (zs @ ys)))"
    if "ram t = m2" "heap_ptr t = ?b" "heap_end t = ?b + ?e" for t :: "'a heap_scheme"
    using lfree_next_first_free [of t "last_at 0 0 xs" q "(k, True) # zs @ ys" ?e fuel] b2 that
      fuel bs cut
    by (auto simp: bs2 blocks_append q carve_def split: if_splits)
  define l where "l = (if ?mem = lfree s then ?mem + first_free ((k, True) # (zs @ ys)) else lfree s)"
  have l: "l = ?b + first_free bs'"
  proof (cases "list_all snd xs")
    case True
    then have "lfree s = ?mem" using lf bs q by (simp add: first_free_append)
    then show ?thesis using True bs2 q by (simp add: l_def first_free_append)
  next
    case False
    have "first_free xs < total xs"
      by (rule first_free_less [OF False]) (use blocks_sizes [OF bl] bs in auto)
    then show ?thesis using False lf bs q bs2 by (simp add: l_def first_free_append)
  qed
  define t2 where "t2 = s\<lparr>used_mem := in_use bs', max_mem := max (max_mem s) (in_use bs'),
      ram := m2\<rparr>"
  define s' where "s' = t2\<lparr>lfree := l\<rparr>"
  have sr: "malloc_search fuel need (lfree s - ?b) s = Some (Some q)"
    using malloc_search_wf [OF wf _ need(3)] fuel ff by simp
  have ok: "?mem + 16 + need \<le> heap_end s" "(?mem + 16) mod 4 = 0" "?mem mod 4 = 0"
  proof -
    have "4 dvd q" using blocks_total_dvd [of "ram s" ?b 0 0 xs "total xs"] bl bs q
      by (simp add: blocks_append)
    then have "4 dvd ?mem" using al by simp
    then show "(?mem + 16) mod 4 = 0" "?mem mod 4 = 0" by (auto simp: mod_add_eq)
    show "?mem + 16 + need \<le> heap_end s" using le k en by simp
  qed
  have "malloc_locked fuel name need (heap_taken s) = Some (?mem + 16, s')"
  proof (cases "?mem = lfree s")
    case True
    have "lfree_next fuel (lfree s) t2 = Some l"
      using walk [of t2] True en by (simp add: t2_def l_def)
    then show ?thesis using sr tk ok idle True
      by (simp add: malloc_locked_def s'_def t2_def m2_def Let_def SIZEOF_STRUCT_MEM_def
          heap_release_taken)
  next
    case False
    then show ?thesis using sr tk ok idle
      by (simp add: malloc_locked_def s'_def t2_def l_def m2_def Let_def SIZEOF_STRUCT_MEM_def
          heap_release_taken)
  qed
  moreover have "heap_wf bs' s'"
  proof -
    have "in_use bs' \<le> ?e" using in_use_le [of bs'] blocks_end [OF b2] by simp
    moreover have "coalesced bs'" unfolding bs' using co bs coalesced_take by blast
    ultimately show ?thesis using b2 u2 en l mx al sz big by (auto simp: heap_wf_def s'_def t2_def)
  qed
  moreover have "heap_only s s'" "heap_idle s'" using idle by (simp_all add: heap_only_def s'_def t2_def)
  moreover have "ram s' = m2" by (simp add: s'_def t2_def)
  ultimately show ?thesis using o2 by blast
qed

lemma malloc_locked_full:
  assumes "heap_wf bs s" and "heap_idle s" and "length bs + 1 < fuel" and "need \<le> mem_size_aligned s"
    and "first_fit (mem_size_aligned s - need) need 0 bs = None"
  shows "malloc_locked fuel name need (heap_taken s) = Some (0, s)"
  using malloc_search_wf [OF assms(1) _ assms(4)] assms(2,3,5)
  by (simp add: malloc_locked_def heap_release_taken)

text \<open>The request as it reaches the search.\<close>

lemma rt_malloc_idle:
  assumes "heap_idle s" and "0 < n" and "n + 3 < 2 ^ 32" and "12 \<le> mem_size_aligned s"
  shows "rt_malloc fuel self name n s =
    (if mem_size_aligned s < need_of n then Some (Some 0, s)
     else map_option (\<lambda>(p, s'). (Some p, s')) (malloc_locked fuel name (need_of n) (heap_taken s)))"
proof -
  have al: "RT_ALIGN n = (n + 3) div 4 * 4"
    using assms(3) by (simp add: RT_ALIGN_def add32_small)
  have "mem_size_aligned s < need_of n \<longleftrightarrow> mem_size_aligned s < RT_ALIGN n"
    using assms(4) by (auto simp: need_of_def al)
  moreover have "(if RT_ALIGN n < MIN_SIZE_ALIGNED then MIN_SIZE_ALIGNED else RT_ALIGN n) = need_of n"
    by (simp add: al need_of_def MIN_SIZE_ALIGNED_def max_def)
  ultimately show ?thesis
    using assms(1,2)
    by (simp add: rt_malloc_def Let_def heap_take_idle case_prod_beta split: option.splits)
qed

text \<open>Allocation is first fit: the whole of \<open>rt_malloc\<close> on a heap that nobody else is using.\<close>

definition malloc_spec ::
  "nat \<Rightarrow> block list \<Rightarrow> 'a heap_scheme \<Rightarrow> (nat option \<times> 'a heap_scheme) option \<Rightarrow> bool" where
  "malloc_spec n bs s r \<longleftrightarrow>
     (case first_fit (mem_size_aligned s - need_of n) (need_of n) 0 bs of
        None \<Rightarrow> r = Some (Some 0, s)
      | Some (q, bs') \<Rightarrow>
          (\<exists>s'. r = Some (Some (heap_ptr s + q + 16), s') \<and> heap_wf bs' s' \<and> heap_idle s'
             \<and> heap_only s s' \<and> (\<forall>a. \<not> in_header (heap_ptr s) bs' a \<longrightarrow> ram s' a = ram s a)))"

lemma rt_malloc_spec:
  assumes wf: "heap_wf bs s" and idle: "heap_idle s" and n: "0 < n" "n + 3 < 2 ^ 32"
    and fuel: "length bs + 1 < fuel"
  shows "malloc_spec n bs s (rt_malloc fuel self name n s)"
proof -
  let ?need = "need_of n"
  have sz: "12 \<le> mem_size_aligned s" using wf by (simp add: heap_wf_def)
  note call = rt_malloc_idle [OF idle n sz, of fuel self name]
  show ?thesis
  proof (cases "mem_size_aligned s < ?need")
    case True
    then have "first_fit (mem_size_aligned s - ?need) ?need 0 bs = None" by (cases bs) auto
    then show ?thesis using True call by (simp add: malloc_spec_def)
  next
    case False
    then have le: "?need \<le> mem_size_aligned s" by simp
    show ?thesis
    proof (cases "first_fit (mem_size_aligned s - ?need) ?need 0 bs")
      case None
      then show ?thesis
        using call le malloc_locked_full [OF wf idle fuel le None, of name]
        by (simp add: malloc_spec_def)
    next
      case (Some r)
      obtain q bs' where r: "r = (q, bs')" by (cases r)
      have "12 \<le> ?need" by (simp add: need_of_def)
      from malloc_locked_fit [OF wf idle fuel need_of_dvd this le Some [unfolded r], of name]
      show ?thesis using call le Some r by (auto simp: malloc_spec_def)
    qed
  qed
qed

section \<open>Release\<close>

lemma join_Cons_join: "join (x # join ys) = join (x # ys)"
  by (induction ys arbitrary: x rule: join.induct) (auto simp: add.assoc)

lemma join_append_join: "join (xs @ join ys) = join (xs @ ys)"
proof (induction xs)
  case Nil
  show ?case by (simp add: join_id coalesced_join)
next
  case (Cons x xs)
  have "join (x # (xs @ join ys)) = join (x # join (xs @ join ys))" by (simp add: join_Cons_join)
  also have "\<dots> = join (x # (xs @ ys))" by (simp add: Cons.IH join_Cons_join)
  finally show ?case by simp
qed

lemma layout_join: "fst ` layout p (join bs) \<subseteq> fst ` layout p bs"
proof (induction bs arbitrary: p rule: join.induct)
  case (1 x y zs)
  show ?case
  proof (cases "snd x \<or> snd y")
    case True
    then show ?thesis using 1(1) [OF True, of "p + fst x"] by (simp add: subset_insertI2)
  next
    case False
    then show ?thesis using 1(2) [OF False, of p] by (simp add: add.assoc) blast
  qed
qed simp_all

lemma in_header_join: "in_header b (xs @ join ys) a \<Longrightarrow> in_header b (xs @ ys) a"
  using layout_join [of "total xs" ys] by (force simp: in_header_def)

lemma plug_holes_blocks:
  assumes bl: "blocks (ram s) b 0 0 (xs @ (n, False) # ys) e" and e: "b + e < 2 ^ 32"
    and b: "b = heap_ptr s" "heap_end s = b + e" "h_used (ram s) (b + e) = 1"
    and lf: "lfree s = b + first_free (xs @ (n, False) # ys)"
    and co: "coalesced xs" "coalesced ys" and mem: "mem = b + total xs"
  obtains m' where "plug_holes mem s = s\<lparr>ram := m'\<rparr>"
    and "blocks m' b 0 0 (join (xs @ (n, False) # ys)) e" and "h_used m' (b + e) = 1"
    and "\<And>a. \<not> in_header b (xs @ (n, False) # ys) a \<Longrightarrow> m' a = ram s a"
proof -
  obtain m1 n' ys' where f: "plug_forward mem s = s\<lparr>ram := m1\<rparr>"
    "blocks m1 b 0 0 (xs @ (n', False) # ys') e" "h_used m1 (b + e) = 1"
    "join ((n, False) # ys) = (n', False) # ys'" "coalesced ys'" "ys' = [] \<or> snd (hd ys')"
    "\<And>a. \<not> in_header b (xs @ (n, False) # ys) a \<Longrightarrow> m1 a = ram s a"
    by (rule plug_forward_blocks [OF bl e b lf co(2) mem]) (rule that; assumption)
  let ?s1 = "s\<lparr>ram := m1\<rparr>"
  have j: "join (xs @ (n', False) # ys') = join (xs @ (n, False) # ys)"
    unfolding f(4) [symmetric] by (rule join_append_join)
  have lf1: "lfree ?s1 = b + first_free (xs @ (n', False) # ys')"
    using lf by (simp add: first_free_append)
  obtain m2 where g: "plug_backward mem ?s1 = ?s1\<lparr>ram := m2\<rparr>"
    "blocks m2 b 0 0 (join (xs @ (n', False) # ys')) e" "h_used m2 (b + e) = 1"
    "\<And>a. \<not> in_header b (xs @ (n', False) # ys') a \<Longrightarrow> m2 a = m1 a"
    by (rule plug_backward_blocks [of ?s1 b xs n' ys' e mem])
      (use f(2,3,5,6) e b lf1 co(1) mem in \<open>simp_all\<close>)
  have "h_used (ram s) mem = 0" "mem < b + e"
    using bl mem by (auto simp: blocks_append dest: blocks_end)
  then have "plug_holes mem s = s\<lparr>ram := m2\<rparr>"
    using b mem f(1) g(1) by (simp add: plug_holes_def)
  moreover have "m2 a = ram s a" if "\<not> in_header b (xs @ (n, False) # ys) a" for a
    using that f(4,7) g(4) [of a] in_header_join [of b xs "(n, False) # ys" a] by auto
  ultimately show ?thesis using that [of m2] g(2,3) j by simp
qed

lemma first_free_freed:
  assumes "\<forall>x \<in> set xs. 16 \<le> fst x" and "16 \<le> n"
  shows "first_free (xs @ (n, False) # ys) = min (total xs) (first_free (xs @ (n, True) # ys))"
  using assms first_free_less [of xs] by (auto simp: first_free_append)

lemma min_address: "(if b + x < b + y then b + x else b + y) = b + min x (y :: nat)"
  by auto

text \<open>Marking a block free and joining it with its neighbours, the part \<open>rt_free\<close> and
  \<open>rt_realloc\<close> share.\<close>

lemma free_locked_blocks:
  assumes wf: "heap_wf (xs @ (n, True) # ys) s" and idle: "heap_idle s"
    and mem: "mem = heap_ptr s + total xs"
  shows "\<exists>s'. free_locked mem (heap_taken s) = s' \<and> heap_wf (join (xs @ (n, False) # ys)) s'
    \<and> heap_only s s' \<and> heap_idle s'
    \<and> (\<forall>a. \<not> in_header (heap_ptr s) (xs @ (n, False) # ys) a \<longrightarrow> ram s' a = ram s a)"
proof -
  let ?b = "heap_ptr s" and ?e = "mem_size_aligned s + 16"
  let ?bs = "xs @ (n, True) # ys" and ?fs = "xs @ (n, False) # ys"
  have bl: "blocks (ram s) ?b 0 0 ?bs ?e" and co: "coalesced ?bs" and en: "heap_end s = ?b + ?e"
    and hu: "h_used (ram s) (?b + ?e) = 1" and us: "used_mem s = in_use ?bs"
    and lf: "lfree s = ?b + first_free ?bs" and mx: "max_mem s \<le> ?e" "used_mem s \<le> max_mem s"
    and al: "4 dvd ?b" and big: "?b + ?e + 16 \<le> 2 ^ 32" and sz: "12 \<le> mem_size_aligned s"
    using wf by (auto simp: heap_wf_def)
  have h: "h_used (ram s) mem = 1" "h_magic (ram s) mem = HEAP_MAGIC"
    "h_next (ram s) mem = total xs + n" "16 \<le> n"
    using bl mem by (simp_all add: blocks_append)
  have le: "total xs + n \<le> ?e" using blocks_end [OF bl] by simp
  define m1 where "m1 = rt_mem_setname mem ''    '' (set_magic mem HEAP_MAGIC (set_used mem 0 (ram s)))"
  have b1: "blocks m1 ?b 0 0 ?fs ?e"
    unfolding m1_def
    by (rule blocks_flag(3) [OF blocks_flag(2) [OF blocks_flag(1) [OF bl mem, of False, simplified] mem] mem])
  have u1: "h_used m1 (?b + ?e) = 1" using hu le mem h(4) by (simp add: m1_def header_other)
  have o1: "m1 a = ram s a" if a: "\<not> in_header ?b ?fs a" for a
    using not_in_header [OF a refl] mem by (simp add: m1_def header_out)
  define t where "t = s\<lparr>ram := m1, lfree := ?b + first_free ?fs, used_mem := in_use ?fs\<rparr>"
  have ff: "first_free ?fs = min (total xs) (first_free ?bs)"
    by (rule first_free_freed) (use blocks_sizes [OF bl] h(4) in auto)
  have iu: "sub32 (used_mem s) n = in_use ?fs"
    using us in_use_room [of xs n ys True] blocks_end [OF bl] big by (simp add: sub32_small)
  have nx: "sub32 (total xs + n) (total xs) = n"
    using le big by (simp add: sub32_small)
  have cs: "coalesced xs" "coalesced ys"
    using co by (cases ys; simp add: successively_append_iff successively_Cons)+
  obtain m2 where g: "plug_holes mem t = t\<lparr>ram := m2\<rparr>" "blocks m2 ?b 0 0 (join ?fs) ?e"
    "h_used m2 (?b + ?e) = 1" "\<And>a. \<not> in_header ?b ?fs a \<Longrightarrow> m2 a = ram t a"
    by (rule plug_holes_blocks [of t ?b xs n ys ?e mem])
      (use b1 u1 en cs mem big in \<open>simp_all add: t_def\<close>)
  have "mem < lfree s \<Longrightarrow> first_free ?fs = total xs" "\<not> mem < lfree s \<Longrightarrow> ?b + first_free ?fs = lfree s"
    using ff lf mem by auto
  then have "free_locked mem (heap_taken s) = snd (rt_sem_release HEAP_SEM (plug_holes mem (heap_taken t)))"
    using h(1-3) nx iu mem by (simp add: free_locked_def Let_def m1_def t_def)
  then have "free_locked mem (heap_taken s) = t\<lparr>ram := m2\<rparr>"
    using g(1) idle by (simp add: heap_release_taken t_def)
  moreover have "heap_wf (join ?fs) (t\<lparr>ram := m2\<rparr>)"
    using g(2,3) en us mx al big sz by (auto simp: heap_wf_def t_def coalesced_join)
  moreover have "ram (t\<lparr>ram := m2\<rparr>) a = ram s a" if "\<not> in_header ?b ?fs a" for a
    using g(4) [OF that] o1 [OF that] by (simp add: t_def)
  moreover have "heap_only s (t\<lparr>ram := m2\<rparr>)" "heap_idle (t\<lparr>ram := m2\<rparr>)"
    using idle by (simp_all add: heap_only_def t_def)
  ultimately show ?thesis by blast
qed

text \<open>Shrinking in place: the tail of the block is cut off, freed and joined with what follows.\<close>

definition shrunk :: "block list \<Rightarrow> nat \<Rightarrow> nat \<Rightarrow> block list \<Rightarrow> block list" where
  "shrunk xs n new ys = xs @ (16 + new, True) # (n - 16 - new, False) # ys"

lemma realloc_locked_size:
  assumes wf: "heap_wf (xs @ (n, True) # ys) s" and mem: "rmem = heap_ptr s + total xs + 16"
  shows "sub32 rmem 16 = heap_ptr s + total xs" "sub32 (sub32 rmem 16) (heap_ptr s) = total xs"
    "h_next (ram s) (heap_ptr s + total xs) = total xs + n" "16 \<le> n" "4 dvd n"
    "sub32 (sub32 (total xs + n) (total xs)) 16 = n - 16"
    "heap_ptr s \<le> rmem" "n > 16 \<Longrightarrow> rmem < heap_end s" "total xs + n \<le> mem_size_aligned s + 16"
proof -
  have bl: "blocks (ram s) (heap_ptr s) 0 0 (xs @ (n, True) # ys) (mem_size_aligned s + 16)"
    and en: "heap_end s = heap_ptr s + (mem_size_aligned s + 16)"
    and big: "heap_end s + 16 \<le> 2 ^ 32" using wf by (auto simp: heap_wf_def)
  show h: "h_next (ram s) (heap_ptr s + total xs) = total xs + n" "16 \<le> n" "4 dvd n"
    using bl by (simp_all add: blocks_append)
  show le: "total xs + n \<le> mem_size_aligned s + 16" using blocks_end [OF bl] by simp
  show "sub32 rmem 16 = heap_ptr s + total xs" "sub32 (sub32 rmem 16) (heap_ptr s) = total xs"
    "sub32 (sub32 (total xs + n) (total xs)) 16 = n - 16"
    using le h mem en big by (simp_all add: sub32_small)
  show "heap_ptr s \<le> rmem" "n > 16 \<Longrightarrow> rmem < heap_end s" using le mem en by simp_all
qed

lemma realloc_locked_stay:
  assumes wf: "heap_wf (xs @ (n, True) # ys) s" and idle: "heap_idle s" and n: "16 < n"
    and mem: "rmem = heap_ptr s + total xs + 16" and new: "new \<le> mem_size_aligned s"
    and c: "\<not> new + 44 < n"
  shows "realloc_locked rmem new (heap_taken s) = (if n - 16 = new then Inl rmem else Inr (n - 16), s)"
proof -
  note z = realloc_locked_size [OF wf mem]
  have "heap_end s + 16 \<le> 2 ^ 32" "heap_end s = heap_ptr s + (mem_size_aligned s + 16)"
    using wf by (simp_all add: heap_wf_def)
  then have "add32 (add32 new SIZEOF_STRUCT_MEM) MIN_SIZE = new + 28"
    using new by (simp add: add32_small SIZEOF_STRUCT_MEM_def MIN_SIZE_def)
  moreover have "\<not> new + 28 < n - 16" using c by linarith
  ultimately show ?thesis
    using z n idle by (simp add: realloc_locked_def SIZEOF_STRUCT_MEM_def Let_def heap_release_taken)
qed

lemma realloc_locked_shrink:
  assumes wf: "heap_wf (xs @ (n, True) # ys) s" and idle: "heap_idle s"
    and mem: "rmem = heap_ptr s + total xs + 16" and new: "4 dvd new" "new + 44 < n"
  shows "\<exists>s'. realloc_locked rmem new (heap_taken s) = (Inl rmem, s')
    \<and> heap_wf (join (shrunk xs n new ys)) s' \<and> heap_only s s' \<and> heap_idle s'
    \<and> (\<forall>a. \<not> in_header (heap_ptr s) (shrunk xs n new ys) a \<longrightarrow> ram s' a = ram s a)"
proof -
  let ?b = "heap_ptr s" and ?e = "mem_size_aligned s + 16" and ?p = "total xs" and ?k = "n - 16 - new"
  let ?bs = "xs @ (n, True) # ys" and ?ux = "xs @ [(16 + new, True)]" and ?fs = "shrunk xs n new ys"
  let ?p2 = "?p + 16 + new"
  have bl: "blocks (ram s) ?b 0 0 ?bs ?e" and co: "coalesced ?bs" and en: "heap_end s = ?b + ?e"
    and hu: "h_used (ram s) (?b + ?e) = 1" and us: "used_mem s = in_use ?bs"
    and lf: "lfree s = ?b + first_free ?bs" and mx: "max_mem s \<le> ?e" "used_mem s \<le> max_mem s"
    and al: "4 dvd ?b" and big: "?b + ?e + 16 \<le> 2 ^ 32" and sz: "12 \<le> mem_size_aligned s"
    using wf by (auto simp: heap_wf_def)
  note z = realloc_locked_size [OF wf mem]
  have fs: "?fs = ?ux @ (?k, False) # ys" by (simp add: shrunk_def)
  have lt: "?b + ?e < 2 ^ 32" using big by simp
  define m1 where "m1 = split_block ?p ?p2 s"
  have room: "new + 32 \<le> n" using new by simp
  have b1: "blocks m1 ?b 0 0 ?fs ?e" and u1: "h_used m1 (?b + ?e) = 1"
    using blocks_split(1,3) [OF bl lt refl refl refl new(1) room refl] hu
    by (simp_all add: m1_def shrunk_def)
  have o1: "m1 a = ram s a" if "\<not> in_header ?b ?fs a" for a
    using blocks_split(2) [OF bl lt refl refl refl new(1) room refl] that
    by (simp add: m1_def shrunk_def)
  define t where "t = s\<lparr>used_mem := in_use ?fs, ram := m1, lfree := ?b + first_free ?fs\<rparr>"
  have cs: "coalesced ?ux" "coalesced ys"
    using co by (cases ys; simp add: successively_append_iff successively_Cons)+
  obtain m2 where g: "plug_holes (?b + ?p2) t = t\<lparr>ram := m2\<rparr>" "blocks m2 ?b 0 0 (join ?fs) ?e"
    "h_used m2 (?b + ?e) = 1" "\<And>a. \<not> in_header ?b ?fs a \<Longrightarrow> m2 a = ram t a"
    by (rule plug_holes_blocks [of t ?b ?ux ?k ys ?e "?b + ?p2"])
      (use b1 u1 en cs mem big in \<open>simp_all add: t_def fs\<close>)
  have "first_free xs < total xs" if "\<not> list_all snd xs"
    by (rule first_free_less [OF that]) (use blocks_sizes [OF bl] in auto)
  then have l: "?b + ?p2 < lfree s \<Longrightarrow> first_free ?fs = ?p2"
    "\<not> ?b + ?p2 < lfree s \<Longrightarrow> ?b + first_free ?fs = lfree s"
    using lf new by (auto simp: fs first_free_append split: if_splits)
  have ar: "add32 (add32 new 16) MIN_SIZE = new + 28" "add32 (add32 ?p 16) new = ?p2"
    using new z(9) big by (simp_all add: add32_small MIN_SIZE_def)
  have iu: "sub32 (used_mem s) (sub32 (n - 16) new) = in_use ?fs"
    using us in_use_room [of xs n ys True] blocks_end [OF bl] big new
    by (simp add: sub32_small fs)
  have "new + 28 < n - 16" using new by linarith
  then have "realloc_locked rmem new (heap_taken s) =
      (Inl rmem, snd (rt_sem_release HEAP_SEM (plug_holes (?b + ?p2) (heap_taken t))))"
    using z l ar iu new
    by (simp add: realloc_locked_def SIZEOF_STRUCT_MEM_def Let_def t_def m1_def)
  then have "realloc_locked rmem new (heap_taken s) = (Inl rmem, t\<lparr>ram := m2\<rparr>)"
    using g(1) idle by (simp add: heap_release_taken t_def)
  moreover have "heap_wf (join ?fs) (t\<lparr>ram := m2\<rparr>)"
    using g(2,3) en us mx al big sz new by (auto simp: heap_wf_def t_def coalesced_join fs)
  moreover have "ram (t\<lparr>ram := m2\<rparr>) a = ram s a" if "\<not> in_header ?b ?fs a" for a
    using g(4) [OF that] o1 [OF that] by (simp add: t_def)
  moreover have "heap_only s (t\<lparr>ram := m2\<rparr>)" "heap_idle (t\<lparr>ram := m2\<rparr>)"
    using idle by (simp_all add: heap_only_def t_def)
  ultimately show ?thesis by blast
qed

end
