(* ===== verification/Heap_Client.thy ===== *)
theory Heap_Client
  imports Heap_Check
begin

text \<open>
  The heap as its clients see it. A run is any sequence of \<open>rt_malloc\<close>, \<open>rt_calloc\<close>,
  \<open>rt_realloc\<close>, \<open>rt_free\<close> and writes of the clients into what they were given; \<open>L\<close> keeps for
  every pointer that was returned and not released the size that was asked for. The sizes of a run
  are at most \<open>2\<^sup>3\<^sup>2 - 4\<close>, and so is the product of a \<open>rt_calloc\<close>: above that \<open>RT_ALIGN\<close> wraps, and the
  block is smaller than the size (\<open>malloc_wraps\<close>). A \<open>rt_realloc\<close> is of a block the client holds, to
  a size other than 0.
\<close>

section \<open>Runs\<close>

type_synonym owned = "nat \<Rightarrow> nat option"

inductive heap_call :: "'a heap_scheme \<Rightarrow> owned \<Rightarrow> 'a heap_scheme \<Rightarrow> owned \<Rightarrow> bool" where
  call_malloc: "rt_malloc fuel self name n s = Some (Some p, s') \<Longrightarrow> n + 3 < 2 ^ 32 \<Longrightarrow>
    heap_call s L s' (if p = 0 then L else L(p \<mapsto> n))"
| call_calloc: "rt_calloc fuel self name c n s = Some (Some p, s') \<Longrightarrow> c * n + 3 < 2 ^ 32 \<Longrightarrow>
    heap_call s L s' (if p = 0 then L else L(p \<mapsto> c * n))"
| call_realloc: "rt_realloc fuel self name q n s = Some (Some p, s') \<Longrightarrow> L q \<noteq> None \<Longrightarrow>
    0 < n \<Longrightarrow> n + 3 < 2 ^ 32 \<Longrightarrow>
    heap_call s L s' (if p = 0 then L else (L(q := None))(p \<mapsto> n))"
| call_free: "rt_free self q s = (Some (), s') \<Longrightarrow> L q \<noteq> None \<Longrightarrow> heap_call s L s' (L(q := None))"

text \<open>The heap between \<open>a\<close> and \<open>b\<close>, set up from the state \<open>z\<close> in which the statics are 0.\<close>

inductive heap_run :: "nat \<Rightarrow> nat \<Rightarrow> 'a heap_scheme \<Rightarrow> 'a heap_scheme \<Rightarrow> owned \<Rightarrow> bool"
  for a b z where
  run_init: "heap_run a b z (rt_system_heap_init a b z) Map.empty"
| run_call: "heap_run a b z s L \<Longrightarrow> heap_call s L s' L' \<Longrightarrow> heap_run a b z s' L'"
| run_write: "heap_run a b z s L \<Longrightarrow> L p = Some n \<Longrightarrow> i < n \<Longrightarrow>
    heap_run a b z (s\<lparr>ram := (ram s)(p + i := v)\<rparr>) L"

section \<open>The invariant\<close>

text \<open>What the clients own are the blocks in use, each large enough.\<close>

definition owns :: "nat \<Rightarrow> block list \<Rightarrow> owned \<Rightarrow> bool" where
  "owns b bs L \<longleftrightarrow>
     (\<forall>p n. L p = Some n \<longrightarrow>
        (\<exists>q k. p = b + q + 16 \<and> (q, k, True) \<in> layout 0 bs \<and> 0 < n \<and> n + 16 \<le> k))
     \<and> (\<forall>q k. (q, k, True) \<in> layout 0 bs \<longrightarrow> L (b + q + 16) \<noteq> None)"

definition heap_inv :: "'a heap_scheme \<Rightarrow> owned \<Rightarrow> bool" where
  "heap_inv s L \<longleftrightarrow> (\<exists>bs. heap_wf bs s \<and> heap_idle s \<and> \<not> halted s \<and> owns (heap_ptr s) bs L)"

text \<open>The data of the clients that a step does not release is unchanged by it.\<close>

definition keeps :: "owned \<Rightarrow> owned \<Rightarrow> 'a heap_scheme \<Rightarrow> 'a heap_scheme \<Rightarrow> bool" where
  "keeps L L' s s' \<longleftrightarrow> (\<forall>p n n' i. L p = Some n \<longrightarrow> L' p = Some n' \<longrightarrow> i < n \<longrightarrow> i < n' \<longrightarrow>
     ram s' (p + i) = ram s (p + i))"

lemma owns_block: "owns b bs L \<Longrightarrow> L p = Some n \<Longrightarrow>
    \<exists>q k. p = b + q + 16 \<and> (q, k, True) \<in> layout 0 bs \<and> 0 < n \<and> n + 16 \<le> k"
  by (simp add: owns_def)

lemma owns_at:
  assumes "owns b bs L" and "L (b + q + 16) = Some n"
  shows "\<exists>k. (q, k, True) \<in> layout 0 bs \<and> 0 < n \<and> n + 16 \<le> k"
proof -
  obtain q' k where "b + q + 16 = b + q' + 16" "(q', k, True) \<in> layout 0 bs" "0 < n" "n + 16 \<le> k"
    using assms unfolding owns_def by blast
  then show ?thesis by auto
qed

lemma owns_live:
  assumes "owns b bs L" and "L p = Some n" and "i < n"
  shows "live_data b bs (p + i)"
  using assms by (force simp: owns_def live_data_def)

lemma heap_only_sel:
  assumes "heap_only s s'"
  shows "heap_ptr s' = heap_ptr s" "heap_end s' = heap_end s"
    "mem_size_aligned s' = mem_size_aligned s" "halted s' = halted s" "sems s' = sems s"
  by (subst assms [unfolded heap_only_def], simp)+

lemma heap_only_trans: "heap_only s t \<Longrightarrow> heap_only t u \<Longrightarrow> heap_only s u"
  unfolding heap_only_def by (cases s; cases t; cases u) simp

text \<open>Writes into the data of blocks in use do not disturb the heap.\<close>

lemma heap_wf_write:
  assumes wf: "heap_wf bs s" and m: "\<And>a. \<not> live_data (heap_ptr s) bs a \<Longrightarrow> m a = ram s a"
  shows "heap_wf bs (s\<lparr>ram := m\<rparr>)"
proof -
  let ?b = "heap_ptr s" and ?e = "mem_size_aligned s + 16"
  have bl: "blocks (ram s) ?b 0 0 bs ?e" and en: "heap_end s = ?b + ?e"
    using wf by (auto simp: heap_wf_def)
  have e: "?e = total bs" using blocks_end [OF bl] by simp
  have hd: "m a = ram s a" if "in_header ?b bs a" for a
    using m live_not_header [of bs "heap_ptr s" a] blocks_sizes [OF bl] that by blast
  have "blocks m ?b 0 0 bs ?e"
  proof (rule blocks_cong [OF _ bl])
    fix q x a assume "(q, x) \<in> layout 0 bs" "?b + q \<le> a" "a < ?b + q + 12"
    then show "m a = ram s a" by (intro hd) (force simp: in_header_def)
  qed
  moreover have "h_used m (heap_end s) = h_used (ram s) (heap_end s)"
    by (rule header_cong, rule hd) (use en e in \<open>simp add: in_header_def\<close>)
  ultimately show ?thesis using wf by (auto simp: heap_wf_def)
qed

text \<open>The blocks in use before and after an allocation.\<close>

lemma first_fit_live:
  assumes "first_fit lim need p bs = Some (q, bs')" and "blocks m b pv p bs e"
  obtains k where "(q, k, True) \<in> layout p bs'" and "need + 16 \<le> k"
    and "\<And>o' n. (o', n, True) \<in> layout p bs' \<longleftrightarrow> (o', n, True) \<in> layout p bs \<or> (o', n) = (q, k)"
    and "\<And>x. (q, x, True) \<notin> layout p bs"
    and "\<exists>j. (q, j, False) \<in> layout p bs \<and> k \<le> j"
proof -
  obtain xs n ys where bs: "bs = xs @ (n, False) # ys" "bs' = xs @ carve need n @ ys"
    "q = p + total xs" "need + 16 \<le> n"
    using first_fit_Some [OF assms(1)] by metis
  have 1: "q + 16 \<le> o'" if "(o', x) \<in> layout (q + n) ys" for o' x
    using layout_bounds [OF that] bs(4) by simp
  have 2: "o' < q" if "(o', x) \<in> layout p xs" for o' x
  proof -
    have "x \<in> set bs" using layout_set [OF that] bs(1) by simp
    then have "16 \<le> fst x" using blocks_sizes [OF assms(2)] by blast
    then show ?thesis using layout_bounds [OF that] bs(3) by simp
  qed
  show ?thesis
  proof (cases "need + 44 \<le> n")
    case True
    show ?thesis
      by (rule that [of "16 + need"]) (use True bs 1 2 in \<open>force simp: carve_def add.assoc\<close>)+
  next
    case False
    show ?thesis
      by (rule that [of n]) (use False bs 1 2 in \<open>force simp: carve_def add.assoc\<close>)+
  qed
qed

lemma live_data_mono:
  assumes "live_data b bs a" and "\<And>q k. (q, k, True) \<in> layout 0 bs \<Longrightarrow> (q, k, True) \<in> layout 0 bs'"
  shows "live_data b bs' a"
  using assms by (auto simp: live_data_def)

section \<open>Every call keeps the invariant\<close>

text \<open>More turns give the same result.\<close>

lemma malloc_search_mono:
  "malloc_search f need p s = Some r \<Longrightarrow> f \<le> g \<Longrightarrow> malloc_search g need p s = Some r"
proof (induction f arbitrary: p g)
  case (Suc f)
  then obtain g' where "g = Suc g'" "f \<le> g'" by (cases g) auto
  then show ?case using Suc by (auto simp: Let_def split: if_splits)
qed simp

lemma lfree_next_mono: "lfree_next f a s = Some r \<Longrightarrow> f \<le> g \<Longrightarrow> lfree_next g a s = Some r"
proof (induction f arbitrary: a g)
  case (Suc f)
  then obtain g' where "g = Suc g'" "f \<le> g'" by (cases g) auto
  then show ?case using Suc by (auto split: if_splits)
qed simp

lemma malloc_locked_mono:
  assumes "malloc_locked f name need s = Some r" and "f \<le> g"
  shows "malloc_locked g name need s = Some r"
proof -
  obtain h where h: "malloc_search f need (lfree s - heap_ptr s) s = Some h"
    using assms(1) by (auto simp: malloc_locked_def split: option.splits)
  note g = malloc_search_mono [OF h assms(2)]
  show ?thesis
  proof (cases h)
    case None
    then show ?thesis using assms(1) h g by (simp add: malloc_locked_def)
  next
    case (Some ptr)
    then show ?thesis using assms(1) h g
      by (auto simp: malloc_locked_def Let_def split: option.splits if_splits
          dest: lfree_next_mono [OF _ assms(2)])
  qed
qed

lemma rt_malloc_mono:
  assumes "rt_malloc f self name n s = Some r" and "f \<le> g"
  shows "rt_malloc g self name n s = Some r"
  using assms(1)
  by (auto simp: rt_malloc_def Let_def split: if_splits prod.splits option.splits
      dest: malloc_locked_mono [OF _ assms(2)])

text \<open>An allocation that is answered with a block, whatever the number of turns.\<close>

lemma malloc_cases:
  assumes inv: "heap_wf bs s" "heap_idle s" and r: "rt_malloc fuel self name n s = Some (Some p, s')"
    and n: "n + 3 < 2 ^ 32"
  shows "(p = 0 \<and> s' = s) \<or> (0 < n \<and> (\<exists>q bs'.
      first_fit (mem_size_aligned s - need_of n) (need_of n) 0 bs = Some (q, bs')
      \<and> p = heap_ptr s + q + 16 \<and> heap_wf bs' s' \<and> heap_idle s' \<and> heap_only s s'
      \<and> (\<forall>a. \<not> in_header (heap_ptr s) bs' a \<longrightarrow> ram s' a = ram s a)))"
proof (cases "n = 0")
  case True
  then show ?thesis using r by (simp add: rt_malloc_def)
next
  case False
  have "rt_malloc (fuel + (length bs + 2)) self name n s = Some (Some p, s')"
    by (rule rt_malloc_mono [OF r]) simp
  then show ?thesis
    using rt_malloc_spec [OF inv _ n, of "fuel + (length bs + 2)" self name] False
    by (auto simp: malloc_spec_def split: option.splits prod.splits)
qed

text \<open>What the clients of a well-formed heap own after an allocation.\<close>

lemma owns_malloc:
  assumes wf: "heap_wf bs s" and ow: "owns (heap_ptr s) bs L"
    and ff: "first_fit lim (need_of n) 0 bs = Some (q, bs')" and n: "0 < n"
  shows "owns (heap_ptr s) bs' (L(heap_ptr s + q + 16 \<mapsto> n))" and "L (heap_ptr s + q + 16) = None"
    and "live_data (heap_ptr s) bs a \<Longrightarrow> live_data (heap_ptr s) bs' a"
    and "i < need_of n \<Longrightarrow> live_data (heap_ptr s) bs' (heap_ptr s + q + 16 + i)"
    and "i < need_of n \<Longrightarrow> \<not> live_data (heap_ptr s) bs (heap_ptr s + q + 16 + i)"
proof -
  have bl: "blocks (ram s) (heap_ptr s) 0 0 bs (mem_size_aligned s + 16)"
    using wf by (simp add: heap_wf_def)
  obtain k where k: "(q, k, True) \<in> layout 0 bs'" "need_of n + 16 \<le> k"
    and lv: "\<And>o' n. (o', n, True) \<in> layout 0 bs' \<longleftrightarrow> (o', n, True) \<in> layout 0 bs \<or> (o', n) = (q, k)"
    and nq: "\<And>x. (q, x, True) \<notin> layout 0 bs"
    and room: "\<exists>j. (q, j, False) \<in> layout 0 bs \<and> k \<le> j"
    by (rule first_fit_live [OF ff bl]) (rule that; assumption)
  have fit: "n + 16 \<le> k" using k(2) need_of_ge [of n] by simp
  show "L (heap_ptr s + q + 16) = None"
  proof (rule ccontr)
    assume "L (heap_ptr s + q + 16) \<noteq> None"
    then show False using owns_at [OF ow] nq by blast
  qed
  show "owns (heap_ptr s) bs' (L(heap_ptr s + q + 16 \<mapsto> n))"
    unfolding owns_def
  proof (intro conjI allI impI)
    fix p m assume "(L(heap_ptr s + q + 16 \<mapsto> n)) p = Some m"
    then show "\<exists>q k. p = heap_ptr s + q + 16 \<and> (q, k, True) \<in> layout 0 bs' \<and> 0 < m \<and> m + 16 \<le> k"
      using ow k fit n lv by (cases "p = heap_ptr s + q + 16") (force simp: owns_def)+
  next
    fix o' j assume "(o', j, True) \<in> layout 0 bs'"
    then show "(L(heap_ptr s + q + 16 \<mapsto> n)) (heap_ptr s + o' + 16) \<noteq> None"
      using ow lv by (auto simp: owns_def)
  qed
  show "live_data (heap_ptr s) bs a \<Longrightarrow> live_data (heap_ptr s) bs' a"
    by (erule live_data_mono) (simp add: lv)
  show "live_data (heap_ptr s) bs' (heap_ptr s + q + 16 + i)" if "i < need_of n"
    unfolding live_data_def by (rule exI [of _ q], rule exI [of _ k]) (use k that in simp)
  show "\<not> live_data (heap_ptr s) bs (heap_ptr s + q + 16 + i)" if i: "i < need_of n"
  proof
    assume "live_data (heap_ptr s) bs (heap_ptr s + q + 16 + i)"
    then obtain o' m where m: "(o', m, True) \<in> layout 0 bs" "o' + 16 \<le> q + 16 + i" "q + 16 + i < o' + m"
      by (auto simp: live_data_def)
    obtain j where "(q, j, False) \<in> layout 0 bs" "k \<le> j" using room by blast
    then show False using m k(2) i layout_apart [OF m(1)] by fastforce
  qed
qed

text \<open>What a call does to a heap with the blocks \<open>bs'\<close> afterwards.\<close>

definition good_call :: "'a heap_scheme \<Rightarrow> owned \<Rightarrow> 'a heap_scheme \<Rightarrow> owned \<Rightarrow> bool" where
  "good_call s L s' L' \<longleftrightarrow> heap_only s s' \<and> heap_idle s' \<and> keeps L L' s s'
     \<and> (\<exists>bs'. heap_wf bs' s' \<and> owns (heap_ptr s) bs' L')"

lemma heap_sizes: "heap_wf bs s \<Longrightarrow> \<forall>x \<in> set bs. 16 \<le> fst x"
  using blocks_sizes by (fastforce simp: heap_wf_def)

lemma heap_aligned: "heap_wf (xs @ ys) s \<Longrightarrow> 4 dvd total xs"
  by (auto simp: heap_wf_def blocks_append dest: blocks_total_dvd)

lemma heap_only_refl [simp]: "heap_only s s"
  by (simp add: heap_only_def)

lemma good_call_same: "heap_wf bs s \<Longrightarrow> heap_idle s \<Longrightarrow> owns (heap_ptr s) bs L \<Longrightarrow> good_call s L s L"
  by (auto simp: good_call_def keeps_def)

lemma good_malloc:
  assumes wf: "heap_wf bs s" and idle: "heap_idle s" and ow: "owns (heap_ptr s) bs L"
    and r: "rt_malloc fuel self name n s = Some (Some p, s')" and n: "n + 3 < 2 ^ 32"
  shows "good_call s L s' (if p = 0 then L else L(p \<mapsto> n))"
    and "p \<noteq> 0 \<Longrightarrow> 0 < n \<and> L p = None \<and> 4 dvd p
      \<and> (\<exists>bs'. heap_wf bs' s' \<and> owns (heap_ptr s) bs' (L(p \<mapsto> n))
             \<and> (\<forall>i < need_of n. live_data (heap_ptr s) bs' (p + i)
                              \<and> \<not> live_data (heap_ptr s) bs (p + i)))"
proof -
  from malloc_cases [OF wf idle r n] consider (null) "p = 0" "s' = s"
    | (block) q bs' where "0 < n" "first_fit (mem_size_aligned s - need_of n) (need_of n) 0 bs = Some (q, bs')"
      "p = heap_ptr s + q + 16" "heap_wf bs' s'" "heap_idle s'" "heap_only s s'"
      "\<forall>a. \<not> in_header (heap_ptr s) bs' a \<longrightarrow> ram s' a = ram s a"
    by blast
  then have "good_call s L s' (if p = 0 then L else L(p \<mapsto> n)) \<and> (p \<noteq> 0 \<longrightarrow> 0 < n \<and> L p = None \<and> 4 dvd p
      \<and> (\<exists>bs'. heap_wf bs' s' \<and> owns (heap_ptr s) bs' (L(p \<mapsto> n))
             \<and> (\<forall>i < need_of n. live_data (heap_ptr s) bs' (p + i)
                              \<and> \<not> live_data (heap_ptr s) bs (p + i))))"
  proof cases
    case null
    then show ?thesis using good_call_same [OF wf idle ow] by simp
  next
    case block
    note o = owns_malloc [OF wf ow block(2,1)]
    have "keeps L (L(p \<mapsto> n)) s s'"
      unfolding keeps_def
    proof (intro allI impI)
      fix x m m' i assume "L x = Some m" "i < m"
      then have "live_data (heap_ptr s) bs' (x + i)" using owns_live [OF ow] o(3) by blast
      then show "ram s' (x + i) = ram s (x + i)"
        using block(7) live_not_header [OF heap_sizes [OF block(4)]] by blast
    qed
    moreover have "4 dvd p"
    proof -
      obtain xs m ys where bs: "bs = xs @ (m, False) # ys" "q = 0 + total xs"
        using first_fit_Some [OF block(2)] by metis
      have "4 dvd total xs" using wf heap_aligned unfolding bs(1) by blast
      then show ?thesis using wf bs(2) block(3) by (simp add: heap_wf_def)
    qed
    ultimately show ?thesis
      using block o(1,2) o(4) o(5) by (auto simp: good_call_def)
  qed
  then show "good_call s L s' (if p = 0 then L else L(p \<mapsto> n))"
    and "p \<noteq> 0 \<Longrightarrow> 0 < n \<and> L p = None \<and> 4 dvd p
      \<and> (\<exists>bs'. heap_wf bs' s' \<and> owns (heap_ptr s) bs' (L(p \<mapsto> n))
             \<and> (\<forall>i < need_of n. live_data (heap_ptr s) bs' (p + i)
                              \<and> \<not> live_data (heap_ptr s) bs (p + i)))" by blast+
qed

text \<open>Replacing a block in use by others of the same total length.\<close>

lemma used_replace:
  assumes sz: "\<forall>x \<in> set (xs @ (n, True) # ys). 16 \<le> fst x" and mid: "total mid = n"
  shows "(q, k, True) \<in> layout 0 (xs @ mid @ ys) \<longleftrightarrow>
    ((q, k, True) \<in> layout 0 (xs @ (n, True) # ys) \<and> q \<noteq> total xs)
    \<or> (q, k, True) \<in> layout (total xs) mid"
proof -
  have "q < total xs" if h: "(q, k, True) \<in> layout 0 xs"
  proof -
    have "16 \<le> k" using layout_set [OF h] bspec [OF sz, of "(k, True)"] by simp
    then show ?thesis using layout_bounds [OF h] by simp
  qed
  moreover have "q \<noteq> total xs" if h: "(q, k, True) \<in> layout (total xs + n) ys"
    using layout_bounds [OF h] sz by simp
  ultimately show ?thesis using mid by auto
qed

lemma owned_block:
  assumes wf: "heap_wf bs s" and ow: "owns (heap_ptr s) bs L" and p: "L p = Some m"
  obtains xs k ys where "bs = xs @ (k, True) # ys" and "p = heap_ptr s + total xs + 16"
    and "0 < m" and "m + 16 \<le> k" and "4 dvd p" and "heap_ptr s \<le> p" and "p < heap_end s"
proof -
  obtain q k where q: "p = heap_ptr s + q + 16" "(q, k, True) \<in> layout 0 bs" "0 < m" "m + 16 \<le> k"
    using ow p unfolding owns_def by blast
  obtain xs ys where bs: "bs = xs @ (k, True) # ys" "q = 0 + total xs"
    using layout_split [OF q(2)] by metis
  have wf': "heap_wf (xs @ (k, True) # ys) s" using wf bs by simp
  have "4 dvd p" using heap_aligned [OF wf'] wf q(1) bs(2) by (simp add: heap_wf_def)
  moreover have "heap_ptr s \<le> p" "p < heap_end s"
    using realloc_locked_size(7,8) [OF wf', of p] q bs(2) by simp_all
  ultimately show ?thesis using that bs q by simp
qed

text \<open>Taking the block of a client out of use, or shrinking it.\<close>

lemma owns_replace:
  assumes wf: "heap_wf (xs @ (k, True) # ys) s" and ow: "owns (heap_ptr s) (xs @ (k, True) # ys) L"
    and p: "p = heap_ptr s + total xs + 16" and mid: "total mid = k"
    and at: "\<And>q j. (q, j, True) \<in> layout (total xs) mid \<longleftrightarrow> (\<exists>m. v = Some (j, m) \<and> q = total xs)"
    and v: "\<And>j. v = Some j \<Longrightarrow> 0 < snd j \<and> snd j + 16 \<le> fst j"
  shows "owns (heap_ptr s) (join (xs @ mid @ ys)) (L(p := map_option snd v))"
    and "\<And>x m i. (L(p := map_option snd v)) x = Some m \<Longrightarrow> i < m \<Longrightarrow>
      live_data (heap_ptr s) (xs @ mid @ ys) (x + i)"
proof -
  let ?b = "heap_ptr s" and ?bs = "xs @ (k, True) # ys" and ?L = "L(p := map_option snd v)"
  note rep = used_replace [OF heap_sizes [OF wf] mid]
  have fwd: "\<exists>q j. x = ?b + q + 16 \<and> (q, j, True) \<in> layout 0 (xs @ mid @ ys) \<and> 0 < m \<and> m + 16 \<le> j"
    if h: "?L x = Some m" for x m
  proof (cases "x = p")
    case True
    then obtain j where "v = Some (j, m)" using h by auto
    then show ?thesis using True p v [of "(j, m)"] rep at by auto
  next
    case False
    then obtain q j where "x = ?b + q + 16" "(q, j, True) \<in> layout 0 ?bs" "0 < m" "m + 16 \<le> j"
    proof -
      have "L x = Some m" using h False by simp
      from owns_block [OF ow this] show ?thesis using that by blast
    qed
    moreover have "q \<noteq> total xs" using False p calculation(1) by auto
    ultimately show ?thesis using rep by blast
  qed
  have "?L (?b + q + 16) \<noteq> None" if "(q, j, True) \<in> layout 0 (xs @ mid @ ys)" for q j
  proof -
    from that rep at consider "(q, j, True) \<in> layout 0 ?bs" "q \<noteq> total xs"
      | m where "v = Some (j, m)" "q = total xs" by blast
    then show ?thesis by cases (use ow p in \<open>auto simp: owns_def\<close>)
  qed
  then show "owns ?b (join (xs @ mid @ ys)) ?L" using fwd unfolding owns_def live_join by blast
  show "live_data ?b (xs @ mid @ ys) (x + i)" if h: "?L x = Some m" "i < m" for x m i
    using fwd [OF h(1)] h(2) by (force simp: live_data_def)
qed

lemma good_free:
  assumes wf: "heap_wf bs s" and idle: "heap_idle s" and ow: "owns (heap_ptr s) bs L"
    and p: "L p = Some m"
  obtains s' where "rt_free self p s = (Some (), s')" and "good_call s L s' (L(p := None))"
proof -
  obtain xs k ys where b: "bs = xs @ (k, True) # ys" "p = heap_ptr s + total xs + 16" "0 < m"
    "m + 16 \<le> k" "4 dvd p" "heap_ptr s \<le> p" "p < heap_end s"
    by (rule owned_block [OF wf ow p]) (rule that; assumption)
  note wf' = wf [unfolded b(1)]
  from free_locked_blocks [OF wf' idle refl] obtain s' where f:
    "free_locked (heap_ptr s + total xs) (heap_taken s) = s'"
    "heap_wf (join (xs @ (k, False) # ys)) s'" "heap_only s s'" "heap_idle s'"
    "\<forall>a. \<not> in_header (heap_ptr s) (xs @ (k, False) # ys) a \<longrightarrow> ram s' a = ram s a" by blast
  have "rt_free self p s = (Some (), s')"
    using b f(1) idle realloc_locked_size(1) [OF wf' b(2)]
    by (auto simp: rt_free_def heap_take_idle SIZEOF_STRUCT_MEM_def dvd_eq_mod_eq_0)
  moreover have "good_call s L s' (L(p := None))"
  proof -
    note o = owns_replace [OF wf' ow [unfolded b(1)] b(2), of "[(k, False)]" None, simplified]
    have "keeps L (L(p := None)) s s'"
      unfolding keeps_def
    proof (intro allI impI)
      fix x n n' i assume "(L(p := None)) x = Some n'" "i < n'"
      then have "live_data (heap_ptr s) (xs @ (k, False) # ys) (x + i)"
        using o(2) [of x n' i] by (auto split: if_splits)
      then show "ram s' (x + i) = ram s (x + i)"
        using f(5) live_not_header [of "xs @ (k, False) # ys"] heap_sizes [OF wf'] by fastforce
    qed
    then show ?thesis using f o(1) by (auto simp: good_call_def)
  qed
  ultimately show ?thesis by (rule that)
qed

lemma owns_less:
  assumes "owns b bs (L(p \<mapsto> m))" and "0 < n" and "n \<le> m"
  shows "owns b bs (L(p \<mapsto> n))"
  unfolding owns_def
proof (intro conjI allI impI)
  fix x j assume h: "(L(p \<mapsto> n)) x = Some j"
  show "\<exists>q k. x = b + q + 16 \<and> (q, k, True) \<in> layout 0 bs \<and> 0 < j \<and> j + 16 \<le> k"
  proof (cases "x = p")
    case True
    have "(L(p \<mapsto> m)) x = Some m" using True by simp
    then obtain q k where "x = b + q + 16" "(q, k, True) \<in> layout 0 bs" "m + 16 \<le> k"
      using assms(1) unfolding owns_def by blast
    then show ?thesis using h True assms(2,3) by fastforce
  next
    case False
    then have "(L(p \<mapsto> m)) x = Some j" using h by simp
    then show ?thesis using assms(1) unfolding owns_def by blast
  qed
next
  fix q k assume "(q, k, True) \<in> layout 0 bs"
  then have "(L(p \<mapsto> m)) (b + q + 16) \<noteq> None" using assms(1) unfolding owns_def by blast
  then show "(L(p \<mapsto> n)) (b + q + 16) \<noteq> None" by (auto split: if_splits)
qed

text \<open>A client may ask for less or more of a block it has, as long as it fits.\<close>

lemma owns_fit:
  assumes ow: "owns b bs L" and at: "(q, k, True) \<in> layout 0 bs" "p = b + q + 16"
    and n: "0 < n" "n + 16 \<le> k"
  shows "owns b bs (L(p \<mapsto> n))"
  unfolding owns_def
proof (intro conjI allI impI)
  fix x j assume h: "(L(p \<mapsto> n)) x = Some j"
  show "\<exists>q k. x = b + q + 16 \<and> (q, k, True) \<in> layout 0 bs \<and> 0 < j \<and> j + 16 \<le> k"
    using h at n owns_block [OF ow, of x j] by (cases "x = p") auto
next
  fix q' k' assume "(q', k', True) \<in> layout 0 bs"
  then have "L (b + q' + 16) \<noteq> None" using ow unfolding owns_def by blast
  then show "(L(p \<mapsto> n)) (b + q' + 16) \<noteq> None" by simp
qed

text \<open>The client's view of filling a block it was just given.\<close>

lemma good_fill:
  assumes wf: "heap_wf bs s" and idle: "heap_idle s" and ow: "owns (heap_ptr s) bs L"
    and r: "rt_malloc fuel self name n s = Some (Some p, s1)" and n: "n + 3 < 2 ^ 32" and p: "p \<noteq> 0"
    and m: "\<And>a. a < p \<or> p + n \<le> a \<Longrightarrow> m a = ram s1 a"
  obtains bs' where "heap_wf bs' (s1\<lparr>ram := m\<rparr>)" and "owns (heap_ptr s) bs' (L(p \<mapsto> n))"
    and "heap_only s (s1\<lparr>ram := m\<rparr>)" and "heap_idle (s1\<lparr>ram := m\<rparr>)"
    and "keeps L (L(p \<mapsto> n)) s (s1\<lparr>ram := m\<rparr>)" and "keeps L (L(p \<mapsto> n)) s s1"
    and "L p = None" and "0 < n"
proof -
  note g = good_malloc [OF wf idle ow r n]
  have c: "heap_only s s1" "heap_idle s1" "keeps L (L(p \<mapsto> n)) s s1"
    using g(1) p by (simp_all add: good_call_def)
  obtain bs' where b: "heap_wf bs' s1" "owns (heap_ptr s) bs' (L(p \<mapsto> n))" "0 < n" "L p = None"
    "\<And>i. i < need_of n \<Longrightarrow> live_data (heap_ptr s) bs' (p + i) \<and> \<not> live_data (heap_ptr s) bs (p + i)"
    using g(2) [OF p] by blast
  have near: "live_data (heap_ptr s) bs' a \<and> \<not> live_data (heap_ptr s) bs a" if "m a \<noteq> ram s1 a" for a
  proof -
    have "p \<le> a" "a < p + n" using m [of a] that by (meson not_le)+
    then have "a - p < need_of n" "p + (a - p) = a" using need_of_ge [of n] by simp_all
    then show ?thesis using b(5) [of "a - p"] by simp
  qed
  have hp: "heap_ptr s1 = heap_ptr s" using heap_only_sel [OF c(1)] by simp
  have "heap_wf bs' (s1\<lparr>ram := m\<rparr>)"
    by (rule heap_wf_write [OF b(1)]) (use near in \<open>auto simp: hp\<close>)
  moreover have "heap_only s (s1\<lparr>ram := m\<rparr>)"
    by (rule heap_only_trans [OF c(1)]) (simp add: heap_only_def)
  moreover have "keeps L (L(p \<mapsto> n)) s (s1\<lparr>ram := m\<rparr>)"
    unfolding keeps_def
  proof (intro allI impI)
    fix x j j' i assume h: "L x = Some j" "(L(p \<mapsto> n)) x = Some j'" "i < j" "i < j'"
    have "m (x + i) = ram s1 (x + i)" using near owns_live [OF ow h(1,3)] by blast
    then show "ram (s1\<lparr>ram := m\<rparr>) (x + i) = ram s (x + i)" using c(3) h by (simp add: keeps_def)
  qed
  ultimately show ?thesis using that c b by simp
qed

lemma good_calloc:
  assumes wf: "heap_wf bs s" and idle: "heap_idle s" and ow: "owns (heap_ptr s) bs L"
    and r: "rt_calloc fuel self name c n s = Some (Some p, s')" and n: "c * n + 3 < 2 ^ 32"
  shows "good_call s L s' (if p = 0 then L else L(p \<mapsto> c * n))"
    and "p \<noteq> 0 \<Longrightarrow> i < c * n \<Longrightarrow> ram s' (p + i) = 0"
proof -
  have cn: "c * n mod 2 ^ 32 = c * n" using n by simp
  obtain s1 where m: "rt_malloc fuel self name (c * n) s = Some (Some p, s1)"
    and s': "s' = (if p = 0 then s1 else s1\<lparr>ram := rt_memset p 0 (c * n) (ram s1)\<rparr>)"
    using r unfolding rt_calloc_def Let_def cn by (auto split: option.splits if_splits)
  show "good_call s L s' (if p = 0 then L else L(p \<mapsto> c * n))"
  proof (cases "p = 0")
    case True
    then show ?thesis using good_malloc(1) [OF wf idle ow m n] s' by simp
  next
    case False
    obtain bs' where "heap_wf bs' s'" "owns (heap_ptr s) bs' (L(p \<mapsto> c * n))" "heap_only s s'"
      "heap_idle s'" "keeps L (L(p \<mapsto> c * n)) s s'"
      by (rule good_fill [OF wf idle ow m n False, of "rt_memset p 0 (c * n) (ram s1)"])
        (use s' False in \<open>auto simp: rt_memset_def\<close>)
    then show ?thesis using False by (auto simp: good_call_def)
  qed
  show "p \<noteq> 0 \<Longrightarrow> i < c * n \<Longrightarrow> ram s' (p + i) = 0" using s' by (simp add: rt_memset_def)
qed

text \<open>
  The four ways \<open>rt_realloc\<close> can go for a block of a client: too large a size, the block stays,
  it shrinks, or the data moves.
\<close>

lemma good_shrink:
  assumes wf: "heap_wf (xs @ (k, True) # ys) s" and idle: "heap_idle s"
    and ow: "owns (heap_ptr s) (xs @ (k, True) # ys) L"
    and p: "p = heap_ptr s + total xs + 16" and new: "4 dvd new" "new + 44 < k" "0 < n" "n \<le> new"
  obtains s' where "realloc_locked p new (heap_taken s) = (Inl p, s')" and "good_call s L s' (L(p \<mapsto> n))"
proof -
  from realloc_locked_shrink [OF wf idle p new(1,2)] obtain s' where f:
    "realloc_locked p new (heap_taken s) = (Inl p, s')" "heap_only s s'" "heap_idle s'"
    "heap_wf (join (shrunk xs k new ys)) s'"
    "\<forall>a. \<not> in_header (heap_ptr s) (shrunk xs k new ys) a \<longrightarrow> ram s' a = ram s a" by blast
  let ?mid = "[(16 + new, True), (k - 16 - new, False)]"
  have tm: "total ?mid = k" using new(2) by simp
  have sh: "shrunk xs k new ys = xs @ ?mid @ ys" by (simp add: shrunk_def)
  have at: "(q, j, True) \<in> layout (total xs) ?mid \<longleftrightarrow>
      (\<exists>m. Some (16 + new, n) = Some (j, m) \<and> q = total xs)" for q j
    by auto
  have fit: "0 < snd j \<and> snd j + 16 \<le> fst j" if "Some (16 + new, n) = Some j" for j
    using that new(3,4) by auto
  note o = owns_replace [OF wf ow p tm at fit]
  have sz: "\<forall>x \<in> set (xs @ ?mid @ ys). 16 \<le> fst x" using heap_sizes [OF wf] new(2) by auto
  have "keeps L (L(p \<mapsto> n)) s s'"
    unfolding keeps_def
  proof (intro allI impI)
    fix x j j' i assume "(L(p \<mapsto> n)) x = Some j'" "i < j'"
    then have "live_data (heap_ptr s) (xs @ ?mid @ ys) (x + i)" using o(2) [of x j' i] by simp
    then show "ram s' (x + i) = ram s (x + i)"
      using f(5) live_not_header [OF sz] unfolding sh by blast
  qed
  then have "good_call s L s' (L(p \<mapsto> n))"
    using f o(1) unfolding good_call_def sh by auto
  with f(1) show ?thesis by (rule that)
qed

lemma good_realloc_move:
  assumes wf: "heap_wf bs s" and idle: "heap_idle s" and ow: "owns (heap_ptr s) bs L"
    and q: "L q = Some m" and r: "rt_malloc fuel self name new s = Some (Some p, s1)"
    and mv: "realloc_move self q sz new p s1 = (Some p', s')"
    and n: "0 < n" "n \<le> new" "new + 3 < 2 ^ 32" and sz: "m \<le> sz"
  shows "p' = p \<and> good_call s L s' (if p = 0 then L else (L(q := None))(p \<mapsto> n))
    \<and> (p \<noteq> 0 \<longrightarrow> (\<forall>i. i < m \<longrightarrow> i < n \<longrightarrow> ram s' (p + i) = ram s (q + i)))"
proof (cases "p = 0")
  case True
  then show ?thesis using mv good_malloc(1) [OF wf idle ow r n(3)] by (simp add: realloc_move_def)
next
  case False
  define m2 where "m2 = rt_memcpy p q (if sz < new then sz else new) (ram s1)"
  let ?s2 = "s1\<lparr>ram := m2\<rparr>" and ?L = "L(p \<mapsto> new)"
  obtain bs2 where b: "heap_wf bs2 ?s2" "owns (heap_ptr s) bs2 ?L" "heap_only s ?s2" "heap_idle ?s2"
    "keeps L ?L s ?s2" "keeps L ?L s s1" "L p = None" "0 < new"
    by (rule good_fill [OF wf idle ow r n(3) False, of m2]) (auto simp: m2_def rt_memcpy_def)
  have pq: "p \<noteq> q" using b(7) q by auto
  have hp: "heap_ptr ?s2 = heap_ptr s" using heap_only_sel [OF b(3)] by simp
  obtain s3 where f: "rt_free self q ?s2 = (Some (), s3)" "good_call ?s2 ?L s3 (?L(q := None))"
    by (rule good_free [OF b(1,4), of ?L q m self]) (use b(2) hp q pq in auto)
  have s3: "p' = p" "s' = s3" using mv False f(1) by (simp_all add: realloc_move_def m2_def)
  have L: "(L(q := None))(p \<mapsto> n) = (?L(q := None))(p \<mapsto> n)" using pq by auto
  obtain bs3 where b3: "heap_wf bs3 s3" "owns (heap_ptr s) bs3 (?L(q := None))"
    "heap_only ?s2 s3" "heap_idle s3" "keeps ?L (?L(q := None)) ?s2 s3"
    using f(2) by (auto simp: good_call_def hp)
  have "owns (heap_ptr s) bs3 ((L(q := None))(p \<mapsto> n))"
    unfolding L by (rule owns_less [of _ _ _ _ new])
      (use b3(2) pq n in \<open>simp_all add: fun_upd_twist\<close>)
  moreover have "keeps L ((L(q := None))(p \<mapsto> n)) s s3"
    unfolding keeps_def
  proof (intro allI impI)
    fix x j j' i assume h: "L x = Some j" "((L(q := None))(p \<mapsto> n)) x = Some j'" "i < j" "i < j'"
    then have x: "x \<noteq> p" "x \<noteq> q" using b(7) pq by (auto split: if_splits)
    then have "ram s3 (x + i) = ram ?s2 (x + i)"
      using b3(5) h unfolding keeps_def by simp
    also have "\<dots> = ram s (x + i)" using b(5) h x unfolding keeps_def by simp
    finally show "ram s3 (x + i) = ram s (x + i)" .
  qed
  moreover have "ram s3 (p + i) = ram s (q + i)" if i: "i < m" "i < n" for i
  proof -
    have "ram s3 (p + i) = m2 (p + i)"
      using b3(5) i n pq unfolding keeps_def by simp
    also have "\<dots> = ram s1 (q + i)" using i sz n by (simp add: m2_def rt_memcpy_def)
    also have "\<dots> = ram s (q + i)" using b(6) q pq i unfolding keeps_def by simp
    finally show ?thesis .
  qed
  ultimately show ?thesis
    using s3 False b3(1,4) heap_only_trans [OF b(3) b3(3)] by (auto simp: good_call_def)
qed

lemma good_realloc:
  assumes wf: "heap_wf bs s" and idle: "heap_idle s" and ow: "owns (heap_ptr s) bs L"
    and q: "L q = Some m" and r: "rt_realloc fuel self name q n s = Some (Some p, s')"
    and n: "0 < n" "n + 3 < 2 ^ 32"
  shows "good_call s L s' (if p = 0 then L else (L(q := None))(p \<mapsto> n))
    \<and> (p \<noteq> 0 \<longrightarrow> (\<forall>i. i < m \<longrightarrow> i < n \<longrightarrow> ram s' (p + i) = ram s (q + i)))"
proof -
  let ?new = "RT_ALIGN n"
  obtain xs k ys where b: "bs = xs @ (k, True) # ys" "q = heap_ptr s + total xs + 16" "0 < m"
    "m + 16 \<le> k" "heap_ptr s \<le> q" "q < heap_end s"
    by (rule owned_block [OF wf ow q]) (rule that; assumption)
  note wf' = wf [unfolded b(1)] and ow' = ow [unfolded b(1)]
  have al: "?new = (n + 3) div 4 * 4" using n(2) by (simp add: RT_ALIGN_def add32_small)
  have new: "n \<le> ?new" "4 dvd ?new" "?new \<noteq> 0" using n(1) unfolding al by (linarith, simp, linarith)
  have big: "mem_size_aligned s + 32 \<le> 2 ^ 32" using wf by (simp add: heap_wf_def)
  show ?thesis
  proof (cases "mem_size_aligned s < ?new")
    case True
    then have "p = 0" "s' = s" using r by (simp_all add: rt_realloc_def)
    then show ?thesis using good_call_same [OF wf idle ow] by simp
  next
    case False
    then have le: "?new \<le> mem_size_aligned s" by simp
    have q0: "q \<noteq> 0" using b(2) by simp
    show ?thesis
    proof (cases "?new + 44 < k")
      case True
      obtain s2 where "realloc_locked q ?new (heap_taken s) = (Inl q, s2)"
        "good_call s L s2 (L(q \<mapsto> n))"
        by (rule good_shrink [OF wf' idle ow' b(2) new(2) True n(1) new(1)])
      moreover from this have "p = q" "s' = s2"
        using r le new(3) q0 idle by (simp_all add: rt_realloc_def Let_def heap_take_idle)
      ultimately show ?thesis using q0 q by (auto simp: good_call_def keeps_def)
    next
      case False
      have "16 < k" using b(3,4) by simp
      note st = realloc_locked_stay [OF wf' idle this b(2) le False]
      show ?thesis
      proof (cases "k - 16 = ?new")
        case True
        then have "p = q" "s' = s"
          using r le new(3) q0 idle st by (simp_all add: rt_realloc_def Let_def heap_take_idle)
        moreover have "owns (heap_ptr s) bs (L(q \<mapsto> n))"
          by (rule owns_fit [OF ow]) (use b(1,2) True new(1) n(1) \<open>16 < k\<close> in auto)
        ultimately show ?thesis using q0 wf idle by (auto simp: good_call_def keeps_def)
      next
        case False
        then obtain nm s1 where m: "rt_malloc fuel self name ?new s = Some (Some nm, s1)"
          "realloc_move self q (k - 16) ?new nm s1 = (Some p, s')"
          using r le new(3) q0 idle st
          by (auto simp: rt_realloc_def Let_def heap_take_idle split: option.splits prod.splits)
        show ?thesis
          using good_realloc_move [OF wf idle ow q m n(1) new(1)] le big b(4) by auto
      qed
    qed
  qed
qed

section \<open>From the start\<close>

text \<open>The region can hold a smallest block, and the statics are zero.\<close>

definition heap_start :: "nat \<Rightarrow> nat \<Rightarrow> 'a heap_scheme \<Rightarrow> bool" where
  "heap_start a b z \<longleftrightarrow> a + 3 < 2 ^ 32 \<and> b < 2 ^ 32 \<and> RT_ALIGN a + 44 \<le> RT_ALIGN_DOWN b
     \<and> used_mem z = 0 \<and> max_mem z = 0 \<and> \<not> halted z"

lemma heap_init_wf:
  fixes z :: "'a heap_scheme"
  assumes "heap_start a b z"
  defines "s \<equiv> rt_system_heap_init a b z"
  shows "heap_wf [(RT_ALIGN_DOWN b - RT_ALIGN a - 16, False)] s" and "heap_idle s" and "\<not> halted s"
    and "heap_ptr s = RT_ALIGN a" and "heap_end s = RT_ALIGN_DOWN b - 16"
    and "mem_size_aligned s = RT_ALIGN_DOWN b - RT_ALIGN a - 32"
proof -
  let ?b = "RT_ALIGN a" and ?n = "RT_ALIGN_DOWN b - RT_ALIGN a - 32"
  let ?f = "?b + (?n + 16)"
  have st: "a + 3 < 2 ^ 32" "b < 2 ^ 32" "?b + 44 \<le> RT_ALIGN_DOWN b" "used_mem z = 0"
    "max_mem z = 0" "\<not> halted z" using assms(1) by (simp_all add: heap_start_def)
  have al: "4 dvd ?b" "4 dvd RT_ALIGN_DOWN b" "RT_ALIGN_DOWN b \<le> b"
    by (simp_all add: RT_ALIGN_def RT_ALIGN_DOWN_def)
  have d: "4 dvd RT_ALIGN_DOWN b - (16 + ?b)" "16 \<le> RT_ALIGN_DOWN b - (16 + ?b)"
    using al st(3) by (simp_all add: dvd_diff_nat)
  define m1 where "m1 = rt_mem_setname ?b ''INIT'' (set_used ?b 0 (set_prev ?b 0
    (set_next ?b (?n + 16) (set_magic ?b HEAP_MAGIC (ram z)))))"
  define m2 where "m2 = rt_mem_setname ?f ''INIT'' (set_prev ?f (?n + 16) (set_next ?f (?n + 16)
    (set_used ?f 1 (set_magic ?f HEAP_MAGIC m1))))"
  have "h_next m1 ?b = ?n + 16" using st al by (simp add: m1_def)
  then have s: "s = (sem_create HEAP_SEM 1 RT_IPC_FLAG_PRIO z)\<lparr>ram := m2, heap_ptr := ?b,
      heap_end := ?f, lfree := ?b, mem_size_aligned := ?n\<rparr>"
    using st(3) unfolding s_def rt_system_heap_init_def Let_def SIZEOF_STRUCT_MEM_def
    by (simp add: m1_def m2_def)
  have h: "h_magic m2 ?b = HEAP_MAGIC" "h_used m2 ?b = 0" "h_next m2 ?b = ?n + 16" "h_prev m2 ?b = 0"
    "h_used m2 ?f = 1"
    using st al by (simp_all add: m2_def m1_def header_other HEAP_MAGIC_def)
  have "blocks m2 ?b 0 0 [(?n + 16, False)] (?n + 16)" using h st(3) d by simp
  then show "heap_wf [(RT_ALIGN_DOWN b - ?b - 16, False)] s"
    using h(5) st al by (auto simp: heap_wf_def s sem_create_def upd_sem_def)
  show "heap_idle s" by (simp add: heap_idle_def s sem_create_def upd_sem_def)
  show "\<not> halted s" using st(6) by (simp add: s sem_create_def upd_sem_def)
  show "heap_ptr s = ?b" "heap_end s = RT_ALIGN_DOWN b - 16" "mem_size_aligned s = ?n"
    using st(3) by (simp_all add: s)
qed

text \<open>Every run keeps the invariant, on the region it was given.\<close>

lemma heap_call_good:
  assumes "heap_call s L s' L'" and "heap_wf bs s" and "heap_idle s" and "owns (heap_ptr s) bs L"
  shows "good_call s L s' L'"
  using assms
proof cases
  case (call_malloc fuel self name n p)
  then show ?thesis using good_malloc(1) [OF assms(2-4)] by simp
next
  case (call_calloc fuel self name c n p)
  then show ?thesis using good_calloc(1) [OF assms(2-4)] by simp
next
  case (call_realloc fuel self name q n p)
  then obtain m where "L q = Some m" by blast
  from good_realloc [OF assms(2-4) this call_realloc(2,4,5)] show ?thesis using call_realloc by simp
next
  case (call_free self q)
  then obtain m where "L q = Some m" by blast
  from good_free [OF assms(2-4) this, of self] show ?thesis using call_free by auto
qed

lemma heap_run_inv:
  assumes "heap_run a b z s L" and "heap_start a b z"
  shows "\<exists>bs. heap_wf bs s \<and> heap_idle s \<and> \<not> halted s \<and> owns (heap_ptr s) bs L
    \<and> heap_ptr s = RT_ALIGN a \<and> heap_end s = RT_ALIGN_DOWN b - 16
    \<and> mem_size_aligned s = RT_ALIGN_DOWN b - RT_ALIGN a - 32"
  using assms(1)
proof induction
  case run_init
  note i = heap_init_wf [OF assms(2)]
  have "owns x [(n, False)] Map.empty" for x n by (simp add: owns_def)
  then show ?case using i by blast
next
  case (run_call s L s' L')
  then obtain bs where bs: "heap_wf bs s" "heap_idle s" "\<not> halted s" "owns (heap_ptr s) bs L"
    "heap_ptr s = RT_ALIGN a" "heap_end s = RT_ALIGN_DOWN b - 16"
    "mem_size_aligned s = RT_ALIGN_DOWN b - RT_ALIGN a - 32" by blast
  have g: "good_call s L s' L'" by (rule heap_call_good [OF run_call.hyps(2) bs(1,2,4)])
  then have "heap_only s s'" by (simp add: good_call_def)
  note sel = heap_only_sel [OF this]
  show ?case using g bs sel by (auto simp: good_call_def)
next
  case (run_write s L p n i v)
  then obtain bs where bs: "heap_wf bs s" "heap_idle s" "\<not> halted s" "owns (heap_ptr s) bs L"
    "heap_ptr s = RT_ALIGN a" "heap_end s = RT_ALIGN_DOWN b - 16"
    "mem_size_aligned s = RT_ALIGN_DOWN b - RT_ALIGN a - 32" by blast
  have "heap_wf bs (s\<lparr>ram := (ram s)(p + i := v)\<rparr>)"
    by (rule heap_wf_write [OF bs(1)]) (use owns_live [OF bs(4) run_write.hyps(2,3)] in auto)
  then show ?case using bs by auto
qed

section \<open>Properties\<close>

lemma owned_apart:
  assumes ow: "owns b bs L" and p: "L p = Some n" and q: "L q = Some m" and ne: "p \<noteq> q"
  shows "p + n \<le> q \<or> q + m \<le> p"
proof -
  obtain i k where i: "p = b + i + 16" "(i, k, True) \<in> layout 0 bs" "n + 16 \<le> k"
    using owns_block [OF ow p] by blast
  obtain j l where j: "q = b + j + 16" "(j, l, True) \<in> layout 0 bs" "m + 16 \<le> l"
    using owns_block [OF ow q] by blast
  show ?thesis using layout_apart [OF i(2) j(2)] i j ne by auto
qed

lemma all_free_single:
  assumes "heap_wf bs s" and "\<And>q k. (q, k, True) \<notin> layout 0 bs"
  shows "bs = [(mem_size_aligned s + 16, False)]"
proof -
  have bl: "blocks (ram s) (heap_ptr s) 0 0 bs (mem_size_aligned s + 16)" and co: "coalesced bs"
    using assms(1) by (auto simp: heap_wf_def)
  have tot: "total bs = mem_size_aligned s + 16" using blocks_end [OF bl] by simp
  have free: "\<not> snd x" if x: "x \<in> set bs" for x
  proof
    assume u: "snd x"
    obtain xs ys where bs: "bs = xs @ x # ys" using split_list [OF x] by blast
    have "(total xs, fst x, True) \<in> layout 0 bs" using u by (cases x) (simp add: bs)
    then show False using assms(2) by blast
  qed
  show ?thesis
  proof (cases bs)
    case Nil
    then show ?thesis using tot by simp
  next
    case (Cons x ys)
    have "ys = []"
    proof (rule ccontr)
      assume "ys \<noteq> []"
      then obtain y zs where "ys = y # zs" by (cases ys) auto
      then show False using co free Cons by simp
    qed
    then show ?thesis using Cons tot free [of x] by (cases x) simp
  qed
qed

lemma blocks_count: "blocks m b pv p bs e \<Longrightarrow> 16 * length bs + p \<le> e"
  by (induction bs arbitrary: pv p) force+

lemma heap_turns: "heap_wf bs s \<Longrightarrow> length bs + 1 < mem_size_aligned s div 16 + 3"
  using blocks_count [of "ram s" "heap_ptr s" 0 0 bs "mem_size_aligned s + 16"]
  by (simp add: heap_wf_def)

lemma aligned_up: "a + 3 < 2 ^ 32 \<Longrightarrow> a \<le> RT_ALIGN a"
  unfolding RT_ALIGN_def by (simp add: add32_small)

lemma aligned_down: "RT_ALIGN_DOWN b \<le> b"
  by (simp add: RT_ALIGN_DOWN_def)

text \<open>C3: 
  the heap in the eyes of its clients. After any sequence of allocations, reallocations,
  releases and writes into owned memory, every pointer that is owned is aligned, lies with the
  size asked for inside the region given to \<open>rt_system_heap_init\<close>, clear of the other owned
  pointers; no assertion has failed, and \<open>memcheck\<close> finds the heap in order.
\<close>

theorem heap_run_sound:
  assumes "heap_start a b z" and "heap_run a b z s L"
  shows "\<not> halted s
    \<and> (\<forall>p n. L p = Some n \<longrightarrow> 0 < n \<and> 4 dvd p \<and> a + 16 \<le> p \<and> p + n + 16 \<le> b)
    \<and> (\<forall>p n q m. L p = Some n \<longrightarrow> L q = Some m \<longrightarrow> p \<noteq> q \<longrightarrow> p + n \<le> q \<or> q + m \<le> p)
    \<and> memcheck (mem_size_aligned s div 16 + 3) (heap_ptr s) s = Some True"
proof -
  obtain bs where bs: "heap_wf bs s" "heap_idle s" "\<not> halted s" "owns (heap_ptr s) bs L"
    "heap_ptr s = RT_ALIGN a" "heap_end s = RT_ALIGN_DOWN b - 16"
    using heap_run_inv [OF assms(2,1)] by blast
  have rg: "a \<le> RT_ALIGN a" "RT_ALIGN_DOWN b \<le> b" "16 \<le> RT_ALIGN_DOWN b"
    using assms(1) aligned_up aligned_down by (simp_all add: heap_start_def)
  have "0 < n \<and> 4 dvd p \<and> a + 16 \<le> p \<and> p + n + 16 \<le> b" if p: "L p = Some n" for p n
  proof -
    obtain xs k ys where o: "bs = xs @ (k, True) # ys" "p = heap_ptr s + total xs + 16" "0 < n"
      "n + 16 \<le> k" "4 dvd p" by (rule owned_block [OF bs(1,4) p]) (rule that; assumption)
    have "total xs + k \<le> mem_size_aligned s + 16"
      "heap_end s = heap_ptr s + (mem_size_aligned s + 16)"
      using realloc_locked_size(9) [OF bs(1) [unfolded o(1)] o(2)] bs(1) by (simp_all add: heap_wf_def)
    then show ?thesis using o bs(5,6) rg by simp
  qed
  moreover have "memcheck (mem_size_aligned s div 16 + 3) (heap_ptr s) s = Some True"
    using memcheck_blocks [of s 0 0 bs] bs(1) heap_turns [OF bs(1)] by (simp add: heap_wf_def)
  ultimately show ?thesis using owned_apart [OF bs(4)] bs(3) by blast
qed

text \<open>C4: 
  no call touches the data of another client: what is owned before and after a call of
  \<open>rt_malloc\<close>, \<open>rt_calloc\<close>, \<open>rt_realloc\<close> or \<open>rt_free\<close> holds the same bytes.
\<close>

theorem heap_call_keeps_data:
  assumes "heap_start a b z" and "heap_run a b z s L" and "heap_call s L s' L'"
    and "L p = Some n" and "L' p = Some n'" and "i < n" and "i < n'"
  shows "ram s' (p + i) = ram s (p + i)"
proof -
  obtain bs where bs: "heap_wf bs s" "heap_idle s" "owns (heap_ptr s) bs L"
    using heap_run_inv [OF assms(2,1)] by blast
  have "keeps L L' s s'" using heap_call_good [OF assms(3) bs] by (simp add: good_call_def)
  then show ?thesis using assms(4-7) by (simp add: keeps_def)
qed

text \<open>C30: 
  \<open>rt_realloc\<close> hands the contents on: the block it returns, in place or moved, begins with the
  bytes of the old one, as many as fit.
\<close>

theorem realloc_moves_data:
  assumes "heap_start a b z" and "heap_run a b z s L" and "L q = Some m"
    and "rt_realloc fuel self name q n s = Some (Some p, s')" and "p \<noteq> 0"
    and "0 < n" and "n + 3 < 2 ^ 32" and "i < m" and "i < n"
  shows "ram s' (p + i) = ram s (q + i)"
proof -
  obtain bs where bs: "heap_wf bs s" "heap_idle s" "owns (heap_ptr s) bs L"
    using heap_run_inv [OF assms(2,1)] by blast
  show ?thesis using good_realloc [OF bs assms(3,4,6,7)] assms(5,8,9) by blast
qed

text \<open>C10: 
  allocation returns, with enough turns of its loops, and it is first fit: the answer is the
  lowest free block with room, cut to size when the rest is worth it, and \<open>RT_NULL\<close>, with nothing
  changed, only when no free block has room, except one that begins so late that the loop of
  \<open>rt_malloc\<close> gives up before it.
\<close>

theorem malloc_first_fit:
  assumes "heap_start a b z" and "heap_run a b z s L" and "0 < n" and "n + 3 < 2 ^ 32"
    and "mem_size_aligned s div 16 + 3 \<le> fuel"
  shows "\<exists>bs p s'. heap_wf bs s \<and> rt_malloc fuel self name n s = Some (Some p, s') \<and>
    (case first_fit (mem_size_aligned s - need_of n) (need_of n) 0 bs of
       Some (q, bs') \<Rightarrow> p = heap_ptr s + q + 16 \<and> heap_wf bs' s'
     | None \<Rightarrow> p = 0 \<and> s' = s \<and> (\<forall>q k. (q, k, False) \<in> layout 0 bs \<longrightarrow>
         k < need_of n + 16 \<or> mem_size_aligned s - need_of n \<le> q))"
proof -
  obtain bs where bs: "heap_wf bs s" "heap_idle s"
    using heap_run_inv [OF assms(2,1)] by blast
  have "length bs + 1 < fuel" using heap_turns [OF bs(1)] assms(5) by simp
  from rt_malloc_spec [OF bs assms(3,4) this, of self name] show ?thesis
    using bs(1) first_fit_None
    by (fastforce simp: malloc_spec_def split: option.splits prod.splits)
qed

text \<open>C31: 
  nothing is lost. When all that was allocated has been released, no memory counts as used and
  the whole heap is one free block again.
\<close>

theorem heap_released_whole:
  assumes "heap_start a b z" and "heap_run a b z s Map.empty"
  shows "rt_memory_info s = (mem_size_aligned s, 0, max_mem s)
    \<and> heap_wf [(mem_size_aligned s + 16, False)] s"
proof -
  obtain bs where bs: "heap_wf bs s" "owns (heap_ptr s) bs Map.empty"
    using heap_run_inv [OF assms(2,1)] by blast
  have "bs = [(mem_size_aligned s + 16, False)]"
    by (rule all_free_single [OF bs(1)]) (use bs(2) in \<open>auto simp: owns_def\<close>)
  then show ?thesis using bs(1) by (auto simp: rt_memory_info_def heap_wf_def)
qed

text \<open>C32: 
  a size within three of \<open>2\<^sup>3\<^sup>2\<close> wraps to zero in \<open>RT_ALIGN\<close> and passes the check against the
  size of the heap: \<open>rt_malloc\<close> then hands out a smallest block, as if one byte had been asked for.
\<close>

theorem malloc_wraps:
  assumes "2 ^ 32 - 3 \<le> n" and "n < 2 ^ 32" and "4 \<le> mem_size_aligned s"
  shows "rt_malloc fuel self name n s = rt_malloc fuel self name 1 s"
proof -
  have "(n + 3) mod 2 ^ 32 = n + 3 - 2 ^ 32" "n + 3 - 2 ^ 32 < 4"
    using assms(1,2) by (simp_all add: le_mod_geq)
  then have "RT_ALIGN n = 0" by (simp add: RT_ALIGN_def add32_def)
  moreover have "RT_ALIGN 1 = 4" by (simp add: RT_ALIGN_def add32_def)
  ultimately show ?thesis
    using assms(1,3) by (simp add: rt_malloc_def MIN_SIZE_ALIGNED_def Let_def)
qed

section \<open>Witnesses\<close>

definition heap_zero :: heap where
  "heap_zero = kern.extend idle_kern (heap.fields (\<lambda>_. 0) 0 0 0 0 0 0)"

lemma heap_start_zero: "heap_start 0x20000000 0x20000400 heap_zero"
  by (simp add: heap_start_def RT_ALIGN_def RT_ALIGN_DOWN_def add32_def heap_zero_def kern.defs
      heap.defs idle_kern_def)

text \<open>One more allocation in a run, computed by first fit.\<close>

lemma run_malloc:
  assumes "heap_start a b z" and "heap_run a b z s L" and "heap_wf bs s"
    and "first_fit (RT_ALIGN_DOWN b - RT_ALIGN a - 32 - need_of n) (need_of n) 0 bs = Some (q, bs')"
    and "0 < n" and "n + 3 < 2 ^ 32" and "p = RT_ALIGN a + q + 16"
  shows "\<exists>fuel s'. rt_malloc fuel self name n s = Some (Some p, s')
    \<and> heap_run a b z s' (L(p \<mapsto> n)) \<and> heap_wf bs' s'"
proof -
  let ?f = "length bs + 2"
  have i: "heap_idle s" "heap_ptr s = RT_ALIGN a" "mem_size_aligned s = RT_ALIGN_DOWN b - RT_ALIGN a - 32"
    using heap_run_inv [OF assms(2,1)] by blast+
  obtain s' where m: "rt_malloc ?f self name n s = Some (Some p, s')" "heap_wf bs' s'"
    using rt_malloc_spec [OF assms(3) i(1) assms(5,6), of ?f self name] assms(4,7) i(2,3)
    by (auto simp: malloc_spec_def)
  have "p \<noteq> 0" using assms(7) by simp
  then have "heap_call s L s' (L(p \<mapsto> n))" using call_malloc [OF m(1) assms(6), of L] by simp
  then show ?thesis using m run_call [OF assms(2)] by blast
qed

text \<open>Twenty bytes and then thirty, in a heap of one kilobyte.\<close>

lemma example_run:
  obtains s1 s2 fuel where "heap_run 0x20000000 0x20000400 heap_zero s1 [0x20000010 \<mapsto> 20]"
    and "heap_wf [(36, True), (972, False)] s1"
    and "rt_malloc fuel 1 ''main'' 30 s1 = Some (Some 0x20000034, s2)"
    and "heap_run 0x20000000 0x20000400 heap_zero s2 [0x20000010 \<mapsto> 20, 0x20000034 \<mapsto> 30]"
proof -
  let ?s0 = "rt_system_heap_init 0x20000000 0x20000400 heap_zero"
  have al: "RT_ALIGN 0x20000000 = 0x20000000" "RT_ALIGN_DOWN 0x20000400 = 0x20000400"
    by (simp_all add: RT_ALIGN_def RT_ALIGN_DOWN_def add32_def)
  have w0: "heap_wf [(1008, False)] ?s0" using heap_init_wf(1) [OF heap_start_zero] by (simp add: al)
  obtain s1 where s1: "heap_run 0x20000000 0x20000400 heap_zero s1 [0x20000010 \<mapsto> 20]"
    "heap_wf [(36, True), (972, False)] s1"
    using run_malloc [OF heap_start_zero run_init w0, of 20 0 _ "0x20000010" 1 "''main''"]
    by (auto simp: al need_of_def carve_def)
  obtain s2 fuel where "rt_malloc fuel 1 ''main'' 30 s1 = Some (Some 0x20000034, s2)"
    "heap_run 0x20000000 0x20000400 heap_zero s2 [0x20000010 \<mapsto> 20, 0x20000034 \<mapsto> 30]"
    using run_malloc [OF heap_start_zero s1, of 30 36 _ "0x20000034" 1 "''main''"]
    by (auto simp: al need_of_def carve_def)
  with s1 show ?thesis by (rule that)
qed

theorem heap_run_sound_witness:
  "\<exists>s. heap_run 0x20000000 0x20000400 heap_zero s [0x20000010 \<mapsto> 20, 0x20000034 \<mapsto> 30]
     \<and> memcheck (mem_size_aligned s div 16 + 3) (heap_ptr s) s = Some True"
proof -
  obtain s where r: "heap_run 0x20000000 0x20000400 heap_zero s [0x20000010 \<mapsto> 20, 0x20000034 \<mapsto> 30]"
    using example_run by blast
  show ?thesis using r heap_run_sound [OF heap_start_zero r] by blast
qed

theorem heap_call_keeps_data_witness:
  "\<exists>s1 s2 fuel. rt_malloc fuel 1 ''main'' 30 s1 = Some (Some 0x20000034, s2)
     \<and> heap_run 0x20000000 0x20000400 heap_zero s1 [0x20000010 \<mapsto> 20]
     \<and> ram s2 (0x20000010 + 7) = ram s1 (0x20000010 + 7)"
proof -
  obtain s1 s2 fuel where r: "heap_run 0x20000000 0x20000400 heap_zero s1 [0x20000010 \<mapsto> 20]"
    "rt_malloc fuel 1 ''main'' 30 s1 = Some (Some 0x20000034, s2)"
    by (rule example_run) (rule that; assumption)
  have c: "heap_call s1 [0x20000010 \<mapsto> 20] s2 [0x20000010 \<mapsto> 20, 0x20000034 \<mapsto> 30]"
    using call_malloc [OF r(2), of "[0x20000010 \<mapsto> 20]"] by simp
  have "ram s2 (0x20000010 + 7) = ram s1 (0x20000010 + 7)"
    by (rule heap_call_keeps_data [OF heap_start_zero r(1) c, of _ 20 20]) simp_all
  then show ?thesis using r by blast
qed

theorem malloc_first_fit_witness:
  "\<exists>p s'. rt_malloc 100 1 ''main'' 8 (rt_system_heap_init 0x20000000 0x20000400 heap_zero) = Some (Some p, s')"
proof -
  let ?s0 = "rt_system_heap_init 0x20000000 0x20000400 heap_zero"
  have "mem_size_aligned ?s0 = 992"
    using heap_init_wf(6) [OF heap_start_zero] by (simp add: RT_ALIGN_def RT_ALIGN_DOWN_def add32_def)
  then show ?thesis
    using malloc_first_fit [OF heap_start_zero run_init, of 8 100 1 "''main''"] by auto
qed

theorem heap_released_whole_witness:
  "\<exists>s s'. heap_run 0x20000000 0x20000400 heap_zero s [0x20000010 \<mapsto> 20]
     \<and> rt_free 1 0x20000010 s = (Some (), s') \<and> used_mem s' = 0
     \<and> heap_wf [(mem_size_aligned s' + 16, False)] s'"
proof -
  obtain s where r: "heap_run 0x20000000 0x20000400 heap_zero s [0x20000010 \<mapsto> 20]"
    by (rule example_run) (rule that; assumption)
  obtain bs where bs: "heap_wf bs s" "heap_idle s" "owns (heap_ptr s) bs [0x20000010 \<mapsto> 20]"
    using heap_run_inv [OF r heap_start_zero] by blast
  obtain s' where f: "rt_free 1 0x20000010 s = (Some (), s')"
    by (rule good_free [OF bs, of "0x20000010" 20 1]) (simp, rule that)
  have "heap_call s [0x20000010 \<mapsto> 20] s' ([0x20000010 \<mapsto> 20](0x20000010 := None))"
    by (rule call_free [OF f]) simp
  from run_call [OF r this] have e: "heap_run 0x20000000 0x20000400 heap_zero s' Map.empty" by simp
  show ?thesis
    using r f heap_released_whole [OF heap_start_zero e] by (auto simp: rt_memory_info_def)
qed

theorem realloc_moves_data_witness:
  "\<exists>s s' fuel p. heap_run 0x20000000 0x20000400 heap_zero s [0x20000010 \<mapsto> 20]
     \<and> rt_realloc fuel 1 ''main'' 0x20000010 40 s = Some (Some p, s') \<and> p \<noteq> 0x20000010
     \<and> ram s' (p + 19) = ram s (0x20000010 + 19)"
proof -
  obtain s where r: "heap_run 0x20000000 0x20000400 heap_zero s [0x20000010 \<mapsto> 20]"
    and w: "heap_wf [(36, True), (972, False)] s"
    by (rule example_run) (rule that; assumption)
  obtain bs where "heap_wf bs s" and i: "heap_idle s" and o0: "owns (heap_ptr s) bs [0x20000010 \<mapsto> 20]"
    and hp: "heap_ptr s = RT_ALIGN 0x20000000"
    and ms: "mem_size_aligned s = RT_ALIGN_DOWN 0x20000400 - RT_ALIGN 0x20000000 - 32"
    using heap_run_inv [OF r heap_start_zero] by blast
  have al: "RT_ALIGN 0x20000000 = 0x20000000" "RT_ALIGN_DOWN 0x20000400 = 0x20000400" "RT_ALIGN 40 = 40"
    by (simp_all add: RT_ALIGN_def RT_ALIGN_DOWN_def add32_def)
  have ow: "owns (heap_ptr s) [(36, True), (972, False)] [0x20000010 \<mapsto> 20]"
    by (auto simp: owns_def hp al)
  obtain fuel s1 where m: "rt_malloc fuel 1 ''main'' 40 s = Some (Some 0x20000034, s1)"
    using run_malloc [OF heap_start_zero r w, of 40 36 _ "0x20000034" 1 "''main''"]
    by (auto simp: al need_of_def carve_def)
  define s2 where "s2 = s1\<lparr>ram := rt_memcpy 0x20000034 0x20000010 20 (ram s1)\<rparr>"
  obtain bs2 where b: "heap_wf bs2 s2" "owns (heap_ptr s) bs2 [0x20000010 \<mapsto> 20, 0x20000034 \<mapsto> 40]"
    "heap_only s s2" "heap_idle s2"
    by (rule good_fill [OF w i ow m, of "rt_memcpy 0x20000034 0x20000010 20 (ram s1)"])
      (auto simp: rt_memcpy_def s2_def)
  have "heap_ptr s2 = heap_ptr s" by (rule heap_only_sel [OF b(3)])
  then obtain s' where f: "rt_free 1 0x20000010 s2 = (Some (), s')"
    using good_free [OF b(1,4), of "[0x20000010 \<mapsto> 20, 0x20000034 \<mapsto> 40]" "0x20000010" 20 1] b(2)
    by auto
  have "realloc_locked 0x20000010 40 (heap_taken s) = (Inr 20, s)"
    using realloc_locked_stay [of "[]" 36 "[(972, False)]" s "0x20000010" 40] w i
    by (simp add: hp ms al)
  then have re: "rt_realloc fuel 1 ''main'' 0x20000010 40 s = Some (Some 0x20000034, s')"
    using i m f by (simp add: rt_realloc_def al ms heap_take_idle realloc_move_def s2_def)
  have "ram s' (0x20000034 + 19) = ram s (0x20000010 + 19)"
    by (rule realloc_moves_data [OF heap_start_zero r _ re, of 20]) simp_all
  then show ?thesis using r re by force
qed

theorem malloc_wraps_witness:
  "rt_malloc 100 1 ''main'' 0xFFFFFFFF (rt_system_heap_init 0x20000000 0x20000400 heap_zero)
   = rt_malloc 100 1 ''main'' 1 (rt_system_heap_init 0x20000000 0x20000400 heap_zero)"
proof -
  have "mem_size_aligned (rt_system_heap_init 0x20000000 0x20000400 heap_zero) = 992"
    using heap_init_wf(6) [OF heap_start_zero] by (simp add: RT_ALIGN_def RT_ALIGN_DOWN_def add32_def)
  then show ?thesis by (intro malloc_wraps) simp_all
qed

end
