(* ===== verification/Ipc_Objects.thy ===== *)
theory Ipc_Objects
  imports Ipc
begin

text \<open>
  Taking kernel objects away from the threads that wait for them: detaching, deleting and resetting
  semaphores, mutexes and events (\<open>rt-thread/src/ipc.c\<close>). All of them resume every waiting thread
  with the error \<open>-RT_ERROR\<close> in a loop that ends when the suspend list is empty.
\<close>

section \<open>Resuming all threads of a list\<close>

text \<open>
  The loop of \<open>_ipc_list_resume_all\<close>; \<open>lst\<close> reads the list and \<open>wake\<close> sets the error and resumes.
  When the head of the list is not suspended, it stays there and the loop does not end: the first
  argument bounds the turns and \<^const>\<open>None\<close> says that they were not enough.
\<close>

fun ipc_list_resume_all :: "nat \<Rightarrow> ('s \<Rightarrow> nat list) \<Rightarrow> (nat \<Rightarrow> 's \<Rightarrow> 's) \<Rightarrow> 's \<Rightarrow> 's option" where
  "ipc_list_resume_all n lst wake s =
     (case lst s of [] \<Rightarrow> Some s
      | p # _ \<Rightarrow> (case n of 0 \<Rightarrow> None | Suc m \<Rightarrow> ipc_list_resume_all m lst wake (wake p s)))"

declare ipc_list_resume_all.simps [simp del]

definition resume_error :: "nat \<Rightarrow> 'a kern_scheme \<Rightarrow> 'a kern_scheme" where
  "resume_error p s = snd (rt_thread_resume p (upd_thread p (\<lambda>t. t\<lparr>thread_error := RT_ERROR\<rparr>) s))"

section \<open>Detaching and resetting\<close>

definition rt_sem_detach :: "nat \<Rightarrow> nat \<Rightarrow> 'a kern_scheme \<Rightarrow> 'a kern_scheme option" where
  "rt_sem_detach n i s = ipc_list_resume_all n (\<lambda>s. sem_suspend (sems s i)) resume_error s"

definition rt_mutex_detach :: "nat \<Rightarrow> nat \<Rightarrow> 'a kern_scheme \<Rightarrow> 'a kern_scheme option" where
  "rt_mutex_detach n i s = ipc_list_resume_all n (\<lambda>s. mutex_suspend (mutexes s i)) resume_error s"

definition rt_event_detach :: "nat \<Rightarrow> nat \<Rightarrow> 'a kern_scheme \<Rightarrow> 'a kern_scheme option" where
  "rt_event_detach n i s = ipc_list_resume_all n (\<lambda>s. event_suspend (events s i)) resume_error s"

text \<open>
  Deleting differs from detaching in what happens to the memory of the object afterwards, which is not
  part of the state. \<open>obj\<close> is what \<open>rt_object_allocate\<close> answers.
\<close>

definition rt_sem_delete :: "nat \<Rightarrow> nat \<Rightarrow> 'a kern_scheme \<Rightarrow> 'a kern_scheme option" where
  "rt_sem_delete n i s = ipc_list_resume_all n (\<lambda>s. sem_suspend (sems s i)) resume_error s"

definition rt_mutex_delete :: "nat \<Rightarrow> nat \<Rightarrow> 'a kern_scheme \<Rightarrow> 'a kern_scheme option" where
  "rt_mutex_delete n i s = ipc_list_resume_all n (\<lambda>s. mutex_suspend (mutexes s i)) resume_error s"

definition rt_event_delete :: "nat \<Rightarrow> nat \<Rightarrow> 'a kern_scheme \<Rightarrow> 'a kern_scheme option" where
  "rt_event_delete n i s = ipc_list_resume_all n (\<lambda>s. event_suspend (events s i)) resume_error s"

definition rt_sem_init :: "nat \<Rightarrow> u32 \<Rightarrow> ipc_flag \<Rightarrow> 'a kern_scheme \<Rightarrow> 'a kern_scheme" where
  "rt_sem_init i v fl s =
     (if v < 0x10000
      then upd_sem i (\<lambda>_. \<lparr>sem_value = ucast v, sem_flag = fl, sem_suspend = []\<rparr>) s
      else s\<lparr>halted := True\<rparr>)"

definition rt_mutex_init :: "nat \<Rightarrow> ipc_flag \<Rightarrow> 'a kern_scheme \<Rightarrow> 'a kern_scheme" where
  "rt_mutex_init i fl s = upd_mutex i (\<lambda>_. \<lparr>mutex_value = 1, hold = 0, owner = None,
     original_priority = 0xFF, mutex_flag = RT_IPC_FLAG_PRIO, mutex_suspend = []\<rparr>) s"

definition rt_event_create ::
  "nat option \<Rightarrow> ipc_flag \<Rightarrow> 'a kern_scheme \<Rightarrow> nat option \<times> 'a kern_scheme" where
  "rt_event_create obj fl s =
     (case obj of None \<Rightarrow> (None, s)
      | Some i \<Rightarrow> (Some i, upd_event i (\<lambda>_. \<lparr>eset = 0, event_flag = fl, event_suspend = []\<rparr>) s))"

definition RT_IPC_CMD_RESET :: nat where "RT_IPC_CMD_RESET = 1"

definition rt_sem_control ::
  "nat \<Rightarrow> nat \<Rightarrow> nat \<Rightarrow> u32 \<Rightarrow> 'a kern_scheme \<Rightarrow> (rt_err \<times> 'a kern_scheme) option" where
  "rt_sem_control n i cmd v s =
     (if cmd = RT_IPC_CMD_RESET
      then map_option (\<lambda>s1. (RT_EOK, upd_sem i (\<lambda>x. x\<lparr>sem_value := ucast v\<rparr>) s1)) (rt_sem_detach n i s)
      else Some (RT_ERROR, s))"

definition rt_mutex_control :: "nat \<Rightarrow> nat \<Rightarrow> 'a kern_scheme \<Rightarrow> rt_err \<times> 'a kern_scheme" where
  "rt_mutex_control i cmd s = (RT_ERROR, s)"

definition rt_event_control ::
  "nat \<Rightarrow> nat \<Rightarrow> nat \<Rightarrow> 'a kern_scheme \<Rightarrow> (rt_err \<times> 'a kern_scheme) option" where
  "rt_event_control n i cmd s =
     (if cmd = RT_IPC_CMD_RESET
      then map_option (\<lambda>s1. (RT_EOK, upd_event i (\<lambda>e. e\<lparr>eset := 0\<rparr>) s1)) (rt_event_detach n i s)
      else Some (RT_ERROR, s))"

section \<open>The loop ends\<close>

text \<open>Whatever the list is of: if a resumed thread leaves the list, one turn per thread is enough.\<close>

lemma list_resume_all_ends:
  assumes "lst s = ps" and "length ps \<le> n" and "good s"
    and "\<And>s p ps. good s \<Longrightarrow> lst s = p # ps \<Longrightarrow> good (wake p s) \<and> lst (wake p s) = ps"
  shows "ipc_list_resume_all n lst wake s = Some (foldl (\<lambda>s p. wake p s) s ps)
    \<and> good (foldl (\<lambda>s p. wake p s) s ps) \<and> lst (foldl (\<lambda>s p. wake p s) s ps) = []"
  using assms(1-3)
proof (induction ps arbitrary: s n)
  case Nil
  then show ?case by (simp add: ipc_list_resume_all.simps)
next
  case (Cons p ps)
  obtain m where n: "n = Suc m" "length ps \<le> m" using Cons.prems(2) by (cases n) auto
  have w: "good (wake p s)" "lst (wake p s) = ps" using assms(4) [OF Cons.prems(3,1)] by auto
  have "ipc_list_resume_all n lst wake s = ipc_list_resume_all m lst wake (wake p s)"
    using Cons.prems(1) n by (subst ipc_list_resume_all.simps) simp
  then show ?case using Cons.IH [OF w(2) n(2) w(1)] by simp
qed

lemma ipc_wf_thread_error:
  "ipc_wf s \<Longrightarrow> ipc_wf (upd_thread p (\<lambda>t. t\<lparr>thread_error := e\<rparr>) s)"
  by (rule ipc_wf_same_objects) (auto dest: ipc_wfD(4))

lemma resume_error_wf: "ipc_wf s \<Longrightarrow> ipc_wf (resume_error p s)"
  unfolding resume_error_def by (intro ipc_wf_resume ipc_wf_thread_error)

lemma resume_error_effect:
  assumes "suspended (threads s p)"
  shows "waiters (resume_error p s) c = remove1 p (waiters s c)"
    and "threads (resume_error p s) q =
      (if q = p then (threads s p)\<lparr>thread_error := RT_ERROR, suspended := False\<rparr> else threads s q)"
proof -
  let ?u = "upd_thread p (\<lambda>t. t\<lparr>thread_error := RT_ERROR\<rparr>) s"
  have u: "suspended (threads ?u p)" using assms by simp
  have "waiters ?u c = waiters s c" by (cases c) simp_all
  then show "waiters (resume_error p s) c = remove1 p (waiters s c)"
    using rt_thread_resume_suspended(1) [OF u] by (simp add: resume_error_def)
  show "threads (resume_error p s) q =
      (if q = p then (threads s p)\<lparr>thread_error := RT_ERROR, suspended := False\<rparr> else threads s q)"
    using rt_thread_resume_suspended(6) [OF u] by (simp add: resume_error_def)
qed

definition freed :: "nat list \<Rightarrow> 'a kern_scheme \<Rightarrow> 'a kern_scheme \<Rightarrow> bool" where
  "freed ps s s' \<longleftrightarrow> (\<forall>q. threads s' q = (if q \<in> set ps
      then (threads s q)\<lparr>thread_error := RT_ERROR, suspended := False\<rparr> else threads s q))"

lemma resume_error_head:
  assumes "ipc_wf s" and "waiters s c = p # ps"
  shows "ipc_wf (resume_error p s) \<and> waiters (resume_error p s) c = ps"
proof -
  have "suspended (threads s p)" using ipc_wfD(2) [OF assms(1), of p c] assms(2) by simp
  from resume_error_effect(1) [OF this, of c] show ?thesis
    using resume_error_wf [OF assms(1)] assms(2) by simp
qed

lemma foldl_resume_error:
  assumes "ipc_wf s" and "waiters s c = ps"
  shows "freed ps s (foldl (\<lambda>s p. resume_error p s) s ps)"
    and "d \<noteq> c \<Longrightarrow> waiters (foldl (\<lambda>s p. resume_error p s) s ps) d = waiters s d"
  using assms
proof (induction ps arbitrary: s)
  case (Cons p ps)
  { case 1
    have susp: "suspended (threads s p)" using ipc_wfD(2) [OF 1(1), of p c] 1(2) by simp
    note h = resume_error_head [OF 1]
    have "p \<notin> set ps" using ipc_wfD(1) [OF 1(1), of c] 1(2) by simp
    then show ?case
      using Cons.IH(1) [of "resume_error p s"] h resume_error_effect(2) [OF susp]
      by (auto simp: freed_def)
  next
    case 2
    have susp: "suspended (threads s p)" using ipc_wfD(2) [OF 2(2), of p c] 2(3) by simp
    note h = resume_error_head [OF 2(2,3)]
    have "p \<notin> set (waiters s d)" using ipc_wfD(5) [OF 2(2), of c d p] 2(1,3) by simp
    then show ?case
      using Cons.IH(2) [of "resume_error p s"] h 2(1) resume_error_effect(1) [OF susp, of d]
      by (simp add: remove1_idem)
  }
qed (simp_all add: freed_def)

lemma resume_all_waiters:
  assumes wf: "ipc_wf s" and n: "length (waiters s c) \<le> n"
  shows "\<exists>s'. ipc_list_resume_all n (\<lambda>s. waiters s c) resume_error s = Some s' \<and> ipc_wf s'
    \<and> waiters s' c = [] \<and> (\<forall>d. d \<noteq> c \<longrightarrow> waiters s' d = waiters s d) \<and> freed (waiters s c) s s'"
  using list_resume_all_ends [of "\<lambda>s. waiters s c" s "waiters s c" n ipc_wf resume_error]
    foldl_resume_error [OF wf, of c] wf n resume_error_head
  by blast

lemma detach_waiters:
  "rt_sem_detach n i s = ipc_list_resume_all n (\<lambda>s. waiters s (SemObj i)) resume_error s"
  "rt_mutex_detach n i s = ipc_list_resume_all n (\<lambda>s. waiters s (MutexObj i)) resume_error s"
  "rt_event_detach n i s = ipc_list_resume_all n (\<lambda>s. waiters s (EventObj i)) resume_error s"
  "rt_sem_delete = rt_sem_detach"
  "rt_mutex_delete = rt_mutex_detach"
  "rt_event_delete = rt_event_detach"
  by (simp_all add: rt_sem_detach_def rt_mutex_detach_def rt_event_detach_def
    rt_sem_delete_def rt_mutex_delete_def rt_event_delete_def fun_eq_iff)

text \<open>
  taking an object away from the threads that wait for it ends, after one turn per thread: none
  waits for it any more, all of them run again and get \<open>-RT_ERROR\<close> from their call, the threads
  that wait for other objects are not touched, and the objects are well formed.
\<close>

theorem detach_frees_waiters:
  assumes wf: "ipc_wf s" and n: "length (waiters s c) \<le> n"
  shows "\<exists>s'. (case c of SemObj i \<Rightarrow> rt_sem_detach n i s | MutexObj i \<Rightarrow> rt_mutex_detach n i s
        | EventObj i \<Rightarrow> rt_event_detach n i s) = Some s'
    \<and> ipc_wf s' \<and> waiters s' c = [] \<and> (\<forall>d. d \<noteq> c \<longrightarrow> waiters s' d = waiters s d)
    \<and> (\<forall>p. p \<in> set (waiters s c) \<longrightarrow> \<not> suspended (threads s' p) \<and> take_resumed p s' = RT_ERROR)
    \<and> (\<forall>p. p \<notin> set (waiters s c) \<longrightarrow> threads s' p = threads s p)"
  using resume_all_waiters [OF wf n]
  by (cases c) (auto simp: detach_waiters freed_def take_resumed_def simp del: waiters.simps)

theorem detach_frees_waiters_witness:
  "\<exists>s'. rt_sem_detach 1 3 (snd (rt_sem_take 1 3 100 idle_kern)) = Some s'
    \<and> \<not> suspended (threads s' 1) \<and> take_resumed 1 s' = RT_ERROR"
proof -
  let ?s = "snd (rt_sem_take 1 3 100 idle_kern)"
  have wf: "ipc_wf ?s" by (rule ipc_wf_sem_take [OF ipc_wf_idle]) (simp add: idle_kern_def)
  have w: "waiters ?s (SemObj 3) = [1]"
    by (simp add: rt_sem_take_def idle_kern_def suspend_order_def Let_def)
  show ?thesis
    using detach_frees_waiters [OF wf, of "SemObj 3" 1] unfolding w by auto
qed

end
