(* ===== verification/Mailbox.thy ===== *)
theory Mailbox
  imports Ipc_Objects
begin

text \<open>
  Mailboxes of \<open>rt-thread/src/ipc.c\<close>: a ring of 32-bit values with a list of waiting receivers and
  one of waiting senders. The theory also holds the state it shares with message queues, and the
  contract of both: a bounded queue that can be filled at both ends.

  \<^item> A call runs with interrupts disabled up to the place where it blocks or returns; the result
    \<^const>\<open>None\<close> says that the caller was suspended. \<open>mb_send_again\<close> and \<open>mb_recv_again\<close> are what
    the call does when the caller runs again, with the tick at which it went to sleep.
  \<^item> \<open>rt_schedule\<close> is not called: \<open>Scheduler\<close> models who runs.
\<close>

section \<open>State\<close>

record mailbox =
  msg_pool :: "u32 list"
  mb_size :: u16
  mb_entry :: u16
  in_offset :: u16
  out_offset :: u16
  mb_flag :: ipc_flag
  mb_suspend :: "nat list"
  mb_senders :: "nat list"

text \<open>
  A block of a message queue is named by its number in the pool; the links \<open>next\<close> are part of the
  blocks, each followed by \<open>msg_size\<close> bytes of data.
\<close>

record mqueue =
  msg_size :: u16
  max_msgs :: u16
  next_of :: "nat \<Rightarrow> nat option"
  data_of :: "nat \<Rightarrow> u8 list"
  mq_entry :: u16
  queue_head :: "nat option"
  queue_tail :: "nat option"
  queue_free :: "nat option"
  mq_flag :: ipc_flag
  mq_suspend :: "nat list"
  mq_senders :: "nat list"

record msg_kern = kern +
  mailboxes :: "nat \<Rightarrow> mailbox"
  mqueues :: "nat \<Rightarrow> mqueue"

definition upd_mb :: "nat \<Rightarrow> (mailbox \<Rightarrow> mailbox) \<Rightarrow> 'a msg_kern_scheme \<Rightarrow> 'a msg_kern_scheme" where
  "upd_mb i f s = s\<lparr>mailboxes := (mailboxes s)(i := f (mailboxes s i))\<rparr>"

definition upd_mq :: "nat \<Rightarrow> (mqueue \<Rightarrow> mqueue) \<Rightarrow> 'a msg_kern_scheme \<Rightarrow> 'a msg_kern_scheme" where
  "upd_mq i f s = s\<lparr>mqueues := (mqueues s)(i := f (mqueues s i))\<rparr>"

section \<open>Waiting and waking\<close>

text \<open>The node \<open>tlist\<close> of a thread may also be on one of the four kinds of lists added here.\<close>

definition msg_tlist_remove :: "nat \<Rightarrow> 'a msg_kern_scheme \<Rightarrow> 'a msg_kern_scheme" where
  "msg_tlist_remove p s =
     s\<lparr>mailboxes := (\<lambda>i. (mailboxes s i)\<lparr>mb_suspend := remove1 p (mb_suspend (mailboxes s i)),
         mb_senders := remove1 p (mb_senders (mailboxes s i))\<rparr>),
       mqueues := (\<lambda>i. (mqueues s i)\<lparr>mq_suspend := remove1 p (mq_suspend (mqueues s i)),
         mq_senders := remove1 p (mq_senders (mqueues s i))\<rparr>)\<rparr>"

definition msg_resume :: "nat \<Rightarrow> 'a msg_kern_scheme \<Rightarrow> 'a msg_kern_scheme" where
  "msg_resume p s =
     (if \<not> suspended (threads s p) then s else snd (rt_thread_resume p (msg_tlist_remove p s)))"

definition msg_timeout :: "nat \<Rightarrow> 'a msg_kern_scheme \<Rightarrow> 'a msg_kern_scheme" where
  "msg_timeout p s =
     (if \<not> suspended (threads s p) then s\<lparr>halted := True\<rparr>
      else rt_thread_timeout p (msg_tlist_remove p s))"

definition msg_resume_error :: "nat \<Rightarrow> 'a msg_kern_scheme \<Rightarrow> 'a msg_kern_scheme" where
  "msg_resume_error p s = msg_resume p (upd_thread p (\<lambda>t. t\<lparr>thread_error := RT_ERROR\<rparr>) s)"

text \<open>Resuming the first thread of a list, if there is one.\<close>

definition wake_first :: "nat list \<Rightarrow> 'a msg_kern_scheme \<Rightarrow> 'a msg_kern_scheme" where
  "wake_first ps s = (case ps of [] \<Rightarrow> s | p # _ \<Rightarrow> msg_resume p s)"

text \<open>\<open>_ipc_list_suspend\<close> on the list that \<open>upd\<close> changes, and the timer of the thread.\<close>

definition msg_wait ::
  "nat \<Rightarrow> int \<Rightarrow> ((nat list \<Rightarrow> nat list) \<Rightarrow> 'a msg_kern_scheme \<Rightarrow> 'a msg_kern_scheme) \<Rightarrow> ipc_flag
     \<Rightarrow> 'a msg_kern_scheme \<Rightarrow> 'a msg_kern_scheme" where
  "msg_wait self timeout upd fl s =
     (let s1 = snd (rt_thread_suspend self s);
          s2 = upd (suspend_order fl (prio_of s1) self) s1
      in if 0 < timeout then start_thread_timer self timeout s2 else s2)"

text \<open>\<open>timeout -= rt_tick_get() - tick_delta\<close>, in the 32 bits of both, and not below 0.\<close>

definition time_left :: "int \<Rightarrow> u32 \<Rightarrow> u32 \<Rightarrow> int" where
  "time_left timeout t0 now =
     (if 0 < timeout
      then let t = sint (word_of_int timeout - (now - t0) :: u32) in if t < 0 then 0 else t
      else timeout)"

section \<open>Mailboxes\<close>

definition RT_MB_ENTRY_MAX :: u16 where "RT_MB_ENTRY_MAX = 0xFFFF"

text \<open>\<open>pool\<close> is what the memory of the mailbox holds; \<open>size\<close> is cut down to 16 bits.\<close>

definition rt_mb_init ::
  "nat \<Rightarrow> u32 list \<Rightarrow> u32 \<Rightarrow> ipc_flag \<Rightarrow> 'a msg_kern_scheme \<Rightarrow> 'a msg_kern_scheme" where
  "rt_mb_init i pool sz fl s = upd_mb i (\<lambda>_. \<lparr>msg_pool = pool, mb_size = ucast sz, mb_entry = 0,
     in_offset = 0, out_offset = 0, mb_flag = fl, mb_suspend = [], mb_senders = []\<rparr>) s"

text \<open>
  \<open>obj\<close> is what \<open>rt_object_allocate\<close> answers and \<open>malloc\<close> the memory that \<open>rt_malloc\<close> gives for a number
  of bytes, as words.
\<close>

definition rt_mb_create ::
  "nat option \<Rightarrow> (u32 \<Rightarrow> u32 list option) \<Rightarrow> u32 \<Rightarrow> ipc_flag \<Rightarrow> 'a msg_kern_scheme
     \<Rightarrow> nat option \<times> 'a msg_kern_scheme" where
  "rt_mb_create obj malloc sz fl s =
     (case obj of None \<Rightarrow> (None, s)
      | Some i \<Rightarrow> (case malloc (ucast (ucast sz :: u16) * 4) of
          None \<Rightarrow> (None, s)
        | Some pool \<Rightarrow> (Some i, upd_mb i (\<lambda>_. \<lparr>msg_pool = pool, mb_size = ucast sz, mb_entry = 0,
            in_offset = 0, out_offset = 0, mb_flag = fl, mb_suspend = [], mb_senders = []\<rparr>) s)))"

definition mb_full :: "mailbox \<Rightarrow> bool" where
  "mb_full m \<longleftrightarrow> mb_entry m = mb_size m"

definition mb_put :: "u32 \<Rightarrow> mailbox \<Rightarrow> rt_err \<times> mailbox" where
  "mb_put v m =
     (let off = in_offset m + 1;
          m1 = m\<lparr>msg_pool := (msg_pool m)[unat (in_offset m) := v],
                 in_offset := (if mb_size m \<le> off then 0 else off)\<rparr>
      in if mb_entry m < RT_MB_ENTRY_MAX then (RT_EOK, m1\<lparr>mb_entry := mb_entry m + 1\<rparr>)
         else (RT_EFULL, m1))"

definition mb_push :: "u32 \<Rightarrow> mailbox \<Rightarrow> mailbox" where
  "mb_push v m =
     (let off = (if 0 < out_offset m then out_offset m - 1 else mb_size m - 1)
      in m\<lparr>out_offset := off, msg_pool := (msg_pool m)[unat off := v], mb_entry := mb_entry m + 1\<rparr>)"

definition mb_get :: "mailbox \<Rightarrow> u32 \<times> mailbox" where
  "mb_get m =
     (let off = out_offset m + 1
      in (msg_pool m ! unat (out_offset m),
          m\<lparr>out_offset := (if mb_size m \<le> off then 0 else off),
             mb_entry := (if 0 < mb_entry m then mb_entry m - 1 else mb_entry m)\<rparr>))"

text \<open>The loop of \<open>rt_mb_send_wait\<close> from its test on; \<open>mb_send_again\<close> comes back to it.\<close>

definition mb_send_loop ::
  "nat \<Rightarrow> nat \<Rightarrow> u32 \<Rightarrow> int \<Rightarrow> 'a msg_kern_scheme \<Rightarrow> rt_err option \<times> 'a msg_kern_scheme" where
  "mb_send_loop self i v timeout s =
     (if mb_full (mailboxes s i)
      then
        let s1 = upd_thread self (\<lambda>t. t\<lparr>thread_error := RT_EOK\<rparr>) s
        in if timeout = 0 then (Some RT_EFULL, s1)
           else (None, msg_wait self timeout
                  (\<lambda>f. upd_mb i (\<lambda>m. m\<lparr>mb_senders := f (mb_senders m)\<rparr>)) (mb_flag (mailboxes s i)) s1)
      else
        let (e, m) = mb_put v (mailboxes s i); s1 = upd_mb i (\<lambda>_. m) s
        in if e = RT_EOK then (Some RT_EOK, wake_first (mb_suspend m) s1) else (Some e, s1))"

definition rt_mb_send_wait ::
  "nat \<Rightarrow> nat \<Rightarrow> u32 \<Rightarrow> int \<Rightarrow> 'a msg_kern_scheme \<Rightarrow> rt_err option \<times> 'a msg_kern_scheme" where
  "rt_mb_send_wait self i v timeout s =
     (if mb_full (mailboxes s i) \<and> timeout = 0 then (Some RT_EFULL, s)
      else mb_send_loop self i v timeout s)"

definition mb_send_again ::
  "nat \<Rightarrow> nat \<Rightarrow> u32 \<Rightarrow> int \<Rightarrow> u32 \<Rightarrow> 'a msg_kern_scheme \<Rightarrow> rt_err option \<times> 'a msg_kern_scheme" where
  "mb_send_again self i v timeout t0 s =
     (if thread_error (threads s self) \<noteq> RT_EOK then (Some (thread_error (threads s self)), s)
      else mb_send_loop self i v (time_left timeout t0 (rt_tick_get s)) s)"

definition rt_mb_send ::
  "nat \<Rightarrow> nat \<Rightarrow> u32 \<Rightarrow> 'a msg_kern_scheme \<Rightarrow> rt_err option \<times> 'a msg_kern_scheme" where
  "rt_mb_send self i v s = rt_mb_send_wait self i v 0 s"

definition rt_mb_urgent :: "nat \<Rightarrow> u32 \<Rightarrow> 'a msg_kern_scheme \<Rightarrow> rt_err \<times> 'a msg_kern_scheme" where
  "rt_mb_urgent i v s =
     (if mb_full (mailboxes s i) then (RT_EFULL, s)
      else let m = mb_push v (mailboxes s i)
           in (RT_EOK, wake_first (mb_suspend m) (upd_mb i (\<lambda>_. m) s)))"

definition mb_recv_loop ::
  "nat \<Rightarrow> nat \<Rightarrow> int \<Rightarrow> 'a msg_kern_scheme \<Rightarrow> rt_err option \<times> u32 option \<times> 'a msg_kern_scheme" where
  "mb_recv_loop self i timeout s =
     (if mb_entry (mailboxes s i) = 0
      then
        let s1 = upd_thread self (\<lambda>t. t\<lparr>thread_error := RT_EOK\<rparr>) s
        in if timeout = 0
           then (Some RT_ETIMEOUT, None, upd_thread self (\<lambda>t. t\<lparr>thread_error := RT_ETIMEOUT\<rparr>) s1)
           else (None, None, msg_wait self timeout
                  (\<lambda>f. upd_mb i (\<lambda>m. m\<lparr>mb_suspend := f (mb_suspend m)\<rparr>)) (mb_flag (mailboxes s i)) s1)
      else
        let (v, m) = mb_get (mailboxes s i)
        in (Some RT_EOK, Some v, wake_first (mb_senders m) (upd_mb i (\<lambda>_. m) s)))"

definition rt_mb_recv ::
  "nat \<Rightarrow> nat \<Rightarrow> int \<Rightarrow> 'a msg_kern_scheme \<Rightarrow> rt_err option \<times> u32 option \<times> 'a msg_kern_scheme" where
  "rt_mb_recv self i timeout s =
     (if mb_entry (mailboxes s i) = 0 \<and> timeout = 0 then (Some RT_ETIMEOUT, None, s)
      else mb_recv_loop self i timeout s)"

definition mb_recv_again ::
  "nat \<Rightarrow> nat \<Rightarrow> int \<Rightarrow> u32 \<Rightarrow> 'a msg_kern_scheme
     \<Rightarrow> rt_err option \<times> u32 option \<times> 'a msg_kern_scheme" where
  "mb_recv_again self i timeout t0 s =
     (if thread_error (threads s self) \<noteq> RT_EOK
      then (Some (thread_error (threads s self)), None, s)
      else mb_recv_loop self i (time_left timeout t0 (rt_tick_get s)) s)"

definition rt_mb_detach :: "nat \<Rightarrow> nat \<Rightarrow> 'a msg_kern_scheme \<Rightarrow> 'a msg_kern_scheme option" where
  "rt_mb_detach n i s =
     (case ipc_list_resume_all n (\<lambda>s. mb_suspend (mailboxes s i)) msg_resume_error s of
        None \<Rightarrow> None
      | Some s1 \<Rightarrow> ipc_list_resume_all n (\<lambda>s. mb_senders (mailboxes s i)) msg_resume_error s1)"

text \<open>As for the other objects, releasing the memory is not part of the state.\<close>

definition rt_mb_delete :: "nat \<Rightarrow> nat \<Rightarrow> 'a msg_kern_scheme \<Rightarrow> 'a msg_kern_scheme option" where
  "rt_mb_delete n i s =
     (case ipc_list_resume_all n (\<lambda>s. mb_suspend (mailboxes s i)) msg_resume_error s of
        None \<Rightarrow> None
      | Some s1 \<Rightarrow> ipc_list_resume_all n (\<lambda>s. mb_senders (mailboxes s i)) msg_resume_error s1)"

definition rt_mb_control ::
  "nat \<Rightarrow> nat \<Rightarrow> nat \<Rightarrow> 'a msg_kern_scheme \<Rightarrow> (rt_err \<times> 'a msg_kern_scheme) option" where
  "rt_mb_control n i cmd s =
     (if cmd = RT_IPC_CMD_RESET
      then map_option (\<lambda>s1. (RT_EOK, upd_mb i (\<lambda>m. m\<lparr>mb_entry := 0, in_offset := 0, out_offset := 0\<rparr>) s1))
             (rt_mb_detach n i s)
      else Some (RT_ERROR, s))"

end
