(* ===== verification/Msg_Queue.thy ===== *)
theory Msg_Queue
  imports Mailbox
begin

text \<open>
  Message queues of \<open>rt-thread/src/ipc.c\<close>: blocks of a pool, linked into the queue of messages and
  the list of free blocks. A call takes its block off a list with interrupts disabled, copies the
  message with interrupts enabled, and puts the block on the other list with interrupts disabled
  again; other threads and interrupts run in between. Each of these parts is a definition here.
\<close>

section \<open>The pool\<close>

text \<open>The loop of \<open>rt_mq_init\<close> and \<open>rt_mq_create\<close> that links all blocks into the free list.\<close>

definition mq_link_pool :: "nat \<Rightarrow> mqueue \<Rightarrow> mqueue" where
  "mq_link_pool n q = foldl (\<lambda>q b. q\<lparr>next_of := (next_of q)(b := queue_free q), queue_free := Some b\<rparr>) q [0..<n]"

text \<open>
  The arguments are those of \<open>rt_mq_init\<close>; \<open>pool\<close> is what the memory of the blocks holds. Both
  \<open>msg_size\<close> and \<open>max_msgs\<close> are cut down to 16 bits.
\<close>

definition rt_mq_init ::
  "nat \<Rightarrow> (nat \<Rightarrow> u8 list) \<Rightarrow> u32 \<Rightarrow> u32 \<Rightarrow> ipc_flag \<Rightarrow> 'a msg_kern_scheme \<Rightarrow> 'a msg_kern_scheme" where
  "rt_mq_init i pool sz pool_size fl s =
     (let ms = ucast ((sz + 3) AND NOT 3) :: u16;
          n = ucast (pool_size div (ucast ms + 4)) :: u16
      in upd_mq i (\<lambda>_. mq_link_pool (unat n)
           \<lparr>msg_size = ms, max_msgs = n, next_of = (\<lambda>_. None), data_of = pool, mq_entry = 0,
            queue_head = None, queue_tail = None, queue_free = None, mq_flag = fl,
            mq_suspend = [], mq_senders = []\<rparr>) s)"

text \<open>\<open>malloc\<close> answers with the blocks of the pool, for a number of bytes.\<close>

definition rt_mq_create ::
  "nat option \<Rightarrow> (u32 \<Rightarrow> (nat \<Rightarrow> u8 list) option) \<Rightarrow> u32 \<Rightarrow> u32 \<Rightarrow> ipc_flag \<Rightarrow> 'a msg_kern_scheme
     \<Rightarrow> nat option \<times> 'a msg_kern_scheme" where
  "rt_mq_create obj malloc sz num fl s =
     (let ms = ucast ((sz + 3) AND NOT 3) :: u16; n = ucast num :: u16
      in case obj of None \<Rightarrow> (None, s)
         | Some i \<Rightarrow> (case malloc ((ucast ms + 4) * ucast n) of
             None \<Rightarrow> (None, s)
           | Some pool \<Rightarrow> (Some i, upd_mq i (\<lambda>_. mq_link_pool (unat n)
               \<lparr>msg_size = ms, max_msgs = n, next_of = (\<lambda>_. None), data_of = pool, mq_entry = 0,
                queue_head = None, queue_tail = None, queue_free = None, mq_flag = fl,
                mq_suspend = [], mq_senders = []\<rparr>) s)))"

section \<open>The parts of the calls\<close>

definition RT_MQ_ENTRY_MAX :: u16 where "RT_MQ_ENTRY_MAX = 0xFFFF"

definition mq_claim :: "mqueue \<Rightarrow> (nat \<times> mqueue) option" where
  "mq_claim q = map_option (\<lambda>b. (b, q\<lparr>queue_free := next_of q b\<rparr>)) (queue_free q)"

definition mq_fill :: "nat \<Rightarrow> u8 list \<Rightarrow> mqueue \<Rightarrow> mqueue" where
  "mq_fill b buf q = q\<lparr>data_of := (data_of q)(b := buf @ drop (length buf) (data_of q b))\<rparr>"

definition mq_fill_last :: "nat \<Rightarrow> u8 list \<Rightarrow> mqueue \<Rightarrow> mqueue" where
  "mq_fill_last b buf q = mq_fill b buf (q\<lparr>next_of := (next_of q)(b := None)\<rparr>)"

definition mq_count :: "mqueue \<Rightarrow> rt_err \<times> mqueue" where
  "mq_count q =
     (if mq_entry q < RT_MQ_ENTRY_MAX then (RT_EOK, q\<lparr>mq_entry := mq_entry q + 1\<rparr>) else (RT_EFULL, q))"

definition mq_link :: "nat \<Rightarrow> mqueue \<Rightarrow> rt_err \<times> mqueue" where
  "mq_link b q =
     (let q1 = (case queue_tail q of
                  Some t \<Rightarrow> q\<lparr>next_of := (next_of q)(t := Some b)\<rparr> | None \<Rightarrow> q)
      in mq_count (q1\<lparr>queue_tail := Some b,
           queue_head := (if queue_head q1 = None then Some b else queue_head q1)\<rparr>))"

definition mq_link_front :: "nat \<Rightarrow> mqueue \<Rightarrow> rt_err \<times> mqueue" where
  "mq_link_front b q =
     mq_count (q\<lparr>next_of := (next_of q)(b := queue_head q), queue_head := Some b,
       queue_tail := (if queue_tail q = None then Some b else queue_tail q)\<rparr>)"

text \<open>\<^const>\<open>None\<close> is an access through a null pointer.\<close>

definition mq_unlink :: "mqueue \<Rightarrow> (nat \<times> mqueue) option" where
  "mq_unlink q =
     (case queue_head q of None \<Rightarrow> None
      | Some b \<Rightarrow> Some (b, q\<lparr>queue_head := next_of q b,
          queue_tail := (if queue_tail q = Some b then None else queue_tail q),
          mq_entry := (if 0 < mq_entry q then mq_entry q - 1 else mq_entry q)\<rparr>))"

definition mq_copy :: "nat \<Rightarrow> nat \<Rightarrow> mqueue \<Rightarrow> u8 list" where
  "mq_copy b n q = take (if unat (msg_size q) < n then unat (msg_size q) else n) (data_of q b)"

definition mq_give_back :: "nat \<Rightarrow> mqueue \<Rightarrow> mqueue" where
  "mq_give_back b q = q\<lparr>next_of := (next_of q)(b := queue_free q), queue_free := Some b\<rparr>"

section \<open>Sending\<close>

datatype mq_result = Done rt_err | Waits | Has nat | Null_Access

definition mq_send_loop ::
  "nat \<Rightarrow> nat \<Rightarrow> int \<Rightarrow> 'a msg_kern_scheme \<Rightarrow> mq_result \<times> 'a msg_kern_scheme" where
  "mq_send_loop self i timeout s =
     (case mq_claim (mqueues s i) of
        Some (b, q) \<Rightarrow> (Has b, upd_mq i (\<lambda>_. q) s)
      | None \<Rightarrow>
          let s1 = upd_thread self (\<lambda>t. t\<lparr>thread_error := RT_EOK\<rparr>) s
          in if timeout = 0 then (Done RT_EFULL, s1)
             else (Waits, msg_wait self timeout
                    (\<lambda>f. upd_mq i (\<lambda>q. q\<lparr>mq_senders := f (mq_senders q)\<rparr>)) (mq_flag (mqueues s i)) s1))"

text \<open>\<open>n\<close> is the argument \<open>size\<close>; a size of 0 fails an assertion.\<close>

definition mq_send_begin ::
  "nat \<Rightarrow> nat \<Rightarrow> nat \<Rightarrow> int \<Rightarrow> 'a msg_kern_scheme \<Rightarrow> mq_result \<times> 'a msg_kern_scheme" where
  "mq_send_begin self i n timeout s =
     (if n = 0 then (Done RT_ERROR, s\<lparr>halted := True\<rparr>)
      else if unat (msg_size (mqueues s i)) < n then (Done RT_ERROR, s)
      else if queue_free (mqueues s i) = None \<and> timeout = 0 then (Done RT_EFULL, s)
      else mq_send_loop self i timeout s)"

definition mq_send_again ::
  "nat \<Rightarrow> nat \<Rightarrow> int \<Rightarrow> u32 \<Rightarrow> 'a msg_kern_scheme \<Rightarrow> mq_result \<times> 'a msg_kern_scheme" where
  "mq_send_again self i timeout t0 s =
     (if thread_error (threads s self) \<noteq> RT_EOK then (Done (thread_error (threads s self)), s)
      else mq_send_loop self i (time_left timeout t0 (rt_tick_get s)) s)"

definition mq_finish ::
  "nat \<Rightarrow> (mqueue \<Rightarrow> rt_err \<times> mqueue) \<Rightarrow> 'a msg_kern_scheme \<Rightarrow> rt_err \<times> 'a msg_kern_scheme" where
  "mq_finish i link s =
     (let (e, q) = link (mqueues s i); s1 = upd_mq i (\<lambda>_. q) s
      in if e = RT_EOK then (RT_EOK, wake_first (mq_suspend q) s1) else (e, s1))"

definition mq_urgent_begin ::
  "nat \<Rightarrow> nat \<Rightarrow> 'a msg_kern_scheme \<Rightarrow> mq_result \<times> 'a msg_kern_scheme" where
  "mq_urgent_begin i n s =
     (if n = 0 then (Done RT_ERROR, s\<lparr>halted := True\<rparr>)
      else if unat (msg_size (mqueues s i)) < n then (Done RT_ERROR, s)
      else case mq_claim (mqueues s i) of
             None \<Rightarrow> (Done RT_EFULL, s)
           | Some (b, q) \<Rightarrow> (Has b, upd_mq i (\<lambda>_. q) s))"

section \<open>Receiving\<close>

definition mq_recv_loop ::
  "nat \<Rightarrow> nat \<Rightarrow> int \<Rightarrow> 'a msg_kern_scheme \<Rightarrow> mq_result \<times> 'a msg_kern_scheme" where
  "mq_recv_loop self i timeout s =
     (if mq_entry (mqueues s i) = 0
      then
        let s1 = upd_thread self (\<lambda>t. t\<lparr>thread_error := RT_EOK\<rparr>) s
        in if timeout = 0
           then (Done RT_ETIMEOUT, upd_thread self (\<lambda>t. t\<lparr>thread_error := RT_ETIMEOUT\<rparr>) s1)
           else (Waits, msg_wait self timeout
                  (\<lambda>f. upd_mq i (\<lambda>q. q\<lparr>mq_suspend := f (mq_suspend q)\<rparr>)) (mq_flag (mqueues s i)) s1)
      else case mq_unlink (mqueues s i) of
             None \<Rightarrow> (Null_Access, s)
           | Some (b, q) \<Rightarrow> (Has b, upd_mq i (\<lambda>_. q) s))"

definition mq_recv_begin ::
  "nat \<Rightarrow> nat \<Rightarrow> nat \<Rightarrow> int \<Rightarrow> 'a msg_kern_scheme \<Rightarrow> mq_result \<times> 'a msg_kern_scheme" where
  "mq_recv_begin self i n timeout s =
     (if n = 0 then (Done RT_ERROR, s\<lparr>halted := True\<rparr>)
      else if mq_entry (mqueues s i) = 0 \<and> timeout = 0 then (Done RT_ETIMEOUT, s)
      else mq_recv_loop self i timeout s)"

definition mq_recv_again ::
  "nat \<Rightarrow> nat \<Rightarrow> int \<Rightarrow> u32 \<Rightarrow> 'a msg_kern_scheme \<Rightarrow> mq_result \<times> 'a msg_kern_scheme" where
  "mq_recv_again self i timeout t0 s =
     (if thread_error (threads s self) \<noteq> RT_EOK then (Done (thread_error (threads s self)), s)
      else mq_recv_loop self i (time_left timeout t0 (rt_tick_get s)) s)"

definition mq_recv_end :: "nat \<Rightarrow> nat \<Rightarrow> 'a msg_kern_scheme \<Rightarrow> 'a msg_kern_scheme" where
  "mq_recv_end i b s =
     (let q = mq_give_back b (mqueues s i) in wake_first (mq_senders q) (upd_mq i (\<lambda>_. q) s))"

section \<open>Detaching and resetting\<close>

definition rt_mq_detach :: "nat \<Rightarrow> nat \<Rightarrow> 'a msg_kern_scheme \<Rightarrow> 'a msg_kern_scheme option" where
  "rt_mq_detach n i s =
     (case ipc_list_resume_all n (\<lambda>s. mq_suspend (mqueues s i)) msg_resume_error s of
        None \<Rightarrow> None
      | Some s1 \<Rightarrow> ipc_list_resume_all n (\<lambda>s. mq_senders (mqueues s i)) msg_resume_error s1)"

definition rt_mq_delete :: "nat \<Rightarrow> nat \<Rightarrow> 'a msg_kern_scheme \<Rightarrow> 'a msg_kern_scheme option" where
  "rt_mq_delete n i s =
     (case ipc_list_resume_all n (\<lambda>s. mq_suspend (mqueues s i)) msg_resume_error s of
        None \<Rightarrow> None
      | Some s1 \<Rightarrow> ipc_list_resume_all n (\<lambda>s. mq_senders (mqueues s i)) msg_resume_error s1)"

text \<open>The loop that frees all messages; \<open>mq_entry\<close> is set after it.\<close>

fun mq_flush :: "nat \<Rightarrow> mqueue \<Rightarrow> mqueue option" where
  "mq_flush n q =
     (case queue_head q of None \<Rightarrow> Some q
      | Some b \<Rightarrow> (case n of 0 \<Rightarrow> None
          | Suc m \<Rightarrow> mq_flush m (mq_give_back b (q\<lparr>queue_head := next_of q b,
              queue_tail := (if queue_tail q = Some b then None else queue_tail q)\<rparr>))))"

declare mq_flush.simps [simp del]

definition rt_mq_control ::
  "nat \<Rightarrow> nat \<Rightarrow> nat \<Rightarrow> 'a msg_kern_scheme \<Rightarrow> (rt_err \<times> 'a msg_kern_scheme) option" where
  "rt_mq_control n i cmd s =
     (if cmd = RT_IPC_CMD_RESET
      then case rt_mq_detach n i s of None \<Rightarrow> None
           | Some s1 \<Rightarrow> map_option (\<lambda>q. (RT_EOK, upd_mq i (\<lambda>_. q\<lparr>mq_entry := 0\<rparr>) s1))
                          (mq_flush n (mqueues s1 i))
      else Some (RT_ERROR, s))"

section \<open>Calls without waiting, run without interruption\<close>

definition rt_mq_send :: "nat \<Rightarrow> nat \<Rightarrow> u8 list \<Rightarrow> 'a msg_kern_scheme \<Rightarrow> rt_err \<times> 'a msg_kern_scheme" where
  "rt_mq_send self i buf s =
     (case mq_send_begin self i (length buf) 0 s of
        (Has b, s1) \<Rightarrow> mq_finish i (mq_link b) (upd_mq i (mq_fill_last b buf) s1)
      | (Done e, s1) \<Rightarrow> (e, s1) | (_, s1) \<Rightarrow> (RT_ERROR, s1))"

definition rt_mq_urgent :: "nat \<Rightarrow> u8 list \<Rightarrow> 'a msg_kern_scheme \<Rightarrow> rt_err \<times> 'a msg_kern_scheme" where
  "rt_mq_urgent i buf s =
     (case mq_urgent_begin i (length buf) s of
        (Has b, s1) \<Rightarrow> mq_finish i (mq_link_front b) (upd_mq i (mq_fill b buf) s1)
      | (Done e, s1) \<Rightarrow> (e, s1) | (_, s1) \<Rightarrow> (RT_ERROR, s1))"

definition rt_mq_recv :: "nat \<Rightarrow> nat \<Rightarrow> nat \<Rightarrow> 'a msg_kern_scheme \<Rightarrow> rt_err \<times> u8 list \<times> 'a msg_kern_scheme" where
  "rt_mq_recv self i n s =
     (case mq_recv_begin self i n 0 s of
        (Has b, s1) \<Rightarrow> (RT_EOK, mq_copy b n (mqueues s1 i), mq_recv_end i b s1)
      | (Done e, s1) \<Rightarrow> (e, [], s1) | (_, s1) \<Rightarrow> (RT_ERROR, [], s1))"

end
