(* ===== verification/Mailbox_Check.thy ===== *)
theory Mailbox_Check
  imports Mailbox
begin

text \<open>
  What mailboxes guarantee: they are a bounded queue that can be filled at both ends, with each
  answer of a call as the queue determines it, and a thread that waits gets its turn, an error or a
  timeout, and never waits longer than it asked for.
\<close>

section \<open>The contract of a bounded queue\<close>

text \<open>
  Storing at the end and taking are called by a thread and with the time it is ready to wait;
  storing in front never waits. The answer is the code that the call returns, \<^const>\<open>None\<close> when it
  does not return but waits, and the value that is taken.
\<close>

datatype 'x deque_op = Put nat int 'x | Push 'x | Get nat int

type_synonym 'x deque_res = "rt_err option \<times> 'x option"

fun list_op :: "nat \<Rightarrow> 'x deque_op \<Rightarrow> 'x list \<Rightarrow> 'x deque_res \<times> 'x list" where
  "list_op n (Put p t x) xs =
     (if length xs < n then ((Some RT_EOK, None), xs @ [x])
      else ((if t = 0 then Some RT_EFULL else None, None), xs))"
| "list_op n (Push x) xs =
     (if length xs < n then ((Some RT_EOK, None), x # xs) else ((Some RT_EFULL, None), xs))"
| "list_op n (Get p t) xs =
     (case xs of [] \<Rightarrow> ((if t = 0 then Some RT_ETIMEOUT else None, None), [])
      | y # ys \<Rightarrow> ((Some RT_EOK, Some y), ys))"

fun run_ops :: "('o \<Rightarrow> 's \<Rightarrow> 'r \<times> 's) \<Rightarrow> 'o list \<Rightarrow> 's \<Rightarrow> 'r list \<times> 's" where
  "run_ops step [] s = ([], s)"
| "run_ops step (op # ops) s =
     (let (r, s1) = step op s; (rs, s2) = run_ops step ops s1 in (r # rs, s2))"

fun items_of :: "'x deque_op \<Rightarrow> 'x set" where
  "items_of (Put p t x) = {x}"
| "items_of (Push x) = {x}"
| "items_of (Get p t) = {}"

locale bounded_deque =
  fixes step :: "'x deque_op \<Rightarrow> 's \<Rightarrow> 'x deque_res \<times> 's"
    and contents :: "'s \<Rightarrow> 'x list" and cap :: "'s \<Rightarrow> nat"
    and good :: "'s \<Rightarrow> bool" and fits :: "'x \<Rightarrow> bool"
  assumes step_refines: "good s \<Longrightarrow> (\<forall>x \<in> items_of op. fits x) \<Longrightarrow>
      list_op (cap s) op (contents s) = (fst (step op s), contents (snd (step op s)))"
    and step_good: "good s \<Longrightarrow> (\<forall>x \<in> items_of op. fits x) \<Longrightarrow>
      good (snd (step op s)) \<and> cap (snd (step op s)) = cap s"
    and bounded: "good s \<Longrightarrow> length (contents s) \<le> cap s"
begin

lemma run_refines:
  assumes "good s" and "\<forall>op \<in> set ops. \<forall>x \<in> items_of op. fits x"
  shows "run_ops (list_op (cap s)) ops (contents s) =
      (fst (run_ops step ops s), contents (snd (run_ops step ops s)))
    \<and> good (snd (run_ops step ops s)) \<and> cap (snd (run_ops step ops s)) = cap s"
  using assms
proof (induction ops arbitrary: s)
  case (Cons op ops)
  then have f: "\<forall>x \<in> items_of op. fits x" by simp
  note r = step_refines [OF Cons.prems(1) f] and g = step_good [OF Cons.prems(1) f]
  show ?case
    using Cons.IH [of "snd (step op s)"] g r Cons.prems(2) by (simp add: case_prod_beta Let_def)
qed simp

end

section \<open>The ring of a mailbox\<close>

definition mb_contents :: "mailbox \<Rightarrow> u32 list" where
  "mb_contents m = map (\<lambda>k. msg_pool m ! ((unat (out_offset m) + k) mod unat (mb_size m))) [0..<unat (mb_entry m)]"

definition mb_ok :: "mailbox \<Rightarrow> bool" where
  "mb_ok m \<longleftrightarrow> length (msg_pool m) = unat (mb_size m) \<and> mb_entry m \<le> mb_size m
     \<and> (if mb_size m = 0 then out_offset m = 0 \<and> in_offset m = 0
        else out_offset m < mb_size m
          \<and> unat (in_offset m) = (unat (out_offset m) + unat (mb_entry m)) mod unat (mb_size m))"

lemma ring_inc:
  assumes "(x :: u16) < n"
  shows "unat (if n \<le> x + 1 then 0 else x + 1) = (unat x + 1) mod unat n"
proof -
  have "unat x < unat n" "unat n < 65536"
    using assms unsigned_less [of n, where ?'a = nat] by (simp_all add: word_less_nat_alt)
  then have "unat (x + 1) = unat x + 1" by (simp add: unat_word_ariths)
  then show ?thesis using assms by (auto simp: word_le_nat_alt word_less_nat_alt mod_if)
qed

lemma ring_dec:
  assumes "(x :: u16) < n"
  shows "unat (if 0 < x then x - 1 else n - 1) = (unat x + unat n - 1) mod unat n"
proof (cases "x = 0")
  case True
  then have "n \<noteq> 0" using assms by auto
  then show ?thesis using True assms by (simp add: unat_minus_one word_less_nat_alt)
next
  case False
  then have "0 < unat x" by (simp add: unat_gt_0)
  moreover have "0 < x" using False by (simp add: word_gt_0)
  ultimately show ?thesis
    using assms False by (simp add: unat_minus_one word_less_nat_alt mod_if)
qed

lemma ring_inj: "(a :: nat) < n \<Longrightarrow> j < n \<Longrightarrow> k < n \<Longrightarrow> (a + j) mod n = (a + k) mod n \<Longrightarrow> j = k"
  by (auto simp: mod_if split: if_splits)

definition ring :: "'x list \<Rightarrow> nat \<Rightarrow> nat \<Rightarrow> 'x list" where
  "ring xs a n = map (\<lambda>k. xs ! ((a + k) mod length xs)) [0..<n]"

lemma ring_append:
  assumes "a < length xs" and "n < length xs"
  shows "ring (xs[(a + n) mod length xs := x]) a (Suc n) = ring xs a n @ [x]"
proof -
  have "(a + n) mod length xs \<noteq> (a + k) mod length xs" if "k < n" for k
    using ring_inj [OF assms(1), of n k] that assms(2) by auto
  moreover have "(a + n) mod length xs < length xs" using assms(1) by (intro mod_less_divisor) auto
  ultimately show ?thesis by (auto simp: ring_def)
qed

lemma ring_cons:
  assumes "a < length xs" and "n < length xs"
  shows "ring (xs[(a + length xs - 1) mod length xs := x]) ((a + length xs - 1) mod length xs) (Suc n) = x # ring xs a n"
proof -
  let ?l = "length xs" and ?b = "(a + length xs - 1) mod length xs"
  have b: "?b < ?l" using assms(1) by (intro mod_less_divisor) auto
  have nxt: "(?b + Suc k) mod ?l = (a + k) mod ?l" for k
  proof -
    have "(?b + Suc k) mod ?l = (a + ?l - 1 + Suc k) mod ?l" by (rule mod_add_left_eq)
    also have "a + ?l - 1 + Suc k = a + k + ?l" using assms by simp
    finally show ?thesis by simp
  qed
  have "?b \<noteq> (a + k) mod ?l" if "k < n" for k
  proof
    assume "?b = (a + k) mod ?l"
    then have eq: "(?b + 0) mod ?l = (?b + Suc k) mod ?l" using b nxt [of k] by (metis add_0_right mod_less)
    have "0 < ?l" "Suc k < ?l" using that assms by auto
    from ring_inj [OF b this eq] show False by simp
  qed
  then show ?thesis
    using b by (simp add: ring_def map_upt_Suc nxt [simplified] del: upt_Suc)
qed

lemma ring_tl:
  assumes "a < length xs" and "0 < n"
  shows "ring xs a n = xs ! a # ring xs ((a + 1) mod length xs) (n - 1)"
proof -
  obtain m where n: "n = Suc m" using assms(2) by (cases n) auto
  have "((a + 1) mod length xs + k) mod length xs = (a + Suc k) mod length xs" for k
    by (metis add_Suc_right add_Suc_shift mod_add_left_eq plus_1_eq_Suc add.commute)
  then show ?thesis using assms by (simp add: ring_def n map_upt_Suc del: upt_Suc)
qed

section \<open>A mailbox as a bounded queue\<close>

lemma mb_contents_ring:
  "length (msg_pool m) = unat (mb_size m) \<Longrightarrow>
    mb_contents m = ring (msg_pool m) (unat (out_offset m)) (unat (mb_entry m))"
  by (simp add: mb_contents_def ring_def)

lemma mb_okD:
  assumes "mb_ok m" and "mb_size m \<noteq> 0"
  shows "length (msg_pool m) = unat (mb_size m)" "out_offset m < mb_size m"
    "unat (in_offset m) = (unat (out_offset m) + unat (mb_entry m)) mod unat (mb_size m)"
    "in_offset m < mb_size m" "unat (mb_entry m) \<le> unat (mb_size m)" "0 < unat (mb_size m)"
    "unat (out_offset m) < length (msg_pool m)"
proof -
  show s: "0 < unat (mb_size m)" using assms(2) by (simp add: unat_gt_0)
  show a: "length (msg_pool m) = unat (mb_size m)" and o: "out_offset m < mb_size m"
    and i: "unat (in_offset m) = (unat (out_offset m) + unat (mb_entry m)) mod unat (mb_size m)"
    and "unat (mb_entry m) \<le> unat (mb_size m)"
    using assms by (simp_all add: mb_ok_def word_le_nat_alt)
  have "unat (in_offset m) < unat (mb_size m)" unfolding i using s by (rule mod_less_divisor)
  then show "in_offset m < mb_size m" by (simp add: word_less_nat_alt)
  show "unat (out_offset m) < length (msg_pool m)" using o a by (simp add: word_less_nat_alt)
qed

lemma entry_inc:
  assumes "(e :: u16) < n"
  shows "unat (e + 1) = Suc (unat e)" and "e + 1 \<le> n" and "e < RT_MB_ENTRY_MAX"
proof -
  have l: "unat e < unat n" "unat n < 65536"
    using assms unsigned_less [of n, where ?'a = nat] by (simp_all add: word_less_nat_alt)
  show u: "unat (e + 1) = Suc (unat e)" using l by (simp add: unat_word_ariths)
  show "e + 1 \<le> n" using l u by (simp add: word_le_nat_alt)
  show "e < RT_MB_ENTRY_MAX" using l by (simp add: word_less_nat_alt RT_MB_ENTRY_MAX_def)
qed

lemma mb_not_full: "mb_ok m \<Longrightarrow> \<not> mb_full m \<Longrightarrow> mb_entry m < mb_size m \<and> mb_size m \<noteq> 0"
  by (auto simp: mb_ok_def mb_full_def word_gt_0)

lemma mb_put_ok:
  assumes ok: "mb_ok m" and room: "\<not> mb_full m"
  shows "fst (mb_put v m) = RT_EOK" and "mb_ok (snd (mb_put v m))"
    and "mb_contents (snd (mb_put v m)) = mb_contents m @ [v]"
    and "mb_size (snd (mb_put v m)) = mb_size m"
proof -
  have e: "mb_entry m < mb_size m" "mb_size m \<noteq> 0" using mb_not_full [OF ok room] by auto
  note d = mb_okD [OF ok e(2)] and inc = entry_inc [OF e(1)]
  let ?o = "unat (out_offset m)" and ?e = "unat (mb_entry m)" and ?n = "unat (mb_size m)"
  have m: "mb_put v m = (RT_EOK, m\<lparr>msg_pool := (msg_pool m)[(?o + ?e) mod length (msg_pool m) := v],
      in_offset := (if mb_size m \<le> in_offset m + 1 then 0 else in_offset m + 1), mb_entry := mb_entry m + 1\<rparr>)"
    using inc(3) by (simp add: mb_put_def Let_def d(1,3))
  show "fst (mb_put v m) = RT_EOK" "mb_size (snd (mb_put v m)) = mb_size m" by (simp_all add: m)
  have i: "unat (if mb_size m \<le> in_offset m + 1 then 0 else in_offset m + 1) = (?o + Suc ?e) mod ?n"
    unfolding ring_inc [OF d(4)] d(3) by (simp add: mod_simps)
  show "mb_ok (snd (mb_put v m))"
    using d(1,2) i inc(1,2) e(2) by (simp add: m mb_ok_def)
  show "mb_contents (snd (mb_put v m)) = mb_contents m @ [v]"
    using ring_append [OF d(7), of ?e v] e(1) inc(1) d(1)
    by (simp add: m mb_contents_ring word_less_nat_alt)
qed

lemma mb_push_ok:
  assumes ok: "mb_ok m" and room: "\<not> mb_full m"
  shows "mb_ok (mb_push v m)" and "mb_contents (mb_push v m) = v # mb_contents m"
    and "mb_size (mb_push v m) = mb_size m"
proof -
  have e: "mb_entry m < mb_size m" "mb_size m \<noteq> 0" using mb_not_full [OF ok room] by auto
  note d = mb_okD [OF ok e(2)] and inc = entry_inc [OF e(1)]
  let ?o = "unat (out_offset m)" and ?e = "unat (mb_entry m)" and ?n = "unat (mb_size m)"
  let ?off = "if 0 < out_offset m then out_offset m - 1 else mb_size m - 1"
  have off: "unat ?off = (?o + ?n - 1) mod ?n" by (rule ring_dec [OF d(2)])
  have "(?o + ?n - 1) mod ?n < ?n" using d(6) by (rule mod_less_divisor)
  then have offn: "?off < mb_size m" using off by (simp add: word_less_nat_alt del: split_paired_All)
  have i: "unat (in_offset m) = (unat ?off + Suc ?e) mod ?n"
  proof -
    have "(unat ?off + Suc ?e) mod ?n = (?o + ?n - 1 + Suc ?e) mod ?n" unfolding off by (rule mod_add_left_eq)
    also have "?o + ?n - 1 + Suc ?e = ?o + ?e + ?n" using d(6) by simp
    finally show ?thesis by (simp add: d(3))
  qed
  have m: "mb_push v m = m\<lparr>out_offset := ?off, msg_pool := (msg_pool m)[unat ?off := v],
      mb_entry := mb_entry m + 1\<rparr>" by (simp add: mb_push_def Let_def)
  show "mb_size (mb_push v m) = mb_size m" by (simp add: m)
  show "mb_ok (mb_push v m)"
    unfolding m using d(1) i offn inc(1,2) e(2) by (simp add: mb_ok_def del: if_split)
  show "mb_contents (mb_push v m) = v # mb_contents m"
    using ring_cons [OF d(7), of ?e v] e(1) inc(1) d(1) off
    by (simp add: m mb_contents_ring word_less_nat_alt del: if_split)
qed

lemma mb_get_ok:
  assumes ok: "mb_ok m" and some: "mb_entry m \<noteq> 0"
  shows "mb_contents m = fst (mb_get m) # mb_contents (snd (mb_get m))"
    and "mb_ok (snd (mb_get m))" and "mb_size (snd (mb_get m)) = mb_size m"
proof -
  have e: "mb_size m \<noteq> 0" using ok some by (auto simp: mb_ok_def)
  note d = mb_okD [OF ok e]
  let ?o = "unat (out_offset m)" and ?e = "unat (mb_entry m)" and ?n = "unat (mb_size m)"
  have e0: "0 < ?e" "unat (mb_entry m - 1) = ?e - 1" "0 < mb_entry m"
    using some by (simp_all add: unat_gt_0 unat_minus_one word_gt_0)
  let ?off = "if mb_size m \<le> out_offset m + 1 then 0 else out_offset m + 1"
  have off: "unat ?off = (?o + 1) mod ?n" by (rule ring_inc [OF d(2)])
  have "(?o + 1) mod ?n < ?n" using d(6) by (rule mod_less_divisor)
  then have offn: "?off < mb_size m" using off by (simp only: word_less_nat_alt)
  have m: "mb_get m = (msg_pool m ! ?o, m\<lparr>out_offset := ?off, mb_entry := mb_entry m - 1\<rparr>)"
    using e0(3) by (simp add: mb_get_def Let_def)
  have i: "unat (in_offset m) = (unat ?off + (?e - 1)) mod ?n"
  proof -
    have "(unat ?off + (?e - 1)) mod ?n = (?o + 1 + (?e - 1)) mod ?n" unfolding off by (rule mod_add_left_eq)
    then show ?thesis using e0(1) d(3) by simp
  qed
  have "mb_entry m - 1 \<le> mb_size m" using e0(2) d(5) by (simp add: word_le_nat_alt)
  then show "mb_ok (snd (mb_get m))"
    unfolding m using d(1) i offn e0(2) e by (simp add: mb_ok_def del: if_split)
  show "mb_contents m = fst (mb_get m) # mb_contents (snd (mb_get m))"
    using ring_tl [OF d(7) e0(1)] d(1) off e0(2)
    by (simp add: m mb_contents_ring del: if_split)
  show "mb_size (snd (mb_get m)) = mb_size m" by (simp add: m)
qed

section \<open>Waking does not touch the ring\<close>

lemma kern_more_msg:
  fixes s t :: "'a msg_kern_scheme"
  assumes "kern.more t = kern.more s"
  shows "mailboxes t = mailboxes s" and "mqueues t = mqueues s"
  using assms by (cases s; cases t; simp)+

lemma timer_msg [simp]:
  fixes s :: "'a msg_kern_scheme"
  shows "mailboxes (start_thread_timer p n s) = mailboxes s" "mqueues (start_thread_timer p n s) = mqueues s"
    "mailboxes (snd (rt_thread_suspend p s)) = mailboxes s" "mqueues (snd (rt_thread_suspend p s)) = mqueues s"
    "mailboxes (snd (rt_thread_resume p s)) = mailboxes s" "mqueues (snd (rt_thread_resume p s)) = mqueues s"
    "mailboxes (rt_thread_timeout p s) = mailboxes s" "mqueues (rt_thread_timeout p s) = mqueues s"
    "mailboxes (upd_thread p f s) = mailboxes s" "mqueues (upd_thread p f s) = mqueues s"
  by (rule kern_more_msg, simp)+

lemma upd_mb_simps [simp]:
  "mailboxes (upd_mb i f s) j = (if j = i then f (mailboxes s i) else mailboxes s j)"
  "mqueues (upd_mb i f s) = mqueues s" "threads (upd_mb i f s) = threads s"
  by (simp_all add: upd_mb_def)

lemma tlist_msg [simp]:
  "threads (msg_tlist_remove p s) = threads s"
  "mailboxes (msg_tlist_remove p s) i = (mailboxes s i)\<lparr>mb_suspend := remove1 p (mb_suspend (mailboxes s i)),
     mb_senders := remove1 p (mb_senders (mailboxes s i))\<rparr>"
  "mqueues (msg_tlist_remove p s) i = (mqueues s i)\<lparr>mq_suspend := remove1 p (mq_suspend (mqueues s i)),
     mq_senders := remove1 p (mq_senders (mqueues s i))\<rparr>"
  by (simp_all add: msg_tlist_remove_def)

lemma resume_threads:
  "suspended (threads s p) \<Longrightarrow> threads (msg_resume p s) q =
    (if q = p then (threads s p)\<lparr>suspended := False\<rparr> else threads s q)"
  using rt_thread_resume_suspended(6) [of "msg_tlist_remove p s" p q] by (simp add: msg_resume_def)

definition same_ring :: "mailbox \<Rightarrow> mailbox \<Rightarrow> bool" where
  "same_ring m m' \<longleftrightarrow> m' = m\<lparr>mb_suspend := mb_suspend m', mb_senders := mb_senders m'\<rparr>"

lemma same_ring_eq:
  assumes "same_ring m m'"
  shows "mb_ok m' = mb_ok m" "mb_contents m' = mb_contents m" "mb_size m' = mb_size m"
    "mb_entry m' = mb_entry m" "mb_full m' = mb_full m" "mb_flag m' = mb_flag m"
  using assms unfolding same_ring_def
  by (cases m; cases m'; simp add: mb_ok_def mb_contents_def mb_full_def)+

lemma wake_first_ring: "same_ring (mailboxes s i) (mailboxes (wake_first ps s) i)"
  by (cases "mailboxes s i") (simp add: wake_first_def msg_resume_def same_ring_def split: list.split)

lemmas wake_first_eq [simp] = same_ring_eq [OF wake_first_ring]

section \<open>The calls of a mailbox\<close>

text \<open>What the calls answer, unchanged; a sender that does not wait calls \<open>rt_mb_send\<close>.\<close>

definition mb_step :: "nat \<Rightarrow> u32 deque_op \<Rightarrow> 'a msg_kern_scheme \<Rightarrow> u32 deque_res \<times> 'a msg_kern_scheme" where
  "mb_step i op s =
     (case op of
        Put self timeout v \<Rightarrow>
          (let (e, s1) = (if timeout = 0 then rt_mb_send self i v s else rt_mb_send_wait self i v timeout s)
           in ((e, None), s1))
      | Push v \<Rightarrow> (let (e, s1) = rt_mb_urgent i v s in ((Some e, None), s1))
      | Get self timeout \<Rightarrow> (let (e, v, s1) = rt_mb_recv self i timeout s in ((e, v), s1)))"

text \<open>A call that waits leaves the ring as it is.\<close>

lemma msg_wait_ring:
  "same_ring (mailboxes s i) (mailboxes (msg_wait self timeout
     (\<lambda>f. upd_mb i (\<lambda>m. m\<lparr>mb_senders := f (mb_senders m)\<rparr>)) fl (upd_thread p g s)) i)"
  "same_ring (mailboxes s i) (mailboxes (msg_wait self timeout
     (\<lambda>f. upd_mb i (\<lambda>m. m\<lparr>mb_suspend := f (mb_suspend m)\<rparr>)) fl (upd_thread p g s)) i)"
  by (simp_all add: msg_wait_def Let_def same_ring_def)

lemmas msg_wait_ring_eq [simp] = same_ring_eq [OF msg_wait_ring(1)] same_ring_eq [OF msg_wait_ring(2)]

lemma mb_contents_length: "length (mb_contents m) = unat (mb_entry m)"
  by (simp add: mb_contents_def)

lemma mb_full_length: "mb_full m \<longleftrightarrow> length (mb_contents m) = unat (mb_size m)"
  by (simp add: mb_full_def mb_contents_length word_unat_eq_iff)

lemma mb_entry_le: "mb_ok m \<Longrightarrow> length (mb_contents m) \<le> unat (mb_size m)"
  by (simp add: mb_contents_length mb_ok_def word_le_nat_alt)

lemma mb_step_ok:
  assumes ok: "mb_ok (mailboxes s i)"
  shows "list_op (unat (mb_size (mailboxes s i))) op (mb_contents (mailboxes s i)) =
      (fst (mb_step i op s), mb_contents (mailboxes (snd (mb_step i op s)) i))"
    and "mb_ok (mailboxes (snd (mb_step i op s)) i)
      \<and> mb_size (mailboxes (snd (mb_step i op s)) i) = mb_size (mailboxes s i)"
proof -
  let ?m = "mailboxes s i" and ?s' = "snd (mb_step i op s)"
  note le = mb_entry_le [OF ok]
  have "list_op (unat (mb_size ?m)) op (mb_contents ?m) = (fst (mb_step i op s), mb_contents (mailboxes ?s' i))
    \<and> mb_ok (mailboxes ?s' i) \<and> mb_size (mailboxes ?s' i) = mb_size ?m"
  proof (cases op)
    case (Put self timeout v)
    show ?thesis
    proof (cases "mb_full ?m")
      case True
      then show ?thesis
        using ok mb_full_length [of ?m] by (simp add: Put mb_step_def rt_mb_send_def rt_mb_send_wait_def mb_send_loop_def Let_def)
    next
      case False
      note p = mb_put_ok [OF ok False, of v]
      have "length (mb_contents ?m) < unat (mb_size ?m)" using False le mb_full_length [of ?m] by simp
      then show ?thesis
        using False p by (simp add: Put mb_step_def rt_mb_send_def rt_mb_send_wait_def mb_send_loop_def
            case_prod_beta Let_def)
    qed
  next
    case (Push v)
    show ?thesis
    proof (cases "mb_full ?m")
      case True
      then show ?thesis using ok mb_full_length [of ?m] by (simp add: Push mb_step_def rt_mb_urgent_def)
    next
      case False
      note p = mb_push_ok [OF ok False, of v]
      have "length (mb_contents ?m) < unat (mb_size ?m)" using False le mb_full_length [of ?m] by simp
      then show ?thesis
        using False p by (simp add: Push mb_step_def rt_mb_urgent_def Let_def)
    qed
  next
    case (Get self timeout)
    show ?thesis
    proof (cases "mb_entry ?m = 0")
      case True
      then have "mb_contents ?m = []" by (simp add: mb_contents_def)
      then show ?thesis using True ok by (simp add: Get mb_step_def rt_mb_recv_def mb_recv_loop_def Let_def)
    next
      case False
      then show ?thesis
        using mb_get_ok [OF ok False]
        by (simp add: Get mb_step_def rt_mb_recv_def mb_recv_loop_def case_prod_beta Let_def)
    qed
  qed
  then show "list_op (unat (mb_size ?m)) op (mb_contents ?m) = (fst (mb_step i op s), mb_contents (mailboxes ?s' i))"
    "mb_ok (mailboxes ?s' i) \<and> mb_size (mailboxes ?s' i) = mb_size ?m" by auto
qed

interpretation mbx: bounded_deque "mb_step i" "\<lambda>s. mb_contents (mailboxes s i)"
    "\<lambda>s. unat (mb_size (mailboxes s i))" "\<lambda>s. mb_ok (mailboxes s i)" "\<lambda>_. True" for i
proof unfold_locales
  fix s :: "'a msg_kern_scheme" and op :: "u32 deque_op"
  assume ok: "mb_ok (mailboxes s i)"
  show "list_op (unat (mb_size (mailboxes s i))) op (mb_contents (mailboxes s i)) =
      (fst (mb_step i op s), mb_contents (mailboxes (snd (mb_step i op s)) i))"
    by (rule mb_step_ok(1) [OF ok])
  show "mb_ok (mailboxes (snd (mb_step i op s)) i)
      \<and> unat (mb_size (mailboxes (snd (mb_step i op s)) i)) = unat (mb_size (mailboxes s i))"
    using mb_step_ok(2) [OF ok, of op] by simp
  show "length (mb_contents (mailboxes s i)) \<le> unat (mb_size (mailboxes s i))"
    by (rule mb_entry_le [OF ok])
qed

text \<open>For the examples: two cells, nobody waiting.\<close>

definition msg_demo :: msg_kern where
  "msg_demo = kern.extend idle_kern \<lparr>mailboxes = (\<lambda>_. \<lparr>msg_pool = [0, 0], mb_size = 2, mb_entry = 0,
     in_offset = 0, out_offset = 0, mb_flag = RT_IPC_FLAG_PRIO, mb_suspend = [], mb_senders = []\<rparr>),
     mqueues = (\<lambda>_. \<lparr>msg_size = 4, max_msgs = 2, next_of = (\<lambda>b. if b = 1 then Some 0 else None),
       data_of = (\<lambda>_. [0, 0, 0, 0]), mq_entry = 0, queue_head = None, queue_tail = None,
       queue_free = Some 1, mq_flag = RT_IPC_FLAG_PRIO, mq_suspend = [], mq_senders = []\<rparr>)\<rparr>"

lemma msg_demo_simps [simp]:
  "mailboxes msg_demo i = \<lparr>msg_pool = [0, 0], mb_size = 2, mb_entry = 0,
     in_offset = 0, out_offset = 0, mb_flag = RT_IPC_FLAG_PRIO, mb_suspend = [], mb_senders = []\<rparr>"
  "threads msg_demo p = \<lparr>current_priority = 10, thread_error = RT_EOK, event_set = 0, event_info = 0,
     suspended = False, thread_timer = p\<rparr>"
  by (simp_all add: msg_demo_def idle_kern_def kern.extend_def)

text \<open>C12: 
  a mailbox is a queue of at most \<open>size\<close> values: whatever calls are made by whatever threads, with
  and without waiting, in whatever order, \<open>rt_mb_send\<close> and \<open>rt_mb_send_wait\<close> append,
  \<open>rt_mb_urgent\<close> puts in front and \<open>rt_mb_recv\<close> takes the first, all three with \<open>RT_EOK\<close>. Exactly
  when \<open>size\<close> values are stored, the two that do not wait return \<open>-RT_EFULL\<close> and a sender that
  waits is suspended; exactly when there is none, a receiver returns \<open>-RT_ETIMEOUT\<close> or is suspended.
  What a suspended call does when its thread runs again is not part of this.
\<close>

theorem mailbox_is_bounded_queue:
  assumes "mb_ok (mailboxes s i)"
  shows "run_ops (list_op (unat (mb_size (mailboxes s i)))) ops (mb_contents (mailboxes s i)) =
      (fst (run_ops (mb_step i) ops s), mb_contents (mailboxes (snd (run_ops (mb_step i) ops s)) i))
    \<and> mb_ok (mailboxes (snd (run_ops (mb_step i) ops s)) i)"
  using mbx.run_refines [of s i ops] assms by simp

theorem mailbox_is_bounded_queue_witness:
  "mb_ok (mailboxes msg_demo 5)
    \<and> fst (run_ops (mb_step 5) [Put 1 0 7, Push 8, Put 1 0 9, Push 6, Put 1 100 9, Get 2 0, Get 2 50, Get 2 0, Get 3 50] msg_demo) =
      [(Some RT_EOK, None), (Some RT_EOK, None), (Some RT_EFULL, None), (Some RT_EFULL, None), (None, None),
       (Some RT_EOK, Some 8), (Some RT_EOK, Some 7), (Some RT_ETIMEOUT, None), (None, None)]"
proof -
  have ok: "mb_ok (mailboxes msg_demo 5)" by (simp add: mb_ok_def)
  then show ?thesis
    using mailbox_is_bounded_queue [of msg_demo 5
      "[Put 1 0 7, Push 8, Put 1 0 9, Push 6, Put 1 100 9, Get 2 0, Get 2 50, Get 2 0, Get 3 50]"]
    by (simp add: mb_contents_def)
qed

section \<open>Waiting\<close>

lemma msg_wait_effect:
  "threads (msg_wait self timeout (\<lambda>f. upd_mb i (g f)) fl s) q =
     (if q = self then (threads s self)\<lparr>suspended := True\<rparr> else threads s q)"
  "\<exists>pr. mailboxes (msg_wait self timeout (\<lambda>f. upd_mb i (g f)) fl s) j =
     (if j = i then g (suspend_order fl pr self) (mailboxes s i) else mailboxes s j)"
  by (auto simp: msg_wait_def Let_def)

lemma timeout_threads:
  "suspended (threads s p) \<Longrightarrow> threads (msg_timeout p s) q =
    (if q = p then (threads s p)\<lparr>thread_error := RT_ETIMEOUT, suspended := False\<rparr> else threads s q)"
  by (simp add: msg_timeout_def rt_thread_timeout_def Let_def tlist_remove_def)

text \<open>The waiting senders of a mailbox are suspended, each is on the list once, and not a receiver.\<close>

definition senders_ok :: "'a msg_kern_scheme \<Rightarrow> nat \<Rightarrow> bool" where
  "senders_ok s i \<longleftrightarrow> distinct (mb_senders (mailboxes s i))
     \<and> (\<forall>p \<in> set (mb_senders (mailboxes s i)). suspended (threads s p) \<and> p \<notin> set (mb_suspend (mailboxes s i)))"

text \<open>
  sending to a full mailbox with a timeout suspends the sender. When a message is taken, the
  first of the waiting senders runs again, ahead of the others by the order of the mailbox, and if
  its place has not been taken its call stores the value behind what is there and succeeds. When the
  time runs out instead, it leaves the list and its call returns \<open>-RT_ETIMEOUT\<close> with the mailbox
  as it was.
\<close>

theorem full_mailbox_send_waits:
  fixes s :: "'a msg_kern_scheme" and v :: u32
  assumes ok: "mb_ok (mailboxes s i)" and full: "mb_full (mailboxes s i)" and size: "mb_size (mailboxes s i) \<noteq> 0"
    and wf: "senders_ok s i" and run: "\<not> suspended (threads s self)" and time: "timeout \<noteq> 0"
  defines "s1 \<equiv> snd (rt_mb_send_wait self i v timeout s)"
  shows "fst (rt_mb_send_wait self i v timeout s) = None \<and> suspended (threads s1 self)
    \<and> mb_contents (mailboxes s1 i) = mb_contents (mailboxes s i)
    \<and> (let p = hd (mb_senders (mailboxes s1 i)); (e, x, s2) = rt_mb_recv r i t s1
       in e = Some RT_EOK \<and> x = Some (hd (mb_contents (mailboxes s i))) \<and> \<not> suspended (threads s2 p)
          \<and> mb_senders (mailboxes s2 i) = tl (mb_senders (mailboxes s1 i))
          \<and> (p = self \<longrightarrow> (let (e', s3) = mb_send_again self i v timeout t0 s2
              in e' = Some RT_EOK \<and> mb_contents (mailboxes s3 i) = tl (mb_contents (mailboxes s i)) @ [v])))
    \<and> (let s2 = msg_timeout self s1
       in fst (mb_send_again self i v timeout t0 s2) = Some RT_ETIMEOUT
          \<and> mb_senders (mailboxes s2 i) = mb_senders (mailboxes s i)
          \<and> mb_contents (mailboxes s2 i) = mb_contents (mailboxes s i))"
proof -
  let ?m = "mailboxes s i"
  obtain pr where m1: "mailboxes s1 i = ?m\<lparr>mb_senders := suspend_order (mb_flag ?m) pr self (mb_senders ?m)\<rparr>"
    using full time msg_wait_effect(2) [of self timeout i "\<lambda>f m. m\<lparr>mb_senders := f (mb_senders m)\<rparr>" "mb_flag ?m"
        "upd_thread self (\<lambda>t. t\<lparr>thread_error := RT_EOK\<rparr>) s" i]
    by (auto simp: s1_def rt_mb_send_wait_def mb_send_loop_def Let_def)
  have t1: "threads s1 q = (if q = self then (threads s self)\<lparr>thread_error := RT_EOK, suspended := True\<rparr> else threads s q)" for q
    using full time by (simp add: s1_def rt_mb_send_wait_def mb_send_loop_def Let_def msg_wait_effect(1))
  have none: "fst (rt_mb_send_wait self i v timeout s) = None"
    using full time by (simp add: rt_mb_send_wait_def mb_send_loop_def Let_def)
  have "same_ring ?m (mailboxes s1 i)" by (simp add: same_ring_def m1)
  note ring = same_ring_eq [OF this]
  have out: "self \<notin> set (mb_senders ?m)" using wf run by (auto simp: senders_ok_def)
  let ?ps = "suspend_order (mb_flag ?m) pr self (mb_senders ?m)"
  obtain p ps where p: "?ps = p # ps"
    by (cases ?ps) (use set_suspend_order [of "mb_flag ?m" pr self "mb_senders ?m"] in auto)
  have mem: "set (p # ps) = insert self (set (mb_senders ?m))" unfolding p [symmetric] by simp
  have susp: "suspended (threads s1 p)"
    using mem wf by (auto simp: t1 senders_ok_def)
  have some: "mb_entry (mailboxes s1 i) \<noteq> 0" using full size ring(4) by (simp add: mb_full_def)
  have ok1: "mb_ok (mailboxes s1 i)" using ok ring(1) by simp
  note g = mb_get_ok [OF ok1 some]
  define s2 where "s2 = snd (snd (rt_mb_recv r i t s1))"
  let ?m2 = "snd (mb_get (mailboxes s1 i))"
  have snd2: "mb_senders ?m2 = p # ps" by (simp add: mb_get_def Let_def m1 p)
  have recv: "rt_mb_recv r i t s1 = (Some RT_EOK, Some (hd (mb_contents ?m)), s2)"
    and s2: "s2 = msg_resume p (upd_mb i (\<lambda>_. ?m2) s1)"
    using some snd2 g(1) ring(2)
    by (simp_all add: s2_def rt_mb_recv_def mb_recv_loop_def case_prod_beta Let_def wake_first_def)
  have t2: "threads s2 q = (if q = p then (threads s1 p)\<lparr>suspended := False\<rparr> else threads s1 q)" for q
    using susp by (simp add: s2 resume_threads)
  have l2: "mb_senders (mailboxes s2 i) = ps"
    using susp snd2 by (simp add: s2 msg_resume_def)
  have "same_ring ?m2 (mailboxes s2 i)" by (simp add: s2 msg_resume_def same_ring_def)
  note ring2 = same_ring_eq [OF this]
  have c2: "mb_contents (mailboxes s2 i) = tl (mb_contents ?m)" "mb_ok (mailboxes s2 i)"
    using g ring(2) ring2(1,2) by (metis list.sel(3), simp)
  have room: "\<not> mb_full (mailboxes s2 i)"
  proof
    assume "mb_full (mailboxes s2 i)"
    then have "length (tl (mb_contents ?m)) = unat (mb_size ?m)"
      using mb_full_length [of "mailboxes s2 i"] c2 ring2(3) ring(3) g(3) by simp
    moreover have "length (mb_contents ?m) = unat (mb_size ?m)" using full mb_full_length by simp
    moreover have "unat (mb_size ?m) \<noteq> 0" using size by (simp add: unat_eq_0)
    ultimately show False by simp
  qed
  have again: "fst (mb_send_again self i v timeout t0 s2) = Some RT_EOK
      \<and> mb_contents (mailboxes (snd (mb_send_again self i v timeout t0 s2)) i) = tl (mb_contents ?m) @ [v]"
    if "p = self"
    using that room mb_put_ok [OF c2(2) room, of v] c2(1)
    by (simp add: mb_send_again_def mb_send_loop_def t2 t1 case_prod_beta Let_def)
  have self1: "suspended (threads s1 self)" by (simp add: t1)
  have "fst (mb_send_again self i v timeout t0 (msg_timeout self s1)) = Some RT_ETIMEOUT"
    by (simp add: mb_send_again_def timeout_threads [OF self1])
  moreover have "mb_senders (mailboxes (msg_timeout self s1) i) = mb_senders ?m"
    using self1 out by (simp add: msg_timeout_def m1 remove1_suspend_order)
  moreover have "mb_contents (mailboxes (msg_timeout self s1) i) = mb_contents ?m"
    using self1 by (simp add: msg_timeout_def m1 mb_contents_def)
  ultimately show ?thesis
    using none self1 ring(2) recv t2 l2 again m1 p by (auto simp: case_prod_beta Let_def)
qed

theorem full_mailbox_send_waits_witness:
  "\<exists>s :: msg_kern. fst (rt_mb_send_wait 1 5 9 100 s) = None
    \<and> fst (snd (rt_mb_recv 2 5 0 (snd (rt_mb_send_wait 1 5 9 100 s)))) = Some 7"
proof -
  define s where "s = snd (run_ops (mb_step 5) [Put 1 0 7, Put 1 0 8] msg_demo)"
  have m: "mailboxes s 5 = \<lparr>msg_pool = [7, 8], mb_size = 2, mb_entry = 2,
     in_offset = 0, out_offset = 0, mb_flag = RT_IPC_FLAG_PRIO, mb_suspend = [], mb_senders = []\<rparr>"
    and t: "\<not> suspended (threads s 1)"
    by (simp_all add: s_def mb_step_def rt_mb_send_def rt_mb_send_wait_def mb_send_loop_def mb_full_def
        mb_put_def Let_def RT_MB_ENTRY_MAX_def wake_first_def case_prod_beta word_le_nat_alt)
  have h: "mb_ok (mailboxes s 5)" "mb_full (mailboxes s 5)" "mb_size (mailboxes s 5) \<noteq> 0"
    "senders_ok s 5" "mb_contents (mailboxes s 5) = [7, 8]"
    by (simp_all add: m mb_ok_def mb_full_def senders_ok_def mb_contents_def upt_rec)
  have "fst (rt_mb_send_wait 1 5 9 100 s) = None
    \<and> fst (snd (rt_mb_recv 2 5 0 (snd (rt_mb_send_wait 1 5 9 100 s)))) = Some 7"
    using full_mailbox_send_waits [OF h(1-4) t, of 100 9 2 0] h(5) by (auto simp: case_prod_beta Let_def)
  then show ?thesis by blast
qed

text \<open>
  a call that waits never waits longer than it asked for, however often it is woken and finds its
  place taken: what is left of the time keeps the moment at which it ends, and once that moment has
  passed, nothing is left and a mailbox that is full again is reported at once.
\<close>

theorem waiting_time_is_kept:
  assumes "0 < timeout" and "timeout < 2 ^ 31" and "uint (now - t0) < 2 ^ 31"
  shows "(uint (now - t0) < timeout \<longrightarrow>
        0 < time_left timeout t0 now \<and> time_left timeout t0 now < 2 ^ 31
        \<and> now + word_of_int (time_left timeout t0 now) = t0 + word_of_int timeout)
    \<and> (timeout \<le> uint (now - t0) \<longrightarrow> time_left timeout t0 now = 0
        \<and> (rt_tick_get s = now \<and> take_resumed self s = RT_EOK \<and> mb_full (mailboxes s i) \<longrightarrow>
            fst (mb_send_again self i v timeout t0 s) = Some RT_EFULL))"
proof -
  let ?d = "now - t0"
  have "word_of_int timeout - ?d = word_of_int (timeout - uint ?d)" by simp
  then have "sint (word_of_int timeout - ?d) = signed_take_bit 31 (timeout - uint ?d)"
    by (simp only: signed_of_int) simp
  also have "\<dots> = timeout - uint ?d"
    by (rule signed_take_bit_int_eq_self) (use assms uint_nonnegative [of ?d] in linarith)+
  finally have l: "time_left timeout t0 now = (if timeout < uint ?d then 0 else timeout - uint ?d)"
    using assms(1) by (simp add: time_left_def Let_def)
  have "now + word_of_int (timeout - uint ?d) = t0 + word_of_int timeout" by simp
  moreover have "fst (mb_send_again self i v timeout t0 s) = Some RT_EFULL"
    if "timeout \<le> uint ?d" "rt_tick_get s = now" "take_resumed self s = RT_EOK" "mb_full (mailboxes s i)"
    using that l by (simp add: mb_send_again_def mb_send_loop_def take_resumed_def)
  moreover have "timeout - uint ?d < 2 ^ 31" using assms(2) uint_nonnegative [of ?d] by linarith
  ultimately show ?thesis using l by auto
qed

theorem waiting_time_is_kept_witness:
  "time_left 100 5 35 = 70 \<and> 35 + word_of_int (time_left 100 5 35) = (105 :: u32) \<and> time_left 100 5 105 = 0"
proof -
  have h: "(0 :: int) < 100" "(100 :: int) < 2 ^ 31" "uint (35 - 5 :: u32) < 2 ^ 31" "uint (105 - 5 :: u32) < 2 ^ 31"
    by simp_all
  have "35 + word_of_int (time_left 100 5 35) = (5 + word_of_int 100 :: u32)" "0 < time_left 100 5 35"
    using waiting_time_is_kept [OF h(1-3), where s = msg_demo] by simp_all
  moreover have "time_left 100 5 105 = 0" using waiting_time_is_kept [OF h(1,2,4), where s = msg_demo] by simp
  moreover have "time_left 100 5 35 = 70" by (simp add: time_left_def Let_def)
  ultimately show ?thesis by simp
qed

end
