(* ===== verification/Msg_Queue_Check.thy ===== *)
theory Msg_Queue_Check
  imports Msg_Queue Mailbox_Check
begin

text \<open>
  What message queues guarantee, while threads and interrupts interleave between the parts of a
  call: every block of the pool is in the queue, free, or held by exactly one call; messages arrive
  in the order in which they were linked, and what a receiver gets is what was sent.
\<close>

section \<open>Chains of blocks\<close>

fun chain :: "(nat \<Rightarrow> nat option) \<Rightarrow> nat option \<Rightarrow> nat list \<Rightarrow> bool" where
  "chain nx h [] \<longleftrightarrow> h = None"
| "chain nx h (b # bs) \<longleftrightarrow> h = Some b \<and> chain nx (nx b) bs"

lemma chain_frame: "b \<notin> set bs \<Longrightarrow> chain (nx(b := x)) h bs \<longleftrightarrow> chain nx h bs"
  by (induction bs arbitrary: h) auto

lemma chain_None [simp]: "chain nx None bs \<longleftrightarrow> bs = []"
  by (cases bs) auto

lemma chain_Some: "chain nx (Some b) bs \<longleftrightarrow> (\<exists>cs. bs = b # cs \<and> chain nx (nx b) cs)"
  by (cases bs) auto

lemma chain_snoc:
  assumes "chain nx h bs" and "distinct (bs @ [b])" and "nx b = None" and "bs \<noteq> []"
  shows "chain (nx(last bs := Some b)) h (bs @ [b])"
  using assms
proof (induction bs arbitrary: h)
  case (Cons c bs)
  show ?case
  proof (cases bs)
    case Nil
    then show ?thesis using Cons.prems by auto
  next
    case (Cons d ds)
    then have nn: "bs \<noteq> []" by simp
    then have "chain (nx(last bs := Some b)) (nx c) (bs @ [b])"
      using Cons.IH [of "nx c"] Cons.prems by (simp del: fun_upd_apply)
    moreover have "(nx(last bs := Some b)) c = nx c" using Cons.prems(2) last_in_set [OF nn] by auto
    ultimately show ?thesis using Cons.prems(1) nn by (simp del: fun_upd_apply)
  qed
qed simp

fun follow :: "(nat \<Rightarrow> nat option) \<Rightarrow> nat option \<Rightarrow> nat \<Rightarrow> nat list" where
  "follow nx h 0 = []"
| "follow nx h (Suc n) = (case h of None \<Rightarrow> [] | Some b \<Rightarrow> b # follow nx (nx b) n)"

lemma chain_follow: "chain nx h bs \<Longrightarrow> follow nx h (length bs) = bs"
  by (induction bs arbitrary: h) auto

section \<open>A queue and the blocks in the hands of calls\<close>

text \<open>
  \<open>qs\<close> are the blocks of the messages, \<open>fs\<close> the free ones, and \<open>own p\<close> the block that the call of
  thread \<open>p\<close> holds.
\<close>

definition mq_rep :: "mqueue \<Rightarrow> nat list \<Rightarrow> nat list \<Rightarrow> (nat \<Rightarrow> nat option) \<Rightarrow> bool" where
  "mq_rep q qs fs own \<longleftrightarrow>
     chain (next_of q) (queue_head q) qs \<and> chain (next_of q) (queue_free q) fs
     \<and> queue_tail q = (if qs = [] then None else Some (last qs))
     \<and> unat (mq_entry q) = length qs
     \<and> distinct (qs @ fs)
     \<and> (\<forall>b. b < unat (max_msgs q) \<longleftrightarrow> b \<in> set qs \<or> b \<in> set fs \<or> b \<in> ran own)
     \<and> (\<forall>b \<in> ran own. b \<notin> set (qs @ fs))
     \<and> (\<forall>p p' b. own p = Some b \<longrightarrow> own p' = Some b \<longrightarrow> p = p')
     \<and> (\<forall>b < unat (max_msgs q). length (data_of q b) = unat (msg_size q))"

definition mq_items :: "mqueue \<Rightarrow> u8 list list" where
  "mq_items q = map (data_of q) (follow (next_of q) (queue_head q) (unat (mq_entry q)))"

lemma mq_repD:
  assumes "mq_rep q qs fs own"
  shows "chain (next_of q) (queue_head q) qs" "chain (next_of q) (queue_free q) fs"
    "queue_tail q = (if qs = [] then None else Some (last qs))" "unat (mq_entry q) = length qs"
    "distinct qs" "distinct fs" "set qs \<inter> set fs = {}"
    "b < unat (max_msgs q) \<longleftrightarrow> b \<in> set qs \<or> b \<in> set fs \<or> b \<in> ran own"
    "own p = Some b \<Longrightarrow> b \<notin> set qs \<and> b \<notin> set fs"
    "own p = Some b \<Longrightarrow> own p' = Some b \<Longrightarrow> p = p'"
    "b < unat (max_msgs q) \<Longrightarrow> length (data_of q b) = unat (msg_size q)"
    "mq_items q = map (data_of q) qs" "ran own \<inter> (set qs \<union> set fs) = {}"
  using assms chain_follow [of "next_of q" "queue_head q" qs]
  by (auto simp: mq_rep_def mq_items_def ranI)

lemma ran_release:
  assumes "own p = Some b" and "\<And>p'. own p' = Some b \<Longrightarrow> p' = p"
  shows "ran (own(p := None)) = ran own - {b}"
proof -
  have "a \<in> ran (own(p := None)) \<longleftrightarrow> a \<in> ran own \<and> a \<noteq> b" for a
  proof
    assume "a \<in> ran (own(p := None))"
    then obtain p' where p': "p' \<noteq> p" "own p' = Some a" by (auto simp: ran_def split: if_splits)
    then show "a \<in> ran own \<and> a \<noteq> b" using assms(2) [of p'] by (auto simp: ran_def)
  next
    assume a: "a \<in> ran own \<and> a \<noteq> b"
    then obtain p' where p': "own p' = Some a" by (auto simp: ran_def)
    then have "p' \<noteq> p" using a assms(1) by auto
    then show "a \<in> ran (own(p := None))" using p' by (auto simp: ran_def)
  qed
  then show ?thesis by blast
qed

lemma mq_rep_ran:
  assumes "mq_rep q qs fs own" and "own p = Some b"
  shows "b \<in> ran own" "ran (own(p := None)) = ran own - {b}"
proof -
  show "b \<in> ran own" using assms(2) by (rule ranI)
  have "p' = p" if "own p' = Some b" for p' using mq_repD(10) [OF assms(1) that assms(2)] .
  then show "ran (own(p := None)) = ran own - {b}" by (rule ran_release [of own p b, OF assms(2)])
qed

lemma mq_repI:
  assumes "chain (next_of q) (queue_head q) qs" "chain (next_of q) (queue_free q) fs"
    "queue_tail q = (if qs = [] then None else Some (last qs))" "unat (mq_entry q) = length qs"
    "distinct (qs @ fs)" "\<And>b. b < unat (max_msgs q) \<longleftrightarrow> b \<in> set qs \<or> b \<in> set fs \<or> b \<in> ran own"
    "ran own \<inter> set (qs @ fs) = {}" "\<And>p p' b. own p = Some b \<Longrightarrow> own p' = Some b \<Longrightarrow> p = p'"
    "\<And>b. b < unat (max_msgs q) \<Longrightarrow> length (data_of q b) = unat (msg_size q)"
  shows "mq_rep q qs fs own"
proof -
  have "\<forall>b \<in> ran own. b \<notin> set (qs @ fs)" using assms(7) by blast
  moreover have "\<forall>p p' b. own p = Some b \<longrightarrow> own p' = Some b \<longrightarrow> p = p'" using assms(8) by blast
  ultimately show ?thesis using assms(1-6,9) unfolding mq_rep_def by simp
qed

lemma mq_rep_head: "mq_rep q qs fs own \<Longrightarrow> queue_head q = None \<longleftrightarrow> qs = []"
  using mq_repD(1) [of q qs fs own] by (cases qs) auto

text \<open>A block in the hands of a call is not counted: the count does not reach its limit.\<close>

lemma mq_rep_room:
  assumes r: "mq_rep q qs fs own" and o: "own p = Some b"
  shows "length qs < unat (max_msgs q)" and "mq_entry q < RT_MQ_ENTRY_MAX"
    and "unat (mq_entry q + 1) = Suc (length qs)"
proof -
  note d = mq_repD [OF r]
  have "insert b (set qs) \<subseteq> {..<unat (max_msgs q)}" using d(8) o by (auto simp: ranI)
  then have "card (insert b (set qs)) \<le> unat (max_msgs q)" by (metis card_lessThan card_mono finite_lessThan)
  then show l: "length qs < unat (max_msgs q)"
    using d(5) d(9) [OF o] by (simp add: distinct_card)
  have "unat (max_msgs q) < 65536" using unsigned_less [of "max_msgs q", where ?'a = nat] by simp
  then have e: "unat (mq_entry q) < 65535" using l d(4) by linarith
  then show "mq_entry q < RT_MQ_ENTRY_MAX" by (simp add: word_less_nat_alt RT_MQ_ENTRY_MAX_def)
  show "unat (mq_entry q + 1) = Suc (length qs)" using e d(4) by (simp add: unat_word_ariths)
qed

lemma claim_rep:
  assumes r: "mq_rep q qs fs own" and o: "own p = None"
  shows "mq_claim q = None \<longleftrightarrow> fs = []"
    and "mq_claim q = Some (b, q') \<Longrightarrow>
      \<exists>fs'. fs = b # fs' \<and> mq_rep q' qs fs' (own(p := Some b)) \<and> mq_items q' = mq_items q
        \<and> data_of q' = data_of q \<and> msg_size q' = msg_size q \<and> max_msgs q' = max_msgs q"
proof -
  note d = mq_repD [OF r]
  show "mq_claim q = None \<longleftrightarrow> fs = []" using d(2) by (cases fs) (auto simp: mq_claim_def)
  assume c: "mq_claim q = Some (b, q')"
  then have b: "queue_free q = Some b" "q' = q\<lparr>queue_free := next_of q b\<rparr>" by (auto simp: mq_claim_def)
  obtain fs' where fs: "fs = b # fs'" "chain (next_of q) (next_of q b) fs'"
    using d(2) by (auto simp: b(1) chain_Some)
  have "mq_rep q' qs fs' (own(p := Some b))"
    by (rule mq_repI) (use d(1-8,10,11,13) fs ran_map_upd [of own p b] o in \<open>auto simp: b(2) ranI split: if_splits\<close>)
  then show "\<exists>fs'. fs = b # fs' \<and> mq_rep q' qs fs' (own(p := Some b)) \<and> mq_items q' = mq_items q
      \<and> data_of q' = data_of q \<and> msg_size q' = msg_size q \<and> max_msgs q' = max_msgs q"
    using fs(1) by (auto simp: b(2) mq_items_def)
qed

lemma owned_items: "mq_rep q qs fs own \<Longrightarrow> own p = Some b \<Longrightarrow>
    map ((data_of q)(b := x)) qs = map (data_of q) qs"
  using mq_repD(9) [of q qs fs own p b] by auto

lemma fill_rep:
  assumes r: "mq_rep q qs fs own" and o: "own p = Some b" and n: "length buf \<le> unat (msg_size q)"
  shows "mq_rep (mq_fill b buf q) qs fs own" and "mq_rep (mq_fill_last b buf q) qs fs own"
    and "mq_items (mq_fill b buf q) = mq_items q" and "mq_items (mq_fill_last b buf q) = mq_items q"
proof -
  note d = mq_repD [OF r]
  have l: "length (data_of q b) = unat (msg_size q)" using d(8,11) o by (auto simp: ranI)
  show f: "mq_rep (mq_fill b buf q) qs fs own"
    using r n l unfolding mq_rep_def by (auto simp: mq_fill_def)
  have "mq_rep (q\<lparr>next_of := (next_of q)(b := None)\<rparr>) qs fs own"
    using r d(9) [OF o] unfolding mq_rep_def by (simp add: chain_frame)
  then show f2: "mq_rep (mq_fill_last b buf q) qs fs own"
    using n l unfolding mq_rep_def by (auto simp: mq_fill_last_def mq_fill_def)
  show "mq_items (mq_fill b buf q) = mq_items q"
    using mq_repD(12) [OF f] d(12) owned_items [OF r o] by (simp add: mq_fill_def)
  show "mq_items (mq_fill_last b buf q) = mq_items q"
    using mq_repD(12) [OF f2] d(12) owned_items [OF r o] by (simp add: mq_fill_last_def mq_fill_def)
qed

lemma link_rep:
  assumes r: "mq_rep q qs fs own" and o: "own p = Some b" and nb: "next_of q b = None"
  shows "fst (mq_link b q) = RT_EOK" and "mq_rep (snd (mq_link b q)) (qs @ [b]) fs (own(p := None))"
    and "mq_items (snd (mq_link b q)) = mq_items q @ [data_of q b]"
    and "data_of (snd (mq_link b q)) = data_of q"
proof -
  note d = mq_repD [OF r] and room = mq_rep_room [OF r o]
  let ?nx = "if qs = [] then next_of q else (next_of q)(last qs := Some b)"
  have link: "mq_link b q = (RT_EOK, q\<lparr>next_of := ?nx, queue_tail := Some b,
      queue_head := (if qs = [] then Some b else queue_head q), mq_entry := mq_entry q + 1\<rparr>)"
    using d(3) room(2) mq_rep_head [OF r] by (auto simp: mq_link_def mq_count_def Let_def)
  show "fst (mq_link b q) = RT_EOK" "data_of (snd (mq_link b q)) = data_of q" by (simp_all add: link)
  have c: "chain ?nx (if qs = [] then Some b else queue_head q) (qs @ [b])"
    using chain_snoc [OF d(1) _ nb] d(5) d(9) [OF o] nb by auto
  have "qs \<noteq> [] \<Longrightarrow> last qs \<notin> set fs" using d(7) last_in_set [of qs] by blast
  then have f: "chain ?nx (queue_free q) fs" using d(2) by (auto simp: chain_frame)
  note ran = mq_rep_ran [OF r o]
  show m: "mq_rep (snd (mq_link b q)) (qs @ [b]) fs (own(p := None))"
    by (rule mq_repI) (use c f room(3) d(5-8,10,11,13) d(9) [OF o] ran in \<open>auto simp: link ranI split: if_splits\<close>)
  show "mq_items (snd (mq_link b q)) = mq_items q @ [data_of q b]"
    using mq_repD(12) [OF m] d(12) by (simp add: link)
qed

lemma link_front_rep:
  assumes r: "mq_rep q qs fs own" and o: "own p = Some b"
  shows "fst (mq_link_front b q) = RT_EOK" and "mq_rep (snd (mq_link_front b q)) (b # qs) fs (own(p := None))"
    and "mq_items (snd (mq_link_front b q)) = data_of q b # mq_items q"
    and "data_of (snd (mq_link_front b q)) = data_of q"
proof -
  note d = mq_repD [OF r] and room = mq_rep_room [OF r o]
  have link: "mq_link_front b q = (RT_EOK, q\<lparr>next_of := (next_of q)(b := queue_head q), queue_head := Some b,
      queue_tail := (if qs = [] then Some b else Some (last qs)), mq_entry := mq_entry q + 1\<rparr>)"
    using d(3) room(2) by (simp add: mq_link_front_def mq_count_def)
  show "fst (mq_link_front b q) = RT_EOK" "data_of (snd (mq_link_front b q)) = data_of q"
    by (simp_all add: link)
  note ran = mq_rep_ran [OF r o]
  show m: "mq_rep (snd (mq_link_front b q)) (b # qs) fs (own(p := None))"
    by (rule mq_repI)
      (use room(3) d(1,2,5-8,10,11,13) d(9) [OF o] ran in \<open>auto simp: link chain_frame ranI split: if_splits\<close>)
  show "mq_items (snd (mq_link_front b q)) = data_of q b # mq_items q"
    using mq_repD(12) [OF m] d(12) by (simp add: link)
qed

lemma unlink_rep:
  assumes r: "mq_rep q qs fs own" and o: "own p = None" and e: "mq_entry q \<noteq> 0"
  obtains b qs' q' where "mq_unlink q = Some (b, q')" and "qs = b # qs'"
    and "mq_rep q' qs' fs (own(p := Some b))" and "mq_items q = data_of q b # mq_items q'"
    and "data_of q' = data_of q" and "msg_size q' = msg_size q"
proof -
  note d = mq_repD [OF r]
  have "unat (mq_entry q) \<noteq> 0" using e by (simp add: unat_eq_0)
  then have "qs \<noteq> []" using d(4) by auto
  then obtain b qs' where qs: "qs = b # qs'" by (cases qs) auto
  have h: "queue_head q = Some b" "chain (next_of q) (next_of q b) qs'" using d(1) qs by auto
  have e0: "0 < mq_entry q" "unat (mq_entry q - 1) = length qs'"
    using e d(4) qs by (simp_all add: word_gt_0 unat_minus_one)
  define q' where "q' = q\<lparr>queue_head := next_of q b,
      queue_tail := (if queue_tail q = Some b then None else queue_tail q), mq_entry := mq_entry q - 1\<rparr>"
  have u: "mq_unlink q = Some (b, q')" using h e0(1) by (simp add: mq_unlink_def q'_def)
  have l: "qs' \<noteq> [] \<Longrightarrow> last qs' \<noteq> b" using d(5) qs last_in_set [of qs'] by auto
  have t: "queue_tail q' = (if qs' = [] then None else Some (last qs'))"
    using d(3) qs l by (auto simp: q'_def)
  have m: "mq_rep q' qs' fs (own(p := Some b))"
    by (rule mq_repI)
      (use t h(2) e0(2) l d(2,5-8,10,11,13) qs ran_map_upd [of own p b] o in \<open>auto simp: q'_def ranI split: if_splits\<close>)
  have "mq_items q = data_of q b # mq_items q'"
    using d(12) mq_repD(12) [OF m] qs by (simp add: q'_def)
  then show ?thesis using that [OF u qs m] by (simp add: q'_def)
qed

lemma give_back_rep:
  assumes r: "mq_rep q qs fs own" and o: "own p = Some b"
  shows "mq_rep (mq_give_back b q) qs (b # fs) (own(p := None))"
    and "mq_items (mq_give_back b q) = mq_items q" and "data_of (mq_give_back b q) = data_of q"
proof -
  note d = mq_repD [OF r]
  note ran = mq_rep_ran [OF r o]
  show m: "mq_rep (mq_give_back b q) qs (b # fs) (own(p := None))"
    by (rule mq_repI)
      (use d(1-8,10,11,13) d(9) [OF o] ran in \<open>auto simp: mq_give_back_def chain_frame ranI split: if_splits\<close>)
  show "data_of (mq_give_back b q) = data_of q" by (simp add: mq_give_back_def)
  then show "mq_items (mq_give_back b q) = mq_items q"
    using mq_repD(12) [OF m] d(12) by simp
qed

text \<open>A queue as \<open>rt_mq_init\<close> leaves it.\<close>

lemma link_pool_rep:
  "n \<le> unat (max_msgs q) \<Longrightarrow> queue_free q = None \<Longrightarrow>
    mq_link_pool n q = q\<lparr>next_of := next_of (mq_link_pool n q), queue_free := (if n = 0 then None else Some (n - 1))\<rparr>
    \<and> chain (next_of (mq_link_pool n q)) (queue_free (mq_link_pool n q)) (rev [0..<n])"
proof (induction n)
  case (Suc n)
  let ?q = "mq_link_pool n q"
  have step: "mq_link_pool (Suc n) q = ?q\<lparr>next_of := (next_of ?q)(n := queue_free ?q), queue_free := Some n\<rparr>"
    by (simp add: mq_link_pool_def)
  have ih: "?q = q\<lparr>next_of := next_of ?q, queue_free := (if n = 0 then None else Some (n - 1))\<rparr>"
    "chain (next_of ?q) (queue_free ?q) (rev [0..<n])" using Suc by auto
  have "chain ((next_of ?q)(n := queue_free ?q)) (queue_free ?q) (rev [0..<n])"
    using ih(2) by (simp add: chain_frame)
  then show ?case unfolding step by (subst ih(1)) simp
qed (simp add: mq_link_pool_def)

lemma mq_init_rep:
  assumes "\<And>b. length (pool b) = unat (ucast ((sz + 3) AND NOT 3 :: u32) :: u16)"
  shows "\<exists>fs. mq_rep (mqueues (rt_mq_init i pool sz n fl s) i) [] fs (\<lambda>_. None)"
    and "mq_items (mqueues (rt_mq_init i pool sz n fl s) i) = []"
proof -
  define ms where "ms = (ucast ((sz + 3) AND NOT 3) :: u16)"
  define mx where "mx = (ucast (n div (ucast ms + 4)) :: u16)"
  define q0 where "q0 = \<lparr>msg_size = ms, max_msgs = mx, next_of = (\<lambda>_. None), data_of = pool, mq_entry = 0,
    queue_head = None, queue_tail = None, queue_free = None, mq_flag = fl, mq_suspend = [], mq_senders = []\<rparr>"
  have q: "mqueues (rt_mq_init i pool sz n fl s) i = mq_link_pool (unat mx) q0"
    by (simp add: rt_mq_init_def upd_mq_def ms_def mx_def q0_def Let_def)
  have l: "mq_link_pool (unat mx) q0 = q0\<lparr>next_of := next_of (mq_link_pool (unat mx) q0),
      queue_free := (if unat mx = 0 then None else Some (unat mx - 1))\<rparr>"
    "chain (next_of (mq_link_pool (unat mx) q0)) (queue_free (mq_link_pool (unat mx) q0)) (rev [0..<unat mx])"
    using link_pool_rep [of "unat mx" q0] by (simp_all add: q0_def)
  have f: "queue_head (mq_link_pool (unat mx) q0) = None" "queue_tail (mq_link_pool (unat mx) q0) = None"
    "mq_entry (mq_link_pool (unat mx) q0) = 0" "max_msgs (mq_link_pool (unat mx) q0) = mx"
    "msg_size (mq_link_pool (unat mx) q0) = ms" "data_of (mq_link_pool (unat mx) q0) = pool"
    by (subst l(1), simp add: q0_def)+
  have "mq_rep (mq_link_pool (unat mx) q0) [] (rev [0..<unat mx]) (\<lambda>_. None)"
    using l(2) f assms by (intro mq_repI) (auto simp: ms_def)
  then show "\<exists>fs. mq_rep (mqueues (rt_mq_init i pool sz n fl s) i) [] fs (\<lambda>_. None)"
    unfolding q by blast
  show "mq_items (mqueues (rt_mq_init i pool sz n fl s) i) = []"
    unfolding q by (simp add: mq_items_def f)
qed

section \<open>Threads that use a queue\<close>

text \<open>
  Where the call of a thread is: not in a call, waiting to send or receive, or between two parts.
  A receiver remembers what its block held when it took it.
\<close>

datatype mq_local = Idle
  | Sending "u8 list" int u32 | Filling nat "u8 list" | Filled nat "u8 list"
  | Fronting nat "u8 list" | Fronted nat "u8 list"
  | Receiving nat int u32 | Copying nat nat "u8 list" | Copied nat

fun own :: "mq_local \<Rightarrow> nat option" where
  "own (Filling b _) = Some b" | "own (Filled b _) = Some b" | "own (Fronting b _) = Some b"
| "own (Fronted b _) = Some b" | "own (Copying b _ _) = Some b" | "own (Copied b) = Some b"
| "own _ = None"

datatype mq_event = Silent | Sent "u8 list" | Front "u8 list" | Took nat "u8 list" | Got_Bytes nat "u8 list" | Crash

fun send_result :: "u8 list \<Rightarrow> int \<Rightarrow> u32 \<Rightarrow> mq_result \<Rightarrow> mq_local" where
  "send_result buf timeout now (Has b) = Filling b buf"
| "send_result buf timeout now Waits = Sending buf timeout now"
| "send_result buf timeout now _ = Idle"

fun front_result :: "u8 list \<Rightarrow> mq_result \<Rightarrow> mq_local" where
  "front_result buf (Has b) = Fronting b buf"
| "front_result buf _ = Idle"

fun recv_result :: "(nat \<Rightarrow> u8 list) \<Rightarrow> nat \<Rightarrow> int \<Rightarrow> u32 \<Rightarrow> mq_result \<Rightarrow> mq_local" where
  "recv_result dat n timeout now (Has b) = Copying b n (dat b)"
| "recv_result dat n timeout now Waits = Receiving n timeout now"
| "recv_result dat n timeout now _ = Idle"

fun recv_event :: "(nat \<Rightarrow> u8 list) \<Rightarrow> nat \<Rightarrow> mq_result \<Rightarrow> mq_event" where
  "recv_event dat p (Has b) = Took p (dat b)"
| "recv_event dat p Null_Access = Crash"
| "recv_event dat p _ = Silent"

definition same_core :: "mqueue \<Rightarrow> mqueue \<Rightarrow> bool" where
  "same_core q q' \<longleftrightarrow> q' = q\<lparr>mq_suspend := mq_suspend q', mq_senders := mq_senders q'\<rparr>"

inductive mq_step ::
  "nat \<Rightarrow> 'a msg_kern_scheme \<times> (nat \<Rightarrow> mq_local) \<Rightarrow> mq_event \<Rightarrow> 'a msg_kern_scheme \<times> (nat \<Rightarrow> mq_local) \<Rightarrow> bool"
  for i where
  send: "loc p = Idle \<Longrightarrow> mq_send_begin p i (length buf) timeout s = (r, s') \<Longrightarrow>
    mq_step i (s, loc) Silent (s', loc(p := send_result buf timeout (rt_tick_get s) r))"
| send_again: "loc p = Sending buf timeout t0 \<Longrightarrow> \<not> suspended (threads s p) \<Longrightarrow>
    mq_send_again p i timeout t0 s = (r, s') \<Longrightarrow>
    mq_step i (s, loc) Silent (s', loc(p := send_result buf (time_left timeout t0 (rt_tick_get s)) (rt_tick_get s) r))"
| fill: "loc p = Filling b buf \<Longrightarrow>
    mq_step i (s, loc) Silent (upd_mq i (mq_fill_last b buf) s, loc(p := Filled b buf))"
| link: "loc p = Filled b buf \<Longrightarrow> mq_finish i (mq_link b) s = (e, s') \<Longrightarrow>
    mq_step i (s, loc) (if e = RT_EOK then Sent buf else Crash) (s', loc(p := Idle))"
| urgent: "loc p = Idle \<Longrightarrow> mq_urgent_begin i (length buf) s = (r, s') \<Longrightarrow>
    mq_step i (s, loc) Silent (s', loc(p := front_result buf r))"
| fill_front: "loc p = Fronting b buf \<Longrightarrow>
    mq_step i (s, loc) Silent (upd_mq i (mq_fill b buf) s, loc(p := Fronted b buf))"
| link_front: "loc p = Fronted b buf \<Longrightarrow> mq_finish i (mq_link_front b) s = (e, s') \<Longrightarrow>
    mq_step i (s, loc) (if e = RT_EOK then Front buf else Crash) (s', loc(p := Idle))"
| recv: "loc p = Idle \<Longrightarrow> mq_recv_begin p i n timeout s = (r, s') \<Longrightarrow>
    mq_step i (s, loc) (recv_event (data_of (mqueues s i)) p r)
      (s', loc(p := recv_result (data_of (mqueues s i)) n timeout (rt_tick_get s) r))"
| recv_again: "loc p = Receiving n timeout t0 \<Longrightarrow> \<not> suspended (threads s p) \<Longrightarrow>
    mq_recv_again p i timeout t0 s = (r, s') \<Longrightarrow>
    mq_step i (s, loc) (recv_event (data_of (mqueues s i)) p r)
      (s', loc(p := recv_result (data_of (mqueues s i)) n (time_left timeout t0 (rt_tick_get s)) (rt_tick_get s) r))"
| copy: "loc p = Copying b n m \<Longrightarrow>
    mq_step i (s, loc) (Got_Bytes p (mq_copy b n (mqueues s i))) (s, loc(p := Copied b))"
| give_back: "loc p = Copied b \<Longrightarrow> mq_step i (s, loc) Silent (mq_recv_end i b s, loc(p := Idle))"
| other: "same_core (mqueues s i) (mqueues s' i) \<Longrightarrow> mq_step i (s, loc) Silent (s', loc)"

inductive_cases mq_stepE: "mq_step i (s, loc) e (s', loc')"

section \<open>What the parts do to the queue\<close>

lemma upd_mq_simps [simp]:
  "mqueues (upd_mq i f s) j = (if j = i then f (mqueues s i) else mqueues s j)"
  "threads (upd_mq i f s) = threads s" "mailboxes (upd_mq i f s) = mailboxes s"
  by (simp_all add: upd_mq_def)

lemma claim_next: "mq_claim q = Some (b, q') \<Longrightarrow> next_of q' = next_of q"
  by (auto simp: mq_claim_def)

lemma unlink_next: "mq_unlink q = Some (b, q') \<Longrightarrow> next_of q' = next_of q"
  by (auto simp: mq_unlink_def split: option.splits)

lemma same_core_refl [simp]: "same_core q q"
  by (simp add: same_core_def)

lemma same_core_lists [simp]: "same_core q (q\<lparr>mq_suspend := x\<rparr>)" "same_core q (q\<lparr>mq_senders := x\<rparr>)"
  "same_core q (q\<lparr>mq_suspend := x, mq_senders := y\<rparr>)"
  by (simp_all add: same_core_def)

lemma same_core_eq:
  assumes "same_core q q'"
  shows "mq_rep q' qs fs ow \<longleftrightarrow> mq_rep q qs fs ow" "mq_items q' = mq_items q" "data_of q' = data_of q"
    "next_of q' = next_of q" "msg_size q' = msg_size q" "max_msgs q' = max_msgs q" "mq_entry q' = mq_entry q"
    "queue_free q' = queue_free q"
  using assms unfolding same_core_def by (cases q; cases q'; simp add: mq_rep_def mq_items_def)+

lemma wake_first_core: "same_core (mqueues s i) (mqueues (wake_first ps s) i)"
  by (simp add: wake_first_def msg_resume_def split: list.split)

lemma msg_wait_core:
  "same_core (mqueues s i) (mqueues (msg_wait p timeout (\<lambda>f. upd_mq i (\<lambda>q. q\<lparr>mq_senders := f (mq_senders q)\<rparr>)) fl s) i)"
  "same_core (mqueues s i) (mqueues (msg_wait p timeout (\<lambda>f. upd_mq i (\<lambda>q. q\<lparr>mq_suspend := f (mq_suspend q)\<rparr>)) fl s) i)"
  by (simp_all add: msg_wait_def Let_def)

lemma send_loop_result:
  assumes "mq_send_loop p i timeout s = (r, s')"
  obtains b where "r = Has b" "mq_claim (mqueues s i) = Some (b, mqueues s' i)"
  | "r = Waits" "same_core (mqueues s i) (mqueues s' i)"
  | e where "r = Done e" "same_core (mqueues s i) (mqueues s' i)"
  using assms msg_wait_core(1) [where s = "upd_thread p (\<lambda>t. t\<lparr>thread_error := RT_EOK\<rparr>) s"]
  by (auto simp: mq_send_loop_def Let_def split: option.splits if_splits)

lemma send_begin_result:
  assumes "mq_send_begin p i n timeout s = (r, s')"
  obtains b where "r = Has b" "mq_claim (mqueues s i) = Some (b, mqueues s' i)" "n \<le> unat (msg_size (mqueues s i))"
  | "r = Waits" "same_core (mqueues s i) (mqueues s' i)" "n \<le> unat (msg_size (mqueues s i))"
  | e where "r = Done e" "same_core (mqueues s i) (mqueues s' i)"
  using assms by (auto simp: mq_send_begin_def split: if_splits elim!: send_loop_result)

lemma send_again_result:
  assumes "mq_send_again p i timeout t0 s = (r, s')"
  obtains b where "r = Has b" "mq_claim (mqueues s i) = Some (b, mqueues s' i)"
  | "r = Waits" "same_core (mqueues s i) (mqueues s' i)"
  | e where "r = Done e" "same_core (mqueues s i) (mqueues s' i)"
  using assms by (auto simp: mq_send_again_def split: if_splits elim!: send_loop_result)

lemma urgent_result:
  assumes "mq_urgent_begin i n s = (r, s')"
  obtains b where "r = Has b" "mq_claim (mqueues s i) = Some (b, mqueues s' i)" "n \<le> unat (msg_size (mqueues s i))"
  | e where "r = Done e" "same_core (mqueues s i) (mqueues s' i)"
  using assms by (auto simp: mq_urgent_begin_def split: if_splits option.splits)

lemma recv_loop_result:
  assumes "mq_recv_loop p i timeout s = (r, s')"
  obtains b where "r = Has b" "mq_entry (mqueues s i) \<noteq> 0" "mq_unlink (mqueues s i) = Some (b, mqueues s' i)"
  | "r = Waits" "same_core (mqueues s i) (mqueues s' i)"
  | e where "r = Done e" "same_core (mqueues s i) (mqueues s' i)"
  | "r = Null_Access" "mq_entry (mqueues s i) \<noteq> 0" "mq_unlink (mqueues s i) = None"
  using assms msg_wait_core(2) [where s = "upd_thread p (\<lambda>t. t\<lparr>thread_error := RT_EOK\<rparr>) s"]
  by (auto simp: mq_recv_loop_def Let_def split: option.splits if_splits)

lemma recv_begin_result:
  assumes "mq_recv_begin p i n timeout s = (r, s')"
  obtains b where "r = Has b" "mq_entry (mqueues s i) \<noteq> 0" "mq_unlink (mqueues s i) = Some (b, mqueues s' i)"
  | "r = Waits" "same_core (mqueues s i) (mqueues s' i)"
  | e where "r = Done e" "same_core (mqueues s i) (mqueues s' i)"
  | "r = Null_Access" "mq_entry (mqueues s i) \<noteq> 0" "mq_unlink (mqueues s i) = None"
  using assms by (auto simp: mq_recv_begin_def split: if_splits elim!: recv_loop_result)

lemma recv_again_result:
  assumes "mq_recv_again p i timeout t0 s = (r, s')"
  obtains b where "r = Has b" "mq_entry (mqueues s i) \<noteq> 0" "mq_unlink (mqueues s i) = Some (b, mqueues s' i)"
  | "r = Waits" "same_core (mqueues s i) (mqueues s' i)"
  | e where "r = Done e" "same_core (mqueues s i) (mqueues s' i)"
  | "r = Null_Access" "mq_entry (mqueues s i) \<noteq> 0" "mq_unlink (mqueues s i) = None"
  using assms by (auto simp: mq_recv_again_def split: if_splits elim!: recv_loop_result)

lemma finish_core:
  "mq_finish i link s = (e, s') \<Longrightarrow> e = fst (link (mqueues s i)) \<and> same_core (snd (link (mqueues s i))) (mqueues s' i)"
  using wake_first_core [of "upd_mq i (\<lambda>_. snd (link (mqueues s i))) s" i]
  by (auto simp: mq_finish_def case_prod_beta Let_def split: if_splits)

lemma recv_end_core: "same_core (mq_give_back b (mqueues s i)) (mqueues (mq_recv_end i b s) i)"
  using wake_first_core [of "upd_mq i (\<lambda>_. mq_give_back b (mqueues s i)) s" i]
  by (simp add: mq_recv_end_def Let_def)

section \<open>The abstract queue\<close>

text \<open>
  The messages in order, and for each thread the message it has taken and not yet copied. A stored
  message begins with the bytes that were sent.
\<close>

fun mq_spec :: "mq_event \<Rightarrow> u8 list list \<times> (nat \<Rightarrow> u8 list option) \<Rightarrow> u8 list list \<times> (nat \<Rightarrow> u8 list option) \<Rightarrow> bool" where
  "mq_spec Silent (A, h) (A', h') \<longleftrightarrow> A' = A \<and> h' = h"
| "mq_spec (Sent buf) (A, h) (A', h') \<longleftrightarrow> (\<exists>m. take (length buf) m = buf \<and> A' = A @ [m]) \<and> h' = h"
| "mq_spec (Front buf) (A, h) (A', h') \<longleftrightarrow> (\<exists>m. take (length buf) m = buf \<and> A' = m # A) \<and> h' = h"
| "mq_spec (Took p m) (A, h) (A', h') \<longleftrightarrow> A = m # A' \<and> h' = h(p := Some m)"
| "mq_spec (Got_Bytes p out) (A, h) (A', h') \<longleftrightarrow>
     (\<exists>m k. h p = Some m \<and> out = take k m) \<and> A' = A \<and> h' = h(p := None)"
| "mq_spec Crash _ _ \<longleftrightarrow> False"

definition held :: "(nat \<Rightarrow> mq_local) \<Rightarrow> nat \<Rightarrow> u8 list option" where
  "held loc p = (case loc p of Copying _ _ m \<Rightarrow> Some m | _ \<Rightarrow> None)"

definition mq_abs :: "nat \<Rightarrow> 'a msg_kern_scheme \<times> (nat \<Rightarrow> mq_local) \<Rightarrow> u8 list list \<times> (nat \<Rightarrow> u8 list option)" where
  "mq_abs i st = (mq_items (mqueues (fst st) i), held (snd st))"

fun local_ok :: "mqueue \<Rightarrow> mq_local \<Rightarrow> bool" where
  "local_ok q (Sending buf _ _) \<longleftrightarrow> length buf \<le> unat (msg_size q)"
| "local_ok q (Filling b buf) \<longleftrightarrow> length buf \<le> unat (msg_size q)"
| "local_ok q (Fronting b buf) \<longleftrightarrow> length buf \<le> unat (msg_size q)"
| "local_ok q (Filled b buf) \<longleftrightarrow> next_of q b = None \<and> take (length buf) (data_of q b) = buf"
| "local_ok q (Fronted b buf) \<longleftrightarrow> take (length buf) (data_of q b) = buf"
| "local_ok q (Copying b n m) \<longleftrightarrow> data_of q b = m"
| "local_ok q _ \<longleftrightarrow> True"

definition mq_inv :: "nat \<Rightarrow> 'a msg_kern_scheme \<times> (nat \<Rightarrow> mq_local) \<Rightarrow> bool" where
  "mq_inv i st \<longleftrightarrow> (\<exists>qs fs. mq_rep (mqueues (fst st) i) qs fs (\<lambda>p. own (snd st p)))
     \<and> (\<forall>p. local_ok (mqueues (fst st) i) (snd st p))"

lemma local_ok_frame:
  assumes "local_ok q l" and "msg_size q' = msg_size q"
    and "\<And>b. own l = Some b \<Longrightarrow> data_of q' b = data_of q b \<and> (next_of q b = None \<longrightarrow> next_of q' b = None)"
  shows "local_ok q' l"
  using assms by (cases l) auto

lemma own_upd: "(\<lambda>p'. own ((loc(p := l)) p')) = (\<lambda>p'. own (loc p'))(p := own l)"
  by auto

lemma held_upd: "held (loc(p := l)) = (held loc)(p := held (\<lambda>_. l) p)"
  by (auto simp: held_def)

text \<open>One thread moves on; what the others hold is left alone.\<close>

lemma mq_inv_move:
  assumes inv: "mq_inv i (s, loc)"
    and rep: "mq_rep (mqueues s' i) qs' fs' ((\<lambda>p'. own (loc p'))(p := own l))"
    and mine: "local_ok (mqueues s' i) l" and ms: "msg_size (mqueues s' i) = msg_size (mqueues s i)"
    and others: "\<And>p' b. p' \<noteq> p \<Longrightarrow> own (loc p') = Some b \<Longrightarrow>
      data_of (mqueues s' i) b = data_of (mqueues s i) b
      \<and> (next_of (mqueues s i) b = None \<longrightarrow> next_of (mqueues s' i) b = None)"
  shows "mq_inv i (s', loc(p := l))"
proof -
  have "local_ok (mqueues s' i) ((loc(p := l)) p')" for p'
    using inv mine ms others local_ok_frame [of "mqueues s i" "loc p'" "mqueues s' i"]
    by (auto simp: mq_inv_def)
  then show ?thesis using rep unfolding mq_inv_def own_upd [symmetric] by auto
qed

lemma mq_inv_core:
  assumes inv: "mq_inv i (s, loc)" and c: "same_core (mqueues s i) (mqueues s' i)"
    and own: "own l = own (loc p)" and mine: "local_ok (mqueues s' i) l"
  shows "mq_inv i (s', loc(p := l))"
proof -
  obtain qs fs where "mq_rep (mqueues s i) qs fs (\<lambda>p. own (loc p))" using inv by (auto simp: mq_inv_def)
  moreover have "(\<lambda>p. own (loc p))(p := own l) = (\<lambda>p. own (loc p))" using own by auto
  ultimately show ?thesis
    using same_core_eq [OF c] by (intro mq_inv_move [OF inv _ mine, of qs fs]) auto
qed

definition mq_sim :: "nat \<Rightarrow> 'a msg_kern_scheme \<times> (nat \<Rightarrow> mq_local) \<Rightarrow> mq_event \<Rightarrow>
    'a msg_kern_scheme \<times> (nat \<Rightarrow> mq_local) \<Rightarrow> bool" where
  "mq_sim i st e st' \<longleftrightarrow> mq_inv i st' \<and> mq_spec e (mq_abs i st) (mq_abs i st')"

lemma held_same: "held (\<lambda>_. l) p = held loc p \<Longrightarrow> held (loc(p := l)) = held loc"
  by (auto simp: held_def)

lemma sim_core:
  assumes "mq_inv i (s, loc)" and "same_core (mqueues s i) (mqueues s' i)"
    and "own (loc p) = None" and "own l = None" and "local_ok (mqueues s i) l"
  shows "mq_sim i (s, loc) Silent (s', loc(p := l))"
proof -
  have "local_ok (mqueues s' i) l"
    using assms(5) same_core_eq [OF assms(2)] by (auto intro: local_ok_frame [of "mqueues s i" l])
  then have "mq_inv i (s', loc(p := l))"
    using assms(3,4) by (intro mq_inv_core [OF assms(1,2)]) auto
  moreover have "held (loc(p := l)) = held loc"
    using assms(3,4) by (intro held_same) (cases "loc p"; cases l; simp add: held_def)
  ultimately show ?thesis using same_core_eq(2) [OF assms(2)] by (simp add: mq_sim_def mq_abs_def)
qed

lemma sim_claim:
  assumes inv: "mq_inv i (s, loc)" and o: "own (loc p) = None"
    and c: "mq_claim (mqueues s i) = Some (b, mqueues s' i)"
    and l: "own l = Some b" "held (\<lambda>_. l) p = None" "local_ok (mqueues s i) l"
  shows "mq_sim i (s, loc) Silent (s', loc(p := l))"
proof -
  obtain qs fs where r: "mq_rep (mqueues s i) qs fs (\<lambda>p. own (loc p))" using inv by (auto simp: mq_inv_def)
  from claim_rep(2) [OF r _ c, of p] o obtain fs' where
    r': "mq_rep (mqueues s' i) qs fs' ((\<lambda>p. own (loc p))(p := Some b))"
    and f: "mq_items (mqueues s' i) = mq_items (mqueues s i)" "data_of (mqueues s' i) = data_of (mqueues s i)"
      "msg_size (mqueues s' i) = msg_size (mqueues s i)" by auto
  have n: "next_of (mqueues s' i) = next_of (mqueues s i)" by (rule claim_next [OF c])
  have "local_ok (mqueues s' i) l" using l(3) f n by (auto intro: local_ok_frame [of "mqueues s i" l])
  then have "mq_inv i (s', loc(p := l))"
    using r' l(1) f n by (intro mq_inv_move [OF inv, of _ qs fs']) auto
  moreover have "held (loc(p := l)) = held loc"
    using o l(2) by (intro held_same) (cases "loc p"; simp add: held_def)
  ultimately show ?thesis using f by (simp add: mq_sim_def mq_abs_def)
qed

lemma sim_fill:
  assumes inv: "mq_inv i (s, loc)" and o: "own (loc p) = Some b" "held loc p = None"
    and q': "mqueues s' i = mq_fill_last b buf (mqueues s i) \<and> l = Filled b buf
      \<or> mqueues s' i = mq_fill b buf (mqueues s i) \<and> l = Fronted b buf"
    and n: "length buf \<le> unat (msg_size (mqueues s i))"
  shows "mq_sim i (s, loc) Silent (s', loc(p := l))"
proof -
  obtain qs fs where r: "mq_rep (mqueues s i) qs fs (\<lambda>p. own (loc p))" using inv by (auto simp: mq_inv_def)
  note f = fill_rep [OF r o(1) n] and d = mq_repD [OF r]
  have own: "(\<lambda>p. own (loc p))(p := own l) = (\<lambda>p. own (loc p))" using o(1) q' by auto
  have "mq_inv i (s', loc(p := l))"
  proof (rule mq_inv_move [OF inv, of s' qs fs p l])
    show "mq_rep (mqueues s' i) qs fs ((\<lambda>p'. own (loc p'))(p := own l))"
      unfolding own using q' f(1,2) by auto
    show "local_ok (mqueues s' i) l" using q' by (auto simp: mq_fill_last_def mq_fill_def)
    show "msg_size (mqueues s' i) = msg_size (mqueues s i)"
      using q' by (auto simp: mq_fill_last_def mq_fill_def)
    fix p' c
    assume "p' \<noteq> p" "own (loc p') = Some c"
    then have "c \<noteq> b" using d(10) [OF o(1), of p'] by auto
    then show "data_of (mqueues s' i) c = data_of (mqueues s i) c
        \<and> (next_of (mqueues s i) c = None \<longrightarrow> next_of (mqueues s' i) c = None)"
      using q' by (auto simp: mq_fill_last_def mq_fill_def)
  qed
  moreover have "held (loc(p := l)) = held loc"
    using o(2) q' by (intro held_same) (auto simp: held_def)
  moreover have "mq_items (mqueues s' i) = mq_items (mqueues s i)" using q' f(3,4) by auto
  ultimately show ?thesis by (simp add: mq_sim_def mq_abs_def)
qed

lemma sim_link:
  assumes inv: "mq_inv i (s, loc)" and l: "loc p = Filled b buf" and e: "mq_finish i (mq_link b) s = (e, s')"
  shows "mq_sim i (s, loc) (if e = RT_EOK then Sent buf else Crash) (s', loc(p := Idle))"
proof -
  obtain qs fs where r: "mq_rep (mqueues s i) qs fs (\<lambda>p. own (loc p))" using inv by (auto simp: mq_inv_def)
  have "local_ok (mqueues s i) (loc p)" using inv by (simp add: mq_inv_def)
  then have lo: "next_of (mqueues s i) b = None" "take (length buf) (data_of (mqueues s i) b) = buf"
    by (simp_all add: l)
  have o: "own (loc p) = Some b" by (simp add: l)
  note k = link_rep [OF r o lo(1)] and d = mq_repD [OF r]
  from finish_core [OF e] have c: "same_core (snd (mq_link b (mqueues s i))) (mqueues s' i)" "e = RT_EOK"
    using k(1) by auto
  note ce = same_core_eq [OF c(1)]
  have "mq_inv i (s', loc(p := Idle))"
  proof (rule mq_inv_move [OF inv, of s' "qs @ [b]" fs])
    show "mq_rep (mqueues s' i) (qs @ [b]) fs ((\<lambda>p'. own (loc p'))(p := own Idle))" using k(2) ce(1) by simp
    show "local_ok (mqueues s' i) Idle" by simp
    show "msg_size (mqueues s' i) = msg_size (mqueues s i)"
      using ce(5) by (simp add: mq_link_def mq_count_def Let_def split: option.splits)
    fix p' c
    assume o': "own (loc p') = Some c"
    then have "c \<noteq> last qs \<or> qs = []" using d(9) [OF o'] last_in_set by blast
    then show "data_of (mqueues s' i) c = data_of (mqueues s i) c
        \<and> (next_of (mqueues s i) c = None \<longrightarrow> next_of (mqueues s' i) c = None)"
      using ce(3,4) k(4) d(3) by (auto simp: mq_link_def mq_count_def Let_def)
  qed
  moreover have "mq_items (mqueues s' i) = mq_items (mqueues s i) @ [data_of (mqueues s i) b]"
    using ce(2) k(3) by simp
  moreover have "held (loc(p := Idle)) = held loc" using l by (intro held_same) (simp add: held_def)
  ultimately show ?thesis using lo(2) c(2) by (simp add: mq_sim_def mq_abs_def)
qed

lemma sim_link_front:
  assumes inv: "mq_inv i (s, loc)" and l: "loc p = Fronted b buf" and e: "mq_finish i (mq_link_front b) s = (e, s')"
  shows "mq_sim i (s, loc) (if e = RT_EOK then Front buf else Crash) (s', loc(p := Idle))"
proof -
  obtain qs fs where r: "mq_rep (mqueues s i) qs fs (\<lambda>p. own (loc p))" using inv by (auto simp: mq_inv_def)
  have "local_ok (mqueues s i) (loc p)" using inv by (simp add: mq_inv_def)
  then have lo: "take (length buf) (data_of (mqueues s i) b) = buf" by (simp add: l)
  have o: "own (loc p) = Some b" by (simp add: l)
  note k = link_front_rep [OF r o] and d = mq_repD [OF r]
  from finish_core [OF e] have c: "same_core (snd (mq_link_front b (mqueues s i))) (mqueues s' i)" "e = RT_EOK"
    using k(1) by auto
  note ce = same_core_eq [OF c(1)]
  have "mq_inv i (s', loc(p := Idle))"
  proof (rule mq_inv_move [OF inv, of s' "b # qs" fs])
    show "mq_rep (mqueues s' i) (b # qs) fs ((\<lambda>p'. own (loc p'))(p := own Idle))" using k(2) ce(1) by simp
    show "local_ok (mqueues s' i) Idle" by simp
    show "msg_size (mqueues s' i) = msg_size (mqueues s i)"
      using ce(5) by (simp add: mq_link_front_def mq_count_def)
    fix p' c
    assume "p' \<noteq> p" "own (loc p') = Some c"
    then have "c \<noteq> b" using d(10) [OF o, of p'] by auto
    then show "data_of (mqueues s' i) c = data_of (mqueues s i) c
        \<and> (next_of (mqueues s i) c = None \<longrightarrow> next_of (mqueues s' i) c = None)"
      using ce(3,4) k(4) by (auto simp: mq_link_front_def mq_count_def)
  qed
  moreover have "mq_items (mqueues s' i) = data_of (mqueues s i) b # mq_items (mqueues s i)"
    using ce(2) k(3) by simp
  moreover have "held (loc(p := Idle)) = held loc" using l by (intro held_same) (simp add: held_def)
  ultimately show ?thesis using lo c(2) by (simp add: mq_sim_def mq_abs_def)
qed

lemma sim_unlink:
  assumes inv: "mq_inv i (s, loc)" and o: "own (loc p) = None" and e: "mq_entry (mqueues s i) \<noteq> 0"
  shows "mq_unlink (mqueues s i) \<noteq> None"
    and "mq_unlink (mqueues s i) = Some (b, mqueues s' i) \<Longrightarrow>
      mq_sim i (s, loc) (Took p (data_of (mqueues s i) b)) (s', loc(p := Copying b n (data_of (mqueues s i) b)))"
proof -
  obtain qs fs where r: "mq_rep (mqueues s i) qs fs (\<lambda>p. own (loc p))" using inv by (auto simp: mq_inv_def)
  from unlink_rep [OF r _ e, of p] o obtain c qs' q' where u: "mq_unlink (mqueues s i) = Some (c, q')"
    "mq_rep q' qs' fs ((\<lambda>p. own (loc p))(p := Some c))" "mq_items (mqueues s i) = data_of (mqueues s i) c # mq_items q'"
    "data_of q' = data_of (mqueues s i)" "msg_size q' = msg_size (mqueues s i)" by metis
  show "mq_unlink (mqueues s i) \<noteq> None" using u(1) by simp
  assume m: "mq_unlink (mqueues s i) = Some (b, mqueues s' i)"
  then have q: "q' = mqueues s' i" "c = b" using u(1) by auto
  have nx: "next_of (mqueues s' i) = next_of (mqueues s i)" by (rule unlink_next [OF m])
  have "mq_inv i (s', loc(p := Copying b n (data_of (mqueues s i) b)))"
    using u(2,4,5) nx unfolding q by (intro mq_inv_move [OF inv, of s' qs' fs]) auto
  then show "mq_sim i (s, loc) (Took p (data_of (mqueues s i) b)) (s', loc(p := Copying b n (data_of (mqueues s i) b)))"
    using u(3) unfolding q by (simp add: mq_sim_def mq_abs_def held_upd, simp add: held_def)
qed

lemma sim_recv_end:
  assumes inv: "mq_inv i (s, loc)" and l: "loc p = Copied b"
  shows "mq_sim i (s, loc) Silent (mq_recv_end i b s, loc(p := Idle))"
proof -
  obtain qs fs where r: "mq_rep (mqueues s i) qs fs (\<lambda>p. own (loc p))" using inv by (auto simp: mq_inv_def)
  have o: "own (loc p) = Some b" by (simp add: l)
  note k = give_back_rep [OF r o] and d = mq_repD [OF r] and ce = same_core_eq [OF recv_end_core [of b s i]]
  have "mq_inv i (mq_recv_end i b s, loc(p := Idle))"
  proof (rule mq_inv_move [OF inv, of _ qs "b # fs"])
    show "mq_rep (mqueues (mq_recv_end i b s) i) qs (b # fs) ((\<lambda>p'. own (loc p'))(p := own Idle))"
      using k(1) ce(1) by simp
    show "local_ok (mqueues (mq_recv_end i b s) i) Idle" by simp
    show "msg_size (mqueues (mq_recv_end i b s) i) = msg_size (mqueues s i)"
      using ce(5) by (simp add: mq_give_back_def)
    fix p' c
    assume "p' \<noteq> p" "own (loc p') = Some c"
    then have "c \<noteq> b" using d(10) [OF o, of p'] by auto
    then show "data_of (mqueues (mq_recv_end i b s) i) c = data_of (mqueues s i) c
        \<and> (next_of (mqueues s i) c = None \<longrightarrow> next_of (mqueues (mq_recv_end i b s) i) c = None)"
      using ce(3,4) by (auto simp: mq_give_back_def)
  qed
  moreover have "held (loc(p := Idle)) = held loc" using l by (intro held_same) (simp add: held_def)
  ultimately show ?thesis using k(2) ce(2) by (simp add: mq_sim_def mq_abs_def)
qed

section \<open>Every interleaving\<close>

lemma sim_recv:
  assumes inv: "mq_inv i (s, loc)" and o: "own (loc p) = None"
    and r: "(\<exists>b. r = Has b \<and> mq_entry (mqueues s i) \<noteq> 0 \<and> mq_unlink (mqueues s i) = Some (b, mqueues s' i))
      \<or> (r = Waits \<or> (\<exists>e. r = Done e)) \<and> same_core (mqueues s i) (mqueues s' i)
      \<or> r = Null_Access \<and> mq_entry (mqueues s i) \<noteq> 0 \<and> mq_unlink (mqueues s i) = None"
  shows "mq_sim i (s, loc) (recv_event (data_of (mqueues s i)) p r)
    (s', loc(p := recv_result (data_of (mqueues s i)) n timeout now r))"
  using r sim_unlink [OF inv o] sim_core [OF inv _ o] by auto

lemma sim_send:
  assumes inv: "mq_inv i (s, loc)" and o: "own (loc p) = None"
    and r: "(\<exists>b. r = Has b \<and> mq_claim (mqueues s i) = Some (b, mqueues s' i) \<and> length buf \<le> unat (msg_size (mqueues s i)))
      \<or> (r = Waits \<and> length buf \<le> unat (msg_size (mqueues s i)) \<or> (\<exists>e. r = Done e)) \<and> same_core (mqueues s i) (mqueues s' i)"
  shows "mq_sim i (s, loc) Silent (s', loc(p := send_result buf timeout now r))"
    and "r \<noteq> Waits \<Longrightarrow> mq_sim i (s, loc) Silent (s', loc(p := front_result buf r))"
proof -
  have c: "mq_sim i (s, loc) Silent (s', loc(p := l))"
    if "mq_claim (mqueues s i) = Some (b, mqueues s' i)" "length buf \<le> unat (msg_size (mqueues s i))"
      "l = Filling b buf \<or> l = Fronting b buf" for b l
    by (rule sim_claim [OF inv o that(1)]) (use that(2,3) in \<open>auto simp: held_def\<close>)
  have n: "mq_sim i (s, loc) Silent (s', loc(p := l))"
    if "same_core (mqueues s i) (mqueues s' i)" "own l = None" "local_ok (mqueues s i) l" for l
    using sim_core [OF inv that(1) o that(2,3)] .
  show "mq_sim i (s, loc) Silent (s', loc(p := send_result buf timeout now r))"
    using r c n by auto
  show "mq_sim i (s, loc) Silent (s', loc(p := front_result buf r))" if "r \<noteq> Waits"
    using r c n that by auto
qed

lemma mq_step_sim:
  assumes "mq_step i st e st'" and "mq_inv i st"
  shows "mq_sim i st e st'"
  using assms
proof (induction rule: mq_step.induct)
  case (send loc p buf timeout s r s')
  have o: "own (loc p) = None" using send.hyps(1) by simp
  from send.hyps(2) show ?case
    by (rule send_begin_result) (rule sim_send(1) [OF send.prems o]; simp)+
next
  case (send_again loc p buf timeout t0 s r s')
  have o: "own (loc p) = None" using send_again.hyps(1) by simp
  have "local_ok (mqueues s i) (loc p)" using send_again.prems by (simp add: mq_inv_def)
  then have n: "length buf \<le> unat (msg_size (mqueues s i))" using send_again.hyps(1) by simp
  from send_again.hyps(3) show ?case
    by (rule send_again_result) (rule sim_send(1) [OF send_again.prems o]; simp add: n)+
next
  case (fill loc p b buf s)
  have "local_ok (mqueues s i) (loc p)" using fill.prems by (simp add: mq_inv_def)
  then show ?case using fill.hyps by (intro sim_fill [OF fill.prems]) (auto simp: held_def)
next
  case (link loc p b buf s e s')
  then show ?case by (intro sim_link) auto
next
  case (urgent loc p buf s r s')
  have o: "own (loc p) = None" using urgent.hyps(1) by simp
  from urgent.hyps(2) show ?case
    by (rule urgent_result) (rule sim_send(2) [OF urgent.prems o]; simp)+
next
  case (fill_front loc p b buf s)
  have "local_ok (mqueues s i) (loc p)" using fill_front.prems by (simp add: mq_inv_def)
  then show ?case using fill_front.hyps by (intro sim_fill [OF fill_front.prems]) (auto simp: held_def)
next
  case (link_front loc p b buf s e s')
  then show ?case by (intro sim_link_front) auto
next
  case (recv loc p n timeout s r s')
  have o: "own (loc p) = None" using recv.hyps(1) by simp
  from recv.hyps(2) show ?case
    by (rule recv_begin_result) (rule sim_recv [OF recv.prems o]; simp)+
next
  case (recv_again loc p n timeout t0 s r s')
  have o: "own (loc p) = None" using recv_again.hyps(1) by simp
  from recv_again.hyps(3) show ?case
    by (rule recv_again_result) (rule sim_recv [OF recv_again.prems o]; simp)+
next
  case (copy loc p b n m s)
  have l: "local_ok (mqueues s i) (loc p)" using copy.prems by (simp add: mq_inv_def)
  have "mq_inv i (s, loc(p := Copied b))"
    using copy.hyps by (intro mq_inv_core [OF copy.prems]) auto
  then show ?case
    using copy.hyps l by (auto simp: mq_sim_def mq_abs_def held_upd mq_copy_def) (auto simp: held_def)
next
  case (give_back loc p b s)
  then show ?case by (intro sim_recv_end) auto
next
  case (other s s' loc)
  have "mq_inv i (s', loc(undefined := loc undefined))"
    using other.prems same_core_eq [OF other.hyps]
    by (intro mq_inv_core [OF other.prems other.hyps])
      (auto simp: mq_inv_def intro: local_ok_frame [of "mqueues s i" "loc undefined"])
  then show ?case using same_core_eq(2) [OF other.hyps] by (simp add: mq_sim_def mq_abs_def)
qed

inductive mq_trace where
  t_nil: "mq_trace i st [] st"
| t_step: "mq_trace i st es st1 \<Longrightarrow> mq_step i st1 e st2 \<Longrightarrow> mq_trace i st (es @ [e]) st2"

fun spec_run :: "mq_event list \<Rightarrow> u8 list list \<times> (nat \<Rightarrow> u8 list option) \<Rightarrow> u8 list list \<times> (nat \<Rightarrow> u8 list option) \<Rightarrow> bool" where
  "spec_run [] a a' \<longleftrightarrow> a' = a"
| "spec_run (e # es) a a' \<longleftrightarrow> (\<exists>a1. mq_spec e a a1 \<and> spec_run es a1 a')"

lemma spec_run_snoc: "spec_run (es @ [e]) a a' \<longleftrightarrow> (\<exists>a1. spec_run es a a1 \<and> mq_spec e a1 a')"
proof (induction es arbitrary: a)
  case (Cons d es)
  then show ?case by (simp del: split_paired_Ex) blast
qed (simp del: split_paired_Ex)

lemma mq_trace_sim: "mq_trace i st es st' \<Longrightarrow> mq_inv i st \<Longrightarrow>
    mq_inv i st' \<and> spec_run es (mq_abs i st) (mq_abs i st')"
proof (induction rule: mq_trace.induct)
  case (t_step i st es st1 e st2)
  then show ?case using mq_step_sim [of i st1 e st2] unfolding mq_sim_def spec_run_snoc by blast
qed simp

text \<open>First in, first out, from the abstract runs.\<close>

definition sents :: "mq_event list \<Rightarrow> u8 list list" where
  "sents es = concat (map (\<lambda>e. case e of Sent buf \<Rightarrow> [buf] | _ \<Rightarrow> []) es)"

definition tooks :: "mq_event list \<Rightarrow> u8 list list" where
  "tooks es = concat (map (\<lambda>e. case e of Took p m \<Rightarrow> [m] | _ \<Rightarrow> []) es)"

lemma spec_run_fifo:
  "spec_run es (A, h) (A', h') \<Longrightarrow> (\<forall>buf. Front buf \<notin> set es) \<Longrightarrow>
    \<exists>ms. list_all2 (\<lambda>buf m. take (length buf) m = buf) (sents es) ms \<and> A @ ms = tooks es @ A'"
proof (induction es arbitrary: A h)
  case (Cons e es)
  obtain A1 h1 where s: "mq_spec e (A, h) (A1, h1)" "spec_run es (A1, h1) (A', h')"
    using Cons.prems(1) by auto
  obtain ms where ms: "list_all2 (\<lambda>buf m. take (length buf) m = buf) (sents es) ms" "A1 @ ms = tooks es @ A'"
    using Cons.IH [OF s(2)] Cons.prems(2) by auto
  show ?case
  proof (cases e)
    case (Sent buf)
    then obtain m where "take (length buf) m = buf" "A1 = A @ [m]" using s(1) by auto
    then show ?thesis
      using ms Sent by (intro exI [of _ "m # ms"]) (auto simp: sents_def tooks_def)
  qed (use ms s(1) Cons.prems(2) in \<open>auto simp: sents_def tooks_def\<close>)
qed (simp add: sents_def tooks_def)

section \<open>Detaching and resetting\<close>

lemma msg_resume_error_effect:
  assumes "suspended (threads s p)"
  shows "threads (msg_resume_error p s) q =
      (if q = p then (threads s p)\<lparr>thread_error := RT_ERROR, suspended := False\<rparr> else threads s q)"
    and "mailboxes (msg_resume_error p s) i = mailboxes (msg_tlist_remove p s) i"
    and "mqueues (msg_resume_error p s) i = mqueues (msg_tlist_remove p s) i"
  using assms resume_threads [of "upd_thread p (\<lambda>t. t\<lparr>thread_error := RT_ERROR\<rparr>) s" p q]
  by (simp_all add: msg_resume_error_def msg_resume_def)

lemma same_core_trans: "same_core a b \<Longrightarrow> same_core b c \<Longrightarrow> same_core a c"
  by (cases a; cases b; cases c) (simp add: same_core_def)

lemma same_ring_trans: "same_ring a b \<Longrightarrow> same_ring b c \<Longrightarrow> same_ring a c"
  by (cases a; cases b; cases c) (simp add: same_ring_def)

text \<open>Resuming the threads of two lists, as detaching a mailbox or a message queue does.\<close>

definition waiting :: "'a msg_kern_scheme \<Rightarrow> nat list \<Rightarrow> bool" where
  "waiting s ps \<longleftrightarrow> distinct ps \<and> (\<forall>p \<in> set ps. suspended (threads s p))"

lemma waiting_wake:
  assumes "waiting s (p # ps)"
  shows "waiting (msg_resume_error p s) ps"
  using assms msg_resume_error_effect(1) [of s p] by (auto simp: waiting_def)

lemma foldl_waiting:
  assumes "waiting s ps"
  shows "threads (foldl (\<lambda>s p. msg_resume_error p s) s ps) q = (if q \<in> set ps
      then (threads s q)\<lparr>thread_error := RT_ERROR, suspended := False\<rparr> else threads s q)"
    and "same_core (mqueues s i) (mqueues (foldl (\<lambda>s p. msg_resume_error p s) s ps) i)"
    and "same_ring (mailboxes s i) (mailboxes (foldl (\<lambda>s p. msg_resume_error p s) s ps) i)"
  using assms
proof (induction ps arbitrary: s)
  case (Cons p ps)
  have susp: "waiting s (p # ps) \<Longrightarrow> suspended (threads s p)" for s by (simp add: waiting_def)
  {
    case 1
    note w = waiting_wake [OF 1]
    show ?case
      using Cons.IH(1) [OF w] msg_resume_error_effect(1) [OF susp [OF 1]] 1
      by (auto simp: waiting_def)
  next
    case 2
    note w = waiting_wake [OF 2]
    have "same_core (mqueues s i) (mqueues (msg_resume_error p s) i)"
      using msg_resume_error_effect(3) [OF susp [OF 2]] by simp
    then show ?case using Cons.IH(2) [OF w] by (auto intro: same_core_trans)
  next
    case 3
    note w = waiting_wake [OF 3]
    have "same_ring (mailboxes s i) (mailboxes (msg_resume_error p s) i)"
      using msg_resume_error_effect(2) [OF susp [OF 3]] by (simp add: same_ring_def)
    then show ?case using Cons.IH(3) [OF w] by (auto intro: same_ring_trans)
  }
qed (simp_all add: same_ring_def)

lemma resume_two_lists:
  assumes rem: "\<And>s p. suspended (threads s p) \<Longrightarrow>
      f (msg_resume_error p s) = remove1 p (f s) \<and> g (msg_resume_error p s) = remove1 p (g s)"
    and w: "waiting s (f s @ g s)" and n: "length (f s) \<le> n" "length (g s) \<le> n"
  shows "\<exists>s1. ipc_list_resume_all n f msg_resume_error s = Some s1
    \<and> ipc_list_resume_all n g msg_resume_error s1 =
        Some (foldl (\<lambda>s p. msg_resume_error p s) s (f s @ g s))
    \<and> f (foldl (\<lambda>s p. msg_resume_error p s) s (f s @ g s)) = []
    \<and> g (foldl (\<lambda>s p. msg_resume_error p s) s (f s @ g s)) = []"
proof -
  let ?good = "\<lambda>s. waiting s (f s @ g s)"
  let ?s1 = "foldl (\<lambda>s p. msg_resume_error p s) s (f s)"
  have susp: "suspended (threads s p)" if "waiting s ps" "p \<in> set ps" for s p ps
    using that by (simp add: waiting_def)
  have f: "?good (msg_resume_error p s) \<and> f (msg_resume_error p s) = ps
      \<and> g (msg_resume_error p s) = g s" if g: "?good s" "f s = p # ps" for s p ps
  proof -
    have p: "suspended (threads s p)" "p \<notin> set (g s)" using g by (auto simp: waiting_def)
    then have e: "f (msg_resume_error p s) = ps" "g (msg_resume_error p s) = g s"
      using rem [OF p(1)] g(2) by (simp_all add: remove1_idem)
    then show ?thesis using waiting_wake [of s p "ps @ g s"] g by simp
  qed
  have keep: "?good s \<Longrightarrow> f s = ps \<Longrightarrow> g (foldl (\<lambda>s p. msg_resume_error p s) s ps) = g s" for s ps
  proof (induction ps arbitrary: s)
    case (Cons p ps)
    note h = f [OF Cons.prems]
    then have "waiting (msg_resume_error p s) (f (msg_resume_error p s) @ g (msg_resume_error p s))"
      "f (msg_resume_error p s) = ps" by blast+
    from Cons.IH [OF this] h show ?case by simp
  qed simp
  have 1: "ipc_list_resume_all n f msg_resume_error s = Some ?s1 \<and> ?good ?s1 \<and> f ?s1 = []"
    using list_resume_all_ends [of f s "f s" n ?good msg_resume_error] w n(1) f by blast
  have gs: "g ?s1 = g s" using keep [OF w] by simp
  have g: "(?good (msg_resume_error p s) \<and> f (msg_resume_error p s) = []) \<and> g (msg_resume_error p s) = ps"
    if g: "?good s \<and> f s = []" "g s = p # ps" for s p ps
  proof -
    have p: "suspended (threads s p)" using g by (auto simp: waiting_def)
    have e: "f (msg_resume_error p s) = []" "g (msg_resume_error p s) = ps"
      using rem [OF p] g by simp_all
    have "waiting s (p # ps)" using g by (metis append_Nil)
    then show ?thesis using waiting_wake [of s p ps] e by simp
  qed
  have "ipc_list_resume_all n g msg_resume_error ?s1 = Some (foldl (\<lambda>s p. msg_resume_error p s) ?s1 (g s))
    \<and> (?good (foldl (\<lambda>s p. msg_resume_error p s) ?s1 (g s)) \<and> f (foldl (\<lambda>s p. msg_resume_error p s) ?s1 (g s)) = [])
    \<and> g (foldl (\<lambda>s p. msg_resume_error p s) ?s1 (g s)) = []"
    by (rule list_resume_all_ends [where good = "\<lambda>s. ?good s \<and> f s = []"]) (use 1 gs n(2) g in auto)
  then show ?thesis using 1 by simp
qed

lemma flush_ends:
  assumes "chain (next_of q) (queue_head q) qs" and "chain (next_of q) (queue_free q) fs"
    and "distinct (qs @ fs)" and "queue_tail q = (if qs = [] then None else Some (last qs))"
    and "length qs \<le> n"
  shows "\<exists>nx fr. mq_flush n q = Some (q\<lparr>next_of := nx, queue_head := None, queue_tail := None, queue_free := fr\<rparr>)
    \<and> chain nx fr (rev qs @ fs) \<and> (\<forall>b. b \<notin> set qs \<longrightarrow> nx b = next_of q b)"
  using assms
proof (induction qs arbitrary: q fs n)
  case Nil
  then have "mq_flush n q = Some (q\<lparr>next_of := next_of q, queue_head := None, queue_tail := None, queue_free := queue_free q\<rparr>)"
    by (subst mq_flush.simps) simp
  then show ?case using Nil.prems(2) by (intro exI [of _ "next_of q"] exI [of _ "queue_free q"]) simp
next
  case (Cons b qs)
  obtain m where n: "n = Suc m" "length qs \<le> m" using Cons.prems(5) by (cases n) auto
  define q1 where "q1 = mq_give_back b (q\<lparr>queue_head := next_of q b,
      queue_tail := (if queue_tail q = Some b then None else queue_tail q)\<rparr>)"
  have h: "queue_head q = Some b" "chain (next_of q) (next_of q b) qs" using Cons.prems(1) by auto
  have f: "mq_flush n q = mq_flush m q1" using h(1) by (subst mq_flush.simps) (simp add: n q1_def)
  have b: "b \<notin> set qs" "b \<notin> set fs" using Cons.prems(3) by auto
  have l: "qs \<noteq> [] \<Longrightarrow> last qs \<noteq> b" using b(1) last_in_set [of qs] by blast
  have t: "queue_tail q1 = (if qs = [] then None else Some (last qs))"
    using Cons.prems(4) b(1) l by (auto simp: q1_def mq_give_back_def)
  have "chain (next_of q1) (queue_head q1) qs" "chain (next_of q1) (queue_free q1) (b # fs)"
    "distinct (qs @ b # fs)"
    using h(2) Cons.prems(2,3) b by (simp_all add: q1_def mq_give_back_def chain_frame)
  from Cons.IH [OF this t n(2)] obtain nx fr where
    "mq_flush m q1 = Some (q1\<lparr>next_of := nx, queue_head := None, queue_tail := None, queue_free := fr\<rparr>)"
    "chain nx fr (rev qs @ b # fs)" "\<forall>c. c \<notin> set qs \<longrightarrow> nx c = next_of q1 c" by auto
  then show ?case unfolding f by (intro exI [of _ nx] exI [of _ fr]) (auto simp: q1_def mq_give_back_def)
qed

text \<open>The waiting threads of a message queue are suspended, each on one list and once.\<close>

definition mq_waiters :: "'a msg_kern_scheme \<Rightarrow> nat \<Rightarrow> nat list" where
  "mq_waiters s i = mq_suspend (mqueues s i) @ mq_senders (mqueues s i)"

definition mb_waiters :: "'a msg_kern_scheme \<Rightarrow> nat \<Rightarrow> nat list" where
  "mb_waiters s i = mb_suspend (mailboxes s i) @ mb_senders (mailboxes s i)"

lemma mq_detach_ends:
  assumes w: "waiting s (mq_waiters s i)" and n: "length (mq_waiters s i) \<le> n"
  obtains s' where "rt_mq_detach n i s = Some s'" and "mq_waiters s' i = []"
    and "same_core (mqueues s i) (mqueues s' i)"
    and "\<And>q. threads s' q = (if q \<in> set (mq_waiters s i)
      then (threads s q)\<lparr>thread_error := RT_ERROR, suspended := False\<rparr> else threads s q)"
proof -
  let ?f = "\<lambda>s :: 'a msg_kern_scheme. mq_suspend (mqueues s i)" and ?g = "\<lambda>s :: 'a msg_kern_scheme. mq_senders (mqueues s i)"
  let ?s = "foldl (\<lambda>s p. msg_resume_error p s) s (mq_waiters s i)"
  have "\<exists>s1. ipc_list_resume_all n ?f msg_resume_error s = Some s1
    \<and> ipc_list_resume_all n ?g msg_resume_error s1 = Some (foldl (\<lambda>s p. msg_resume_error p s) s (?f s @ ?g s))
    \<and> ?f (foldl (\<lambda>s p. msg_resume_error p s) s (?f s @ ?g s)) = []
    \<and> ?g (foldl (\<lambda>s p. msg_resume_error p s) s (?f s @ ?g s)) = []"
    by (rule resume_two_lists) (use w n in \<open>auto simp: mq_waiters_def msg_resume_error_effect(3)\<close>)
  then have "rt_mq_detach n i s = Some ?s" "mq_waiters ?s i = []"
    by (auto simp: rt_mq_detach_def mq_waiters_def)
  then show ?thesis using that foldl_waiting [OF w] by blast
qed

lemma mb_detach_ends:
  assumes w: "waiting s (mb_waiters s i)" and n: "length (mb_waiters s i) \<le> n"
  obtains s' where "rt_mb_detach n i s = Some s'" and "mb_waiters s' i = []"
    and "same_ring (mailboxes s i) (mailboxes s' i)"
    and "\<And>q. threads s' q = (if q \<in> set (mb_waiters s i)
      then (threads s q)\<lparr>thread_error := RT_ERROR, suspended := False\<rparr> else threads s q)"
proof -
  let ?f = "\<lambda>s :: 'a msg_kern_scheme. mb_suspend (mailboxes s i)" and ?g = "\<lambda>s :: 'a msg_kern_scheme. mb_senders (mailboxes s i)"
  let ?s = "foldl (\<lambda>s p. msg_resume_error p s) s (mb_waiters s i)"
  have "\<exists>s1. ipc_list_resume_all n ?f msg_resume_error s = Some s1
    \<and> ipc_list_resume_all n ?g msg_resume_error s1 = Some (foldl (\<lambda>s p. msg_resume_error p s) s (?f s @ ?g s))
    \<and> ?f (foldl (\<lambda>s p. msg_resume_error p s) s (?f s @ ?g s)) = []
    \<and> ?g (foldl (\<lambda>s p. msg_resume_error p s) s (?f s @ ?g s)) = []"
    by (rule resume_two_lists) (use w n in \<open>auto simp: mb_waiters_def msg_resume_error_effect(2)\<close>)
  then have "rt_mb_detach n i s = Some ?s" "mb_waiters ?s i = []"
    by (auto simp: rt_mb_detach_def mb_waiters_def)
  then show ?thesis using that foldl_waiting [OF w] by blast
qed

section \<open>Properties\<close>

lemma mq_init_inv:
  assumes "\<And>b. length (pool b) = unat (ucast ((sz + 3) AND NOT 3 :: u32) :: u16)"
  shows "mq_inv i (rt_mq_init i pool sz n fl s, \<lambda>_. Idle)"
    and "mq_abs i (rt_mq_init i pool sz n fl s, \<lambda>_. Idle) = ([], \<lambda>_. None)"
proof -
  note r = mq_init_rep [of pool sz i n fl s, OF assms]
  show "mq_inv i (rt_mq_init i pool sz n fl s, \<lambda>_. Idle)" using r(1) by (auto simp: mq_inv_def)
  show "mq_abs i (rt_mq_init i pool sz n fl s, \<lambda>_. Idle) = ([], \<lambda>_. None)"
    using r(2) by (auto simp: mq_abs_def held_def)
qed

lemma spec_run_no_crash: "spec_run es a a' \<Longrightarrow> Crash \<notin> set es"
  by (induction es arbitrary: a) (auto simp del: split_paired_Ex)

text \<open>C11: 
  a message queue, fresh from \<open>rt_mq_init\<close> and used by any number of threads whose calls
  interleave at every place where the code lets them, behaves like one list: a message enters it at
  its end, or at its front if urgent, with the bytes that were sent; it leaves it from the front, to
  one receiver; and the bytes that this receiver copies later are those of the message it took. No
  call follows a null pointer or fails on a full count. Every block of the pool is in the queue,
  free, or in the hands of one call, so that none is ever lost.
\<close>

theorem mq_interleaving_refines:
  assumes "\<And>b. length (pool b) = unat (ucast ((sz + 3) AND NOT 3 :: u32) :: u16)"
    and "mq_trace i (rt_mq_init i pool sz n fl s0, \<lambda>_. Idle) es (s, loc)"
  shows "spec_run es ([], \<lambda>_. None) (mq_items (mqueues s i), held loc) \<and> Crash \<notin> set es
    \<and> (\<exists>fs. mq_rep (mqueues s i) (follow (next_of (mqueues s i)) (queue_head (mqueues s i)) (unat (mq_entry (mqueues s i))))
        fs (\<lambda>p. own (loc p)))
    \<and> ((\<forall>p. own (loc p) = None) \<longrightarrow> (\<exists>fs. chain (next_of (mqueues s i)) (queue_free (mqueues s i)) fs
        \<and> length fs + length (mq_items (mqueues s i)) = unat (max_msgs (mqueues s i))))"
proof -
  note in0 = mq_init_inv [OF assms(1), where i = i and n = n and fl = fl and s = s0]
  from mq_trace_sim [OF assms(2) in0(1)] have inv: "mq_inv i (s, loc)"
    and run: "spec_run es ([], \<lambda>_. None) (mq_items (mqueues s i), held loc)"
    by (simp_all add: in0(2)) (simp add: mq_abs_def)
  obtain qs fs where r: "mq_rep (mqueues s i) qs fs (\<lambda>p. own (loc p))" using inv by (auto simp: mq_inv_def)
  note d = mq_repD [OF r]
  have q: "follow (next_of (mqueues s i)) (queue_head (mqueues s i)) (unat (mq_entry (mqueues s i))) = qs"
    using chain_follow [OF d(1)] d(4) by simp
  have "length fs + length (mq_items (mqueues s i)) = unat (max_msgs (mqueues s i))"
    if idle: "\<forall>p. own (loc p) = None"
  proof -
    have "ran (\<lambda>p. own (loc p)) = {}" using idle by (auto simp: ran_def)
    then have "set (qs @ fs) = {..<unat (max_msgs (mqueues s i))}" using d(8) by auto
    moreover have "distinct (qs @ fs)" using d(5-7) by simp
    ultimately have "length (qs @ fs) = unat (max_msgs (mqueues s i))"
      by (metis card_lessThan distinct_card)
    then show ?thesis using d(12) by simp
  qed
  then show ?thesis using run spec_run_no_crash [OF run] r q d(2) by auto
qed

text \<open>For the examples: one queue of two messages of four bytes.\<close>

definition demo_mq :: msg_kern where
  "demo_mq = rt_mq_init 3 (\<lambda>_. [0, 0, 0, 0]) 4 16 RT_IPC_FLAG_FIFO msg_demo"

text \<open>A sender and a receiver, one after the other.\<close>

lemma demo_mq_trace:
  "\<exists>s loc. mq_trace 3 (demo_mq, \<lambda>_. Idle)
    [Silent, Silent, Sent [1, 2], Took 2 [1, 2, 0, 0], Got_Bytes 2 [1, 2, 0], Silent] (s, loc)
    \<and> (\<forall>p. own (loc p) = None)"
proof -
  let ?q = "\<lparr>msg_size = 4, max_msgs = 2, next_of = (\<lambda>_. None)(0 := None, 1 := Some 0),
      data_of = (\<lambda>_. [0, 0, 0, 0]), mq_entry = 0, queue_head = None, queue_tail = None,
      queue_free = Some 1, mq_flag = RT_IPC_FLAG_FIFO, mq_suspend = [], mq_senders = []\<rparr> :: mqueue"
  have q: "mqueues demo_mq 3 = ?q"
    by (simp add: demo_mq_def rt_mq_init_def mq_link_pool_def Let_def upt_rec)
  define s1 where "s1 = upd_mq 3 (\<lambda>_. ?q\<lparr>queue_free := Some 0\<rparr>) demo_mq"
  define s2 where "s2 = upd_mq 3 (mq_fill_last 1 [1, 2]) s1"
  define s3 where "s3 = snd (mq_finish 3 (mq_link 1) s2)"
  define s4 where "s4 = snd (mq_recv_begin 2 3 3 0 s3)"
  let ?l = "\<lambda>_ :: nat. Idle" let ?l1 = "?l(1 := Filling 1 [1, 2])" let ?l2 = "?l1(1 := Filled 1 [1, 2])"
  let ?l3 = "?l2(1 := Idle)" let ?l4 = "?l3(2 := Copying 1 3 [1, 2, 0, 0])"
  have b: "mq_send_begin 1 3 (length [1, 2 :: u8]) 0 demo_mq = (Has 1, s1)"
    by (simp add: mq_send_begin_def mq_send_loop_def mq_claim_def q s1_def)
  have q2: "mqueues s2 3 = ?q\<lparr>queue_free := Some 0, next_of := (next_of ?q)(1 := None),
      data_of := (data_of ?q)(1 := [1, 2, 0, 0])\<rparr>"
    by (simp add: s2_def s1_def mq_fill_last_def mq_fill_def)
  have f: "mq_finish 3 (mq_link 1) s2 = (RT_EOK, s3)" and q3: "mqueues s3 3 = (mqueues s2 3)\<lparr>queue_tail := Some 1,
      queue_head := Some 1, mq_entry := 1\<rparr>"
    by (simp_all add: s3_def mq_finish_def mq_link_def mq_count_def q2 Let_def RT_MQ_ENTRY_MAX_def wake_first_def
        word_less_nat_alt)
  have r: "mq_recv_begin 2 3 3 0 s3 = (Has 1, s4)" and q4: "data_of (mqueues s4 3) 1 = [1, 2, 0, 0]"
    "msg_size (mqueues s4 3) = 4"
    by (simp_all add: s4_def mq_recv_begin_def mq_recv_loop_def mq_unlink_def q3 q2)
  have t1: "mq_step 3 (demo_mq, ?l) Silent (s1, ?l1)"
    using mq_step.send [of ?l 1 3 "[1, 2]" 0 demo_mq "Has 1" s1] b by simp
  have t2: "mq_step 3 (s1, ?l1) Silent (s2, ?l2)"
    unfolding s2_def by (rule mq_step.fill) simp
  have t3: "mq_step 3 (s2, ?l2) (Sent [1, 2]) (s3, ?l3)"
    using mq_step.link [of ?l2 1 1 "[1, 2]" 3 s2 RT_EOK s3] f by simp
  have t4: "mq_step 3 (s3, ?l3) (Took 2 [1, 2, 0, 0]) (s4, ?l4)"
    using mq_step.recv [of ?l3 2 3 3 0 s3 "Has 1" s4] r by (simp add: q3 q2)
  have t5: "mq_step 3 (s4, ?l4) (Got_Bytes 2 [1, 2, 0]) (s4, ?l4(2 := Copied 1))"
    using mq_step.copy [of ?l4 2 1 3 "[1, 2, 0, 0]" 3 s4] q4 by (simp add: mq_copy_def)
  have t6: "mq_step 3 (s4, ?l4(2 := Copied 1)) Silent (mq_recv_end 3 1 s4, ?l4(2 := Copied 1, 2 := Idle))"
    by (rule mq_step.give_back) simp
  have "mq_trace 3 (demo_mq, ?l) ([] @ [Silent] @ [Silent] @ [Sent [1, 2]] @ [Took 2 [1, 2, 0, 0]]
      @ [Got_Bytes 2 [1, 2, 0]] @ [Silent]) (mq_recv_end 3 1 s4, ?l4(2 := Copied 1, 2 := Idle))"
    unfolding append_assoc [symmetric]
    by (intro mq_trace.t_step [OF _ t6] mq_trace.t_step [OF _ t5] mq_trace.t_step [OF _ t4]
        mq_trace.t_step [OF _ t3] mq_trace.t_step [OF _ t2] mq_trace.t_step [OF _ t1] mq_trace.t_nil)
  then show ?thesis
    by (intro exI [of _ "mq_recv_end 3 1 s4"] exI [of _ "?l4(2 := Copied 1, 2 := Idle)"]) simp
qed

theorem mq_interleaving_refines_witness:
  "\<exists>s :: msg_kern. spec_run [Silent, Silent, Sent [1, 2], Took 2 [1, 2, 0, 0], Got_Bytes 2 [1, 2, 0], Silent]
      ([], \<lambda>_. None) (mq_items (mqueues s 3), \<lambda>_. None)
    \<and> (\<exists>fs. chain (next_of (mqueues s 3)) (queue_free (mqueues s 3)) fs
        \<and> length fs + length (mq_items (mqueues s 3)) = unat (max_msgs (mqueues s 3)))"
proof -
  let ?es = "[Silent, Silent, Sent [1, 2], Took 2 [1, 2, 0, 0], Got_Bytes 2 [1, 2, 0], Silent]"
  obtain s loc where t: "mq_trace 3 (demo_mq, \<lambda>_. Idle) ?es (s, loc)" and idle: "\<forall>p. own (loc p) = None"
    using demo_mq_trace by auto
  have "mq_trace 3 (rt_mq_init 3 (\<lambda>_. [0, 0, 0, 0]) 4 16 RT_IPC_FLAG_FIFO msg_demo, \<lambda>_. Idle) ?es (s, loc)"
    using t by (simp add: demo_mq_def)
  from mq_interleaving_refines [where pool = "\<lambda>_. [0, 0, 0, 0]", OF _ this]
  have r: "spec_run ?es ([], \<lambda>_. None) (mq_items (mqueues s 3), held loc)
    \<and> ((\<forall>p. own (loc p) = None) \<longrightarrow> (\<exists>fs. chain (next_of (mqueues s 3)) (queue_free (mqueues s 3)) fs
        \<and> length fs + length (mq_items (mqueues s 3)) = unat (max_msgs (mqueues s 3))))"
    by (simp del: spec_run.simps)
  have "held loc = (\<lambda>_. None)"
  proof
    fix p show "held loc p = None" using idle [rule_format, of p] by (cases "loc p") (simp_all add: held_def)
  qed
  then show ?thesis using r idle by auto
qed

text \<open>C23: 
  without urgent messages a message queue is first in, first out under every interleaving:
  the messages that were taken, in that order, followed by those still in the queue, are the
  messages that were sent, in the order in which they were linked, each beginning with the bytes
  that were sent. None is lost, doubled or overtaken.
\<close>

theorem mq_first_in_first_out:
  assumes "\<And>b. length (pool b) = unat (ucast ((sz + 3) AND NOT 3 :: u32) :: u16)"
    and "mq_trace i (rt_mq_init i pool sz n fl s0, \<lambda>_. Idle) es (s, loc)"
    and "\<forall>buf. Front buf \<notin> set es"
  shows "list_all2 (\<lambda>buf m. take (length buf) m = buf) (sents es) (tooks es @ mq_items (mqueues s i))"
proof -
  note in0 = mq_init_inv [OF assms(1), where i = i and n = n and fl = fl and s = s0]
  have "spec_run es ([], \<lambda>_. None) (mq_items (mqueues s i), held loc)"
    using mq_trace_sim [OF assms(2) in0(1)] in0(2) by (simp add: mq_abs_def)
  from spec_run_fifo [OF this assms(3)] show ?thesis by auto
qed

theorem mq_first_in_first_out_witness:
  "\<exists>s :: msg_kern. list_all2 (\<lambda>buf m. take (length buf) m = buf) [[1, 2]] ([[1, 2, 0, 0]] @ mq_items (mqueues s 3))"
proof -
  let ?es = "[Silent, Silent, Sent [1, 2], Took 2 [1, 2, 0, 0], Got_Bytes 2 [1, 2, 0], Silent]"
  obtain s loc where "mq_trace 3 (demo_mq, \<lambda>_. Idle) ?es (s, loc)" using demo_mq_trace by auto
  then have "mq_trace 3 (rt_mq_init 3 (\<lambda>_. [0, 0, 0, 0]) 4 16 RT_IPC_FLAG_FIFO msg_demo, \<lambda>_. Idle) ?es (s, loc)"
    by (simp add: demo_mq_def)
  from mq_first_in_first_out [OF _ this]
  have "list_all2 (\<lambda>buf m. take (length buf) m = buf) (sents ?es) (tooks ?es @ mq_items (mqueues s 3))" by simp
  then show ?thesis by (auto simp: sents_def tooks_def)
qed

text \<open>A call that runs without interruption keeps the invariant. With it: a full queue, two
  messages in the two blocks, and thread 2 waiting for up to 100 ticks to send a third.\<close>

lemma rt_mq_send_inv:
  assumes inv: "mq_inv i (s, loc)" and l: "loc p = Idle" and r: "rt_mq_send p i buf s = (RT_EOK, s')"
    and b: "mq_send_begin p i (length buf) 0 s = (Has b, s1)"
  shows "mq_inv i (s', loc)"
proof -
  let ?l1 = "loc(p := Filling b buf)" and ?s2 = "upd_mq i (mq_fill_last b buf) s1"
  let ?l2 = "?l1(p := Filled b buf)"
  have "mq_step i (s, loc) Silent (s1, ?l1)" using mq_step.send [of loc p i buf 0 s "Has b" s1] l b by simp
  from mq_step_sim [OF this inv] have 1: "mq_inv i (s1, ?l1)" by (simp add: mq_sim_def)
  have "mq_step i (s1, ?l1) Silent (?s2, ?l2)" by (rule mq_step.fill) simp
  from mq_step_sim [OF this 1] have 2: "mq_inv i (?s2, ?l2)" by (simp add: mq_sim_def)
  have "mq_finish i (mq_link b) ?s2 = (RT_EOK, s')" using r by (simp add: rt_mq_send_def b)
  from mq_step.link [OF _ this, of ?l2 p buf] have "mq_step i (?s2, ?l2) (Sent buf) (s', ?l2(p := Idle))" by simp
  from mq_step_sim [OF this 2] have "mq_inv i (s', ?l2(p := Idle))" by (simp add: mq_sim_def)
  moreover have "?l2(p := Idle) = loc" using l by auto
  ultimately show ?thesis by simp
qed

definition full_mq :: msg_kern where
  "full_mq = snd (mq_send_begin 2 3 1 100 (snd (rt_mq_send 1 3 [3] (snd (rt_mq_send 1 3 [1, 2] demo_mq)))))"

lemma full_mq_built:
  shows "\<exists>s1. mq_send_begin 1 3 2 0 demo_mq = (Has 1, s1)"
    and "fst (rt_mq_send 1 3 [1, 2] demo_mq) = RT_EOK"
    and "\<exists>s1. mq_send_begin 1 3 1 0 (snd (rt_mq_send 1 3 [1, 2] demo_mq)) = (Has 0, s1)"
    and "fst (rt_mq_send 1 3 [3] (snd (rt_mq_send 1 3 [1, 2] demo_mq))) = RT_EOK"
    and "fst (mq_send_begin 2 3 1 100 (snd (rt_mq_send 1 3 [3] (snd (rt_mq_send 1 3 [1, 2] demo_mq))))) = Waits"
    and "mq_items (mqueues full_mq 3) = [[1, 2, 0, 0], [3, 0, 0, 0]]"
    and "mq_waiters full_mq 3 = [2]" and "suspended (threads full_mq 2)"
    and "mq_entry (mqueues full_mq 3) = 2"
proof -
  have q: "mqueues demo_mq 3 = \<lparr>msg_size = 4, max_msgs = 2, next_of = (\<lambda>_. None)(0 := None, 1 := Some 0),
      data_of = (\<lambda>_. [0, 0, 0, 0]), mq_entry = 0, queue_head = None, queue_tail = None,
      queue_free = Some 1, mq_flag = RT_IPC_FLAG_FIFO, mq_suspend = [], mq_senders = []\<rparr>"
    by (simp add: demo_mq_def rt_mq_init_def mq_link_pool_def Let_def upt_rec)
  note ev = mq_send_begin_def mq_send_loop_def mq_claim_def rt_mq_send_def mq_fill_last_def mq_fill_def
    mq_finish_def mq_link_def mq_count_def wake_first_def RT_MQ_ENTRY_MAX_def
  show 1: "\<exists>s1. mq_send_begin 1 3 2 0 demo_mq = (Has 1, s1)"
    and 2: "fst (rt_mq_send 1 3 [1, 2] demo_mq) = RT_EOK"
    by (simp_all add: ev q Let_def)
  define s1 where "s1 = snd (rt_mq_send 1 3 [1, 2] demo_mq)"
  have q1: "mqueues s1 3 = (mqueues demo_mq 3)\<lparr>queue_free := Some 0, next_of := (\<lambda>_. None),
      data_of := (\<lambda>_. [0, 0, 0, 0])(1 := [1, 2, 0, 0]), queue_tail := Some 1, queue_head := Some 1, mq_entry := 1\<rparr>"
    and p1: "\<And>p. threads s1 p = threads demo_mq p"
    by (simp_all add: s1_def ev q Let_def fun_eq_iff)
  show 3: "\<exists>s1. mq_send_begin 1 3 1 0 (snd (rt_mq_send 1 3 [1, 2] demo_mq)) = (Has 0, s1)"
    and 4: "fst (rt_mq_send 1 3 [3] (snd (rt_mq_send 1 3 [1, 2] demo_mq))) = RT_EOK"
    unfolding s1_def [symmetric] by (simp_all add: ev q q1 Let_def word_less_nat_alt)
  define s2 where "s2 = snd (rt_mq_send 1 3 [3] s1)"
  have q2: "mqueues s2 3 = (mqueues s1 3)\<lparr>queue_free := None, next_of := (\<lambda>_. None)(1 := Some 0),
      data_of := (\<lambda>_. [0, 0, 0, 0])(1 := [1, 2, 0, 0], 0 := [3, 0, 0, 0]), queue_tail := Some 0, mq_entry := 2\<rparr>"
    by (simp add: s2_def ev q q1 Let_def fun_eq_iff)
  have f: "full_mq = snd (mq_send_begin 2 3 1 100 s2)" by (simp add: full_mq_def s2_def s1_def)
  show 5: "fst (mq_send_begin 2 3 1 100 (snd (rt_mq_send 1 3 [3] (snd (rt_mq_send 1 3 [1, 2] demo_mq))))) = Waits"
    unfolding s1_def [symmetric] s2_def [symmetric] by (simp add: ev q q1 q2 Let_def)
  have fw: "follow [Suc 0 \<mapsto> 0] (Some (Suc 0)) 2 = [1, 0]" by (simp add: numeral_2_eq_2)
  show "mq_items (mqueues full_mq 3) = [[1, 2, 0, 0], [3, 0, 0, 0]]" "mq_waiters full_mq 3 = [2]"
    "suspended (threads full_mq 2)" "mq_entry (mqueues full_mq 3) = 2"
    unfolding f
    by (simp_all add: ev q q1 q2 Let_def mq_items_def mq_waiters_def msg_wait_def suspend_order_def fw)
qed

lemma full_mq_inv: "\<exists>loc. mq_inv 3 (full_mq, loc)"
proof -
  let ?s1 = "snd (rt_mq_send 1 3 [1, 2] demo_mq)" let ?s2 = "snd (rt_mq_send 1 3 [3] ?s1)"
  have 0: "mq_inv 3 (demo_mq, \<lambda>_. Idle)" unfolding demo_mq_def by (rule mq_init_inv) simp
  obtain x y where b: "mq_send_begin 1 3 (length [1, 2 :: u8]) 0 demo_mq = (Has 1, x)"
    "mq_send_begin 1 3 (length [3 :: u8]) 0 ?s1 = (Has 0, y)" using full_mq_built(1,3) by (auto simp: numeral_2_eq_2)
  have 1: "mq_inv 3 (?s1, \<lambda>_. Idle)"
    by (rule rt_mq_send_inv [OF 0 _ _ b(1)]) (use full_mq_built(2) in \<open>simp_all add: prod_eq_iff\<close>)
  have 2: "mq_inv 3 (?s2, \<lambda>_. Idle)"
    by (rule rt_mq_send_inv [OF 1 _ _ b(2)]) (use full_mq_built(4) in \<open>simp_all add: prod_eq_iff\<close>)
  have "mq_send_begin 2 3 (length [5 :: u8]) 100 ?s2 = (Waits, full_mq)"
    using full_mq_built(5) by (simp add: prod_eq_iff full_mq_def)
  from mq_step.send [OF _ this, of "\<lambda>_. Idle"]
  have "mq_step 3 (?s2, \<lambda>_. Idle) Silent (full_mq, (\<lambda>_. Idle)(2 := Sending [5] 100 (rt_tick_get ?s2)))" by simp
  from mq_step_sim [OF this 2] show ?thesis unfolding mq_sim_def by blast
qed

text \<open>C34: 
  resetting a message queue ends, after one turn for each waiting thread and each message, even
  in the middle of the calls of other threads: the queue is then empty, every thread that waited for
  it runs again and gets \<open>-RT_ERROR\<close>, and the blocks of the messages are free again while those in
  the hands of calls stay there.
\<close>

theorem mq_reset_ends:
  assumes inv: "mq_inv i (s, loc)" and w: "waiting s (mq_waiters s i)"
    and n: "length (mq_waiters s i) \<le> n" "unat (mq_entry (mqueues s i)) \<le> n"
  shows "\<exists>s'. rt_mq_control n i RT_IPC_CMD_RESET s = Some (RT_EOK, s') \<and> mq_inv i (s', loc)
    \<and> mq_items (mqueues s' i) = [] \<and> mq_waiters s' i = []
    \<and> (\<forall>p \<in> set (mq_waiters s i). \<not> suspended (threads s' p) \<and> take_resumed p s' = RT_ERROR)"
proof -
  obtain s1 where s1: "rt_mq_detach n i s = Some s1" "mq_waiters s1 i = []" "same_core (mqueues s i) (mqueues s1 i)"
    and t1: "\<And>q. threads s1 q = (if q \<in> set (mq_waiters s i)
      then (threads s q)\<lparr>thread_error := RT_ERROR, suspended := False\<rparr> else threads s q)"
    using mq_detach_ends [OF w n(1)] by metis
  let ?q = "mqueues s1 i" and ?own = "\<lambda>p. own (loc p)"
  note ce = same_core_eq [OF s1(3)]
  obtain qs fs where r: "mq_rep ?q qs fs ?own" using inv ce(1) by (auto simp: mq_inv_def)
  note d = mq_repD [OF r]
  have dd: "distinct (qs @ fs)" using d(5-7) by simp
  have "length qs \<le> n" using n(2) d(4) ce(7) by simp
  from flush_ends [OF d(1,2) dd d(3) this] obtain nx fr where
    f: "mq_flush n ?q = Some (?q\<lparr>next_of := nx, queue_head := None, queue_tail := None, queue_free := fr\<rparr>)"
    "chain nx fr (rev qs @ fs)" "\<forall>b. b \<notin> set qs \<longrightarrow> nx b = next_of ?q b" by blast
  define q' where "q' = ?q\<lparr>next_of := nx, queue_head := None, queue_tail := None, queue_free := fr, mq_entry := 0\<rparr>"
  define s' where "s' = upd_mq i (\<lambda>_. q') s1"
  have c: "rt_mq_control n i RT_IPC_CMD_RESET s = Some (RT_EOK, s')"
    by (simp add: rt_mq_control_def s1(1) f(1) s'_def q'_def)
  have rep: "mq_rep q' [] (rev qs @ fs) ?own"
    by (rule mq_repI) (use f(2) d(5-8,10,11,13) in \<open>auto simp: q'_def\<close>)
  have "local_ok q' (loc p)" for p
  proof (rule local_ok_frame)
    show "local_ok (mqueues s i) (loc p)" using inv by (simp add: mq_inv_def)
    show "msg_size q' = msg_size (mqueues s i)" using ce(5) by (simp add: q'_def)
    fix b assume o: "own (loc p) = Some b"
    then have "nx b = next_of ?q b" using f(3) d(9) [of p b] by simp
    then show "data_of q' b = data_of (mqueues s i) b \<and> (next_of (mqueues s i) b = None \<longrightarrow> next_of q' b = None)"
      using ce(3,4) by (simp add: q'_def)
  qed
  then have "mq_inv i (s', loc)" using rep by (auto simp: mq_inv_def s'_def)
  moreover have "mq_items (mqueues s' i) = []" by (simp add: s'_def q'_def mq_items_def)
  moreover have "mq_waiters s' i = []" using s1(2) by (simp add: s'_def q'_def mq_waiters_def)
  moreover have "\<forall>p \<in> set (mq_waiters s i). \<not> suspended (threads s' p) \<and> take_resumed p s' = RT_ERROR"
    by (simp add: s'_def t1 take_resumed_def)
  ultimately show ?thesis using c by blast
qed

theorem mq_reset_ends_witness:
  "length (mq_items (mqueues full_mq 3)) = 2 \<and> mq_waiters full_mq 3 = [2] \<and> suspended (threads full_mq 2)
    \<and> (\<exists>s'. rt_mq_control 2 3 RT_IPC_CMD_RESET full_mq = Some (RT_EOK, s') \<and> mq_items (mqueues s' 3) = []
        \<and> mq_waiters s' 3 = [] \<and> \<not> suspended (threads s' 2) \<and> take_resumed 2 s' = RT_ERROR)"
proof -
  have "waiting full_mq (mq_waiters full_mq 3)" by (simp add: waiting_def full_mq_built(6-9))
  moreover obtain loc where "mq_inv 3 (full_mq, loc)" using full_mq_inv by blast
  ultimately show ?thesis using mq_reset_ends [of 3 full_mq loc 2] full_mq_built(6-9) by auto
qed

end
