(* ===== verification/Scheduler.thy ===== *)
theory Scheduler
  imports Ipc
begin

text \<open>
  The scheduler: \<open>rt-thread/src/scheduler.c\<close> for one processor with 32 priorities, the thread
  states of \<open>thread.c\<close>, and the time slices of \<open>clock.c\<close>.

  \<^item> The theory has a thread control block of its own, with what scheduling depends on. The lists
    of waiting threads, the thread timers and the error codes are those of \<open>Ipc\<close>, which leaves
    open who runs.
  \<^item> \<open>stat\<close> is the state proper (\<open>RT_THREAD_STAT_MASK\<close>) and \<open>yielded\<close> the flag
    \<open>RT_THREAD_STAT_YIELD\<close> of \<open>thread->stat\<close>.
  \<^item> An access outside the table of priorities, or through a null pointer, sets \<open>sched_fault\<close>; a
    failed assertion sets \<open>sched_halted\<close>. \<open>rt_scheduler_lock_nest\<close> is a signed 16-bit integer. The check of the stack and the hooks are not modelled.
\<close>

section \<open>Find first set\<close>

text \<open>\<open>__builtin_ffs\<close>, which \<open>cpuport.c\<close> uses with the compiler of this project.\<close>

definition rt_ffs :: "u32 \<Rightarrow> nat" where
  "rt_ffs v = (case find (bit v) [0..<32] of None \<Rightarrow> 0 | Some i \<Rightarrow> i + 1)"

text \<open>The instructions the other compilers get: \<open>RBIT\<close>, \<open>CLZ\<close> and an addition.\<close>

definition RBIT :: "u32 \<Rightarrow> bool list" where
  "RBIT v = map (bit v) [0..<32]"

definition CLZ :: "bool list \<Rightarrow> nat" where
  "CLZ bs = length (takeWhile Not bs)"

definition rt_ffs_rbit :: "u32 \<Rightarrow> nat" where
  "rt_ffs_rbit v = (if v = 0 then 0 else CLZ (RBIT v) + 1)"

text \<open>The table of \<open>kservice.c\<close> for processors without such an instruction.\<close>

definition lowest_bit_bitmap :: "nat list" where
  "lowest_bit_bitmap = [
     0, 0, 1, 0, 2, 0, 1, 0, 3, 0, 1, 0, 2, 0, 1, 0,
     4, 0, 1, 0, 2, 0, 1, 0, 3, 0, 1, 0, 2, 0, 1, 0,
     5, 0, 1, 0, 2, 0, 1, 0, 3, 0, 1, 0, 2, 0, 1, 0,
     4, 0, 1, 0, 2, 0, 1, 0, 3, 0, 1, 0, 2, 0, 1, 0,
     6, 0, 1, 0, 2, 0, 1, 0, 3, 0, 1, 0, 2, 0, 1, 0,
     4, 0, 1, 0, 2, 0, 1, 0, 3, 0, 1, 0, 2, 0, 1, 0,
     5, 0, 1, 0, 2, 0, 1, 0, 3, 0, 1, 0, 2, 0, 1, 0,
     4, 0, 1, 0, 2, 0, 1, 0, 3, 0, 1, 0, 2, 0, 1, 0,
     7, 0, 1, 0, 2, 0, 1, 0, 3, 0, 1, 0, 2, 0, 1, 0,
     4, 0, 1, 0, 2, 0, 1, 0, 3, 0, 1, 0, 2, 0, 1, 0,
     5, 0, 1, 0, 2, 0, 1, 0, 3, 0, 1, 0, 2, 0, 1, 0,
     4, 0, 1, 0, 2, 0, 1, 0, 3, 0, 1, 0, 2, 0, 1, 0,
     6, 0, 1, 0, 2, 0, 1, 0, 3, 0, 1, 0, 2, 0, 1, 0,
     4, 0, 1, 0, 2, 0, 1, 0, 3, 0, 1, 0, 2, 0, 1, 0,
     5, 0, 1, 0, 2, 0, 1, 0, 3, 0, 1, 0, 2, 0, 1, 0,
     4, 0, 1, 0, 2, 0, 1, 0, 3, 0, 1, 0, 2, 0, 1, 0]"

definition rt_ffs_table :: "u32 \<Rightarrow> nat" where
  "rt_ffs_table value =
     (if value = 0 then 0
      else if value AND 0xFF \<noteq> 0 then lowest_bit_bitmap ! unat (value AND 0xFF) + 1
      else if value AND 0xFF00 \<noteq> 0
      then lowest_bit_bitmap ! unat (drop_bit 8 (value AND 0xFF00)) + 9
      else if value AND 0xFF0000 \<noteq> 0
      then lowest_bit_bitmap ! unat (drop_bit 16 (value AND 0xFF0000)) + 17
      else lowest_bit_bitmap ! unat (drop_bit 24 (value AND 0xFF000000)) + 25)"

section \<open>State\<close>

datatype tstat = THREAD_INIT | THREAD_READY | THREAD_SUSPEND | THREAD_RUNNING | THREAD_CLOSE

record tcb =
  stat :: tstat
  yielded :: bool
  init_prio :: u8
  cur_prio :: u8
  number_mask :: u32
  init_tick :: u32
  remaining_tick :: u32

record sched =
  tcbs :: "nat \<Rightarrow> tcb"
  priority_table :: "nat \<Rightarrow> nat list"
  ready_group :: u32
  lock_nest :: "16 word"
  current_thread :: "nat option"
  running_prio :: u8
  sched_halted :: bool
  sched_fault :: bool

definition RT_THREAD_PRIORITY_MAX :: nat where "RT_THREAD_PRIORITY_MAX = 32"

abbreviation prio :: "sched \<Rightarrow> nat \<Rightarrow> nat" where
  "prio s t \<equiv> unat (cur_prio (tcbs s t))"

abbreviation stat_of :: "sched \<Rightarrow> nat \<Rightarrow> tstat" where
  "stat_of s t \<equiv> stat (tcbs s t)"

definition upd_tcb :: "nat \<Rightarrow> (tcb \<Rightarrow> tcb) \<Rightarrow> sched \<Rightarrow> sched" where
  "upd_tcb t f s = s\<lparr>tcbs := (tcbs s)(t := f (tcbs s t))\<rparr>"

definition set_stat :: "nat \<Rightarrow> tstat \<Rightarrow> sched \<Rightarrow> sched" where
  "set_stat t x = upd_tcb t (\<lambda>c. c\<lparr>stat := x\<rparr>)"

section \<open>The ready table\<close>

definition rt_system_scheduler_init :: "sched \<Rightarrow> sched" where
  "rt_system_scheduler_init s =
     s\<lparr>lock_nest := 0, priority_table := (\<lambda>p. if p < RT_THREAD_PRIORITY_MAX then [] else priority_table s p),
       ready_group := 0\<rparr>"

definition get_highest_priority_thread :: "sched \<Rightarrow> nat option \<times> nat" where
  "get_highest_priority_thread s =
     (let p = rt_ffs (ready_group s) - 1
      in (case priority_table s p of [] \<Rightarrow> None | t # _ \<Rightarrow> Some t, p))"

definition rt_schedule_insert_thread :: "nat \<Rightarrow> sched \<Rightarrow> sched" where
  "rt_schedule_insert_thread t s =
     (if current_thread s = Some t then set_stat t THREAD_RUNNING s
      else if RT_THREAD_PRIORITY_MAX \<le> prio s t then s\<lparr>sched_fault := True\<rparr>
      else
        let s1 = set_stat t THREAD_READY s
        in s1\<lparr>priority_table := (priority_table s1)(prio s t := priority_table s1 (prio s t) @ [t]),
              ready_group := ready_group s1 OR number_mask (tcbs s1 t)\<rparr>)"

definition rt_schedule_remove_thread :: "nat \<Rightarrow> sched \<Rightarrow> sched" where
  "rt_schedule_remove_thread t s =
     (if RT_THREAD_PRIORITY_MAX \<le> prio s t then s\<lparr>sched_fault := True\<rparr>
      else
        let s1 = s\<lparr>priority_table := (\<lambda>p. remove1 t (priority_table s p))\<rparr>
        in if priority_table s1 (prio s t) = []
           then s1\<lparr>ready_group := ready_group s1 AND NOT (number_mask (tcbs s1 t))\<rparr>
           else s1)"

section \<open>Scheduling\<close>

definition rt_schedule :: "sched \<Rightarrow> sched" where
  "rt_schedule s =
     (if lock_nest s \<noteq> 0 \<or> ready_group s = 0 then s
      else
        case (get_highest_priority_thread s, current_thread s) of
          ((Some q, hp), Some c) \<Rightarrow>
            (let running = (stat_of s c = THREAD_RUNNING);
                 stay = (running \<and> (prio s c < hp \<or> (prio s c = hp \<and> \<not> yielded (tcbs s c))));
                 need_insert = (running \<and> \<not> stay);
                 s1 = (if running then upd_tcb c (\<lambda>x. x\<lparr>yielded := False\<rparr>) s else s);
                 to = (if stay then c else q)
             in if to \<noteq> c
                then
                  let s2 = s1\<lparr>running_prio := word_of_nat hp, current_thread := Some to\<rparr>;
                      s3 = (if need_insert then rt_schedule_insert_thread c s2 else s2)
                  in set_stat to THREAD_RUNNING (rt_schedule_remove_thread to s3)
                else set_stat c THREAD_RUNNING (rt_schedule_remove_thread c s1))
        | _ \<Rightarrow> s\<lparr>sched_fault := True\<rparr>)"

definition rt_system_scheduler_start :: "sched \<Rightarrow> sched" where
  "rt_system_scheduler_start s =
     (case get_highest_priority_thread s of
        (None, _) \<Rightarrow> s\<lparr>sched_fault := True\<rparr>
      | (Some t, _) \<Rightarrow>
          set_stat t THREAD_RUNNING (rt_schedule_remove_thread t (s\<lparr>current_thread := Some t\<rparr>)))"

definition rt_enter_critical :: "sched \<Rightarrow> sched" where
  "rt_enter_critical s = s\<lparr>lock_nest := lock_nest s + 1\<rparr>"

definition rt_exit_critical :: "sched \<Rightarrow> sched" where
  "rt_exit_critical s =
     (let s1 = s\<lparr>lock_nest := lock_nest s - 1\<rparr>
      in if sint (lock_nest s1) \<le> 0
         then let s2 = s1\<lparr>lock_nest := 0\<rparr>
              in if current_thread s2 \<noteq> None then rt_schedule s2 else s2
         else s1)"

definition rt_critical_level :: "sched \<Rightarrow> u16" where
  "rt_critical_level s = lock_nest s"

section \<open>Threads\<close>

definition thread_init :: "nat \<Rightarrow> u8 \<Rightarrow> u32 \<Rightarrow> sched \<Rightarrow> sched" where
  "thread_init t priority ticks s =
     (if RT_THREAD_PRIORITY_MAX \<le> unat priority then s\<lparr>sched_halted := True\<rparr>
      else upd_tcb t (\<lambda>_. \<lparr>stat = THREAD_INIT, yielded = False, init_prio = priority,
             cur_prio = priority, number_mask = 0, init_tick = ticks, remaining_tick = ticks\<rparr>) s)"

definition thread_suspend :: "nat \<Rightarrow> sched \<Rightarrow> rt_err \<times> sched" where
  "thread_suspend t s =
     (if stat_of s t \<noteq> THREAD_READY \<and> stat_of s t \<noteq> THREAD_RUNNING then (RT_ERROR, s)
      else if stat_of s t = THREAD_RUNNING \<and> current_thread s \<noteq> Some t
      then (RT_EOK, s\<lparr>sched_halted := True\<rparr>)
      else (RT_EOK, set_stat t THREAD_SUSPEND (rt_schedule_remove_thread t s)))"

definition thread_resume :: "nat \<Rightarrow> sched \<Rightarrow> rt_err \<times> sched" where
  "thread_resume t s =
     (if stat_of s t \<noteq> THREAD_SUSPEND then (RT_ERROR, s)
      else (RT_EOK, rt_schedule_insert_thread t s))"

definition thread_timeout :: "nat \<Rightarrow> sched \<Rightarrow> sched" where
  "thread_timeout t s =
     (if stat_of s t \<noteq> THREAD_SUSPEND then s\<lparr>sched_halted := True\<rparr>
      else rt_schedule (rt_schedule_insert_thread t s))"

definition rt_thread_startup :: "nat \<Rightarrow> sched \<Rightarrow> sched" where
  "rt_thread_startup t s =
     (if stat_of s t \<noteq> THREAD_INIT then s\<lparr>sched_halted := True\<rparr>
      else
        let s1 = upd_tcb t (\<lambda>c. c\<lparr>cur_prio := init_prio c,
                   number_mask := push_bit (unat (init_prio c)) 1, stat := THREAD_SUSPEND,
                   yielded := False\<rparr>) s;
            s2 = snd (thread_resume t s1)
        in if current_thread s2 \<noteq> None then rt_schedule s2 else s2)"

text \<open>Detaching or deleting a thread, and its end, up to the object management.\<close>

definition thread_close :: "nat \<Rightarrow> sched \<Rightarrow> sched" where
  "thread_close t s =
     (if stat_of s t = THREAD_CLOSE then s
      else
        let s1 = (if stat_of s t \<noteq> THREAD_INIT then rt_schedule_remove_thread t s else s)
        in upd_tcb t (\<lambda>c. c\<lparr>stat := THREAD_CLOSE, yielded := False\<rparr>) s1)"

definition thread_exit :: "sched \<Rightarrow> sched" where
  "thread_exit s =
     (case current_thread s of
        None \<Rightarrow> s\<lparr>sched_fault := True\<rparr>
      | Some t \<Rightarrow> rt_schedule (upd_tcb t (\<lambda>c. c\<lparr>stat := THREAD_CLOSE, yielded := False\<rparr>)
                    (rt_schedule_remove_thread t s)))"

definition rt_thread_yield :: "sched \<Rightarrow> sched" where
  "rt_thread_yield s =
     (case current_thread s of
        None \<Rightarrow> s\<lparr>sched_fault := True\<rparr>
      | Some t \<Rightarrow> rt_schedule (upd_tcb t (\<lambda>c. c\<lparr>remaining_tick := init_tick c, yielded := True\<rparr>) s))"

definition change_priority :: "nat \<Rightarrow> u8 \<Rightarrow> sched \<Rightarrow> sched" where
  "change_priority t p s =
     (let assign = upd_tcb t (\<lambda>c. c\<lparr>cur_prio := p, number_mask := push_bit (unat p) 1\<rparr>)
      in if stat_of s t = THREAD_READY
         then rt_schedule_insert_thread t (assign (rt_schedule_remove_thread t s))
         else assign s)"

text \<open>The time slice of \<open>rt_tick_increase\<close>; the tick count and the timers are those of \<open>Timer\<close>.\<close>

definition tick_slice :: "sched \<Rightarrow> sched" where
  "tick_slice s =
     (case current_thread s of
        None \<Rightarrow> s\<lparr>sched_fault := True\<rparr>
      | Some t \<Rightarrow>
          let s1 = upd_tcb t (\<lambda>c. c\<lparr>remaining_tick := remaining_tick c - 1\<rparr>) s
          in if remaining_tick (tcbs s1 t) = 0
             then rt_schedule (upd_tcb t (\<lambda>c. c\<lparr>remaining_tick := init_tick c, yielded := True\<rparr>) s1)
             else s1)"

section \<open>The three ways to find the first set bit agree\<close>

lemma rt_ffs_bit:
  assumes "v \<noteq> 0"
  shows "bit v (rt_ffs v - 1)" and "0 < rt_ffs v" and "rt_ffs v - 1 < 32"
    and "j < rt_ffs v - 1 \<Longrightarrow> \<not> bit v j"
proof -
  obtain n where "bit v n" using assms by (auto simp: bit_eq_iff)
  then have "n < 32" "n \<in> set [0..<32]" using bit_imp_le_length [of v n] by auto
  then obtain i where i: "find (bit v) [0..<32] = Some i"
    using \<open>bit v n\<close> by (cases "find (bit v) [0..<32]") (auto simp: find_None_iff)
  have f: "rt_ffs v = i + 1" using i by (simp add: rt_ffs_def)
  have b: "i < 32" "bit v i" "\<forall>j < i. \<not> bit v j" using i by (auto simp: find_Some_iff)
  show "bit v (rt_ffs v - 1)" "0 < rt_ffs v" "rt_ffs v - 1 < 32" using b by (simp_all add: f)
  show "\<not> bit v j" if "j < rt_ffs v - 1" using b that by (simp add: f)
qed

lemma rt_ffs_unique:
  assumes "bit v i" and "\<And>j. j < i \<Longrightarrow> \<not> bit v j"
  shows "rt_ffs v = i + 1"
proof -
  have "v \<noteq> 0" using assms(1) by auto
  note f = rt_ffs_bit [OF this]
  have "rt_ffs v - 1 = i" using f(1,4) assms by (metis linorder_neqE_nat)
  then show ?thesis using f(2) by simp
qed

lemma rt_ffs_zero [simp]: "rt_ffs 0 = 0"
  by (simp add: rt_ffs_def find_None_iff [THEN iffD2])

text \<open>The table is the ruler sequence: each half repeats the half before, with one new maximum.\<close>

primrec ruler :: "nat \<Rightarrow> nat list" where
  "ruler 0 = [0]"
| "ruler (Suc k) = ruler k @ k # tl (ruler k)"

lemma bitmap_ruler: "lowest_bit_bitmap = ruler 8"
  by (simp add: lowest_bit_bitmap_def eval_nat_numeral)

lemma length_ruler: "length (ruler k) = 2 ^ k"
  by (induction k) auto

definition low_bit :: "nat \<Rightarrow> nat \<Rightarrow> bool" where
  "low_bit b i \<longleftrightarrow> bit b i \<and> (\<forall>j < i. \<not> bit b j)"

lemma low_bit_take: "low_bit (take_bit k b) i \<Longrightarrow> low_bit b i"
  by (auto simp: low_bit_def bit_take_bit_iff)

lemma ruler_low: "0 < b \<Longrightarrow> b < 2 ^ k \<Longrightarrow> low_bit b (ruler k ! b) \<and> ruler k ! b < k"
proof (induction k arbitrary: b)
  case (Suc k)
  consider "b < 2 ^ k" | "b = 2 ^ k" | "2 ^ k < b" by linarith
  then show ?case
  proof cases
    case 1
    then show ?thesis using Suc.IH [OF Suc.prems(1)] by (simp add: nth_append length_ruler)
  next
    case 2
    then show ?thesis
      by (auto simp: nth_append length_ruler low_bit_def bit_exp_iff possible_bit_def)
  next
    case 3
    let ?c = "b - 2 ^ k"
    have c: "0 < ?c" "?c < 2 ^ k" using 3 Suc.prems(2) by auto
    have "ruler (Suc k) ! b = (k # tl (ruler k)) ! ?c"
      using 3 by (simp add: nth_append length_ruler)
    also have "\<dots> = ruler k ! ?c"
    proof -
      obtain d where d: "?c = Suc d" using c(1) by (cases ?c) auto
      have "d < length (tl (ruler k))" using c(2) d by (simp add: length_ruler)
      then show ?thesis unfolding d by (simp add: nth_tl)
    qed
    finally have r: "ruler (Suc k) ! b = ruler k ! ?c" .
    have "take_bit k b = ?c"
      using c(2) 3 by (simp add: take_bit_eq_mod le_mod_geq)
    then have "low_bit b (ruler k ! ?c)" using Suc.IH [OF c] low_bit_take [of k b] by simp
    then show ?thesis using r Suc.IH [OF c] by simp
  qed
qed simp

lemma byte_ffs:
  fixes x v :: u32
  assumes x: "\<And>j. bit x j \<longleftrightarrow> j < 8 \<and> bit v (s + j)" and nz: "x \<noteq> 0"
    and low: "\<And>j. j < s \<Longrightarrow> \<not> bit v j"
  shows "rt_ffs v = lowest_bit_bitmap ! unat x + (s + 1)"
proof -
  let ?i = "lowest_bit_bitmap ! unat x"
  have "take_bit 8 x = x" by (rule bit_eqI) (auto simp: bit_take_bit_iff x)
  then have "unat x < 2 ^ 8" by (metis take_bit_nat_less_exp unsigned_take_bit_eq)
  moreover have "0 < unat x" using nz by (simp add: unat_gt_0)
  ultimately have "low_bit (unat x) ?i" using ruler_low by (simp add: bitmap_ruler)
  then have i: "bit x ?i" "\<And>j. j < ?i \<Longrightarrow> \<not> bit x j"
    by (auto simp: low_bit_def bit_unsigned_iff possible_bit_def)
  have "rt_ffs v = (s + ?i) + 1"
  proof (rule rt_ffs_unique)
    show "bit v (s + ?i)" using i(1) x by blast
    fix j assume j: "j < s + ?i"
    show "\<not> bit v j"
    proof (cases "j < s")
      case False
      then have "\<not> bit x (j - s)" "j - s < 8" using i(2) [of "j - s"] j i(1) x [of ?i] by auto
      then show ?thesis using x [of "j - s"] False by simp
    qed (use low in simp)
  qed
  then show ?thesis by simp
qed

lemma byte_masks:
  "(0xFF :: u32) = mask 8" "(0xFF00 :: u32) = push_bit 8 (mask 8)"
  "(0xFF0000 :: u32) = push_bit 16 (mask 8)" "(0xFF000000 :: u32) = push_bit 24 (mask 8)"
  by (simp_all add: mask_eq_exp_minus_1)

lemma byte_clear:
  assumes "(v :: u32) AND push_bit s (mask 8) = 0" and "s \<le> j" and "j < s + 8" and "j < 32"
  shows "\<not> bit v j"
  using arg_cong [OF assms(1), of "\<lambda>w. bit w j"] assms(2-4)
  by (auto simp: bit_simps)

text \<open>
  the search by table of \<open>kservice.c\<close> and the one by reversing and counting zeros find the same
  bit as \<open>__builtin_ffs\<close>: the lowest one set, counted from 1, and 0 for the empty word.
\<close>

theorem ffs_implementations_agree:
  "rt_ffs_table v = rt_ffs v \<and> rt_ffs_rbit v = rt_ffs v"
proof
  show "rt_ffs_table v = rt_ffs v"
  proof (cases "v = 0")
    case False
    define x where "x s = drop_bit s (v AND push_bit s (mask 8))" for s
    have x: "bit (x s) j \<longleftrightarrow> j < 8 \<and> bit v (s + j)" if "s + 8 \<le> 32" for s j
      using that by (auto simp: x_def bit_simps)
    have low: "\<not> bit v j"
      if "\<And>r. r < s \<Longrightarrow> r mod 8 = 0 \<Longrightarrow> v AND push_bit r (mask 8) = 0" "j < s" "j < 32" for s j
    proof -
      have "v AND push_bit (j div 8 * 8) (mask 8) = 0" using that(1) [of "j div 8 * 8"] that(2) by simp
      then show ?thesis by (rule byte_clear) (use that(3) in simp_all)
    qed
    have zero: "v AND push_bit s (mask 8) = 0" if "x s = 0" "s + 8 \<le> 32" for s
    proof (rule bit_eqI)
      fix j show "bit (v AND push_bit s (mask 8)) j = bit 0 j"
        using x [OF that(2), of "j - s"] that(1) by (auto simp: bit_simps)
    qed
    have step: "rt_ffs v = lowest_bit_bitmap ! unat (x s) + (s + 1)"
      if nz: "v AND push_bit s (mask 8) \<noteq> 0" and s: "s + 8 \<le> 32"
        and below: "\<And>r. r < s \<Longrightarrow> r mod 8 = 0 \<Longrightarrow> v AND push_bit r (mask 8) = 0" for s
    proof (rule byte_ffs)
      show "bit (x s) j \<longleftrightarrow> j < 8 \<and> bit v (s + j)" for j by (rule x [OF s])
      show "x s \<noteq> 0" using zero [OF _ s] nz by blast
      show "\<not> bit v j" if "j < s" for j by (rule low [OF below that]) (use that s in simp_all)
    qed
    have mult: "r = 0 \<or> r = 8 \<or> r = 16 \<or> 24 \<le> r" if "r mod 8 = 0" for r :: nat
      using that by presburger
    let ?z = "\<lambda>s. v AND push_bit s (mask 8) = 0"
    have s0: "rt_ffs v = lowest_bit_bitmap ! unat (x 0) + 1" if "\<not> ?z 0"
      using step [of 0] that by simp
    have s8: "rt_ffs v = lowest_bit_bitmap ! unat (x 8) + 9" if "?z 0" "\<not> ?z 8"
      by (rule step [of 8, simplified]) (use that in simp_all)
    have s16: "rt_ffs v = lowest_bit_bitmap ! unat (x 16) + 17" if "?z 0" "?z 8" "\<not> ?z 16"
      by (rule step [of 16, simplified]) (use that in simp, drule mult, elim disjE, use that in simp_all)
    have s24: "rt_ffs v = lowest_bit_bitmap ! unat (x 24) + 25" if z: "?z 0" "?z 8" "?z 16"
    proof -
      have "\<not> ?z 24"
      proof
        assume "?z 24"
        have below: "r < 32 \<Longrightarrow> r mod 8 = 0 \<Longrightarrow> ?z r" for r
        proof -
          assume "r < 32" "r mod 8 = 0"
          then have "r = 0 \<or> r = 8 \<or> r = 16 \<or> r = 24" by presburger
          then show ?thesis using z \<open>?z 24\<close> by auto
        qed
        have "\<not> bit v j" for j
        proof (cases "j < 32")
          case True
          then show ?thesis by (rule low [OF below, of 32, rotated 2]) (simp_all add: True)
        next
          case False
          then show ?thesis using bit_imp_le_length [of v j] by auto
        qed
        then show False using \<open>v \<noteq> 0\<close> by (simp add: bit_eq_iff)
      qed
      then show ?thesis
        by (rule step [of 24, simplified]) (use z \<open>\<not> ?z 24\<close> in simp, drule mult, elim disjE, use z in simp_all)
    qed
    show ?thesis
      using s0 s8 s16 s24 \<open>v \<noteq> 0\<close>
      by (simp add: rt_ffs_table_def byte_masks x_def)
  qed (simp add: rt_ffs_table_def)
  show "rt_ffs_rbit v = rt_ffs v"
  proof (cases "v = 0")
    case False
    let ?bs = "map (bit v) [0..<32]"
    have n: "rt_ffs v - 1 < 32" "bit v (rt_ffs v - 1)" using rt_ffs_bit [OF False] by simp_all
    have l: "length (takeWhile Not ?bs) < 32"
    proof (rule ccontr)
      assume "\<not> ?thesis"
      then have "takeWhile Not ?bs = ?bs"
        using takeWhile_eq_take [of Not ?bs] by (metis length_map length_takeWhile_le length_upt diff_zero not_less take_all)
      then have "\<forall>b \<in> set ?bs. \<not> b" by (metis set_takeWhileD)
      then show False using n by auto
    qed
    have "bit v (length (takeWhile Not ?bs))"
      using nth_length_takeWhile [of Not ?bs] l by simp
    moreover have "\<not> bit v j" if "j < length (takeWhile Not ?bs)" for j
    proof -
      have "takeWhile Not ?bs ! j = ?bs ! j" using takeWhile_nth [OF that] .
      moreover have "\<not> takeWhile Not ?bs ! j" using nth_mem [OF that] set_takeWhileD by fast
      ultimately show ?thesis using that l by simp
    qed
    ultimately have "rt_ffs v = length (takeWhile Not ?bs) + 1" by (rule rt_ffs_unique)
    then show ?thesis using False by (simp add: rt_ffs_rbit_def CLZ_def RBIT_def)
  qed (simp add: rt_ffs_rbit_def)
qed

end
