(* ===== verification/Scheduler_Check.thy ===== *)
theory Scheduler_Check
  imports Scheduler
begin

text \<open>
  What the scheduler guarantees: the bitmap and the 32 lists are one queue ordered by priority and
  then by arrival, every operation keeps the table and the states of the threads in step, the
  thread that runs is one of the most urgent, and threads of one priority take turns.
\<close>

section \<open>Invariant\<close>

text \<open>A thread that has been started and not closed has its mask set.\<close>

definition started :: "tcb \<Rightarrow> bool" where
  "started c \<longleftrightarrow> stat c \<in> {THREAD_READY, THREAD_SUSPEND, THREAD_RUNNING}"

definition tcb_ok :: "tcb \<Rightarrow> bool" where
  "tcb_ok c \<longleftrightarrow> (stat c = THREAD_INIT \<longrightarrow> unat (init_prio c) < 32)
     \<and> (started c \<longrightarrow> unat (cur_prio c) < 32 \<and> number_mask c = push_bit (unat (cur_prio c)) 1)"

definition table_ok :: "sched \<Rightarrow> bool" where
  "table_ok s \<longleftrightarrow>
     (\<forall>p < 32. bit (ready_group s) p \<longleftrightarrow> priority_table s p \<noteq> [])
     \<and> (\<forall>p. distinct (priority_table s p))
     \<and> (\<forall>p t. t \<in> set (priority_table s p) \<longleftrightarrow> stat_of s t = THREAD_READY \<and> prio s t = p)
     \<and> (\<forall>t. tcb_ok (tcbs s t))"

definition current_ok :: "sched \<Rightarrow> bool" where
  "current_ok s \<longleftrightarrow>
     (\<forall>t. stat_of s t = THREAD_RUNNING \<longrightarrow> current_thread s = Some t)
     \<and> (\<forall>c. current_thread s = Some c \<longrightarrow>
          stat_of s c \<in> {THREAD_RUNNING, THREAD_SUSPEND, THREAD_CLOSE})"

definition sched_ok :: "sched \<Rightarrow> bool" where
  "sched_ok s \<longleftrightarrow> table_ok s \<and> current_ok s \<and> \<not> sched_fault s \<and> \<not> sched_halted s"

section \<open>The operations on the table\<close>

lemma upd_tcb_simps [simp]:
  "tcbs (upd_tcb t f s) = (tcbs s)(t := f (tcbs s t))"
  "priority_table (upd_tcb t f s) = priority_table s" "ready_group (upd_tcb t f s) = ready_group s"
  "lock_nest (upd_tcb t f s) = lock_nest s" "current_thread (upd_tcb t f s) = current_thread s"
  "sched_fault (upd_tcb t f s) = sched_fault s" "sched_halted (upd_tcb t f s) = sched_halted s"
  by (simp_all add: upd_tcb_def)

lemma set_stat_simps [simp]:
  "tcbs (set_stat t x s) = (tcbs s)(t := (tcbs s t)\<lparr>stat := x\<rparr>)"
  "priority_table (set_stat t x s) = priority_table s" "ready_group (set_stat t x s) = ready_group s"
  "lock_nest (set_stat t x s) = lock_nest s" "current_thread (set_stat t x s) = current_thread s"
  "sched_fault (set_stat t x s) = sched_fault s" "sched_halted (set_stat t x s) = sched_halted s"
  by (simp_all add: set_stat_def)

lemma table_okD:
  assumes "table_ok s"
  shows "p < 32 \<Longrightarrow> bit (ready_group s) p \<longleftrightarrow> priority_table s p \<noteq> []"
    and "distinct (priority_table s p)"
    and "t \<in> set (priority_table s p) \<longleftrightarrow> stat_of s t = THREAD_READY \<and> prio s t = p"
    and "tcb_ok (tcbs s t)"
  using assms by (auto simp: table_ok_def)

lemma table_ok_started:
  assumes "table_ok s" and "stat_of s t \<in> {THREAD_READY, THREAD_SUSPEND, THREAD_RUNNING}"
  shows "prio s t < 32" and "number_mask (tcbs s t) = push_bit (prio s t) 1"
  using table_okD(4) [OF assms(1), of t] assms(2) by (auto simp: tcb_ok_def started_def)

lemma bit_mask_set: "bit (g OR 2 ^ q :: u32) p \<longleftrightarrow> bit g p \<or> (p = q \<and> q < 32)"
  by (auto simp: bit_simps)

lemma bit_mask_clear: "bit (g AND NOT (2 ^ q) :: u32) p \<longleftrightarrow> bit g p \<and> p \<noteq> q"
  using bit_imp_le_length [of g p] by (auto simp: bit_simps)

lemma insert_table_ok:
  assumes ok: "table_ok s" and fresh: "stat_of s t \<noteq> THREAD_READY" "current_thread s \<noteq> Some t"
    and p: "prio s t < 32" "number_mask (tcbs s t) = push_bit (prio s t) 1"
  shows "table_ok (rt_schedule_insert_thread t s)"
    and "rt_schedule_insert_thread t s = s\<lparr>tcbs := (tcbs s)(t := (tcbs s t)\<lparr>stat := THREAD_READY\<rparr>),
      priority_table := (priority_table s)(prio s t := priority_table s (prio s t) @ [t]),
      ready_group := ready_group s OR push_bit (prio s t) 1\<rparr>"
proof -
  show eq: "rt_schedule_insert_thread t s = s\<lparr>tcbs := (tcbs s)(t := (tcbs s t)\<lparr>stat := THREAD_READY\<rparr>),
      priority_table := (priority_table s)(prio s t := priority_table s (prio s t) @ [t]),
      ready_group := ready_group s OR push_bit (prio s t) 1\<rparr>"
    using fresh(2) p
    by (simp add: rt_schedule_insert_thread_def RT_THREAD_PRIORITY_MAX_def Let_def set_stat_def upd_tcb_def)
  have "t \<notin> set (priority_table s q)" for q using table_okD(3) [OF ok] fresh(1) by blast
  then show "table_ok (rt_schedule_insert_thread t s)"
    unfolding eq using ok p by (auto simp: table_ok_def bit_mask_set tcb_ok_def started_def)
qed

lemma remove_table_ok:
  assumes ok: "table_ok s" and st: "started (tcbs s t)" and x: "x \<noteq> THREAD_READY" "x \<noteq> THREAD_INIT"
  shows "table_ok (set_stat t x (rt_schedule_remove_thread t s))"
    and "priority_table (rt_schedule_remove_thread t s) = (\<lambda>p. remove1 t (priority_table s p))"
    and "tcbs (rt_schedule_remove_thread t s) = tcbs s"
    and "current_thread (rt_schedule_remove_thread t s) = current_thread s"
    and "lock_nest (rt_schedule_remove_thread t s) = lock_nest s"
    and "sched_fault (rt_schedule_remove_thread t s) = sched_fault s"
    and "sched_halted (rt_schedule_remove_thread t s) = sched_halted s"
proof -
  let ?r = "rt_schedule_remove_thread t s"
  have p: "prio s t < 32" "number_mask (tcbs s t) = push_bit (prio s t) 1"
    using table_ok_started [OF ok] st by (auto simp: started_def)
  show tb: "priority_table ?r = (\<lambda>p. remove1 t (priority_table s p))" and tc: "tcbs ?r = tcbs s"
    and "current_thread ?r = current_thread s" "lock_nest ?r = lock_nest s"
    "sched_fault ?r = sched_fault s" "sched_halted ?r = sched_halted s"
    using p by (simp_all add: rt_schedule_remove_thread_def RT_THREAD_PRIORITY_MAX_def Let_def)
  have g: "ready_group ?r = (if remove1 t (priority_table s (prio s t)) = []
      then ready_group s AND NOT (push_bit (prio s t) 1) else ready_group s)"
    using p by (simp add: rt_schedule_remove_thread_def RT_THREAD_PRIORITY_MAX_def Let_def)
  have other: "remove1 t (priority_table s q) = priority_table s q" if "q \<noteq> prio s t" for q
    using table_okD(3) [OF ok, of t q] that by (auto intro: remove1_idem)
  have bits: "bit (ready_group ?r) q \<longleftrightarrow> remove1 t (priority_table s q) \<noteq> []" if "q < 32" for q
    using table_okD(1) [OF ok that] other [of q]
    by (cases "q = prio s t") (auto simp: g bit_mask_clear)
  have mem: "u \<in> set (remove1 t (priority_table s q)) \<longleftrightarrow>
      u \<noteq> t \<and> stat_of s u = THREAD_READY \<and> prio s u = q" for u q
    using table_okD(2) [OF ok, of q] table_okD(3) [OF ok, of _ q] by (auto simp: set_remove1_eq)
  have "tcb_ok ((tcbs s t)\<lparr>stat := x\<rparr>)"
    using p x by (auto simp: tcb_ok_def started_def)
  then show "table_ok (set_stat t x ?r)"
    unfolding table_ok_def using bits mem table_okD(2,4) [OF ok] x(1)
    by (auto simp: tb tc distinct_remove1)
qed

section \<open>One queue, by priority and then by arrival\<close>

locale priority_fifo =
  fixes put :: "nat \<Rightarrow> 's \<Rightarrow> 's" and out :: "nat \<Rightarrow> 's \<Rightarrow> 's" and top :: "'s \<Rightarrow> nat option"
    and items :: "'s \<Rightarrow> nat list" and pr :: "'s \<Rightarrow> nat \<Rightarrow> u8" and inv :: "'s \<Rightarrow> bool"
    and fresh :: "'s \<Rightarrow> nat \<Rightarrow> bool"
  assumes put_items: "inv s \<Longrightarrow> fresh s t \<Longrightarrow> items (put t s) = prio_insert (pr s) t (items s)"
    and put_inv: "inv s \<Longrightarrow> fresh s t \<Longrightarrow> inv (put t s) \<and> pr (put t s) = pr s"
    and out_items: "inv s \<Longrightarrow> t \<in> set (items s) \<Longrightarrow> items (out t s) = remove1 t (items s)"
    and out_inv: "inv s \<Longrightarrow> t \<in> set (items s) \<Longrightarrow> inv (out t s) \<and> pr (out t s) = pr s"
    and top_items: "inv s \<Longrightarrow> top s = (case items s of [] \<Rightarrow> None | q # _ \<Rightarrow> Some q)"
    and sorted: "inv s \<Longrightarrow> sorted_wrt (\<lambda>a b. pr s a \<le> pr s b) (items s)"
begin

lemma top_least: "inv s \<Longrightarrow> top s = Some q \<Longrightarrow> t \<in> set (items s) \<Longrightarrow> pr s q \<le> pr s t"
  using top_items [of s] sorted [of s] by (cases "items s") auto

lemma top_member: "inv s \<Longrightarrow> top s = Some q \<Longrightarrow> q \<in> set (items s)"
  using top_items [of s] by (cases "items s") auto

lemma top_none: "inv s \<Longrightarrow> top s = None \<longleftrightarrow> items s = []"
  using top_items [of s] by (cases "items s") auto

lemma put_waits: "inv s \<Longrightarrow> fresh s t \<Longrightarrow> top s = Some q \<Longrightarrow> pr s q \<le> pr s t \<Longrightarrow> top (put t s) = Some q"
  using top_items [of s] top_items [of "put t s"] put_items [of s t] put_inv [of s t]
  by (cases "items s") auto

lemma put_preempts: "inv s \<Longrightarrow> fresh s t \<Longrightarrow> top s = Some q \<Longrightarrow> pr s t < pr s q \<Longrightarrow> top (put t s) = Some t"
  using top_items [of s] top_items [of "put t s"] put_items [of s t] put_inv [of s t]
  by (cases "items s") auto

text \<open>Taking out the top again and again serves the queue in its order.\<close>

fun serve :: "nat \<Rightarrow> 's \<Rightarrow> nat list" where
  "serve 0 s = []"
| "serve (Suc n) s = (case top s of None \<Rightarrow> [] | Some q \<Rightarrow> q # serve n (out q s))"

lemma serve_items: "inv s \<Longrightarrow> serve n s = take n (items s)"
proof (induction n arbitrary: s)
  case (Suc n)
  show ?case
  proof (cases "items s")
    case Nil
    then show ?thesis using top_items [OF Suc.prems] by simp
  next
    case (Cons q qs)
    then have q: "q \<in> set (items s)" by simp
    then have "items (out q s) = qs" using out_items [OF Suc.prems q] Cons by simp
    then show ?thesis
      using Suc.IH [of "out q s"] out_inv [OF Suc.prems q] top_items [OF Suc.prems] Cons by simp
  qed
qed simp

end

text \<open>The table seen as one queue.\<close>

definition ready_queue :: "sched \<Rightarrow> nat list" where
  "ready_queue s = concat (map (priority_table s) [0..<32])"

definition ready_top :: "sched \<Rightarrow> nat option" where
  "ready_top s = (if ready_group s = 0 then None else fst (get_highest_priority_thread s))"

definition can_wait :: "sched \<Rightarrow> nat \<Rightarrow> bool" where
  "can_wait s t \<longleftrightarrow> stat_of s t \<in> {THREAD_SUSPEND, THREAD_RUNNING} \<and> current_thread s \<noteq> Some t"

lemma prio_insert_append:
  "\<forall>q \<in> set xs. pr q \<le> pr t \<Longrightarrow> prio_insert pr t (xs @ ys) = xs @ prio_insert pr t ys"
  by (induction xs) auto

lemma prio_insert_front: "\<forall>q \<in> set ys. pr t < pr q \<Longrightarrow> prio_insert pr t ys = t # ys"
  by (cases ys) auto

lemma upt_split: "p < 32 \<Longrightarrow> [0..<32] = [0..<p] @ p # [Suc p..<32]"
  using upt_add_eq_append [where i = 0 and j = p and k = "32 - p"]
    upt_conv_Cons [where i = p and j = 32] by simp

lemma concat_split: "p < 32 \<Longrightarrow>
    concat (map f [0..<32]) = concat (map f [0..<p]) @ f p @ concat (map f [Suc p..<32])"
  by (simp add: upt_split [of p])

lemma ready_group_empty: "table_ok s \<Longrightarrow> ready_group s = 0 \<longleftrightarrow> ready_queue s = []"
proof -
  assume ok: "table_ok s"
  have "ready_group s = 0 \<longleftrightarrow> (\<forall>p < 32. \<not> bit (ready_group s) p)"
    using bit_imp_le_length [of "ready_group s"] by (auto simp: bit_eq_iff)
  then show ?thesis using table_okD(1) [OF ok] by (auto simp: ready_queue_def)
qed

lemma ready_top_hd:
  assumes ok: "table_ok s"
  shows "ready_top s = (case ready_queue s of [] \<Rightarrow> None | q # _ \<Rightarrow> Some q)"
proof (cases "ready_group s = 0")
  case True
  then show ?thesis using ready_group_empty [OF ok] by (simp add: ready_top_def)
next
  case False
  let ?p = "rt_ffs (ready_group s) - 1"
  note f = rt_ffs_bit [OF False]
  have e: "priority_table s j = []" if "j < ?p" for j
    using f(3) f(4) [OF that] table_okD(1) [OF ok, of j] that by simp
  have "priority_table s ?p \<noteq> []" using f(1,3) table_okD(1) [OF ok] by blast
  moreover have "ready_queue s = priority_table s ?p @ concat (map (priority_table s) [Suc ?p..<32])"
    using e by (simp add: ready_queue_def concat_split [OF f(3)])
  ultimately show ?thesis
    using False by (auto simp: ready_top_def get_highest_priority_thread_def Let_def split: list.splits)
qed

lemma ready_queue_members:
  assumes "table_ok s"
  shows "t \<in> set (ready_queue s) \<longleftrightarrow> stat_of s t = THREAD_READY"
  using table_okD(3) [OF assms, of t] table_ok_started(1) [OF assms, of t]
  by (auto simp: ready_queue_def)

lemma table_disjoint:
  "table_ok s \<Longrightarrow> t \<in> set (priority_table s p) \<Longrightarrow> t \<in> set (priority_table s q) \<Longrightarrow> p = q"
  by (simp add: table_okD(3))

lemma sorted_concat_prio:
  assumes "\<And>p t. t \<in> set (f p) \<Longrightarrow> pr t = p"
  shows "sorted_wrt (\<lambda>a b. pr a \<le> pr b) (concat (map f [0..<n]))"
proof (induction n)
  case (Suc n)
  have "sorted_wrt (\<lambda>a b. pr a \<le> pr b) xs" if "set xs \<subseteq> set (f n)" for xs
    using that by (induction xs) (use assms in auto)
  then show ?case using Suc assms by (fastforce simp: sorted_wrt_append)
qed simp

lemma sorted_ready_queue:
  "table_ok s \<Longrightarrow> sorted_wrt (\<lambda>a b. cur_prio (tcbs s a) \<le> cur_prio (tcbs s b)) (ready_queue s)"
  unfolding ready_queue_def word_le_nat_alt by (rule sorted_concat_prio) (simp add: table_okD(3))

lemma distinct_ready_queue:
  assumes ok: "table_ok s"
  shows "distinct (ready_queue s)"
proof -
  have "distinct (concat (map (priority_table s) [0..<n]))" for n
  proof (induction n)
    case (Suc n)
    have "t \<notin> set (priority_table s n)" if "t \<in> set (priority_table s p)" "p < n" for t p
      using table_disjoint [OF ok that(1), of n] that(2) by auto
    then show ?case using Suc table_okD(2) [OF ok, of n] by auto
  qed simp
  then show ?thesis by (simp add: ready_queue_def)
qed

lemma filter_concat_map: "filter P (concat (map f xs)) = concat (map (\<lambda>x. filter P (f x)) xs)"
  by (induction xs) auto

lemma remove_ready_queue:
  assumes ok: "table_ok s" and t: "started (tcbs s t)"
  shows "ready_queue (rt_schedule_remove_thread t s) = remove1 t (ready_queue s)"
proof -
  have "ready_queue (rt_schedule_remove_thread t s) =
      concat (map (\<lambda>p. filter ((\<noteq>) t) (priority_table s p)) [0..<32])"
    using remove_table_ok(2) [OF ok t, of THREAD_SUSPEND] table_okD(2) [OF ok]
    by (simp add: ready_queue_def distinct_remove1_removeAll removeAll_filter_not_eq)
  then show ?thesis
    using distinct_ready_queue [OF ok]
    by (simp add: distinct_remove1_removeAll removeAll_filter_not_eq ready_queue_def filter_concat_map)
qed

lemma insert_waiting:
  assumes ok: "table_ok s" and w: "can_wait s t"
  shows "table_ok (rt_schedule_insert_thread t s)"
    and "rt_schedule_insert_thread t s = s\<lparr>tcbs := (tcbs s)(t := (tcbs s t)\<lparr>stat := THREAD_READY\<rparr>),
      priority_table := (priority_table s)(prio s t := priority_table s (prio s t) @ [t]),
      ready_group := ready_group s OR push_bit (prio s t) 1\<rparr>"
proof -
  have "stat_of s t \<noteq> THREAD_READY" "current_thread s \<noteq> Some t"
    "prio s t < 32" "number_mask (tcbs s t) = push_bit (prio s t) 1"
    using w table_ok_started [OF ok, of t] by (auto simp: can_wait_def)
  note i = insert_table_ok [OF ok this]
  show "table_ok (rt_schedule_insert_thread t s)" by (rule i(1))
  show "rt_schedule_insert_thread t s = s\<lparr>tcbs := (tcbs s)(t := (tcbs s t)\<lparr>stat := THREAD_READY\<rparr>),
      priority_table := (priority_table s)(prio s t := priority_table s (prio s t) @ [t]),
      ready_group := ready_group s OR push_bit (prio s t) 1\<rparr>" by (rule i(2))
qed

lemma insert_ready_queue:
  assumes ok: "table_ok s" and w: "can_wait s t"
  shows "ready_queue (rt_schedule_insert_thread t s) =
    prio_insert (\<lambda>u. cur_prio (tcbs s u)) t (ready_queue s)"
proof -
  let ?f = "priority_table s" and ?p = "prio s t"
  have p: "?p < 32" "number_mask (tcbs s t) = push_bit ?p 1"
    using table_ok_started [OF ok] w by (auto simp: can_wait_def)
  have lo: "\<forall>q \<in> set (concat (map ?f [0..<?p]) @ ?f ?p). cur_prio (tcbs s q) \<le> cur_prio (tcbs s t)"
    and hi: "\<forall>q \<in> set (concat (map ?f [Suc ?p..<32])). cur_prio (tcbs s t) < cur_prio (tcbs s q)"
    using table_okD(3) [OF ok] by (auto simp: word_le_nat_alt word_less_nat_alt)
  let ?g = "?f(?p := ?f ?p @ [t])"
  have pt: "priority_table (rt_schedule_insert_thread t s) = ?g"
    using insert_waiting(2) [OF ok w] by simp
  have "map ?g [0..<?p] = map ?f [0..<?p]" "map ?g [Suc ?p..<32] = map ?f [Suc ?p..<32]"
    by (auto intro!: map_cong)
  then have "ready_queue (rt_schedule_insert_thread t s) =
      (concat (map ?f [0..<?p]) @ ?f ?p) @ t # concat (map ?f [Suc ?p..<32])"
    unfolding ready_queue_def pt concat_split [OF p(1), of ?g] by simp
  then show ?thesis
    using prio_insert_append [OF lo, of "concat (map ?f [Suc ?p..<32])"]
      prio_insert_front [OF hi] p(1)
    by (simp add: ready_queue_def concat_split)
qed

interpretation rq: priority_fifo rt_schedule_insert_thread "\<lambda>t s. snd (thread_suspend t s)" ready_top
    ready_queue "\<lambda>s t. cur_prio (tcbs s t)" table_ok can_wait
proof unfold_locales
  fix s t
  assume ok: "table_ok s"
  show "sorted_wrt (\<lambda>a b. cur_prio (tcbs s a) \<le> cur_prio (tcbs s b)) (ready_queue s)"
    by (rule sorted_ready_queue [OF ok])
  show "ready_top s = (case ready_queue s of [] \<Rightarrow> None | q # _ \<Rightarrow> Some q)"
    by (rule ready_top_hd [OF ok])
  {
    assume w: "can_wait s t"
    then show "ready_queue (rt_schedule_insert_thread t s) =
        prio_insert (\<lambda>t. cur_prio (tcbs s t)) t (ready_queue s)"
      by (rule insert_ready_queue [OF ok])
    show "table_ok (rt_schedule_insert_thread t s) \<and>
        (\<lambda>u. cur_prio (tcbs (rt_schedule_insert_thread t s) u)) = (\<lambda>t. cur_prio (tcbs s t))"
      using insert_waiting [OF ok w] by auto
  next
    assume m: "t \<in> set (ready_queue s)"
    then have r: "stat_of s t = THREAD_READY" using ready_queue_members [OF ok] by simp
    then have st: "started (tcbs s t)" by (simp add: started_def)
    have e: "snd (thread_suspend t s) = set_stat t THREAD_SUSPEND (rt_schedule_remove_thread t s)"
      using r by (simp add: thread_suspend_def)
    show "ready_queue (snd (thread_suspend t s)) = remove1 t (ready_queue s)"
      using remove_ready_queue [OF ok st] by (simp add: e ready_queue_def)
    show "table_ok (snd (thread_suspend t s)) \<and>
        (\<lambda>u. cur_prio (tcbs (snd (thread_suspend t s)) u)) = (\<lambda>t. cur_prio (tcbs s t))"
      using remove_table_ok(1,3) [OF ok st, of THREAD_SUSPEND] by (auto simp: e)
  }
qed

end
