(* ===== verification/Scheduler_Run.thy ===== *)
theory Scheduler_Run
  imports Scheduler_Check
begin

text \<open>
  The scheduler at work: what \<open>rt_schedule\<close> does to the queue of ready threads, the steps the rest
  of the kernel can make with it, and how threads of one priority share the processor.
\<close>

section \<open>What does not touch the table\<close>

lemma table_ok_cong:
  assumes "\<And>t. stat_of s' t = stat_of s t \<and> cur_prio (tcbs s' t) = cur_prio (tcbs s t)
      \<and> number_mask (tcbs s' t) = number_mask (tcbs s t) \<and> init_prio (tcbs s' t) = init_prio (tcbs s t)"
    and "priority_table s' = priority_table s" and "ready_group s' = ready_group s"
  shows "table_ok s' \<longleftrightarrow> table_ok s" and "ready_queue s' = ready_queue s"
  using assms by (simp_all add: table_ok_def tcb_ok_def started_def ready_queue_def)

lemma table_ok_fields [simp]:
  "table_ok (s\<lparr>current_thread := c\<rparr>) \<longleftrightarrow> table_ok s"
  "table_ok (s\<lparr>running_prio := p\<rparr>) \<longleftrightarrow> table_ok s"
  "table_ok (s\<lparr>lock_nest := n\<rparr>) \<longleftrightarrow> table_ok s"
  "table_ok (upd_tcb t (\<lambda>x. x\<lparr>yielded := b\<rparr>) s) \<longleftrightarrow> table_ok s"
  "table_ok (upd_tcb t (\<lambda>x. x\<lparr>remaining_tick := g x\<rparr>) s) \<longleftrightarrow> table_ok s"
  "table_ok (upd_tcb t (\<lambda>x. x\<lparr>remaining_tick := g x, yielded := b\<rparr>) s) \<longleftrightarrow> table_ok s"
  by (rule table_ok_cong; simp)+

lemma ready_queue_fields [simp]:
  "ready_queue (s\<lparr>current_thread := c\<rparr>) = ready_queue s"
  "ready_queue (s\<lparr>running_prio := p\<rparr>) = ready_queue s"
  "ready_queue (s\<lparr>lock_nest := n\<rparr>) = ready_queue s"
  "ready_queue (upd_tcb t f s) = ready_queue s"
  "ready_queue (set_stat t x s) = ready_queue s"
  by (simp_all add: ready_queue_def)

lemma current_okD:
  assumes "current_ok s"
  shows "stat_of s t = THREAD_RUNNING \<Longrightarrow> current_thread s = Some t"
    and "current_thread s = Some c \<Longrightarrow> stat_of s c \<noteq> THREAD_READY \<and> stat_of s c \<noteq> THREAD_INIT"
proof -
  show "stat_of s t = THREAD_RUNNING \<Longrightarrow> current_thread s = Some t"
    using assms unfolding current_ok_def by blast
  assume "current_thread s = Some c"
  then have "stat_of s c \<in> {THREAD_RUNNING, THREAD_SUSPEND, THREAD_CLOSE}"
    using assms unfolding current_ok_def by blast
  then show "stat_of s c \<noteq> THREAD_READY \<and> stat_of s c \<noteq> THREAD_INIT" by auto
qed

lemma set_stat_same: "stat_of s t = x \<Longrightarrow> set_stat t x s = s"
  by (auto simp: set_stat_def upd_tcb_def)

lemma remove_absent:
  assumes ok: "table_ok s" and st: "started (tcbs s t)" and r: "stat_of s t \<noteq> THREAD_READY"
  shows "rt_schedule_remove_thread t s = s"
proof -
  have p: "prio s t < 32" "number_mask (tcbs s t) = push_bit (prio s t) 1"
    using table_ok_started [OF ok] st by (auto simp: started_def)
  have "(\<lambda>p. remove1 t (priority_table s p)) = priority_table s"
    using table_okD(3) [OF ok] r by (auto intro: remove1_idem)
  moreover have "ready_group s AND NOT (2 ^ prio s t) = ready_group s"
    if "priority_table s (prio s t) = []"
    using table_okD(1) [OF ok p(1)] that by (intro bit_eqI) (auto simp: bit_mask_clear)
  ultimately show ?thesis
    using p by (simp add: rt_schedule_remove_thread_def RT_THREAD_PRIORITY_MAX_def Let_def)
qed

section \<open>One call of rt_schedule\<close>

lemma highest_top:
  assumes ok: "table_ok s" and q: "ready_queue s = q # qs"
  shows "ready_group s \<noteq> 0" and "get_highest_priority_thread s = (Some q, prio s q)"
proof -
  show g: "ready_group s \<noteq> 0" using ready_group_empty [OF ok] q by simp
  have "fst (get_highest_priority_thread s) = Some q"
    using ready_top_hd [OF ok] q g by (simp add: ready_top_def)
  then show "get_highest_priority_thread s = (Some q, prio s q)"
    using table_okD(3) [OF ok, of q] 
    by (auto simp: get_highest_priority_thread_def Let_def split: list.splits)
      (metis list.set_intros(1))
qed

lemma rt_schedule_none:
  "lock_nest s \<noteq> 0 \<or> table_ok s \<and> ready_queue s = [] \<Longrightarrow> rt_schedule s = s"
  using ready_group_empty [of s] by (auto simp: rt_schedule_def)

definition stays :: "sched \<Rightarrow> nat \<Rightarrow> nat \<Rightarrow> bool" where
  "stays s c q \<longleftrightarrow> stat_of s c = THREAD_RUNNING
     \<and> (prio s c < prio s q \<or> prio s c = prio s q \<and> \<not> yielded (tcbs s c))"

lemma rt_schedule_stay:
  assumes ok: "table_ok s" and l: "lock_nest s = 0" and c: "current_thread s = Some c"
    and q: "ready_queue s = q # qs" and st: "stays s c q"
  shows "rt_schedule s = upd_tcb c (\<lambda>x. x\<lparr>yielded := False\<rparr>) s"
proof -
  let ?s = "upd_tcb c (\<lambda>x. x\<lparr>yielded := False\<rparr>) s"
  have r: "stat_of s c = THREAD_RUNNING" using st by (simp add: stays_def)
  have "rt_schedule_remove_thread c ?s = ?s"
    by (rule remove_absent) (use ok r in \<open>simp_all add: started_def\<close>)
  then show ?thesis
    using highest_top [OF ok q] l c r st set_stat_same [of ?s c]
    by (simp add: rt_schedule_def stays_def Let_def)
qed

text \<open>The state at a change of threads: the running thread goes back, the first of the queue runs.\<close>

definition switch_to :: "sched \<Rightarrow> nat \<Rightarrow> nat \<Rightarrow> sched" where
  "switch_to s c q =
     (let running = (stat_of s c = THREAD_RUNNING);
          s1 = (if running then upd_tcb c (\<lambda>x. x\<lparr>yielded := False\<rparr>) s else s);
          s2 = s1\<lparr>running_prio := word_of_nat (prio s q), current_thread := Some q\<rparr>
      in set_stat q THREAD_RUNNING
           (rt_schedule_remove_thread q (if running then rt_schedule_insert_thread c s2 else s2)))"

lemma rt_schedule_switch:
  assumes ok: "table_ok s" "current_ok s" and l: "lock_nest s = 0" and c: "current_thread s = Some c"
    and q: "ready_queue s = q # qs" and st: "\<not> stays s c q"
  shows "rt_schedule s = switch_to s c q"
proof -
  have "stat_of s q = THREAD_READY" using ready_queue_members [OF ok(1), of q] q by simp
  then have "q \<noteq> c" using current_okD(2) [OF ok(2) c] by blast
  then show ?thesis
    using highest_top [OF ok(1) q] l c st
    by (auto simp: rt_schedule_def switch_to_def stays_def Let_def)
qed

text \<open>Which threads exist with which priority and slice, and the flags, stay as they are.\<close>

definition same_setup :: "sched \<Rightarrow> sched \<Rightarrow> bool" where
  "same_setup s s' \<longleftrightarrow> lock_nest s' = lock_nest s \<and> sched_fault s' = sched_fault s
     \<and> sched_halted s' = sched_halted s
     \<and> (\<forall>t. cur_prio (tcbs s' t) = cur_prio (tcbs s t) \<and> init_tick (tcbs s' t) = init_tick (tcbs s t)
          \<and> remaining_tick (tcbs s' t) = remaining_tick (tcbs s t))"

lemma switch_to_spec:
  assumes ok: "table_ok s" "current_ok s" and c: "current_thread s = Some c"
    and q: "ready_queue s = q # qs" and st: "\<not> stays s c q"
  shows "table_ok (switch_to s c q)" and "current_thread (switch_to s c q) = Some q"
    and "ready_queue (switch_to s c q) =
      (if stat_of s c = THREAD_RUNNING then prio_insert (\<lambda>t. cur_prio (tcbs s t)) c qs else qs)"
    and "stat_of (switch_to s c q) t = (if t = q then THREAD_RUNNING
      else if t = c \<and> stat_of s c = THREAD_RUNNING then THREAD_READY else stat_of s t)"
    and "yielded (tcbs (switch_to s c q) t) =
      (yielded (tcbs s t) \<and> \<not> (t = c \<and> stat_of s c = THREAD_RUNNING))"
    and "same_setup s (switch_to s c q)"
proof -
  let ?run = "stat_of s c = THREAD_RUNNING"
  define s1 where "s1 = (if ?run then upd_tcb c (\<lambda>x. x\<lparr>yielded := False\<rparr>) s else s)"
  define s2 where "s2 = s1\<lparr>running_prio := word_of_nat (prio s q), current_thread := Some q\<rparr>"
  define s3 where "s3 = (if ?run then rt_schedule_insert_thread c s2 else s2)"
  have sw: "switch_to s c q = set_stat q THREAD_RUNNING (rt_schedule_remove_thread q s3)"
    by (simp add: switch_to_def s1_def s2_def s3_def Let_def)
  have qr: "stat_of s q = THREAD_READY" using ready_queue_members [OF ok(1), of q] q by simp
  have qc: "q \<noteq> c" using qr current_okD(2) [OF ok(2) c] by blast
  have ok2: "table_ok s2" and rq2: "ready_queue s2 = q # qs"
    using ok(1) q by (simp_all add: s1_def s2_def)
  have pr2: "cur_prio (tcbs s2 t) = cur_prio (tcbs s t)" and st2: "stat_of s2 t = stat_of s t" for t
    by (simp_all add: s1_def s2_def)
  have cw: "can_wait s2 c" if "?run" using that qc by (simp add: can_wait_def s1_def s2_def)
  have ins: "table_ok s3 \<and> s3 = s2\<lparr>tcbs := (tcbs s2)(c := (tcbs s2 c)\<lparr>stat := THREAD_READY\<rparr>),
      priority_table := (priority_table s2)(prio s2 c := priority_table s2 (prio s2 c) @ [c]),
      ready_group := ready_group s2 OR push_bit (prio s2 c) 1\<rparr>" if run: "?run"
    using insert_waiting [OF ok2 cw [OF run]] run by (simp add: s3_def)
  have ok3: "table_ok s3" using insert_waiting(1) [OF ok2 cw] ok2 by (simp add: s3_def)
  have tc3: "tcbs s3 = (if ?run then (tcbs s)(c := (tcbs s c)\<lparr>yielded := False, stat := THREAD_READY\<rparr>) else tcbs s)"
    using ins by (cases ?run) (simp_all add: s3_def s2_def s1_def)
  have rest3: "lock_nest s3 = lock_nest s" "sched_fault s3 = sched_fault s"
    "sched_halted s3 = sched_halted s" "current_thread s3 = Some q"
    using ins by (cases ?run; simp add: s3_def s2_def s1_def)+
  have sq3: "started (tcbs s3 q)" using qr qc by (simp add: tc3 started_def)
  note rem = remove_table_ok [OF ok3 sq3, of THREAD_RUNNING]
  show "table_ok (switch_to s c q)" using rem(1) by (simp add: sw)
  show "current_thread (switch_to s c q) = Some q" using rem(4) rest3 by (simp add: sw)
  have rq3: "ready_queue s3 = (if ?run then q # prio_insert (\<lambda>t. cur_prio (tcbs s t)) c qs else q # qs)"
  proof (cases ?run)
    case True
    have "\<not> cur_prio (tcbs s c) < cur_prio (tcbs s q)"
      using st True by (auto simp: stays_def word_less_nat_alt)
    then show ?thesis using insert_ready_queue [OF ok2 cw [OF True]] True rq2 pr2
      by (simp add: s3_def)
  qed (simp add: s3_def rq2)
  show "ready_queue (switch_to s c q) =
      (if ?run then prio_insert (\<lambda>t. cur_prio (tcbs s t)) c qs else qs)"
    using remove_ready_queue [OF ok3 sq3] rq3 by (simp add: sw)
  show "stat_of (switch_to s c q) t = (if t = q then THREAD_RUNNING
      else if t = c \<and> ?run then THREAD_READY else stat_of s t)"
    using rem(3) by (auto simp: sw tc3)
  show "yielded (tcbs (switch_to s c q) t) = (yielded (tcbs s t) \<and> \<not> (t = c \<and> ?run))"
    using rem(3) qc by (auto simp: sw tc3)
  show "same_setup s (switch_to s c q)"
    using rem(3,5,6,7) rest3 by (auto simp: same_setup_def sw tc3)
qed

section \<open>Steps\<close>

text \<open>
  What threads and interrupts do to the scheduler, under the conditions the callers are given: a
  control block is initialised while it is not in use and with a priority of the table, a priority
  is changed to one of the table, the scheduler is started once with a thread ready, and the
  processor runs a thread whenever something asks for scheduling.
\<close>

inductive sched_step :: "sched \<Rightarrow> sched \<Rightarrow> bool" where
  s_init: "stat_of s t \<in> {THREAD_INIT, THREAD_CLOSE} \<Longrightarrow> current_thread s \<noteq> Some t \<Longrightarrow> unat p < 32
    \<Longrightarrow> sched_step s (thread_init t p n s)"
| s_startup: "stat_of s t = THREAD_INIT \<Longrightarrow> sched_step s (rt_thread_startup t s)"
| s_start: "current_thread s = None \<Longrightarrow> ready_queue s \<noteq> [] \<Longrightarrow> sched_step s (rt_system_scheduler_start s)"
| s_suspend: "sched_step s (snd (thread_suspend t s))"
| s_resume: "sched_step s (snd (thread_resume t s))"
| s_timeout: "stat_of s t = THREAD_SUSPEND \<Longrightarrow> current_thread s \<noteq> None \<Longrightarrow> sched_step s (thread_timeout t s)"
| s_schedule: "current_thread s \<noteq> None \<Longrightarrow> sched_step s (rt_schedule s)"
| s_yield: "current_thread s \<noteq> None \<Longrightarrow> sched_step s (rt_thread_yield s)"
| s_tick: "current_thread s \<noteq> None \<Longrightarrow> sched_step s (tick_slice s)"
| s_enter: "sched_step s (rt_enter_critical s)"
| s_exit: "sched_step s (rt_exit_critical s)"
| s_prio: "unat p < 32 \<Longrightarrow> sched_step s (change_priority t p s)"
| s_close: "sched_step s (thread_close t s)"
| s_end: "current_thread s = Some t \<Longrightarrow> stat_of s t = THREAD_RUNNING \<Longrightarrow> sched_step s (thread_exit s)"

lemma current_ok_cong:
  "(\<And>t. stat_of s' t = stat_of s t) \<Longrightarrow> current_thread s' = current_thread s \<Longrightarrow>
    current_ok s' \<longleftrightarrow> current_ok s"
  by (simp add: current_ok_def)

lemma current_ok_upd:
  "(\<And>x. stat (f x) = stat x) \<Longrightarrow> current_ok (upd_tcb t f s) \<longleftrightarrow> current_ok s"
  by (rule current_ok_cong) auto

lemma sched_okD:
  assumes "sched_ok s"
  shows "table_ok s" "current_ok s" "\<not> sched_fault s" "\<not> sched_halted s"
  using assms by (simp_all add: sched_ok_def)

lemma schedule_ok:
  assumes ok: "sched_ok s" and c: "current_thread s = Some c"
  shows "sched_ok (rt_schedule s)"
proof (cases "lock_nest s \<noteq> 0 \<or> ready_queue s = []")
  case True
  then show ?thesis using rt_schedule_none [of s] ok by (auto simp: sched_ok_def)
next
  case False
  note o = sched_okD [OF ok]
  from False obtain q qs where l: "lock_nest s = 0" and q: "ready_queue s = q # qs"
    by (cases "ready_queue s") auto
  show ?thesis
  proof (cases "stays s c q")
    case True
    then show ?thesis
      using ok by (simp add: rt_schedule_stay [OF o(1) l c q] sched_ok_def current_ok_upd)
  next
    case st: False
    note w = switch_to_spec [OF o(1,2) c q st]
    have "current_ok (switch_to s c q)"
      unfolding current_ok_def using current_okD(1) [OF o(2)] c w(2,4) by (auto split: if_splits)
    then show ?thesis
      using w(1,6) ok rt_schedule_switch [OF o(1,2) l c q st]
      by (simp add: sched_ok_def same_setup_def)
  qed
qed

lemma current_ok_set_stat:
  assumes "current_ok s" and "x = THREAD_RUNNING \<Longrightarrow> current_thread s = Some t"
    and "x \<in> {THREAD_RUNNING, THREAD_SUSPEND, THREAD_CLOSE} \<or> current_thread s \<noteq> Some t"
  shows "current_ok (set_stat t x s)"
  using assms unfolding current_ok_def by auto

lemma insert_ok:
  assumes ok: "sched_ok s" and t: "stat_of s t = THREAD_SUSPEND"
  shows "sched_ok (rt_schedule_insert_thread t s)"
    and "current_thread (rt_schedule_insert_thread t s) = current_thread s"
proof -
  note o = sched_okD [OF ok]
  have "sched_ok (rt_schedule_insert_thread t s)
      \<and> current_thread (rt_schedule_insert_thread t s) = current_thread s"
  proof (cases "current_thread s = Some t")
    case True
    have "table_ok (set_stat t THREAD_RUNNING s)"
      using o(1) t table_okD(4) [OF o(1), of t] unfolding table_ok_def
      by (auto simp: tcb_ok_def started_def)
    moreover have "current_ok (set_stat t THREAD_RUNNING s)"
      using o(2) True by (auto intro: current_ok_set_stat)
    ultimately show ?thesis using True o by (simp add: rt_schedule_insert_thread_def sched_ok_def)
  next
    case False
    then have w: "can_wait s t" using t by (simp add: can_wait_def)
    note i = insert_waiting [OF o(1) w]
    have "current_ok (set_stat t THREAD_READY s)"
      using o(2) False by (auto intro: current_ok_set_stat)
    then have "current_ok (rt_schedule_insert_thread t s)"
      by (subst current_ok_cong [of _ "set_stat t THREAD_READY s"]) (simp_all add: i(2))
    then show ?thesis using i(1) o by (simp add: sched_ok_def i(2))
  qed
  then show "sched_ok (rt_schedule_insert_thread t s)"
    "current_thread (rt_schedule_insert_thread t s) = current_thread s" by auto
qed

lemma remove_ok:
  assumes ok: "sched_ok s" and t: "started (tcbs s t)" and x: "x = THREAD_SUSPEND \<or> x = THREAD_CLOSE"
  shows "sched_ok (set_stat t x (rt_schedule_remove_thread t s))"
proof -
  note o = sched_okD [OF ok]
  have "x \<noteq> THREAD_READY" "x \<noteq> THREAD_INIT" using x by auto
  note r = remove_table_ok [OF o(1) t this]
  have "current_ok (rt_schedule_remove_thread t s)"
    using current_ok_cong [of "rt_schedule_remove_thread t s" s] o(2) r(3,4) by simp
  then have "current_ok (set_stat t x (rt_schedule_remove_thread t s))"
    by (rule current_ok_set_stat) (use x in auto)
  then show ?thesis using r o by (simp add: sched_ok_def)
qed

text \<open>A change to one thread that is neither ready nor running leaves the rest in order.\<close>

lemma upd_tcb_ok:
  assumes ok: "sched_ok s" and t: "stat_of s t \<noteq> THREAD_READY"
    and f: "tcb_ok (f (tcbs s t))" "stat (f (tcbs s t)) \<noteq> THREAD_READY"
    and st: "stat (f (tcbs s t)) = stat_of s t
      \<or> (stat (f (tcbs s t)) \<noteq> THREAD_RUNNING \<and> current_thread s \<noteq> Some t)"
  shows "sched_ok (upd_tcb t f s)"
proof -
  note o = sched_okD [OF ok]
  have "table_ok (upd_tcb t f s)"
    using table_okD [OF o(1)] t f unfolding table_ok_def by auto
  moreover have "current_ok (upd_tcb t f s)"
    using o(2) st unfolding current_ok_def by auto
  ultimately show ?thesis using o by (simp add: sched_ok_def)
qed

lemma change_priority_ok:
  assumes ok: "sched_ok s" and p: "unat p < 32"
  shows "sched_ok (change_priority t p s)"
proof (cases "stat_of s t = THREAD_READY")
  case False
  have "sched_ok (upd_tcb t (\<lambda>c. c\<lparr>cur_prio := p, number_mask := push_bit (unat p) 1\<rparr>) s)"
    by (rule upd_tcb_ok [OF ok False])
      (use False p table_okD(4) [OF sched_okD(1) [OF ok], of t] in \<open>auto simp: tcb_ok_def started_def\<close>)
  then show ?thesis using False by (simp add: change_priority_def Let_def)
next
  case True
  let ?f = "\<lambda>c. c\<lparr>cur_prio := p, number_mask := push_bit (unat p) 1\<rparr>"
  let ?r = "rt_schedule_remove_thread t s" and ?x = "set_stat t THREAD_SUSPEND"
  have st: "started (tcbs s t)" using True by (simp add: started_def)
  have c: "current_thread s \<noteq> Some t"
    using True current_okD(2) [OF sched_okD(2) [OF ok], of t] by auto
  note r = remove_table_ok [OF sched_okD(1) [OF ok] st, of THREAD_SUSPEND, simplified]
  have "sched_ok (upd_tcb t ?f (?x ?r))"
    by (rule upd_tcb_ok) (use p remove_ok [OF ok st] in \<open>auto simp: tcb_ok_def started_def\<close>)
  moreover have "stat_of (upd_tcb t ?f (?x ?r)) t = THREAD_SUSPEND" by simp
  ultimately have "sched_ok (rt_schedule_insert_thread t (upd_tcb t ?f (?x ?r)))"
    by (rule insert_ok(1))
  also have "rt_schedule_insert_thread t (upd_tcb t ?f (?x ?r)) =
      rt_schedule_insert_thread t (upd_tcb t ?f ?r)"
    using c r(4) p
    by (simp add: rt_schedule_insert_thread_def RT_THREAD_PRIORITY_MAX_def Let_def set_stat_def upd_tcb_def)
  finally show ?thesis using True by (simp add: change_priority_def Let_def)
qed

lemma startup_ok:
  assumes ok: "sched_ok s" and t: "stat_of s t = THREAD_INIT"
  shows "sched_ok (rt_thread_startup t s)"
proof -
  let ?f = "\<lambda>c. c\<lparr>cur_prio := init_prio c, number_mask := push_bit (unat (init_prio c)) 1,
    stat := THREAD_SUSPEND, yielded := False\<rparr>"
  have "unat (init_prio (tcbs s t)) < 32"
    using t table_okD(4) [OF sched_okD(1) [OF ok], of t] by (simp add: tcb_ok_def)
  moreover have "current_thread s \<noteq> Some t"
    using t current_okD(2) [OF sched_okD(2) [OF ok], of t] by auto
  ultimately have u: "sched_ok (upd_tcb t ?f s)"
    by (intro upd_tcb_ok [OF ok]) (auto simp: t tcb_ok_def started_def)
  have "stat_of (upd_tcb t ?f s) t = THREAD_SUSPEND" by simp
  note i = insert_ok [OF u this]
  show ?thesis
    using i schedule_ok [OF i(1)] t
    by (auto simp: rt_thread_startup_def thread_resume_def Let_def)
qed

lemma suspend_ok: "sched_ok s \<Longrightarrow> sched_ok (snd (thread_suspend t s))"
  using remove_ok [of s t THREAD_SUSPEND] current_okD(1) [OF sched_okD(2), of s t]
  by (auto simp: thread_suspend_def started_def)

lemma resume_ok: "sched_ok s \<Longrightarrow> sched_ok (snd (thread_resume t s))"
  using insert_ok(1) [of s t] by (simp add: thread_resume_def)

lemma timeout_ok:
  "sched_ok s \<Longrightarrow> stat_of s t = THREAD_SUSPEND \<Longrightarrow> current_thread s \<noteq> None \<Longrightarrow> sched_ok (thread_timeout t s)"
  using insert_ok [of s t] schedule_ok by (auto simp: thread_timeout_def)

text \<open>The slice and the flag of a thread play no part in the invariant.\<close>

lemma slice_ok [simp]:
  "sched_ok (upd_tcb t (\<lambda>x. x\<lparr>remaining_tick := g x\<rparr>) s) \<longleftrightarrow> sched_ok s"
  "sched_ok (upd_tcb t (\<lambda>x. x\<lparr>remaining_tick := g x, yielded := b\<rparr>) s) \<longleftrightarrow> sched_ok s"
  by (simp_all add: sched_ok_def current_ok_upd)

lemma yield_ok: "sched_ok s \<Longrightarrow> current_thread s \<noteq> None \<Longrightarrow> sched_ok (rt_thread_yield s)"
  by (auto simp: rt_thread_yield_def intro!: schedule_ok)

lemma tick_ok: "sched_ok s \<Longrightarrow> current_thread s \<noteq> None \<Longrightarrow> sched_ok (tick_slice s)"
  by (auto simp: tick_slice_def Let_def simp del: fun_upd_apply intro!: schedule_ok)

lemma lock_ok: "sched_ok s \<Longrightarrow> sched_ok (s\<lparr>lock_nest := n\<rparr>)"
  using current_ok_cong [of "s\<lparr>lock_nest := n\<rparr>" s] by (simp add: sched_ok_def)

lemma exit_critical_ok: "sched_ok s \<Longrightarrow> sched_ok (rt_exit_critical s)"
  using lock_ok [of s "lock_nest s - 1"] lock_ok [of s 0] schedule_ok [of "s\<lparr>lock_nest := 0\<rparr>"]
  by (auto simp: rt_exit_critical_def Let_def)

lemma close_upd_ok:
  assumes ok: "sched_ok s" and t: "started (tcbs s t)"
  shows "sched_ok (upd_tcb t (\<lambda>c. c\<lparr>stat := THREAD_CLOSE, yielded := False\<rparr>) (rt_schedule_remove_thread t s))"
proof -
  let ?x = "set_stat t THREAD_CLOSE (rt_schedule_remove_thread t s)"
  have "sched_ok ?x" using remove_ok [OF ok t] by simp
  then have "sched_ok (upd_tcb t (\<lambda>c. c\<lparr>stat := THREAD_CLOSE, yielded := False\<rparr>) ?x)"
    by (rule upd_tcb_ok) (auto simp: tcb_ok_def started_def)
  then show ?thesis by (simp add: set_stat_def upd_tcb_def)
qed

lemma close_ok:
  assumes ok: "sched_ok s"
  shows "sched_ok (thread_close t s)"
proof -
  consider "stat_of s t = THREAD_CLOSE" | "stat_of s t = THREAD_INIT" | "started (tcbs s t)"
    by (cases "stat_of s t") (auto simp: started_def)
  then show ?thesis
  proof cases
    case 2
    have "current_thread s \<noteq> Some t"
      using 2 current_okD(2) [OF sched_okD(2) [OF ok], of t] by auto
    then have "sched_ok (upd_tcb t (\<lambda>c. c\<lparr>stat := THREAD_CLOSE, yielded := False\<rparr>) s)"
      by (intro upd_tcb_ok [OF ok]) (auto simp: 2 tcb_ok_def started_def)
    then show ?thesis using 2 by (simp add: thread_close_def)
  next
    case 3
    then show ?thesis using close_upd_ok [OF ok 3] by (auto simp: thread_close_def started_def)
  qed (simp add: thread_close_def ok)
qed

lemma start_ok:
  assumes ok: "sched_ok s" and c: "current_thread s = None" and q: "ready_queue s \<noteq> []"
  shows "sched_ok (rt_system_scheduler_start s)"
proof -
  note o = sched_okD [OF ok]
  obtain q qs where q: "ready_queue s = q # qs" using q by (cases "ready_queue s") auto
  have r: "stat_of s q = THREAD_READY" using ready_queue_members [OF o(1), of q] q by simp
  let ?s = "s\<lparr>current_thread := Some q\<rparr>"
  have t: "table_ok ?s" using o(1) by simp
  have st: "started (tcbs ?s q)" using r by (simp add: started_def)
  note m = remove_table_ok [OF t st, of THREAD_RUNNING, simplified]
  have "current_ok (set_stat q THREAD_RUNNING (rt_schedule_remove_thread q ?s))"
    using o(2) c unfolding current_ok_def by (auto simp: m(3,4))
  then show ?thesis
    using m o highest_top(2) [OF o(1) q] by (simp add: rt_system_scheduler_start_def sched_ok_def)
qed

lemma init_ok:
  assumes ok: "sched_ok s" and t: "stat_of s t \<in> {THREAD_INIT, THREAD_CLOSE}" "current_thread s \<noteq> Some t"
    and p: "unat p < 32"
  shows "sched_ok (thread_init t p n s)"
  using t p by (auto simp: thread_init_def RT_THREAD_PRIORITY_MAX_def tcb_ok_def started_def
    intro!: upd_tcb_ok [OF ok])

lemma sched_step_ok: "sched_step s s' \<Longrightarrow> sched_ok s \<Longrightarrow> sched_ok s'"
proof (induction rule: sched_step.induct)
  case (s_schedule s)
  then show ?case using schedule_ok by auto
next
  case (s_end s t)
  then show ?case
    using schedule_ok [OF close_upd_ok, of s t t] 
      remove_table_ok(4) [OF sched_okD(1), of s t THREAD_CLOSE]
    by (auto simp: thread_exit_def started_def)
next
  case (s_enter s)
  then show ?case using lock_ok [of s "lock_nest s + 1"]
    by (simp add: rt_enter_critical_def)
qed (simp_all add: init_ok startup_ok start_ok suspend_ok resume_ok timeout_ok yield_ok tick_ok
      exit_critical_ok change_priority_ok close_ok)

section \<open>Taking turns\<close>

lemma filter_tables:
  assumes "\<And>p t. t \<in> set (f p) \<Longrightarrow> pr t = p"
  shows "filter (\<lambda>t. pr t = p) (concat (map f [0..<n])) = (if p < n then f p else [])"
proof (induction n)
  case (Suc n)
  have "filter (\<lambda>t. pr t = p) (f n) = (if p = n then f n else [])"
    using assms by (auto simp: filter_id_conv filter_empty_conv)
  then show ?case using Suc by auto
qed simp

lemma priority_table_filter:
  "table_ok s \<Longrightarrow> p < 32 \<Longrightarrow> priority_table s p = filter (\<lambda>t. prio s t = p) (ready_queue s)"
  using filter_tables [of "priority_table s" "prio s" p 32] table_okD(3) [of s]
  by (simp add: ready_queue_def)

lemma filter_prio_insert:
  fixes pr :: "nat \<Rightarrow> u8"
  assumes "sorted_wrt (\<lambda>a b. pr a \<le> pr b) qs"
  shows "filter (\<lambda>t. unat (pr t) = p) (prio_insert pr c qs) =
    filter (\<lambda>t. unat (pr t) = p) qs @ (if unat (pr c) = p then [c] else [])"
  using assms
proof (induction qs)
  case (Cons q qs)
  have "unat (pr x) \<noteq> unat (pr c)" if "pr c < pr q" "x \<in> set (q # qs)" for x
    using Cons.prems that by (fastforce simp: word_less_nat_alt word_le_nat_alt)
  then show ?case using Cons by (auto simp: filter_empty_conv word_less_nat_alt)
qed simp

text \<open>The thread that runs is one of the most urgent; its peers wait in the list of its priority.\<close>

definition sharing :: "sched \<Rightarrow> nat \<Rightarrow> nat list \<Rightarrow> bool" where
  "sharing s c ts \<longleftrightarrow> sched_ok s \<and> lock_nest s = 0 \<and> current_thread s = Some c
     \<and> stat_of s c = THREAD_RUNNING \<and> priority_table s (prio s c) = ts
     \<and> (\<forall>p < prio s c. priority_table s p = [])"

lemma sharing_queue:
  assumes sh: "sharing s c ts" and q: "ready_queue s = q # qs"
  shows "stays s c q \<longleftrightarrow> ts = [] \<or> \<not> yielded (tcbs s c)" and "ts \<noteq> [] \<Longrightarrow> q = hd ts"
    and "prio s c \<le> prio s q"
proof -
  have ok: "table_ok s" using sh by (simp add: sharing_def sched_ok_def)
  have c: "prio s c < 32" using table_ok_started(1) [OF ok, of c] sh by (simp add: sharing_def)
  have qt: "q \<in> set (priority_table s (prio s q))"
    using table_okD(3) [OF ok] ready_queue_members [OF ok, of q] q by simp
  then have "priority_table s (prio s q) \<noteq> []" by auto
  then show le: "prio s c \<le> prio s q" using sh by (auto simp: sharing_def not_le [symmetric])
  have f: "ts = filter (\<lambda>t. prio s t = prio s c) (q # qs)"
    using priority_table_filter [OF ok c] sh q by (simp add: sharing_def)
  have s: "prio s q \<le> prio s t" if "t \<in> set qs" for t
    using sorted_ready_queue [OF ok] q that by (simp add: word_le_nat_alt)
  have e: "ts = [] \<longleftrightarrow> prio s c \<noteq> prio s q"
    using f le s by (auto simp: filter_empty_conv dest!: s intro: le_antisym)
  show "ts \<noteq> [] \<Longrightarrow> q = hd ts" using f e by auto
  show "stays s c q \<longleftrightarrow> ts = [] \<or> \<not> yielded (tcbs s c)"
    using sh le e by (auto simp: stays_def sharing_def)
qed

lemma sharing_upd:
  "(\<And>x. stat (f x) = stat x \<and> cur_prio (f x) = cur_prio x) \<Longrightarrow> sched_ok (upd_tcb t f s) \<longleftrightarrow> sched_ok s
    \<Longrightarrow> sharing (upd_tcb t f s) c ts \<longleftrightarrow> sharing s c ts"
  by (auto simp: sharing_def)

text \<open>Giving way: the first of the peers runs, and the thread that ran is now the last of them.\<close>

lemma sharing_rotate:
  assumes sh: "sharing s c ts" and y: "yielded (tcbs s c)"
  shows "sharing (rt_schedule s) (hd (ts @ [c])) (tl (ts @ [c]))" and "same_setup s (rt_schedule s)"
proof -
  have ok: "table_ok s" "current_ok s" and l: "lock_nest s = 0" and c: "current_thread s = Some c"
    and run: "stat_of s c = THREAD_RUNNING" and okk: "sched_ok s"
    using sh by (simp_all add: sharing_def sched_ok_def)
  have "sharing (rt_schedule s) (hd (ts @ [c])) (tl (ts @ [c])) \<and> same_setup s (rt_schedule s)"
  proof (cases "ready_queue s")
    case Nil
    then have "ts = []" using ready_queue_members [OF ok(1)] sh table_okD(3) [OF ok(1)]
      by (metis sharing_def ex_in_conv set_empty)
    then show ?thesis using rt_schedule_none [of s] Nil ok(1) sh by (simp add: same_setup_def)
  next
    case (Cons q qs)
    note shq = sharing_queue [OF sh Cons]
    show ?thesis
    proof (cases "ts = []")
      case True
      then show ?thesis
        using rt_schedule_stay [OF ok(1) l c Cons] shq(1) sh
        by (simp add: sharing_upd same_setup_def sched_ok_def current_ok_upd)
    next
      case False
      then have st: "\<not> stays s c q" using shq(1) y by simp
      note w = switch_to_spec [OF ok c Cons st] and sw = rt_schedule_switch [OF ok l c Cons st]
      let ?s = "switch_to s c q"
      have pr: "prio ?s t = prio s t" for t using w(6) by (simp add: same_setup_def)
      have pc: "prio s q = prio s c"
        using st run shq(3) by (auto simp: stays_def)
      have c32: "prio s c < 32" using table_ok_started(1) [OF ok(1), of c] run by simp
      have sqs: "sorted_wrt (\<lambda>a b. cur_prio (tcbs s a) \<le> cur_prio (tcbs s b)) qs"
        using sorted_ready_queue [OF ok(1)] Cons by simp
      have tb: "priority_table ?s p = (if p = prio s c then tl ts @ [c] else priority_table s p)"
        if p: "p < 32" for p
      proof -
        have "priority_table ?s p = filter (\<lambda>t. prio s t = p) qs @ (if prio s c = p then [c] else [])"
          using priority_table_filter [OF w(1) p] w(3) run filter_prio_insert [OF sqs]
          by (simp add: pr)
        moreover have "priority_table s p = filter (\<lambda>t. prio s t = p) (q # qs)"
          using priority_table_filter [OF ok(1) p] Cons by simp
        ultimately show ?thesis using sh pc by (auto simp: sharing_def)
      qed
      have "sched_ok ?s" using schedule_ok [OF okk c] sw by simp
      moreover have "hd (ts @ [c]) = q" "tl (ts @ [c]) = tl ts @ [c]" using shq(2) False by simp_all
      ultimately show ?thesis
        using w sh c32 pc by (auto simp: sw sharing_def pr tb same_setup_def)
    qed
  qed
  then show "sharing (rt_schedule s) (hd (ts @ [c])) (tl (ts @ [c]))" "same_setup s (rt_schedule s)"
    by auto
qed

text \<open>A round in which each thread of a priority has slices of \<open>k\<close> ticks.\<close>

definition in_round :: "u32 \<Rightarrow> sched \<Rightarrow> nat list \<Rightarrow> nat \<Rightarrow> bool" where
  "in_round k s xs r \<longleftrightarrow> (\<exists>c ts. xs = c # ts \<and> sharing s c ts \<and> unat (remaining_tick (tcbs s c)) = r
     \<and> (\<forall>t \<in> set ts. remaining_tick (tcbs s t) = k) \<and> (\<forall>t \<in> set xs. init_tick (tcbs s t) = k))"

lemma sharing_distinct:
  assumes "sharing s c ts"
  shows "c \<notin> set ts"
proof -
  have "table_ok s" "stat_of s c = THREAD_RUNNING" "priority_table s (prio s c) = ts"
    using assms by (auto simp: sharing_def sched_ok_def)
  then show ?thesis using table_okD(3) [of s c "prio s c"] by simp
qed

lemma tick_within:
  assumes "in_round k s (c # ts) (Suc (Suc r))"
  shows "in_round k (tick_slice s) (c # ts) (Suc r)"
proof -
  let ?f = "\<lambda>x. x\<lparr>remaining_tick := remaining_tick x - 1\<rparr>"
  have sh: "sharing s c ts" and r: "unat (remaining_tick (tcbs s c)) = Suc (Suc r)"
    using assms by (auto simp: in_round_def)
  have "remaining_tick (tcbs s c) \<noteq> 0" using r by auto
  then have u: "unat (remaining_tick (tcbs s c) - 1) = Suc r" using r by (simp add: unat_minus_one)
  have "tick_slice s = upd_tcb c ?f s"
    using sh u by (auto simp: tick_slice_def sharing_def Let_def)
  then show ?thesis
    using assms u sharing_distinct [OF sh]
    by (auto simp: in_round_def sharing_upd)
qed

lemma tick_end:
  assumes i: "in_round k s (c # ts) (Suc 0)"
  shows "in_round k (tick_slice s) (ts @ [c]) (unat k)"
proof -
  let ?f = "\<lambda>x. x\<lparr>remaining_tick := remaining_tick x - 1\<rparr>"
    and ?g = "\<lambda>x. x\<lparr>remaining_tick := init_tick x, yielded := True\<rparr>"
  let ?s = "upd_tcb c ?g (upd_tcb c ?f s)"
  have sh: "sharing s c ts" and r: "unat (remaining_tick (tcbs s c)) = Suc 0"
    and k: "\<forall>t \<in> set ts. remaining_tick (tcbs s t) = k" "\<forall>t \<in> set (c # ts). init_tick (tcbs s t) = k"
    using i by (auto simp: in_round_def)
  have "remaining_tick (tcbs s c) - 1 = 0" using r by (metis One_nat_def diff_self unat_1 word_unat_eq_iff)
  then have t: "tick_slice s = rt_schedule ?s"
    using sh by (simp add: tick_slice_def sharing_def Let_def)
  have "sharing ?s c ts" using sh by (simp add: sharing_upd)
  note rot = sharing_rotate [OF this]
  have set_up: "remaining_tick (tcbs (rt_schedule ?s) t) = k" "init_tick (tcbs (rt_schedule ?s) t) = k"
    if "t \<in> set (ts @ [c])" for t
    using rot(2) that k by (auto simp: same_setup_def)
  obtain d ds where d: "ts @ [c] = d # ds" by (cases "ts @ [c]") auto
  then have "set (ts @ [c]) = insert d (set ds)" by simp
  then have "remaining_tick (tcbs (rt_schedule ?s) d) = k"
    "\<forall>t \<in> set ds. remaining_tick (tcbs (rt_schedule ?s) t) = k"
    "\<forall>t \<in> set (d # ds). init_tick (tcbs (rt_schedule ?s) t) = k"
    using set_up by simp_all
  moreover have "sharing (rt_schedule ?s) d ds" using rot(1) by (simp add: d)
  ultimately show ?thesis unfolding t in_round_def d by blast
qed

lemma round_ticks:
  assumes "in_round k s xs (unat k)" and "0 < unat k"
  shows "in_round k ((tick_slice ^^ j) s) (rotate (j div unat k) xs) (unat k - j mod unat k)"
proof (induction j)
  case (Suc j)
  let ?K = "unat k" and ?s = "(tick_slice ^^ j) s"
  obtain c ts where x: "rotate (j div ?K) xs = c # ts"
    using Suc by (auto simp: in_round_def)
  have m: "j mod ?K < ?K" using assms(2) by simp
  show ?case
  proof (cases "Suc (j mod ?K) = ?K")
    case True
    then have "?K - j mod ?K = Suc 0" by simp
    then have "in_round k (tick_slice ?s) (ts @ [c]) ?K" using Suc x tick_end [of k ?s c ts] by simp
    moreover have "rotate (Suc (j div ?K)) xs = ts @ [c]" using x by simp
    moreover have "Suc j div ?K = Suc (j div ?K)" "Suc j mod ?K = 0"
      using True by (simp_all add: div_Suc mod_Suc)
    ultimately show ?thesis by simp
  next
    case False
    then obtain r where r: "?K - j mod ?K = Suc (Suc r)" "?K - Suc (j mod ?K) = Suc r"
      using m by (metis Suc_diff_Suc Suc_lessI)
    then have "in_round k (tick_slice ?s) (c # ts) (Suc r)" using Suc x tick_within [of k ?s c ts r] by simp
    moreover have "Suc j div ?K = j div ?K" "Suc j mod ?K = Suc (j mod ?K)"
      using False by (simp_all add: div_Suc mod_Suc)
    ultimately show ?thesis using x r by simp
  qed
qed (use assms in simp)

section \<open>Properties\<close>

text \<open>The kernel at power-up: zeroed objects, nothing running; the table ends at 32.\<close>

definition boot_state :: "sched \<Rightarrow> bool" where
  "boot_state s \<longleftrightarrow> (\<forall>t. stat_of s t = THREAD_INIT \<and> unat (init_prio (tcbs s t)) < 32)
     \<and> (\<forall>p \<ge> 32. priority_table s p = []) \<and> current_thread s = None \<and> \<not> sched_fault s \<and> \<not> sched_halted s"

lemma boot_ok:
  assumes "boot_state s"
  shows "sched_ok (rt_system_scheduler_init s)"
proof -
  have "priority_table (rt_system_scheduler_init s) p = []" for p
    using assms by (auto simp: boot_state_def rt_system_scheduler_init_def RT_THREAD_PRIORITY_MAX_def)
  then show ?thesis
    using assms by (auto simp: sched_ok_def table_ok_def current_ok_def tcb_ok_def started_def
        boot_state_def rt_system_scheduler_init_def)
qed

lemma sched_steps_ok: "sched_step\<^sup>*\<^sup>* s s' \<Longrightarrow> sched_ok s \<Longrightarrow> sched_ok s'"
  by (induction rule: rtranclp_induct) (auto intro: sched_step_ok)

text \<open>For the examples: two threads of priority 10 with slices of 2 ticks, and an idle thread.\<close>

definition zero_sched :: sched where
  "zero_sched = \<lparr>tcbs = (\<lambda>_. \<lparr>stat = THREAD_INIT, yielded = False, init_prio = 0, cur_prio = 0,
     number_mask = 0, init_tick = 0, remaining_tick = 0\<rparr>), priority_table = (\<lambda>_. []), ready_group = 0,
     lock_nest = 0, current_thread = None, running_prio = 0, sched_halted = False, sched_fault = False\<rparr>"

definition demo_ready :: sched where
  "demo_ready = rt_thread_startup 3 (rt_thread_startup 2 (rt_thread_startup 1
     (thread_init 3 31 2 (thread_init 2 10 2 (thread_init 1 10 2 (rt_system_scheduler_init zero_sched))))))"

definition demo :: sched where
  "demo = rt_system_scheduler_start demo_ready"

lemma boot_zero: "boot_state zero_sched"
  by (simp add: boot_state_def zero_sched_def)

lemma demo_ready_reached: "sched_step\<^sup>*\<^sup>* (rt_system_scheduler_init zero_sched) demo_ready"
proof -
  let ?i = "rt_system_scheduler_init zero_sched"
  let ?a = "thread_init 1 10 2 ?i"
  let ?b = "thread_init 2 10 2 ?a"
  let ?c = "thread_init 3 31 2 ?b"
  let ?d = "rt_thread_startup 1 ?c"
  let ?e = "rt_thread_startup 2 ?d"
  have "sched_step ?i ?a" "sched_step ?a ?b" "sched_step ?b ?c" by (rule s_init; code_simp)+
  moreover have "sched_step ?c ?d" "sched_step ?d ?e" by (rule s_startup; code_simp)+
  moreover have "sched_step ?e demo_ready" unfolding demo_ready_def by (rule s_startup) code_simp
  ultimately show ?thesis by (meson r_into_rtranclp rtranclp.rtrancl_into_rtrancl rtranclp.rtrancl_refl)
qed

lemma demo_reached: "sched_step\<^sup>*\<^sup>* (rt_system_scheduler_init zero_sched) demo"
proof -
  have "sched_step demo_ready demo" unfolding demo_def by (rule s_start; code_simp)
  then show ?thesis using demo_ready_reached by simp
qed

lemma demo_ok: "sched_ok demo"
  using sched_steps_ok [OF demo_reached boot_ok [OF boot_zero]] .

text \<open>C5: 
  from power-up, whatever threads and interrupts do in whatever order (create, start, suspend,
  resume, time out, yield, change priorities, lock and unlock, close, end, tick), the bitmap and the
  32 lists stay in step with the states of the threads: the lists hold the ready threads, each once
  and under its priority, at most one thread runs and it is the current one, no list or bitmap is
  accessed outside, and no assertion fails.
\<close>

theorem sched_reachable_ok:
  assumes "boot_state s0" and "sched_step\<^sup>*\<^sup>* (rt_system_scheduler_init s0) s"
  shows "sched_ok s \<and> distinct (ready_queue s) \<and> set (ready_queue s) = {t. stat_of s t = THREAD_READY}
    \<and> {t. stat_of s t = THREAD_RUNNING} \<subseteq> set_option (current_thread s)"
proof -
  have ok: "sched_ok s" using sched_steps_ok [OF assms(2) boot_ok [OF assms(1)]] .
  note o = sched_okD [OF ok]
  show ?thesis
    using ok distinct_ready_queue [OF o(1)] ready_queue_members [OF o(1)] current_okD(1) [OF o(2)]
    by (auto simp: elem_set)
qed

theorem sched_reachable_ok_witness:
  "boot_state zero_sched \<and> sched_step\<^sup>*\<^sup>* (rt_system_scheduler_init zero_sched) demo \<and> sched_ok demo
    \<and> ready_queue demo = [2, 3] \<and> current_thread demo = Some 1"
proof -
  have "ready_queue demo = [2, 3]" "current_thread demo = Some 1" by code_simp+
  then show ?thesis using sched_reachable_ok [OF boot_zero demo_reached] boot_zero demo_reached by blast
qed

lemma schedule_picks:
  assumes ok: "sched_ok s" and l: "lock_nest s = 0" and c: "current_thread s = Some c"
    and some: "stat_of s u \<in> {THREAD_READY, THREAD_RUNNING}"
  shows "\<exists>r. current_thread (rt_schedule s) = Some r \<and> stat_of (rt_schedule s) r = THREAD_RUNNING
    \<and> (\<forall>t. stat_of s t \<in> {THREAD_READY, THREAD_RUNNING} \<longrightarrow> prio s r \<le> prio s t)
    \<and> (\<forall>t. stat_of (rt_schedule s) t \<in> {THREAD_READY, THREAD_RUNNING} \<longleftrightarrow>
          stat_of s t \<in> {THREAD_READY, THREAD_RUNNING})
    \<and> (stat_of s c = THREAD_RUNNING \<and> r \<noteq> c \<longrightarrow>
          prio s r < prio s c \<or> prio s r = prio s c \<and> yielded (tcbs s c))"
proof (cases "ready_queue s")
  case Nil
  note o = sched_okD [OF ok]
  have none: "stat_of s t \<noteq> THREAD_READY" for t using ready_queue_members [OF o(1), of t] Nil by simp
  have only: "t = c" if "stat_of s t = THREAD_RUNNING" for t
    using current_okD(1) [OF o(2) that] c by simp
  have u: "stat_of s u = THREAD_RUNNING" using some none [of u] by simp
  have "stat_of s c = THREAD_RUNNING" using u only [OF u] by simp
  moreover have "prio s c \<le> prio s t" if "stat_of s t \<in> {THREAD_READY, THREAD_RUNNING}" for t
    using that none [of t] only [of t] by auto
  moreover have "rt_schedule s = s" using rt_schedule_none [of s] Nil o(1) by simp
  ultimately show ?thesis using c by simp
next
  case (Cons q qs)
  note o = sched_okD [OF ok]
  have run: "t = c" if "stat_of s t = THREAD_RUNNING" for t
    using current_okD(1) [OF o(2) that] c by simp
  have q: "stat_of s q = THREAD_READY" using ready_queue_members [OF o(1), of q] Cons by simp
  have top: "ready_top s = Some q" using ready_top_hd [OF o(1)] Cons by simp
  have least: "prio s q \<le> prio s t" if "stat_of s t = THREAD_READY" for t
    using rq.top_least [OF o(1) top, of t] ready_queue_members [OF o(1), of t] that
    by (simp add: word_le_nat_alt)
  show ?thesis
  proof (cases "stays s c q")
    case True
    then have cq: "prio s c \<le> prio s q" and rc: "stat_of s c = THREAD_RUNNING"
      by (auto simp: stays_def)
    have "prio s c \<le> prio s t" if "stat_of s t \<in> {THREAD_READY, THREAD_RUNNING}" for t
      using that run [of t] least [of t] cq by auto
    moreover have "stat_of (rt_schedule s) t = stat_of s t" for t
      by (simp add: rt_schedule_stay [OF o(1) l c Cons True])
    moreover have "current_thread (rt_schedule s) = Some c"
      by (simp add: rt_schedule_stay [OF o(1) l c Cons True] c)
    ultimately show ?thesis using rc by simp
  next
    case False
    note w = switch_to_spec [OF o(1,2) c Cons False] and sw = rt_schedule_switch [OF o(1,2) l c Cons False]
    have "prio s q \<le> prio s t" if "stat_of s t \<in> {THREAD_READY, THREAD_RUNNING}" for t
      using that least [of t] run [of t] False by (auto simp: stays_def)
    moreover have "stat_of (rt_schedule s) t \<in> {THREAD_READY, THREAD_RUNNING} \<longleftrightarrow>
        stat_of s t \<in> {THREAD_READY, THREAD_RUNNING}" for t
      using q by (auto simp: sw w(4))
    moreover have "prio s q < prio s c \<or> prio s q = prio s c \<and> yielded (tcbs s c)"
      if "stat_of s c = THREAD_RUNNING" using False that by (auto simp: stays_def)
    moreover have "current_thread (rt_schedule s) = Some q" "stat_of (rt_schedule s) q = THREAD_RUNNING"
      by (simp_all add: sw w(2,4))
    ultimately show ?thesis by blast
  qed
qed

text \<open>C9: 
  with the scheduler unlocked, after \<open>rt_schedule\<close> a thread runs that is at least as urgent as
  every thread that could run before, a thread that ran keeps running unless a more urgent one is
  ready or it has yielded to one of its own priority, and no thread stops or starts to be able to
  run.
\<close>

theorem schedule_most_urgent:
  assumes ok: "sched_ok s" and l: "lock_nest s = 0" and c: "current_thread s = Some c"
    and some: "stat_of s u \<in> {THREAD_READY, THREAD_RUNNING}"
  shows "\<exists>r. current_thread (rt_schedule s) = Some r \<and> stat_of (rt_schedule s) r = THREAD_RUNNING
    \<and> (\<forall>t. stat_of s t \<in> {THREAD_READY, THREAD_RUNNING} \<longrightarrow> prio s r \<le> prio s t)
    \<and> (\<forall>t. stat_of (rt_schedule s) t \<in> {THREAD_READY, THREAD_RUNNING} \<longleftrightarrow>
          stat_of s t \<in> {THREAD_READY, THREAD_RUNNING})
    \<and> (stat_of s c = THREAD_RUNNING \<and> r \<noteq> c \<longrightarrow>
          prio s r < prio s c \<or> prio s r = prio s c \<and> yielded (tcbs s c))"
  by (rule schedule_picks [OF assms])

theorem schedule_most_urgent_witness:
  "lock_nest demo = 0 \<and> current_thread demo = Some 1 \<and> stat_of demo 2 = THREAD_READY
    \<and> (\<exists>r. current_thread (rt_schedule demo) = Some r \<and> stat_of (rt_schedule demo) r = THREAD_RUNNING)"
proof -
  have "lock_nest demo = 0" "current_thread demo = Some 1" "stat_of demo 2 = THREAD_READY"
    by code_simp+
  then show ?thesis using schedule_most_urgent [OF demo_ok, of 1 2] by auto
qed

text \<open>C19: 
  threads of one priority share the processor by slices. While no more urgent thread is ready,
  and with slices of \<open>k\<close> ticks, after \<open>j\<close> ticks the thread that runs is the one whose turn it is:
  number \<open>j div k\<close> of the round that starts with the thread that runs and goes on in the order of
  the ready list. Each thread runs for \<open>k\<close> ticks in each round.
\<close>

theorem time_slices_take_turns:
  assumes ok: "sched_ok s" "lock_nest s = 0" "current_thread s = Some c" "stat_of s c = THREAD_RUNNING"
    and urgent: "\<forall>p < prio s c. priority_table s p = []"
    and k: "0 < unat k"
    and slices: "\<forall>t \<in> set (c # priority_table s (prio s c)).
      init_tick (tcbs s t) = k \<and> remaining_tick (tcbs s t) = k"
  shows "current_thread ((tick_slice ^^ j) s) =
      Some ((c # priority_table s (prio s c)) ! (j div unat k mod Suc (length (priority_table s (prio s c)))))"
proof -
  let ?xs = "c # priority_table s (prio s c)"
  have "in_round k s ?xs (unat k)" using assms by (auto simp: in_round_def sharing_def)
  then have i: "in_round k ((tick_slice ^^ j) s) (rotate (j div unat k) ?xs) (unat k - j mod unat k)"
    by (rule round_ticks) (rule k)
  have "hd (rotate (j div unat k) ?xs) = ?xs ! (j div unat k mod length ?xs)"
    by (rule hd_rotate_conv_nth) simp
  moreover have "current_thread ((tick_slice ^^ j) s) = Some (hd (rotate (j div unat k) ?xs))"
    using i by (auto simp: in_round_def sharing_def)
  ultimately show ?thesis by simp
qed

theorem time_slices_take_turns_witness:
  "stat_of demo 1 = THREAD_RUNNING \<and> prio demo 1 = 10 \<and> priority_table demo 10 = [2]
    \<and> current_thread ((tick_slice ^^ 7) demo) = Some 2"
proof -
  have d: "lock_nest demo = 0" "current_thread demo = Some 1" "stat_of demo 1 = THREAD_RUNNING"
    "prio demo 1 = 10" "priority_table demo 10 = [2]" "\<forall>p < 10. priority_table demo p = []"
    "\<forall>t \<in> set [1, 2]. init_tick (tcbs demo t) = 2 \<and> remaining_tick (tcbs demo t) = 2"
    by code_simp+
  moreover have "[1, 2 :: nat] ! (7 div unat (2 :: u32) mod Suc (length [2 :: nat])) = 2" by code_simp
  ultimately show ?thesis using time_slices_take_turns [OF demo_ok, of 1 2 7] by simp
qed

text \<open>C21: 
  the bitmap and the lists are one queue by priority and then by arrival. Making a thread ready
  puts it behind the ready threads at least as urgent and before the others, taking one out leaves
  the order of the rest, the search by the bitmap finds the first of the queue, and it finds none
  only when no thread is ready.
\<close>

theorem ready_table_refines_queue:
  assumes ok: "table_ok s" and w: "can_wait s t" and r: "stat_of s u = THREAD_READY"
  shows "ready_queue (rt_schedule_insert_thread t s) =
      prio_insert (\<lambda>x. cur_prio (tcbs s x)) t (ready_queue s)
    \<and> ready_queue (rt_schedule_remove_thread u s) = remove1 u (ready_queue s)
    \<and> fst (get_highest_priority_thread s) = Some (hd (ready_queue s))
    \<and> ready_top (rt_schedule_insert_thread t s) =
        Some (if cur_prio (tcbs s t) < cur_prio (tcbs s (hd (ready_queue s))) then t else hd (ready_queue s))"
proof -
  have u: "u \<in> set (ready_queue s)" using ready_queue_members [OF ok] r by simp
  then obtain q qs where q: "ready_queue s = q # qs" by (cases "ready_queue s") auto
  then have top: "ready_top s = Some q" using ready_top_hd [OF ok] by simp
  have "ready_top (rt_schedule_insert_thread t s) = Some (if cur_prio (tcbs s t) < cur_prio (tcbs s q) then t else q)"
    using rq.put_waits [OF ok w top] rq.put_preempts [OF ok w top] by auto
  then show ?thesis
    using insert_ready_queue [OF ok w] remove_ready_queue [OF ok, of u] r q highest_top(2) [OF ok q]
    by (simp add: started_def)
qed

theorem ready_table_refines_queue_witness:
  "ready_queue (rt_schedule_insert_thread 1 (snd (thread_suspend 1 (rt_thread_yield demo)))) = [1, 3]"
proof -
  let ?s = "snd (thread_suspend 1 (rt_thread_yield demo))"
  have ok: "sched_ok ?s" by (intro suspend_ok yield_ok demo_ok; code_simp)
  have "can_wait ?s 1" unfolding can_wait_def by code_simp
  moreover have "stat_of ?s 3 = THREAD_READY" by code_simp
  moreover have "prio_insert (\<lambda>x. cur_prio (tcbs ?s x)) 1 (ready_queue ?s) = [1, 3]" by code_simp
  ultimately show ?thesis
    using ready_table_refines_queue [OF sched_okD(1) [OF ok], of 1 3] by simp
qed

lemma locked_schedule: "lock_nest s \<noteq> 0 \<Longrightarrow> rt_schedule s = s"
  by (rule rt_schedule_none) simp

lemma insert_current [simp]:
  "current_thread (rt_schedule_insert_thread t s) = current_thread s"
  "lock_nest (rt_schedule_insert_thread t s) = lock_nest s"
  by (simp_all add: rt_schedule_insert_thread_def Let_def)

lemma remove_current [simp]:
  "current_thread (rt_schedule_remove_thread t s) = current_thread s"
  "lock_nest (rt_schedule_remove_thread t s) = lock_nest s"
  by (simp_all add: rt_schedule_remove_thread_def Let_def)

lemma rt_schedule_lock [simp]: "lock_nest (rt_schedule s) = lock_nest s"
  by (auto simp: rt_schedule_def Let_def split: option.splits prod.splits)

lemma unlock_level:
  "0 < sint (lock_nest (rt_exit_critical s)) \<Longrightarrow> current_thread (rt_exit_critical s) = current_thread s"
  by (auto simp: rt_exit_critical_def Let_def split: if_splits)

lemma resume_current [simp]:
  "current_thread (snd (thread_suspend t s)) = current_thread s"
  "current_thread (snd (thread_resume t s)) = current_thread s"
  "lock_nest (snd (thread_resume t s)) = lock_nest s"
  by (simp_all add: thread_suspend_def thread_resume_def)

lemma critical_step:
  assumes "sched_step s s'" and "0 < sint (lock_nest s)" and "0 < sint (lock_nest s')" and "current_thread s = Some c"
  shows "current_thread s' = Some c"
proof -
  have "lock_nest s \<noteq> 0" using assms(2) by auto
  with assms show ?thesis
    by (cases rule: sched_step.cases)
      (auto simp: thread_init_def rt_thread_startup_def thread_timeout_def rt_thread_yield_def
        tick_slice_def rt_enter_critical_def unlock_level
        change_priority_def thread_close_def thread_exit_def locked_schedule Let_def)
qed

lemma sint_inc: "0 \<le> sint x \<Longrightarrow> sint x < 32767 \<Longrightarrow> sint (x + 1 :: 16 word) = sint x + 1"
  by (simp add: sint_word_ariths signed_take_bit_int_eq_self)

lemma enter_level: "lock_nest ((rt_enter_critical ^^ n) s) = lock_nest s + word_of_nat n"
  by (induction n) (simp_all add: rt_enter_critical_def add_ac)

text \<open>C20: 
  inside a critical section nothing takes the processor from the thread that entered it: as
  long as the lock count is above zero, whatever becomes ready, times out or ticks, the current
  thread stays.
\<close>

theorem critical_section_keeps_current:
  assumes "(\<lambda>a b. sched_step a b \<and> 0 < sint (lock_nest b))\<^sup>*\<^sup>* (rt_enter_critical s) s'"
    and "0 \<le> sint (lock_nest s)" and "sint (lock_nest s) < 32767" and "current_thread s = Some c"
  shows "current_thread s' = Some c"
proof -
  from assms(1) have "current_thread s' = Some c \<and> 0 < sint (lock_nest s')"
  proof (induction rule: rtranclp_induct)
    case base
    then show ?case using assms(2-4) by (simp add: rt_enter_critical_def sint_inc)
  next
    case (step y z)
    then show ?case using critical_step by blast
  qed
  then show ?thesis ..
qed

theorem critical_section_keeps_current_witness:
  "current_thread (rt_thread_yield demo) = Some 2
    \<and> current_thread (rt_thread_yield (rt_enter_critical demo)) = Some 1"
proof -
  let ?e = "rt_enter_critical demo"
  have "sched_step ?e (rt_thread_yield ?e)" by (rule s_yield; code_simp)
  moreover have "0 < sint (lock_nest (rt_thread_yield ?e))" by code_simp
  ultimately have "(\<lambda>a b. sched_step a b \<and> 0 < sint (lock_nest b))\<^sup>*\<^sup>* ?e (rt_thread_yield ?e)" by blast
  moreover have "0 \<le> sint (lock_nest demo)" "sint (lock_nest demo) < 32767" "current_thread demo = Some 1"
    "current_thread (rt_thread_yield demo) = Some 2" by code_simp+
  ultimately show ?thesis using critical_section_keeps_current by blast
qed

lemma exit_level: "lock_nest (rt_exit_critical s) =
    (if sint (lock_nest s - 1) \<le> 0 then 0 else lock_nest s - 1)"
  by (simp add: rt_exit_critical_def Let_def)

lemma sint_16_of_nat:
  assumes "m < 65536"
  shows "sint (word_of_nat m :: 16 word) = (if m < 32768 then int m else int m - 65536)"
proof -
  have "sint (word_of_nat m :: 16 word) = signed_take_bit 15 (int m)"
    by (simp add: signed_of_nat)
  also have "\<dots> = take_bit 16 (int m) - 65536 * of_bool (bit (int m) 15)"
    by (simp add: signed_take_bit_eq_take_bit_minus)
  also have "take_bit 16 (int m) = int m" using assms by (simp add: take_bit_int_eq_self)
  also have "bit (int m) 15 \<longleftrightarrow> \<not> m < 32768"
  proof -
    have "int m div 32768 = (if m < 32768 then 0 else 1)" using assms by auto
    then show ?thesis by (simp add: bit_iff_odd)
  qed
  finally show ?thesis by simp
qed

text \<open>
  the count of nested critical sections has 16 bits and a sign. Up to 32768 nestings the
  innermost \<open>rt_exit_critical\<close> takes one off the count; from 32769 on, still inside all the
  others, it sets the count to 0 and unlocks the scheduler.
\<close>

theorem critical_nesting_overflows:
  assumes "lock_nest s = 0" and "0 < n" and "n < 65536"
  shows "rt_critical_level (rt_exit_critical ((rt_enter_critical ^^ n) s)) =
    (if n \<le> 32768 then word_of_nat (n - 1) else 0)"
proof -
  let ?s = "(rt_enter_critical ^^ n) s"
  obtain m where n: "n = Suc m" using assms(2) by (cases n) auto
  have l: "lock_nest ?s - 1 = word_of_nat m" unfolding enter_level assms(1) by (simp add: n)
  have "sint (word_of_nat m :: 16 word) \<le> 0 \<longleftrightarrow> m = 0 \<or> 32768 \<le> m"
    using assms(3) n by (simp add: sint_16_of_nat)
  then show ?thesis unfolding rt_critical_level_def exit_level l by (auto simp: n)
qed

theorem critical_nesting_overflows_witness:
  "rt_critical_level (rt_exit_critical ((rt_enter_critical ^^ 3) demo)) = 2
    \<and> rt_critical_level (rt_exit_critical ((rt_enter_critical ^^ 40000) demo)) = 0"
proof -
  have "lock_nest demo = 0" by code_simp
  note o = critical_nesting_overflows [OF this]
  show ?thesis using o [of 3] o [of 40000] by simp
qed

end
