(* ===== verification/Sys_Watch.thy ===== *)
theory Sys_Watch
  imports Scheduler_Run
begin

text \<open>
  The supervision of the whole system: the driver of the independent watchdog
  (\<open>drivers/drv_wdt.c\<close>, the device layer \<open>components/drivers/watchdog/watchdog.c\<close> and the two HAL
  functions it calls) and the package \<open>syswatch\<close>, a thread of the highest priority that feeds the
  watchdog every second, and that resets the system when a thread has kept the idle thread from
  running for 75 seconds. It learns who runs from a hook in \<open>rt_schedule\<close>.

  The configuration is that of \<open>rtconfig.h\<close>: resolve mode 0, where a blocked system is reset. The
  text of log messages and the creation of the device object are not modelled.
\<close>

section \<open>The watchdog timer\<close>

datatype iwdg_write = KR u32 | PR u32 | RLR u32

text \<open>
  \<open>sr_clears n\<close> says whether the status register reads 0 within the time that the \<open>n\<close>-th call of
  \<open>HAL_IWDG_Init\<close> waits for it.
\<close>

record iwdg =
  prescaler :: u32
  reload :: u32
  is_start :: u16
  sr_clears :: "nat \<Rightarrow> bool"
  iwdg_inits :: nat
  iwdg_writes :: "iwdg_write list"

definition IWDG_PRESCALER_256 :: u32 where "IWDG_PRESCALER_256 = 6"
definition LSI_VALUE :: u32 where "LSI_VALUE = 32000"

definition RT_DEVICE_CTRL_WDT_GET_TIMEOUT :: nat where "RT_DEVICE_CTRL_WDT_GET_TIMEOUT = 1"
definition RT_DEVICE_CTRL_WDT_SET_TIMEOUT :: nat where "RT_DEVICE_CTRL_WDT_SET_TIMEOUT = 2"
definition RT_DEVICE_CTRL_WDT_KEEPALIVE :: nat where "RT_DEVICE_CTRL_WDT_KEEPALIVE = 4"
definition RT_DEVICE_CTRL_WDT_START :: nat where "RT_DEVICE_CTRL_WDT_START = 5"
definition RT_DEVICE_CTRL_WDT_STOP :: nat where "RT_DEVICE_CTRL_WDT_STOP = 6"

text \<open>The result is \<^const>\<open>True\<close> for \<open>HAL_OK\<close>.\<close>

definition HAL_IWDG_Init :: "iwdg \<Rightarrow> bool \<times> iwdg" where
  "HAL_IWDG_Init d =
     (let d1 = d\<lparr>iwdg_writes := iwdg_writes d @ [KR 0xCCCC, KR 0x5555, PR (prescaler d), RLR (reload d)],
                 iwdg_inits := Suc (iwdg_inits d)\<rparr>
      in if sr_clears d (iwdg_inits d)
         then (True, d1\<lparr>iwdg_writes := iwdg_writes d1 @ [KR 0xAAAA]\<rparr>)
         else (False, d1))"

definition HAL_IWDG_Refresh :: "iwdg \<Rightarrow> bool \<times> iwdg" where
  "HAL_IWDG_Refresh d = (True, d\<lparr>iwdg_writes := iwdg_writes d @ [KR 0xAAAA]\<rparr>)"

definition rt_wdt_init :: "iwdg \<Rightarrow> iwdg" where
  "rt_wdt_init d = d\<lparr>prescaler := IWDG_PRESCALER_256, reload := 0xFFF, is_start := 0\<rparr>"

definition wdt_init :: "iwdg \<Rightarrow> rt_err \<times> iwdg" where
  "wdt_init d = (RT_EOK, d)"

text \<open>\<open>arg\<close> is what the argument points to, before the call and, in the result, after it.\<close>

definition wdt_control :: "nat \<Rightarrow> u32 \<Rightarrow> iwdg \<Rightarrow> rt_err \<times> u32 \<times> iwdg" where
  "wdt_control cmd arg d =
     (if cmd = RT_DEVICE_CTRL_WDT_KEEPALIVE then (RT_EOK, arg, snd (HAL_IWDG_Refresh d))
      else if cmd = RT_DEVICE_CTRL_WDT_SET_TIMEOUT then
        let d1 = d\<lparr>reload := arg * LSI_VALUE div 256\<rparr>
        in if 0xFFF < reload d1 then (RT_EINVAL, arg, d1)
           else if is_start d1 \<noteq> 0 then
             let (ok, d2) = HAL_IWDG_Init d1 in (if ok then RT_EOK else RT_ERROR, arg, d2)
           else (RT_EOK, arg, d1)
      else if cmd = RT_DEVICE_CTRL_WDT_GET_TIMEOUT then (RT_EOK, reload d * 256 div LSI_VALUE, d)
      else if cmd = RT_DEVICE_CTRL_WDT_START then
        let (ok, d1) = HAL_IWDG_Init d
        in if ok then (RT_EOK, arg, d1\<lparr>is_start := 1\<rparr>) else (RT_ERROR, arg, d1)
      else (RT_ERROR, arg, d))"

definition rt_watchdog_init :: "iwdg \<Rightarrow> rt_err \<times> iwdg" where
  "rt_watchdog_init d = wdt_init d"

definition rt_watchdog_control :: "nat \<Rightarrow> u32 \<Rightarrow> iwdg \<Rightarrow> rt_err \<times> u32 \<times> iwdg" where
  "rt_watchdog_control cmd arg d = wdt_control cmd arg d"

definition rt_watchdog_close :: "iwdg \<Rightarrow> rt_err \<times> iwdg" where
  "rt_watchdog_close d =
     (let (e, _, d1) = wdt_control RT_DEVICE_CTRL_WDT_STOP 0 d
      in if e \<noteq> RT_EOK then (RT_ERROR, d1) else (RT_EOK, d1))"

section \<open>The state of the system watch\<close>

definition SYSWATCH_EXCEPT_TIMEOUT :: u16 where "SYSWATCH_EXCEPT_TIMEOUT = 60"
definition SYSWATCH_EXCEPT_CONFIRM_TMO :: u16 where "SYSWATCH_EXCEPT_CONFIRM_TMO = 15"
definition SYSWATCH_WDT_TIMEOUT :: u32 where "SYSWATCH_WDT_TIMEOUT = 5"
definition SYSWATCH_THREAD_PRIO :: u8 where "SYSWATCH_THREAD_PRIO = 0"

datatype syswatch_event =
  SYSWATCH_EVENT_SYSTEM_RESET | SYSWATCH_EVENT_THREAD_KILL | SYSWATCH_EVENT_THREAD_RESUMED

text \<open>
  Where the thread is: not yet run, in the delay of its loop, in the delay before the reset, ended.
\<close>

datatype sw_place = Entry | Delay_Second | Delay_Reset | Ended

text \<open>
  The fields of \<open>syswatch_data_t\<close>, whose list is used by mode 2 only, the hook of the scheduler, the
  calls of the event hook (when one is set), the request to reset the processor and the device.
\<close>

record sys_watch =
  init_done :: bool
  sec_cnt :: u16
  op_step :: u16
  event_hook :: bool
  lowest_thread :: "nat option"
  scheduler_hook :: bool
  hook_calls :: "(syswatch_event \<times> nat) list"
  cpu_reset :: bool
  place :: sw_place
  wdt_dev :: "iwdg option"

definition syswatch_event_hook_call :: "syswatch_event \<Rightarrow> nat \<Rightarrow> sys_watch \<Rightarrow> sys_watch" where
  "syswatch_event_hook_call e t w =
     (if event_hook w then w\<lparr>hook_calls := hook_calls w @ [(e, t)]\<rparr> else w)"

text \<open>
  \<open>wdt_dev\<close> is \<^const>\<open>None\<close> when \<open>rt_device_find\<close> finds no device; the results of the three calls are
  not looked at.
\<close>

definition syswatch_wdt_startup :: "sys_watch \<Rightarrow> rt_err \<times> sys_watch" where
  "syswatch_wdt_startup w =
     (case wdt_dev w of None \<Rightarrow> (RT_ERROR, w)
      | Some d \<Rightarrow>
          let d1 = snd (rt_watchdog_init d);
              d2 = snd (snd (rt_watchdog_control RT_DEVICE_CTRL_WDT_SET_TIMEOUT SYSWATCH_WDT_TIMEOUT d1));
              d3 = snd (snd (rt_watchdog_control RT_DEVICE_CTRL_WDT_START 0 d2))
          in (RT_EOK, w\<lparr>wdt_dev := Some d3\<rparr>))"

definition syswatch_wdt_feed :: "sys_watch \<Rightarrow> sys_watch" where
  "syswatch_wdt_feed w =
     w\<lparr>wdt_dev := map_option (\<lambda>d. snd (snd (rt_watchdog_control RT_DEVICE_CTRL_WDT_KEEPALIVE 0 d))) (wdt_dev w)\<rparr>"

section \<open>Who is to blame\<close>

text \<open>Up to the delay of 100 ms; what follows it is in \<open>syswatch_thread_entry\<close>.\<close>

definition syswatch_thread_except_resolve_reset :: "nat \<Rightarrow> sys_watch \<Rightarrow> sys_watch" where
  "syswatch_thread_except_resolve_reset t w =
     (syswatch_event_hook_call SYSWATCH_EVENT_SYSTEM_RESET t w)\<lparr>place := Delay_Reset\<rparr>"

definition syswatch_thread_except_resolve :: "nat \<Rightarrow> nat option \<Rightarrow> sys_watch \<Rightarrow> sys_watch" where
  "syswatch_thread_except_resolve self thread w =
     (case thread of None \<Rightarrow> w
      | Some t \<Rightarrow> if t = self then w else syswatch_thread_except_resolve_reset t w)"

text \<open>\<open>s\<close> is the state at the call of the hook, where \<open>from\<close> still has the state it was left in.\<close>

definition syswatch_thread_switch_hook :: "nat \<Rightarrow> nat \<Rightarrow> sched \<Rightarrow> sys_watch \<Rightarrow> sys_watch" where
  "syswatch_thread_switch_hook from_t to s w =
     (if prio s to < prio s from_t then w
      else if prio s to = RT_THREAD_PRIORITY_MAX - 1 then w\<lparr>sec_cnt := 0, op_step := 0\<rparr>
      else if op_step w \<noteq> 1 then w
      else case lowest_thread w of
        None \<Rightarrow> w\<lparr>lowest_thread := Some to\<rparr>
      | Some l \<Rightarrow>
          if prio s l < prio s to then w\<lparr>lowest_thread := Some to\<rparr>
          else if prio s to < prio s l then w
          else if prio s to = prio s from_t \<and> stat_of s from_t = THREAD_RUNNING
          then w\<lparr>lowest_thread := Some from_t\<rparr>
          else w)"

definition syswatch_check_timeout :: "u16 \<Rightarrow> sys_watch \<Rightarrow> bool \<times> sys_watch" where
  "syswatch_check_timeout tmo_s w =
     (let c = sec_cnt w + 1
      in if c < tmo_s then (False, w\<lparr>sec_cnt := c\<rparr>) else (True, w\<lparr>sec_cnt := 0\<rparr>))"

definition syswatch_fsm :: "nat \<Rightarrow> sys_watch \<Rightarrow> sys_watch" where
  "syswatch_fsm self w =
     (if op_step w = 0 then
        let (due, w1) = syswatch_check_timeout SYSWATCH_EXCEPT_TIMEOUT w
        in if due then w1\<lparr>op_step := 1, lowest_thread := None\<rparr> else w1
      else if op_step w = 1 then
        let (due, w1) = syswatch_check_timeout SYSWATCH_EXCEPT_CONFIRM_TMO w
        in if due then
             let w2 = syswatch_thread_except_resolve self (lowest_thread w1) w1
             in if place w2 = Delay_Reset then w2 else w2\<lparr>lowest_thread := None\<rparr>
           else w1
      else w\<lparr>op_step := 0, sec_cnt := 0\<rparr>)"

section \<open>The thread\<close>

text \<open>What the thread does from one delay to the next, and the ticks of the delay.\<close>

definition syswatch_thread_entry :: "nat \<Rightarrow> sys_watch \<Rightarrow> sys_watch \<times> nat" where
  "syswatch_thread_entry self w =
     (case place w of
        Entry \<Rightarrow>
          let (e, w1) = syswatch_wdt_startup w
          in if e \<noteq> RT_EOK then (w1\<lparr>place := Ended\<rparr>, 0)
             else (w1\<lparr>scheduler_hook := True, place := Delay_Second\<rparr>, 1000)
      | Delay_Second \<Rightarrow>
          let w1 = syswatch_fsm self (syswatch_wdt_feed w)
          in (w1, if place w1 = Delay_Reset then 100 else 1000)
      | Delay_Reset \<Rightarrow> (w\<lparr>cpu_reset := True\<rparr>, 0)
      | Ended \<Rightarrow> (w, 0))"

definition syswatch_set_event_hook :: "bool \<Rightarrow> sys_watch \<Rightarrow> sys_watch" where
  "syswatch_set_event_hook h w = w\<lparr>event_hook := h\<rparr>"

text \<open>\<open>tid\<close> is what \<open>rt_thread_create\<close> returns.\<close>

definition syswatch_init :: "nat option \<Rightarrow> sys_watch \<times> sched \<Rightarrow> rt_err \<times> sys_watch \<times> sched" where
  "syswatch_init tid x =
     (let (w, s) = x
      in if init_done w then (RT_EOK, w, s)
         else case tid of None \<Rightarrow> (RT_ERROR, w, s)
              | Some t \<Rightarrow> (RT_EOK, w\<lparr>init_done := True, place := Entry\<rparr>,
                  rt_thread_startup t (thread_init t SYSWATCH_THREAD_PRIO 20 s)))"

section \<open>Together with the scheduler\<close>

text \<open>
  \<open>rt_schedule\<close> calls the hook when it changes threads: the priorities and the state of the thread
  that is left are still those before the call.
\<close>

definition schedule_hooked :: "sys_watch \<times> sched \<Rightarrow> sys_watch \<times> sched" where
  "schedule_hooked x =
     (let (w, s) = x; s' = rt_schedule s
      in (case (current_thread s, current_thread s') of
            (Some f, Some t) \<Rightarrow>
              if f \<noteq> t \<and> scheduler_hook w then syswatch_thread_switch_hook f t s w else w
          | _ \<Rightarrow> w, s'))"

text \<open>
  A turn of the thread: what it does between its delays, and the delay, which suspends it. When the
  watchdog is missing, the thread ends instead.
\<close>

definition syswatch_turn :: "nat \<Rightarrow> sys_watch \<times> sched \<Rightarrow> sys_watch \<times> sched" where
  "syswatch_turn self x =
     (let (w, s) = x; w1 = fst (syswatch_thread_entry self w)
      in if place w1 = Ended then (w1, thread_exit s)
         else schedule_hooked (w1, snd (thread_suspend self s)))"

end
