(* ===== verification/Sys_Watch_Check.thy ===== *)
theory Sys_Watch_Check
  imports Sys_Watch
begin

text \<open>
  The system watch at work. A run interleaves turns of its thread with calls of \<open>rt_schedule\<close>
  and with whatever else threads and interrupts do to the scheduler in between; it records the turns
  and which thread is switched to with which priority. The lemmas follow the time since the idle
  thread ran last, and the thread that is to blame.
\<close>

section \<open>Runs\<close>

datatype watch_obs = Turn | Runs nat nat

definition switched :: "sched \<Rightarrow> sched \<Rightarrow> watch_obs list" where
  "switched s s' = (case (current_thread s, current_thread s') of
     (Some f, Some t) \<Rightarrow> if f \<noteq> t then [Runs t (prio s t)] else [] | _ \<Rightarrow> [])"

text \<open>What happens between two calls of \<open>rt_schedule\<close>; the states it leads to satisfy \<open>rely\<close>.\<close>

definition between :: "(sched \<Rightarrow> bool) \<Rightarrow> sched \<Rightarrow> sched \<Rightarrow> bool" where
  "between rely s s' \<longleftrightarrow> sched_ok s' \<and> rely s' \<and> current_thread s' = current_thread s
     \<and> (\<forall>t. prio s' t < 32)"

inductive watch_run ::
  "nat \<Rightarrow> (sched \<Rightarrow> bool) \<Rightarrow> sys_watch \<times> sched \<Rightarrow> watch_obs list \<Rightarrow> sys_watch \<times> sched \<Rightarrow> bool"
  for self rely x where
  w_start: "watch_run self rely x [] x"
| w_between: "watch_run self rely x es (w, s) \<Longrightarrow> between rely s s' \<Longrightarrow> watch_run self rely x es (w, s')"
| w_schedule: "watch_run self rely x es (w, s) \<Longrightarrow> current_thread s \<noteq> None \<Longrightarrow>
    watch_run self rely x (es @ switched s (rt_schedule s)) (schedule_hooked (w, s))"
| w_turn: "watch_run self rely x es (w, s) \<Longrightarrow> current_thread s = Some self \<Longrightarrow>
    stat_of s self = THREAD_RUNNING \<Longrightarrow> lock_nest s = 0 \<Longrightarrow> \<not> cpu_reset w \<Longrightarrow>
    watch_run self rely x
      (es @ Turn # switched s (snd (syswatch_turn self (w, s)))) (syswatch_turn self (w, s))"

text \<open>
  Every step of the scheduler that leaves the priorities in the table is something that happens
  between calls of \<open>rt_schedule\<close>, or ends in one.
\<close>

lemma insert_prio [simp]:
  "cur_prio (tcbs (rt_schedule_insert_thread t s) u) = cur_prio (tcbs s u)"
  by (simp add: rt_schedule_insert_thread_def Let_def)

lemma remove_prio [simp]:
  "cur_prio (tcbs (rt_schedule_remove_thread t s) u) = cur_prio (tcbs s u)"
  by (simp add: rt_schedule_remove_thread_def Let_def)

lemma schedule_prio [simp]: "cur_prio (tcbs (rt_schedule s) u) = cur_prio (tcbs s u)"
  by (auto simp: rt_schedule_def Let_def split: prod.splits option.splits)

lemma suspend_prio [simp]: "cur_prio (tcbs (snd (thread_suspend t s)) u) = cur_prio (tcbs s u)"
  by (simp add: thread_suspend_def)

lemma close_current [simp]: "current_thread (thread_close t s) = current_thread s"
  by (simp add: thread_close_def Let_def)

lemma suspend_current [simp]: "current_thread (snd (thread_suspend t s)) = current_thread s"
  by (simp add: thread_suspend_def)

lemma step_or_schedule:
  assumes "sched_step s s'" and ok: "sched_ok s" and c: "current_thread s = Some c"
  shows "sched_ok s' \<and> current_thread s' = current_thread s
    \<or> (\<exists>s1. sched_ok s1 \<and> current_thread s1 = current_thread s \<and> s' = rt_schedule s1)"
proof -
  let ?A = "\<lambda>x. sched_ok x \<and> current_thread x = current_thread s"
  have ok': "sched_ok s'" by (rule sched_step_ok [OF assms(1,2)])
  from assms(1) show ?thesis
  proof cases
    case (s_startup t)
    let ?s = "upd_tcb t (\<lambda>c. c\<lparr>cur_prio := init_prio c, number_mask := push_bit (unat (init_prio c)) 1,
      stat := THREAD_SUSPEND, yielded := False\<rparr>) s"
    have "unat (init_prio (tcbs s t)) < 32"
      using s_startup table_okD(4) [OF sched_okD(1) [OF ok], of t] by (simp add: tcb_ok_def)
    moreover have "current_thread s \<noteq> Some t"
      using s_startup current_okD(2) [OF sched_okD(2) [OF ok], of t] by auto
    ultimately have "sched_ok ?s"
      by (intro upd_tcb_ok [OF ok]) (auto simp: s_startup tcb_ok_def started_def)
    then have "?A (rt_schedule_insert_thread t ?s)" using insert_ok [of ?s t] by simp
    moreover have "s' = rt_schedule (rt_schedule_insert_thread t ?s)"
      using s_startup insert_ok(2) [OF \<open>sched_ok ?s\<close>, of t] c
      by (simp add: rt_thread_startup_def thread_resume_def Let_def)
    ultimately show ?thesis by blast
  next
    case (s_timeout t)
    then have "?A (rt_schedule_insert_thread t s)" "s' = rt_schedule (rt_schedule_insert_thread t s)"
      using insert_ok [OF ok] by (simp_all add: thread_timeout_def)
    then show ?thesis by blast
  next
    case s_yield
    let ?s = "upd_tcb c (\<lambda>c. c\<lparr>remaining_tick := init_tick c, yielded := True\<rparr>) s"
    have "?A ?s \<and> s' = rt_schedule ?s" using s_yield ok c by (simp add: rt_thread_yield_def)
    then show ?thesis by blast
  next
    case s_tick
    let ?s = "upd_tcb c (\<lambda>c. c\<lparr>remaining_tick := remaining_tick c - 1\<rparr>) s"
    let ?t = "upd_tcb c (\<lambda>c. c\<lparr>remaining_tick := init_tick c, yielded := True\<rparr>) ?s"
    have "?A ?s \<and> ?A ?t \<and> (s' = ?s \<or> s' = rt_schedule ?t)"
      using s_tick ok c by (simp add: tick_slice_def Let_def)
    then show ?thesis by blast
  next
    case s_exit
    let ?s = "s\<lparr>lock_nest := 0\<rparr>"
    have "?A ?s \<and> (?A s' \<or> s' = rt_schedule ?s)"
      using s_exit lock_ok [OF ok] ok' c by (simp add: rt_exit_critical_def Let_def)
    then show ?thesis by blast
  next
    case (s_end t)
    then have "started (tcbs s t)" by (simp add: started_def)
    let ?s = "upd_tcb t (\<lambda>c. c\<lparr>stat := THREAD_CLOSE, yielded := False\<rparr>) (rt_schedule_remove_thread t s)"
    have "?A ?s \<and> s' = rt_schedule ?s"
      using close_upd_ok [OF ok \<open>started (tcbs s t)\<close>] s_end by (simp add: thread_exit_def)
    then show ?thesis by blast
  qed (use ok ok' c in \<open>auto simp: thread_init_def rt_enter_critical_def change_priority_def Let_def\<close>)
qed

lemma sched_step_between:
  assumes "sched_step s s'" and "sched_ok s" and "current_thread s = Some c"
    and "\<forall>t. prio s' t < 32"
  shows "between (\<lambda>_. True) s s' \<or> (\<exists>s1. between (\<lambda>_. True) s s1 \<and> s' = rt_schedule s1)"
  using step_or_schedule [OF assms(1-3)] assms(4) by (auto simp: between_def)

section \<open>Time without the idle thread\<close>

definition is_turn :: "watch_obs \<Rightarrow> bool" where
  "is_turn e \<longleftrightarrow> e = Turn"

definition is_idle :: "watch_obs \<Rightarrow> bool" where
  "is_idle e \<longleftrightarrow> (\<exists>t. e = Runs t 31)"

definition turns :: "watch_obs list \<Rightarrow> nat" where
  "turns es = length (filter is_turn es)"

text \<open>The turns since the idle thread ran last.\<close>

definition since_idle :: "watch_obs list \<Rightarrow> nat" where
  "since_idle es = turns (takeWhile (\<lambda>e. \<not> is_idle e) (rev es))"

lemma turns_simps [simp]:
  "turns [] = 0" "turns (Turn # es) = Suc (turns es)" "turns (Runs t p # es) = turns es"
  "turns (es @ fs) = turns es + turns fs" "turns (rev es) = turns es"
  by (simp_all add: turns_def is_turn_def rev_filter [symmetric])

lemma turns_switched [simp]: "turns (switched s s') = 0"
  by (simp add: switched_def split: option.split)

lemma since_idle_simps [simp]:
  "since_idle [] = 0" "since_idle (es @ [Turn]) = Suc (since_idle es)"
  "since_idle (es @ [Runs t p]) = (if p = 31 then 0 else since_idle es)"
  by (simp_all add: since_idle_def is_idle_def)

lemma since_idle_split:
  "\<exists>es1 es2. es = es1 @ es2 \<and> turns es2 = since_idle es \<and> \<not> list_ex is_idle es2"
proof -
  let ?P = "\<lambda>e. \<not> is_idle e"
  have "es = rev (dropWhile ?P (rev es)) @ rev (takeWhile ?P (rev es))"
    by (metis rev_append rev_rev_ident takeWhile_dropWhile_id)
  moreover have "turns (rev (takeWhile ?P (rev es))) = since_idle es"
    by (simp add: since_idle_def)
  moreover have "\<not> list_ex is_idle (rev (takeWhile ?P (rev es)))"
    by (auto simp: list_ex_iff dest: set_takeWhileD)
  ultimately show ?thesis by metis
qed

section \<open>Invariants of runs\<close>

definition in_order :: "(sched \<Rightarrow> bool) \<Rightarrow> sched \<Rightarrow> bool" where
  "in_order rely s \<longleftrightarrow> sched_ok s \<and> rely s \<and> current_thread s \<noteq> None \<and> (\<forall>t. prio s t < 32)"

lemma schedule_current:
  assumes "sched_ok s" and "current_thread s = Some c"
  shows "\<exists>t. current_thread (rt_schedule s) = Some t"
proof (cases "lock_nest s \<noteq> 0 \<or> ready_queue s = []")
  case True
  then show ?thesis using rt_schedule_none [of s] assms by (auto simp: sched_ok_def)
next
  case False
  note o = sched_okD [OF assms(1)]
  from False obtain q qs where l: "lock_nest s = 0" and q: "ready_queue s = q # qs"
    by (cases "ready_queue s") auto
  show ?thesis
    using rt_schedule_stay [OF o(1) l assms(2) q] rt_schedule_switch [OF o(1,2) l assms(2) q]
      switch_to_spec(2) [OF o(1,2) assms(2) q] assms(2)
    by (cases "stays s c q") auto
qed

text \<open>
  What an invariant of runs has to satisfy: it survives what happens between calls of
  \<open>rt_schedule\<close>, a switch of threads and a turn with the switch that may end it; \<open>rely\<close> survives
  the calls themselves.
\<close>

locale watch_invariant =
  fixes self :: nat and rely :: "sched \<Rightarrow> bool" and Inv :: "watch_obs list \<Rightarrow> sys_watch \<Rightarrow> sched \<Rightarrow> bool"
  assumes rely_schedule: "sched_ok s \<Longrightarrow> current_thread s = Some c \<Longrightarrow> rely s \<Longrightarrow> rely (rt_schedule s)"
    and rely_suspend: "sched_ok s \<Longrightarrow> rely s \<Longrightarrow> rely (snd (thread_suspend self s))"
    and hooked: "Inv es w s \<Longrightarrow> scheduler_hook w \<and> place w \<in> {Delay_Second, Delay_Reset}"
    and stays: "Inv es w s \<Longrightarrow> in_order rely s' \<Longrightarrow> current_thread s' = current_thread s \<Longrightarrow> Inv es w s'"
    and switches: "Inv es w s \<Longrightarrow> in_order rely s \<Longrightarrow> current_thread s = Some c \<Longrightarrow>
      current_thread (rt_schedule s) = Some t \<Longrightarrow> t \<noteq> c \<Longrightarrow> in_order rely (rt_schedule s) \<Longrightarrow>
      Inv (es @ [Runs t (prio s t)]) (syswatch_thread_switch_hook c t s w) (rt_schedule s)"
    and turn_stays: "Inv es w s \<Longrightarrow> in_order rely s \<Longrightarrow> current_thread s = Some self \<Longrightarrow>
      stat_of s self = THREAD_RUNNING \<Longrightarrow> lock_nest s = 0 \<Longrightarrow> \<not> cpu_reset w \<Longrightarrow>
      in_order rely s' \<Longrightarrow> current_thread s' = Some self \<Longrightarrow> s' = rt_schedule (snd (thread_suspend self s)) \<Longrightarrow>
      Inv (es @ [Turn]) (fst (syswatch_thread_entry self w)) s'"
    and turn_switches: "Inv es w s \<Longrightarrow> in_order rely s \<Longrightarrow> current_thread s = Some self \<Longrightarrow>
      stat_of s self = THREAD_RUNNING \<Longrightarrow> lock_nest s = 0 \<Longrightarrow> \<not> cpu_reset w \<Longrightarrow>
      s1 = snd (thread_suspend self s) \<Longrightarrow> in_order rely s1 \<Longrightarrow> current_thread (rt_schedule s1) = Some t \<Longrightarrow>
      t \<noteq> self \<Longrightarrow> in_order rely (rt_schedule s1) \<Longrightarrow>
      Inv (es @ [Turn, Runs t (prio s1 t)])
        (syswatch_thread_switch_hook self t s1 (fst (syswatch_thread_entry self w))) (rt_schedule s1)"
begin

lemma order_schedule:
  assumes "in_order rely s" shows "in_order rely (rt_schedule s)"
  using assms schedule_ok schedule_current rely_schedule unfolding in_order_def
  by fastforce

lemma order_suspend:
  assumes "in_order rely s" shows "in_order rely (snd (thread_suspend self s))"
  using assms suspend_ok rely_suspend by (simp add: in_order_def)

lemma hooked_schedule:
  assumes "Inv es w s" and "in_order rely s"
  shows "Inv (es @ switched s (rt_schedule s)) (fst (schedule_hooked (w, s))) (rt_schedule s)"
proof -
  obtain c where c: "current_thread s = Some c" "sched_ok s" using assms(2) by (auto simp: in_order_def)
  then obtain t where t: "current_thread (rt_schedule s) = Some t" using schedule_current by blast
  note o = order_schedule [OF assms(2)]
  show ?thesis
    using stays [OF assms(1) o] switches [OF assms(1,2) c(1) t _ o] hooked [OF assms(1)] c t
    by (auto simp: switched_def schedule_hooked_def Let_def)
qed

lemma entry_goes_on:
  assumes "place w \<in> {Delay_Second, Delay_Reset}" and "scheduler_hook w"
  shows "place (fst (syswatch_thread_entry self w)) \<in> {Delay_Second, Delay_Reset}"
    and "scheduler_hook (fst (syswatch_thread_entry self w))"
  using assms by (auto simp: syswatch_thread_entry_def syswatch_fsm_def syswatch_check_timeout_def
    syswatch_thread_except_resolve_def syswatch_thread_except_resolve_reset_def
    syswatch_event_hook_call_def syswatch_wdt_feed_def Let_def split: option.splits prod.splits)

lemma hooked_turn:
  assumes "Inv es w s" and "in_order rely s" and "current_thread s = Some self"
    and "stat_of s self = THREAD_RUNNING" and "lock_nest s = 0" and "\<not> cpu_reset w"
  shows "Inv (es @ Turn # switched s (snd (syswatch_turn self (w, s))))
      (fst (syswatch_turn self (w, s))) (snd (syswatch_turn self (w, s)))
    \<and> in_order rely (snd (syswatch_turn self (w, s)))"
proof -
  let ?s1 = "snd (thread_suspend self s)" and ?w1 = "fst (syswatch_thread_entry self w)"
  note o1 = order_suspend [OF assms(2)]
  note o2 = order_schedule [OF o1]
  note h = hooked [OF assms(1)]
  have e: "scheduler_hook ?w1" "place ?w1 \<noteq> Ended" using entry_goes_on [of w] h by auto
  obtain t where t: "current_thread (rt_schedule ?s1) = Some t"
    using schedule_current [of ?s1 self] o1 assms(3) by (auto simp: in_order_def)
  have p: "prio ?s1 u = prio s u" for u by simp
  show ?thesis
  proof (cases "t = self")
    case True
    then show ?thesis
      using turn_stays [OF assms o2 _ refl] t e(2) assms(3) o2
      by (simp add: syswatch_turn_def schedule_hooked_def switched_def)
  next
    case False
    then show ?thesis
      using turn_switches [OF assms refl o1 t False o2] t e assms(3) o2
      by (simp add: syswatch_turn_def schedule_hooked_def switched_def)
  qed
qed

lemma run_inv:
  assumes "watch_run self rely x es y" and "Inv [] (fst x) (snd x)" and "in_order rely (snd x)"
  shows "Inv es (fst y) (snd y) \<and> in_order rely (snd y)"
  using assms
proof (induction rule: watch_run.induct)
  case (w_between es w s s')
  then have "in_order rely s'" by (auto simp: between_def in_order_def)
  then show ?case using w_between stays [of es w s s'] by (auto simp: between_def)
next
  case (w_schedule es w s)
  then show ?case
    using hooked_schedule [of es w s] order_schedule [of s] by (simp add: schedule_hooked_def Let_def)
next
  case (w_turn es w s)
  then show ?case using hooked_turn [of es w s] by simp
qed simp

end

section \<open>The system is not reset while the idle thread runs\<close>

text \<open>
  The counter never runs ahead of the time since the idle thread ran: 60 turns of waiting and 15 of
  confirming are 75.
\<close>

definition patient :: "watch_obs list \<Rightarrow> sys_watch \<Rightarrow> bool" where
  "patient es w \<longleftrightarrow>
     op_step w = 0 \<and> unat (sec_cnt w) < 60 \<and> unat (sec_cnt w) \<le> since_idle es
     \<or> op_step w = 1 \<and> unat (sec_cnt w) < 15 \<and> 60 + unat (sec_cnt w) \<le> since_idle es"

definition starved :: "watch_obs list \<Rightarrow> bool" where
  "starved es \<longleftrightarrow> (\<exists>es1 es2 es3. es = es1 @ es2 @ es3 \<and> 75 \<le> turns es2 \<and> \<not> list_ex is_idle es2)"

definition reset_inv :: "watch_obs list \<Rightarrow> sys_watch \<Rightarrow> sched \<Rightarrow> bool" where
  "reset_inv es w s \<longleftrightarrow> scheduler_hook w
     \<and> (place w = Delay_Second \<and> \<not> cpu_reset w \<and> patient es w \<or> place w = Delay_Reset \<and> starved es)"

lemma starved_more: "starved es \<Longrightarrow> starved (es @ fs)"
  unfolding starved_def by (metis append.assoc)

lemma starved_since: "75 \<le> since_idle es \<Longrightarrow> starved es"
  using since_idle_split [of es] unfolding starved_def by (metis append_Nil2)

lemma unat_Suc_small: "unat c < 60 \<Longrightarrow> unat (c + 1 :: u16) = Suc (unat c)"
  by (simp add: unat_word_ariths)

text \<open>The steps of the state machine, on the counter as a number.\<close>

lemma fsm_waits:
  assumes "op_step w = 0" and "unat (sec_cnt w) < 60"
  shows "syswatch_fsm self w = (if Suc (unat (sec_cnt w)) < 60 then w\<lparr>sec_cnt := sec_cnt w + 1\<rparr>
    else w\<lparr>sec_cnt := 0, op_step := 1, lowest_thread := None\<rparr>)"
  using unat_Suc_small [OF assms(2)] assms(1)
  by (simp add: syswatch_fsm_def syswatch_check_timeout_def SYSWATCH_EXCEPT_TIMEOUT_def word_less_nat_alt)

lemma fsm_confirms:
  assumes "op_step w = 1" and "unat (sec_cnt w) < 15" and "place w = Delay_Second"
  shows "syswatch_fsm self w = (if Suc (unat (sec_cnt w)) < 15 then w\<lparr>sec_cnt := sec_cnt w + 1\<rparr>
    else case lowest_thread w of
        None \<Rightarrow> w\<lparr>sec_cnt := 0, lowest_thread := None\<rparr>
      | Some t \<Rightarrow> if t = self then w\<lparr>sec_cnt := 0, lowest_thread := None\<rparr>
          else syswatch_thread_except_resolve_reset t (w\<lparr>sec_cnt := 0\<rparr>))"
proof -
  have "unat (sec_cnt w) < 60" using assms(2) by simp
  from unat_Suc_small [OF this] show ?thesis
    using assms(1,3)
    by (auto simp: syswatch_fsm_def syswatch_check_timeout_def SYSWATCH_EXCEPT_CONFIRM_TMO_def
      word_less_nat_alt syswatch_thread_except_resolve_def syswatch_thread_except_resolve_reset_def
      split: option.splits)
qed

lemma feed_simps [simp]:
  "op_step (syswatch_wdt_feed w) = op_step w" "sec_cnt (syswatch_wdt_feed w) = sec_cnt w"
  "place (syswatch_wdt_feed w) = place w" "lowest_thread (syswatch_wdt_feed w) = lowest_thread w"
  "event_hook (syswatch_wdt_feed w) = event_hook w" "hook_calls (syswatch_wdt_feed w) = hook_calls w"
  "scheduler_hook (syswatch_wdt_feed w) = scheduler_hook w" "cpu_reset (syswatch_wdt_feed w) = cpu_reset w"
  by (simp_all add: syswatch_wdt_feed_def)

lemma resolve_simps [simp]:
  "op_step (syswatch_thread_except_resolve_reset t w) = op_step w"
  "sec_cnt (syswatch_thread_except_resolve_reset t w) = sec_cnt w"
  "place (syswatch_thread_except_resolve_reset t w) = Delay_Reset"
  "lowest_thread (syswatch_thread_except_resolve_reset t w) = lowest_thread w"
  "event_hook (syswatch_thread_except_resolve_reset t w) = event_hook w"
  "hook_calls (syswatch_thread_except_resolve_reset t w) =
     hook_calls w @ (if event_hook w then [(SYSWATCH_EVENT_SYSTEM_RESET, t)] else [])"
  "scheduler_hook (syswatch_thread_except_resolve_reset t w) = scheduler_hook w"
  "cpu_reset (syswatch_thread_except_resolve_reset t w) = cpu_reset w"
  by (simp_all add: syswatch_thread_except_resolve_reset_def syswatch_event_hook_call_def)

text \<open>A turn, by the place the thread is at.\<close>

lemma entry_second:
  "place w = Delay_Second \<Longrightarrow>
    fst (syswatch_thread_entry self w) = syswatch_fsm self (syswatch_wdt_feed w)"
  by (simp add: syswatch_thread_entry_def Let_def)

lemma entry_reset:
  "place w = Delay_Reset \<Longrightarrow> fst (syswatch_thread_entry self w) = w\<lparr>cpu_reset := True\<rparr>"
  by (simp add: syswatch_thread_entry_def)

text \<open>The hook changes the counter when the idle thread is switched to, and otherwise the suspect.\<close>

lemma hook_idle:
  assumes "prio s t = 31" and "prio s c < 32"
  shows "syswatch_thread_switch_hook c t s w = w\<lparr>sec_cnt := 0, op_step := 0\<rparr>"
  using assms by (simp add: syswatch_thread_switch_hook_def RT_THREAD_PRIORITY_MAX_def)

definition suspect :: "nat \<Rightarrow> nat \<Rightarrow> sched \<Rightarrow> sys_watch \<Rightarrow> nat option" where
  "suspect c t s w =
     (if prio s t < prio s c \<or> op_step w \<noteq> 1 then lowest_thread w
      else case lowest_thread w of None \<Rightarrow> Some t
      | Some l \<Rightarrow> if prio s l < prio s t then Some t
          else if prio s t = prio s l \<and> prio s t = prio s c \<and> stat_of s c = THREAD_RUNNING then Some c
          else Some l)"

lemma hook_other:
  "prio s t \<noteq> 31 \<Longrightarrow> syswatch_thread_switch_hook c t s w = w\<lparr>lowest_thread := suspect c t s w\<rparr>"
  by (cases w) (auto simp: syswatch_thread_switch_hook_def suspect_def RT_THREAD_PRIORITY_MAX_def
    split: option.splits)

lemma reset_inv_turn:
  assumes "reset_inv es w s"
  shows "reset_inv (es @ [Turn]) (fst (syswatch_thread_entry self w)) s'"
proof (cases "place w = Delay_Second")
  case False
  then show ?thesis using assms starved_more by (auto simp: reset_inv_def entry_reset)
next
  case True
  then consider "op_step w = 0" "unat (sec_cnt w) < 60" "unat (sec_cnt w) \<le> since_idle es"
    | "op_step w = 1" "unat (sec_cnt w) < 15" "60 + unat (sec_cnt w) \<le> since_idle es"
    using assms by (auto simp: reset_inv_def patient_def)
  then show ?thesis
  proof cases
    case 1
    then show ?thesis
      using assms True unat_Suc_small [of "sec_cnt w"] fsm_waits [of "syswatch_wdt_feed w" self]
      by (auto simp: reset_inv_def entry_second patient_def)
  next
    case 2
    then have "75 \<le> since_idle (es @ [Turn])" if "\<not> Suc (unat (sec_cnt w)) < 15" using that by simp
    then show ?thesis
      using assms True 2 unat_Suc_small [of "sec_cnt w"] fsm_confirms [of "syswatch_wdt_feed w" self]
        starved_since [of "es @ [Turn]"]
      by (auto simp: reset_inv_def entry_second patient_def split: option.splits)
  qed
qed

lemma reset_inv_switch:
  assumes "reset_inv es w s" and "prio s1 c < 32"
  shows "reset_inv (es @ [Runs t (prio s1 t)]) (syswatch_thread_switch_hook c t s1 w) s'"
proof (cases "prio s1 t = 31")
  case True
  then show ?thesis
    using assms starved_more by (auto simp: hook_idle reset_inv_def patient_def)
next
  case False
  then show ?thesis
    using assms hook_other [OF False, of c w] starved_more by (auto simp: reset_inv_def patient_def)
qed

interpretation no_false_reset: watch_invariant self "\<lambda>_. True" reset_inv for self
proof unfold_locales
  fix es w s t s1
  assume "reset_inv es w s" "in_order (\<lambda>_. True) s1" "t \<noteq> self"
  then show "reset_inv (es @ [Turn, Runs t (prio s1 t)])
      (syswatch_thread_switch_hook self t s1 (fst (syswatch_thread_entry self w))) (rt_schedule s1)"
    using reset_inv_switch [OF reset_inv_turn [of es w s self s], of s1 self t] by (simp add: in_order_def)
next
  fix es w s s' assume "reset_inv es w s"
  then show "reset_inv es w s'" by (simp add: reset_inv_def)
next
  fix es w s c t assume "reset_inv es w s" "in_order (\<lambda>_. True) s"
  then show "reset_inv (es @ [Runs t (prio s t)]) (syswatch_thread_switch_hook c t s w) (rt_schedule s)"
    using reset_inv_switch [of es w s s c t] by (simp add: in_order_def)
next
  fix es w s s' assume "reset_inv es w s"
  then show "reset_inv (es @ [Turn]) (fst (syswatch_thread_entry self w)) s'" by (rule reset_inv_turn)
qed (auto simp: reset_inv_def)

section \<open>Time\<close>

text \<open>
  A run with the clock, in ticks of a millisecond: \<open>ts\<close> are the times of the turns and \<open>due\<close> is
  when the delay that the last of them asked for is over. Time passes in any other step, and a turn
  comes no earlier than it is due, which is what the timer promises to \<open>rt_thread_mdelay\<close>.
\<close>

inductive timed_run ::
  "nat \<Rightarrow> (sched \<Rightarrow> bool) \<Rightarrow> nat \<Rightarrow> sys_watch \<times> sched \<Rightarrow> watch_obs list \<Rightarrow> nat list \<Rightarrow> nat \<Rightarrow> nat
    \<Rightarrow> sys_watch \<times> sched \<Rightarrow> bool"
  for self rely delay x where
  t_start: "timed_run self rely delay x [] [] 0 delay x"
| t_tick: "timed_run self rely delay x es ts now due y \<Longrightarrow> timed_run self rely delay x es ts (Suc now) due y"
| t_between: "timed_run self rely delay x es ts now due (w, s) \<Longrightarrow> between rely s s' \<Longrightarrow>
    timed_run self rely delay x es ts now due (w, s')"
| t_schedule: "timed_run self rely delay x es ts now due (w, s) \<Longrightarrow> current_thread s \<noteq> None \<Longrightarrow>
    timed_run self rely delay x (es @ switched s (rt_schedule s)) ts now due (schedule_hooked (w, s))"
| t_turn: "timed_run self rely delay x es ts now due (w, s) \<Longrightarrow> due \<le> now \<Longrightarrow>
    current_thread s = Some self \<Longrightarrow> stat_of s self = THREAD_RUNNING \<Longrightarrow> lock_nest s = 0 \<Longrightarrow> \<not> cpu_reset w \<Longrightarrow>
    timed_run self rely delay x (es @ Turn # switched s (snd (syswatch_turn self (w, s))))
      (ts @ [now]) now (now + snd (syswatch_thread_entry self w)) (syswatch_turn self (w, s))"

lemma timed_run_watch: "timed_run self rely delay x es ts now due y \<Longrightarrow> watch_run self rely x es y"
  by (induction rule: timed_run.induct) (auto intro: watch_run.intros)

lemma timed_run_waits:
  "timed_run self rely delay x es ts now due y \<Longrightarrow> timed_run self rely delay x es ts (now + n) due y"
  by (induction n) (auto intro: t_tick)

lemma watch_run_timed:
  assumes "watch_run self rely x es y"
  shows "\<exists>ts now due. timed_run self rely delay x es ts now due y"
  using assms
proof (induction rule: watch_run.induct)
  case (w_turn es w s)
  then obtain ts now due where "timed_run self rely delay x es ts now due (w, s)" by blast
  then have "timed_run self rely delay x es ts (now + due) due (w, s)" by (rule timed_run_waits)
  from t_turn [OF this _ w_turn.hyps(2-)] show ?case by fastforce
qed (meson timed_run.intros)+

text \<open>The first \<open>n\<close> of the times are at least a second apart.\<close>

definition second_apart :: "nat \<Rightarrow> nat list \<Rightarrow> bool" where
  "second_apart n ts \<longleftrightarrow> (\<forall>i. Suc i < n \<longrightarrow> ts ! i + 1000 \<le> ts ! Suc i)"

lemma second_apart_sum:
  assumes "second_apart n ts" and "i + k < n"
  shows "ts ! i + 1000 * k \<le> ts ! (i + k)"
  using assms(2)
proof (induction k)
  case (Suc k)
  then show ?case using assms(1) unfolding second_apart_def by (fastforce dest: spec [of _ "i + k"])
qed simp

lemma second_apart_more:
  "n \<le> length ts \<Longrightarrow> second_apart n (ts @ us) = second_apart n ts"
  by (auto simp: second_apart_def nth_append)

lemma second_apart_snoc:
  assumes "second_apart (length ts) ts" and "ts \<noteq> [] \<longrightarrow> last ts + 1000 \<le> now"
  shows "second_apart (Suc (length ts)) (ts @ [now])"
  unfolding second_apart_def
proof (intro allI impI)
  fix i assume i: "Suc i < Suc (length ts)"
  show "(ts @ [now]) ! i + 1000 \<le> (ts @ [now]) ! Suc i"
  proof (cases "Suc i < length ts")
    case True
    then show ?thesis using assms(1) by (simp add: second_apart_def nth_append)
  next
    case False
    then have "ts \<noteq> []" "i = length ts - 1" using i by auto
    then show ?thesis using assms(2) by (simp add: nth_append last_conv_nth)
  qed
qed

definition starved_long :: "watch_obs list \<Rightarrow> nat list \<Rightarrow> bool" where
  "starved_long es ts \<longleftrightarrow> (\<exists>es1 es2 es3. es = es1 @ es2 @ es3 \<and> 75 \<le> turns es2 \<and> \<not> list_ex is_idle es2
     \<and> second_apart (turns (es1 @ es2)) ts)"

lemma starved_long_more:
  assumes "starved_long es ts" and "turns es = length ts"
  shows "starved_long (es @ fs) (ts @ us)"
proof -
  obtain es1 es2 es3 where e: "es = es1 @ es2 @ es3" "75 \<le> turns es2" "\<not> list_ex is_idle es2"
    "second_apart (turns (es1 @ es2)) ts" using assms(1) unfolding starved_long_def by blast
  have "second_apart (turns (es1 @ es2)) (ts @ us)"
    using e(1,4) assms(2) by (subst second_apart_more) simp_all
  moreover have "es @ fs = es1 @ es2 @ (es3 @ fs)" by (simp add: e(1))
  ultimately show ?thesis using e(2,3) unfolding starved_long_def by blast
qed

definition paced :: "watch_obs list \<Rightarrow> nat list \<Rightarrow> nat \<Rightarrow> sys_watch \<Rightarrow> bool" where
  "paced es ts due w \<longleftrightarrow> length ts = turns es
     \<and> (if place w = Delay_Reset then starved_long es ts
        else second_apart (length ts) ts \<and> (ts \<noteq> [] \<longrightarrow> last ts + 1000 \<le> due))"

lemma hook_place [simp]: "place (syswatch_thread_switch_hook f t s w) = place w"
  by (simp add: syswatch_thread_switch_hook_def split: option.split)

lemma hooked_place [simp]: "place (fst (schedule_hooked (w, s))) = place w"
  by (simp add: schedule_hooked_def Let_def split: option.split)

lemma entry_delay:
  "place w = Delay_Second \<Longrightarrow> snd (syswatch_thread_entry self w) =
    (if place (fst (syswatch_thread_entry self w)) = Delay_Reset then 100 else 1000)"
  by (simp add: syswatch_thread_entry_def Let_def)

lemma turn_place [simp]:
  "place (fst (syswatch_turn self (w, s))) = place (fst (syswatch_thread_entry self w))"
  by (simp add: syswatch_turn_def Let_def)

lemma paced_turn:
  assumes "paced es ts due w" and "due \<le> now" and p: "place w \<in> {Delay_Second, Delay_Reset}"
    and r: "place w' = place (fst (syswatch_thread_entry self w))" "place w' = Delay_Reset \<Longrightarrow> starved (es @ Turn # fs)"
    and fs: "turns fs = 0"
  shows "paced (es @ Turn # fs) (ts @ [now]) (now + snd (syswatch_thread_entry self w)) w'"
proof (cases "place w = Delay_Reset")
  case True
  then show ?thesis
    using assms(1) r(1) fs starved_long_more [of es ts "Turn # fs" "[now]"]
    by (simp add: paced_def entry_reset)
next
  case False
  then have l: "length ts = turns es" and s: "second_apart (Suc (length ts)) (ts @ [now])"
    using assms(1,2) second_apart_snoc [of ts now] by (auto simp: paced_def)
  have "starved_long (es @ Turn # fs) (ts @ [now])" if st: "starved (es @ Turn # fs)"
  proof -
    obtain es1 es2 es3 where e: "es @ Turn # fs = es1 @ es2 @ es3" "75 \<le> turns es2" "\<not> list_ex is_idle es2"
      using st unfolding starved_def by blast
    have "turns (es @ Turn # fs) = turns (es1 @ es2 @ es3)" by (simp only: e(1))
    then have "turns (es1 @ es2) \<le> Suc (length ts)" using l fs by simp
    then have "second_apart (turns (es1 @ es2)) (ts @ [now])" using s by (simp add: second_apart_def)
    then show ?thesis using e unfolding starved_long_def by blast
  qed
  then show ?thesis
    using r l s fs False p entry_delay [of w self] by (simp add: paced_def)
qed

lemma timed_paced:
  assumes "timed_run self (\<lambda>_. True) delay x es ts now due y"
    and "reset_inv [] (fst x) (snd x)" and "in_order (\<lambda>_. True) (snd x)" and "place (fst x) = Delay_Second"
  shows "paced es ts due (fst y)"
  using assms
proof (induction rule: timed_run.induct)
  case (t_turn es ts now due w s)
  note inv = no_false_reset.run_inv [OF _ t_turn.prems(1,2)]
  have "place w \<in> {Delay_Second, Delay_Reset}"
    using inv [OF timed_run_watch [OF t_turn.hyps(1)]] by (auto simp: reset_inv_def)
  moreover have "starved (es @ Turn # switched s (snd (syswatch_turn self (w, s))))"
    if "place (fst (syswatch_turn self (w, s))) = Delay_Reset"
    using inv [OF timed_run_watch [OF timed_run.t_turn [OF t_turn.hyps]]] that by (auto simp: reset_inv_def)
  ultimately show ?case
    using t_turn by (intro paced_turn) simp_all
next
  case (t_schedule es ts now due w s)
  then show ?case
    using starved_long_more [of es ts _ "[]"] by (auto simp: paced_def)
next
  case t_start
  then show ?case by (simp add: paced_def second_apart_def)
qed (auto simp: paced_def split: if_splits)

section \<open>A thread that keeps the processor\<close>

text \<open>A thread \<open>h\<close>, more urgent than the idle thread, that can always run.\<close>

definition hogged :: "nat \<Rightarrow> nat \<Rightarrow> sched \<Rightarrow> bool" where
  "hogged h self s \<longleftrightarrow> h \<noteq> self \<and> stat_of s h \<in> {THREAD_READY, THREAD_RUNNING} \<and> prio s h < 31
     \<and> prio s self = 0 \<and> (\<forall>t. t \<noteq> self \<longrightarrow> 0 < prio s t)"

text \<open>\<open>watching\<close> are the states of a watch between its turns.\<close>

definition watching :: "nat \<Rightarrow> sys_watch \<Rightarrow> bool" where
  "watching self w \<longleftrightarrow> scheduler_hook w \<and> place w = Delay_Second \<and> \<not> cpu_reset w
     \<and> (op_step w = 0 \<and> unat (sec_cnt w) < 60
        \<or> op_step w = 1 \<and> unat (sec_cnt w) < 15 \<and> (\<exists>l. l \<noteq> self \<and> lowest_thread w = Some l))"

definition hog_inv :: "nat \<Rightarrow> watch_obs list \<Rightarrow> sys_watch \<Rightarrow> sched \<Rightarrow> bool" where
  "hog_inv self es w s \<longleftrightarrow>
     watching self w \<and> turns es \<le> (if op_step w = 0 then 0 else 60) + unat (sec_cnt w)
     \<or> scheduler_hook w \<and> place w = Delay_Reset \<and> (turns es \<le> 75 \<or> cpu_reset w)
       \<and> (event_hook w \<longrightarrow> (\<exists>t. t \<noteq> self \<and> (SYSWATCH_EVENT_SYSTEM_RESET, t) \<in> set (hook_calls w)))"

lemma suspend_stat:
  "t \<noteq> u \<Longrightarrow> stat_of (snd (thread_suspend u s)) t = stat_of s t"
  "stat_of s u = THREAD_RUNNING \<Longrightarrow> current_thread s = Some u \<Longrightarrow>
    stat_of (snd (thread_suspend u s)) u = THREAD_SUSPEND"
  "lock_nest (snd (thread_suspend u s)) = lock_nest s"
  by (simp_all add: thread_suspend_def rt_schedule_remove_thread_def Let_def)

text \<open>With such a thread a switch never goes to the idle thread.\<close>

lemma hog_picks:
  assumes "sched_ok s" and "hogged h self s" and "current_thread s = Some c" and "lock_nest s = 0"
  obtains r where "current_thread (rt_schedule s) = Some r" "prio s r < 31"
    "stat_of s r \<in> {THREAD_READY, THREAD_RUNNING}" "hogged h self (rt_schedule s)"
proof -
  have h: "stat_of s h \<in> {THREAD_READY, THREAD_RUNNING}" "prio s h < 31"
    using assms(2) by (auto simp: hogged_def)
  from schedule_picks [OF assms(1,4,3) h(1)] obtain r where
    r: "current_thread (rt_schedule s) = Some r" "stat_of (rt_schedule s) r = THREAD_RUNNING"
      "\<forall>t. stat_of s t \<in> {THREAD_READY, THREAD_RUNNING} \<longrightarrow> prio s r \<le> prio s t"
    and can: "\<forall>t. stat_of (rt_schedule s) t \<in> {THREAD_READY, THREAD_RUNNING} \<longleftrightarrow>
      stat_of s t \<in> {THREAD_READY, THREAD_RUNNING}" by blast
  have "prio s r < 31" using r(3) h by fastforce
  moreover have "stat_of s r \<in> {THREAD_READY, THREAD_RUNNING}" using can r(2) by blast
  moreover have "hogged h self (rt_schedule s)" using assms(2) can unfolding hogged_def by simp
  ultimately show thesis using that r(1) by blast
qed

lemma hogged_schedule:
  assumes "sched_ok s" and "current_thread s = Some c" and "hogged h self s"
  shows "hogged h self (rt_schedule s)"
proof (cases "lock_nest s = 0")
  case True
  then show ?thesis using hog_picks [OF assms(1,3,2)] by metis
next
  case False
  then show ?thesis using rt_schedule_none [of s] assms(3) by simp
qed

lemma hogged_suspend: "hogged h self s \<Longrightarrow> hogged h self (snd (thread_suspend self s))"
  using suspend_stat(1) [of h self s] by (simp add: hogged_def)

lemma hog_no_idle:
  assumes "in_order (hogged h self) s" and "current_thread s = Some c"
    and "current_thread (rt_schedule s) = Some t" and "t \<noteq> c"
  shows "prio s t \<noteq> 31"
proof -
  have l: "lock_nest s = 0"
  proof (rule ccontr)
    assume "lock_nest s \<noteq> 0"
    then have "rt_schedule s = s" using rt_schedule_none [of s] by simp
    then show False using assms(2-4) by simp
  qed
  have "sched_ok s" "hogged h self s" using assms(1) by (auto simp: in_order_def)
  from hog_picks [OF this assms(2) l] obtain r where "current_thread (rt_schedule s) = Some r" "prio s r < 31"
    by metis
  then show ?thesis using assms(3) by simp
qed

text \<open>The suspect is never the watch itself.\<close>

lemma suspect_waits: "op_step w \<noteq> 1 \<Longrightarrow> suspect c t s w = lowest_thread w"
  by (simp add: suspect_def)

lemma suspect_other:
  assumes "hogged h self s" and "lowest_thread w = Some l" and "l \<noteq> self"
  shows "\<exists>l'. l' \<noteq> self \<and> suspect c t s w = Some l'"
proof -
  have "prio s self = 0" "0 < prio s l" using assms by (auto simp: hogged_def)
  then show ?thesis using assms(2,3) by (auto simp: suspect_def)
qed

lemma hog_inv_turn:
  assumes "hog_inv self es w s" and "\<not> cpu_reset w"
  shows "hog_inv self (es @ [Turn]) (fst (syswatch_thread_entry self w)) s'
    \<or> (let w1 = fst (syswatch_thread_entry self w)
       in scheduler_hook w1 \<and> place w1 = Delay_Second \<and> \<not> cpu_reset w1 \<and> op_step w1 = 1
          \<and> sec_cnt w1 = 0 \<and> lowest_thread w1 = None \<and> turns es \<le> 59)"
proof (cases "watching self w")
  case False
  then show ?thesis using assms by (auto simp: hog_inv_def entry_reset)
next
  case True
  then have p: "place w = Delay_Second" by (simp add: watching_def)
  from True consider "op_step w = 0" "unat (sec_cnt w) < 60"
    | l where "op_step w = 1" "unat (sec_cnt w) < 15" "l \<noteq> self" "lowest_thread w = Some l"
    by (auto simp: watching_def)
  then show ?thesis
  proof cases
    case 1
    then show ?thesis
      using assms True p unat_Suc_small [of "sec_cnt w"] fsm_waits [of "syswatch_wdt_feed w" self]
      by (auto simp: hog_inv_def watching_def entry_second Let_def)
  next
    case 2
    then show ?thesis
      using assms True p unat_Suc_small [of "sec_cnt w"] fsm_confirms [of "syswatch_wdt_feed w" self]
      by (auto simp: hog_inv_def watching_def entry_second)
  qed
qed

lemma hog_inv_switch:
  assumes "hog_inv self es w s" and "hogged h self s1" and "prio s1 t \<noteq> 31"
  shows "hog_inv self (es @ [Runs t (prio s1 t)]) (syswatch_thread_switch_hook c t s1 w) s'"
  using assms hook_other [OF assms(3), of c w] suspect_other [OF assms(2), of w _ c t]
  by (auto simp: hog_inv_def watching_def suspect_waits)

interpretation hog: watch_invariant self "hogged h self" "hog_inv self" for self h
proof unfold_locales
  fix es w s t s1
  assume i: "hog_inv self es w s" and c: "current_thread s = Some self" "\<not> cpu_reset w"
    and s1: "s1 = snd (thread_suspend self s)" "in_order (hogged h self) s1"
    and t: "current_thread (rt_schedule s1) = Some t" "t \<noteq> self"
  have c1: "current_thread s1 = Some self" using c by (simp add: s1(1))
  note n = hog_no_idle [OF s1(2) c1 t]
  have g: "hogged h self s1" using s1(2) by (simp add: in_order_def)
  let ?w1 = "fst (syswatch_thread_entry self w)"
  show "hog_inv self (es @ [Turn, Runs t (prio s1 t)]) (syswatch_thread_switch_hook self t s1 ?w1) (rt_schedule s1)"
    using hog_inv_turn [OF i c(2), of s]
  proof
    assume "hog_inv self (es @ [Turn]) ?w1 s"
    from hog_inv_switch [OF this g n] show ?thesis by simp
  next
    assume "let w1 = ?w1 in scheduler_hook w1 \<and> place w1 = Delay_Second \<and> \<not> cpu_reset w1
      \<and> op_step w1 = 1 \<and> sec_cnt w1 = 0 \<and> lowest_thread w1 = None \<and> turns es \<le> 59"
    then show ?thesis
      using hook_other [OF n, of self ?w1] g t(2)
      by (auto simp: hog_inv_def watching_def suspect_def hogged_def Let_def)
  qed
next
  fix es w s s'
  assume c: "current_thread s = Some self" "stat_of s self = THREAD_RUNNING" "lock_nest s = 0"
    and o: "in_order (hogged h self) s"
    and s': "current_thread s' = Some self" "s' = rt_schedule (snd (thread_suspend self s))"
  let ?s1 = "snd (thread_suspend self s)"
  have "sched_ok ?s1" "hogged h self ?s1"
    using o suspend_ok hogged_suspend by (auto simp: in_order_def)
  moreover have "current_thread ?s1 = Some self" "lock_nest ?s1 = 0" using c suspend_stat(3) by simp_all
  ultimately obtain r where "current_thread (rt_schedule ?s1) = Some r"
    "stat_of ?s1 r \<in> {THREAD_READY, THREAD_RUNNING}" using hog_picks by metis
  then have False using s' suspend_stat(2) [OF c(2,1)] by auto
  then show "hog_inv self (es @ [Turn]) (fst (syswatch_thread_entry self w)) s'" ..
next
  fix es w s c t
  assume "hog_inv self es w s" "in_order (hogged h self) s" "current_thread s = Some c"
    "current_thread (rt_schedule s) = Some t" "t \<noteq> c"
  then show "hog_inv self (es @ [Runs t (prio s t)]) (syswatch_thread_switch_hook c t s w) (rt_schedule s)"
    using hog_no_idle hog_inv_switch by (metis in_order_def)
qed (auto simp: hogged_schedule hogged_suspend hog_inv_def watching_def)

section \<open>Who is blamed\<close>

text \<open>While the priorities are those of \<open>pr\<close>: the watch alone has the highest.\<close>

definition fixed_prio :: "(nat \<Rightarrow> nat) \<Rightarrow> nat \<Rightarrow> sched \<Rightarrow> bool" where
  "fixed_prio pr self s \<longleftrightarrow> (\<forall>t. prio s t = pr t) \<and> pr self = 0 \<and> (\<forall>t. t \<noteq> self \<longrightarrow> 0 < pr t)"

text \<open>\<open>l\<close> ran in \<open>es\<close>, and nothing less urgent did.\<close>

definition least_urgent :: "(nat \<Rightarrow> nat) \<Rightarrow> watch_obs list \<Rightarrow> nat \<Rightarrow> bool" where
  "least_urgent pr es l \<longleftrightarrow> Runs l (pr l) \<in> set es \<and> (\<forall>u p. Runs u p \<in> set es \<longrightarrow> p \<le> pr l)"

definition tracked :: "(nat \<Rightarrow> nat) \<Rightarrow> nat \<Rightarrow> watch_obs list \<Rightarrow> sys_watch \<Rightarrow> sched \<Rightarrow> bool" where
  "tracked pr self es w s \<longleftrightarrow> (case lowest_thread w of
     None \<Rightarrow> current_thread s = Some self \<and> set es \<subseteq> {Turn}
   | Some l \<Rightarrow> least_urgent pr es l \<and> (\<forall>c. current_thread s = Some c \<longrightarrow> Runs c (pr c) \<in> set es))"

definition blamed :: "(nat \<Rightarrow> nat) \<Rightarrow> watch_obs list \<Rightarrow> nat \<Rightarrow> bool" where
  "blamed pr es l \<longleftrightarrow> (\<exists>es1 es2 es3. es = es1 @ es2 @ es3 \<and> turns es2 = 15 \<and> least_urgent pr es2 l)"

definition blame_inv :: "(nat \<Rightarrow> nat) \<Rightarrow> nat \<Rightarrow> watch_obs list \<Rightarrow> sys_watch \<Rightarrow> sched \<Rightarrow> bool" where
  "blame_inv pr self es w s \<longleftrightarrow> scheduler_hook w \<and> event_hook w
     \<and> (place w = Delay_Second \<and> hook_calls w = []
          \<and> (op_step w = 0 \<and> unat (sec_cnt w) < 60
             \<or> op_step w = 1 \<and> unat (sec_cnt w) < 15
               \<and> (\<exists>es1 es2. es = es1 @ es2 \<and> turns es2 = unat (sec_cnt w) \<and> tracked pr self es2 w s))
        \<or> place w = Delay_Reset
          \<and> (\<exists>l. l \<noteq> self \<and> hook_calls w = [(SYSWATCH_EVENT_SYSTEM_RESET, l)] \<and> blamed pr es l))"

lemma blamed_more: "blamed pr es l \<Longrightarrow> blamed pr (es @ fs) l"
  unfolding blamed_def by (metis append.assoc)

lemma tracked_cong:
  "tracked pr self es w s \<Longrightarrow> current_thread s' = current_thread s \<Longrightarrow> lowest_thread w' = lowest_thread w \<Longrightarrow>
    tracked pr self es w' s'"
  by (simp add: tracked_def split: option.splits)

lemma least_urgent_turn [simp]: "least_urgent pr (es @ [Turn]) l = least_urgent pr es l"
  by (auto simp: least_urgent_def)

lemma tracked_turn: "tracked pr self es w s \<Longrightarrow> tracked pr self (es @ [Turn]) w s"
  by (auto simp: tracked_def split: option.splits)

lemma tracked_switch:
  assumes tr: "tracked pr self es w s" and f: "fixed_prio pr self s" and c: "current_thread s = Some c"
    and s': "current_thread s' = Some t" "t \<noteq> c" and step: "op_step w = 1"
  shows "tracked pr self (es @ [Runs t (prio s t)]) (w\<lparr>lowest_thread := suspect c t s w\<rparr>) s'"
proof -
  have p: "prio s u = pr u" for u using f by (simp add: fixed_prio_def)
  have z: "pr self = 0" using f by (simp add: fixed_prio_def)
  show ?thesis
  proof (cases "lowest_thread w")
    case None
    then have e: "c = self" "set es \<subseteq> {Turn}" using tr c by (simp_all add: tracked_def)
    then show ?thesis
      using None s' step z by (auto simp: tracked_def suspect_def p least_urgent_def)
  next
    case (Some l)
    then have l: "Runs l (pr l) \<in> set es" "\<And>u q. Runs u q \<in> set es \<Longrightarrow> q \<le> pr l" "Runs c (pr c) \<in> set es"
      using tr c by (auto simp: tracked_def least_urgent_def)
    have cl: "pr c \<le> pr l" by (rule l(2) [OF l(3)])
    have "least_urgent pr (es @ [Runs t (pr t)]) l'" if "suspect c t s w = Some l'" for l'
      using that Some step l cl
      by (auto simp: suspect_def p least_urgent_def intro: le_trans split: if_splits dest: l(2))
    moreover have "suspect c t s w \<noteq> None" using Some by (simp add: suspect_def)
    ultimately show ?thesis using s' by (auto simp: tracked_def p)
  qed
qed

lemma blame_turn:
  assumes "blame_inv pr self es w s" and "current_thread s = Some self" and "current_thread s' = Some self"
  shows "blame_inv pr self (es @ [Turn]) (fst (syswatch_thread_entry self w)) s'"
proof (cases "place w = Delay_Second")
  case False
  then show ?thesis using assms blamed_more by (fastforce simp: blame_inv_def entry_reset)
next
  case True
  let ?w = "syswatch_wdt_feed w"
  have h: "scheduler_hook w" "event_hook w" "hook_calls w = []"
    using assms(1) True by (auto simp: blame_inv_def)
  have fresh: "tracked pr self [] (w'\<lparr>lowest_thread := None\<rparr>) s'" for w'
    using assms(3) by (simp add: tracked_def)
  from assms(1) True consider "op_step w = 0" "unat (sec_cnt w) < 60"
    | es1 es2 where "op_step w = 1" "unat (sec_cnt w) < 15" "es = es1 @ es2"
      "turns es2 = unat (sec_cnt w)" "tracked pr self es2 w s"
    by (auto simp: blame_inv_def)
  then show ?thesis
  proof cases
    case 1
    have "\<exists>es1 es2. es @ [Turn] = es1 @ es2 \<and> turns es2 = 0 \<and> tracked pr self es2 (w'\<lparr>lowest_thread := None\<rparr>) s'" for w'
      using fresh [of w'] by (intro exI [of _ "es @ [Turn]"] exI [of _ "[]"]) simp
    then show ?thesis
      using 1 h True fsm_waits [of ?w self] unat_Suc_small [of "sec_cnt w"]
      by (simp add: blame_inv_def entry_second)
  next
    case 2
    note f = fsm_confirms [of ?w self, simplified, OF 2(1,2) True]
    have u: "unat (sec_cnt w + 1) = Suc (unat (sec_cnt w))" using 2(2) by (intro unat_Suc_small) simp
    show ?thesis
    proof (cases "Suc (unat (sec_cnt w)) < 15")
      case less: True
      have "tracked pr self (es2 @ [Turn]) (?w\<lparr>sec_cnt := sec_cnt w + 1\<rparr>) s'"
        by (rule tracked_cong [OF tracked_turn [OF 2(5)]]) (use assms in simp_all)
      then have "\<exists>es1 es2. es @ [Turn] = es1 @ es2 \<and> turns es2 = Suc (unat (sec_cnt w))
          \<and> tracked pr self es2 (?w\<lparr>sec_cnt := sec_cnt w + 1\<rparr>) s'"
        using 2 by (intro exI [of _ es1] exI [of _ "es2 @ [Turn]"]) simp
      then show ?thesis using 2 h True less f u by (simp add: blame_inv_def entry_second)
    next
      case due: False
      then have n: "turns (es2 @ [Turn]) = 15" using 2 by simp
      show ?thesis
      proof (cases "lowest_thread w = None \<or> lowest_thread w = Some self")
        case True
        have "\<exists>es1 es2. es @ [Turn] = es1 @ es2 \<and> turns es2 = 0 \<and> tracked pr self es2 (w'\<lparr>lowest_thread := None\<rparr>) s'" for w'
          using fresh [of w'] by (intro exI [of _ "es @ [Turn]"] exI [of _ "[]"]) simp
        then show ?thesis
          using 2 h \<open>place w = Delay_Second\<close> due f True by (auto simp: blame_inv_def entry_second)
      next
        case False
        then obtain l where l: "lowest_thread w = Some l" "l \<noteq> self" by auto
        then have "least_urgent pr es2 l" using 2(5) by (simp add: tracked_def)
        then have "blamed pr (es @ [Turn]) l"
          unfolding blamed_def using n 2(3)
          by (intro exI [of _ es1] exI [of _ "es2 @ [Turn]"] exI [of _ "[]"]) simp
        then show ?thesis using l h True due f by (simp add: blame_inv_def entry_second)
      qed
    qed
  qed
qed

lemma blame_switch:
  assumes i: "blame_inv pr self es w s" and o: "in_order (fixed_prio pr self) s" and c: "current_thread s = Some c"
    and s': "current_thread s' = Some t" "t \<noteq> c"
  shows "blame_inv pr self (es @ [Runs t (prio s t)]) (syswatch_thread_switch_hook c t s w) s'"
proof (cases "prio s t = 31")
  case True
  have "prio s c < 32" using o by (simp add: in_order_def)
  then show ?thesis using True i blamed_more by (fastforce simp: hook_idle blame_inv_def)
next
  case False
  have f: "fixed_prio pr self s" using o by (simp add: in_order_def)
  have "\<exists>es1' es2'. es @ [Runs t (prio s t)] = es1' @ es2' \<and> turns es2' = unat (sec_cnt w)
      \<and> tracked pr self es2' (w\<lparr>lowest_thread := suspect c t s w\<rparr>) s'"
    if "op_step w = 1" "es = es1 @ es2" "turns es2 = unat (sec_cnt w)" "tracked pr self es2 w s" for es1 es2
    using tracked_switch [OF that(4) f c s' that(1)] that(2,3)
    by (intro exI [of _ es1] exI [of _ "es2 @ [Runs t (prio s t)]"]) simp
  then show ?thesis
    using i blamed_more unfolding hook_other [OF False] blame_inv_def by fastforce
qed

interpretation blame: watch_invariant self "fixed_prio pr self" "blame_inv pr self" for self pr
proof unfold_locales
  fix es w s t s1
  assume i: "blame_inv pr self es w s" "current_thread s = Some self"
    and s1: "s1 = snd (thread_suspend self s)" "in_order (fixed_prio pr self) s1"
    and t: "current_thread (rt_schedule s1) = Some t" "t \<noteq> self"
  have c: "current_thread s1 = Some self" using i(2) by (simp add: s1(1))
  from blame_switch [OF blame_turn [OF i c] s1(2) c t]
  show "blame_inv pr self (es @ [Turn, Runs t (prio s1 t)])
      (syswatch_thread_switch_hook self t s1 (fst (syswatch_thread_entry self w))) (rt_schedule s1)"
    by simp
next
  fix es w and s s' :: sched
  assume "blame_inv pr self es w s" "current_thread s = Some self" "current_thread s' = Some self"
  then show "blame_inv pr self (es @ [Turn]) (fst (syswatch_thread_entry self w)) s'" by (rule blame_turn)
next
  fix es w and s s' :: sched
  assume "blame_inv pr self es w s" and c: "current_thread s' = current_thread s"
  moreover have "tracked pr self es2 w s' = tracked pr self es2 w s" for es2
    by (simp add: tracked_def c split: option.split)
  ultimately show "blame_inv pr self es w s'" by (simp add: blame_inv_def)
next
  fix es w s c t
  assume "blame_inv pr self es w s" "in_order (fixed_prio pr self) s" "current_thread s = Some c"
    "current_thread (rt_schedule s) = Some t" "t \<noteq> c"
  then show "blame_inv pr self (es @ [Runs t (prio s t)]) (syswatch_thread_switch_hook c t s w) (rt_schedule s)"
    by (rule blame_switch)
qed (auto simp: fixed_prio_def blame_inv_def)

section \<open>Properties\<close>

text \<open>The state before the thread runs for the first time, with a watchdog device.\<close>

definition at_entry :: "sys_watch \<Rightarrow> bool" where
  "at_entry w \<longleftrightarrow> place w = Entry \<and> op_step w = 0 \<and> sec_cnt w = 0 \<and> lowest_thread w = None
     \<and> hook_calls w = [] \<and> \<not> cpu_reset w \<and> wdt_dev w \<noteq> None"

lemma entry_starts:
  fixes self
  assumes "at_entry w"
  defines "w1 \<equiv> fst (syswatch_thread_entry self w)"
  shows "place w1 = Delay_Second" "scheduler_hook w1" "op_step w1 = 0" "sec_cnt w1 = 0"
    "lowest_thread w1 = None" "hook_calls w1 = []" "\<not> cpu_reset w1" "event_hook w1 = event_hook w"
  using assms(1) unfolding w1_def
  by (auto simp: at_entry_def syswatch_thread_entry_def syswatch_wdt_startup_def Let_def)

lemma watch_run_mono:
  assumes "watch_run self R x es y" and "\<And>s. R s \<Longrightarrow> R' s"
  shows "watch_run self R' x es y"
  using assms(1)
proof (induction rule: watch_run.induct)
  case (w_between es w s s')
  then show ?case using watch_run.w_between assms(2) by (simp add: between_def)
qed (auto intro: watch_run.intros)

text \<open>
  A run of the watch beside a thread that never stops: a turn, the other thread, and a second later
  the watch again.
\<close>

definition beside :: "nat \<Rightarrow> (nat \<Rightarrow> nat) \<Rightarrow> nat \<Rightarrow> sched \<Rightarrow> bool" where
  "beside h pr self s \<longleftrightarrow> hogged h self s \<and> fixed_prio pr self s"

definition turn_due :: "nat \<Rightarrow> (nat \<Rightarrow> nat) \<Rightarrow> nat \<Rightarrow> sched \<Rightarrow> bool" where
  "turn_due h pr self s \<longleftrightarrow> in_order (beside h pr self) s \<and> current_thread s = Some self
     \<and> stat_of s self = THREAD_RUNNING \<and> lock_nest s = 0"

lemma in_order_beside:
  "in_order (beside h pr self) s \<longleftrightarrow> in_order (hogged h self) s \<and> in_order (fixed_prio pr self) s"
  by (auto simp: in_order_def beside_def)

lemma schedule_suspended:
  assumes "sched_ok s" and "current_thread s = Some c" and "stat_of s t = THREAD_SUSPEND"
  shows "stat_of (rt_schedule s) t = THREAD_SUSPEND"
proof (cases "lock_nest s \<noteq> 0 \<or> ready_queue s = []")
  case True
  then show ?thesis using rt_schedule_none [of s] assms by (auto simp: sched_ok_def)
next
  case False
  note o = sched_okD [OF assms(1)]
  from False obtain q qs where l: "lock_nest s = 0" and q: "ready_queue s = q # qs"
    by (cases "ready_queue s") auto
  then have "stat_of s q = THREAD_READY" using ready_queue_members [OF o(1), of q] by simp
  then show ?thesis
    using rt_schedule_stay [OF o(1) l assms(2) q] rt_schedule_switch [OF o(1,2) l assms(2) q]
      switch_to_spec(4) [OF o(1,2) assms(2) q] assms(3)
    by (cases "stays s c q") auto
qed

lemma watch_cycle:
  assumes run: "watch_run self (beside h pr self) x es (w, s)" and d: "turn_due h pr self s"
    and w: "watching self w"
  shows "\<exists>es' w' s'. watch_run self (beside h pr self) x (es @ es') (w', s') \<and> turns es' = 1
    \<and> turn_due h pr self s'"
proof -
  define s0 where "s0 = snd (thread_suspend self s)"
  define s1 where "s1 = rt_schedule s0"
  define s2 where "s2 = rt_schedule_insert_thread self s1"
  define s3 where "s3 = rt_schedule s2"
  have c: "current_thread s = Some self" "stat_of s self = THREAD_RUNNING" "lock_nest s = 0"
    and o: "in_order (beside h pr self) s" using d by (simp_all add: turn_due_def)
  have o0: "in_order (beside h pr self) s0"
    using o hog.order_suspend blame.order_suspend by (simp add: in_order_beside s0_def)
  then have o1: "in_order (beside h pr self) s1"
    using hog.order_schedule blame.order_schedule by (simp add: in_order_beside s1_def)
  have c0: "current_thread s0 = Some self" "stat_of s0 self = THREAD_SUSPEND" "lock_nest s0 = 0"
    using c suspend_stat(2) [OF c(2,1)] suspend_stat(3) by (simp_all add: s0_def)
  have ok: "sched_ok s0" "sched_ok s1" and g: "hogged h self s0" "hogged h self s1" "fixed_prio pr self s1"
    using o0 o1 by (simp_all add: in_order_def beside_def)
  have sus: "stat_of s1 self = THREAD_SUSPEND"
    unfolding s1_def by (rule schedule_suspended [OF ok(1) c0(1,2)])
  obtain r where r: "current_thread s1 = Some r" "stat_of s0 r \<in> {THREAD_READY, THREAD_RUNNING}"
    using hog_picks [OF ok(1) g(1) c0(1,3)] unfolding s1_def by metis
  then have rs: "r \<noteq> self" using c0(2) by auto
  then have "can_wait s1 self" using sus r(1) by (simp add: can_wait_def)
  note i = insert_waiting [OF sched_okD(1) [OF ok(2)] this]
  have st2: "stat_of s2 u = (if u = self then THREAD_READY else stat_of s1 u)"
    and l2: "lock_nest s2 = 0" and c2: "current_thread s2 = Some r" for u
    using i(2) r(1) c0(3) by (simp_all add: s2_def s1_def)
  have p2: "prio s2 u = prio s1 u" for u by (simp add: s2_def)
  have b: "between (beside h pr self) s1 s2"
    using insert_ok(1) [OF ok(2) sus] g(2,3) c2 r(1) o1 st2 p2
    by (auto simp: between_def in_order_def beside_def hogged_def fixed_prio_def s2_def)
  then have o2: "in_order (beside h pr self) s2" using r(1) by (simp add: between_def in_order_def)
  have o3: "in_order (beside h pr self) s3"
    using o2 hog.order_schedule blame.order_schedule by (simp add: in_order_beside s3_def)
  have ok2: "sched_ok s2" using o2 by (simp add: in_order_def)
  have "stat_of s2 self \<in> {THREAD_READY, THREAD_RUNNING}" using st2 by simp
  from schedule_picks [OF ok2 l2 c2 this] obtain q where
    q: "current_thread s3 = Some q" "stat_of s3 q = THREAD_RUNNING" "prio s2 q \<le> prio s2 self"
    using st2 unfolding s3_def by fastforce
  have "q = self" using q(3) g(2) p2 unfolding hogged_def by (metis le_zero_eq less_irrefl)
  then have d3: "turn_due h pr self s3" using q o3 l2 by (simp add: turn_due_def s3_def)
  have nr: "\<not> cpu_reset w" "place (fst (syswatch_thread_entry self w)) \<noteq> Ended"
    using w hog.entry_goes_on(1) [of w self] by (fastforce simp: watching_def)+
  have sw: "snd (syswatch_turn self (w, s)) = s1"
    using nr(2) by (simp add: syswatch_turn_def schedule_hooked_def s1_def s0_def Let_def)
  obtain w1 where w1: "syswatch_turn self (w, s) = (w1, s1)" using sw by (metis prod.collapse)
  have "watch_run self (beside h pr self) x (es @ Turn # switched s s1) (w1, s1)"
    using w_turn [OF run c nr(1)] w1 by simp
  from w_schedule [OF w_between [OF this b]]
  have "watch_run self (beside h pr self) x ((es @ Turn # switched s s1) @ switched s2 s3) (schedule_hooked (w1, s2))"
    using c2 by (simp add: s3_def)
  moreover have "snd (schedule_hooked (w1, s2)) = s3" by (simp add: schedule_hooked_def s3_def Let_def)
  ultimately show ?thesis
    using d3 by (intro exI [of _ "Turn # switched s s1 @ switched s2 s3"]
      exI [of _ "fst (schedule_hooked (w1, s2))"] exI [of _ s3]) (simp, metis prod.collapse)
qed

text \<open>Going on like this for 75 turns starts the reset.\<close>

lemma watch_starves:
  assumes w: "watching self w0" "op_step w0 = 0" "sec_cnt w0 = 0" and d: "turn_due h pr self s0"
  shows "\<exists>es w s. watch_run self (beside h pr self) (w0, s0) es (w, s) \<and> turns es \<le> n
    \<and> turn_due h pr self s \<and> (turns es = n \<or> place w = Delay_Reset)"
proof (induction n)
  case 0
  show ?case using w_start d by (intro exI [of _ "[]"] exI [of _ w0] exI [of _ s0]) simp
next
  case (Suc n)
  then obtain es w s where r: "watch_run self (beside h pr self) (w0, s0) es (w, s)" "turns es \<le> n"
    "turn_due h pr self s" "turns es = n \<or> place w = Delay_Reset" by blast
  show ?case
  proof (cases "place w = Delay_Reset")
    case True
    then show ?thesis using r by (metis le_Suc_eq)
  next
    case False
    have "in_order (hogged h self) s0" using d by (simp add: turn_due_def in_order_beside)
    moreover have "watch_run self (hogged h self) (w0, s0) es (w, s)"
      by (rule watch_run_mono [OF r(1)]) (simp add: beside_def)
    ultimately have "hog_inv self es w s"
      using hog.run_inv [of self h "(w0, s0)" es "(w, s)"] w by (simp add: hog_inv_def)
    then have "watching self w" using False by (auto simp: hog_inv_def)
    from watch_cycle [OF r(1,3) this] obtain es' w' s' where
      "watch_run self (beside h pr self) (w0, s0) (es @ es') (w', s')" "turns es' = 1" "turn_due h pr self s'"
      by blast
    then show ?thesis
      using r(4) False by (intro exI [of _ "es @ es'"] exI [of _ w'] exI [of _ s']) simp
  qed
qed

text \<open>
  For the examples: the watch is thread 1, thread 2 has priority 10 and thread 3 is the idle thread.
\<close>

definition watch_boot :: sched where
  "watch_boot = zero_sched\<lparr>tcbs := (\<lambda>_. \<lparr>stat = THREAD_INIT, yielded = False, init_prio = 31,
     cur_prio = 31, number_mask = 0, init_tick = 0, remaining_tick = 0\<rparr>)\<rparr>"

definition watch_sched :: sched where
  "watch_sched = rt_system_scheduler_start (rt_thread_startup 3 (rt_thread_startup 2 (rt_thread_startup 1
     (thread_init 3 31 2 (thread_init 2 10 2 (thread_init 1 0 20 (rt_system_scheduler_init watch_boot)))))))"

definition watch_fresh :: sys_watch where
  "watch_fresh = \<lparr>init_done = True, sec_cnt = 0, op_step = 0, event_hook = True, lowest_thread = None,
     scheduler_hook = False, hook_calls = [], cpu_reset = False, place = Entry,
     wdt_dev = Some (rt_wdt_init \<lparr>prescaler = 0, reload = 0, is_start = 0, sr_clears = (\<lambda>_. True),
       iwdg_inits = 0, iwdg_writes = []\<rparr>)\<rparr>"

definition watch_prio :: "nat \<Rightarrow> nat" where
  "watch_prio t = (if t = 1 then 0 else if t = 2 then 10 else 31)"

lemma watch_sched_ok: "sched_ok watch_sched"
proof -
  let ?i = "rt_system_scheduler_init watch_boot"
  let ?a = "thread_init 1 0 20 ?i"
  let ?b = "thread_init 2 10 2 ?a"
  let ?c = "thread_init 3 31 2 ?b"
  let ?d = "rt_thread_startup 1 ?c"
  let ?e = "rt_thread_startup 2 ?d"
  let ?f = "rt_thread_startup 3 ?e"
  have "sched_step ?i ?a" "sched_step ?a ?b" "sched_step ?b ?c" by (rule s_init; code_simp)+
  moreover have "sched_step ?c ?d" "sched_step ?d ?e" "sched_step ?e ?f"
    by (rule s_startup; code_simp)+
  moreover have "sched_step ?f watch_sched" unfolding watch_sched_def by (rule s_start; code_simp)
  ultimately have "sched_step\<^sup>*\<^sup>* ?i watch_sched"
    by (meson r_into_rtranclp rtranclp.rtrancl_into_rtrancl)
  moreover have "boot_state watch_boot" by (simp add: boot_state_def watch_boot_def zero_sched_def)
  ultimately show ?thesis using sched_steps_ok [OF _ boot_ok] by blast
qed

lemma resume_prio [simp]: "cur_prio (tcbs (snd (thread_resume t s)) u) = cur_prio (tcbs s u)"
  by (simp add: thread_resume_def)

lemma start_prio [simp]: "cur_prio (tcbs (rt_system_scheduler_start s) u) = cur_prio (tcbs s u)"
  by (simp add: rt_system_scheduler_start_def split: prod.split option.split)

lemma watch_sched_prio: "prio watch_sched t = watch_prio t"
proof -
  have b: "cur_prio (tcbs (rt_system_scheduler_init watch_boot) u) = 31" for u
    by (simp add: rt_system_scheduler_init_def watch_boot_def)
  have s: "cur_prio (tcbs (rt_thread_startup v s) u) =
      (if u = v \<and> stat_of s v = THREAD_INIT then init_prio (tcbs s v) else cur_prio (tcbs s u))" for v s u
    by (simp add: rt_thread_startup_def Let_def)
  let ?c = "thread_init 3 31 2 (thread_init 2 10 2 (thread_init 1 0 20 (rt_system_scheduler_init watch_boot)))"
  have c: "cur_prio (tcbs ?c u) = word_of_nat (watch_prio u)" for u
    using b by (simp add: thread_init_def RT_THREAD_PRIORITY_MAX_def watch_prio_def)
  have i: "init_prio (tcbs ?c 1) = 0" "init_prio (tcbs (rt_thread_startup 1 ?c) 2) = 10"
    "init_prio (tcbs (rt_thread_startup 2 (rt_thread_startup 1 ?c)) 3) = 31" by code_simp+
  have "cur_prio (tcbs watch_sched t) = word_of_nat (watch_prio t)"
    unfolding watch_sched_def start_prio s using c i by (auto simp: watch_prio_def)
  then show ?thesis by (simp add: watch_prio_def)
qed

lemma watch_sched_due: "turn_due 2 watch_prio 1 watch_sched"
proof -
  have "stat_of watch_sched 2 = THREAD_READY" "current_thread watch_sched = Some 1"
    "stat_of watch_sched 1 = THREAD_RUNNING" "lock_nest watch_sched = 0" by code_simp+
  then show ?thesis
    using watch_sched_ok watch_sched_prio
    by (simp add: turn_due_def in_order_def beside_def hogged_def fixed_prio_def watch_prio_def)
qed

lemma watch_fresh_entry: "at_entry watch_fresh"
  by (simp add: at_entry_def watch_fresh_def)

lemma watch_fresh_starves:
  "\<exists>es w s. watch_run 1 (beside 2 watch_prio 1) (fst (syswatch_thread_entry 1 watch_fresh), watch_sched) es (w, s)
    \<and> turns es \<le> n \<and> turn_due 2 watch_prio 1 s \<and> (turns es = n \<or> place w = Delay_Reset)"
  by (rule watch_starves [OF _ _ _ watch_sched_due])
    (simp_all add: watching_def entry_starts [OF watch_fresh_entry])

lemma watch_sched_order:
  "in_order (\<lambda>_. True) watch_sched" "in_order (hogged 2 1) watch_sched"
  "in_order (fixed_prio watch_prio 1) watch_sched"
  using watch_sched_due by (auto simp: turn_due_def in_order_def beside_def)

lemma watch_fresh_resets:
  "\<exists>es w s. watch_run 1 (beside 2 watch_prio 1) (fst (syswatch_thread_entry 1 watch_fresh), watch_sched) es (w, s)
    \<and> place w = Delay_Reset"
proof -
  let ?w = "fst (syswatch_thread_entry 1 watch_fresh)"
  obtain es w s where r: "watch_run 1 (beside 2 watch_prio 1) (?w, watch_sched) es (w, s)"
    "turns es = 75 \<or> place w = Delay_Reset" using watch_fresh_starves [of 75] by blast
  have "watch_run 1 (hogged 2 1) (?w, watch_sched) es (w, s)"
    by (rule watch_run_mono [OF r(1)]) (simp add: beside_def)
  then have "hog_inv 1 es w s"
    using hog.run_inv [of 1 2 "(?w, watch_sched)" es "(w, s)"] watch_sched_order(2)
      entry_starts [OF watch_fresh_entry]
    by (simp add: hog_inv_def watching_def)
  then have "place w = Delay_Reset" using r(2) by (auto simp: hog_inv_def watching_def split: if_splits)
  then show ?thesis using r(1) by blast
qed

lemma reload_small:
  assumes "sec \<le> 134217"
  shows "unat (sec * LSI_VALUE div 256) = 125 * unat sec"
proof -
  have "unat sec \<le> 134217" using assms by (simp add: word_le_nat_alt)
  then show ?thesis by (simp add: LSI_VALUE_def unat_div unat_word_ariths(2))
qed

lemma timeout_back:
  assumes "unat r = 125 * unat sec" and "sec \<le> 32"
  shows "r * 256 div LSI_VALUE = sec"
proof -
  have "unat sec \<le> 32" using assms(2) by (simp add: word_le_nat_alt)
  then show ?thesis
    using assms(1) by (simp add: word_unat_eq_iff LSI_VALUE_def unat_div unat_word_ariths(2))
qed

text \<open>C6: 
  no false alarm: however threads, interrupts and the watch interleave, and whatever happens to the
  priorities, the watch only resets the system after 75 of its turns between which the idle thread
  was never switched to, and from the first to the last of these turns at least 74 seconds pass.
\<close>

theorem syswatch_no_false_reset:
  assumes "at_entry w0" and "in_order (\<lambda>_. True) s0"
    and "timed_run self (\<lambda>_. True) (snd (syswatch_thread_entry self w0))
      (fst (syswatch_thread_entry self w0), s0) es ts now due (w, s)"
    and "place w = Delay_Reset \<or> cpu_reset w"
  shows "length ts = turns es \<and> (\<exists>es1 es2 es3. es = es1 @ es2 @ es3 \<and> 75 \<le> turns es2 \<and> \<not> list_ex is_idle es2
    \<and> ts ! turns es1 + 74000 \<le> ts ! (turns es1 + 74))"
proof -
  let ?x = "(fst (syswatch_thread_entry self w0), s0)"
  have i: "reset_inv [] (fst ?x) (snd ?x)" "place (fst ?x) = Delay_Second"
    using entry_starts [OF assms(1), of self] by (simp_all add: reset_inv_def patient_def)
  have "place w = Delay_Reset"
    using no_false_reset.run_inv [OF timed_run_watch [OF assms(3)] i(1)] assms(2,4) by (auto simp: reset_inv_def)
  then have l: "length ts = turns es" and "starved_long es ts"
    using timed_paced [OF assms(3) i(1) _ i(2)] assms(2) by (simp_all add: paced_def)
  then obtain es1 es2 es3 where e: "es = es1 @ es2 @ es3" "75 \<le> turns es2" "\<not> list_ex is_idle es2"
    "second_apart (turns es1 + turns es2) ts" unfolding starved_long_def by auto
  have "ts ! turns es1 + 74000 \<le> ts ! (turns es1 + 74)"
    using second_apart_sum [OF e(4), of "turns es1" 74] e(2) by simp
  then show ?thesis using l e(1-3) by blast
qed

theorem syswatch_no_false_reset_witness:
  "\<exists>es ts now due w s. timed_run 1 (\<lambda>_. True) (snd (syswatch_thread_entry 1 watch_fresh))
      (fst (syswatch_thread_entry 1 watch_fresh), watch_sched) es ts now due (w, s)
    \<and> place w = Delay_Reset \<and> 75 \<le> length ts"
proof -
  let ?x = "(fst (syswatch_thread_entry 1 watch_fresh), watch_sched)"
  obtain es w s where r: "watch_run 1 (beside 2 watch_prio 1) ?x es (w, s)"
    and p: "place w = Delay_Reset" using watch_fresh_resets by blast
  have "watch_run 1 (\<lambda>_. True) ?x es (w, s)" by (rule watch_run_mono [OF r]) simp
  then obtain ts now due where t: "timed_run 1 (\<lambda>_. True) (snd (syswatch_thread_entry 1 watch_fresh)) ?x es ts now due (w, s)"
    using watch_run_timed by blast
  from syswatch_no_false_reset [OF watch_fresh_entry watch_sched_order(1) t] p
  have "75 \<le> length ts" by auto
  then show ?thesis using t p by blast
qed

text \<open>C7: 
  a thread more urgent than the idle thread that can always run is noticed, whatever the other
  threads do: from any state of the watch, after at most 75 of its turns it has called the event
  hook for a thread other than itself, and the turn after it resets the processor.
\<close>

theorem syswatch_resets_hog:
  assumes "watching self w0" and "in_order (hogged h self) s0"
    and "watch_run self (hogged h self) (w0, s0) es (w, s)"
  shows "(75 \<le> turns es \<longrightarrow> place w = Delay_Reset
      \<and> (event_hook w \<longrightarrow> (\<exists>t. t \<noteq> self \<and> (SYSWATCH_EVENT_SYSTEM_RESET, t) \<in> set (hook_calls w))))
    \<and> (76 \<le> turns es \<longrightarrow> cpu_reset w)"
proof -
  have "hog_inv self [] w0 s0" using assms(1) by (simp add: hog_inv_def)
  then have "hog_inv self es w s" using hog.run_inv [OF assms(3)] assms(2) by simp
  then show ?thesis by (auto simp: hog_inv_def watching_def split: if_splits)
qed

theorem syswatch_resets_hog_witness:
  "\<exists>es w s. watch_run 1 (hogged 2 1) (fst (syswatch_thread_entry 1 watch_fresh), watch_sched) es (w, s)
    \<and> place w = Delay_Reset"
proof -
  let ?w = "fst (syswatch_thread_entry 1 watch_fresh)"
  obtain es w s where r: "watch_run 1 (beside 2 watch_prio 1) (?w, watch_sched) es (w, s)"
    "turns es = 75 \<or> place w = Delay_Reset" using watch_fresh_starves [of 75] by blast
  have h: "watch_run 1 (hogged 2 1) (?w, watch_sched) es (w, s)"
    by (rule watch_run_mono [OF r(1)]) (simp add: beside_def)
  have "watching 1 ?w" using entry_starts [OF watch_fresh_entry] by (simp add: watching_def)
  from syswatch_resets_hog [OF this watch_sched_order(2) h] h r(2) show ?thesis by auto
qed

text \<open>C22: 
  the blame is right: while the priorities are fixed and the watch alone has the highest, the thread
  that the event hook is called for ran during the 15 turns of confirming, and no thread that was
  switched to in that time is less urgent.
\<close>

theorem syswatch_blames_least_urgent:
  assumes "at_entry w0" and "event_hook w0" and "in_order (fixed_prio pr self) s0"
    and "watch_run self (fixed_prio pr self) (fst (syswatch_thread_entry self w0), s0) es (w, s)"
    and "place w = Delay_Reset"
  shows "\<exists>l es1 es2 es3. hook_calls w = [(SYSWATCH_EVENT_SYSTEM_RESET, l)] \<and> l \<noteq> self
    \<and> es = es1 @ es2 @ es3 \<and> turns es2 = 15 \<and> least_urgent pr es2 l"
proof -
  have "blame_inv pr self [] (fst (syswatch_thread_entry self w0)) s0"
    using entry_starts [OF assms(1), of self] assms(2) by (simp add: blame_inv_def)
  then have "blame_inv pr self es w s" using blame.run_inv [OF assms(4)] assms(3) by simp
  then show ?thesis using assms(5) unfolding blame_inv_def blamed_def by auto
qed

theorem syswatch_blames_least_urgent_witness:
  "\<exists>(w :: sys_watch) l es2. hook_calls w = [(SYSWATCH_EVENT_SYSTEM_RESET, l)] \<and> l \<noteq> 1 \<and> turns es2 = 15
    \<and> least_urgent watch_prio es2 l"
proof -
  let ?w = "fst (syswatch_thread_entry 1 watch_fresh)"
  obtain es w s where r: "watch_run 1 (beside 2 watch_prio 1) (?w, watch_sched) es (w, s)"
    and p: "place w = Delay_Reset" using watch_fresh_resets by blast
  have f: "watch_run 1 (fixed_prio watch_prio 1) (?w, watch_sched) es (w, s)"
    by (rule watch_run_mono [OF r]) (simp add: beside_def)
  have "event_hook watch_fresh" by (simp add: watch_fresh_def)
  from syswatch_blames_least_urgent [OF watch_fresh_entry this watch_sched_order(3) f p] show ?thesis by blast
qed

text \<open>C38: 
  the timeout of the watchdog: up to 32 seconds it is kept exactly and read back as it was set, from
  33 seconds on it is refused, and from 134218 seconds on the product wraps and such a time may be
  taken for a fraction of a second.
\<close>

theorem watchdog_timeout_bounds:
  assumes "is_start d = 0"
  defines "set_to \<equiv> \<lambda>sec. rt_watchdog_control RT_DEVICE_CTRL_WDT_SET_TIMEOUT sec d"
  shows "(sec \<le> 32 \<longrightarrow> fst (set_to sec) = RT_EOK \<and> unat (reload (snd (snd (set_to sec)))) = 125 * unat sec
        \<and> fst (snd (rt_watchdog_control RT_DEVICE_CTRL_WDT_GET_TIMEOUT x (snd (snd (set_to sec))))) = sec)
    \<and> (33 \<le> sec \<and> sec \<le> 134217 \<longrightarrow> fst (set_to sec) = RT_EINVAL)
    \<and> fst (set_to 134218) = RT_EOK \<and> reload (snd (snd (set_to 134218))) = 34"
proof -
  have r: "unat (sec * LSI_VALUE div 256) = 125 * unat sec" if "sec \<le> 134217" by (rule reload_small [OF that])
  have small: "\<not> 0xFFF < sec * LSI_VALUE div 256" "sec \<le> 134217" if "sec \<le> 32"
  proof -
    have n: "unat sec \<le> 32" using that by (simp add: word_le_nat_alt)
    then show le: "sec \<le> 134217" by (simp add: word_le_nat_alt)
    show "\<not> 0xFFF < sec * LSI_VALUE div 256" using r [OF le] n by (simp add: word_less_nat_alt)
  qed
  have large: "0xFFF < sec * LSI_VALUE div 256" if "33 \<le> sec" "sec \<le> 134217"
    using r [OF that(2)] that(1) by (simp add: word_less_nat_alt word_le_nat_alt)
  have wrap: "(134218 :: u32) * LSI_VALUE div 256 = 34" by (simp add: LSI_VALUE_def)
  note cmds = RT_DEVICE_CTRL_WDT_SET_TIMEOUT_def RT_DEVICE_CTRL_WDT_GET_TIMEOUT_def
    RT_DEVICE_CTRL_WDT_KEEPALIVE_def
  have set: "set_to v = (if 0xFFF < v * LSI_VALUE div 256 then (RT_EINVAL, v, d\<lparr>reload := v * LSI_VALUE div 256\<rparr>)
      else (RT_EOK, v, d\<lparr>reload := v * LSI_VALUE div 256\<rparr>))" for v
    using assms(1) by (simp add: set_to_def rt_watchdog_control_def wdt_control_def cmds)
  show ?thesis
    using small large r timeout_back [OF r]
    by (simp add: set wrap) (simp add: rt_watchdog_control_def wdt_control_def cmds)
qed

theorem watchdog_timeout_bounds_witness:
  "fst (rt_watchdog_control RT_DEVICE_CTRL_WDT_SET_TIMEOUT 134218 (the (wdt_dev watch_fresh))) = RT_EOK"
  using watchdog_timeout_bounds [of "the (wdt_dev watch_fresh)" 5 0]
  by (simp add: watch_fresh_def rt_wdt_init_def)

end
