(* ===== verification/Crc16.thy ===== *)
theory Crc16
  imports Prelude
begin

text \<open>
  The checksum of the Y-modem packets (\<open>components/utilities/ymodem/ymodem.c\<close>): a CRC of 16 bits
  with the polynomial 0x1021, bit by bit as it is compiled here, and by a table as an option. The
  lemmas show that both agree and which errors the checksum always finds.
\<close>

section \<open>The two implementations\<close>

definition crc_shift :: "u16 \<Rightarrow> u16" where
  "crc_shift crc = (if crc AND 0x8000 \<noteq> 0 then push_bit 1 crc XOR 0x1021 else push_bit 1 crc)"

definition crc_byte :: "u16 \<Rightarrow> u8 \<Rightarrow> u16" where
  "crc_byte crc q = (crc_shift ^^ 8) (crc XOR push_bit 8 (ucast q))"

definition CRC16 :: "u8 list \<Rightarrow> u16" where
  "CRC16 qs = foldl crc_byte 0 qs"

definition ccitt_table :: "u16 list" where
  "ccitt_table = [
     0x0000, 0x1021, 0x2042, 0x3063, 0x4084, 0x50A5, 0x60C6, 0x70E7, 0x8108, 0x9129, 0xA14A, 0xB16B,
     0xC18C, 0xD1AD, 0xE1CE, 0xF1EF, 0x1231, 0x0210, 0x3273, 0x2252, 0x52B5, 0x4294, 0x72F7, 0x62D6,
     0x9339, 0x8318, 0xB37B, 0xA35A, 0xD3BD, 0xC39C, 0xF3FF, 0xE3DE, 0x2462, 0x3443, 0x0420, 0x1401,
     0x64E6, 0x74C7, 0x44A4, 0x5485, 0xA56A, 0xB54B, 0x8528, 0x9509, 0xE5EE, 0xF5CF, 0xC5AC, 0xD58D,
     0x3653, 0x2672, 0x1611, 0x0630, 0x76D7, 0x66F6, 0x5695, 0x46B4, 0xB75B, 0xA77A, 0x9719, 0x8738,
     0xF7DF, 0xE7FE, 0xD79D, 0xC7BC, 0x48C4, 0x58E5, 0x6886, 0x78A7, 0x0840, 0x1861, 0x2802, 0x3823,
     0xC9CC, 0xD9ED, 0xE98E, 0xF9AF, 0x8948, 0x9969, 0xA90A, 0xB92B, 0x5AF5, 0x4AD4, 0x7AB7, 0x6A96,
     0x1A71, 0x0A50, 0x3A33, 0x2A12, 0xDBFD, 0xCBDC, 0xFBBF, 0xEB9E, 0x9B79, 0x8B58, 0xBB3B, 0xAB1A,
     0x6CA6, 0x7C87, 0x4CE4, 0x5CC5, 0x2C22, 0x3C03, 0x0C60, 0x1C41, 0xEDAE, 0xFD8F, 0xCDEC, 0xDDCD,
     0xAD2A, 0xBD0B, 0x8D68, 0x9D49, 0x7E97, 0x6EB6, 0x5ED5, 0x4EF4, 0x3E13, 0x2E32, 0x1E51, 0x0E70,
     0xFF9F, 0xEFBE, 0xDFDD, 0xCFFC, 0xBF1B, 0xAF3A, 0x9F59, 0x8F78, 0x9188, 0x81A9, 0xB1CA, 0xA1EB,
     0xD10C, 0xC12D, 0xF14E, 0xE16F, 0x1080, 0x00A1, 0x30C2, 0x20E3, 0x5004, 0x4025, 0x7046, 0x6067,
     0x83B9, 0x9398, 0xA3FB, 0xB3DA, 0xC33D, 0xD31C, 0xE37F, 0xF35E, 0x02B1, 0x1290, 0x22F3, 0x32D2,
     0x4235, 0x5214, 0x6277, 0x7256, 0xB5EA, 0xA5CB, 0x95A8, 0x8589, 0xF56E, 0xE54F, 0xD52C, 0xC50D,
     0x34E2, 0x24C3, 0x14A0, 0x0481, 0x7466, 0x6447, 0x5424, 0x4405, 0xA7DB, 0xB7FA, 0x8799, 0x97B8,
     0xE75F, 0xF77E, 0xC71D, 0xD73C, 0x26D3, 0x36F2, 0x0691, 0x16B0, 0x6657, 0x7676, 0x4615, 0x5634,
     0xD94C, 0xC96D, 0xF90E, 0xE92F, 0x99C8, 0x89E9, 0xB98A, 0xA9AB, 0x5844, 0x4865, 0x7806, 0x6827,
     0x18C0, 0x08E1, 0x3882, 0x28A3, 0xCB7D, 0xDB5C, 0xEB3F, 0xFB1E, 0x8BF9, 0x9BD8, 0xABBB, 0xBB9A,
     0x4A75, 0x5A54, 0x6A37, 0x7A16, 0x0AF1, 0x1AD0, 0x2AB3, 0x3A92, 0xFD2E, 0xED0F, 0xDD6C, 0xCD4D,
     0xBDAA, 0xAD8B, 0x9DE8, 0x8DC9, 0x7C26, 0x6C07, 0x5C64, 0x4C45, 0x3CA2, 0x2C83, 0x1CE0, 0x0CC1,
     0xEF1F, 0xFF3E, 0xCF5D, 0xDF7C, 0xAF9B, 0xBFBA, 0x8FD9, 0x9FF8, 0x6E17, 0x7E36, 0x4E55, 0x5E74,
     0x2E93, 0x3EB2, 0x0ED1, 0x1EF0]"

definition crc_table_byte :: "u16 \<Rightarrow> u8 \<Rightarrow> u16" where
  "crc_table_byte crc q =
     push_bit 8 crc XOR ccitt_table ! unat ((drop_bit 8 crc XOR ucast q) AND 0xFF)"

definition CRC16_table :: "u8 list \<Rightarrow> u16" where
  "CRC16_table qs = foldl crc_table_byte 0 qs"

section \<open>The shift is linear\<close>

lemma bit_poly: "bit (0x1021 :: u16) n \<longleftrightarrow> n = 0 \<or> n = 5 \<or> n = 12"
proof (cases "n < 16")
  case True
  have "\<forall>m \<in> set [0..<16]. bit (0x1021 :: u16) m \<longleftrightarrow> m = 0 \<or> m = 5 \<or> m = 12" by code_simp
  then show ?thesis using True by simp
next
  case False
  then show ?thesis using bit_imp_le_length [of "0x1021 :: u16" n] by auto
qed

lemma top_bit: "x AND 0x8000 \<noteq> 0 \<longleftrightarrow> bit (x :: u16) 15"
  using and_exp_eq_0_iff_not_bit [of x 15] by simp

lemma bit_shift: "bit (push_bit 1 x :: u16) n \<longleftrightarrow> n < 16 \<and> 0 < n \<and> bit x (n - 1)"
  by (simp only: bit_push_bit_iff possible_bit_word) auto

lemma bit_crc_shift:
  "bit (crc_shift x) n \<longleftrightarrow>
     (n < 16 \<and> 0 < n \<and> bit x (n - 1)) \<noteq> (bit x 15 \<and> (n = 0 \<or> n = 5 \<or> n = 12))"
  unfolding crc_shift_def top_bit
  by (cases "bit x 15"; simp only: if_True if_False bit_xor_iff bit_shift bit_poly; auto)

lemma crc_shift_xor: "crc_shift (x XOR y) = crc_shift x XOR crc_shift y"
  by (rule bit_word_eqI) (auto simp: bit_crc_shift bit_xor_iff)

lemma crc_shift_zero [simp]: "crc_shift 0 = 0"
  by (simp add: crc_shift_def)

lemma crc_shifts_xor: "(crc_shift ^^ n) (x XOR y) = (crc_shift ^^ n) x XOR (crc_shift ^^ n) y"
  by (induction n) (simp_all add: crc_shift_xor)

lemma crc_shifts_zero [simp]: "(crc_shift ^^ n) 0 = 0"
  by (induction n) simp_all

text \<open>The lowest bit of the result is the bit shifted out, so no other value is shifted to 0.\<close>

lemma crc_shift_nonzero:
  assumes "x \<noteq> 0" shows "crc_shift x \<noteq> 0"
proof
  assume z: "crc_shift x = 0"
  have "\<not> bit (crc_shift x) n" for n using z by simp
  note b = this [unfolded bit_crc_shift]
  have top: "\<not> bit x 15" using b [of 0] by simp
  have "\<not> bit x n" if "n < 16" for n
    using b [of "Suc n"] top that by (cases "n = 15") auto
  then have "x = 0" by (intro bit_word_eqI) auto
  then show False using assms by simp
qed

lemma crc_byte_xor: "crc_byte (a XOR b) (x XOR y) = crc_byte a x XOR crc_byte b y"
  by (simp add: crc_byte_def crc_shifts_xor [symmetric] push_bit_xor unsigned_xor_eq ac_simps)

section \<open>The table\<close>

text \<open>A table of a linear function doubles with each bit of the index.\<close>

definition crc_of :: "nat \<Rightarrow> u16" where
  "crc_of i = (crc_shift ^^ 8) (push_bit 8 (word_of_nat i))"

lemma crc_of_double:
  assumes "j < 2 ^ k" and "k < 16"
  shows "crc_of (2 ^ k + j) = crc_of j XOR crc_of (2 ^ k)"
proof -
  have "\<not> bit j k" using assms(1) by (simp add: bit_iff_odd)
  then have "(word_of_nat j :: u16) AND 2 ^ k = 0"
    by (intro bit_word_eqI) (auto simp: bit_and_iff bit_exp_iff bit_of_nat_iff)
  then have "word_of_nat (2 ^ k + j) = (word_of_nat j XOR word_of_nat (2 ^ k) :: u16)"
    using disjunctive_add_eq_xor [of "word_of_nat j :: u16" "2 ^ k"] by (simp add: add.commute)
  then show ?thesis by (simp add: crc_of_def push_bit_xor crc_shifts_xor)
qed

definition double :: "u16 \<Rightarrow> u16 list \<Rightarrow> u16 list" where
  "double c ts = ts @ map (\<lambda>t. t XOR c) ts"

lemma crc_of_table:
  assumes "k < 16" and "n = 2 ^ k" and "c = crc_of n"
  shows "map crc_of [0..<n + n] = double c (map crc_of [0..<n])"
proof (rule nth_equalityI)
  fix i assume "i < length (map crc_of [0..<n + n])"
  then have i: "i < n + n" by simp
  have "crc_of i = crc_of (i - n) XOR c" if "\<not> i < n"
    using crc_of_double [of "i - n" k] assms i that by simp
  then show "map crc_of [0..<n + n] ! i = double c (map crc_of [0..<n]) ! i"
    using i by (simp add: double_def nth_append)
qed (simp add: double_def)

lemma crc_of_table_step:
  assumes "map crc_of [0..<n] = ts" and "k < 16" and "n = 2 ^ k" and "crc_of n = c" and "m = n + n"
  shows "map crc_of [0..<m] = double c ts"
  using crc_of_table [OF assms(2,3), of c] assms(1,4,5) by simp

lemma crc_shift_8: "(crc_shift ^^ 8) x =
    crc_shift (crc_shift (crc_shift (crc_shift (crc_shift (crc_shift (crc_shift (crc_shift x)))))))"
  by (simp add: eval_nat_numeral)

lemma crc_of_bits:
  "crc_of 1 = 0x1021" "crc_of 2 = 0x2042" "crc_of 4 = 0x4084" "crc_of 8 = 0x8108"
  "crc_of 16 = 0x1231" "crc_of 32 = 0x2462" "crc_of 64 = 0x48C4" "crc_of 128 = 0x9188"
  by (simp_all add: crc_of_def crc_shift_8 crc_shift_def)

lemma ccitt_table_eq: "ccitt_table = map crc_of [0..<256]"
proof -
  have "[0..<2] = [0 :: nat, 1]" by (simp add: upt_rec)
  then have "map crc_of [0..<2] = double 0x1021 [0]"
    using crc_of_bits(1) by (simp add: double_def crc_of_def)
  then have "map crc_of [0..<4] = double 0x2042 (double 0x1021 [0])"
    by (rule crc_of_table_step [of _ _ 1]) (simp_all add: crc_of_bits)
  then have "map crc_of [0..<8] = double 0x4084 (double 0x2042 (double 0x1021 [0]))"
    by (rule crc_of_table_step [of _ _ 2]) (simp_all add: crc_of_bits)
  then have "map crc_of [0..<16] = double 0x8108 (double 0x4084 (double 0x2042 (double 0x1021 [0])))"
    by (rule crc_of_table_step [of _ _ 3]) (simp_all add: crc_of_bits)
  then have "map crc_of [0..<32] =
      double 0x1231 (double 0x8108 (double 0x4084 (double 0x2042 (double 0x1021 [0]))))"
    by (rule crc_of_table_step [of _ _ 4]) (simp_all add: crc_of_bits)
  then have "map crc_of [0..<64] =
      double 0x2462 (double 0x1231 (double 0x8108 (double 0x4084 (double 0x2042 (double 0x1021 [0])))))"
    by (rule crc_of_table_step [of _ _ 5]) (simp_all add: crc_of_bits)
  then have "map crc_of [0..<128] = double 0x48C4
      (double 0x2462 (double 0x1231 (double 0x8108 (double 0x4084 (double 0x2042 (double 0x1021 [0]))))))"
    by (rule crc_of_table_step [of _ _ 6]) (simp_all add: crc_of_bits)
  then have "map crc_of [0..<256] = double 0x9188 (double 0x48C4
      (double 0x2462 (double 0x1231 (double 0x8108 (double 0x4084 (double 0x2042 (double 0x1021 [0])))))))"
    by (rule crc_of_table_step [of _ _ 7]) (simp_all add: crc_of_bits)
  then show ?thesis by (simp add: double_def ccitt_table_def)
qed

lemma crc_shift_low:
  assumes "\<And>n. 8 \<le> n \<Longrightarrow> \<not> bit x n" and "k \<le> 8"
  shows "(crc_shift ^^ k) x = push_bit k x"
  using assms(2)
proof (induction k)
  case (Suc k)
  have "\<not> bit (push_bit k x) 15" using assms(1) [of "15 - k"] Suc.prems by (simp add: bit_push_bit_iff)
  then show ?case using Suc by (simp add: crc_shift_def top_bit)
qed simp

lemma crc_byte_table: "crc_table_byte crc q = crc_byte crc q"
proof -
  let ?i = "(drop_bit 8 crc XOR ucast q) AND 0xFF" and ?lo = "crc AND 0xFF"
  have m: "x AND 0xFF = take_bit 8 x" for x :: u16
    by (simp add: take_bit_eq_mask mask_eq_exp_minus_1)
  have "unat (take_bit 8 x) < 256" for x :: u16
    using take_bit_nat_less_exp [of 8 "unat x"] by (simp add: unsigned_take_bit_eq)
  then have i: "unat ?i < 256" by (simp only: m)
  have "crc XOR push_bit 8 (ucast q) = push_bit 8 ?i XOR ?lo"
    by (rule bit_word_eqI)
      (auto simp: m bit_xor_iff bit_push_bit_iff bit_take_bit_iff bit_drop_bit_eq bit_ucast_iff
        dest: bit_imp_le_length)
  moreover have "(crc_shift ^^ 8) ?lo = push_bit 8 ?lo"
    by (rule crc_shift_low) (simp_all add: m bit_take_bit_iff)
  moreover have "push_bit 8 ?lo = push_bit 8 crc"
    by (rule bit_word_eqI) (auto simp: m bit_push_bit_iff bit_take_bit_iff)
  moreover have "ccitt_table ! unat ?i = (crc_shift ^^ 8) (push_bit 8 ?i)"
    using i by (simp add: ccitt_table_eq crc_of_def)
  ultimately show ?thesis
    by (simp add: crc_byte_def crc_table_byte_def crc_shifts_xor xor.commute)
qed

section \<open>Bit by bit\<close>

definition msg_bits :: "u8 list \<Rightarrow> bool list" where
  "msg_bits qs = concat (map (\<lambda>q. map (bit q) [7, 6, 5, 4, 3, 2, 1, 0]) qs)"

definition top :: "bool \<Rightarrow> u16" where
  "top b = (if b then 0x8000 else 0)"

definition crc_bit :: "u16 \<Rightarrow> bool \<Rightarrow> u16" where
  "crc_bit s b = crc_shift (s XOR top b)"

lemma crc_bits_linear:
  "foldl crc_bit s bs = (crc_shift ^^ length bs) s XOR foldl crc_bit 0 bs"
proof (induction bs arbitrary: s)
  case (Cons b bs)
  have "foldl crc_bit s (b # bs) = (crc_shift ^^ length bs) (crc_bit s b) XOR foldl crc_bit 0 bs"
    by (simp add: Cons.IH [of "crc_bit s b"])
  also have "\<dots> = (crc_shift ^^ Suc (length bs)) s
      XOR ((crc_shift ^^ length bs) (crc_bit 0 b) XOR foldl crc_bit 0 bs)"
    by (simp add: crc_bit_def crc_shift_xor crc_shifts_xor xor.assoc funpow_swap1)
  also have "(crc_shift ^^ length bs) (crc_bit 0 b) XOR foldl crc_bit 0 bs = foldl crc_bit 0 (b # bs)"
    by (simp add: Cons.IH [of "crc_bit 0 b"])
  finally show ?case by simp
qed simp

text \<open>Up to 16 bits as a word, the first bit at the top.\<close>

fun top_word :: "bool list \<Rightarrow> u16" where
  "top_word [] = 0"
| "top_word (b # bs) = top b XOR drop_bit 1 (top_word bs)"

lemma bit_top: "bit (top b) n \<longleftrightarrow> b \<and> n = 15"
proof (cases b)
  case True
  then have "top b = 2 ^ 15" by (simp add: top_def)
  then have "bit (top b) n \<longleftrightarrow> n < 16 \<and> n = 15" by (auto simp only: bit_exp_iff possible_bit_word) auto
  then show ?thesis using True by auto
qed (simp add: top_def)

lemma bit_top_word: "bit (top_word bs) n \<longleftrightarrow> n < 16 \<and> 15 - n < length bs \<and> bs ! (15 - n)"
proof (induction bs arbitrary: n)
  case (Cons b bs)
  consider "n < 15" | "n = 15" | "16 \<le> n" by linarith
  then show ?case
  proof cases
    case 1
    then have "15 - n = Suc (15 - Suc n)" by simp
    then show ?thesis using 1 by (simp add: bit_xor_iff bit_top bit_drop_bit_eq Cons.IH)
  next
    case 3
    then have "\<not> bit (top_word (b # bs)) n" by (intro notI) (auto dest: bit_imp_le_length)
    then show ?thesis using 3 by simp
  qed (simp add: bit_xor_iff bit_top bit_drop_bit_eq Cons.IH)
qed simp

lemma crc_bits_word: "length bs \<le> 16 \<Longrightarrow> foldl crc_bit 0 bs = (crc_shift ^^ length bs) (top_word bs)"
proof (induction bs)
  case (Cons b bs)
  have "crc_shift (drop_bit 1 (top_word bs)) = top_word bs"
    using Cons.prems by (intro bit_word_eqI) (auto simp: bit_crc_shift bit_drop_bit_eq bit_top_word)
  then have "(crc_shift ^^ length (b # bs)) (top_word (b # bs)) =
      (crc_shift ^^ length bs) (crc_bit 0 b) XOR (crc_shift ^^ length bs) (top_word bs)"
    by (simp add: crc_bit_def crc_shifts_xor funpow_swap1 crc_shift_xor)
  also have "\<dots> = foldl crc_bit 0 (b # bs)"
    using Cons crc_bits_linear [of "crc_bit 0 b" bs] by simp
  finally show ?case ..
qed simp

abbreviation byte_bits :: "u8 \<Rightarrow> bool list" where
  "byte_bits q \<equiv> map (bit q) [7, 6, 5, 4, 3, 2, 1, 0]"

lemma top_word_byte: "top_word (byte_bits q) = push_bit 8 (ucast q)"
proof (rule bit_word_eqI)
  fix n assume "n < LENGTH(16)"
  then have n: "n < 16" by simp
  show "bit (top_word (byte_bits q)) n = bit (push_bit 8 (ucast q) :: u16) n"
  proof (cases "n < 8")
    case True
    then have "\<not> 15 - n < length (byte_bits q)" by simp
    then show ?thesis using True by (simp only: bit_top_word bit_push_bit_iff) auto
  next
    case False
    then have "n \<in> {8, 9, 10, 11, 12, 13, 14, 15}" using n by (simp only: insert_iff empty_iff) linarith
    then show ?thesis
      by (auto simp add: bit_top_word bit_push_bit_iff bit_ucast_iff simp del: top_word.simps)
  qed
qed

lemma length_byte_bits: "length (byte_bits q) = 8"
  by simp

lemma crc_byte_bits: "crc_byte s q = foldl crc_bit s (byte_bits q)"
proof -
  have "foldl crc_bit 0 (byte_bits q) = (crc_shift ^^ 8) (push_bit 8 (ucast q))"
    using crc_bits_word [of "byte_bits q"] unfolding length_byte_bits top_word_byte by simp
  then show ?thesis
    unfolding crc_bits_linear [of s] length_byte_bits by (simp only: crc_byte_def crc_shifts_xor)
qed

lemma foldl_crc_bits: "foldl crc_byte s qs = foldl crc_bit s (msg_bits qs)"
  by (induction qs arbitrary: s) (simp_all add: msg_bits_def crc_byte_bits)

lemma length_msg_bits: "length (msg_bits qs) = 8 * length qs"
  by (induction qs) (simp_all add: msg_bits_def)

section \<open>What the checksum finds\<close>

text \<open>The bits in which two messages differ.\<close>

definition flips :: "u8 list \<Rightarrow> u8 list \<Rightarrow> bool list" where
  "flips a b = map2 (\<noteq>) (msg_bits a) (msg_bits b)"

lemma crc_bits_flips:
  assumes "length xs = length ys"
  shows "foldl crc_bit s xs XOR foldl crc_bit t ys = foldl crc_bit (s XOR t) (map2 (\<noteq>) xs ys)"
  using assms
proof (induction xs ys arbitrary: s t rule: list_induct2)
  case (Cons x xs y ys)
  have "top x XOR top y = top (x \<noteq> y)" by (cases x; cases y) (simp_all add: top_def)
  then have "crc_bit s x XOR crc_bit t y = crc_bit (s XOR t) (x \<noteq> y)"
    unfolding crc_bit_def crc_shift_xor [symmetric] by (metis xor.assoc xor.left_commute)
  then show ?case using Cons.IH by simp
qed simp

lemma crc_flips:
  assumes "length a = length b"
  shows "CRC16 a XOR CRC16 b = foldl crc_bit 0 (flips a b)"
  using crc_bits_flips [of "msg_bits a" "msg_bits b" 0 0] assms
  by (simp add: CRC16_def foldl_crc_bits flips_def length_msg_bits)

lemma crc_bits_zeros: "foldl crc_bit 0 (replicate n False) = 0"
  by (induction n) (simp_all add: crc_bit_def top_def)

lemma crc_shifts_nonzero: "x \<noteq> 0 \<Longrightarrow> (crc_shift ^^ n) x \<noteq> 0"
  by (induction n) (simp_all add: crc_shift_nonzero)

lemma crc_burst:
  assumes "bs = replicate i False @ es @ replicate j False" and "length es \<le> 16" and "True \<in> set es"
  shows "foldl crc_bit 0 bs \<noteq> 0"
proof -
  obtain k where k: "k < length es" "es ! k" using assms(3) by (metis in_set_conv_nth)
  have "bit (top_word es) (15 - k)" using k assms(2) by (simp add: bit_top_word)
  then have "top_word es \<noteq> 0" by auto
  moreover have "foldl crc_bit 0 bs = (crc_shift ^^ j) ((crc_shift ^^ length es) (top_word es))"
    using crc_bits_linear [of "foldl crc_bit 0 es" "replicate j False"] crc_bits_word [OF assms(2)]
    by (simp add: assms(1) crc_bits_zeros)
  ultimately show ?thesis by (simp add: crc_shifts_nonzero)
qed

text \<open>The shift keeps the parity of the number of bits set, because the polynomial has four terms.\<close>

definition ones :: "u16 \<Rightarrow> nat" where
  "ones x = (\<Sum>n<16. of_bool (bit x n))"

lemma ones_xor: "even (ones (x XOR y)) \<longleftrightarrow> even (ones x + ones y)"
proof -
  have "ones (x XOR y) + 2 * (\<Sum>n<16. of_bool (bit x n \<and> bit y n)) = ones x + ones y"
    unfolding ones_def sum_distrib_left sum.distrib [symmetric]
    by (rule sum.cong) (auto simp: bit_xor_iff)
  then show ?thesis by presburger
qed

lemma ones_shift: "ones x = ones (push_bit 1 x) + of_bool (bit x 15)"
proof -
  have n: "{..<16 :: nat} = {..<Suc 15}" by auto
  have "of_bool (bit (push_bit 1 x) (Suc n)) = (of_bool (bit x n) :: nat)" if "n < 15" for n
    using that by (simp only: bit_shift) auto
  moreover have "of_bool (bit (push_bit 1 x) 0) = (0 :: nat)" by (simp only: bit_shift) simp
  ultimately have "(\<Sum>n<Suc 15. of_bool (bit (push_bit 1 x) n)) = (\<Sum>n<15. of_bool (bit x n) :: nat)"
    unfolding sum.lessThan_Suc_shift by (simp only: add_0_left cong: sum.cong_simp) simp
  then show ?thesis unfolding ones_def n by (simp only: sum.lessThan_Suc)
qed

lemma ones_zero: "ones 0 = 0"
  by (simp add: ones_def)

lemma ones_crc_shift: "even (ones (crc_shift x)) \<longleftrightarrow> even (ones x)"
proof -
  have "ones 0x1021 = 3" by (simp only: ones_def bit_poly) (simp add: eval_nat_numeral lessThan_Suc)
  then show ?thesis
    using ones_shift [of x] ones_xor [of "push_bit 1 x" "0x1021"] by (simp add: crc_shift_def top_bit)
qed

lemma ones_top: "ones (top b) = of_bool b"
  by (simp add: ones_def bit_top eval_nat_numeral lessThan_Suc)

lemma ones_crc_bits: "even (ones (foldl crc_bit s bs)) \<longleftrightarrow> even (ones s + count_list bs True)"
proof (induction bs arbitrary: s)
  case (Cons b bs)
  have "even (ones (crc_bit s b)) \<longleftrightarrow> even (ones s + of_bool b)"
    by (simp add: crc_bit_def ones_crc_shift ones_xor ones_top)
  then show ?case using Cons.IH [of "crc_bit s b"] by auto
qed simp

lemma crc_odd: "odd (count_list bs True) \<Longrightarrow> foldl crc_bit 0 bs \<noteq> 0"
  using ones_crc_bits [of 0 bs] ones_zero by auto

text \<open>A packet ends in the checksum of what is before it, the high byte first.\<close>

definition sealed :: "u8 list \<Rightarrow> u8 \<Rightarrow> u8 \<Rightarrow> bool" where
  "sealed d hi lo \<longleftrightarrow> CRC16 d = push_bit 8 (ucast hi) OR ucast lo"

lemma top_word_append: "top_word (xs @ ys) = top_word xs XOR drop_bit (length xs) (top_word ys)"
  by (induction xs) (simp_all add: drop_bit_xor xor.assoc)

lemma xor_zero: "x XOR y = 0 \<longleftrightarrow> x = (y :: u16)"
  by (metis xor.assoc xor.left_neutral xor_self_eq)

lemma sealed_iff: "sealed d hi lo \<longleftrightarrow> CRC16 (d @ [hi, lo]) = 0"
proof -
  let ?w = "push_bit 8 (ucast hi) OR ucast lo :: u16" and ?s = "CRC16 d"
  have w: "top_word (byte_bits hi @ byte_bits lo) = ?w"
    unfolding top_word_append top_word_byte length_byte_bits
    by (rule bit_word_eqI)
      (auto simp: bit_xor_iff bit_or_iff bit_push_bit_iff bit_drop_bit_eq bit_ucast_iff dest: bit_imp_le_length)
  have l16: "length (byte_bits hi @ byte_bits lo) = 16" by simp
  have zero: "foldl crc_bit 0 (byte_bits hi @ byte_bits lo) = (crc_shift ^^ 16) ?w"
    using crc_bits_word [of "byte_bits hi @ byte_bits lo"] unfolding l16 w by simp
  have "CRC16 (d @ [hi, lo]) = foldl crc_bit ?s (byte_bits hi @ byte_bits lo)"
    by (simp add: CRC16_def crc_byte_bits del: list.map)
  also have "\<dots> = (crc_shift ^^ 16) (?s XOR ?w)"
    unfolding crc_bits_linear [of ?s] l16 zero by (simp only: crc_shifts_xor)
  finally show ?thesis
    using crc_shifts_nonzero [of "?s XOR ?w" 16] xor_zero [of ?s ?w] by (auto simp: sealed_def)
qed

text \<open>C40: 
  the two implementations of the checksum agree on every message.
\<close>

theorem crc_implementations_agree: "CRC16_table qs = CRC16 qs"
proof -
  have "crc_table_byte = crc_byte" by (intro ext) (rule crc_byte_table)
  then show ?thesis by (simp add: CRC16_table_def CRC16_def)
qed

text \<open>
  A packet that was damaged does not pass for a good one when the bits that flipped, in the data or
  in the checksum, lie within 16 in a row, or when their number is odd.
\<close>

definition burst_or_odd :: "bool list \<Rightarrow> bool" where
  "burst_or_odd bs \<longleftrightarrow> odd (count_list bs True) \<or>
     (let es = dropWhile Not (rev (dropWhile Not bs)) in es \<noteq> [] \<and> length es \<le> 16)"

lemma dropWhile_Not: "\<exists>i. bs = replicate i False @ dropWhile Not bs"
proof (induction bs)
  case (Cons b bs)
  then obtain i where i: "bs = replicate i False @ dropWhile Not bs" ..
  show ?case
  proof (cases b)
    case False
    with i show ?thesis by (intro exI [of _ "Suc i"]) simp
  qed (intro exI [of _ 0], simp)
qed simp

lemma crc_finds_damage:
  assumes "sealed d hi lo" and "length d' = length d"
    and "burst_or_odd (flips (d @ [hi, lo]) (d' @ [hi', lo']))"
  shows "\<not> sealed d' hi' lo'"
proof -
  let ?bs = "flips (d @ [hi, lo]) (d' @ [hi', lo'])"
  let ?es = "dropWhile Not (rev (dropWhile Not ?bs))"
  obtain i where i: "?bs = replicate i False @ dropWhile Not ?bs" using dropWhile_Not by blast
  obtain j where j: "rev (dropWhile Not ?bs) = replicate j False @ ?es" using dropWhile_Not by blast
  have "dropWhile Not ?bs = rev ?es @ replicate j False"
    using arg_cong [OF j, of rev] by simp
  with i have bs: "?bs = replicate i False @ rev ?es @ replicate j False" by simp
  have "?es \<noteq> [] \<Longrightarrow> True \<in> set (rev ?es)" using hd_dropWhile [of Not "rev (dropWhile Not ?bs)"]
    by (metis (full_types) hd_in_set set_rev)
  then have "foldl crc_bit 0 ?bs \<noteq> 0"
    using assms(3) crc_odd crc_burst [OF bs] by (auto simp: burst_or_odd_def Let_def)
  then have "CRC16 (d @ [hi, lo]) XOR CRC16 (d' @ [hi', lo']) \<noteq> 0"
    using crc_flips [of "d @ [hi, lo]" "d' @ [hi', lo']"] assms(2) by simp
  then show ?thesis using assms(1) by (auto simp: sealed_iff)
qed

end
