(* ===== verification/Ymodem.thy ===== *)
theory Ymodem
  imports Crc16
begin

text \<open>
  The Y-modem transfer of files (\<open>components/utilities/ymodem/ymodem.c\<close>), both directions.

  The device is a serial port: \<open>rx_fifo\<close> holds the bytes received and not yet read, \<open>arrivals\<close> the
  bytes that are still to come, each portion with the ticks that pass before it, and \<open>sent\<close> the bytes
  written, all at once as the polled transmission of the serial driver does. Each portion releases
  the semaphore once. Time passes only while the code waits.

  A call ends with a value, or it is \<open>Stuck\<close>: it waits without a timeout for something that never
  comes, or turns for ever; \<open>Fault\<close> is a failed \<open>RT_ASSERT\<close> or an access outside an object.

  \<open>'u\<close> is the state of the callbacks.
\<close>

section \<open>State\<close>

datatype 'a run = Ret 'a | Stuck | Fault

fun run_bind :: "'a run \<Rightarrow> ('a \<Rightarrow> 'b run) \<Rightarrow> 'b run" where
  "run_bind (Ret a) f = f a"
| "run_bind Stuck f = Stuck"
| "run_bind Fault f = Fault"

definition RYM_CODE_NONE :: nat where "RYM_CODE_NONE = 0x00"
definition RYM_CODE_SOH :: nat where "RYM_CODE_SOH = 0x01"
definition RYM_CODE_STX :: nat where "RYM_CODE_STX = 0x02"
definition RYM_CODE_EOT :: nat where "RYM_CODE_EOT = 0x04"
definition RYM_CODE_ACK :: nat where "RYM_CODE_ACK = 0x06"
definition RYM_CODE_NAK :: nat where "RYM_CODE_NAK = 0x15"
definition RYM_CODE_CAN :: nat where "RYM_CODE_CAN = 0x18"
definition RYM_CODE_C :: nat where "RYM_CODE_C = 0x43"

lemmas rym_codes = RYM_CODE_NONE_def RYM_CODE_SOH_def RYM_CODE_STX_def RYM_CODE_EOT_def
  RYM_CODE_ACK_def RYM_CODE_NAK_def RYM_CODE_CAN_def RYM_CODE_C_def

datatype rym_err = RYM_OK | RYM_ERR_TMO | RYM_ERR_CODE | RYM_ERR_SEQ | RYM_ERR_CRC | RYM_ERR_DSZ
  | RYM_ERR_CAN | RYM_ERR_ACK | RYM_ENOMEM | RYM_EDEVICE

datatype rym_stage = RYM_STAGE_NONE | RYM_STAGE_ESTABLISHING | RYM_STAGE_ESTABLISHED
  | RYM_STAGE_TRANSMITTING | RYM_STAGE_FINISHING | RYM_STAGE_FINISHED

lemma run_bind_Ret: "run_bind m f = Ret x \<longleftrightarrow> (\<exists>a. m = Ret a \<and> f a = Ret x)"
  by (cases m) simp_all

text \<open>The receive handler of the device: that of this module, or the one it had before.\<close>

datatype rx_handler = Rym_Rx_Ind | Other_Rx_Ind nat

definition RT_DEVICE_FLAG_STREAM :: u16 where "RT_DEVICE_FLAG_STREAM = 0x040"

record 'u rym =
  rym_stage :: rym_stage
  rym_buf :: "u8 list"
  rx_sem :: nat
  rx_fifo :: "u8 list"
  arrivals :: "(nat \<times> u8 list) list"
  rym_now :: u32
  rym_sent :: "u8 list"
  rym_the_ctx :: bool
  dev_flag :: u16
  dev_rx_ind :: rx_handler
  rym_user :: 'u

definition RYM_WAIT_CHR_TICK :: nat where "RYM_WAIT_CHR_TICK = 3000"
definition RYM_WAIT_PKG_TICK :: nat where "RYM_WAIT_PKG_TICK = 3000"
definition RYM_CHD_INTV_TICK :: nat where "RYM_CHD_INTV_TICK = 3000"
definition RYM_END_SESSION_SEND_CAN_NUM :: nat where "RYM_END_SESSION_SEND_CAN_NUM = 7"
definition SOH_PKG_SZ :: nat where "SOH_PKG_SZ = 1 + 2 + 128 + 2"
definition STX_PKG_SZ :: nat where "STX_PKG_SZ = 1 + 2 + 1024 + 2"

lemmas rym_sizes = SOH_PKG_SZ_def STX_PKG_SZ_def RYM_WAIT_CHR_TICK_def RYM_WAIT_PKG_TICK_def
  RYM_CHD_INTV_TICK_def

section \<open>Waiting and the device\<close>

definition rym_sem_take :: "nat \<Rightarrow> 'u rym \<Rightarrow> bool \<times> 'u rym" where
  "rym_sem_take t r =
     (if 0 < rx_sem r then (True, r\<lparr>rx_sem := rx_sem r - 1\<rparr>)
      else case arrivals r of
        [] \<Rightarrow> (False, r\<lparr>rym_now := rym_now r + word_of_nat t\<rparr>)
      | (d, bs) # as \<Rightarrow>
          if d \<le> t
          then (True, r\<lparr>rym_now := rym_now r + word_of_nat d, rx_fifo := rx_fifo r @ bs, arrivals := as\<rparr>)
          else (False, r\<lparr>rym_now := rym_now r + word_of_nat t, arrivals := (d - t, bs) # as\<rparr>))"

definition rym_sem_take_forever :: "'u rym \<Rightarrow> 'u rym option" where
  "rym_sem_take_forever r =
     (if 0 < rx_sem r then Some (r\<lparr>rx_sem := rx_sem r - 1\<rparr>)
      else case arrivals r of
        [] \<Rightarrow> None
      | (d, bs) # as \<Rightarrow>
          Some (r\<lparr>rym_now := rym_now r + word_of_nat d, rx_fifo := rx_fifo r @ bs, arrivals := as\<rparr>))"

text \<open>What arrives within \<open>d\<close> ticks: the bytes, the number of portions, and what comes later.\<close>

fun arrive :: "nat \<Rightarrow> (nat \<times> u8 list) list \<Rightarrow> u8 list \<times> nat \<times> (nat \<times> u8 list) list" where
  "arrive d [] = ([], 0, [])"
| "arrive d ((t, bs) # as) =
     (if t \<le> d then let (xs, n, rest) = arrive (d - t) as in (bs @ xs, Suc n, rest)
      else ([], 0, (t - d, bs) # as))"

definition rym_mdelay :: "nat \<Rightarrow> 'u rym \<Rightarrow> 'u rym" where
  "rym_mdelay d r =
     (let (xs, n, rest) = arrive d (arrivals r)
      in r\<lparr>rym_now := rym_now r + word_of_nat d, rx_fifo := rx_fifo r @ xs, rx_sem := rx_sem r + n,
           arrivals := rest\<rparr>)"

definition rym_read :: "nat \<Rightarrow> 'u rym \<Rightarrow> u8 list \<times> 'u rym" where
  "rym_read n r = (take n (rx_fifo r), r\<lparr>rx_fifo := drop n (rx_fifo r)\<rparr>)"

definition rym_write :: "u8 list \<Rightarrow> 'u rym \<Rightarrow> 'u rym" where
  "rym_write bs r = r\<lparr>rym_sent := rym_sent r @ bs\<rparr>"

definition put_buf :: "nat \<Rightarrow> u8 list \<Rightarrow> 'u rym \<Rightarrow> 'u rym" where
  "put_buf off bs r = r\<lparr>rym_buf := take off (rym_buf r) @ bs @ drop (off + length bs) (rym_buf r)\<rparr>"

section \<open>Reading and writing\<close>

text \<open>The slow path of \<open>_rym_read_code\<close>.\<close>

function rym_wait_code :: "nat \<Rightarrow> 'u rym \<Rightarrow> nat \<times> 'u rym" where
  "rym_wait_code t r =
     (let (ok, r1) = rym_sem_take t r
      in if \<not> ok then (RYM_CODE_NONE, r1)
         else let (bs, r2) = rym_read 1 r1
              in if length bs = 1 then (unat (hd bs), put_buf 0 bs r2) else rym_wait_code t r2)"
  by auto
termination
  by (relation "measure (\<lambda>(t, r). rx_sem r + length (arrivals r))")
    (auto simp: rym_sem_take_def rym_read_def split: if_splits list.splits)

declare rym_wait_code.simps [simp del]

definition rym_read_code :: "nat \<Rightarrow> 'u rym \<Rightarrow> nat \<times> 'u rym" where
  "rym_read_code t r =
     (let (bs, r1) = rym_read 1 r
      in if length bs = 1 then (unat (hd bs), put_buf 0 bs r1) else rym_wait_code t r1)"

function rym_read_loop :: "nat \<Rightarrow> nat \<Rightarrow> 'u rym \<Rightarrow> nat \<times> 'u rym" where
  "rym_read_loop len readlen r =
     (let (bs, r1) = rym_read (len - readlen) r;
          r2 = put_buf (1 + readlen) bs r1;
          k = readlen + length bs
      in if len \<le> k then (k, r2)
         else let (ok, r3) = rym_sem_take RYM_WAIT_CHR_TICK r2
              in if ok then rym_read_loop len k r3 else (k, r3))"
  by auto
termination
  by (relation "measure (\<lambda>(len, k, r). rx_sem r + length (arrivals r))")
    (auto simp: rym_sem_take_def rym_read_def put_buf_def split: if_splits list.splits)

declare rym_read_loop.simps [simp del]

definition rym_read_data :: "nat \<Rightarrow> 'u rym \<Rightarrow> nat \<times> 'u rym" where
  "rym_read_data len r = rym_read_loop len 0 r"

definition rym_send_packet :: "nat \<Rightarrow> u8 \<Rightarrow> 'u rym \<Rightarrow> 'u rym" where
  "rym_send_packet code index r =
     (let send_crc = CRC16 (take (SOH_PKG_SZ - 5) (drop 3 (rym_buf r)));
          r1 = put_buf 0 [word_of_nat code, index, NOT index] r;
          r2 = put_buf 131 [ucast (drop_bit 8 send_crc), ucast send_crc] r1
      in rym_write (take SOH_PKG_SZ (rym_buf r2)) r2)"

definition rym_putchar :: "nat \<Rightarrow> 'u rym \<Rightarrow> 'u rym" where
  "rym_putchar code r = rym_write [word_of_nat code] r"

definition set_rx_ind :: "'u rym \<Rightarrow> 'u rym" where
  "set_rx_ind r = r\<lparr>dev_rx_ind := Rym_Rx_Ind\<rparr>"

function rym_getchar :: "'u rym \<Rightarrow> (nat \<times> 'u rym) run" where
  "rym_getchar r =
     (let (bs, r1) = rym_read 1 r
      in if length bs = 1 then Ret (unat (hd bs), r1)
         else case rym_sem_take_forever r1 of None \<Rightarrow> Stuck | Some r2 \<Rightarrow> rym_getchar r2)"
  by auto
termination
  by (relation "measure (\<lambda>r. rx_sem r + length (arrivals r))")
    (auto simp: rym_sem_take_forever_def rym_read_def split: if_splits list.splits)

declare rym_getchar.simps [simp del]

section \<open>Callbacks\<close>

text \<open>
  A callback gets the length, and the stage, the buffer (its data start at index 3) and its own
  state, which it may change; it returns a code.
\<close>

type_synonym 'u rym_callback =
  "nat \<Rightarrow> rym_stage \<times> u8 list \<times> 'u \<Rightarrow> (nat \<times> rym_stage \<times> u8 list \<times> 'u) run"

record 'u rym_callbacks =
  on_begin :: "'u rym_callback option"
  on_data :: "'u rym_callback option"
  on_end :: "'u rym_callback option"

text \<open>The call, or \<open>dflt\<close> when there is none.\<close>

definition rym_call :: "'u rym_callback option \<Rightarrow> nat \<Rightarrow> nat \<Rightarrow> 'u rym \<Rightarrow> (nat \<times> 'u rym) run" where
  "rym_call cb dflt len r =
     (case cb of None \<Rightarrow> Ret (dflt, r)
      | Some f \<Rightarrow>
          run_bind (f len (rym_stage r, rym_buf r, rym_user r))
            (\<lambda>(c, st, buf, u). Ret (c, r\<lparr>rym_stage := st, rym_buf := buf, rym_user := u\<rparr>)))"

section \<open>Receiving\<close>

definition recv_crc :: "nat \<Rightarrow> 'u rym \<Rightarrow> u16" where
  "recv_crc i r = push_bit 8 (ucast (rym_buf r ! i)) OR ucast (rym_buf r ! (i + 1))"

text \<open>The size of the packet whose first byte has come, or \<^const>\<open>None\<close> after the last attempt.\<close>

fun rym_call_sender :: "nat \<Rightarrow> 'u rym \<Rightarrow> nat option \<times> 'u rym" where
  "rym_call_sender 0 r = (None, r)"
| "rym_call_sender (Suc n) r =
     (let (code, r1) = rym_read_code RYM_CHD_INTV_TICK (rym_putchar RYM_CODE_C r)
      in if code = RYM_CODE_SOH then (Some SOH_PKG_SZ, r1)
         else if code = RYM_CODE_STX then (Some STX_PKG_SZ, r1)
         else rym_call_sender n r1)"

text \<open>
  The comparison of the tick counts does not wrap, so that this loop need not end when the limit is
  the largest tick count: \<^const>\<open>None\<close> then.
\<close>

partial_function (option) rym_first_packet ::
  "u32 \<Rightarrow> nat \<Rightarrow> nat \<Rightarrow> 'u rym \<Rightarrow> (nat \<times> 'u rym) option" where
  "rym_first_packet tck len i r =
     (if rym_now r \<le> tck + 100 \<and> i < len
      then rym_first_packet tck len (i + fst (rym_read_data len r))
             (rym_mdelay 5 (snd (rym_read_data len r)))
      else Some (i, r))"

definition rym_do_handshake ::
  "'u rym_callbacks \<Rightarrow> nat \<Rightarrow> 'u rym \<Rightarrow> (rym_err \<times> 'u rym) run" where
  "rym_do_handshake cbs tm_sec r0 =
     (case rym_call_sender tm_sec (r0\<lparr>rym_stage := RYM_STAGE_ESTABLISHING\<rparr>) of
        (None, r1) \<Rightarrow> Ret (RYM_ERR_TMO, r1)
      | (Some data_sz, r1) \<Rightarrow>
          (case rym_first_packet (rym_now r1) (data_sz - 1) 0 r1 of
             None \<Rightarrow> Stuck
           | Some (i, r) \<Rightarrow>
               if i \<noteq> data_sz - 1 then Ret (RYM_ERR_DSZ, r)
               else if rym_buf r ! 1 \<noteq> 0 \<or> rym_buf r ! 2 \<noteq> 0xFF then Ret (RYM_ERR_SEQ, r)
               else if recv_crc (data_sz - 2) r \<noteq> CRC16 (take (data_sz - 5) (drop 3 (rym_buf r)))
               then Ret (RYM_ERR_CRC, r)
               else run_bind (rym_call (on_begin cbs) RYM_CODE_ACK (data_sz - 5) r)
                 (\<lambda>(c, r2). Ret (if c \<noteq> RYM_CODE_ACK then RYM_ERR_CAN else RYM_OK, r2))))"

definition rym_trans_data ::
  "'u rym_callbacks \<Rightarrow> nat \<Rightarrow> nat \<Rightarrow> 'u rym \<Rightarrow> (rym_err \<times> nat \<times> 'u rym) run" where
  "rym_trans_data cbs data_sz code r0 =
     (let tsz = 2 + data_sz + 2; (i, r) = rym_read_data tsz r0
      in if i \<noteq> tsz then Ret (RYM_ERR_DSZ, code, r)
         else if unat (rym_buf r ! 1) + unat (rym_buf r ! 2) \<noteq> 0xFF then Ret (RYM_ERR_SEQ, code, r)
         else if rym_stage r = RYM_STAGE_ESTABLISHED \<and> rym_buf r ! 1 = 0
         then Ret (RYM_OK, RYM_CODE_NONE, r)
         else
           let r1 = r\<lparr>rym_stage := RYM_STAGE_TRANSMITTING\<rparr>
           in if recv_crc (tsz - 1) r1 \<noteq> CRC16 (take data_sz (drop 3 (rym_buf r1)))
              then Ret (RYM_ERR_CRC, code, r1)
              else run_bind (rym_call (on_data cbs) RYM_CODE_ACK data_sz r1)
                (\<lambda>(c, r2). Ret (RYM_OK, c, r2)))"

section \<open>What is left to read\<close>

text \<open>The bytes that have come or will come. The loops below end because every turn reads one.\<close>

definition input :: "'u rym \<Rightarrow> u8 list" where
  "input r = rx_fifo r @ concat (map snd (arrivals r))"

lemma input_simps [simp]:
  "input (rym_write bs r) = input r" "input (rym_putchar c r) = input r"
  "input (put_buf n bs r) = input r" "input (rym_send_packet c i r) = input r"
  "input (set_rx_ind r) = input r" "input (r\<lparr>rym_stage := st\<rparr>) = input r"
  "input (r\<lparr>rym_buf := buf\<rparr>) = input r" "input (r\<lparr>rym_user := u\<rparr>) = input r"
  "input (r\<lparr>rym_now := t\<rparr>) = input r" "input (r\<lparr>rym_the_ctx := b\<rparr>) = input r"
  "input (r\<lparr>dev_flag := f\<rparr>) = input r" "input (r\<lparr>dev_rx_ind := h\<rparr>) = input r"
  "input (r\<lparr>rx_sem := n\<rparr>) = input r"
  by (simp_all add: input_def rym_write_def rym_putchar_def put_buf_def rym_send_packet_def
      set_rx_ind_def Let_def)

lemma input_sem_take [simp]: "input (snd (rym_sem_take t r)) = input r"
  by (auto simp: rym_sem_take_def input_def split: list.splits)

lemma input_sem_take_forever: "rym_sem_take_forever r = Some r' \<Longrightarrow> input r' = input r"
  by (auto simp: rym_sem_take_forever_def input_def split: if_splits list.splits)

lemma arrive_input:
  "arrive d as = (xs, n, rest) \<Longrightarrow> xs @ concat (map snd rest) = concat (map snd as)"
  by (induction d as arbitrary: xs n rest rule: arrive.induct)
    (auto split: if_splits prod.splits)

lemma input_mdelay [simp]: "input (rym_mdelay d r) = input r"
  by (auto simp: rym_mdelay_def input_def split: prod.splits dest: arrive_input)

lemma rym_read_input: "rym_read n r = (bs, r') \<Longrightarrow> bs @ input r' = input r"
  by (auto simp: rym_read_def input_def)

lemma rym_read_none: "rym_read 1 r = (bs, r') \<Longrightarrow> length bs \<noteq> 1 \<Longrightarrow> bs = []"
  by (cases "rx_fifo r") (auto simp: rym_read_def)

lemma wait_code_input:
  "rym_wait_code t r = (c, r') \<Longrightarrow> c \<noteq> RYM_CODE_NONE \<Longrightarrow> input r = word_of_nat c # input r'"
proof (induction t r rule: rym_wait_code.induct)
  case (1 t r)
  obtain ok r1 where t: "rym_sem_take t r = (ok, r1)" by (cases "rym_sem_take t r")
  obtain bs r2 where rd: "rym_read 1 r1 = (bs, r2)" by (cases "rym_read 1 r1")
  have i: "input r1 = input r" using input_sem_take [of t r] t by simp
  show ?case
  proof (cases "ok \<and> length bs = 1")
    case True
    then obtain b where b: "bs = [b]" by (auto simp: length_Suc_conv)
    have "c = unat b" "input r' = input r2"
      using 1(2) t rd True b by (auto simp: rym_wait_code.simps [of t r])
    with rym_read_input [OF rd] i b show ?thesis by simp
  next
    case False
    have ok: ok using 1(2,3) t by (cases ok) (simp_all add: rym_wait_code.simps [of t r])
    then have bs: "bs = []" using False rym_read_none [OF rd] by simp
    have "rym_wait_code t r2 = (c, r')"
      using 1(2) t rd ok bs by (simp add: rym_wait_code.simps [of t r])
    from 1(1) [OF refl t [symmetric] _ refl rd [symmetric] _ this 1(3)] show ?thesis
      using ok rd bs rym_read_input [OF rd] i by simp
  qed
qed

lemma read_code_input:
  assumes "rym_read_code t r = (c, r')" and "c \<noteq> RYM_CODE_NONE"
  shows "input r = word_of_nat c # input r'"
proof -
  obtain bs r1 where rd: "rym_read 1 r = (bs, r1)" by (cases "rym_read 1 r")
  show ?thesis
  proof (cases "length bs = 1")
    case True
    then obtain b where "bs = [b]" by (auto simp: length_Suc_conv)
    with assms rd rym_read_input [OF rd] show ?thesis by (auto simp: rym_read_code_def)
  next
    case False
    then have "bs = []" by (rule rym_read_none [OF rd])
    with assms rd rym_read_input [OF rd] wait_code_input [of t r1 c r'] show ?thesis
      by (auto simp: rym_read_code_def)
  qed
qed

lemma read_loop_input:
  "rym_read_loop len k r = (m, r') \<Longrightarrow> \<exists>bs. input r = bs @ input r'"
proof (induction len k r rule: rym_read_loop.induct)
  case (1 len k r)
  obtain bs r1 where rd: "rym_read (len - k) r = (bs, r1)" by (cases "rym_read (len - k) r")
  obtain ok r3 where t: "rym_sem_take RYM_WAIT_CHR_TICK (put_buf (1 + k) bs r1) = (ok, r3)"
    by (cases "rym_sem_take RYM_WAIT_CHR_TICK (put_buf (1 + k) bs r1)")
  have i1: "input r = bs @ input r1" using rym_read_input [OF rd] by simp
  have "input r3 = input r1"
    using input_sem_take [of RYM_WAIT_CHR_TICK "put_buf (1 + k) bs r1"] unfolding t by simp
  then have i: "input r = bs @ input r3" "input r = bs @ input r1" using i1 by simp_all
  show ?case
  proof (cases "\<not> len \<le> k + length bs \<and> ok")
    case True
    then have "rym_read_loop len (k + length bs) r3 = (m, r')"
      using 1(2) rd t by (simp add: rym_read_loop.simps [of len k r])
    with 1(1) [OF rd [symmetric] _ refl refl _ t [symmetric] _ this] True
    obtain cs where "input r3 = cs @ input r'" by auto
    with i have "input r = (bs @ cs) @ input r'" by simp
    then show ?thesis by blast
  next
    case False
    then show ?thesis
      using 1(2) rd t i by (auto simp: rym_read_loop.simps [of len k r] Let_def split: if_splits)
  qed
qed

lemma read_data_input: "rym_read_data len r = (m, r') \<Longrightarrow> \<exists>bs. input r = bs @ input r'"
  by (auto simp: rym_read_data_def dest: read_loop_input)

lemma rym_call_input: "rym_call cb c0 len r = Ret (c, r') \<Longrightarrow> input r' = input r"
  by (cases cb) (auto simp: rym_call_def elim!: run_bind.elims)

lemma getchar_input: "rym_getchar r = Ret (c, r') \<Longrightarrow> input r = word_of_nat c # input r'"
proof (induction r rule: rym_getchar.induct)
  case (1 r)
  obtain bs r1 where rd: "rym_read 1 r = (bs, r1)" by (cases "rym_read 1 r")
  show ?case
  proof (cases "length bs = 1")
    case True
    then obtain b where "bs = [b]" by (auto simp: length_Suc_conv)
    with 1(2) rd rym_read_input [OF rd] show ?thesis by (auto simp: rym_getchar.simps [of r])
  next
    case False
    then have bs: "bs = []" by (rule rym_read_none [OF rd])
    obtain r2 where s: "rym_sem_take_forever r1 = Some r2" and g: "rym_getchar r2 = Ret (c, r')"
      using 1(2) rd bs by (auto simp: rym_getchar.simps [of r] split: option.splits)
    show ?thesis
      using 1(1) [OF rd [symmetric] refl False s g] input_sem_take_forever [OF s]
        rym_read_input [OF rd] bs by simp
  qed
qed

lemma trans_data_input:
  assumes "rym_trans_data cbs n code r = Ret (e, c, r')"
  shows "\<exists>bs. input r = bs @ input r'"
proof -
  obtain m r1 where rd: "rym_read_data (2 + n + 2) r = (m, r1)"
    by (cases "rym_read_data (2 + n + 2) r")
  have "input r' = input r1"
    using assms unfolding rym_trans_data_def Let_def rd prod.case
    by (auto split: if_splits elim!: run_bind.elims dest: rym_call_input)
  with read_data_input [OF rd] show ?thesis by simp
qed

section \<open>The sessions\<close>

definition rym_put_cans :: "'u rym \<Rightarrow> 'u rym" where
  "rym_put_cans r = (rym_putchar RYM_CODE_CAN ^^ RYM_END_SESSION_SEND_CAN_NUM) r"

definition data_size :: "nat \<Rightarrow> nat option" where
  "data_size code = (if code = RYM_CODE_SOH then Some 128
     else if code = RYM_CODE_STX then Some 1024 else None)"

lemma data_size_None [simp]: "data_size RYM_CODE_NONE = None"
  by (simp add: data_size_def rym_codes)

lemma block_shortens:
  assumes "rym_read_code t r = (code, r1)" and "data_size code = Some n"
    and "rym_trans_data cbs n code r1 = Ret (e, c, r2)"
  shows "length (input r2) < length (input r)"
proof -
  have "code \<noteq> RYM_CODE_NONE" using assms(2) by auto
  with read_code_input [OF assms(1)] have "length (input r1) < length (input r)" by simp
  moreover obtain bs where "input r1 = bs @ input r2" using trans_data_input [OF assms(3)] ..
  ultimately show ?thesis by simp
qed

function rym_recv_loop :: "'u rym_callbacks \<Rightarrow> 'u rym \<Rightarrow> (rym_err \<times> 'u rym) run" where
  "rym_recv_loop cbs r =
     (case rym_read_code RYM_WAIT_PKG_TICK r of (code, r1) \<Rightarrow>
        if code = RYM_CODE_EOT then Ret (RYM_OK, r1)
        else case data_size code of
          None \<Rightarrow> Ret (RYM_ERR_CODE, r1)
        | Some data_sz \<Rightarrow>
            (case rym_trans_data cbs data_sz code r1 of
               Stuck \<Rightarrow> Stuck
             | Fault \<Rightarrow> Fault
             | Ret (err, c, r2) \<Rightarrow>
                 if err \<noteq> RYM_OK then Ret (err, r2)
                 else if c = RYM_CODE_CAN then Ret (RYM_ERR_CAN, rym_put_cans r2)
                 else rym_recv_loop cbs
                   (if c = RYM_CODE_ACK then rym_putchar RYM_CODE_ACK r2 else r2)))"
  by auto
termination
  by (relation "measure (\<lambda>(cbs, r). length (input r))")
    (auto dest!: block_shortens [OF sym])

declare rym_recv_loop.simps [simp del]

definition rym_do_trans :: "'u rym_callbacks \<Rightarrow> 'u rym \<Rightarrow> (rym_err \<times> 'u rym) run" where
  "rym_do_trans cbs r =
     rym_recv_loop cbs ((rym_putchar RYM_CODE_C (rym_putchar RYM_CODE_ACK r))
       \<lparr>rym_stage := RYM_STAGE_ESTABLISHED\<rparr>)"

definition fin_packet :: "'u rym_callbacks \<Rightarrow> nat \<Rightarrow> 'u rym \<Rightarrow> (rym_err \<times> 'u rym) run" where
  "fin_packet cbs data_sz r0 =
     (let (i, r) = rym_read_data (SOH_PKG_SZ - 1) r0
      in if i \<noteq> SOH_PKG_SZ - 1 then Ret (RYM_ERR_DSZ, r)
         else if rym_buf r ! 1 \<noteq> 0 \<or> rym_buf r ! 2 \<noteq> 0xFF then Ret (RYM_ERR_SEQ, r)
         else if recv_crc (SOH_PKG_SZ - 2) r \<noteq> CRC16 (take (SOH_PKG_SZ - 5) (drop 3 (rym_buf r)))
         then Ret (RYM_ERR_CRC, r)
         else if rym_buf r ! 3 \<noteq> 0
         then run_bind (rym_call (on_begin cbs) RYM_CODE_ACK (data_sz - 5) r)
           (\<lambda>(c, r2). Ret (if c \<noteq> RYM_CODE_ACK then RYM_ERR_CAN else RYM_OK, r2))
         else Ret (RYM_OK, rym_putchar RYM_CODE_ACK (r\<lparr>rym_stage := RYM_STAGE_FINISHED\<rparr>)))"

definition rym_do_fin :: "'u rym_callbacks \<Rightarrow> 'u rym \<Rightarrow> (rym_err \<times> 'u rym) run" where
  "rym_do_fin cbs r0 =
     run_bind (rym_call (on_end cbs) RYM_CODE_ACK 128 (r0\<lparr>rym_stage := RYM_STAGE_FINISHING\<rparr>))
       (\<lambda>(_, r).
          let (code, r1) = rym_read_code RYM_WAIT_PKG_TICK (rym_putchar RYM_CODE_NAK r)
          in if code \<noteq> RYM_CODE_EOT then Ret (RYM_ERR_CODE, r1)
             else
               let (code, r2) = rym_read_code RYM_WAIT_PKG_TICK
                     (rym_putchar RYM_CODE_C (rym_putchar RYM_CODE_ACK r1))
               in if code = RYM_CODE_SOH then fin_packet cbs SOH_PKG_SZ r2
                  else if code = RYM_CODE_STX then fin_packet cbs STX_PKG_SZ r2
                  else Ret (RYM_ERR_CODE, r2))"

text \<open>A transfer of data that ends well has read the end mark; the packet after it reads on.\<close>

lemma recv_loop_input:
  "rym_recv_loop cbs r = Ret (RYM_OK, r') \<Longrightarrow> length (input r') < length (input r)"
proof (induction cbs r rule: rym_recv_loop.induct)
  case (1 cbs r)
  obtain code r1 where rd: "rym_read_code RYM_WAIT_PKG_TICK r = (code, r1)"
    by (cases "rym_read_code RYM_WAIT_PKG_TICK r")
  show ?case
  proof (cases "code = RYM_CODE_EOT")
    case True
    then show ?thesis
      using 1(2) rd read_code_input [OF rd] by (simp add: rym_recv_loop.simps [of cbs r] rym_codes)
  next
    case False
    then obtain n e c r2 where n: "data_size code = Some n"
      and t: "rym_trans_data cbs n code r1 = Ret (e, c, r2)"
      using 1(2) rd
      by (auto simp: rym_recv_loop.simps [of cbs r] split: option.splits run.splits prod.splits)
    then have ok: "e = RYM_OK" "c \<noteq> RYM_CODE_CAN"
      and rec: "rym_recv_loop cbs (if c = RYM_CODE_ACK then rym_putchar RYM_CODE_ACK r2 else r2)
        = Ret (RYM_OK, r')"
      using 1(2) rd False by (auto simp: rym_recv_loop.simps [of cbs r] split: if_splits)
    have "length (input r') < length (input r2)"
      using 1(1) [OF rd [symmetric] False n t refl refl _ ok(2) rec] ok(1) by (simp split: if_splits)
    with block_shortens [OF rd n t] show ?thesis by simp
  qed
qed

lemma do_trans_input: "rym_do_trans cbs r = Ret (RYM_OK, r') \<Longrightarrow> length (input r') < length (input r)"
  using recv_loop_input by (fastforce simp: rym_do_trans_def)

lemma fin_packet_input:
  assumes "fin_packet cbs n r = Ret (e, r')"
  shows "length (input r') \<le> length (input r)"
proof -
  obtain m r1 where rd: "rym_read_data (SOH_PKG_SZ - 1) r = (m, r1)"
    by (cases "rym_read_data (SOH_PKG_SZ - 1) r")
  obtain bs where "input r = bs @ input r1" using read_data_input [OF rd] ..
  moreover have "input r' = input r1"
    using assms unfolding fin_packet_def Let_def rd prod.case
    by (auto split: if_splits elim!: run_bind.elims dest: rym_call_input)
  ultimately show ?thesis by simp
qed

lemma read_code_shortens:
  "rym_read_code t r = (c, r') \<Longrightarrow> c \<noteq> RYM_CODE_NONE \<Longrightarrow> length (input r') < length (input r)"
  by (auto dest: read_code_input)

lemma do_fin_input:
  assumes "rym_do_fin cbs r = Ret (RYM_OK, r')"
  shows "length (input r') \<le> length (input r)"
proof -
  obtain c0 r0 where call: "rym_call (on_end cbs) RYM_CODE_ACK 128 (r\<lparr>rym_stage := RYM_STAGE_FINISHING\<rparr>)
      = Ret (c0, r0)"
    using assms by (auto simp: rym_do_fin_def elim!: run_bind.elims)
  obtain c1 r1 where rd1: "rym_read_code RYM_WAIT_PKG_TICK (rym_putchar RYM_CODE_NAK r0) = (c1, r1)"
    by (cases "rym_read_code RYM_WAIT_PKG_TICK (rym_putchar RYM_CODE_NAK r0)")
  obtain c2 r2 where rd2: "rym_read_code RYM_WAIT_PKG_TICK
      (rym_putchar RYM_CODE_C (rym_putchar RYM_CODE_ACK r1)) = (c2, r2)"
    by (cases "rym_read_code RYM_WAIT_PKG_TICK (rym_putchar RYM_CODE_C (rym_putchar RYM_CODE_ACK r1))")
  have c1: "c1 = RYM_CODE_EOT" and c2: "c2 = RYM_CODE_SOH \<or> c2 = RYM_CODE_STX"
    and fin: "\<exists>n. fin_packet cbs n r2 = Ret (RYM_OK, r')"
    using assms call rd1 rd2 by (auto simp: rym_do_fin_def split: if_splits)
  have "length (input r1) < length (input r0)"
    using read_code_shortens [OF rd1] c1 by (simp add: rym_codes)
  moreover have "length (input r2) < length (input r1)"
    using read_code_shortens [OF rd2] c2 by (auto simp: rym_codes)
  moreover have "length (input r') \<le> length (input r2)" using fin fin_packet_input by blast
  ultimately show ?thesis using rym_call_input [OF call] by simp
qed

function rym_recv_files :: "'u rym_callbacks \<Rightarrow> 'u rym \<Rightarrow> (rym_err \<times> 'u rym) run" where
  "rym_recv_files cbs r =
     (case rym_do_trans cbs r of
        Stuck \<Rightarrow> Stuck
      | Fault \<Rightarrow> Fault
      | Ret (err, r1) \<Rightarrow>
          if err \<noteq> RYM_OK then Ret (err, r1)
          else case rym_do_fin cbs r1 of
            Stuck \<Rightarrow> Stuck
          | Fault \<Rightarrow> Fault
          | Ret (err, r2) \<Rightarrow>
              if err \<noteq> RYM_OK then Ret (err, r2)
              else if rym_stage r2 = RYM_STAGE_FINISHED then Ret (err, r2)
              else rym_recv_files cbs r2)"
  by auto
termination
  by (relation "measure (\<lambda>(cbs, r). length (input r))") (auto dest!: do_trans_input do_fin_input)

declare rym_recv_files.simps [simp del]

text \<open>\<open>mem\<close> is the block \<open>rt_malloc\<close> returns, with what it holds.\<close>

definition rym_do_recv ::
  "u8 list option \<Rightarrow> 'u rym_callbacks \<Rightarrow> nat \<Rightarrow> 'u rym \<Rightarrow> (rym_err \<times> 'u rym) run" where
  "rym_do_recv mem cbs tm_sec r =
     (let r0 = r\<lparr>rym_stage := RYM_STAGE_NONE\<rparr>
      in case mem of None \<Rightarrow> Ret (RYM_ENOMEM, r0)
         | Some buf \<Rightarrow>
             run_bind (rym_do_handshake cbs tm_sec (r0\<lparr>rym_buf := buf\<rparr>))
               (\<lambda>(err, r1). if err \<noteq> RYM_OK then Ret (err, r1) else rym_recv_files cbs r1))"

section \<open>Sending\<close>

fun rym_wait_peer :: "nat \<Rightarrow> 'u rym \<Rightarrow> bool \<times> 'u rym" where
  "rym_wait_peer 0 r = (False, r)"
| "rym_wait_peer (Suc n) r =
     (let (code, r1) = rym_read_code RYM_CHD_INTV_TICK r
      in if code = RYM_CODE_C then (True, r1) else rym_wait_peer n r1)"

text \<open>Waits for an answer and goes on with \<open>f\<close> if it is the expected one.\<close>

definition expect :: "nat \<Rightarrow> 'u rym \<Rightarrow> ('u rym \<Rightarrow> (rym_err \<times> 'u rym) run) \<Rightarrow> (rym_err \<times> 'u rym) run" where
  "expect c r f =
     run_bind (rym_getchar r) (\<lambda>(a, r1). if a \<noteq> c then Ret (RYM_ERR_ACK, r1) else f r1)"

definition rym_do_send_handshake ::
  "'u rym_callbacks \<Rightarrow> nat \<Rightarrow> 'u rym \<Rightarrow> (rym_err \<times> 'u rym) run" where
  "rym_do_send_handshake cbs tm_sec r0 =
     (let (ok, r1) = rym_wait_peer tm_sec (r0\<lparr>rym_stage := RYM_STAGE_ESTABLISHING\<rparr>)
      in if \<not> ok then Ret (RYM_ERR_TMO, r1)
         else run_bind (rym_call (on_begin cbs) RYM_CODE_SOH (SOH_PKG_SZ - 5) r1)
           (\<lambda>(c, r2).
              if c \<noteq> RYM_CODE_SOH then Ret (RYM_ERR_CODE, r2)
              else expect RYM_CODE_ACK (set_rx_ind (rym_send_packet RYM_CODE_SOH 0 r2))
                (\<lambda>r3. expect RYM_CODE_C r3
                  (\<lambda>r4. Ret (RYM_OK, r4\<lparr>rym_stage := RYM_STAGE_ESTABLISHED\<rparr>)))))"

function rym_send_loop :: "'u rym_callbacks \<Rightarrow> u32 \<Rightarrow> 'u rym \<Rightarrow> (rym_err \<times> 'u rym) run" where
  "rym_send_loop cbs index r =
     (case rym_call (on_data cbs) RYM_CODE_SOH (SOH_PKG_SZ - 5) r of
        Stuck \<Rightarrow> Stuck
      | Fault \<Rightarrow> Fault
      | Ret (c, r1) \<Rightarrow>
          if c \<noteq> RYM_CODE_SOH then Ret (RYM_ERR_CODE, r1)
          else case rym_getchar (set_rx_ind (rym_send_packet RYM_CODE_SOH (ucast index) r1)) of
            Stuck \<Rightarrow> Stuck
          | Fault \<Rightarrow> Fault
          | Ret (a, r2) \<Rightarrow>
              if a \<noteq> RYM_CODE_ACK then Ret (RYM_ERR_ACK, r2)
              else if rym_stage r2 = RYM_STAGE_FINISHING then Ret (RYM_OK, r2)
              else rym_send_loop cbs (index + 1) r2)"
  by auto
termination
  by (relation "measure (\<lambda>(cbs, i, r). length (input r))")
    (auto dest!: rym_call_input getchar_input)

declare rym_send_loop.simps [simp del]

definition rym_do_send_trans :: "'u rym_callbacks \<Rightarrow> 'u rym \<Rightarrow> (rym_err \<times> 'u rym) run" where
  "rym_do_send_trans cbs r = rym_send_loop cbs 1 (r\<lparr>rym_stage := RYM_STAGE_TRANSMITTING\<rparr>)"

definition rym_do_send_fin :: "'u rym_callbacks \<Rightarrow> 'u rym \<Rightarrow> (rym_err \<times> 'u rym) run" where
  "rym_do_send_fin cbs r =
     expect RYM_CODE_NAK (rym_putchar RYM_CODE_EOT (set_rx_ind r)) (\<lambda>r1.
     expect RYM_CODE_ACK (rym_putchar RYM_CODE_EOT r1) (\<lambda>r2.
     expect RYM_CODE_C r2 (\<lambda>r3.
       run_bind (rym_call (on_end cbs) RYM_CODE_SOH (SOH_PKG_SZ - 5) r3) (\<lambda>(c, r4).
         if c \<noteq> RYM_CODE_SOH then Ret (RYM_ERR_CODE, r4)
         else Ret (RYM_OK,
           (rym_send_packet RYM_CODE_SOH 0 r4)\<lparr>rym_stage := RYM_STAGE_FINISHED\<rparr>)))))"

definition rym_do_send ::
  "u8 list option \<Rightarrow> 'u rym_callbacks \<Rightarrow> nat \<Rightarrow> 'u rym \<Rightarrow> (rym_err \<times> 'u rym) run" where
  "rym_do_send mem cbs tm_sec r =
     (let r0 = r\<lparr>rym_stage := RYM_STAGE_NONE\<rparr>
      in case mem of None \<Rightarrow> Ret (RYM_ENOMEM, r0)
         | Some buf \<Rightarrow>
             run_bind (rym_do_send_handshake cbs tm_sec (r0\<lparr>rym_buf := buf\<rparr>)) (\<lambda>(err, r1).
               if err \<noteq> RYM_OK then Ret (err, r1)
               else run_bind (rym_do_send_trans cbs r1) (\<lambda>(err, r2).
                 if err \<noteq> RYM_OK then Ret (err, r2) else rym_do_send_fin cbs r2)))"

section \<open>On a device\<close>

text \<open>
  One session at a time: the device is taken over, and given back with its flags and its handler.
  \<open>dev_ok\<close> says whether \<open>rt_device_open\<close> succeeds.
\<close>

definition on_device ::
  "bool \<Rightarrow> ('u rym \<Rightarrow> (rym_err \<times> 'u rym) run) \<Rightarrow> 'u rym \<Rightarrow> (rym_err \<times> 'u rym) run" where
  "on_device dev_ok session r =
     (if rym_the_ctx r then Fault
      else let r1 = r\<lparr>rym_the_ctx := True, rx_sem := 0, dev_rx_ind := Rym_Rx_Ind,
                 dev_flag := dev_flag r AND NOT RT_DEVICE_FLAG_STREAM\<rparr>
           in run_bind (if dev_ok then session r1 else Ret (RYM_EDEVICE, r1))
             (\<lambda>(res, r2). Ret (res, r2\<lparr>rym_the_ctx := False, dev_rx_ind := dev_rx_ind r,
                 dev_flag := dev_flag r\<rparr>)))"

definition rym_recv_on_device ::
  "bool \<Rightarrow> u8 list option \<Rightarrow> 'u rym_callbacks \<Rightarrow> nat \<Rightarrow> 'u rym \<Rightarrow> (rym_err \<times> 'u rym) run" where
  "rym_recv_on_device dev_ok mem cbs tm_sec r = on_device dev_ok (rym_do_recv mem cbs tm_sec) r"

definition rym_send_on_device ::
  "bool \<Rightarrow> u8 list option \<Rightarrow> 'u rym_callbacks \<Rightarrow> nat \<Rightarrow> 'u rym \<Rightarrow> (rym_err \<times> 'u rym) run" where
  "rym_send_on_device dev_ok mem cbs tm_sec r = on_device dev_ok (rym_do_send mem cbs tm_sec) r"

end
