(* ===== verification/Ry_Sy.thy ===== *)
theory Ry_Sy
  imports Ymodem C_Lib
begin

text \<open>
  The commands that send and receive one file by Y-modem
  (\<open>components/utilities/ymodem/ry_sy.c\<close>): the callbacks, with their context, and the two entry
  points, of which \<open>spsiread1\<close> and \<open>spsiread2\<close> call \<open>rym_upload_file\<close>.

  The file system is a parameter, the record \<open>posix\<close> of the calls the file makes; \<open>'fs\<close> is its
  state. \<open>posix_laws\<close> states what is documented of them: a file opened is read from its start, in
  pieces that are short only at its end, and written at its end.
\<close>

section \<open>The file system\<close>

datatype open_mode = O_Read_Only | O_Create_Trunc

record 'fs posix =
  px_open :: "u8 list \<Rightarrow> open_mode \<Rightarrow> 'fs \<Rightarrow> int \<times> 'fs"
  px_stat :: "u8 list \<Rightarrow> 'fs \<Rightarrow> u32 option"
  px_read :: "int \<Rightarrow> nat \<Rightarrow> 'fs \<Rightarrow> int \<times> u8 list \<times> 'fs"
  px_write :: "int \<Rightarrow> u8 list \<Rightarrow> 'fs \<Rightarrow> 'fs"
  px_close :: "int \<Rightarrow> 'fs \<Rightarrow> 'fs"

text \<open>\<open>content\<close>: the files by their paths; \<open>desc\<close>: the path and the position of each open descriptor.\<close>

definition posix_laws ::
  "'fs posix \<Rightarrow> ('fs \<Rightarrow> u8 list \<Rightarrow> u8 list option) \<Rightarrow> ('fs \<Rightarrow> int \<Rightarrow> (u8 list \<times> nat) option) \<Rightarrow> bool"
where
  "posix_laws px content desc \<longleftrightarrow>
     (\<forall>fs p d fs'. px_open px p O_Create_Trunc fs = (d, fs') \<and> 0 \<le> d \<longrightarrow>
        desc fs' d = Some (p, 0) \<and> content fs' p = Some []) \<and>
     (\<forall>fs p c d fs'. px_open px p O_Read_Only fs = (d, fs') \<and> 0 \<le> d \<and> content fs p = Some c \<longrightarrow>
        desc fs' d = Some (p, 0) \<and> content fs' p = Some c) \<and>
     (\<forall>fs p c. content fs p = Some c \<longrightarrow> px_stat px p fs = Some (word_of_nat (length c))) \<and>
     (\<forall>fs d p k c n. desc fs d = Some (p, k) \<and> content fs p = Some c \<longrightarrow>
        (\<exists>fs'. px_read px d n fs = (int (length (take n (drop k c))), take n (drop k c), fs') \<and>
          desc fs' d = Some (p, k + length (take n (drop k c))) \<and> content fs' p = Some c)) \<and>
     (\<forall>fs d p c bs. desc fs d = Some (p, length c) \<and> content fs p = Some c \<longrightarrow>
        desc (px_write px d bs fs) d = Some (p, length (c @ bs)) \<and>
        content (px_write px d bs fs) p = Some (c @ bs)) \<and>
     (\<forall>fs d p. content (px_close px d fs) p = content fs p)"

section \<open>The context\<close>

definition DFS_PATH_MAX :: nat where "DFS_PATH_MAX = 256"

record 'fs custom_ctx =
  fd :: int
  flen :: u32
  fpath :: "u8 list"
  files :: 'fs

definition RYM_ERR_FILE :: nat where "RYM_ERR_FILE = 0x77"

definition ctx_calloc :: "'fs \<Rightarrow> 'fs custom_ctx" where
  "ctx_calloc fs = \<lparr>fd = - 1, flen = 0, fpath = replicate DFS_PATH_MAX 0, files = fs\<rparr>"

text \<open>Bytes and characters; the string that starts at the head of an array.\<close>

definition bytes_of :: "string \<Rightarrow> u8 list" where
  "bytes_of s = map (\<lambda>c. word_of_nat (code_of c)) s"

definition chars_of :: "u8 list \<Rightarrow> string" where
  "chars_of bs = map (\<lambda>b. char_of (unat b)) bs"

definition c_str :: "u8 list \<Rightarrow> u8 list" where
  "c_str bs = takeWhile (\<lambda>b. b \<noteq> 0) bs"

definition rt_strncpy :: "nat \<Rightarrow> u8 list \<Rightarrow> u8 list" where
  "rt_strncpy n src = take n (c_str src @ replicate n 0)"

definition put_at :: "nat \<Rightarrow> u8 list \<Rightarrow> u8 list \<Rightarrow> u8 list" where
  "put_at i bs buf = take i buf @ bs @ drop (i + length bs) buf"

section \<open>Receiving\<close>

text \<open>
  \<open>rt_strncpy\<close> writes \<open>len - 1\<close> bytes from \<open>fpath[1]\<close> on, whatever the length of the name; \<open>flen\<close>
  is the bit pattern of the C \<open>int\<close>. What the C code does after it has written past the end of \<open>fpath\<close>
  is not modelled: that is a \<^const>\<open>Fault\<close>.
\<close>

definition rym_recv_begin :: "'fs posix \<Rightarrow> 'fs custom_ctx rym_callback" where
  "rym_recv_begin px len = (\<lambda>(st, buf, u).
     if DFS_PATH_MAX < len then Fault
     else
       let path = put_at 1 (rt_strncpy (len - 1) (drop 3 buf)) (put_at 0 [0x2F] (fpath u))
       in if 0 \<notin> set path then Fault
          else
            let (d, fs) = px_open px (c_str path) O_Create_Trunc (files u);
                u1 = u\<lparr>fpath := path, fd := d, files := fs\<rparr>
            in if d < 0 then Ret (RYM_CODE_CAN, st, buf, u1)
               else
                 let n = atoi (chars_of (drop (3 + 1 + length (c_str (take (len - 1) (drop 3 buf)))) buf))
                 in Ret (RYM_CODE_ACK, st, buf,
                      u1\<lparr>flen := if n = 0 then - 1 else word_of_int n\<rparr>))"

text \<open>\<open>len > cctx->flen\<close> compares as unsigned.\<close>

definition rym_recv_data :: "'fs posix \<Rightarrow> 'fs custom_ctx rym_callback" where
  "rym_recv_data px len = (\<lambda>(st, buf, u).
     if fd u < 0 then Fault
     else if flen u = - 1
     then Ret (RYM_CODE_ACK, st, buf, u\<lparr>files := px_write px (fd u) (take len (drop 3 buf)) (files u)\<rparr>)
     else
       let wlen = if flen u < word_of_nat len then flen u else word_of_nat len
       in Ret (RYM_CODE_ACK, st, buf,
            u\<lparr>files := px_write px (fd u) (take (unat wlen) (drop 3 buf)) (files u),
              flen := flen u - wlen\<rparr>))"

definition rym_recv_end :: "'fs posix \<Rightarrow> 'fs custom_ctx rym_callback" where
  "rym_recv_end px len = (\<lambda>(st, buf, u).
     if fd u < 0 then Fault
     else Ret (RYM_CODE_ACK, st, buf, u\<lparr>files := px_close px (fd u) (files u), fd := - 1\<rparr>))"

section \<open>Sending\<close>

definition rym_send_begin :: "'fs posix \<Rightarrow> 'fs custom_ctx rym_callback" where
  "rym_send_begin px len = (\<lambda>(st, buf, u).
     if 0 \<notin> set (drop 1 (fpath u)) then Fault
     else
       let (d, fs) = px_open px (c_str (fpath u)) O_Read_Only (files u);
           u1 = u\<lparr>fd := d, files := fs\<rparr>
       in if d < 0 then Ret (RYM_ERR_FILE, st, buf, u1)
          else
            let buf1 = put_at 3 (replicate len 0) buf
            in case px_stat px (c_str (fpath u)) fs of
                 None \<Rightarrow> Ret (RYM_ERR_FILE, st, buf1, u1)
               | Some sz \<Rightarrow>
                   Ret (RYM_CODE_SOH, st,
                     put_at 3 (c_str (drop 1 (fpath u)) @ [0] @ bytes_of (fmt_d (sint sz)) @ [0]) buf1, u1))"

text \<open>
  The at most ten calls of \<open>read\<close>. A failed call returns \<open>-1\<close>, which is added to the unsigned count
  and to the address all the same. The C code stores outside the block as well as inside and goes on,
  with whatever it has overwritten; that is undefined in C and ends the run as a \<^const>\<open>Fault\<close> here,
  so that a theorem has to show that it does not happen.
\<close>

fun read_retries ::
  "nat \<Rightarrow> 'fs posix \<Rightarrow> int \<Rightarrow> u32 \<Rightarrow> u32 \<Rightarrow> u8 list \<Rightarrow> 'fs \<Rightarrow> (u32 \<times> u8 list \<times> 'fs) run" where
  "read_retries 0 px d len rsz buf fs = Ret (rsz, buf, fs)"
| "read_retries (Suc k) px d len rsz buf fs =
     (let (n, bs, fs1) = px_read px d (unat (len - rsz)) fs;
          i = unat (3 + rsz)
      in if bs \<noteq> [] \<and> length buf < i + length bs then Fault
         else
           let buf1 = (if bs = [] then buf else put_at i bs buf);
               rsz1 = rsz + word_of_int n
           in if rsz1 = len then Ret (rsz1, buf1, fs1) else read_retries k px d len rsz1 buf1 fs1)"

definition rym_send_data :: "'fs posix \<Rightarrow> 'fs custom_ctx rym_callback" where
  "rym_send_data px len = (\<lambda>(st, buf, u).
     run_bind (read_retries 10 px (fd u) (word_of_nat len) 0 buf (files u)) (\<lambda>(rsz, buf1, fs).
       if rsz < word_of_nat len
       then Ret (RYM_CODE_SOH, RYM_STAGE_FINISHING,
              put_at (3 + unat rsz) (replicate (len - unat rsz) 0x1A) buf1, u\<lparr>files := fs\<rparr>)
       else Ret (RYM_CODE_SOH, st, buf1, u\<lparr>files := fs\<rparr>)))"

definition rym_send_end :: "'fs posix \<Rightarrow> 'fs custom_ctx rym_callback" where
  "rym_send_end px len = (\<lambda>(st, buf, u). Ret (RYM_CODE_SOH, st, put_at 3 (replicate len 0) buf, u))"

section \<open>Entry points\<close>

text \<open>
  \<open>ctx_ok\<close>: whether \<open>rt_calloc\<close> succeeds. The context lives for the call only; of its fields the
  file system outlasts it.
\<close>

definition rym_download_file ::
  "'fs posix \<Rightarrow> bool \<Rightarrow> bool \<Rightarrow> u8 list option \<Rightarrow> 'fs custom_ctx rym \<Rightarrow> (rym_err \<times> 'fs custom_ctx rym) run"
where
  "rym_download_file px ctx_ok dev_ok mem r =
     (if \<not> ctx_ok then Ret (RYM_ENOMEM, r)
      else rym_recv_on_device dev_ok mem
        \<lparr>on_begin = Some (rym_recv_begin px), on_data = Some (rym_recv_data px),
         on_end = Some (rym_recv_end px)\<rparr>
        1000 (r\<lparr>rym_user := ctx_calloc (files (rym_user r))\<rparr>))"

definition rym_upload_file ::
  "'fs posix \<Rightarrow> bool \<Rightarrow> bool \<Rightarrow> u8 list option \<Rightarrow> u8 list \<Rightarrow> 'fs custom_ctx rym
     \<Rightarrow> (rym_err \<times> 'fs custom_ctx rym) run"
where
  "rym_upload_file px ctx_ok dev_ok mem file_path r =
     (if \<not> ctx_ok then Ret (RYM_ENOMEM, r)
      else rym_send_on_device dev_ok mem
        \<lparr>on_begin = Some (rym_send_begin px), on_data = Some (rym_send_data px),
         on_end = Some (rym_send_end px)\<rparr>
        1000 (r\<lparr>rym_user := (ctx_calloc (files (rym_user r)))
                 \<lparr>fpath := rt_strncpy DFS_PATH_MAX file_path\<rparr>\<rparr>))"

end
