(* ===== verification/Ymodem_Check.thy ===== *)
theory Ymodem_Check
  imports Ymodem
begin

text \<open>
  The Y-modem engine over the stream of bytes it reads: what the reading operations deliver of it,
  the packets on the line, and what the sender and the receiver do with each packet.
\<close>

section \<open>Reading from the stream\<close>

definition same :: "'u rym \<Rightarrow> 'u rym \<Rightarrow> bool" where
  "same r r' \<longleftrightarrow> rym_stage r' = rym_stage r \<and> rym_sent r' = rym_sent r \<and> rym_user r' = rym_user r
     \<and> rym_buf r' = rym_buf r"

lemma same_refl [simp]: "same r r"
  by (simp add: same_def)

lemma same_trans: "same r r' \<Longrightarrow> same r' r'' \<Longrightarrow> same r r''"
  by (simp add: same_def)

lemma rym_read_Suc_0: "rym_read (Suc 0) r = (case rx_fifo r of [] \<Rightarrow> ([], r) | b # bs \<Rightarrow> ([b], r\<lparr>rx_fifo := bs\<rparr>))"
  by (cases r) (auto simp: rym_read_def split: list.splits)

lemma input_fifo: "rx_fifo r = b # bs \<Longrightarrow> input r = b # input (r\<lparr>rx_fifo := bs\<rparr>)"
  by (simp add: input_def)

text \<open>A byte that comes at all is read by \<open>_rym_getchar\<close>; when none comes it waits for ever.\<close>

lemma getchar_next:
  "input r = b # bs \<Longrightarrow> \<exists>r'. rym_getchar r = Ret (unat b, r') \<and> input r' = bs \<and> same r r'"
proof (induction r rule: rym_getchar.induct)
  case (1 r)
  show ?case
  proof (cases "rx_fifo r")
    case (Cons a as)
    then show ?thesis
      using 1(2) by (simp add: rym_getchar.simps [of r] rym_read_Suc_0 same_def input_def)
  next
    case Nil
    then have rd: "rym_read 1 r = ([], r)" by (simp add: rym_read_Suc_0)
    have "arrivals r \<noteq> []" using 1(2) Nil by (auto simp: input_def)
    then obtain r2 where t: "rym_sem_take_forever r = Some r2"
      by (cases "rym_sem_take_forever r")
        (auto simp: rym_sem_take_forever_def split: if_splits list.splits)
    then have s: "same r r2" "input r2 = b # bs"
      using input_sem_take_forever [OF t] 1(2)
      by (auto simp: rym_sem_take_forever_def same_def split: if_splits list.splits)
    from 1(1) [OF rd [symmetric] refl _ t s(2)] s(1) show ?thesis
      by (auto simp: rym_getchar.simps [of r] rd [simplified] t intro: same_trans)
  qed
qed

lemma getchar_stuck: "input r = [] \<Longrightarrow> rym_getchar r = Stuck"
proof (induction r rule: rym_getchar.induct)
  case (1 r)
  then have rd: "rym_read 1 r = ([], r)" by (simp add: rym_read_Suc_0 input_def)
  show ?case
  proof (cases "rym_sem_take_forever r")
    case None
    then show ?thesis by (simp add: rym_getchar.simps [of r] rd [simplified])
  next
    case (Some r2)
    with 1(1) [OF rd [symmetric] refl _ Some] 1(2) input_sem_take_forever [OF Some]
    show ?thesis by (simp add: rym_getchar.simps [of r] rd [simplified])
  qed
qed

text \<open>The first byte is there, or comes before the wait for a packet times out.\<close>

definition prompt :: "'u rym \<Rightarrow> bool" where
  "prompt r \<longleftrightarrow> rx_fifo r \<noteq> [] \<or>
     (case arrivals r of [] \<Rightarrow> False | (d, bs) # as \<Rightarrow> d \<le> 3000 \<and> bs \<noteq> [])"

lemma prompt_simps [simp]:
  "prompt (r\<lparr>rym_stage := st\<rparr>) = prompt r" "prompt (r\<lparr>rym_buf := buf\<rparr>) = prompt r"
  "prompt (r\<lparr>rym_user := u\<rparr>) = prompt r" "prompt (r\<lparr>rx_sem := n\<rparr>) = prompt r"
  "prompt (r\<lparr>rym_the_ctx := b\<rparr>) = prompt r" "prompt (r\<lparr>dev_flag := f\<rparr>) = prompt r"
  "prompt (r\<lparr>dev_rx_ind := h\<rparr>) = prompt r"
  by (simp_all add: prompt_def)

lemma read_code_prompt:
  assumes "prompt r" and "rx_sem r = 0" and "input r = b # bs"
  shows "\<exists>r'. rym_read_code 3000 r = (unat b, r') \<and> input r' = bs \<and> same (put_buf 0 [b] r) r'"
proof (cases "rx_fifo r")
  case (Cons a as)
  then have "rym_read_code 3000 r = (unat b, put_buf 0 [b] (r\<lparr>rx_fifo := as\<rparr>))"
    using assms(3) by (simp add: rym_read_code_def rym_read_Suc_0 input_def)
  with assms Cons show ?thesis by (auto simp: same_def put_buf_def input_def)
next
  case Nil
  then obtain d cs as where a: "arrivals r = (d, cs) # as" "d \<le> 3000" "cs \<noteq> []"
    using assms(1) by (auto simp: prompt_def split: list.splits)
  then obtain cs' where cs: "cs = b # cs'" using assms(3) Nil by (cases cs) (auto simp: input_def)
  let ?r = "r\<lparr>rym_now := rym_now r + word_of_nat d, arrivals := as, rx_fifo := cs'\<rparr>"
  have "rym_read_code 3000 r = (unat b, put_buf 0 [b] ?r)"
    using Nil a cs assms(2)
    by (simp add: rym_read_code_def rym_read_Suc_0 rym_wait_code.simps [of _ r] rym_sem_take_def)
  with assms Nil a cs show ?thesis by (auto simp: same_def put_buf_def input_def)
qed

text \<open>A line that keeps flowing: every portion has bytes, and comes before the waits time out.\<close>

definition flowing :: "'u rym \<Rightarrow> bool" where
  "flowing r \<longleftrightarrow> (\<forall>(d, bs) \<in> set (arrivals r). d \<le> 3000 \<and> bs \<noteq> [])"

lemma flowing_simps [simp]:
  "flowing (rym_write bs r) = flowing r" "flowing (rym_putchar c r) = flowing r"
  "flowing (put_buf n bs r) = flowing r" "flowing (r\<lparr>rym_stage := st\<rparr>) = flowing r"
  "flowing (r\<lparr>rym_buf := buf\<rparr>) = flowing r" "flowing (r\<lparr>rym_user := u\<rparr>) = flowing r"
  "flowing (r\<lparr>rx_fifo := bs\<rparr>) = flowing r" "flowing (r\<lparr>rx_sem := n\<rparr>) = flowing r"
  "flowing (r\<lparr>rym_the_ctx := b\<rparr>) = flowing r" "flowing (r\<lparr>dev_flag := f\<rparr>) = flowing r"
  "flowing (r\<lparr>dev_rx_ind := h\<rparr>) = flowing r"
  by (simp_all add: flowing_def rym_write_def rym_putchar_def put_buf_def)

lemma arrive_flowing:
  "arrive d as = (xs, n, rest) \<Longrightarrow> (\<forall>(t, bs) \<in> set as. t \<le> k \<and> bs \<noteq> [])
     \<Longrightarrow> (\<forall>(t, bs) \<in> set rest. t \<le> k \<and> bs \<noteq> [])"
  by (induction d as arbitrary: xs n rest rule: arrive.induct)
    (fastforce split: if_splits prod.splits)+

lemma flowing_mdelay: "flowing r \<Longrightarrow> flowing (rym_mdelay d r)"
  by (auto simp: rym_mdelay_def flowing_def split: prod.splits dest!: arrive_flowing)

text \<open>A wait that succeeds on a flowing line when the fifo is empty.\<close>

lemma sem_take_flowing:
  assumes "flowing r" and "rx_fifo r = []" and "input r \<noteq> []"
  obtains d r' where "rym_sem_take 3000 r = (True, r')" and "flowing r'" and "same r r'"
    and "input r' = input r" and "rym_now r' = rym_now r + word_of_nat d" and "d \<le> 3000"
    and "rx_fifo r' = [] \<longrightarrow> d = 0"
proof (cases "0 < rx_sem r")
  case True
  then have "rym_sem_take 3000 r = (True, r\<lparr>rx_sem := rx_sem r - 1\<rparr>)"
    by (simp add: rym_sem_take_def)
  with assms(1) show ?thesis
    by (intro that [of "r\<lparr>rx_sem := rx_sem r - 1\<rparr>" 0]) (simp_all add: same_def)
next
  case False
  obtain d bs as where a: "arrivals r = (d, bs) # as"
    using assms(2,3) by (cases "arrivals r") (auto simp: input_def)
  then have d: "d \<le> 3000" "bs \<noteq> []" using assms(1) by (auto simp: flowing_def)
  let ?r = "r\<lparr>rym_now := rym_now r + word_of_nat d, rx_fifo := rx_fifo r @ bs, arrivals := as\<rparr>"
  have "rym_sem_take 3000 r = (True, ?r)" using False a d by (simp add: rym_sem_take_def)
  with assms a d show ?thesis
    by (intro that [of ?r d]) (auto simp: same_def flowing_def input_def)
qed

lemma wait_code_flowing:
  "flowing r \<Longrightarrow> rx_fifo r = [] \<Longrightarrow> input r = b # bs \<Longrightarrow>
    \<exists>r' d. rym_wait_code 3000 r = (unat b, r') \<and> input r' = bs \<and> flowing r' \<and> d \<le> 3000
      \<and> rym_now r' = rym_now r + word_of_nat d \<and> same (put_buf 0 [b] r) r'"
proof (induction "3000 :: nat" r rule: rym_wait_code.induct)
  case (1 r)
  then obtain d r1 where t: "rym_sem_take 3000 r = (True, r1)" "flowing r1" "same r r1"
    "input r1 = b # bs" "rym_now r1 = rym_now r + word_of_nat d" "d \<le> 3000" "rx_fifo r1 = [] \<longrightarrow> d = 0"
    by (metis sem_take_flowing list.distinct(1))
  show ?case
  proof (cases "rx_fifo r1")
    case (Cons a as)
    then have "rym_wait_code 3000 r = (unat b, put_buf 0 [b] (r1\<lparr>rx_fifo := as\<rparr>))"
      using t by (simp add: rym_wait_code.simps [of _ r] rym_read_Suc_0 input_def)
    with t Cons show ?thesis
      by (intro exI [of _ "put_buf 0 [b] (r1\<lparr>rx_fifo := as\<rparr>)"] exI [of _ d])
        (auto simp: same_def put_buf_def input_def)
  next
    case Nil
    then have rd: "rym_read 1 r1 = ([], r1)" by (simp add: rym_read_Suc_0)
    have "rym_wait_code 3000 r = rym_wait_code 3000 r1"
      using t rd by (simp add: rym_wait_code.simps [of _ r])
    with 1(1) [OF refl t(1) [symmetric] _ refl rd [symmetric] _ t(2) Nil t(4)] t Nil
    show ?thesis by (auto simp: same_def put_buf_def)
  qed
qed

lemma read_code_flowing:
  assumes "flowing r" and "input r = b # bs"
  obtains r' d where "rym_read_code 3000 r = (unat b, r')" and "input r' = bs" and "flowing r'"
    and "d \<le> 3000" and "rym_now r' = rym_now r + word_of_nat d" and "same (put_buf 0 [b] r) r'"
proof (cases "rx_fifo r")
  case (Cons a as)
  then have "rym_read_code 3000 r = (unat b, put_buf 0 [b] (r\<lparr>rx_fifo := as\<rparr>))"
    using assms by (simp add: rym_read_code_def rym_read_Suc_0 input_def)
  with assms Cons show ?thesis
    by (intro that [of "put_buf 0 [b] (r\<lparr>rx_fifo := as\<rparr>)" 0])
      (auto simp: same_def put_buf_def input_def)
next
  case Nil
  then have rd: "rym_read 1 r = ([], r)" by (simp add: rym_read_Suc_0)
  then have "rym_read_code 3000 r = rym_wait_code 3000 r" by (simp add: rym_read_code_def)
  with wait_code_flowing [OF assms(1) Nil assms(2)] that show ?thesis by auto
qed

lemma put_buf_append:
  "i \<le> length (rym_buf r) \<Longrightarrow> put_buf (i + length as) bs (put_buf i as r) = put_buf i (as @ bs) r"
  by (simp add: put_buf_def min_def ac_simps)

lemma same_put_buf: "same r r' \<Longrightarrow> same (put_buf i bs r) (put_buf i bs r')"
  by (simp add: same_def put_buf_def)

lemma length_put_buf:
  "i + length bs \<le> length (rym_buf r) \<Longrightarrow> length (rym_buf (put_buf i bs r)) = length (rym_buf r)"
  by (simp add: put_buf_def)

lemma read_loop_flowing:
  "flowing r \<Longrightarrow> k \<le> len \<Longrightarrow> len - k \<le> length (input r) \<Longrightarrow> len < length (rym_buf r) \<Longrightarrow>
    \<exists>r'. rym_read_loop len k r = (len, r') \<and> input r' = drop (len - k) (input r) \<and> flowing r'
      \<and> same (put_buf (1 + k) (take (len - k) (input r)) r) r'"
proof (induction len k r rule: rym_read_loop.induct)
  case (1 len k r)
  let ?bs = "take (len - k) (rx_fifo r)"
  let ?r1 = "r\<lparr>rx_fifo := drop (len - k) (rx_fifo r)\<rparr>"
  let ?r2 = "put_buf (1 + k) ?bs ?r1"
  have rd: "rym_read (len - k) r = (?bs, ?r1)" by (simp add: rym_read_def)
  show ?case
  proof (cases "len \<le> k + length ?bs")
    case True
    then have e: "length ?bs = len - k" using 1(3) by simp
    have "rym_read_loop len k r = (len, ?r2)"
      using True e 1(3) by (simp add: rym_read_loop.simps [of len k r] rd)
    moreover have "take (len - k) (input r) = ?bs" "input ?r2 = drop (len - k) (input r)"
      using e by (auto simp: input_def put_buf_def min_def split: if_splits)
    moreover have "same (put_buf (1 + k) ?bs r) ?r2" by (simp add: same_def put_buf_def)
    moreover have "flowing ?r2" using 1(2) by simp
    ultimately show ?thesis by metis
  next
    case False
    then have bs: "?bs = rx_fifo r" "rx_fifo ?r2 = []" and lt: "k + length (rx_fifo r) < len"
      using 1(3) by (simp_all add: put_buf_def min_def split: if_splits)
    have in2: "input r = rx_fifo r @ input ?r2" using bs by (simp add: input_def put_buf_def)
    have ne: "input ?r2 \<noteq> []" using 1(4) lt in2 by auto
    obtain r3 where t: "rym_sem_take RYM_WAIT_CHR_TICK ?r2 = (True, r3)" "flowing r3" "same ?r2 r3"
      "input r3 = input ?r2"
      using sem_take_flowing [of ?r2] bs(2) ne 1(2) by (auto simp: RYM_WAIT_CHR_TICK_def)
    have run: "rym_read_loop len k r = rym_read_loop len (k + length ?bs) r3"
      using False t(1) lt bs(1) by (simp add: rym_read_loop.simps [of len k r] rd Let_def)
    have len3: "length (rym_buf r3) = length (rym_buf r)"
      using t(3) lt 1(5) bs(1) by (simp add: same_def put_buf_def)
    have "k + length ?bs \<le> len" "len - (k + length ?bs) \<le> length (input r3)"
      using lt bs(1) 1(4) in2 t(4) by simp_all
    moreover have "len < length (rym_buf r3)" using 1(5) len3 by simp
    moreover note IH = 1(1) [OF refl rd [symmetric] refl refl False refl t(1) [symmetric] TrueI t(2)]
    ultimately obtain r' where r': "rym_read_loop len (k + length ?bs) r3 = (len, r')"
      "input r' = drop (len - (k + length ?bs)) (input r3)" "flowing r'"
      "same (put_buf (1 + (k + length ?bs)) (take (len - (k + length ?bs)) (input r3)) r3) r'"
      by blast
    let ?cs = "take (len - (k + length ?bs)) (input r3)"
    have "put_buf (1 + (k + length ?bs)) ?cs ?r2 = put_buf (1 + k) (?bs @ ?cs) ?r1"
      using put_buf_append [of "1 + k" ?r1 ?bs ?cs] lt 1(5) by (simp add: add.assoc)
    then have "same (put_buf (1 + k) (?bs @ ?cs) ?r1) r'"
      using same_trans [OF same_put_buf [OF t(3)] r'(4)] by simp
    then have "same (put_buf (1 + k) (take (len - k) (input r)) r) r'"
      using in2 t(4) bs(1) lt by (simp add: same_def put_buf_def)
    with r' run in2 t(4) bs(1) lt show ?thesis by (intro exI [of _ r']) simp
  qed
qed

lemma read_data_flowing:
  assumes "flowing r" and "input r = bs @ rest" and "length bs = len" and "len < length (rym_buf r)"
  obtains r' where "rym_read_data len r = (len, r')" and "input r' = rest" and "flowing r'"
    and "same (put_buf 1 bs r) r'"
  using read_loop_flowing [of r 0 len] assms by (auto simp: rym_read_data_def)

section \<open>Packets\<close>

definition packet :: "u8 \<Rightarrow> u8 list \<Rightarrow> u8 list" where
  "packet i d = word_of_nat RYM_CODE_SOH # i # NOT i # d
     @ [ucast (drop_bit 8 (CRC16 d)), ucast (CRC16 d)]"

lemma crc_bytes:
  "push_bit 8 (ucast (ucast (drop_bit 8 c) :: u8)) OR ucast (ucast c :: u8) = (c :: u16)"
proof (rule bit_word_eqI)
  fix n assume "n < LENGTH(16)"
  then show "bit (push_bit 8 (ucast (ucast (drop_bit 8 c) :: u8)) OR ucast (ucast c :: u8) :: u16) n
    = bit c n"
    by (cases "n < 8") (auto simp: bit_simps)
qed

lemma index_sum: "unat (i :: u8) + unat (NOT i) = 255"
proof -
  have "NOT i = - 1 - i" by (simp add: not_eq_complement)
  moreover have "unat (- 1 - i) = unat (- 1 :: u8) - unat i"
    by (rule unat_sub) simp
  moreover have "unat (- 1 :: u8) = 255" by (simp add: unsigned_minus_1_eq_mask mask_eq_exp_minus_1)
  moreover have "unat i < 256" using unsigned_less [of i] by simp
  ultimately show ?thesis by simp
qed

lemma send_packet_sent:
  assumes "length (rym_buf r) = 1029"
  shows "rym_sent (rym_send_packet RYM_CODE_SOH i r) = rym_sent r @ packet i (take 128 (drop 3 (rym_buf r)))"
    and "length (rym_buf (rym_send_packet c i r)) = 1029"
    and "rym_stage (rym_send_packet c i r) = rym_stage r"
    and "rym_user (rym_send_packet c i r) = rym_user r"
proof -
  show "rym_sent (rym_send_packet RYM_CODE_SOH i r) = rym_sent r @ packet i (take 128 (drop 3 (rym_buf r)))"
    using assms by (simp add: rym_send_packet_def Let_def put_buf_def rym_write_def packet_def rym_sizes
        eval_nat_numeral)
qed (use assms in \<open>simp_all add: rym_send_packet_def Let_def put_buf_def rym_write_def\<close>)

text \<open>The receiver and the bytes that follow the code: numbers, data and checksum.\<close>

lemma put_packet:
  assumes "length (rym_buf r) = 1029" and "length d \<le> 1024"
  shows "rym_buf (put_buf 1 (i # j # d @ [hi, lo]) r) ! 1 = i"
    and "rym_buf (put_buf 1 (i # j # d @ [hi, lo]) r) ! 2 = j"
    and "take (length d) (drop 3 (rym_buf (put_buf 1 (i # j # d @ [hi, lo]) r))) = d"
    and "recv_crc (length d + 3) (put_buf 1 (i # j # d @ [hi, lo]) r) =
      push_bit 8 (ucast hi) OR ucast lo"
    and "length (rym_buf (put_buf 1 (i # j # d @ [hi, lo]) r)) = 1029"
proof -
  obtain x where x: "take 1 (rym_buf r) = [x]"
    using assms(1) by (cases "rym_buf r") auto
  then have b: "rym_buf (put_buf 1 (i # j # d @ [hi, lo]) r) =
      x # i # j # d @ hi # lo # drop (1 + length (i # j # d @ [hi, lo])) (rym_buf r)"
    by (simp add: put_buf_def)
  show "rym_buf (put_buf 1 (i # j # d @ [hi, lo]) r) ! 1 = i"
    "rym_buf (put_buf 1 (i # j # d @ [hi, lo]) r) ! 2 = j"
    "take (length d) (drop 3 (rym_buf (put_buf 1 (i # j # d @ [hi, lo]) r))) = d"
    unfolding b by (simp_all add: eval_nat_numeral)
  have "(x # i # j # d @ hi # lo # zs) ! (length d + 3) = hi"
    "(x # i # j # d @ hi # lo # zs) ! (length d + 3 + 1) = lo" for zs
    by (simp_all add: eval_nat_numeral nth_append)
  then show "recv_crc (length d + 3) (put_buf 1 (i # j # d @ [hi, lo]) r) =
      push_bit 8 (ucast hi) OR ucast lo"
    unfolding recv_crc_def b by simp
  show "length (rym_buf (put_buf 1 (i # j # d @ [hi, lo]) r)) = 1029"
    using assms by (intro trans [OF length_put_buf assms(1)]) simp
qed

lemma recv_crc_stage: "recv_crc k (r\<lparr>rym_stage := st\<rparr>) = recv_crc k r"
  by (simp add: recv_crc_def)

lemma trans_data_reads:
  assumes "flowing r" and "input r = (i # NOT i # d @ [hi, lo]) @ rest" and "length d \<le> 1024"
    and "length (rym_buf r) = 1029" and "rym_stage r \<noteq> RYM_STAGE_ESTABLISHED \<or> i \<noteq> 0"
  obtains r1 where "flowing r1" and "input r1 = rest" and "rym_sent r1 = rym_sent r"
    and "rym_user r1 = rym_user r" and "rym_stage r1 = RYM_STAGE_TRANSMITTING"
    and "length (rym_buf r1) = 1029" and "take (length d) (drop 3 (rym_buf r1)) = d"
    and "rym_trans_data cbs (length d) code r =
      (if sealed d hi lo
       then run_bind (rym_call (on_data cbs) RYM_CODE_ACK (length d) r1)
         (\<lambda>(c, r2). Ret (RYM_OK, c, r2))
       else Ret (RYM_ERR_CRC, code, r1))"
proof -
  let ?p = "put_buf 1 (i # NOT i # d @ [hi, lo]) r"
  let ?n = "2 + length d + 2"
  obtain r0 where rd: "rym_read_data ?n r = (?n, r0)" and r0: "input r0 = rest" "flowing r0" "same ?p r0"
    using read_data_flowing [OF assms(1,2), of ?n] assms(3,4) by auto
  note pp = put_packet [OF assms(4,3), of i "NOT i" hi lo]
  have b: "rym_buf r0 = rym_buf ?p" and crc: "recv_crc k r0 = recv_crc k ?p" for k
    using r0(3) by (simp_all add: same_def recv_crc_def)
  let ?r1 = "r0\<lparr>rym_stage := RYM_STAGE_TRANSMITTING\<rparr>"
  have keep: "rym_stage r0 = rym_stage r" "rym_sent r0 = rym_sent r" "rym_user r0 = rym_user r"
    using r0(3) by (simp_all add: same_def put_buf_def)
  have n3: "?n - 1 = length d + 3" by simp
  have crc1: "recv_crc (?n - 1) ?r1 = push_bit 8 (ucast hi) OR ucast lo"
    unfolding n3 by (simp only: recv_crc_stage crc pp(4))
  have idx: "unat (rym_buf r0 ! 1) + unat (rym_buf r0 ! 2) = 0xFF"
    unfolding b pp(1,2) using index_sum [of i] by simp
  have "rym_trans_data cbs (length d) code r =
      (if sealed d hi lo
       then run_bind (rym_call (on_data cbs) RYM_CODE_ACK (length d) ?r1)
         (\<lambda>(c, r2). Ret (RYM_OK, c, r2))
       else Ret (RYM_ERR_CRC, code, ?r1))"
    using assms(5) idx pp(1,3) crc1 keep(1)
    unfolding rym_trans_data_def Let_def rd prod.case
    by (auto simp: b sealed_def)
  with r0 keep pp(3,5) b show ?thesis by (intro that [of ?r1]) simp_all
qed

lemma packet_sealed: "sealed d (ucast (drop_bit 8 (CRC16 d))) (ucast (CRC16 d))"
  unfolding sealed_def by (rule crc_bytes [symmetric])

section \<open>Answers that a sender expects\<close>

text \<open>
  \<open>m\<close>, which reads the bytes \<open>xs\<close>, follows the script \<open>A\<close>: if the bytes begin with the script it ends
  well; if they stop within it the call is stuck; at the first byte that is another it gives up.
\<close>

definition follows ::
  "(rym_err \<times> 'u rym) run \<Rightarrow> u8 list \<Rightarrow> u8 list \<Rightarrow> ('u rym \<Rightarrow> bool) \<Rightarrow> bool" where
  "follows m xs A P \<longleftrightarrow>
     (\<forall>ys. xs = A @ ys \<longrightarrow> (\<exists>r'. m = Ret (RYM_OK, r') \<and> input r' = ys \<and> P r')) \<and>
     (\<forall>n<length A. xs = take n A \<longrightarrow> m = Stuck) \<and>
     (\<forall>n<length A. \<forall>a ys. xs = take n A @ a # ys \<and> a \<noteq> A ! n \<longrightarrow>
       (\<exists>r'. m = Ret (RYM_ERR_ACK, r') \<and> input r' = ys))"

lemma followsD:
  assumes "follows m xs A P"
  shows "xs = A @ ys \<Longrightarrow> \<exists>r'. m = Ret (RYM_OK, r') \<and> input r' = ys \<and> P r'"
    and "n < length A \<Longrightarrow> xs = take n A \<Longrightarrow> m = Stuck"
    and "n < length A \<Longrightarrow> xs = take n A @ a # ys \<Longrightarrow> a \<noteq> A ! n
      \<Longrightarrow> \<exists>r'. m = Ret (RYM_ERR_ACK, r') \<and> input r' = ys"
  using assms by (auto simp: follows_def)

lemma follows_Ret: "P r \<Longrightarrow> follows (Ret (RYM_OK, r)) (input r) [] P"
  by (simp add: follows_def)

lemma follows_mono: "follows m xs A P \<Longrightarrow> (\<And>r. P r \<Longrightarrow> Q r) \<Longrightarrow> follows m xs A Q"
  by (auto simp: follows_def)

lemma follows_bind:
  assumes m: "follows m xs A P" and f: "\<And>r'. P r' \<Longrightarrow> follows (f r') (input r') B Q"
  shows "follows (run_bind m (\<lambda>(e, r'). if e \<noteq> RYM_OK then Ret (e, r') else f r')) xs (A @ B) Q"
  unfolding follows_def
proof (intro conjI allI impI)
  fix ys assume "xs = (A @ B) @ ys"
  then obtain r' where "m = Ret (RYM_OK, r')" "input r' = B @ ys" "P r'"
    using followsD(1) [OF m, of "B @ ys"] by auto
  with followsD(1) [OF f [OF this(3)], of ys]
  show "\<exists>r'. run_bind m (\<lambda>(e, r'). if e \<noteq> RYM_OK then Ret (e, r') else f r') = Ret (RYM_OK, r')
      \<and> input r' = ys \<and> Q r'" by simp
next
  fix n assume n: "n < length (A @ B)" and xs: "xs = take n (A @ B)"
  show "run_bind m (\<lambda>(e, r'). if e \<noteq> RYM_OK then Ret (e, r') else f r') = Stuck"
  proof (cases "n < length A")
    case True
    with followsD(2) [OF m True] xs show ?thesis by simp
  next
    case False
    then obtain r' where r': "m = Ret (RYM_OK, r')" "input r' = take (n - length A) B" "P r'"
      using followsD(1) [OF m, of "take (n - length A) B"] xs by auto
    have "n - length A < length B" using n False by simp
    from followsD(2) [OF f [OF r'(3)] this r'(2)] r'(1) show ?thesis by simp
  qed
next
  fix n a ys assume n: "n < length (A @ B)" and xs: "xs = take n (A @ B) @ a # ys \<and> a \<noteq> (A @ B) ! n"
  show "\<exists>r'. run_bind m (\<lambda>(e, r'). if e \<noteq> RYM_OK then Ret (e, r') else f r') = Ret (RYM_ERR_ACK, r')
      \<and> input r' = ys"
  proof (cases "n < length A")
    case True
    with followsD(3) [OF m True, of a ys] xs show ?thesis by (auto simp: nth_append)
  next
    case False
    then obtain r' where r': "m = Ret (RYM_OK, r')" "input r' = take (n - length A) B @ a # ys" "P r'"
      using followsD(1) [OF m, of "take (n - length A) B @ a # ys"] xs by auto
    have "n - length A < length B" using n False by simp
    from followsD(3) [OF f [OF r'(3)] this r'(2)] r'(1) xs False show ?thesis by (simp add: nth_append)
  qed
qed

lemma follows_wrap:
  assumes m: "follows m xs A P" and g: "\<And>r. input (g r) = input r" and "\<And>r. P r \<Longrightarrow> Q (g r)"
  shows "follows (run_bind m (\<lambda>(e, r). Ret (e, g r))) xs A Q"
  unfolding follows_def
proof (intro conjI allI impI)
  fix ys assume "xs = A @ ys"
  from followsD(1) [OF m this] assms(3) show
    "\<exists>r'. run_bind m (\<lambda>(e, r). Ret (e, g r)) = Ret (RYM_OK, r') \<and> input r' = ys \<and> Q r'"
    by (auto simp: g)
next
  fix n assume "n < length A" "xs = take n A"
  from followsD(2) [OF m this] show "run_bind m (\<lambda>(e, r). Ret (e, g r)) = Stuck" by simp
next
  fix n a ys assume n: "n < length A" and xs: "xs = take n A @ a # ys \<and> a \<noteq> A ! n"
  from followsD(3) [OF m n, of a ys] xs show
    "\<exists>r'. run_bind m (\<lambda>(e, r). Ret (e, g r)) = Ret (RYM_ERR_ACK, r') \<and> input r' = ys"
    by (auto simp: g)
qed

lemma getchar_follows:
  assumes "c < 256"
  shows "follows (expect c r (\<lambda>r1. Ret (RYM_OK, r1))) (input r) [word_of_nat c] (same r)"
proof -
  have c: "unat (word_of_nat c :: u8) = c" using assms by (simp add: unat_of_nat take_bit_nat_eq_self)
  show ?thesis
  proof (cases "input r")
    case Nil
    then show ?thesis by (simp add: follows_def expect_def getchar_stuck)
  next
    case (Cons b bs)
    then obtain r1 where "rym_getchar r = Ret (unat b, r1)" "input r1 = bs" "same r r1"
      using getchar_next by blast
    moreover have "unat b = c \<longleftrightarrow> b = word_of_nat c" using c by (metis word_unat_eq_iff)
    ultimately show ?thesis using Cons by (simp add: follows_def expect_def)
  qed
qed

lemma follows_expect:
  assumes "c < 256" and "\<And>r1. same r r1 \<Longrightarrow> follows (f r1) (input r1) B Q"
  shows "follows (expect c r f) (input r) (word_of_nat c # B) Q"
proof -
  have "expect c r f = run_bind (expect c r (\<lambda>r1. Ret (RYM_OK, r1)))
      (\<lambda>(e, r'). if e \<noteq> RYM_OK then Ret (e, r') else f r')"
    by (cases "rym_getchar r") (auto simp: expect_def)
  with follows_bind [OF getchar_follows [OF assms(1)] assms(2)] show ?thesis by simp
qed

lemma send_loop_expect:
  "rym_send_loop cbs index r =
     run_bind (rym_call (on_data cbs) RYM_CODE_SOH 128 r) (\<lambda>(c, r1).
       if c \<noteq> RYM_CODE_SOH then Ret (RYM_ERR_CODE, r1)
       else expect RYM_CODE_ACK (set_rx_ind (rym_send_packet RYM_CODE_SOH (ucast index) r1)) (\<lambda>r2.
         if rym_stage r2 = RYM_STAGE_FINISHING then Ret (RYM_OK, r2)
         else rym_send_loop cbs (index + 1) r2))"
proof -
  have n: "SOH_PKG_SZ - 5 = 128" by (simp add: SOH_PKG_SZ_def)
  show ?thesis
    unfolding rym_send_loop.simps [of cbs index r] n expect_def
    by (auto split: run.splits prod.splits)
qed

section \<open>The first and the last packet\<close>

lemma same_mdelay: "same r (rym_mdelay d r)"
  by (simp add: same_def rym_mdelay_def split: prod.splits)

lemma first_packet_at_once:
  assumes "flowing r" and "input r = bs @ rest" and "length bs = len" and "0 < len"
    and "len < length (rym_buf r)" and "unat (rym_now r) + 100 < 2 ^ 32"
  shows "\<exists>r'. rym_first_packet (rym_now r) len 0 r = Some (len, r') \<and> flowing r' \<and> input r' = rest
    \<and> same (put_buf 1 bs r) r'"
proof -
  obtain r1 where rd: "rym_read_data len r = (len, r1)" and r1: "input r1 = rest" "flowing r1"
    "same (put_buf 1 bs r) r1"
    using read_data_flowing [OF assms(1,2,3,5)] by metis
  have "unat (rym_now r + 100) = unat (rym_now r) + 100"
    using assms(6) by (subst unat_add_lem [THEN iffD1]) simp_all
  then have "rym_now r \<le> rym_now r + 100" by (simp add: word_le_nat_alt)
  then have "rym_first_packet (rym_now r) len 0 r = Some (len, rym_mdelay 5 r1)"
    using rd assms(4)
    by (simp add: rym_first_packet.simps [of _ _ 0] rym_first_packet.simps [of _ _ len])
  with r1 show ?thesis
    using flowing_mdelay [of r1 5] same_trans [OF _ same_mdelay, of _ r1 5] by auto
qed

lemma recv_handshake_reads:
  assumes "flowing r" and "input r = word_of_nat code # tl (packet 0 d) @ rest"
    and "code = RYM_CODE_SOH \<and> length d = 128 \<or> code = RYM_CODE_STX \<and> length d = 1024"
    and "length (rym_buf r) = 1029" and "unat (rym_now r) + 3100 < 2 ^ 32"
  obtains r1 where "flowing r1" and "input r1 = rest"
    and "rym_sent r1 = rym_sent r @ [word_of_nat RYM_CODE_C]" and "rym_user r1 = rym_user r"
    and "length (rym_buf r1) = 1029" and "take (length d) (drop 3 (rym_buf r1)) = d"
    and "rym_do_handshake cbs (Suc n) r =
      run_bind (rym_call (on_begin cbs) RYM_CODE_ACK (length d) r1)
        (\<lambda>(c, r2). Ret (if c \<noteq> RYM_CODE_ACK then RYM_ERR_CAN else RYM_OK, r2))"
proof -
  let ?hi = "ucast (drop_bit 8 (CRC16 d)) :: u8" and ?lo = "ucast (CRC16 d) :: u8"
  let ?t = "0 # NOT 0 # d @ [?hi, ?lo]"
  let ?sz = "length d + 5"
  have code: "unat (word_of_nat code :: u8) = code" and le: "length d \<le> 1024" "0 < length d"
    using assms(3) by (auto simp: rym_codes)
  let ?r0 = "rym_putchar RYM_CODE_C (r\<lparr>rym_stage := RYM_STAGE_ESTABLISHING\<rparr>)"
  have i0: "input ?r0 = word_of_nat code # ?t @ rest" and fl: "flowing ?r0"
    using assms(1,2) by (simp_all add: packet_def)
  have now0: "rym_now ?r0 = rym_now r" by (simp add: rym_putchar_def rym_write_def)
  obtain r1 k where rd: "rym_read_code 3000 ?r0 = (code, r1)"
    and r1: "input r1 = ?t @ rest" "flowing r1" "k \<le> 3000" "rym_now r1 = rym_now r + word_of_nat k"
      "same (put_buf 0 [word_of_nat code] ?r0) r1"
    using read_code_flowing [OF fl i0] unfolding now0
    using code by metis
  have b1: "length (rym_buf r1) = 1029"
    using r1(5) assms(4) by (simp add: same_def put_buf_def rym_putchar_def rym_write_def)
  have "unat (rym_now r1) \<le> unat (rym_now r) + 3000"
  proof -
    have "unat (word_of_nat k :: u32) = k" using r1(3) by (simp add: unat_of_nat take_bit_nat_eq_self)
    then show ?thesis unfolding r1(4) using r1(3)
      by (auto simp add: unat_plus_if')
  qed
  then have now1: "unat (rym_now r1) + 100 < 2 ^ 32" using assms(5) by linarith
  have lt: "length ?t = length d + 4" by simp
  obtain r2 where fp: "rym_first_packet (rym_now r1) (length d + 4) 0 r1 = Some (length d + 4, r2)"
    and r2: "flowing r2" "input r2 = rest" "same (put_buf 1 ?t r1) r2"
    using first_packet_at_once [OF r1(2,1) lt _ _ now1] b1 le by auto
  note pp = put_packet [OF b1 le(1), of 0 "NOT 0" ?hi ?lo]
  have b2: "rym_buf r2 = rym_buf (put_buf 1 ?t r1)" using r2(3) by (simp add: same_def)
  have ff: "NOT 0 = (0xFF :: u8)" by code_simp
  have f: "rym_buf r2 ! 1 = 0" "rym_buf r2 ! 2 = 0xFF" "take (length d) (drop 3 (rym_buf r2)) = d"
    using pp(1-3) unfolding b2 by (simp_all only: ff)
  have crc: "recv_crc (length d + 3) r2 = CRC16 d"
    using pp(4) crc_bytes [of "CRC16 d"] by (simp add: recv_crc_def b2)
  have sizes: "?sz - 1 = length d + 4" "?sz - 2 = length d + 3" "?sz - 5 = length d"
    by simp_all
  have cs: "rym_call_sender (Suc n) (r\<lparr>rym_stage := RYM_STAGE_ESTABLISHING\<rparr>) = (Some ?sz, r1)"
    using rd assms(3) by (auto simp: RYM_CHD_INTV_TICK_def rym_sizes rym_codes)
  have "rym_do_handshake cbs (Suc n) r = run_bind (rym_call (on_begin cbs) RYM_CODE_ACK (length d) r2)
      (\<lambda>(c, r2). Ret (if c \<noteq> RYM_CODE_ACK then RYM_ERR_CAN else RYM_OK, r2))"
    unfolding rym_do_handshake_def cs prod.case option.case sizes fp by (simp add: f [simplified] crc)
  moreover have "length (rym_buf r2) = 1029" "take (length d) (drop 3 (rym_buf r2)) = d"
    using pp(5) f(3) by (simp_all add: b2)
  moreover have "rym_sent r2 = rym_sent r @ [word_of_nat RYM_CODE_C]" "rym_user r2 = rym_user r"
    using r2(3) r1(5) by (simp_all add: same_def put_buf_def rym_putchar_def rym_write_def)
  ultimately show ?thesis using that [of r2] r2 by blast
qed

lemma unat_line_codes [simp]:
  "unat (word_of_nat RYM_CODE_SOH :: u8) = RYM_CODE_SOH"
  "unat (word_of_nat RYM_CODE_EOT :: u8) = RYM_CODE_EOT"
  by (simp_all add: rym_codes)

lemma fin_packet_last:
  assumes "flowing r" and "input r = tl (packet 0 (replicate 128 0)) @ rest" and "length (rym_buf r) = 1029"
  obtains r' where "fin_packet cbs n r = Ret (RYM_OK, r')" and "rym_stage r' = RYM_STAGE_FINISHED"
    and "input r' = rest" and "rym_sent r' = rym_sent r @ [word_of_nat RYM_CODE_ACK]"
    and "rym_user r' = rym_user r"
proof -
  let ?d = "replicate 128 0 :: u8 list"
  let ?hi = "ucast (drop_bit 8 (CRC16 ?d)) :: u8" and ?lo = "ucast (CRC16 ?d) :: u8"
  let ?t = "0 # NOT 0 # ?d @ [?hi, ?lo]"
  have i: "input r = ?t @ rest" using assms(2) by (simp add: packet_def)
  have lt: "length ?t = 132" by simp
  obtain r2 where rd: "rym_read_data 132 r = (132, r2)" and r2: "input r2 = rest" "flowing r2"
    "same (put_buf 1 ?t r) r2"
    using read_data_flowing [OF assms(1) i lt] assms(3) by auto
  have l: "length ?d \<le> 1024" by simp
  note pp = put_packet [OF assms(3) l, of 0 "NOT 0" ?hi ?lo]
  have b2: "rym_buf r2 = rym_buf (put_buf 1 ?t r)" using r2(3) by (simp add: same_def)
  have ff: "NOT 0 = (0xFF :: u8)" by code_simp
  have f: "rym_buf r2 ! 1 = 0" "rym_buf r2 ! 2 = 0xFF"
    using pp(1-2) unfolding b2 by (simp_all only: ff)
  have f3: "take 128 (drop 3 (rym_buf r2)) = ?d"
    using pp(3) unfolding b2 by simp
  have f4: "rym_buf r2 ! 3 = 0"
  proof -
    have "length (rym_buf r2) = 1029" using pp(5) by (simp only: b2)
    then have "rym_buf r2 ! 3 = take 128 (drop 3 (rym_buf r2)) ! 0" by simp
    then show ?thesis unfolding f3 by simp
  qed
  have crc: "recv_crc 131 r2 = CRC16 ?d"
    using pp(4) crc_bytes [of "CRC16 ?d"] by (simp add: recv_crc_def b2)
  have sizes: "SOH_PKG_SZ - 1 = 132" "SOH_PKG_SZ - 2 = 131" "SOH_PKG_SZ - 5 = 128"
    by (simp_all add: SOH_PKG_SZ_def)
  let ?r' = "rym_putchar RYM_CODE_ACK (r2\<lparr>rym_stage := RYM_STAGE_FINISHED\<rparr>)"
  have "fin_packet cbs n r = Ret (RYM_OK, ?r')"
    by (simp add: fin_packet_def sizes [simplified] rd f [simplified] f3 f4 crc)
  moreover have "input ?r' = rest" using r2(1) by simp
  moreover have "rym_stage ?r' = RYM_STAGE_FINISHED"
    "rym_sent ?r' = rym_sent r @ [word_of_nat RYM_CODE_ACK]" "rym_user ?r' = rym_user r"
    using r2(3) by (simp_all add: same_def put_buf_def rym_putchar_def rym_write_def)
  ultimately show ?thesis using that [of ?r'] by blast
qed

lemma do_fin_last:
  assumes "flowing r" and "input r = word_of_nat RYM_CODE_EOT # packet 0 (replicate 128 0) @ rest"
    and "length (rym_buf r) = 1029" and "on_end cbs = Some f"
    and "f 128 (RYM_STAGE_FINISHING, rym_buf r, rym_user r) = Ret (c0, RYM_STAGE_FINISHING, rym_buf r, u')"
  obtains r' where "rym_do_fin cbs r = Ret (RYM_OK, r')" and "rym_stage r' = RYM_STAGE_FINISHED"
    and "input r' = rest" and "rym_user r' = u'"
    and "rym_sent r' = rym_sent r @ map word_of_nat [RYM_CODE_NAK, RYM_CODE_ACK, RYM_CODE_C, RYM_CODE_ACK]"
proof -
  let ?p = "packet 0 (replicate 128 0)"
  let ?r0 = "r\<lparr>rym_stage := RYM_STAGE_FINISHING, rym_buf := rym_buf r, rym_user := u'\<rparr>"
  let ?ra = "rym_putchar RYM_CODE_NAK ?r0"
  have ia: "input ?ra = word_of_nat RYM_CODE_EOT # ?p @ rest" "flowing ?ra" using assms(1,2) by simp_all
  obtain r1 where rd1: "rym_read_code 3000 ?ra = (unat (word_of_nat RYM_CODE_EOT :: u8), r1)"
    and r1: "input r1 = ?p @ rest" "flowing r1" "same (put_buf 0 [word_of_nat RYM_CODE_EOT] ?ra) r1"
    using read_code_flowing [OF ia(2,1)] by metis
  let ?rb = "rym_putchar RYM_CODE_C (rym_putchar RYM_CODE_ACK r1)"
  have ib: "input ?rb = word_of_nat RYM_CODE_SOH # tl ?p @ rest" "flowing ?rb"
    using r1 by (simp_all add: packet_def)
  obtain r2 where rd2: "rym_read_code 3000 ?rb = (unat (word_of_nat RYM_CODE_SOH :: u8), r2)"
    and r2: "input r2 = tl ?p @ rest" "flowing r2" "same (put_buf 0 [word_of_nat RYM_CODE_SOH] ?rb) r2"
    using read_code_flowing [OF ib(2,1)] by metis
  have keep: "length (rym_buf r2) = 1029" "rym_user r2 = u'"
    "rym_sent r2 = rym_sent r @ map word_of_nat [RYM_CODE_NAK, RYM_CODE_ACK, RYM_CODE_C]"
    using r2(3) r1(3) assms(3) by (simp_all add: same_def put_buf_def rym_putchar_def rym_write_def)
  obtain r' where "fin_packet cbs SOH_PKG_SZ r2 = Ret (RYM_OK, r')" and r': "rym_stage r' = RYM_STAGE_FINISHED"
    "input r' = rest" "rym_sent r' = rym_sent r2 @ [word_of_nat RYM_CODE_ACK]" "rym_user r' = rym_user r2"
    using fin_packet_last [OF r2(2,1) keep(1)] by metis
  moreover have "rym_do_fin cbs r = fin_packet cbs SOH_PKG_SZ r2"
    using assms(4,5) rd1 rd2
    by (simp add: rym_do_fin_def rym_call_def RYM_WAIT_PKG_TICK_def)
  ultimately show ?thesis using that [of r'] keep by simp
qed

section \<open>Properties\<close>

text \<open>C14: 
  a data packet that was damaged on the line, its flipped bits within 16 in a row or odd in number, is
  refused with the checksum error: the callback that writes the file is not called, and no
  acknowledgement is sent.
\<close>

theorem damaged_packet_rejected:
  assumes "sealed d hi lo" and "length d' = length d" and "length d \<le> 1024"
    and "burst_or_odd (flips (d @ [hi, lo]) (d' @ [hi', lo']))"
    and "flowing r" and "input r = (i # NOT i # d' @ [hi', lo']) @ rest" and "length (rym_buf r) = 1029"
    and "rym_stage r \<noteq> RYM_STAGE_ESTABLISHED \<or> i \<noteq> 0"
  shows "\<exists>r'. rym_trans_data cbs (length d) code r = Ret (RYM_ERR_CRC, code, r')
    \<and> rym_user r' = rym_user r \<and> rym_sent r' = rym_sent r \<and> input r' = rest"
proof -
  have "length d' \<le> 1024" "\<not> sealed d' hi' lo'"
    using assms(1-4) crc_finds_damage by auto
  then show ?thesis
    using trans_data_reads [OF assms(5,6) _ assms(7,8), of cbs code] assms(2) by (metis (no_types))
qed

text \<open>A line on which these bytes are waiting.\<close>

definition quiet_line :: "'u \<Rightarrow> u8 list \<Rightarrow> 'u rym" where
  "quiet_line u bs = \<lparr>rym_stage = RYM_STAGE_NONE, rym_buf = replicate 1029 0, rx_sem = 0, rx_fifo = bs,
     arrivals = [], rym_now = 0, rym_sent = [], rym_the_ctx = False, dev_flag = 0,
     dev_rx_ind = Other_Rx_Ind 0, rym_user = u\<rparr>"

lemma quiet_line_simps [simp]:
  "input (quiet_line u bs) = bs" "flowing (quiet_line u bs)" "length (rym_buf (quiet_line u bs)) = 1029"
  "rym_stage (quiet_line u bs) = RYM_STAGE_NONE" "rym_sent (quiet_line u bs) = []"
  "\<not> rym_the_ctx (quiet_line u bs)" "rym_now (quiet_line u bs) = 0" "rym_user (quiet_line u bs) = u"
  "prompt (quiet_line u bs) \<longleftrightarrow> bs \<noteq> []"
  by (simp_all add: quiet_line_def input_def flowing_def prompt_def)

theorem damaged_packet_rejected_witness:
  "\<exists>r'. rym_trans_data \<lparr>on_begin = None, on_data = None, on_end = None\<rparr> 3 RYM_CODE_SOH
      (quiet_line () [1, NOT 1, 1, 2, 7, 0x61, 0x31]) = Ret (RYM_ERR_CRC, RYM_CODE_SOH, r')
    \<and> rym_sent r' = []"
proof -
  have "sealed [1, 2, 3] 0x61 0x31" by code_simp
  moreover have "burst_or_odd (flips ([1, 2, 3] @ [0x61, 0x31]) ([1, 2, 7] @ [0x61, 0x31]))" by code_simp
  ultimately show ?thesis
    using damaged_packet_rejected [of "[1, 2, 3]" "0x61" "0x31" "[1, 2, 7]" "0x61" "0x31"
        "quiet_line () [1, NOT 1, 1, 2, 7, 0x61, 0x31]" 1 "[]"
        "\<lparr>on_begin = None, on_data = None, on_end = None\<rparr>" RYM_CODE_SOH]
    by (auto simp: eval_nat_numeral)
qed

end
