(* ===== verification/Ymodem_Buffer.thy ===== *)
theory Ymodem_Buffer
  imports Ymodem
begin

text \<open>
  The block of 1029 bytes that a Y-modem session allocates. The engine never writes outside it and
  none of its assertions fails, whatever the peer sends, if the callbacks keep to the protocol that
  the locale \<open>rym_client\<close> states: a begin that succeeds makes the client busy, data keep it busy, an
  end makes it idle, and none of them leaves the block. The bytes the peer may send are a parameter,
  as a client need not be ready for a first packet of 1024 bytes when \<open>STX\<close> is not among them.
\<close>

locale rym_client =
  fixes cbs :: "'u rym_callbacks"
    and f_begin f_data f_end :: "'u rym_callback"
    and B :: "u8 set"
    and idle busy :: "'u \<Rightarrow> bool"
  assumes callbacks: "cbs = \<lparr>on_begin = Some f_begin, on_data = Some f_data, on_end = Some f_end\<rparr>"
    and begin_keeps: "len = 128 \<or> len = 1024 \<and> word_of_nat RYM_CODE_STX \<in> B \<Longrightarrow> length buf = 1029 \<Longrightarrow> idle u \<Longrightarrow>
      \<exists>c st' buf' u'. f_begin len (st, buf, u) = Ret (c, st', buf', u') \<and> length buf' = 1029
        \<and> (c \<in> {RYM_CODE_ACK, RYM_CODE_SOH} \<longrightarrow> busy u')"
    and data_keeps: "len = 128 \<or> len = 1024 \<Longrightarrow> length buf = 1029 \<Longrightarrow> busy u \<Longrightarrow>
      \<exists>c st' buf' u'. f_data len (st, buf, u) = Ret (c, st', buf', u') \<and> length buf' = 1029 \<and> busy u'"
    and end_keeps: "length buf = 1029 \<Longrightarrow> busy u \<Longrightarrow>
      \<exists>c st' buf' u'. f_end 128 (st, buf, u) = Ret (c, st', buf', u') \<and> length buf' = 1029 \<and> idle u'"

definition in_bounds :: "u8 set \<Rightarrow> ('u \<Rightarrow> bool) \<Rightarrow> 'u rym \<Rightarrow> bool" where
  "in_bounds B uok r \<longleftrightarrow> length (rym_buf r) = 1029 \<and> uok (rym_user r) \<and> set (input r) \<subseteq> B"

lemma in_bounds_weaken: "in_bounds B uok r \<Longrightarrow> in_bounds B (\<lambda>_. True) r"
  by (simp add: in_bounds_def)

lemma in_bounds_simps [simp]:
  "in_bounds B uok (rym_write bs r) = in_bounds B uok r" "in_bounds B uok (rym_putchar k r) = in_bounds B uok r"
  "in_bounds B uok (set_rx_ind r) = in_bounds B uok r" "in_bounds B uok (r\<lparr>rym_stage := st\<rparr>) = in_bounds B uok r"
  "in_bounds B uok (rym_mdelay d r) = in_bounds B uok r"
proof -
  show "in_bounds B uok (rym_mdelay d r) = in_bounds B uok r"
    unfolding in_bounds_def input_mdelay by (simp add: rym_mdelay_def split: prod.splits)
qed (simp_all add: in_bounds_def, simp_all add: rym_write_def rym_putchar_def set_rx_ind_def)

lemma in_bounds_put_buf:
  "in_bounds B uok r \<Longrightarrow> i + length bs \<le> 1029 \<Longrightarrow> in_bounds B uok (put_buf i bs r)"
  by (simp add: in_bounds_def put_buf_def)

lemma in_bounds_send_packet: "in_bounds B uok r \<Longrightarrow> in_bounds B uok (rym_send_packet k i r)"
  by (simp add: rym_send_packet_def Let_def in_bounds_put_buf)

lemma in_bounds_sem_take: "rym_sem_take t r = (b, r') \<Longrightarrow> in_bounds B uok r' = in_bounds B uok r"
  using input_sem_take [of t r] by (auto simp: rym_sem_take_def in_bounds_def split: if_splits list.splits)

lemma in_bounds_read: "rym_read n r = (bs, r') \<Longrightarrow> in_bounds B uok r \<Longrightarrow> in_bounds B uok r' \<and> length bs \<le> n"
  using rym_read_input [of n r bs r'] set_append [of bs "input r'"] by (auto simp: rym_read_def in_bounds_def)

lemma in_bounds_getchar: "rym_getchar r = Ret (k, r') \<Longrightarrow> in_bounds B uok r \<Longrightarrow> in_bounds B uok r'"
proof (induction r rule: rym_getchar.induct)
  case (1 r)
  obtain bs r1 where rd: "rym_read 1 r = (bs, r1)" by (cases "rym_read 1 r")
  show ?case
  proof (cases "length bs = 1")
    case True
    then show ?thesis using 1(2) rd in_bounds_read [OF rd 1(3)] by (simp add: rym_getchar.simps [of r])
  next
    case False
    obtain r2 where s: "rym_sem_take_forever r1 = Some r2" and g: "rym_getchar r2 = Ret (k, r')"
      using 1(2) rd False by (auto simp: rym_getchar.simps [of r] split: option.splits)
    have "in_bounds B uok r2 = in_bounds B uok r1"
      using s input_sem_take_forever [OF s]
      by (auto simp: rym_sem_take_forever_def in_bounds_def split: if_splits list.splits)
    then show ?thesis
      using 1(1) [OF rd [symmetric] refl False s g] in_bounds_read [OF rd 1(3)] by blast
  qed
qed

lemma in_bounds_wait_code: "rym_wait_code t r = (k, r') \<Longrightarrow> in_bounds B uok r \<Longrightarrow> in_bounds B uok r'"
proof (induction t r rule: rym_wait_code.induct)
  case (1 t r)
  obtain ok r1 where t: "rym_sem_take t r = (ok, r1)" by (cases "rym_sem_take t r")
  obtain bs r2 where rd: "rym_read 1 r1 = (bs, r2)" by (cases "rym_read 1 r1")
  have b: "in_bounds B uok r1" "in_bounds B uok r2"
    using in_bounds_sem_take [OF t] in_bounds_read [OF rd] 1(3) by simp_all
  show ?case
  proof (cases "ok \<and> length bs \<noteq> 1")
    case True
    then have "rym_wait_code t r2 = (k, r')"
      using 1(2) t rd by (simp add: rym_wait_code.simps [of t r])
    from 1(1) [OF refl t [symmetric] _ refl rd [symmetric] _ this b(2)] True show ?thesis by simp
  next
    case False
    then have "r' = r1 \<or> length bs = 1 \<and> r' = put_buf 0 bs r2"
      using 1(2) t rd by (cases ok) (auto simp: rym_wait_code.simps [of t r])
    then show ?thesis using b in_bounds_put_buf [of B uok r2 0 bs] by auto
  qed
qed

lemma in_bounds_read_code:
  assumes "rym_read_code t r = (k, r')" and "in_bounds B uok r"
  shows "in_bounds B uok r'"
proof -
  obtain bs r1 where rd: "rym_read 1 r = (bs, r1)" by (cases "rym_read 1 r")
  have "in_bounds B uok r1" using in_bounds_read [OF rd] assms(2) by simp
  then show ?thesis
    using assms(1) rd in_bounds_wait_code [of t r1 k r'] in_bounds_put_buf [of B uok r1 0 bs]
    by (auto simp: rym_read_code_def split: if_splits)
qed

lemma in_bounds_read_loop:
  "rym_read_loop len k r = (m, r') \<Longrightarrow> len \<le> 1028 \<Longrightarrow> k \<le> len \<Longrightarrow> in_bounds B uok r \<Longrightarrow> in_bounds B uok r'"
proof (induction len k r rule: rym_read_loop.induct)
  case (1 len k r)
  obtain bs r1 where rd: "rym_read (len - k) r = (bs, r1)" by (cases "rym_read (len - k) r")
  let ?r2 = "put_buf (1 + k) bs r1"
  obtain ok r3 where t: "rym_sem_take RYM_WAIT_CHR_TICK ?r2 = (ok, r3)"
    by (cases "rym_sem_take RYM_WAIT_CHR_TICK ?r2")
  have b: "in_bounds B uok ?r2"
    using in_bounds_read [OF rd, of B uok] 1(3-5) by (intro in_bounds_put_buf) auto
  then have b3: "in_bounds B uok r3" using in_bounds_sem_take [OF t] by simp
  show ?case
  proof (cases "\<not> len \<le> k + length bs \<and> ok")
    case True
    then have "rym_read_loop len (k + length bs) r3 = (m, r')"
      using 1(2) rd t by (simp add: rym_read_loop.simps [of len k r])
    with 1(1) [OF refl rd [symmetric] refl refl _ refl t [symmetric] _ this 1(3) _ b3] True
    show ?thesis by auto
  next
    case False
    then show ?thesis
      using 1(2) rd t b b3 by (auto simp: rym_read_loop.simps [of len k r] Let_def split: if_splits)
  qed
qed

lemma in_bounds_read_data:
  "rym_read_data len r = (m, r') \<Longrightarrow> len \<le> 1028 \<Longrightarrow> in_bounds B uok r \<Longrightarrow> in_bounds B uok r'"
  by (auto simp: rym_read_data_def dest: in_bounds_read_loop)

lemma in_bounds_first_packet:
  assumes "rym_first_packet tck len i r = Some (m, r')" and "len \<le> 1028" and "in_bounds B uok r"
  shows "in_bounds B uok r'"
proof -
  have "len \<le> 1028 \<longrightarrow> in_bounds B uok r \<longrightarrow> in_bounds B uok (snd (m, r'))"
  proof (rule rym_first_packet.raw_induct [where P = "\<lambda>tck len i r x. len \<le> 1028 \<longrightarrow>
      in_bounds B uok r \<longrightarrow> in_bounds B uok (snd x)", OF _ assms(1)], intro impI)
    fix f tck len i and r :: "'a rym" and x
    assume f: "\<And>tck len i r x. f tck len i r = Some x \<Longrightarrow> len \<le> 1028 \<longrightarrow> in_bounds B uok r \<longrightarrow> in_bounds B uok (snd x)"
      and x: "(if rym_now r \<le> tck + 100 \<and> i < len
        then f tck len (i + fst (rym_read_data len r)) (rym_mdelay 5 (snd (rym_read_data len r)))
        else Some (i, r)) = Some x"
      and len: "len \<le> 1028" and r: "in_bounds B uok r"
    have "in_bounds B uok (snd (rym_read_data len r))"
      by (cases "rym_read_data len r") (use in_bounds_read_data len r in auto)
    then show "in_bounds B uok (snd x)"
      using f [of tck len "i + fst (rym_read_data len r)" "rym_mdelay 5 (snd (rym_read_data len r))" x] x len r
      by (auto split: if_splits)
  qed
  with assms show ?thesis by simp
qed

text \<open>
  Every way a call ends is in order: it does not fault, it returns with the block as long as it was,
  and when it reports success, \<open>ok\<close> holds of the state.
\<close>

definition safe_run :: "u8 set \<Rightarrow> ('u rym \<Rightarrow> bool) \<Rightarrow> (rym_err \<times> 'u rym) run \<Rightarrow> bool" where
  "safe_run B ok m \<longleftrightarrow> (case m of
     Ret (e, r) \<Rightarrow> in_bounds B (\<lambda>_. True) r \<and> (e = RYM_OK \<longrightarrow> ok r) | Stuck \<Rightarrow> True | Fault \<Rightarrow> False)"

lemma safe_run_simps [simp]:
  "safe_run B ok (Ret (e, r)) \<longleftrightarrow> in_bounds B (\<lambda>_. True) r \<and> (e = RYM_OK \<longrightarrow> ok r)"
  "safe_run B ok Stuck" "\<not> safe_run B ok Fault"
  by (simp_all add: safe_run_def)

lemma safe_run_bind:
  "safe_run B ok m \<Longrightarrow> (\<And>e r. in_bounds B (\<lambda>_. True) r \<Longrightarrow> (e = RYM_OK \<Longrightarrow> ok r) \<Longrightarrow> safe_run B ok' (f (e, r))) \<Longrightarrow>
    safe_run B ok' (run_bind m f)"
  by (cases m) (auto simp: safe_run_def)

lemma safe_runD:
  "safe_run B ok m \<Longrightarrow> m = Ret (e, r') \<Longrightarrow> in_bounds B (\<lambda>_. True) r' \<and> (e = RYM_OK \<longrightarrow> ok r')"
  by (simp add: safe_run_def)

lemma getchar_no_fault: "rym_getchar r \<noteq> Fault"
  by (induction r rule: rym_getchar.induct) (auto simp: rym_getchar.simps split: prod.splits option.splits)

lemma safe_expect:
  assumes "in_bounds B uok r" and "\<And>r1. in_bounds B uok r1 \<Longrightarrow> safe_run B ok (f r1)"
  shows "safe_run B ok (expect k r f)"
  using assms in_bounds_getchar [of r _ _ B uok] in_bounds_weaken getchar_no_fault [of r]
  by (cases "rym_getchar r") (auto simp: expect_def)

lemma in_bounds_call_sender:
  "rym_call_sender n r = (sz, r') \<Longrightarrow> in_bounds B uok r \<Longrightarrow>
    in_bounds B uok r' \<and> (sz = None \<or> sz = Some SOH_PKG_SZ \<or> sz = Some STX_PKG_SZ \<and> word_of_nat RYM_CODE_STX \<in> B)"
proof (induction n arbitrary: r)
  case (Suc n)
  obtain k r1 where rd: "rym_read_code RYM_CHD_INTV_TICK (rym_putchar RYM_CODE_C r) = (k, r1)"
    by (cases "rym_read_code RYM_CHD_INTV_TICK (rym_putchar RYM_CODE_C r)")
  then have "in_bounds B uok r1" using in_bounds_read_code [OF rd] Suc.prems(2) by simp
  moreover have "word_of_nat RYM_CODE_STX \<in> B" if "k = RYM_CODE_STX"
    using read_code_input [OF rd] that Suc.prems(2) by (simp add: in_bounds_def rym_codes)
  ultimately show ?case using Suc rd by (auto split: if_splits)
qed simp

lemma in_bounds_wait_peer: "rym_wait_peer n r = (b, r') \<Longrightarrow> in_bounds B uok r \<Longrightarrow> in_bounds B uok r'"
proof (induction n arbitrary: r)
  case (Suc n)
  obtain k r1 where rd: "rym_read_code RYM_CHD_INTV_TICK r = (k, r1)"
    by (cases "rym_read_code RYM_CHD_INTV_TICK r")
  then show ?case using Suc in_bounds_read_code [OF rd Suc.prems(2)] by (auto split: if_splits)
qed simp

lemma in_bounds_put_cans: "in_bounds B uok (rym_put_cans r) = in_bounds B uok r"
proof -
  have "in_bounds B uok ((rym_putchar RYM_CODE_CAN ^^ n) r) = in_bounds B uok r" for n
    by (induction n) simp_all
  then show ?thesis by (simp add: rym_put_cans_def)
qed

context rym_client
begin

text \<open>A client that is busy or done with the last packet.\<close>

definition goes_on :: "'u rym \<Rightarrow> bool" where
  "goes_on r \<longleftrightarrow> in_bounds B busy r \<or> rym_stage r = RYM_STAGE_FINISHED"

lemma call_begin:
  assumes "len = 128 \<or> len = 1024 \<and> word_of_nat RYM_CODE_STX \<in> B" and "in_bounds B idle r"
  obtains c r' where "rym_call (on_begin cbs) k len r = Ret (c, r')" "in_bounds B (\<lambda>_. True) r'"
    "c \<in> {RYM_CODE_ACK, RYM_CODE_SOH} \<Longrightarrow> in_bounds B busy r'"
proof -
  obtain c st buf u where "f_begin len (rym_stage r, rym_buf r, rym_user r) = Ret (c, st, buf, u)"
    "length buf = 1029" "c \<in> {RYM_CODE_ACK, RYM_CODE_SOH} \<longrightarrow> busy u"
    using begin_keeps [OF assms(1)] assms(2) unfolding in_bounds_def by metis
  then show thesis
    using assms(2) by (intro that [of c "r\<lparr>rym_stage := st, rym_buf := buf, rym_user := u\<rparr>"])
      (auto simp: rym_call_def callbacks in_bounds_def)
qed

lemma call_data:
  assumes "len = 128 \<or> len = 1024" and "in_bounds B busy r"
  obtains c r' where "rym_call (on_data cbs) k len r = Ret (c, r')" "in_bounds B busy r'"
proof -
  obtain c st buf u where "f_data len (rym_stage r, rym_buf r, rym_user r) = Ret (c, st, buf, u)"
    "length buf = 1029" "busy u"
    using data_keeps [OF assms(1)] assms(2) unfolding in_bounds_def by metis
  then show thesis
    using assms(2) by (intro that [of c "r\<lparr>rym_stage := st, rym_buf := buf, rym_user := u\<rparr>"])
      (simp_all add: rym_call_def callbacks in_bounds_def)
qed

lemma call_end:
  assumes "in_bounds B busy r"
  obtains c r' where "rym_call (on_end cbs) k 128 r = Ret (c, r')" "in_bounds B idle r'"
proof -
  obtain c st buf u where "f_end 128 (rym_stage r, rym_buf r, rym_user r) = Ret (c, st, buf, u)"
    "length buf = 1029" "idle u"
    using end_keeps assms unfolding in_bounds_def by metis
  then show thesis
    using assms by (intro that [of c "r\<lparr>rym_stage := st, rym_buf := buf, rym_user := u\<rparr>"])
      (simp_all add: rym_call_def callbacks in_bounds_def)
qed

text \<open>The call of the begin callback at the end of a first packet.\<close>

lemma begin_safe:
  assumes "len = 128 \<or> len = 1024 \<and> word_of_nat RYM_CODE_STX \<in> B" and "in_bounds B idle r"
  shows "safe_run B (in_bounds B busy) (run_bind (rym_call (on_begin cbs) k len r)
    (\<lambda>(c, r2). Ret (if c \<noteq> RYM_CODE_ACK then RYM_ERR_CAN else RYM_OK, r2)))"
  by (rule call_begin [OF assms, of k]) auto

lemma handshake_safe:
  assumes "in_bounds B idle r"
  shows "safe_run B (in_bounds B busy) (rym_do_handshake cbs n r)"
proof -
  let ?r = "r\<lparr>rym_stage := RYM_STAGE_ESTABLISHING\<rparr>"
  obtain sz r1 where cs: "rym_call_sender n ?r = (sz, r1)" by (cases "rym_call_sender n ?r")
  have b1: "in_bounds B idle r1"
    and sz: "sz = None \<or> sz = Some SOH_PKG_SZ \<or> sz = Some STX_PKG_SZ \<and> word_of_nat RYM_CODE_STX \<in> B"
    using in_bounds_call_sender [OF cs] assms by simp_all
  show ?thesis
  proof (cases sz)
    case None
    then show ?thesis using cs in_bounds_weaken [OF b1] by (simp add: rym_do_handshake_def)
  next
    case (Some n)
    then have n: "n - 5 = 128 \<or> n - 5 = 1024 \<and> word_of_nat RYM_CODE_STX \<in> B" "n - 1 \<le> 1028"
      using sz by (auto simp: rym_sizes)
    show ?thesis
    proof (cases "rym_first_packet (rym_now r1) (n - 1) 0 r1")
      case (Some x)
      obtain i r2 where x: "x = (i, r2)" by (cases x)
      have b2: "in_bounds B idle r2" using in_bounds_first_packet [OF Some [unfolded x] n(2) b1] .
      show ?thesis
        using \<open>sz = Some n\<close> cs Some x in_bounds_weaken [OF b2] begin_safe [OF n(1) b2]
        by (simp add: rym_do_handshake_def)
    qed (use \<open>sz = Some n\<close> cs in \<open>simp add: rym_do_handshake_def\<close>)
  qed
qed

lemma trans_data_safe:
  assumes "in_bounds B busy r" and "len = 128 \<or> len = 1024"
  obtains e k' r' where "rym_trans_data cbs len k r = Ret (e, k', r')" "in_bounds B busy r'"
proof -
  obtain m r1 where rd: "rym_read_data (2 + len + 2) r = (m, r1)" by (cases "rym_read_data (2 + len + 2) r")
  have b: "in_bounds B busy r1" using in_bounds_read_data [OF rd] assms(1,2) by auto
  obtain c r2 where "rym_call (on_data cbs) RYM_CODE_ACK len (r1\<lparr>rym_stage := RYM_STAGE_TRANSMITTING\<rparr>) = Ret (c, r2)"
    "in_bounds B busy r2" by (rule call_data [OF assms(2), of "r1\<lparr>rym_stage := RYM_STAGE_TRANSMITTING\<rparr>"]) (use b in auto)
  then have "\<exists>e k' r'. rym_trans_data cbs len k r = Ret (e, k', r') \<and> in_bounds B busy r'"
    unfolding rym_trans_data_def Let_def rd prod.case using b by auto
  then show thesis using that by blast
qed

lemma recv_loop_safe: "in_bounds B busy r \<Longrightarrow> safe_run B (in_bounds B busy) (rym_recv_loop cbs r)"
proof (induction "length (input r)" arbitrary: r rule: less_induct)
  case less
  obtain k r1 where rd: "rym_read_code RYM_WAIT_PKG_TICK r = (k, r1)"
    by (cases "rym_read_code RYM_WAIT_PKG_TICK r")
  have b1: "in_bounds B busy r1" by (rule in_bounds_read_code [OF rd less.prems])
  show ?case
  proof (cases "k = RYM_CODE_EOT \<or> data_size k = None")
    case True
    then show ?thesis using rd b1 in_bounds_weaken [OF b1] by (auto simp: rym_recv_loop.simps [of cbs r])
  next
    case False
    then obtain n where n: "data_size k = Some n" and k: "k \<noteq> RYM_CODE_EOT" by auto
    then have n': "n = 128 \<or> n = 1024" by (auto simp: data_size_def split: if_splits)
    obtain e a r2 where t: "rym_trans_data cbs n k r1 = Ret (e, a, r2)" and b2: "in_bounds B busy r2"
      by (rule trans_data_safe [OF b1 n'])
    let ?r3 = "if a = RYM_CODE_ACK then rym_putchar RYM_CODE_ACK r2 else r2"
    have "length (input ?r3) < length (input r)" using block_shortens [OF rd n t] by simp
    then have "safe_run B (in_bounds B busy) (rym_recv_loop cbs ?r3)" using less.hyps b2 by simp
    then show ?thesis
      using rd n k t in_bounds_weaken [OF b2] by (simp add: rym_recv_loop.simps [of cbs r] in_bounds_put_cans)
  qed
qed

lemma fin_packet_safe:
  assumes "in_bounds B idle r" and "len = SOH_PKG_SZ \<or> len = STX_PKG_SZ \<and> word_of_nat RYM_CODE_STX \<in> B"
  shows "safe_run B goes_on (fin_packet cbs len r)"
proof -
  obtain m r1 where rd: "rym_read_data (SOH_PKG_SZ - 1) r = (m, r1)"
    by (cases "rym_read_data (SOH_PKG_SZ - 1) r")
  have b1: "in_bounds B idle r1"
    by (rule in_bounds_read_data [OF rd _ assms(1)]) (simp add: SOH_PKG_SZ_def)
  have len: "len - 5 = 128 \<or> len - 5 = 1024 \<and> word_of_nat RYM_CODE_STX \<in> B"
    using assms(2) by (auto simp: rym_sizes)
  have "safe_run B goes_on (run_bind (rym_call (on_begin cbs) RYM_CODE_ACK (len - 5) r1)
      (\<lambda>(k, r2). Ret (if k \<noteq> RYM_CODE_ACK then RYM_ERR_CAN else RYM_OK, r2)))"
    by (rule call_begin [OF len b1, of RYM_CODE_ACK]) (auto simp: goes_on_def)
  moreover have "goes_on (rym_putchar RYM_CODE_ACK (r1\<lparr>rym_stage := RYM_STAGE_FINISHED\<rparr>))"
    by (simp add: goes_on_def) (simp add: rym_putchar_def rym_write_def)
  ultimately show ?thesis
    using in_bounds_weaken [OF b1] unfolding fin_packet_def Let_def rd prod.case by simp
qed

lemma do_fin_safe:
  assumes "in_bounds B busy r"
  shows "safe_run B goes_on (rym_do_fin cbs r)"
proof -
  obtain k0 r0 where call: "rym_call (on_end cbs) RYM_CODE_ACK 128 (r\<lparr>rym_stage := RYM_STAGE_FINISHING\<rparr>) = Ret (k0, r0)"
    and b0: "in_bounds B idle r0"
    by (rule call_end [of "r\<lparr>rym_stage := RYM_STAGE_FINISHING\<rparr>"]) (use assms in auto)
  obtain k1 r1 where rd1: "rym_read_code RYM_WAIT_PKG_TICK (rym_putchar RYM_CODE_NAK r0) = (k1, r1)"
    by (cases "rym_read_code RYM_WAIT_PKG_TICK (rym_putchar RYM_CODE_NAK r0)")
  let ?rb = "rym_putchar RYM_CODE_C (rym_putchar RYM_CODE_ACK r1)"
  obtain k2 r2 where rd2: "rym_read_code RYM_WAIT_PKG_TICK ?rb = (k2, r2)"
    by (cases "rym_read_code RYM_WAIT_PKG_TICK ?rb")
  have b1: "in_bounds B idle r1" using in_bounds_read_code [OF rd1] b0 by simp
  then have b2: "in_bounds B idle r2" using in_bounds_read_code [OF rd2] by simp
  have "word_of_nat RYM_CODE_STX \<in> B" if "k2 = RYM_CODE_STX"
    using read_code_input [OF rd2] that b1 by (simp add: in_bounds_def rym_codes)
  then show ?thesis
    using call rd1 rd2 fin_packet_safe [OF b2] in_bounds_weaken [OF b1] in_bounds_weaken [OF b2]
    by (simp add: rym_do_fin_def)
qed

lemma recv_files_safe: "in_bounds B busy r \<Longrightarrow> safe_run B (\<lambda>_. True) (rym_recv_files cbs r)"
proof (induction "length (input r)" arbitrary: r rule: less_induct)
  case less
  let ?r0 = "(rym_putchar RYM_CODE_C (rym_putchar RYM_CODE_ACK r))\<lparr>rym_stage := RYM_STAGE_ESTABLISHED\<rparr>"
  have trans: "safe_run B (in_bounds B busy) (rym_do_trans cbs r)"
    unfolding rym_do_trans_def using recv_loop_safe [of ?r0] less.prems by simp
  show ?case
  proof (cases "rym_do_trans cbs r")
    case (Ret x)
    obtain e r1 where t: "rym_do_trans cbs r = Ret (e, r1)" using Ret by (cases x) simp
    note b1 = safe_runD [OF trans t]
    show ?thesis
    proof (cases "e = RYM_OK")
      case True
      then have fin: "safe_run B goes_on (rym_do_fin cbs r1)" using do_fin_safe b1 by simp
      show ?thesis
      proof (cases "rym_do_fin cbs r1")
        case (Ret y)
        obtain e2 r2 where f: "rym_do_fin cbs r1 = Ret (e2, r2)" using Ret by (cases y) simp
        note b2 = safe_runD [OF fin f]
        have "safe_run B (\<lambda>_. True) (rym_recv_files cbs r2)" if "e2 = RYM_OK" "rym_stage r2 \<noteq> RYM_STAGE_FINISHED"
        proof -
          have "length (input r2) < length (input r)" using do_trans_input do_fin_input t f True that by fastforce
          then show ?thesis using less.hyps b2 that by (simp add: goes_on_def)
        qed
        then show ?thesis using t f True b2 by (simp add: rym_recv_files.simps [of cbs r])
      qed (use t True fin in \<open>simp_all add: rym_recv_files.simps [of cbs r]\<close>)
    next
      case False
      then show ?thesis using t b1 by (simp add: rym_recv_files.simps [of cbs r])
    qed
  qed (use trans in \<open>simp_all add: rym_recv_files.simps [of cbs r]\<close>)
qed

lemma do_recv_safe:
  assumes "length buf = 1029" and "idle (rym_user r)" and "set (input r) \<subseteq> B"
  shows "safe_run B (\<lambda>_. True) (rym_do_recv (Some buf) cbs n r)"
proof -
  let ?r = "r\<lparr>rym_stage := RYM_STAGE_NONE\<rparr>\<lparr>rym_buf := buf\<rparr>"
  have b: "in_bounds B idle ?r" using assms by (simp add: in_bounds_def)
  show ?thesis
    unfolding rym_do_recv_def Let_def option.case
    by (rule safe_run_bind [OF handshake_safe [OF b]]) (simp add: recv_files_safe)
qed

lemma send_handshake_safe:
  assumes "in_bounds B idle r"
  shows "safe_run B (in_bounds B busy) (rym_do_send_handshake cbs n r)"
proof -
  let ?r = "r\<lparr>rym_stage := RYM_STAGE_ESTABLISHING\<rparr>"
  obtain b r1 where w: "rym_wait_peer n ?r = (b, r1)" by (cases "rym_wait_peer n ?r")
  have b1: "in_bounds B idle r1" using in_bounds_wait_peer [OF w] assms by simp
  have "SOH_PKG_SZ - 5 = 128" by (simp add: SOH_PKG_SZ_def)
  then obtain c r2 where c: "rym_call (on_begin cbs) RYM_CODE_SOH (SOH_PKG_SZ - 5) r1 = Ret (c, r2)"
    "in_bounds B (\<lambda>_. True) r2" "c = RYM_CODE_SOH \<Longrightarrow> in_bounds B busy r2"
    using call_begin [of 128 r1 RYM_CODE_SOH] b1 by (metis insertCI)
  have "safe_run B (in_bounds B busy) (expect RYM_CODE_ACK (set_rx_ind (rym_send_packet RYM_CODE_SOH 0 r2))
      (\<lambda>r3. expect RYM_CODE_C r3 (\<lambda>r4. Ret (RYM_OK, r4\<lparr>rym_stage := RYM_STAGE_ESTABLISHED\<rparr>))))"
    if "in_bounds B busy r2"
    by (rule safe_expect [of B busy]; (rule safe_expect [of B busy])?)
      (use that in_bounds_send_packet in_bounds_weaken in auto)
  then show ?thesis
    using c in_bounds_weaken [OF b1] by (simp add: rym_do_send_handshake_def Let_def w)
qed

lemma send_loop_safe: "in_bounds B busy r \<Longrightarrow> safe_run B (in_bounds B busy) (rym_send_loop cbs i r)"
proof (induction "length (input r)" arbitrary: i r rule: less_induct)
  case less
  have "SOH_PKG_SZ - 5 = 128" by (simp add: SOH_PKG_SZ_def)
  then obtain k r1 where c: "rym_call (on_data cbs) RYM_CODE_SOH (SOH_PKG_SZ - 5) r = Ret (k, r1)"
    and b1: "in_bounds B busy r1" using call_data [of 128 r RYM_CODE_SOH] less.prems by metis
  let ?r1 = "set_rx_ind (rym_send_packet RYM_CODE_SOH (ucast i) r1)"
  have bp: "in_bounds B busy ?r1" using in_bounds_send_packet [OF b1] by simp
  show ?case
  proof (cases "rym_getchar ?r1")
    case (Ret y)
    then obtain a r2 where g: "rym_getchar ?r1 = Ret (a, r2)" by (cases y) auto
    have b2: "in_bounds B busy r2" using in_bounds_getchar [OF g bp] .
    have "length (input r2) < length (input r)"
      using getchar_input [OF g] rym_call_input [OF c] by simp
    from less.hyps [OF this b2] c g in_bounds_weaken [OF b1] b2 in_bounds_weaken [OF b2] show ?thesis
      by (simp add: rym_send_loop.simps [of cbs i r])
  qed (use c in_bounds_weaken [OF b1] getchar_no_fault [of ?r1] in \<open>simp_all add: rym_send_loop.simps [of cbs i r]\<close>)
qed

lemma send_fin_safe:
  assumes "in_bounds B busy r"
  shows "safe_run B (\<lambda>_. True) (rym_do_send_fin cbs r)"
proof -
  have "safe_run B (\<lambda>_. True) (run_bind (rym_call (on_end cbs) RYM_CODE_SOH (SOH_PKG_SZ - 5) r3) (\<lambda>(c, r4).
         if c \<noteq> RYM_CODE_SOH then Ret (RYM_ERR_CODE, r4)
         else Ret (RYM_OK, (rym_send_packet RYM_CODE_SOH 0 r4)\<lparr>rym_stage := RYM_STAGE_FINISHED\<rparr>)))"
    if b: "in_bounds B busy r3" for r3
  proof (rule call_end [OF b, of RYM_CODE_SOH])
    fix c r4 assume "rym_call (on_end cbs) RYM_CODE_SOH 128 r3 = Ret (c, r4)" "in_bounds B idle r4"
    then show ?thesis
      using in_bounds_weaken [of B idle r4] in_bounds_weaken [OF in_bounds_send_packet, of B idle r4]
      by (simp add: SOH_PKG_SZ_def)
  qed
  then show ?thesis
    unfolding rym_do_send_fin_def using assms by (intro safe_expect [of B busy]) simp_all
qed

lemma do_send_safe:
  assumes "length buf = 1029" and "idle (rym_user r)" and "set (input r) \<subseteq> B"
  shows "safe_run B (\<lambda>_. True) (rym_do_send (Some buf) cbs n r)"
proof -
  let ?r = "r\<lparr>rym_stage := RYM_STAGE_NONE\<rparr>\<lparr>rym_buf := buf\<rparr>"
  have b: "in_bounds B idle ?r" using assms by (simp add: in_bounds_def)
  have tr: "safe_run B (in_bounds B busy) (rym_do_send_trans cbs r1)" if "in_bounds B busy r1" for r1
    unfolding rym_do_send_trans_def using send_loop_safe [of "r1\<lparr>rym_stage := RYM_STAGE_TRANSMITTING\<rparr>"] that
    by simp
  have body: "safe_run B (\<lambda>_. True) (run_bind (rym_do_send_trans cbs r1) (\<lambda>(err, r2).
      if err \<noteq> RYM_OK then Ret (err, r2) else rym_do_send_fin cbs r2))" if "in_bounds B busy r1" for r1
    by (rule safe_run_bind [OF tr [OF that]]) (simp add: send_fin_safe)
  show ?thesis
    unfolding rym_do_send_def Let_def option.case
    by (rule safe_run_bind [OF send_handshake_safe [OF b]]) (simp add: body)
qed

lemma on_device_safe:
  assumes "\<And>r. idle (rym_user r) \<Longrightarrow> set (input r) \<subseteq> B \<Longrightarrow> safe_run B (\<lambda>_. True) (session r)"
    and "idle (rym_user r)" and "set (input r) \<subseteq> B" and "\<not> rym_the_ctx r"
  shows "on_device True session r \<noteq> Fault
    \<and> (\<forall>e r'. on_device True session r = Ret (e, r') \<longrightarrow> length (rym_buf r') = 1029)"
proof -
  let ?r = "r\<lparr>rym_the_ctx := True, rx_sem := 0, dev_rx_ind := Rym_Rx_Ind,
    dev_flag := dev_flag r AND NOT RT_DEVICE_FLAG_STREAM\<rparr>"
  have i: "set (input ?r) \<subseteq> B" using assms(3) by (simp add: input_def)
  have "safe_run B (\<lambda>_. True) (session ?r)" by (rule assms(1)) (use assms(2) i in simp_all)
  then show ?thesis
    using assms(4) by (cases "session ?r") (auto simp: on_device_def Let_def safe_run_def in_bounds_def)
qed

end

end
