(* ===== verification/Ry_Sy_Check.thy ===== *)
theory Ry_Sy_Check
  imports Ry_Sy Ymodem_Check Ymodem_Buffer
begin

text \<open>
  Whole transfers: the bytes an upload puts on the line for a file, what a download makes of such a
  stream, that the two fit together, and what happens when the peer falls silent, answers wrongly
  or sends a packet of the other size first.
\<close>

section \<open>The file system\<close>

lemma posix_open_create:
  assumes "posix_laws px content desc" and "px_open px p O_Create_Trunc fs = (d, fs')" and "0 \<le> d"
  shows "desc fs' d = Some (p, 0) \<and> content fs' p = Some []"
  using assms(1) [unfolded posix_laws_def, THEN conjunct1] assms(2,3) by metis

lemma posix_open_read:
  assumes "posix_laws px content desc" and "px_open px p O_Read_Only fs = (d, fs')" and "0 \<le> d"
    and "content fs p = Some c"
  shows "desc fs' d = Some (p, 0) \<and> content fs' p = Some c"
  using assms(1) [unfolded posix_laws_def, THEN conjunct2, THEN conjunct1] assms(2-) by metis

lemma posix_stat:
  assumes "posix_laws px content desc" and "content fs p = Some c"
  shows "px_stat px p fs = Some (word_of_nat (length c))"
  using assms(1) [unfolded posix_laws_def, THEN conjunct2, THEN conjunct2, THEN conjunct1] assms(2)
  by metis

lemma posix_read:
  assumes "posix_laws px content desc" and "desc fs d = Some (p, k)" and "content fs p = Some c"
  obtains fs' where "px_read px d n fs = (int (length (take n (drop k c))), take n (drop k c), fs')"
    and "desc fs' d = Some (p, k + length (take n (drop k c)))" and "content fs' p = Some c"
  using assms(1) [unfolded posix_laws_def, THEN conjunct2, THEN conjunct2, THEN conjunct2,
      THEN conjunct1] assms(2-) by metis

lemma posix_write:
  assumes "posix_laws px content desc" and "desc fs d = Some (p, length c)" and "content fs p = Some c"
  shows "desc (px_write px d bs fs) d = Some (p, length (c @ bs))"
    and "content (px_write px d bs fs) p = Some (c @ bs)"
  using assms(1) [unfolded posix_laws_def, THEN conjunct2, THEN conjunct2, THEN conjunct2,
      THEN conjunct2, THEN conjunct1] assms(2-) by metis+

lemma posix_close:
  assumes "posix_laws px content desc"
  shows "content (px_close px d fs) p = content fs p"
  using assms [unfolded posix_laws_def] by blast

section \<open>Sending\<close>

lemma read_retries_eof:
  assumes o: "posix_laws px content desc"
  shows "desc fs d = Some (p, length c) \<Longrightarrow> content fs p = Some c \<Longrightarrow> rsz \<noteq> len \<Longrightarrow>
    \<exists>fs'. read_retries k px d len rsz buf fs = Ret (rsz, buf, fs') \<and> desc fs' d = Some (p, length c)
      \<and> content fs' p = Some c"
proof (induction k arbitrary: fs)
  case (Suc k)
  obtain fs1 where rd: "px_read px d (unat (len - rsz)) fs = (0, [], fs1)"
    and fs1: "desc fs1 d = Some (p, length c)" "content fs1 p = Some c"
    using posix_read [OF o Suc.prems(1,2), of "unat (len - rsz)"] by auto
  show ?case using Suc.IH [OF fs1 Suc.prems(3)] rd Suc.prems(3) by simp
qed simp

lemma put_at_append: "i \<le> length buf \<Longrightarrow> put_at (i + length as) bs (put_at i as buf) = put_at i (as @ bs) buf"
  by (simp add: put_at_def min_def ac_simps)

lemma length_put_at: "i + length bs \<le> length buf \<Longrightarrow> length (put_at i bs buf) = length buf"
  by (simp add: put_at_def)

lemma take_put_at: "i \<le> length buf \<Longrightarrow> take (length bs) (drop i (put_at i bs buf)) = bs"
  by (simp add: put_at_def)

text \<open>The block for the rest \<open>c\<close> of a file: filled up with 0x1A when it is the last.\<close>

definition block :: "u8 list \<Rightarrow> u8 list" where
  "block c = take 128 (c @ replicate 128 0x1A)"

lemma length_block [simp]: "length (block c) = 128"
  by (simp add: block_def)

lemma send_data_block:
  assumes o: "posix_laws px content desc"
    and "desc (files u) (fd u) = Some (p, k)" and "content (files u) p = Some c" and "length buf = 1029"
    and "k \<le> length c"
  obtains u' where "rym_send_data px 128 (st, buf, u) =
      Ret (RYM_CODE_SOH, if length (drop k c) < 128 then RYM_STAGE_FINISHING else st,
        put_at 3 (block (drop k c)) buf, u')"
    and "128 \<le> length (drop k c) \<longrightarrow> desc (files u') (fd u) = Some (p, k + 128)"
    and "content (files u') p = Some c" and "fd u' = fd u"
proof -
  let ?bs = "take 128 (drop k c)"
  obtain fs1 where rd: "px_read px (fd u) 128 (files u) = (int (length ?bs), ?bs, fs1)"
    and fs1: "desc fs1 (fd u) = Some (p, k + length ?bs)" "content fs1 p = Some c"
    using posix_read [OF o assms(2,3), of 128] by blast
  let ?buf = "put_at 3 ?bs buf"
  have nine: "read_retries 10 px (fd u) 128 0 buf (files u) =
      (if word_of_nat (length ?bs) = (128 :: u32) then Ret (128, ?buf, fs1)
       else read_retries 9 px (fd u) 128 (word_of_nat (length ?bs)) ?buf fs1)"
  proof -
    have ten: "(10 :: nat) = Suc 9" by simp
    show ?thesis
      using assms(4) rd unfolding ten read_retries.simps(2) by (auto simp: Let_def put_at_def)
  qed
  show ?thesis
  proof (cases "128 \<le> length (drop k c)")
    case True
    then have l: "length ?bs = 128" and b: "block (drop k c) = ?bs" by (simp_all add: block_def)
    have "rym_send_data px 128 (st, buf, u) = Ret (RYM_CODE_SOH, st, ?buf, u\<lparr>files := fs1\<rparr>)"
      using nine l by (simp add: rym_send_data_def)
    with True b l fs1 show ?thesis by (intro that [of "u\<lparr>files := fs1\<rparr>"]) simp_all
  next
    case False
    then have bs: "?bs = drop k c" and l: "length (drop k c) < 128" by simp_all
    let ?n = "length (drop k c)"
    have un: "unat (word_of_nat ?n :: u32) = ?n" using l by (simp add: unat_of_nat take_bit_nat_eq_self)
    have ne: "word_of_nat ?n \<noteq> (128 :: u32)"
    proof
      assume "word_of_nat ?n = (128 :: u32)"
      with un have "unat (128 :: u32) = ?n" by (simp only:)
      with l show False by simp
    qed
    have lt: "(word_of_nat ?n :: u32) < 128" using un l by (simp add: word_less_nat_alt)
    have eof: "k + length ?bs = length c" using assms(5) bs by simp
    obtain fs2 where r9: "read_retries 9 px (fd u) 128 (word_of_nat ?n) ?buf fs1 =
        Ret (word_of_nat ?n, ?buf, fs2)" and fs2: "content fs2 p = Some c"
      using read_retries_eof [OF o _ fs1(2) ne, of "fd u" 9 ?buf] fs1(1) unfolding eof by blast
    have "block (drop k c) = drop k c @ replicate (128 - ?n) 0x1A"
      using l by (simp add: block_def)
    then have fill: "put_at (3 + ?n) (replicate (128 - ?n) 0x1A) ?buf = put_at 3 (block (drop k c)) buf"
      using put_at_append [of 3 buf "drop k c"] assms(4) bs by simp
    have "rym_send_data px 128 (st, buf, u) =
        Ret (RYM_CODE_SOH, RYM_STAGE_FINISHING, put_at 3 (block (drop k c)) buf, u\<lparr>files := fs2\<rparr>)"
      using nine r9 ne lt bs un fill by (simp add: rym_send_data_def)
    with l fs2 show ?thesis by (intro that [of "u\<lparr>files := fs2\<rparr>"]) simp_all
  qed
qed

text \<open>The packets of a file, and the answers they are due.\<close>

function data_packets :: "u8 \<Rightarrow> u8 list \<Rightarrow> u8 list" where
  "data_packets i c = packet i (block c) @
     (if length c < 128 then [] else data_packets (i + 1) (drop 128 c))"
  by auto
termination by (relation "measure (\<lambda>(i, c). length c)") auto

declare data_packets.simps [simp del]

definition n_blocks :: "u8 list \<Rightarrow> nat" where
  "n_blocks c = length c div 128 + 1"

lemma n_blocks_rec: "n_blocks c = Suc (if length c < 128 then 0 else n_blocks (drop 128 c))"
  by (simp add: n_blocks_def le_div_geq)

abbreviation octet :: "nat \<Rightarrow> u8" where
  "octet c \<equiv> word_of_nat c"

abbreviation upload_cbs :: "'fs posix \<Rightarrow> 'fs custom_ctx rym_callbacks" where
  "upload_cbs px \<equiv> \<lparr>on_begin = Some (rym_send_begin px), on_data = Some (rym_send_data px),
     on_end = Some (rym_send_end px)\<rparr>"

lemma ucast_index: "ucast (1 + i :: u32) = (1 + ucast i :: u8)"
proof -
  have "uint (ucast (1 + i) :: u8) = (1 + uint i) mod 2 ^ 8"
    by (simp add: unsigned_ucast_eq uint_word_ariths take_bit_eq_mod mod_mod_cancel)
  also have "\<dots> = uint (1 + ucast i :: u8)"
    by (simp add: unsigned_ucast_eq uint_word_ariths take_bit_eq_mod mod_add_right_eq)
  finally show ?thesis by (simp add: word_uint_eq_iff)
qed

lemma put_at_block:
  assumes "length buf = 1029" and "length b = 128"
  shows "take 128 (drop 3 (put_at 3 b buf)) = b" and "length (put_at 3 b buf) = 1029"
  using assms by (simp_all add: put_at_def)

lemma send_loop_file:
  assumes o: "posix_laws px content desc"
  shows "desc (files (rym_user r)) (fd (rym_user r)) = Some (p, k) \<Longrightarrow>
    content (files (rym_user r)) p = Some c \<Longrightarrow> k \<le> length c \<Longrightarrow> length (rym_buf r) = 1029 \<Longrightarrow>
    rym_stage r = RYM_STAGE_TRANSMITTING \<Longrightarrow>
    follows (rym_send_loop (upload_cbs px) i r) (input r)
      (replicate (n_blocks (drop k c)) (octet RYM_CODE_ACK))
      (\<lambda>r'. rym_sent r' = rym_sent r @ data_packets (ucast i) (drop k c) \<and> length (rym_buf r') = 1029)"
proof (induction "length c - k" arbitrary: k i r rule: less_induct)
  case less
  let ?b = "block (drop k c)"
  obtain u' where sd: "rym_send_data px 128 (rym_stage r, rym_buf r, rym_user r) =
      Ret (RYM_CODE_SOH, if length (drop k c) < 128 then RYM_STAGE_FINISHING else rym_stage r,
        put_at 3 ?b (rym_buf r), u')"
    and u': "128 \<le> length (drop k c) \<longrightarrow> desc (files u') (fd u') = Some (p, k + 128)"
      "content (files u') p = Some c"
    using send_data_block [OF o less.prems(1,2,4,3), of "rym_stage r"] by metis
  let ?r1 = "r\<lparr>rym_stage := if length (drop k c) < 128 then RYM_STAGE_FINISHING else rym_stage r,
    rym_buf := put_at 3 ?b (rym_buf r), rym_user := u'\<rparr>"
  let ?r2 = "set_rx_ind (rym_send_packet RYM_CODE_SOH (ucast i) ?r1)"
  have b1: "length (rym_buf ?r1) = 1029" "take 128 (drop 3 (rym_buf ?r1)) = ?b"
    using put_at_block [OF less.prems(4), of ?b] by simp_all
  have r2: "rym_sent ?r2 = rym_sent r @ packet (ucast i) ?b" "length (rym_buf ?r2) = 1029"
    "rym_stage ?r2 = rym_stage ?r1" "rym_user ?r2 = u'" "input ?r2 = input r"
    using send_packet_sent [OF b1(1), where i = "ucast i"] b1(2) by (simp_all add: set_rx_ind_def)
  have run: "rym_send_loop (upload_cbs px) i r = expect RYM_CODE_ACK ?r2 (\<lambda>r3.
      if rym_stage r3 = RYM_STAGE_FINISHING then Ret (RYM_OK, r3)
      else rym_send_loop (upload_cbs px) (i + 1) r3)"
    using sd unfolding send_loop_expect [of "upload_cbs px" i r] rym_call_def by simp
  have more: "follows (if rym_stage r3 = RYM_STAGE_FINISHING then Ret (RYM_OK, r3)
      else rym_send_loop (upload_cbs px) (i + 1) r3) (input r3)
      (replicate (if length (drop k c) < 128 then 0 else n_blocks (drop 128 (drop k c))) (octet RYM_CODE_ACK))
      (\<lambda>r'. rym_sent r' = rym_sent r @ data_packets (ucast i) (drop k c) \<and> length (rym_buf r') = 1029)"
    if s: "same ?r2 r3" for r3
  proof -
    have r3: "rym_sent r3 = rym_sent r @ packet (ucast i) ?b" "length (rym_buf r3) = 1029"
      "rym_stage r3 = rym_stage ?r1" "rym_user r3 = u'"
      using s r2 by (simp_all only: same_def)
    show ?thesis
    proof (cases "length (drop k c) < 128")
      case True
      then show ?thesis using r3 data_packets.simps [of "ucast i" "drop k c"]
        by (simp add: follows_Ret)
    next
      case False
      then have st: "rym_stage r3 = RYM_STAGE_TRANSMITTING" using r3(3) less.prems(5) by simp
      have d: "desc (files (rym_user r3)) (fd (rym_user r3)) = Some (p, k + 128)"
        "content (files (rym_user r3)) p = Some c" "k + 128 \<le> length c"
        using r3(4) u' False by simp_all
      have "length c - (k + 128) < length c - k" using d(3) by simp
      from less.hyps [OF this d r3(2) st, of "i + 1"] False st r3(1)
        data_packets.simps [of "ucast i" "drop k c"]
      show ?thesis by (simp add: ucast_index add.commute)
    qed
  qed
  have "follows (rym_send_loop (upload_cbs px) i r) (input ?r2)
      (octet RYM_CODE_ACK # replicate (if length (drop k c) < 128 then 0 else n_blocks (drop 128 (drop k c)))
        (octet RYM_CODE_ACK))
      (\<lambda>r'. rym_sent r' = rym_sent r @ data_packets (ucast i) (drop k c) \<and> length (rym_buf r') = 1029)"
    unfolding run by (rule follows_expect [OF _ more]) (simp_all add: RYM_CODE_ACK_def)
  then show ?case
    unfolding n_blocks_rec [of "drop k c"] r2(5) replicate_Suc .
qed

text \<open>The first packet: the path without its first character, and the size.\<close>

definition header_block :: "u8 list \<Rightarrow> u8 list \<Rightarrow> u8 list" where
  "header_block path c =
     take 128 (tl path @ [0] @ bytes_of (fmt_d (int (length c))) @ replicate 128 0)"

definition upload_bytes :: "u8 list \<Rightarrow> u8 list \<Rightarrow> u8 list" where
  "upload_bytes path c = packet 0 (header_block path c) @ data_packets 1 c
     @ [octet RYM_CODE_EOT, octet RYM_CODE_EOT] @ packet 0 (replicate 128 0)"

definition upload_answers :: "u8 list \<Rightarrow> u8 list" where
  "upload_answers c = [octet RYM_CODE_ACK, octet RYM_CODE_C]
     @ replicate (n_blocks c) (octet RYM_CODE_ACK)
     @ [octet RYM_CODE_NAK, octet RYM_CODE_ACK, octet RYM_CODE_C]"

text \<open>A path the transfer can name, and a file there that opens.\<close>

definition file_at ::
  "'fs posix \<Rightarrow> ('fs \<Rightarrow> u8 list \<Rightarrow> u8 list option) \<Rightarrow> 'fs \<Rightarrow> u8 list \<Rightarrow> u8 list \<Rightarrow> bool" where
  "file_at px content fs path c \<longleftrightarrow> path \<noteq> [] \<and> 0 \<notin> set path \<and> length path \<le> 100
     \<and> content fs path = Some c \<and> length c < 2 ^ 31 \<and> 0 \<le> fst (px_open px path O_Read_Only fs)"

lemma c_str_path: "0 \<notin> set path \<Longrightarrow> c_str (path @ replicate n 0) = path"
  by (induction path) (auto simp: c_str_def)

lemma c_str_id: "0 \<notin> set path \<Longrightarrow> c_str path = path"
  using c_str_path [of path 0] by simp

lemma length_size: "n < 2 ^ 31 \<Longrightarrow> length (fmt_d (int n)) \<le> 10"
  using length_nat_digits [of n 9] by (simp add: fmt_d_def)

lemma length_header [simp]: "length (header_block path c) = 128"
  by (simp add: header_block_def)

lemma rt_strncpy_path:
  assumes "0 \<notin> set path" and "length path < 256"
  shows "c_str (rt_strncpy DFS_PATH_MAX path) = path"
    and "c_str (drop 1 (rt_strncpy DFS_PATH_MAX path)) = tl path"
    and "path \<noteq> [] \<Longrightarrow> 0 \<in> set (drop 1 (rt_strncpy DFS_PATH_MAX path))"
proof -
  let ?k = "256 - length path"
  have e: "rt_strncpy DFS_PATH_MAX path = path @ replicate ?k 0"
    using assms by (simp add: rt_strncpy_def DFS_PATH_MAX_def c_str_id)
  show "c_str (rt_strncpy DFS_PATH_MAX path) = path"
    unfolding e by (rule c_str_path [OF assms(1)])
  show "path \<noteq> [] \<Longrightarrow> 0 \<in> set (drop 1 (rt_strncpy DFS_PATH_MAX path))"
    unfolding e using assms(2) by (cases path) simp_all
  show "c_str (drop 1 (rt_strncpy DFS_PATH_MAX path)) = tl path"
  proof (cases path)
    case Nil
    then show ?thesis unfolding e by (simp add: c_str_def)
  next
    case (Cons a as)
    then show ?thesis unfolding e using c_str_path [of as ?k] assms(1) by simp
  qed
qed

lemma take_fill: "length s \<le> n \<Longrightarrow> take n (s @ replicate n x) = s @ replicate (n - length s) x"
  by simp

lemma send_begin_header:
  assumes o: "posix_laws px content desc" and f: "file_at px content (files u) path c"
    and "fpath u = rt_strncpy DFS_PATH_MAX path" and "length buf = 1029"
  obtains u' buf' where "rym_send_begin px 128 (st, buf, u) = Ret (RYM_CODE_SOH, st, buf', u')"
    and "length buf' = 1029" and "take 128 (drop 3 buf') = header_block path c"
    and "desc (files u') (fd u') = Some (path, 0)" and "content (files u') path = Some c"
proof -
  have pth: "path \<noteq> []" "0 \<notin> set path" "length path < 256" "length path \<le> 100"
    "content (files u) path = Some c" "length c < 2 ^ 31"
    using f by (auto simp: file_at_def)
  obtain d fs1 where op: "px_open px path O_Read_Only (files u) = (d, fs1)"
    by (cases "px_open px path O_Read_Only (files u)")
  then have d: "0 \<le> d" using f by (simp add: file_at_def)
  note fs1 = posix_open_read [OF o op d pth(5)]
  have stat: "px_stat px path fs1 = Some (word_of_nat (length c))" using posix_stat [OF o] fs1 by blast
  have sint: "sint (word_of_nat (length c) :: u32) = int (length c)"
    using pth(6) by (simp add: signed_of_nat signed_take_bit_int_eq_self)
  let ?t = "tl path @ [0] @ bytes_of (fmt_d (int (length c))) @ [0]"
  let ?buf = "put_at 3 ?t (put_at 3 (replicate 128 0) buf)"
  have lt: "length ?t \<le> 128"
    using pth(4) length_size [OF pth(6)] by (simp add: bytes_of_def)
  have "put_at 3 (replicate 128 0) buf = take 3 buf @ replicate 128 0 @ drop 131 buf"
    by (simp add: put_at_def)
  then have b: "?buf = take 3 buf @ ?t @ replicate (128 - length ?t) 0 @ drop 131 buf"
    using assms(4) lt by (simp add: put_at_def)
  have hd: "take 128 (?t @ replicate (128 - length ?t) 0 @ zs) = header_block path c" for zs
  proof -
    let ?s = "tl path @ [0] @ bytes_of (fmt_d (int (length c)))"
    have s: "length ?s < 128" "?t = ?s @ [0]" using lt by simp_all
    have "128 - length ?s = Suc (128 - length ?t)" using s(1) by simp
    then have "[0] @ replicate (128 - length ?t) 0 = replicate (128 - length ?s) (0 :: u8)"
      by (simp only: replicate_Suc append_Cons append_Nil)
    then have "?t @ replicate (128 - length ?t) 0 = ?s @ replicate (128 - length ?s) 0"
      using s(2) by simp
    moreover have "header_block path c = ?s @ replicate (128 - length ?s) 0"
      using take_fill [of ?s 128 0] s(1) by (simp add: header_block_def)
    moreover have "length (?s @ replicate (128 - length ?s) 0) = 128" using s(1) by simp
    ultimately show ?thesis by (metis append_assoc append_eq_conv_conj)
  qed
  have run: "rym_send_begin px 128 (st, buf, u) = Ret (RYM_CODE_SOH, st, ?buf, u\<lparr>fd := d, files := fs1\<rparr>)"
    using assms(3) op d stat rt_strncpy_path [OF pth(2,3)] pth(1)
    by (simp add: rym_send_begin_def sint)
  show ?thesis
  proof (rule that [OF run])
    show "length ?buf = 1029" unfolding b using assms(4) lt by simp
    show "take 128 (drop 3 ?buf) = header_block path c"
      unfolding b using assms(4) hd by simp
  qed (use fs1 in simp_all)
qed

lemma pkg_size: "SOH_PKG_SZ - 5 = 128"
  by (simp add: SOH_PKG_SZ_def)

lemma codes_small: "RYM_CODE_ACK < 256" "RYM_CODE_C < 256" "RYM_CODE_NAK < 256"
  by (simp_all add: rym_codes)

lemma wait_peer_prompt:
  assumes "prompt r" and "rx_sem r = 0" and "input r = octet RYM_CODE_C # xs"
    and "length (rym_buf r) = 1029"
  obtains r1 where "rym_wait_peer 1000 r = (True, r1)" and "input r1 = xs"
    and "rym_sent r1 = rym_sent r" and "rym_user r1 = rym_user r" and "length (rym_buf r1) = 1029"
proof -
  obtain r1 where rd: "rym_read_code 3000 r = (unat (octet RYM_CODE_C), r1)" and i: "input r1 = xs"
    and s: "same (put_buf 0 [octet RYM_CODE_C] r) r1"
    using read_code_prompt [OF assms(1-3)] by blast
  have k: "(1000 :: nat) = Suc 999" by simp
  have "rym_wait_peer 1000 r = (True, r1)"
    using rd unfolding k rym_wait_peer.simps by (simp add: RYM_CHD_INTV_TICK_def RYM_CODE_C_def)
  moreover have "length (rym_buf r1) = 1029"
    using s assms(4) by (simp add: same_def put_buf_def)
  moreover have "rym_sent r1 = rym_sent r" "rym_user r1 = rym_user r"
    using s by (simp_all add: same_def put_buf_def)
  ultimately show ?thesis using that [of r1] i by simp
qed

lemma send_handshake_follows:
  assumes o: "posix_laws px content desc" and f: "file_at px content (files (rym_user r)) path c"
    and path: "fpath (rym_user r) = rt_strncpy DFS_PATH_MAX path" and len: "length (rym_buf r) = 1029"
    and "prompt r" and "rx_sem r = 0" and "input r = octet RYM_CODE_C # xs"
  shows "follows (rym_do_send_handshake (upload_cbs px) 1000 r) xs
      [octet RYM_CODE_ACK, octet RYM_CODE_C]
      (\<lambda>r'. rym_sent r' = rym_sent r @ packet 0 (header_block path c) \<and> length (rym_buf r') = 1029 \<and>
        desc (files (rym_user r')) (fd (rym_user r')) = Some (path, 0) \<and>
        content (files (rym_user r')) path = Some c)"
proof -
  let ?r = "r\<lparr>rym_stage := RYM_STAGE_ESTABLISHING\<rparr>"
  obtain r1 where w: "rym_wait_peer 1000 ?r = (True, r1)" and r1: "input r1 = xs"
    "rym_sent r1 = rym_sent r" "rym_user r1 = rym_user r" "length (rym_buf r1) = 1029"
    using wait_peer_prompt [of ?r xs] assms(4-7) by auto
  obtain u' buf' where sb: "rym_send_begin px 128 (rym_stage r1, rym_buf r1, rym_user r1) =
      Ret (RYM_CODE_SOH, rym_stage r1, buf', u')"
    and b: "length buf' = 1029" "take 128 (drop 3 buf') = header_block path c"
    and u': "desc (files u') (fd u') = Some (path, 0)" "content (files u') path = Some c"
    using send_begin_header [OF o f path r1(4), of "rym_stage r1"] r1(3) by metis
  let ?r2 = "r1\<lparr>rym_stage := rym_stage r1, rym_buf := buf', rym_user := u'\<rparr>"
  let ?r3 = "set_rx_ind (rym_send_packet RYM_CODE_SOH 0 ?r2)"
  have r3: "rym_sent ?r3 = rym_sent r @ packet 0 (header_block path c)" "length (rym_buf ?r3) = 1029"
    "rym_user ?r3 = u'" "input ?r3 = xs"
    using send_packet_sent [of ?r2] b r1 by (simp_all add: set_rx_ind_def)
  have run: "rym_do_send_handshake (upload_cbs px) 1000 r =
      expect RYM_CODE_ACK ?r3 (\<lambda>r3. expect RYM_CODE_C r3
        (\<lambda>r4. Ret (RYM_OK, r4\<lparr>rym_stage := RYM_STAGE_ESTABLISHED\<rparr>)))"
    using w sb by (simp add: rym_do_send_handshake_def pkg_size rym_call_def)
  let ?P = "\<lambda>r'. rym_sent r' = rym_sent r @ packet 0 (header_block path c) \<and> length (rym_buf r') = 1029 \<and>
    desc (files (rym_user r')) (fd (rym_user r')) = Some (path, 0) \<and>
    content (files (rym_user r')) path = Some c"
  have k2: "follows (Ret (RYM_OK, r5\<lparr>rym_stage := RYM_STAGE_ESTABLISHED\<rparr>)) (input r5) [] ?P"
    if "same ?r3 r4" "same r4 r5" for r4 r5
    using follows_Ret [of ?P "r5\<lparr>rym_stage := RYM_STAGE_ESTABLISHED\<rparr>"] that r3 u'
    by (simp add: same_def)
  have k1: "follows (expect RYM_CODE_C r4 (\<lambda>r4. Ret (RYM_OK, r4\<lparr>rym_stage := RYM_STAGE_ESTABLISHED\<rparr>)))
      (input r4) [octet RYM_CODE_C] ?P" if "same ?r3 r4" for r4
    by (rule follows_expect [OF codes_small(2)], rule k2 [OF that])
  have "follows (rym_do_send_handshake (upload_cbs px) 1000 r) (input ?r3)
      [octet RYM_CODE_ACK, octet RYM_CODE_C] ?P"
    unfolding run by (rule follows_expect [OF codes_small(1)], rule k1)
  then show ?thesis unfolding r3(4) .
qed

lemma send_fin_follows:
  assumes "length (rym_buf r) = 1029"
  shows "follows (rym_do_send_fin (upload_cbs px) r) (input r)
      [octet RYM_CODE_NAK, octet RYM_CODE_ACK, octet RYM_CODE_C]
      (\<lambda>r'. rym_sent r' = rym_sent r @ [octet RYM_CODE_EOT, octet RYM_CODE_EOT] @ packet 0 (replicate 128 0))"
proof -
  let ?P = "\<lambda>r'. rym_sent r' = rym_sent r @ [octet RYM_CODE_EOT, octet RYM_CODE_EOT]
    @ packet 0 (replicate 128 0)"
  let ?ra = "rym_putchar RYM_CODE_EOT (set_rx_ind r)"
  let ?k3 = "\<lambda>r3. run_bind (rym_call (on_end (upload_cbs px)) RYM_CODE_SOH (SOH_PKG_SZ - 5) r3) (\<lambda>(c, r4).
         if c \<noteq> RYM_CODE_SOH then Ret (RYM_ERR_CODE, r4)
         else Ret (RYM_OK, (rym_send_packet RYM_CODE_SOH 0 r4)\<lparr>rym_stage := RYM_STAGE_FINISHED\<rparr>))"
  have k3: "follows (?k3 r3) (input r3) [] ?P"
    if "rym_sent r3 = rym_sent r @ [octet RYM_CODE_EOT, octet RYM_CODE_EOT]" "rym_buf r3 = rym_buf r" for r3
  proof -
    let ?r4 = "r3\<lparr>rym_stage := rym_stage r3, rym_buf := put_at 3 (replicate 128 0) (rym_buf r3),
      rym_user := rym_user r3\<rparr>"
    let ?r5 = "(rym_send_packet RYM_CODE_SOH 0 ?r4)\<lparr>rym_stage := RYM_STAGE_FINISHED\<rparr>"
    have b: "length (rym_buf ?r4) = 1029" "take 128 (drop 3 (rym_buf ?r4)) = replicate 128 0"
      using put_at_block [of "rym_buf r3" "replicate 128 0"] that(2) assms by simp_all
    have "?k3 r3 = Ret (RYM_OK, ?r5)" by (simp add: rym_call_def pkg_size rym_send_end_def)
    moreover have "?P ?r5"
      using send_packet_sent(1) [OF b(1), of 0] b(2) that(1) by simp
    ultimately show ?thesis using follows_Ret [of ?P ?r5] by simp
  qed
  have k2: "follows (expect RYM_CODE_C r2 ?k3) (input r2) [octet RYM_CODE_C] ?P"
    if "rym_sent r2 = rym_sent r @ [octet RYM_CODE_EOT, octet RYM_CODE_EOT]" "rym_buf r2 = rym_buf r" for r2
    by (rule follows_expect [OF codes_small(2)], rule k3) (use that in \<open>simp_all add: same_def\<close>)
  let ?k1 = "\<lambda>r1. expect RYM_CODE_ACK (rym_putchar RYM_CODE_EOT r1) (\<lambda>r2. expect RYM_CODE_C r2 ?k3)"
  have k1: "follows (?k1 r1) (input r1) [octet RYM_CODE_ACK, octet RYM_CODE_C] ?P"
    if "same ?ra r1" for r1
  proof -
    have "follows (?k1 r1) (input (rym_putchar RYM_CODE_EOT r1)) [octet RYM_CODE_ACK, octet RYM_CODE_C] ?P"
      by (rule follows_expect [OF codes_small(1)], rule k2)
        (use that in \<open>simp_all add: same_def rym_putchar_def rym_write_def set_rx_ind_def\<close>)
    then show ?thesis by simp
  qed
  have "follows (rym_do_send_fin (upload_cbs px) r) (input ?ra)
      [octet RYM_CODE_NAK, octet RYM_CODE_ACK, octet RYM_CODE_C] ?P"
    unfolding rym_do_send_fin_def by (rule follows_expect [OF codes_small(3)], rule k1)
  then show ?thesis by simp
qed

lemma upload_follows:
  assumes o: "posix_laws px content desc" and f: "file_at px content (files (rym_user r)) path c"
    and "\<not> rym_the_ctx r" and "prompt r" and "length mem = 1029" and "input r = octet RYM_CODE_C # xs"
  shows "follows (rym_upload_file px True True (Some mem) path r) xs (upload_answers c)
      (\<lambda>r'. rym_sent r' = rym_sent r @ upload_bytes path c)"
proof -
  let ?u = "(ctx_calloc (files (rym_user r)))\<lparr>fpath := rt_strncpy DFS_PATH_MAX path\<rparr>"
  let ?d = "(r\<lparr>rym_user := ?u\<rparr>)\<lparr>rym_the_ctx := True, rx_sem := 0, dev_rx_ind := Rym_Rx_Ind,
    dev_flag := dev_flag r AND NOT RT_DEVICE_FLAG_STREAM\<rparr>"
  let ?r0 = "?d\<lparr>rym_stage := RYM_STAGE_NONE\<rparr>\<lparr>rym_buf := mem\<rparr>"
  have u: "files ?u = files (rym_user r)" by (simp add: ctx_calloc_def)
  have hs: "follows (rym_do_send_handshake (upload_cbs px) 1000 ?r0) xs [octet RYM_CODE_ACK, octet RYM_CODE_C]
      (\<lambda>r'. rym_sent r' = rym_sent r @ packet 0 (header_block path c) \<and> length (rym_buf r') = 1029 \<and>
        desc (files (rym_user r')) (fd (rym_user r')) = Some (path, 0) \<and>
        content (files (rym_user r')) path = Some c)"
    using send_handshake_follows [OF o, of ?r0 path c xs] f u assms(4-6) by simp
  have tr: "follows (rym_do_send_trans (upload_cbs px) r1) (input r1)
      (replicate (n_blocks c) (octet RYM_CODE_ACK))
      (\<lambda>r'. rym_sent r' = rym_sent r1 @ data_packets 1 c \<and> length (rym_buf r') = 1029)"
    if "length (rym_buf r1) = 1029" "desc (files (rym_user r1)) (fd (rym_user r1)) = Some (path, 0)"
      "content (files (rym_user r1)) path = Some c" for r1
    using send_loop_file [OF o, of "r1\<lparr>rym_stage := RYM_STAGE_TRANSMITTING\<rparr>" path 0 c 1] that
    by (simp add: rym_do_send_trans_def)
  let ?P = "\<lambda>r'. rym_sent r' = rym_sent r @ upload_bytes path c"
  have body: "follows (run_bind (rym_do_send_trans (upload_cbs px) r1) (\<lambda>(err, r2).
        if err \<noteq> RYM_OK then Ret (err, r2) else rym_do_send_fin (upload_cbs px) r2)) (input r1)
      (replicate (n_blocks c) (octet RYM_CODE_ACK) @ [octet RYM_CODE_NAK, octet RYM_CODE_ACK, octet RYM_CODE_C]) ?P"
    if "rym_sent r1 = rym_sent r @ packet 0 (header_block path c) \<and> length (rym_buf r1) = 1029 \<and>
        desc (files (rym_user r1)) (fd (rym_user r1)) = Some (path, 0) \<and>
        content (files (rym_user r1)) path = Some c" for r1
    by (rule follows_bind [OF tr]; (rule follows_mono [OF send_fin_follows])?)
      (use that in \<open>auto simp: upload_bytes_def\<close>)
  have send: "follows (rym_do_send (Some mem) (upload_cbs px) 1000 ?d) xs (upload_answers c) ?P"
    using follows_bind [OF hs body] by (simp add: rym_do_send_def Let_def upload_answers_def)
  show ?thesis
    using follows_wrap [OF send, of "\<lambda>r2. r2\<lparr>rym_the_ctx := False, dev_rx_ind := dev_rx_ind r,
        dev_flag := dev_flag r\<rparr>" ?P] assms(3)
    by (simp add: rym_upload_file_def rym_send_on_device_def on_device_def)
qed

section \<open>Receiving\<close>

abbreviation download_cbs :: "'fs posix \<Rightarrow> 'fs custom_ctx rym_callbacks" where
  "download_cbs px \<equiv> \<lparr>on_begin = Some (rym_recv_begin px), on_data = Some (rym_recv_data px),
     on_end = Some (rym_recv_end px)\<rparr>"

text \<open>What is still due: an announced number of bytes, or \<^const>\<open>None\<close> when no size was given.\<close>

definition due :: "nat option \<Rightarrow> u32" where
  "due m = (case m of None \<Rightarrow> - 1 | Some n \<Rightarrow> word_of_nat n)"

definition cut :: "nat option \<Rightarrow> u8 list \<Rightarrow> u8 list" where
  "cut m xs = (case m of None \<Rightarrow> xs | Some n \<Rightarrow> take n xs)"

definition small :: "nat option \<Rightarrow> bool" where
  "small m = (case m of None \<Rightarrow> True | Some n \<Rightarrow> n < 2 ^ 31)"

lemma recv_data_block:
  assumes o: "posix_laws px content desc" and "0 \<le> fd u" and "desc (files u) (fd u) = Some (p, length c)"
    and "content (files u) p = Some c" and "flen u = due m" and "small m"
    and "take 128 (drop 3 buf) = d"
  obtains u' where "rym_recv_data px 128 (st, buf, u) = Ret (RYM_CODE_ACK, st, buf, u')"
    and "fd u' = fd u" and "desc (files u') (fd u') = Some (p, length (c @ cut m d))"
    and "content (files u') p = Some (c @ cut m d)" and "flen u' = due (map_option (\<lambda>n. n - 128) m)"
proof (cases m)
  case None
  then have "rym_recv_data px 128 (st, buf, u) = Ret (RYM_CODE_ACK, st, buf,
      u\<lparr>files := px_write px (fd u) d (files u)\<rparr>)"
    using assms(2,5,7) by (simp add: rym_recv_data_def due_def)
  then show ?thesis
    using None assms(5) posix_write [OF o assms(3,4), of d]
    by (intro that [of "u\<lparr>files := px_write px (fd u) d (files u)\<rparr>"]) (simp_all add: cut_def due_def)
next
  case (Some n)
  have n: "flen u = word_of_nat n" "n < 2 ^ 31" using assms(5,6) Some by (simp_all add: due_def small_def)
  then have un: "unat (flen u) = n" by (simp add: unat_of_nat take_bit_nat_eq_self)
  have ne: "flen u \<noteq> - 1"
  proof
    assume "flen u = - 1"
    then have "unat (flen u) = 2 ^ 32 - 1" by (simp add: unsigned_minus_1_eq_mask mask_eq_exp_minus_1)
    then show False using un n(2) by simp
  qed
  define w where "w = (if flen u < 128 then flen u else 128)"
  have lt: "flen u < 128 \<longleftrightarrow> n < 128" using un by (simp add: word_less_nat_alt)
  have w: "unat w = min n 128" using un lt by (simp add: w_def)
  have tk: "take (unat w) (drop 3 buf) = take n d" using assms(7) w by (auto simp: min.commute)
  have "flen u - w = due (map_option (\<lambda>n. n - 128) m)"
    using n(1) lt Some by (simp add: w_def due_def)
  moreover have "rym_recv_data px 128 (st, buf, u) = Ret (RYM_CODE_ACK, st, buf,
      u\<lparr>files := px_write px (fd u) (take n d) (files u), flen := flen u - w\<rparr>)"
    using assms(2) ne tk by (cases "flen u < 128") (simp_all add: rym_recv_data_def w_def)
  ultimately show ?thesis
    using posix_write [OF o assms(3,4), of "take n d"] Some
    by (intro that [of "u\<lparr>files := px_write px (fd u) (take n d) (files u), flen := flen u - w\<rparr>"])
      (simp_all add: cut_def)
qed

lemma cut_append: "length d = 128 \<Longrightarrow> cut m (d @ xs) = cut m d @ cut (map_option (\<lambda>n. n - 128) m) xs"
  by (cases m) (simp_all add: cut_def)

lemma small_minus: "small m \<Longrightarrow> small (map_option (\<lambda>n. n - 128) m)"
  by (cases m) (auto simp: small_def)

definition packets :: "(u8 \<times> u8 list) list \<Rightarrow> u8 list" where
  "packets bl = concat (map (\<lambda>(i, d). packet i d) bl)"

lemma packets_simps [simp]: "packets [] = []" "packets ((i, d) # bl) = packet i d @ packets bl"
  by (simp_all add: packets_def)

lemma data_packets_blocks:
  "\<exists>bl. data_packets i c = packets bl \<and> length bl = n_blocks c \<and> (\<forall>(j, d) \<in> set bl. length d = 128)
    \<and> take (length c) (concat (map snd bl)) = c \<and> bl \<noteq> [] \<and> fst (hd bl) = i"
proof (induction i c rule: data_packets.induct)
  case (1 i c)
  show ?case
  proof (cases "length c < 128")
    case True
    then show ?thesis
      by (intro exI [of _ "[(i, block c)]"])
        (simp add: data_packets.simps [of i c] n_blocks_rec [of c] block_def)
  next
    case False
    then obtain bl where bl: "data_packets (i + 1) (drop 128 c) = packets bl"
      "length bl = n_blocks (drop 128 c)" "\<forall>(j, d) \<in> set bl. length d = 128"
      "take (length (drop 128 c)) (concat (map snd bl)) = drop 128 c"
      using 1 by blast
    have "block c = take 128 c" using False by (simp add: block_def)
    then have "take (length c) (block c @ concat (map snd bl)) = c"
      using False bl(4) by (simp add: append_take_drop_id)
    with False bl show ?thesis
      by (intro exI [of _ "(i, block c) # bl"])
        (simp add: data_packets.simps [of i c] n_blocks_rec [of c])
  qed
qed

text \<open>
  The blocks arrive in the file one after the other, up to the announced size, whatever their numbers
  say; each is acknowledged.
\<close>

lemma recv_loop_blocks:
  assumes o: "posix_laws px content desc"
  shows "\<forall>(i, d) \<in> set bl. length d = 128 \<Longrightarrow>
    rym_stage r \<noteq> RYM_STAGE_ESTABLISHED \<or> bl = [] \<or> fst (hd bl) \<noteq> 0 \<Longrightarrow> flowing r \<Longrightarrow>
    length (rym_buf r) = 1029 \<Longrightarrow> input r = packets bl @ octet RYM_CODE_EOT # rest \<Longrightarrow>
    0 \<le> fd (rym_user r) \<Longrightarrow> desc (files (rym_user r)) (fd (rym_user r)) = Some (p, length c) \<Longrightarrow>
    content (files (rym_user r)) p = Some c \<Longrightarrow> flen (rym_user r) = due m \<Longrightarrow> small m \<Longrightarrow>
    \<exists>r'. rym_recv_loop (download_cbs px) r = Ret (RYM_OK, r') \<and> flowing r' \<and> input r' = rest
      \<and> rym_sent r' = rym_sent r @ replicate (length bl) (octet RYM_CODE_ACK)
      \<and> length (rym_buf r') = 1029 \<and> 0 \<le> fd (rym_user r')
      \<and> content (files (rym_user r')) p = Some (c @ cut m (concat (map snd bl)))"
proof (induction bl arbitrary: r c m)
  case Nil
  have nil: "cut m [] = []" by (cases m) (simp_all add: cut_def)
  from Nil have i: "input r = octet RYM_CODE_EOT # rest" by simp
  obtain r1 d where rd: "rym_read_code 3000 r = (unat (octet RYM_CODE_EOT), r1)"
    and r1: "input r1 = rest" "flowing r1" "same (put_buf 0 [octet RYM_CODE_EOT] r) r1"
    using read_code_flowing [OF Nil(3) i] by metis
  have "rym_recv_loop (download_cbs px) r = Ret (RYM_OK, r1)"
    using rd by (simp add: rym_recv_loop.simps [of _ r] RYM_WAIT_PKG_TICK_def)
  then show ?case using r1 Nil nil by (intro exI [of _ r1]) (simp add: same_def put_buf_def)
next
  case (Cons x bl)
  obtain i d where x: "x = (i, d)" by (cases x)
  have d: "length d = 128" and dl: "length d \<le> 1024" using Cons.prems(1) x by simp_all
  let ?hi = "ucast (drop_bit 8 (CRC16 d)) :: u8" and ?lo = "ucast (CRC16 d) :: u8"
  let ?rest = "packets bl @ octet RYM_CODE_EOT # rest"
  have i0: "input r = octet RYM_CODE_SOH # (i # NOT i # d @ [?hi, ?lo]) @ ?rest"
    using Cons.prems(5) x by (simp add: packet_def)
  obtain r1 where rd: "rym_read_code 3000 r = (unat (octet RYM_CODE_SOH), r1)"
    and r1: "input r1 = (i # NOT i # d @ [?hi, ?lo]) @ ?rest" "flowing r1"
      "same (put_buf 0 [octet RYM_CODE_SOH] r) r1"
    using read_code_flowing [OF Cons.prems(3) i0] by metis
  have k1: "length (rym_buf r1) = 1029" "rym_stage r1 \<noteq> RYM_STAGE_ESTABLISHED \<or> i \<noteq> 0"
    "rym_sent r1 = rym_sent r" "rym_user r1 = rym_user r"
    using r1(3) Cons.prems(2,4) x by (auto simp: same_def put_buf_def)
  obtain r2 where r2: "flowing r2" "input r2 = ?rest" "rym_sent r2 = rym_sent r1"
      "rym_user r2 = rym_user r1" "rym_stage r2 = RYM_STAGE_TRANSMITTING" "length (rym_buf r2) = 1029"
      "take (length d) (drop 3 (rym_buf r2)) = d"
    and t: "rym_trans_data (download_cbs px) (length d) RYM_CODE_SOH r1 =
      run_bind (rym_call (on_data (download_cbs px)) RYM_CODE_ACK (length d) r2) (\<lambda>(c, r). Ret (RYM_OK, c, r))"
    using trans_data_reads [OF r1(2,1) dl k1(1,2), of "download_cbs px" RYM_CODE_SOH] packet_sealed [of d]
    by metis
  obtain u' where rv: "rym_recv_data px 128 (rym_stage r2, rym_buf r2, rym_user r2) =
      Ret (RYM_CODE_ACK, rym_stage r2, rym_buf r2, u')"
    and u': "fd u' = fd (rym_user r)" "desc (files u') (fd u') = Some (p, length (c @ cut m d))"
      "content (files u') p = Some (c @ cut m d)" "flen u' = due (map_option (\<lambda>n. n - 128) m)"
    using recv_data_block [OF o, of "rym_user r2" p c m "rym_buf r2" d "rym_stage r2"] Cons.prems(6-10)
      r2(4,7) k1(4) d by metis
  let ?r3 = "rym_putchar RYM_CODE_ACK
    (r2\<lparr>rym_stage := rym_stage r2, rym_buf := rym_buf r2, rym_user := u'\<rparr>)"
  have r3: "rym_sent ?r3 = rym_sent r @ [octet RYM_CODE_ACK]" "rym_user ?r3 = u'"
    "rym_stage ?r3 = RYM_STAGE_TRANSMITTING" "length (rym_buf ?r3) = 1029"
    using r2 k1 by (simp_all add: rym_putchar_def rym_write_def)
  have r3': "flowing ?r3" "input ?r3 = ?rest" using r2 by simp_all
  have "rym_recv_loop (download_cbs px) r = rym_recv_loop (download_cbs px) ?r3"
    using rd t rv d by (simp add: rym_recv_loop.simps [of _ r] RYM_WAIT_PKG_TICK_def data_size_def
        rym_call_def) (simp add: rym_codes)
  moreover note Cons.IH [of ?r3 "c @ cut m d" "map_option (\<lambda>n. n - 128) m"]
  ultimately show ?case
    using Cons.prems(1,6) small_minus [OF Cons.prems(10)] cut_append [OF d, of m] r3 r3' u' x by simp
qed

text \<open>The name and the size come back out of the first packet.\<close>

lemma chars_of_bytes [simp]: "chars_of (bytes_of s) = s"
proof -
  have "char_of (unat (octet (code_of c))) = c" for c
  proof -
    have "code_of c < 256" by (simp add: code_of_def)
    then show ?thesis by (simp add: unat_of_nat take_bit_nat_eq_self code_of_def)
  qed
  then show ?thesis by (simp add: chars_of_def bytes_of_def comp_def)
qed

lemma chars_of_append [simp]: "chars_of (as @ bs) = chars_of as @ chars_of bs"
  by (simp add: chars_of_def)

lemma atoi_size:
  assumes "n < 2 ^ 31"
  shows "atoi (chars_of (bytes_of (fmt_d (int n)) @ 0 # zs)) = int n"
proof -
  have z: "chars_of (0 # zs) = CHR 0x00 # chars_of zs" by (simp add: chars_of_def char_of_def)
  have "strtol10 (nat_digits n @ chars_of (0 # zs)) = Some (int n, chars_of (0 # zs))"
    using strtol10_digits [OF nat_digits_ne nat_digits_digits, of "chars_of (0 # zs)" n] assms
    unfolding z by (simp add: is_digit_def code_of_def)
  moreover have "chars_of (bytes_of (fmt_d (int n)) @ 0 # zs) = nat_digits n @ chars_of (0 # zs)"
    unfolding chars_of_append chars_of_bytes by (simp add: fmt_d_def)
  ultimately show ?thesis by (simp add: atoi_def)
qed

lemma header_split:
  assumes "file_at px content fs path c" and "take 128 (drop 3 buf) = header_block path c"
  obtains zs where "drop 3 buf = tl path @ 0 # bytes_of (fmt_d (int (length c))) @ 0 # zs"
    and "0 \<notin> set (tl path)" and "length (tl path) < 100"
proof -
  have pth: "path \<noteq> []" "0 \<notin> set path" "length path \<le> 100" "length c < 2 ^ 31"
    using assms(1) by (auto simp: file_at_def)
  let ?s = "tl path @ [0] @ bytes_of (fmt_d (int (length c)))"
  have l: "length ?s < 128"
    using pth(3) length_size [OF pth(4)] by (simp add: bytes_of_def)
  then obtain k where k: "128 - length ?s = Suc k" by (metis zero_less_diff gr0_implies_Suc)
  have "header_block path c = ?s @ replicate (128 - length ?s) 0"
    using take_fill [of ?s 128 0] l by (simp add: header_block_def)
  then have "take 128 (drop 3 buf) = ?s @ 0 # replicate k 0" unfolding assms(2) k by simp
  then have "drop 3 buf = (?s @ 0 # replicate k 0) @ drop 128 (drop 3 buf)"
    by (metis append_take_drop_id)
  then have "drop 3 buf = tl path @ 0 # bytes_of (fmt_d (int (length c))) @ 0 # replicate k 0 @ drop 128 (drop 3 buf)"
    by (simp only: append_assoc append_Cons append_Nil)
  moreover have "0 \<notin> set (tl path)" using pth(1,2) by (cases path) auto
  moreover have "length (tl path) < 100" using pth(1,3) by (cases path) auto
  ultimately show ?thesis by (rule that)
qed

lemma recv_begin_header:
  assumes o: "posix_laws px content desc" and f: "file_at px' content' fs' path c"
    and b: "take 128 (drop 3 buf) = header_block path c" and "fpath u = replicate DFS_PATH_MAX 0"
    and "0 \<le> fst (px_open px (0x2F # tl path) O_Create_Trunc (files u))"
  obtains u' where "rym_recv_begin px 128 (st, buf, u) = Ret (RYM_CODE_ACK, st, buf, u')"
    and "0 \<le> fd u'" and "desc (files u') (fd u') = Some (0x2F # tl path, 0)"
    and "content (files u') (0x2F # tl path) = Some []"
    and "flen u' = due (if c = [] then None else Some (length c))"
proof -
  let ?n = "tl path"
  obtain zs where sp: "drop 3 buf = ?n @ 0 # bytes_of (fmt_d (int (length c))) @ 0 # zs"
    and n: "0 \<notin> set ?n" "length ?n < 100"
    by (rule header_split [OF f b])
  have c: "length c < 2 ^ 31" using f by (simp add: file_at_def)
  have cs: "c_str (?n @ 0 # ys) = ?n" for ys
    using n(1) unfolding c_str_def by (subst takeWhile_append2) auto
  have cp: "rt_strncpy 127 (drop 3 buf) = ?n @ replicate (127 - length ?n) 0"
    unfolding rt_strncpy_def sp cs using n(2) by simp
  let ?path = "put_at 1 (rt_strncpy 127 (drop 3 buf)) (put_at 0 [0x2F] (fpath u))"
  have path: "?path = (0x2F # ?n) @ replicate (255 - length ?n) 0"
  proof -
    have "replicate (127 - length ?n) 0 @ replicate 128 0 = replicate (255 - length ?n) (0 :: u8)"
      using n(2) by (simp add: replicate_add [symmetric])
    then show ?thesis using assms(4) n(2) unfolding cp by (simp add: put_at_def DFS_PATH_MAX_def)
  qed
  have str: "c_str ?path = 0x2F # ?n" and nul: "0 \<in> set ?path"
    unfolding path using c_str_path [of "0x2F # ?n" "255 - length ?n"] n by simp_all
  obtain d fs1 where op: "px_open px (0x2F # ?n) O_Create_Trunc (files u) = (d, fs1)"
    by (cases "px_open px (0x2F # ?n) O_Create_Trunc (files u)")
  then have d: "0 \<le> d" using assms(5) by simp
  have "c_str (take 127 (drop 3 buf)) = ?n"
    unfolding sp using n(2) cs by (simp add: take_Cons')
  then have "drop (3 + 1 + length (c_str (take 127 (drop 3 buf)))) buf =
      drop (Suc (length ?n)) (drop 3 buf)" by (simp add: add.commute)
  also have "\<dots> = bytes_of (fmt_d (int (length c))) @ 0 # zs" unfolding sp by simp
  finally have size: "atoi (chars_of (drop (3 + 1 + length (c_str (take 127 (drop 3 buf)))) buf)) = int (length c)"
    using atoi_size [OF c] by simp
  let ?u = "u\<lparr>fpath := ?path, fd := d, files := fs1,
    flen := due (if c = [] then None else Some (length c))\<rparr>"
  have "rym_recv_begin px 128 (st, buf, u) = Ret (RYM_CODE_ACK, st, buf, ?u)"
    using nul str op d size by (simp add: rym_recv_begin_def DFS_PATH_MAX_def Let_def due_def)
  moreover note posix_open_create [OF o op d]
  ultimately show ?thesis using that [of ?u] d by simp
qed

lemma download_blocks:
  assumes o: "posix_laws px content desc" and f: "file_at px' content' fs' path c"
    and "\<not> rym_the_ctx r" and "flowing r" and "length mem = 1029" and "unat (rym_now r) + 3100 < 2 ^ 32"
    and "input r = packet 0 (header_block path c) @ packets bl @ octet RYM_CODE_EOT #
      octet RYM_CODE_EOT # packet 0 (replicate 128 0) @ rest"
    and "\<forall>(i, d) \<in> set bl. length d = 128" and "bl = [] \<or> fst (hd bl) \<noteq> 0"
    and "0 \<le> fst (px_open px (0x2F # tl path) O_Create_Trunc (files (rym_user r)))"
  obtains r' where "rym_download_file px True True (Some mem) r = Ret (RYM_OK, r')" and "input r' = rest"
    and "content (files (rym_user r')) (0x2F # tl path) =
      Some (cut (if c = [] then None else Some (length c)) (concat (map snd bl)))"
    and "rym_sent r' = rym_sent r @ [octet RYM_CODE_C, octet RYM_CODE_ACK, octet RYM_CODE_C]
      @ replicate (length bl) (octet RYM_CODE_ACK)
      @ map octet [RYM_CODE_NAK, RYM_CODE_ACK, RYM_CODE_C, RYM_CODE_ACK]"
proof -
  let ?u = "ctx_calloc (files (rym_user r))"
  let ?d = "(r\<lparr>rym_user := ?u\<rparr>)\<lparr>rym_the_ctx := True, rx_sem := 0, dev_rx_ind := Rym_Rx_Ind,
    dev_flag := dev_flag r AND NOT RT_DEVICE_FLAG_STREAM\<rparr>"
  let ?r0 = "?d\<lparr>rym_stage := RYM_STAGE_NONE\<rparr>\<lparr>rym_buf := mem\<rparr>"
  let ?m = "if c = [] then None else Some (length c)"
  let ?p = "0x2F # tl path"
  let ?rest = "octet RYM_CODE_EOT # packet 0 (replicate 128 0) @ rest"
  have k: "(1000 :: nat) = Suc 999" by simp
  have small: "small ?m" using f by (simp add: small_def file_at_def)
  obtain r1 where r1: "flowing r1" "input r1 = packets bl @ octet RYM_CODE_EOT # ?rest"
      "rym_sent r1 = rym_sent r @ [octet RYM_CODE_C]" "rym_user r1 = ?u" "length (rym_buf r1) = 1029"
      "take 128 (drop 3 (rym_buf r1)) = header_block path c"
    and hs: "rym_do_handshake (download_cbs px) (Suc 999) ?r0 =
      run_bind (rym_call (on_begin (download_cbs px)) RYM_CODE_ACK 128 r1)
        (\<lambda>(c, r2). Ret (if c \<noteq> RYM_CODE_ACK then RYM_ERR_CAN else RYM_OK, r2))"
    using recv_handshake_reads [of ?r0 RYM_CODE_SOH "header_block path c"
        "packets bl @ octet RYM_CODE_EOT # ?rest" "download_cbs px" 999] assms(4-7)
    by (auto simp: packet_def)
  obtain u' where rb: "rym_recv_begin px 128 (rym_stage r1, rym_buf r1, rym_user r1) =
      Ret (RYM_CODE_ACK, rym_stage r1, rym_buf r1, u')"
    and u': "0 \<le> fd u'" "desc (files u') (fd u') = Some (?p, 0)" "content (files u') ?p = Some []"
      "flen u' = due ?m"
    using recv_begin_header [OF o f r1(6), of "rym_user r1" "rym_stage r1"] assms(10) r1(4)
    by (auto simp: ctx_calloc_def)
  let ?r2 = "r1\<lparr>rym_stage := rym_stage r1, rym_buf := rym_buf r1, rym_user := u'\<rparr>"
  let ?r3 = "(rym_putchar RYM_CODE_C (rym_putchar RYM_CODE_ACK ?r2))\<lparr>rym_stage := RYM_STAGE_ESTABLISHED\<rparr>"
  have r3: "rym_user ?r3 = u'" "length (rym_buf ?r3) = 1029"
    "rym_sent ?r3 = rym_sent r @ [octet RYM_CODE_C, octet RYM_CODE_ACK, octet RYM_CODE_C]"
    using r1 by (simp_all add: rym_putchar_def rym_write_def)
  have r3': "flowing ?r3" "input ?r3 = packets bl @ octet RYM_CODE_EOT # ?rest" using r1 by simp_all
  obtain r4 where tr: "rym_do_trans (download_cbs px) ?r2 = Ret (RYM_OK, r4)"
    and r4: "flowing r4" "input r4 = ?rest" "length (rym_buf r4) = 1029" "0 \<le> fd (rym_user r4)"
      "rym_sent r4 = rym_sent ?r3 @ replicate (length bl) (octet RYM_CODE_ACK)"
      "content (files (rym_user r4)) ?p = Some (cut ?m (concat (map snd bl)))"
    using recv_loop_blocks [OF o assms(8) _ r3'(1) r3(2) r3'(2), of ?p "[]" ?m] assms(9) r3(1) u' small
    unfolding rym_do_trans_def by auto
  have re: "rym_recv_end px 128 (RYM_STAGE_FINISHING, rym_buf r4, rym_user r4) =
      Ret (RYM_CODE_ACK, RYM_STAGE_FINISHING, rym_buf r4,
        (rym_user r4)\<lparr>files := px_close px (fd (rym_user r4)) (files (rym_user r4)), fd := - 1\<rparr>)"
    using r4(4) by (simp add: rym_recv_end_def)
  obtain r5 where fin: "rym_do_fin (download_cbs px) r4 = Ret (RYM_OK, r5)"
    and r5: "rym_stage r5 = RYM_STAGE_FINISHED" "input r5 = rest"
      "rym_user r5 = (rym_user r4)\<lparr>files := px_close px (fd (rym_user r4)) (files (rym_user r4)), fd := - 1\<rparr>"
      "rym_sent r5 = rym_sent r4 @ map octet [RYM_CODE_NAK, RYM_CODE_ACK, RYM_CODE_C, RYM_CODE_ACK]"
    using do_fin_last [OF r4(1,2,3), of "download_cbs px" "rym_recv_end px"] re by auto
  let ?r6 = "r5\<lparr>rym_the_ctx := False, dev_rx_ind := dev_rx_ind r, dev_flag := dev_flag r\<rparr>"
  have hs': "rym_do_handshake (download_cbs px) 1000 ?r0 = Ret (RYM_OK, ?r2)"
    unfolding k hs using rb by (simp add: rym_call_def)
  have "rym_recv_files (download_cbs px) ?r2 = Ret (RYM_OK, r5)"
    unfolding rym_recv_files.simps [of _ ?r2] using tr fin r5(1) by simp
  then have "rym_do_recv (Some mem) (download_cbs px) 1000 ?d = Ret (RYM_OK, r5)"
    using hs' by (simp add: rym_do_recv_def)
  then have "rym_download_file px True True (Some mem) r = Ret (RYM_OK, ?r6)"
    using assms(3) by (simp add: rym_download_file_def rym_recv_on_device_def on_device_def)
  moreover have "rym_sent ?r6 = rym_sent r @ [octet RYM_CODE_C, octet RYM_CODE_ACK, octet RYM_CODE_C]
      @ replicate (length bl) (octet RYM_CODE_ACK)
      @ map octet [RYM_CODE_NAK, RYM_CODE_ACK, RYM_CODE_C, RYM_CODE_ACK]"
    using r5(4) r4(5) r3(3) by simp
  moreover have "content (files (rym_user ?r6)) ?p = Some (cut ?m (concat (map snd bl)))"
    using r5(3) r4(6) posix_close [OF o] by simp
  ultimately show ?thesis using that [of ?r6] r5(2) by simp
qed

section \<open>The callbacks and the buffer\<close>

text \<open>
  What the callbacks rest on. Receiving writes the first 128 bytes of the path, which is therefore
  terminated; sending finds its path terminated.
\<close>

definition recv_idle :: "'fs custom_ctx \<Rightarrow> bool" where
  "recv_idle u \<longleftrightarrow> length (fpath u) = DFS_PATH_MAX \<and> drop 128 (fpath u) = replicate 128 0"

definition recv_busy :: "'fs custom_ctx \<Rightarrow> bool" where
  "recv_busy u \<longleftrightarrow> recv_idle u \<and> 0 \<le> fd u"

definition path_ok :: "'fs custom_ctx \<Rightarrow> bool" where
  "path_ok u \<longleftrightarrow> length (fpath u) = DFS_PATH_MAX \<and> 0 \<in> set (drop 1 (fpath u))"

lemma length_rt_strncpy: "length (rt_strncpy n src) = n"
  by (simp add: rt_strncpy_def)

lemma strncpy_terminated:
  assumes "length (c_str src) < DFS_PATH_MAX"
  shows "0 \<in> set (drop 1 (rt_strncpy DFS_PATH_MAX src))"
proof -
  let ?s = "rt_strncpy DFS_PATH_MAX src"
  have "last ?s = 0" "255 < length ?s" "?s ! 255 = 0"
    using assms by (simp_all add: rt_strncpy_def DFS_PATH_MAX_def last_conv_nth nth_append)
  then have "drop 1 ?s ! 254 = 0" "254 < length (drop 1 ?s)" by simp_all
  then show ?thesis by (metis nth_mem)
qed

lemma recv_begin_keeps:
  assumes "length buf = 1029" and "recv_idle u"
  shows "\<exists>c st' buf' u'. rym_recv_begin px 128 (st, buf, u) = Ret (c, st', buf', u') \<and> length buf' = 1029
    \<and> (c \<in> {RYM_CODE_ACK, RYM_CODE_SOH} \<longrightarrow> recv_busy u')"
proof -
  let ?path = "put_at 1 (rt_strncpy 127 (drop 3 buf)) (put_at 0 [0x2F] (fpath u))"
  have n: "length (fpath u) = 256" "drop 128 (fpath u) = replicate 128 0"
    using assms(2) by (simp_all add: recv_idle_def DFS_PATH_MAX_def)
  have "drop 128 ?path = drop 128 (put_at 0 [0x2F] (fpath u))"
    using n(1) by (simp add: put_at_def length_rt_strncpy)
  also have "\<dots> = replicate 128 0" using n by (simp add: put_at_def)
  finally have d: "drop 128 ?path = replicate 128 0" .
  then have z: "0 \<in> set ?path" by (metis in_set_dropD in_set_replicate zero_neq_numeral)
  have "length ?path = 256" using n(1) by (simp add: length_put_at length_rt_strncpy)
  then show ?thesis
    using assms(1) d z by (simp add: rym_recv_begin_def DFS_PATH_MAX_def recv_busy_def recv_idle_def
      rym_codes Let_def split: prod.split)
qed

interpretation down: rym_client "download_cbs px" "rym_recv_begin px" "rym_recv_data px" "rym_recv_end px"
  "- {word_of_nat RYM_CODE_STX}" recv_idle recv_busy for px
proof
  fix len :: nat and st and buf :: "u8 list" and u :: "'a custom_ctx"
  assume "length buf = 1029" "recv_idle u"
    and "len = 128 \<or> len = 1024 \<and> word_of_nat RYM_CODE_STX \<in> - {word_of_nat RYM_CODE_STX :: u8}"
  then show "\<exists>c st' buf' u'. rym_recv_begin px len (st, buf, u) = Ret (c, st', buf', u') \<and> length buf' = 1029
      \<and> (c \<in> {RYM_CODE_ACK, RYM_CODE_SOH} \<longrightarrow> recv_busy u')"
    using recv_begin_keeps by auto
qed (auto simp: rym_recv_data_def rym_recv_end_def recv_busy_def recv_idle_def Let_def)

text \<open>
  A file system whose reads never fail: they return the number of bytes they stored, at most what was
  asked for. \<open>unfailing\<close> makes one of any.
\<close>

definition reads_succeed :: "'fs posix \<Rightarrow> bool" where
  "reads_succeed px \<longleftrightarrow> (\<forall>d n fs m bs fs'. px_read px d n fs = (m, bs, fs') \<longrightarrow> m = int (length bs) \<and> length bs \<le> n)"

definition unfailing :: "'fs posix \<Rightarrow> 'fs posix" where
  "unfailing px = px\<lparr>px_read := (\<lambda>d n fs. let (_, bs, fs') = px_read px d n fs
     in (int (length (take n bs)), take n bs, fs'))\<rparr>"

lemma unfailing_succeeds: "reads_succeed (unfailing px)"
  by (auto simp: reads_succeed_def unfailing_def Let_def split: prod.splits)

lemma unfailing_id:
  assumes "reads_succeed px"
  shows "unfailing px = px"
proof -
  have "(let (_, bs, fs') = px_read px d n fs in (int (length (take n bs)), take n bs, fs')) = px_read px d n fs"
    for d n fs
  proof (cases "px_read px d n fs")
    case (fields m bs fs')
    then have "m = int (length bs)" "length bs \<le> n" using assms unfolding reads_succeed_def by blast+
    then show ?thesis using fields by simp
  qed
  then show ?thesis by (simp add: unfailing_def)
qed

lemma read_retries_keeps:
  assumes "reads_succeed px" and "len \<le> 1024"
  shows "length buf = 1029 \<Longrightarrow> rsz \<le> len \<Longrightarrow>
    \<exists>z buf' fs'. read_retries k px d len rsz buf fs = Ret (z, buf', fs') \<and> length buf' = 1029 \<and> z \<le> len"
proof (induction k arbitrary: rsz buf fs)
  case (Suc k)
  obtain n bs fs1 where rd: "px_read px d (unat (len - rsz)) fs = (n, bs, fs1)"
    by (cases "px_read px d (unat (len - rsz)) fs") auto
  have n: "n = int (length bs)" "length bs \<le> unat (len - rsz)"
    using assms(1) rd unfolding reads_succeed_def by blast+
  have l: "unat len \<le> 1024" "unat rsz \<le> unat len" using assms(2) Suc.prems(2) by (simp_all add: word_le_nat_alt)
  have b: "length bs \<le> unat len - unat rsz" using n(2) Suc.prems(2) by (simp add: unat_sub)
  have i: "unat (3 + rsz) = 3 + unat rsz" using l by (simp add: unat_word_ariths)
  have r: "unat (rsz + word_of_nat (length bs)) = unat rsz + length bs"
    using l b by (simp add: unat_word_ariths unat_of_nat)
  then have le: "rsz + word_of_nat (length bs) \<le> len" using b l by (simp add: word_le_nat_alt)
  have in_block: "3 + unat rsz + length bs \<le> 1029" using b l by simp
  then have p: "length (put_at (3 + unat rsz) bs buf) = 1029" using Suc.prems(1) by (simp add: length_put_at)
  show ?case
    using Suc.IH [OF _ le, of "if bs = [] then buf else put_at (3 + unat rsz) bs buf" fs1] Suc.prems rd p in_block le
    by (simp add: n(1) i Let_def)
qed simp

lemma send_data_keeps:
  assumes "reads_succeed px" and "length buf = 1029" and "len \<le> 1024"
  shows "\<exists>c st' buf' u'. rym_send_data px len (st, buf, u) = Ret (c, st', buf', u') \<and> length buf' = 1029
    \<and> fpath u' = fpath u"
proof -
  have u: "unat (word_of_nat len :: u32) = len" using assms(3) by (simp add: unat_of_nat take_bit_nat_eq_self)
  then have le: "(word_of_nat len :: u32) \<le> 1024" using assms(3) by (simp add: word_le_nat_alt)
  obtain z buf1 fs where rd: "read_retries 10 px (fd u) (word_of_nat len) 0 buf (files u) = Ret (z, buf1, fs)"
    and b1: "length buf1 = 1029"
    using read_retries_keeps [OF assms(1) le assms(2), of 0 10 "fd u" "files u"] by auto
  have "length (put_at (3 + unat z) (replicate (len - unat z) 0x1A) buf1) = 1029" if "z < word_of_nat len"
    using that b1 assms(3) u by (simp add: length_put_at word_less_nat_alt)
  then show ?thesis using rd b1 by (simp add: rym_send_data_def)
qed

lemma length_fmt_sint: "length (fmt_d (sint (z :: u32))) \<le> 11"
proof -
  have "- (2 ^ 31) \<le> sint z" "sint z < 2 ^ 31"
    using sint_range_size [of z] by (simp_all add: word_size)
  then have "nat (sint z) < 10 ^ Suc 9" "nat (- sint z) < 10 ^ Suc 9" by (simp_all add: nat_less_iff)
  from length_nat_digits [OF this(1)] length_nat_digits [OF this(2)] show ?thesis
    by (simp add: fmt_d_def)
qed

lemma send_begin_keeps:
  assumes "length buf = 1029" and "len \<le> 1024" and "path_ok u"
  shows "\<exists>c st' buf' u'. rym_send_begin px len (st, buf, u) = Ret (c, st', buf', u') \<and> length buf' = 1029
    \<and> fpath u' = fpath u"
proof -
  have z: "length (put_at 3 (replicate len 0) buf) = 1029" using assms(1,2) by (simp add: length_put_at)
  have n: "length (c_str (drop 1 (fpath u))) \<le> 255"
    unfolding c_str_def
    by (rule order_trans [OF length_takeWhile_le])
      (use assms(3) in \<open>simp add: path_ok_def DFS_PATH_MAX_def\<close>)
  have "length (put_at 3 (c_str (drop 1 (fpath u)) @ [0] @ bytes_of (fmt_d (sint s)) @ [0])
      (put_at 3 (replicate len 0) buf)) = 1029" for s :: u32
    using n length_fmt_sint [of s] z by (subst length_put_at) (simp_all add: bytes_of_def)
  then show ?thesis
    using assms(1,3) z by (simp add: rym_send_begin_def path_ok_def Let_def split: prod.split option.split)
qed

interpretation up: rym_client "upload_cbs (unfailing px)" "rym_send_begin (unfailing px)"
  "rym_send_data (unfailing px)" "rym_send_end (unfailing px)" UNIV path_ok path_ok for px
proof
  fix len :: nat and st and buf :: "u8 list" and u :: "'a custom_ctx"
  assume b: "length buf = 1029" and u: "path_ok u"
  { assume "len = 128 \<or> len = 1024 \<and> word_of_nat RYM_CODE_STX \<in> (UNIV :: u8 set)"
    then have "len \<le> 1024" by auto
    from send_begin_keeps [OF b this u, of "unfailing px" st]
    show "\<exists>c st' buf' u'. rym_send_begin (unfailing px) len (st, buf, u) = Ret (c, st', buf', u') \<and> length buf' = 1029
        \<and> (c \<in> {RYM_CODE_ACK, RYM_CODE_SOH} \<longrightarrow> path_ok u')"
      using u unfolding path_ok_def by metis }
  { assume "len = 128 \<or> len = (1024 :: nat)"
    then have "len \<le> 1024" by auto
    from send_data_keeps [OF unfailing_succeeds b this, of px st u]
    show "\<exists>c st' buf' u'. rym_send_data (unfailing px) len (st, buf, u) = Ret (c, st', buf', u') \<and> length buf' = 1029
        \<and> path_ok u'"
      using u unfolding path_ok_def by metis }
  show "\<exists>c st' buf' u'. rym_send_end (unfailing px) 128 (st, buf, u) = Ret (c, st', buf', u') \<and> length buf' = 1029
      \<and> path_ok u'"
    using b u by (simp add: rym_send_end_def length_put_at)
qed simp

section \<open>Properties\<close>

lemma upload_answers_length: "length (upload_answers c) = n_blocks c + 5"
  by (simp add: upload_answers_def)

lemma upload_bytes_blocks:
  obtains bl where "upload_bytes path c = packet 0 (header_block path c) @ packets bl @ octet RYM_CODE_EOT #
      octet RYM_CODE_EOT # packet 0 (replicate 128 0)"
    and "length bl = n_blocks c" and "\<forall>(i, d) \<in> set bl. length d = 128" and "fst (hd bl) \<noteq> 0"
    and "take (length c) (concat (map snd bl)) = c" and "c = [] \<longrightarrow> concat (map snd bl) = replicate 128 0x1A"
proof -
  obtain bl where bl: "data_packets 1 c = packets bl" "length bl = n_blocks c"
      "\<forall>(i, d) \<in> set bl. length d = 128" "take (length c) (concat (map snd bl)) = c" "bl \<noteq> []"
      "fst (hd bl) = 1"
    using data_packets_blocks [of 1 c] by blast
  show ?thesis
  proof (cases "c = []")
    case True
    then have "data_packets 1 c = packets [(1, block c)]" by (simp add: data_packets.simps [of 1])
    with True show ?thesis
      by (intro that [of "[(1, block c)]"]) (simp_all add: upload_bytes_def n_blocks_def block_def)
  qed (use bl in \<open>intro that [of bl], simp_all add: upload_bytes_def\<close>)
qed

lemma download_upload:
  assumes o: "posix_laws px content desc" and f: "file_at px' content' fs' path c"
    and "\<not> rym_the_ctx r" and "flowing r" and "length mem = 1029" and "unat (rym_now r) + 3100 < 2 ^ 32"
    and "input r = upload_bytes path c @ rest"
    and "0 \<le> fst (px_open px (0x2F # tl path) O_Create_Trunc (files (rym_user r)))"
  shows "\<exists>r'. rym_download_file px True True (Some mem) r = Ret (RYM_OK, r') \<and> input r' = rest
    \<and> content (files (rym_user r')) (0x2F # tl path) = Some (if c = [] then replicate 128 0x1A else c)
    \<and> rym_sent r' = rym_sent r @ octet RYM_CODE_C # upload_answers c @ [octet RYM_CODE_ACK]"
proof -
  obtain bl where bl: "upload_bytes path c = packet 0 (header_block path c) @ packets bl @
      octet RYM_CODE_EOT # octet RYM_CODE_EOT # packet 0 (replicate 128 0)" "length bl = n_blocks c"
      "\<forall>(i, d) \<in> set bl. length d = 128" "fst (hd bl) \<noteq> 0" "take (length c) (concat (map snd bl)) = c"
      "c = [] \<longrightarrow> concat (map snd bl) = replicate 128 0x1A"
    by (rule upload_bytes_blocks [of path c])
  have "cut (if c = [] then None else Some (length c)) (concat (map snd bl)) =
      (if c = [] then replicate 128 0x1A else c)"
    using bl(5,6) by (simp add: cut_def)
  moreover have "input r = packet 0 (header_block path c) @ packets bl @ octet RYM_CODE_EOT #
      octet RYM_CODE_EOT # packet 0 (replicate 128 0) @ rest" using assms(7) bl(1) by simp
  ultimately show ?thesis
    using download_blocks [OF o f assms(3-6), of bl rest] bl(2-4) assms(8)
    by (fastforce simp: upload_answers_def)
qed

text \<open>C8: 
  a file that is uploaded to a peer that answers as the protocol says arrives whole: the upload ends well,
  and a download fed with the bytes it sent writes the same contents under the same name at the root and
  sends exactly the answers the upload was given, and a last acknowledgement. The file must not be empty.
\<close>

theorem transfer_roundtrip:
  assumes "posix_laws px content desc" and "posix_laws px' content' desc'"
    and "file_at px content (files (rym_user s)) path c" and "c \<noteq> []"
    and "\<not> rym_the_ctx s" and "prompt s" and "length mem = 1029"
    and "input s = octet RYM_CODE_C # upload_answers c @ ys"
    and "\<not> rym_the_ctx r" and "flowing r" and "length mem' = 1029" and "unat (rym_now r) + 3100 < 2 ^ 32"
    and "input r = upload_bytes path c @ rest"
    and "0 \<le> fst (px_open px' (0x2F # tl path) O_Create_Trunc (files (rym_user r)))"
  shows "\<exists>s' r'. rym_upload_file px True True (Some mem) path s = Ret (RYM_OK, s') \<and> input s' = ys
    \<and> rym_sent s' = rym_sent s @ upload_bytes path c
    \<and> rym_download_file px' True True (Some mem') r = Ret (RYM_OK, r') \<and> input r' = rest
    \<and> content' (files (rym_user r')) (0x2F # tl path) = Some c
    \<and> rym_sent r' = rym_sent r @ octet RYM_CODE_C # upload_answers c @ [octet RYM_CODE_ACK]"
proof -
  obtain s' where "rym_upload_file px True True (Some mem) path s = Ret (RYM_OK, s')" "input s' = ys"
    "rym_sent s' = rym_sent s @ upload_bytes path c"
    using followsD(1) [OF upload_follows [OF assms(1,3,5-8)], of ys] by blast
  moreover obtain r' where "rym_download_file px' True True (Some mem') r = Ret (RYM_OK, r')" "input r' = rest"
    "content' (files (rym_user r')) (0x2F # tl path) = Some c"
    "rym_sent r' = rym_sent r @ octet RYM_CODE_C # upload_answers c @ [octet RYM_CODE_ACK]"
    using download_upload [OF assms(2,3,9-14)] assms(4) by auto
  ultimately show ?thesis by blast
qed

text \<open>
  An empty file does not survive: it is sent with the size 0, which the receiver takes for a missing
  size, and it arrives as 128 bytes of padding.
\<close>

theorem empty_file_grows:
  assumes "posix_laws px content desc" and "file_at px' content' fs path []"
    and "\<not> rym_the_ctx r" and "flowing r" and "length mem = 1029" and "unat (rym_now r) + 3100 < 2 ^ 32"
    and "input r = upload_bytes path [] @ rest"
    and "0 \<le> fst (px_open px (0x2F # tl path) O_Create_Trunc (files (rym_user r)))"
  shows "\<exists>r'. rym_download_file px True True (Some mem) r = Ret (RYM_OK, r')
    \<and> content (files (rym_user r')) (0x2F # tl path) = Some (replicate 128 0x1A)"
  using download_upload [OF assms] by auto

text \<open>C25: 
  once the first C has come, an upload returns only if every answer comes: a peer that falls silent
  anywhere before the last one keeps the caller waiting for ever, whatever time passes. (The shell
  command that uploads a log holds the mutex the logger needs during the call.)
\<close>

theorem upload_waits_forever:
  assumes "posix_laws px content desc" and "file_at px content (files (rym_user s)) path c"
    and "\<not> rym_the_ctx s" and "prompt s" and "length mem = 1029"
    and "input s = octet RYM_CODE_C # take n (upload_answers c)" and "n < n_blocks c + 5"
  shows "rym_upload_file px True True (Some mem) path s = Stuck"
  using followsD(2) [OF upload_follows [OF assms(1-6)], of n] assms(7) by (simp add: upload_answers_length)

text \<open>
  Any other byte in the place of an answer, a negative acknowledgement of a packet among them, ends the
  upload with an error at once: no packet is sent again, and what the peer says after it is not read.
\<close>

theorem upload_gives_up:
  assumes "posix_laws px content desc" and "file_at px content (files (rym_user s)) path c"
    and "\<not> rym_the_ctx s" and "prompt s" and "length mem = 1029"
    and "input s = octet RYM_CODE_C # take n (upload_answers c) @ a # ys" and "n < n_blocks c + 5"
    and "a \<noteq> upload_answers c ! n"
  shows "\<exists>s'. rym_upload_file px True True (Some mem) path s = Ret (RYM_ERR_ACK, s')
    \<and> input s' = ys"
  using followsD(3) [OF upload_follows [OF assms(1-6)], of n] assms(7,8)
  by (simp add: upload_answers_length)

text \<open>C39: 
  a first packet of 1024 bytes, as senders of the protocol may use, writes past the end of the path:
  the name is copied with the length of the packet, not of the array.
\<close>

theorem long_first_packet_overflows:
  assumes "\<not> rym_the_ctx r" and "flowing r" and "length mem = 1029" and "unat (rym_now r) + 3100 < 2 ^ 32"
    and "input r = octet RYM_CODE_STX # tl (packet 0 d) @ rest" and "length d = 1024"
  shows "rym_download_file px True True (Some mem) r = Fault"
proof -
  let ?d = "(r\<lparr>rym_user := ctx_calloc (files (rym_user r))\<rparr>)\<lparr>rym_the_ctx := True, rx_sem := 0,
    dev_rx_ind := Rym_Rx_Ind, dev_flag := dev_flag r AND NOT RT_DEVICE_FLAG_STREAM\<rparr>"
  let ?r0 = "?d\<lparr>rym_stage := RYM_STAGE_NONE\<rparr>\<lparr>rym_buf := mem\<rparr>"
  have k: "(1000 :: nat) = Suc 999" by simp
  obtain r1 where "rym_do_handshake (download_cbs px) (Suc 999) ?r0 =
      run_bind (rym_call (on_begin (download_cbs px)) RYM_CODE_ACK (length d) r1)
        (\<lambda>(c, r2). Ret (if c \<noteq> RYM_CODE_ACK then RYM_ERR_CAN else RYM_OK, r2))"
    using recv_handshake_reads [of ?r0 RYM_CODE_STX d rest "download_cbs px" 999] assms(2-6) by auto
  then have "rym_do_handshake (download_cbs px) 1000 ?r0 = Fault"
    unfolding k by (simp add: rym_call_def rym_recv_begin_def DFS_PATH_MAX_def assms(6))
  then show ?thesis
    using assms(1) by (simp add: rym_download_file_def rym_recv_on_device_def on_device_def rym_do_recv_def)
qed

text \<open>A failed call of \<open>read\<close> counts the unsigned number of bytes down through zero.\<close>

lemma read_retries_fail:
  assumes "\<And>d n fs. px_read px d n fs = (- 1, [], fs)"
  shows "128 + k < unat rsz \<Longrightarrow>
    \<exists>z. read_retries k px d 128 rsz buf fs = Ret (z, buf, fs) \<and> \<not> z < 128"
proof (induction k arbitrary: rsz)
  case 0
  then show ?case by (simp add: word_less_nat_alt)
next
  case (Suc k)
  have u: "unat (rsz - 1) = unat rsz - 1" using Suc.prems by (subst unat_sub) (auto simp: word_le_nat_alt)
  then have "128 + k < unat (rsz - 1)" using Suc.prems by simp
  from Suc.IH [OF this] show ?case
    using assms u Suc.prems by (auto simp: word_unat_eq_iff Let_def)
qed

lemma send_data_fail:
  assumes "\<And>d n fs. px_read px d n fs = (- 1, [], fs)"
  shows "rym_send_data px 128 (st, buf, u) = Ret (RYM_CODE_SOH, st, buf, u)"
proof -
  have ten: "(10 :: nat) = Suc 9" by simp
  have m1: "unat (- 1 :: u32) = 2 ^ 32 - 1" by (simp add: unsigned_minus_1_eq_mask mask_eq_exp_minus_1)
  then have ne: "(- 1 :: u32) \<noteq> 128" by (auto simp: word_unat_eq_iff)
  have "128 + 9 < unat (- 1 :: u32)" unfolding m1 by simp
  then obtain z where "read_retries 9 px (fd u) 128 (- 1) buf (files u) = Ret (z, buf, files u)" "\<not> z < 128"
    using read_retries_fail [OF assms] by blast
  then have "read_retries 10 px (fd u) 128 0 buf (files u) = Ret (z, buf, files u)"
    unfolding ten read_retries.simps(2) using assms ne by simp
  then show ?thesis using \<open>\<not> z < 128\<close> by (simp add: rym_send_data_def)
qed

lemma send_loop_fail:
  assumes "\<And>d n fs. px_read px d n fs = (- 1, [], fs)"
  shows "rym_stage r = RYM_STAGE_TRANSMITTING \<Longrightarrow> rym_send_loop (upload_cbs px) i r \<noteq> Ret (RYM_OK, r')"
proof (induction "length (input r)" arbitrary: r i rule: less_induct)
  case less
  let ?r = "set_rx_ind (rym_send_packet RYM_CODE_SOH (ucast i) r)"
  have e: "rym_send_loop (upload_cbs px) i r = expect RYM_CODE_ACK ?r (\<lambda>r2.
      if rym_stage r2 = RYM_STAGE_FINISHING then Ret (RYM_OK, r2)
      else rym_send_loop (upload_cbs px) (i + 1) r2)"
    unfolding send_loop_expect [of "upload_cbs px" i r]
    by (simp add: rym_call_def send_data_fail [OF assms])
  have st: "rym_stage ?r = rym_stage r"
    by (simp add: set_rx_ind_def rym_send_packet_def put_buf_def rym_write_def Let_def)
  show ?case
  proof (cases "rym_getchar ?r")
    case (Ret x)
    then obtain a r2 where g: "rym_getchar ?r = Ret (a, r2)" by (cases x) simp
    then have lt: "length (input r2) < length (input r)" using getchar_input [OF g] by simp
    obtain b bs where b: "input ?r = b # bs" using getchar_input [OF g] by simp
    have "rym_stage r2 = RYM_STAGE_TRANSMITTING"
      using getchar_next [OF b] g less.prems st by (auto simp: same_def)
    with less.hyps [OF lt this] g show ?thesis unfolding e by (simp add: expect_def)
  qed (simp_all add: e expect_def)
qed

text \<open>
  When the file can be opened but not read, an upload never ends well: the failed calls make the number of
  bytes read huge instead of short, so that the last block is never reached and packets with what happens
  to be in the buffer go out for as long as the peer acknowledges them.
\<close>

theorem failed_read_never_ends:
  assumes "\<And>d n fs. px_read px d n fs = (- 1, [], fs)"
  shows "rym_upload_file px ctx_ok dev_ok mem path s \<noteq> Ret (RYM_OK, s')"
proof -
  have tr: "rym_do_send_trans (upload_cbs px) r \<noteq> Ret (RYM_OK, r')" for r r'
    using send_loop_fail [OF assms] by (simp add: rym_do_send_trans_def)
  have "rym_do_send mem (upload_cbs px) 1000 r \<noteq> Ret (RYM_OK, r')" for r r'
    using tr by (auto simp: rym_do_send_def Let_def run_bind_Ret split: option.splits if_splits)
  then show ?thesis
    by (auto simp: rym_upload_file_def rym_send_on_device_def on_device_def run_bind_Ret Let_def
        split: if_splits)
qed

text \<open>
  A read that succeeds after four that failed stores before the block: the count is then \<open>-4\<close>, and
  so is the distance of the store from the data at index 3.
\<close>

lemma late_read_overruns:
  assumes "px_read px = (\<lambda>d n fs. if fs < (4 :: nat) then (- 1, [], Suc fs) else (1, [b], Suc fs))"
    and "length buf = 1029"
  shows "read_retries 10 px d 128 0 buf 0 = Fault"
proof -
  have ten: "(10 :: nat) = Suc (Suc (Suc (Suc (Suc 5))))" by simp
  have m1: "unat (- 1 :: u32) = 2 ^ 32 - 1" by (simp add: unsigned_minus_1_eq_mask mask_eq_exp_minus_1)
  show ?thesis
    unfolding ten read_retries.simps(2) using assms by (simp add: Let_def m1)
qed

text \<open>C13: 
  no transfer writes outside the block of 1029 bytes it allocates, or fails an assertion: an upload of a
  path that fits its array does not, whatever the peer sends, while the reads of the file system do not
  fail; a download does not, whatever the file system does, while the peer sends no byte \<open>STX\<close>, with
  which packets of 1024 bytes begin. The block is as long as it was when the transfer returns.
\<close>

theorem transfers_stay_in_block:
  assumes "length mem = 1029" and "\<not> rym_the_ctx r"
  shows "(reads_succeed px \<and> length (c_str path) < DFS_PATH_MAX \<longrightarrow>
      rym_upload_file px True True (Some mem) path r \<noteq> Fault
      \<and> (\<forall>e r'. rym_upload_file px True True (Some mem) path r = Ret (e, r') \<longrightarrow> length (rym_buf r') = 1029))
    \<and> (word_of_nat RYM_CODE_STX \<notin> set (input r) \<longrightarrow>
      rym_download_file px True True (Some mem) r \<noteq> Fault
      \<and> (\<forall>e r'. rym_download_file px True True (Some mem) r = Ret (e, r') \<longrightarrow> length (rym_buf r') = 1029))"
proof (intro conjI impI)
  assume a: "reads_succeed px \<and> length (c_str path) < DFS_PATH_MAX"
  let ?u = "(ctx_calloc (files (rym_user r)))\<lparr>fpath := rt_strncpy DFS_PATH_MAX path\<rparr>"
  note id = unfailing_id [OF a [THEN conjunct1]]
  have p: "path_ok ?u" using strncpy_terminated a by (simp add: path_ok_def length_rt_strncpy)
  have "safe_run UNIV (\<lambda>_. True) (rym_do_send (Some mem) (upload_cbs px) 1000 q)" if "path_ok (rym_user q)" for q
    using up.do_send_safe [OF assms(1) that, of px] by (simp add: id)
  from up.on_device_safe [OF this, where r = "r\<lparr>rym_user := ?u\<rparr>"] p assms(2)
  have "rym_upload_file px True True (Some mem) path r \<noteq> Fault
      \<and> (\<forall>e r'. rym_upload_file px True True (Some mem) path r = Ret (e, r') \<longrightarrow> length (rym_buf r') = 1029)"
    by (simp add: rym_upload_file_def rym_send_on_device_def)
  then show "rym_upload_file px True True (Some mem) path r \<noteq> Fault"
    "\<forall>e r'. rym_upload_file px True True (Some mem) path r = Ret (e, r') \<longrightarrow> length (rym_buf r') = 1029" by auto
next
  assume a: "word_of_nat RYM_CODE_STX \<notin> set (input r)"
  let ?u = "ctx_calloc (files (rym_user r))"
  have p: "recv_idle ?u" by (simp add: recv_idle_def ctx_calloc_def DFS_PATH_MAX_def)
  have "safe_run (- {word_of_nat RYM_CODE_STX}) (\<lambda>_. True) (rym_do_recv (Some mem) (download_cbs px) 1000 q)"
    if "recv_idle (rym_user q)" "set (input q) \<subseteq> - {word_of_nat RYM_CODE_STX}" for q
    by (rule down.do_recv_safe [OF assms(1) that])
  from down.on_device_safe [OF this, where r = "r\<lparr>rym_user := ?u\<rparr>"] p a assms(2)
  have "rym_download_file px True True (Some mem) r \<noteq> Fault
      \<and> (\<forall>e r'. rym_download_file px True True (Some mem) r = Ret (e, r') \<longrightarrow> length (rym_buf r') = 1029)"
    by (auto simp: rym_download_file_def rym_recv_on_device_def)
  then show "rym_download_file px True True (Some mem) r \<noteq> Fault"
    "\<forall>e r'. rym_download_file px True True (Some mem) r = Ret (e, r') \<longrightarrow> length (rym_buf r') = 1029" by auto
qed

section \<open>Concrete transfers\<close>

text \<open>A file system in memory with one descriptor, which obeys the laws, and two ends of a line.\<close>

type_synonym mem_fs = "(u8 list \<Rightarrow> u8 list option) \<times> (u8 list \<times> nat) option"

definition mem_desc :: "mem_fs \<Rightarrow> int \<Rightarrow> (u8 list \<times> nat) option" where
  "mem_desc fs d = (if d = 3 then snd fs else None)"

definition mem_posix :: "mem_fs posix" where
  "mem_posix = \<lparr>
     px_open = (\<lambda>p mode (m, k).
       case mode of O_Create_Trunc \<Rightarrow> (3, m(p \<mapsto> []), Some (p, 0))
       | O_Read_Only \<Rightarrow> if m p = None then (- 1, m, k) else (3, m, Some (p, 0))),
     px_stat = (\<lambda>p (m, _). map_option (\<lambda>c. word_of_nat (length c)) (m p)),
     px_read = (\<lambda>d n (m, k). case mem_desc (m, k) d of None \<Rightarrow> (- 1, [], m, k)
       | Some (p, i) \<Rightarrow> (case m p of None \<Rightarrow> (- 1, [], m, k)
         | Some c \<Rightarrow> (int (length (take n (drop i c))), take n (drop i c), m, Some (p, i + length (take n (drop i c)))))),
     px_write = (\<lambda>d bs (m, k). case mem_desc (m, k) d of None \<Rightarrow> (m, k)
       | Some (p, i) \<Rightarrow> (case m p of None \<Rightarrow> (m, k)
         | Some c \<Rightarrow> (m(p \<mapsto> take i c @ bs @ drop (i + length bs) c), Some (p, i + length bs)))),
     px_close = (\<lambda>d (m, k). (m, None))\<rparr>"

lemma mem_posix_laws: "posix_laws mem_posix fst mem_desc"
  unfolding posix_laws_def
  by (intro conjI allI impI) (auto simp: mem_posix_def mem_desc_def split: if_splits option.splits)

definition demo_path :: "u8 list" where "demo_path = [0x2F, 0x61]"

definition sender :: "u8 list \<Rightarrow> u8 list \<Rightarrow> mem_fs custom_ctx rym" where
  "sender c bs = quiet_line (ctx_calloc ([demo_path \<mapsto> c], None)) bs"

definition receiver :: "u8 list \<Rightarrow> mem_fs custom_ctx rym" where
  "receiver bs = quiet_line (ctx_calloc (\<lambda>_. None, None)) bs"

lemma demo_simps [simp]:
  "length c < 2 ^ 31 \<Longrightarrow> file_at mem_posix fst (files (rym_user (sender c bs))) demo_path c"
  "\<not> rym_the_ctx (sender c bs)" "prompt (sender c bs) \<longleftrightarrow> bs \<noteq> []" "input (sender c bs) = bs"
  "\<not> rym_the_ctx (receiver bs)" "flowing (receiver bs)" "input (receiver bs) = bs"
  "rym_now (receiver bs) = 0" "rym_sent (sender c bs) = []" "rym_sent (receiver bs) = []"
  "0 \<le> fst (px_open mem_posix p O_Create_Trunc fs)" "0x2F # tl demo_path = demo_path"
  by (simp_all add: sender_def receiver_def file_at_def demo_path_def mem_posix_def ctx_calloc_def
      split: prod.splits)

theorem transfer_roundtrip_witness:
  "\<exists>s' r'. rym_upload_file mem_posix True True (Some (replicate 1029 0)) demo_path
      (sender [0x41] (octet RYM_CODE_C # upload_answers [0x41])) = Ret (RYM_OK, s')
    \<and> rym_download_file mem_posix True True (Some (replicate 1029 0))
        (receiver (upload_bytes demo_path [0x41])) = Ret (RYM_OK, r')
    \<and> fst (files (rym_user r')) demo_path = Some [0x41]"
  using transfer_roundtrip [OF mem_posix_laws mem_posix_laws,
      of "sender [0x41] (octet RYM_CODE_C # upload_answers [0x41])" demo_path "[0x41]" "replicate 1029 0" "[]"
        "receiver (upload_bytes demo_path [0x41])" "replicate 1029 0" "[]"]
  by auto

theorem upload_waits_forever_witness:
  "rym_upload_file mem_posix True True (Some (replicate 1029 0)) demo_path
    (sender [0x41] (octet RYM_CODE_C # take 3 (upload_answers [0x41]))) = Stuck"
  using upload_waits_forever [OF mem_posix_laws,
      of "sender [0x41] (octet RYM_CODE_C # take 3 (upload_answers [0x41]))" demo_path "[0x41]" "replicate 1029 0" 3]
  by simp

theorem upload_gives_up_witness:
  "\<exists>s'. rym_upload_file mem_posix True True (Some (replicate 1029 0)) demo_path
    (sender [0x41] (octet RYM_CODE_C # take 2 (upload_answers [0x41]) @ [octet RYM_CODE_NAK])) = Ret (RYM_ERR_ACK, s')"
proof -
  have "octet RYM_CODE_NAK \<noteq> upload_answers [0x41] ! 2"
    by (simp add: upload_answers_def n_blocks_def rym_codes)
  then show ?thesis
    using upload_gives_up [OF mem_posix_laws,
        of "sender [0x41] (octet RYM_CODE_C # take 2 (upload_answers [0x41]) @ [octet RYM_CODE_NAK])"
          demo_path "[0x41]" "replicate 1029 0" 2 "octet RYM_CODE_NAK" "[]"]
    by auto
qed

theorem long_first_packet_overflows_witness:
  "rym_download_file mem_posix True True (Some (replicate 1029 0))
    (receiver (octet RYM_CODE_STX # tl (packet 0 (replicate 1024 0)))) = Fault"
  using long_first_packet_overflows [of "receiver (octet RYM_CODE_STX # tl (packet 0 (replicate 1024 0)))"
      "replicate 1029 0" "replicate 1024 0" "[]" mem_posix]
  by simp

theorem transfers_stay_in_block_witness:
  "rym_upload_file (unfailing mem_posix) True True (Some (replicate 1029 0)) demo_path
      (sender [0x41] [octet RYM_CODE_C, octet RYM_CODE_ACK, 7, 9]) \<noteq> Fault
    \<and> rym_download_file mem_posix True True (Some (replicate 1029 0)) (receiver [1, 0, 0xFF, 0x41]) \<noteq> Fault"
proof -
  have p: "length (c_str demo_path) < DFS_PATH_MAX" by (simp add: c_str_def demo_path_def DFS_PATH_MAX_def)
  have s: "word_of_nat RYM_CODE_STX \<notin> set (input (receiver [1, 0, 0xFF, 0x41]))" by (simp add: rym_codes)
  have l: "length (replicate 1029 (0 :: u8)) = 1029" by (rule length_replicate)
  show ?thesis
    using transfers_stay_in_block [OF l demo_simps(2), of "unfailing mem_posix" demo_path]
      transfers_stay_in_block [OF l demo_simps(5), of mem_posix demo_path] unfailing_succeeds [of mem_posix] p s
    by blast
qed

end
