(* ===== verification/Spec2Isabelle.thy ===== *)
theory Spec2Isabelle
  imports Start_Up Timer_Check Heap_Client Msg_Queue_Check Sys_Watch_Check Ry_Sy_Check
begin

text \<open>
  SPSI\_Master is the firmware of a pressure-switch transmitter: an STM32F4 with two AX5043
  radios (433 MHz and 4068, its name for the 406.8 MHz link) that exchanges text frames with one
  peer, supervises both links by heartbeats, drives a valve relay and sixteen lights and a
  buzzer, and keeps a log in flash. It runs on RT-Thread. This development models the
  application, its drivers and packages, and the part of the kernel they rest on.

  \<^bold>\<open>How the program is modelled.\<close> The state is one record that grows from layer to layer, in
  the order of the theories; an operation is a function on the layer it belongs to, polymorphic in
  the rest (\<open>'a kern_scheme\<close> and so on), so that it visibly leaves the rest alone. Integers have
  their C width (\<open>u8\<close>, \<open>u16\<close>, \<open>u32\<close>). An error code is a value of \<open>rt_err\<close>; a failed
  \<open>RT_ASSERT\<close>, after which the code does not return, sets \<open>halted\<close>; an access outside an array or
  through a null pointer sets \<open>mem_fault\<close> or \<open>radio_fault\<close>, or is the value \<open>Fault\<close> or \<^const>\<open>None\<close> of
  the call. What C code does after such an access is undefined and not followed. \<open>rt_malloc\<close> answers from an oracle in
  the state. The body of a thread is a function for each segment between two places where the
  thread can block (delays, \<open>rt_sem_take\<close>); other threads and interrupts run between segments,
  which is where the interleavings of the theorems come from. Inside a segment nothing else runs;
  the log output (\<open>LOG_D\<close> and so on) is not part of the state.

  \<^bold>\<open>Parts.\<close>
  \<^item> \<open>Prelude\<close>: integer widths, error codes, the wrapping comparison of ticks, lists, bits.
  \<^item> \<open>Timer\<close>, \<open>Timer_Check\<close> (\<open>rt-thread/src/timer.c\<close>, \<open>clock.c\<close>): software timers on sorted
    lists. Starting and stopping keep the lists ordered; the check fires exactly the due timers
    (locale \<open>timer_callbacks\<close>, interpreted on the timeout of threads).
  \<^item> \<open>Ipc\<close>, \<open>Ipc_Objects\<close> (\<open>ipc.c\<close>, \<open>thread.c\<close>): semaphores, mutexes, events, suspension and
    timeouts; detaching, deleting and resetting. Invariant of all objects over any sequence of
    operations: where a waiting thread is listed, and the order of the lists, which holds as long as
    no waiting thread inherits a priority (\<open>inheritance_keeps_place\<close>); the mutex as a lock (locale
    \<open>lock\<close>).
  \<^item> \<open>Mailbox\<close>, \<open>Mailbox_Check\<close>, \<open>Msg_Queue\<close>, \<open>Msg_Queue_Check\<close> (\<open>ipc.c\<close>): mailboxes as bounded
    queues (locale \<open>bounded_deque\<close>: every call of every thread with its answer, up to the place where it is
    suspended), what a waiting sender gets; message queues, whose calls are
    split where interrupts are enabled: a step relation of any number of threads that simulates a
    sequence of messages.
  \<^item> \<open>Scheduler\<close>, \<open>Scheduler_Check\<close>, \<open>Scheduler_Run\<close> (\<open>scheduler.c\<close>, \<open>thread.c\<close>): the ready lists
    and their bitmap, the states of threads, time slices, the scheduler lock. The ready table is a
    queue by priority (locale \<open>priority_fifo\<close>); the step relation \<open>sched_step\<close> keeps its invariant.
  \<^item> \<open>Sys_Watch\<close>, \<open>Sys_Watch_Check\<close> (\<open>packages/syswatch-latest\<close>, \<open>drivers/drv_wdt.c\<close>): the
    watchdog and the thread that feeds it and resets a blocked system, together with the scheduler
    whose hook tells it who runs. Three invariants of runs (locale \<open>watch_invariant\<close>): no false
    reset, a reset in time, the right thread blamed. A run with the time of each turn
    (\<open>timed_run\<close>): the watch sleeps for as long as its code says.
  \<^item> \<open>Small_Mem\<close>, \<open>Heap_Check\<close>, \<open>Heap_Client\<close> (\<open>mem.c\<close>): the heap in the bytes of its region, with
    the block headers in it. It implements first fit on a list of blocks; clients own disjoint
    memory whose contents no call changes, for requests of up to \<open>2\<^sup>3\<^sup>2 - 4\<close> bytes.
  \<^item> \<open>C_Lib\<close>: what the sources use of \<open>sprintf\<close>, \<open>sscanf\<close>, \<open>atoi\<close>, \<open>strchr\<close>.
  \<^item> \<open>Agile_Led\<close>, \<open>Agile_Button\<close> (\<open>packages/agile_led-latest\<close>, \<open>agile_button-latest\<close>): the LED
    package (patterns, scan, invariant, termination) and the button package (state graph,
    debouncing over locale \<open>btn_callbacks\<close>).
  \<^item> \<open>Led\<close>, \<open>Seg\<close>, \<open>Psi\<close>, \<open>Warn\<close> (\<open>applications/led.c\<close>, \<open>seg.c\<close>, \<open>psi.c\<close>, \<open>warn.c\<close>): what the
    lights show (abstraction \<open>playing\<close>, \<open>dark\<close>), the alarm outputs (locale
    \<open>saturating_counter\<close>), the pressure switch and valve, and the warning thread.
  \<^item> \<open>Radio_Drv\<close>, \<open>Radio_Common\<close>, \<open>Radio_Config\<close> (\<open>radio/Radio_Drv.c\<close>, \<open>Radio_Common.c\<close>, the two
    configuration headers): the chip is an arbitrary source of register values (\<open>chip\<close>), and
    what is sent to it is recorded (\<open>wire\<close>), so the theorems speak about the bytes on the bus.
  \<^item> \<open>Radio_Encoder\<close> (\<open>Radio_Encoder.c\<close>): the transmit queues, a refinement of lists while there are
    slots, which are free again only when the queue is found empty (locale \<open>message_queue\<close>), and the
    frames.
  \<^item> \<open>Radio_Decoder\<close> (\<open>Radio_Decoder.c\<close>): parsing and acting upon received frames.
  \<^item> \<open>Radio_Task\<close> (\<open>Radio_433.c\<close>, \<open>Radio_4068.c\<close>): interrupt threads, send timers and start-up of
    the radios; a message from the queue to the FIFO and from the FIFO to the application (locale
    \<open>register_frame\<close> for what register accesses leave alone).
  \<^item> \<open>Storage\<close>, \<open>File_Log\<close> (\<open>flashwork.c\<close>, \<open>filesystem/little.c\<close>, \<open>file.c\<close>): settings and logs over
    the interfaces of EasyFlash and the file system, which are a parameter (\<open>storage_ops\<close>) with
    their documented behaviour as the hypothesis \<open>storage_ok\<close>; \<open>ram_ops\<close> satisfies it.
  \<^item> \<open>Crc16\<close>, \<open>Ymodem\<close>, \<open>Ymodem_Check\<close>, \<open>Ymodem_Buffer\<close> (\<open>components/utilities/ymodem/ymodem.c\<close>):
    the Y-modem protocol in both directions over a line that delivers bytes in time. Which errors
    the checksum finds; what each operation reads of the stream; the sender as a run along a
    script of answers (\<open>follows\<close>); no write outside the buffer (locale \<open>rym_client\<close>: what callbacks have
    to keep to and on which streams of bytes, interpreted on the callbacks of both directions).
  \<^item> \<open>Ry_Sy\<close>, \<open>Ry_Sy_Check\<close> (\<open>ymodem/ry_sy.c\<close>): sending and receiving a file over the interface
    \<open>posix\<close> of the file system (\<open>posix_laws\<close>, which \<open>mem_posix\<close> satisfies). An upload and a
    download fit together and move the file, and what happens when one of them goes wrong.
  \<^item> \<open>Heart\<close> (\<open>heart.c\<close>): the supervision of the links and the test thread. \<open>heart_step\<close> is everything
    but the test button; \<open>supervision_step\<close> adds its thread, which counts failures of the same links.
  \<^item> \<open>Button\<close> (\<open>button.c\<close>): the test button, an instance of the button package.
  \<^item> \<open>Start_Up\<close> (\<open>main.c\<close>): the whole start-up, which establishes what the other theorems assume.

  \<^bold>\<open>Loops and fuel.\<close> A loop that waits for the chip, walks a list that callbacks change, or checks
  timers takes a number of turns and is \<^const>\<open>None\<close> when they are used up; no theorem assumes
  that a run returns. Three turns are enough to send or receive a packet when the chip is ready
  (\<open>radio_send_complete\<close>, \<open>radio_receive_complete\<close>), \<open>(n + 1)\<^sup>2\<close> for a scan of \<open>n\<close> LEDs, \<open>n\<close> for
  one of \<open>n\<close> buttons, one more than the number of timers for a check of one-shot timers, one for
  the calibration loops when the converter is ready, one per waiting thread to resume all of a list
  and one per message to empty a queue, three more than a sixteenth of the size of the heap for an
  allocation; where nothing is enough, a theorem says so
  (\<open>tx_framing_hang\<close>, \<open>zero_period_hangs\<close>, a dead chip in \<open>radio_startup_complete\<close>). The loops of
  the Y-modem transfer read a byte in every turn and end by themselves; only a wait without a
  timeout and the first packet of a download may not return, which is the value \<open>Stuck\<close>.

  \<^bold>\<open>Not modelled.\<close> The object container and its names, memory pools, the skip-list levels that
  the configuration does not use, hooks and stack checks; the interrupt of the pressure switch's pin (attached and enabled in
  \<open>psi_init\<close>, disabled and enabled around each turn of its thread); the \<open>kern\<close> layers do not call the
  scheduler and the radio application takes the answers of \<open>rt_malloc\<close> from an oracle, so that its
  theorems hold for every choice the two can make; attaching SPI devices and the bus transfers of
  the HAL, which the sources assume to succeed; the shell, and how its commands switch the console
  for a transfer (in \<open>File_Log\<close> the transfer is a parameter; \<open>Ry_Sy\<close> is what it does); the
  vendored EasyFlash, FAL, littlefs and CMSIS packages, of which only the interfaces are used here;
  the rest of RT-Thread, which the application does not call.
\<close>

end
